(* ===== verification/Prelude.thy ===== *)
theory Prelude
  imports Main "HOL-Library.Word" "HOL-Library.Sublist"
begin

text \<open>
  Shared vocabulary of the development: machine-integer synonyms, the error sum in which every
  operation that may stop returns, the C string and byte-array helpers the components share, and
  the generic lemmas about them.
\<close>

unbundle bit_operations_syntax

type_synonym u8 = "8 word"
type_synonym u16 = "16 word"
type_synonym u32 = "32 word"

named_theorems model_defs \<open>definitions unfolded by the component proofs\<close>

subsection \<open>The error sum\<close>

text \<open>How a C execution can end without returning to its caller.\<close>

datatype stop =
    Assert_Hang string   \<comment> \<open>a failed assertion without a hook: log, then \<open>while (1)\<close>\<close>
  | Out_Of_Bounds string \<comment> \<open>an array access outside its object\<close>
  | Null_Deref string    \<comment> \<open>a null pointer is read or called\<close>
  | Uninitialised string \<comment> \<open>an automatic variable is read before it is written\<close>
  | Div_By_Zero string \<comment> \<open>an integer division by zero\<close>

definition bindE :: "'e + 'a \<Rightarrow> ('a \<Rightarrow> 'e + 'b) \<Rightarrow> 'e + 'b" where
  "bindE m f = (case m of Inl e \<Rightarrow> Inl e | Inr a \<Rightarrow> f a)"

lemma bindE_simps [simp]:
  "bindE (Inl e) f = Inl e"
  "bindE (Inr a) f = f a"
  by (simp_all add: bindE_def)

lemma bindE_InrE:
  assumes "bindE m f = Inr b"
  obtains a where "m = Inr a" and "f a = Inr b"
  using assms by (cases m) auto

text \<open>
  A run that may also not return: \<open>None\<close>. \<open>andthen\<close> sequences two runs.
\<close>

type_synonym 'a run = "(stop + 'a) option"

definition andthen :: "'a run \<Rightarrow> ('a \<Rightarrow> 'b run) \<Rightarrow> 'b run" where
  "andthen m f = (case m of None \<Rightarrow> None | Some (Inl e) \<Rightarrow> Some (Inl e) | Some (Inr a) \<Rightarrow> f a)"

abbreviation returns :: "'a \<Rightarrow> 'a run" where "returns a \<equiv> Some (Inr a)"

abbreviation stops :: "stop \<Rightarrow> 'a run" where "stops e \<equiv> Some (Inl e)"

lemma andthen_simps [simp]:
  "andthen None f = None"
  "andthen (stops e) f = stops e"
  "andthen (returns a) f = f a"
  by (simp_all add: andthen_def)

lemma andthen_retE:
  assumes "andthen m f = returns b"
  obtains a where "m = returns a" and "f a = returns b"
  using assms by (auto simp: andthen_def split: option.splits sum.splits)

subsection \<open>Byte arrays\<close>

text \<open>\<open>memcpy (buf + off, data, len)\<close> inside a statically allocated array.\<close>

definition write_at :: "nat \<Rightarrow> 'a list \<Rightarrow> 'a list \<Rightarrow> 'a list" where
  "write_at off data buf = take off buf @ data @ drop (off + length data) buf"

lemma length_write_at [simp]:
  "off + length data \<le> length buf \<Longrightarrow> length (write_at off data buf) = length buf"
  by (simp add: write_at_def)

lemma write_at_Nil [simp]: "write_at off [] buf = buf"
  by (simp add: write_at_def)

lemma take_write_at [simp]:
  "off + length data \<le> length buf \<Longrightarrow>
   take (off + length data) (write_at off data buf) = take off buf @ data"
  by (simp add: write_at_def)

lemma take_write_at_prefix [simp]:
  "n \<le> off \<Longrightarrow> off \<le> length buf \<Longrightarrow> take n (write_at off data buf) = take n buf"
  by (simp add: write_at_def min_def)

lemma write_at_whole:
  "length data = length buf \<Longrightarrow> write_at 0 data buf = data"
  by (simp add: write_at_def)

lemma write_at_Cons:
  assumes "off < length buf"
  shows "write_at off (c # cs) buf = write_at (Suc off) cs (buf[off := c])"
proof -
  have "take (Suc off) (buf[off := c]) = take off buf @ [c]"
    using assms by (simp add: take_Suc_conv_app_nth)
  moreover have "drop (Suc off + length cs) (buf[off := c]) = drop (Suc off + length cs) buf"
    by simp
  ultimately show ?thesis by (simp add: write_at_def)
qed

subsection \<open>C strings\<close>

text \<open>
  The text of a C string is the characters before its terminating NUL; a list without a NUL
  stands for itself, its terminator being the end of the list.
\<close>

abbreviation NUL :: char where "NUL \<equiv> CHR 0x00"

definition cstr :: "char list \<Rightarrow> string" where
  "cstr s = takeWhile (\<lambda>c. c \<noteq> NUL) s"

definition strlen :: "char list \<Rightarrow> nat" where
  "strlen s = length (cstr s)"

text \<open>\<open>strstr (hay, needle) \<noteq> NULL\<close>.\<close>

definition strstr :: "char list \<Rightarrow> char list \<Rightarrow> bool" where
  "strstr hay needle = sublist (cstr needle) (cstr hay)"

text \<open>\<open>strncmp (s, t, n) == 0\<close>: the first \<open>n\<close> characters agree, up to the terminator.\<close>

definition strncmp_eq :: "char list \<Rightarrow> char list \<Rightarrow> nat \<Rightarrow> bool" where
  "strncmp_eq s t n = (take n (cstr s) = take n (cstr t))"

text \<open>\<open>strncpy (dst, src, n)\<close>: at most \<open>n\<close> characters, padded with NULs up to \<open>n\<close>.\<close>

definition strncpy :: "char list \<Rightarrow> char list \<Rightarrow> nat \<Rightarrow> char list" where
  "strncpy dst src n =
     (let t = take n (cstr src) in write_at 0 (t @ replicate (n - length t) NUL) dst)"

lemma cstr_id [simp]: "NUL \<notin> set s \<Longrightarrow> cstr s = s"
  unfolding cstr_def by (induction s) auto

lemma NUL_notin_cstr [simp]: "NUL \<notin> set (cstr s)"
  by (auto simp: cstr_def dest: set_takeWhileD)

lemma cstr_idem [simp]: "cstr (cstr s) = cstr s"
  by simp

lemma cstr_append_NUL [simp]: "NUL \<notin> set s \<Longrightarrow> cstr (s @ NUL # t) = s"
  unfolding cstr_def by (induction s) auto

lemma cstr_append_replicate_NUL:
  "NUL \<notin> set s \<Longrightarrow> cstr (s @ replicate n NUL) = s"
  by (cases n) simp_all

lemma cstr_Nil [simp]: "cstr [] = []"
  by (simp add: cstr_def)

lemma cstr_NUL [simp]: "cstr (NUL # s) = []"
  by (simp add: cstr_def)

lemma NUL_notin_take_cstr [simp]: "NUL \<notin> set (take n (cstr s))"
  by (meson NUL_notin_cstr in_set_takeD)

lemma length_strncpy [simp]: "n \<le> length dst \<Longrightarrow> length (strncpy dst src n) = length dst"
  by (simp add: strncpy_def Let_def)

text \<open>
  A destination one longer than the count, whose last byte is NUL, holds the truncated source
  afterwards, still terminated.
\<close>

lemma strncpy_terminated:
  assumes "length dst = Suc n" and "dst ! n = NUL"
  shows "strncpy dst src n ! n = NUL" and "cstr (strncpy dst src n) = take n (cstr src)"
proof -
  let ?t = "take n (cstr src)"
  have "drop n dst = [NUL]"
    using assms by (simp add: Cons_nth_drop_Suc [symmetric])
  then have eq: "strncpy dst src n = ?t @ replicate (n - length ?t) NUL @ [NUL]"
    by (simp add: strncpy_def Let_def write_at_def)
  have len: "length (?t @ replicate (n - length ?t) NUL) = n"
    by simp
  show "strncpy dst src n ! n = NUL"
    using len unfolding eq append_assoc [symmetric] by (metis nth_append_length)
  show "cstr (strncpy dst src n) = ?t"
    unfolding eq
    by (metis NUL_notin_take_cstr cstr_append_replicate_NUL replicate_append_same
        replicate_Suc)
qed

subsection \<open>List facts used by several components\<close>

lemma nth_take_Suc: "n < length xs \<Longrightarrow> take (Suc n) xs = take n xs @ [xs ! n]"
  by (rule take_Suc_conv_app_nth)

lemma take_len_take: "take (length (take n xs)) xs = take n xs"
  by (simp add: min_def)

lemma take_append_if:
  "take n (xs @ ys) = (if n \<le> length xs then take n xs else xs @ take (n - length xs) ys)"
  by simp

end
