(* ===== verification/ElogUtils.thy ===== *)
theory ElogUtils
  imports Prelude
begin

text \<open>
  \<^verbatim>\<open>com/easylogger/src/elog_utils.c\<close>: the bounded string copy every line is assembled with, the
  line splitter and the byte copy. A pointer that the C code asserts to be non-null is an
  \<open>option\<close>; a failed assertion stops in the endless loop of \<open>ELOG_ASSERT\<close> unless a hook is
  installed, and then the null pointer is read.
\<close>

definition ELOG_LINE_BUF_SIZE :: nat where "ELOG_LINE_BUF_SIZE = 1024"
definition ELOG_NEWLINE_SIGN :: string where "ELOG_NEWLINE_SIGN = [CHR 0x0A]"

subsection \<open>elog_strcpy\<close>

text \<open>
  The copy loop: \<open>cur_len\<close> is the length already used, \<open>off\<close> the index of \<open>dst\<close> in its
  buffer. It yields the number of characters copied and the buffer.
\<close>

fun elog_strcpy_loop :: "nat \<Rightarrow> nat \<Rightarrow> char list \<Rightarrow> char list \<Rightarrow> stop + nat \<times> char list" where
  "elog_strcpy_loop cur_len off buf [] = Inr (0, buf)"
| "elog_strcpy_loop cur_len off buf (c # cs) =
     (if c = NUL then Inr (0, buf)
      else if cur_len < ELOG_LINE_BUF_SIZE then
        (if off < length buf then
           bindE (elog_strcpy_loop (Suc cur_len) (Suc off) (buf[off := c]) cs)
             (\<lambda>(n, b). Inr (Suc n, b))
         else Inl (Out_Of_Bounds ''dst''))
      else Inr (0, buf))"

definition elog_strcpy ::
  "bool \<Rightarrow> nat \<Rightarrow> nat \<Rightarrow> char list \<Rightarrow> char list option \<Rightarrow> stop + nat \<times> char list" where
  "elog_strcpy hook cur_len off buf src =
     (case src of
        None \<Rightarrow> Inl (if hook then Null_Deref ''src'' else Assert_Hang ''src'')
      | Some s \<Rightarrow> elog_strcpy_loop cur_len off buf s)"

lemma elog_strcpy_loop_eq:
  assumes "length buf = ELOG_LINE_BUF_SIZE" and "cur \<le> ELOG_LINE_BUF_SIZE"
  shows "elog_strcpy_loop cur cur buf s =
    (let t = take (ELOG_LINE_BUF_SIZE - cur) (cstr s) in Inr (length t, write_at cur t buf))"
  using assms
proof (induction s arbitrary: cur buf)
  case Nil
  then show ?case by simp
next
  case (Cons c cs)
  show ?case
  proof (cases "c \<noteq> NUL \<and> cur < ELOG_LINE_BUF_SIZE")
    case True
    let ?t = "take (ELOG_LINE_BUF_SIZE - Suc cur) (cstr cs)"
    have "elog_strcpy_loop (Suc cur) (Suc cur) (buf[cur := c]) cs =
        Inr (length ?t, write_at (Suc cur) ?t (buf[cur := c]))"
      using Cons.IH [of "buf[cur := c]" "Suc cur"] Cons.prems True by (simp add: Let_def)
    moreover have "take (ELOG_LINE_BUF_SIZE - cur) (cstr (c # cs)) = c # ?t"
      using True by (simp add: cstr_def take_Cons' )
    ultimately show ?thesis
      using True Cons.prems by (simp add: Let_def write_at_Cons)
  next
    case False
    then show ?thesis using Cons.prems by (auto simp: cstr_def)
  qed
qed

lemma elog_strcpy_eq:
  assumes "length buf = ELOG_LINE_BUF_SIZE" and "cur \<le> ELOG_LINE_BUF_SIZE"
  shows "elog_strcpy h cur cur buf (Some s) =
    (let t = take (ELOG_LINE_BUF_SIZE - cur) (cstr s) in Inr (length t, write_at cur t buf))"
  using elog_strcpy_loop_eq [OF assms] by (simp add: elog_strcpy_def)

subsection \<open>elog_cpyln\<close>

text \<open>
  Copies up to and including the first newline sign. \<open>None\<close> is a read past the end of the log
  buffer; the characters copied so far are the first argument.
\<close>

fun elog_cpyln_loop :: "char list \<Rightarrow> char list \<Rightarrow> nat \<Rightarrow> char list option" where
  "elog_cpyln_loop line log 0 = Some line"
| "elog_cpyln_loop line [] (Suc len) = None"
| "elog_cpyln_loop line (c # log) (Suc len) =
     (let line' = line @ [c]; newline_len = length ELOG_NEWLINE_SIGN in
      if newline_len \<le> length line' \<and>
         drop (length line' - newline_len) line' = ELOG_NEWLINE_SIGN
      then Some line'
      else elog_cpyln_loop line' log len)"

text \<open>The copied line, whose length is the function's result.\<close>

definition elog_cpyln :: "char list \<Rightarrow> nat \<Rightarrow> char list option" where
  "elog_cpyln log len = elog_cpyln_loop [] log len"

definition first_line :: "char list \<Rightarrow> char list" where
  "first_line xs =
     (if CHR 0x0A \<in> set xs then takeWhile (\<lambda>c. c \<noteq> CHR 0x0A) xs @ [CHR 0x0A] else xs)"

lemma elog_cpyln_loop_eq:
  "len \<le> length log \<Longrightarrow> elog_cpyln_loop line log len = Some (line @ first_line (take len log))"
proof (induction line log len rule: elog_cpyln_loop.induct)
  case (3 line c log len)
  then show ?case
    by (cases "c = CHR 0x0A") (auto simp: ELOG_NEWLINE_SIGN_def first_line_def)
qed (auto simp: first_line_def)

lemma elog_cpyln_eq: "len \<le> length log \<Longrightarrow> elog_cpyln log len = Some (first_line (take len log))"
  by (simp add: elog_cpyln_def elog_cpyln_loop_eq)

subsection \<open>elog_memcpy\<close>

fun elog_memcpy_loop :: "nat \<Rightarrow> char list \<Rightarrow> char list \<Rightarrow> nat \<Rightarrow> stop + char list" where
  "elog_memcpy_loop i dst src 0 = Inr dst"
| "elog_memcpy_loop i dst src (Suc count) =
     (if i < length src \<and> i < length dst
      then elog_memcpy_loop (Suc i) (dst[i := src ! i]) src count
      else Inl (Out_Of_Bounds ''memcpy''))"

definition elog_memcpy :: "char list \<Rightarrow> char list \<Rightarrow> nat \<Rightarrow> stop + char list" where
  "elog_memcpy dst src count = elog_memcpy_loop 0 dst src count"

lemma elog_memcpy_loop_eq:
  "i + count \<le> length src \<Longrightarrow> i + count \<le> length dst \<Longrightarrow>
   elog_memcpy_loop i dst src count = Inr (write_at i (take count (drop i src)) dst)"
proof (induction i dst src count rule: elog_memcpy_loop.induct)
  case (2 i dst src count)
  then have "take (Suc count) (drop i src) = src ! i # take count (drop (Suc i) src)"
    by (simp add: take_Suc hd_drop_conv_nth drop_Suc tl_drop)
  with 2 show ?case by (simp add: write_at_Cons)
qed simp

lemma elog_memcpy_eq:
  "count \<le> length src \<Longrightarrow> count \<le> length dst \<Longrightarrow>
   elog_memcpy dst src count = Inr (take count src @ drop count dst)"
  by (simp add: elog_memcpy_def elog_memcpy_loop_eq write_at_def)

end
