(* ===== verification/ElogBuf.thy ===== *)
theory ElogBuf
  imports ElogUtils
begin

text \<open>
  The state of the EasyLogger library (the static variables of \<^verbatim>\<open>elog.c\<close> and \<^verbatim>\<open>elog_buf.c\<close>),
  the output lock of \<^verbatim>\<open>elog.c\<close>, the calls into the platform port of \<^verbatim>\<open>elog_port.c\<close> as a trace,
  and the buffered output mode of \<^verbatim>\<open>elog_buf.c\<close>.
\<close>

definition ELOG_BUF_OUTPUT_BUF_SIZE :: nat where
  "ELOG_BUF_OUTPUT_BUF_SIZE = ELOG_LINE_BUF_SIZE * 10"

subsection \<open>State\<close>

record tag_lvl_filter =
  tl_level :: nat
  tl_tag :: "char list"       \<comment> \<open>\<open>char tag[ELOG_FILTER_TAG_MAX_LEN + 1]\<close>\<close>
  tl_use_flag :: bool

record elog_filter =
  flt_level :: nat
  flt_tag :: "char list"      \<comment> \<open>\<open>char tag[ELOG_FILTER_TAG_MAX_LEN + 1]\<close>\<close>
  flt_keyword :: "char list"  \<comment> \<open>\<open>char keyword[ELOG_FILTER_KW_MAX_LEN + 1]\<close>\<close>
  flt_tag_lvl :: "tag_lvl_filter list"

record easy_logger =
  el_filter :: elog_filter
  enabled_fmt_set :: "u32 list"
  init_ok :: bool
  output_enabled :: bool
  output_lock_enabled :: bool
  output_is_locked_before_enable :: bool
  output_is_locked_before_disable :: bool
  text_color_enabled :: bool

text \<open>Calls that leave the library: into the port, and into an installed assert hook.\<close>

datatype port_event = Port_Lock | Port_Unlock | Port_Output "char list" | Hook_Call string

record logger =
  elog :: easy_logger
  line_buf :: "char list"     \<comment> \<open>\<open>log_buf\<close> of \<^verbatim>\<open>elog.c\<close>\<close>
  assert_hook :: bool         \<comment> \<open>\<open>elog_assert_hook != NULL\<close>\<close>
  out_buf :: "char list"      \<comment> \<open>\<open>log_buf\<close> of \<^verbatim>\<open>elog_buf.c\<close>\<close>
  buf_write_size :: nat
  buf_is_enabled :: bool
  trace :: "port_event list"

definition emit :: "port_event \<Rightarrow> logger \<Rightarrow> logger" where
  "emit e s = s\<lparr>trace := trace s @ [e]\<rparr>"

text \<open>
  The port of this repository has empty bodies for output and locking; the model records each
  call. Its information getters all return NULL.
\<close>

definition elog_port_output :: "char list \<Rightarrow> logger \<Rightarrow> logger" where
  "elog_port_output log s = emit (Port_Output log) s"

definition elog_port_output_lock :: "logger \<Rightarrow> logger" where
  "elog_port_output_lock s = emit Port_Lock s"

definition elog_port_output_unlock :: "logger \<Rightarrow> logger" where
  "elog_port_output_unlock s = emit Port_Unlock s"

definition elog_port_get_time :: "string option" where "elog_port_get_time = None"
definition elog_port_get_p_info :: "string option" where "elog_port_get_p_info = None"
definition elog_port_get_t_info :: "string option" where "elog_port_get_t_info = None"

subsection \<open>Output lock\<close>

abbreviation upd_elog :: "(easy_logger \<Rightarrow> easy_logger) \<Rightarrow> logger \<Rightarrow> logger" where
  "upd_elog f s \<equiv> s\<lparr>elog := f (elog s)\<rparr>"

definition elog_output_lock :: "logger \<Rightarrow> logger" where
  "elog_output_lock s =
     (if output_lock_enabled (elog s) then
        upd_elog (\<lambda>e. e\<lparr>output_is_locked_before_disable := True\<rparr>) (elog_port_output_lock s)
      else upd_elog (\<lambda>e. e\<lparr>output_is_locked_before_enable := True\<rparr>) s)"

definition elog_output_unlock :: "logger \<Rightarrow> logger" where
  "elog_output_unlock s =
     (if output_lock_enabled (elog s) then
        upd_elog (\<lambda>e. e\<lparr>output_is_locked_before_disable := False\<rparr>) (elog_port_output_unlock s)
      else upd_elog (\<lambda>e. e\<lparr>output_is_locked_before_enable := False\<rparr>) s)"

definition elog_output_lock_enabled :: "bool \<Rightarrow> logger \<Rightarrow> logger" where
  "elog_output_lock_enabled enabled s0 =
     (let s = upd_elog (\<lambda>e. e\<lparr>output_lock_enabled := enabled\<rparr>) s0 in
      if output_lock_enabled (elog s) then
        (if \<not> output_is_locked_before_disable (elog s) \<and> output_is_locked_before_enable (elog s)
         then elog_port_output_lock s
         else if output_is_locked_before_disable (elog s) \<and>
                 \<not> output_is_locked_before_enable (elog s)
         then elog_port_output_unlock s
         else s)
      else s)"

subsection \<open>Buffered output\<close>

text \<open>
  The loop of \<open>elog_buf_output\<close>: \<open>rest\<close> is what is left of the log (\<open>log + write_index\<close>,
  \<open>size\<close> bytes). The sum in its guard is a 32-bit \<open>size_t\<close> sum.
\<close>

function elog_buf_output_loop :: "char list \<Rightarrow> logger \<Rightarrow> logger" where
  "elog_buf_output_loop rest s =
     (if ELOG_BUF_OUTPUT_BUF_SIZE < (buf_write_size s + length rest) mod 2 ^ 32 then
        (let write_size = ELOG_BUF_OUTPUT_BUF_SIZE - buf_write_size s;
             b = write_at (buf_write_size s) (take write_size rest) (out_buf s)
         in elog_buf_output_loop (drop write_size rest)
              ((elog_port_output b (s\<lparr>out_buf := b\<rparr>))\<lparr>buf_write_size := 0\<rparr>))
      else s\<lparr>out_buf := write_at (buf_write_size s) rest (out_buf s),
             buf_write_size := buf_write_size s + length rest\<rparr>)"
  by pat_completeness auto
termination
  by (relation "measure (\<lambda>(rest, s). 2 * length rest + (if buf_write_size s = 0 then 0 else 1))")
    (auto simp: ELOG_BUF_OUTPUT_BUF_SIZE_def ELOG_LINE_BUF_SIZE_def elog_port_output_def emit_def
       split: if_splits dest: less_le_trans [OF _ mod_less_eq_dividend])

declare elog_buf_output_loop.simps [simp del]

definition elog_buf_output :: "char list \<Rightarrow> logger \<Rightarrow> logger" where
  "elog_buf_output log s =
     (if \<not> buf_is_enabled s then elog_port_output log s else elog_buf_output_loop log s)"

definition elog_flush :: "logger \<Rightarrow> logger" where
  "elog_flush s =
     (if buf_write_size s = 0 then s
      else elog_output_unlock
        ((elog_port_output (take (buf_write_size s) (out_buf s)) (elog_output_lock s))
           \<lparr>buf_write_size := 0\<rparr>))"

definition elog_buf_enabled :: "bool \<Rightarrow> logger \<Rightarrow> logger" where
  "elog_buf_enabled enabled s = s\<lparr>buf_is_enabled := enabled\<rparr>"


subsection \<open>Sinks: no byte lost, duplicated or reordered\<close>

text \<open>
  What a client of an output routine relies on: each call appends exactly the bytes it is given
  to the stream that has been or will be delivered.
\<close>

locale log_sink =
  fixes out :: "char list \<Rightarrow> 's \<Rightarrow> 's"
    and stream :: "'s \<Rightarrow> char list"
    and ok :: "'s \<Rightarrow> bool"
    and legal :: "char list \<Rightarrow> bool"
  assumes out_stream: "ok s \<Longrightarrow> legal xs \<Longrightarrow> stream (out xs s) = stream s @ xs"
    and out_ok: "ok s \<Longrightarrow> legal xs \<Longrightarrow> ok (out xs s)"
begin

lemma outs_ok: "ok s \<Longrightarrow> \<forall>xs \<in> set xss. legal xs \<Longrightarrow> ok (fold out xss s)"
  by (induction xss arbitrary: s) (auto simp: out_ok)

lemma outs_stream:
  "ok s \<Longrightarrow> \<forall>xs \<in> set xss. legal xs \<Longrightarrow> stream (fold out xss s) = stream s @ concat xss"
  by (induction xss arbitrary: s) (auto simp: out_ok out_stream)

end

text \<open>The chunks handed to the port, in order, and the bytes still held back.\<close>

fun port_chunks :: "port_event list \<Rightarrow> char list list" where
  "port_chunks [] = []"
| "port_chunks (Port_Output xs # es) = xs # port_chunks es"
| "port_chunks (_ # es) = port_chunks es"

definition delivered :: "logger \<Rightarrow> char list" where
  "delivered s = concat (port_chunks (trace s))"

definition pending :: "logger \<Rightarrow> char list" where
  "pending s = take (buf_write_size s) (out_buf s)"

definition written :: "logger \<Rightarrow> char list" where
  "written s = delivered s @ pending s"

definition buf_ok :: "logger \<Rightarrow> bool" where
  "buf_ok s \<longleftrightarrow>
     length (out_buf s) = ELOG_BUF_OUTPUT_BUF_SIZE \<and>
     buf_write_size s \<le> ELOG_BUF_OUTPUT_BUF_SIZE"

lemma port_chunks_append [simp]: "port_chunks (es @ fs) = port_chunks es @ port_chunks fs"
  by (induction es rule: port_chunks.induct) auto

lemma emit_simps [simp]:
  "elog (emit e s) = elog s" "line_buf (emit e s) = line_buf s"
  "assert_hook (emit e s) = assert_hook s" "out_buf (emit e s) = out_buf s"
  "buf_write_size (emit e s) = buf_write_size s" "buf_is_enabled (emit e s) = buf_is_enabled s"
  "trace (emit e s) = trace s @ [e]"
  by (simp_all add: emit_def)

lemmas buf_sizes = ELOG_BUF_OUTPUT_BUF_SIZE_def ELOG_LINE_BUF_SIZE_def

definition log_size_ok :: "char list \<Rightarrow> bool" where
  "log_size_ok xs \<longleftrightarrow> ELOG_BUF_OUTPUT_BUF_SIZE + length xs < 2 ^ 32"

lemma log_size_ok_line: "length xs \<le> ELOG_LINE_BUF_SIZE \<Longrightarrow> log_size_ok xs"
  by (simp add: log_size_ok_def buf_sizes)

lemma elog_buf_output_loop_spec:
  assumes "buf_ok s" and "log_size_ok rest"
  shows "buf_ok (elog_buf_output_loop rest s) \<and>
         written (elog_buf_output_loop rest s) = written s @ rest \<and>
         elog (elog_buf_output_loop rest s) = elog s \<and>
         (\<exists>chunks. trace (elog_buf_output_loop rest s) = trace s @ map Port_Output chunks \<and>
                   (\<forall>c \<in> set chunks. length c = ELOG_BUF_OUTPUT_BUF_SIZE))"
  using assms
proof (induction rest s rule: elog_buf_output_loop.induct)
  case (1 rest s)
  have nowrap: "(buf_write_size s + length rest) mod 2 ^ 32 = buf_write_size s + length rest"
    using "1.prems" by (simp add: buf_ok_def log_size_ok_def)
  show ?case
  proof (cases "ELOG_BUF_OUTPUT_BUF_SIZE < buf_write_size s + length rest")
    case True
    let ?w = "ELOG_BUF_OUTPUT_BUF_SIZE - buf_write_size s"
    let ?b = "write_at (buf_write_size s) (take ?w rest) (out_buf s)"
    let ?s' = "(elog_port_output ?b (s\<lparr>out_buf := ?b\<rparr>))\<lparr>buf_write_size := 0\<rparr>"
    have lw: "buf_write_size s + length (take ?w rest) = length (out_buf s)"
      using True "1.prems" by (auto simp: buf_ok_def)
    then have b: "?b = pending s @ take ?w rest"
      by (simp add: write_at_def pending_def)
    have lb: "length ?b = ELOG_BUF_OUTPUT_BUF_SIZE"
      using lw "1.prems" by (simp add: buf_ok_def)
    have ok': "buf_ok ?s'" and size': "log_size_ok (drop ?w rest)"
      using lb "1.prems" by (auto simp: buf_ok_def elog_port_output_def log_size_ok_def)
    have written': "written ?s' = written s @ take ?w rest"
      by (simp add: written_def delivered_def elog_port_output_def b) (simp add: pending_def)
    have eq: "elog_buf_output_loop rest s = elog_buf_output_loop (drop ?w rest) ?s'"
      using True nowrap by (subst elog_buf_output_loop.simps) (simp add: Let_def)
    have tr: "trace ?s' = trace s @ [Port_Output ?b]" and el: "elog ?s' = elog s"
      by (simp_all add: elog_port_output_def)
    obtain chunks where
      "trace (elog_buf_output_loop (drop ?w rest) ?s') = trace ?s' @ map Port_Output chunks"
      "\<forall>c \<in> set chunks. length c = ELOG_BUF_OUTPUT_BUF_SIZE"
      using "1.IH" [OF _ refl refl ok' size'] True nowrap by auto
    then have "trace (elog_buf_output_loop rest s) = trace s @ map Port_Output (?b # chunks) \<and>
        (\<forall>c \<in> set (?b # chunks). length c = ELOG_BUF_OUTPUT_BUF_SIZE)"
      using lb unfolding eq tr by simp
    then show ?thesis
      using "1.IH" [OF _ refl refl ok' size'] True nowrap written' el unfolding eq
      by (metis (no_types, lifting) append.assoc append_take_drop_id)
  next
    case False
    then have "elog_buf_output_loop rest s =
        s\<lparr>out_buf := write_at (buf_write_size s) rest (out_buf s),
          buf_write_size := buf_write_size s + length rest\<rparr>"
      using nowrap by (subst elog_buf_output_loop.simps) simp
    then show ?thesis
      using False "1.prems"
      by (simp add: buf_ok_def written_def delivered_def pending_def)
  qed
qed

lemma elog_buf_output_written:
  assumes "buf_ok s" and "log_size_ok xs" and "buf_is_enabled s \<or> buf_write_size s = 0"
  shows "written (elog_buf_output xs s) = written s @ xs"
  using assms elog_buf_output_loop_spec [of s xs]
  by (auto simp: elog_buf_output_def elog_port_output_def written_def delivered_def pending_def)

lemma elog_buf_output_ok: "buf_ok s \<Longrightarrow> log_size_ok xs \<Longrightarrow> buf_ok (elog_buf_output xs s)"
  using elog_buf_output_loop_spec [of s xs]
  by (auto simp: elog_buf_output_def elog_port_output_def buf_ok_def)

lemma elog_buf_output_loop_fields:
  "line_buf (elog_buf_output_loop xs s) = line_buf s"
  "assert_hook (elog_buf_output_loop xs s) = assert_hook s"
  "buf_is_enabled (elog_buf_output_loop xs s) = buf_is_enabled s"
  by (induction xs s rule: elog_buf_output_loop.induct;
      subst elog_buf_output_loop.simps; simp add: Let_def elog_port_output_def)+

lemma buf_output_fields [simp]:
  "line_buf (elog_buf_output xs s) = line_buf s"
  "assert_hook (elog_buf_output xs s) = assert_hook s"
  "buf_is_enabled (elog_buf_output xs s) = buf_is_enabled s"
  by (simp_all add: elog_buf_output_def elog_port_output_def elog_buf_output_loop_fields)

interpretation buffered: log_sink elog_buf_output written
  "\<lambda>s. buf_ok s \<and> (buf_is_enabled s \<or> buf_write_size s = 0)" log_size_ok
proof unfold_locales
  fix s :: logger and xs
  assume ok: "buf_ok s \<and> (buf_is_enabled s \<or> buf_write_size s = 0)" and xs: "log_size_ok xs"
  then show "written (elog_buf_output xs s) = written s @ xs"
    by (simp add: elog_buf_output_written)
  show "buf_ok (elog_buf_output xs s) \<and>
      (buf_is_enabled (elog_buf_output xs s) \<or> buf_write_size (elog_buf_output xs s) = 0)"
    using ok xs elog_buf_output_ok [of s xs]
    by (cases "buf_is_enabled s") (auto simp: elog_buf_output_def elog_port_output_def
        elog_buf_output_loop_fields)
qed

text \<open>While the mode is on, the port receives full buffers only.\<close>

lemma buffered_chunks:
  "buf_ok s \<Longrightarrow> buf_is_enabled s \<Longrightarrow> \<forall>xs \<in> set xss. log_size_ok xs \<Longrightarrow>
   \<exists>cs. trace (fold elog_buf_output xss s) = trace s @ map Port_Output cs \<and>
     (\<forall>c \<in> set cs. length c = ELOG_BUF_OUTPUT_BUF_SIZE)"
proof (induction xss arbitrary: s)
  case (Cons xs xss)
  let ?t = "elog_buf_output xs s"
  obtain cs where cs: "trace ?t = trace s @ map Port_Output cs"
      "\<forall>c \<in> set cs. length c = ELOG_BUF_OUTPUT_BUF_SIZE"
    using Cons.prems elog_buf_output_loop_spec [of s xs] by (auto simp: elog_buf_output_def)
  obtain ds where ds: "trace (fold elog_buf_output xss ?t) = trace ?t @ map Port_Output ds"
      "\<forall>c \<in> set ds. length c = ELOG_BUF_OUTPUT_BUF_SIZE"
    using Cons.IH [of ?t] Cons.prems by (auto simp: elog_buf_output_ok)
  show ?case
    by (rule exI [of _ "cs @ ds"]) (use cs ds in auto)
qed (simp add: exI [of _ "[]"])

end
