(* ===== verification/ElogFilter.thy ===== *)
theory ElogFilter
  imports ElogBuf
begin

text \<open>
  The settings of \<^verbatim>\<open>elog.c\<close>: assertions, the output switches, the level, tag and keyword filters
  and the table that gives single tags a level of their own.
\<close>

definition ELOG_LVL_ASSERT :: nat where "ELOG_LVL_ASSERT = 0"
definition ELOG_LVL_ERROR :: nat where "ELOG_LVL_ERROR = 1"
definition ELOG_LVL_WARN :: nat where "ELOG_LVL_WARN = 2"
definition ELOG_LVL_INFO :: nat where "ELOG_LVL_INFO = 3"
definition ELOG_LVL_DEBUG :: nat where "ELOG_LVL_DEBUG = 4"
definition ELOG_LVL_VERBOSE :: nat where "ELOG_LVL_VERBOSE = 5"
definition ELOG_FILTER_LVL_SILENT :: nat where "ELOG_FILTER_LVL_SILENT = ELOG_LVL_ASSERT"
definition ELOG_FILTER_LVL_ALL :: nat where "ELOG_FILTER_LVL_ALL = ELOG_LVL_VERBOSE"
definition ELOG_LVL_TOTAL_NUM :: nat where "ELOG_LVL_TOTAL_NUM = 6"
definition ELOG_FILTER_TAG_MAX_LEN :: nat where "ELOG_FILTER_TAG_MAX_LEN = 30"
definition ELOG_FILTER_KW_MAX_LEN :: nat where "ELOG_FILTER_KW_MAX_LEN = 16"
definition ELOG_FILTER_TAG_LVL_MAX_NUM :: nat where "ELOG_FILTER_TAG_LVL_MAX_NUM = 5"

lemmas elog_consts =
  ELOG_LVL_ASSERT_def ELOG_LVL_ERROR_def ELOG_LVL_WARN_def ELOG_LVL_INFO_def ELOG_LVL_DEBUG_def
  ELOG_LVL_VERBOSE_def ELOG_FILTER_LVL_SILENT_def ELOG_FILTER_LVL_ALL_def ELOG_LVL_TOTAL_NUM_def
  ELOG_FILTER_TAG_MAX_LEN_def ELOG_FILTER_KW_MAX_LEN_def ELOG_FILTER_TAG_LVL_MAX_NUM_def

subsection \<open>Assertions\<close>

text \<open>
  \<open>ELOG_ASSERT\<close>: without a hook a failed check logs the expression and never returns; with a
  hook it calls it and goes on.
\<close>

definition ELOG_ASSERT :: "string \<Rightarrow> bool \<Rightarrow> logger \<Rightarrow> stop + logger" where
  "ELOG_ASSERT expr cond s =
     (if cond then Inr s
      else if assert_hook s then Inr (emit (Hook_Call expr) s)
      else Inl (Assert_Hang expr))"

definition elog_assert_set_hook :: "bool \<Rightarrow> logger \<Rightarrow> logger" where
  "elog_assert_set_hook hook s = s\<lparr>assert_hook := hook\<rparr>"

lemma ELOG_ASSERT_True [simp]: "ELOG_ASSERT e True s = Inr s"
  by (simp add: ELOG_ASSERT_def)

subsection \<open>Switches and simple filters\<close>

definition elog_set_output_enabled :: "bool \<Rightarrow> logger \<Rightarrow> logger" where
  "elog_set_output_enabled enabled s = upd_elog (\<lambda>e. e\<lparr>output_enabled := enabled\<rparr>) s"

definition elog_get_output_enabled :: "logger \<Rightarrow> bool" where
  "elog_get_output_enabled s = output_enabled (elog s)"

definition elog_set_text_color_enabled :: "bool \<Rightarrow> logger \<Rightarrow> logger" where
  "elog_set_text_color_enabled enabled s = upd_elog (\<lambda>e. e\<lparr>text_color_enabled := enabled\<rparr>) s"

definition elog_get_text_color_enabled :: "logger \<Rightarrow> bool" where
  "elog_get_text_color_enabled s = text_color_enabled (elog s)"

definition elog_set_fmt :: "nat \<Rightarrow> u32 \<Rightarrow> logger \<Rightarrow> stop + logger" where
  "elog_set_fmt level fmt_set s =
     bindE (ELOG_ASSERT ''level <= ELOG_LVL_VERBOSE'' (level \<le> ELOG_LVL_VERBOSE) s)
       (\<lambda>s. if level < length (enabled_fmt_set (elog s))
            then Inr (upd_elog (\<lambda>e. e\<lparr>enabled_fmt_set := (enabled_fmt_set e)[level := fmt_set]\<rparr>) s)
            else Inl (Out_Of_Bounds ''enabled_fmt_set''))"

abbreviation upd_filter :: "(elog_filter \<Rightarrow> elog_filter) \<Rightarrow> logger \<Rightarrow> logger" where
  "upd_filter f s \<equiv> upd_elog (\<lambda>e. e\<lparr>el_filter := f (el_filter e)\<rparr>) s"

definition elog_set_filter_lvl :: "nat \<Rightarrow> logger \<Rightarrow> stop + logger" where
  "elog_set_filter_lvl level s =
     bindE (ELOG_ASSERT ''level <= ELOG_LVL_VERBOSE'' (level \<le> ELOG_LVL_VERBOSE) s)
       (\<lambda>s. Inr (upd_filter (\<lambda>f. f\<lparr>flt_level := level\<rparr>) s))"

definition elog_set_filter_tag :: "string \<Rightarrow> logger \<Rightarrow> logger" where
  "elog_set_filter_tag tag s =
     upd_filter (\<lambda>f. f\<lparr>flt_tag := strncpy (flt_tag f) tag ELOG_FILTER_TAG_MAX_LEN\<rparr>) s"

definition elog_set_filter_kw :: "string \<Rightarrow> logger \<Rightarrow> logger" where
  "elog_set_filter_kw keyword s =
     upd_filter (\<lambda>f. f\<lparr>flt_keyword := strncpy (flt_keyword f) keyword ELOG_FILTER_KW_MAX_LEN\<rparr>) s"

definition elog_set_filter :: "nat \<Rightarrow> string \<Rightarrow> string \<Rightarrow> logger \<Rightarrow> stop + logger" where
  "elog_set_filter level tag keyword s =
     bindE (ELOG_ASSERT ''level <= ELOG_LVL_VERBOSE'' (level \<le> ELOG_LVL_VERBOSE) s)
       (\<lambda>s. bindE (elog_set_filter_lvl level s)
          (\<lambda>s. Inr (elog_set_filter_kw keyword (elog_set_filter_tag tag s))))"

subsection \<open>The tag level table\<close>

text \<open>\<open>elog_set_filter_tag_lvl_default\<close> on one slot.\<close>

definition clear_slot :: "tag_lvl_filter \<Rightarrow> tag_lvl_filter" where
  "clear_slot f =
     f\<lparr>tl_tag := write_at 0 (replicate (ELOG_FILTER_TAG_MAX_LEN + 1) NUL) (tl_tag f),
       tl_level := ELOG_FILTER_LVL_SILENT, tl_use_flag := False\<rparr>"

definition elog_set_filter_tag_lvl_default :: "logger \<Rightarrow> logger" where
  "elog_set_filter_tag_lvl_default s =
     upd_filter (\<lambda>f. f\<lparr>flt_tag_lvl := map clear_slot (flt_tag_lvl f)\<rparr>) s"

text \<open>The search loop: the index of the first slot in use for the tag, the length if none is.\<close>

fun find_tag_slot :: "string \<Rightarrow> tag_lvl_filter list \<Rightarrow> nat" where
  "find_tag_slot tag [] = 0"
| "find_tag_slot tag (f # fs) =
     (if tl_use_flag f \<and> strncmp_eq tag (tl_tag f) ELOG_FILTER_TAG_MAX_LEN then 0
      else Suc (find_tag_slot tag fs))"

fun find_free_slot :: "tag_lvl_filter list \<Rightarrow> nat" where
  "find_free_slot [] = 0"
| "find_free_slot (f # fs) = (if \<not> tl_use_flag f then 0 else Suc (find_free_slot fs))"

definition use_slot :: "string \<Rightarrow> nat \<Rightarrow> tag_lvl_filter \<Rightarrow> tag_lvl_filter" where
  "use_slot tag level f =
     f\<lparr>tl_tag := strncpy (tl_tag f) tag ELOG_FILTER_TAG_MAX_LEN,
       tl_level := level, tl_use_flag := True\<rparr>"

text \<open>What the function does to the table between lock and unlock.\<close>

definition table_set :: "string \<Rightarrow> nat \<Rightarrow> tag_lvl_filter list \<Rightarrow> tag_lvl_filter list" where
  "table_set tag level fs =
     (let i = find_tag_slot tag fs in
      if i < length fs then
        (if level = ELOG_FILTER_LVL_ALL then fs[i := clear_slot (fs ! i)]
         else fs[i := (fs ! i)\<lparr>tl_level := level\<rparr>])
      else if level \<noteq> ELOG_FILTER_LVL_ALL then
        (let j = find_free_slot fs in
         if j < length fs then fs[j := use_slot tag level (fs ! j)] else fs)
      else fs)"

definition elog_set_filter_tag_lvl :: "string option \<Rightarrow> nat \<Rightarrow> logger \<Rightarrow> stop + logger" where
  "elog_set_filter_tag_lvl tag level s =
     bindE (ELOG_ASSERT ''level <= ELOG_LVL_VERBOSE'' (level \<le> ELOG_LVL_VERBOSE) s)
     (\<lambda>s. bindE (ELOG_ASSERT ''tag != ((void *)0)'' (tag \<noteq> None) s)
     (\<lambda>s. if \<not> init_ok (elog s) then Inr s
          else (let s = elog_output_lock s in
            (case tag of
               Some t \<Rightarrow> Inr (elog_output_unlock
                 (upd_filter (\<lambda>f. f\<lparr>flt_tag_lvl := table_set t level (flt_tag_lvl f)\<rparr>) s))
             | None \<Rightarrow>
                 (if level = ELOG_FILTER_LVL_ALL \<and>
                     (\<forall>f \<in> set (flt_tag_lvl (el_filter (elog s))). \<not> tl_use_flag f)
                  then Inr (elog_output_unlock s) else Inl (Null_Deref ''tag''))))))"

definition table_get :: "string \<Rightarrow> tag_lvl_filter list \<Rightarrow> nat" where
  "table_get tag fs =
     (let i = find_tag_slot tag fs in
      if i < length fs then tl_level (fs ! i) else ELOG_FILTER_LVL_ALL)"

definition elog_get_filter_tag_lvl :: "string option \<Rightarrow> logger \<Rightarrow> stop + nat \<times> logger" where
  "elog_get_filter_tag_lvl tag s =
     bindE (ELOG_ASSERT ''tag != ((void *)0)'' (tag \<noteq> None) s)
     (\<lambda>s. if \<not> init_ok (elog s) then Inr (ELOG_FILTER_LVL_ALL, s)
          else (let s = elog_output_lock s; fs = flt_tag_lvl (el_filter (elog s)) in
            (case tag of
               Some t \<Rightarrow> Inr (table_get t fs, elog_output_unlock s)
             | None \<Rightarrow>
                 (if \<forall>f \<in> set fs. \<not> tl_use_flag f
                  then Inr (ELOG_FILTER_LVL_ALL, elog_output_unlock s)
                  else Inl (Null_Deref ''tag'')))))"


subsection \<open>The table as a bounded map\<close>

text \<open>
  A table of at most \<open>cap\<close> entries: a put replaces the entry of its key or adds one while there
  is room, and is dropped when the table is full; a delete removes the entry.
\<close>

locale bounded_table =
  fixes lookup :: "'t \<Rightarrow> 'k \<Rightarrow> 'v option"
    and put :: "'k \<Rightarrow> 'v \<Rightarrow> 't \<Rightarrow> 't"
    and del :: "'k \<Rightarrow> 't \<Rightarrow> 't"
    and ok :: "'t \<Rightarrow> bool"
    and key :: "'k \<Rightarrow> bool"
    and val :: "'v \<Rightarrow> bool"
    and cap :: nat
  assumes ok_put: "ok t \<Longrightarrow> key k \<Longrightarrow> val v \<Longrightarrow> ok (put k v t)"
    and ok_del: "ok t \<Longrightarrow> key k \<Longrightarrow> ok (del k t)"
    and lookup_put: "ok t \<Longrightarrow> key k \<Longrightarrow> val v \<Longrightarrow>
      k \<in> dom (lookup t) \<or> card (dom (lookup t)) < cap \<Longrightarrow>
      lookup (put k v t) = (lookup t)(k \<mapsto> v)"
    and lookup_put_full: "ok t \<Longrightarrow> key k \<Longrightarrow> val v \<Longrightarrow>
      k \<notin> dom (lookup t) \<Longrightarrow> cap \<le> card (dom (lookup t)) \<Longrightarrow> put k v t = t"
    and lookup_del: "ok t \<Longrightarrow> key k \<Longrightarrow> lookup (del k t) = (lookup t)(k := None)"
    and dom_finite: "ok t \<Longrightarrow> finite (dom (lookup t))"
    and dom_cap: "ok t \<Longrightarrow> card (dom (lookup t)) \<le> cap"
begin

lemma put_other: "ok t \<Longrightarrow> key k \<Longrightarrow> val v \<Longrightarrow> k' \<noteq> k \<Longrightarrow> lookup (put k v t) k' = lookup t k'"
  using lookup_put lookup_put_full dom_cap by (metis fun_upd_other not_less)

lemma put_put: "ok t \<Longrightarrow> key k \<Longrightarrow> val v \<Longrightarrow> val w \<Longrightarrow>
  lookup (put k w (put k v t)) = lookup (put k w t)"
  by (cases "k \<in> dom (lookup t) \<or> card (dom (lookup t)) < cap")
    (simp_all add: lookup_put lookup_put_full ok_put)

lemma del_put: "ok t \<Longrightarrow> key k \<Longrightarrow> val v \<Longrightarrow>
  lookup (del k (put k v t)) = (lookup t)(k := None)"
  by (rule ext) (auto simp: lookup_del ok_put put_other)

text \<open>As long as the keys fit, a sequence of puts is a sequence of map updates.\<close>

lemma puts_lookup:
  "ok t \<Longrightarrow> \<forall>(k, v) \<in> set kvs. key k \<and> val v \<Longrightarrow>
   card (dom (lookup t) \<union> fst ` set kvs) \<le> cap \<Longrightarrow>
   lookup (fold (\<lambda>(k, v). put k v) kvs t) = fold (\<lambda>(k, v) m. m(k \<mapsto> v)) kvs (lookup t)"
proof (induction kvs arbitrary: t)
  case (Cons kv kvs)
  obtain k v where kv: "kv = (k, v)" by (cases kv)
  have fin: "finite (dom (lookup t) \<union> fst ` set (kv # kvs))"
    using Cons.prems(1) by (simp add: dom_finite)
  have room: "k \<in> dom (lookup t) \<or> card (dom (lookup t)) < cap"
  proof (rule disjCI)
    assume "\<not> card (dom (lookup t)) < cap"
    then have "card (dom (lookup t) \<union> fst ` set (kv # kvs)) \<le> card (dom (lookup t))"
      using Cons.prems(3) by simp
    then have "dom (lookup t) \<union> fst ` set (kv # kvs) = dom (lookup t)"
      using fin by (metis card_seteq sup_ge1)
    then show "k \<in> dom (lookup t)" using kv by auto
  qed
  have upd: "lookup (put k v t) = (lookup t)(k \<mapsto> v)"
    using Cons.prems room kv by (simp add: lookup_put)
  have "card (dom (lookup (put k v t)) \<union> fst ` set kvs) \<le> cap"
    using Cons.prems(3) unfolding upd dom_fun_upd by (simp add: kv)
  then have "lookup (fold (\<lambda>(k, v). put k v) kvs (put k v t)) =
      fold (\<lambda>(k, v) m. m(k \<mapsto> v)) kvs (lookup (put k v t))"
    using Cons.prems kv by (intro Cons.IH) (simp_all add: ok_put)
  then show ?case by (simp only: kv upd fold_simps prod.case)
qed simp

end

subsection \<open>The tag level table is a bounded map\<close>

definition tkey :: "tag_lvl_filter \<Rightarrow> string" where
  "tkey f = cstr (tl_tag f)"

definition wf_slot :: "tag_lvl_filter \<Rightarrow> bool" where
  "wf_slot f \<longleftrightarrow> length (tl_tag f) = Suc ELOG_FILTER_TAG_MAX_LEN \<and>
     tl_tag f ! ELOG_FILTER_TAG_MAX_LEN = NUL \<and>
     (tl_use_flag f \<longrightarrow> tl_level f < ELOG_FILTER_LVL_ALL)"

fun table_map :: "tag_lvl_filter list \<Rightarrow> string \<Rightarrow> nat option" where
  "table_map [] k = None"
| "table_map (f # fs) k =
     (if tl_use_flag f \<and> tkey f = k then Some (tl_level f) else table_map fs k)"

definition used_keys :: "tag_lvl_filter list \<Rightarrow> string list" where
  "used_keys fs = map tkey (filter tl_use_flag fs)"

definition wf_table :: "tag_lvl_filter list \<Rightarrow> bool" where
  "wf_table fs \<longleftrightarrow> length fs = ELOG_FILTER_TAG_LVL_MAX_NUM \<and>
     (\<forall>f \<in> set fs. wf_slot f) \<and> distinct (used_keys fs)"

definition tag_key :: "string \<Rightarrow> bool" where
  "tag_key t \<longleftrightarrow> NUL \<notin> set t \<and> length t \<le> ELOG_FILTER_TAG_MAX_LEN"

text \<open>The part of a tag the table can tell apart: its first 30 characters.\<close>

definition canon_tag :: "string \<Rightarrow> string" where
  "canon_tag t = take ELOG_FILTER_TAG_MAX_LEN (cstr t)"

lemma tag_key_canon [simp]: "tag_key (canon_tag t)"
  by (simp add: tag_key_def canon_tag_def)

lemma canon_tag_key [simp]: "tag_key t \<Longrightarrow> canon_tag t = t"
  by (simp add: tag_key_def canon_tag_def)

lemma canon_cstr: "wf_slot f \<Longrightarrow> canon_tag (tl_tag f) = tkey f"
proof -
  assume wf: "wf_slot f"
  have "length (cstr (tl_tag f)) \<le> ELOG_FILTER_TAG_MAX_LEN"
  proof (rule ccontr)
    assume "\<not> ?thesis"
    then have "cstr (tl_tag f) ! ELOG_FILTER_TAG_MAX_LEN \<noteq> NUL"
      by (metis NUL_notin_cstr not_le nth_mem)
    with \<open>\<not> ?thesis\<close> wf show False
      by (metis cstr_def not_le takeWhile_nth wf_slot_def)
  qed
  then show ?thesis by (simp add: canon_tag_def tkey_def)
qed

lemma strncmp_slot:
  "wf_slot f \<Longrightarrow> strncmp_eq tag (tl_tag f) ELOG_FILTER_TAG_MAX_LEN \<longleftrightarrow> tkey f = canon_tag tag"
  using canon_cstr [of f] by (auto simp: strncmp_eq_def canon_tag_def)

lemma used_keys_simps [simp]:
  "used_keys [] = []"
  "used_keys (f # fs) = (if tl_use_flag f then tkey f # used_keys fs else used_keys fs)"
  by (simp_all add: used_keys_def)

lemma dom_table_map: "dom (table_map fs) = set (used_keys fs)"
proof (induction fs)
  case (Cons f fs)
  have "dom (table_map (f # fs)) = (if tl_use_flag f then insert (tkey f) (dom (table_map fs))
      else dom (table_map fs))"
    by (auto split: if_splits)
  with Cons show ?case by (simp del: table_map.simps)
qed auto

lemma table_map_None: "k \<notin> set (used_keys fs) \<Longrightarrow> table_map fs k = None"
  by (metis domIff dom_table_map)

lemma clear_slot_wf [simp]: "wf_slot f \<Longrightarrow> wf_slot (clear_slot f)"
  by (simp add: wf_slot_def clear_slot_def write_at_whole del: replicate_Suc)

lemma clear_slot_simps [simp]:
  "tl_use_flag (clear_slot f) = False" "tl_level (clear_slot f) = ELOG_FILTER_LVL_SILENT"
  by (simp_all add: clear_slot_def)

lemma use_slot_simps [simp]:
  "tl_use_flag (use_slot t l f)" "tl_level (use_slot t l f) = l"
  by (simp_all add: use_slot_def)

lemma use_slot_wf: "wf_slot f \<Longrightarrow> l < ELOG_FILTER_LVL_ALL \<Longrightarrow> wf_slot (use_slot t l f)"
  by (simp add: wf_slot_def use_slot_def strncpy_terminated)

lemma tkey_use_slot: "wf_slot f \<Longrightarrow> tkey (use_slot t l f) = canon_tag t"
  by (simp add: wf_slot_def use_slot_def tkey_def canon_tag_def strncpy_terminated)

lemma find_tag_slot_none:
  "\<forall>f \<in> set fs. wf_slot f \<Longrightarrow>
   find_tag_slot t fs < length fs \<longleftrightarrow> canon_tag t \<in> set (used_keys fs)"
  by (induction fs) (auto simp: strncmp_slot)

lemma find_free_slot_none: "find_free_slot fs < length fs \<longleftrightarrow> length (used_keys fs) < length fs"
proof (induction fs)
  case (Cons f fs)
  have "length (used_keys fs) \<le> length fs" by (simp add: used_keys_def)
  with Cons show ?case by auto
qed simp


text \<open>Replacing one slot of the table.\<close>

lemma used_keys_append [simp]: "used_keys (fs @ gs) = used_keys fs @ used_keys gs"
  by (simp add: used_keys_def)

lemma table_map_append:
  "table_map (fs @ gs) k = (case table_map fs k of None \<Rightarrow> table_map gs k | Some v \<Rightarrow> Some v)"
  by (induction fs) auto

lemma find_tag_slot_split:
  "find_tag_slot t fs < length fs \<Longrightarrow> \<forall>f \<in> set fs. wf_slot f \<Longrightarrow>
   \<exists>xs f ys. fs = xs @ f # ys \<and> find_tag_slot t fs = length xs \<and>
     tl_use_flag f \<and> tkey f = canon_tag t"
proof (induction fs)
  case (Cons g fs)
  show ?case
  proof (cases "tl_use_flag g \<and> tkey g = canon_tag t")
    case True
    then show ?thesis using Cons.prems by (intro exI [of _ "[]"]) (simp add: strncmp_slot)
  next
    case False
    then obtain xs f ys where "fs = xs @ f # ys" "find_tag_slot t fs = length xs"
      "tl_use_flag f" "tkey f = canon_tag t"
      using Cons by (auto simp: strncmp_slot)
    then show ?thesis
      using False Cons.prems
      by (intro exI [of _ "g # xs"] exI [of _ f] exI [of _ ys]) (simp add: strncmp_slot)
  qed
qed simp

lemma find_free_slot_split:
  "find_free_slot fs < length fs \<Longrightarrow>
   \<exists>xs f ys. fs = xs @ f # ys \<and> find_free_slot fs = length xs \<and> \<not> tl_use_flag f"
proof (induction fs)
  case (Cons g fs)
  show ?case
  proof (cases "tl_use_flag g")
    case True
    then obtain xs f ys where "fs = xs @ f # ys" "find_free_slot fs = length xs" "\<not> tl_use_flag f"
      using Cons by auto
    then show ?thesis
      using True by (intro exI [of _ "g # xs"] exI [of _ f] exI [of _ ys]) simp
  next
    case False
    then show ?thesis by (intro exI [of _ "[]"]) simp
  qed
qed simp

lemma table_map_replace:
  assumes "distinct (used_keys (xs @ f # ys))" and "tl_use_flag f" and "tkey g = tkey f"
    and "tl_use_flag g"
  shows "table_map (xs @ g # ys) = (table_map (xs @ f # ys))(tkey f \<mapsto> tl_level g)"
  using assms by (auto simp: table_map_append table_map_None split: option.splits)

lemma table_map_erase:
  assumes "distinct (used_keys (xs @ f # ys))" and "tl_use_flag f" and "\<not> tl_use_flag g"
  shows "table_map (xs @ g # ys) = (table_map (xs @ f # ys))(tkey f := None)"
  using assms by (auto simp: table_map_append table_map_None split: option.splits)

lemma table_map_fill:
  assumes "\<not> tl_use_flag f" and "tl_use_flag g" and "tkey g \<notin> set (used_keys (xs @ f # ys))"
  shows "table_map (xs @ g # ys) = (table_map (xs @ f # ys))(tkey g \<mapsto> tl_level g)"
  using assms by (auto simp: table_map_append table_map_None split: option.splits)

lemma table_set_all:
  assumes wf: "wf_table fs"
  shows "wf_table (table_set t ELOG_FILTER_LVL_ALL fs) \<and>
    table_map (table_set t ELOG_FILTER_LVL_ALL fs) = (table_map fs)(canon_tag t := None)"
proof (cases "find_tag_slot t fs < length fs")
  case True
  then obtain xs f ys where sp: "fs = xs @ f # ys" "find_tag_slot t fs = length xs"
    "tl_use_flag f" "tkey f = canon_tag t"
    using wf find_tag_slot_split [of t fs] by (auto simp: wf_table_def)
  then have eq: "table_set t ELOG_FILTER_LVL_ALL fs = xs @ clear_slot f # ys"
    using True by (simp add: table_set_def Let_def)
  show ?thesis
    using wf sp table_map_erase [of xs f ys "clear_slot f"] unfolding eq
    by (auto simp: wf_table_def)
next
  case False
  then have "canon_tag t \<notin> set (used_keys fs)"
    using wf find_tag_slot_none unfolding wf_table_def by metis
  then show ?thesis
    using wf False by (auto simp: table_set_def table_map_None Let_def)
qed

lemma table_set_level:
  assumes wf: "wf_table fs" and l: "l < ELOG_FILTER_LVL_ALL"
  shows "wf_table (table_set t l fs)"
    and "canon_tag t \<in> dom (table_map fs) \<or> card (dom (table_map fs)) < ELOG_FILTER_TAG_LVL_MAX_NUM \<Longrightarrow>
      table_map (table_set t l fs) = (table_map fs)(canon_tag t \<mapsto> l)"
    and "canon_tag t \<notin> dom (table_map fs) \<Longrightarrow>
      ELOG_FILTER_TAG_LVL_MAX_NUM \<le> card (dom (table_map fs)) \<Longrightarrow> table_set t l fs = fs"
proof -
  have slots: "\<forall>f \<in> set fs. wf_slot f" and dist: "distinct (used_keys fs)"
    and len: "length fs = ELOG_FILTER_TAG_LVL_MAX_NUM"
    using wf by (auto simp: wf_table_def)
  have card: "card (dom (table_map fs)) = length (used_keys fs)"
    using dist by (simp add: dom_table_map distinct_card)
  have "wf_table (table_set t l fs) \<and>
    (canon_tag t \<in> dom (table_map fs) \<or> card (dom (table_map fs)) < ELOG_FILTER_TAG_LVL_MAX_NUM \<longrightarrow>
      table_map (table_set t l fs) = (table_map fs)(canon_tag t \<mapsto> l)) \<and>
    (canon_tag t \<notin> dom (table_map fs) \<and>
      ELOG_FILTER_TAG_LVL_MAX_NUM \<le> card (dom (table_map fs)) \<longrightarrow> table_set t l fs = fs)"
  proof (cases "find_tag_slot t fs < length fs")
    case True
    then obtain xs f ys where sp: "fs = xs @ f # ys" "find_tag_slot t fs = length xs"
      "tl_use_flag f" "tkey f = canon_tag t"
      using slots find_tag_slot_split [of t fs] by auto
    let ?g = "f\<lparr>tl_level := l\<rparr>"
    have eq: "table_set t l fs = xs @ ?g # ys"
      using sp l by (simp add: table_set_def Let_def)
    have g: "tkey ?g = tkey f" "tl_use_flag ?g" "wf_slot ?g"
      using sp slots l by (auto simp: tkey_def wf_slot_def)
    have "canon_tag t \<in> dom (table_map fs)"
      using True slots by (simp add: dom_table_map find_tag_slot_none)
    then show ?thesis
      using wf sp g table_map_replace [of xs f ys ?g] unfolding eq by (auto simp: wf_table_def)
  next
    case False
    then have new: "canon_tag t \<notin> set (used_keys fs)"
      using slots by (simp add: find_tag_slot_none)
    show ?thesis
    proof (cases "find_free_slot fs < length fs")
      case True
      then obtain xs f ys where sp: "fs = xs @ f # ys" "find_free_slot fs = length xs"
        "\<not> tl_use_flag f"
        using find_free_slot_split [of fs] by auto
      let ?g = "use_slot t l f"
      have eq: "table_set t l fs = xs @ ?g # ys"
        using sp l False by (simp add: table_set_def Let_def)
      have g: "tkey ?g = canon_tag t" "wf_slot ?g"
        using sp slots l by (auto simp: tkey_use_slot use_slot_wf)
      have "card (dom (table_map fs)) < ELOG_FILTER_TAG_LVL_MAX_NUM"
        using True len card find_free_slot_none [of fs] by simp
      then show ?thesis
        using wf sp g new table_map_fill [of f ?g xs ys] unfolding eq
        by (auto simp: wf_table_def)
    next
      case full: False
      then have "table_set t l fs = fs" and "\<not> length (used_keys fs) < ELOG_FILTER_TAG_LVL_MAX_NUM"
        using False l len find_free_slot_none [of fs] by (auto simp: table_set_def Let_def)
      then show ?thesis using wf new card by (simp add: dom_table_map)
    qed
  qed
  then show "wf_table (table_set t l fs)"
    and "canon_tag t \<in> dom (table_map fs) \<or> card (dom (table_map fs)) < ELOG_FILTER_TAG_LVL_MAX_NUM \<Longrightarrow>
      table_map (table_set t l fs) = (table_map fs)(canon_tag t \<mapsto> l)"
    and "canon_tag t \<notin> dom (table_map fs) \<Longrightarrow>
      ELOG_FILTER_TAG_LVL_MAX_NUM \<le> card (dom (table_map fs)) \<Longrightarrow> table_set t l fs = fs"
    by auto
qed

lemma table_get_map:
  assumes "\<forall>f \<in> set fs. wf_slot f"
  shows "table_get t fs =
    (case table_map fs (canon_tag t) of None \<Rightarrow> ELOG_FILTER_LVL_ALL | Some l \<Rightarrow> l)"
  using assms by (induction fs) (auto simp: table_get_def Let_def strncmp_slot)

lemma dom_table_cap: "wf_table fs \<Longrightarrow> card (dom (table_map fs)) \<le> ELOG_FILTER_TAG_LVL_MAX_NUM"
  by (metis card_length dom_table_map filter_filter length_filter_le length_map order_trans
      used_keys_def wf_table_def)

interpretation tags: bounded_table table_map table_set "\<lambda>t. table_set t ELOG_FILTER_LVL_ALL"
  wf_table tag_key "\<lambda>l. l < ELOG_FILTER_LVL_ALL" ELOG_FILTER_TAG_LVL_MAX_NUM
proof unfold_locales
  fix t k v
  assume "wf_table t" "tag_key k" "v < ELOG_FILTER_LVL_ALL"
    "k \<in> dom (table_map t) \<or> card (dom (table_map t)) < ELOG_FILTER_TAG_LVL_MAX_NUM"
  then show "table_map (table_set k v t) = (table_map t)(k \<mapsto> v)"
    using table_set_level(2) [of t v k] by simp
next
  fix t k v
  assume "wf_table t" "tag_key k" "v < ELOG_FILTER_LVL_ALL" "k \<notin> dom (table_map t)"
    "ELOG_FILTER_TAG_LVL_MAX_NUM \<le> card (dom (table_map t))"
  then show "table_set k v t = t"
    using table_set_level(3) [of t v k] by simp
next
  fix t k
  assume "wf_table t" "tag_key k"
  then show "table_map (table_set k ELOG_FILTER_LVL_ALL t) = (table_map t)(k := None)"
    using table_set_all [of t k] by simp
qed (auto simp: table_set_level(1) table_set_all dom_table_map dest: dom_table_cap)

end
