(* ===== verification/CStdio.thy ===== *)
theory CStdio
  imports Prelude
begin

text \<open>
  The part of the C standard library's formatted output the program uses: decimal and hexadecimal
  numbers, and the truncation rule of \<open>snprintf\<close>.
\<close>

definition digit_char :: "nat \<Rightarrow> char" where
  "digit_char d = (char_of (if d < 10 then 48 + d else 55 + d) :: char)"

fun show_base :: "nat \<Rightarrow> nat \<Rightarrow> string" where
  "show_base b n =
     (if n < b \<or> b < 2 then [digit_char n] else show_base b (n div b) @ [digit_char (n mod b)])"

declare show_base.simps [simp del]

text \<open>\<open>%d\<close> of a value, and \<open>%0wX\<close>: upper-case hexadecimal padded with zeros.\<close>

definition show_int :: "int \<Rightarrow> string" where
  "show_int i = (if i < 0 then ''-'' @ show_base 10 (nat (- i)) else show_base 10 (nat i))"

definition show_hex :: "nat \<Rightarrow> nat \<Rightarrow> string" where
  "show_hex w n = (let h = show_base 16 n in replicate (w - length h) (CHR ''0'') @ h)"

text \<open>
  \<open>snprintf (buf + off, size, ...)\<close> whose full text is \<open>text\<close>: at most \<open>size - 1\<close> characters and a
  terminator are stored; the result is the length of the full text.
\<close>

definition snprintf_at :: "nat \<Rightarrow> nat \<Rightarrow> string \<Rightarrow> char list \<Rightarrow> char list" where
  "snprintf_at off n text buf =
     (if n = 0 then buf else write_at off (take (n - 1) text @ [NUL]) buf)"

text \<open>The outcome of formatting a message: the returned \<open>int\<close> and the full text.\<close>

record printed =
  pr_result :: int
  pr_text :: string

definition printed_ok :: "printed \<Rightarrow> bool" where
  "printed_ok m \<longleftrightarrow> pr_result m = int (length (pr_text m)) \<and> NUL \<notin> set (pr_text m) \<and>
     length (pr_text m) < 2 ^ 31"

lemma length_snprintf_at [simp]:
  "off + n \<le> length buf \<Longrightarrow> length (snprintf_at off n text buf) = length buf"
  by (auto simp: snprintf_at_def)

lemma take_snprintf_at:
  assumes "off + m \<le> length buf" and "n \<le> off + (m - 1)" and "n \<le> off + length text"
  shows "take n (snprintf_at off m text buf) = take n (take off buf @ text)"
  using assms by (auto simp: snprintf_at_def write_at_def min_def)

lemma digit_char_not_NUL: "d < 36 \<Longrightarrow> digit_char d \<noteq> NUL"
proof -
  assume "d < 36"
  then have "of_char (digit_char d) = (if d < 10 then 48 + d else 55 + d)"
    by (simp add: digit_char_def)
  moreover have "of_char NUL = (0 :: nat)" by simp
  ultimately show ?thesis by (metis add_is_0 zero_neq_numeral)
qed

lemma NUL_notin_show_base: "2 \<le> b \<Longrightarrow> b \<le> 36 \<Longrightarrow> NUL \<notin> set (show_base b n)"
proof (induction b n rule: show_base.induct)
  case (1 b n)
  have "n mod b < b" using "1.prems" by simp
  then have "n mod b < 36" using "1.prems" by linarith
  then show ?case
    using 1 digit_char_not_NUL [of "n mod b"] digit_char_not_NUL [of n]
    by (subst show_base.simps) auto
qed

lemma NUL_notin_show_int [simp]: "NUL \<notin> set (show_int i)"
  by (auto simp: show_int_def NUL_notin_show_base)

lemma NUL_notin_show_hex [simp]: "NUL \<notin> set (show_hex w n)"
  by (auto simp: show_hex_def Let_def NUL_notin_show_base)

lemma length_show_base:
  assumes "2 \<le> b"
  shows "length (show_base b n) \<le> Suc k \<longleftrightarrow> n < b ^ Suc k"
  using assms
proof (induction k arbitrary: n)
  case 0
  have "show_base b (n div b) \<noteq> []" by (subst show_base.simps) simp
  with 0 show ?case by (subst show_base.simps) (auto simp: Suc_le_eq)
next
  case (Suc k)
  show ?case
  proof (cases "n < b")
    case True
    then have "n < b * b ^ Suc k"
      using Suc.prems by (metis less_le_trans mult.right_neutral mult_le_mono2 one_le_power
          order_trans one_le_numeral power_Suc)
    then show ?thesis using True by (subst show_base.simps) simp
  next
    case False
    then have "length (show_base b n) = Suc (length (show_base b (n div b)))"
      using Suc.prems by (subst show_base.simps) simp
    then have "length (show_base b n) \<le> Suc (Suc k) \<longleftrightarrow> n div b < b ^ Suc k"
      using Suc by simp
    also have "\<dots> \<longleftrightarrow> n < b ^ Suc (Suc k)"
      using Suc.prems by (simp add: div_less_iff_less_mult mult.commute)
    finally show ?thesis .
  qed
qed

lemma digit_char_inj: "d < 36 \<Longrightarrow> e < 36 \<Longrightarrow> digit_char d = digit_char e \<Longrightarrow> d = e"
proof -
  have code: "of_char (digit_char d) = (if d < 10 then 48 + d else 55 + d)" if "d < 36" for d
    using that by (simp add: digit_char_def)
  assume "d < 36" "e < 36" "digit_char d = digit_char e"
  then have "(if d < 10 then 48 + d else 55 + d) = (if e < 10 then 48 + e else 55 + e)"
    using code by metis
  then show ?thesis by (auto split: if_splits)
qed

lemma show_base_not_Nil [simp]: "show_base b n \<noteq> []"
  by (subst show_base.simps) simp

lemma show_base_inj: "show_base 10 m = show_base 10 n \<longleftrightarrow> m = n"
proof
  assume "show_base 10 m = show_base 10 n"
  then show "m = n"
  proof (induction "10 :: nat" m arbitrary: n rule: show_base.induct)
    case (1 m)
    have small: "show_base 10 k = [digit_char k]" if "k < 10" for k
      using that by (subst show_base.simps) simp
    have big: "show_base 10 k = show_base 10 (k div 10) @ [digit_char (k mod 10)]" if "\<not> k < 10" for k
      using that by (subst show_base.simps) simp
    show ?case
    proof (cases "m < 10")
      case True
      then have "n < 10" using "1.prems" small big [of n] by (metis append_is_Nil_conv
          append_butlast_last_id butlast_snoc last_snoc list.distinct(1) show_base_not_Nil
          append_self_conv2 butlast.simps(2))
      then show ?thesis using True "1.prems" small digit_char_inj [of m n] by simp
    next
      case False
      then have n: "\<not> n < 10" using "1.prems" small big [of m] by (metis append_self_conv2
          butlast.simps(2) butlast_snoc show_base_not_Nil)
      then have "show_base 10 (m div 10) = show_base 10 (n div 10)"
        and "digit_char (m mod 10) = digit_char (n mod 10)"
        using False "1.prems" big by simp_all
      then have "m div 10 = n div 10" and "m mod 10 = n mod 10"
        using "1.hyps" False digit_char_inj [of "m mod 10" "n mod 10"] by simp_all
      then show ?thesis by (metis div_mult_mod_eq)
    qed
  qed
qed simp

lemma write_at_write_at:
  assumes "off + length a + length b \<le> length buf"
  shows "write_at (off + length a) b (write_at off a buf) = write_at off (a @ b) buf"
proof -
  have "drop (off + length a + length b) (write_at off a buf) =
      drop (off + length a + length b) buf"
    using assms by (simp add: write_at_def ac_simps)
  then show ?thesis
    using assms by (simp add: write_at_def [of "off + length a"] ) (simp add: write_at_def ac_simps)
qed

end
