(* ===== verification/ElogOutput.thy ===== *)
theory ElogOutput
  imports ElogFilter CStdio
begin

text \<open>
  Composing and emitting one log line: \<open>elog_output\<close>, \<open>elog_raw_output\<close> and the two functions
  that read level and tag back from a composed line, all of \<^verbatim>\<open>elog.c\<close>.
\<close>

subsection \<open>Constant strings\<close>

definition CSI_START :: string where "CSI_START = CHR 0x1B # ''[''"
definition CSI_END :: string where "CSI_END = CHR 0x1B # ''[0m''"

definition level_output_info :: "string list" where
  "level_output_info = [''A/'', ''E/'', ''W/'', ''I/'', ''D/'', ''V/'']"

text \<open>Foreground, background (none) and style of every level, from \<^verbatim>\<open>elog_cfg.h\<close>.\<close>

definition color_output_info :: "string list" where
  "color_output_info =
     [''35;'' @ ''22m'', ''31;'' @ ''22m'', ''33;'' @ ''22m'', ''36;'' @ ''22m'',
      ''32;'' @ ''22m'', ''34;'' @ ''22m'']"

text \<open>The format set bits.\<close>

definition ELOG_FMT_LVL :: u32 where "ELOG_FMT_LVL = 1"
definition ELOG_FMT_TAG :: u32 where "ELOG_FMT_TAG = 2"
definition ELOG_FMT_TIME :: u32 where "ELOG_FMT_TIME = 4"
definition ELOG_FMT_P_INFO :: u32 where "ELOG_FMT_P_INFO = 8"
definition ELOG_FMT_T_INFO :: u32 where "ELOG_FMT_T_INFO = 16"
definition ELOG_FMT_DIR :: u32 where "ELOG_FMT_DIR = 32"
definition ELOG_FMT_FUNC :: u32 where "ELOG_FMT_FUNC = 64"
definition ELOG_FMT_LINE :: u32 where "ELOG_FMT_LINE = 128"

lemmas elog_fmt_bits =
  ELOG_FMT_LVL_def ELOG_FMT_TAG_def ELOG_FMT_TIME_def ELOG_FMT_P_INFO_def ELOG_FMT_T_INFO_def
  ELOG_FMT_DIR_def ELOG_FMT_FUNC_def ELOG_FMT_LINE_def

definition ELOG_LINE_NUM_MAX_LEN :: nat where "ELOG_LINE_NUM_MAX_LEN = 5"

text \<open>What the port's getters return on this call.\<close>

record port_info =
  pi_time :: "string option"
  pi_p_info :: "string option"
  pi_t_info :: "string option"

definition shipped_port :: port_info where
  "shipped_port =
     \<lparr>pi_time = elog_port_get_time, pi_p_info = elog_port_get_p_info,
      pi_t_info = elog_port_get_t_info\<rparr>"

text \<open>The source position passed by the logging macros; NULL or 0 is "not given".\<close>

record source_pos =
  sp_file :: "string option"
  sp_func :: "string option"
  sp_line :: int

subsection \<open>Format switches\<close>

text \<open>The callers have checked the level, so the array access is in range.\<close>

definition get_fmt_enabled :: "logger \<Rightarrow> nat \<Rightarrow> u32 \<Rightarrow> bool" where
  "get_fmt_enabled s level fmt_set \<longleftrightarrow> (enabled_fmt_set (elog s) ! level) AND fmt_set \<noteq> 0"

definition get_fmt_used_and_enabled_u32 :: "logger \<Rightarrow> nat \<Rightarrow> u32 \<Rightarrow> u32 \<Rightarrow> bool" where
  "get_fmt_used_and_enabled_u32 s level fmt_set arg \<longleftrightarrow>
     arg \<noteq> 0 \<and> get_fmt_enabled s level fmt_set"

definition get_fmt_used_and_enabled_ptr :: "logger \<Rightarrow> nat \<Rightarrow> u32 \<Rightarrow> string option \<Rightarrow> bool" where
  "get_fmt_used_and_enabled_ptr s level fmt_set arg \<longleftrightarrow>
     arg \<noteq> None \<and> get_fmt_enabled s level fmt_set"

subsection \<open>Appending to the line\<close>

text \<open>\<open>log_len += elog_strcpy (log_len, log_buf + log_len, src)\<close>, once and in sequence.\<close>

definition put :: "bool \<Rightarrow> string option \<Rightarrow> nat \<times> char list \<Rightarrow> stop + nat \<times> char list" where
  "put hook src lb =
     bindE (elog_strcpy hook (fst lb) (fst lb) (snd lb) src) (\<lambda>(n, b). Inr (fst lb + n, b))"

fun puts :: "bool \<Rightarrow> string option list \<Rightarrow> nat \<times> char list \<Rightarrow> stop + nat \<times> char list" where
  "puts hook [] lb = Inr lb"
| "puts hook (p # ps) lb = bindE (put hook p lb) (puts hook ps)"

subsection \<open>The pieces of a line, in the order the code appends them\<close>

definition color_pieces :: "logger \<Rightarrow> nat \<Rightarrow> string option list" where
  "color_pieces s level =
     (if text_color_enabled (elog s) then [Some CSI_START, Some (color_output_info ! level)]
      else [])"

definition level_pieces :: "logger \<Rightarrow> nat \<Rightarrow> string option list" where
  "level_pieces s level =
     (if get_fmt_enabled s level ELOG_FMT_LVL then [Some (level_output_info ! level)] else [])"

definition tag_pieces :: "logger \<Rightarrow> nat \<Rightarrow> string \<Rightarrow> string option list" where
  "tag_pieces s level tag =
     (if get_fmt_enabled s level ELOG_FMT_TAG then
        [Some tag] @
        (if strlen tag \<le> ELOG_FILTER_TAG_MAX_LEN div 2
         then [Some (replicate (ELOG_FILTER_TAG_MAX_LEN div 2 - strlen tag) (CHR '' ''))] else []) @
        [Some '' '']
      else [])"

definition info_pieces :: "logger \<Rightarrow> port_info \<Rightarrow> nat \<Rightarrow> string option list" where
  "info_pieces s p level =
     (if get_fmt_enabled s level (ELOG_FMT_TIME OR ELOG_FMT_P_INFO OR ELOG_FMT_T_INFO) then
        [Some ''[''] @
        (if get_fmt_enabled s level ELOG_FMT_TIME then
           [pi_time p] @
           (if get_fmt_enabled s level (ELOG_FMT_P_INFO OR ELOG_FMT_T_INFO) then [Some '' ''] else [])
         else []) @
        (if get_fmt_enabled s level ELOG_FMT_P_INFO then
           [pi_p_info p] @
           (if get_fmt_enabled s level ELOG_FMT_T_INFO then [Some '' ''] else [])
         else []) @
        (if get_fmt_enabled s level ELOG_FMT_T_INFO then [pi_t_info p] else []) @
        [Some ''] '']
      else [])"

text \<open>
  \<open>snprintf (line_num, ELOG_LINE_NUM_MAX_LEN, "%ld", line)\<close> stores at most four characters. The
  switch that is tested converts \<open>line\<close> to \<open>uint32_t\<close>.
\<close>

definition line_num :: "int \<Rightarrow> string" where
  "line_num line = take (ELOG_LINE_NUM_MAX_LEN - 1) (show_int line)"

definition position_pieces :: "logger \<Rightarrow> nat \<Rightarrow> source_pos \<Rightarrow> string option list" where
  "position_pieces s level pos =
     (let dir = get_fmt_used_and_enabled_ptr s level ELOG_FMT_DIR (sp_file pos);
          func = get_fmt_used_and_enabled_ptr s level ELOG_FMT_FUNC (sp_func pos);
          line = get_fmt_used_and_enabled_u32 s level ELOG_FMT_LINE (word_of_int (sp_line pos))
      in if dir \<or> func \<or> line then
        [Some ''(''] @
        (if dir then [sp_file pos] @
           (if func then [Some '':''] else if line then [Some '' ''] else [])
         else []) @
        (if line then [Some (line_num (sp_line pos))] @ (if func then [Some '' ''] else [])
         else []) @
        (if func then [sp_func pos] else []) @
        [Some '')'']
      else [])"

definition header_pieces ::
  "logger \<Rightarrow> port_info \<Rightarrow> nat \<Rightarrow> string \<Rightarrow> source_pos \<Rightarrow> string option list" where
  "header_pieces s p level tag pos =
     color_pieces s level @ level_pieces s level @ tag_pieces s level tag @
     info_pieces s p level @ position_pieces s level pos"

subsection \<open>elog_output\<close>

text \<open>Length after the message: the guard adds a \<open>size_t\<close> and an \<open>int\<close> modulo \<open>2 ^ 32\<close>.\<close>

definition message_len :: "nat \<Rightarrow> int \<Rightarrow> nat" where
  "message_len log_len fmt_result =
     (if (int log_len + fmt_result) mod 2 ^ 32 \<le> int ELOG_LINE_BUF_SIZE \<and> fmt_result > -1
      then log_len + nat fmt_result else ELOG_LINE_BUF_SIZE)"

text \<open>The overflow check that reserves room for the colour reset and the newline sign.\<close>

definition reserve_len :: "nat \<Rightarrow> nat" where
  "reserve_len log_len =
     (if ELOG_LINE_BUF_SIZE < log_len + length CSI_END + length ELOG_NEWLINE_SIGN
      then ELOG_LINE_BUF_SIZE - length CSI_END - length ELOG_NEWLINE_SIGN else log_len)"

text \<open>From the lock to the end of the function.\<close>

definition elog_output_locked ::
  "port_info \<Rightarrow> nat \<Rightarrow> string \<Rightarrow> source_pos \<Rightarrow> printed \<Rightarrow> logger \<Rightarrow> stop + logger" where
  "elog_output_locked p level tag pos msg s =
     bindE (puts (assert_hook s) (header_pieces s p level tag pos) (0, line_buf s))
     (\<lambda>(log_len, buf).
        let buf = snprintf_at log_len (ELOG_LINE_BUF_SIZE - log_len) (pr_text msg) buf;
            log_len = reserve_len (message_len log_len (pr_result msg));
            keyword = flt_keyword (el_filter (elog s));
            buf = (if keyword ! 0 \<noteq> NUL then buf[log_len := NUL] else buf)
        in if keyword ! 0 \<noteq> NUL \<and> \<not> strstr buf keyword
           then Inr (elog_output_unlock (s\<lparr>line_buf := buf\<rparr>))
           else bindE (puts (assert_hook s)
                         ((if text_color_enabled (elog s) then [Some CSI_END] else []) @
                          [Some ELOG_NEWLINE_SIGN]) (log_len, buf))
             (\<lambda>(log_len, buf). Inr (elog_output_unlock
                (elog_buf_output (take log_len buf) (s\<lparr>line_buf := buf\<rparr>)))))"

definition elog_output ::
  "port_info \<Rightarrow> nat \<Rightarrow> string \<Rightarrow> source_pos \<Rightarrow> printed \<Rightarrow> logger \<Rightarrow> stop + logger" where
  "elog_output p level tag pos msg s =
     bindE (ELOG_ASSERT ''level <= ELOG_LVL_VERBOSE'' (level \<le> ELOG_LVL_VERBOSE) s)
     (\<lambda>s. if \<not> output_enabled (elog s) then Inr s
          else if flt_level (el_filter (elog s)) < level then Inr s
          else bindE (elog_get_filter_tag_lvl (Some tag) s)
          (\<lambda>(lvl, s). if lvl < level then Inr s
             else if \<not> strstr tag (flt_tag (el_filter (elog s))) then Inr s
             else if length (enabled_fmt_set (elog s)) \<le> level
             then Inl (Out_Of_Bounds ''level'')
             else elog_output_locked p level tag pos msg (elog_output_lock s)))"

subsection \<open>elog_raw_output\<close>

definition elog_raw_output :: "printed \<Rightarrow> logger \<Rightarrow> logger" where
  "elog_raw_output msg s =
     (if \<not> output_enabled (elog s) then s
      else let s = elog_output_lock s;
               buf = snprintf_at 0 ELOG_LINE_BUF_SIZE (pr_text msg) (line_buf s);
               log_len = (if pr_result msg > -1 \<and> pr_result msg \<le> int ELOG_LINE_BUF_SIZE
                          then nat (pr_result msg) else ELOG_LINE_BUF_SIZE)
           in elog_output_unlock (elog_buf_output (take log_len buf) (s\<lparr>line_buf := buf\<rparr>)))"

subsection \<open>Reading level and tag back\<close>

fun find_color :: "string \<Rightarrow> string list \<Rightarrow> nat \<Rightarrow> int" where
  "find_color log [] i = -1"
| "find_color log (c # cs) i =
     (if strncmp_eq c log (length c) then int i else find_color log cs (Suc i))"

text \<open>The six format assertions are checked in order before the search.\<close>

fun assert_fmts :: "nat list \<Rightarrow> u32 \<Rightarrow> logger \<Rightarrow> stop + logger" where
  "assert_fmts [] fmt_set s = Inr s"
| "assert_fmts (l # ls) fmt_set s =
     bindE (ELOG_ASSERT ''elog.enabled_fmt_set[level] & fmt'' (get_fmt_enabled s l fmt_set) s)
       (assert_fmts ls fmt_set)"

definition elog_find_lvl :: "char list \<Rightarrow> logger \<Rightarrow> stop + int \<times> logger" where
  "elog_find_lvl log s =
     bindE (assert_fmts [0..<ELOG_LVL_TOTAL_NUM] ELOG_FMT_LVL s)
       (\<lambda>s. Inr (find_color (drop (length CSI_START) log) color_output_info 0, s))"

text \<open>The start of the tag in the line and its length, or nothing found.\<close>

definition elog_find_tag :: "char list \<Rightarrow> nat \<Rightarrow> logger \<Rightarrow> stop + (nat \<times> nat) option \<times> logger" where
  "elog_find_tag log lvl s =
     bindE (ELOG_ASSERT ''lvl < ELOG_LVL_TOTAL_NUM'' (lvl < ELOG_LVL_TOTAL_NUM) s)
     (\<lambda>s. if length (enabled_fmt_set (elog s)) \<le> lvl then Inl (Out_Of_Bounds ''lvl'')
      else bindE (ELOG_ASSERT ''elog.enabled_fmt_set[lvl] & ELOG_FMT_TAG''
                    (get_fmt_enabled s lvl ELOG_FMT_TAG) s)
      (\<lambda>s. let start = length CSI_START + length (color_output_info ! lvl)
                        + length (level_output_info ! lvl);
                window = take ELOG_FILTER_TAG_MAX_LEN (drop start log)
            in Inr (if CHR '' '' \<in> set window
                    then Some (start, length (takeWhile (\<lambda>c. c \<noteq> CHR '' '') window)) else None,
                    s)))"

end
