(* ===== verification/ElogLine.thy ===== *)
theory ElogLine
  imports ElogOutput
begin

text \<open>
  What a call of \<open>elog_output\<close> emits: the composed line equals the reference line, the
  concatenation of the pieces and the message cut to what leaves room for the colour reset and
  the newline sign.
\<close>

subsection \<open>Appending pieces\<close>

lemma puts_eq:
  "length buf = ELOG_LINE_BUF_SIZE \<Longrightarrow> len \<le> ELOG_LINE_BUF_SIZE \<Longrightarrow>
   puts h (map Some ss) (len, buf) =
     (let t = take (ELOG_LINE_BUF_SIZE - len) (concat (map cstr ss))
      in Inr (len + length t, write_at len t buf))"
proof (induction ss arbitrary: len buf)
  case (Cons s ss)
  let ?t1 = "take (ELOG_LINE_BUF_SIZE - len) (cstr s)"
  let ?len = "len + length ?t1"
  let ?t2 = "take (ELOG_LINE_BUF_SIZE - ?len) (concat (map cstr ss))"
  have put: "put h (Some s) (len, buf) = Inr (?len, write_at len ?t1 buf)"
    using Cons.prems by (simp add: put_def elog_strcpy_eq Let_def)
  have fits: "?len \<le> ELOG_LINE_BUF_SIZE" using Cons.prems(2) by simp
  have "puts h (map Some ss) (?len, write_at len ?t1 buf) =
      Inr (?len + length ?t2, write_at ?len ?t2 (write_at len ?t1 buf))"
    using Cons.IH [of "write_at len ?t1 buf" ?len] fits Cons.prems(1) by (simp add: Let_def)
  moreover have "write_at ?len ?t2 (write_at len ?t1 buf) = write_at len (?t1 @ ?t2) buf"
    using Cons.prems fits by (intro write_at_write_at) auto
  moreover have "?t1 @ ?t2 = take (ELOG_LINE_BUF_SIZE - len) (concat (map cstr (s # ss)))"
    by (auto simp: min_def)
  moreover have "?len + length ?t2 = len + length (?t1 @ ?t2)" by simp
  ultimately show ?case using put by (simp only: puts.simps list.map bindE_simps Let_def)
qed simp

lemma puts_newline:
  assumes "length buf = ELOG_LINE_BUF_SIZE" and "len < ELOG_LINE_BUF_SIZE"
  shows "puts h [Some ELOG_NEWLINE_SIGN] (len, buf) =
    Inr (len + length ELOG_NEWLINE_SIGN, write_at len ELOG_NEWLINE_SIGN buf)"
  using assms puts_eq [of buf len h "[ELOG_NEWLINE_SIGN]"]
  by (simp add: ELOG_NEWLINE_SIGN_def take_Cons' )

text \<open>A piece that is NULL stops the assembly in \<open>elog_strcpy\<close>; nothing later is reached.\<close>

lemma puts_None:
  assumes "None \<in> set ps" and "length (snd lb) = ELOG_LINE_BUF_SIZE" and "fst lb \<le> ELOG_LINE_BUF_SIZE"
  shows "puts h ps lb = Inl (if h then Null_Deref ''src'' else Assert_Hang ''src'')"
  using assms
proof (induction ps arbitrary: lb)
  case (Cons p ps)
  show ?case
  proof (cases p)
    case None
    then show ?thesis by (simp add: put_def elog_strcpy_def)
  next
    case (Some s)
    let ?t = "take (ELOG_LINE_BUF_SIZE - fst lb) (cstr s)"
    have "put h p lb = Inr (fst lb + length ?t, write_at (fst lb) ?t (snd lb))"
      using Cons.prems Some by (simp add: put_def elog_strcpy_eq Let_def)
    moreover have "puts h ps (fst lb + length ?t, write_at (fst lb) ?t (snd lb)) =
        Inl (if h then Null_Deref ''src'' else Assert_Hang ''src'')"
      using Cons.prems Some by (intro Cons.IH) auto
    ultimately show ?thesis by simp
  qed
qed simp

subsection \<open>The reference line\<close>

definition line_limit :: nat where
  "line_limit = ELOG_LINE_BUF_SIZE - length CSI_END - length ELOG_NEWLINE_SIGN"

definition pieces_text :: "string option list \<Rightarrow> string" where
  "pieces_text ps = concat (map (\<lambda>p. case p of None \<Rightarrow> [] | Some s \<Rightarrow> cstr s) ps)"

definition line_body ::
  "logger \<Rightarrow> port_info \<Rightarrow> nat \<Rightarrow> string \<Rightarrow> source_pos \<Rightarrow> string \<Rightarrow> string" where
  "line_body s p level tag pos text =
     take line_limit (pieces_text (header_pieces s p level tag pos) @ text)"

definition line_tail :: "logger \<Rightarrow> string" where
  "line_tail s = (if text_color_enabled (elog s) then CSI_END else []) @ ELOG_NEWLINE_SIGN"

definition keyword_passes :: "logger \<Rightarrow> string \<Rightarrow> bool" where
  "keyword_passes s body \<longleftrightarrow>
     (let k = flt_keyword (el_filter (elog s)) in k ! 0 \<noteq> NUL \<longrightarrow> sublist (cstr k) body)"

definition header_given :: "logger \<Rightarrow> port_info \<Rightarrow> nat \<Rightarrow> string \<Rightarrow> source_pos \<Rightarrow> bool" where
  "header_given s p level tag pos \<longleftrightarrow> None \<notin> set (header_pieces s p level tag pos)"

lemma CSI_END_props [simp]: "length CSI_END = 4" "NUL \<notin> set CSI_END"
  by (simp_all add: CSI_END_def)

lemma ELOG_NEWLINE_SIGN_props [simp]: "length ELOG_NEWLINE_SIGN = 1" "NUL \<notin> set ELOG_NEWLINE_SIGN"
  by (simp_all add: ELOG_NEWLINE_SIGN_def)

lemma line_limit_eq: "line_limit = 1019"
  by (simp add: line_limit_def ELOG_LINE_BUF_SIZE_def)

lemma NUL_notin_pieces_text [simp]: "NUL \<notin> set (pieces_text ps)"
  by (auto simp: pieces_text_def split: option.splits)

lemma pieces_text_Some: "pieces_text (map Some ss) = concat (map cstr ss)"
  by (simp add: pieces_text_def comp_def)

lemma no_None_map_Some: "None \<notin> set ps \<Longrightarrow> \<exists>ss. ps = map Some ss"
proof (induction ps)
  case (Cons p ps)
  then obtain s ss where "p = Some s" "ps = map Some ss" by (cases p) auto
  then show ?case by (intro exI [of _ "s # ss"]) simp
qed simp

lemma line_len_eq:
  assumes "printed_ok m" and "l \<le> ELOG_LINE_BUF_SIZE"
  shows "reserve_len (message_len l (pr_result m)) = min line_limit (l + length (pr_text m))"
proof -
  have "(int l + pr_result m) mod 2 ^ 32 = int (l + length (pr_text m))"
    using assms by (simp add: printed_ok_def ELOG_LINE_BUF_SIZE_def)
  moreover have "pr_result m > -1" "nat (pr_result m) = length (pr_text m)"
    using assms by (simp_all add: printed_ok_def)
  ultimately show ?thesis
    using assms(2)
    by (simp add: message_len_def reserve_len_def line_limit_eq ELOG_LINE_BUF_SIZE_def min_def)
qed

lemma header_message:
  fixes ss :: "char list list"
  assumes "length buf = ELOG_LINE_BUF_SIZE" and "printed_ok m"
  defines "h \<equiv> concat (map cstr ss)"
  defines "l \<equiv> length (take ELOG_LINE_BUF_SIZE h)"
  defines "buf2 \<equiv> snprintf_at l (ELOG_LINE_BUF_SIZE - l) (pr_text m)
                     (write_at 0 (take ELOG_LINE_BUF_SIZE h) buf)"
  defines "n \<equiv> reserve_len (message_len l (pr_result m))"
  shows "length buf2 = ELOG_LINE_BUF_SIZE" and "n = length (take line_limit (h @ pr_text m))"
    and "take n buf2 = take line_limit (h @ pr_text m)"
proof -
  let ?b = "write_at 0 (take ELOG_LINE_BUF_SIZE h) buf"
  have l: "l \<le> ELOG_LINE_BUF_SIZE" by (simp add: l_def)
  have lb: "length ?b = ELOG_LINE_BUF_SIZE" using assms(1) by simp
  show "length buf2 = ELOG_LINE_BUF_SIZE"
    unfolding buf2_def using lb l by (subst length_snprintf_at) simp_all
  have n: "n = min line_limit (l + length (pr_text m))"
    unfolding n_def using assms(2) l by (rule line_len_eq)
  then show n2: "n = length (take line_limit (h @ pr_text m))"
    by (simp add: l_def line_limit_eq ELOG_LINE_BUF_SIZE_def)
  have tb: "take l ?b = take ELOG_LINE_BUF_SIZE h"
    using assms(1) unfolding l_def by (simp add: write_at_def min_def)
  have "take n buf2 = take n (take l ?b @ pr_text m)"
    unfolding buf2_def
  proof (rule take_snprintf_at)
    show "n \<le> l + (ELOG_LINE_BUF_SIZE - l - 1)"
      using n by (simp add: line_limit_eq ELOG_LINE_BUF_SIZE_def)
  qed (use n lb l in auto)
  also have "\<dots> = take n (h @ pr_text m)"
    using n unfolding tb by (auto simp: line_limit_eq ELOG_LINE_BUF_SIZE_def min_def)
  also have "\<dots> = take line_limit (h @ pr_text m)"
    using n2 by (metis length_take min.commute take_take take_all_iff nle_le)
  finally show "take n buf2 = take line_limit (h @ pr_text m)" .
qed

lemma cstr_cut:
  assumes "NUL \<notin> set (take n buf)" and "n < length buf"
  shows "cstr (buf[n := NUL]) = take n buf"
proof -
  have "buf[n := NUL] = take n buf @ NUL # drop (Suc n) buf"
    using assms(2) by (rule upd_conv_take_nth_drop)
  then show ?thesis using assms(1) by simp
qed

text \<open>
  The whole function after taking the lock: either the keyword is missing and only the lock is
  released, or exactly the reference line goes to the buffered output.
\<close>

lemma elog_output_locked_spec:
  assumes given: "header_given s p level tag pos" and ok: "printed_ok msg"
    and len: "length (line_buf s) = ELOG_LINE_BUF_SIZE"
  defines "body \<equiv> line_body s p level tag pos (pr_text msg)"
  shows "\<exists>buf. length buf = ELOG_LINE_BUF_SIZE \<and> elog_output_locked p level tag pos msg s =
    Inr (elog_output_unlock
      (if keyword_passes s body
       then elog_buf_output (body @ line_tail s) (s\<lparr>line_buf := buf\<rparr>)
       else s\<lparr>line_buf := buf\<rparr>))"
proof -
  obtain ss where ss: "header_pieces s p level tag pos = map Some ss"
    using given no_None_map_Some unfolding header_given_def by blast
  let ?h = "concat (map cstr ss)"
  let ?l = "length (take ELOG_LINE_BUF_SIZE ?h)"
  let ?b1 = "write_at 0 (take ELOG_LINE_BUF_SIZE ?h) (line_buf s)"
  let ?b2 = "snprintf_at ?l (ELOG_LINE_BUF_SIZE - ?l) (pr_text msg) ?b1"
  let ?n = "reserve_len (message_len ?l (pr_result msg))"
  note hm = header_message [OF len ok, of ss]
  have body: "body = take line_limit (?h @ pr_text msg)"
    by (simp add: body_def line_body_def ss pieces_text_Some)
  have n: "?n = length body" and take_b2: "take ?n ?b2 = body"
    and len2: "length ?b2 = ELOG_LINE_BUF_SIZE"
    using hm body by simp_all
  have nul: "NUL \<notin> set body"
    using ok unfolding body by (auto simp: printed_ok_def dest: in_set_takeD)
  have n_lim: "?n \<le> line_limit" using n body by simp
  then have n_lt: "?n < length ?b2" using len2 by (simp add: line_limit_eq ELOG_LINE_BUF_SIZE_def)
  have puts1: "puts (assert_hook s) (header_pieces s p level tag pos) (0, line_buf s) =
      Inr (?l, ?b1)"
    using puts_eq [OF len, of 0 "assert_hook s" ss] by (simp add: ss Let_def)
  let ?k = "flt_keyword (el_filter (elog s))"
  let ?b3 = "if ?k ! 0 \<noteq> NUL then ?b2[?n := NUL] else ?b2"
  have len3: "length ?b3 = ELOG_LINE_BUF_SIZE" and take_b3: "take ?n ?b3 = body"
    using len2 take_b2 by simp_all
  have pass: "(?k ! 0 \<noteq> NUL \<and> \<not> strstr ?b3 ?k) = (\<not> keyword_passes s body)"
    using cstr_cut [of ?n ?b2] n_lt nul take_b2
    by (auto simp: keyword_passes_def strstr_def Let_def)
  let ?ts = "(if text_color_enabled (elog s) then [CSI_END] else []) @ [ELOG_NEWLINE_SIGN]"
  have tail: "concat (map cstr ?ts) = line_tail s" by (simp add: line_tail_def)
  have tail5: "length (line_tail s) \<le> 5" by (simp add: line_tail_def)
  moreover have "5 \<le> ELOG_LINE_BUF_SIZE - ?n"
    using n_lim unfolding line_limit_eq ELOG_LINE_BUF_SIZE_def by linarith
  ultimately have room: "length (line_tail s) \<le> ELOG_LINE_BUF_SIZE - ?n" by (rule order_trans)
  have n_le: "?n \<le> ELOG_LINE_BUF_SIZE" using n_lt len2 by linarith
  have puts2: "puts (assert_hook s) (map Some ?ts) (?n, ?b3) =
      Inr (?n + length (line_tail s), write_at ?n (line_tail s) ?b3)"
    using puts_eq [OF len3 n_le, of "assert_hook s" ?ts] unfolding tail Let_def take_all [OF room] .
  have fits: "?n + length (line_tail s) \<le> length ?b3"
    using room n_lt len2 len3 by linarith
  have out: "take (?n + length (line_tail s)) (write_at ?n (line_tail s) ?b3) =
      body @ line_tail s"
    using take_write_at [OF fits] unfolding take_b3 .
  let ?b4 = "write_at ?n (line_tail s) ?b3"
  have len4: "length ?b4 = ELOG_LINE_BUF_SIZE" using fits len3 by simp
  have ts: "(if text_color_enabled (elog s) then [Some CSI_END] else []) @ [Some ELOG_NEWLINE_SIGN]
      = map Some ?ts" by simp
  have run: "elog_output_locked p level tag pos msg s =
      (if \<not> keyword_passes s body then Inr (elog_output_unlock (s\<lparr>line_buf := ?b3\<rparr>))
       else Inr (elog_output_unlock
         (elog_buf_output (body @ line_tail s) (s\<lparr>line_buf := ?b4\<rparr>))))"
    unfolding elog_output_locked_def puts1 bindE_simps prod.case Let_def ts pass puts2 out ..
  show ?thesis
    by (rule exI [of _ "if keyword_passes s body then ?b4 else ?b3"])
      (simp only: run len3 len4 if_True if_False split: if_split, simp)
qed

end
