(* ===== verification/ElogEffect.thy ===== *)
theory ElogEffect
  imports ElogLine
begin

text \<open>
  The effect of whole calls on a well-formed logger: which calls emit, what they add to the
  stream, that the state stays well formed and that the port lock protects every output and is
  released on every path.
\<close>

subsection \<open>Well-formed loggers\<close>

definition wf_filter :: "elog_filter \<Rightarrow> bool" where
  "wf_filter f \<longleftrightarrow>
     flt_level f \<le> ELOG_LVL_VERBOSE \<and>
     length (flt_tag f) = Suc ELOG_FILTER_TAG_MAX_LEN \<and>
     flt_tag f ! ELOG_FILTER_TAG_MAX_LEN = NUL \<and>
     length (flt_keyword f) = Suc ELOG_FILTER_KW_MAX_LEN \<and>
     flt_keyword f ! ELOG_FILTER_KW_MAX_LEN = NUL \<and>
     wf_table (flt_tag_lvl f)"

definition logger_ok :: "logger \<Rightarrow> bool" where
  "logger_ok s \<longleftrightarrow>
     length (line_buf s) = ELOG_LINE_BUF_SIZE \<and>
     length (enabled_fmt_set (elog s)) = ELOG_LVL_TOTAL_NUM \<and>
     wf_filter (el_filter (elog s)) \<and> buf_ok s"

subsection \<open>The lock changes flags and trace only\<close>

lemma lock_simps [simp]:
  "el_filter (elog (elog_output_lock s)) = el_filter (elog s)"
  "enabled_fmt_set (elog (elog_output_lock s)) = enabled_fmt_set (elog s)"
  "init_ok (elog (elog_output_lock s)) = init_ok (elog s)"
  "output_enabled (elog (elog_output_lock s)) = output_enabled (elog s)"
  "output_lock_enabled (elog (elog_output_lock s)) = output_lock_enabled (elog s)"
  "text_color_enabled (elog (elog_output_lock s)) = text_color_enabled (elog s)"
  "line_buf (elog_output_lock s) = line_buf s" "assert_hook (elog_output_lock s) = assert_hook s"
  "out_buf (elog_output_lock s) = out_buf s"
  "buf_write_size (elog_output_lock s) = buf_write_size s"
  "buf_is_enabled (elog_output_lock s) = buf_is_enabled s"
  "trace (elog_output_lock s) =
     trace s @ (if output_lock_enabled (elog s) then [Port_Lock] else [])"
  by (simp_all add: elog_output_lock_def elog_port_output_lock_def)

lemma unlock_simps [simp]:
  "el_filter (elog (elog_output_unlock s)) = el_filter (elog s)"
  "enabled_fmt_set (elog (elog_output_unlock s)) = enabled_fmt_set (elog s)"
  "init_ok (elog (elog_output_unlock s)) = init_ok (elog s)"
  "output_enabled (elog (elog_output_unlock s)) = output_enabled (elog s)"
  "output_lock_enabled (elog (elog_output_unlock s)) = output_lock_enabled (elog s)"
  "text_color_enabled (elog (elog_output_unlock s)) = text_color_enabled (elog s)"
  "line_buf (elog_output_unlock s) = line_buf s"
  "assert_hook (elog_output_unlock s) = assert_hook s"
  "out_buf (elog_output_unlock s) = out_buf s"
  "buf_write_size (elog_output_unlock s) = buf_write_size s"
  "buf_is_enabled (elog_output_unlock s) = buf_is_enabled s"
  "trace (elog_output_unlock s) =
     trace s @ (if output_lock_enabled (elog s) then [Port_Unlock] else [])"
  by (simp_all add: elog_output_unlock_def elog_port_output_unlock_def)

lemma lock_ok [simp]: "logger_ok (elog_output_lock s) = logger_ok s"
  by (simp add: logger_ok_def buf_ok_def)

lemma unlock_ok [simp]: "logger_ok (elog_output_unlock s) = logger_ok s"
  by (simp add: logger_ok_def buf_ok_def)

lemma lock_written [simp]: "written (elog_output_lock s) = written s"
  by (simp add: written_def delivered_def pending_def)

lemma unlock_written [simp]: "written (elog_output_unlock s) = written s"
  by (simp add: written_def delivered_def pending_def)

lemma buf_output_frame:
  assumes "buf_ok s" and "log_size_ok xs"
  shows "elog (elog_buf_output xs s) = elog s"
    and "\<exists>chunks. trace (elog_buf_output xs s) = trace s @ map Port_Output chunks"
  using elog_buf_output_loop_spec [OF assms]
  by (auto simp: elog_buf_output_def elog_port_output_def intro: exI [of _ "[xs]"])

lemma buf_output_ok:
  "logger_ok s \<Longrightarrow> log_size_ok xs \<Longrightarrow> logger_ok (elog_buf_output xs s)"
  by (simp add: logger_ok_def buf_output_frame(1) elog_buf_output_ok)

subsection \<open>The level of a tag\<close>

definition tag_level :: "logger \<Rightarrow> string \<Rightarrow> nat" where
  "tag_level s tag =
     (if init_ok (elog s) then table_get tag (flt_tag_lvl (el_filter (elog s)))
      else ELOG_FILTER_LVL_ALL)"

lemma get_filter_tag_lvl_eq:
  "elog_get_filter_tag_lvl (Some tag) s =
     Inr (tag_level s tag,
          if init_ok (elog s) then elog_output_unlock (elog_output_lock s) else s)"
  by (simp add: elog_get_filter_tag_lvl_def tag_level_def Let_def)

subsection \<open>elog_output as a whole\<close>

definition accepted :: "logger \<Rightarrow> nat \<Rightarrow> string \<Rightarrow> bool" where
  "accepted s level tag \<longleftrightarrow>
     output_enabled (elog s) \<and> level \<le> flt_level (el_filter (elog s)) \<and>
     level \<le> tag_level s tag \<and> strstr tag (flt_tag (el_filter (elog s)))"

definition emitted_line ::
  "logger \<Rightarrow> port_info \<Rightarrow> nat \<Rightarrow> string \<Rightarrow> source_pos \<Rightarrow> string \<Rightarrow> string" where
  "emitted_line s p level tag pos text =
     (let body = line_body s p level tag pos text in
      if accepted s level tag \<and> keyword_passes s body then body @ line_tail s else [])"

lemma header_pieces_cong:
  assumes "enabled_fmt_set (elog s) = enabled_fmt_set (elog s')"
    and "text_color_enabled (elog s) = text_color_enabled (elog s')"
  shows "header_pieces s p level tag pos = header_pieces s' p level tag pos"
  using assms
  by (simp add: header_pieces_def color_pieces_def level_pieces_def tag_pieces_def info_pieces_def
      position_pieces_def get_fmt_enabled_def get_fmt_used_and_enabled_u32_def
      get_fmt_used_and_enabled_ptr_def)

lemma length_line: "length (line_body s p level tag pos text @ line_tail s) \<le> ELOG_LINE_BUF_SIZE"
proof -
  have "length (line_body s p level tag pos text) \<le> 1019"
    unfolding line_body_def line_limit_eq length_take by simp
  moreover have "length (line_tail s) \<le> 5" by (simp add: line_tail_def)
  ultimately show ?thesis by (simp add: ELOG_LINE_BUF_SIZE_def)
qed

lemma line_size_ok: "log_size_ok (line_body s p level tag pos text @ line_tail s)"
  by (rule log_size_ok_line [OF length_line])

text \<open>
  How the trace may grow while the port lock is enabled: outputs only under the lock, lock and
  unlock alternating. The result is the state of the lock afterwards, \<open>None\<close> for a violation.
\<close>

fun lock_scan :: "bool \<Rightarrow> port_event list \<Rightarrow> bool option" where
  "lock_scan held [] = Some held"
| "lock_scan held (Port_Lock # es) = (if held then None else lock_scan True es)"
| "lock_scan held (Port_Unlock # es) = (if held then lock_scan False es else None)"
| "lock_scan held (Port_Output _ # es) = (if held then lock_scan held es else None)"
| "lock_scan held (Hook_Call _ # es) = lock_scan held es"

lemma lock_scan_append:
  "lock_scan h (es @ fs) = (case lock_scan h es of None \<Rightarrow> None | Some h' \<Rightarrow> lock_scan h' fs)"
  by (induction h es rule: lock_scan.induct) auto

lemma lock_scan_outputs [simp]: "lock_scan True (map Port_Output xs) = Some True"
  by (induction xs) auto

text \<open>The shape every logging call gives its trace.\<close>

definition guarded_step :: "logger \<Rightarrow> logger \<Rightarrow> bool" where
  "guarded_step s s' \<longleftrightarrow>
     (\<exists>es. trace s' = trace s @ es \<and> (output_lock_enabled (elog s) \<longrightarrow> lock_scan False es = Some False))
     \<and> output_lock_enabled (elog s') = output_lock_enabled (elog s)"

lemma guarded_refl [simp]: "guarded_step s s"
  by (simp add: guarded_step_def)

lemma guarded_trans: "guarded_step s t \<Longrightarrow> guarded_step t u \<Longrightarrow> guarded_step s u"
  unfolding guarded_step_def by (auto simp: lock_scan_append split: option.splits)

lemma guarded_lock_unlock:
  "guarded_step s (elog_output_unlock (elog_output_lock s))"
  by (auto simp: guarded_step_def)

lemma guarded_locked_silent:
  "guarded_step s (elog_output_unlock ((elog_output_lock s)\<lparr>line_buf := b\<rparr>))"
  by (auto simp: guarded_step_def)

lemma guarded_locked_output:
  assumes "logger_ok s" and "log_size_ok xs"
  shows "guarded_step s
    (elog_output_unlock (elog_buf_output xs ((elog_output_lock s)\<lparr>line_buf := b\<rparr>)))"
proof -
  let ?t = "(elog_output_lock s)\<lparr>line_buf := b\<rparr>"
  have "buf_ok ?t" using assms(1) by (simp add: logger_ok_def buf_ok_def)
  note fr = buf_output_frame [OF this assms(2)]
  obtain chunks where "trace (elog_buf_output xs ?t) = trace ?t @ map Port_Output chunks"
    using fr(2) by blast
  then show ?thesis
    using fr(1) by (auto simp: guarded_step_def lock_scan_append)
qed

lemma elog_output_effect:
  assumes ok: "logger_ok s" and lev: "level \<le> ELOG_LVL_VERBOSE"
    and given: "header_given s p level tag pos" and msg: "printed_ok msg"
    and buffered: "buf_is_enabled s \<or> buf_write_size s = 0"
  shows "\<exists>s'. elog_output p level tag pos msg s = Inr s' \<and>
    written s' = written s @ emitted_line s p level tag pos (pr_text msg) \<and>
    logger_ok s' \<and> guarded_step s s'"
proof -
  let ?s1 = "if init_ok (elog s) then elog_output_unlock (elog_output_lock s) else s"
  let ?s2 = "elog_output_lock ?s1"
  let ?body = "line_body s p level tag pos (pr_text msg)"
  have s1: "logger_ok ?s1" "written ?s1 = written s" "guarded_step s ?s1"
    using ok by (simp_all add: guarded_lock_unlock)
  have hp: "header_pieces ?s2 p level tag pos = header_pieces s p level tag pos"
    by (rule header_pieces_cong) simp_all
  have same: "line_body ?s2 p level tag pos (pr_text msg) = ?body" "line_tail ?s2 = line_tail s"
    "keyword_passes ?s2 ?body = keyword_passes s ?body" "header_given ?s2 p level tag pos"
    using given by (simp_all add: line_body_def hp line_tail_def keyword_passes_def header_given_def)
  have len2: "length (line_buf ?s2) = ELOG_LINE_BUF_SIZE"
    using ok by (simp add: logger_ok_def)
  have enough: "\<not> length (enabled_fmt_set (elog s)) \<le> level"
    using ok lev by (simp add: logger_ok_def elog_consts)
  show ?thesis
  proof (cases "accepted s level tag")
    case True
    obtain buf where lb: "length buf = ELOG_LINE_BUF_SIZE" and
      run: "elog_output_locked p level tag pos msg ?s2 = Inr (elog_output_unlock
        (if keyword_passes s ?body
         then elog_buf_output (?body @ line_tail s) (?s2\<lparr>line_buf := buf\<rparr>)
         else ?s2\<lparr>line_buf := buf\<rparr>))"
      using elog_output_locked_spec [OF same(4) msg len2] same by auto
    have out: "elog_output p level tag pos msg s = elog_output_locked p level tag pos msg ?s2"
      using True lev enough by (simp add: elog_output_def accepted_def get_filter_tag_lvl_eq not_less)
    let ?t = "?s2\<lparr>line_buf := buf\<rparr>"
    have t: "logger_ok ?t" "buf_is_enabled ?t \<or> buf_write_size ?t = 0" "written ?t = written s"
      using s1 lb ok buffered
      by (simp_all add: logger_ok_def buf_ok_def written_def delivered_def pending_def)
    note size_ok = line_size_ok [of s p level tag pos "pr_text msg"]
    have g: "guarded_step ?s1 (elog_output_unlock
        (if keyword_passes s ?body then elog_buf_output (?body @ line_tail s) ?t else ?t))"
      by (cases "keyword_passes s ?body")
        (simp_all only: if_True if_False guarded_locked_output [OF s1(1) size_ok, of buf]
          guarded_locked_silent)
    let ?u = "if keyword_passes s ?body then elog_buf_output (?body @ line_tail s) ?t else ?t"
    have "written ?u = written s @ emitted_line s p level tag pos (pr_text msg)"
      using t size_ok True elog_buf_output_written [of ?t "?body @ line_tail s"]
      by (simp add: emitted_line_def Let_def logger_ok_def)
    moreover have "logger_ok ?u" using t(1) size_ok by (simp add: buf_output_ok)
    ultimately show ?thesis
      using guarded_trans [OF s1(3) g] unfolding out run by (simp split del: if_split)
  next
    case False
    then have "elog_output p level tag pos msg s =
        Inr (if output_enabled (elog s) \<and> level \<le> flt_level (el_filter (elog s)) then ?s1 else s)"
      using lev by (auto simp: elog_output_def accepted_def get_filter_tag_lvl_eq)
    then show ?thesis using False ok s1 by (simp add: emitted_line_def)
  qed
qed

end
