(* ===== verification/ElogHexdump.thy ===== *)
theory ElogHexdump
  imports ElogEffect
begin

text \<open>
  \<open>elog_hexdump\<close> of \<^verbatim>\<open>elog.c\<close>. Its loop counter is a \<open>uint16_t\<close> that is advanced by the line
  width, so the loop need not end: \<open>None\<close> is a call that never returns.
\<close>

subsection \<open>One line\<close>

definition hex_is_print :: "u8 \<Rightarrow> bool" where
  "hex_is_print ch \<longleftrightarrow> (ucast ch - 32 :: u32) < 127 - 32"

text \<open>The end of the range is an \<open>int\<close>, printed as an unsigned number: it is all ones for an empty first line.\<close>

definition hex_header :: "string \<Rightarrow> nat \<Rightarrow> nat \<Rightarrow> string" where
  "hex_header name width i =
     ''D/HEX '' @ cstr name @ '': '' @ show_hex 4 i @ ''-'' @ show_hex 4 (nat ((int i + int width - 1) mod 2 ^ 32)) @ '': ''"

text \<open>The loop over the hexadecimal columns: one value or a blank, and a gap after every eighth.\<close>

definition hex_column :: "u8 list \<Rightarrow> nat \<Rightarrow> nat \<Rightarrow> string list" where
  "hex_column buf i j =
     [if i + j < length buf then show_hex 2 (unat (buf ! (i + j))) @ '' '' else ''   ''] @
     (if (j + 1) mod 8 = 0 then ['' ''] else [])"

definition hex_char :: "u8 list \<Rightarrow> nat \<Rightarrow> nat \<Rightarrow> string list" where
  "hex_char buf i j =
     (if i + j < length buf then
        [[if hex_is_print (buf ! (i + j)) then char_of (unat (buf ! (i + j))) else CHR ''.'']]
      else [])"

definition hex_pieces :: "u8 list \<Rightarrow> nat \<Rightarrow> nat \<Rightarrow> string list" where
  "hex_pieces buf width i =
     concat (map (hex_column buf i) [0..<width]) @ [''  ''] @
     concat (map (hex_char buf i) [0..<width])"

text \<open>The body of the outer loop, with the array \<open>buf\<close> of exactly \<open>size\<close> bytes.\<close>

definition elog_hex_line :: "string \<Rightarrow> nat \<Rightarrow> u8 list \<Rightarrow> nat \<Rightarrow> logger \<Rightarrow> stop + logger" where
  "elog_hex_line name width buf i s =
     (let hdr = hex_header name width i;
          b = snprintf_at 0 ELOG_LINE_BUF_SIZE hdr (line_buf s);
          log_len = (if length hdr \<le> ELOG_LINE_BUF_SIZE then length hdr else ELOG_LINE_BUF_SIZE)
      in bindE (puts (assert_hook s) (map Some (hex_pieces buf width i)) (log_len, b))
         (\<lambda>(log_len, b).
            let log_len = (if ELOG_LINE_BUF_SIZE < log_len + length ELOG_NEWLINE_SIGN
                           then ELOG_LINE_BUF_SIZE - length ELOG_NEWLINE_SIGN else log_len)
            in bindE (puts (assert_hook s) [Some ELOG_NEWLINE_SIGN] (log_len, b))
               (\<lambda>(log_len, b). Inr (elog_buf_output (take log_len b) (s\<lparr>line_buf := b\<rparr>)))))"

subsection \<open>The loop\<close>

partial_function (option) elog_hexdump_loop ::
  "string \<Rightarrow> nat \<Rightarrow> u8 list \<Rightarrow> nat \<Rightarrow> logger \<Rightarrow> (stop + logger) option" where
  "elog_hexdump_loop name width buf i s =
     (if i < length buf then
        (case elog_hex_line name width buf i s of
           Inl e \<Rightarrow> Some (Inl e)
         | Inr s' \<Rightarrow> elog_hexdump_loop name width buf ((i + width) mod 2 ^ 16) s')
      else Some (Inr s))"

definition elog_hexdump ::
  "string \<Rightarrow> nat \<Rightarrow> u8 list \<Rightarrow> logger \<Rightarrow> (stop + logger) option" where
  "elog_hexdump name width buf s =
     (if \<not> output_enabled (elog s) then Some (Inr s)
      else if flt_level (el_filter (elog s)) < ELOG_LVL_DEBUG then Some (Inr s)
      else if \<not> strstr name (flt_tag (el_filter (elog s))) then Some (Inr s)
      else (case elog_hexdump_loop name width buf 0 (elog_output_lock s) of
              None \<Rightarrow> None
            | Some (Inl e) \<Rightarrow> Some (Inl e)
            | Some (Inr s') \<Rightarrow> Some (Inr (elog_output_unlock s'))))"

subsection \<open>What a line contains\<close>

definition hex_line_text :: "string \<Rightarrow> nat \<Rightarrow> u8 list \<Rightarrow> nat \<Rightarrow> string" where
  "hex_line_text name width buf i =
     take (ELOG_LINE_BUF_SIZE - 1)
       (hex_header name width i @ concat (map cstr (hex_pieces buf width i))) @ ELOG_NEWLINE_SIGN"

lemma hex_line_size_ok: "log_size_ok (hex_line_text name width buf i)"
proof -
  have "length (hex_line_text name width buf i) \<le> 1024"
    unfolding hex_line_text_def length_append length_take by (simp add: ELOG_LINE_BUF_SIZE_def)
  then show ?thesis by (simp add: log_size_ok_def buf_sizes)
qed

lemma elog_hex_line_eq:
  assumes "length (line_buf s) = ELOG_LINE_BUF_SIZE"
  shows "\<exists>b. length b = ELOG_LINE_BUF_SIZE \<and> elog_hex_line name width buf i s =
    Inr (elog_buf_output (hex_line_text name width buf i) (s\<lparr>line_buf := b\<rparr>))"
proof -
  let ?N = "ELOG_LINE_BUF_SIZE"
  let ?hdr = "hex_header name width i"
  let ?ps = "concat (map cstr (hex_pieces buf width i))"
  let ?b1 = "snprintf_at 0 ?N ?hdr (line_buf s)"
  let ?l1 = "if length ?hdr \<le> ?N then length ?hdr else ?N"
  let ?t = "take (?N - ?l1) ?ps"
  let ?b2 = "write_at ?l1 ?t ?b1"
  let ?l2 = "?l1 + length ?t"
  let ?l3 = "if ?N < ?l2 + length ELOG_NEWLINE_SIGN then ?N - length ELOG_NEWLINE_SIGN else ?l2"
  let ?b3 = "write_at ?l3 ELOG_NEWLINE_SIGN ?b2"
  have N: "?N = 1024" by (simp add: ELOG_LINE_BUF_SIZE_def)
  have lb1: "length ?b1 = ?N" using assms by simp
  have l1: "?l1 \<le> ?N" by simp
  have puts1: "puts (assert_hook s) (map Some (hex_pieces buf width i)) (?l1, ?b1) = Inr (?l2, ?b2)"
    using puts_eq [OF lb1 l1, of "assert_hook s" "hex_pieces buf width i"] unfolding Let_def .
  have lb2: "length ?b2 = ?N" using lb1 by simp
  have l3: "?l3 = length (take (?N - 1) (?hdr @ ?ps))"
    unfolding length_take length_append ELOG_NEWLINE_SIGN_props N by auto
  have l3_lt: "?l3 < ?N" unfolding l3 by (simp add: N)
  have puts2: "puts (assert_hook s) [Some ELOG_NEWLINE_SIGN] (?l3, ?b2) =
      Inr (?l3 + length ELOG_NEWLINE_SIGN, ?b3)"
    using lb2 l3_lt by (rule puts_newline)
  have take_b1: "take (min ?l1 (?N - 1)) ?b1 = take (min ?l1 (?N - 1)) ?hdr"
    using assms take_snprintf_at [of 0 ?N "line_buf s" "min ?l1 (?N - 1)" ?hdr] by (simp add: N)
  have "take ?l3 ?b2 = take (?N - 1) (?hdr @ ?ps)"
  proof (cases "length ?hdr < ?N")
    case True
    then have l1_eq: "?l1 = length ?hdr" and hdr: "take (length ?hdr) ?b1 = ?hdr"
      using take_b1 by (simp_all add: N min_def)
    have "take ?l2 ?b2 = ?hdr @ ?t"
      using take_write_at [of ?l1 ?t ?b1] lb1 hdr True
      unfolding l1_eq by (metis add_le_mono1 l1_eq le_add_diff_inverse length_take
          min.cobounded2 nat_add_left_cancel_le less_imp_le)
    then have "take ?l3 (take ?l2 ?b2) = take ?l3 (?hdr @ ?ps)"
      using True by (simp add: l1_eq N)
    moreover have "?l3 \<le> ?l2" using l3_lt by (simp add: N)
    ultimately have "take ?l3 ?b2 = take ?l3 (?hdr @ ?ps)" by (simp only: take_take min_absorb1)
    then show ?thesis by (simp only: l3 take_len_take)
  next
    case False
    then have "?l1 = ?N" "?l3 = ?N - 1" by (auto simp: N)
    then show ?thesis
      using False take_b1 lb1 by (simp add: N)
  qed
  moreover have "\<And>n. n < ?N \<Longrightarrow> n + length ELOG_NEWLINE_SIGN \<le> length ?b2"
    unfolding lb2 by simp
  note take_write_at [OF this [OF l3_lt]]
  ultimately have out:
    "take (?l3 + length ELOG_NEWLINE_SIGN) ?b3 = hex_line_text name width buf i"
    by (simp only: hex_line_text_def)
  have run: "elog_hex_line name width buf i s =
      Inr (elog_buf_output (hex_line_text name width buf i) (s\<lparr>line_buf := ?b3\<rparr>))"
    unfolding elog_hex_line_def Let_def puts1 bindE_simps prod.case puts2 out ..
  have "length ?b3 = ?N" using lb2 l3_lt by simp
  then show ?thesis using run by blast
qed


subsection \<open>The loop ends when the counter does not wrap\<close>

text \<open>Counter values of the iterations, in order.\<close>

definition hex_offsets :: "nat \<Rightarrow> nat \<Rightarrow> nat list" where
  "hex_offsets width n = map (\<lambda>k. k * width) [0..<(n + width - 1) div width]"

definition hexdump_text :: "string \<Rightarrow> nat \<Rightarrow> u8 list \<Rightarrow> string" where
  "hexdump_text name width buf =
     concat (map (hex_line_text name width buf) (hex_offsets width (length buf)))"

lemma lines_left:
  assumes "0 < w" and "k * w < n"
  shows "[k..<(n + w - 1) div w] = k # [Suc k..<(n + w - 1) div w]"
proof -
  have "Suc k * w \<le> n + w - 1" using assms by simp
  then have "Suc k \<le> (n + w - 1) div w"
    using assms(1) by (simp add: less_eq_div_iff_mult_less_eq)
  then show ?thesis by (simp add: upt_conv_Cons)
qed

lemma lines_done:
  assumes "0 < w" and "n \<le> k * w"
  shows "[k..<(n + w - 1) div w] = []"
proof -
  have "n + w - 1 < Suc k * w" using assms by simp
  then have "(n + w - 1) div w < Suc k" by (simp add: div_less_iff_less_mult assms(1))
  then show ?thesis by simp
qed

lemma hexdump_loop_returns:
  assumes w: "0 < w" and bound: "length buf + w \<le> 2 ^ 16" and ok: "logger_ok s"
    and buffered: "buf_is_enabled s \<or> buf_write_size s = 0"
  shows "\<exists>s'. elog_hexdump_loop name w buf (k * w) s = Some (Inr s') \<and> logger_ok s' \<and>
    elog s' = elog s \<and>
    written s' = written s @ concat (map (\<lambda>j. hex_line_text name w buf (j * w))
                                       [k..<(length buf + w - 1) div w]) \<and>
    (\<exists>cs. trace s' = trace s @ map Port_Output cs)"
  using ok buffered
proof (induction "length buf - k * w" arbitrary: k s rule: less_induct)
  case less
  show ?case
  proof (cases "k * w < length buf")
    case True
    obtain b where b: "length b = ELOG_LINE_BUF_SIZE" and
      line: "elog_hex_line name w buf (k * w) s =
        Inr (elog_buf_output (hex_line_text name w buf (k * w)) (s\<lparr>line_buf := b\<rparr>))"
      using elog_hex_line_eq less.prems(1) unfolding logger_ok_def by blast
    let ?t = "s\<lparr>line_buf := b\<rparr>"
    let ?x = "hex_line_text name w buf (k * w)"
    let ?s' = "elog_buf_output ?x ?t"
    have t: "logger_ok ?t" "buf_is_enabled ?t \<or> buf_write_size ?t = 0"
      using less.prems b by (simp_all add: logger_ok_def buf_ok_def)
    have bt: "buf_ok ?t" using t(1) by (simp add: logger_ok_def)
    have s': "logger_ok ?s'" "elog ?s' = elog s" "written ?s' = written s @ ?x"
      using t bt hex_line_size_ok elog_buf_output_written [OF bt hex_line_size_ok t(2)]
      by (simp_all add: buf_output_ok buf_output_frame written_def delivered_def pending_def)
    have buffered': "buf_is_enabled ?s' \<or> buf_write_size ?s' = 0"
      using t(2) by (cases "buf_is_enabled s") (simp_all add: elog_buf_output_def elog_port_output_def elog_buf_output_loop_fields)
    have step: "(k * w + w) mod 2 ^ 16 = Suc k * w"
      using True bound by simp
    have less': "length buf - Suc k * w < length buf - k * w" using True w by simp
    obtain s'' where IH: "elog_hexdump_loop name w buf (Suc k * w) ?s' = Some (Inr s'')"
      "logger_ok s''" "elog s'' = elog ?s'"
      "written s'' = written ?s' @ concat (map (\<lambda>j. hex_line_text name w buf (j * w))
          [Suc k..<(length buf + w - 1) div w])"
      "\<exists>cs. trace s'' = trace ?s' @ map Port_Output cs"
      using less.hyps [OF less' s'(1) buffered'] by blast
    obtain cs where "trace ?s' = trace ?t @ map Port_Output cs"
      using buf_output_frame(2) [OF bt hex_line_size_ok] by blast
    then have tr: "\<exists>cs. trace s'' = trace s @ map Port_Output cs"
      using IH(5) by (auto simp flip: map_append)
    have "elog_hexdump_loop name w buf (k * w) s = Some (Inr s'')"
      unfolding elog_hexdump_loop.simps [of name w buf "k * w" s] line step
      using True IH(1) by (simp del: mult_Suc)
    then show ?thesis
      using IH s' tr lines_left [OF w True] by simp
  next
    case False
    then have "elog_hexdump_loop name w buf (k * w) s = Some (Inr s)"
      by (subst elog_hexdump_loop.simps) simp
    moreover have "[k..<(length buf + w - 1) div w] = []"
      using False w by (intro lines_done) simp_all
    ultimately show ?thesis
      using less.prems by (intro exI [of _ s]) (simp only: list.map concat.simps append_Nil2
          simp_thms ex_simps sum.inject option.inject, simp add: exI [of _ "[]"])
  qed
qed

text \<open>
  When the width divides \<open>2 ^ 16\<close> and the array reaches into the last line before the wrap, the
  counter starts again at 0 and the loop never ends.
\<close>

lemma wrap_stays:
  fixes w i :: nat
  assumes "w dvd 2 ^ 16" and "w dvd i" and "i < 2 ^ 16"
  shows "i + w \<le> 2 ^ 16" and "w dvd (i + w) mod 2 ^ 16"
proof -
  obtain a where a: "i = w * a" using assms(2) by (rule dvdE)
  obtain c where c: "2 ^ 16 = w * c" using assms(1) by (rule dvdE)
  have "a < c" using assms(3) unfolding a c by (metis mult_less_cancel1)
  then have "w * Suc a \<le> w * c" by (intro mult_le_mono2) simp
  then show "i + w \<le> 2 ^ 16" unfolding a c by simp
  show "w dvd (i + w) mod 2 ^ 16" using assms(1,2) by (simp add: dvd_mod)
qed

text \<open>A set of counter values inside the array that the step never leaves keeps the loop running.\<close>

lemma hexdump_loop_diverges:
  assumes inside: "\<And>i. i \<in> I \<Longrightarrow> i < length buf"
    and closed: "\<And>i. i \<in> I \<Longrightarrow> (i + w) mod 2 ^ 16 \<in> I"
    and i: "i \<in> I" and len: "length (line_buf s) = ELOG_LINE_BUF_SIZE"
  shows "elog_hexdump_loop name w buf i s = None"
proof (rule ccontr)
  assume "elog_hexdump_loop name w buf i s \<noteq> None"
  then obtain r where ret: "elog_hexdump_loop name w buf i s = Some r" by auto
  let ?P = "\<lambda>n w' b i s r. w' = w \<and> b = buf \<and> length (line_buf s) = ELOG_LINE_BUF_SIZE \<longrightarrow> i \<notin> I"
  have "?P name w buf i s r"
  proof (rule elog_hexdump_loop.raw_induct [where P = ?P, OF _ ret])
    fix f n w' b i s r
    assume IH: "\<And>n w' b i s r. f n w' b i s = Some r \<Longrightarrow> ?P n w' b i s r"
      and eq: "(if i < length b then
          case elog_hex_line n w' b i s of Inl e \<Rightarrow> Some (Inl e)
          | Inr s' \<Rightarrow> f n w' b ((i + w') mod 2 ^ 16) s'
        else Some (Inr s)) = Some r"
    show "?P n w' b i s r"
    proof (intro impI notI)
      assume w': "w' = w \<and> b = buf \<and> length (line_buf s) = ELOG_LINE_BUF_SIZE" and i: "i \<in> I"
      obtain c where "length c = ELOG_LINE_BUF_SIZE" and "elog_hex_line n w b i s =
          Inr (elog_buf_output (hex_line_text n w b i) (s\<lparr>line_buf := c\<rparr>))"
        using elog_hex_line_eq w' by blast
      then obtain s' where "f n w b ((i + w) mod 2 ^ 16) s' = Some r"
        and "length (line_buf s') = ELOG_LINE_BUF_SIZE"
        using eq inside [OF i] w' by simp
      then show False using IH w' closed [OF i] by blast
    qed
  qed
  then show False using i len by blast
qed

end
