(* ===== verification/ElogLife.thy ===== *)
theory ElogLife
  imports ElogHexdump
begin

text \<open>
  The life cycle of the logger in \<^verbatim>\<open>elog.c\<close>: the static state, \<open>elog_init\<close>, \<open>elog_deinit\<close>,
  \<open>elog_start\<close> and \<open>elog_stop\<close>; and the lemmas behind the properties of whole runs.
\<close>

datatype ElogErrCode = ELOG_NO_ERR

definition ELOG_SW_VERSION :: string where "ELOG_SW_VERSION = ''2.2.99''"

subsection \<open>The state before initialisation\<close>

definition static_slot :: tag_lvl_filter where
  "static_slot =
     \<lparr>tl_level = 0, tl_tag = replicate (ELOG_FILTER_TAG_MAX_LEN + 1) NUL, tl_use_flag = False\<rparr>"

definition static_logger :: logger where
  "static_logger =
     \<lparr>elog = \<lparr>el_filter = \<lparr>flt_level = 0,
                           flt_tag = replicate (ELOG_FILTER_TAG_MAX_LEN + 1) NUL,
                           flt_keyword = replicate (ELOG_FILTER_KW_MAX_LEN + 1) NUL,
                           flt_tag_lvl = replicate ELOG_FILTER_TAG_LVL_MAX_NUM static_slot\<rparr>,
             enabled_fmt_set = replicate ELOG_LVL_TOTAL_NUM 0,
             init_ok = False, output_enabled = False, output_lock_enabled = False,
             output_is_locked_before_enable = False, output_is_locked_before_disable = False,
             text_color_enabled = False\<rparr>,
      line_buf = replicate ELOG_LINE_BUF_SIZE NUL, assert_hook = False,
      out_buf = replicate ELOG_BUF_OUTPUT_BUF_SIZE NUL, buf_write_size = 0,
      buf_is_enabled = False, trace = []\<rparr>"

subsection \<open>Operations\<close>

definition elog_port_init :: ElogErrCode where "elog_port_init = ELOG_NO_ERR"

definition elog_init :: "logger \<Rightarrow> stop + ElogErrCode \<times> logger" where
  "elog_init s =
     (if init_ok (elog s) then Inr (ELOG_NO_ERR, s)
      else if elog_port_init \<noteq> ELOG_NO_ERR then Inr (elog_port_init, s)
      else let s = elog_output_lock_enabled True s;
               s = upd_elog (\<lambda>e. e\<lparr>output_is_locked_before_enable := False,
                                   output_is_locked_before_disable := False\<rparr>) s;
               s = elog_set_text_color_enabled True s
           in bindE (elog_set_filter_lvl ELOG_LVL_VERBOSE s)
             (\<lambda>s. Inr (ELOG_NO_ERR,
                upd_elog (\<lambda>e. e\<lparr>init_ok := True\<rparr>) (elog_set_filter_tag_lvl_default s))))"

definition elog_deinit :: "logger \<Rightarrow> logger" where
  "elog_deinit s =
     (if \<not> init_ok (elog s) then s else upd_elog (\<lambda>e. e\<lparr>init_ok := False\<rparr>) s)"

text \<open>The version message of start and stop; \<open>file\<close> is what \<open>__FILE__\<close> expands to.\<close>

definition version_message :: "string \<Rightarrow> printed" where
  "version_message what =
     (let t = ''EasyLogger V'' @ ELOG_SW_VERSION @ '' is '' @ what @ '' success.''
      in \<lparr>pr_result = int (length t), pr_text = t\<rparr>)"

definition elog_start :: "port_info \<Rightarrow> string \<Rightarrow> logger \<Rightarrow> stop + logger" where
  "elog_start p file s =
     (if \<not> init_ok (elog s) then Inr s
      else elog_output p ELOG_LVL_INFO ''elog''
        \<lparr>sp_file = Some file, sp_func = Some ''elog_start'', sp_line = 254\<rparr>
        (version_message ''initialize'')
        (elog_buf_enabled True (elog_set_output_enabled True s)))"

definition elog_stop :: "port_info \<Rightarrow> string \<Rightarrow> logger \<Rightarrow> stop + logger" where
  "elog_stop p file s =
     (if \<not> init_ok (elog s) then Inr s
      else elog_output p ELOG_LVL_INFO ''elog''
        \<lparr>sp_file = Some file, sp_func = Some ''elog_stop'', sp_line = 275\<rparr>
        (version_message ''deinitialize'')
        (elog_buf_enabled False (elog_set_output_enabled False s)))"


subsection \<open>Initialisation\<close>

lemma wf_static_table: "wf_table (replicate ELOG_FILTER_TAG_LVL_MAX_NUM static_slot)"
  by (simp add: wf_table_def wf_slot_def static_slot_def used_keys_def filter_replicate
      del: replicate_Suc)

lemma clear_static_slot: "clear_slot static_slot = static_slot"
  by (simp add: clear_slot_def static_slot_def write_at_whole elog_consts)

text \<open>Any logger whose filter and format settings have the shape of the declarations.\<close>

lemma logger_ok_static:
  "logger_ok (static_logger\<lparr>elog := e\<rparr>) \<longleftrightarrow>
     length (enabled_fmt_set e) = ELOG_LVL_TOTAL_NUM \<and> wf_filter (el_filter e)"
  by (simp add: logger_ok_def static_logger_def buf_ok_def)

definition init_easy_logger :: easy_logger where
  "init_easy_logger =
     (elog static_logger)\<lparr>el_filter := (el_filter (elog static_logger))\<lparr>flt_level := 5\<rparr>,
        init_ok := True, output_lock_enabled := True, text_color_enabled := True\<rparr>"

lemma elog_init_static:
  "elog_init static_logger = Inr (ELOG_NO_ERR, static_logger\<lparr>elog := init_easy_logger\<rparr>)"
  by (simp add: elog_init_def static_logger_def init_easy_logger_def elog_port_init_def Let_def
      elog_output_lock_enabled_def elog_set_text_color_enabled_def elog_set_filter_lvl_def
      elog_set_filter_tag_lvl_default_def clear_static_slot ELOG_LVL_VERBOSE_def)

lemma wf_init_filter: "wf_filter (el_filter init_easy_logger)"
  by (simp add: wf_filter_def init_easy_logger_def static_logger_def wf_static_table
      ELOG_LVL_VERBOSE_def del: replicate_Suc)

subsection \<open>The beginning of an emitted line\<close>

lemma color_output_info_props:
  assumes "level \<le> ELOG_LVL_VERBOSE"
  shows "length (color_output_info ! level) = 6" "NUL \<notin> set (color_output_info ! level)"
    "length (level_output_info ! level) = 2" "NUL \<notin> set (level_output_info ! level)"
proof -
  have "level < 6" using assms by (simp add: elog_consts)
  then have lv: "level \<in> {0, 1, 2, 3, 4, 5}" by auto
  show "length (color_output_info ! level) = 6" "NUL \<notin> set (color_output_info ! level)"
    "length (level_output_info ! level) = 2" "NUL \<notin> set (level_output_info ! level)"
    using lv by (auto simp: color_output_info_def level_output_info_def)
qed

lemma CSI_START_props: "length CSI_START = 2" "NUL \<notin> set CSI_START"
  by (simp_all add: CSI_START_def)

lemma find_color_level:
  assumes "level \<le> ELOG_LVL_VERBOSE" and "NUL \<notin> set rest"
  shows "find_color (color_output_info ! level @ rest) color_output_info 0 = int level"
proof -
  have "level < 6" using assms by (simp add: elog_consts)
  then have "level \<in> {0, 1, 2, 3, 4, 5}" by auto
  then show ?thesis
    using assms(2) by (auto simp: color_output_info_def strncmp_eq_def)
qed

lemma assert_fmts_ok:
  "\<forall>l \<in> set ls. get_fmt_enabled s l f \<Longrightarrow> assert_fmts ls f s = Inr s"
  by (induction ls) auto

definition marked_prefix :: "nat \<Rightarrow> string \<Rightarrow> string" where
  "marked_prefix level tag =
     CSI_START @ color_output_info ! level @ level_output_info ! level @ tag @
     replicate (ELOG_FILTER_TAG_MAX_LEN div 2 - length tag) (CHR '' '') @ '' ''"

lemma line_body_prefix:
  assumes "text_color_enabled (elog s)" and "get_fmt_enabled s level ELOG_FMT_LVL"
    and "get_fmt_enabled s level ELOG_FMT_TAG" and "level \<le> ELOG_LVL_VERBOSE"
    and "NUL \<notin> set tag" and "length tag < ELOG_FILTER_TAG_MAX_LEN"
  shows "\<exists>rest. line_body s p level tag pos m = marked_prefix level tag @ rest"
proof -
  let ?more = "pieces_text (info_pieces s p level @ position_pieces s level pos) @ m"
  have "pieces_text (header_pieces s p level tag pos) @ m = marked_prefix level tag @ ?more"
    using assms color_output_info_props [OF assms(4)] CSI_START_props
    by (simp add: header_pieces_def color_pieces_def level_pieces_def tag_pieces_def
        pieces_text_def marked_prefix_def strlen_def)
  moreover have "length (marked_prefix level tag) \<le> line_limit"
    using assms(6) color_output_info_props [OF assms(4)] CSI_START_props
    by (simp add: marked_prefix_def line_limit_eq elog_consts)
  ultimately show ?thesis by (simp add: line_body_def)
qed

lemma takeWhile_not_space: "CHR '' '' \<notin> set t \<Longrightarrow> takeWhile (\<lambda>c. c \<noteq> CHR '' '') (t @ CHR '' '' # r) = t"
  by (induction t) auto

lemma find_tag_marked:
  fixes rest :: string
  assumes "length tag < ELOG_FILTER_TAG_MAX_LEN" and "CHR '' '' \<notin> set tag"
  defines "w \<equiv> take ELOG_FILTER_TAG_MAX_LEN
    (tag @ replicate (ELOG_FILTER_TAG_MAX_LEN div 2 - length tag) (CHR '' '') @ CHR '' '' # rest)"
  shows "CHR '' '' \<in> set w" and "takeWhile (\<lambda>c. c \<noteq> CHR '' '') w = tag"
proof -
  have "replicate n (CHR '' '') @ CHR '' '' # rest = CHR '' '' # replicate n (CHR '' '') @ rest" for n
    by (induction n) auto
  then have w: "w = tag @ CHR '' '' # take (ELOG_FILTER_TAG_MAX_LEN - length tag - 1)
      (replicate (ELOG_FILTER_TAG_MAX_LEN div 2 - length tag) (CHR '' '') @ rest)"
    using assms(1) by (simp add: w_def take_Cons' )
  show "CHR '' '' \<in> set w" unfolding w by simp
  show "takeWhile (\<lambda>c. c \<noteq> CHR '' '') w = tag" unfolding w using assms(2) by (rule takeWhile_not_space)
qed

lemma find_lvl_tag_marked:
  fixes rest :: string
  assumes "\<forall>l < ELOG_LVL_TOTAL_NUM. get_fmt_enabled s l ELOG_FMT_LVL"
    and "get_fmt_enabled s level ELOG_FMT_TAG" and "level \<le> ELOG_LVL_VERBOSE"
    and "length (enabled_fmt_set (elog s)) = ELOG_LVL_TOTAL_NUM"
    and "NUL \<notin> set (tag @ rest)" and "CHR '' '' \<notin> set tag"
    and "length tag < ELOG_FILTER_TAG_MAX_LEN"
  defines "line \<equiv> marked_prefix level tag @ rest"
  shows "elog_find_lvl line s = Inr (int level, s)"
    and "elog_find_tag line level s = Inr (Some (10, length tag), s)"
    and "take (length tag) (drop 10 line) = tag"
proof -
  note props = color_output_info_props [OF assms(3)] CSI_START_props
  let ?after = "level_output_info ! level @ tag @
     replicate (ELOG_FILTER_TAG_MAX_LEN div 2 - length tag) (CHR '' '') @ '' '' @ rest"
  have line: "drop (length CSI_START) line = color_output_info ! level @ ?after"
    by (simp add: line_def marked_prefix_def)
  have "NUL \<notin> set ?after" using assms(5) props by auto
  then have "find_color (color_output_info ! level @ ?after) color_output_info 0 = int level"
    using assms(3) by (intro find_color_level)
  moreover have "assert_fmts [0..<ELOG_LVL_TOTAL_NUM] ELOG_FMT_LVL s = Inr s"
    using assms(1) by (intro assert_fmts_ok) simp
  ultimately show "elog_find_lvl line s = Inr (int level, s)"
    by (simp only: elog_find_lvl_def bindE_simps line)
  have drop10: "drop 10 line = tag @ replicate (ELOG_FILTER_TAG_MAX_LEN div 2 - length tag) (CHR '' '')
      @ CHR '' '' # rest"
    using props by (simp add: line_def marked_prefix_def)
  then show "take (length tag) (drop 10 line) = tag" by simp
  have "level < ELOG_LVL_TOTAL_NUM" using assms(3) by (simp add: elog_consts)
  then show "elog_find_tag line level s = Inr (Some (10, length tag), s)"
    using find_tag_marked [OF assms(7,6), of rest] assms(2,4) props
    by (simp add: elog_find_tag_def Let_def drop10)
qed

end
