(* ===== verification/ElogProps.thy ===== *)
theory ElogProps
  imports ElogLife
begin

text \<open>The properties of the EasyLogger model, each with a concrete instance.\<close>

subsection \<open>A logger for the instances\<close>

text \<open>After \<open>elog_init\<close>, output enabled, level and tag shown for every level.\<close>

definition demo_logger :: logger where
  "demo_logger =
     static_logger\<lparr>elog := init_easy_logger\<lparr>output_enabled := True,
                     enabled_fmt_set := replicate ELOG_LVL_TOTAL_NUM 3\<rparr>\<rparr>"

definition no_pos :: source_pos where
  "no_pos = \<lparr>sp_file = None, sp_func = None, sp_line = 0\<rparr>"

definition demo_message :: printed where
  "demo_message = \<lparr>pr_result = 2, pr_text = ''hi''\<rparr>"

lemma demo_ok: "logger_ok demo_logger"
  using wf_init_filter by (simp add: demo_logger_def logger_ok_static)

lemma demo_fmt: "l < 6 \<Longrightarrow> enabled_fmt_set (elog demo_logger) ! l = 3"
  by (simp add: demo_logger_def elog_consts del: replicate_Suc)

lemma demo_get_fmt: "l < 6 \<Longrightarrow> get_fmt_enabled demo_logger l f = (3 AND f \<noteq> 0)"
  by (simp add: get_fmt_enabled_def demo_fmt)

lemma demo_pieces:
  "header_pieces demo_logger shipped_port 3 tag no_pos =
     [Some CSI_START, Some (color_output_info ! 3), Some (level_output_info ! 3)] @
     tag_pieces demo_logger 3 tag"
  by (simp add: header_pieces_def color_pieces_def level_pieces_def info_pieces_def
      position_pieces_def get_fmt_used_and_enabled_ptr_def get_fmt_used_and_enabled_u32_def
      no_pos_def demo_get_fmt elog_fmt_bits Let_def)
    (simp add: demo_logger_def init_easy_logger_def)

lemma demo_given: "header_given demo_logger shipped_port 3 tag no_pos"
  by (simp add: header_given_def demo_pieces tag_pieces_def)

lemma demo_message_ok: "printed_ok demo_message"
  by (simp add: printed_ok_def demo_message_def)

lemma demo_unbuffered: "buf_write_size demo_logger = 0"
  by (simp add: demo_logger_def static_logger_def)

subsection \<open>Lines\<close>

text \<open>C1: \<open>elog_output\<close> always returns on a well-formed logger (given non-null header pieces and
  an ordinary formatting result), keeps the logger well formed, and appends to the stream of bytes
  written exactly the reference line: nothing when the output switch, the level filter, the tag's
  own level, the tag filter or the keyword rejects the call, otherwise the header pieces and the
  message cut to 1019 characters, followed by the colour reset and the newline sign.\<close>

theorem elog_output_writes_line:
  assumes "logger_ok s" and "level \<le> ELOG_LVL_VERBOSE" and "header_given s p level tag pos"
    and "printed_ok msg" and "buf_is_enabled s \<or> buf_write_size s = 0"
  shows "\<exists>s'. elog_output p level tag pos msg s = Inr s' \<and> logger_ok s' \<and>
    written s' = written s @ emitted_line s p level tag pos (pr_text msg)"
  using elog_output_effect [OF assms] by blast

lemma elog_output_writes_line_witness:
  "\<exists>s'. elog_output shipped_port 3 ''ab'' no_pos demo_message demo_logger = Inr s' \<and>
     logger_ok s' \<and> written s' = written demo_logger @
       emitted_line demo_logger shipped_port 3 ''ab'' no_pos ''hi''"
  using elog_output_writes_line [OF demo_ok _ demo_given demo_message_ok, of "''ab''"]
    demo_unbuffered
  by (simp add: ELOG_LVL_VERBOSE_def demo_message_def)

text \<open>C23: with the port lock enabled, every call of \<open>elog_output\<close>, whatever filter stops it,
  extends the trace by events in which the lock is taken before and released after each output,
  never taken twice, and free at the end.\<close>

theorem elog_output_lock_discipline:
  assumes "logger_ok s" and "level \<le> ELOG_LVL_VERBOSE" and "header_given s p level tag pos"
    and "printed_ok msg" and "buf_is_enabled s \<or> buf_write_size s = 0"
    and "output_lock_enabled (elog s)"
  shows "\<exists>s' es. elog_output p level tag pos msg s = Inr s' \<and> trace s' = trace s @ es \<and>
    lock_scan False es = Some False"
  using elog_output_effect [OF assms(1-5)] assms(6) unfolding guarded_step_def by blast

lemma elog_output_lock_discipline_witness:
  "\<exists>s' es. elog_output shipped_port 3 ''ab'' no_pos demo_message demo_logger = Inr s' \<and>
     trace s' = trace demo_logger @ es \<and> lock_scan False es = Some False"
  by (rule elog_output_lock_discipline [OF demo_ok _ demo_given demo_message_ok])
    (simp_all add: ELOG_LVL_VERBOSE_def demo_unbuffered, simp add: demo_logger_def init_easy_logger_def)

text \<open>C31: whatever the lengths of header and message, what a call appends to the stream is either
  nothing or one line of at most 1024 bytes that ends with the complete colour reset sequence
  (when colours are on) and the newline sign, so truncation never eats the terminator.\<close>

theorem elog_output_line_bounded:
  assumes "logger_ok s" and "level \<le> ELOG_LVL_VERBOSE" and "header_given s p level tag pos"
    and "printed_ok msg" and "buf_is_enabled s \<or> buf_write_size s = 0"
  shows "\<exists>s' line. elog_output p level tag pos msg s = Inr s' \<and> written s' = written s @ line \<and>
    (line \<noteq> [] \<longrightarrow> length line \<le> ELOG_LINE_BUF_SIZE \<and>
      suffix ((if text_color_enabled (elog s) then CSI_END else []) @ ELOG_NEWLINE_SIGN) line)"
  using elog_output_effect [OF assms] length_line [of s p level tag pos "pr_text msg"]
  by (auto simp: emitted_line_def Let_def suffix_def line_tail_def)

lemma elog_output_line_bounded_witness:
  "\<exists>s' line. elog_output shipped_port 3 ''ab'' no_pos demo_message demo_logger = Inr s' \<and>
     written s' = written demo_logger @ line \<and>
     (line \<noteq> [] \<longrightarrow> length line \<le> ELOG_LINE_BUF_SIZE \<and>
       suffix ((if text_color_enabled (elog demo_logger) then CSI_END else []) @ ELOG_NEWLINE_SIGN)
         line)"
  by (rule elog_output_line_bounded [OF demo_ok _ demo_given demo_message_ok])
    (simp_all add: ELOG_LVL_VERBOSE_def demo_unbuffered)

text \<open>C29: reading a line back. With colours on, the level shown for every level and the tag shown
  for this one, \<open>elog_find_lvl\<close> and \<open>elog_find_tag\<close> recover from the emitted line the level and the
  tag it was logged with, for every tag of at most 29 characters without a space.\<close>

theorem elog_find_roundtrip:
  assumes "logger_ok s" and "text_color_enabled (elog s)"
    and "\<forall>l < ELOG_LVL_TOTAL_NUM. get_fmt_enabled s l ELOG_FMT_LVL"
    and "get_fmt_enabled s level ELOG_FMT_TAG" and "level \<le> ELOG_LVL_VERBOSE"
    and "NUL \<notin> set tag" and "CHR '' '' \<notin> set tag" and "length tag < ELOG_FILTER_TAG_MAX_LEN"
    and "printed_ok msg"
    and "line = emitted_line s p level tag pos (pr_text msg)" and "line \<noteq> []"
  shows "elog_find_lvl line s = Inr (int level, s) \<and>
    elog_find_tag line level s = Inr (Some (10, length tag), s) \<and>
    take (length tag) (drop 10 line) = tag"
proof -
  have line: "line = line_body s p level tag pos (pr_text msg) @ line_tail s"
    using assms(10,11) by (auto simp: emitted_line_def Let_def split: if_splits)
  have lvl: "get_fmt_enabled s level ELOG_FMT_LVL"
    using assms(3,5) by (simp add: elog_consts)
  obtain rest where rest: "line_body s p level tag pos (pr_text msg) = marked_prefix level tag @ rest"
    using line_body_prefix [OF assms(2) lvl assms(4,5,6,8)] by blast
  have "NUL \<notin> set (line_body s p level tag pos (pr_text msg))"
    using assms(9) by (auto simp: line_body_def printed_ok_def dest!: in_set_takeD)
  then have nul: "NUL \<notin> set (tag @ rest @ line_tail s)"
    using assms(6) by (auto simp: rest line_tail_def)
  have len: "length (enabled_fmt_set (elog s)) = ELOG_LVL_TOTAL_NUM"
    using assms(1) by (simp add: logger_ok_def)
  show ?thesis
    using find_lvl_tag_marked [OF assms(3,4,5) len nul assms(7,8)]
    unfolding line rest append_assoc by blast
qed

lemma elog_find_roundtrip_witness:
  "let line = emitted_line demo_logger shipped_port 3 ''ab'' no_pos ''hi'' in
     elog_find_lvl line demo_logger = Inr (3, demo_logger) \<and>
     elog_find_tag line 3 demo_logger = Inr (Some (10, 2), demo_logger) \<and>
     take 2 (drop 10 line) = ''ab''"
proof -
  let ?line = "emitted_line demo_logger shipped_port 3 ''ab'' no_pos ''hi''"
  have acc: "accepted demo_logger 3 ''ab''"
    by (simp add: accepted_def demo_logger_def init_easy_logger_def static_logger_def tag_level_def
        table_get_def Let_def static_slot_def elog_consts strstr_def cstr_append_replicate_NUL
        numeral_eq_Suc)
  have kw: "keyword_passes demo_logger b" for b
    by (simp add: keyword_passes_def demo_logger_def init_easy_logger_def static_logger_def Let_def)
  have ne: "?line \<noteq> []"
    using acc kw by (simp add: emitted_line_def line_tail_def ELOG_NEWLINE_SIGN_def Let_def)
  have col: "text_color_enabled (elog demo_logger)"
    by (simp add: demo_logger_def init_easy_logger_def)
  have "elog_find_lvl ?line demo_logger = Inr (int 3, demo_logger) \<and>
     elog_find_tag ?line 3 demo_logger = Inr (Some (10, length ''ab''), demo_logger) \<and>
     take (length ''ab'') (drop 10 ?line) = ''ab''"
    by (rule elog_find_roundtrip [OF demo_ok col _ _ _ _ _ _ demo_message_ok _ ne])
      (simp_all add: demo_get_fmt elog_fmt_bits elog_consts demo_message_def)
  then show ?thesis by (simp add: Let_def numeral_2_eq_2)
qed

text \<open>raw output appends the formatted text to the stream when it has at most 1023 characters; of
  a longer one it appends the first 1023 characters and the NUL byte that \<open>vsnprintf\<close> stored
  after them, because the length test compares with the buffer size instead of the last index.\<close>

theorem elog_raw_output_exact:
  assumes "logger_ok s" and "printed_ok msg" and "output_enabled (elog s)"
    and "buf_is_enabled s \<or> buf_write_size s = 0"
  shows "written (elog_raw_output msg s) = written s @
    (if length (pr_text msg) < ELOG_LINE_BUF_SIZE then pr_text msg
     else take (ELOG_LINE_BUF_SIZE - 1) (pr_text msg) @ [NUL])"
proof -
  let ?N = "ELOG_LINE_BUF_SIZE" and ?m = "pr_text msg"
  let ?b = "snprintf_at 0 ?N ?m (line_buf (elog_output_lock s))"
  let ?n = "if pr_result msg > -1 \<and> pr_result msg \<le> int ?N then nat (pr_result msg) else ?N"
  let ?t = "(elog_output_lock s)\<lparr>line_buf := ?b\<rparr>"
  have len: "length (line_buf s) = ?N" and N: "0 < ?N"
    using assms(1) by (simp_all add: logger_ok_def ELOG_LINE_BUF_SIZE_def)
  have b: "?b = take (?N - 1) ?m @ NUL # drop (Suc (length (take (?N - 1) ?m))) (line_buf s)"
    using N by (simp add: snprintf_at_def write_at_def)
  have n: "?n = min (length ?m) ?N"
    using assms(2) by (simp add: printed_ok_def)
  have out: "take ?n ?b = (if length ?m < ?N then ?m else take (?N - 1) ?m @ [NUL])"
    using N len unfolding n b by (auto simp: min_def take_Cons')
  have legal: "log_size_ok (take ?n ?b)"
    by (rule log_size_ok_line) (simp add: n)
  have "buf_ok ?t \<and> (buf_is_enabled ?t \<or> buf_write_size ?t = 0)"
    using assms by (simp add: logger_ok_def buf_ok_def)
  then have "written (elog_buf_output (take ?n ?b) ?t) = written ?t @ take ?n ?b"
    using legal by (intro buffered.out_stream)
  moreover have "written ?t = written s" by (simp add: written_def delivered_def pending_def)
  ultimately have "written (elog_raw_output msg s) = written s @ take ?n ?b"
    using assms(3) by (simp add: elog_raw_output_def Let_def)
  then show ?thesis unfolding out .
qed

lemma elog_raw_output_exact_witness:
  "written (elog_raw_output demo_message demo_logger) = written demo_logger @ ''hi''"
  using elog_raw_output_exact [OF demo_ok demo_message_ok] demo_unbuffered
  by (simp add: demo_logger_def demo_message_def ELOG_LINE_BUF_SIZE_def)

subsection \<open>Buffered output\<close>

text \<open>C13: while buffered mode is on, any sequence of writes loses, duplicates and reorders nothing:
  what the port has received plus what is still buffered is the old contents followed by the
  writes in order, and every chunk handed to the port is one full buffer of 10240 bytes.\<close>

theorem elog_buf_output_stream:
  assumes "buf_ok s" and "buf_is_enabled s" and "\<forall>xs \<in> set xss. log_size_ok xs"
  shows "written (fold elog_buf_output xss s) = written s @ concat xss \<and>
    (\<exists>cs. trace (fold elog_buf_output xss s) = trace s @ map Port_Output cs \<and>
      (\<forall>c \<in> set cs. length c = ELOG_BUF_OUTPUT_BUF_SIZE))"
  using buffered.outs_stream [of s xss] buffered_chunks [OF assms] assms by blast

lemma elog_buf_output_stream_witness:
  "written (fold elog_buf_output [''a'', ''bc''] (elog_buf_enabled True demo_logger)) =
     written (elog_buf_enabled True demo_logger) @ ''abc''"
proof -
  let ?s = "elog_buf_enabled True demo_logger"
  have "buf_ok ?s" using demo_ok by (simp add: logger_ok_def buf_ok_def elog_buf_enabled_def)
  then show ?thesis
    using elog_buf_output_stream [of ?s "[''a'', ''bc'']"]
    by (simp add: elog_buf_enabled_def log_size_ok_def buf_sizes)
qed

text \<open>\<open>elog_stop\<close> after initialisation emits nothing, not even its own version message (the
  output switch is already off), and leaves the buffered bytes where they are: a later direct
  output reaches the port before them.\<close>

theorem elog_stop_strands_buffer:
  assumes "init_ok (elog s)"
  shows "\<exists>s'. elog_stop p file s = Inr s' \<and> trace s' = trace s \<and> pending s' = pending s \<and>
    (\<forall>xs. delivered (elog_buf_output xs s') = delivered s @ xs \<and>
          pending (elog_buf_output xs s') = pending s)"
  using assms
  by (simp add: elog_stop_def elog_output_def elog_buf_enabled_def elog_set_output_enabled_def
      elog_consts elog_buf_output_def elog_port_output_def delivered_def pending_def)

lemma elog_stop_strands_buffer_witness:
  "\<exists>s'. elog_stop shipped_port ''elog.c'' demo_logger = Inr s' \<and> trace s' = trace demo_logger \<and>
     pending s' = pending demo_logger \<and>
     (\<forall>xs. delivered (elog_buf_output xs s') = delivered demo_logger @ xs \<and>
           pending (elog_buf_output xs s') = pending demo_logger)"
  by (rule elog_stop_strands_buffer) (simp add: demo_logger_def init_easy_logger_def)

subsection \<open>Tag levels\<close>

text \<open>C25: setting the level of a tag on an initialised logger is an update of a map with at most
  five entries: level 5 removes the tag's entry, a lower level replaces it or adds one while there
  is room, and is dropped without an error when five other tags are set; reading any tag back
  returns its entry, or 5 when it has none. Tags are told apart by their first 30 characters.\<close>

theorem elog_tag_level_map:
  fixes tag :: string
  assumes "logger_ok s" and "init_ok (elog s)" and "level \<le> ELOG_LVL_VERBOSE"
  defines "m \<equiv> table_map (flt_tag_lvl (el_filter (elog s)))"
  defines "m' \<equiv> if level = ELOG_FILTER_LVL_ALL then m(canon_tag tag := None)
     else if canon_tag tag \<in> dom m \<or> card (dom m) < ELOG_FILTER_TAG_LVL_MAX_NUM
          then m(canon_tag tag \<mapsto> level) else m"
  shows "\<exists>s'. elog_set_filter_tag_lvl (Some tag) level s = Inr s' \<and> logger_ok s' \<and>
    table_map (flt_tag_lvl (el_filter (elog s'))) = m' \<and>
    (\<forall>t. \<exists>s''. elog_get_filter_tag_lvl (Some t) s' =
       Inr (case m' (canon_tag t) of None \<Rightarrow> ELOG_FILTER_LVL_ALL | Some l \<Rightarrow> l, s''))"
proof -
  let ?fs = "flt_tag_lvl (el_filter (elog s))"
  let ?fs' = "table_set tag level ?fs"
  have wf: "wf_table ?fs" using assms(1) by (simp add: logger_ok_def wf_filter_def)
  have new: "wf_table ?fs' \<and> table_map ?fs' = m'"
  proof (cases "level = ELOG_FILTER_LVL_ALL")
    case True
    then show ?thesis using table_set_all [OF wf, of tag] by (simp add: m'_def m_def)
  next
    case False
    then have "level < ELOG_FILTER_LVL_ALL" using assms(3) by (simp add: elog_consts)
    then show ?thesis
      using False table_set_level [OF wf] by (simp add: m'_def m_def not_less)
  qed
  let ?s' = "elog_output_unlock
    (upd_filter (\<lambda>f. f\<lparr>flt_tag_lvl := table_set tag level (flt_tag_lvl f)\<rparr>) (elog_output_lock s))"
  have run: "elog_set_filter_tag_lvl (Some tag) level s = Inr ?s'"
    using assms(2,3) by (simp add: elog_set_filter_tag_lvl_def Let_def)
  have fs': "flt_tag_lvl (el_filter (elog ?s')) = ?fs'" and ini: "init_ok (elog ?s')"
    using assms(2) by simp_all
  have "logger_ok ?s'" using assms(1) new by (simp add: logger_ok_def wf_filter_def buf_ok_def)
  moreover have "tag_level ?s' t = (case m' (canon_tag t) of None \<Rightarrow> ELOG_FILTER_LVL_ALL | Some l \<Rightarrow> l)" for t
    using new ini unfolding tag_level_def fs' by (simp add: table_get_map wf_table_def)
  ultimately show ?thesis
    using run new fs' by (simp add: get_filter_tag_lvl_eq)
qed

lemma elog_tag_level_map_witness:
  "\<exists>s'. elog_set_filter_tag_lvl (Some ''ab'') 2 demo_logger = Inr s' \<and>
     (\<exists>s''. elog_get_filter_tag_lvl (Some ''ab'') s' = Inr (2, s''))"
proof -
  have ini: "init_ok (elog demo_logger)" and empty:
    "table_map (flt_tag_lvl (el_filter (elog demo_logger))) = Map.empty"
    by (simp_all add: demo_logger_def init_easy_logger_def static_logger_def elog_consts
        static_slot_def numeral_eq_Suc fun_eq_iff)
  show ?thesis
    using elog_tag_level_map [OF demo_ok ini, of 2 "''ab''"] unfolding empty
    by (auto simp: elog_consts dest!: spec [of _ "''ab''"])
qed

text \<open>starting from a well-formed table, any sequence of level settings below 5 for at most five
  distinct tags (those already present included) leaves each tag with the level set last.\<close>

theorem tag_levels_last_wins:
  assumes "wf_table fs" and "\<forall>(t, l) \<in> set kvs. tag_key t \<and> l < ELOG_FILTER_LVL_ALL"
    and "card (dom (table_map fs) \<union> fst ` set kvs) \<le> ELOG_FILTER_TAG_LVL_MAX_NUM"
  shows "table_map (fold (\<lambda>(t, l). table_set t l) kvs fs) =
    fold (\<lambda>(t, l) m. m(t \<mapsto> l)) kvs (table_map fs)"
  using assms by (rule tags.puts_lookup)

lemma tag_levels_last_wins_witness:
  "table_map (fold (\<lambda>(t, l). table_set t l) [(''a'', 1), (''b'', 2), (''a'', 3)]
     (replicate ELOG_FILTER_TAG_LVL_MAX_NUM static_slot)) ''a'' = Some 3"
proof -
  have empty: "dom (table_map (replicate ELOG_FILTER_TAG_LVL_MAX_NUM static_slot)) = {}"
    by (simp add: dom_table_map used_keys_def filter_replicate static_slot_def)
  have "card ({''a'', ''b''} :: string set) \<le> 5" by simp
  then have "table_map (fold (\<lambda>(t, l). table_set t l) [(''a'', 1), (''b'', 2), (''a'', 3)]
      (replicate ELOG_FILTER_TAG_LVL_MAX_NUM static_slot)) =
    fold (\<lambda>(t, l) m. m(t \<mapsto> l)) [(''a'', 1), (''b'', 2), (''a'', 3)]
      (table_map (replicate ELOG_FILTER_TAG_LVL_MAX_NUM static_slot))"
    by (intro tag_levels_last_wins [OF wf_static_table])
      (auto simp: tag_key_def elog_consts empty [unfolded ELOG_FILTER_TAG_LVL_MAX_NUM_def]
         insert_commute)
  then show ?thesis by simp
qed

subsection \<open>Lock switching\<close>

text \<open>switching the lock off and on again while it is held. From a state that is not marked as
  locked while disabled, taking the lock and toggling the switch makes the port release the lock
  although the section that took it is still open, and that section's own unlock then releases it
  a second time.\<close>

theorem lock_toggle_releases_held_lock:
  assumes "output_lock_enabled (elog s)" and "\<not> output_is_locked_before_enable (elog s)"
  defines "s1 \<equiv> elog_output_lock s"
  defines "s2 \<equiv> elog_output_lock_enabled True (elog_output_lock_enabled False s1)"
  shows "trace s1 = trace s @ [Port_Lock] \<and> trace s2 = trace s1 @ [Port_Unlock] \<and>
    trace (elog_output_unlock s2) = trace s @ [Port_Lock, Port_Unlock, Port_Unlock] \<and>
    lock_scan False [Port_Lock, Port_Unlock, Port_Unlock] = None"
  using assms
  by (simp_all add: elog_output_lock_enabled_def elog_output_lock_def elog_output_unlock_def Let_def
      elog_port_output_lock_def elog_port_output_unlock_def)

lemma lock_toggle_releases_held_lock_witness:
  "trace (elog_output_unlock (elog_output_lock_enabled True (elog_output_lock_enabled False
     (elog_output_lock demo_logger)))) = trace demo_logger @ [Port_Lock, Port_Unlock, Port_Unlock]"
proof -
  have "output_lock_enabled (elog demo_logger)"
    and "\<not> output_is_locked_before_enable (elog demo_logger)"
    by (simp_all add: demo_logger_def init_easy_logger_def static_logger_def)
  then show ?thesis using lock_toggle_releases_held_lock [of demo_logger] by blast
qed

subsection \<open>Header fields\<close>

text \<open>with the port as shipped (its getters return NULL), an accepted call whose level has the
  time, process or thread field enabled never returns: \<open>elog_strcpy\<close> meets the null pointer and
  its assertion enters the endless loop, or the null pointer is read when a hook is installed.\<close>

theorem elog_output_shipped_port_stops:
  assumes "logger_ok s" and "level \<le> ELOG_LVL_VERBOSE" and "accepted s level tag"
    and "get_fmt_enabled s level ELOG_FMT_TIME \<or> get_fmt_enabled s level ELOG_FMT_P_INFO \<or>
      get_fmt_enabled s level ELOG_FMT_T_INFO"
  shows "elog_output shipped_port level tag pos msg s =
    Inl (if assert_hook s then Null_Deref ''src'' else Assert_Hang ''src'')"
proof -
  let ?s1 = "if init_ok (elog s) then elog_output_unlock (elog_output_lock s) else s"
  let ?s2 = "elog_output_lock ?s1"
  have "x AND (a OR b OR c) \<noteq> 0" if "x AND a \<noteq> 0 \<or> x AND b \<noteq> 0 \<or> x AND c \<noteq> 0"
    for x a b c :: u32
    using that by (metis bit.conj_disj_distrib or_eq_0_iff)
  then have "get_fmt_enabled s level (ELOG_FMT_TIME OR ELOG_FMT_P_INFO OR ELOG_FMT_T_INFO)"
    using assms(4) unfolding get_fmt_enabled_def by blast
  then have "None \<in> set (info_pieces s shipped_port level)"
    using assms(4)
    by (auto simp: info_pieces_def shipped_port_def elog_port_get_time_def elog_port_get_p_info_def
        elog_port_get_t_info_def)
  then have "None \<in> set (header_pieces s shipped_port level tag pos)"
    by (simp add: header_pieces_def)
  moreover have "header_pieces ?s2 shipped_port level tag pos =
      header_pieces s shipped_port level tag pos"
    by (rule header_pieces_cong) simp_all
  moreover have "assert_hook ?s2 = assert_hook s" "line_buf ?s2 = line_buf s" by simp_all
  note s2 = this
  ultimately have puts: "puts (assert_hook s) (header_pieces ?s2 shipped_port level tag pos) (0, line_buf s)
      = Inl (if assert_hook s then Null_Deref ''src'' else Assert_Hang ''src'')"
    using assms(1) by (intro puts_None) (simp_all add: logger_ok_def)
  have "elog_output_locked shipped_port level tag pos msg ?s2 =
      Inl (if assert_hook s then Null_Deref ''src'' else Assert_Hang ''src'')"
    unfolding elog_output_locked_def s2 puts bindE_simps ..
  moreover have "\<not> length (enabled_fmt_set (elog s)) \<le> level"
    using assms(1,2) by (simp add: logger_ok_def elog_consts)
  ultimately show ?thesis
    using assms(2,3) by (simp add: elog_output_def accepted_def get_filter_tag_lvl_eq not_less)
qed

lemma demo_accepted: "accepted demo_logger 3 ''ab''"
  by (simp add: accepted_def demo_logger_def init_easy_logger_def static_logger_def tag_level_def
      table_get_def Let_def static_slot_def elog_consts strstr_def cstr_append_replicate_NUL
      numeral_eq_Suc)

definition timed_logger :: logger where
  "timed_logger = upd_elog (\<lambda>e. e\<lparr>enabled_fmt_set := replicate ELOG_LVL_TOTAL_NUM 7\<rparr>) demo_logger"

lemma elog_output_shipped_port_stops_witness:
  "elog_output shipped_port 3 ''ab'' no_pos demo_message timed_logger = Inl (Assert_Hang ''src'')"
proof -
  have ok: "logger_ok timed_logger"
    using demo_ok by (simp add: timed_logger_def logger_ok_def buf_ok_def)
  have acc: "accepted timed_logger 3 ''ab''"
    using demo_accepted by (auto simp: accepted_def timed_logger_def tag_level_def split: if_splits)
  have "get_fmt_enabled timed_logger 3 ELOG_FMT_TIME"
    by (simp add: get_fmt_enabled_def timed_logger_def elog_consts ELOG_FMT_TIME_def
        del: replicate_Suc)
  then show ?thesis
    using elog_output_shipped_port_stops [OF ok _ acc, of no_pos demo_message]
    by (simp add: elog_consts) (simp add: timed_logger_def demo_logger_def static_logger_def)
qed

text \<open>the line number field. For a positive line number, the position block consists of the
  decimal line number in brackets exactly when the number has at most four digits: the bound 5 of
  \<open>snprintf\<close> counts the terminator, so line 12345 is printed as 1234.\<close>

theorem line_number_four_digits:
  assumes "get_fmt_enabled s level ELOG_FMT_LINE" and "0 < line" and "line < 2 ^ 31"
  shows "position_pieces s level \<lparr>sp_file = None, sp_func = None, sp_line = line\<rparr> =
      [Some ''('', Some (show_int line), Some '')''] \<longleftrightarrow> line < 10000"
proof -
  have nz: "(word_of_int line :: u32) \<noteq> 0"
    using assms(2,3) by (simp add: word_of_int_eq_0_iff) (auto dest!: zdvd_imp_le)
  have "length (show_int line) \<le> 4 \<longleftrightarrow> line < 10000"
    using assms(2) length_show_base [of 10 "nat line" 3] by (simp add: show_int_def) arith
  moreover have "take 4 t = t \<longleftrightarrow> length t \<le> 4" for t :: string
    by (metis length_take min.absorb_iff2 take_all_iff)
  ultimately show ?thesis
    using nz assms(1)
    by (simp add: position_pieces_def get_fmt_used_and_enabled_ptr_def Let_def
        get_fmt_used_and_enabled_u32_def line_num_def ELOG_LINE_NUM_MAX_LEN_def)
qed

lemma line_number_four_digits_witness:
  "position_pieces (upd_elog (\<lambda>e. e\<lparr>enabled_fmt_set := [128]\<rparr>) demo_logger) 0
     \<lparr>sp_file = None, sp_func = None, sp_line = 12345\<rparr> \<noteq>
   [Some ''('', Some (show_int 12345), Some '')'']"
  using line_number_four_digits
    [of "upd_elog (\<lambda>e. e\<lparr>enabled_fmt_set := [128]\<rparr>) demo_logger" 0 12345]
  by (simp add: get_fmt_enabled_def ELOG_FMT_LINE_def)

subsection \<open>Hex dump\<close>

text \<open>C33: an accepted hex dump with a positive width and \<open>size + width \<le> 2 ^ 16\<close> returns, writes
  for every group of \<open>width\<close> bytes, in order, exactly its line (cut to 1023 characters plus the
  newline sign), and keeps the lock discipline.\<close>

theorem hexdump_complete:
  assumes "0 < width" and "length buf + width \<le> 2 ^ 16" and "logger_ok s"
    and "buf_is_enabled s \<or> buf_write_size s = 0"
    and "output_enabled (elog s)" and "ELOG_LVL_DEBUG \<le> flt_level (el_filter (elog s))"
    and "strstr name (flt_tag (el_filter (elog s)))"
  shows "\<exists>s'. elog_hexdump name width buf s = Some (Inr s') \<and> logger_ok s' \<and>
    written s' = written s @ hexdump_text name width buf \<and> guarded_step s s'"
proof -
  let ?t = "elog_output_lock s"
  obtain s' cs where s': "elog_hexdump_loop name width buf 0 ?t = Some (Inr s')" "logger_ok s'"
      "elog s' = elog ?t" "trace s' = trace ?t @ map Port_Output cs"
      "written s' = written ?t @ concat (map (\<lambda>j. hex_line_text name width buf (j * width))
         [0..<(length buf + width - 1) div width])"
    using hexdump_loop_returns [OF assms(1,2), where k = 0 and s = ?t and name = name] assms(3,4)
    by auto
  have "written s' = written s @ hexdump_text name width buf"
    using s'(5) by (simp add: hexdump_text_def hex_offsets_def comp_def)
  moreover have "guarded_step s (elog_output_unlock s')"
    using s'(3,4) by (auto simp: guarded_step_def lock_scan_append)
  moreover have "elog_hexdump name width buf s = Some (Inr (elog_output_unlock s'))"
    using s'(1) assms(5-7) by (simp add: elog_hexdump_def not_less)
  ultimately show ?thesis using s'(2) by simp
qed

definition open_logger :: logger where
  "open_logger = upd_elog (\<lambda>e. e\<lparr>output_enabled := True\<rparr>)
     (static_logger\<lparr>elog := init_easy_logger\<rparr>)"

lemma open_logger_props:
  "logger_ok open_logger" "buf_write_size open_logger = 0" "output_enabled (elog open_logger)"
  "ELOG_LVL_DEBUG \<le> flt_level (el_filter (elog open_logger))"
  "strstr name (flt_tag (el_filter (elog open_logger)))"
  using wf_init_filter
  by (simp_all add: open_logger_def logger_ok_def static_logger_def init_easy_logger_def buf_ok_def
      elog_consts strstr_def numeral_eq_Suc)

lemma hexdump_complete_witness:
  "\<exists>s'. elog_hexdump ''x'' 2 [65, 0, 255] open_logger = Some (Inr s') \<and>
     written s' = written open_logger @
       hex_line_text ''x'' 2 [65, 0, 255] 0 @ hex_line_text ''x'' 2 [65, 0, 255] 2"
proof -
  have "\<exists>s'. elog_hexdump ''x'' 2 [65, 0, 255] open_logger = Some (Inr s') \<and> logger_ok s' \<and>
    written s' = written open_logger @ hexdump_text ''x'' 2 [65, 0, 255] \<and> guarded_step open_logger s'"
    by (rule hexdump_complete) (simp_all add: open_logger_props)
  moreover have "hexdump_text ''x'' 2 [65, 0, 255] =
      hex_line_text ''x'' 2 [65, 0, 255] 0 @ hex_line_text ''x'' 2 [65, 0, 255] 2"
    by (simp add: hexdump_text_def hex_offsets_def upt_rec)
  ultimately show ?thesis by auto
qed

text \<open>C36: an accepted hex dump of a non-empty array never returns when the width is 0, nor when it
  divides \<open>2 ^ 16\<close> (16 and 32 bytes a line, the documented choices, do) and
  \<open>size + width > 2 ^ 16\<close>: the \<open>uint16_t\<close> counter wraps to 0 after the last line.\<close>

theorem hexdump_diverges:
  assumes "width = 0 \<and> buf \<noteq> [] \<or> width dvd 2 ^ 16 \<and> 2 ^ 16 < length buf + width"
    and "logger_ok s" and "output_enabled (elog s)"
    and "ELOG_LVL_DEBUG \<le> flt_level (el_filter (elog s))"
    and "strstr name (flt_tag (el_filter (elog s)))"
  shows "elog_hexdump name width buf s = None"
proof -
  let ?t = "elog_output_lock s"
  have len: "length (line_buf ?t) = ELOG_LINE_BUF_SIZE"
    using assms(2) by (simp add: logger_ok_def)
  have "elog_hexdump_loop name width buf 0 ?t = None"
  proof (cases "width = 0")
    case True
    then show ?thesis
      using assms(1) len by (intro hexdump_loop_diverges [where I = "{0}"]) auto
  next
    case False
    then have w: "width dvd 2 ^ 16" "2 ^ 16 < length buf + width" using assms(1) by auto
    show ?thesis
    proof (rule hexdump_loop_diverges [where I = "{i. width dvd i \<and> i < 2 ^ 16}"])
      fix i assume "i \<in> {i. width dvd i \<and> i < 2 ^ 16}"
      then have ws: "i + width \<le> 2 ^ 16" "width dvd (i + width) mod 2 ^ 16"
        using wrap_stays [OF w(1), of i] by auto
      show "i < length buf" using ws(1) w(2) by linarith
      show "(i + width) mod 2 ^ 16 \<in> {i. width dvd i \<and> i < 2 ^ 16}" using ws(2) by simp
    qed (simp_all add: len del: lock_simps)
  qed
  then show ?thesis using assms(3-5) by (simp add: elog_hexdump_def not_less)
qed

lemma hexdump_diverges_witness:
  "elog_hexdump ''x'' 16 (replicate 65530 0) open_logger = None"
  by (rule hexdump_diverges) (simp_all add: open_logger_props del: replicate_Suc)

subsection \<open>Initialisation\<close>

text \<open>from the static state of the program, \<open>elog_init\<close> succeeds and yields a well-formed
  logger: initialised, output lock and colours on, every level passing the filter, no tag with a
  level of its own, nothing written and no port call made; a second call changes nothing.\<close>

theorem elog_init_establishes:
  "\<exists>s. elog_init static_logger = Inr (ELOG_NO_ERR, s) \<and> logger_ok s \<and> init_ok (elog s) \<and>
     output_lock_enabled (elog s) \<and> text_color_enabled (elog s) \<and> trace s = [] \<and> written s = [] \<and>
     (\<forall>t. tag_level s t = ELOG_LVL_VERBOSE) \<and> elog_init s = Inr (ELOG_NO_ERR, s)"
proof -
  let ?s = "static_logger\<lparr>elog := init_easy_logger\<rparr>"
  have ok: "logger_ok ?s"
    using wf_init_filter by (simp add: logger_ok_static)
      (simp add: init_easy_logger_def static_logger_def)
  have ini: "init_ok init_easy_logger" "output_lock_enabled init_easy_logger"
      "text_color_enabled init_easy_logger"
    by (simp_all add: init_easy_logger_def)
  have tab: "flt_tag_lvl (el_filter init_easy_logger) = replicate ELOG_FILTER_TAG_LVL_MAX_NUM static_slot"
    by (simp add: init_easy_logger_def static_logger_def)
  have empty: "table_map (replicate n static_slot) k = None" for n k
    by (induction n) (simp_all add: static_slot_def)
  have "\<forall>f \<in> set (replicate ELOG_FILTER_TAG_LVL_MAX_NUM static_slot). wf_slot f"
    using wf_static_table unfolding wf_table_def by blast
  then have "tag_level ?s t = ELOG_LVL_VERBOSE" for t
    using ini by (simp add: tag_level_def tab table_get_map empty ELOG_FILTER_LVL_ALL_def)
  then show ?thesis
    using ok ini by (simp add: elog_init_static elog_init_def [of ?s])
      (simp add: static_logger_def written_def delivered_def pending_def)
qed

end
