(* ===== verification/ElogFile.thy ===== *)
theory ElogFile
  imports ElogUtils CStdio
begin

text \<open>
  The file plugin, \<^verbatim>\<open>com/easylogger/plugins/file/elog_file.c\<close>: log files that are rotated when the
  current one has grown beyond its limit. The C library's files are a map from path to contents;
  which renames and which creations the platform lets succeed is a parameter.
\<close>

subsection \<open>State\<close>

record file_env =
  rename_ok :: "string \<Rightarrow> string \<Rightarrow> bool"
  create_ok :: "string \<Rightarrow> bool"

type_synonym files = "string \<Rightarrow> char list option"

record ElogFileCfg =
  cfg_name :: "string option"
  cfg_max_size :: nat
  cfg_max_rotate :: int

record file_log =
  fl_init_ok :: bool
  fl_fp :: "string option"      \<comment> \<open>the path \<open>fp\<close> is open on\<close>
  local_cfg :: ElogFileCfg
  fl_files :: files

definition SUFFIX_LEN :: nat where "SUFFIX_LEN = 10"

subsection \<open>Files\<close>

text \<open>\<open>fopen (path, "a+")\<close>: creates the file when it does not exist.\<close>

definition fopen_append :: "file_env \<Rightarrow> string \<Rightarrow> files \<Rightarrow> string option \<times> files" where
  "fopen_append env path fs =
     (case fs path of
        Some _ \<Rightarrow> (Some path, fs)
      | None \<Rightarrow> if create_ok env path then (Some path, fs(path := Some [])) else (None, fs))"

text \<open>
  \<open>snprintf (path + base, SUFFIX_LEN, ...)\<close> in an array of 256 bytes that holds the base name.
\<close>

definition rotate_path :: "string \<Rightarrow> string \<Rightarrow> stop + string" where
  "rotate_path name sfx =
     (let s = take (SUFFIX_LEN - 1) sfx in
      if length name + length s + 1 \<le> 256 then Inr (name @ s) else Inl (Out_Of_Bounds ''path''))"

definition dot_num :: "nat \<Rightarrow> string" where "dot_num n = CHR ''.'' # show_base 10 n"

text \<open>The loop for \<open>n = k - 1, ..., 0\<close>; the flag is the function's result.\<close>

fun rotate_loop :: "file_env \<Rightarrow> string \<Rightarrow> nat \<Rightarrow> files \<Rightarrow> stop + bool \<times> files" where
  "rotate_loop env name 0 fs = Inr (True, fs)"
| "rotate_loop env name (Suc n) fs =
     bindE (rotate_path name (if n = 0 then [] else dot_num (n - 1))) (\<lambda>oldpath.
     bindE (rotate_path name (dot_num n)) (\<lambda>newpath.
       let fs = fs(newpath := None) in
       case fs oldpath of
         None \<Rightarrow> rotate_loop env name n fs
       | Some c \<Rightarrow>
           if rename_ok env oldpath newpath
           then rotate_loop env name n (fs(newpath := Some c, oldpath := None))
           else Inr (False, fs)))"

definition elog_file_rotate :: "file_env \<Rightarrow> file_log \<Rightarrow> stop + bool \<times> file_log" where
  "elog_file_rotate env s =
     (case cfg_name (local_cfg s) of
        None \<Rightarrow> Inl (Null_Deref ''local_cfg.name'')
      | Some name \<Rightarrow>
          bindE (rotate_loop env name (nat (cfg_max_rotate (local_cfg s))) (fl_files s))
            (\<lambda>(ok, fs). let (fp, fs) = fopen_append env name fs
                        in Inr (ok, s\<lparr>fl_fp := fp, fl_files := fs\<rparr>)))"

subsection \<open>Operations\<close>

definition file_assert :: "bool \<Rightarrow> string \<Rightarrow> bool \<Rightarrow> stop + unit" where
  "file_assert hook expr cond = (if cond \<or> hook then Inr () else Inl (Assert_Hang expr))"

definition fwrite_log :: "char list \<Rightarrow> file_log \<Rightarrow> stop + file_log" where
  "fwrite_log log s =
     (case fl_fp s of
        None \<Rightarrow> Inl (Null_Deref ''fp'')
      | Some path \<Rightarrow>
          (case fl_files s path of
             None \<Rightarrow> Inr s
           | Some c \<Rightarrow> Inr (s\<lparr>fl_files := (fl_files s)(path := Some (c @ log))\<rparr>)))"

text \<open>\<open>rotating\<close> is the compile-time choice \<open>ELOG_FILE_MAX_ROTATE > 0\<close>.\<close>

definition elog_file_write ::
  "file_env \<Rightarrow> bool \<Rightarrow> bool \<Rightarrow> char list \<Rightarrow> file_log \<Rightarrow> stop + file_log" where
  "elog_file_write env rotating hook log s =
     bindE (file_assert hook ''init_ok'' (fl_init_ok s)) (\<lambda>_.
       case fl_fp s of
         None \<Rightarrow> Inr s
       | Some path \<Rightarrow>
           let file_size = (case fl_files s path of None \<Rightarrow> 0 | Some c \<Rightarrow> length c) in
           if cfg_max_size (local_cfg s) < file_size then
             (if rotating then
                bindE (elog_file_rotate env s) (\<lambda>(ok, s). if \<not> ok then Inr s else fwrite_log log s)
              else Inr s)
           else fwrite_log log s)"

definition elog_file_config :: "file_env \<Rightarrow> ElogFileCfg option \<Rightarrow> file_log \<Rightarrow> file_log" where
  "elog_file_config env cfg s =
     (let s = s\<lparr>fl_fp := None\<rparr> in
      case cfg of
        None \<Rightarrow> s
      | Some c \<Rightarrow>
          let s = s\<lparr>local_cfg := c\<rparr> in
          (case cfg_name c of
             None \<Rightarrow> s
           | Some name \<Rightarrow>
               if 0 < length name then
                 let (fp, fs) = fopen_append env name (fl_files s) in s\<lparr>fl_fp := fp, fl_files := fs\<rparr>
               else s))"

definition elog_file_init :: "file_env \<Rightarrow> ElogFileCfg \<Rightarrow> file_log \<Rightarrow> file_log" where
  "elog_file_init env cfg s =
     (if fl_init_ok s then s else (elog_file_config env (Some cfg) s)\<lparr>fl_init_ok := True\<rparr>)"

definition elog_file_deinit :: "file_env \<Rightarrow> bool \<Rightarrow> file_log \<Rightarrow> stop + file_log" where
  "elog_file_deinit env hook s =
     bindE (file_assert hook ''init_ok'' (fl_init_ok s)) (\<lambda>_.
       Inr ((elog_file_config env
               (Some \<lparr>cfg_name = None, cfg_max_size = 0, cfg_max_rotate = 0\<rparr>) s)
             \<lparr>fl_init_ok := False\<rparr>))"

subsection \<open>Paths of the rotated files\<close>

lemma dot_num_inj [simp]: "dot_num m = dot_num n \<longleftrightarrow> m = n"
  by (simp add: dot_num_def show_base_inj)

lemma dot_num_not_Nil [simp]: "dot_num n \<noteq> []" "[] \<noteq> dot_num n"
  by (simp_all add: dot_num_def)

definition names_fit :: "string \<Rightarrow> nat \<Rightarrow> bool" where
  "names_fit name k \<longleftrightarrow> length name + SUFFIX_LEN \<le> 256 \<and> k \<le> 10 ^ 8"

lemma length_dot_num: "n < 10 ^ 8 \<Longrightarrow> length (dot_num n) \<le> 9"
  using length_show_base [of 10 n 7] by (simp add: dot_num_def)

lemma rotate_path_num:
  "names_fit name k \<Longrightarrow> n < k \<Longrightarrow> rotate_path name (dot_num n) = Inr (name @ dot_num n)"
  using length_dot_num [of n] by (simp add: rotate_path_def names_fit_def SUFFIX_LEN_def Let_def)

lemma rotate_path_base: "names_fit name k \<Longrightarrow> rotate_path name [] = Inr name"
  by (simp add: rotate_path_def names_fit_def SUFFIX_LEN_def)

text \<open>The path of generation \<open>n\<close>: the current log, then \<open>.0\<close>, \<open>.1\<close> and so on.\<close>

fun gen_path :: "string \<Rightarrow> nat \<Rightarrow> string" where
  "gen_path name 0 = name"
| "gen_path name (Suc n) = name @ dot_num n"

lemma gen_path_inj [simp]: "gen_path name m = gen_path name n \<longleftrightarrow> m = n"
  by (cases m; cases n) auto

lemma rotate_path_gen:
  assumes "names_fit name k" and "n < k"
  shows "rotate_path name (if n = 0 then [] else dot_num (n - 1)) = Inr (gen_path name n)"
  using assms rotate_path_base rotate_path_num [of name k "n - 1"] by (cases n) auto

text \<open>After the loop every generation has moved up by one and the oldest is gone.\<close>

definition shifted :: "string \<Rightarrow> nat \<Rightarrow> files \<Rightarrow> files \<Rightarrow> bool" where
  "shifted name n fs fs' \<longleftrightarrow>
     (\<forall>j. fs' (gen_path name j) =
        (case j of 0 \<Rightarrow> if n = 0 then fs name else None
         | Suc i \<Rightarrow> if i < n then fs (gen_path name i) else fs (gen_path name j))) \<and>
     (\<forall>p. (\<forall>j. p \<noteq> gen_path name j) \<longrightarrow> fs' p = fs p)"

lemma rotate_loop_eq:
  assumes "names_fit name k" and "\<forall>a b. rename_ok env a b" and "n \<le> k"
  shows "\<exists>fs'. rotate_loop env name n fs = Inr (True, fs') \<and> shifted name n fs fs'"
  using assms(3)
proof (induction n arbitrary: fs)
  case 0
  then show ?case by (auto simp: shifted_def split: nat.splits)
next
  case (Suc n)
  let ?old = "gen_path name n" and ?new = "gen_path name (Suc n)"
  let ?fs1 = "fs(?new := None)"
  let ?fs2 = "case ?fs1 ?old of None \<Rightarrow> ?fs1 | Some c \<Rightarrow> ?fs1(?new := Some c, ?old := None)"
  have n: "n < k" using Suc.prems by simp
  have new: "name @ dot_num n = ?new" by simp
  have step: "rotate_loop env name (Suc n) fs = rotate_loop env name n ?fs2"
    unfolding rotate_loop.simps(2) rotate_path_gen [OF assms(1) n] rotate_path_num [OF assms(1) n]
      bindE_simps new Let_def
    using assms(2) by (simp split: option.splits del: gen_path.simps)
  have neq: "?old \<noteq> ?new" using gen_path_inj [of name n "Suc n"] by (simp del: gen_path.simps)
  have fs2: "?fs2 ?new = fs ?old" "?fs2 ?old = None"
    "p \<noteq> ?new \<Longrightarrow> p \<noteq> ?old \<Longrightarrow> ?fs2 p = fs p" for p
    using neq by (auto split: option.splits simp del: gen_path.simps)
  obtain fs' where fs': "rotate_loop env name n ?fs2 = Inr (True, fs')" "shifted name n ?fs2 fs'"
    using Suc.IH [of ?fs2] Suc.prems by auto
  have "shifted name (Suc n) fs fs'"
    unfolding shifted_def
  proof (intro conjI allI impI)
    fix p assume p: "\<forall>j. p \<noteq> gen_path name j"
    then have "fs' p = ?fs2 p" using fs'(2) unfolding shifted_def by blast
    also have "\<dots> = fs p" using p fs2(3) by metis
    finally show "fs' p = fs p" .
  next
    fix j
    have gen: "fs' (gen_path name j) = (case j of 0 \<Rightarrow> if n = 0 then ?fs2 name else None
         | Suc i \<Rightarrow> if i < n then ?fs2 (gen_path name i) else ?fs2 (gen_path name j))"
      using fs'(2) unfolding shifted_def by blast
    show "fs' (gen_path name j) = (case j of 0 \<Rightarrow> if Suc n = 0 then fs name else None
         | Suc i \<Rightarrow> if i < Suc n then fs (gen_path name i) else fs (gen_path name j))"
    proof (cases j)
      case 0
      then show ?thesis using gen fs2(2) by (cases "n = 0") simp_all
    next
      case (Suc i)
      have other: "?fs2 (gen_path name m) = fs (gen_path name m)" if "m \<noteq> n" "m \<noteq> Suc n" for m
        using that by (intro fs2(3)) (simp_all del: gen_path.simps)
      consider "i < n" | "i = n" | "n < i" by linarith
      then show ?thesis
      proof cases
        case 1
        then show ?thesis using gen Suc other [of i] by (simp del: gen_path.simps)
      next
        case 2
        then show ?thesis using gen Suc fs2(1) by (simp del: gen_path.simps)
      next
        case 3
        then show ?thesis using gen Suc other [of "Suc i"] by (simp del: gen_path.simps)
      qed
    qed
  qed
  then show ?case using step fs'(1) by simp
qed

lemma rotate_shifts:
  assumes "cfg_name (local_cfg s) = Some name" and "cfg_max_rotate (local_cfg s) = int k" and "0 < k"
    and "names_fit name k" and "\<forall>a b. rename_ok env a b" and "create_ok env name"
  shows "\<exists>s'. elog_file_rotate env s = Inr (True, s') \<and> fl_fp s' = Some name \<and>
    fl_files s' name = Some [] \<and>
    (\<forall>i < k. fl_files s' (gen_path name (Suc i)) = fl_files s (gen_path name i)) \<and>
    (\<forall>p. (\<forall>i \<le> k. p \<noteq> gen_path name i) \<longrightarrow> fl_files s' p = fl_files s p)"
proof -
  obtain fs where fs: "rotate_loop env name k (fl_files s) = Inr (True, fs)"
      "shifted name k (fl_files s) fs"
    using rotate_loop_eq [OF assms(4,5)] by blast
  then have gen: "fs (gen_path name j) = (case j of 0 \<Rightarrow> None
      | Suc i \<Rightarrow> if i < k then fl_files s (gen_path name i) else fl_files s (gen_path name j))" for j
    using assms(3) unfolding shifted_def by (auto split: nat.splits)
  have base: "fs name = None" using gen [of 0] by simp
  let ?s' = "s\<lparr>fl_fp := Some name, fl_files := fs(name := Some [])\<rparr>"
  have run: "elog_file_rotate env s = Inr (True, ?s')"
    using assms(1,2,6) fs(1) base by (simp add: elog_file_rotate_def fopen_append_def)
  have "fl_files ?s' (gen_path name (Suc i)) = fl_files s (gen_path name i)" if "i < k" for i
    using gen [of "Suc i"] that gen_path_inj [of name "Suc i" 0] by simp
  moreover have "fl_files ?s' p = fl_files s p" if p: "\<forall>i \<le> k. p \<noteq> gen_path name i" for p
  proof (cases "\<exists>j. p = gen_path name j")
    case True
    then obtain j where j: "p = gen_path name j" "k < j" using p by (metis not_le)
    then obtain i where "j = Suc i" "k \<le> i" by (cases j) auto
    moreover have "p \<noteq> name" using p by (metis gen_path.simps(1) zero_le)
    ultimately show ?thesis using gen [of j] j by simp
  next
    case False
    moreover have "p \<noteq> name" using p by (metis gen_path.simps(1) zero_le)
    ultimately show ?thesis using fs(2) unfolding shifted_def by simp
  qed
  ultimately show ?thesis using run by auto
qed

definition demo_env :: file_env where
  "demo_env = \<lparr>rename_ok = (\<lambda>_ _. True), create_ok = (\<lambda>_. True)\<rparr>"

definition demo_file_log :: file_log where
  "demo_file_log = \<lparr>fl_init_ok = True, fl_fp = Some ''log'',
     local_cfg = \<lparr>cfg_name = Some ''log'', cfg_max_size = 2, cfg_max_rotate = 2\<rparr>,
     fl_files = [''log'' \<mapsto> ''abc'', ''log.0'' \<mapsto> ''x'']\<rparr>"

lemma demo_paths: "gen_path ''log'' 1 = ''log.0''" "gen_path ''log'' 2 = ''log.1''"
  by code_simp+

text \<open>
  with renames that succeed, paths that fit, and a positive rotation count, rotating moves
  every generation up by one, drops the oldest, leaves every other file alone and reopens the log
  as an empty file.
\<close>

theorem elog_file_rotate_shifts:
  assumes "cfg_name (local_cfg s) = Some name" and "cfg_max_rotate (local_cfg s) = int k" and "0 < k"
    and "names_fit name k" and "\<forall>a b. rename_ok env a b" and "create_ok env name"
  shows "\<exists>s'. elog_file_rotate env s = Inr (True, s') \<and> fl_fp s' = Some name \<and>
    fl_files s' name = Some [] \<and>
    (\<forall>i < k. fl_files s' (gen_path name (Suc i)) = fl_files s (gen_path name i)) \<and>
    (\<forall>p. (\<forall>i \<le> k. p \<noteq> gen_path name i) \<longrightarrow> fl_files s' p = fl_files s p)"
  using assms by (rule rotate_shifts)

lemma elog_file_rotate_shifts_witness:
  "\<exists>s'. elog_file_rotate demo_env demo_file_log = Inr (True, s') \<and> fl_files s' ''log'' = Some [] \<and>
     fl_files s' ''log.0'' = Some ''abc'' \<and> fl_files s' ''log.1'' = Some ''x''"
proof -
  have "\<exists>s'. elog_file_rotate demo_env demo_file_log = Inr (True, s') \<and> fl_fp s' = Some ''log'' \<and>
    fl_files s' ''log'' = Some [] \<and>
    (\<forall>i < 2. fl_files s' (gen_path ''log'' (Suc i)) = fl_files demo_file_log (gen_path ''log'' i)) \<and>
    (\<forall>p. (\<forall>i \<le> 2. p \<noteq> gen_path ''log'' i) \<longrightarrow> fl_files s' p = fl_files demo_file_log p)"
    by (rule elog_file_rotate_shifts)
      (simp_all add: demo_file_log_def demo_env_def names_fit_def SUFFIX_LEN_def)
  then obtain s' where s': "elog_file_rotate demo_env demo_file_log = Inr (True, s')"
      "fl_files s' ''log'' = Some []"
      "\<forall>i < 2. fl_files s' (gen_path ''log'' (Suc i)) = fl_files demo_file_log (gen_path ''log'' i)"
    by blast
  from s'(3) have "fl_files s' ''log.0'' = Some ''abc''" "fl_files s' ''log.1'' = Some ''x''"
    using demo_paths spec [of _ 0] spec [of _ "1 :: nat"]
    by (auto simp: numeral_2_eq_2 demo_file_log_def less_Suc_eq simp del: gen_path.simps(2))
  then show ?thesis using s'(1,2) by blast
qed

text \<open>
  a write to an open log below its limit appends exactly the given bytes; with rotation
  compiled in, one that finds the log over its limit (and rotation possible) stores the bytes in a
  fresh log and keeps the old contents as generation 0.
\<close>

theorem elog_file_write_keeps:
  assumes "fl_init_ok s" and "fl_fp s = Some name" and "cfg_name (local_cfg s) = Some name"
    and "fl_files s name = Some old" and "cfg_max_rotate (local_cfg s) = int k" and "0 < k"
    and "names_fit name k" and "\<forall>a b. rename_ok env a b" and "create_ok env name"
  shows "\<exists>s'. elog_file_write env True hook log s = Inr s' \<and>
    (if length old \<le> cfg_max_size (local_cfg s)
     then fl_files s' = (fl_files s)(name := Some (old @ log))
     else fl_files s' name = Some log \<and> fl_files s' (gen_path name 1) = Some old)"
proof (cases "length old \<le> cfg_max_size (local_cfg s)")
  case True
  then show ?thesis
    using assms(1-4) by (simp add: elog_file_write_def file_assert_def fwrite_log_def not_less)
next
  case False
  obtain s' where s': "elog_file_rotate env s = Inr (True, s')" "fl_fp s' = Some name"
      "fl_files s' name = Some []"
      "\<forall>i < k. fl_files s' (gen_path name (Suc i)) = fl_files s (gen_path name i)"
    using rotate_shifts [OF assms(3,5,6,7,8,9)] by blast
  have "fl_files s' (gen_path name 1) = Some old"
    using s'(4) assms(4,6) by (auto simp: One_nat_def simp del: gen_path.simps(2)
        dest!: spec [of _ 0])
  moreover have "gen_path name 1 \<noteq> name" using gen_path_inj [of name 1 0] by simp
  ultimately show ?thesis
    using False assms(1-4) s' by (simp add: elog_file_write_def file_assert_def fwrite_log_def)
qed

lemma elog_file_write_keeps_witness:
  "\<exists>s'. elog_file_write demo_env True False ''new'' demo_file_log = Inr s' \<and>
     fl_files s' ''log'' = Some ''new'' \<and> fl_files s' ''log.0'' = Some ''abc''"
proof -
  have "\<exists>s'. elog_file_write demo_env True False ''new'' demo_file_log = Inr s' \<and>
    (if length ''abc'' \<le> cfg_max_size (local_cfg demo_file_log)
     then fl_files s' = (fl_files demo_file_log)(''log'' := Some (''abc'' @ ''new''))
     else fl_files s' ''log'' = Some ''new'' \<and> fl_files s' (gen_path ''log'' 1) = Some ''abc'')"
    by (rule elog_file_write_keeps [where k = 2])
      (simp_all add: demo_file_log_def demo_env_def names_fit_def SUFFIX_LEN_def)
  then show ?thesis unfolding demo_paths by (simp add: demo_file_log_def)
qed

end
