(* ===== verification/Mcu.thy ===== *)
theory Mcu
  imports Prelude "HOL-Library.State_Monad"
begin

text \<open>
  The microcontroller as the firmware sees it. A run is the sequence of its accesses to the
  memory-mapped registers, newest first; the hardware is a function from the accesses so far to
  the value the next read of a register returns, so nothing is assumed about a status bit, its
  timing or its stability. Driver code is a program of the library's state monad over this
  sequence. What the manual promises of a register (it keeps what was written to it, a ready flag
  stays up) is a law of the hardware, stated where it is used.
\<close>

subsection \<open>Registers and accesses\<close>

datatype port = GPIOA | GPIOB | GPIOC | GPIOD

datatype gpio_reg = PMODE | POTYPE | SR | PUPD | PID | POD | PBSC | PLOCK | AFL | AFH | PBC | DS

datatype reg =
    RCC_CTRL | RCC_CFG | RCC_CLKINT | RCC_APB2PRST | RCC_APB1PRST | RCC_AHBPCLKEN
  | RCC_APB2PCLKEN | RCC_APB1PCLKEN | RCC_LDCTRL | RCC_CTRLSTS | RCC_AHBPRST | RCC_CFG2
  | RCC_CFG3 | RCC_RDCTRL | RCC_PLLHSIPRE | RCC_SRAM_CTRLSTS
  | GPIO port gpio_reg
  | AFIO_RMP_CFG | AFIO_EXTI_CFG nat | AFIO_ECTRL
  | EXTI_IMASK | EXTI_EMASK | EXTI_RT_CFG | EXTI_FT_CFG
  | LPUART_STS | LPUART_INTEN | LPUART_CTRL | LPUART_BRCFG1 | LPUART_DAT | LPUART_BRCFG2
  | LPUART_WUDAT
  | FLASH_AC | PWR_CTRL1 | LSE_TRIMR | UCID_2
  | SYST_CTRL | SYST_LOAD | SYST_VAL | SCB_AIRCR | SCB_SHP nat
  | NVIC_IP nat | NVIC_ISER nat | NVIC_ICER nat

text \<open>
  \<open>Bb r n v\<close> is a write of \<open>v\<close> to the bit-band alias of bit \<open>n\<close> of \<open>r\<close>; \<open>Log lvl tag msg\<close> is a
  call of the logger with a formatted message.
\<close>

datatype access = Rd reg u32 | Wr reg u32 | Bb reg nat u32 | Log nat string string

type_synonym hist = "access list"
type_synonym hardware = "hist \<Rightarrow> reg \<Rightarrow> u32"
type_synonym 'a io = "(hist, 'a) state"

definition rd :: "hardware \<Rightarrow> reg \<Rightarrow> u32 io" where
  "rd hw r = State (\<lambda>h. (hw h r, Rd r (hw h r) # h))"

definition wr :: "reg \<Rightarrow> u32 \<Rightarrow> unit io" where
  "wr r v = State (\<lambda>h. ((), Wr r v # h))"

definition bb :: "reg \<Rightarrow> nat \<Rightarrow> u32 \<Rightarrow> unit io" where
  "bb r n v = State (\<lambda>h. ((), Bb r n v # h))"

text \<open>\<open>r &= m\<close> and \<open>r |= v\<close> on a volatile register: one read, one write.\<close>

definition and_reg :: "hardware \<Rightarrow> reg \<Rightarrow> u32 \<Rightarrow> unit io" where
  "and_reg hw r m = do { v \<leftarrow> rd hw r; wr r (v AND m) }"

definition or_reg :: "hardware \<Rightarrow> reg \<Rightarrow> u32 \<Rightarrow> unit io" where
  "or_reg hw r b = do { v \<leftarrow> rd hw r; wr r (v OR b) }"

definition log_msg :: "nat \<Rightarrow> string \<Rightarrow> string \<Rightarrow> unit io" where
  "log_msg l t m = State (\<lambda>h. ((), Log l t m # h))"

abbreviation ret :: "'a \<Rightarrow> 'a io" where "ret \<equiv> State_Monad.return"

definition skip :: "unit io" where "skip = ret ()"

lemma run_rd [simp]: "run_state (rd hw r) h = (hw h r, Rd r (hw h r) # h)"
  by (simp add: rd_def)

lemma run_wr [simp]: "run_state (wr r v) h = ((), Wr r v # h)"
  by (simp add: wr_def)

lemma run_bb [simp]: "run_state (bb r n v) h = ((), Bb r n v # h)"
  by (simp add: bb_def)

lemma run_log_msg [simp]: "run_state (log_msg l t m) h = ((), Log l t m # h)"
  by (simp add: log_msg_def)

lemma run_and_reg [simp]:
  "run_state (and_reg hw r m) h = ((), Wr r (hw h r AND m) # Rd r (hw h r) # h)"
  by (simp add: and_reg_def)

lemma run_or_reg [simp]:
  "run_state (or_reg hw r b) h = ((), Wr r (hw h r OR b) # Rd r (hw h r) # h)"
  by (simp add: or_reg_def)

lemma run_skip [simp]: "run_state skip h = ((), h)"
  by (simp add: skip_def)

text \<open>Result and final history of a program, and how they compose.\<close>

abbreviation res :: "'a io \<Rightarrow> hist \<Rightarrow> 'a" where "res p h \<equiv> fst (run_state p h)"
abbreviation aft :: "'a io \<Rightarrow> hist \<Rightarrow> hist" where "aft p h \<equiv> snd (run_state p h)"

lemma run_bind: "run_state (State_Monad.bind p q) h = run_state (q (res p h)) (aft p h)"
  by (simp split: prod.splits)

lemma run_unit: "run_state p h = ((), h') \<longleftrightarrow> aft p h = h'" for p :: "unit io"
  by (cases "run_state p h") auto

lemma run_if: "run_state (if c then p else q) h = (if c then run_state p h else run_state q h)"
  by simp

text \<open>Sequencing of programs that may stop.\<close>

definition bindS :: "(stop + 'a) io \<Rightarrow> ('a \<Rightarrow> (stop + 'b) io) \<Rightarrow> (stop + 'b) io" where
  "bindS m f = do { x \<leftarrow> m; case x of Inl e \<Rightarrow> ret (Inl e) | Inr a \<Rightarrow> f a }"

lemma run_bindS:
  "run_state (bindS m f) h =
     (case run_state m h of (Inl e, h') \<Rightarrow> (Inl e, h') | (Inr a, h') \<Rightarrow> run_state (f a) h')"
  by (simp add: bindS_def split: prod.splits sum.splits)

subsection \<open>The last written value\<close>

text \<open>
  The contents a register would have if the hardware never changed it: the last value written,
  with single bits replaced by bit-band writes; zero before the first write.
\<close>

fun mem :: "hist \<Rightarrow> reg \<Rightarrow> u32" where
  "mem [] r = 0"
| "mem (Rd q v # h) r = mem h r"
| "mem (Wr q v # h) r = (if q = r then v else mem h r)"
| "mem (Bb q n v # h) r = (if q = r then (if bit v 0 then Bit_Operations.set_bit n (mem h r)
                                    else Bit_Operations.unset_bit n (mem h r)) else mem h r)"
| "mem (Log l t m # h) r = mem h r"

text \<open>A history that only adds reads leaves every register as it was.\<close>

definition is_rd :: "access \<Rightarrow> bool" where
  "is_rd a = (case a of Rd r v \<Rightarrow> True | _ \<Rightarrow> False)"

lemma is_rd_simps [simp]: "is_rd (Rd r v)" "\<not> is_rd (Wr r v)" "\<not> is_rd (Bb r n v)" "\<not> is_rd (Log l t m)"
  by (simp_all add: is_rd_def)

lemma mem_reads: "\<forall>a \<in> set rs. is_rd a \<Longrightarrow> mem (rs @ h) r = mem h r"
  by (induction rs) (auto simp: is_rd_def split: access.splits)

subsection \<open>Results of the drivers\<close>

datatype ErrorStatus = ERROR | SUCCESS
datatype FlagStatus = RESET | SET
datatype FunctionalState = DISABLE | ENABLE

lemma status_cases:
  "x \<noteq> ERROR \<longleftrightarrow> x = SUCCESS" "x \<noteq> SUCCESS \<longleftrightarrow> x = ERROR"
  "f \<noteq> RESET \<longleftrightarrow> f = SET" "f \<noteq> SET \<longleftrightarrow> f = RESET"
  "c \<noteq> DISABLE \<longleftrightarrow> c = ENABLE" "c \<noteq> ENABLE \<longleftrightarrow> c = DISABLE"
  by (cases x; cases f; cases c; simp)+

definition cmd_word :: "FunctionalState \<Rightarrow> u32" where
  "cmd_word c = (case c of DISABLE \<Rightarrow> 0 | ENABLE \<Rightarrow> 1)"

definition flag_of :: "bool \<Rightarrow> FlagStatus" where
  "flag_of b = (if b then SET else RESET)"

lemma flag_of_simps [simp]:
  "flag_of b = SET \<longleftrightarrow> b" "flag_of b = RESET \<longleftrightarrow> \<not> b" "SET = flag_of b \<longleftrightarrow> b" "RESET = flag_of b \<longleftrightarrow> \<not> b"
  by (auto simp: flag_of_def)

subsection \<open>Polling\<close>

text \<open>
  \<open>while (!ready) { if ((timeout_value--) == 0) return ERROR; }\<close> with \<open>timeout_value\<close> equal to
  \<open>n\<close>: at most \<open>n + 1\<close> tests.
\<close>

primrec poll_down :: "bool io \<Rightarrow> nat \<Rightarrow> ErrorStatus io" where
  "poll_down ready 0 = do { ok \<leftarrow> ready; ret (if ok then SUCCESS else ERROR) }"
| "poll_down ready (Suc n) = do { ok \<leftarrow> ready; if ok then ret SUCCESS else poll_down ready n }"

text \<open>
  \<open>do { status = test; counter++; } while ((counter != limit) && (status == RESET));\<close> with
  \<open>n\<close> passes left before the counter reaches its limit.
\<close>

primrec poll_up :: "FlagStatus io \<Rightarrow> nat \<Rightarrow> unit io" where
  "poll_up test 0 = ret ()"
| "poll_up test (Suc n) =
     do { st \<leftarrow> test; if n = 0 \<or> st = SET then ret () else poll_up test n }"

text \<open>A test that only reads registers and whose answer is a function of the history.\<close>

definition reads_only :: "'a io \<Rightarrow> bool" where
  "reads_only p = (\<forall>h. \<exists>rs. snd (run_state p h) = rs @ h \<and> (\<forall>a \<in> set rs. is_rd a))"

lemma reads_onlyE:
  assumes "reads_only p" and "run_state p h = (a, h')"
  obtains rs where "h' = rs @ h" and "\<forall>a \<in> set rs. is_rd a"
  using assms unfolding reads_only_def by (metis snd_conv)

lemma reads_only_ret [simp, intro]: "reads_only (ret x)"
  by (simp add: reads_only_def)

lemma reads_only_rd [simp, intro]: "reads_only (rd hw r)"
  unfolding reads_only_def by (intro allI exI [of _ "[Rd r _]"]) simp

lemma reads_only_bind [intro]:
  assumes p: "reads_only p" and q: "\<And>x. reads_only (q x)"
  shows "reads_only (State_Monad.bind p q)"
  unfolding reads_only_def
proof
  fix h
  obtain x h1 where x: "run_state p h = (x, h1)" by fastforce
  obtain y h2 where y: "run_state (q x) h1 = (y, h2)" by fastforce
  from reads_onlyE [OF p x] obtain rs where rs: "h1 = rs @ h" "\<forall>a \<in> set rs. is_rd a" .
  from reads_onlyE [OF q y] obtain rs' where rs': "h2 = rs' @ h1" "\<forall>a \<in> set rs'. is_rd a" .
  show "\<exists>rs. snd (run_state (State_Monad.bind p q) h) = rs @ h \<and> (\<forall>a \<in> set rs. is_rd a)"
    using rs rs' x y by (intro exI [of _ "rs' @ rs"]) auto
qed

lemma reads_only_if [intro]:
  "reads_only p \<Longrightarrow> reads_only q \<Longrightarrow> reads_only (if c then p else q)"
  by simp

lemma reads_only_poll_down [intro]: "reads_only t \<Longrightarrow> reads_only (poll_down t n)"
  by (induction n) auto

lemma reads_only_poll_up [intro]: "reads_only t \<Longrightarrow> reads_only (poll_up t n)"
  by (induction n) auto

text \<open>A poll that reports success ends with a successful test.\<close>

lemma poll_down_success:
  assumes "reads_only t" and "run_state (poll_down t n) h = (SUCCESS, h')"
  shows "\<exists>rs. (\<forall>a \<in> set rs. is_rd a) \<and> run_state t (rs @ h) = (True, h')"
  using assms(2)
proof (induction n arbitrary: h)
  case 0
  then show ?case
    by (intro exI [of _ "[]"]) (auto split: prod.splits if_splits)
next
  case (Suc n)
  obtain ok h1 where t: "run_state t h = (ok, h1)" by fastforce
  show ?case
  proof (cases ok)
    case True
    with Suc.prems t show ?thesis by (intro exI [of _ "[]"]) simp
  next
    case False
    with Suc.prems t have "run_state (poll_down t n) h1 = (SUCCESS, h')" by simp
    from Suc.IH [OF this] obtain rs where
      rs: "\<forall>a \<in> set rs. is_rd a" "run_state t (rs @ h1) = (True, h')" by auto
    from reads_onlyE [OF assms(1) t] obtain rs' where
      "h1 = rs' @ h" "\<forall>a \<in> set rs'. is_rd a" .
    with rs show ?thesis by (intro exI [of _ "rs @ rs'"]) auto
  qed
qed

text \<open>A poll whose test answers after \<open>k\<close> failures within the limit succeeds.\<close>

lemma poll_down_first: "run_state t h = (True, h') \<Longrightarrow> run_state (poll_down t n) h = (SUCCESS, h')"
  by (cases n) simp_all

end
