(* ===== verification/Rcc.thy ===== *)
theory Rcc
  imports Mcu
begin

text \<open>
  The reset and clock controller driver, \<open>n32l40x_rcc.c\<close>, function by function. A store
  \<open>r = tmp\<close> after \<open>tmp = r\<close> is one read and one write; a compound assignment likewise. The
  parameter checks expand to nothing, since \<open>USE_FULL_ASSERT\<close> is not defined in this project.
\<close>

subsection \<open>Constants\<close>

abbreviation (input) RCC_HSE_DISABLE :: u32 where "RCC_HSE_DISABLE \<equiv> 0"
abbreviation (input) RCC_HSE_ENABLE :: u32 where "RCC_HSE_ENABLE \<equiv> 0x10000"
abbreviation (input) RCC_HSE_BYPASS :: u32 where "RCC_HSE_BYPASS \<equiv> 0x40000"
abbreviation (input) RCC_HSI_ENABLE :: u32 where "RCC_HSI_ENABLE \<equiv> 1"
abbreviation (input) RCC_MSI_DISABLE :: u32 where "RCC_MSI_DISABLE \<equiv> 0"
abbreviation (input) RCC_MSI_ENABLE :: u32 where "RCC_MSI_ENABLE \<equiv> 4"
abbreviation (input) RCC_MSI_RANGE_4M :: u32 where "RCC_MSI_RANGE_4M \<equiv> 0x60"
abbreviation (input) RCC_LSE_DISABLE :: u8 where "RCC_LSE_DISABLE \<equiv> 0"
abbreviation (input) RCC_LSE_ENABLE :: u8 where "RCC_LSE_ENABLE \<equiv> 1"
abbreviation (input) RCC_LSE_BYPASS :: u8 where "RCC_LSE_BYPASS \<equiv> 4"
abbreviation (input) RCC_SYSCLK_SRC_MSI :: u32 where "RCC_SYSCLK_SRC_MSI \<equiv> 0"
abbreviation (input) RCC_SYSCLK_SRC_HSI :: u32 where "RCC_SYSCLK_SRC_HSI \<equiv> 1"
abbreviation (input) RCC_SYSCLK_SRC_HSE :: u32 where "RCC_SYSCLK_SRC_HSE \<equiv> 2"
abbreviation (input) RCC_SYSCLK_SRC_PLLCLK :: u32 where "RCC_SYSCLK_SRC_PLLCLK \<equiv> 3"
abbreviation (input) RCC_SYSCLK_DIV1 :: u32 where "RCC_SYSCLK_DIV1 \<equiv> 0"
abbreviation (input) RCC_HCLK_DIV1 :: u32 where "RCC_HCLK_DIV1 \<equiv> 0"
abbreviation (input) RCC_HCLK_DIV2 :: u32 where "RCC_HCLK_DIV2 \<equiv> 0x400"
abbreviation (input) RCC_HCLK_DIV4 :: u32 where "RCC_HCLK_DIV4 \<equiv> 0x500"
abbreviation (input) RCC_PLL_HSI_PRE_DIV1 :: u32 where "RCC_PLL_HSI_PRE_DIV1 \<equiv> 0"
abbreviation (input) RCC_PLL_HSI_PRE_DIV2 :: u32 where "RCC_PLL_HSI_PRE_DIV2 \<equiv> 1"
abbreviation (input) RCC_PLL_SRC_HSE_DIV1 :: u32 where "RCC_PLL_SRC_HSE_DIV1 \<equiv> 0x10000"
abbreviation (input) RCC_PLL_SRC_HSE_DIV2 :: u32 where "RCC_PLL_SRC_HSE_DIV2 \<equiv> 0x30000"
abbreviation (input) RCC_PLL_MUL_2 :: u32 where "RCC_PLL_MUL_2 \<equiv> 0"
abbreviation (input) RCC_PLLDIVCLK_DISABLE :: u32 where "RCC_PLLDIVCLK_DISABLE \<equiv> 0"
abbreviation (input) RCC_PLLDIVCLK_ENABLE :: u32 where "RCC_PLLDIVCLK_ENABLE \<equiv> 2"
abbreviation (input) RCC_CTRL_FLAG_HSIRDF :: u8 where "RCC_CTRL_FLAG_HSIRDF \<equiv> 0x21"
abbreviation (input) RCC_CTRL_FLAG_HSERDF :: u8 where "RCC_CTRL_FLAG_HSERDF \<equiv> 0x31"
abbreviation (input) RCC_CTRL_FLAG_PLLRDF :: u8 where "RCC_CTRL_FLAG_PLLRDF \<equiv> 0x39"
abbreviation (input) RCC_LDCTRL_FLAG_LSERD :: u8 where "RCC_LDCTRL_FLAG_LSERD \<equiv> 0x41"
abbreviation (input) RCC_CTRLSTS_FLAG_MSIRD :: u8 where "RCC_CTRLSTS_FLAG_MSIRD \<equiv> 0x63"
abbreviation (input) RCC_LPUARTCLK_SRC_APB1 :: u32 where "RCC_LPUARTCLK_SRC_APB1 \<equiv> 0"
abbreviation (input) RCC_LPUARTCLK_SRC_SYSCLK :: u32 where "RCC_LPUARTCLK_SRC_SYSCLK \<equiv> 8"
abbreviation (input) RCC_LPUARTCLK_SRC_HSI :: u32 where "RCC_LPUARTCLK_SRC_HSI \<equiv> 0x10"
abbreviation (input) RCC_LPUARTCLK_SRC_LSE :: u32 where "RCC_LPUARTCLK_SRC_LSE \<equiv> 0x18"
abbreviation (input) RCC_RET_PERIPH_LPUART :: u32 where "RCC_RET_PERIPH_LPUART \<equiv> 0x80"
abbreviation (input) RCC_APB1_PERIPH_PWR :: u32 where "RCC_APB1_PERIPH_PWR \<equiv> 0x10000000"

definition HSE_STARTUP_TIMEOUT :: nat where "HSE_STARTUP_TIMEOUT = 0x2000"
definition HSI_STARTUP_TIMEOUT :: nat where "HSI_STARTUP_TIMEOUT = 0x0500"
definition MSI_STARTUP_TIMEOUT :: nat where "MSI_STARTUP_TIMEOUT = 0x0500"
definition HSE_VALUE :: u32 where "HSE_VALUE = 8000000"
definition HSI_VALUE :: u32 where "HSI_VALUE = 16000000"

subsection \<open>Flags\<close>

definition RCC_GetFlagStatus :: "hardware \<Rightarrow> u8 \<Rightarrow> FlagStatus io" where
  "RCC_GetFlagStatus hw RCC_FLAG = do {
     let tmp = drop_bit 5 RCC_FLAG;
     statusreg \<leftarrow> rd hw (if tmp = 1 then RCC_CTRL else if tmp = 2 then RCC_LDCTRL
                        else RCC_CTRLSTS);
     ret (flag_of (statusreg AND push_bit (unat (RCC_FLAG AND 0x1F)) 1 \<noteq> 0))
   }"

definition RCC_ClrFlag :: "hardware \<Rightarrow> unit io" where
  "RCC_ClrFlag hw = do {
     or_reg hw RCC_CTRLSTS 0x01000000;
     and_reg hw RCC_CTRLSTS 0xFEFFFFFF
   }"

definition RCC_GetIntStatus :: "hardware \<Rightarrow> u8 \<Rightarrow> FlagStatus io" where
  "RCC_GetIntStatus hw RccInt = do {
     v \<leftarrow> rd hw RCC_CLKINT;
     ret (flag_of (v AND ucast RccInt \<noteq> 0))
   }"

definition RCC_ClrIntPendingBit :: "hardware \<Rightarrow> u32 \<Rightarrow> unit io" where
  "RCC_ClrIntPendingBit hw RccClrInt = or_reg hw RCC_CLKINT RccClrInt"

definition RCC_ConfigInt :: "hardware \<Rightarrow> u8 \<Rightarrow> FunctionalState \<Rightarrow> unit io" where
  "RCC_ConfigInt hw RccInt Cmd =
     (if Cmd \<noteq> DISABLE then or_reg hw RCC_CLKINT (push_bit 8 (ucast RccInt))
      else and_reg hw RCC_CLKINT (NOT (push_bit 8 (ucast RccInt))))"

subsection \<open>Oscillators\<close>

definition RCC_DeInit :: "hardware \<Rightarrow> unit io" where
  "RCC_DeInit hw = do {
     or_reg hw RCC_CTRLSTS 4;
     and_reg hw RCC_CFG 0xF8FFC000;
     and_reg hw RCC_CTRL 0xFEF6FFFE;
     and_reg hw RCC_CTRL 0xFFFBFFFF;
     and_reg hw RCC_CFG 0xF700FFFF;
     wr RCC_CFG2 0x00007000;
     wr RCC_CFG3 0x00003800;
     wr RCC_RDCTRL 0;
     wr RCC_PLLHSIPRE 0;
     wr RCC_CLKINT 0x04BF8000
   }"

definition RCC_ConfigHse :: "hardware \<Rightarrow> u32 \<Rightarrow> unit io" where
  "RCC_ConfigHse hw RCC_HSE = do {
     and_reg hw RCC_CTRL 0xFFFEFFFF;
     and_reg hw RCC_CTRL 0xFFFBFFFF;
     (if RCC_HSE = RCC_HSE_ENABLE then or_reg hw RCC_CTRL 0x00010000
      else if RCC_HSE = RCC_HSE_BYPASS then or_reg hw RCC_CTRL (0x00040000 OR 0x00010000)
      else skip)
   }"

text \<open>The loop and the final test the three \<open>RCC_Wait...Stable\<close> functions share.\<close>

definition wait_stable :: "hardware \<Rightarrow> u8 \<Rightarrow> nat \<Rightarrow> ErrorStatus io" where
  "wait_stable hw flag limit = do {
     poll_up (RCC_GetFlagStatus hw flag) limit;
     st \<leftarrow> RCC_GetFlagStatus hw flag;
     ret (if st \<noteq> RESET then SUCCESS else ERROR)
   }"

definition RCC_WaitHseStable :: "hardware \<Rightarrow> ErrorStatus io" where
  "RCC_WaitHseStable hw = wait_stable hw RCC_CTRL_FLAG_HSERDF HSE_STARTUP_TIMEOUT"

definition RCC_ConfigHsi :: "hardware \<Rightarrow> u32 \<Rightarrow> unit io" where
  "RCC_ConfigHsi hw RCC_HSI = do {
     and_reg hw RCC_CTRL 0xFFFFFFFE;
     (if RCC_HSI = RCC_HSI_ENABLE then or_reg hw RCC_CTRL 1 else skip)
   }"

definition RCC_WaitHsiStable :: "hardware \<Rightarrow> ErrorStatus io" where
  "RCC_WaitHsiStable hw = wait_stable hw RCC_CTRL_FLAG_HSIRDF HSI_STARTUP_TIMEOUT"

definition RCC_SetHsiCalibValue :: "hardware \<Rightarrow> u8 \<Rightarrow> unit io" where
  "RCC_SetHsiCalibValue hw HSICalibrationValue = do {
     tmpregister \<leftarrow> rd hw RCC_CTRL;
     wr RCC_CTRL (tmpregister AND 0xFFFFFF83 OR push_bit 2 (ucast HSICalibrationValue))
   }"

definition RCC_EnableHsi :: "FunctionalState \<Rightarrow> unit io" where
  "RCC_EnableHsi Cmd = bb RCC_CTRL 0 (cmd_word Cmd)"

definition RCC_ConfigMsi :: "hardware \<Rightarrow> u32 \<Rightarrow> u32 \<Rightarrow> unit io" where
  "RCC_ConfigMsi hw RCC_MSI RCC_MSI_Range = do {
     and_reg hw RCC_CTRLSTS 0xFFFFFF8F;
     or_reg hw RCC_CTRLSTS RCC_MSI_Range;
     (if RCC_MSI = RCC_MSI_ENABLE then or_reg hw RCC_CTRLSTS 4
      else if RCC_MSI = RCC_MSI_DISABLE then and_reg hw RCC_CTRLSTS 0xFFFFFFFB
      else skip)
   }"

definition RCC_WaitMsiStable :: "hardware \<Rightarrow> ErrorStatus io" where
  "RCC_WaitMsiStable hw = wait_stable hw RCC_CTRLSTS_FLAG_MSIRD MSI_STARTUP_TIMEOUT"

definition RCC_SetMsiCalibValue :: "hardware \<Rightarrow> u8 \<Rightarrow> unit io" where
  "RCC_SetMsiCalibValue hw MSICalibrationValue = do {
     tmpregister \<leftarrow> rd hw RCC_CTRLSTS;
     wr RCC_CTRLSTS (tmpregister AND 0xFF807FFF OR push_bit 15 (ucast MSICalibrationValue))
   }"

definition RCC_EnableMsi :: "FunctionalState \<Rightarrow> unit io" where
  "RCC_EnableMsi Cmd = bb RCC_CTRLSTS 2 (cmd_word Cmd)"

definition RCC_EnableLsi :: "FunctionalState \<Rightarrow> unit io" where
  "RCC_EnableLsi Cmd = bb RCC_CTRLSTS 0 (cmd_word Cmd)"

text \<open>The trim argument is a \<open>uint16_t\<close>; values above the maximum are replaced by the default.\<close>

definition LSE_XtalConfig :: "hardware \<Rightarrow> u16 \<Rightarrow> unit io" where
  "LSE_XtalConfig hw LSE_Trim = do {
     tmpregister \<leftarrow> rd hw LSE_TRIMR;
     let trim = (if LSE_Trim > 0x1FF then 0x1FF else LSE_Trim AND 0x1FF);
     wr LSE_TRIMR (tmpregister AND NOT 0x1FF OR ucast trim)
   }"

definition RCC_EnableAPB1PeriphClk :: "hardware \<Rightarrow> u32 \<Rightarrow> FunctionalState \<Rightarrow> unit io" where
  "RCC_EnableAPB1PeriphClk hw periph Cmd =
     (if Cmd \<noteq> DISABLE then or_reg hw RCC_APB1PCLKEN periph
      else and_reg hw RCC_APB1PCLKEN (NOT periph))"

text \<open>
  The delay loop of the disable branch counts an automatic variable and touches no register. A
  value other than the three writes nothing.
\<close>

definition RCC_ConfigLse :: "hardware \<Rightarrow> u8 \<Rightarrow> u16 \<Rightarrow> unit io" where
  "RCC_ConfigLse hw RCC_LSE LSE_Trim = do {
     RCC_EnableAPB1PeriphClk hw RCC_APB1_PERIPH_PWR ENABLE;
     or_reg hw PWR_CTRL1 0x100;
     v \<leftarrow> rd hw RCC_LDCTRL;
     let LDCTRL_Value = v AND NOT (1 OR 4 OR 8);
     (if RCC_LSE = RCC_LSE_ENABLE then do {
        wr RCC_LDCTRL (LDCTRL_Value OR 1);
        LSE_XtalConfig hw LSE_Trim
      }
      else if RCC_LSE = RCC_LSE_DISABLE then wr RCC_LDCTRL (LDCTRL_Value AND NOT 0)
      else if RCC_LSE = RCC_LSE_BYPASS then wr RCC_LDCTRL (LDCTRL_Value OR 4)
      else skip)
   }"

definition RCC_EnableClockSecuritySystem :: "FunctionalState \<Rightarrow> unit io" where
  "RCC_EnableClockSecuritySystem Cmd = bb RCC_CTRL 0x13 (cmd_word Cmd)"

definition RCC_EnableLSEClockSecuritySystem :: "FunctionalState \<Rightarrow> unit io" where
  "RCC_EnableLSEClockSecuritySystem Cmd = bb RCC_LDCTRL 3 (cmd_word Cmd)"

definition RCC_GetLSEClockSecuritySystemStatus :: "hardware \<Rightarrow> FlagStatus io" where
  "RCC_GetLSEClockSecuritySystemStatus hw = do {
     v \<leftarrow> rd hw RCC_LDCTRL;
     ret (flag_of (v AND 0x10 \<noteq> 0))
   }"

subsection \<open>PLL and system clock\<close>

definition RCC_ConfigPll :: "hardware \<Rightarrow> u32 \<Rightarrow> u32 \<Rightarrow> u32 \<Rightarrow> unit io" where
  "RCC_ConfigPll hw RCC_PLLSource RCC_PLLMul RCC_PLLDIVCLK = do {
     cfg \<leftarrow> rd hw RCC_CFG;
     pre \<leftarrow> rd hw RCC_PLLHSIPRE;
     let tmpregister = cfg AND 0xF7C0FFFF;
     let pllhsipreregister = pre AND NOT (1 OR 2);
     (if RCC_PLLSource = RCC_PLL_HSI_PRE_DIV1 \<or> RCC_PLLSource = RCC_PLL_HSI_PRE_DIV2 then do {
        wr RCC_CFG (tmpregister OR RCC_PLLMul);
        wr RCC_PLLHSIPRE (pllhsipreregister OR (RCC_PLLSource OR RCC_PLLDIVCLK))
      } else do {
        wr RCC_CFG (tmpregister OR (RCC_PLLSource OR RCC_PLLMul));
        wr RCC_PLLHSIPRE (pllhsipreregister OR RCC_PLLDIVCLK)
      })
   }"

definition RCC_EnablePll :: "FunctionalState \<Rightarrow> unit io" where
  "RCC_EnablePll Cmd = bb RCC_CTRL 0x18 (cmd_word Cmd)"

text \<open>Read, clear the field with \<open>msk\<close>, insert \<open>val\<close>, store: the shape of most setters.\<close>

definition set_field :: "hardware \<Rightarrow> reg \<Rightarrow> u32 \<Rightarrow> u32 \<Rightarrow> unit io" where
  "set_field hw r msk val = do {
     tmpregister \<leftarrow> rd hw r;
     wr r (tmpregister AND msk OR val)
   }"

lemma run_set_field [simp]:
  "run_state (set_field hw r m v) h = ((), Wr r (hw h r AND m OR v) # Rd r (hw h r) # h)"
  by (simp add: set_field_def)

definition RCC_ConfigSysclk :: "hardware \<Rightarrow> u32 \<Rightarrow> unit io" where
  "RCC_ConfigSysclk hw src = set_field hw RCC_CFG 0xFFFFFFFC src"

definition RCC_GetSysclkSrc :: "hardware \<Rightarrow> u8 io" where
  "RCC_GetSysclkSrc hw = do { v \<leftarrow> rd hw RCC_CFG; ret (ucast (v AND 0xC)) }"

definition RCC_ConfigHclk :: "hardware \<Rightarrow> u32 \<Rightarrow> unit io" where
  "RCC_ConfigHclk hw RCC_SYSCLK = set_field hw RCC_CFG 0xFFFFFF0F RCC_SYSCLK"

definition RCC_ConfigPclk1 :: "hardware \<Rightarrow> u32 \<Rightarrow> unit io" where
  "RCC_ConfigPclk1 hw RCC_HCLK = set_field hw RCC_CFG 0xFFFFF8FF RCC_HCLK"

definition RCC_ConfigPclk2 :: "hardware \<Rightarrow> u32 \<Rightarrow> unit io" where
  "RCC_ConfigPclk2 hw RCC_HCLK = set_field hw RCC_CFG 0xFFFFC7FF (push_bit 3 RCC_HCLK)"

definition RCC_ConfigMcoClkPre :: "hardware \<Rightarrow> u32 \<Rightarrow> unit io" where
  "RCC_ConfigMcoClkPre hw pre = set_field hw RCC_CFG 0x0FFFFFFF pre"

definition RCC_ConfigMco :: "hardware \<Rightarrow> u8 \<Rightarrow> unit io" where
  "RCC_ConfigMco hw RCC_MCO = set_field hw RCC_CFG 0xF8FFFFFF (push_bit 24 (ucast RCC_MCO))"

subsection \<open>Clock frequencies\<close>

definition s_ApbAhbPresTable :: "nat list" where
  "s_ApbAhbPresTable = [0, 0, 0, 0, 1, 2, 3, 4, 1, 2, 3, 4, 6, 7, 8, 9]"

definition s_AdcHclkPresTable :: "u32 list" where
  "s_AdcHclkPresTable = [1, 2, 4, 6, 8, 10, 12, 16, 32, 32, 32, 32, 32, 32, 32, 32]"

definition s_AdcPllClkPresTable :: "u32 list" where
  "s_AdcPllClkPresTable = [1, 2, 4, 6, 8, 10, 12, 16, 32, 64, 128, 256, 256, 256, 256, 256]"

definition s_msiClockTable :: "u32 list" where
  "s_msiClockTable = [100000, 200000, 400000, 800000, 1000000, 2000000, 4000000]"

record RCC_ClocksType =
  SysclkFreq :: u32
  HclkFreq :: u32
  Pclk1Freq :: u32
  Pclk2Freq :: u32
  AdcPllClkFreq :: u32
  AdcHclkFreq :: u32

text \<open>The multiplication factor encoded in the five \<open>PLLMULFCT\<close> bits of \<open>CFG\<close>.\<close>

definition pll_factor :: "u32 \<Rightarrow> u32" where
  "pll_factor pllmull =
     (if pllmull AND 0x08000000 = 0 then drop_bit 18 pllmull + 2
      else (drop_bit 18 pllmull - 496) + 1)"

text \<open>The MSI range field has three bits, the table seven entries.\<close>

definition msi_clock :: "u8 \<Rightarrow> stop + u32" where
  "msi_clock msi_clk =
     (if unat msi_clk < length s_msiClockTable then Inr (s_msiClockTable ! unat msi_clk)
      else Inl (Out_Of_Bounds ''s_msiClockTable''))"

definition sysclk_freq :: "u32 \<Rightarrow> u8 \<Rightarrow> u32 \<Rightarrow> stop + u32" where
  "sysclk_freq tmp msi_clk pllclk =
     (if tmp = 0x00 then msi_clock msi_clk
      else if tmp = 0x04 then Inr HSI_VALUE
      else if tmp = 0x08 then Inr HSE_VALUE
      else if tmp = 0x0C then Inr pllclk
      else msi_clock msi_clk)"

text \<open>The PLL output, from its source, pre-divider and output divider.\<close>

definition pll_clock :: "hardware \<Rightarrow> u32 \<Rightarrow> u32 \<Rightarrow> u32 io" where
  "pll_clock hw pllsource pllmull = do {
     pllclk \<leftarrow> (if pllsource = 0 then do {
                  v \<leftarrow> rd hw RCC_PLLHSIPRE;
                  ret (if v AND 1 \<noteq> 0 then drop_bit 1 HSI_VALUE * pllmull else HSI_VALUE * pllmull)
                } else do {
                  v \<leftarrow> rd hw RCC_CFG;
                  ret (if v AND 0x00020000 \<noteq> 0 then drop_bit 1 HSE_VALUE * pllmull
                       else HSE_VALUE * pllmull)
                });
     v \<leftarrow> rd hw RCC_PLLHSIPRE;
     ret (if v AND 2 \<noteq> 0 then drop_bit 1 pllclk else pllclk)
   }"

definition RCC_GetClocksFreqValue :: "hardware \<Rightarrow> (stop + RCC_ClocksType) io" where
  "RCC_GetClocksFreqValue hw = do {
     cfg1 \<leftarrow> rd hw RCC_CFG;
     cfg2 \<leftarrow> rd hw RCC_CFG;
     sts \<leftarrow> rd hw RCC_CTRLSTS;
     let msi_clk = (ucast (drop_bit 4 (sts AND 0x70)) :: u8);
     pllclk \<leftarrow> pll_clock hw (cfg2 AND 0x00010000) (pll_factor (cfg1 AND 0x083C0000));
     cfg3 \<leftarrow> rd hw RCC_CFG;
     case sysclk_freq (cfg3 AND 0xC) msi_clk pllclk of
       Inl e \<Rightarrow> ret (Inl e)
     | Inr sysclk \<Rightarrow> do {
         cfg4 \<leftarrow> rd hw RCC_CFG;
         let hclk = drop_bit (s_ApbAhbPresTable ! unat (drop_bit 4 (cfg4 AND 0xF0))) sysclk;
         cfg5 \<leftarrow> rd hw RCC_CFG;
         let pclk1 = drop_bit (s_ApbAhbPresTable ! unat (drop_bit 8 (cfg5 AND 0x700))) hclk;
         cfg6 \<leftarrow> rd hw RCC_CFG;
         let pclk2 = drop_bit (s_ApbAhbPresTable ! unat (drop_bit 11 (cfg6 AND 0x3800))) hclk;
         a \<leftarrow> rd hw RCC_CFG2;
         let adchclk = hclk div (s_AdcHclkPresTable ! unat (a AND 0xF));
         b \<leftarrow> rd hw RCC_CFG2;
         let adcpll = pllclk div (s_AdcPllClkPresTable ! unat (drop_bit 4 (b AND 0x1F0) AND 0xF));
         ret (Inr \<lparr>SysclkFreq = sysclk, HclkFreq = hclk, Pclk1Freq = pclk1, Pclk2Freq = pclk2,
                   AdcPllClkFreq = adcpll, AdcHclkFreq = adchclk\<rparr>)
       }
   }"

text \<open>Computing the frequencies only reads registers.\<close>

lemma reads_only_GetClocks [simp]: "reads_only (RCC_GetClocksFreqValue hw)"
  unfolding RCC_GetClocksFreqValue_def pll_clock_def Let_def
  by (intro reads_only_bind reads_only_rd reads_only_if reads_only_ret; simp split: sum.splits)
    (intro allI impI reads_only_bind reads_only_rd reads_only_ret)

end
