(* ===== verification/RccPeriph.thy ===== *)
theory RccPeriph
  imports Rcc
begin

text \<open>
  The rest of \<open>n32l40x_rcc.c\<close>: peripheral clock enables and resets, and the clock selections of
  single peripherals.
\<close>

subsection \<open>Peripheral clock enables and resets\<close>

text \<open>\<open>if (Cmd != DISABLE) r |= bits; else r &= ~bits;\<close>, the shape of every enable.\<close>

definition enable_bits :: "hardware \<Rightarrow> reg \<Rightarrow> u32 \<Rightarrow> FunctionalState \<Rightarrow> unit io" where
  "enable_bits hw r bits Cmd =
     (if Cmd \<noteq> DISABLE then or_reg hw r bits else and_reg hw r (NOT bits))"

lemma run_enable_bits [simp]:
  "run_state (enable_bits hw r b ENABLE) h = ((), Wr r (hw h r OR b) # Rd r (hw h r) # h)"
  "run_state (enable_bits hw r b DISABLE) h = ((), Wr r (hw h r AND NOT b) # Rd r (hw h r) # h)"
  by (simp_all add: enable_bits_def)

definition RCC_EnableAHBPeriphClk :: "hardware \<Rightarrow> u32 \<Rightarrow> FunctionalState \<Rightarrow> unit io" where
  "RCC_EnableAHBPeriphClk hw RCC_AHBPeriph Cmd = enable_bits hw RCC_AHBPCLKEN RCC_AHBPeriph Cmd"

definition RCC_EnableAPB2PeriphClk :: "hardware \<Rightarrow> u32 \<Rightarrow> FunctionalState \<Rightarrow> unit io" where
  "RCC_EnableAPB2PeriphClk hw RCC_APB2Periph Cmd = enable_bits hw RCC_APB2PCLKEN RCC_APB2Periph Cmd"

definition RCC_EnableAHBPeriphReset :: "hardware \<Rightarrow> u32 \<Rightarrow> FunctionalState \<Rightarrow> unit io" where
  "RCC_EnableAHBPeriphReset hw RCC_AHBPeriph Cmd = enable_bits hw RCC_AHBPRST RCC_AHBPeriph Cmd"

definition RCC_EnableAPB2PeriphReset :: "hardware \<Rightarrow> u32 \<Rightarrow> FunctionalState \<Rightarrow> unit io" where
  "RCC_EnableAPB2PeriphReset hw RCC_APB2Periph Cmd = enable_bits hw RCC_APB2PRST RCC_APB2Periph Cmd"

definition RCC_EnableAPB1PeriphReset :: "hardware \<Rightarrow> u32 \<Rightarrow> FunctionalState \<Rightarrow> unit io" where
  "RCC_EnableAPB1PeriphReset hw RCC_APB1Periph Cmd = enable_bits hw RCC_APB1PRST RCC_APB1Periph Cmd"

definition RCC_EnableRETPeriphClk :: "hardware \<Rightarrow> u32 \<Rightarrow> FunctionalState \<Rightarrow> unit io" where
  "RCC_EnableRETPeriphClk hw RCC_RETPeriph Cmd = enable_bits hw RCC_RDCTRL RCC_RETPeriph Cmd"

definition RCC_EnableRETPeriphReset :: "hardware \<Rightarrow> u32 \<Rightarrow> FunctionalState \<Rightarrow> unit io" where
  "RCC_EnableRETPeriphReset hw RCC_RETPeriph Cmd = enable_bits hw RCC_RDCTRL (push_bit 4 RCC_RETPeriph) Cmd"

definition RCC_ConfigSRAMParityErrorInt :: "hardware \<Rightarrow> u32 \<Rightarrow> FunctionalState \<Rightarrow> unit io" where
  "RCC_ConfigSRAMParityErrorInt hw SramErrorInt Cmd = enable_bits hw RCC_SRAM_CTRLSTS SramErrorInt Cmd"

definition RCC_ConfigSRAMParityErrorRESET :: "hardware \<Rightarrow> u32 \<Rightarrow> FunctionalState \<Rightarrow> unit io" where
  "RCC_ConfigSRAMParityErrorRESET hw SramErrorReset Cmd = enable_bits hw RCC_SRAM_CTRLSTS SramErrorReset Cmd"

definition RCC_EnableLowPowerReset :: "FunctionalState \<Rightarrow> unit io" where
  "RCC_EnableLowPowerReset Cmd = bb RCC_LDCTRL 0x10 (cmd_word Cmd)"

definition RCC_EnableRtcClk :: "FunctionalState \<Rightarrow> unit io" where
  "RCC_EnableRtcClk Cmd = bb RCC_LDCTRL 0x0F (cmd_word Cmd)"

subsection \<open>Clock sources of peripherals\<close>

definition RCC_ClrSRAMParityErrorFlag :: "hardware \<Rightarrow> u32 \<Rightarrow> unit io" where
  "RCC_ClrSRAMParityErrorFlag hw SramErrorflag = or_reg hw RCC_SRAM_CTRLSTS SramErrorflag"

definition RCC_ConfigUsbClk :: "u32 \<Rightarrow> unit io" where
  "RCC_ConfigUsbClk src = do {
     bb RCC_CFG 0x16 src;
     bb RCC_CFG 0x17 (drop_bit 1 src)
   }"

definition RCC_ConfigTim18Clk :: "hardware \<Rightarrow> u32 \<Rightarrow> unit io" where
  "RCC_ConfigTim18Clk hw src = set_field hw RCC_CFG2 0xDFFFFFFF src"

definition RCC_ConfigRngcClk :: "hardware \<Rightarrow> u32 \<Rightarrow> unit io" where
  "RCC_ConfigRngcClk hw pre = set_field hw RCC_CFG2 0xE0FFFFFF pre"

definition RCC_ConfigAdcHclk :: "hardware \<Rightarrow> u32 \<Rightarrow> unit io" where
  "RCC_ConfigAdcHclk hw pre = set_field hw RCC_CFG2 0xFFFFFFF0 pre"

definition RCC_ConfigUSBXTALESSMode :: "hardware \<Rightarrow> u32 \<Rightarrow> unit io" where
  "RCC_ConfigUSBXTALESSMode hw mode = do {
     and_reg hw RCC_CFG3 0xFFFFFEFF;
     or_reg hw RCC_CFG3 mode
   }"

definition RCC_ConfigRtcClk :: "hardware \<Rightarrow> u32 \<Rightarrow> unit io" where
  "RCC_ConfigRtcClk hw src = do {
     and_reg hw RCC_LDCTRL (NOT 0x300);
     or_reg hw RCC_LDCTRL src
   }"

definition RCC_ConfigLSXClk :: "hardware \<Rightarrow> u32 \<Rightarrow> unit io" where
  "RCC_ConfigLSXClk hw src = do {
     and_reg hw RCC_LDCTRL (NOT 0x20);
     or_reg hw RCC_LDCTRL src
   }"

definition RCC_ConfigLPUARTClk :: "hardware \<Rightarrow> u32 \<Rightarrow> unit io" where
  "RCC_ConfigLPUARTClk hw src = do {
     and_reg hw RCC_RDCTRL 0xFFFFFFE7;
     or_reg hw RCC_RDCTRL src
   }"

definition RCC_ConfigLPTIMClk :: "hardware \<Rightarrow> u32 \<Rightarrow> unit io" where
  "RCC_ConfigLPTIMClk hw src = do {
     RCC_EnableAPB1PeriphClk hw RCC_APB1_PERIPH_PWR ENABLE;
     or_reg hw PWR_CTRL1 0x100;
     and_reg hw RCC_RDCTRL 0xFFFFFFF8;
     or_reg hw RCC_RDCTRL src
   }"

definition RCC_ConfigAdc1mClk :: "hardware \<Rightarrow> u32 \<Rightarrow> u32 \<Rightarrow> unit io" where
  "RCC_ConfigAdc1mClk hw src pre = do {
     tmpregister \<leftarrow> rd hw RCC_CFG2;
     wr RCC_CFG2 (tmpregister AND 0xFFFDFFFF AND 0xFFFE0FFF OR src OR pre)
   }"

definition RCC_ConfigAdcPllClk :: "hardware \<Rightarrow> u32 \<Rightarrow> FunctionalState \<Rightarrow> unit io" where
  "RCC_ConfigAdcPllClk hw pre Cmd = do {
     v \<leftarrow> rd hw RCC_CFG2;
     let tmpregister = v AND 0xFFFFFE0F;
     wr RCC_CFG2 (if Cmd \<noteq> DISABLE then tmpregister OR pre
                  else (tmpregister OR pre) AND 0xFFFFFEFF)
   }"

definition RCC_ConfigTrng1mClk :: "hardware \<Rightarrow> u32 \<Rightarrow> u32 \<Rightarrow> unit io" where
  "RCC_ConfigTrng1mClk hw src pre = do {
     tmpregister \<leftarrow> rd hw RCC_CFG3;
     wr RCC_CFG3 (tmpregister AND 0xFFFDFFFF AND 0xFFFF07FF OR src OR pre)
   }"

definition RCC_EnableTrng1mClk :: "hardware \<Rightarrow> FunctionalState \<Rightarrow> unit io" where
  "RCC_EnableTrng1mClk hw Cmd =
     (if Cmd \<noteq> DISABLE then or_reg hw RCC_CFG3 0x00040000
      else and_reg hw RCC_CFG3 0xFFFBFFFF)"

definition RCC_ConfigUCDRClk :: "hardware \<Rightarrow> u32 \<Rightarrow> FunctionalState \<Rightarrow> unit io" where
  "RCC_ConfigUCDRClk hw src Cmd = do {
     set_field hw RCC_CFG3 0xFFFFFDFF src;
     (if Cmd \<noteq> DISABLE then or_reg hw RCC_CFG3 0x80 else and_reg hw RCC_CFG3 0xFFFFFF7F)
   }"

definition RCC_GetLPTIMClkSrc :: "hardware \<Rightarrow> u32 io" where
  "RCC_GetLPTIMClkSrc hw = do { v \<leftarrow> rd hw RCC_RDCTRL; ret (v AND 0x7) }"

definition RCC_GetLPUARTClkSrc :: "hardware \<Rightarrow> u32 io" where
  "RCC_GetLPUARTClkSrc hw = do { v \<leftarrow> rd hw RCC_RDCTRL; ret (v AND 0x18) }"

definition RCC_GetRTCClkSrc :: "hardware \<Rightarrow> u32 io" where
  "RCC_GetRTCClkSrc hw = do { v \<leftarrow> rd hw RCC_LDCTRL; ret (v AND 0x300) }"

definition RCC_GetLSXClkSrc :: "hardware \<Rightarrow> u32 io" where
  "RCC_GetLSXClkSrc hw = do { v \<leftarrow> rd hw RCC_LDCTRL; ret (v AND 0x20) }"

end
