(* ===== verification/ClockConfig.thy ===== *)
theory ClockConfig
  imports RccPeriph CStdio
begin

text \<open>
  \<open>dri_ClockConfig.c\<close> with the two flash functions it calls. The globals \<open>HSIStartUpStatus\<close>,
  \<open>HSEStartUpStatus\<close> and \<open>RCC_ClockFreq\<close> only carry a result to the next statement and are the
  bound variables here.
\<close>

subsection \<open>Flash wait states\<close>

definition FLASH_SetLatency :: "hardware \<Rightarrow> u32 \<Rightarrow> unit io" where
  "FLASH_SetLatency hw FLASH_Latency = do {
     tmpregister \<leftarrow> rd hw FLASH_AC;
     wr FLASH_AC (tmpregister AND 0xF8 OR FLASH_Latency)
   }"

definition FLASH_PrefetchBufSet :: "hardware \<Rightarrow> u32 \<Rightarrow> unit io" where
  "FLASH_PrefetchBufSet hw FLASH_PrefetchBuf = do {
     and_reg hw FLASH_AC 0xFFFFFFEF;
     or_reg hw FLASH_AC FLASH_PrefetchBuf
   }"

abbreviation (input) FLASH_PrefetchBuf_EN :: u32 where "FLASH_PrefetchBuf_EN \<equiv> 0x10"

subsection \<open>Steps the clock functions share\<close>

text \<open>The initial value of \<open>timeout_value\<close>.\<close>

definition SYSCLK_TIMEOUT :: nat where "SYSCLK_TIMEOUT = 0xFFFFFF"

definition wait_sysclk :: "hardware \<Rightarrow> u8 \<Rightarrow> ErrorStatus io" where
  "wait_sysclk hw src =
     poll_down (do { s \<leftarrow> RCC_GetSysclkSrc hw; ret (s = src) }) SYSCLK_TIMEOUT"

definition wait_pll_ready :: "hardware \<Rightarrow> ErrorStatus io" where
  "wait_pll_ready hw =
     poll_down (do { f \<leftarrow> RCC_GetFlagStatus hw RCC_CTRL_FLAG_PLLRDF; ret (f \<noteq> RESET) })
       SYSCLK_TIMEOUT"

text \<open>Start the MSI if it is not ready; the flag tells whether this was necessary.\<close>

definition ensure_msi :: "hardware \<Rightarrow> (ErrorStatus \<times> FlagStatus) io" where
  "ensure_msi hw = do {
     f \<leftarrow> RCC_GetFlagStatus hw RCC_CTRLSTS_FLAG_MSIRD;
     if f = RESET then do {
       RCC_ConfigMsi hw RCC_MSI_ENABLE RCC_MSI_RANGE_4M;
       st \<leftarrow> RCC_WaitMsiStable hw;
       ret (if st \<noteq> SUCCESS then (ERROR, RESET) else (SUCCESS, SET))
     } else ret (SUCCESS, RESET)
   }"

text \<open>The three bus prescalers, in the order of the source.\<close>

definition config_buses :: "hardware \<Rightarrow> u32 \<Rightarrow> u32 \<Rightarrow> unit io" where
  "config_buses hw pclk2div pclk1div = do {
     RCC_ConfigHclk hw RCC_SYSCLK_DIV1;
     RCC_ConfigPclk2 hw pclk2div;
     RCC_ConfigPclk1 hw pclk1div
   }"

text \<open>Program and start the PLL, wait until it is ready and then until it is the system clock.\<close>

definition switch_to_pll :: "hardware \<Rightarrow> u32 \<Rightarrow> u32 \<Rightarrow> u32 \<Rightarrow> FlagStatus \<Rightarrow> ErrorStatus io" where
  "switch_to_pll hw pllsrc pllmul plldiv msi_ready_flag = do {
     RCC_EnablePll DISABLE;
     RCC_ConfigPll hw pllsrc pllmul plldiv;
     RCC_EnablePll ENABLE;
     rdy \<leftarrow> wait_pll_ready hw;
     if rdy = ERROR then ret ERROR
     else do {
       RCC_ConfigSysclk hw RCC_SYSCLK_SRC_PLLCLK;
       sw \<leftarrow> wait_sysclk hw 0x0C;
       if sw = ERROR then ret ERROR
       else do {
         (if msi_ready_flag = SET then RCC_ConfigMsi hw RCC_MSI_DISABLE RCC_MSI_RANGE_4M else skip);
         ret SUCCESS
       }
     }
   }"

subsection \<open>MSI, HSI and HSE\<close>

definition SetSysClockToMSI :: "hardware \<Rightarrow> ErrorStatus io" where
  "SetSysClockToMSI hw = do {
     f \<leftarrow> RCC_GetFlagStatus hw RCC_CTRLSTS_FLAG_MSIRD;
     st \<leftarrow> (if f = RESET then do {
              RCC_ConfigMsi hw RCC_MSI_ENABLE RCC_MSI_RANGE_4M;
              RCC_WaitMsiStable hw
            } else ret SUCCESS);
     if st \<noteq> SUCCESS then ret ERROR
     else do {
       FLASH_PrefetchBufSet hw FLASH_PrefetchBuf_EN;
       RCC_ConfigSysclk hw RCC_SYSCLK_SRC_MSI;
       sw \<leftarrow> wait_sysclk hw 0x00;
       if sw = ERROR then ret ERROR
       else do {
         FLASH_SetLatency hw 0;
         config_buses hw RCC_HCLK_DIV1 RCC_HCLK_DIV1;
         ret SUCCESS
       }
     }
   }"

text \<open>The chip revision byte is read once per comparison, up to the first match.\<close>

fun ucid_among :: "hardware \<Rightarrow> u8 list \<Rightarrow> bool io" where
  "ucid_among hw [] = ret False"
| "ucid_among hw (r # rs) = do {
     v \<leftarrow> rd hw UCID_2;
     if (ucast v :: u8) = r then ret True else ucid_among hw rs
   }"

definition direct_revisions :: "u8 list" where "direct_revisions = [0x01, 0x11, 0xFF]"

text \<open>
  On some revisions the oscillator drives the system clock only through the PLL, set to half its
  input times two; the switch goes through the MSI without waiting for it.
\<close>

definition sysclk_via_pll :: "hardware \<Rightarrow> u32 \<Rightarrow> ErrorStatus io" where
  "sysclk_via_pll hw pllsrc = do {
     m \<leftarrow> ensure_msi hw;
     if fst m = ERROR then ret ERROR
     else do {
       RCC_ConfigSysclk hw RCC_SYSCLK_SRC_MSI;
       switch_to_pll hw pllsrc RCC_PLL_MUL_2 RCC_PLLDIVCLK_DISABLE (snd m)
     }
   }"

definition sysclk_from_oscillator :: "hardware \<Rightarrow> u32 \<Rightarrow> u32 \<Rightarrow> u8 \<Rightarrow> ErrorStatus io" where
  "sysclk_from_oscillator hw pllsrc src sts = do {
     w \<leftarrow> ucid_among hw direct_revisions;
     if w then sysclk_via_pll hw pllsrc
     else do {
       RCC_ConfigSysclk hw src;
       wait_sysclk hw sts
     }
   }"

definition SetSysClockToHSI :: "hardware \<Rightarrow> ErrorStatus io" where
  "SetSysClockToHSI hw = do {
     RCC_EnableHsi ENABLE;
     HSIStartUpStatus \<leftarrow> RCC_WaitHsiStable hw;
     if HSIStartUpStatus = SUCCESS then do {
       FLASH_PrefetchBufSet hw FLASH_PrefetchBuf_EN;
       st \<leftarrow> sysclk_from_oscillator hw RCC_PLL_HSI_PRE_DIV2 RCC_SYSCLK_SRC_HSI 0x04;
       if st = ERROR then ret ERROR
       else do {
         FLASH_SetLatency hw 0;
         config_buses hw RCC_HCLK_DIV1 RCC_HCLK_DIV1;
         ret SUCCESS
       }
     } else ret ERROR
   }"

definition SetSysClockToHSE :: "hardware \<Rightarrow> ErrorStatus io" where
  "SetSysClockToHSE hw = do {
     RCC_ConfigHse hw RCC_HSE_ENABLE;
     HSEStartUpStatus \<leftarrow> RCC_WaitHseStable hw;
     if HSEStartUpStatus = SUCCESS then do {
       FLASH_PrefetchBufSet hw FLASH_PrefetchBuf_EN;
       st \<leftarrow> sysclk_from_oscillator hw RCC_PLL_SRC_HSE_DIV2 RCC_SYSCLK_SRC_HSE 0x08;
       if st = ERROR then ret ERROR
       else do {
         FLASH_SetLatency hw (if HSE_VALUE \<le> 32000000 then 0 else 1);
         config_buses hw RCC_HCLK_DIV1 RCC_HCLK_DIV1;
         ret SUCCESS
       }
     } else ret ERROR
   }"

subsection \<open>PLL\<close>

abbreviation (input) SYSCLK_PLLSRC_HSI :: u8 where "SYSCLK_PLLSRC_HSI \<equiv> 0"
abbreviation (input) SYSCLK_PLLSRC_HSIDIV2 :: u8 where "SYSCLK_PLLSRC_HSIDIV2 \<equiv> 1"
abbreviation (input) SYSCLK_PLLSRC_HSI_PLLDIV2 :: u8 where "SYSCLK_PLLSRC_HSI_PLLDIV2 \<equiv> 2"
abbreviation (input) SYSCLK_PLLSRC_HSIDIV2_PLLDIV2 :: u8 where "SYSCLK_PLLSRC_HSIDIV2_PLLDIV2 \<equiv> 3"
abbreviation (input) SYSCLK_PLLSRC_HSE :: u8 where "SYSCLK_PLLSRC_HSE \<equiv> 4"
abbreviation (input) SYSCLK_PLLSRC_HSEDIV2 :: u8 where "SYSCLK_PLLSRC_HSEDIV2 \<equiv> 5"
abbreviation (input) SYSCLK_PLLSRC_HSE_PLLDIV2 :: u8 where "SYSCLK_PLLSRC_HSE_PLLDIV2 \<equiv> 6"
abbreviation (input) SYSCLK_PLLSRC_HSEDIV2_PLLDIV2 :: u8 where "SYSCLK_PLLSRC_HSEDIV2_PLLDIV2 \<equiv> 7"

text \<open>
  \<open>pllsrc\<close>, \<open>pllsrcclk\<close> and \<open>plldiv\<close>; a source outside the enumeration assigns none of them.
\<close>

definition pll_source :: "u8 \<Rightarrow> (u32 \<times> u32 \<times> u32) option" where
  "pll_source src =
     (if src = SYSCLK_PLLSRC_HSIDIV2 then
        Some (RCC_PLL_HSI_PRE_DIV2, HSI_VALUE div 2, RCC_PLLDIVCLK_DISABLE)
      else if src = SYSCLK_PLLSRC_HSIDIV2_PLLDIV2 then
        Some (RCC_PLL_HSI_PRE_DIV2, HSI_VALUE div 4, RCC_PLLDIVCLK_ENABLE)
      else if src = SYSCLK_PLLSRC_HSI then
        Some (RCC_PLL_HSI_PRE_DIV1, HSI_VALUE, RCC_PLLDIVCLK_DISABLE)
      else if src = SYSCLK_PLLSRC_HSI_PLLDIV2 then
        Some (RCC_PLL_HSI_PRE_DIV1, HSI_VALUE div 2, RCC_PLLDIVCLK_ENABLE)
      else if src = SYSCLK_PLLSRC_HSEDIV2 then
        Some (RCC_PLL_SRC_HSE_DIV2, HSE_VALUE div 2, RCC_PLLDIVCLK_DISABLE)
      else if src = SYSCLK_PLLSRC_HSEDIV2_PLLDIV2 then
        Some (RCC_PLL_SRC_HSE_DIV2, HSE_VALUE div 4, RCC_PLLDIVCLK_ENABLE)
      else if src = SYSCLK_PLLSRC_HSE then
        Some (RCC_PLL_SRC_HSE_DIV1, HSE_VALUE, RCC_PLLDIVCLK_DISABLE)
      else if src = SYSCLK_PLLSRC_HSE_PLLDIV2 then
        Some (RCC_PLL_SRC_HSE_DIV1, HSE_VALUE div 2, RCC_PLLDIVCLK_ENABLE)
      else None)"

definition start_pll_source :: "hardware \<Rightarrow> u8 \<Rightarrow> ErrorStatus io" where
  "start_pll_source hw src =
     (if src = SYSCLK_PLLSRC_HSI \<or> src = SYSCLK_PLLSRC_HSIDIV2 \<or> src = SYSCLK_PLLSRC_HSI_PLLDIV2
         \<or> src = SYSCLK_PLLSRC_HSIDIV2_PLLDIV2 then do {
        RCC_ConfigHsi hw RCC_HSI_ENABLE;
        RCC_WaitHsiStable hw
      }
      else if src = SYSCLK_PLLSRC_HSE \<or> src = SYSCLK_PLLSRC_HSEDIV2
         \<or> src = SYSCLK_PLLSRC_HSE_PLLDIV2 \<or> src = SYSCLK_PLLSRC_HSEDIV2_PLLDIV2 then do {
        RCC_ConfigHse hw RCC_HSE_ENABLE;
        RCC_WaitHseStable hw
      }
      else ret SUCCESS)"

text \<open>\<open>(pclk1div, pclk2div)\<close>.\<close>

definition pclk_dividers :: "u32 \<Rightarrow> u32 \<times> u32" where
  "pclk_dividers freq =
     (if freq > 32000000 then (RCC_HCLK_DIV4, RCC_HCLK_DIV2)
      else if freq > 16000000 then (RCC_HCLK_DIV2, RCC_HCLK_DIV1)
      else (RCC_HCLK_DIV1, RCC_HCLK_DIV1))"

definition pll_multiplier :: "u32 \<Rightarrow> u32 \<Rightarrow> u32 option" where
  "pll_multiplier freq pllsrcclk =
     (if freq mod pllsrcclk = 0 \<and> freq div pllsrcclk \<ge> 2 \<and> freq div pllsrcclk \<le> 32 then
        (let pllmul = freq div pllsrcclk in
         Some (if pllmul \<le> 16 then push_bit 18 (pllmul - 2)
               else push_bit 18 (pllmul - 17) OR push_bit 27 1))
      else None)"

text \<open>The second half of \<open>SetSysClockToPLL\<close>, from the wait states on.\<close>

definition configure_pll :: "hardware \<Rightarrow> u32 \<Rightarrow> u32 \<Rightarrow> u32 \<Rightarrow> u32 \<Rightarrow> ErrorStatus io" where
  "configure_pll hw freq pllsrc pllsrcclk plldiv =
     (let latency = freq div 32000000; (pclk1div, pclk2div) = pclk_dividers freq in
      case pll_multiplier freq pllsrcclk of
        None \<Rightarrow> do {
          log_msg 3 ''dri_ClockConfig'' (''Cannot make a PLL multiply factor to freq..'' @ [CHR 0x0A]);
          ret ERROR
        }
      | Some pllmul \<Rightarrow> do {
          m \<leftarrow> ensure_msi hw;
          if fst m = ERROR then ret ERROR
          else do {
            RCC_ConfigSysclk hw RCC_SYSCLK_SRC_MSI;
            FLASH_SetLatency hw latency;
            config_buses hw pclk2div pclk1div;
            switch_to_pll hw pllsrc pllmul plldiv (snd m)
          }
        })"

definition SetSysClockToPLL :: "hardware \<Rightarrow> u32 \<Rightarrow> u8 \<Rightarrow> (stop + ErrorStatus) io" where
  "SetSysClockToPLL hw freq src =
     (if HSE_VALUE \<noteq> 8000000 then ret (Inr ERROR)
      else do {
        started \<leftarrow> start_pll_source hw src;
        if started \<noteq> SUCCESS then ret (Inr ERROR)
        else (case pll_source src of
          None \<Rightarrow> ret (Inl (Uninitialised ''pllsrcclk''))
        | Some (pllsrc, pllsrcclk, plldiv) \<Rightarrow> do {
            st \<leftarrow> configure_pll hw freq pllsrc pllsrcclk plldiv;
            ret (Inr st)
          })
      })"

subsection \<open>Start-up\<close>

abbreviation (input) LF :: string where "LF \<equiv> [CHR 0x0A]"

definition CAT_clock :: string where "CAT_clock = ''dri_ClockConfig''"

definition dri_ClockConfig_DumpClock :: "hardware \<Rightarrow> string \<Rightarrow> (stop + unit) io" where
  "dri_ClockConfig_DumpClock hw msg = do {
     log_msg 3 CAT_clock (replicate 32 (CHR ''-'') @ LF);
     log_msg 3 CAT_clock (msg @ '':'' @ LF);
     bindS (RCC_GetClocksFreqValue hw) (\<lambda>c. do {
       log_msg 3 CAT_clock (''SYSCLK: '' @ show_base 10 (unat (SysclkFreq c)) @ LF);
       log_msg 3 CAT_clock (''HCLK: '' @ show_base 10 (unat (HclkFreq c)) @ LF);
       log_msg 3 CAT_clock (''PCLK1: '' @ show_base 10 (unat (Pclk1Freq c)) @ LF);
       log_msg 3 CAT_clock (''PCLK2: '' @ show_base 10 (unat (Pclk2Freq c)) @ LF);
       ret (Inr ())
     })
   }"

text \<open>\<open>if (r == ERROR) elog_error(...); else elog_info(...);\<close>\<close>

definition report :: "ErrorStatus \<Rightarrow> string \<Rightarrow> string \<Rightarrow> (stop + unit) io" where
  "report r bad good = do {
     (if r = ERROR then log_msg 1 CAT_clock bad else log_msg 3 CAT_clock good);
     ret (Inr ())
   }"

definition dri_ClockConfig_Init :: "hardware \<Rightarrow> (stop + unit) io" where
  "dri_ClockConfig_Init hw =
     bindS (dri_ClockConfig_DumpClock hw ''status after reset'') (\<lambda>_.
     bindS (do { r \<leftarrow> SetSysClockToMSI hw;
                 report r ''MSI clock configuration failed!'' ''MSI clock configuration succeeded'' }) (\<lambda>_.
     bindS (dri_ClockConfig_DumpClock hw ''MSI, 4MHz'') (\<lambda>_.
     bindS (do { r \<leftarrow> SetSysClockToHSE hw;
                 report r ''HSE clock configuration failed!'' ''HSE clock configuration succeeded'' }) (\<lambda>_.
     bindS (dri_ClockConfig_DumpClock hw ''HSE, 8MHz'') (\<lambda>_.
     bindS (bindS (SetSysClockToPLL hw 64000000 SYSCLK_PLLSRC_HSE)
              (\<lambda>r. report r ''PLL clock configuration failed!''
                     ''PLL clock configuration succeeded, system frequency: 64MHz'')) (\<lambda>_.
     bindS (dri_ClockConfig_DumpClock hw ''HSE->PLL, 64MHz'') (\<lambda>_. do {
       RCC_EnableClockSecuritySystem ENABLE;
       log_msg 3 CAT_clock ''Clock Security System enabled'';
       ret (Inr ())
     })))))))"

end
