(* ===== verification/ClockLaws.thy ===== *)
theory ClockLaws
  imports ClockConfig
begin

text \<open>
  What the clock functions leave in the registers, on hardware that keeps the configuration bits
  written to it; and the order in which they select the PLL, on any hardware.
\<close>

subsection \<open>Laws of the hardware\<close>

text \<open>
  \<open>CFG\<close> reads back what was written except for the two status bits; \<open>PLLHSIPRE\<close> reads back
  entirely.
\<close>

definition config_law :: "hardware \<Rightarrow> bool" where
  "config_law hw \<longleftrightarrow>
     (\<forall>h. hw h RCC_CFG AND NOT 0xC = mem h RCC_CFG AND NOT 0xC) \<and>
     (\<forall>h. hw h RCC_PLLHSIPRE = mem h RCC_PLLHSIPRE)"

text \<open>Accesses that write none of the registers that steer the PLL and the clock switch.\<close>

definition quiet :: "access \<Rightarrow> bool" where
  "quiet a = (case a of
     Rd r v \<Rightarrow> True
   | Wr r v \<Rightarrow> r \<notin> {RCC_CFG, RCC_CTRL, RCC_PLLHSIPRE}
   | Bb r n v \<Rightarrow> r \<notin> {RCC_CFG, RCC_CTRL, RCC_PLLHSIPRE}
   | Log l t m \<Rightarrow> True)"

text \<open>Once the PLL drives the system clock it keeps doing so until software changes something.\<close>

definition pll_status_law :: "hardware \<Rightarrow> bool" where
  "pll_status_law hw \<longleftrightarrow>
     (\<forall>h q. (\<forall>a \<in> set q. quiet a) \<longrightarrow> hw h RCC_CFG AND 0xC = 0xC \<longrightarrow> hw (q @ h) RCC_CFG AND 0xC = 0xC)"

lemma disjoint_and_not: "x AND c = 0 \<Longrightarrow> NOT c AND x = x" for x c :: u32
proof -
  assume d: "x AND c = 0"
  have "x = x AND (c OR NOT c)"
    by (simp only: bit.disj_cancel_right bit.conj_one_right)
  also have "\<dots> = NOT c AND x"
    using d by (simp only: bit.conj_disj_distrib) (simp add: and.commute)
  finally show ?thesis by (rule sym)
qed

lemma and_zero_sub: "x AND c = 0 \<Longrightarrow> c AND d = d \<Longrightarrow> x AND d = 0" for x c d :: u32
proof -
  assume a: "x AND c = 0" and d: "c AND d = d"
  have "x AND d = (x AND c) AND d" by (simp only: and.assoc d)
  with a show ?thesis by simp
qed

lemma mask_sw: "(0xFFFFFFFC :: u32) = - 4"
  by simp

lemma config_lawD:
  assumes "config_law hw" and "F AND 0xC = 0"
  shows "hw h RCC_CFG AND F = mem h RCC_CFG AND F"
proof -
  have F: "F = NOT 0xC AND F"
    using disjoint_and_not [OF assms(2)] by (rule sym)
  have "hw h RCC_CFG AND NOT 0xC = mem h RCC_CFG AND NOT 0xC"
    using assms(1) by (simp add: config_law_def)
  then have "(hw h RCC_CFG AND NOT 0xC) AND F = (mem h RCC_CFG AND NOT 0xC) AND F"
    by (rule arg_cong)
  then show ?thesis
    unfolding and.assoc F [symmetric] .
qed

text \<open>The value a read-modify-write of \<open>CFG\<close> leaves in a field \<open>F\<close>.\<close>

lemma cfg_field:
  assumes "config_law hw" and "F AND 0xC = 0"
  shows "(hw h RCC_CFG AND m OR v) AND F = mem h RCC_CFG AND (m AND F) OR v AND F"
proof -
  have "(m AND F) AND 0xC = 0"
    using assms(2) by (simp add: and.assoc)
  from config_lawD [OF assms(1) this] show ?thesis
    by (simp add: bit.conj_disj_distrib2 and.assoc)
qed

subsection \<open>The polls\<close>

lemma reads_only_GetFlagStatus [simp, intro]: "reads_only (RCC_GetFlagStatus hw f)"
  by (auto simp: RCC_GetFlagStatus_def Let_def)

lemma reads_only_GetSysclkSrc [simp, intro]: "reads_only (RCC_GetSysclkSrc hw)"
  by (auto simp: RCC_GetSysclkSrc_def)

lemma reads_only_wait_stable [simp, intro]: "reads_only (wait_stable hw f n)"
  by (auto simp: wait_stable_def)

lemma reads_only_waits [simp, intro]:
  "reads_only (wait_sysclk hw s)" "reads_only (wait_pll_ready hw)"
  by (auto simp: wait_sysclk_def wait_pll_ready_def)

lemma reads_only_ucid [simp, intro]: "reads_only (ucid_among hw rs)"
  by (induction rs) (auto simp: Let_def)

lemma run_GetFlagStatus_pll:
  "run_state (RCC_GetFlagStatus hw 0x39) h =
     (flag_of (hw h RCC_CTRL AND 0x02000000 \<noteq> 0), Rd RCC_CTRL (hw h RCC_CTRL) # h)"
  by (simp add: RCC_GetFlagStatus_def)

lemma run_GetFlagStatus_msi:
  "run_state (RCC_GetFlagStatus hw 0x63) h =
     (flag_of (hw h RCC_CTRLSTS AND 0x8 \<noteq> 0), Rd RCC_CTRLSTS (hw h RCC_CTRLSTS) # h)"
  by (simp add: RCC_GetFlagStatus_def)

lemma run_GetSysclkSrc:
  "run_state (RCC_GetSysclkSrc hw) h =
     (ucast (hw h RCC_CFG AND 0xC), Rd RCC_CFG (hw h RCC_CFG) # h)"
  by (simp add: RCC_GetSysclkSrc_def)

lemma ucast_field_C: "(ucast (v AND 0xC) :: u8) = ucast (w AND 0xC) \<Longrightarrow> v AND 0xC = w AND 0xC" for v w :: u32
proof -
  assume e: "(ucast (v AND 0xC) :: u8) = ucast (w AND 0xC)"
  have "v AND 0xC \<le> 0xC" "w AND 0xC \<le> 0xC"
    by (simp_all add: word_and_le1)
  then have "unat (v AND 0xC) < 256" "unat (w AND 0xC) < 256"
    by (simp_all add: word_le_nat_alt)
  then show ?thesis
    using arg_cong [OF e, of unat] by (simp add: unsigned_ucast_eq take_bit_nat_eq_self word_unat_eq_iff)
qed

lemma wait_sysclk_pll_success:
  assumes "run_state (wait_sysclk hw 0x0C) h = (SUCCESS, h')"
  shows "\<exists>rs. (\<forall>a \<in> set rs. is_rd a) \<and> h' = Rd RCC_CFG (hw (rs @ h) RCC_CFG) # rs @ h \<and>
            hw (rs @ h) RCC_CFG AND 0xC = 0xC"
proof -
  from poll_down_success [OF _ assms [unfolded wait_sysclk_def]] obtain rs where
    rs: "\<forall>a \<in> set rs. is_rd a"
    and t: "(ucast (hw (rs @ h) RCC_CFG AND 0xC) :: u8) = 0x0C"
           "h' = Rd RCC_CFG (hw (rs @ h) RCC_CFG) # rs @ h"
    by (auto simp: run_GetSysclkSrc)
  from t(1) have "hw (rs @ h) RCC_CFG AND 0xC = 0xC AND 0xC"
    by (intro ucast_field_C) simp
  with rs t(2) show ?thesis by auto
qed

lemma wait_pll_ready_success:
  assumes "run_state (wait_pll_ready hw) h = (SUCCESS, h')"
  shows "\<exists>rs. (\<forall>a \<in> set rs. is_rd a) \<and> h' = Rd RCC_CTRL (hw (rs @ h) RCC_CTRL) # rs @ h \<and>
            hw (rs @ h) RCC_CTRL AND 0x02000000 \<noteq> 0"
proof -
  from poll_down_success [OF _ assms [unfolded wait_pll_ready_def]] obtain rs where
    "\<forall>a \<in> set rs. is_rd a" "hw (rs @ h) RCC_CTRL AND 0x02000000 \<noteq> 0"
    "h' = Rd RCC_CTRL (hw (rs @ h) RCC_CTRL) # rs @ h"
    by (auto simp: run_GetFlagStatus_pll)
  then show ?thesis by blast
qed

text \<open>Programs that only read leave the written contents alone.\<close>

lemma reads_only_mem:
  assumes "reads_only p" and "run_state p h = (x, h')"
  shows "mem h' = mem h"
proof -
  from reads_onlyE [OF assms] obtain rs where "h' = rs @ h" "\<forall>a \<in> set rs. is_rd a" .
  then show ?thesis by (auto simp: mem_reads)
qed

lemma reads_only_mem_aft: "reads_only p \<Longrightarrow> mem (aft p h) = mem h"
  by (rule reads_only_mem [OF _ surjective_pairing])

text \<open>A step that must succeed for the rest to run.\<close>

lemma run_guard:
  "run_state (State_Monad.bind p (\<lambda>x. if x = ERROR then ret ERROR else q)) h = (SUCCESS, h') \<longleftrightarrow>
   res p h = SUCCESS \<and> run_state q (aft p h) = (SUCCESS, h')"
  by (cases "res p h") (simp_all add: run_bind del: run_state_bind)

lemma mem_waits [simp]:
  "mem (aft (wait_pll_ready hw) h) = mem h"
  "mem (aft (wait_sysclk hw s) h) = mem h"
  "mem (aft (wait_stable hw f n) h) = mem h"
  "mem (aft (RCC_GetFlagStatus hw f) h) = mem h"
  "mem (aft (ucid_among hw rs) h) = mem h"
  by (simp_all add: reads_only_mem_aft)

subsection \<open>The PLL configuration\<close>

definition hsi_source :: "u32 \<Rightarrow> bool" where
  "hsi_source s \<longleftrightarrow> s = RCC_PLL_HSI_PRE_DIV1 \<or> s = RCC_PLL_HSI_PRE_DIV2"

lemma switch_to_pll_success:
  assumes laws: "config_law hw" "pll_status_law hw"
    and run: "run_state (switch_to_pll hw s m d f) h = (SUCCESS, h')"
  shows "\<And>F. F AND 0xF = 0 \<Longrightarrow>
           mem h' RCC_CFG AND F =
             mem h RCC_CFG AND (0xF7C0FFFF AND F) OR (if hsi_source s then m else s OR m) AND F"
    and "mem h' RCC_PLLHSIPRE =
           mem h RCC_PLLHSIPRE AND NOT 3 OR (if hsi_source s then s OR d else d)"
    and "\<And>q. \<forall>a \<in> set q. quiet a \<Longrightarrow> hw (q @ h') RCC_CFG AND 0xC = 0xC"
proof -
  let ?h1 = "aft (do { RCC_EnablePll DISABLE; RCC_ConfigPll hw s m d;
                                  RCC_EnablePll ENABLE }) h"
  let ?h2 = "aft (wait_pll_ready hw) ?h1"
  let ?h3 = "aft (RCC_ConfigSysclk hw 3) ?h2"
  let ?h4 = "aft (wait_sysclk hw 0x0C) ?h3"
  let ?h5 = "aft (if f = SET then RCC_ConfigMsi hw 0 0x60 else skip) ?h4"
  have r: "res (wait_pll_ready hw) ?h1 = SUCCESS"
    and r': "res (wait_sysclk hw 0x0C) ?h3 = SUCCESS"
    and h': "h' = ?h5"
    using run unfolding switch_to_pll_def
    by (simp_all add: run_guard run_bind [of "RCC_EnablePll _"] run_bind [of "RCC_ConfigPll hw s m d"]
        run_bind [of "RCC_ConfigSysclk hw _"] run_bind [of "if _ then _ else _"]
        del: run_state_bind)
  show "mem h' RCC_PLLHSIPRE =
           mem h RCC_PLLHSIPRE AND NOT 3 OR (if hsi_source s then s OR d else d)"
    using laws(1) unfolding h'
    by (simp add: RCC_ConfigSysclk_def RCC_EnablePll_def RCC_ConfigPll_def RCC_ConfigMsi_def
        hsi_source_def config_law_def Let_def)
  show "mem h' RCC_CFG AND F =
          mem h RCC_CFG AND (0xF7C0FFFF AND F) OR (if hsi_source s then m else s OR m) AND F"
    if F: "F AND 0xF = 0" for F
  proof -
    have FC: "F AND 0xC = 0" and F3: "F AND 3 = 0"
      by (rule and_zero_sub [OF F], simp)+
    have F3': "0xFFFFFFFC AND F = F" "3 AND F = 0"
      using disjoint_and_not [OF F3] F3 by (simp_all add: and.commute mask_sw)
    have "mem h' RCC_CFG AND F = mem ?h2 RCC_CFG AND F"
      unfolding h' using cfg_field [OF laws(1) FC, where m = "0xFFFFFFFC" and v = "3"] F3'
      by (simp add: RCC_ConfigSysclk_def RCC_ConfigMsi_def)
    also have "\<dots> = mem h RCC_CFG AND (0xF7C0FFFF AND F) OR (if hsi_source s then m else s OR m) AND F"
      using cfg_field [OF laws(1) FC]
      by (simp add: RCC_EnablePll_def RCC_ConfigPll_def hsi_source_def Let_def)
    finally show ?thesis .
  qed
  show "hw (q @ h') RCC_CFG AND 0xC = 0xC" if q: "\<forall>a \<in> set q. quiet a" for q
  proof -
    from wait_sysclk_pll_success [of hw ?h3 ?h4] r' obtain rs where
      rs: "\<forall>a \<in> set rs. is_rd a" and
      h4: "?h4 = Rd RCC_CFG (hw (rs @ ?h3) RCC_CFG) # rs @ ?h3" and
      sts: "hw (rs @ ?h3) RCC_CFG AND 0xC = 0xC"
      by (metis prod.collapse)
    obtain q' where q': "h' = q' @ rs @ ?h3" "\<forall>a \<in> set q'. quiet a"
      unfolding h' h4 by (cases f) (auto simp: RCC_ConfigMsi_def quiet_def)
    then have "\<forall>a \<in> set (q @ q'). quiet a" using q by auto
    with laws(2) sts have "hw ((q @ q') @ rs @ ?h3) RCC_CFG AND 0xC = 0xC"
      unfolding pll_status_law_def by blast
    then show ?thesis using q' by simp
  qed
qed

subsection \<open>Bus prescalers and multiplication factors\<close>

definition bus_div :: "u32 \<Rightarrow> bool" where
  "bus_div p \<longleftrightarrow> p \<in> {RCC_HCLK_DIV1, RCC_HCLK_DIV2, RCC_HCLK_DIV4}"

lemma pclk_dividers_bus_div:
  "bus_div (fst (pclk_dividers freq))" "bus_div (snd (pclk_dividers freq))"
  by (simp_all add: pclk_dividers_def bus_div_def)

lemma config_buses_fields:
  fixes h :: hist
  assumes "config_law hw" and "bus_div p1" and "bus_div p2"
  defines "h' \<equiv> aft (config_buses hw p2 p1) h"
  shows "mem h' RCC_CFG AND 0xF0 = 0"
    and "mem h' RCC_CFG AND 0x700 = p1"
    and "mem h' RCC_CFG AND 0x3800 = push_bit 3 p2"
  using assms(2,3) unfolding h'_def bus_div_def
  by (auto simp: config_buses_def RCC_ConfigHclk_def RCC_ConfigPclk1_def RCC_ConfigPclk2_def
      cfg_field [OF assms(1)] and.assoc)

text \<open>
  The encoding of a factor between 2 and 32 stays inside its field and decodes to the factor.
\<close>

definition mul_code :: "u32 \<Rightarrow> u32" where
  "mul_code n = (if n \<le> 16 then push_bit 18 (n - 2) else push_bit 18 (n - 17) OR push_bit 27 1)"

lemma factor_cases:
  assumes "2 \<le> n" and "n \<le> 32"
  shows "n \<in> set (map of_nat [2..<33] :: u32 list)"
proof -
  have "n = of_nat (unat n)" by simp
  moreover have "unat n \<in> set [2..<33]"
    unfolding set_upt atLeastLessThan_iff using assms by (simp add: word_le_nat_alt)
  ultimately show ?thesis unfolding set_map by (rule image_eqI)
qed

lemma mul_code_facts:
  assumes "2 \<le> n" and "n \<le> 32"
  shows "pll_factor (mul_code n AND 0x083C0000) = n" and "mul_code n AND 0xF7C3FFFF = 0"
proof -
  have "\<forall>n \<in> set (map of_nat [2..<33] :: u32 list).
          pll_factor (mul_code n AND 0x083C0000) = n \<and> mul_code n AND 0xF7C3FFFF = 0"
    by (simp add: upt_rec pll_factor_def mul_code_def)
  with factor_cases [OF assms]
  show "pll_factor (mul_code n AND 0x083C0000) = n" and "mul_code n AND 0xF7C3FFFF = 0"
    by blast+
qed

lemma pll_multiplierD:
  assumes "pll_multiplier freq c = Some m"
  shows "m = mul_code (freq div c)" and "2 \<le> freq div c" and "freq div c \<le> 32"
    and "freq = c * (freq div c)"
proof -
  show "m = mul_code (freq div c)" and "2 \<le> freq div c" and "freq div c \<le> 32"
    using assms by (auto simp: pll_multiplier_def mul_code_def Let_def split: if_splits)
  have "freq mod c = 0"
    using assms by (auto simp: pll_multiplier_def split: if_splits)
  then show "freq = c * (freq div c)"
    by (metis add.right_neutral mult_div_mod_eq)
qed

subsection \<open>Reading the frequencies back\<close>

definition reads_since :: "hist \<Rightarrow> hist \<Rightarrow> bool" where
  "reads_since h g \<longleftrightarrow> (\<exists>rs. g = rs @ h \<and> (\<forall>a \<in> set rs. is_rd a))"

lemma reads_since_simps [simp]:
  "reads_since h h" "reads_since h g \<Longrightarrow> reads_since h (Rd r v # g)"
  unfolding reads_since_def by (auto intro: exI [of _ "Rd r v # _"] exI [of _ "[]"])

text \<open>
  The frequencies reported when the PLL is in use, the prescaler fields of \<open>CFG\<close> are \<open>p1\<close> and
  \<open>p2\<close>, and the PLL runs from source \<open>s\<close> with output divider \<open>d\<close> and factor \<open>n\<close>.
\<close>

definition pll_output :: "u32 \<Rightarrow> u32 \<Rightarrow> u32 \<Rightarrow> u32" where
  "pll_output s d n =
     (let f = (if s = RCC_PLL_HSI_PRE_DIV1 then HSI_VALUE * n
               else if s = RCC_PLL_HSI_PRE_DIV2 then drop_bit 1 HSI_VALUE * n
               else if s = RCC_PLL_SRC_HSE_DIV1 then HSE_VALUE * n
               else drop_bit 1 HSE_VALUE * n)
      in if d \<noteq> 0 then drop_bit 1 f else f)"

lemma no_prescaler: "s_ApbAhbPresTable ! 0 = 0"
  by (simp add: s_ApbAhbPresTable_def)

lemma GetClocks_on_pll:
  assumes law: "config_law hw"
    and sts: "\<And>g. reads_since h g \<Longrightarrow> hw g RCC_CFG AND 0xC = 0xC"
    and hpre: "mem h RCC_CFG AND 0xF0 = 0"
    and ppre1: "mem h RCC_CFG AND 0x700 = p1" and ppre2: "mem h RCC_CFG AND 0x3800 = push_bit 3 p2"
    and mul: "pll_factor (mem h RCC_CFG AND 0x083C0000) = n"
    and src: "mem h RCC_CFG AND 0x10000 = s AND 0x10000" "mem h RCC_CFG AND 0x20000 = s AND 0x20000"
    and pre: "mem h RCC_PLLHSIPRE AND 1 = s AND 1" "mem h RCC_PLLHSIPRE AND 2 = d"
    and s: "s \<in> {RCC_PLL_HSI_PRE_DIV1, RCC_PLL_HSI_PRE_DIV2, RCC_PLL_SRC_HSE_DIV1, RCC_PLL_SRC_HSE_DIV2}"
  shows "\<exists>c h'. run_state (RCC_GetClocksFreqValue hw) h = (Inr c, h') \<and>
     SysclkFreq c = pll_output s d n \<and> HclkFreq c = pll_output s d n \<and>
     Pclk1Freq c = drop_bit (s_ApbAhbPresTable ! unat (drop_bit 8 p1)) (pll_output s d n) \<and>
     Pclk2Freq c = drop_bit (s_ApbAhbPresTable ! unat (drop_bit 11 (push_bit 3 p2))) (pll_output s d n)"
proof -
  have mem_g: "mem g = mem h" if "reads_since h g" for g
    using that unfolding reads_since_def by (auto simp: mem_reads)
  have cfg: "hw g RCC_CFG AND F = mem h RCC_CFG AND F" if "reads_since h g" "F AND 0xC = 0" for g F
    using config_lawD [OF law that(2)] mem_g [OF that(1)] by simp
  have hsipre: "hw g RCC_PLLHSIPRE = mem h RCC_PLLHSIPRE" if "reads_since h g" for g
    using law mem_g [OF that] by (simp add: config_law_def)
  have pll: "\<exists>g'. reads_since h g' \<and>
      run_state (pll_clock hw (s AND 0x10000) n) g = (pll_output s d n, g')"
    if g: "reads_since h g" for g
    using s g
    by (auto simp: pll_clock_def pll_output_def hsipre cfg pre src Let_def)
  let ?g3 = "Rd RCC_CTRLSTS (hw (Rd RCC_CFG (hw (Rd RCC_CFG (hw h RCC_CFG) # h) RCC_CFG) #
               Rd RCC_CFG (hw h RCC_CFG) # h) RCC_CTRLSTS) #
             Rd RCC_CFG (hw (Rd RCC_CFG (hw h RCC_CFG) # h) RCC_CFG) # Rd RCC_CFG (hw h RCC_CFG) # h"
  obtain g' where g': "reads_since h g'"
    and run: "run_state (pll_clock hw (s AND 0x10000) n) ?g3 = (pll_output s d n, g')"
    using pll [of ?g3] by auto
  show ?thesis
    using g' by (simp add: RCC_GetClocksFreqValue_def Let_def cfg src mul run sts sysclk_freq_def
        hpre ppre1 ppre2 no_prescaler del: drop_bit_and)
qed

subsection \<open>Decomposition of a successful switch\<close>

lemma SetSysClockToPLL_success:
  assumes run: "run_state (SetSysClockToPLL hw freq src) h = (Inr SUCCESS, h')"
  obtains s c d m f h1 where
    "pll_source src = Some (s, c, d)" and "pll_multiplier freq c = Some m" and
    "run_state (switch_to_pll hw s m d f)
       (aft (config_buses hw (snd (pclk_dividers freq)) (fst (pclk_dividers freq))) h1) = (SUCCESS, h')"
proof -
  obtain p1 p2 where p: "pclk_dividers freq = (p1, p2)" by fastforce
  have st: "res (start_pll_source hw src) h = SUCCESS"
    using run by (auto simp: SetSysClockToPLL_def HSE_VALUE_def run_bind split: if_splits
        simp del: run_state_bind)
  obtain s c d where psrc: "pll_source src = Some (s, c, d)"
    using run st by (auto simp: SetSysClockToPLL_def HSE_VALUE_def run_bind split: option.splits
        simp del: run_state_bind)
  let ?h1 = "aft (start_pll_source hw src) h"
  have conf: "run_state (configure_pll hw freq s c d) ?h1 = (SUCCESS, h')"
    using run st psrc
    by (auto simp: SetSysClockToPLL_def HSE_VALUE_def run_bind prod_eq_iff simp del: run_state_bind)
  obtain m where pm: "pll_multiplier freq c = Some m"
    using conf p by (auto simp: configure_pll_def run_bind Let_def
        split: option.splits simp del: run_state_bind)
  let ?h2 = "aft (ensure_msi hw) ?h1"
  let ?h3 = "aft (do { RCC_ConfigSysclk hw 0; FLASH_SetLatency hw (freq div 32000000) }) ?h2"
  let ?h4 = "aft (config_buses hw p2 p1) ?h3"
  have "run_state (switch_to_pll hw s m d (snd (res (ensure_msi hw) ?h1))) ?h4 = (SUCCESS, h')"
    using conf pm p
    by (auto simp: configure_pll_def run_bind Let_def split: if_splits simp del: run_state_bind)
  with psrc pm p show thesis by (intro that) auto
qed

lemma pll_sourceD:
  assumes "pll_source src = Some (s, c, d)"
  shows "s \<in> {RCC_PLL_HSI_PRE_DIV1, RCC_PLL_HSI_PRE_DIV2, RCC_PLL_SRC_HSE_DIV1, RCC_PLL_SRC_HSE_DIV2}"
    and "d \<in> {RCC_PLLDIVCLK_DISABLE, RCC_PLLDIVCLK_ENABLE}"
    and "n \<le> 32 \<Longrightarrow> pll_output s d n = c * n"
proof -
  show "s \<in> {RCC_PLL_HSI_PRE_DIV1, RCC_PLL_HSI_PRE_DIV2, RCC_PLL_SRC_HSE_DIV1, RCC_PLL_SRC_HSE_DIV2}"
    and "d \<in> {RCC_PLLDIVCLK_DISABLE, RCC_PLLDIVCLK_ENABLE}"
    using assms by (auto simp: pll_source_def split: if_splits)
  have half: "drop_bit 1 (2 * k * n) = k * n" if "n \<le> 32" "k \<le> 8000000" for k n :: u32
  proof -
    have b: "unat n \<le> 32" "unat k \<le> 8000000"
      using that by (simp_all add: word_le_nat_alt)
    then have kn: "unat k * unat n \<le> 8000000 * 32"
      by (intro mult_le_mono)
    then have u: "unat (k * n) = unat k * unat n"
      by (intro iffD1 [OF unat_mult_lem]) simp
    have "unat (2 * (k * n)) = 2 * (unat k * unat n)"
      using kn u iffD1 [OF unat_mult_lem, of 2 "k * n"] by simp
    then have "unat (drop_bit 1 (2 * k * n)) = unat (k * n)"
      by (simp add: u unat_drop_bit_eq drop_bit_eq_div mult.assoc unat_div)
    then show ?thesis by (simp add: word_unat_eq_iff)
  qed
  show "pll_output s d n = c * n" if "n \<le> 32"
    using assms half [OF that, of 8000000] half [OF that, of 4000000] half [OF that, of 2000000]
    by (auto simp: pll_source_def pll_output_def HSI_VALUE_def HSE_VALUE_def split: if_splits)
qed

subsection \<open>A PLL that never locks\<close>

definition never_locks :: "hardware \<Rightarrow> bool" where
  "never_locks hw \<longleftrightarrow> (\<forall>h. hw h RCC_CTRL AND 0x02000000 = 0)"

lemma mem_start [simp]: "mem (aft (start_pll_source hw src) h) RCC_CFG = mem h RCC_CFG"
  by (simp add: start_pll_source_def run_bind RCC_ConfigHsi_def RCC_ConfigHse_def RCC_WaitHsiStable_def
      RCC_WaitHseStable_def del: run_state_bind)

lemma mem_ensure [simp]: "mem (aft (ensure_msi hw) h) RCC_CFG = mem h RCC_CFG"
  by (simp add: ensure_msi_def run_bind RCC_WaitMsiStable_def run_if RCC_ConfigMsi_def
      del: run_state_bind)

lemma switch_to_pll_never_locks:
  assumes "config_law hw" and "never_locks hw" and "hsi_source s \<or> s AND 3 = 0" and "m AND 3 = 0"
  shows "res (switch_to_pll hw s m d f) h = ERROR"
    and "mem (aft (switch_to_pll hw s m d f) h) RCC_CFG AND 3 = mem h RCC_CFG AND 3"
proof -
  let ?h1 = "aft (do { RCC_EnablePll DISABLE; RCC_ConfigPll hw s m d; RCC_EnablePll ENABLE }) h"
  have fail: "res (wait_pll_ready hw) g = ERROR" for g
  proof (rule ccontr)
    assume "res (wait_pll_ready hw) g \<noteq> ERROR"
    then have "run_state (wait_pll_ready hw) g = (SUCCESS, aft (wait_pll_ready hw) g)"
      by (simp add: status_cases prod_eq_iff)
    from wait_pll_ready_success [OF this] assms(2) show False
      by (auto simp: never_locks_def)
  qed
  have run: "run_state (switch_to_pll hw s m d f) h = (ERROR, aft (wait_pll_ready hw) ?h1)"
    unfolding switch_to_pll_def by (simp add: run_bind fail del: run_state_bind)
  then show "res (switch_to_pll hw s m d f) h = ERROR" by simp
  have c3: "hw g RCC_CFG AND 3 = mem g RCC_CFG AND 3" for g
    by (rule config_lawD [OF assms(1)]) simp
  show "mem (aft (switch_to_pll hw s m d f) h) RCC_CFG AND 3 = mem h RCC_CFG AND 3"
    using assms(3,4)
    by (auto simp: run RCC_EnablePll_def RCC_ConfigPll_def hsi_source_def Let_def
        bit.conj_disj_distrib2 and.assoc c3)
qed

end
