(* ===== verification/ClockSafety.thy ===== *)
theory ClockSafety
  imports ClockLaws
begin

text \<open>
  The order of accesses in the clock functions, on any hardware whatsoever: a clock source is
  selected only after its ready flag has been read as set.
\<close>

subsection \<open>The ordering rule\<close>

text \<open>The last access to \<open>r\<close> is a read that returned a value with a bit of \<open>m\<close>.\<close>

fun ready_seen :: "reg \<Rightarrow> u32 \<Rightarrow> hist \<Rightarrow> bool" where
  "ready_seen r m [] = False"
| "ready_seen r m (Rd q v # h) = (if q = r then v AND m \<noteq> 0 else ready_seen r m h)"
| "ready_seen r m (Wr q v # h) = (q \<noteq> r \<and> ready_seen r m h)"
| "ready_seen r m (Bb q n v # h) = (q \<noteq> r \<and> ready_seen r m h)"
| "ready_seen r m (Log l t s # h) = ready_seen r m h"

fun last_read :: "reg \<Rightarrow> hist \<Rightarrow> u32 option" where
  "last_read r [] = None"
| "last_read r (Rd q v # h) = (if q = r then Some v else last_read r h)"
| "last_read r (Wr q v # h) = last_read r h"
| "last_read r (Bb q n v # h) = last_read r h"
| "last_read r (Log l t s # h) = last_read r h"

definition source_ready :: "u32 \<Rightarrow> hist \<Rightarrow> bool" where
  "source_ready sw h =
     (if sw = RCC_SYSCLK_SRC_MSI then ready_seen RCC_CTRLSTS 0x8 h
      else if sw = RCC_SYSCLK_SRC_HSI then ready_seen RCC_CTRL 0x2 h
      else if sw = RCC_SYSCLK_SRC_HSE then ready_seen RCC_CTRL 0x20000 h
      else ready_seen RCC_CTRL 0x2000000 h)"

text \<open>
  Every write of \<open>CFG\<close> either keeps the selection that was last read or selects a source that was
  seen to be ready.
\<close>

fun ordered :: "hist \<Rightarrow> bool" where
  "ordered [] = True"
| "ordered (Wr r v # h) =
     (ordered h \<and> (r = RCC_CFG \<longrightarrow>
        (\<exists>c. last_read RCC_CFG h = Some c \<and> c AND 3 = v AND 3) \<or> source_ready (v AND 3) h))"
| "ordered (Bb r n v # h) = (ordered h \<and> \<not> (r = RCC_CFG \<and> n < 2))"
| "ordered (Rd r v # h) = ordered h"
| "ordered (Log l t s # h) = ordered h"

definition keeps :: "'a io \<Rightarrow> bool" where
  "keeps p \<longleftrightarrow> (\<forall>h. ordered h \<longrightarrow> ordered (aft p h))"

named_theorems keeps_intros

lemma keepsD: "keeps p \<Longrightarrow> ordered h \<Longrightarrow> ordered (aft p h)"
  by (simp add: keeps_def)

lemma keeps_bind [keeps_intros]:
  "keeps p \<Longrightarrow> (\<And>x. keeps (q x)) \<Longrightarrow> keeps (State_Monad.bind p q)"
  by (simp add: keeps_def run_bind del: run_state_bind)

lemma keeps_ret [keeps_intros]: "keeps (ret x)"
  by (simp add: keeps_def)

lemma keeps_skip [keeps_intros]: "keeps skip"
  by (simp add: keeps_def)

lemma keeps_if [keeps_intros]: "keeps p \<Longrightarrow> keeps q \<Longrightarrow> keeps (if c then p else q)"
  by simp

lemma ordered_reads: "\<forall>a \<in> set rs. is_rd a \<Longrightarrow> ordered (rs @ h) = ordered h"
  by (induction rs) (auto simp: is_rd_def split: access.splits)

lemma keeps_reads: "reads_only p \<Longrightarrow> keeps p"
  unfolding keeps_def by (metis ordered_reads prod.collapse reads_onlyE)

lemma keeps_prims [keeps_intros]:
  "r \<noteq> RCC_CFG \<Longrightarrow> keeps (wr r v)"
  "r \<noteq> RCC_CFG \<Longrightarrow> keeps (and_reg hw r v)"
  "r \<noteq> RCC_CFG \<Longrightarrow> keeps (or_reg hw r v)"
  "r \<noteq> RCC_CFG \<Longrightarrow> keeps (bb r n v)"
  "keeps (rd hw r)"
  "keeps (log_msg l t s)"
  by (simp_all add: keeps_def)

lemma and3_keep: "m AND 3 = 3 \<Longrightarrow> v AND 3 = 0 \<Longrightarrow> (c AND m OR v) AND 3 = c AND 3" for c m v :: u32
  by (simp add: bit.conj_disj_distrib2 and.assoc)

lemma keeps_set_field:
  "m AND 3 = 3 \<Longrightarrow> v AND 3 = 0 \<Longrightarrow> keeps (set_field hw RCC_CFG m v)"
  by (simp add: keeps_def and3_keep)

lemma keeps_waits [keeps_intros]:
  "keeps (wait_sysclk hw s)" "keeps (wait_pll_ready hw)" "keeps (wait_stable hw f n)"
  "keeps (RCC_GetFlagStatus hw f)" "keeps (ucid_among hw rs)" "keeps (RCC_WaitMsiStable hw)"
  "keeps (RCC_WaitHsiStable hw)" "keeps (RCC_WaitHseStable hw)"
  by (simp_all add: keeps_reads RCC_WaitMsiStable_def RCC_WaitHsiStable_def RCC_WaitHseStable_def)

lemma keeps_drivers [keeps_intros]:
  "keeps (FLASH_SetLatency hw l)" "keeps (FLASH_PrefetchBufSet hw l)"
  "keeps (RCC_ConfigMsi hw a r)" "keeps (RCC_EnablePll c)" "keeps (RCC_ConfigHse hw a)"
  "keeps (RCC_ConfigHsi hw a)" "keeps (RCC_EnableHsi c)" "keeps (RCC_EnableClockSecuritySystem c)"
  unfolding FLASH_SetLatency_def FLASH_PrefetchBufSet_def RCC_ConfigMsi_def RCC_EnablePll_def
    RCC_ConfigHse_def RCC_ConfigHsi_def RCC_EnableHsi_def RCC_EnableClockSecuritySystem_def
  by (intro keeps_intros; simp)+

lemma keeps_buses:
  assumes "bus_div p1" and "bus_div p2"
  shows "keeps (config_buses hw p2 p1)"
  using assms unfolding config_buses_def bus_div_def
  by (auto intro!: keeps_intros keeps_set_field
      simp: RCC_ConfigHclk_def RCC_ConfigPclk1_def RCC_ConfigPclk2_def)

lemma keeps_buses1 [keeps_intros]: "keeps (config_buses hw 0 0)"
  by (rule keeps_buses) (simp_all add: bus_div_def)

lemma keeps_ConfigPll [keeps_intros]:
  assumes "s \<in> {RCC_PLL_HSI_PRE_DIV1, RCC_PLL_HSI_PRE_DIV2} \<or> s AND 3 = 0" and "m AND 3 = 0"
  shows "keeps (RCC_ConfigPll hw s m d)"
  using assms
  by (auto simp: keeps_def RCC_ConfigPll_def Let_def bit.conj_disj_distrib2 and.assoc)

text \<open>Selecting a source that was seen to be ready.\<close>

lemma ordered_ConfigSysclk:
  assumes "ordered h" and "source_ready src h" and "src AND 3 = src"
  shows "ordered (aft (RCC_ConfigSysclk hw src) h)"
proof -
  have "(hw h RCC_CFG AND 0xFFFFFFFC OR src) AND 3 = src"
    using assms(3) by (simp add: bit.conj_disj_distrib2 and.assoc)
  moreover have "source_ready src (Rd RCC_CFG (hw h RCC_CFG) # h)"
    using assms(2) by (simp add: source_ready_def)
  ultimately show ?thesis
    using assms(1) by (simp add: RCC_ConfigSysclk_def)
qed

subsection \<open>Triples over ordered histories\<close>

definition ord :: "(hist \<Rightarrow> bool) \<Rightarrow> 'a io \<Rightarrow> ('a \<Rightarrow> hist \<Rightarrow> bool) \<Rightarrow> bool" where
  "ord P p Q \<longleftrightarrow> (\<forall>h. ordered h \<and> P h \<longrightarrow> ordered (aft p h) \<and> Q (res p h) (aft p h))"

lemma ord_bind:
  "ord P p R \<Longrightarrow> (\<And>x. ord (R x) (q x) Q) \<Longrightarrow> ord P (State_Monad.bind p q) Q"
  by (simp add: ord_def run_bind del: run_state_bind)

lemma ord_keeps: "keeps p \<Longrightarrow> ord P p (\<lambda>x h. True)"
  by (simp add: ord_def keeps_def)

lemma keeps_ord: "ord (\<lambda>h. True) p Q \<Longrightarrow> keeps p"
  by (simp add: ord_def keeps_def)

lemma ord_if:
  "(c \<Longrightarrow> ord P p Q) \<Longrightarrow> (\<not> c \<Longrightarrow> ord P q Q) \<Longrightarrow> ord P (if c then p else q) Q"
  by simp

lemma ord_pre: "ord R p Q \<Longrightarrow> (\<And>h. P h \<Longrightarrow> R h) \<Longrightarrow> ord P p Q"
  by (auto simp: ord_def)

lemma ord_ConfigSysclk:
  "src AND 3 = src \<Longrightarrow> ord (source_ready src) (RCC_ConfigSysclk hw src) (\<lambda>x h. True)"
  by (simp add: ord_def ordered_ConfigSysclk)

text \<open>A program that keeps the readiness seen at \<open>r\<close>.\<close>

definition steady :: "reg \<Rightarrow> 'a io \<Rightarrow> bool" where
  "steady r p \<longleftrightarrow> (\<forall>m h. ready_seen r m h \<longrightarrow> ready_seen r m (aft p h))"

lemma ord_steady:
  "keeps p \<Longrightarrow> steady r p \<Longrightarrow> ord (ready_seen r m) p (\<lambda>x. ready_seen r m)"
  by (simp add: ord_def keeps_def steady_def)

lemma steady_prefetch: "r \<noteq> FLASH_AC \<Longrightarrow> steady r (FLASH_PrefetchBufSet hw l)"
  by (simp add: steady_def FLASH_PrefetchBufSet_def)

lemma steady_ucid: "r \<noteq> UCID_2 \<Longrightarrow> steady r (ucid_among hw rs)"
proof (induction rs)
  case (Cons a rs)
  then show ?case by (auto simp: steady_def run_bind simp del: run_state_bind)
qed (simp add: steady_def)

text \<open>Successful waits have seen the flag.\<close>

lemma wait_stable_ready:
  assumes "drop_bit 5 f = 1 \<and> r = RCC_CTRL \<or> drop_bit 5 f = 3 \<and> r = RCC_CTRLSTS"
    and "m = push_bit (unat (f AND 0x1F)) 1"
  shows "ord P (wait_stable hw f n) (\<lambda>x h. x = SUCCESS \<longrightarrow> ready_seen r m h)"
proof -
  have "keeps (wait_stable hw f n)" by (rule keeps_intros)
  moreover have "ready_seen r m (aft (wait_stable hw f n) h)"
    if "res (wait_stable hw f n) h = SUCCESS" for h
    using that assms
    by (auto simp: wait_stable_def run_bind RCC_GetFlagStatus_def Let_def split: if_splits
        simp del: run_state_bind)
  ultimately show ?thesis by (simp add: ord_def keeps_def)
qed

lemma waits_ready:
  "ord P (RCC_WaitHseStable hw) (\<lambda>x h. x = SUCCESS \<longrightarrow> ready_seen RCC_CTRL 0x20000 h)"
  "ord P (RCC_WaitHsiStable hw) (\<lambda>x h. x = SUCCESS \<longrightarrow> ready_seen RCC_CTRL 0x2 h)"
  "ord P (RCC_WaitMsiStable hw) (\<lambda>x h. x = SUCCESS \<longrightarrow> ready_seen RCC_CTRLSTS 0x8 h)"
  unfolding RCC_WaitHseStable_def RCC_WaitHsiStable_def RCC_WaitMsiStable_def
  by (rule wait_stable_ready; simp)+

lemma wait_pll_ready_seen:
  "ord P (wait_pll_ready hw) (\<lambda>x h. x = SUCCESS \<longrightarrow> ready_seen RCC_CTRL 0x2000000 h)"
proof -
  have "ready_seen RCC_CTRL 0x2000000 (aft (wait_pll_ready hw) h)"
    if "res (wait_pll_ready hw) h = SUCCESS" for h
    using wait_pll_ready_success [of hw h "aft (wait_pll_ready hw) h"] that
    by (auto simp: prod_eq_iff)
  moreover have "keeps (wait_pll_ready hw)" by (rule keeps_intros)
  ultimately show ?thesis by (simp add: ord_def keeps_def)
qed

lemma msi_flag_ready:
  "ord P (RCC_GetFlagStatus hw 0x63) (\<lambda>x h. x = SET \<longrightarrow> ready_seen RCC_CTRLSTS 0x8 h)"
  using keeps_waits(4) [of hw "0x63"] by (simp add: ord_def keeps_def run_GetFlagStatus_msi)

subsection \<open>The clock functions are ordered\<close>

lemma ensure_msi_ready:
  "ord P (ensure_msi hw) (\<lambda>x h. fst x = SUCCESS \<longrightarrow> ready_seen RCC_CTRLSTS 0x8 h)"
proof -
  have wait: "ord (\<lambda>h. True) (State_Monad.bind (RCC_WaitMsiStable hw)
      (\<lambda>st. ret (if st \<noteq> SUCCESS then (ERROR, RESET) else (SUCCESS, SET))))
      (\<lambda>x h. fst x = SUCCESS \<longrightarrow> ready_seen RCC_CTRLSTS 0x8 h)"
    by (rule ord_bind [OF waits_ready(3)]) (auto simp: ord_def)
  show ?thesis
    unfolding ensure_msi_def
    by (rule ord_bind [OF msi_flag_ready], rule ord_if,
        rule ord_bind [OF ord_keeps], rule keeps_intros, rule wait) (auto simp: ord_def status_cases)
qed

lemma switch_to_pll_ordered [keeps_intros]:
  assumes "s \<in> {RCC_PLL_HSI_PRE_DIV1, RCC_PLL_HSI_PRE_DIV2} \<or> s AND 3 = 0" and "m AND 3 = 0"
  shows "keeps (switch_to_pll hw s m d f)"
proof (rule keeps_ord)
  have sel: "ord (source_ready 3) (RCC_ConfigSysclk hw 3) (\<lambda>x h. True)"
    by (rule ord_ConfigSysclk) simp
  have rest: "keeps (do {
      sw \<leftarrow> wait_sysclk hw 0x0C;
      if sw = ERROR then ret ERROR
      else do {
        (if f = SET then RCC_ConfigMsi hw RCC_MSI_DISABLE RCC_MSI_RANGE_4M else skip);
        ret SUCCESS
      } })"
    by (intro keeps_intros)
  show "ord (\<lambda>h. True) (switch_to_pll hw s m d f) (\<lambda>x h. True)"
    unfolding switch_to_pll_def
    by (intro ord_bind [OF ord_keeps, of "RCC_EnablePll _"] ord_bind [OF ord_keeps, of "RCC_ConfigPll hw s m d"]
          ord_bind [OF wait_pll_ready_seen] ord_if ord_bind [OF ord_pre [OF sel]] ord_keeps [OF rest]
          keeps_intros keeps_ConfigPll assms ord_keeps [OF keeps_ret])
      (auto simp: source_ready_def status_cases)
qed

lemma SetSysClockToMSI_ordered [keeps_intros]: "keeps (SetSysClockToMSI hw)"
proof (rule keeps_ord)
  have sel: "ord (source_ready 0) (RCC_ConfigSysclk hw 0) (\<lambda>x h. True)"
    by (rule ord_ConfigSysclk) simp
  have start: "ord (\<lambda>h. f = SET \<longrightarrow> ready_seen RCC_CTRLSTS 0x8 h)
      (if f = RESET then do {
         RCC_ConfigMsi hw RCC_MSI_ENABLE RCC_MSI_RANGE_4M;
         RCC_WaitMsiStable hw
       } else ret SUCCESS) (\<lambda>x h. x = SUCCESS \<longrightarrow> ready_seen RCC_CTRLSTS 0x8 h)" for f
    by (intro ord_if ord_bind [OF ord_keeps] keeps_intros waits_ready)
      (auto simp: ord_def status_cases)
  have rest: "keeps (do {
      sw \<leftarrow> wait_sysclk hw 0x00;
      if sw = ERROR then ret ERROR
      else do { FLASH_SetLatency hw 0; config_buses hw RCC_HCLK_DIV1 RCC_HCLK_DIV1; ret SUCCESS } })"
    by (intro keeps_intros)
  show "ord (\<lambda>h. True) (SetSysClockToMSI hw) (\<lambda>x h. True)"
    unfolding SetSysClockToMSI_def
    by (intro ord_bind [OF msi_flag_ready] ord_bind [OF start] ord_if ord_keeps [OF keeps_ret]
          ord_bind [OF ord_pre [OF ord_steady [where r = RCC_CTRLSTS and m = "0x8"]]]
          ord_bind [OF ord_pre [OF sel]] ord_keeps [OF rest] keeps_intros steady_prefetch)
      (auto simp: source_ready_def status_cases)
qed

lemma sysclk_via_pll_ordered [keeps_intros]:
  assumes "s = RCC_PLL_HSI_PRE_DIV2 \<or> s AND 3 = 0"
  shows "keeps (sysclk_via_pll hw s)"
proof (rule keeps_ord)
  have sel: "ord (source_ready 0) (RCC_ConfigSysclk hw 0) (\<lambda>x h. True)"
    by (rule ord_ConfigSysclk) simp
  show "ord (\<lambda>h. True) (sysclk_via_pll hw s) (\<lambda>x h. True)"
    unfolding sysclk_via_pll_def
    by (intro ord_bind [OF ensure_msi_ready] ord_if ord_bind [OF ord_pre [OF sel]]
          ord_keeps [OF keeps_ret] ord_keeps [OF switch_to_pll_ordered])
      (use assms in \<open>auto simp: source_ready_def status_cases\<close>)
qed

text \<open>HSI and HSE share the shape: wait, prefetch, select directly or through the PLL.\<close>

lemma oscillator_ordered:
  assumes "s = RCC_PLL_HSI_PRE_DIV2 \<or> s AND 3 = 0" and "src AND 3 = src"
    and ready: "\<And>h. ready_seen RCC_CTRL m h \<Longrightarrow> source_ready src h"
  shows "ord (ready_seen RCC_CTRL m) (sysclk_from_oscillator hw s src sts) (\<lambda>x h. True)"
proof -
  have direct: "ord (ready_seen RCC_CTRL m)
      (do { RCC_ConfigSysclk hw src; wait_sysclk hw sts }) (\<lambda>x h. True)"
    by (intro ord_bind [OF ord_pre [OF ord_ConfigSysclk [OF assms(2)]]] ready ord_keeps keeps_intros)
  show ?thesis
    unfolding sysclk_from_oscillator_def
    by (intro ord_bind [OF ord_steady [where r = RCC_CTRL and m = m]] keeps_intros steady_ucid
          ord_if direct ord_keeps [OF sysclk_via_pll_ordered] assms(1)) simp
qed

lemma SetSysClockToHSI_ordered [keeps_intros]: "keeps (SetSysClockToHSI hw)"
proof (rule keeps_ord)
  have osc: "ord (ready_seen RCC_CTRL 0x2) (sysclk_from_oscillator hw 1 1 0x04) (\<lambda>x h. True)"
    by (rule oscillator_ordered) (simp_all add: source_ready_def)
  show "ord (\<lambda>h. True) (SetSysClockToHSI hw) (\<lambda>x h. True)"
    unfolding SetSysClockToHSI_def
    by (intro ord_bind [OF ord_keeps, of "RCC_EnableHsi _"] ord_bind [OF waits_ready(2)] ord_if
          ord_bind [OF ord_pre [OF ord_steady [where r = RCC_CTRL and m = "0x2"]]] ord_bind [OF osc]
          ord_keeps keeps_intros steady_prefetch) auto
qed

lemma SetSysClockToHSE_ordered [keeps_intros]: "keeps (SetSysClockToHSE hw)"
proof (rule keeps_ord)
  have osc: "ord (ready_seen RCC_CTRL 0x20000) (sysclk_from_oscillator hw 0x30000 2 0x08) (\<lambda>x h. True)"
    by (rule oscillator_ordered) (simp_all add: source_ready_def)
  show "ord (\<lambda>h. True) (SetSysClockToHSE hw) (\<lambda>x h. True)"
    unfolding SetSysClockToHSE_def
    by (intro ord_bind [OF ord_keeps, of "RCC_ConfigHse hw _"] ord_bind [OF waits_ready(1)] ord_if
          ord_bind [OF ord_pre [OF ord_steady [where r = RCC_CTRL and m = "0x20000"]]] ord_bind [OF osc]
          ord_keeps keeps_intros steady_prefetch) auto
qed

lemma SetSysClockToPLL_ordered [keeps_intros]: "keeps (SetSysClockToPLL hw freq src)"
proof -
  have start: "keeps (start_pll_source hw src)"
    unfolding start_pll_source_def by (intro keeps_intros)
  have go: "keeps (do {
      m \<leftarrow> ensure_msi hw;
      if fst m = ERROR then ret ERROR
      else do {
        RCC_ConfigSysclk hw RCC_SYSCLK_SRC_MSI;
        FLASH_SetLatency hw latency;
        config_buses hw p2 p1;
        switch_to_pll hw s k d (snd m)
      } })"
    if "s \<in> {RCC_PLL_HSI_PRE_DIV1, RCC_PLL_HSI_PRE_DIV2} \<or> s AND 3 = 0" "k AND 3 = 0"
      "bus_div p1" "bus_div p2" for latency p1 p2 s k d
  proof (rule keeps_ord)
    have sel: "ord (source_ready 0) (RCC_ConfigSysclk hw 0) (\<lambda>x h. True)"
      by (rule ord_ConfigSysclk) simp
    have rest: "keeps (do {
        FLASH_SetLatency hw latency;
        config_buses hw p2 p1;
        switch_to_pll hw s k d f })" for f
      by (intro keeps_intros keeps_buses that)
    show "ord (\<lambda>h. True) (do {
      m \<leftarrow> ensure_msi hw;
      if fst m = ERROR then ret ERROR
      else do {
        RCC_ConfigSysclk hw RCC_SYSCLK_SRC_MSI;
        FLASH_SetLatency hw latency;
        config_buses hw p2 p1;
        switch_to_pll hw s k d (snd m)
      } }) (\<lambda>x h. True)"
      by (intro ord_bind [OF ensure_msi_ready] ord_if ord_bind [OF ord_pre [OF sel]]
            ord_keeps [OF rest] ord_keeps [OF keeps_ret])
        (auto simp: source_ready_def status_cases)
  qed
  have conf: "keeps (configure_pll hw freq s c d)" if psrc: "pll_source src = Some (s, c, d)" for s c d
  proof -
    obtain p1 p2 where p: "pclk_dividers freq = (p1, p2)" by fastforce
    have bd: "bus_div p1" "bus_div p2"
      using pclk_dividers_bus_div [of freq] p by simp_all
    have s: "s \<in> {RCC_PLL_HSI_PRE_DIV1, RCC_PLL_HSI_PRE_DIV2} \<or> s AND 3 = 0"
      using pll_sourceD(1) [OF psrc] by auto
    show ?thesis
    proof (cases "pll_multiplier freq c")
      case None
      with p show ?thesis by (simp add: configure_pll_def keeps_intros)
    next
      case (Some k)
      have "k AND 3 = 0"
        using mul_code_facts(2) [OF pll_multiplierD(2,3) [OF Some]] pll_multiplierD(1) [OF Some]
        by (auto intro: and_zero_sub)
      from go [OF s this bd] show ?thesis
        using Some p by (simp add: configure_pll_def)
    qed
  qed
  have "keeps (case pll_source src of None \<Rightarrow> ret (Inl (Uninitialised ''pllsrcclk''))
      | Some (s, c, d) \<Rightarrow> do { st \<leftarrow> configure_pll hw freq s c d; ret (Inr st) })"
    using conf by (auto split: option.splits intro!: keeps_intros)
  with start show ?thesis
    unfolding SetSysClockToPLL_def by (intro keeps_intros)
qed

lemma keeps_bindS [keeps_intros]:
  "keeps p \<Longrightarrow> (\<And>x. keeps (q x)) \<Longrightarrow> keeps (bindS p q)"
  unfolding bindS_def by (rule keeps_bind) (auto split: sum.splits intro: keeps_ret)

lemma DumpClock_ordered [keeps_intros]: "keeps (dri_ClockConfig_DumpClock hw msg)"
  unfolding dri_ClockConfig_DumpClock_def
  by (intro keeps_intros keeps_reads reads_only_GetClocks)

lemma report_ordered [keeps_intros]: "keeps (report r a b)"
  unfolding report_def by (intro keeps_intros)

lemma dri_ClockConfig_Init_ordered: "keeps (dri_ClockConfig_Init hw)"
  unfolding dri_ClockConfig_Init_def by (intro keeps_intros)

end
