(* ===== verification/ClockBound.thy ===== *)
theory ClockBound
  imports ClockLaws
begin

text \<open>
  The clock functions return on every hardware: the number of their register accesses is bounded,
  whatever the status bits do.
\<close>

definition cost :: "'a io \<Rightarrow> nat \<Rightarrow> bool" where
  "cost p n \<longleftrightarrow> (\<forall>h. length (aft p h) \<le> length h + n)"

named_theorems cost_intros

lemma costD: "cost p n \<Longrightarrow> length (aft p h) \<le> length h + n"
  by (simp add: cost_def)

lemma cost_mono: "cost p m \<Longrightarrow> m \<le> n \<Longrightarrow> cost p n"
  unfolding cost_def by (meson add_left_mono order_trans)

lemma cost_bind [cost_intros]:
  assumes "cost p m" and "\<And>x. cost (q x) n"
  shows "cost (State_Monad.bind p q) (m + n)"
  unfolding cost_def
proof
  fix h
  have "length (aft (State_Monad.bind p q) h) \<le> length (aft p h) + n"
    using costD [OF assms(2)] by (simp add: run_bind del: run_state_bind)
  with costD [OF assms(1), of h] show "length (aft (State_Monad.bind p q) h) \<le> length h + (m + n)"
    by simp
qed

lemma cost_if [cost_intros]: "cost p m \<Longrightarrow> cost q n \<Longrightarrow> cost (if c then p else q) (max m n)"
  by (auto intro: cost_mono)

lemma cost_prims [cost_intros]:
  "cost (ret x) 0" "cost skip 0" "cost (rd hw r) 1" "cost (wr r v) 1" "cost (bb r n v) 1"
  "cost (and_reg hw r v) 2" "cost (or_reg hw r v) 2" "cost (set_field hw r m v) 2"
  "cost (log_msg l t s) 1"
  by (simp_all add: cost_def)

lemma cost_poll_down [cost_intros]: "cost t k \<Longrightarrow> cost (poll_down t n) (Suc n * k)"
proof (induction n)
  case 0
  then show ?case by (auto intro: cost_mono [OF cost_bind] cost_prims)
next
  case (Suc n)
  have "cost (State_Monad.bind t (\<lambda>ok. if ok then ret SUCCESS else poll_down t n)) (k + Suc n * k)"
    using Suc by (intro cost_bind) (auto intro: cost_mono [OF cost_prims(1)])
  then show ?case by simp
qed

lemma cost_poll_up [cost_intros]: "cost t k \<Longrightarrow> cost (poll_up t n) (n * k)"
proof (induction n)
  case 0
  then show ?case by (simp add: cost_prims)
next
  case (Suc n)
  have "cost (State_Monad.bind t (\<lambda>st. if n = 0 \<or> st = SET then ret () else poll_up t n)) (k + n * k)"
    using Suc by (intro cost_bind) (auto intro: cost_mono [OF cost_prims(1)])
  then show ?case by simp
qed

lemma cost_flag [cost_intros]: "cost (RCC_GetFlagStatus hw f) 1"
  by (simp add: cost_def RCC_GetFlagStatus_def Let_def)

lemma cost_wait_stable: "cost (wait_stable hw f n) (n + 1)"
  unfolding wait_stable_def
  by (rule cost_mono, rule cost_intros, rule cost_poll_up [OF cost_flag], rule cost_bind [OF cost_flag],
      rule cost_prims) simp

lemma cost_polls [cost_intros]:
  "cost (wait_sysclk hw s) 0x1000000" "cost (wait_pll_ready hw) 0x1000000"
proof -
  have "cost (do { s' \<leftarrow> RCC_GetSysclkSrc hw; ret (s' = s) }) 1"
    by (simp add: cost_def run_GetSysclkSrc)
  from cost_poll_down [OF this, of SYSCLK_TIMEOUT]
  show "cost (wait_sysclk hw s) 0x1000000"
    unfolding wait_sysclk_def by (rule cost_mono) (simp add: SYSCLK_TIMEOUT_def)
  have "cost (do { f \<leftarrow> RCC_GetFlagStatus hw RCC_CTRL_FLAG_PLLRDF; ret (f \<noteq> RESET) }) 1"
    by (simp add: cost_def run_GetFlagStatus_pll)
  from cost_poll_down [OF this, of SYSCLK_TIMEOUT]
  show "cost (wait_pll_ready hw) 0x1000000"
    unfolding wait_pll_ready_def by (rule cost_mono) (simp add: SYSCLK_TIMEOUT_def)
qed

lemma cost_oscillators [cost_intros]:
  "cost (RCC_WaitHseStable hw) 0x2001" "cost (RCC_WaitHsiStable hw) 0x501"
  "cost (RCC_WaitMsiStable hw) 0x501"
  unfolding RCC_WaitHseStable_def RCC_WaitHsiStable_def RCC_WaitMsiStable_def
  by (rule cost_mono [OF cost_wait_stable],
      simp add: HSE_STARTUP_TIMEOUT_def HSI_STARTUP_TIMEOUT_def MSI_STARTUP_TIMEOUT_def)+

lemma cost_drivers [cost_intros]:
  "cost (RCC_ConfigMsi hw a b) 6" "cost (RCC_ConfigHse hw a) 6" "cost (RCC_ConfigHsi hw a) 4"
  "cost (RCC_EnableHsi c) 1" "cost (RCC_EnablePll c) 1" "cost (RCC_ConfigPll hw s m d) 4"
  "cost (RCC_ConfigSysclk hw src) 2" "cost (FLASH_SetLatency hw l) 2"
  "cost (FLASH_PrefetchBufSet hw l) 4" "cost (config_buses hw p2 p1) 6"
  by (simp_all add: cost_def RCC_ConfigMsi_def RCC_ConfigHse_def RCC_ConfigHsi_def RCC_EnableHsi_def
      RCC_EnablePll_def RCC_ConfigPll_def RCC_ConfigSysclk_def FLASH_SetLatency_def
      FLASH_PrefetchBufSet_def config_buses_def RCC_ConfigHclk_def RCC_ConfigPclk1_def
      RCC_ConfigPclk2_def Let_def)

lemma cost_ucid [cost_intros]: "cost (ucid_among hw rs) (length rs)"
proof (induction rs)
  case Nil
  then show ?case by (simp add: cost_prims)
next
  case (Cons r rs)
  have "cost (State_Monad.bind (rd hw UCID_2)
          (\<lambda>v. if (ucast v :: u8) = r then ret True else ucid_among hw rs)) (1 + length rs)"
    using Cons by (intro cost_bind cost_prims) (auto intro: cost_mono [OF cost_prims(1)])
  then show ?case by simp
qed

lemma cost_ensure [cost_intros]: "cost (ensure_msi hw) 0x508"
  unfolding ensure_msi_def by (rule cost_mono, (rule cost_intros)+) simp

lemma cost_switch [cost_intros]: "cost (switch_to_pll hw s m d f) 0x2000100"
  unfolding switch_to_pll_def by (rule cost_mono, (rule cost_intros)+) simp

lemma cost_via_pll [cost_intros]: "cost (sysclk_via_pll hw s) 0x2000700"
  unfolding sysclk_via_pll_def by (rule cost_mono, (rule cost_intros)+) simp

lemma cost_from_oscillator [cost_intros]: "cost (sysclk_from_oscillator hw s src sts) 0x2000800"
  unfolding sysclk_from_oscillator_def
  by (rule cost_mono, (rule cost_intros)+) (simp add: direct_revisions_def)

lemma cost_functions:
  "cost (SetSysClockToMSI hw) 0x1000600" "cost (SetSysClockToHSI hw) 0x2001000"
  "cost (SetSysClockToHSE hw) 0x2003000"
  unfolding SetSysClockToMSI_def SetSysClockToHSI_def SetSysClockToHSE_def
  by (rule cost_mono, (rule cost_intros)+, simp)+

lemma cost_configure_pll: "cost (configure_pll hw freq s c d) 0x2000800"
proof (cases "pll_multiplier freq c")
  case None
  then show ?thesis
    unfolding configure_pll_def Let_def case_prod_unfold option.case
    by simp (rule cost_mono, (rule cost_intros)+, simp)
next
  case (Some m)
  then show ?thesis
    unfolding configure_pll_def Let_def case_prod_unfold
    by simp (rule cost_mono, (rule cost_intros)+, simp)
qed

lemma cost_start [cost_intros]: "cost (start_pll_source hw src) 0x2100"
  unfolding start_pll_source_def by (rule cost_mono, (rule cost_intros)+) simp

lemma cost_pll: "cost (SetSysClockToPLL hw freq src) 0x2003000"
proof -
  have "cost (case pll_source src of None \<Rightarrow> ret (Inl (Uninitialised ''pllsrcclk''))
      | Some (s, c, d) \<Rightarrow> do { st \<leftarrow> configure_pll hw freq s c d; ret (Inr st) }) 0x2000800"
    by (auto split: option.splits intro: cost_mono [OF cost_prims(1)]
        cost_mono [OF cost_bind [OF cost_configure_pll cost_prims(1)]])
  then show ?thesis
    unfolding SetSysClockToPLL_def
    by (rule cost_mono [OF cost_if [OF cost_prims(1) cost_bind [OF cost_start cost_if [OF cost_prims(1)]]]])
      simp
qed

end
