(* ===== verification/ClockProps.thy ===== *)
theory ClockProps
  imports ClockSafety ClockBound
begin

text \<open>Properties of the clock configuration.\<close>

subsection \<open>A hardware for the witnesses\<close>

text \<open>
  Registers keep what is written, every oscillator and the PLL are ready at once, and the clock
  switch follows its selection at once; the chip revision byte is zero.
\<close>

definition prompt_hw :: hardware where
  "prompt_hw h r =
     (if r = RCC_CFG then mem h RCC_CFG AND NOT 0xC OR push_bit 2 (mem h RCC_CFG AND 3)
      else if r = RCC_CTRL then mem h RCC_CTRL OR 0x02020002
      else if r = RCC_CTRLSTS then mem h RCC_CTRLSTS OR 0x8
      else mem h r)"

lemma prompt_config_law: "config_law prompt_hw"
  by (simp add: config_law_def prompt_hw_def bit.conj_disj_distrib2 and.assoc push_bit_and)

lemma mem_quiet: "\<forall>a \<in> set q. quiet a \<Longrightarrow> mem (q @ h) RCC_CFG = mem h RCC_CFG"
  by (induction q) (auto simp: quiet_def split: access.splits)

lemma prompt_status_law: "pll_status_law prompt_hw"
  by (simp add: pll_status_law_def prompt_hw_def mem_quiet)

lemma pll_valid_returns:
  assumes "pll_source src \<noteq> None"
  shows "\<exists>r. res (SetSysClockToPLL hw freq src) h = Inr r"
  using assms by (auto simp: SetSysClockToPLL_def run_bind simp del: run_state_bind)

lemma poll_down_now: "res t h \<Longrightarrow> res (poll_down t n) h = SUCCESS"
  by (cases n) (simp_all add: run_bind del: run_state_bind)

lemma prompt_waits:
  "res (RCC_WaitHseStable prompt_hw) h = SUCCESS"
  "res (RCC_WaitHsiStable prompt_hw) h = SUCCESS"
  "res (wait_pll_ready prompt_hw) h = SUCCESS"
  by (simp_all add: RCC_WaitHseStable_def RCC_WaitHsiStable_def wait_stable_def run_bind
      RCC_GetFlagStatus_def Let_def wait_pll_ready_def poll_down_now prompt_hw_def
      bit.conj_disj_distrib2 del: run_state_bind)

lemma prompt_ensure: "fst (res (ensure_msi prompt_hw) h) = SUCCESS"
  by (simp add: ensure_msi_def run_bind run_GetFlagStatus_msi prompt_hw_def bit.conj_disj_distrib2
      del: run_state_bind)

lemma prompt_sysclk_pll: "mem h RCC_CFG AND 3 = 3 \<Longrightarrow> res (wait_sysclk prompt_hw 0x0C) h = SUCCESS"
  unfolding wait_sysclk_def
  by (rule poll_down_now) (simp add: run_bind run_GetSysclkSrc prompt_hw_def bit.conj_disj_distrib2
      and.assoc del: run_state_bind)

lemma prompt_switch: "res (switch_to_pll prompt_hw s m d f) h = SUCCESS"
  by (simp add: switch_to_pll_def run_bind prompt_waits prompt_sysclk_pll RCC_ConfigSysclk_def
      prompt_hw_def bit.conj_disj_distrib2 and.assoc del: run_state_bind)

lemma prompt_pll:
  assumes "pll_source src = Some (s, c, d)" and "pll_multiplier freq c = Some m"
  shows "res (SetSysClockToPLL prompt_hw freq src) h = Inr SUCCESS"
proof -
  obtain p1 p2 where p: "pclk_dividers freq = (p1, p2)" by fastforce
  have "res (start_pll_source prompt_hw src) g = SUCCESS" for g
    by (simp add: start_pll_source_def run_bind run_if prompt_waits del: run_state_bind)
  moreover have "res (configure_pll prompt_hw freq s c d) g = SUCCESS" for g
    using assms(2) p
    by (simp add: configure_pll_def run_bind prompt_ensure prompt_switch del: run_state_bind)
  ultimately show ?thesis
    using assms(1) by (simp add: SetSysClockToPLL_def HSE_VALUE_def run_bind del: run_state_bind)
qed

text \<open>
  C6: After \<open>SetSysClockToPLL (freq, src)\<close> has returned success on hardware that keeps its
  configuration, \<open>RCC_GetClocksFreqValue\<close> reports exactly \<open>freq\<close> as the system and AHB clock, and the
  bus clocks divided as chosen, whichever source, pre-divider and output divider were asked for.
\<close>

theorem SetSysClockToPLL_frequency:
  assumes "config_law hw" and "pll_status_law hw"
    and "run_state (SetSysClockToPLL hw freq src) h = (Inr SUCCESS, h')"
  shows "\<exists>c h''. run_state (RCC_GetClocksFreqValue hw) h' = (Inr c, h'') \<and>
     SysclkFreq c = freq \<and> HclkFreq c = freq \<and>
     Pclk1Freq c = (if freq > 32000000 then freq div 4 else if freq > 16000000 then freq div 2 else freq) \<and>
     Pclk2Freq c = (if freq > 32000000 then freq div 2 else freq)"
proof -
  from SetSysClockToPLL_success [OF assms(3)] obtain s c d m f h1 where
    psrc: "pll_source src = Some (s, c, d)" and pm: "pll_multiplier freq c = Some m" and
    sw: "run_state (switch_to_pll hw s m d f)
       (aft (config_buses hw (snd (pclk_dividers freq)) (fst (pclk_dividers freq))) h1) = (SUCCESS, h')" .
  note m = pll_multiplierD [OF pm] and src = pll_sourceD [OF psrc]
  define n where "n = freq div c"
  note code = mul_code_facts [of n, folded m(1) [folded n_def]] 
  have n: "2 \<le> n" "n \<le> 32" using m(2,3) by (simp_all add: n_def)
  have freq: "pll_output s d n = freq" using src(3) [OF n(2)] m(4) n_def by simp
  note sw' = switch_to_pll_success [OF assms(1,2) sw]
  note bus = config_buses_fields [OF assms(1) pclk_dividers_bus_div(1) [of freq]
      pclk_dividers_bus_div(2) [of freq], where h = h1]
  have m0: "m AND F = 0" if "0xF7C3FFFF AND F = F" for F
    using that code(2) n and_zero_sub m(1) n_def by metis
  let ?P = "if hsi_source s then m else s OR m"
  have P: "?P AND 0xF0 = 0" "?P AND 0x700 = 0" "?P AND 0x3800 = 0"
    "?P AND 0x083C0000 = m AND 0x083C0000"
    "?P AND 0x10000 = s AND 0x10000" "?P AND 0x20000 = s AND 0x20000"
    using src(1) by (auto simp: hsi_source_def bit.conj_disj_distrib2 m0)
  have fields: "mem h' RCC_CFG AND 0xF0 = 0"
    "mem h' RCC_CFG AND 0x700 = fst (pclk_dividers freq)"
    "mem h' RCC_CFG AND 0x3800 = push_bit 3 (snd (pclk_dividers freq))"
    "mem h' RCC_CFG AND 0x083C0000 = m AND 0x083C0000"
    "mem h' RCC_CFG AND 0x10000 = s AND 0x10000" "mem h' RCC_CFG AND 0x20000 = s AND 0x20000"
    using bus P sw'(1) [of "0xF0"] sw'(1) [of "0x700"] sw'(1) [of "0x3800"]
      sw'(1) [of "0x083C0000"] sw'(1) [of "0x10000"] sw'(1) [of "0x20000"]
    by (simp_all split del: if_split)
  have pre: "mem h' RCC_PLLHSIPRE AND 1 = s AND 1" "mem h' RCC_PLLHSIPRE AND 2 = d"
    using src(1,2) unfolding sw'(2)
    by (auto simp: hsi_source_def bit.conj_disj_distrib2 and.assoc)
  have fac: "pll_factor (mem h' RCC_CFG AND 0x083C0000) = n"
    unfolding fields using code(1) n m(1) n_def by simp
  have sts: "hw g RCC_CFG AND 0xC = 0xC" if "reads_since h' g" for g
  proof -
    from that obtain q where "g = q @ h'" "\<forall>a \<in> set q. is_rd a"
      unfolding reads_since_def by blast
    then show ?thesis using sw'(3) [of q] by (auto simp: is_rd_def quiet_def split: access.splits)
  qed
  from GetClocks_on_pll [OF assms(1) sts fields(1-3) fac fields(5,6) pre src(1)] obtain k h'' where
    run: "run_state (RCC_GetClocksFreqValue hw) h' = (Inr k, h'')" and
    k: "SysclkFreq k = freq" "HclkFreq k = freq"
    "Pclk1Freq k = drop_bit (s_ApbAhbPresTable ! unat (drop_bit 8 (fst (pclk_dividers freq)))) freq"
    "Pclk2Freq k = drop_bit (s_ApbAhbPresTable ! unat (drop_bit 11 (push_bit 3 (snd (pclk_dividers freq))))) freq"
    unfolding freq by blast
  have "Pclk1Freq k = (if freq > 32000000 then freq div 4 else if freq > 16000000 then freq div 2 else freq)"
    "Pclk2Freq k = (if freq > 32000000 then freq div 2 else freq)"
    unfolding k by (simp_all add: pclk_dividers_def s_ApbAhbPresTable_def drop_bit_eq_div)
  with run k show ?thesis by blast
qed

theorem SetSysClockToPLL_frequency_witness:
  "\<exists>c h' h''. run_state (SetSysClockToPLL prompt_hw 64000000 4) [] = (Inr SUCCESS, h') \<and>
     run_state (RCC_GetClocksFreqValue prompt_hw) h' = (Inr c, h'') \<and> SysclkFreq c = 64000000 \<and>
     Pclk1Freq c = 16000000 \<and> Pclk2Freq c = 32000000"
proof -
  have "res (SetSysClockToPLL prompt_hw 64000000 4) [] = Inr SUCCESS"
  proof (rule prompt_pll)
    show "pll_source 4 = Some (0x10000, 8000000, 0)"
      by (simp add: pll_source_def HSE_VALUE_def)
    show "pll_multiplier 64000000 8000000 = Some 0x180000"
      by code_simp
  qed
  then obtain h' where r: "run_state (SetSysClockToPLL prompt_hw 64000000 4) [] = (Inr SUCCESS, h')"
    by (metis prod.collapse)
  from SetSysClockToPLL_frequency [OF prompt_config_law prompt_status_law r] r show ?thesis
    by auto
qed

text \<open>
  C18: On any hardware, none of the clock functions ever selects a system clock source whose ready
  flag was not read as set since its control register was last written: every write of \<open>CFG\<close>
  keeps the selection just read or selects a source seen to be ready.
\<close>

theorem clock_switch_ordered:
  assumes "ordered h"
  shows "ordered (aft (SetSysClockToMSI hw) h) \<and> ordered (aft (SetSysClockToHSI hw) h) \<and>
    ordered (aft (SetSysClockToHSE hw) h) \<and> ordered (aft (SetSysClockToPLL hw freq src) h) \<and>
    ordered (aft (dri_ClockConfig_Init hw) h)"
  using assms by (intro conjI keepsD keeps_intros dri_ClockConfig_Init_ordered)

theorem clock_switch_ordered_witness:
  "ordered (aft (SetSysClockToPLL prompt_hw 64000000 4) []) \<and>
   ordered (aft (dri_ClockConfig_Init prompt_hw) [])"
  using clock_switch_ordered [of "[]" prompt_hw 64000000 4] by simp

text \<open>
  When the PLL never locks, \<open>SetSysClockToPLL\<close> fails, and it leaves either the untouched
  configuration or the MSI selected as the system clock: it never goes back to the source that was
  running before.
\<close>

theorem SetSysClockToPLL_falls_back_to_MSI:
  assumes "config_law hw" and "never_locks hw"
    and "run_state (SetSysClockToPLL hw freq src) h = (Inr r, h')"
  shows "r = ERROR \<and> (mem h' RCC_CFG = mem h RCC_CFG \<or> mem h' RCC_CFG AND 3 = RCC_SYSCLK_SRC_MSI)"
proof -
  let ?h1 = "aft (start_pll_source hw src) h"
  show ?thesis
  proof (cases "res (start_pll_source hw src) h")
    case ERROR
    with assms(3) show ?thesis
      by (auto simp: SetSysClockToPLL_def HSE_VALUE_def run_bind prod_eq_iff simp del: run_state_bind)
  next
    case SUCCESS
    then obtain s c d where psrc: "pll_source src = Some (s, c, d)"
      using assms(3) by (auto simp: SetSysClockToPLL_def HSE_VALUE_def run_bind prod_eq_iff
          split: option.splits simp del: run_state_bind)
    have conf: "run_state (configure_pll hw freq s c d) ?h1 = (r, h')"
      using assms(3) SUCCESS psrc
      by (auto simp: SetSysClockToPLL_def HSE_VALUE_def run_bind prod_eq_iff simp del: run_state_bind)
    obtain p1 p2 where p: "pclk_dividers freq = (p1, p2)" by fastforce
    show ?thesis
    proof (cases "pll_multiplier freq c")
      case None
      with conf p show ?thesis by (auto simp: configure_pll_def)
    next
      case (Some m)
      let ?h2 = "aft (ensure_msi hw) ?h1"
      show ?thesis
      proof (cases "fst (res (ensure_msi hw) ?h1)")
        case ERROR
        with conf Some p show ?thesis
          by (auto simp: configure_pll_def run_bind prod_eq_iff simp del: run_state_bind)
      next
        case SUCCESS
        let ?h3 = "aft (do { RCC_ConfigSysclk hw 0; FLASH_SetLatency hw (freq div 32000000);
                             config_buses hw p2 p1 }) ?h2"
        have h': "run_state (switch_to_pll hw s m d (snd (res (ensure_msi hw) ?h1))) ?h3 = (r, h')"
          using conf Some p SUCCESS
          by (auto simp: configure_pll_def run_bind Let_def simp del: run_state_bind)
        have "hsi_source s \<or> s AND 3 = 0"
          using pll_sourceD(1) [OF psrc] by (auto simp: hsi_source_def)
        moreover have "m AND 3 = 0"
          using mul_code_facts(2) [OF pll_multiplierD(2,3) [OF Some]] pll_multiplierD(1) [OF Some]
          by (auto intro: and_zero_sub)
        ultimately have r: "r = ERROR" and keep: "mem h' RCC_CFG AND 3 = mem ?h3 RCC_CFG AND 3"
          using switch_to_pll_never_locks [OF assms(1,2), of s m d _ ?h3] h' by (metis fst_conv snd_conv)+
        have "bus_div p1" "bus_div p2"
          using pclk_dividers_bus_div [of freq] p by simp_all
        moreover have "hw g RCC_CFG AND 3 = mem g RCC_CFG AND 3" for g
          by (rule config_lawD [OF assms(1)]) simp
        ultimately have "mem ?h3 RCC_CFG AND 3 = 0"
          by (auto simp: config_buses_def RCC_ConfigSysclk_def RCC_ConfigHclk_def RCC_ConfigPclk1_def
              RCC_ConfigPclk2_def FLASH_SetLatency_def bus_div_def bit.conj_disj_distrib2 and.assoc)
        with r keep show ?thesis by simp
      qed
    qed
  qed
qed

definition stuck_hw :: hardware where
  "stuck_hw h r = (if r = RCC_CTRL then 0x20002 else if r = RCC_CTRLSTS then 8 else mem h r)"

theorem SetSysClockToPLL_falls_back_to_MSI_witness:
  "\<exists>h'. run_state (SetSysClockToPLL stuck_hw 64000000 4) [] = (Inr ERROR, h') \<and>
        (mem h' RCC_CFG = mem [] RCC_CFG \<or> mem h' RCC_CFG AND 3 = RCC_SYSCLK_SRC_MSI)"
proof -
  have "config_law stuck_hw" "never_locks stuck_hw"
    by (simp_all add: config_law_def never_locks_def stuck_hw_def)
  moreover obtain r h' where r: "run_state (SetSysClockToPLL stuck_hw 64000000 4) [] = (Inr r, h')"
    using pll_valid_returns [of 4 stuck_hw 64000000 "[]"] by (auto simp: pll_source_def) (metis prod.collapse)
  ultimately show ?thesis
    using SetSysClockToPLL_falls_back_to_MSI [of stuck_hw 64000000 4 "[]" r h'] by auto
qed

text \<open>
  Every clock function returns after a bounded number of register accesses on every hardware,
  even one whose flags never change: the polls give up after their timeouts.
\<close>

theorem clock_functions_bounded:
  "length (aft (SetSysClockToMSI hw) h) \<le> length h + 0x1000600 \<and>
   length (aft (SetSysClockToHSI hw) h) \<le> length h + 0x2001000 \<and>
   length (aft (SetSysClockToHSE hw) h) \<le> length h + 0x2003000 \<and>
   length (aft (SetSysClockToPLL hw freq src) h) \<le> length h + 0x2003000"
  by (intro conjI costD cost_functions cost_pll)

end
