(* ===== verification/Gpio.thy ===== *)
theory Gpio
  imports RccPeriph
begin

text \<open>
  The GPIO driver, \<open>n32l40x_gpio.c\<close>. Enumeration arguments are used arithmetically by the code
  and are words here.
\<close>

subsection \<open>Configuration record and constants\<close>

record GPIO_InitType =
  Pin :: u16
  GPIO_Current :: u32
  GPIO_Slew_Rate :: u32
  GPIO_Pull :: u32
  GPIO_Mode :: u32
  GPIO_Alternate :: u32

abbreviation (input) GPIO_Mode_Input :: u32 where "GPIO_Mode_Input \<equiv> 0x0"
abbreviation (input) GPIO_Mode_Out_PP :: u32 where "GPIO_Mode_Out_PP \<equiv> 0x1"
abbreviation (input) GPIO_Mode_Out_OD :: u32 where "GPIO_Mode_Out_OD \<equiv> 0x11"
abbreviation (input) GPIO_Mode_AF_PP :: u32 where "GPIO_Mode_AF_PP \<equiv> 0x2"
abbreviation (input) GPIO_Mode_AF_OD :: u32 where "GPIO_Mode_AF_OD \<equiv> 0x12"
abbreviation (input) GPIO_Mode_Analog :: u32 where "GPIO_Mode_Analog \<equiv> 0x3"
abbreviation (input) GPIO_No_Pull :: u32 where "GPIO_No_Pull \<equiv> 0"
abbreviation (input) GPIO_Pull_Up :: u32 where "GPIO_Pull_Up \<equiv> 1"
abbreviation (input) GPIO_Pull_Down :: u32 where "GPIO_Pull_Down \<equiv> 2"
abbreviation (input) GPIO_PIN_ALL :: u16 where "GPIO_PIN_ALL \<equiv> 0xFFFF"
abbreviation (input) RCC_APB2_PERIPH_AFIO :: u32 where "RCC_APB2_PERIPH_AFIO \<equiv> 0x1"
abbreviation (input) RCC_APB2_PERIPH_GPIOA :: u32 where "RCC_APB2_PERIPH_GPIOA \<equiv> 0x4"
abbreviation (input) RCC_APB2_PERIPH_GPIOB :: u32 where "RCC_APB2_PERIPH_GPIOB \<equiv> 0x8"
abbreviation (input) RCC_APB2_PERIPH_GPIOC :: u32 where "RCC_APB2_PERIPH_GPIOC \<equiv> 0x10"
abbreviation (input) RCC_APB2_PERIPH_GPIOD :: u32 where "RCC_APB2_PERIPH_GPIOD \<equiv> 0x20"

text \<open>\<open>GPIO_InitStruct\<close>: the default configuration, whatever the structure held.\<close>

definition GPIO_InitStruct :: "GPIO_InitType" where
  "GPIO_InitStruct =
     \<lparr>Pin = GPIO_PIN_ALL, GPIO_Current = 0, GPIO_Slew_Rate = 0, GPIO_Pull = GPIO_No_Pull,
      GPIO_Mode = GPIO_Mode_Input, GPIO_Alternate = 0x0F\<rparr>"

definition port_clock :: "port \<Rightarrow> u32" where
  "port_clock p = (case p of GPIOA \<Rightarrow> RCC_APB2_PERIPH_GPIOA | GPIOB \<Rightarrow> RCC_APB2_PERIPH_GPIOB
                    | GPIOC \<Rightarrow> RCC_APB2_PERIPH_GPIOC | GPIOD \<Rightarrow> RCC_APB2_PERIPH_GPIOD)"

definition GPIO_GET_INDEX :: "port \<Rightarrow> nat" where
  "GPIO_GET_INDEX p = (case p of GPIOA \<Rightarrow> 0 | GPIOB \<Rightarrow> 1 | GPIOC \<Rightarrow> 2 | GPIOD \<Rightarrow> 3)"

definition GPIO_GET_PERIPH :: "u8 \<Rightarrow> port" where
  "GPIO_GET_PERIPH i = (if i = 0 then GPIOA else if i = 1 then GPIOB else if i = 2 then GPIOC
                         else GPIOD)"

subsection \<open>Pin configuration\<close>

text \<open>The alternate function register and the shift of a pin's nibble.\<close>

definition af_reg :: "nat \<Rightarrow> gpio_reg" where
  "af_reg position = (if 8 \<le> position mod 16 then AFH else AFL)"

definition af_shift :: "nat \<Rightarrow> nat" where
  "af_shift position = (position mod 8) * 4"

text \<open>\<open>tmp = r; tmp &= ~(m << k); tmp |= v << k; r = tmp;\<close>\<close>

definition put_field :: "hardware \<Rightarrow> reg \<Rightarrow> u32 \<Rightarrow> nat \<Rightarrow> u32 \<Rightarrow> unit io" where
  "put_field hw r m k v = set_field hw r (NOT (push_bit k m)) (push_bit k v)"

text \<open>One EXTI register: the bit of the line is cleared and set again if the mode asks for it.\<close>

definition exti_bit :: "hardware \<Rightarrow> reg \<Rightarrow> nat \<Rightarrow> bool \<Rightarrow> unit io" where
  "exti_bit hw r position on = put_field hw r 1 position (if on then 1 else 0)"

text \<open>The body of the loop for a selected pin, in the order of the source.\<close>

definition init_pin :: "hardware \<Rightarrow> port \<Rightarrow> GPIO_InitType \<Rightarrow> nat \<Rightarrow> unit io" where
  "init_pin hw p ini position = do {
     let mode = GPIO_Mode ini;
     (if mode = GPIO_Mode_AF_PP \<or> mode = GPIO_Mode_AF_OD \<or> mode = GPIO_Mode_Input
         \<or> mode = GPIO_Mode_Analog
      then put_field hw (GPIO p (af_reg position)) 0xF (af_shift position) (GPIO_Alternate ini)
      else skip);
     put_field hw (GPIO p PMODE) 3 (position * 2) (mode AND 0x0F);
     put_field hw (GPIO p PUPD) 3 (position * 2) (GPIO_Pull ini AND 3);
     (if mode AND 3 \<noteq> 0 \<and> mode \<noteq> GPIO_Mode_Analog
      then put_field hw (GPIO p DS) 3 (position * 2) (GPIO_Current ini AND 3)
      else skip);
     put_field hw (GPIO p SR) 1 position (GPIO_Slew_Rate ini AND 1);
     (if GPIO_Pull ini = GPIO_Pull_Down then or_reg hw (GPIO p PBC) (push_bit position 1)
      else if GPIO_Pull ini = GPIO_Pull_Up then or_reg hw (GPIO p PBSC) (push_bit position 1)
      else skip);
     (if mode = GPIO_Mode_Out_PP \<or> mode = GPIO_Mode_AF_PP \<or> mode = GPIO_Mode_Out_OD
         \<or> mode = GPIO_Mode_AF_OD
      then put_field hw (GPIO p POTYPE) 1 position (drop_bit 4 (mode AND 0x10))
      else skip);
     (if mode AND 0x10000000 \<noteq> 0 then do {
        exti_bit hw EXTI_IMASK position (mode AND 0x00010000 = 0x00010000);
        exti_bit hw EXTI_EMASK position (mode AND 0x00020000 = 0x00020000);
        exti_bit hw EXTI_RT_CFG position (mode AND 0x00100000 = 0x00100000);
        exti_bit hw EXTI_FT_CFG position (mode AND 0x00200000 = 0x00200000)
      } else skip)
   }"

text \<open>\<open>while ((Pin >> position) != 0) { if (Pin & (1 << position)) body; position++; }\<close>\<close>

function pins_loop :: "u16 \<Rightarrow> (nat \<Rightarrow> unit io) \<Rightarrow> nat \<Rightarrow> unit io" where
  "pins_loop pins body position =
     (if drop_bit position pins = 0 then skip
      else do {
        (if bit pins position then body position else skip);
        pins_loop pins body (Suc position)
      })"
  by pat_completeness auto
termination
proof (relation "measure (\<lambda>(pins, body, position). 16 - position)")
  fix pins :: u16 and body :: "nat \<Rightarrow> unit io" and position and x :: unit
  assume nz: "drop_bit position pins \<noteq> 0"
  have "position < 16"
  proof (rule ccontr)
    assume "\<not> position < 16"
    then have "drop_bit position pins = 0"
      by (intro bit_word_eqI) (auto simp: bit_drop_bit_eq dest!: bit_imp_le_length)
    with nz show False by simp
  qed
  then show "((pins, body, Suc position), pins, body, position)
             \<in> measure (\<lambda>(pins, body, position). 16 - position)"
    by simp
qed simp

declare pins_loop.simps [simp del]

definition GPIO_InitPeripheral :: "hardware \<Rightarrow> port \<Rightarrow> GPIO_InitType \<Rightarrow> unit io" where
  "GPIO_InitPeripheral hw p ini = pins_loop (Pin ini) (init_pin hw p ini) 0"

text \<open>De-initialisation of one pin: its EXTI line when it is routed to this port, then the fields.\<close>

definition deinit_pin :: "hardware \<Rightarrow> port \<Rightarrow> nat \<Rightarrow> unit io" where
  "deinit_pin hw p position = do {
     let sh = 4 * (position mod 4);
     let iocurrent = push_bit position 1;
     v \<leftarrow> rd hw (AFIO_EXTI_CFG (position div 4));
     (if v AND push_bit sh 0x0F = push_bit sh (of_nat (GPIO_GET_INDEX p)) then do {
        and_reg hw EXTI_IMASK (NOT iocurrent);
        and_reg hw EXTI_EMASK (NOT iocurrent);
        and_reg hw EXTI_RT_CFG (NOT iocurrent);
        and_reg hw EXTI_FT_CFG (NOT iocurrent);
        and_reg hw (AFIO_EXTI_CFG (position div 4)) (NOT (push_bit sh 0x0F))
      } else skip);
     and_reg hw (GPIO p PMODE) (NOT (push_bit (position * 2) 3));
     or_reg hw (GPIO p (af_reg position)) (push_bit (af_shift position) 0xF);
     and_reg hw (GPIO p POTYPE) (NOT (push_bit position 1));
     and_reg hw (GPIO p PUPD) (NOT (push_bit (position * 2) 3))
   }"

definition GPIO_DeInit :: "hardware \<Rightarrow> port \<Rightarrow> unit io" where
  "GPIO_DeInit hw p = do {
     RCC_EnableAPB2PeriphReset hw (port_clock p) ENABLE;
     RCC_EnableAPB2PeriphReset hw (port_clock p) DISABLE;
     pins_loop GPIO_PIN_ALL (deinit_pin hw p) 0
   }"

definition GPIO_AFIOInitDefault :: "hardware \<Rightarrow> unit io" where
  "GPIO_AFIOInitDefault hw = do {
     RCC_EnableAPB2PeriphReset hw RCC_APB2_PERIPH_AFIO ENABLE;
     RCC_EnableAPB2PeriphReset hw RCC_APB2_PERIPH_AFIO DISABLE
   }"

subsection \<open>Input and output\<close>

definition GPIO_ReadInputDataBit :: "hardware \<Rightarrow> port \<Rightarrow> u16 \<Rightarrow> u8 io" where
  "GPIO_ReadInputDataBit hw p pin = do {
     v \<leftarrow> rd hw (GPIO p PID); ret (if v AND ucast pin \<noteq> 0 then 1 else 0) }"

definition GPIO_ReadInputData :: "hardware \<Rightarrow> port \<Rightarrow> u16 io" where
  "GPIO_ReadInputData hw p = do { v \<leftarrow> rd hw (GPIO p PID); ret (ucast v) }"

definition GPIO_ReadOutputDataBit :: "hardware \<Rightarrow> port \<Rightarrow> u16 \<Rightarrow> u8 io" where
  "GPIO_ReadOutputDataBit hw p pin = do {
     v \<leftarrow> rd hw (GPIO p POD); ret (if v AND ucast pin \<noteq> 0 then 1 else 0) }"

definition GPIO_ReadOutputData :: "hardware \<Rightarrow> port \<Rightarrow> u16 io" where
  "GPIO_ReadOutputData hw p = do { v \<leftarrow> rd hw (GPIO p POD); ret (ucast v) }"

definition GPIO_SetBits :: "port \<Rightarrow> u16 \<Rightarrow> unit io" where
  "GPIO_SetBits p pin = wr (GPIO p PBSC) (ucast pin)"

definition GPIO_SetBitsHigh16 :: "port \<Rightarrow> u32 \<Rightarrow> unit io" where
  "GPIO_SetBitsHigh16 p pin = wr (GPIO p PBSC) pin"

definition GPIO_ResetBits :: "port \<Rightarrow> u16 \<Rightarrow> unit io" where
  "GPIO_ResetBits p pin = wr (GPIO p PBC) (ucast pin)"

definition GPIO_WriteBit :: "port \<Rightarrow> u16 \<Rightarrow> bool \<Rightarrow> unit io" where
  "GPIO_WriteBit p pin BitCmd =
     (if BitCmd then wr (GPIO p PBSC) (ucast pin) else wr (GPIO p PBC) (ucast pin))"

definition GPIO_Write :: "port \<Rightarrow> u16 \<Rightarrow> unit io" where
  "GPIO_Write p PortVal = wr (GPIO p POD) (ucast PortVal)"

definition GPIO_ConfigPinLock :: "hardware \<Rightarrow> port \<Rightarrow> u16 \<Rightarrow> unit io" where
  "GPIO_ConfigPinLock hw p pin = do {
     let tmp = 0x00010000 OR ucast pin;
     wr (GPIO p PLOCK) tmp;
     wr (GPIO p PLOCK) (ucast pin);
     wr (GPIO p PLOCK) tmp;
     _ \<leftarrow> rd hw (GPIO p PLOCK);
     _ \<leftarrow> rd hw (GPIO p PLOCK);
     ret ()
   }"

subsection \<open>Remapping\<close>

definition GPIO_ConfigPinRemap :: "hardware \<Rightarrow> u8 \<Rightarrow> u8 \<Rightarrow> u32 \<Rightarrow> unit io" where
  "GPIO_ConfigPinRemap hw PortSource PinSource AlternateFunction = do {
     let p = GPIO_GET_PERIPH PortSource;
     let tmp = unat (PinSource AND 7);
     put_field hw (GPIO p (if PinSource AND 8 \<noteq> 0 then AFH else AFL)) 0xF (tmp * 4) AlternateFunction
   }"

text \<open>The event output function is inserted unshifted, whatever the pin.\<close>

definition GPIO_ConfigEventOutput :: "hardware \<Rightarrow> u8 \<Rightarrow> u8 \<Rightarrow> unit io" where
  "GPIO_ConfigEventOutput hw PortSource PinSource = do {
     let p = GPIO_GET_PERIPH PortSource;
     let tmp = unat (PinSource AND 7);
     set_field hw (GPIO p (if PinSource AND 8 \<noteq> 0 then AFH else AFL)) (NOT (push_bit (tmp * 4) 0xF)) 3
   }"

definition GPIO_CtrlEventOutput :: "FunctionalState \<Rightarrow> unit io" where
  "GPIO_CtrlEventOutput Cmd = bb AFIO_ECTRL 7 (cmd_word Cmd)"

definition GPIO_ConfigEXTILine :: "hardware \<Rightarrow> u8 \<Rightarrow> u8 \<Rightarrow> (stop + unit) io" where
  "GPIO_ConfigEXTILine hw PortSource PinSource =
     (let i = unat (drop_bit 2 PinSource); k = unat (PinSource AND 3) * 4 in
      if 4 \<le> i then ret (Inl (Out_Of_Bounds ''EXTI_CFG''))
      else do {
        and_reg hw (AFIO_EXTI_CFG i) (NOT (push_bit k 3));
        or_reg hw (AFIO_EXTI_CFG i) (push_bit k (ucast PortSource));
        ret (Inr ())
      })"

definition AFIO_ConfigSPINSSMode :: "hardware \<Rightarrow> nat \<Rightarrow> u32 \<Rightarrow> unit io" where
  "AFIO_ConfigSPINSSMode hw AFIO_SPIx_NSS SpiNssType =
     put_field hw AFIO_RMP_CFG 1 AFIO_SPIx_NSS SpiNssType"

definition AFIO_ConfigADCExternalTrigRemap :: "hardware \<Rightarrow> u32 \<Rightarrow> u32 \<Rightarrow> unit io" where
  "AFIO_ConfigADCExternalTrigRemap hw ADCETRType ADCTrigRemap =
     (if ADCETRType = 9 then do {
        v \<leftarrow> rd hw AFIO_RMP_CFG;
        let tmp = v AND NOT (push_bit 9 1);
        wr AFIO_RMP_CFG (if ADCTrigRemap = 17 then tmp OR push_bit 9 1
                         else tmp AND NOT (push_bit 4 0x0F) OR push_bit 4 ADCTrigRemap)
      }
      else if ADCETRType = 8 then do {
        v \<leftarrow> rd hw AFIO_RMP_CFG;
        let tmp = v AND NOT (push_bit 8 1);
        wr AFIO_RMP_CFG (if ADCTrigRemap = 16 then tmp OR push_bit 8 1
                         else tmp AND NOT 0x0F OR ADCTrigRemap)
      }
      else skip)"

end
