(* ===== verification/Lpuart.thy ===== *)
theory Lpuart
  imports RccPeriph
begin

text \<open>
  The low-power UART driver, \<open>n32l40x_lpuart.c\<close>. The 16-bit and 8-bit registers are kept as words
  of 32 bits; a store truncates to the register's width as the casts of the code do.
\<close>

subsection \<open>Configuration record\<close>

record LPUART_InitType =
  BaudRate :: u32
  Parity :: u16
  Mode :: u16
  RtsThreshold :: u16
  HardwareFlowControl :: u16

definition LPUART_StructInit :: "LPUART_InitType" where
  "LPUART_StructInit =
     \<lparr>BaudRate = 9600, Parity = 0x0008, Mode = 0x0000 OR 0x0002, RtsThreshold = 0x0200,
      HardwareFlowControl = 0x0000\<rparr>"

abbreviation (input) LPUART_FLAG_TXC :: u16 where "LPUART_FLAG_TXC \<equiv> 0x0002"
abbreviation (input) LPUART_FLAG_FIFO_NE :: u16 where "LPUART_FLAG_FIFO_NE \<equiv> 0x0020"
abbreviation (input) LPUART_INT_WUF :: u16 where "LPUART_INT_WUF \<equiv> 0x0640"
abbreviation (input) LPUART_SMPCNT_3B :: u16 where "LPUART_SMPCNT_3B \<equiv> 0x0000"
abbreviation (input) LPUART_SMPCNT_1B :: u16 where "LPUART_SMPCNT_1B \<equiv> 0x4000"

definition wr16 :: "reg \<Rightarrow> u16 \<Rightarrow> unit io" where "wr16 r v = wr r (ucast v)"
definition wr8 :: "reg \<Rightarrow> u8 \<Rightarrow> unit io" where "wr8 r v = wr r (ucast v)"
definition rd16 :: "hardware \<Rightarrow> reg \<Rightarrow> u16 io" where
  "rd16 hw r = do { v \<leftarrow> rd hw r; ret (ucast v) }"
definition rd8 :: "hardware \<Rightarrow> reg \<Rightarrow> u8 io" where
  "rd8 hw r = do { v \<leftarrow> rd hw r; ret (ucast v) }"

definition and16 :: "hardware \<Rightarrow> reg \<Rightarrow> u16 \<Rightarrow> unit io" where
  "and16 hw r m = do { v \<leftarrow> rd16 hw r; wr16 r (v AND m) }"
definition or16 :: "hardware \<Rightarrow> reg \<Rightarrow> u16 \<Rightarrow> unit io" where
  "or16 hw r m = do { v \<leftarrow> rd16 hw r; wr16 r (v OR m) }"

lemma run_narrow [simp]:
  "run_state (wr16 r a) h = ((), Wr r (ucast a) # h)"
  "run_state (wr8 r b) h = ((), Wr r (ucast b) # h)"
  "run_state (rd16 hw r) h = (ucast (hw h r), Rd r (hw h r) # h)"
  "run_state (rd8 hw r) h = (ucast (hw h r), Rd r (hw h r) # h)"
  "run_state (and16 hw r a) h = ((), Wr r (ucast (ucast (hw h r) AND a)) # Rd r (hw h r) # h)"
  "run_state (or16 hw r a) h = ((), Wr r (ucast (ucast (hw h r) OR a)) # Rd r (hw h r) # h)"
  by (simp_all add: wr16_def wr8_def rd16_def rd8_def and16_def or16_def)

subsection \<open>Flags and interrupts\<close>

definition LPUART_GetFlagStatus :: "hardware \<Rightarrow> u16 \<Rightarrow> FlagStatus io" where
  "LPUART_GetFlagStatus hw LPUART_FLAG = do {
     v \<leftarrow> rd16 hw LPUART_STS;
     ret (flag_of (v AND LPUART_FLAG \<noteq> 0))
   }"

definition LPUART_ClrFlag :: "u16 \<Rightarrow> unit io" where
  "LPUART_ClrFlag LPUART_FLAG = wr16 LPUART_STS LPUART_FLAG"

definition LPUART_GetIntStatus :: "hardware \<Rightarrow> u16 \<Rightarrow> FlagStatus io" where
  "LPUART_GetIntStatus hw LPUART_INT = do {
     let pos = (ucast (drop_bit 8 LPUART_INT) :: u8) AND 0x7F;
     inten \<leftarrow> rd8 hw LPUART_INTEN;
     let itmask = (push_bit (unat pos) 1 :: u32) AND ucast inten;
     let low = (ucast (ucast LPUART_INT :: u8) :: u32);
     let bitpos = (if LPUART_INT_WUF = LPUART_INT then push_bit 1 low else low);
     sts \<leftarrow> rd16 hw LPUART_STS;
     ret (flag_of (itmask \<noteq> 0 \<and> bitpos AND ucast sts \<noteq> 0))
   }"

definition LPUART_ClrIntPendingBit :: "u16 \<Rightarrow> unit io" where
  "LPUART_ClrIntPendingBit LPUART_INT = do {
     let low = (ucast (ucast LPUART_INT :: u8) :: u16);
     wr16 LPUART_STS (if LPUART_INT_WUF = LPUART_INT then push_bit 1 low else low)
   }"

definition LPUART_ConfigInt :: "hardware \<Rightarrow> u16 \<Rightarrow> FunctionalState \<Rightarrow> unit io" where
  "LPUART_ConfigInt hw LPUART_INT Cmd = do {
     v \<leftarrow> rd8 hw LPUART_INTEN;
     wr8 LPUART_INTEN (if Cmd \<noteq> DISABLE then v OR ucast LPUART_INT else v AND ucast (NOT LPUART_INT))
   }"

subsection \<open>Control\<close>

definition LPUART_DeInit :: "hardware \<Rightarrow> unit io" where
  "LPUART_DeInit hw = do {
     RCC_EnableRETPeriphReset hw RCC_RET_PERIPH_LPUART ENABLE;
     RCC_EnableRETPeriphReset hw RCC_RET_PERIPH_LPUART DISABLE
   }"

definition LPUART_EnableDMA :: "hardware \<Rightarrow> u16 \<Rightarrow> FunctionalState \<Rightarrow> unit io" where
  "LPUART_EnableDMA hw LPUART_DMAReq Cmd =
     (if Cmd \<noteq> DISABLE then or16 hw LPUART_CTRL LPUART_DMAReq
      else and16 hw LPUART_CTRL (NOT LPUART_DMAReq))"

definition LPUART_ConfigWakeUpMethod :: "hardware \<Rightarrow> u16 \<Rightarrow> unit io" where
  "LPUART_ConfigWakeUpMethod hw method = do {
     and16 hw LPUART_CTRL 0x4FFF;
     or16 hw LPUART_CTRL method
   }"

definition LPUART_EnableWakeUpStop :: "hardware \<Rightarrow> FunctionalState \<Rightarrow> unit io" where
  "LPUART_EnableWakeUpStop hw Cmd =
     (if Cmd \<noteq> DISABLE then or16 hw LPUART_CTRL 0x0080 else and16 hw LPUART_CTRL 0x7F7F)"

definition LPUART_ConfigSamplingMethod :: "hardware \<Rightarrow> u16 \<Rightarrow> unit io" where
  "LPUART_ConfigSamplingMethod hw method = do {
     and16 hw LPUART_CTRL 0x3FFF;
     or16 hw LPUART_CTRL method
   }"

definition LPUART_EnableLoopBack :: "hardware \<Rightarrow> FunctionalState \<Rightarrow> unit io" where
  "LPUART_EnableLoopBack hw Cmd =
     (if Cmd \<noteq> DISABLE then or16 hw LPUART_CTRL 0x0010 else and16 hw LPUART_CTRL 0xFFEF)"

definition LPUART_ConfigWakeUpData :: "u32 \<Rightarrow> unit io" where
  "LPUART_ConfigWakeUpData d = wr LPUART_WUDAT d"

subsection \<open>Baud rate\<close>

text \<open>
  The eight passes of the fractional part: bit \<open>i\<close> is set when the running sum of fractions
  crosses a whole clock in that pass.
\<close>

function frac_loop :: "nat \<Rightarrow> u32 \<Rightarrow> u32 \<Rightarrow> u32 \<Rightarrow> u32" where
  "frac_loop i fractionaldivider tmpdivider tmpregister =
     (if 8 \<le> i then tmpregister
      else (let lastdivider = tmpdivider; next = lastdivider + fractionaldivider in
        frac_loop (Suc i) fractionaldivider next
          (if (next div 10000) XOR (lastdivider div 10000) \<noteq> 0
           then tmpregister OR push_bit i 1 else tmpregister)))"
  by pat_completeness auto
termination by (relation "measure (\<lambda>(i, f, t, r). 8 - i)") auto

declare frac_loop.simps [simp del]

definition fractional_divider :: "u32 \<Rightarrow> u32 \<Rightarrow> u32" where
  "fractional_divider apbclock baud = ((apbclock mod baud) * 10000) div baud"

text \<open>The clock that feeds the LPUART.\<close>

definition lpuart_clock :: "hardware \<Rightarrow> (stop + u32) io" where
  "lpuart_clock hw = do {
     clocksrc \<leftarrow> RCC_GetLPUARTClkSrc hw;
     if clocksrc = RCC_LPUARTCLK_SRC_LSE then ret (Inr 0x8000)
     else if clocksrc = RCC_LPUARTCLK_SRC_HSI then ret (Inr 0xF42400)
     else if clocksrc = RCC_LPUARTCLK_SRC_SYSCLK then
       bindS (RCC_GetClocksFreqValue hw) (\<lambda>c. ret (Inr (SysclkFreq c)))
     else bindS (RCC_GetClocksFreqValue hw) (\<lambda>c. ret (Inr (Pclk1Freq c)))
   }"

definition LPUART_Init :: "hardware \<Rightarrow> LPUART_InitType \<Rightarrow> (stop + unit) io" where
  "LPUART_Init hw ini = do {
     v \<leftarrow> rd16 hw LPUART_CTRL;
     wr16 LPUART_CTRL (v AND 0x70F4 OR (Parity ini OR Mode ini OR RtsThreshold ini OR HardwareFlowControl ini));
     bindS (lpuart_clock hw) (\<lambda>apbclock.
       if BaudRate ini = 0 then ret (Inl (Div_By_Zero ''BaudRate''))
       else do {
         let integerdivider = apbclock div BaudRate ini;
         LPUART_ConfigSamplingMethod hw (if integerdivider \<le> 10 then LPUART_SMPCNT_1B else LPUART_SMPCNT_3B);
         wr16 LPUART_BRCFG1 (ucast integerdivider);
         let fractionaldivider = fractional_divider apbclock (BaudRate ini);
         wr8 LPUART_BRCFG2 (ucast (frac_loop 0 fractionaldivider fractionaldivider 0));
         ret (Inr ())
       })
   }"

subsection \<open>Data\<close>

definition LPUART_SendData :: "u8 \<Rightarrow> unit io" where
  "LPUART_SendData Data = wr8 LPUART_DAT (Data AND 0xFF)"

definition LPUART_ReceiveData :: "hardware \<Rightarrow> u8 io" where
  "LPUART_ReceiveData hw = do { v \<leftarrow> rd8 hw LPUART_DAT; ret (v AND 0xFF) }"

text \<open>
  \<open>while (flag is expect) ;\<close>: the history when the loop is left, \<open>None\<close> when it never is.
\<close>

partial_function (option) spin_while :: "hardware \<Rightarrow> u16 \<Rightarrow> FlagStatus \<Rightarrow> hist \<Rightarrow> hist option" where
  "spin_while hw flag expect h =
     (case run_state (LPUART_GetFlagStatus hw flag) h of
        (st, h') \<Rightarrow> if st = expect then spin_while hw flag expect h' else Some h')"

definition LPUART_FlushRxFifo :: "hardware \<Rightarrow> hist \<Rightarrow> hist option" where
  "LPUART_FlushRxFifo hw h =
     (case spin_while hw LPUART_FLAG_FIFO_NE SET (aft (or16 hw LPUART_CTRL 0x0004) h) of
        None \<Rightarrow> None
      | Some h' \<Rightarrow> Some (aft (and16 hw LPUART_CTRL 0x7FFB) h'))"

end
