(* ===== verification/Board.thy ===== *)
theory Board
  imports Gpio Lpuart CStdio
begin

text \<open>
  The application: \<open>dri_usart.c\<close>, \<open>dri_Systick.c\<close>, \<open>int_LED.c\<close>, \<open>n32l40x_it.c\<close> and \<open>main.c\<close>.
\<close>

datatype SystemError_t = ERR_SUCCESS | ERR_UART_FAILURE

subsection \<open>LPUART bring-up\<close>

definition CLKSTARTUP_TIMEOUT :: nat where "CLKSTARTUP_TIMEOUT = 0x20000"

text \<open>
  \<open>while ((flag == RESET) && (StartUpCounter <= CLKSTARTUP_TIMEOUT)) StartUpCounter++;\<close> with \<open>n\<close>
  increments left.
\<close>

primrec startup_loop :: "FlagStatus io \<Rightarrow> nat \<Rightarrow> unit io" where
  "startup_loop test 0 = do { _ \<leftarrow> test; ret () }"
| "startup_loop test (Suc n) = do { f \<leftarrow> test; if f = RESET then startup_loop test n else ret () }"

definition RCC_Configuration :: "hardware \<Rightarrow> u32 \<Rightarrow> ErrorStatus io" where
  "RCC_Configuration hw LPUART_CLK_SRC = do {
     Status_value \<leftarrow>
       (if LPUART_CLK_SRC = RCC_LPUARTCLK_SRC_LSE then do {
          RCC_EnableAPB1PeriphClk hw RCC_APB1_PERIPH_PWR ENABLE;
          or_reg hw PWR_CTRL1 0x100;
          RCC_ConfigLse hw RCC_LSE_ENABLE 0x1FF;
          startup_loop (RCC_GetFlagStatus hw RCC_LDCTRL_FLAG_LSERD) (CLKSTARTUP_TIMEOUT + 1);
          f \<leftarrow> RCC_GetFlagStatus hw RCC_LDCTRL_FLAG_LSERD;
          if f = RESET then ret ERROR
          else do { RCC_ConfigLPUARTClk hw RCC_LPUARTCLK_SRC_LSE; ret SUCCESS }
        }
        else if LPUART_CLK_SRC = RCC_LPUARTCLK_SRC_HSI then do {
          RCC_ConfigHsi hw RCC_HSI_ENABLE;
          startup_loop (RCC_GetFlagStatus hw RCC_CTRL_FLAG_HSIRDF) (CLKSTARTUP_TIMEOUT + 1);
          f \<leftarrow> RCC_GetFlagStatus hw RCC_CTRL_FLAG_HSIRDF;
          if f = RESET then ret ERROR
          else do { RCC_ConfigLPUARTClk hw RCC_LPUARTCLK_SRC_HSI; ret SUCCESS }
        }
        else if LPUART_CLK_SRC = RCC_LPUARTCLK_SRC_SYSCLK then do {
          RCC_ConfigLPUARTClk hw RCC_LPUARTCLK_SRC_SYSCLK; ret SUCCESS
        }
        else do { RCC_ConfigLPUARTClk hw RCC_LPUARTCLK_SRC_APB1; ret SUCCESS });
     RCC_EnableRETPeriphClk hw RCC_RET_PERIPH_LPUART ENABLE;
     ret Status_value
   }"

definition tx_config :: "GPIO_InitType" where
  "tx_config = GPIO_InitStruct\<lparr>Pin := 0x0002, GPIO_Mode := GPIO_Mode_AF_PP, GPIO_Pull := GPIO_Pull_Up,
     GPIO_Slew_Rate := 0, GPIO_Alternate := 6\<rparr>"

definition rx_config :: "GPIO_InitType" where
  "rx_config = tx_config\<lparr>Pin := 0x0001, GPIO_Pull := GPIO_Pull_Up, GPIO_Mode := GPIO_Mode_AF_PP,
     GPIO_Alternate := 6\<rparr>"

definition GPIO_Configuration :: "hardware \<Rightarrow> unit io" where
  "GPIO_Configuration hw = do {
     GPIO_InitPeripheral hw GPIOA tx_config;
     GPIO_InitPeripheral hw GPIOA rx_config
   }"

subsection \<open>printf over the LPUART\<close>

definition char_byte :: "char \<Rightarrow> u8" where
  "char_byte ch = of_nat (of_char ch)"

text \<open>\<open>None\<close>: the transmission-complete flag never comes and the call does not return.\<close>

definition fputc :: "hardware \<Rightarrow> char \<Rightarrow> hist \<Rightarrow> hist option" where
  "fputc hw ch h =
     (case spin_while hw LPUART_FLAG_TXC RESET (aft (LPUART_SendData (char_byte ch)) h) of
        None \<Rightarrow> None
      | Some h' \<Rightarrow> Some (aft (LPUART_ClrFlag LPUART_FLAG_TXC) h'))"

text \<open>The C library sends the formatted text character by character through \<open>fputc\<close>.\<close>

fun printf :: "hardware \<Rightarrow> string \<Rightarrow> hist \<Rightarrow> hist option" where
  "printf hw [] h = Some h"
| "printf hw (c # cs) h = (case fputc hw c h of None \<Rightarrow> None | Some h' \<Rightarrow> printf hw cs h')"

definition LF :: string where "LF = [CHR 0x0A]"

definition banner :: string where
  "banner = [CHR 0x0A, CHR 0x0D] @
     ''LPUART Printf Example: retarget the C library printf function to the LPUART'' @
     [CHR 0x0A, CHR 0x0D]"

definition usart_hw_init :: "hardware \<Rightarrow> (stop + SystemError_t) io" where
  "usart_hw_init hw = do {
     st \<leftarrow> RCC_Configuration hw RCC_LPUARTCLK_SRC_APB1;
     if st = SUCCESS then do {
       RCC_EnableAPB2PeriphClk hw RCC_APB2_PERIPH_GPIOA ENABLE;
       RCC_EnableAPB2PeriphClk hw RCC_APB2_PERIPH_AFIO ENABLE;
       GPIO_Configuration hw;
       LPUART_DeInit hw;
       bindS (LPUART_Init hw (LPUART_StructInit\<lparr>BaudRate := 115200\<rparr>)) (\<lambda>_. ret (Inr ERR_SUCCESS))
     } else ret (Inr ERR_UART_FAILURE)
   }"

definition dri_usart_init :: "hardware \<Rightarrow> hist \<Rightarrow> ((stop + SystemError_t) \<times> hist) option" where
  "dri_usart_init hw h =
     (case run_state (usart_hw_init hw) h of
        (Inr ERR_SUCCESS, h') \<Rightarrow>
           (case printf hw banner h' of None \<Rightarrow> None | Some h'' \<Rightarrow> Some (Inr ERR_SUCCESS, h''))
      | (r, h') \<Rightarrow> Some (r, h'))"

subsection \<open>LED\<close>

definition vdd_config :: "GPIO_InitType" where
  "vdd_config = GPIO_InitStruct\<lparr>Pin := 0x0008, GPIO_Current := 0, GPIO_Slew_Rate := 1,
     GPIO_Pull := GPIO_No_Pull, GPIO_Mode := GPIO_Mode_Out_PP\<rparr>"

text \<open>
  The call passes \<open>VDD_EN_RCC_PERIPH\<close>, an APB2 constant, to the AHB enable function.
\<close>

definition int_LED_VDD_config :: "hardware \<Rightarrow> SystemError_t io" where
  "int_LED_VDD_config hw = do {
     RCC_EnableAHBPeriphClk hw RCC_APB2_PERIPH_GPIOB ENABLE;
     GPIO_InitPeripheral hw GPIOB vdd_config;
     ret ERR_SUCCESS
   }"

definition int_LED_VDD_ON :: "unit io" where "int_LED_VDD_ON = GPIO_SetBits GPIOB 0x0008"

definition int_LED_VDD_OFF :: "unit io" where "int_LED_VDD_OFF = GPIO_ResetBits GPIOB 0x0008"

definition led_config :: "GPIO_InitType" where
  "led_config = GPIO_InitStruct\<lparr>Pin := 0x0200, GPIO_Current := 0, GPIO_Slew_Rate := 1,
     GPIO_Pull := GPIO_Pull_Down, GPIO_Mode := GPIO_Mode_Out_PP\<rparr>"

definition int_LED_config :: "hardware \<Rightarrow> SystemError_t io" where
  "int_LED_config hw = do {
     RCC_EnableAPB2PeriphClk hw RCC_APB2_PERIPH_GPIOA ENABLE;
     GPIO_InitPeripheral hw GPIOA led_config;
     ret ERR_SUCCESS
   }"

definition int_LED_Init :: "hardware \<Rightarrow> SystemError_t io" where
  "int_LED_Init hw = do {
     _ \<leftarrow> int_LED_VDD_config hw;
     int_LED_VDD_ON;
     _ \<leftarrow> int_LED_config hw;
     ret ERR_SUCCESS
   }"

definition int_LED_ON :: "unit io" where "int_LED_ON = GPIO_ResetBits GPIOA 0x0200"

definition int_LED_OFF :: "unit io" where "int_LED_OFF = GPIO_SetBits GPIOA 0x0200"

definition int_LED_Blink :: "unit io" where "int_LED_Blink = skip"

end
