(* ===== verification/Systick.thy ===== *)
theory Systick
  imports Board
begin

text \<open>
  The system tick, its interrupt handler, the delay and the main program. The interrupt runs
  between two reads of the tick: \<open>irq n\<close> is the number of SysTick interrupts that are taken
  between the \<open>n\<close>-th read and the one before it. Nothing is assumed of \<open>irq\<close>.
\<close>

subsection \<open>State\<close>

datatype tick_fun = Get_tick

record board =
  acc :: hist
  uwTick :: u32
  tick_callback :: "tick_fun option"
  SystemCoreClock :: u32
  reads :: nat

text \<open>The static state: zero-initialised variables, the core clock of the build.\<close>

definition static_board :: "hist \<Rightarrow> board" where
  "static_board h = \<lparr>acc = h, uwTick = 0, tick_callback = None, SystemCoreClock = 64000000, reads = 0\<rparr>"

definition on_acc :: "(hist \<Rightarrow> hist option) \<Rightarrow> board \<Rightarrow> board option" where
  "on_acc f s = (case f (acc s) of None \<Rightarrow> None | Some h \<Rightarrow> Some (s\<lparr>acc := h\<rparr>))"

subsection \<open>Interrupt and tick\<close>

definition SysTick_Handler :: "board \<Rightarrow> board" where
  "SysTick_Handler s = s\<lparr>uwTick := uwTick s + 1\<rparr>"

definition get_tick :: "(nat \<Rightarrow> nat) \<Rightarrow> board \<Rightarrow> u32 \<times> board" where
  "get_tick irq s =
     (let s' = (SysTick_Handler ^^ irq (reads s)) s in (uwTick s', s'\<lparr>reads := Suc (reads s)\<rparr>))"

definition systick_register_get_tick_callback :: "tick_fun \<Rightarrow> board \<Rightarrow> board" where
  "systick_register_get_tick_callback callback s = s\<lparr>tick_callback := Some callback\<rparr>"

definition dri_systick_get_tick :: "(nat \<Rightarrow> nat) \<Rightarrow> board \<Rightarrow> stop + u32 \<times> board" where
  "dri_systick_get_tick irq s =
     (case tick_callback s of
        None \<Rightarrow> Inl (Null_Deref ''tick_callback'')
      | Some Get_tick \<Rightarrow> Inr (get_tick irq s))"

subsection \<open>SysTick timer\<close>

definition SysTick_IRQn :: int where "SysTick_IRQn = -1"

definition NVIC_SetPriority :: "int \<Rightarrow> u32 \<Rightarrow> unit io" where
  "NVIC_SetPriority IRQn priority =
     (if IRQn \<ge> 0 then wr (NVIC_IP (nat IRQn)) (push_bit 4 priority AND 0xFF)
      else wr (SCB_SHP (unat ((word_of_int IRQn :: u32) AND 0xF) - 4)) (push_bit 4 priority AND 0xFF))"

definition SysTick_Config :: "u32 \<Rightarrow> u32 io" where
  "SysTick_Config ticks =
     (if ticks - 1 > 0xFFFFFF then ret 1
      else do {
        wr SYST_LOAD (ticks - 1);
        NVIC_SetPriority SysTick_IRQn (push_bit 4 1 - 1);
        wr SYST_VAL 0;
        wr SYST_CTRL (4 OR 2 OR 1);
        ret 0
      })"

definition uwTickFrequency :: u32 where "uwTickFrequency = 1"

definition dri_systick_1ms_IRQ_init :: "u32 \<Rightarrow> unit io" where
  "dri_systick_1ms_IRQ_init core_clock = do {
     _ \<leftarrow> SysTick_Config (core_clock div (1000 div uwTickFrequency));
     NVIC_SetPriority SysTick_IRQn 0
   }"

subsection \<open>Delay\<close>

text \<open>\<open>while (dri_systick_get_tick () - tickstart < wait) ;\<close>\<close>

partial_function (option) delay_loop ::
  "(nat \<Rightarrow> nat) \<Rightarrow> u32 \<Rightarrow> u32 \<Rightarrow> board \<Rightarrow> (stop + board) option" where
  "delay_loop irq tickstart wait s =
     (case dri_systick_get_tick irq s of
        Inl e \<Rightarrow> Some (Inl e)
      | Inr (t, s') \<Rightarrow> if t - tickstart < wait then delay_loop irq tickstart wait s' else Some (Inr s'))"

definition delay_wait :: "u32 \<Rightarrow> u32" where
  "delay_wait ms = (if ms < 0xFFFFFFFF then ms + uwTickFrequency else ms)"

definition dri_systick_delay_ms ::
  "hardware \<Rightarrow> (nat \<Rightarrow> nat) \<Rightarrow> u32 \<Rightarrow> board \<Rightarrow> (stop + board) option" where
  "dri_systick_delay_ms hw irq ms s =
     (case on_acc (printf hw (''start delay'' @ LF)) s of
        None \<Rightarrow> None
      | Some s1 \<Rightarrow>
         (case dri_systick_get_tick irq s1 of
            Inl e \<Rightarrow> Some (Inl e)
          | Inr (tickstart, s2) \<Rightarrow>
             (case on_acc (printf hw (''get tick '' @ show_base 10 (unat tickstart) @ LF)) s2 of
                None \<Rightarrow> None
              | Some s3 \<Rightarrow> delay_loop irq tickstart (delay_wait ms) s3)))"

subsection \<open>Main program\<close>

text \<open>The body of \<open>while (1)\<close>.\<close>

definition main_body :: "hardware \<Rightarrow> (nat \<Rightarrow> nat) \<Rightarrow> board \<Rightarrow> (stop + board) option" where
  "main_body hw irq s =
     (case on_acc (printf hw (''test'' @ LF)) s of
        None \<Rightarrow> None
      | Some s' \<Rightarrow> dri_systick_delay_ms hw irq 3000 s')"

text \<open>The result of \<open>dri_usart_init\<close> is ignored.\<close>

definition main_setup :: "hardware \<Rightarrow> board \<Rightarrow> (stop + board) option" where
  "main_setup hw s =
     (let s1 = systick_register_get_tick_callback Get_tick s;
          s2 = s1\<lparr>acc := aft (dri_systick_1ms_IRQ_init (SystemCoreClock s1)) (acc s1)\<rparr> in
      case dri_usart_init hw (acc s2) of
        None \<Rightarrow> None
      | Some (Inl e, h) \<Rightarrow> Some (Inl e)
      | Some (Inr r, h) \<Rightarrow>
         (case on_acc (printf hw (''register'' @ LF)) (s2\<lparr>acc := h\<rparr>) of
            None \<Rightarrow> None
          | Some s3 \<Rightarrow> Some (Inr s3)))"

text \<open>\<open>main\<close> never returns; this is its state after \<open>n\<close> rounds of the loop.\<close>

primrec main_rounds :: "hardware \<Rightarrow> (nat \<Rightarrow> nat) \<Rightarrow> nat \<Rightarrow> board \<Rightarrow> (stop + board) option" where
  "main_rounds hw irq 0 s = main_setup hw s"
| "main_rounds hw irq (Suc n) s =
     (case main_rounds hw irq n s of
        None \<Rightarrow> None
      | Some (Inl e) \<Rightarrow> Some (Inl e)
      | Some (Inr s') \<Rightarrow> main_body hw irq s')"

end
