(* ===== verification/GpioLaws.thy ===== *)
theory GpioLaws
  imports Gpio
begin

text \<open>
  What \<open>GPIO_InitPeripheral\<close> does to the sixteen pins of a port, read through the bit fields of
  its registers.
\<close>

subsection \<open>Bit fields of equal width\<close>

definition fld :: "nat \<Rightarrow> u32 \<Rightarrow> nat \<Rightarrow> u32" where
  "fld k w i = take_bit k (drop_bit (k * i) w)"

lemma fld_put:
  assumes "k * Suc i \<le> 32" and "k * Suc j \<le> 32" and "take_bit k v = v"
  shows "fld k (w AND NOT (push_bit (k * j) (mask k)) OR push_bit (k * j) v) i =
           (if i = j then v else fld k w i)"
proof (rule bit_word_eqI)
  fix n assume "n < LENGTH(32)"
  have v: "bit v m \<Longrightarrow> m < k" for m
    using assms(3) by (metis bit_take_bit_iff)
  have le: "k * i + n < 32" if "n < k"
    using assms(1) that by simp
  consider "i = j" | "i < j" | "j < i" by linarith
  then show "bit (fld k (w AND NOT (push_bit (k * j) (mask k)) OR push_bit (k * j) v) i) n =
      bit (if i = j then v else fld k w i) n"
  proof cases
    case 1
    then show ?thesis
      using le v by (auto simp: fld_def bit_simps)
  next
    case 2
    then have "k * Suc i \<le> k * j" by (intro mult_le_mono) auto
    then have "k * i + n < k * j" if "n < k" using that by simp
    with 2 show ?thesis
      using le v by (auto simp: fld_def bit_simps)
  next
    case 3
    then have "k * Suc j \<le> k * i" by (intro mult_le_mono) auto
    then have "k \<le> k * i + n - k * j" by simp
    with 3 show ?thesis
      using le v by (auto simp: fld_def bit_simps dest: leD)
  qed
qed

lemma fld_put2:
  assumes "i < 16" and "j < 16" and "v AND 3 = v"
  shows "fld 2 (w AND NOT (push_bit (j * 2) 3) OR push_bit (j * 2) v) i = (if i = j then v else fld 2 w i)"
proof -
  have "take_bit 2 v = v" using assms(3) by (simp add: take_bit_eq_mask mask_eq_exp_minus_1)
  with fld_put [of 2 i j v w] assms(1,2) show ?thesis
    by (simp add: mask_eq_exp_minus_1 mult.commute)
qed

lemma fld_put1:
  assumes "i < 16" and "j < 16" and "v AND 1 = v"
  shows "fld 1 (w AND NOT (push_bit j 1) OR push_bit j v) i = (if i = j then v else fld 1 w i)"
proof -
  have "take_bit 1 v = v" using assms(3) by (simp add: take_bit_eq_mask mask_eq_exp_minus_1)
  with fld_put [of 1 i j v w] assms(1,2) show ?thesis
    by (simp add: mask_eq_exp_minus_1)
qed

lemma fld_put4:
  assumes "i < 8" and "j < 8" and "v AND 0xF = v"
  shows "fld 4 (w AND NOT (push_bit (j * 4) 0xF) OR push_bit (j * 4) v) i = (if i = j then v else fld 4 w i)"
proof -
  have "take_bit 4 v = v" using assms(3) by (simp add: take_bit_eq_mask mask_eq_exp_minus_1)
  with fld_put [of 4 i j v w] assms(1,2) show ?thesis
    by (simp add: mask_eq_exp_minus_1 mult.commute)
qed

subsection \<open>The configuration of a pin\<close>

record pin_cfg =
  pc_mode :: u32
  pc_pull :: u32
  pc_drive :: u32
  pc_slew :: u32
  pc_type :: u32
  pc_af :: u32
  pc_out :: bool
  pc_interrupt :: bool
  pc_event :: bool
  pc_rising :: bool
  pc_falling :: bool

text \<open>
  The output a port drives on a pin: a one in the low half of \<open>PBSC\<close> sets it, a one in the high half or in \<open>PBC\<close>
  resets it, and \<open>POD\<close> holds all of them. The drivers do not write these registers bit by bit.
\<close>

fun driven :: "hist \<Rightarrow> port \<Rightarrow> nat \<Rightarrow> bool" where
  "driven [] p i = False"
| "driven (Wr r v # h) p i =
     (if r = GPIO p PBSC then bit v i \<or> \<not> bit v (16 + i) \<and> driven h p i
      else if r = GPIO p PBC then \<not> bit v i \<and> driven h p i
      else if r = GPIO p POD then bit v i
      else driven h p i)"
| "driven (Rd r v # h) p i = driven h p i"
| "driven (Bb r n v # h) p i = driven h p i"
| "driven (Log l t m # h) p i = driven h p i"

text \<open>A pin: its fields in the registers of the port, what it drives, and the bits of its EXTI line.\<close>

definition pin_view :: "hist \<Rightarrow> port \<Rightarrow> nat \<Rightarrow> pin_cfg" where
  "pin_view h p i =
     \<lparr>pc_mode = fld 2 (mem h (GPIO p PMODE)) i, pc_pull = fld 2 (mem h (GPIO p PUPD)) i,
      pc_drive = fld 2 (mem h (GPIO p DS)) i, pc_slew = fld 1 (mem h (GPIO p SR)) i,
      pc_type = fld 1 (mem h (GPIO p POTYPE)) i,
      pc_af = fld 4 (mem h (GPIO p (if i < 8 then AFL else AFH))) (i mod 8),
      pc_out = driven h p i,
      pc_interrupt = bit (mem h EXTI_IMASK) i, pc_event = bit (mem h EXTI_EMASK) i,
      pc_rising = bit (mem h EXTI_RT_CFG) i, pc_falling = bit (mem h EXTI_FT_CFG) i\<rparr>"

text \<open>What the configuration structure asks of a pin.\<close>

definition configured :: "GPIO_InitType \<Rightarrow> pin_cfg \<Rightarrow> pin_cfg" where
  "configured ini c =
     (let m = GPIO_Mode ini in
      \<lparr>pc_mode = m AND 3,
       pc_pull = GPIO_Pull ini AND 3,
       pc_drive = (if m AND 3 \<noteq> 0 \<and> m \<noteq> GPIO_Mode_Analog then GPIO_Current ini AND 3 else pc_drive c),
       pc_slew = GPIO_Slew_Rate ini AND 1,
       pc_type = (if m \<in> {GPIO_Mode_Out_PP, GPIO_Mode_AF_PP, GPIO_Mode_Out_OD, GPIO_Mode_AF_OD}
                  then drop_bit 4 (m AND 0x10) else pc_type c),
       pc_af = (if m \<in> {GPIO_Mode_AF_PP, GPIO_Mode_AF_OD, GPIO_Mode_Input, GPIO_Mode_Analog}
                then GPIO_Alternate ini else pc_af c),
       pc_out = (if GPIO_Pull ini = GPIO_Pull_Down then False
                 else if GPIO_Pull ini = GPIO_Pull_Up then True else pc_out c),
       pc_interrupt = (if bit m 28 then bit m 16 else pc_interrupt c),
       pc_event = (if bit m 28 then bit m 17 else pc_event c),
       pc_rising = (if bit m 28 then bit m 20 else pc_rising c),
       pc_falling = (if bit m 28 then bit m 21 else pc_falling c)\<rparr>)"

definition valid_init :: "GPIO_InitType \<Rightarrow> bool" where
  "valid_init ini \<longleftrightarrow> GPIO_Mode ini AND 0xC = 0 \<and> GPIO_Alternate ini AND 0xF = GPIO_Alternate ini"

text \<open>
  The configuration registers of the port and of the EXTI read back what was written; \<open>PBSC\<close> and \<open>PBC\<close> are
  registers to write, which read as zero.
\<close>

definition exti_regs :: "reg set" where
  "exti_regs = {EXTI_IMASK, EXTI_EMASK, EXTI_RT_CFG, EXTI_FT_CFG}"

definition gpio_law :: "hardware \<Rightarrow> port \<Rightarrow> bool" where
  "gpio_law hw p \<longleftrightarrow>
     (\<forall>h. (\<forall>g \<in> {PMODE, POTYPE, SR, PUPD, AFL, AFH, DS}. hw h (GPIO p g) = mem h (GPIO p g)) \<and>
       (\<forall>g \<in> {PBSC, PBC}. hw h (GPIO p g) = 0) \<and> (\<forall>e \<in> exti_regs. hw h e = mem h e))"

lemma gpio_lawD:
  assumes "gpio_law hw p"
  shows "hw h (GPIO p PMODE) = mem h (GPIO p PMODE)" "hw h (GPIO p POTYPE) = mem h (GPIO p POTYPE)"
    "hw h (GPIO p SR) = mem h (GPIO p SR)" "hw h (GPIO p PUPD) = mem h (GPIO p PUPD)"
    "hw h (GPIO p AFL) = mem h (GPIO p AFL)" "hw h (GPIO p AFH) = mem h (GPIO p AFH)"
    "hw h (GPIO p DS) = mem h (GPIO p DS)" "hw h (GPIO p PBSC) = 0" "hw h (GPIO p PBC) = 0"
    "e \<in> exti_regs \<Longrightarrow> hw h e = mem h e"
  using assms by (simp_all add: gpio_law_def)

lemma mem_put_field:
  "mem (aft (put_field hw r m k v) h) q =
     (if q = r then hw h r AND NOT (push_bit k m) OR push_bit k v else mem h q)"
  by (simp add: put_field_def)

lemma mem_exti_bit:
  "mem (aft (exti_bit hw r j on) h) (GPIO p g) = mem h (GPIO p g)" if "r = EXTI_IMASK \<or> r = EXTI_EMASK \<or> r = EXTI_RT_CFG \<or> r = EXTI_FT_CFG"
  using that by (auto simp: exti_bit_def mem_put_field)

lemma mem_if: "mem (aft (if c then P else Q) h) r = (if c then mem (aft P h) r else mem (aft Q h) r)"
  by simp

lemma mode_low: "m AND 0xC = 0 \<Longrightarrow> m AND 0xF = m AND 3" for m :: u32
proof -
  assume z: "m AND 0xC = 0"
  have "m AND 0xF = m AND (0xC OR 3)" by simp
  also have "\<dots> = m AND 3" unfolding bit.conj_disj_distrib z by simp
  finally show ?thesis .
qed

lemma af_reg_neq:
  "g \<notin> {AFL, AFH} \<Longrightarrow> g \<noteq> af_reg j" "g \<notin> {AFL, AFH} \<Longrightarrow> af_reg j \<noteq> g"
  by (auto simp: af_reg_def)

lemmas init_pin_mem = init_pin_def Let_def run_bind mem_if mem_put_field mem_exti_bit

lemma init_pin_regs:
  assumes "gpio_law hw p" and "valid_init ini"
  defines "m \<equiv> GPIO_Mode ini"
  shows "mem (aft (init_pin hw p ini j) h) (GPIO p PMODE) =
           mem h (GPIO p PMODE) AND NOT (push_bit (j * 2) 3) OR push_bit (j * 2) (m AND 3)"
    and "mem (aft (init_pin hw p ini j) h) (GPIO p PUPD) =
           mem h (GPIO p PUPD) AND NOT (push_bit (j * 2) 3) OR push_bit (j * 2) (GPIO_Pull ini AND 3)"
    and "mem (aft (init_pin hw p ini j) h) (GPIO p SR) =
           mem h (GPIO p SR) AND NOT (push_bit j 1) OR push_bit j (GPIO_Slew_Rate ini AND 1)"
    and "mem (aft (init_pin hw p ini j) h) (GPIO p DS) =
           (if m AND 3 \<noteq> 0 \<and> m \<noteq> GPIO_Mode_Analog
            then mem h (GPIO p DS) AND NOT (push_bit (j * 2) 3) OR push_bit (j * 2) (GPIO_Current ini AND 3)
            else mem h (GPIO p DS))"
    and "mem (aft (init_pin hw p ini j) h) (GPIO p POTYPE) =
           (if m \<in> {GPIO_Mode_Out_PP, GPIO_Mode_AF_PP, GPIO_Mode_Out_OD, GPIO_Mode_AF_OD}
            then mem h (GPIO p POTYPE) AND NOT (push_bit j 1) OR push_bit j (drop_bit 4 (m AND 0x10))
            else mem h (GPIO p POTYPE))"
  using assms(2)
  by (simp_all add: init_pin_mem gpio_lawD [OF assms(1)] mode_low valid_init_def m_def
      af_reg_neq split del: if_split del: run_state_bind push_bit_and cong: if_cong) (simp_all del: push_bit_and)


lemma init_pin_regs2:
  assumes "gpio_law hw p" and "valid_init ini" and "j < 16"
  defines "m \<equiv> GPIO_Mode ini"
  shows "mem (aft (init_pin hw p ini j) h) (GPIO p AFL) =
           (if m \<in> {GPIO_Mode_AF_PP, GPIO_Mode_AF_OD, GPIO_Mode_Input, GPIO_Mode_Analog} \<and> j < 8
            then mem h (GPIO p AFL) AND NOT (push_bit (j mod 8 * 4) 0xF) OR push_bit (j mod 8 * 4) (GPIO_Alternate ini)
            else mem h (GPIO p AFL))"
    and "mem (aft (init_pin hw p ini j) h) (GPIO p AFH) =
           (if m \<in> {GPIO_Mode_AF_PP, GPIO_Mode_AF_OD, GPIO_Mode_Input, GPIO_Mode_Analog} \<and> 8 \<le> j
            then mem h (GPIO p AFH) AND NOT (push_bit (j mod 8 * 4) 0xF) OR push_bit (j mod 8 * 4) (GPIO_Alternate ini)
            else mem h (GPIO p AFH))"
proof -
  have r: "af_reg j = (if 8 \<le> j then AFH else AFL)" "af_shift j = j mod 8 * 4"
    using assms(3) by (simp_all add: af_reg_def af_shift_def)
  show "mem (aft (init_pin hw p ini j) h) (GPIO p AFL) =
           (if m \<in> {GPIO_Mode_AF_PP, GPIO_Mode_AF_OD, GPIO_Mode_Input, GPIO_Mode_Analog} \<and> j < 8
            then mem h (GPIO p AFL) AND NOT (push_bit (j mod 8 * 4) 0xF) OR push_bit (j mod 8 * 4) (GPIO_Alternate ini)
            else mem h (GPIO p AFL))"
    by (cases "8 \<le> j"; simp add: init_pin_mem gpio_lawD [OF assms(1)] m_def r
        split del: if_split del: run_state_bind push_bit_and drop_bit_and cong: if_cong; auto?)
  show "mem (aft (init_pin hw p ini j) h) (GPIO p AFH) =
           (if m \<in> {GPIO_Mode_AF_PP, GPIO_Mode_AF_OD, GPIO_Mode_Input, GPIO_Mode_Analog} \<and> 8 \<le> j
            then mem h (GPIO p AFH) AND NOT (push_bit (j mod 8 * 4) 0xF) OR push_bit (j mod 8 * 4) (GPIO_Alternate ini)
            else mem h (GPIO p AFH))"
    by (cases "8 \<le> j"; simp add: init_pin_mem gpio_lawD [OF assms(1)] m_def r
        split del: if_split del: run_state_bind push_bit_and drop_bit_and cong: if_cong; auto?)
qed

text \<open>The output and the EXTI line of a pin.\<close>

lemma driven_put_field [simp]:
  "r \<notin> {GPIO q PBSC, GPIO q PBC, GPIO q POD} \<Longrightarrow> driven (aft (put_field hw r m k v) h) q i = driven h q i"
  by (simp add: put_field_def)

lemma driven_if: "driven (aft (if c then P else Q) h) q i = (if c then driven (aft P h) q i else driven (aft Q h) q i)"
  by simp

lemma af_reg_cases: "af_reg j = AFL \<or> af_reg j = AFH"
  by (simp add: af_reg_def)

lemma init_pin_driven:
  assumes "gpio_law hw p" and "i < 16" and "j < 16"
  shows "driven (aft (init_pin hw p ini j) h) p i =
      (if i = j then (if GPIO_Pull ini = GPIO_Pull_Down then False
         else if GPIO_Pull ini = GPIO_Pull_Up then True else driven h p i) else driven h p i)"
    and "q \<noteq> p \<Longrightarrow> driven (aft (init_pin hw p ini j) h) q k = driven h q k"
proof -
  have b: "bit (push_bit j (1 :: u32)) n \<longleftrightarrow> n = j" if "n < 32" for n
    using that assms(3) by (auto simp: bit_push_bit_iff bit_1_iff simp del: push_bit_of_1)
  have bb: "bit (push_bit j (1 :: u32)) i \<longleftrightarrow> i = j" "\<not> bit (push_bit j (1 :: u32)) (16 + i)"
    using b [of i] b [of "16 + i"] assms(2,3) by auto
  have af: "af_reg j \<noteq> PBSC" "af_reg j \<noteq> PBC" "af_reg j \<noteq> POD" using af_reg_cases [of j] by auto
  note d = init_pin_def Let_def run_bind driven_if exti_bit_def gpio_lawD(8,9) [OF assms(1)]
  show "driven (aft (init_pin hw p ini j) h) p i =
      (if i = j then (if GPIO_Pull ini = GPIO_Pull_Down then False
         else if GPIO_Pull ini = GPIO_Pull_Up then True else driven h p i) else driven h p i)"
    by (simp add: d bb af del: run_state_bind push_bit_and push_bit_of_1 cong: if_cong)
  show "driven (aft (init_pin hw p ini j) h) q k = driven h q k" if "q \<noteq> p"
    using that by (simp add: d af del: run_state_bind push_bit_and push_bit_of_1 cong: if_cong)
qed

lemma and_bit:
  fixes m :: u32
  shows "m AND 2 ^ n \<noteq> 0 \<longleftrightarrow> bit m n" and "n < 32 \<Longrightarrow> m AND 2 ^ n = 2 ^ n \<longleftrightarrow> bit m n"
proof -
  show z: "m AND 2 ^ n \<noteq> 0 \<longleftrightarrow> bit m n" by (simp add: and_exp_eq_0_iff_not_bit)
  show "m AND 2 ^ n = 2 ^ n \<longleftrightarrow> bit m n" if "n < 32"
  proof
    assume "m AND 2 ^ n = 2 ^ n"
    moreover have "bit (2 ^ n :: u32) n" using that by (simp add: bit_exp_iff)
    ultimately show "bit m n" by (metis bit_and_iff)
  next
    assume "bit m n"
    then show "m AND 2 ^ n = 2 ^ n" by (intro bit_word_eqI) (auto simp: bit_and_iff bit_exp_iff)
  qed
qed

lemma mode_bits:
  fixes m :: u32
  shows "m AND 0x10000000 \<noteq> 0 \<longleftrightarrow> bit m 28" "m AND 0x00010000 = 0x00010000 \<longleftrightarrow> bit m 16"
    "m AND 0x00020000 = 0x00020000 \<longleftrightarrow> bit m 17" "m AND 0x00100000 = 0x00100000 \<longleftrightarrow> bit m 20"
    "m AND 0x00200000 = 0x00200000 \<longleftrightarrow> bit m 21"
  using and_bit(1) [of m 28] and_bit(2) [of 16 m] and_bit(2) [of 17 m] and_bit(2) [of 20 m] and_bit(2) [of 21 m]
  by simp_all

lemma bit_put:
  assumes "k < 32" and "j < 32"
  shows "bit (w AND NOT (push_bit j 1) OR push_bit j (if on then 1 else 0) :: u32) k = (if k = j then on else bit w k)"
proof -
  have "bit (push_bit j (1 :: u32)) k \<longleftrightarrow> k = j"
    using assms by (auto simp: bit_push_bit_iff bit_1_iff simp del: push_bit_of_1)
  then show ?thesis using assms by (cases on) (auto simp: bit_or_iff bit_and_iff bit_not_iff simp del: push_bit_of_1)
qed

lemma mem_init_pin_exti:
  assumes "gpio_law hw p" and "e \<in> exti_regs"
  shows "mem (aft (init_pin hw p ini j) h) e =
      (if bit (GPIO_Mode ini) 28
       then mem h e AND NOT (push_bit j 1) OR push_bit j (if bit (GPIO_Mode ini)
         (if e = EXTI_IMASK then 16 else if e = EXTI_EMASK then 17 else if e = EXTI_RT_CFG then 20 else 21) then 1 else 0)
       else mem h e)"
proof -
  have x: "EXTI_IMASK \<in> exti_regs" "EXTI_EMASK \<in> exti_regs" "EXTI_RT_CFG \<in> exti_regs" "EXTI_FT_CFG \<in> exti_regs"
    by (simp_all add: exti_regs_def)
  note r = gpio_lawD(10) [OF assms(1) x(1)] gpio_lawD(10) [OF assms(1) x(2)] gpio_lawD(10) [OF assms(1) x(3)]
    gpio_lawD(10) [OF assms(1) x(4)]
  have n: "e \<noteq> GPIO q g" "GPIO q g \<noteq> e" for q g using assms(2) by (auto simp: exti_regs_def)
  show ?thesis
    using assms(2) unfolding exti_regs_def
    by (elim insertE emptyE)
      (simp_all add: init_pin_def Let_def run_bind mem_if mem_put_field exti_bit_def mode_bits r
        split del: if_split del: run_state_bind push_bit_and push_bit_of_1 cong: if_cong)
qed

lemma init_pin_exti:
  assumes "gpio_law hw p" and "e \<in> exti_regs" and "k < 32" and "j < 16"
  shows "bit (mem (aft (init_pin hw p ini j) h) e) k =
      (if k = j \<and> bit (GPIO_Mode ini) 28
       then bit (GPIO_Mode ini) (if e = EXTI_IMASK then 16 else if e = EXTI_EMASK then 17 else if e = EXTI_RT_CFG then 20 else 21)
       else bit (mem h e) k)"
proof -
  have j: "j < 32" using assms(4) by simp
  show ?thesis
    unfolding mem_init_pin_exti [OF assms(1,2)]
    by (cases "bit (GPIO_Mode ini) 28") (simp_all only: bit_put [OF assms(3) j] simp_thms if_True if_False)
qed

text \<open>The registers that the configuration of a pin writes.\<close>

definition pin_regs :: "port \<Rightarrow> reg set" where
  "pin_regs p = GPIO p ` {PMODE, POTYPE, SR, PUPD, AFL, AFH, DS, PBSC, PBC} \<union> exti_regs"

lemma init_pin_frame:
  assumes "r \<notin> pin_regs p"
  shows "mem (aft (init_pin hw p ini j) h) r = mem h r"
proof -
  have n: "r \<noteq> GPIO p (af_reg j)" "GPIO p (af_reg j) \<noteq> r" using assms af_reg_cases [of j] by (auto simp: pin_regs_def)
  have e: "mem (aft (exti_bit hw e j on) h) r = mem h r" if "r \<noteq> e" for e on h
    using that by (simp add: exti_bit_def mem_put_field)
  show ?thesis
    using assms unfolding pin_regs_def exti_regs_def
    by (simp add: init_pin_def Let_def run_bind mem_if mem_put_field e n not_sym [of r]
        split del: if_split del: run_state_bind push_bit_and cong: if_cong)
qed

lemma init_pin_view:
  assumes "gpio_law hw p" and "valid_init ini" and "i < 16" and "j < 16"
  shows "pin_view (aft (init_pin hw p ini j) h) p i =
           (if i = j then configured ini (pin_view h p i) else pin_view h p i)"
proof -
  have af: "GPIO_Alternate ini AND 0xF = GPIO_Alternate ini"
    using assms(2) by (simp add: valid_init_def)
  have one: "drop_bit 4 (GPIO_Mode ini AND 0x10) AND 1 = drop_bit 4 (GPIO_Mode ini AND 0x10)"
    by (rule bit_word_eqI) (auto simp: bit_simps)
  have idx: "i mod 8 < 8" "j mod 8 < 8" by simp_all
  have same: "i mod 8 = j mod 8 \<longleftrightarrow> i = j" if "(i < 8) = (j < 8)"
  proof -
    have "k mod 8 = (if k < 8 then k else k - 8)" if "k < 16" for k :: nat
      using that by (simp add: le_mod_geq)
    with assms(3,4) that show ?thesis by (cases "i < 8"; cases "j < 8"; simp add: eq_diff_iff)
  qed
  let ?h = "aft (init_pin hw p ini j) h" and ?m = "GPIO_Mode ini"
  note regs = init_pin_regs [OF assms(1,2), of j h] and regs2 = init_pin_regs2 [OF assms(1,2,4), of h]
  note p2 = fld_put2 [OF assms(3,4)] and p1 = fld_put1 [OF assms(3,4)]
  note p4 = fld_put4 [OF idx af, of "mem h (GPIO p AFL)"] fld_put4 [OF idx af, of "mem h (GPIO p AFH)"]
  have two: "(x AND 3) AND 3 = x AND 3" and bit1: "(x AND 1) AND 1 = x AND 1" for x :: u32
    by (simp_all add: and.assoc)
  have "fld 2 (mem ?h (GPIO p PMODE)) i = (if i = j then ?m AND 3 else fld 2 (mem h (GPIO p PMODE)) i)"
    unfolding regs(1) by (rule p2 [OF two])
  moreover have "fld 2 (mem ?h (GPIO p PUPD)) i =
      (if i = j then GPIO_Pull ini AND 3 else fld 2 (mem h (GPIO p PUPD)) i)"
    unfolding regs(2) by (rule p2 [OF two])
  moreover have "fld 1 (mem ?h (GPIO p SR)) i =
      (if i = j then GPIO_Slew_Rate ini AND 1 else fld 1 (mem h (GPIO p SR)) i)"
    unfolding regs(3) by (rule p1 [OF bit1])
  moreover have "fld 2 (mem ?h (GPIO p DS)) i =
      (if i = j \<and> ?m AND 3 \<noteq> 0 \<and> ?m \<noteq> GPIO_Mode_Analog then GPIO_Current ini AND 3
       else fld 2 (mem h (GPIO p DS)) i)"
    by (cases "?m AND 3 = 0"; cases "?m = 3")
      (simp_all only: regs(4) p2 [OF two] simp_thms if_True if_False)
  moreover have "fld 1 (mem ?h (GPIO p POTYPE)) i =
      (if i = j \<and> ?m \<in> {GPIO_Mode_Out_PP, GPIO_Mode_AF_PP, GPIO_Mode_Out_OD, GPIO_Mode_AF_OD}
       then drop_bit 4 (?m AND 0x10) else fld 1 (mem h (GPIO p POTYPE)) i)"
    by (cases "?m \<in> {1, 2, 0x11, 0x12}")
      (simp_all only: regs(5) p1 [OF one] simp_thms if_True if_False)
  moreover have "fld 4 (mem ?h (GPIO p (if i < 8 then AFL else AFH))) (i mod 8) =
      (if i = j \<and> ?m \<in> {GPIO_Mode_AF_PP, GPIO_Mode_AF_OD, GPIO_Mode_Input, GPIO_Mode_Analog}
       then GPIO_Alternate ini else fld 4 (mem h (GPIO p (if i < 8 then AFL else AFH))) (i mod 8))"
    using same
    by (cases "i < 8"; cases "j < 8"; cases "?m \<in> {2, 0x12, 0, 3}")
      (simp_all only: regs2 p4 not_less [symmetric] simp_thms if_True if_False, auto)
  moreover have "driven ?h p i =
      (if i = j then (if GPIO_Pull ini = GPIO_Pull_Down then False
         else if GPIO_Pull ini = GPIO_Pull_Up then True else driven h p i) else driven h p i)"
    by (rule init_pin_driven(1) [OF assms(1,3,4)])
  moreover have "bit (mem ?h e) i = (if i = j \<and> bit ?m 28
      then bit ?m (if e = EXTI_IMASK then 16 else if e = EXTI_EMASK then 17 else if e = EXTI_RT_CFG then 20 else 21)
      else bit (mem h e) i)" if "e \<in> exti_regs" for e
    using init_pin_exti [OF assms(1) that, of i j] assms(3,4) by simp
  note this [of EXTI_IMASK] this [of EXTI_EMASK] this [of EXTI_RT_CFG] this [of EXTI_FT_CFG]
  ultimately show ?thesis
    by (cases "i = j") (simp_all add: pin_view_def configured_def Let_def exti_regs_def)
qed

lemma pins_loop_view:
  assumes "\<And>j h. j < 16 \<Longrightarrow> f (aft (body j) h) i = (if i = j then upd (f h i) else f h i)"
    and "i < 16"
  shows "f (aft (pins_loop pins body k) h) i =
           (if bit pins i \<and> k \<le> i then upd (f h i) else f h i)"
  using assms
proof (induction pins body k arbitrary: h rule: pins_loop.induct)
  case (1 pins body k)
  show ?case
  proof (cases "drop_bit k pins = 0")
    case True
    have "\<not> bit pins i" if "k \<le> i"
    proof
      assume "bit pins i"
      then have "bit (drop_bit k pins) (i - k)"
        using that by (simp add: bit_drop_bit_eq)
      with True show False by simp
    qed
    with True show ?thesis by (auto simp: pins_loop.simps)
  next
    case False
    let ?h1 = "aft (if bit pins k then body k else skip) h"
    have step: "f ?h1 i = (if bit pins k \<and> i = k then upd (f h i) else f h i)"
      using "1.prems" bit_imp_le_length [of pins k] by auto
    have "f (aft (pins_loop pins body k) h) i = f (aft (pins_loop pins body (Suc k)) ?h1) i"
      using False by (subst pins_loop.simps) (simp add: run_bind del: run_state_bind)
    also have "\<dots> = (if bit pins i \<and> Suc k \<le> i then upd (f ?h1 i) else f ?h1 i)"
      by (rule "1.IH" [OF False]) (use "1.prems" in auto)
    finally show ?thesis
      unfolding step by (cases "i = k") auto
  qed
qed

end
