(* ===== verification/BoardLaws.thy ===== *)
theory BoardLaws
  imports Systick GpioLaws
begin

text \<open>
  Text sent over the LPUART, the duration of a delay, and the shape of the main loop.
\<close>

subsection \<open>Characters sent\<close>

fun sent :: "hist \<Rightarrow> string" where
  "sent [] = []"
| "sent (Wr r v # h) = (if r = LPUART_DAT then sent h @ [char_of (unat v)] else sent h)"
| "sent (Rd r v # h) = sent h"
| "sent (Bb r n v # h) = sent h"
| "sent (Log l t m # h) = sent h"

lemma char_of_byte: "char_of (unat (ucast (char_byte c AND 0xFF) :: u32)) = c"
proof -
  have lt: "(of_char c :: nat) < 256"
    by (simp add: of_char_def)
  have t: "take_bit 32 (of_char c :: nat) = of_char c"
    by (intro take_bit_nat_eq_self less_trans [OF lt]) simp
  from lt have u: "unat (char_byte c) = of_char c"
    by (simp add: char_byte_def unat_of_nat)
  have "(0xFF :: u8) = - 1" by simp
  then have "char_byte c AND 0xFF = char_byte c"
    by (simp only: bit.conj_one_right)
  then show ?thesis
    by (simp add: unsigned_ucast_eq u t)
qed

text \<open>
  The history after \<open>n\<close> reads of the status register; the transmitter is live when some read
  finds the transmission complete.
\<close>

primrec sts_reads :: "hardware \<Rightarrow> nat \<Rightarrow> hist \<Rightarrow> hist" where
  "sts_reads hw 0 h = h"
| "sts_reads hw (Suc n) h = (let g = sts_reads hw n h in Rd LPUART_STS (hw g LPUART_STS) # g)"

definition txc_at :: "hardware \<Rightarrow> hist \<Rightarrow> bool" where
  "txc_at hw h \<longleftrightarrow> (ucast (hw h LPUART_STS) :: u16) AND LPUART_FLAG_TXC \<noteq> 0"

definition txc_live :: "hardware \<Rightarrow> bool" where
  "txc_live hw \<longleftrightarrow> (\<forall>h. \<exists>n. txc_at hw (sts_reads hw n h))"

lemma sts_reads_Suc: "sts_reads hw (Suc n) h = sts_reads hw n (Rd LPUART_STS (hw h LPUART_STS) # h)"
  by (induction n) (simp_all add: Let_def)

lemma sent_sts_reads [simp]: "sent (sts_reads hw n h) = sent h"
  by (induction n) (simp_all add: Let_def)

lemma run_txc:
  "run_state (LPUART_GetFlagStatus hw LPUART_FLAG_TXC) h =
     (flag_of (txc_at hw h), Rd LPUART_STS (hw h LPUART_STS) # h)"
  by (simp add: LPUART_GetFlagStatus_def txc_at_def)

lemma spin_txc:
  assumes "txc_at hw (sts_reads hw n h)"
  shows "\<exists>m. spin_while hw LPUART_FLAG_TXC RESET h = Some (sts_reads hw m h)"
  using assms
proof (induction n arbitrary: h)
  case 0
  then show ?case
    by (intro exI [of _ 1]) (subst spin_while.simps, simp add: run_txc)
next
  case (Suc n)
  show ?case
  proof (cases "txc_at hw h")
    case True
    then show ?thesis
      by (intro exI [of _ 1]) (subst spin_while.simps, simp add: run_txc)
  next
    case False
    let ?g = "Rd LPUART_STS (hw h LPUART_STS) # h"
    have "txc_at hw (sts_reads hw n ?g)"
      using Suc.prems unfolding sts_reads_Suc .
    from Suc.IH [OF this] obtain m where "spin_while hw LPUART_FLAG_TXC RESET ?g = Some (sts_reads hw m ?g)" ..
    with False show ?thesis
      by (intro exI [of _ "Suc m"]) (subst spin_while.simps, simp add: run_txc sts_reads_Suc del: sts_reads.simps)
  qed
qed

lemma fputc_sent:
  assumes "txc_live hw"
  shows "\<exists>h'. fputc hw c h = Some h' \<and> sent h' = sent h @ [c]"
proof -
  let ?g = "aft (LPUART_SendData (char_byte c)) h"
  from assms obtain n where "txc_at hw (sts_reads hw n ?g)"
    unfolding txc_live_def by blast
  from spin_txc [OF this] obtain m where
    m: "spin_while hw LPUART_FLAG_TXC RESET ?g = Some (sts_reads hw m ?g)" ..
  have "sent ?g = sent h @ [c]"
    by (simp add: LPUART_SendData_def char_of_byte)
  with m show ?thesis
    by (simp add: fputc_def LPUART_ClrFlag_def)
qed

lemma printf_sent:
  assumes "txc_live hw"
  shows "\<exists>h'. printf hw t h = Some h' \<and> sent h' = sent h @ t"
proof (induction t arbitrary: h)
  case (Cons c t)
  from fputc_sent [OF assms, of c h] obtain g where "fputc hw c h = Some g" "sent g = sent h @ [c]"
    by blast
  with Cons [of g] show ?case by auto
qed simp

subsection \<open>Delay\<close>

text \<open>The interrupts taken in \<open>n\<close> reads of the tick, and the board after them.\<close>

definition taken :: "(nat \<Rightarrow> nat) \<Rightarrow> board \<Rightarrow> nat \<Rightarrow> nat" where
  "taken irq s n = sum irq {reads s..<reads s + n}"

definition after_reads :: "(nat \<Rightarrow> nat) \<Rightarrow> board \<Rightarrow> nat \<Rightarrow> board" where
  "after_reads irq s n = s\<lparr>uwTick := uwTick s + of_nat (taken irq s n), reads := reads s + n\<rparr>"

lemma SysTick_Handler_pow: "(SysTick_Handler ^^ k) s = s\<lparr>uwTick := uwTick s + of_nat k\<rparr>"
  by (induction k) (simp_all add: SysTick_Handler_def)

lemma get_tick_after:
  "get_tick irq s = (uwTick s + of_nat (irq (reads s)), after_reads irq s 1)"
  by (simp add: get_tick_def SysTick_Handler_pow after_reads_def taken_def)

lemma after_reads_Suc: "after_reads irq (after_reads irq s 1) n = after_reads irq s (Suc n)"
proof -
  have "sum irq {reads s..<Suc (reads s + n)} = irq (reads s) + sum irq {Suc (reads s)..<Suc (reads s + n)}"
    by (rule sum.atLeast_Suc_lessThan) simp
  then show ?thesis by (simp add: after_reads_def taken_def)
qed

lemma taken_Suc: "taken irq s (Suc n) = taken irq s n + irq (reads s + n)"
  by (simp add: taken_def)

lemma tick_wrap_free:
  "m < 2 ^ 32 \<Longrightarrow> (t + of_nat m) - t < (w :: u32) \<longleftrightarrow> m < unat w" for t :: u32
  by (simp add: word_less_nat_alt unat_of_nat)

lemma delay_loop_runs:
  assumes "tick_callback s \<noteq> None" and "taken irq s (Suc N) < 2 ^ 32"
    and "unat w \<le> c + taken irq s (Suc N)" and "c + taken irq s (Suc N) < 2 ^ 32"
    and "\<forall>m < Suc N. 0 < m \<longrightarrow> c + taken irq s m < unat w"
    and "uwTick s = t + of_nat c"
  shows "delay_loop irq t w s = Some (Inr (after_reads irq s (Suc N)))"
  using assms
proof (induction N arbitrary: s c)
  case 0
  then have "\<not> (t + of_nat (c + irq (reads s))) - t < w"
    by (subst tick_wrap_free) (simp_all add: taken_def)
  with 0 show ?case
    by (subst delay_loop.simps) (auto simp: dri_systick_get_tick_def get_tick_after ac_simps
        split: tick_fun.splits option.splits)
next
  case (Suc N)
  let ?s = "after_reads irq s 1" and ?c = "c + irq (reads s)"
  have c: "?c < unat w" using Suc.prems(5) by (auto simp: taken_def)
  moreover have "unat w < 2 ^ LENGTH(32)" by (rule unsigned_less)
  ultimately have lt: "(t + of_nat ?c) - t < w"
    by (subst tick_wrap_free) auto
  have tk: "c + taken irq s (Suc m) = ?c + taken irq ?s m" for m
  proof -
    have "taken irq s (Suc m) = irq (reads s) + taken irq ?s m"
      using sum.atLeast_Suc_lessThan [of "reads s" "Suc (reads s + m)" irq]
      by (simp add: taken_def after_reads_def)
    then show ?thesis by simp
  qed
  have "delay_loop irq t w ?s = Some (Inr (after_reads irq ?s (Suc N)))"
  proof (rule Suc.IH)
    show "tick_callback ?s \<noteq> None" using Suc.prems(1) by (simp add: after_reads_def)
    show "unat w \<le> ?c + taken irq ?s (Suc N)" "?c + taken irq ?s (Suc N) < 2 ^ 32"
      using Suc.prems(3,4) unfolding tk by simp_all
    then show "taken irq ?s (Suc N) < 2 ^ 32" by simp
    show "\<forall>m<Suc N. 0 < m \<longrightarrow> ?c + taken irq ?s m < unat w"
    proof (intro allI impI)
      fix m assume "m < Suc N" "0 < m"
      then show "?c + taken irq ?s m < unat w"
        using Suc.prems(5) [rule_format, of "Suc m"] unfolding tk by simp
    qed
    show "uwTick ?s = t + of_nat ?c"
      using Suc.prems(6) by (simp add: after_reads_def taken_def ac_simps)
  qed
  with lt Suc.prems(1,6) show ?case
    by (subst delay_loop.simps) (auto simp: dri_systick_get_tick_def get_tick_after ac_simps
        after_reads_Suc [unfolded One_nat_def] split: tick_fun.splits option.splits)
qed


text \<open>
  The interrupt rate: between two reads at most \<open>B\<close> interrupts, and they keep coming.
\<close>

definition ticking :: "(nat \<Rightarrow> nat) \<Rightarrow> nat \<Rightarrow> bool" where
  "ticking irq B \<longleftrightarrow> (\<forall>n. irq n \<le> B) \<and> (\<forall>a m. \<exists>n. m \<le> sum irq {a..<a + n})"

lemma delay_loop_ticking:
  assumes "tick_callback s \<noteq> None" and "ticking irq B" and "0 < w"
    and "unat w + B \<le> 2 ^ 32"
  shows "\<exists>n. delay_loop irq (uwTick s) w s = Some (Inr (after_reads irq s n)) \<and>
             unat w \<le> taken irq s n \<and> taken irq s n < unat w + B"
proof -
  let ?P = "\<lambda>n. unat w \<le> taken irq s n"
  have "\<exists>n. ?P n" using assms(2) by (simp add: ticking_def taken_def)
  then have N: "?P (LEAST n. ?P n)" by (rule LeastI_ex)
  have least: "\<not> ?P m" if "m < (LEAST n. ?P n)" for m
    using that by (rule not_less_Least)
  have "0 < unat w" using assms(3) by (simp add: unat_gt_0)
  then have "(LEAST n. ?P n) \<noteq> 0" using N by (intro notI) (simp add: taken_def)
  then obtain M where M: "(LEAST n. ?P n) = Suc M" by (cases "LEAST n. ?P n") auto
  have "taken irq s M < unat w" using least [of M] M by simp
  moreover have "irq (reads s + M) \<le> B" using assms(2) by (simp add: ticking_def)
  ultimately have up: "taken irq s (Suc M) < unat w + B" by (simp add: taken_Suc)
  have "delay_loop irq (uwTick s) w s = Some (Inr (after_reads irq s (Suc M)))"
  proof (rule delay_loop_runs [where c = 0])
    show "taken irq s (Suc M) < 2 ^ 32" "0 + taken irq s (Suc M) < 2 ^ 32"
      using up assms(4) by linarith+
    show "unat w \<le> 0 + taken irq s (Suc M)" using N unfolding M by simp
    show "\<forall>m<Suc M. 0 < m \<longrightarrow> 0 + taken irq s m < unat w"
      using least unfolding M by (simp add: not_le)
  qed (use assms(1) in simp_all)
  with N M up show ?thesis by auto
qed

subsection \<open>Bring-up sends nothing\<close>

definition silent :: "'a io \<Rightarrow> bool" where
  "silent p \<longleftrightarrow> (\<forall>h. sent (aft p h) = sent h)"

named_theorems silent_intros

lemma silent_bind [silent_intros]:
  "silent p \<Longrightarrow> (\<And>x. silent (q x)) \<Longrightarrow> silent (State_Monad.bind p q)"
  by (simp add: silent_def run_bind del: run_state_bind)

lemma silent_if [silent_intros]: "silent p \<Longrightarrow> silent q \<Longrightarrow> silent (if c then p else q)"
  by simp

lemma silent_prims [silent_intros]:
  "silent (ret x)" "silent skip" "silent (rd hw r)" "silent (rd16 hw r)" "silent (bb r n v)"
  "r \<noteq> LPUART_DAT \<Longrightarrow> silent (wr r v)" "r \<noteq> LPUART_DAT \<Longrightarrow> silent (wr16 r a)"
  "r \<noteq> LPUART_DAT \<Longrightarrow> silent (wr8 r b)" "r \<noteq> LPUART_DAT \<Longrightarrow> silent (and_reg hw r v)"
  "r \<noteq> LPUART_DAT \<Longrightarrow> silent (or_reg hw r v)" "r \<noteq> LPUART_DAT \<Longrightarrow> silent (set_field hw r v w)"
  "r \<noteq> LPUART_DAT \<Longrightarrow> silent (and16 hw r a)" "r \<noteq> LPUART_DAT \<Longrightarrow> silent (or16 hw r a)"
  "r \<noteq> LPUART_DAT \<Longrightarrow> silent (put_field hw r v k w)"
  by (simp_all add: silent_def put_field_def)

lemma silent_bindS [silent_intros]:
  "silent p \<Longrightarrow> (\<And>x. silent (q x)) \<Longrightarrow> silent (bindS p q)"
  unfolding bindS_def by (rule silent_bind) (auto split: sum.splits intro: silent_prims)

lemma sent_reads: "\<forall>a \<in> set rs. is_rd a \<Longrightarrow> sent (rs @ h) = sent h"
  by (induction rs) (auto simp: is_rd_def split: access.splits)

lemma silent_reads: "reads_only p \<Longrightarrow> silent p"
  unfolding silent_def by (metis sent_reads prod.collapse reads_onlyE)

lemma silent_pins_loop [silent_intros]:
  "(\<And>k. silent (body k)) \<Longrightarrow> silent (pins_loop pins body k)"
proof (induction pins body k rule: pins_loop.induct)
  case (1 pins body k)
  show ?case
  proof (cases "drop_bit k pins = 0")
    case True
    then show ?thesis by (simp add: pins_loop.simps silent_prims)
  next
    case False
    have "silent (pins_loop pins body (Suc k))" by (rule "1.IH" [OF False "1.prems"])
    then have "silent (State_Monad.bind (if bit pins k then body k else skip)
        (\<lambda>_. pins_loop pins body (Suc k)))"
      by (intro silent_intros "1.prems")
    with False show ?thesis by (subst pins_loop.simps) simp
  qed
qed

lemma silent_GPIO_Init [silent_intros]: "silent (GPIO_InitPeripheral hw p ini)"
  unfolding GPIO_InitPeripheral_def init_pin_def Let_def exti_bit_def
  by (intro silent_intros; simp)

lemma silent_RCC_Configuration [silent_intros]: "silent (RCC_Configuration hw RCC_LPUARTCLK_SRC_APB1)"
  by (simp add: silent_def RCC_Configuration_def RCC_ConfigLPUARTClk_def RCC_EnableRETPeriphClk_def)

lemma silent_lpuart_clock [silent_intros]: "silent (lpuart_clock hw)"
  unfolding lpuart_clock_def RCC_GetLPUARTClkSrc_def
  by (intro silent_intros silent_reads reads_only_GetClocks; simp)

lemma silent_usart_hw_init: "silent (usart_hw_init hw)"
  unfolding usart_hw_init_def GPIO_Configuration_def LPUART_DeInit_def LPUART_Init_def
    RCC_EnableAPB2PeriphClk_def RCC_EnableRETPeriphReset_def enable_bits_def Let_def
    LPUART_ConfigSamplingMethod_def
  by (intro silent_intros; simp)

subsection \<open>Bring-up succeeds\<close>

text \<open>The MSI range field never holds its eighth value.\<close>

definition msi_range_ok :: "hardware \<Rightarrow> bool" where
  "msi_range_ok hw \<longleftrightarrow> (\<forall>h. hw h RCC_CTRLSTS AND 0x70 \<noteq> 0x70)"

lemma msi_clock_ok:
  assumes "v AND 0x70 \<noteq> (0x70 :: u32)"
  shows "\<exists>f. msi_clock (ucast (drop_bit 4 (v AND 0x70))) = Inr f"
proof -
  let ?k = "drop_bit 4 (v AND 0x70)"
  have k: "?k = drop_bit 4 v AND 7" by simp
  have "unat ?k < 7"
  proof (rule ccontr)
    assume "\<not> unat ?k < 7"
    moreover have "?k \<le> 7" unfolding k by (rule word_and_le1)
    ultimately have "?k = 7" by (simp add: word_le_nat_alt word_unat_eq_iff)
    then have "push_bit 4 ?k = 0x70" by simp
    moreover have low: "4 \<le> n" if "bit (0x70 :: int) n" for n
    proof (rule ccontr)
      assume "\<not> 4 \<le> n"
      then have "n = 0 \<or> n = 1 \<or> n = 2 \<or> n = 3" by auto
      with that show False by auto
    qed
    have "push_bit 4 ?k = v AND 0x70"
      by (rule bit_word_eqI) (auto simp: bit_simps dest: low)
    ultimately show False using assms by simp
  qed
  then have "unat (ucast ?k :: u8) < 7"
    by (simp only: unsigned_ucast_eq) (simp add: take_bit_nat_eq_self)
  then show ?thesis
    by (auto simp: msi_clock_def s_msiClockTable_def)
qed

lemma sysclk_freq_ok:
  assumes "v AND 0x70 \<noteq> (0x70 :: u32)"
  shows "\<exists>f. sysclk_freq t (ucast (drop_bit 4 (v AND 0x70))) p = Inr f"
  using msi_clock_ok [OF assms] by (auto simp: sysclk_freq_def)

lemma GetClocks_ok:
  assumes "msi_range_ok hw"
  shows "\<exists>c. res (RCC_GetClocksFreqValue hw) h = Inr c"
proof -
  have "\<exists>f. sysclk_freq t (ucast (drop_bit 4 (hw g RCC_CTRLSTS AND 0x70))) p = Inr f" for t p g
    using assms by (intro sysclk_freq_ok) (simp add: msi_range_ok_def)
  then show ?thesis
    unfolding RCC_GetClocksFreqValue_def Let_def
    by (auto simp: run_bind split: sum.splits simp del: run_state_bind drop_bit_and)
      (metis Inl_Inr_False)
qed

lemma res_bindS:
  "res (bindS p q) h = (case res p h of Inl e \<Rightarrow> Inl e | Inr a \<Rightarrow> res (q a) (aft p h))"
  by (simp add: bindS_def run_bind split: sum.splits del: run_state_bind)

lemma usart_hw_init_ok:
  assumes "msi_range_ok hw"
  shows "res (usart_hw_init hw) h = Inr ERR_SUCCESS"
proof -
  have clk: "\<exists>c. res (lpuart_clock hw) g = Inr c" for g
    using GetClocks_ok [OF assms]
    by (auto simp: lpuart_clock_def RCC_GetLPUARTClkSrc_def run_bind res_bindS split: sum.splits
        simp del: run_state_bind) (metis Inl_Inr_False)+
  have ini: "res (LPUART_Init hw (LPUART_StructInit\<lparr>BaudRate := 115200\<rparr>)) g = Inr ()" for g
    using clk by (auto simp: LPUART_Init_def run_bind res_bindS Let_def LPUART_StructInit_def
        split: sum.splits simp del: run_state_bind) (metis Inl_Inr_False)+
  have "res (RCC_Configuration hw RCC_LPUARTCLK_SRC_APB1) g = SUCCESS" for g
    by (simp add: RCC_Configuration_def run_bind del: run_state_bind)
  with ini show ?thesis
    by (simp add: usart_hw_init_def run_bind res_bindS del: run_state_bind)
qed

end
