(* ===== verification/MainLaws.thy ===== *)
theory MainLaws
  imports BoardLaws
begin

text \<open>The main program, round by round.\<close>

definition total :: "(nat \<Rightarrow> nat) \<Rightarrow> nat \<Rightarrow> nat" where
  "total irq k = sum irq {..<k}"

text \<open>The tick counts the interrupts modulo \<open>2\<^sup>3\<^sup>2\<close> and the callback is registered.\<close>

definition tick_inv :: "(nat \<Rightarrow> nat) \<Rightarrow> board \<Rightarrow> bool" where
  "tick_inv irq s \<longleftrightarrow> uwTick s = of_nat (total irq (reads s)) \<and> tick_callback s = Some Get_tick"

lemma total_taken: "total irq (reads s) + taken irq s n = total irq (reads s + n)"
  using sum.atLeastLessThan_concat [of 0 "reads s" "reads s + n" irq]
  by (simp add: total_def taken_def lessThan_atLeast0)

lemma tick_inv_after: "tick_inv irq s \<Longrightarrow> tick_inv irq (after_reads irq s n)"
  by (simp add: tick_inv_def after_reads_def flip: of_nat_add total_taken)

lemma tick_inv_acc [simp]: "tick_inv irq (s\<lparr>acc := h\<rparr>) = tick_inv irq s"
  by (simp add: tick_inv_def)

definition tick_text :: "nat \<Rightarrow> string" where
  "tick_text t = ''get tick '' @ show_base 10 (t mod 2 ^ 32) @ LF"

lemma unat_tick: "unat (of_nat t :: u32) = t mod 2 ^ 32"
  by (simp add: unat_of_nat)

lemma on_acc_printf:
  assumes "txc_live hw"
  obtains h where "on_acc (printf hw t) s = Some (s\<lparr>acc := h\<rparr>)" and "sent h = sent (acc s) @ t"
  using printf_sent [OF assms, of t "acc s"] by (auto simp: on_acc_def)

text \<open>A delay prints the tick and lasts the requested number of interrupts.\<close>

lemma delay_returns:
  assumes live: "txc_live hw" and tk: "ticking irq B" and inv: "tick_inv irq s"
    and room: "unat (delay_wait ms) + B \<le> 2 ^ 32" and pos: "0 < delay_wait ms"
  defines "t \<equiv> total irq (Suc (reads s))"
  shows "\<exists>s'. dri_systick_delay_ms hw irq ms s = Some (Inr s') \<and> tick_inv irq s' \<and>
     sent (acc s') = sent (acc s) @ ''start delay'' @ LF @ tick_text t \<and>
     t + unat (delay_wait ms) \<le> total irq (reads s') \<and>
     total irq (reads s') < t + unat (delay_wait ms) + B"
proof -
  obtain h1 where p1: "on_acc (printf hw (''start delay'' @ LF)) s = Some (s\<lparr>acc := h1\<rparr>)"
    and s1: "sent h1 = sent (acc s) @ ''start delay'' @ LF"
    using on_acc_printf [OF live] .
  let ?s2 = "after_reads irq (s\<lparr>acc := h1\<rparr>) 1"
  have i2: "tick_inv irq ?s2" using inv by (intro tick_inv_after) simp
  have r2: "reads ?s2 = Suc (reads s)" by (simp add: after_reads_def)
  have g: "dri_systick_get_tick irq (s\<lparr>acc := h1\<rparr>) = Inr (uwTick ?s2, ?s2)"
    using inv by (simp add: dri_systick_get_tick_def get_tick_after tick_inv_def)
      (simp add: after_reads_def taken_def)
  have u2: "unat (uwTick ?s2) = t mod 2 ^ 32"
    using i2 unfolding tick_inv_def r2 t_def by (simp add: unat_tick)
  obtain h3 where p3: "on_acc (printf hw (tick_text t)) ?s2 = Some (?s2\<lparr>acc := h3\<rparr>)"
    and s3: "sent h3 = sent (acc ?s2) @ tick_text t"
    using on_acc_printf [OF live] .
  let ?s3 = "?s2\<lparr>acc := h3\<rparr>"
  have "tick_callback ?s3 \<noteq> None" using i2 by (simp add: tick_inv_def)
  from delay_loop_ticking [OF this tk pos room] obtain n where
    d: "delay_loop irq (uwTick ?s3) (delay_wait ms) ?s3 = Some (Inr (after_reads irq ?s3 n))"
    and lo: "unat (delay_wait ms) \<le> taken irq ?s3 n" and hi: "taken irq ?s3 n < unat (delay_wait ms) + B"
    by blast
  let ?s' = "after_reads irq ?s3 n"
  have "dri_systick_delay_ms hw irq ms s = Some (Inr ?s')"
    using d p3 p1 by (simp add: dri_systick_delay_ms_def g [simplified] u2 [simplified] tick_text_def)
  moreover have "tick_inv irq ?s'" using i2 by (intro tick_inv_after) simp
  moreover have "total irq (reads ?s') = t + taken irq ?s3 n"
    using total_taken [of irq ?s3 n] r2 unfolding t_def by (simp add: after_reads_def)
  moreover have "sent (acc ?s') = sent (acc s) @ ''start delay'' @ LF @ tick_text t"
    using s1 s3 by (simp add: after_reads_def)
  ultimately show ?thesis using lo hi by auto
qed

definition round_text :: "nat \<Rightarrow> string" where
  "round_text t = ''test'' @ LF @ ''start delay'' @ LF @ tick_text t"

lemma main_body_returns:
  assumes "txc_live hw" and "ticking irq B" and "tick_inv irq s" and "B \<le> 2 ^ 31"
  shows "\<exists>s'. main_body hw irq s = Some (Inr s') \<and> tick_inv irq s' \<and>
     sent (acc s') = sent (acc s) @ round_text (total irq (Suc (reads s))) \<and>
     total irq (Suc (reads s)) + 3001 \<le> total irq (reads s')"
proof -
  obtain h where p: "on_acc (printf hw (''test'' @ LF)) s = Some (s\<lparr>acc := h\<rparr>)"
    and h: "sent h = sent (acc s) @ ''test'' @ LF"
    using on_acc_printf [OF assms(1)] .
  have w: "delay_wait 3000 = 3001" by (simp add: delay_wait_def uwTickFrequency_def)
  have "tick_inv irq (s\<lparr>acc := h\<rparr>)" using assms(3) by simp
  from delay_returns [OF assms(1,2) this, of 3000] assms(4) w h p show ?thesis
    by (auto simp: main_body_def round_text_def)
qed

lemma main_setup_returns:
  assumes "txc_live hw" and "msi_range_ok hw"
  shows "\<exists>s. main_setup hw (static_board h) = Some (Inr s) \<and> tick_inv irq s \<and> reads s = 0 \<and>
     sent (acc s) = sent h @ banner @ ''register'' @ LF"
proof -
  let ?h1 = "aft (dri_systick_1ms_IRQ_init 64000000) h"
  have s1: "sent ?h1 = sent h"
    by (simp add: dri_systick_1ms_IRQ_init_def SysTick_Config_def NVIC_SetPriority_def run_if
        SysTick_IRQn_def)
  obtain h2 where r2: "run_state (usart_hw_init hw) ?h1 = (Inr ERR_SUCCESS, h2)"
    using usart_hw_init_ok [OF assms(2)] by (metis prod.collapse)
  then have s2: "sent h2 = sent h"
    using silent_usart_hw_init [of hw] s1 unfolding silent_def by (metis snd_conv)
  obtain h3 where h3: "printf hw banner h2 = Some h3" "sent h3 = sent h @ banner"
    using printf_sent [OF assms(1), of banner h2] s2 by auto
  with r2 have u: "dri_usart_init hw ?h1 = Some (Inr ERR_SUCCESS, h3)"
    by (simp add: dri_usart_init_def)
  obtain h4 where "printf hw (''register'' @ LF) h3 = Some h4" "sent h4 = sent h3 @ ''register'' @ LF"
    using printf_sent [OF assms(1)] by blast
  with u h3 show ?thesis
    by (simp add: main_setup_def static_board_def systick_register_get_tick_callback_def on_acc_def
        tick_inv_def total_def)
qed

text \<open>The ticks printed so far are at least 3001 interrupts apart.\<close>

definition spaced :: "nat list \<Rightarrow> nat \<Rightarrow> bool" where
  "spaced ts now \<longleftrightarrow>
     (\<forall>i. Suc i < length ts \<longrightarrow> ts ! i + 3001 \<le> ts ! Suc i) \<and> (ts \<noteq> [] \<longrightarrow> last ts + 3001 \<le> now)"

lemma spaced_snoc:
  assumes "spaced ts now" and "now \<le> t" and "t + 3001 \<le> later"
  shows "spaced (ts @ [t]) later"
  unfolding spaced_def
proof (intro conjI allI impI)
  fix i assume i: "Suc i < length (ts @ [t])"
  show "(ts @ [t]) ! i + 3001 \<le> (ts @ [t]) ! Suc i"
  proof (cases "Suc i < length ts")
    case True
    with assms(1) show ?thesis by (simp add: spaced_def nth_append)
  next
    case False
    with i have l: "Suc i = length ts" by simp
    then have ne: "ts \<noteq> []" by auto
    with l have "ts ! i = last ts" by (metis diff_Suc_1 last_conv_nth)
    with ne assms(1,2) l show ?thesis by (simp add: spaced_def nth_append)
  qed
next
  show "last (ts @ [t]) + 3001 \<le> later" using assms(3) by simp
qed

lemma total_mono: "a \<le> b \<Longrightarrow> total irq a \<le> total irq b"
  unfolding total_def by (rule sum_mono2) auto

lemma main_rounds_return:
  assumes "txc_live hw" and "msi_range_ok hw" and "ticking irq B" and "B \<le> 2 ^ 31"
  shows "\<exists>s ts. main_rounds hw irq n (static_board h) = Some (Inr s) \<and> tick_inv irq s \<and>
     length ts = n \<and> spaced ts (total irq (reads s)) \<and>
     sent (acc s) = sent h @ banner @ ''register'' @ LF @ concat (map round_text ts)"
proof (induction n)
  case 0
  from main_setup_returns [OF assms(1,2), of h] show ?case
    by (auto simp: spaced_def)
next
  case (Suc n)
  then obtain s ts where r: "main_rounds hw irq n (static_board h) = Some (Inr s)" and i: "tick_inv irq s"
    and l: "length ts = n" and sp: "spaced ts (total irq (reads s))"
    and se: "sent (acc s) = sent h @ banner @ ''register'' @ LF @ concat (map round_text ts)"
    by blast
  let ?t = "total irq (Suc (reads s))"
  from main_body_returns [OF assms(1,3) i assms(4)] obtain s' where
    b: "main_body hw irq s = Some (Inr s')" "tick_inv irq s'"
    and se': "sent (acc s') = sent (acc s) @ round_text ?t" and d: "?t + 3001 \<le> total irq (reads s')"
    by blast
  have "spaced (ts @ [?t]) (total irq (reads s'))"
    using sp total_mono [of "reads s" "Suc (reads s)" irq] d by (intro spaced_snoc) auto
  with r b l se se' show ?case
    by (intro exI [of _ s'] exI [of _ "ts @ [?t]"]) simp
qed

end
