(* ===== verification/LpuartLaws.thy ===== *)
theory LpuartLaws
  imports Lpuart
begin

text \<open>The fractional baud rate of the LPUART: the eight passes and the number of bits they set.\<close>

definition ones8 :: "u32 \<Rightarrow> nat" where
  "ones8 w = card {i. i < 8 \<and> bit w i}"

lemma step_div:
  fixes t f :: nat
  assumes "f < 10000"
  shows "(t + f) div 10000 = t div 10000 + (if (t + f) div 10000 = t div 10000 then 0 else 1)"
proof -
  have "t mod 10000 + f < 2 * 10000" using assms mod_less_divisor [of 10000 t] by linarith
  moreover have "(t + f) div 10000 = t div 10000 + (t mod 10000 + f) div 10000"
    by (metis add.assoc add.commute div_mult_self4 mod_mult_div_eq zero_neq_numeral)
  moreover have "x < 2 * 10000 \<Longrightarrow> x div 10000 = 0 \<or> x div 10000 = 1" for x :: nat by linarith
  ultimately show ?thesis by auto
qed

lemma bit_or_pow: "bit (r OR push_bit i 1) n \<longleftrightarrow> bit r n \<or> n = i" if "i < 32" for r :: u32
proof -
  have "bit (push_bit i (1 :: u32)) n \<longleftrightarrow> n = i"
    unfolding bit_push_bit_iff using that by (auto simp: bit_1_iff)
  then show ?thesis by (simp only: bit_or_iff)
qed

lemma xor_zero: "a XOR b \<noteq> 0 \<longleftrightarrow> a \<noteq> b" for a b :: u32
proof
  assume ne: "a XOR b \<noteq> 0"
  show "a \<noteq> b" using ne by auto
next
  assume "a \<noteq> b"
  then obtain n where "bit a n \<noteq> bit b n" by (auto simp: bit_eq_iff)
  then have "bit (a XOR b) n" by (simp add: bit_xor_iff)
  then show "a XOR b \<noteq> 0" by auto
qed

text \<open>The passes compute the carries of the running sum, bit by bit.\<close>

lemma frac_loop_ones:
  assumes "unat f < 10000" and "i \<le> 8" and "unat t \<le> (i + 1) * 10000"
    and "\<forall>n \<ge> i. \<not> bit r n"
  shows "ones8 (frac_loop i f t r) + unat t div 10000 =
           ones8 r + (unat t + (8 - i) * unat f) div 10000 \<and>
         (\<forall>n \<ge> 8. \<not> bit (frac_loop i f t r) n)"
  using assms
proof (induction i f t r rule: frac_loop.induct)
  case (1 i f t r)
  show ?case
  proof (cases "8 \<le> i")
    case True
    with "1.prems" show ?thesis by (simp add: frac_loop.simps)
  next
    case False
    let ?t = "t + f"
    have u: "unat ?t = unat t + unat f"
      using "1.prems" False by (intro unat_add_lem [THEN iffD1]) (simp add: word_size)
    have le: "unat ?t \<le> (Suc i + 1) * 10000" using "1.prems" u by simp
    have eq: "(?t div 10000) XOR (t div 10000) \<noteq> 0 \<longleftrightarrow> unat ?t div 10000 \<noteq> unat t div 10000"
      unfolding xor_zero by (simp add: word_unat_eq_iff unat_div)
    let ?r = "if (?t div 10000) XOR (t div 10000) \<noteq> 0 then r OR push_bit i 1 else r"
    have rn: "\<forall>n \<ge> Suc i. \<not> bit ?r n"
      using "1.prems" False bit_or_pow [of i r] by (auto simp del: push_bit_of_1)
    have "{n. n < 8 \<and> bit (r OR push_bit i 1) n} = insert i {n. n < 8 \<and> bit r n}"
      using False bit_or_pow [of i r] by (auto simp del: push_bit_of_1)
    then have ones: "ones8 ?r = ones8 r + (if unat ?t div 10000 = unat t div 10000 then 0 else 1)"
      unfolding eq using "1.prems" by (simp add: ones8_def)
    have "ones8 (frac_loop (Suc i) f ?t ?r) + unat ?t div 10000 =
           ones8 ?r + (unat ?t + (8 - Suc i) * unat f) div 10000 \<and>
         (\<forall>n \<ge> 8. \<not> bit (frac_loop (Suc i) f ?t ?r) n)"
      by (rule "1.IH" [OF False refl refl]) (use "1.prems" False le rn in auto)
    moreover have "frac_loop i f t r = frac_loop (Suc i) f ?t ?r"
      using False by (subst frac_loop.simps) (simp add: Let_def)
    moreover have "(8 - i) * unat f = unat f + (8 - Suc i) * unat f"
      using False by (metis Suc_diff_Suc mult_Suc not_le)
    ultimately show ?thesis
      using step_div [of "unat f" "unat t"] "1.prems"(1) ones u
      by (simp only: add.assoc) (simp split del: if_split del: push_bit_of_1)
  qed
qed

text \<open>The eight passes set one bit for every whole clock in nine fractions.\<close>

lemma frac_total:
  assumes "unat f < 10000"
  shows "ones8 (frac_loop 0 f f 0) = 9 * unat f div 10000"
    and "(ucast (ucast (frac_loop 0 f f 0) :: u8) :: u32) = frac_loop 0 f f 0"
proof -
  have "ones8 (frac_loop 0 f f 0) + unat f div 10000 = ones8 0 + (unat f + (8 - 0) * unat f) div 10000 \<and>
         (\<forall>n \<ge> 8. \<not> bit (frac_loop 0 f f 0) n)"
    using assms by (intro frac_loop_ones) auto
  then have n: "ones8 (frac_loop 0 f f 0) = 9 * unat f div 10000"
    and z: "\<forall>n \<ge> 8. \<not> bit (frac_loop 0 f f 0) n"
    using assms by (simp_all add: ones8_def)
  show "ones8 (frac_loop 0 f f 0) = 9 * unat f div 10000" by (rule n)
  show "(ucast (ucast (frac_loop 0 f f 0) :: u8) :: u32) = frac_loop 0 f f 0"
  proof (rule bit_word_eqI)
    fix n assume "n < LENGTH(32)"
    then show "bit (ucast (ucast (frac_loop 0 f f 0) :: u8) :: u32) n = bit (frac_loop 0 f f 0) n"
      using z by (cases "8 \<le> n") (auto simp: bit_ucast_iff)
  qed
qed

lemma fractional_bound:
  assumes "0 < baud" and "unat baud \<le> 429496"
  shows "unat (fractional_divider clk baud) = (unat clk mod unat baud) * 10000 div unat baud"
    and "unat (fractional_divider clk baud) < 10000"
proof -
  have b: "0 < unat baud" using assms(1) by (simp add: word_less_nat_alt)
  then have r: "unat clk mod unat baud < unat baud" by simp
  then have "(unat clk mod unat baud) * 10000 < 2 ^ 32" using assms(2) by simp
  then have "unat ((clk mod baud) * 10000) = (unat clk mod unat baud) * 10000"
    by (simp add: unat_word_ariths unat_mod)
  then show d: "unat (fractional_divider clk baud) = (unat clk mod unat baud) * 10000 div unat baud"
    by (simp add: fractional_divider_def unat_div)
  show "unat (fractional_divider clk baud) < 10000"
    unfolding d using r b by (simp add: div_less_iff_less_mult)
qed

text \<open>Eight bit times against eight bit times of the requested rate, in clocks of the source.\<close>

lemma divider_error:
  fixes clk b :: nat
  assumes "0 < b"
  defines "m \<equiv> 9 * ((clk mod b) * 10000 div b) div 10000"
  shows "b * (8 * (clk div b) + m) < 8 * clk + b"
    and "80000 * clk < 10000 * (b * (8 * (clk div b) + m + 1)) + 9 * b"
proof -
  let ?r = "clk mod b" and ?f = "(clk mod b) * 10000 div b"
  have c: "b * (clk div b) + ?r = clk" by simp
  have r: "?r < b" using assms by simp
  have f: "b * ?f \<le> ?r * 10000" by (rule times_div_less_eq_dividend)
  have f': "?r * 10000 < b * ?f + b" using dividend_less_times_div [OF assms(1), of "?r * 10000"] by (simp add: mult.commute)
  have m: "10000 * m \<le> 9 * ?f" unfolding m_def by (rule times_div_less_eq_dividend)
  have m': "9 * ?f < 10000 * m + 10000" unfolding m_def using dividend_less_times_div [of 10000 "9 * ?f"] by simp
  have "b * (10000 * m) \<le> b * (9 * ?f)" using m by (rule mult_le_mono2)
  then have "10000 * (b * m) \<le> 9 * (b * ?f)" by (simp only: mult.left_commute)
  with f have bm: "b * m \<le> 9 * ?r" by linarith
  have "b * (8 * (clk div b) + m) = 8 * (b * (clk div b)) + b * m" by (simp add: distrib_left)
  with c r bm show "b * (8 * (clk div b) + m) < 8 * clk + b" by linarith
  have "b * (9 * ?f) \<le> b * (10000 * m + 10000)" using m' by (intro mult_le_mono2) simp
  then have "9 * (b * ?f) \<le> 10000 * (b * m) + 10000 * b" by (simp add: algebra_simps)
  moreover have "10000 * (b * (8 * (clk div b) + m + 1)) =
      80000 * (b * (clk div b)) + 10000 * (b * m) + 10000 * b"
    by (simp add: algebra_simps)
  ultimately show "80000 * clk < 10000 * (b * (8 * (clk div b) + m + 1)) + 9 * b"
    using c f' by linarith
qed

end
