(* ===== verification/DriProps.thy ===== *)
theory DriProps
  imports MainLaws LpuartLaws
begin

text \<open>Properties of the GPIO and LPUART drivers and of the application.\<close>

subsection \<open>A hardware for the witnesses\<close>

text \<open>Registers keep what is written, those to set and reset outputs read as zero; the LPUART is always done.\<close>

definition idle_hw :: hardware where
  "idle_hw h r =
     (if r = LPUART_STS then 2 else if r = RCC_CTRLSTS then 0x68
      else case r of GPIO p g \<Rightarrow> if g = PBSC \<or> g = PBC then 0 else mem h r | _ \<Rightarrow> mem h r)"

lemma idle_gpio_law: "gpio_law idle_hw p"
  by (simp add: gpio_law_def idle_hw_def exti_regs_def)

lemma idle_txc_live: "txc_live idle_hw"
  unfolding txc_live_def by (intro allI exI [of _ 0]) (simp add: txc_at_def idle_hw_def)

lemma idle_msi: "msi_range_ok idle_hw"
  by (simp add: msi_range_ok_def idle_hw_def)

text \<open>One interrupt between any two reads of the tick.\<close>

lemma steady_ticking: "ticking (\<lambda>n. 1) 1"
  unfolding ticking_def by (auto intro: exI)

subsection \<open>GPIO\<close>

text \<open>
  C28: For a structure whose mode and alternate function are among the driver's, \<open>GPIO_InitPeripheral\<close> gives every selected pin of the port exactly the configuration the
  structure asks for: its mode, pull, drive, slew rate, output type and alternate function, the output that
  goes with the pull, and, for an interrupt or event mode, the masks and edges of its EXTI line. Every
  other pin of the port keeps all of these, every other EXTI line its masks and edges, every other port its
  outputs, and every register but those of the port and of the EXTI its contents.
\<close>

theorem GPIO_InitPeripheral_pins:
  fixes h :: hist
  assumes "gpio_law hw p" and "valid_init ini" and "i < 16"
  defines "h' \<equiv> aft (GPIO_InitPeripheral hw p ini) h"
  shows "pin_view h' p i = (if bit (Pin ini) i then configured ini (pin_view h p i) else pin_view h p i) \<and>
         (\<forall>e k. e \<in> {EXTI_IMASK, EXTI_EMASK, EXTI_RT_CFG, EXTI_FT_CFG} \<and> 16 \<le> k \<longrightarrow> bit (mem h' e) k = bit (mem h e) k) \<and>
         (\<forall>q k. q \<noteq> p \<longrightarrow> driven h' q k = driven h q k) \<and>
         (\<forall>r. r \<notin> pin_regs p \<longrightarrow> mem h' r = mem h r)"
proof (intro conjI allI impI)
  note L = pins_loop_view [OF _ assms(3), where k = 0, where pins = "Pin ini", where body = "init_pin hw p ini",
      folded GPIO_InitPeripheral_def, of _ _ h, folded h'_def]
  show "pin_view h' p i = (if bit (Pin ini) i then configured ini (pin_view h p i) else pin_view h p i)"
    using L [of "\<lambda>h. pin_view h p" "configured ini", OF init_pin_view [OF assms(1-3)]] by simp
  show "bit (mem h' e) k = bit (mem h e) k"
    if e: "e \<in> {EXTI_IMASK, EXTI_EMASK, EXTI_RT_CFG, EXTI_FT_CFG} \<and> 16 \<le> k" for e k
  proof (cases "k < 32")
    case True
    have "bit (mem (aft (init_pin hw p ini j) h) e) k = bit (mem h e) k" if "j < 16" for j h
      using init_pin_exti [OF assms(1) _ True that, of e ini h] e that by (auto simp: exti_regs_def)
    then show ?thesis using L [of "\<lambda>h _. bit (mem h e) k" id] by simp
  qed (auto dest: bit_imp_le_length)
  show "driven h' q k = driven h q k" if "q \<noteq> p" for q k
    using L [of "\<lambda>h _. driven h q k" id] init_pin_driven(2) [OF assms(1,3) _ that] by simp
  show "mem h' r = mem h r" if "r \<notin> pin_regs p" for r
    using L [of "\<lambda>h _. mem h r" id] init_pin_frame [OF that] by simp
qed

text \<open>Pin 1 becomes the transmitter; pin 3 an input whose falling edge interrupts.\<close>

definition button_config :: "GPIO_InitType" where
  "button_config = GPIO_InitStruct\<lparr>Pin := 0x0008, GPIO_Mode := 0x10210000, GPIO_Pull := GPIO_Pull_Up\<rparr>"

theorem GPIO_InitPeripheral_pins_witness:
  "pc_mode (pin_view (aft (GPIO_InitPeripheral idle_hw GPIOA tx_config) []) GPIOA 1) = 2 \<and>
   pin_view (aft (GPIO_InitPeripheral idle_hw GPIOA tx_config) []) GPIOA 5 = pin_view [] GPIOA 5 \<and>
   (let c = pin_view (aft (GPIO_InitPeripheral idle_hw GPIOB button_config) []) GPIOB 3 in
    pc_interrupt c \<and> pc_falling c \<and> \<not> pc_rising c \<and> pc_out c \<and> pc_pull c = 1)"
proof -
  have v: "valid_init tx_config" "valid_init button_config"
    by (simp_all add: valid_init_def tx_config_def button_config_def GPIO_InitStruct_def)
  show ?thesis
    using GPIO_InitPeripheral_pins [OF idle_gpio_law v(1), of 1 GPIOA "[]"]
      GPIO_InitPeripheral_pins [OF idle_gpio_law v(1), of 5 GPIOA "[]"]
      GPIO_InitPeripheral_pins [OF idle_gpio_law v(2), of 3 GPIOB "[]"]
    by (simp add: tx_config_def button_config_def configured_def Let_def GPIO_InitStruct_def pin_view_def)
qed

definition af_of :: "hist \<Rightarrow> port \<Rightarrow> u8 \<Rightarrow> nat \<Rightarrow> u32" where
  "af_of h p PinSource i = fld 4 (mem h (GPIO p (if PinSource AND 8 \<noteq> 0 then AFH else AFL))) i"

lemma fld4_clear_or:
  assumes "k < 8" and "k \<noteq> 0"
  shows "fld 4 (w AND NOT (push_bit (k * 4) 0xF) OR 3) k = 0"
    and "fld 4 (w AND NOT (push_bit (k * 4) 0xF) OR 3) 0 = fld 4 w 0 OR 3"
proof -
  have m: "(0xF :: u32) = mask 4" by (simp add: mask_eq_exp_minus_1)
  have low: "n < 2" if "bit (3 :: int) n" for n
  proof -
    have "(3 :: int) = mask 2" by (simp add: mask_eq_exp_minus_1)
    with that show ?thesis by (simp only: bit_mask_iff)
  qed
  show "fld 4 (w AND NOT (push_bit (k * 4) 0xF) OR 3) k = 0"
    unfolding m using assms
    by (intro bit_word_eqI) (auto simp: fld_def bit_take_bit_iff bit_drop_bit_eq bit_or_iff bit_and_iff
        bit_not_iff bit_push_bit_iff bit_mask_iff dest!: low)
  show "fld 4 (w AND NOT (push_bit (k * 4) 0xF) OR 3) 0 = fld 4 w 0 OR 3"
    unfolding m using assms
    by (intro bit_word_eqI) (auto simp: fld_def bit_take_bit_iff bit_drop_bit_eq bit_or_iff bit_and_iff
        bit_not_iff bit_push_bit_iff bit_mask_iff dest!: low)
qed

text \<open>
  \<open>GPIO_ConfigEventOutput\<close> for a pin other than 0 or 8 selects alternate function 0 for that pin
  and ORs the event output function into the nibble of pin 0 (or 8): the value is not shifted to
  the pin, as \<open>GPIO_ConfigPinRemap\<close> does.
\<close>

theorem GPIO_ConfigEventOutput_wrong_pin:
  assumes "gpio_law hw (GPIO_GET_PERIPH PortSource)" and "unat (PinSource AND 7) \<noteq> 0"
  defines "p \<equiv> GPIO_GET_PERIPH PortSource" and "k \<equiv> unat (PinSource AND 7)"
  shows "af_of (aft (GPIO_ConfigEventOutput hw PortSource PinSource) h) p PinSource k = 0 \<and>
         af_of (aft (GPIO_ConfigEventOutput hw PortSource PinSource) h) p PinSource 0 =
           af_of h p PinSource 0 OR 3"
proof -
  have "PinSource AND 7 \<le> 7" by (rule word_and_le1)
  then have k: "k < 8" "k \<noteq> 0" using assms(2) by (simp_all add: k_def word_le_nat_alt)
  let ?g = "if PinSource AND 8 \<noteq> 0 then AFH else AFL"
  have "hw h (GPIO p ?g) = mem h (GPIO p ?g)"
    using assms(1) by (simp add: gpio_law_def p_def)
  then show ?thesis
    using fld4_clear_or [OF k, of "mem h (GPIO p ?g)"]
    by (simp add: af_of_def GPIO_ConfigEventOutput_def Let_def p_def k_def)
qed

theorem GPIO_ConfigEventOutput_wrong_pin_witness:
  "af_of (aft (GPIO_ConfigEventOutput idle_hw 0 1) []) GPIOA 1 1 = 0 \<and>
   af_of (aft (GPIO_ConfigEventOutput idle_hw 0 1) []) GPIOA 1 0 = af_of [] GPIOA 1 0 OR 3"
  using GPIO_ConfigEventOutput_wrong_pin [of idle_hw 0 1 "[]"] idle_gpio_law
  by (simp add: GPIO_GET_PERIPH_def)

subsection \<open>LED\<close>

lemma silent_on:
  assumes "r \<in> {RCC_APB2PCLKEN, RCC_AHBPCLKEN}"
  shows "mem (aft (GPIO_InitPeripheral hw p ini) h) r = mem h r"
proof -
  have n: "r \<noteq> GPIO q g" "r \<noteq> EXTI_IMASK" "r \<noteq> EXTI_EMASK" "r \<noteq> EXTI_RT_CFG" "r \<noteq> EXTI_FT_CFG" for q g
    using assms by auto
  have e: "mem (aft (exti_bit hw e j on) h) r = mem h r" if "r \<noteq> e" for e j on h
    using that by (simp add: exti_bit_def mem_put_field)
  have "mem (aft (init_pin hw p ini j) g) r = mem g r" for j g
    by (simp add: init_pin_def Let_def run_bind mem_if mem_put_field e n n [symmetric]
        split del: if_split del: run_state_bind push_bit_and cong: if_cong)
  then show ?thesis
    using pins_loop_view [where f = "\<lambda>h i. mem h r" and upd = id and k = 0 and i = 0]
    unfolding GPIO_InitPeripheral_def by simp
qed

text \<open>
  \<open>int_LED_Init\<close> does not enable the clock of GPIOB, the port of the LED supply switch: it sets
  bit 3 of the AHB enable register, which controls no GPIO port, and only GPIOA is enabled in the
  APB2 register.
\<close>

theorem int_LED_Init_leaves_GPIOB_unclocked:
  assumes "\<And>h. hw h RCC_APB2PCLKEN = mem h RCC_APB2PCLKEN"
  shows "mem (aft (int_LED_Init hw) h) RCC_APB2PCLKEN = mem h RCC_APB2PCLKEN OR RCC_APB2_PERIPH_GPIOA \<and>
         mem (aft (int_LED_Init hw) h) RCC_APB2PCLKEN AND RCC_APB2_PERIPH_GPIOB =
           mem h RCC_APB2PCLKEN AND RCC_APB2_PERIPH_GPIOB"
proof -
  have "mem (aft (int_LED_Init hw) h) RCC_APB2PCLKEN = mem h RCC_APB2PCLKEN OR RCC_APB2_PERIPH_GPIOA"
    by (simp add: int_LED_Init_def run_bind int_LED_VDD_config_def int_LED_VDD_ON_def int_LED_config_def
        silent_on RCC_EnableAHBPeriphClk_def RCC_EnableAPB2PeriphClk_def GPIO_SetBits_def assms
        del: run_state_bind)
  then show ?thesis by (simp add: bit.conj_disj_distrib2)
qed

theorem int_LED_Init_leaves_GPIOB_unclocked_witness:
  "mem (aft (int_LED_Init idle_hw) []) RCC_APB2PCLKEN = RCC_APB2_PERIPH_GPIOA"
  using int_LED_Init_leaves_GPIOB_unclocked [of idle_hw "[]"] by (simp add: idle_hw_def)

subsection \<open>LPUART\<close>

text \<open>The history when \<open>LPUART_Init\<close> looks at the clocks: the control register has been written.\<close>

definition at_clocks :: "hardware \<Rightarrow> LPUART_InitType \<Rightarrow> hist \<Rightarrow> hist" where
  "at_clocks hw ini h = aft (do {
     v \<leftarrow> rd16 hw LPUART_CTRL;
     wr16 LPUART_CTRL (v AND 0x70F4 OR (Parity ini OR Mode ini OR RtsThreshold ini OR HardwareFlowControl ini))
   }) h"

lemma LPUART_Init_registers:
  assumes "res (lpuart_clock hw) (at_clocks hw ini h) = Inr clk" and "BaudRate ini \<noteq> 0"
  defines "f \<equiv> fractional_divider clk (BaudRate ini)"
  shows "res (LPUART_Init hw ini) h = Inr ()"
    and "mem (aft (LPUART_Init hw ini) h) LPUART_BRCFG1 = ucast (ucast (clk div BaudRate ini) :: u16)"
    and "mem (aft (LPUART_Init hw ini) h) LPUART_BRCFG2 = ucast (ucast (frac_loop 0 f f 0) :: u8)"
proof -
  let ?g = "at_clocks hw ini h"
  have run: "run_state (bindS (lpuart_clock hw) q) ?g = run_state (q clk) (aft (lpuart_clock hw) ?g)" for q
    using assms(1) by (cases "run_state (lpuart_clock hw) ?g") (simp add: run_bindS)
  have step: "run_state (LPUART_Init hw ini) h = run_state (bindS (lpuart_clock hw) q) ?g"
    if "LPUART_Init hw ini = do {
      v \<leftarrow> rd16 hw LPUART_CTRL;
      wr16 LPUART_CTRL (v AND 0x70F4 OR (Parity ini OR Mode ini OR RtsThreshold ini OR HardwareFlowControl ini));
      bindS (lpuart_clock hw) q }" for q
    unfolding that at_clocks_def by simp
  note d = step [OF LPUART_Init_def] run LPUART_ConfigSamplingMethod_def Let_def assms(2) f_def
  show "res (LPUART_Init hw ini) h = Inr ()"
    and "mem (aft (LPUART_Init hw ini) h) LPUART_BRCFG1 = ucast (ucast (clk div BaudRate ini) :: u16)"
    and "mem (aft (LPUART_Init hw ini) h) LPUART_BRCFG2 = ucast (ucast (frac_loop 0 f f 0) :: u8)"
    by (simp_all add: d run_bind del: run_state_bind)
qed

text \<open>
  C30: For the clock that feeds the LPUART when \<open>LPUART_Init\<close> is called, a baud rate of at most 429496, above which the
  fraction does not fit 32 bits, and a quotient of the two that fits the 16 bits of the divider, the call returns, and the divider
  it programs (the integer part and the number of fractional bits over eight bit times) is within one clock, and
  0.09 per cent of one, of eight bit times at the requested rate.
\<close>

theorem LPUART_Init_baud_rate:
  assumes "res (lpuart_clock hw) (at_clocks hw ini h) = Inr clk"
    and "0 < BaudRate ini" and "unat (BaudRate ini) \<le> 429496"
    and "unat clk div unat (BaudRate ini) < 2 ^ 16"
  shows "let h' = aft (LPUART_Init hw ini) h; b = unat (BaudRate ini);
             n = 8 * unat (mem h' LPUART_BRCFG1) + ones8 (mem h' LPUART_BRCFG2) in
           res (LPUART_Init hw ini) h = Inr () \<and>
           b * n < 8 * unat clk + b \<and> 80000 * unat clk < 10000 * (b * (n + 1)) + 9 * b"
proof -
  have b: "0 < unat (BaudRate ini)" using assms(2) by (simp add: word_less_nat_alt)
  have nz: "BaudRate ini \<noteq> 0" using assms(2) by auto
  note r = LPUART_Init_registers [OF assms(1) nz]
  note f = fractional_bound [OF assms(2,3), of clk]
  have i: "unat (mem (aft (LPUART_Init hw ini) h) LPUART_BRCFG1) = unat clk div unat (BaudRate ini)"
    unfolding r(2) using assms(4)
    by (simp add: unsigned_ucast_eq take_bit_eq_mod unat_div unat_mod)
  have o: "ones8 (mem (aft (LPUART_Init hw ini) h) LPUART_BRCFG2) =
      9 * ((unat clk mod unat (BaudRate ini)) * 10000 div unat (BaudRate ini)) div 10000"
    unfolding r(3) frac_total(2) [OF f(2)] frac_total(1) [OF f(2)] f(1) ..
  show ?thesis
    unfolding Let_def i o by (intro conjI r(1) divider_error [OF b])
qed

text \<open>
  After \<open>RCC_ConfigLPUARTClk\<close> has selected the HSI oscillator, on registers that keep what is written, the LPUART is
  clocked at 16 MHz; after a reset, at 4 MHz by the MSI oscillator through the APB1 bus.
\<close>

definition hsi_selected :: hist where
  "hsi_selected = aft (RCC_ConfigLPUARTClk idle_hw RCC_LPUARTCLK_SRC_HSI) []"

lemma idle_lpuart_clock:
  "res (lpuart_clock idle_hw) (at_clocks idle_hw ini hsi_selected) = Inr 16000000"
  "res (lpuart_clock idle_hw) (at_clocks idle_hw ini []) = Inr 4000000"
  by (simp_all add: lpuart_clock_def at_clocks_def RCC_GetLPUARTClkSrc_def RCC_GetClocksFreqValue_def pll_clock_def
      idle_hw_def hsi_selected_def RCC_ConfigLPUARTClk_def sysclk_freq_def msi_clock_def s_msiClockTable_def
      s_ApbAhbPresTable_def bindS_def Let_def)

theorem LPUART_Init_baud_rate_witness:
  "(let h' = aft (LPUART_Init idle_hw (LPUART_StructInit\<lparr>BaudRate := 115200\<rparr>)) hsi_selected;
        n = 8 * unat (mem h' LPUART_BRCFG1) + ones8 (mem h' LPUART_BRCFG2) in
    115200 * n < 8 * 16000000 + 115200 \<and> 80000 * 16000000 < 10000 * (115200 * (n + 1)) + 9 * 115200) \<and>
   (let h' = aft (LPUART_Init idle_hw LPUART_StructInit) [];
        n = 8 * unat (mem h' LPUART_BRCFG1) + ones8 (mem h' LPUART_BRCFG2) in
    9600 * n < 8 * 4000000 + 9600 \<and> 80000 * 4000000 < 10000 * (9600 * (n + 1)) + 9 * 9600)"
  using LPUART_Init_baud_rate [OF idle_lpuart_clock(1), of "LPUART_StructInit\<lparr>BaudRate := 115200\<rparr>"]
    LPUART_Init_baud_rate [OF idle_lpuart_clock(2), of LPUART_StructInit]
  by (simp add: Let_def LPUART_StructInit_def)

text \<open>Registers that never change: the transmission is never complete.\<close>

definition msi_hw :: hardware where
  "msi_hw h r = (if r = RCC_CTRLSTS then 0x68 else 0)"

lemma spin_never:
  assumes "\<And>g. \<not> txc_at hw g"
  shows "spin_while hw LPUART_FLAG_TXC RESET h = None"
proof -
  have "\<not> (f = LPUART_FLAG_TXC \<and> e = RESET \<and> k = hw)" if "spin_while k f e h = Some y" for k f e y
    using that
  proof (rule spin_while.raw_induct [rotated], intro notI)
    fix spin k f e h y
    assume IH: "\<And>k f e h y. spin k f e h = Some y \<Longrightarrow> \<not> (f = LPUART_FLAG_TXC \<and> e = RESET \<and> k = hw)"
      and step: "(case run_state (LPUART_GetFlagStatus k f) h of
          (st, h') \<Rightarrow> if st = e then spin k f e h' else Some h') = Some y"
      and "f = LPUART_FLAG_TXC \<and> e = RESET \<and> k = hw"
    then show False using assms by (auto simp: run_txc dest!: IH)
  qed
  then show ?thesis by (cases "spin_while hw LPUART_FLAG_TXC RESET h") auto
qed

text \<open>
  \<open>fputc\<close> has no time-out: when the transmission-complete flag never comes, printing a non-empty
  text never returns.
\<close>

theorem printf_blocks_without_TXC:
  assumes "\<And>g. \<not> txc_at hw g"
  shows "printf hw (c # cs) h = None"
  by (simp add: fputc_def spin_never [OF assms])

theorem printf_blocks_without_TXC_witness: "printf msi_hw ''test'' [] = None"
  using printf_blocks_without_TXC [of msi_hw "CHR ''t''" "''est''" "[]"]
  by (simp add: txc_at_def msi_hw_def)

subsection \<open>Delay and main loop\<close>

text \<open>
  C32: With a live transmitter, and at most \<open>B\<close> tick interrupts between two reads of the tick, where \<open>ms + 1 + B\<close> is at
  most \<open>2\<^sup>3\<^sup>2\<close>, the delay returns after at least \<open>ms + 1\<close> and fewer than \<open>ms + 1 + B\<close> interrupts, also when
  the tick counter wraps around meanwhile. The greatest argument, \<open>2\<^sup>3\<^sup>2 - 1\<close>, is not incremented: there it is \<open>ms\<close>
  in place of \<open>ms + 1\<close>, and \<open>B\<close> is at most 1.
\<close>

theorem dri_systick_delay_ms_bounds:
  fixes ms :: u32
  assumes "txc_live hw" and "ticking irq B" and "tick_inv irq s"
  defines "n \<equiv> (if ms = 0xFFFFFFFF then 2 ^ 32 - 1 else unat ms + 1)"
  assumes "n + B \<le> 2 ^ 32"
  shows "\<exists>s'. dri_systick_delay_ms hw irq ms s = Some (Inr s') \<and> tick_inv irq s' \<and>
     total irq (Suc (reads s)) + n \<le> total irq (reads s') \<and> total irq (reads s') < total irq (Suc (reads s)) + n + B"
proof -
  have w: "unat (delay_wait ms) = n"
  proof (cases "ms = 0xFFFFFFFF")
    case False
    have m: "- 1 = (0xFFFFFFFF :: u32)" by simp
    have "ms \<noteq> - 1" unfolding m by (rule False)
    then have "ms + 1 \<noteq> 0" by (metis add_eq_0_iff2)
    moreover have "ms < 0xFFFFFFFF" using False word_order.not_eq_extremum [of ms] unfolding m by (rule iffD1 [rotated])
    ultimately show ?thesis using False unatSuc [of ms] by (simp add: delay_wait_def uwTickFrequency_def n_def add.commute)
  qed (simp add: delay_wait_def n_def)
  have "0 < n" by (simp add: n_def)
  then have "0 < delay_wait ms" using w by (simp add: word_less_nat_alt)
  then show ?thesis using delay_returns [OF assms(1-3), of ms] assms(5) unfolding w by blast
qed

theorem dri_systick_delay_ms_bounds_witness:
  "(\<exists>s'. dri_systick_delay_ms idle_hw (\<lambda>n. 1) 20
      \<lparr>acc = [], uwTick = 0xFFFFFFFE, tick_callback = Some Get_tick, SystemCoreClock = 64000000,
       reads = 4294967294\<rparr> = Some (Inr s') \<and>
     total (\<lambda>n. 1) 4294967295 + 21 \<le> total (\<lambda>n. 1) (reads s') \<and>
     total (\<lambda>n. 1) (reads s') < total (\<lambda>n. 1) 4294967295 + 22) \<and>
   (\<exists>s'. dri_systick_delay_ms idle_hw (\<lambda>n. 1) 0xFFFFFFFF (static_board []\<lparr>tick_callback := Some Get_tick\<rparr>) = Some (Inr s') \<and>
     total (\<lambda>n. 1) (reads s') = total (\<lambda>n. 1) 1 + 4294967295)"
  using dri_systick_delay_ms_bounds [OF idle_txc_live steady_ticking, of
      "\<lparr>acc = [], uwTick = 0xFFFFFFFE, tick_callback = Some Get_tick, SystemCoreClock = 64000000,
       reads = 4294967294\<rparr>" "20"]
    dri_systick_delay_ms_bounds [OF idle_txc_live steady_ticking, of
      "static_board []\<lparr>tick_callback := Some Get_tick\<rparr>" "0xFFFFFFFF"]
  by (auto simp: tick_inv_def total_def static_board_def)

text \<open>
  C24: The main loop is never stuck: with a live transmitter, an MSI range the table has and tick
  interrupts that keep coming, every round returns; the program prints the banner and then one
  round of text per iteration, whose ticks are at least 3001 interrupts apart.
\<close>

theorem main_loop_live:
  assumes "txc_live hw" and "msi_range_ok hw" and "ticking irq B" and "B \<le> 2 ^ 31"
  shows "\<forall>n. \<exists>s ts. main_rounds hw irq n (static_board h) = Some (Inr s) \<and> tick_inv irq s \<and>
     length ts = n \<and> spaced ts (total irq (reads s)) \<and>
     sent (acc s) = sent h @ banner @ ''register'' @ LF @ concat (map round_text ts)"
  using main_rounds_return [OF assms] by blast

theorem main_loop_live_witness:
  "\<exists>s ts. main_rounds idle_hw (\<lambda>n. 1) 1000 (static_board []) = Some (Inr s) \<and> length ts = 1000 \<and>
     sent (acc s) = banner @ ''register'' @ LF @ concat (map round_text ts)"
  using main_loop_live [OF idle_txc_live idle_msi steady_ticking, of "[]", THEN spec, of 1000] by auto

end
