(* ===== verification/Fifo.thy ===== *)
theory Fifo
  imports Prelude
begin

text \<open>
  What the clients of a bounded queue rely on: a non-full queue accepts an element at its end, a
  full one refuses it, a non-empty queue delivers its first element. A client that enqueues and
  dequeues in any order cannot tell such a queue from a list.
\<close>

datatype 'a fifo_op = Enq 'a | Deq

datatype 'a fifo_reply = Accepted bool | Delivered "'a option"

text \<open>The reference queue: a list with a bound.\<close>

fun ref_step :: "nat \<Rightarrow> 'a fifo_op \<Rightarrow> 'a list \<Rightarrow> 'a fifo_reply \<times> 'a list" where
  "ref_step n (Enq x) q = (if length q < n then (Accepted True, q @ [x]) else (Accepted False, q))"
| "ref_step n Deq [] = (Delivered None, [])"
| "ref_step n Deq (x # q) = (Delivered (Some x), q)"

fun ref_run :: "nat \<Rightarrow> 'a fifo_op list \<Rightarrow> 'a list \<Rightarrow> 'a fifo_reply list \<times> 'a list" where
  "ref_run n [] q = ([], q)"
| "ref_run n (p # ps) q =
     (case ref_step n p q of (r, q') \<Rightarrow> case ref_run n ps q' of (rs, q'') \<Rightarrow> (r # rs, q''))"

text \<open>The elements a run accepted and those it delivered, in order.\<close>

fun accepted :: "'a fifo_op list \<Rightarrow> 'a fifo_reply list \<Rightarrow> 'a list" where
  "accepted (Enq x # ps) (Accepted True # rs) = x # accepted ps rs"
| "accepted (p # ps) (r # rs) = accepted ps rs"
| "accepted _ _ = []"

fun given_out :: "'a fifo_reply list \<Rightarrow> 'a list" where
  "given_out [] = []"
| "given_out (Delivered (Some x) # rs) = x # given_out rs"
| "given_out (_ # rs) = given_out rs"

lemma ref_run_conserves:
  "ref_run n ps q = (rs, q') \<Longrightarrow> q @ accepted ps rs = given_out rs @ q'"
proof (induction ps arbitrary: q rs)
  case (Cons p ps)
  obtain r q1 where s: "ref_step n p q = (r, q1)" by fastforce
  obtain rs' where r: "ref_run n ps q1 = (rs', q')" and rs: "rs = r # rs'"
    using Cons.prems s by (auto split: prod.splits)
  from Cons.IH [OF r] s show ?case
    unfolding rs by (cases p; cases q) (auto split: if_splits)
qed simp

lemma ref_run_bounded: "ref_run n ps q = (rs, q') \<Longrightarrow> length q \<le> n \<Longrightarrow> length q' \<le> n"
proof (induction ps arbitrary: q rs)
  case (Cons p ps)
  obtain r q1 where s: "ref_step n p q = (r, q1)" by fastforce
  moreover obtain rs' where "ref_run n ps q1 = (rs', q')"
    using Cons.prems s by (auto split: prod.splits)
  moreover have "length q1 \<le> n"
    using s Cons.prems(2) by (cases p; cases q) (auto split: if_splits)
  ultimately show ?case using Cons.IH by blast
qed simp

locale bounded_fifo =
  fixes inv :: "'s \<Rightarrow> bool"
    and contents :: "'s \<Rightarrow> 'a list"
    and cap :: "'s \<Rightarrow> nat"
    and enq :: "'a \<Rightarrow> 's \<Rightarrow> bool \<times> 's"
    and deq :: "'s \<Rightarrow> 'a option \<times> 's"
  assumes enq_law: "inv s \<Longrightarrow> enq x s = (ok, s') \<Longrightarrow>
      inv s' \<and> cap s' = cap s \<and> ok = (length (contents s) < cap s) \<and>
      contents s' = (if ok then contents s @ [x] else contents s)"
    and deq_law: "inv s \<Longrightarrow> deq s = (v, s') \<Longrightarrow>
      inv s' \<and> cap s' = cap s \<and> v = (case contents s of [] \<Rightarrow> None | x # q \<Rightarrow> Some x) \<and>
      contents s' = tl (contents s)"
begin

fun fifo_step :: "'a fifo_op \<Rightarrow> 's \<Rightarrow> 'a fifo_reply \<times> 's" where
  "fifo_step (Enq x) s = (case enq x s of (ok, s') \<Rightarrow> (Accepted ok, s'))"
| "fifo_step Deq s = (case deq s of (v, s') \<Rightarrow> (Delivered v, s'))"

fun fifo_run :: "'a fifo_op list \<Rightarrow> 's \<Rightarrow> 'a fifo_reply list \<times> 's" where
  "fifo_run [] s = ([], s)"
| "fifo_run (p # ps) s =
     (case fifo_step p s of (r, s') \<Rightarrow> case fifo_run ps s' of (rs, s'') \<Rightarrow> (r # rs, s''))"

lemma fifo_step_sim:
  assumes "inv s" and "fifo_step p s = (r, s')"
  shows "inv s'" and "cap s' = cap s" and "ref_step (cap s) p (contents s) = (r, contents s')"
  using assms
  by (cases p; cases "contents s"; auto split: prod.splits dest: enq_law deq_law)+

lemma fifo_run_sim:
  "inv s \<Longrightarrow> fifo_run ps s = (rs, s') \<Longrightarrow>
   inv s' \<and> cap s' = cap s \<and> ref_run (cap s) ps (contents s) = (rs, contents s')"
proof (induction ps arbitrary: s rs)
  case (Cons p ps)
  obtain r s1 where s: "fifo_step p s = (r, s1)" by fastforce
  obtain rs' where r: "fifo_run ps s1 = (rs', s')" and rs: "rs = r # rs'"
    using Cons.prems(2) s by (auto split: prod.splits)
  note sim = fifo_step_sim [OF Cons.prems(1) s]
  from Cons.IH [OF sim(1) r] sim show ?case
    unfolding rs by simp
qed simp

text \<open>Nothing is lost, duplicated or reordered.\<close>

lemma fifo_run_conserves:
  "inv s \<Longrightarrow> fifo_run ps s = (rs, s') \<Longrightarrow>
   contents s @ accepted ps rs = given_out rs @ contents s'"
  using fifo_run_sim ref_run_conserves by metis

end

end
