(* ===== verification/RingBuffer.thy ===== *)
theory RingBuffer
  imports Fifo
begin

text \<open>
  The RT-Thread ring buffer, \<open>components/drivers/src/ringbuffer.c\<close>. The 15-bit indices and the
  16-bit lengths are natural numbers with the reduction of every store written out; the
  differences the code forms are taken in \<open>int\<close>.
\<close>

subsection \<open>State\<close>

record ringbuffer =
  buffer_ptr :: "u8 list"
  read_mirror :: bool
  read_index :: nat
  write_mirror :: bool
  write_index :: nat
  buffer_size :: nat

datatype rt_ringbuffer_state = RT_RINGBUFFER_EMPTY | RT_RINGBUFFER_FULL | RT_RINGBUFFER_HALFFULL

text \<open>A difference as \<open>rt_size_t\<close>.\<close>

definition size_diff :: "nat \<Rightarrow> nat \<Rightarrow> nat" where
  "size_diff a b = nat ((int a - int b) mod 2 ^ 32)"

text \<open>\<open>RT_ALIGN_DOWN(size, align)\<close>.\<close>

definition align_down :: "nat \<Rightarrow> nat \<Rightarrow> nat" where
  "align_down n align = n - n mod align"

text \<open>\<open>memcpy(&dst[off], &src[soff], n)\<close> with both objects checked.\<close>

definition memcpy_at :: "nat \<Rightarrow> u8 list \<Rightarrow> nat \<Rightarrow> nat \<Rightarrow> u8 list \<Rightarrow> stop + u8 list" where
  "memcpy_at off src soff n dst =
     (if soff + n \<le> length src \<and> off + n \<le> length dst
      then Inr (write_at off (take n (drop soff src)) dst)
      else Inl (Out_Of_Bounds ''memcpy''))"

subsection \<open>Operations\<close>

definition rt_ringbuffer_status :: "ringbuffer \<Rightarrow> rt_ringbuffer_state" where
  "rt_ringbuffer_status rb =
     (if read_index rb = write_index rb then
        (if read_mirror rb = write_mirror rb then RT_RINGBUFFER_EMPTY else RT_RINGBUFFER_FULL)
      else RT_RINGBUFFER_HALFFULL)"

definition rt_ringbuffer_init :: "u8 list \<Rightarrow> nat \<Rightarrow> stop + ringbuffer" where
  "rt_ringbuffer_init pool n =
     (if n = 0 then Inl (Assert_Hang ''size > 0'')
      else Inr \<lparr>buffer_ptr = pool, read_mirror = False, read_index = 0, write_mirror = False,
                write_index = 0, buffer_size = align_down n 4\<rparr>)"

definition rt_ringbuffer_data_len :: "ringbuffer \<Rightarrow> nat" where
  "rt_ringbuffer_data_len rb =
     (case rt_ringbuffer_status rb of
        RT_RINGBUFFER_EMPTY \<Rightarrow> 0
      | RT_RINGBUFFER_FULL \<Rightarrow> buffer_size rb
      | RT_RINGBUFFER_HALFFULL \<Rightarrow>
          (if write_index rb > read_index rb then write_index rb - read_index rb
           else nat ((int (buffer_size rb) - (int (read_index rb) - int (write_index rb))) mod 2 ^ 32)))"

definition rt_ringbuffer_space_len :: "ringbuffer \<Rightarrow> nat" where
  "rt_ringbuffer_space_len rb = size_diff (buffer_size rb) (rt_ringbuffer_data_len rb)"

text \<open>
  The copy into the pool that both put functions make, from offset \<open>soff\<close> of the caller's data:
  whether it went to the other side of the mirror, and the buffer.
\<close>

definition write_block :: "ringbuffer \<Rightarrow> u8 list \<Rightarrow> nat \<Rightarrow> nat \<Rightarrow> stop + bool \<times> ringbuffer" where
  "write_block rb ptr soff n =
     (if int (buffer_size rb) - int (write_index rb) > int n then
        bindE (memcpy_at (write_index rb) ptr soff n (buffer_ptr rb)) (\<lambda>p.
          Inr (False, rb\<lparr>buffer_ptr := p, write_index := (write_index rb + n) mod 2 ^ 15\<rparr>))
      else
        (let k = size_diff (buffer_size rb) (write_index rb) in
         bindE (memcpy_at (write_index rb) ptr soff k (buffer_ptr rb)) (\<lambda>p1.
         bindE (memcpy_at 0 ptr (soff + k) (size_diff n k) p1) (\<lambda>p2.
           Inr (True, rb\<lparr>buffer_ptr := p2, write_mirror := \<not> write_mirror rb,
                          write_index := size_diff n k mod 2 ^ 15\<rparr>)))))"

definition rt_ringbuffer_put :: "ringbuffer \<Rightarrow> u8 list \<Rightarrow> nat \<Rightarrow> stop + nat \<times> ringbuffer" where
  "rt_ringbuffer_put rb ptr len =
     (let size16 = rt_ringbuffer_space_len rb mod 2 ^ 16 in
      if size16 = 0 then Inr (0, rb)
      else
        (let n = (if size16 < len then size16 else len) in
         bindE (write_block rb ptr 0 n) (\<lambda>(wrapped, rb'). Inr (n, rb'))))"

definition rt_ringbuffer_put_force :: "ringbuffer \<Rightarrow> u8 list \<Rightarrow> nat \<Rightarrow> stop + nat \<times> ringbuffer" where
  "rt_ringbuffer_put_force rb ptr len =
     (let space_length = rt_ringbuffer_space_len rb mod 2 ^ 16;
          soff = (if len > buffer_size rb then len - buffer_size rb else 0);
          n = (if len > buffer_size rb then buffer_size rb else len) in
      bindE (write_block rb ptr soff n) (\<lambda>(wrapped, rb').
        Inr (n,
          if n > space_length then
            (if wrapped then rb'\<lparr>read_mirror := \<not> read_mirror rb', read_index := write_index rb'\<rparr>
             else rb'\<lparr>read_index := write_index rb'\<rparr>)
          else rb')))"

text \<open>\<open>out\<close> is the caller's array.\<close>

definition rt_ringbuffer_get ::
  "ringbuffer \<Rightarrow> u8 list \<Rightarrow> nat \<Rightarrow> stop + nat \<times> u8 list \<times> ringbuffer" where
  "rt_ringbuffer_get rb out len =
     (let avail = rt_ringbuffer_data_len rb in
      if avail = 0 then Inr (0, out, rb)
      else
        (let n = (if avail < len then avail mod 2 ^ 16 else len) in
         if int (buffer_size rb) - int (read_index rb) > int n then
           bindE (memcpy_at 0 (buffer_ptr rb) (read_index rb) n out) (\<lambda>out'.
             Inr (n, out', rb\<lparr>read_index := (read_index rb + n) mod 2 ^ 15\<rparr>))
         else
           (let k = size_diff (buffer_size rb) (read_index rb) in
            bindE (memcpy_at 0 (buffer_ptr rb) (read_index rb) k out) (\<lambda>o1.
            bindE (memcpy_at k (buffer_ptr rb) 0 (size_diff n k) o1) (\<lambda>o2.
              Inr (n, o2, rb\<lparr>read_mirror := \<not> read_mirror rb,
                              read_index := size_diff n k mod 2 ^ 15\<rparr>))))))"

text \<open>One character; the store is checked against the pool.\<close>

definition store_char :: "ringbuffer \<Rightarrow> u8 \<Rightarrow> stop + ringbuffer" where
  "store_char rb ch =
     (if write_index rb < length (buffer_ptr rb)
      then Inr (rb\<lparr>buffer_ptr := (buffer_ptr rb)[write_index rb := ch]\<rparr>)
      else Inl (Out_Of_Bounds ''buffer_ptr''))"

definition at_end :: "nat \<Rightarrow> ringbuffer \<Rightarrow> bool" where
  "at_end i rb \<longleftrightarrow> int i = int (buffer_size rb) - 1"

definition step_write :: "ringbuffer \<Rightarrow> ringbuffer" where
  "step_write rb =
     (if at_end (write_index rb) rb
      then rb\<lparr>write_mirror := \<not> write_mirror rb, write_index := 0\<rparr>
      else rb\<lparr>write_index := (write_index rb + 1) mod 2 ^ 15\<rparr>)"

definition rt_ringbuffer_putchar :: "ringbuffer \<Rightarrow> u8 \<Rightarrow> stop + nat \<times> ringbuffer" where
  "rt_ringbuffer_putchar rb ch =
     (if rt_ringbuffer_space_len rb = 0 then Inr (0, rb)
      else bindE (store_char rb ch) (\<lambda>rb'. Inr (1, step_write rb')))"

definition rt_ringbuffer_putchar_force :: "ringbuffer \<Rightarrow> u8 \<Rightarrow> stop + nat \<times> ringbuffer" where
  "rt_ringbuffer_putchar_force rb ch =
     (let old_state = rt_ringbuffer_status rb in
      bindE (store_char rb ch) (\<lambda>rb1.
        (let rb2 = step_write rb1 in
         Inr (1,
           if old_state = RT_RINGBUFFER_FULL then
             (if at_end (write_index rb1) rb1
              then rb2\<lparr>read_mirror := \<not> read_mirror rb2, read_index := write_index rb2\<rparr>
              else rb2\<lparr>read_index := write_index rb2\<rparr>)
           else rb2))))"

definition rt_ringbuffer_getchar :: "ringbuffer \<Rightarrow> stop + (u8 option \<times> ringbuffer)" where
  "rt_ringbuffer_getchar rb =
     (if rt_ringbuffer_data_len rb = 0 then Inr (None, rb)
      else if read_index rb < length (buffer_ptr rb) then
        Inr (Some (buffer_ptr rb ! read_index rb),
          if at_end (read_index rb) rb
          then rb\<lparr>read_mirror := \<not> read_mirror rb, read_index := 0\<rparr>
          else rb\<lparr>read_index := (read_index rb + 1) mod 2 ^ 15\<rparr>)
      else Inl (Out_Of_Bounds ''buffer_ptr''))"

definition rt_ringbuffer_reset :: "ringbuffer \<Rightarrow> ringbuffer" where
  "rt_ringbuffer_reset rb =
     rb\<lparr>read_mirror := False, read_index := 0, write_mirror := False, write_index := 0\<rparr>"

definition rt_ringbuffer_get_size :: "ringbuffer \<Rightarrow> nat" where
  "rt_ringbuffer_get_size rb = buffer_size rb"

text \<open>
  \<open>rt_ringbuffer_create\<close>: whether the allocation of the structure succeeds, and the pool the second
  allocation returns, are arguments.
\<close>

definition rt_ringbuffer_create :: "bool \<Rightarrow> u8 list option \<Rightarrow> nat \<Rightarrow> stop + ringbuffer option" where
  "rt_ringbuffer_create got_rb pool n =
     (if n = 0 then Inl (Assert_Hang ''size > 0'')
      else if \<not> got_rb then Inr None
      else (case pool of
              None \<Rightarrow> Inr None
            | Some p \<Rightarrow> bindE (rt_ringbuffer_init p (align_down n 4)) (\<lambda>rb. Inr (Some rb))))"

end
