(* ===== verification/RingLaws.thy ===== *)
theory RingLaws
  imports RingBuffer
begin

text \<open>The ring buffer as a bounded queue of bytes.\<close>

subsection \<open>Invariant and contents\<close>

definition rb_inv :: "ringbuffer \<Rightarrow> bool" where
  "rb_inv rb \<longleftrightarrow>
     0 < buffer_size rb \<and> buffer_size rb < 2 ^ 15 \<and> buffer_size rb \<le> length (buffer_ptr rb) \<and>
     read_index rb < buffer_size rb \<and> write_index rb < buffer_size rb \<and>
     (if read_mirror rb = write_mirror rb then read_index rb \<le> write_index rb
      else write_index rb \<le> read_index rb)"

definition rb_at :: "ringbuffer \<Rightarrow> nat \<Rightarrow> u8" where
  "rb_at rb k = buffer_ptr rb ! ((read_index rb + k) mod buffer_size rb)"

definition rb_contents :: "ringbuffer \<Rightarrow> u8 list" where
  "rb_contents rb = map (rb_at rb) [0..<rt_ringbuffer_data_len rb]"

lemma size_diff_le: "b \<le> a \<Longrightarrow> a < 2 ^ 32 \<Longrightarrow> size_diff a b = a - b"
  by (simp add: size_diff_def flip: of_nat_diff)

lemma data_len:
  assumes "rb_inv rb"
  shows "rt_ringbuffer_data_len rb =
    (if read_mirror rb = write_mirror rb then write_index rb - read_index rb
     else buffer_size rb - (read_index rb - write_index rb))"
proof -
  have "nat ((int (buffer_size rb) - (int (read_index rb) - int (write_index rb))) mod 2 ^ 32) =
      buffer_size rb - (read_index rb - write_index rb)" if "write_index rb \<le> read_index rb"
  proof -
    have "int (buffer_size rb) - (int (read_index rb) - int (write_index rb)) =
        int (buffer_size rb - (read_index rb - write_index rb))"
      using that assms by (simp add: rb_inv_def of_nat_diff)
    moreover have "buffer_size rb < 2 ^ 32" using assms by (simp add: rb_inv_def)
    ultimately show ?thesis by simp
  qed
  then show ?thesis
    using assms
    by (cases "read_mirror rb = write_mirror rb")
      (auto simp: rt_ringbuffer_data_len_def rt_ringbuffer_status_def rb_inv_def)
qed

lemma data_len_le: "rb_inv rb \<Longrightarrow> rt_ringbuffer_data_len rb \<le> buffer_size rb"
  by (auto simp: data_len) (auto simp: rb_inv_def)

lemma space_len:
  "rb_inv rb \<Longrightarrow> rt_ringbuffer_space_len rb = buffer_size rb - rt_ringbuffer_data_len rb"
  using data_len_le [of rb] by (simp add: rt_ringbuffer_space_len_def size_diff_le rb_inv_def)

lemma write_pos:
  assumes "rb_inv rb"
  shows "write_index rb = (read_index rb + rt_ringbuffer_data_len rb) mod buffer_size rb"
  using assms by (auto simp: data_len rb_inv_def le_mod_geq)

lemma length_contents [simp]: "length (rb_contents rb) = rt_ringbuffer_data_len rb"
  by (simp add: rb_contents_def)

lemma contents_eqI:
  assumes "rt_ringbuffer_data_len rb = length xs"
    and "\<And>k. k < length xs \<Longrightarrow> rb_at rb k = xs ! k"
  shows "rb_contents rb = xs"
  using assms by (intro nth_equalityI) (simp_all add: rb_contents_def)

lemma nth_contents: "k < rt_ringbuffer_data_len rb \<Longrightarrow> rb_contents rb ! k = rb_at rb k"
  by (simp add: rb_contents_def)

subsection \<open>Writing\<close>

lemma nth_write_at:
  assumes "off + length data \<le> length buf" and "i < length buf"
  shows "write_at off data buf ! i =
    (if off \<le> i \<and> i < off + length data then data ! (i - off) else buf ! i)"
  using assms by (auto simp: write_at_def nth_append)

text \<open>Where a block of \<open>n\<close> bytes ends up: at the write index, round the end of the pool.\<close>

definition placed :: "ringbuffer \<Rightarrow> u8 list \<Rightarrow> ringbuffer \<Rightarrow> bool" where
  "placed rb xs rb' \<longleftrightarrow>
     length (buffer_ptr rb') = length (buffer_ptr rb) \<and> buffer_size rb' = buffer_size rb \<and>
     read_index rb' = read_index rb \<and> read_mirror rb' = read_mirror rb \<and>
     (\<forall>d < buffer_size rb. buffer_ptr rb' ! ((write_index rb + d) mod buffer_size rb) =
        (if d < length xs then xs ! d
         else buffer_ptr rb ! ((write_index rb + d) mod buffer_size rb)))"

lemma wrap_index:
  assumes "w < (m::nat)" and "d < m"
  shows "(w + d) mod m = (if w + d < m then w + d else w + d - m)"
  using assms by (auto simp: le_mod_geq)

lemma nth_two_writes:
  assumes "w < m" and "m \<le> length buf" and "length xs \<le> m" and "m - w \<le> length xs" and "d < m"
  shows "write_at 0 (drop (m - w) xs) (write_at w (take (m - w) xs) buf) ! ((w + d) mod m) =
    (if d < length xs then xs ! d else buf ! ((w + d) mod m))"
proof -
  have le1: "w + length (take (m - w) xs) \<le> length buf" using assms by simp
  have n1: "write_at w (take (m - w) xs) buf ! i = (if w \<le> i \<and> i < m then xs ! (i - w) else buf ! i)"
    if "i < length buf" for i
    unfolding nth_write_at [OF le1 that] using assms by auto
  have le2: "0 + length (drop (m - w) xs) \<le> length (write_at w (take (m - w) xs) buf)"
    using le1 assms by simp
  have n2: "write_at 0 (drop (m - w) xs) (write_at w (take (m - w) xs) buf) ! i =
      (if i < length xs - (m - w) then xs ! (m - w + i)
       else if w \<le> i \<and> i < m then xs ! (i - w) else buf ! i)" if "i < length buf" for i
    using that le1 assms(4) by (simp add: nth_write_at [OF le2] n1)
  have pos: "(w + d) mod m = (if d < m - w then w + d else d - (m - w))"
    using assms by (auto simp: wrap_index)
  show ?thesis
  proof (cases "d < m - w")
    case True
    then have "\<not> w + d < length xs - (m - w)" and "w + d < length buf" and "w + d < m"
      using assms by linarith+
    with True assms show ?thesis by (simp add: pos n2)
  next
    case False
    then have "d - (m - w) < length buf" and "d - (m - w) < w" and "m - w + (d - (m - w)) = d"
      and "d - (m - w) < length xs - (m - w) \<longleftrightarrow> d < length xs"
      using assms by linarith+
    with False n2 [of "d - (m - w)"] show ?thesis unfolding pos by (cases "d < length xs") simp_all
  qed
qed

lemma write_block_placed:
  assumes "rb_inv rb" and "soff + n \<le> length ptr" and "n \<le> buffer_size rb"
  defines "wraps \<equiv> buffer_size rb \<le> write_index rb + n"
  shows "\<exists>rb'. write_block rb ptr soff n = Inr (wraps, rb') \<and>
    placed rb (take n (drop soff ptr)) rb' \<and>
    write_index rb' = (if wraps then write_index rb + n - buffer_size rb else write_index rb + n) \<and>
    write_mirror rb' = (write_mirror rb \<noteq> wraps)"
proof (cases wraps)
  case False
  let ?d = "take n (drop soff ptr)"
  have w: "write_index rb + n < buffer_size rb" using False by (simp add: wraps_def)
  have l: "length ?d = n" using assms(2) by simp
  have le: "write_index rb + length ?d \<le> length (buffer_ptr rb)"
    using w l assms(1) by (simp add: rb_inv_def)
  have "write_block rb ptr soff n =
      Inr (False, rb\<lparr>buffer_ptr := write_at (write_index rb) ?d (buffer_ptr rb),
                     write_index := write_index rb + n\<rparr>)"
    using w assms(1,2) le l by (simp add: write_block_def memcpy_at_def rb_inv_def)
  moreover have "buffer_size rb \<le> length (buffer_ptr rb)" and "write_index rb < buffer_size rb"
    using assms(1) by (simp_all add: rb_inv_def)
  ultimately show ?thesis
    using False le l w
    by (auto simp: placed_def nth_write_at wrap_index)
next
  case True
  let ?k = "buffer_size rb - write_index rb"
  obtain xs where xs: "xs = take n (drop soff ptr)" by blast
  let ?p1 = "write_at (write_index rb) (take ?k xs) (buffer_ptr rb)"
  let ?p2 = "write_at 0 (drop ?k xs) ?p1"
  have i: "write_index rb < buffer_size rb" "buffer_size rb \<le> length (buffer_ptr rb)"
    "buffer_size rb < 2 ^ 15"
    using assms(1) by (simp_all add: rb_inv_def)
  have k: "?k \<le> n" using True i by (simp add: wraps_def)
  have s: "size_diff (buffer_size rb) (write_index rb) = ?k" "size_diff n ?k = n - ?k"
    using i k assms(3) by (simp_all add: size_diff_le)
  have d: "take ?k (drop soff ptr) = take ?k xs" "take (n - ?k) (drop (soff + ?k) ptr) = drop ?k xs"
    using k by (simp_all add: xs min_def drop_take add.commute)
  have l: "length xs = n" using assms(2) by (simp add: xs)
  have le1: "write_index rb + length (take ?k xs) \<le> length (buffer_ptr rb)" using i l k by simp
  have "memcpy_at (write_index rb) ptr soff ?k (buffer_ptr rb) = Inr ?p1"
    unfolding memcpy_at_def d using assms(2) k i by simp
  moreover have "memcpy_at 0 ptr (soff + ?k) (n - ?k) ?p1 = Inr ?p2"
    unfolding memcpy_at_def d using assms(2,3) k i le1 by simp
  ultimately have "write_block rb ptr soff n =
      Inr (True, rb\<lparr>buffer_ptr := ?p2, write_mirror := \<not> write_mirror rb, write_index := n - ?k\<rparr>)"
    using True i k assms(3) unfolding wraps_def by (simp add: write_block_def s Let_def)
  moreover have "placed rb xs
      (rb\<lparr>buffer_ptr := ?p2, write_mirror := \<not> write_mirror rb, write_index := n - ?k\<rparr>)"
    using nth_two_writes [OF i(1,2), of xs] l k assms(3) le1
    by (simp add: placed_def length_write_at)
  ultimately show ?thesis using True i k unfolding xs [symmetric] by auto
qed


subsection \<open>Queue laws\<close>

text \<open>A write of at most the free space appends to the contents.\<close>

lemma put_contents:
  assumes inv: "rb_inv rb" and p: "placed rb xs rb'"
    and n: "length xs \<le> buffer_size rb - rt_ringbuffer_data_len rb"
    and w: "write_index rb' = (if buffer_size rb \<le> write_index rb + length xs
              then write_index rb + length xs - buffer_size rb else write_index rb + length xs)"
    and m: "write_mirror rb' = (write_mirror rb \<noteq> (buffer_size rb \<le> write_index rb + length xs))"
  shows "rb_inv rb'" and "rb_contents rb' = rb_contents rb @ xs"
proof -
  have same: "read_index rb' = read_index rb" "buffer_size rb' = buffer_size rb"
    "read_mirror rb' = read_mirror rb" "length (buffer_ptr rb') = length (buffer_ptr rb)"
    using p by (simp_all add: placed_def)
  have i: "0 < buffer_size rb" "read_index rb < buffer_size rb" "write_index rb < buffer_size rb"
    using inv by (simp_all add: rb_inv_def)
  show inv': "rb_inv rb'"
    using inv n data_len [OF inv] unfolding rb_inv_def same w m
    by (cases "read_mirror rb = write_mirror rb";
        cases "buffer_size rb \<le> write_index rb + length xs") auto
  have len: "rt_ringbuffer_data_len rb' = rt_ringbuffer_data_len rb + length xs"
    using inv n unfolding data_len [OF inv'] data_len [OF inv] same w m
    by (cases "read_mirror rb = write_mirror rb";
        cases "buffer_size rb \<le> write_index rb + length xs") (auto simp: rb_inv_def)
  let ?l = "rt_ringbuffer_data_len rb" and ?m = "buffer_size rb"
  have le: "?l \<le> ?m" using data_len_le [OF inv] .
  have at: "rb_at rb' k = (rb_contents rb @ xs) ! k" if k: "k < ?l + length xs" for k
  proof -
    let ?d = "if ?l \<le> k then k - ?l else k + ?m - ?l"
    have d: "?d < ?m" using k n le i by auto
    have "(write_index rb + ?d) mod ?m = (read_index rb + (?l + ?d)) mod ?m"
      unfolding write_pos [OF inv] by (simp add: mod_add_left_eq add.assoc)
    also have "\<dots> = (read_index rb + k) mod ?m"
      using le k by (auto simp: add.assoc [symmetric])
    finally have "rb_at rb' k = (if ?d < length xs then xs ! ?d else buffer_ptr rb ! ((read_index rb + k) mod ?m))"
      using p d unfolding placed_def rb_at_def same by metis
    moreover have "?d < length xs \<longleftrightarrow> ?l \<le> k" using k n le by auto
    ultimately show ?thesis
      by (auto simp: nth_append nth_contents rb_at_def)
  qed
  show "rb_contents rb' = rb_contents rb @ xs"
    by (rule contents_eqI) (simp_all add: len at)
qed

lemma put_block:
  assumes "rb_inv rb" and "len \<le> length ptr"
  defines "n \<equiv> min len (buffer_size rb - rt_ringbuffer_data_len rb)"
  shows "\<exists>rb'. rt_ringbuffer_put rb ptr len = Inr (n, rb') \<and> rb_inv rb' \<and>
    buffer_size rb' = buffer_size rb \<and> rb_contents rb' = rb_contents rb @ take n ptr"
proof (cases "rt_ringbuffer_space_len rb = 0")
  case True
  then show ?thesis using assms(1) by (simp add: rt_ringbuffer_put_def n_def space_len)
next
  case False
  have "buffer_size rb < 65536" using assms(1) by (simp add: rb_inv_def)
  then have sp: "rt_ringbuffer_space_len rb mod 65536 = rt_ringbuffer_space_len rb"
    using assms(1) by (simp add: space_len)
  have nn: "(if rt_ringbuffer_space_len rb < len then rt_ringbuffer_space_len rb else len) = n"
    using assms(1) by (simp add: n_def space_len)
  have "0 + n \<le> length ptr" and "n \<le> buffer_size rb"
    using assms(2) by (simp_all add: n_def)
  from write_block_placed [OF assms(1) this] obtain rb' where
    b: "write_block rb ptr 0 n = Inr (buffer_size rb \<le> write_index rb + n, rb')"
    and p: "placed rb (take n ptr) rb'"
    and w: "write_index rb' = (if buffer_size rb \<le> write_index rb + n then write_index rb + n - buffer_size rb
              else write_index rb + n)"
    and m: "write_mirror rb' = (write_mirror rb \<noteq> (buffer_size rb \<le> write_index rb + n))"
    by auto
  have l: "length (take n ptr) = n" using assms(2) by (simp add: n_def)
  have "rb_inv rb'" "rb_contents rb' = rb_contents rb @ take n ptr"
    using put_contents [OF assms(1) p] w m unfolding l by (simp_all add: n_def)
  with False sp nn b p show ?thesis
    by (simp add: rt_ringbuffer_put_def Let_def placed_def)
qed


text \<open>A read delivers the oldest bytes and removes them.\<close>

lemma advance_read:
  assumes inv: "rb_inv rb" and n: "n \<le> rt_ringbuffer_data_len rb"
    and rb': "rb' = rb\<lparr>read_mirror := (read_mirror rb \<noteq> (buffer_size rb \<le> read_index rb + n)),
      read_index := (if buffer_size rb \<le> read_index rb + n then read_index rb + n - buffer_size rb
                     else read_index rb + n)\<rparr>"
  shows "rb_inv rb'" and "rb_contents rb' = drop n (rb_contents rb)"
proof -
  have i: "0 < buffer_size rb" "read_index rb < buffer_size rb" "write_index rb < buffer_size rb"
    using inv by (simp_all add: rb_inv_def)
  have le: "rt_ringbuffer_data_len rb \<le> buffer_size rb" by (rule data_len_le [OF inv])
  have sel: "read_mirror rb' = (read_mirror rb \<noteq> (buffer_size rb \<le> read_index rb + n))"
    "read_index rb' = (if buffer_size rb \<le> read_index rb + n then read_index rb + n - buffer_size rb
                       else read_index rb + n)"
    "buffer_size rb' = buffer_size rb" "write_index rb' = write_index rb"
    "write_mirror rb' = write_mirror rb" "buffer_ptr rb' = buffer_ptr rb"
    by (simp_all add: rb')
  show inv': "rb_inv rb'"
    using inv n data_len [OF inv] unfolding rb_inv_def sel
    by (cases "read_mirror rb = write_mirror rb";
        cases "buffer_size rb \<le> read_index rb + n") auto
  have len: "rt_ringbuffer_data_len rb' = rt_ringbuffer_data_len rb - n"
    using inv n unfolding data_len [OF inv'] data_len [OF inv] sel
    by (cases "read_mirror rb = write_mirror rb";
        cases "buffer_size rb \<le> read_index rb + n") (auto simp: rb_inv_def)
  have r: "read_index rb' = (read_index rb + n) mod buffer_size rb"
    using i n le by (auto simp: sel le_mod_geq)
  have at: "rb_at rb' k = rb_at rb (n + k)" for k
    by (simp add: rb_at_def r sel mod_add_left_eq add.assoc)
  show "rb_contents rb' = drop n (rb_contents rb)"
    by (rule contents_eqI) (use n in \<open>simp_all add: len at nth_contents\<close>)
qed

lemma read_block:
  assumes inv: "rb_inv rb" and n: "n \<le> rt_ringbuffer_data_len rb" and o: "n \<le> length out"
  shows "write_at 0 (take n (rb_contents rb)) out =
    (if read_index rb + n < buffer_size rb
     then write_at 0 (take n (drop (read_index rb) (buffer_ptr rb))) out
     else (let k = buffer_size rb - read_index rb in
       write_at k (take (n - k) (buffer_ptr rb)) (write_at 0 (take k (drop (read_index rb) (buffer_ptr rb))) out)))"
proof -
  have i: "read_index rb < buffer_size rb" "buffer_size rb \<le> length (buffer_ptr rb)"
    using inv by (simp_all add: rb_inv_def)
  have le: "n \<le> buffer_size rb" using n data_len_le [OF inv] by simp
  let ?k = "buffer_size rb - read_index rb"
  show ?thesis
  proof (cases "read_index rb + n < buffer_size rb")
    case True
    have "take n (rb_contents rb) = take n (drop (read_index rb) (buffer_ptr rb))"
      using True n i by (intro nth_equalityI) (simp_all add: nth_contents rb_at_def)
    with True show ?thesis by simp
  next
    case False
    have k: "?k \<le> n" using False by simp
    have "take n (rb_contents rb) = take ?k (drop (read_index rb) (buffer_ptr rb)) @ take (n - ?k) (buffer_ptr rb)"
      (is "_ = ?a @ ?b")
    proof (rule nth_equalityI)
      show "length (take n (rb_contents rb)) = length (?a @ ?b)" using n i k le by simp
      fix j assume "j < length (take n (rb_contents rb))"
      then have j: "j < n" by simp
      have "take n (rb_contents rb) ! j = rb_at rb j" using j n by (simp add: nth_contents)
      also have "\<dots> = (?a @ ?b) ! j"
        unfolding rb_at_def wrap_index [OF i(1) less_le_trans [OF j le]]
        using i j k by (auto simp: nth_append add.commute)
      finally show "take n (rb_contents rb) ! j = (?a @ ?b) ! j" .
    qed
    with False k i o show ?thesis by (simp add: write_at_def Let_def)
  qed
qed

lemma get_block:
  assumes "rb_inv rb" and "len \<le> length out" and "len < 2 ^ 16"
  defines "n \<equiv> min len (rt_ringbuffer_data_len rb)"
  shows "\<exists>rb'. rt_ringbuffer_get rb out len =
      Inr (n, write_at 0 (take n (rb_contents rb)) out, rb') \<and> rb_inv rb' \<and>
    buffer_size rb' = buffer_size rb \<and> rb_contents rb' = drop n (rb_contents rb)"
proof (cases "rt_ringbuffer_data_len rb = 0")
  case True
  then show ?thesis using assms(1) by (simp add: rt_ringbuffer_get_def n_def)
next
  case False
  have i: "read_index rb < buffer_size rb" "buffer_size rb \<le> length (buffer_ptr rb)"
    "buffer_size rb < 2 ^ 15"
    using assms(1) by (simp_all add: rb_inv_def)
  have le: "rt_ringbuffer_data_len rb \<le> buffer_size rb" by (rule data_len_le [OF assms(1)])
  have nn: "(if rt_ringbuffer_data_len rb < len then rt_ringbuffer_data_len rb mod 2 ^ 16 else len) = n"
    using le i by (simp add: n_def)
  have n: "n \<le> rt_ringbuffer_data_len rb" "n \<le> length out" using assms(2) by (simp_all add: n_def)
  let ?w = "buffer_size rb \<le> read_index rb + n"
  let ?rb = "rb\<lparr>read_mirror := (read_mirror rb \<noteq> ?w),
      read_index := (if ?w then read_index rb + n - buffer_size rb else read_index rb + n)\<rparr>"
  let ?k = "buffer_size rb - read_index rb"
  have s: "size_diff (buffer_size rb) (read_index rb) = ?k" "?w \<Longrightarrow> size_diff n ?k = n - ?k"
    using i n le by (simp_all add: size_diff_le)
  have "rt_ringbuffer_get rb out len = Inr (n, write_at 0 (take n (rb_contents rb)) out, ?rb)"
  proof (cases ?w)
    case True
    have "memcpy_at 0 (buffer_ptr rb) (read_index rb) ?k out =
        Inr (write_at 0 (take ?k (drop (read_index rb) (buffer_ptr rb))) out)"
      using True i n by (simp add: memcpy_at_def)
    with True s i n le show ?thesis
      unfolding rt_ringbuffer_get_def Let_def nn read_block [OF assms(1) n]
      by (simp add: memcpy_at_def False)
  next
    case w: False
    with i n show ?thesis
      unfolding rt_ringbuffer_get_def Let_def nn read_block [OF assms(1) n]
      by (simp add: memcpy_at_def False)
  qed
  with advance_read [OF assms(1) n(1) refl] show ?thesis by auto
qed


subsection \<open>Characters\<close>

lemma store_step:
  assumes "rb_inv rb"
  shows "\<exists>rb1. store_char rb ch = Inr rb1 \<and> write_index rb1 = write_index rb \<and>
    buffer_size rb1 = buffer_size rb \<and> placed rb [ch] (step_write rb1) \<and>
    write_index (step_write rb1) = (if buffer_size rb \<le> write_index rb + 1
       then write_index rb + 1 - buffer_size rb else write_index rb + 1) \<and>
    write_mirror (step_write rb1) = (write_mirror rb \<noteq> (buffer_size rb \<le> write_index rb + 1))"
proof -
  have i: "write_index rb < buffer_size rb" "buffer_size rb \<le> length (buffer_ptr rb)"
    "buffer_size rb < 2 ^ 15"
    using assms by (simp_all add: rb_inv_def)
  let ?rb1 = "rb\<lparr>buffer_ptr := (buffer_ptr rb)[write_index rb := ch]\<rparr>"
  have pos: "write_index rb = (write_index rb + d) mod buffer_size rb \<longleftrightarrow> d = 0"
    if "d < buffer_size rb" for d
    using that i by (auto simp: wrap_index)
  have "placed rb [ch] (step_write ?rb1)"
    using i pos by (auto simp: placed_def step_write_def nth_list_update)
  moreover have e: "at_end (write_index rb) ?rb1 \<longleftrightarrow> buffer_size rb \<le> write_index rb + 1"
    using i by (auto simp: at_end_def)
  moreover have "buffer_size rb \<le> write_index rb + 1 \<Longrightarrow> write_index rb + 1 - buffer_size rb = 0"
    using i by simp
  ultimately show ?thesis
    using i by (auto simp: store_char_def step_write_def)
qed

lemma putchar_queue:
  assumes "rb_inv rb"
  defines "ok \<equiv> rt_ringbuffer_data_len rb < buffer_size rb"
  shows "\<exists>rb'. rt_ringbuffer_putchar rb ch = Inr (if ok then 1 else 0, rb') \<and> rb_inv rb' \<and>
    buffer_size rb' = buffer_size rb \<and>
    rb_contents rb' = (if ok then rb_contents rb @ [ch] else rb_contents rb)"
proof (cases ok)
  case False
  then show ?thesis using assms(1) by (simp add: rt_ringbuffer_putchar_def space_len ok_def)
next
  case True
  from store_step [OF assms(1), of ch] obtain rb1 where
    st: "store_char rb ch = Inr rb1" and p: "placed rb [ch] (step_write rb1)"
    and w: "write_index (step_write rb1) = (if buffer_size rb \<le> write_index rb + 1
       then write_index rb + 1 - buffer_size rb else write_index rb + 1)"
    and m: "write_mirror (step_write rb1) = (write_mirror rb \<noteq> (buffer_size rb \<le> write_index rb + 1))"
    by (elim exE conjE)
  have one: "length [ch] = 1" by simp
  have "length [ch] \<le> buffer_size rb - rt_ringbuffer_data_len rb" using True by (simp add: ok_def)
  from put_contents [OF assms(1) p this, unfolded one, OF w m] True st p assms(1) show ?thesis
    by (auto simp: rt_ringbuffer_putchar_def space_len ok_def placed_def)
qed

lemma getchar_queue:
  assumes "rb_inv rb"
  shows "\<exists>rb'. rt_ringbuffer_getchar rb =
      Inr (case rb_contents rb of [] \<Rightarrow> None | x # q \<Rightarrow> Some x, rb') \<and> rb_inv rb' \<and>
    buffer_size rb' = buffer_size rb \<and> rb_contents rb' = tl (rb_contents rb)"
proof (cases "rt_ringbuffer_data_len rb = 0")
  case True
  then have "rb_contents rb = []" by (simp add: rb_contents_def)
  with True assms show ?thesis by (simp add: rt_ringbuffer_getchar_def)
next
  case False
  have i: "read_index rb < buffer_size rb" "buffer_size rb \<le> length (buffer_ptr rb)"
    "buffer_size rb < 2 ^ 15"
    using assms by (simp_all add: rb_inv_def)
  let ?w = "buffer_size rb \<le> read_index rb + 1"
  let ?rb = "rb\<lparr>read_mirror := (read_mirror rb \<noteq> ?w),
      read_index := (if ?w then read_index rb + 1 - buffer_size rb else read_index rb + 1)\<rparr>"
  have z: "?w \<Longrightarrow> read_index rb + 1 - buffer_size rb = 0" using i by simp
  have e: "at_end (read_index rb) rb \<longleftrightarrow> ?w" using i by (auto simp: at_end_def)
  have h: "rb_contents rb = buffer_ptr rb ! read_index rb # tl (rb_contents rb)"
    using False i by (simp add: rb_contents_def rb_at_def upt_conv_Cons)
  have "rt_ringbuffer_getchar rb = Inr (Some (buffer_ptr rb ! read_index rb), ?rb)"
    using False i e z by (auto simp: rt_ringbuffer_getchar_def)
  moreover have "1 \<le> rt_ringbuffer_data_len rb" using False by simp
  note advance_read [OF assms this refl]
  ultimately show ?thesis
    by (subst h) (simp add: drop_Suc)
qed

text \<open>The character interface as a queue.\<close>

definition char_enq :: "u8 \<Rightarrow> ringbuffer \<Rightarrow> bool \<times> ringbuffer" where
  "char_enq ch rb = (case rt_ringbuffer_putchar rb ch of
     Inl e \<Rightarrow> (False, rb) | Inr (n, rb') \<Rightarrow> (n \<noteq> 0, rb'))"

definition char_deq :: "ringbuffer \<Rightarrow> u8 option \<times> ringbuffer" where
  "char_deq rb = (case rt_ringbuffer_getchar rb of Inl e \<Rightarrow> (None, rb) | Inr r \<Rightarrow> r)"

interpretation ring: bounded_fifo rb_inv rb_contents buffer_size char_enq char_deq
proof
  fix s x ok s' assume "rb_inv s" "char_enq x s = (ok, s')"
  with putchar_queue [of s x] show "rb_inv s' \<and> buffer_size s' = buffer_size s \<and>
      ok = (length (rb_contents s) < buffer_size s) \<and>
      rb_contents s' = (if ok then rb_contents s @ [x] else rb_contents s)"
    by (auto simp: char_enq_def split: if_splits)
next
  fix s v s' assume "rb_inv s" "char_deq s = (v, s')"
  with getchar_queue [of s] show "rb_inv s' \<and> buffer_size s' = buffer_size s \<and>
      v = (case rb_contents s of [] \<Rightarrow> None | x # q \<Rightarrow> Some x) \<and> rb_contents s' = tl (rb_contents s)"
    by (auto simp: char_deq_def)
qed

subsection \<open>Forced writes\<close>

text \<open>A block larger than the free space, and the read index moved behind it in the other mirror.\<close>

lemma overwrite_contents:
  assumes inv: "rb_inv rb" and p: "placed rb xs rb1" and n: "length xs \<le> buffer_size rb"
    and over: "buffer_size rb \<le> rt_ringbuffer_data_len rb + length xs"
    and w: "write_index rb1 = (write_index rb + length xs) mod buffer_size rb"
    and rb': "rb' = rb1\<lparr>read_mirror := \<not> write_mirror rb1, read_index := write_index rb1\<rparr>"
  shows "rb_inv rb'" and
    "rb_contents rb' = drop (rt_ringbuffer_data_len rb + length xs - buffer_size rb) (rb_contents rb @ xs)"
proof -
  let ?m = "buffer_size rb" and ?l = "rt_ringbuffer_data_len rb"
  have le: "?l \<le> ?m" by (rule data_len_le [OF inv])
  have i: "0 < ?m" "write_index rb < ?m" using inv by (simp_all add: rb_inv_def)
  have sel: "buffer_size rb' = ?m" "read_index rb' = write_index rb1" "write_index rb' = write_index rb1"
    "read_mirror rb' = (\<not> write_mirror rb')" "length (buffer_ptr rb1) = length (buffer_ptr rb)"
    "buffer_ptr rb' = buffer_ptr rb1"
    using p by (simp_all add: rb' placed_def)
  show inv': "rb_inv rb'"
    using inv i by (simp add: rb_inv_def sel w)
  have len: "rt_ringbuffer_data_len rb' = ?m"
    by (simp add: data_len [OF inv'] sel)
  show "rb_contents rb' = drop (?l + length xs - ?m) (rb_contents rb @ xs)"
  proof (rule contents_eqI)
    show "rt_ringbuffer_data_len rb' = length (drop (?l + length xs - ?m) (rb_contents rb @ xs))"
      using len over by simp
    fix k assume "k < length (drop (?l + length xs - ?m) (rb_contents rb @ xs))"
    then have k: "k < ?m" using over by simp
    let ?d = "if length xs + k < ?m then length xs + k else length xs + k - ?m"
    have d: "?d < ?m" using k n by auto
    have "(write_index rb1 + k) mod ?m = (write_index rb + (length xs + k)) mod ?m"
      by (simp add: w mod_add_left_eq add.assoc)
    also have "\<dots> = (write_index rb + ?d) mod ?m"
      using k by (auto simp: mod_if [of "write_index rb + (length xs + k)"])
    finally have "rb_at rb' k = (if ?d < length xs then xs ! ?d
        else buffer_ptr rb ! ((write_index rb + ?d) mod ?m))"
      using p d unfolding placed_def rb_at_def sel by metis
    moreover have "buffer_ptr rb ! ((write_index rb + ?d) mod ?m) = rb_contents rb ! (?l + length xs - ?m + k)"
      if lt: "length xs + k < ?m"
    proof -
      have j: "?l + length xs - ?m + k < ?l" using lt over by linarith
      have "(write_index rb + ?d) mod ?m = (read_index rb + (?l + (length xs + k))) mod ?m"
        using lt unfolding write_pos [OF inv] by (simp add: mod_add_left_eq add.assoc)
      also have "\<dots> = (read_index rb + (?l + length xs - ?m + k)) mod ?m"
        using over by (simp add: mod_if [of "read_index rb + (?l + (length xs + k))"] add.assoc)
      finally show ?thesis using nth_contents [OF j] by (simp add: rb_at_def)
    qed
    ultimately show "rb_at rb' k = drop (?l + length xs - ?m) (rb_contents rb @ xs) ! k"
      using over n le k by (auto simp: nth_append add.commute)
  qed
qed


text \<open>
  What \<open>rt_ringbuffer_put_force\<close> leaves in the buffer. When the block does not fit and the data has
  not wrapped round the end of the pool, the read mirror is flipped together with the write mirror
  and the buffer is empty afterwards.
\<close>

definition forced :: "ringbuffer \<Rightarrow> u8 list \<Rightarrow> u8 list" where
  "forced rb xs =
     (let l = rt_ringbuffer_data_len rb; m = buffer_size rb in
      if length xs \<le> m - l then rb_contents rb @ xs
      else if read_mirror rb = write_mirror rb then []
      else drop (l + length xs - m) (rb_contents rb @ xs))"

lemma empty_contents: "read_mirror rb = write_mirror rb \<Longrightarrow> read_index rb = write_index rb \<Longrightarrow> rb_contents rb = []"
  by (simp add: rb_contents_def rt_ringbuffer_data_len_def rt_ringbuffer_status_def)

lemma put_force_block:
  assumes "rb_inv rb" and "len \<le> length ptr" and "len < 2 ^ 16"
  defines "n \<equiv> min len (buffer_size rb)"
  shows "\<exists>rb'. rt_ringbuffer_put_force rb ptr len = Inr (n, rb') \<and> rb_inv rb' \<and>
    buffer_size rb' = buffer_size rb \<and> rb_contents rb' = forced rb (take n (drop (len - n) ptr))"
proof -
  let ?m = "buffer_size rb" and ?l = "rt_ringbuffer_data_len rb"
  let ?xs = "take n (drop (len - n) ptr)"
  have i: "0 < ?m" "?m < 2 ^ 15" "read_index rb < ?m" "write_index rb < ?m" "?m \<le> length (buffer_ptr rb)"
    using assms(1) by (simp_all add: rb_inv_def)
  have le: "?l \<le> ?m" by (rule data_len_le [OF assms(1)])
  have sp: "rt_ringbuffer_space_len rb mod 2 ^ 16 = ?m - ?l"
    using i by (simp add: space_len [OF assms(1)])
  have so: "(if len > ?m then len - ?m else 0) = len - n" "(if len > ?m then ?m else len) = n"
    by (auto simp: n_def)
  have "len - n + n \<le> length ptr" and nm: "n \<le> ?m" using assms(2) by (auto simp: n_def)
  from write_block_placed [OF assms(1) this] obtain rb1 where
    b: "write_block rb ptr (len - n) n = Inr (?m \<le> write_index rb + n, rb1)"
    and p: "placed rb ?xs rb1"
    and w: "write_index rb1 = (if ?m \<le> write_index rb + n then write_index rb + n - ?m else write_index rb + n)"
    and m: "write_mirror rb1 = (write_mirror rb \<noteq> (?m \<le> write_index rb + n))"
    by auto
  have l: "length ?xs = n" using assms(2) by (auto simp: n_def)
  have pf: "rt_ringbuffer_put_force rb ptr len = Inr (n,
      if n > ?m - ?l then
        (if ?m \<le> write_index rb + n
         then rb1\<lparr>read_mirror := \<not> read_mirror rb1, read_index := write_index rb1\<rparr>
         else rb1\<lparr>read_index := write_index rb1\<rparr>)
      else rb1)"
    unfolding rt_ringbuffer_put_force_def Let_def sp so b by simp
  have same: "read_mirror rb1 = read_mirror rb" "buffer_size rb1 = ?m"
    "length (buffer_ptr rb1) = length (buffer_ptr rb)"
    using p by (simp_all add: placed_def)
  show ?thesis
  proof (cases "n \<le> ?m - ?l")
    case True
    then have "length ?xs \<le> ?m - ?l" by (simp only: l)
    from put_contents [OF assms(1) p this, unfolded l, OF w m] True pf same l show ?thesis
      by (simp add: forced_def Let_def)
  next
    case False
    show ?thesis
    proof (cases "read_mirror rb = write_mirror rb")
      case True
      then have "?m \<le> write_index rb + n" using False data_len [OF assms(1)] i by auto
      let ?rb = "rb1\<lparr>read_mirror := \<not> read_mirror rb1, read_index := write_index rb1\<rparr>"
      have "rb_contents ?rb = []"
        using True m same \<open>?m \<le> write_index rb + n\<close> by (intro empty_contents) simp_all
      moreover have "rb_inv ?rb"
        using i same nm w m True \<open>?m \<le> write_index rb + n\<close> by (simp add: rb_inv_def)
      ultimately show ?thesis
        using True False pf same l \<open>?m \<le> write_index rb + n\<close> by (simp add: forced_def Let_def)
    next
      case mir: False
      let ?rb = "rb1\<lparr>read_mirror := \<not> write_mirror rb1, read_index := write_index rb1\<rparr>"
      have o1: "?m \<le> ?l + length ?xs" using False le l by simp
      have o2: "write_index rb1 = (write_index rb + length ?xs) mod ?m"
        unfolding l using w i nm by (auto simp: le_mod_geq)
      have o3: "length ?xs \<le> ?m" unfolding l by (rule nm)
      note overwrite_contents [OF assms(1) p o3 o1 o2 refl]
      moreover have "rt_ringbuffer_put_force rb ptr len = Inr (n, ?rb)"
      proof (cases "?m \<le> write_index rb + n")
        case True
        with False mir m same(1) show ?thesis by (simp add: pf)
      next
        case w: False
        with mir m same(1) have "rb1\<lparr>read_index := write_index rb1\<rparr> = ?rb" by simp
        with w False show ?thesis by (simp add: pf)
      qed
      ultimately show ?thesis
        using mir False l same by (simp add: forced_def Let_def)
    qed
  qed
qed

text \<open>A forced character never loses more than the oldest one.\<close>

lemma putchar_force_queue:
  assumes "rb_inv rb"
  shows "\<exists>rb'. rt_ringbuffer_putchar_force rb ch = Inr (1, rb') \<and> rb_inv rb' \<and>
    buffer_size rb' = buffer_size rb \<and>
    rb_contents rb' = drop (rt_ringbuffer_data_len rb + 1 - buffer_size rb) (rb_contents rb @ [ch])"
proof -
  let ?m = "buffer_size rb" and ?l = "rt_ringbuffer_data_len rb"
  have i: "0 < ?m" "write_index rb < ?m" using assms by (simp_all add: rb_inv_def)
  from store_step [OF assms, of ch] obtain rb1 where
    st: "store_char rb ch = Inr rb1" and wi: "write_index rb1 = write_index rb"
    and bs: "buffer_size rb1 = ?m" and p: "placed rb [ch] (step_write rb1)"
    and w: "write_index (step_write rb1) = (if ?m \<le> write_index rb + 1 then write_index rb + 1 - ?m else write_index rb + 1)"
    and m: "write_mirror (step_write rb1) = (write_mirror rb \<noteq> (?m \<le> write_index rb + 1))"
    by (elim exE conjE)
  have one: "length [ch] = 1" by simp
  have e: "at_end (write_index rb1) rb1 \<longleftrightarrow> ?m \<le> write_index rb + 1"
    using i by (auto simp: at_end_def wi bs)
  have full: "rt_ringbuffer_status rb = RT_RINGBUFFER_FULL \<longleftrightarrow> ?l = ?m"
    using i by (auto simp: rt_ringbuffer_data_len_def rt_ringbuffer_status_def data_len [OF assms])
      (use assms in \<open>auto simp: rb_inv_def data_len [OF assms] split: if_splits\<close>)
  show ?thesis
  proof (cases "?l = ?m")
    case False
    then have "length [ch] \<le> ?m - ?l" using data_len_le [OF assms] by simp
    from put_contents [OF assms p this, unfolded one, OF w m] st full False p data_len_le [OF assms]
    show ?thesis by (auto simp: rt_ringbuffer_putchar_force_def placed_def Let_def)
  next
    case True
    then have mir: "read_mirror rb \<noteq> write_mirror rb"
      using full by (auto simp: rt_ringbuffer_status_def split: if_splits)
    let ?rb2 = "step_write rb1"
    let ?rb = "?rb2\<lparr>read_mirror := \<not> write_mirror ?rb2, read_index := write_index ?rb2\<rparr>"
    have same: "read_mirror ?rb2 = read_mirror rb" "buffer_size ?rb2 = ?m"
      using p by (simp_all add: placed_def)
    have "rt_ringbuffer_putchar_force rb ch = Inr (1, ?rb)"
    proof (cases "?m \<le> write_index rb + 1")
      case True
      with \<open>?l = ?m\<close> st full e mir m same(1) show ?thesis
        by (simp add: rt_ringbuffer_putchar_force_def Let_def)
    next
      case w: False
      with mir m same(1) have "?rb2\<lparr>read_index := write_index ?rb2\<rparr> = ?rb" by simp
      with w True st full e show ?thesis by (simp add: rt_ringbuffer_putchar_force_def Let_def)
    qed
    moreover have o2: "write_index ?rb2 = (write_index rb + length [ch]) mod ?m"
      using w i by (auto simp: le_mod_geq)
    have o1: "?m \<le> ?l + length [ch]" and o3: "length [ch] \<le> ?m" using True i by simp_all
    note overwrite_contents [OF assms p o3 o1 o2 refl]
    ultimately show ?thesis using same by (simp only: one) simp
  qed
qed

end
