(* ===== verification/RingProps.thy ===== *)
theory RingProps
  imports RingLaws
begin

text \<open>Properties of the RT-Thread ring buffer.\<close>

text \<open>
  C27: Block writes and reads implement a bounded queue of bytes: a write appends as much of the block
  as fits, a read delivers the oldest bytes and removes them, both keep the invariant, and no access
  leaves the pool or the caller's array.
\<close>

theorem rt_ringbuffer_block_queue:
  assumes "rb_inv rb" and "len \<le> length ptr" and "k \<le> length out" and "k < 2 ^ 16"
  shows "(\<exists>rb'. rt_ringbuffer_put rb ptr len =
            Inr (min len (buffer_size rb - length (rb_contents rb)), rb') \<and>
          rb_inv rb' \<and> buffer_size rb' = buffer_size rb \<and>
          rb_contents rb' = rb_contents rb @ take (min len (buffer_size rb - length (rb_contents rb))) ptr) \<and>
    (\<exists>rb'. rt_ringbuffer_get rb out k =
            Inr (min k (length (rb_contents rb)), write_at 0 (take k (rb_contents rb)) out, rb') \<and>
          rb_inv rb' \<and> buffer_size rb' = buffer_size rb \<and> rb_contents rb' = drop k (rb_contents rb))"
proof -
  have t: "take (min k (rt_ringbuffer_data_len rb)) (rb_contents rb) = take k (rb_contents rb)"
    "drop (min k (rt_ringbuffer_data_len rb)) (rb_contents rb) = drop k (rb_contents rb)"
    by (simp_all add: min_def)
  show ?thesis
    using put_block [OF assms(1,2)] get_block [OF assms(1,3,4)] unfolding t by simp
qed

text \<open>Eight bytes, five of them in use, the write index about to wrap.\<close>

definition sample_ring :: ringbuffer where
  "sample_ring = \<lparr>buffer_ptr = [10, 11, 12, 13, 14, 15, 16, 17], read_mirror = False, read_index = 2,
     write_mirror = False, write_index = 7, buffer_size = 8\<rparr>"

lemma sample_ring_inv: "rb_inv sample_ring"
  by (simp add: rb_inv_def sample_ring_def)

lemma sample_ring_contents: "rb_contents sample_ring = [12, 13, 14, 15, 16]"
  by (simp add: rb_contents_def data_len [OF sample_ring_inv])
    (simp add: sample_ring_def upt_rec rb_at_def)

lemma sample_ring_sel: "buffer_size sample_ring = 8" "read_mirror sample_ring = write_mirror sample_ring"
  by (simp_all add: sample_ring_def)

theorem rt_ringbuffer_block_queue_witness:
  "\<exists>rb'. rt_ringbuffer_put sample_ring [1, 2, 3, 4] 4 = Inr (3, rb') \<and>
     rb_contents rb' = [12, 13, 14, 15, 16, 1, 2, 3]"
  using rt_ringbuffer_block_queue [OF sample_ring_inv, of 4 "[1, 2, 3, 4]" 0 "[]"]
  by (simp add: sample_ring_contents sample_ring_sel) blast

text \<open>
  For every sequence of character writes and reads, in any order, the answers of the ring buffer
  are those of a bounded list, and what was accepted is what was delivered followed by what is
  still stored.
\<close>

theorem rt_ringbuffer_chars_equiv_list:
  assumes "rb_inv rb" and "ring.fifo_run ops rb = (replies, rb')"
  shows "ref_run (buffer_size rb) ops (rb_contents rb) = (replies, rb_contents rb') \<and>
    rb_contents rb @ accepted ops replies = given_out replies @ rb_contents rb' \<and> rb_inv rb'"
  using ring.fifo_run_sim [OF assms] ring.fifo_run_conserves [OF assms] by simp

theorem rt_ringbuffer_chars_equiv_list_witness:
  "\<exists>rb'. ring.fifo_run [Enq 1, Deq, Deq] sample_ring =
     ([Accepted True, Delivered (Some 12), Delivered (Some 13)], rb') \<and> rb_contents rb' = [14, 15, 16, 1]"
proof -
  obtain rs rb' where r: "ring.fifo_run [Enq 1, Deq, Deq] sample_ring = (rs, rb')" by fastforce
  from rt_ringbuffer_chars_equiv_list [OF sample_ring_inv r] r show ?thesis
    by (auto simp: sample_ring_contents sample_ring_sel)
qed

text \<open>
  A forced block write that fits appends; one that does not fit keeps the newest bytes when the
  stored data wraps round the end of the pool, and otherwise leaves the buffer empty: the read
  mirror is flipped although it was not the side the write index left.
\<close>

theorem rt_ringbuffer_put_force_contents:
  assumes "rb_inv rb" and "len \<le> length ptr" and "len < 2 ^ 16"
  defines "n \<equiv> min len (buffer_size rb)"
  defines "xs \<equiv> take n (drop (len - n) ptr)"
  shows "\<exists>rb'. rt_ringbuffer_put_force rb ptr len = Inr (n, rb') \<and> rb_inv rb' \<and>
    rb_contents rb' =
      (if n \<le> buffer_size rb - length (rb_contents rb) then rb_contents rb @ xs
       else if read_mirror rb = write_mirror rb then []
       else drop (length (rb_contents rb) + n - buffer_size rb) (rb_contents rb @ xs))"
proof -
  have l: "length xs = n" using assms(2) by (auto simp: xs_def n_def)
  show ?thesis
    using put_force_block [OF assms(1-3)] l
    unfolding n_def [symmetric] xs_def [symmetric] by (auto simp: forced_def Let_def)
qed

theorem rt_ringbuffer_put_force_contents_witness:
  "\<exists>rb'. rt_ringbuffer_put_force sample_ring [1, 2, 3, 4] 4 = Inr (4, rb') \<and> rb_contents rb' = []"
  using rt_ringbuffer_put_force_contents [OF sample_ring_inv, of 4 "[1, 2, 3, 4]"]
  by (simp add: sample_ring_contents sample_ring_sel) blast

end
