(* ===== verification/Heap.thy ===== *)
theory Heap
  imports Prelude
begin

text \<open>
  The RT-Thread small-memory allocator, \<open>src/mem.c\<close>, for a 32-bit processor with
  \<open>RT_ALIGN_SIZE\<close> 4, with \<open>RT_MEM_STATS\<close> and without \<open>RT_USING_MEMTRACE\<close> and hooks. Addresses are
  offsets from \<open>heap_ptr\<close>, which is aligned; \<open>hdr\<close> gives the header that stands at an offset.
  Arithmetic on \<open>rt_size_t\<close> is modulo \<open>2\<^sup>3\<^sup>2\<close> where the code can leave the range. The calls of the
  semaphore and the copies the allocator makes are recorded in order.
\<close>

subsection \<open>State\<close>

record heap_mem =
  magic :: int
  used :: int
  next_blk :: int
  prev_blk :: int

datatype heap_event = Sem_Take | Sem_Release | Memcpy int int int | Memset int int

record heap =
  hdr :: "int \<Rightarrow> heap_mem"
  heap_end :: int
  lfree :: int
  mem_size_aligned :: int
  used_mem :: int
  max_mem :: int
  heap_events :: "heap_event list"

definition HEAP_MAGIC :: int where "HEAP_MAGIC = 0x1ea0"
definition SIZEOF_STRUCT_MEM :: int where "SIZEOF_STRUCT_MEM = 12"
definition MIN_SIZE_ALIGNED :: int where "MIN_SIZE_ALIGNED = 12"

definition w32 :: "int \<Rightarrow> int" where "w32 x = x mod 2 ^ 32"

text \<open>\<open>RT_ALIGN(size, 4)\<close> and \<open>RT_ALIGN_DOWN(size, 4)\<close>.\<close>

definition RT_ALIGN :: "int \<Rightarrow> int" where "RT_ALIGN n = w32 (n + 3) - w32 (n + 3) mod 4"
definition RT_ALIGN_DOWN :: "int \<Rightarrow> int" where "RT_ALIGN_DOWN n = n - n mod 4"

text \<open>Field assignments.\<close>

definition set_used :: "int \<Rightarrow> int \<Rightarrow> heap \<Rightarrow> heap" where
  "set_used a v s = s\<lparr>hdr := (hdr s)(a := (hdr s a)\<lparr>used := v\<rparr>)\<rparr>"

definition set_magic :: "int \<Rightarrow> heap \<Rightarrow> heap" where
  "set_magic a s = s\<lparr>hdr := (hdr s)(a := (hdr s a)\<lparr>magic := HEAP_MAGIC\<rparr>)\<rparr>"

definition set_next :: "int \<Rightarrow> int \<Rightarrow> heap \<Rightarrow> heap" where
  "set_next a v s = s\<lparr>hdr := (hdr s)(a := (hdr s a)\<lparr>next_blk := v\<rparr>)\<rparr>"

definition set_prev :: "int \<Rightarrow> int \<Rightarrow> heap \<Rightarrow> heap" where
  "set_prev a v s = s\<lparr>hdr := (hdr s)(a := (hdr s a)\<lparr>prev_blk := v\<rparr>)\<rparr>"

definition event :: "heap_event \<Rightarrow> heap \<Rightarrow> heap" where
  "event e s = s\<lparr>heap_events := heap_events s @ [e]\<rparr>"

subsection \<open>Initialisation\<close>

definition rt_system_heap_init ::
  "int \<Rightarrow> int \<Rightarrow> (int \<Rightarrow> heap_mem) \<Rightarrow> heap option" where
  "rt_system_heap_init begin_addr end_addr garbage =
     (let begin_align = RT_ALIGN begin_addr; end_align = RT_ALIGN_DOWN end_addr in
      if end_align > 2 * SIZEOF_STRUCT_MEM \<and> end_align - 2 * SIZEOF_STRUCT_MEM \<ge> begin_align then
        (let m = end_align - begin_align - 2 * SIZEOF_STRUCT_MEM; e = m + SIZEOF_STRUCT_MEM in
         Some \<lparr>hdr = garbage(0 := \<lparr>magic = HEAP_MAGIC, used = 0, next_blk = e, prev_blk = 0\<rparr>,
                             e := \<lparr>magic = HEAP_MAGIC, used = 1, next_blk = e, prev_blk = e\<rparr>),
               heap_end = e, lfree = 0, mem_size_aligned = m, used_mem = 0, max_mem = 0,
               heap_events = []\<rparr>)
      else None)"

subsection \<open>Joining free neighbours\<close>

definition plug_forward :: "int \<Rightarrow> heap \<Rightarrow> heap" where
  "plug_forward mem s =
     (let nmem = next_blk (hdr s mem) in
      if mem \<noteq> nmem \<and> used (hdr s nmem) = 0 \<and> nmem \<noteq> heap_end s then
        (let s1 = (if lfree s = nmem then s\<lparr>lfree := mem\<rparr> else s);
             s2 = set_next mem (next_blk (hdr s1 nmem)) s1 in
         set_prev (next_blk (hdr s2 nmem)) mem s2)
      else s)"

definition plug_backward :: "int \<Rightarrow> heap \<Rightarrow> heap" where
  "plug_backward mem s =
     (let pmem = prev_blk (hdr s mem) in
      if pmem \<noteq> mem \<and> used (hdr s pmem) = 0 then
        (let s1 = (if lfree s = mem then s\<lparr>lfree := pmem\<rparr> else s);
             s2 = set_next pmem (next_blk (hdr s1 mem)) s1 in
         set_prev (next_blk (hdr s2 mem)) pmem s2)
      else s)"

definition plug_holes :: "int \<Rightarrow> heap \<Rightarrow> stop + heap" where
  "plug_holes mem s =
     (if mem < 0 \<or> mem \<ge> heap_end s \<or> used (hdr s mem) \<noteq> 0 then Inl (Assert_Hang ''plug_holes'')
      else Inr (plug_backward mem (plug_forward mem s)))"

subsection \<open>Allocation\<close>

text \<open>The user data size of the block at \<open>ptr\<close>: \<open>mem->next - (ptr + SIZEOF_STRUCT_MEM)\<close>.\<close>

definition data_size :: "heap \<Rightarrow> int \<Rightarrow> int" where
  "data_size s ptr = w32 (next_blk (hdr s ptr) - (ptr + SIZEOF_STRUCT_MEM))"

text \<open>The \<open>for\<close> loop: the first block that is free and large enough, \<open>None\<close> inside when there is none.\<close>

partial_function (option) find_fit :: "heap \<Rightarrow> int \<Rightarrow> int \<Rightarrow> int option option" where
  "find_fit s n ptr =
     (if ptr < w32 (mem_size_aligned s - n) then
        (if used (hdr s ptr) = 0 \<and> data_size s ptr \<ge> n then Some (Some ptr)
         else find_fit s n (next_blk (hdr s ptr)))
      else Some None)"

text \<open>\<open>while (lfree->used && lfree != heap_end) lfree = next;\<close>\<close>

partial_function (option) next_free :: "heap \<Rightarrow> int \<Rightarrow> int option" where
  "next_free s l =
     (if used (hdr s l) \<noteq> 0 \<and> l \<noteq> heap_end s then next_free s (next_blk (hdr s l)) else Some l)"

definition add_used :: "int \<Rightarrow> heap \<Rightarrow> heap" where
  "add_used n s = (let u = w32 (used_mem s + n) in s\<lparr>used_mem := u, max_mem := max (max_mem s) u\<rparr>)"

text \<open>A new free block at \<open>ptr2\<close> between \<open>ptr\<close> and its successor.\<close>

definition insert_free :: "int \<Rightarrow> int \<Rightarrow> heap \<Rightarrow> heap" where
  "insert_free ptr ptr2 s =
     s\<lparr>hdr := (hdr s)(ptr2 := \<lparr>magic = HEAP_MAGIC, used = 0, next_blk = next_blk (hdr s ptr),
                               prev_blk = ptr\<rparr>)\<rparr>"

definition fix_prev :: "int \<Rightarrow> heap \<Rightarrow> heap" where
  "fix_prev ptr2 s =
     (let n = next_blk (hdr s ptr2) in
      if n \<noteq> mem_size_aligned s + SIZEOF_STRUCT_MEM then set_prev n ptr2 s else s)"

definition take_block :: "int \<Rightarrow> int \<Rightarrow> heap \<Rightarrow> heap" where
  "take_block n ptr s =
     (if data_size s ptr \<ge> n + SIZEOF_STRUCT_MEM + MIN_SIZE_ALIGNED then
        (let ptr2 = ptr + SIZEOF_STRUCT_MEM + n;
             s1 = set_used ptr 1 (set_next ptr ptr2 (insert_free ptr ptr2 s)) in
         set_magic ptr (add_used (n + SIZEOF_STRUCT_MEM) (fix_prev ptr2 s1)))
      else set_magic ptr (add_used (next_blk (hdr s ptr) - ptr) (set_used ptr 1 s)))"

text \<open>The request as the allocator rounds it, and \<open>None\<close> when it is refused at once.\<close>

definition request :: "int \<Rightarrow> heap \<Rightarrow> int option" where
  "request n s =
     (if n = 0 then None
      else if RT_ALIGN n > mem_size_aligned s then None
      else if RT_ALIGN n < MIN_SIZE_ALIGNED then Some MIN_SIZE_ALIGNED
      else Some (RT_ALIGN n))"

text \<open>The allocation once the semaphore is held. The outer \<open>None\<close>: a loop does not end.\<close>

definition malloc_locked :: "int \<Rightarrow> heap \<Rightarrow> (stop + int option \<times> heap) option" where
  "malloc_locked n s =
     (case find_fit s n (lfree s) of
        None \<Rightarrow> None
      | Some None \<Rightarrow> Some (Inr (None, event Sem_Release s))
      | Some (Some ptr) \<Rightarrow>
          (let s1 = take_block n ptr s in
           case (if ptr = lfree s1 then next_free s1 (lfree s1) else Some (lfree s1)) of
             None \<Rightarrow> None
           | Some l \<Rightarrow>
              (let s2 = event Sem_Release (s1\<lparr>lfree := l\<rparr>) in
               if ptr = lfree s1 \<and> \<not> (l = heap_end s2 \<or> used (hdr s2 l) = 0) \<or>
                  ptr + SIZEOF_STRUCT_MEM + n > heap_end s2 \<or> (ptr + SIZEOF_STRUCT_MEM) mod 4 \<noteq> 0
               then Some (Inl (Assert_Hang ''rt_malloc''))
               else Some (Inr (Some (ptr + SIZEOF_STRUCT_MEM), s2)))))"

definition rt_malloc :: "int \<Rightarrow> heap \<Rightarrow> (stop + int option \<times> heap) option" where
  "rt_malloc n s =
     (case request n s of None \<Rightarrow> Some (Inr (None, s)) | Some m \<Rightarrow> malloc_locked m (event Sem_Take s))"

definition rt_calloc :: "int \<Rightarrow> int \<Rightarrow> heap \<Rightarrow> (stop + int option \<times> heap) option" where
  "rt_calloc count n s =
     (case rt_malloc (w32 (count * n)) s of
        Some (Inr (Some p, s')) \<Rightarrow> Some (Inr (Some p, event (Memset p (w32 (count * n))) s'))
      | r \<Rightarrow> r)"

subsection \<open>Release and resizing\<close>

definition rt_free :: "int option \<Rightarrow> heap \<Rightarrow> stop + heap" where
  "rt_free rmem s =
     (case rmem of
        None \<Rightarrow> Inr s
      | Some p \<Rightarrow>
          if p mod 4 \<noteq> 0 \<or> p < 0 \<or> p \<ge> heap_end s then Inl (Assert_Hang ''rt_free'')
          else
            (let mem = p - SIZEOF_STRUCT_MEM; s1 = event Sem_Take s in
             if used (hdr s mem) = 0 \<or> magic (hdr s mem) \<noteq> HEAP_MAGIC then Inl (Assert_Hang ''mem->used'')
             else
               (let s2 = set_magic mem (set_used mem 0 s1);
                    s3 = (if mem < lfree s2 then s2\<lparr>lfree := mem\<rparr> else s2);
                    s4 = s3\<lparr>used_mem := w32 (used_mem s3 - (next_blk (hdr s3 mem) - mem))\<rparr> in
                bindE (plug_holes mem s4) (\<lambda>s5. Inr (event Sem_Release s5)))))"

text \<open>The block at \<open>ptr\<close> gives its tail back.\<close>

definition shrink_block :: "int \<Rightarrow> int \<Rightarrow> int \<Rightarrow> heap \<Rightarrow> stop + heap" where
  "shrink_block ptr old n s =
     (let ptr2 = ptr + SIZEOF_STRUCT_MEM + n;
          s1 = s\<lparr>used_mem := w32 (used_mem s - (old - n))\<rparr> in
      plug_holes ptr2 (fix_prev ptr2 (set_next ptr ptr2 (insert_free ptr ptr2 s1))))"

definition grow_block :: "int \<Rightarrow> int \<Rightarrow> int \<Rightarrow> heap \<Rightarrow> (stop + int option \<times> heap) option" where
  "grow_block p old n s =
     (case rt_malloc n s of
        Some (Inr (Some q, s1)) \<Rightarrow>
          (case rt_free (Some p) (event (Memcpy q p (min old n)) s1) of
             Inl e \<Rightarrow> Some (Inl e)
           | Inr s2 \<Rightarrow> Some (Inr (Some q, s2)))
      | r \<Rightarrow> r)"

definition rt_realloc :: "int option \<Rightarrow> int \<Rightarrow> heap \<Rightarrow> (stop + int option \<times> heap) option" where
  "rt_realloc rmem newsize s =
     (let n = RT_ALIGN newsize in
      if n > mem_size_aligned s then Some (Inr (None, s))
      else if n = 0 then Some (bindE (rt_free rmem s) (\<lambda>s'. Inr (None, s')))
      else case rmem of
        None \<Rightarrow> rt_malloc n s
      | Some p \<Rightarrow>
         (let s1 = event Sem_Take s in
          if p < 0 \<or> p \<ge> heap_end s then Some (Inr (Some p, event Sem_Release s1))
          else
            (let ptr = p - SIZEOF_STRUCT_MEM; old = data_size s1 ptr in
             if old = n then Some (Inr (Some p, event Sem_Release s1))
             else if n + SIZEOF_STRUCT_MEM + MIN_SIZE_ALIGNED < old then
               Some (bindE (shrink_block ptr old n s1) (\<lambda>s2. Inr (Some p, event Sem_Release s2)))
             else grow_block p old n (event Sem_Release s1))))"

definition rt_memory_info :: "heap \<Rightarrow> int \<times> int \<times> int" where
  "rt_memory_info s = (mem_size_aligned s, used_mem s, max_mem s)"

end
