(* ===== verification/HeapLaws.thy ===== *)
theory HeapLaws
  imports Heap
begin

text \<open>
  The chain of blocks of the allocator: its invariant, and how taking, giving back and joining
  blocks change the set of allocated regions.
\<close>

lemmas heap_consts = HEAP_MAGIC_def SIZEOF_STRUCT_MEM_def MIN_SIZE_ALIGNED_def

named_theorems heap_sel

lemma set_fields [heap_sel]:
  "used (hdr (set_used a v s) x) = (if x = a then v else used (hdr s x))"
  "magic (hdr (set_used a v s) x) = magic (hdr s x)"
  "next_blk (hdr (set_used a v s) x) = next_blk (hdr s x)"
  "prev_blk (hdr (set_used a v s) x) = prev_blk (hdr s x)"
  "used (hdr (set_magic a s) x) = used (hdr s x)"
  "magic (hdr (set_magic a s) x) = (if x = a then HEAP_MAGIC else magic (hdr s x))"
  "next_blk (hdr (set_magic a s) x) = next_blk (hdr s x)"
  "prev_blk (hdr (set_magic a s) x) = prev_blk (hdr s x)"
  "used (hdr (set_next a v s) x) = used (hdr s x)"
  "magic (hdr (set_next a v s) x) = magic (hdr s x)"
  "next_blk (hdr (set_next a v s) x) = (if x = a then v else next_blk (hdr s x))"
  "prev_blk (hdr (set_next a v s) x) = prev_blk (hdr s x)"
  "used (hdr (set_prev a v s) x) = used (hdr s x)"
  "magic (hdr (set_prev a v s) x) = magic (hdr s x)"
  "next_blk (hdr (set_prev a v s) x) = next_blk (hdr s x)"
  "prev_blk (hdr (set_prev a v s) x) = (if x = a then v else prev_blk (hdr s x))"
  by (simp_all add: set_used_def set_magic_def set_next_def set_prev_def)

lemma set_rest [heap_sel]:
  "heap_end (set_used a v s) = heap_end s" "heap_end (set_magic a s) = heap_end s"
  "heap_end (set_next a v s) = heap_end s" "heap_end (set_prev a v s) = heap_end s"
  "heap_end (event e s) = heap_end s" "heap_end (add_used n s) = heap_end s"
  "lfree (set_used a v s) = lfree s" "lfree (set_magic a s) = lfree s"
  "lfree (set_next a v s) = lfree s" "lfree (set_prev a v s) = lfree s"
  "lfree (event e s) = lfree s" "lfree (add_used n s) = lfree s"
  "mem_size_aligned (set_used a v s) = mem_size_aligned s"
  "mem_size_aligned (set_magic a s) = mem_size_aligned s"
  "mem_size_aligned (set_next a v s) = mem_size_aligned s"
  "mem_size_aligned (set_prev a v s) = mem_size_aligned s"
  "mem_size_aligned (event e s) = mem_size_aligned s"
  "mem_size_aligned (add_used n s) = mem_size_aligned s"
  "used_mem (set_used a v s) = used_mem s" "used_mem (set_magic a s) = used_mem s"
  "used_mem (set_next a v s) = used_mem s" "used_mem (set_prev a v s) = used_mem s"
  "used_mem (event e s) = used_mem s" "used_mem (add_used n s) = w32 (used_mem s + n)"
  "hdr (event e s) = hdr s" "hdr (add_used n s) = hdr s"
  by (simp_all add: set_used_def set_magic_def set_next_def set_prev_def event_def add_used_def Let_def)

subsection \<open>Invariant\<close>

definition block_ok :: "(int \<Rightarrow> heap_mem) \<Rightarrow> int \<Rightarrow> int set \<Rightarrow> int \<Rightarrow> bool" where
  "block_ok h E B x \<longleftrightarrow>
     0 \<le> x \<and> x < E \<and> x mod 4 = 0 \<and> magic (h x) = HEAP_MAGIC \<and> (used (h x) = 0 \<or> used (h x) = 1) \<and>
     next_blk (h x) \<in> insert E B \<and> x + 16 \<le> next_blk (h x) \<and>
     (\<forall>y \<in> insert E B. y \<le> x \<or> next_blk (h x) \<le> y) \<and>
     (next_blk (h x) \<noteq> E \<longrightarrow> prev_blk (h (next_blk (h x))) = x)"

definition blocks_ok :: "(int \<Rightarrow> heap_mem) \<Rightarrow> int \<Rightarrow> int set \<Rightarrow> bool" where
  "blocks_ok h E B \<longleftrightarrow>
     finite B \<and> 0 \<in> B \<and> prev_blk (h 0) = 0 \<and> used (h E) = 1 \<and> (\<forall>x \<in> B. block_ok h E B x)"

text \<open>No two neighbours are free, those of the blocks in \<open>X\<close> excepted.\<close>

definition joined :: "(int \<Rightarrow> heap_mem) \<Rightarrow> int \<Rightarrow> int set \<Rightarrow> int set \<Rightarrow> bool" where
  "joined h E B X \<longleftrightarrow>
     (\<forall>x \<in> B. next_blk (h x) \<noteq> E \<longrightarrow> used (h x) = 0 \<longrightarrow> used (h (next_blk (h x))) = 0 \<longrightarrow>
        x \<in> X \<or> next_blk (h x) \<in> X)"

text \<open>The allocated regions: header offset and end.\<close>

definition regions :: "(int \<Rightarrow> heap_mem) \<Rightarrow> int set \<Rightarrow> (int \<times> int) set" where
  "regions h B = (\<lambda>x. (x, next_blk (h x))) ` {x \<in> B. used (h x) \<noteq> 0}"

definition heap_wf :: "heap \<Rightarrow> int set \<Rightarrow> int set \<Rightarrow> bool" where
  "heap_wf s B X \<longleftrightarrow>
     blocks_ok (hdr s) (heap_end s) B \<and> joined (hdr s) (heap_end s) B X \<and>
     heap_end s = mem_size_aligned s + SIZEOF_STRUCT_MEM \<and> heap_end s < 2 ^ 32 \<and> heap_end s mod 4 = 0 \<and>
     24 \<le> heap_end s \<and> lfree s \<in> insert (heap_end s) B"

lemma heap_wfD:
  assumes "heap_wf s B X"
  shows "blocks_ok (hdr s) (heap_end s) B" and "joined (hdr s) (heap_end s) B X"
    and "mem_size_aligned s = heap_end s - 12" and "heap_end s < 2 ^ 32" and "heap_end s mod 4 = 0"
    and "lfree s \<in> insert (heap_end s) B" and "24 \<le> heap_end s"
  using assms unfolding heap_wf_def SIZEOF_STRUCT_MEM_def by (blast, blast, linarith, blast, blast, blast, blast)

lemma heap_wfI:
  assumes "blocks_ok (hdr s) (heap_end s) B" and "joined (hdr s) (heap_end s) B X"
    and "mem_size_aligned s = heap_end s - 12" and "heap_end s < 2 ^ 32" and "heap_end s mod 4 = 0"
    and "lfree s \<in> insert (heap_end s) B" and "24 \<le> heap_end s"
  shows "heap_wf s B X"
  using assms unfolding heap_wf_def SIZEOF_STRUCT_MEM_def by auto

lemma block_okI:
  assumes "0 \<le> x" "x < E" "x mod 4 = 0" "magic (h x) = HEAP_MAGIC" "used (h x) = 0 \<or> used (h x) = 1"
    "next_blk (h x) \<in> insert E B" "x + 16 \<le> next_blk (h x)"
    "\<And>y. y \<in> insert E B \<Longrightarrow> y \<le> x \<or> next_blk (h x) \<le> y"
    "next_blk (h x) \<noteq> E \<Longrightarrow> prev_blk (h (next_blk (h x))) = x"
  shows "block_ok h E B x"
  using assms by (auto simp: block_ok_def)

lemma blocks_okD:
  assumes "blocks_ok h E B" and "x \<in> B"
  shows "0 \<le> x" "x < E" "x mod 4 = 0" "magic (h x) = HEAP_MAGIC" "used (h x) = 0 \<or> used (h x) = 1"
    "next_blk (h x) \<in> insert E B" "x + 16 \<le> next_blk (h x)"
    "\<And>y. y \<in> insert E B \<Longrightarrow> y \<le> x \<or> next_blk (h x) \<le> y"
    "next_blk (h x) \<noteq> E \<Longrightarrow> prev_blk (h (next_blk (h x))) = x"
  using assms by (auto simp: blocks_ok_def block_ok_def)

lemma blocks_ok_next_le: "blocks_ok h E B \<Longrightarrow> x \<in> B \<Longrightarrow> next_blk (h x) \<le> E"
  using blocks_okD(2,8) [of h E B x] by fastforce

lemma next_inj:
  assumes "blocks_ok h E B" and "x \<in> B" and "y \<in> B" and "next_blk (h x) = next_blk (h y)"
  shows "x = y"
proof -
  have "y \<le> x \<or> next_blk (h x) \<le> y" "x \<le> y \<or> next_blk (h y) \<le> x"
    using blocks_okD(8) [OF assms(1,2), of y] blocks_okD(8) [OF assms(1,3), of x] assms(2,3) by simp_all
  with blocks_okD(7) [OF assms(1,2)] blocks_okD(7) [OF assms(1,3)] assms(4) show ?thesis by linarith
qed

text \<open>Regions of different blocks do not overlap.\<close>

lemma blocks_apart:
  assumes "blocks_ok h E B" and "x \<in> B" and "y \<in> B" and "x \<noteq> y"
  shows "next_blk (h x) \<le> y \<or> next_blk (h y) \<le> x"
  using blocks_okD(8) [OF assms(1,2), of y] blocks_okD(8) [OF assms(1,3), of x] assms(2-4) by auto

subsection \<open>Changes of the chain\<close>

text \<open>Only headers of the chain and the end matter.\<close>

lemma split_blocks:
  assumes ok: "blocks_ok h E B" and x: "x \<in> B" and lo: "x + 16 \<le> m" and hi: "m + 16 \<le> next_blk (h x)"
    and al: "m mod 4 = 0" and u: "v = 0 \<or> v = 1"
    and h': "\<And>y. y \<in> insert E B \<Longrightarrow> magic (h' y) = magic (h y)"
      "\<And>y. y \<in> insert E B \<Longrightarrow> used (h' y) = (if y = x then v else used (h y))"
      "\<And>y. y \<in> B \<Longrightarrow> next_blk (h' y) = (if y = x then m else next_blk (h y))"
      "\<And>y. y \<in> B \<Longrightarrow> prev_blk (h' y) = (if y = next_blk (h x) then m else prev_blk (h y))"
      "h' m = \<lparr>magic = HEAP_MAGIC, used = 0, next_blk = next_blk (h x), prev_blk = x\<rparr>"
  shows "blocks_ok h' E (insert m B)"
proof -
  note D = blocks_okD [OF ok x]
  have mE: "m < E" "0 \<le> m" using blocks_ok_next_le [OF ok x] lo hi D(1) by auto
  have gap: "y \<le> x \<or> next_blk (h x) \<le> y" if "y \<in> insert E B" for y using D(8) [OF that] .
  have xE: "x \<noteq> E" using D(2) by simp
  have mB: "m \<notin> B" using gap [of m] lo hi by auto
  have n0: "next_blk (h x) \<noteq> 0" using D(1,7) by simp
  have nm: "next_blk (h' m) = next_blk (h x)" "prev_blk (h' m) = x" "magic (h' m) = HEAP_MAGIC"
    "used (h' m) = 0"
    by (simp_all add: h'(5))
  have nx: "next_blk (h' x) = m" using h'(3) x by simp
  have "block_ok h' E (insert m B) y" if y: "y \<in> B" for y
  proof (cases "y = x")
    case True
    show ?thesis unfolding True
    proof (rule block_okI)
      show "next_blk (h' x) \<in> insert E (insert m B)" "x + 16 \<le> next_blk (h' x)"
        using lo by (simp_all add: nx)
      show "z \<le> x \<or> next_blk (h' x) \<le> z" if "z \<in> insert E (insert m B)" for z
        unfolding nx using that gap [of z] hi by auto
      show "prev_blk (h' (next_blk (h' x))) = x" unfolding nx by (rule nm(2))
    qed (use D h' x u in auto)
  next
    case False
    note Y = blocks_okD [OF ok y]
    have ny: "next_blk (h' y) = next_blk (h y)" using h'(3) y False by simp
    have ne: "next_blk (h y) \<noteq> next_blk (h x)" using next_inj [OF ok y x] False by auto
    have ap: "m \<le> y \<or> next_blk (h y) \<le> m"
      using blocks_apart [OF ok y x False] lo hi by auto
    show ?thesis
    proof (rule block_okI)
      show "z \<le> y \<or> next_blk (h' y) \<le> z" if "z \<in> insert E (insert m B)" for z
        unfolding ny using that Y(8) [of z] ap by auto
      show "prev_blk (h' (next_blk (h' y))) = y" if "next_blk (h' y) \<noteq> E"
        using that Y(6,9) h'(4) [of "next_blk (h y)"] ne by (auto simp: ny)
    qed (use Y h' y False ny in auto)
  qed
  moreover have "block_ok h' E (insert m B) m"
  proof (rule block_okI)
    show "z \<le> m \<or> next_blk (h' m) \<le> z" if "z \<in> insert E (insert m B)" for z
      unfolding nm using that gap [of z] lo by auto
    show "prev_blk (h' (next_blk (h' m))) = m" if "next_blk (h' m) \<noteq> E"
      using that D(6) h'(4) [of "next_blk (h x)"] by (auto simp: nm)
  qed (use mE al hi D nm in auto)
  moreover have "used (h' E) = 1" "prev_blk (h' 0) = 0" "finite B" "0 \<in> B"
    using ok h'(2,4) xE n0 by (auto simp: blocks_ok_def)
  ultimately show ?thesis by (auto simp: blocks_ok_def)
qed

lemma merge_blocks:
  assumes ok: "blocks_ok h E B" and x: "x \<in> B" and y: "next_blk (h x) = y" "y \<noteq> E"
    and h': "\<And>z. z \<in> insert E B \<Longrightarrow> magic (h' z) = magic (h z)"
      "\<And>z. z \<in> insert E B \<Longrightarrow> used (h' z) = used (h z)"
      "\<And>z. z \<in> B \<Longrightarrow> next_blk (h' z) = (if z = x then next_blk (h y) else next_blk (h z))"
      "\<And>z. z \<in> B \<Longrightarrow> prev_blk (h' z) = (if z = next_blk (h y) then x else prev_blk (h z))"
  shows "blocks_ok h' E (B - {y})"
proof -
  note D = blocks_okD [OF ok x]
  have yB: "y \<in> B" using D(6) y by auto
  note Y = blocks_okD [OF ok yB]
  have "block_ok h' E (B - {y}) z" if z: "z \<in> B - {y}" for z
  proof -
    have zB: "z \<in> B" and zy: "z \<noteq> y" using z by auto
    note Z = blocks_okD [OF ok zB]
    show ?thesis
    proof (cases "z = x")
      case True
      have nx: "next_blk (h' x) = next_blk (h y)" using h'(3) x by simp
      show ?thesis unfolding True
      proof (rule block_okI)
        show "next_blk (h' x) \<in> insert E (B - {y})" "x + 16 \<le> next_blk (h' x)"
          using Y(6,7) D(7) y by (auto simp: nx)
        show "w \<le> x \<or> next_blk (h' x) \<le> w" if "w \<in> insert E (B - {y})" for w
          unfolding nx using that D(8) [of w] Y(8) [of w] y by auto
        show "prev_blk (h' (next_blk (h' x))) = x" if "next_blk (h' x) \<noteq> E"
          using that Y(6) h'(4) [of "next_blk (h y)"] by (auto simp: nx)
      qed (use D h' x in auto)
    next
      case False
      have nz: "next_blk (h' z) = next_blk (h z)" using h'(3) zB False by simp
      have ne: "next_blk (h z) \<noteq> y" using next_inj [OF ok zB x] False y by auto
      have ne2: "next_blk (h z) \<noteq> next_blk (h y)" using next_inj [OF ok zB yB] zy by auto
      show ?thesis
      proof (rule block_okI)
        show "w \<le> z \<or> next_blk (h' z) \<le> w" if "w \<in> insert E (B - {y})" for w
          unfolding nz using that Z(8) [of w] by auto
        show "prev_blk (h' (next_blk (h' z))) = z" if "next_blk (h' z) \<noteq> E"
          using that Z(6,9) h'(4) [of "next_blk (h z)"] ne2 by (auto simp: nz)
      qed (use Z h' zB ne nz in auto)
    qed
  qed
  moreover have "y \<noteq> 0" "next_blk (h y) \<noteq> 0" using D(1,7) Y(1,7) y by auto
  ultimately show ?thesis using ok h' by (auto simp: blocks_ok_def)
qed

lemma mark_blocks:
  assumes ok: "blocks_ok h E B" and u: "\<And>z. z \<in> B \<Longrightarrow> used (h' z) = 0 \<or> used (h' z) = 1" "used (h' E) = 1"
    and h': "\<And>z. z \<in> B \<Longrightarrow> magic (h' z) = magic (h z)" "\<And>z. z \<in> B \<Longrightarrow> next_blk (h' z) = next_blk (h z)"
      "\<And>z. z \<in> B \<Longrightarrow> prev_blk (h' z) = prev_blk (h z)"
  shows "blocks_ok h' E B"
proof -
  have "block_ok h' E B z" if z: "z \<in> B" for z
    using blocks_okD [OF ok z] u h' z unfolding block_ok_def by (auto simp: h')
  then show ?thesis using ok u h' by (auto simp: blocks_ok_def)
qed

subsection \<open>Joining free blocks\<close>

text \<open>Every block but the first is the successor of another one, which its header names.\<close>

lemma pred_exists:
  assumes ok: "blocks_ok h E B" and x: "x \<in> B" "x \<noteq> 0"
  shows "prev_blk (h x) \<in> B" and "next_blk (h (prev_blk (h x))) = x"
proof -
  let ?L = "{z \<in> B. z < x}"
  have fin: "finite ?L" "0 \<in> ?L"
    using ok blocks_okD(1) [OF ok x(1)] x by (auto simp: blocks_ok_def)
  let ?z = "Max ?L"
  have z: "?z \<in> B" "?z < x" using Max_in [OF fin(1)] fin(2) by auto
  note Z = blocks_okD [OF ok z(1)]
  have le: "next_blk (h ?z) \<le> x" using Z(8) [of x] x z by auto
  have "next_blk (h ?z) = x"
  proof (rule ccontr)
    assume "next_blk (h ?z) \<noteq> x"
    with le Z(6) blocks_okD(2) [OF ok x(1)] have "next_blk (h ?z) \<in> ?L" by auto
    with fin(1) have "next_blk (h ?z) \<le> ?z" by (rule Max_ge)
    with Z(7) show False by simp
  qed
  moreover from this have "prev_blk (h x) = ?z" using Z(9) blocks_okD(2) [OF ok x(1)] by auto
  ultimately show "prev_blk (h x) \<in> B" "next_blk (h (prev_blk (h x))) = x" using z by simp_all
qed

definition join :: "int \<Rightarrow> int \<Rightarrow> heap \<Rightarrow> heap" where
  "join x y s =
     (let s1 = (if lfree s = y then s\<lparr>lfree := x\<rparr> else s); n = next_blk (hdr s y) in
      set_prev n x (set_next x n s1))"

lemma join_sel:
  assumes "x \<noteq> y"
  shows "used (hdr (join x y s) z) = used (hdr s z)" "magic (hdr (join x y s) z) = magic (hdr s z)"
    "next_blk (hdr (join x y s) z) = (if z = x then next_blk (hdr s y) else next_blk (hdr s z))"
    "prev_blk (hdr (join x y s) z) = (if z = next_blk (hdr s y) then x else prev_blk (hdr s z))"
    "heap_end (join x y s) = heap_end s" "mem_size_aligned (join x y s) = mem_size_aligned s"
    "used_mem (join x y s) = used_mem s" "lfree (join x y s) = (if lfree s = y then x else lfree s)"
    "heap_events (join x y s) = heap_events s"
  using assms by (auto simp: join_def Let_def heap_sel) (simp_all add: set_prev_def set_next_def)

lemma plug_forward_join:
  "plug_forward m s =
     (let n = next_blk (hdr s m) in
      if m \<noteq> n \<and> used (hdr s n) = 0 \<and> n \<noteq> heap_end s then join m n s else s)"
  by (auto simp: plug_forward_def join_def Let_def heap_sel)

lemma plug_backward_join:
  "plug_backward m s =
     (let p = prev_blk (hdr s m) in
      if p \<noteq> m \<and> used (hdr s p) = 0 then join p m s else s)"
  by (auto simp: plug_backward_def join_def Let_def heap_sel)

lemma regions_join:
  assumes "used (hdr s x) = 0" and "used (hdr s y) = 0" and "x \<noteq> y"
  shows "regions (hdr (join x y s)) (B - {y}) = regions (hdr s) B"
  using assms(1,2) unfolding regions_def
  by (intro image_cong) (auto simp: join_sel [OF assms(3)])

lemma join_blocks:
  assumes "heap_wf s B X" and "x \<in> B" and "next_blk (hdr s x) = y" and "y \<noteq> heap_end s" and "x \<noteq> y"
  shows "blocks_ok (hdr (join x y s)) (heap_end s) (B - {y})"
    and "lfree (join x y s) \<in> insert (heap_end s) (B - {y})"
proof -
  show "blocks_ok (hdr (join x y s)) (heap_end s) (B - {y})"
    by (rule merge_blocks [of "hdr s" _ _ x]) (use assms in \<open>auto simp: heap_wf_def join_sel\<close>)
  show "lfree (join x y s) \<in> insert (heap_end s) (B - {y})"
    using assms by (auto simp: heap_wf_def join_sel)
qed

lemma plug_forward_ok:
  assumes wf: "heap_wf s B {m}" and m: "m \<in> B" "used (hdr s m) = 0"
  shows "\<exists>B'. heap_wf (plug_forward m s) B' {m} \<and> m \<in> B' \<and> used (hdr (plug_forward m s) m) = 0 \<and>
    (let n = next_blk (hdr (plug_forward m s) m) in
       n \<noteq> heap_end s \<longrightarrow> used (hdr (plug_forward m s) n) \<noteq> 0) \<and>
    regions (hdr (plug_forward m s)) B' = regions (hdr s) B \<and>
    heap_end (plug_forward m s) = heap_end s \<and> used_mem (plug_forward m s) = used_mem s \<and>
    mem_size_aligned (plug_forward m s) = mem_size_aligned s"
proof -
  note ok = heap_wfD(1) [OF wf]
  note M = blocks_okD [OF ok m(1)]
  let ?n = "next_blk (hdr s m)"
  show ?thesis
  proof (cases "used (hdr s ?n) = 0 \<and> ?n \<noteq> heap_end s")
    case False
    then have "plug_forward m s = s" by (auto simp: plug_forward_join Let_def)
    with wf m False show ?thesis by (auto simp: Let_def)
  next
    case True
    have ne: "m \<noteq> ?n" using M(7) by simp
    have nB: "?n \<in> B" using M(6) True by auto
    note N = blocks_okD [OF ok nB]
    have pf: "plug_forward m s = join m ?n s" using True ne by (simp add: plug_forward_join Let_def)
    note j = heap_wfD(2) [OF wf]
    have far: "next_blk (hdr s ?n) \<noteq> m" using N(7) M(7) by simp
    have nn: "next_blk (hdr s ?n) \<noteq> heap_end s \<Longrightarrow> used (hdr s (next_blk (hdr s ?n))) \<noteq> 0"
      using j nB True far ne by (auto simp: joined_def)
    have "joined (hdr (join m ?n s)) (heap_end s) (B - {?n}) {m}"
      using j by (auto simp: joined_def join_sel [OF ne])
    then have "heap_wf (join m ?n s) (B - {?n}) {m}"
      using join_blocks [OF wf m(1) refl _ ne] True wf by (auto simp: heap_wf_def join_sel [OF ne])
    then show ?thesis
      using m ne nn True regions_join [OF m(2) _ ne] unfolding pf
      by (intro exI [of _ "B - {?n}"]) (simp add: join_sel [OF ne] Let_def)
  qed
qed

lemma plug_backward_ok:
  assumes wf: "heap_wf s B {m}" and m: "m \<in> B" "used (hdr s m) = 0"
    and fwd: "next_blk (hdr s m) \<noteq> heap_end s \<Longrightarrow> used (hdr s (next_blk (hdr s m))) \<noteq> 0"
  shows "\<exists>B'. heap_wf (plug_backward m s) B' {} \<and> regions (hdr (plug_backward m s)) B' = regions (hdr s) B \<and>
    heap_end (plug_backward m s) = heap_end s \<and> used_mem (plug_backward m s) = used_mem s \<and>
    mem_size_aligned (plug_backward m s) = mem_size_aligned s"
proof -
  note ok = heap_wfD(1) [OF wf] and j = heap_wfD(2) [OF wf]
  note M = blocks_okD [OF ok m(1)]
  let ?p = "prev_blk (hdr s m)"
  have pred: "?p = z" if "z \<in> B" "next_blk (hdr s z) = m" for z
    using blocks_okD(9) [OF ok that(1)] that(2) M(2) by simp
  show ?thesis
  proof (cases "?p \<noteq> m \<and> used (hdr s ?p) = 0")
    case False
    then have pb: "plug_backward m s = s" by (auto simp: plug_backward_join Let_def)
    have "joined (hdr s) (heap_end s) B {}"
      unfolding joined_def
    proof (intro ballI impI)
      fix x assume x: "x \<in> B" "next_blk (hdr s x) \<noteq> heap_end s" "used (hdr s x) = 0"
        "used (hdr s (next_blk (hdr s x))) = 0"
      with j have "x = m \<or> next_blk (hdr s x) = m" by (auto simp: joined_def)
      moreover have "x \<noteq> m" using x fwd by auto
      ultimately have n: "next_blk (hdr s x) = m" by simp
      with pred x(1) have "?p = x" by simp
      with False \<open>x \<noteq> m\<close> x(3) show "x \<in> {} \<or> next_blk (hdr s x) \<in> {}" by simp
    qed
    with wf show ?thesis unfolding pb by (auto simp: heap_wf_def)
  next
    case True
    have m0: "m \<noteq> 0" using True ok by (auto simp: blocks_ok_def)
    note p = pred_exists [OF ok m(1) m0]
    have ne: "?p \<noteq> m" using True by simp
    have pb: "plug_backward m s = join ?p m s" using True by (simp add: plug_backward_join Let_def)
    have "joined (hdr (join ?p m s)) (heap_end s) (B - {m}) {}"
      unfolding joined_def join_sel [OF ne]
    proof (intro ballI impI)
      fix x assume x: "x \<in> B - {m}"
        and e: "(if x = ?p then next_blk (hdr s m) else next_blk (hdr s x)) \<noteq> heap_end s"
        and u: "used (hdr s x) = 0"
        and v: "used (hdr s (if x = ?p then next_blk (hdr s m) else next_blk (hdr s x))) = 0"
      have xp: "x \<noteq> ?p" using e v fwd by auto
      with j x e u v have "next_blk (hdr s x) = m" by (auto simp: joined_def)
      with pred x xp show "x \<in> {} \<or> (if x = ?p then next_blk (hdr s m) else next_blk (hdr s x)) \<in> {}" by auto
    qed
    then have "heap_wf (join ?p m s) (B - {m}) {}"
      using join_blocks [OF wf p _ ne] M(2) wf by (auto simp: heap_wf_def join_sel [OF ne])
    then show ?thesis
      using regions_join [OF _ m(2) ne] True unfolding pb
      by (intro exI [of _ "B - {m}"]) (simp add: join_sel [OF ne])
  qed
qed

lemma plug_holes_ok:
  assumes wf: "heap_wf s B {m}" and m: "m \<in> B" "used (hdr s m) = 0"
  shows "\<exists>s' B'. plug_holes m s = Inr s' \<and> heap_wf s' B' {} \<and> regions (hdr s') B' = regions (hdr s) B \<and>
    heap_end s' = heap_end s \<and> used_mem s' = used_mem s \<and> mem_size_aligned s' = mem_size_aligned s"
proof -
  have "0 \<le> m" "m < heap_end s"
    using blocks_okD(1,2) [OF heap_wfD(1) [OF wf] m(1)] by simp_all
  then have ph: "plug_holes m s = Inr (plug_backward m (plug_forward m s))"
    using m by (simp add: plug_holes_def)
  from plug_forward_ok [OF assms] obtain B1 where
    1: "heap_wf (plug_forward m s) B1 {m}" "m \<in> B1" "used (hdr (plug_forward m s) m) = 0"
    and 2: "next_blk (hdr (plug_forward m s) m) \<noteq> heap_end s \<Longrightarrow>
        used (hdr (plug_forward m s) (next_blk (hdr (plug_forward m s) m))) \<noteq> 0"
    and 3: "regions (hdr (plug_forward m s)) B1 = regions (hdr s) B"
      "heap_end (plug_forward m s) = heap_end s" "used_mem (plug_forward m s) = used_mem s"
      "mem_size_aligned (plug_forward m s) = mem_size_aligned s"
    by (auto simp: Let_def)
  from plug_backward_ok [OF 1] 2 3 show ?thesis unfolding ph by auto
qed

end
