(* ===== verification/HeapOps.thy ===== *)
theory HeapOps
  imports HeapLaws
begin

text \<open>Initialisation, allocation, release and resizing keep the invariant.\<close>

definition region_bytes :: "(int \<times> int) set \<Rightarrow> int" where
  "region_bytes R = (\<Sum>(a, b) \<in> R. b - a)"

text \<open>A well-formed heap with its set of allocated regions, and the statistics it keeps.\<close>

definition heap_inv :: "heap \<Rightarrow> (int \<times> int) set \<Rightarrow> bool" where
  "heap_inv s R \<longleftrightarrow>
     (\<exists>B. heap_wf s B {} \<and> R = regions (hdr s) B \<and> used_mem s = w32 (region_bytes R))"

lemma w32_id [simp]: "0 \<le> x \<Longrightarrow> x < 2 ^ 32 \<Longrightarrow> w32 x = x"
  by (simp add: w32_def)

lemma w32_add: "w32 (w32 a + b) = w32 (a + b)" "w32 (w32 a - b) = w32 (a - b)"
  by (simp_all add: w32_def mod_simps)

lemma finite_regions: "blocks_ok h E B \<Longrightarrow> finite (regions h B)"
  by (simp add: regions_def blocks_ok_def)

lemma regions_apart:
  assumes "blocks_ok h E B" and "(a, b) \<in> regions h B" and "(c, d) \<in> regions h B" and "a \<noteq> c"
  shows "b \<le> c \<or> d \<le> a"
  using blocks_apart [OF assms(1), of a c] assms(2-4) by (auto simp: regions_def)

lemma regions_bounds:
  assumes "blocks_ok h E B" and "(a, b) \<in> regions h B"
  shows "a \<in> B" "0 \<le> a" "a + 16 \<le> b" "b \<le> E" "a mod 4 = 0" "next_blk (h a) = b" "used (h a) \<noteq> 0"
  using blocks_okD(1,3,7) [OF assms(1), of a] blocks_ok_next_le [OF assms(1), of a] assms(2)
  by (auto simp: regions_def)

lemma data_size_block:
  assumes "heap_wf s B X" and "x \<in> B"
  shows "data_size s x = next_blk (hdr s x) - x - 12"
proof -
  note D = blocks_okD [OF heap_wfD(1) [OF assms(1)] assms(2)]
  have "next_blk (hdr s x) \<le> heap_end s" by (rule blocks_ok_next_le [OF heap_wfD(1) [OF assms(1)] assms(2)])
  with D(1,7) heap_wfD(4) [OF assms(1)] show ?thesis
    by (simp add: data_size_def SIZEOF_STRUCT_MEM_def algebra_simps)
qed

subsection \<open>The two loops\<close>

lemma find_fit_ok:
  assumes wf: "heap_wf s B X" and n: "12 \<le> n" "n \<le> mem_size_aligned s"
  shows "ptr \<in> insert (heap_end s) B \<Longrightarrow>
    \<exists>r. find_fit s n ptr = Some r \<and>
      (case r of
         None \<Rightarrow> \<forall>x \<in> B. ptr \<le> x \<and> x < mem_size_aligned s - n \<longrightarrow>
                  used (hdr s x) \<noteq> 0 \<or> next_blk (hdr s x) - x - 12 < n
       | Some x \<Rightarrow> x \<in> B \<and> ptr \<le> x \<and> used (hdr s x) = 0 \<and> n \<le> next_blk (hdr s x) - x - 12)"
proof (induction "nat (heap_end s - ptr)" arbitrary: ptr rule: less_induct)
  case less
  have lim: "w32 (mem_size_aligned s - n) = mem_size_aligned s - n"
    using n heap_wfD(3,4) [OF wf] by simp
  show ?case
  proof (cases "ptr < mem_size_aligned s - n")
    case False
    then have "find_fit s n ptr = Some None" by (subst find_fit.simps) (simp add: lim)
    with False show ?thesis by simp
  next
    case True
    then have B: "ptr \<in> B" using less.prems heap_wfD(3) [OF wf] n by auto
    note D = blocks_okD [OF heap_wfD(1) [OF wf] B]
    have ds: "data_size s ptr = next_blk (hdr s ptr) - ptr - 12" by (rule data_size_block [OF wf B])
    show ?thesis
    proof (cases "used (hdr s ptr) = 0 \<and> data_size s ptr \<ge> n")
      case fits: True
      then have "find_fit s n ptr = Some (Some ptr)" using True by (subst find_fit.simps) (simp add: lim)
      with fits B ds show ?thesis by simp
    next
      case small: False
      have eq: "find_fit s n ptr = find_fit s n (next_blk (hdr s ptr))"
        by (subst find_fit.simps) (simp only: lim True small if_True if_False)
      have "nat (heap_end s - next_blk (hdr s ptr)) < nat (heap_end s - ptr)"
        using D(2,7) by simp
      from less.hyps [OF this D(6)] obtain r where
        r: "find_fit s n (next_blk (hdr s ptr)) = Some r"
        "case r of
         None \<Rightarrow> \<forall>x \<in> B. next_blk (hdr s ptr) \<le> x \<and> x < mem_size_aligned s - n \<longrightarrow>
                  used (hdr s x) \<noteq> 0 \<or> next_blk (hdr s x) - x - 12 < n
       | Some x \<Rightarrow> x \<in> B \<and> next_blk (hdr s ptr) \<le> x \<and> used (hdr s x) = 0 \<and> n \<le> next_blk (hdr s x) - x - 12"
        by blast
      have "next_blk (hdr s ptr) \<le> x \<or> x = ptr" if "x \<in> B" "ptr \<le> x" for x
        using D(8) [of x] that by auto
      with r eq small ds D(7) show ?thesis
        by (intro exI [of _ r]) (cases r; fastforce)
    qed
  qed
qed

lemma next_free_ok:
  assumes wf: "blocks_ok (hdr s) (heap_end s) B"
  shows "l \<in> insert (heap_end s) B \<Longrightarrow>
    \<exists>l'. next_free s l = Some l' \<and> l' \<in> insert (heap_end s) B \<and>
         (l' = heap_end s \<or> used (hdr s l') = 0)"
proof (induction "nat (heap_end s - l)" arbitrary: l rule: less_induct)
  case less
  show ?case
  proof (cases "used (hdr s l) \<noteq> 0 \<and> l \<noteq> heap_end s")
    case False
    then have "next_free s l = Some l" by (subst next_free.simps) (simp only: if_False)
    with False less.prems show ?thesis by auto
  next
    case True
    then have B: "l \<in> B" using less.prems by simp
    note D = blocks_okD [OF wf B]
    have "nat (heap_end s - next_blk (hdr s l)) < nat (heap_end s - l)" using D(2,7) by simp
    from less.hyps [OF this D(6)] True show ?thesis by (subst next_free.simps) simp
  qed
qed

subsection \<open>Cutting a block in two\<close>

definition carve :: "int \<Rightarrow> int \<Rightarrow> heap \<Rightarrow> heap" where
  "carve x m s = fix_prev m (set_next x m (insert_free x m s))"

lemma fix_prev_set_used: "x \<noteq> m \<Longrightarrow> fix_prev m (set_used x v t) = set_used x v (fix_prev m t)"
proof -
  have "set_prev n m (set_used x v t) = set_used x v (set_prev n m t)" for n
    by (cases "n = x"; cases "hdr t x") (simp_all add: set_prev_def set_used_def fun_upd_twist)
  then show ?thesis by (simp add: fix_prev_def Let_def heap_sel)
qed

lemma carve_sel:
  assumes ne: "x \<noteq> m" "next_blk (hdr s x) \<noteq> m" "next_blk (hdr s x) \<noteq> x" and y: "y \<noteq> m"
    and end_: "mem_size_aligned s + SIZEOF_STRUCT_MEM = heap_end s"
  shows "used (hdr (carve x m s) y) = used (hdr s y)" "magic (hdr (carve x m s) y) = magic (hdr s y)"
    "next_blk (hdr (carve x m s) y) = (if y = x then m else next_blk (hdr s y))"
    "prev_blk (hdr (carve x m s) y) = (if next_blk (hdr s x) \<noteq> heap_end s \<and> y = next_blk (hdr s x) then m
       else prev_blk (hdr s y))"
    "hdr (carve x m s) m = \<lparr>magic = HEAP_MAGIC, used = 0, next_blk = next_blk (hdr s x), prev_blk = x\<rparr>"
    "heap_end (carve x m s) = heap_end s" "mem_size_aligned (carve x m s) = mem_size_aligned s"
    "lfree (carve x m s) = lfree s" "used_mem (carve x m s) = used_mem s"
proof -
  let ?u = "set_next x m (insert_free x m s)"
  have um: "hdr ?u m = \<lparr>magic = HEAP_MAGIC, used = 0, next_blk = next_blk (hdr s x), prev_blk = x\<rparr>"
    using ne by (simp add: set_next_def insert_free_def)
  have io: "hdr (insert_free x m s) z = hdr s z" if "z \<noteq> m" for z using that by (simp add: insert_free_def)
  have ir: "heap_end (insert_free x m s) = heap_end s" "lfree (insert_free x m s) = lfree s"
    "mem_size_aligned (insert_free x m s) = mem_size_aligned s" "used_mem (insert_free x m s) = used_mem s"
    by (simp_all add: insert_free_def)
  have c: "carve x m s = (if next_blk (hdr s x) \<noteq> heap_end s then set_prev (next_blk (hdr s x)) m ?u else ?u)"
    unfolding carve_def fix_prev_def um by (simp add: heap_sel ir end_)
  show "used (hdr (carve x m s) y) = used (hdr s y)" "magic (hdr (carve x m s) y) = magic (hdr s y)"
    "next_blk (hdr (carve x m s) y) = (if y = x then m else next_blk (hdr s y))"
    "prev_blk (hdr (carve x m s) y) = (if next_blk (hdr s x) \<noteq> heap_end s \<and> y = next_blk (hdr s x) then m
       else prev_blk (hdr s y))"
    "heap_end (carve x m s) = heap_end s" "mem_size_aligned (carve x m s) = mem_size_aligned s"
    "lfree (carve x m s) = lfree s" "used_mem (carve x m s) = used_mem s"
    using y unfolding c by (auto simp: heap_sel ir io)
  show "hdr (carve x m s) m = \<lparr>magic = HEAP_MAGIC, used = 0, next_blk = next_blk (hdr s x), prev_blk = x\<rparr>"
    using ne um unfolding c by (simp add: set_prev_def)
qed

lemma carve_ok:
  assumes wf: "heap_wf s B {}" and x: "x \<in> B" and lo: "x + 16 \<le> m" and hi: "m + 16 \<le> next_blk (hdr s x)"
    and al: "m mod 4 = 0"
  shows "heap_wf (carve x m s) (insert m B) {m}" and "m \<notin> insert (heap_end s) B"
    and "\<And>y. y \<noteq> m \<Longrightarrow> used (hdr (carve x m s) y) = used (hdr s y)"
    and "\<And>y. y \<noteq> m \<Longrightarrow> next_blk (hdr (carve x m s) y) = (if y = x then m else next_blk (hdr s y))"
    and "used (hdr (carve x m s) m) = 0" "next_blk (hdr (carve x m s) m) = next_blk (hdr s x)"
    and "heap_end (carve x m s) = heap_end s" "mem_size_aligned (carve x m s) = mem_size_aligned s"
    and "lfree (carve x m s) = lfree s" "used_mem (carve x m s) = used_mem s"
proof -
  note ok = heap_wfD(1) [OF wf] and j = heap_wfD(2) [OF wf]
  note D = blocks_okD [OF ok x]
  have end_: "mem_size_aligned s + SIZEOF_STRUCT_MEM = heap_end s"
    using heap_wfD(3) [OF wf] by (simp add: SIZEOF_STRUCT_MEM_def)
  have mx: "x \<noteq> m" "next_blk (hdr s x) \<noteq> m" "next_blk (hdr s x) \<noteq> x" using lo hi by auto
  note sel = carve_sel [OF mx _ end_]
  have selm: "hdr (carve x m s) m = \<lparr>magic = HEAP_MAGIC, used = 0, next_blk = next_blk (hdr s x), prev_blk = x\<rparr>"
    by (rule sel(5)) (rule mx(1))
  have rest: "heap_end (carve x m s) = heap_end s" "mem_size_aligned (carve x m s) = mem_size_aligned s"
    "lfree (carve x m s) = lfree s" "used_mem (carve x m s) = used_mem s"
    using sel(6-9) [OF mx(1)] by simp_all
  show mB: "m \<notin> insert (heap_end s) B" using D(8) [of m] lo hi by auto
  have inB: "y \<noteq> m" if "y \<in> insert (heap_end s) B" for y using that mB by auto
  have bo: "blocks_ok (hdr (carve x m s)) (heap_end s) (insert m B)"
  proof (rule split_blocks [OF ok x lo hi al, where v = "used (hdr s x)"])
    show "prev_blk (hdr (carve x m s) y) = (if y = next_blk (hdr s x) then m else prev_blk (hdr s y))"
      if "y \<in> B" for y
      using sel(4) inB that blocks_okD(2) [OF ok that] by auto
  qed (use sel inB D(5) selm in auto)
  have "joined (hdr (carve x m s)) (heap_end s) (insert m B) {m}"
    unfolding joined_def
  proof (intro ballI impI)
    fix y assume y: "y \<in> insert m B" and e: "next_blk (hdr (carve x m s) y) \<noteq> heap_end s"
      and u: "used (hdr (carve x m s) y) = 0" and v: "used (hdr (carve x m s) (next_blk (hdr (carve x m s) y))) = 0"
    show "y \<in> {m} \<or> next_blk (hdr (carve x m s) y) \<in> {m}"
    proof (rule ccontr)
      assume n: "\<not> ?thesis"
      with y have yB: "y \<in> B" and ym: "y \<noteq> m" by auto
      from n sel(3) [OF ym] have yx: "y \<noteq> x" by auto
      with sel(3) [OF ym] have ny: "next_blk (hdr (carve x m s) y) = next_blk (hdr s y)" by simp
      with n have "next_blk (hdr s y) \<noteq> m" by simp
      with v ny sel(1) have "used (hdr s (next_blk (hdr s y))) = 0" by simp
      with j yB e u ny sel(1) [OF ym] show False by (auto simp: joined_def)
    qed
  qed
  with bo show "heap_wf (carve x m s) (insert m B) {m}"
    using heap_wfD(3-7) [OF wf] by (intro heap_wfI) (auto simp: rest)
  show "\<And>y. y \<noteq> m \<Longrightarrow> used (hdr (carve x m s) y) = used (hdr s y)" by (rule sel(1))
  show "\<And>y. y \<noteq> m \<Longrightarrow> next_blk (hdr (carve x m s) y) = (if y = x then m else next_blk (hdr s y))"
    by (rule sel(3))
  show "used (hdr (carve x m s) m) = 0" "next_blk (hdr (carve x m s) m) = next_blk (hdr s x)"
    by (simp_all add: selm)
qed (use carve_sel(6-9) [of x m s x] lo hi heap_wfD(3) [OF wf] in \<open>simp_all add: SIZEOF_STRUCT_MEM_def\<close>)

subsection \<open>Taking a block\<close>

text \<open>A free block becomes an allocated one.\<close>

lemma mark_used:
  assumes wf: "heap_wf s B X" and x: "x \<in> B" "used (hdr s x) = 0" and X: "\<And>y. y \<in> X \<Longrightarrow> y \<in> B \<Longrightarrow>
      next_blk (hdr s y) = heap_end s \<or> used (hdr s (next_blk (hdr s y))) \<noteq> 0"
      "\<And>y. y \<in> B \<Longrightarrow> next_blk (hdr s y) \<in> X \<Longrightarrow> y = x \<or> used (hdr s y) \<noteq> 0"
  shows "heap_wf (set_magic x (add_used k (set_used x 1 s))) B {}"
    and "regions (hdr (set_magic x (add_used k (set_used x 1 s)))) B =
         insert (x, next_blk (hdr s x)) (regions (hdr s) B)"
proof -
  let ?s = "set_magic x (add_used k (set_used x 1 s))"
  note ok = heap_wfD(1) [OF wf] and j = heap_wfD(2) [OF wf]
  have xE: "x \<noteq> heap_end s" using blocks_okD(2) [OF ok x(1)] by simp
  have "blocks_ok (hdr ?s) (heap_end s) B"
    by (rule mark_blocks [OF ok])
      (use ok xE blocks_okD(4,5) [OF ok] x in \<open>auto simp: heap_sel blocks_ok_def\<close>)
  moreover have "joined (hdr ?s) (heap_end s) B {}"
    unfolding joined_def
  proof (intro ballI impI)
    fix y assume y: "y \<in> B" "next_blk (hdr ?s y) \<noteq> heap_end s" "used (hdr ?s y) = 0"
      "used (hdr ?s (next_blk (hdr ?s y))) = 0"
    then have y': "next_blk (hdr s y) \<noteq> heap_end s" "y \<noteq> x" "used (hdr s y) = 0"
      "used (hdr s (next_blk (hdr s y))) = 0"
      by (auto simp: heap_sel split: if_splits)
    with j y(1) have "y \<in> X \<or> next_blk (hdr s y) \<in> X" by (auto simp: joined_def)
    with X y(1) y' show "y \<in> {} \<or> next_blk (hdr ?s y) \<in> {}" by blast
  qed
  ultimately show "heap_wf ?s B {}"
    using heap_wfD(3-7) [OF wf] by (intro heap_wfI) (simp_all add: heap_sel)
  show "regions (hdr ?s) B = insert (x, next_blk (hdr s x)) (regions (hdr s) B)"
    using x by (auto simp: regions_def heap_sel)
qed

lemma regions_carve:
  assumes "m \<notin> B" and "\<And>y. y \<noteq> m \<Longrightarrow> used (h' y) = used (h y)" and "used (h' m) = 0"
    and "\<And>y. y \<noteq> m \<Longrightarrow> next_blk (h' y) = (if y = x then m else next_blk (h y))"
  shows "regions h' (insert m B) = (\<lambda>(a, b). (a, if a = x then m else b)) ` regions h B"
proof -
  have "{y \<in> insert m B. used (h' y) \<noteq> 0} = {y \<in> B. used (h y) \<noteq> 0}"
    using assms(1-3) by (metis (no_types, lifting) insert_iff)
  then have "regions h' (insert m B) = (\<lambda>y. (y, next_blk (h' y))) ` {y \<in> B. used (h y) \<noteq> 0}"
    by (simp add: regions_def)
  also have "\<dots> = (\<lambda>y. (y, if y = x then m else next_blk (h y))) ` {y \<in> B. used (h y) \<noteq> 0}"
  proof (rule image_cong [OF refl])
    fix y assume "y \<in> {y \<in> B. used (h y) \<noteq> 0}"
    with assms(1) have "y \<noteq> m" by auto
    with assms(4) show "(y, next_blk (h' y)) = (y, if y = x then m else next_blk (h y))" by simp
  qed
  also have "\<dots> = (\<lambda>(a, b). (a, if a = x then m else b)) ` regions h B"
    by (simp add: regions_def image_image)
  finally show ?thesis .
qed

lemma take_block_ok:
  assumes wf: "heap_wf s B {}" and x: "x \<in> B" "used (hdr s x) = 0"
    and n: "12 \<le> n" "n mod 4 = 0" "n \<le> next_blk (hdr s x) - x - 12"
  shows "\<exists>B' e. heap_wf (take_block n x s) B' {} \<and>
    regions (hdr (take_block n x s)) B' = insert (x, e) (regions (hdr s) B) \<and>
    x + 12 + n \<le> e \<and> used_mem (take_block n x s) = w32 (used_mem s + (e - x)) \<and>
    lfree (take_block n x s) = lfree s \<and> heap_end (take_block n x s) = heap_end s"
proof -
  note ok = heap_wfD(1) [OF wf] and j = heap_wfD(2) [OF wf]
  note D = blocks_okD [OF ok x(1)]
  have ds: "data_size s x = next_blk (hdr s x) - x - 12" by (rule data_size_block [OF wf x(1)])
  show ?thesis
  proof (cases "data_size s x \<ge> n + SIZEOF_STRUCT_MEM + MIN_SIZE_ALIGNED")
    case False
    then have tb: "take_block n x s = set_magic x (add_used (next_blk (hdr s x) - x) (set_used x 1 s))"
      by (simp add: take_block_def)
    from mark_used [OF wf x, of "next_blk (hdr s x) - x"] n show ?thesis
      unfolding tb by (intro exI [of _ B] exI [of _ "next_blk (hdr s x)"]) (simp add: heap_sel)
  next
    case True
    let ?m = "x + 12 + n"
    have hi: "?m + 16 \<le> next_blk (hdr s x)" using True ds by (simp add: heap_consts)
    have lo: "x + 16 \<le> ?m" using n by simp
    have al: "?m mod 4 = 0" using n D(3) by presburger
    have tb: "take_block n x s = set_magic x (add_used (n + 12) (set_used x 1 (carve x ?m s)))"
      using True lo by (simp add: take_block_def Let_def carve_def heap_consts fix_prev_set_used)
    note c = carve_ok [OF wf x(1) lo hi al]
    have xm: "x \<noteq> ?m" using lo by simp
    have free_next: "next_blk (hdr s x) \<noteq> heap_end s \<Longrightarrow> used (hdr s (next_blk (hdr s x))) \<noteq> 0"
      using j x by (auto simp: joined_def)
    have "next_blk (hdr (carve x ?m s) ?m) = heap_end (carve x ?m s) \<or>
        used (hdr (carve x ?m s) (next_blk (hdr (carve x ?m s) ?m))) \<noteq> 0"
      using c(3) [of "next_blk (hdr s x)"] free_next hi by (auto simp: c(6,7))
    moreover have "y = x" if "y \<in> insert ?m B" "next_blk (hdr (carve x ?m s) y) = ?m" for y
    proof (rule ccontr)
      assume "y \<noteq> x"
      have "y \<noteq> ?m" using that(2) c(6) hi by auto
      with that \<open>y \<noteq> x\<close> c(4) [of y] have "y \<in> B" "next_blk (hdr s y) = ?m" by simp_all
      with blocks_okD(6) [OF ok, of y] c(2) show False by simp
    qed
    ultimately have w: "heap_wf (take_block n x s) (insert ?m B) {}"
      and r: "regions (hdr (take_block n x s)) (insert ?m B) =
        insert (x, ?m) (regions (hdr (carve x ?m s)) (insert ?m B))"
      unfolding tb using mark_used [OF c(1), of x "n + 12"] x c(3) [OF xm] c(4) [OF xm] by auto
    have "regions (hdr (carve x ?m s)) (insert ?m B) = regions (hdr s) B"
      using x c(2) by (subst regions_carve [OF _ c(3) c(5) c(4)]) (force simp: regions_def)+
    with w r c(7,9,10) show ?thesis
      by (intro exI [of _ "insert ?m B"] exI [of _ ?m]) (simp add: tb heap_sel algebra_simps)
  qed
qed

subsection \<open>Allocation\<close>

lemma region_bytes_insert:
  assumes "finite R" and "(a, b) \<notin> R"
  shows "region_bytes (insert (a, b) R) = region_bytes R + (b - a)"
  using assms by (simp add: region_bytes_def)

lemma region_bytes_remove:
  assumes "finite R" and "(a, b) \<in> R"
  shows "region_bytes (R - {(a, b)}) = region_bytes R - (b - a)"
  using sum.remove [OF assms, of "\<lambda>(a, b). b - a"] by (simp add: region_bytes_def)

lemma heap_inv_event [simp]: "heap_inv (event e s) R = heap_inv s R"
  by (simp add: heap_inv_def heap_wf_def heap_sel)

lemma RT_ALIGN_props:
  assumes "0 \<le> n" and "n < 2 ^ 32 - 3"
  shows "n \<le> RT_ALIGN n" "RT_ALIGN n < n + 4" "RT_ALIGN n mod 4 = 0"
proof -
  have "w32 (n + 3) = n + 3" using assms by simp
  then have "RT_ALIGN n = n + 3 - (n + 3) mod 4" by (simp add: RT_ALIGN_def)
  then show "n \<le> RT_ALIGN n" "RT_ALIGN n < n + 4" "RT_ALIGN n mod 4 = 0"
    by presburger+
qed

lemma RT_ALIGN_mod [simp]: "RT_ALIGN n mod 4 = 0"
  by (simp add: RT_ALIGN_def mod_eq_0_iff_dvd minus_mod_eq_mult_div)

text \<open>What an allocation returns, on the set of regions before it.\<close>

definition fresh_region :: "heap \<Rightarrow> (int \<times> int) set \<Rightarrow> int \<Rightarrow> int \<times> int \<Rightarrow> bool" where
  "fresh_region s R n r = (case r of (a, e) \<Rightarrow>
     0 \<le> a \<and> a mod 4 = 0 \<and> a + 12 + n \<le> e \<and> e \<le> heap_end s \<and>
     (\<forall>(c, d) \<in> R. e \<le> c \<or> d \<le> a))"

lemma malloc_locked_ok:
  assumes inv: "heap_inv s R" and n: "12 \<le> n" "n mod 4 = 0" "n \<le> mem_size_aligned s"
  shows "\<exists>r s'. malloc_locked n s = Some (Inr (r, s')) \<and>
    heap_end s' = heap_end s \<and> mem_size_aligned s' = mem_size_aligned s \<and>
    (case r of None \<Rightarrow> s' = event Sem_Release s
     | Some p \<Rightarrow> \<exists>e. fresh_region s R n (p - 12, e) \<and> heap_inv s' (insert (p - 12, e) R))"
proof -
  from inv obtain B where wf: "heap_wf s B {}" and R: "R = regions (hdr s) B"
    and um: "used_mem s = w32 (region_bytes R)"
    by (auto simp: heap_inv_def)
  from find_fit_ok [OF wf n(1,3) heap_wfD(6) [OF wf]] obtain r where
    ff: "find_fit s n (lfree s) = Some r" and
    fr: "case r of None \<Rightarrow> True | Some x \<Rightarrow> x \<in> B \<and> used (hdr s x) = 0 \<and> n \<le> next_blk (hdr s x) - x - 12"
    by (auto split: option.splits)
  show ?thesis
  proof (cases r)
    case None
    with ff show ?thesis by (simp add: malloc_locked_def heap_sel)
  next
    case (Some x)
    with fr have x: "x \<in> B" "used (hdr s x) = 0" "n \<le> next_blk (hdr s x) - x - 12" by auto
    let ?t = "take_block n x s"
    from take_block_ok [OF wf x(1,2) n(1,2) x(3)] obtain B' e where
      wf': "heap_wf ?t B' {}" and R': "regions (hdr ?t) B' = insert (x, e) (regions (hdr s) B)"
      and e: "x + 12 + n \<le> e" and um': "used_mem ?t = w32 (used_mem s + (e - x))"
      and rest: "lfree ?t = lfree s" "heap_end ?t = heap_end s"
      by blast
    note ok' = heap_wfD(1) [OF wf']
    from next_free_ok [OF ok', of "lfree ?t"] heap_wfD(6) [OF wf'] obtain l where
      l: "(if x = lfree ?t then next_free ?t (lfree ?t) else Some (lfree ?t)) = Some l"
      and lB: "l \<in> insert (heap_end ?t) B'" and lf: "x = lfree ?t \<Longrightarrow> l = heap_end ?t \<or> used (hdr ?t l) = 0"
      by (cases "x = lfree ?t") auto
    have xe: "(x, e) \<in> regions (hdr ?t) B'" using R' by simp
    note bd = regions_bounds [OF ok' xe]
    let ?s' = "event Sem_Release (?t\<lparr>lfree := l\<rparr>)"
    have ml: "malloc_locked n s = Some (Inr (Some (x + 12), ?s'))"
    proof -
      have "x + 12 + n \<le> heap_end s" using e bd(4) rest by simp
      moreover have "(x + 12) mod 4 = 0" using bd(5) by presburger
      moreover have "x = lfree s \<Longrightarrow> l = heap_end s \<or> used (hdr ?t l) = 0" using lf rest by simp
      ultimately show ?thesis
        using ff Some l rest by (simp add: malloc_locked_def Let_def heap_sel SIZEOF_STRUCT_MEM_def)
    qed
    have new: "(x, e) \<notin> regions (hdr s) B" using x(2) by (auto simp: regions_def)
    have "heap_wf ?s' B' {}"
      using wf' lB by (auto simp: heap_wf_def heap_sel)
    moreover have "regions (hdr ?s') B' = insert (x, e) R" using R' R by (simp add: heap_sel)
    moreover have "used_mem ?s' = w32 (region_bytes (insert (x, e) R))"
      using um um' new R finite_regions [OF heap_wfD(1) [OF wf]]
      by (simp add: heap_sel region_bytes_insert w32_add)
    ultimately have "heap_inv ?s' (insert (x, e) R)" by (auto simp: heap_inv_def)
    moreover have "fresh_region s R n (x, e)"
    proof -
      have "e \<le> c \<or> d \<le> x" if cd: "(c, d) \<in> R" for c d
      proof -
        have "(c, d) \<in> regions (hdr ?t) B'" using cd R R' by simp
        moreover have "x \<noteq> c" using cd R x(2) by (auto simp: regions_def)
        ultimately show ?thesis using regions_apart [OF ok' xe] by blast
      qed
      with bd e rest show ?thesis by (auto simp: fresh_region_def)
    qed
    moreover have "mem_size_aligned ?s' = mem_size_aligned s"
      using heap_wfD(3) [OF wf'] heap_wfD(3) [OF wf] rest by (simp add: heap_sel)
    ultimately show ?thesis
      using ml rest by (intro exI [of _ "Some (x + 12)"] exI [of _ ?s']) (auto simp: heap_sel)
  qed
qed

lemma heap_inv_size:
  assumes "heap_inv s R"
  shows "12 \<le> mem_size_aligned s" "mem_size_aligned s < 2 ^ 32" "mem_size_aligned s mod 4 = 0"
    "heap_end s = mem_size_aligned s + 12"
proof -
  from assms obtain B where wf: "heap_wf s B {}" by (auto simp: heap_inv_def)
  from heap_wfD(3,4,7) [OF wf] show "12 \<le> mem_size_aligned s" "mem_size_aligned s < 2 ^ 32"
    "heap_end s = mem_size_aligned s + 12"
    by simp_all
  show "mem_size_aligned s mod 4 = 0" using heap_wfD(3,5) [OF wf] by presburger
qed

lemma request_ok:
  assumes "heap_inv s R" and "0 \<le> n" "n < 2 ^ 32" and "request n s = Some m"
  shows "12 \<le> m" "m mod 4 = 0" "m \<le> mem_size_aligned s" "n < 2 ^ 32 - 3 \<Longrightarrow> n \<le> m"
  using assms heap_inv_size [OF assms(1)] RT_ALIGN_props [of n]
  by (auto simp: request_def MIN_SIZE_ALIGNED_def split: if_splits)

text \<open>An allocation always returns and keeps the invariant; a block it returns is fresh.\<close>

lemma rt_malloc_ok:
  assumes "heap_inv s R" and "0 \<le> n" and "n < 2 ^ 32"
  shows "\<exists>r s'. rt_malloc n s = Some (Inr (r, s')) \<and>
    heap_end s' = heap_end s \<and> mem_size_aligned s' = mem_size_aligned s \<and>
    (case r of None \<Rightarrow> heap_inv s' R
     | Some p \<Rightarrow> \<exists>e. (n < 2 ^ 32 - 3 \<longrightarrow> fresh_region s R n (p - 12, e)) \<and> fresh_region s R 12 (p - 12, e) \<and>
                   heap_inv s' (insert (p - 12, e) R))"
proof (cases "request n s")
  case None
  then show ?thesis using assms(1) by (simp add: rt_malloc_def)
next
  case (Some m)
  note q = request_ok [OF assms Some]
  have "heap_inv (event Sem_Take s) R" "m \<le> mem_size_aligned (event Sem_Take s)"
    using assms(1) q(3) by (simp_all add: heap_sel)
  from malloc_locked_ok [OF this(1) q(1,2) this(2)] obtain r s' where
    ml: "malloc_locked m (event Sem_Take s) = Some (Inr (r, s'))"
    and rest: "heap_end s' = heap_end s" "mem_size_aligned s' = mem_size_aligned s"
    and c: "case r of None \<Rightarrow> s' = event Sem_Release (event Sem_Take s)
     | Some p \<Rightarrow> \<exists>e. fresh_region (event Sem_Take s) R m (p - 12, e) \<and> heap_inv s' (insert (p - 12, e) R)"
    by (auto simp: heap_sel)
  have mono: "fresh_region s R k (a, e)" if "fresh_region (event Sem_Take s) R m (a, e)" "k \<le> m" for k a e
    using that by (auto simp: fresh_region_def heap_sel)
  show ?thesis
  proof (cases r)
    case None
    with ml rest c assms(1) Some show ?thesis by (simp add: rt_malloc_def)
  next
    case s: (Some p)
    with c obtain e where "fresh_region (event Sem_Take s) R m (p - 12, e)" "heap_inv s' (insert (p - 12, e) R)"
      by auto
    with mono q ml rest Some s show ?thesis
      by (intro exI [of _ r] exI [of _ s']) (auto simp: rt_malloc_def)
  qed
qed

subsection \<open>Initialisation\<close>

lemma heap_init_ok:
  assumes "rt_system_heap_init b e g = Some s" and "0 \<le> e" "e < 2 ^ 32" and "12 \<le> mem_size_aligned s"
  shows "heap_inv s {}"
proof -
  let ?m = "RT_ALIGN_DOWN e - RT_ALIGN b - 24"
  have s: "s = \<lparr>hdr = g(0 := \<lparr>magic = HEAP_MAGIC, used = 0, next_blk = ?m + 12, prev_blk = 0\<rparr>,
                       ?m + 12 := \<lparr>magic = HEAP_MAGIC, used = 1, next_blk = ?m + 12, prev_blk = ?m + 12\<rparr>),
               heap_end = ?m + 12, lfree = 0, mem_size_aligned = ?m, used_mem = 0, max_mem = 0, heap_events = []\<rparr>"
    using assms(1) by (simp add: rt_system_heap_init_def Let_def SIZEOF_STRUCT_MEM_def split: if_splits)
  have m: "12 \<le> ?m" using assms(4) by (simp add: s)
  have "0 \<le> RT_ALIGN b" unfolding RT_ALIGN_def w32_def
    by (simp add: minus_mod_eq_mult_div)
  moreover have "RT_ALIGN_DOWN e \<le> e" by (simp add: RT_ALIGN_DOWN_def)
  ultimately have up: "?m + 12 < 2 ^ 32" using assms(3) by simp
  have "RT_ALIGN_DOWN e mod 4 = 0" by (simp add: RT_ALIGN_DOWN_def mod_eq_0_iff_dvd minus_mod_eq_mult_div)
  then have al: "(?m + 12) mod 4 = 0" using RT_ALIGN_mod [of b] by presburger
  have "heap_wf s {0} {}"
    by (rule heap_wfI)
      (use m up al in \<open>simp_all add: s blocks_ok_def block_ok_def joined_def HEAP_MAGIC_def\<close>)
  moreover have "regions (hdr s) {0} = {}" using m by (simp add: regions_def s)
  moreover have "used_mem s = 0" by (simp add: s)
  ultimately show ?thesis
    unfolding heap_inv_def by (intro exI [of _ "{0}"]) (simp add: region_bytes_def)
qed

subsection \<open>Release\<close>

lemma rt_free_ok:
  assumes inv: "heap_inv s R" and ab: "(a, b) \<in> R"
  shows "\<exists>s'. rt_free (Some (a + 12)) s = Inr s' \<and> heap_inv s' (R - {(a, b)}) \<and>
    heap_end s' = heap_end s \<and> mem_size_aligned s' = mem_size_aligned s"
proof -
  from inv obtain B where wf: "heap_wf s B {}" and R: "R = regions (hdr s) B"
    and um: "used_mem s = w32 (region_bytes R)"
    by (auto simp: heap_inv_def)
  note ok = heap_wfD(1) [OF wf]
  note bd = regions_bounds [OF ok ab [unfolded R]]
  let ?t = "set_magic a (set_used a 0 (event Sem_Take s))"
  let ?l = "if a < lfree s then a else lfree s"
  let ?u = "?t\<lparr>lfree := ?l, used_mem := w32 (used_mem s - (b - a))\<rparr>"
  have aE: "a \<noteq> heap_end s" using blocks_okD(2) [OF ok bd(1)] by simp
  have "blocks_ok (hdr ?u) (heap_end s) B"
    by (rule mark_blocks [OF ok])
      (use ok aE blocks_okD(4,5) [OF ok] bd(1) in \<open>auto simp: heap_sel blocks_ok_def\<close>)
  moreover have "joined (hdr ?u) (heap_end s) B {a}"
    using heap_wfD(2) [OF wf] by (auto simp: joined_def heap_sel)
  ultimately have wf': "heap_wf ?u B {a}"
    using heap_wfD(3-7) [OF wf] bd(1) by (intro heap_wfI) (simp_all add: heap_sel)
  have reg: "regions (hdr ?u) B = R - {(a, b)}"
    using bd(6) by (auto simp: regions_def R heap_sel)
  have "used (hdr ?u a) = 0" by (simp add: heap_sel)
  from plug_holes_ok [OF wf' bd(1) this] obtain s' B' where
    ph: "plug_holes a ?u = Inr s'" "heap_wf s' B' {}" "regions (hdr s') B' = regions (hdr ?u) B"
    and rest: "heap_end s' = heap_end s" "used_mem s' = w32 (used_mem s - (b - a))"
      "mem_size_aligned s' = mem_size_aligned s"
    by (auto simp: heap_sel)
  have al: "(a + 12) mod 4 = 0" using bd(5) by presburger
  have "rt_free (Some (a + 12)) s = Inr (event Sem_Release s')"
  proof -
    have e: "?u = (if a < lfree s then ?t\<lparr>lfree := a\<rparr> else ?t)\<lparr>used_mem := w32 (used_mem s - (b - a))\<rparr>"
      by (simp add: set_magic_def set_used_def event_def)
    from ph(1) have ph': "plug_holes a ((if a < lfree s then ?t\<lparr>lfree := a\<rparr> else ?t)
        \<lparr>used_mem := w32 (used_mem s - (b - a))\<rparr>) = Inr s'"
      unfolding e .
    show ?thesis
      using bd al blocks_okD(4) [OF ok bd(1)] ph'
      by (cases "a < lfree s") (simp_all add: rt_free_def Let_def SIZEOF_STRUCT_MEM_def heap_sel)
  qed
  moreover have "heap_inv (event Sem_Release s') (R - {(a, b)})"
    using ph(2,3) reg rest(2) um region_bytes_remove [OF finite_regions [OF ok], of a b] ab R
    unfolding heap_inv_event by (auto simp: heap_inv_def w32_add)
  ultimately show ?thesis using rest by (simp add: heap_sel)
qed

subsection \<open>Resizing\<close>

lemma replace_end:
  assumes "(a, b) \<in> R" and "\<And>y. (a, y) \<in> R \<Longrightarrow> y = b"
  shows "(\<lambda>(x, y). (x, if x = a then m else y)) ` R = insert (a, m) (R - {(a, b)})"
proof -
  let ?f = "\<lambda>(x, y). (x, if x = a then m else y)"
  have "R = insert (a, b) (R - {(a, b)})" using assms(1) by auto
  then have "?f ` R = insert (?f (a, b)) (?f ` (R - {(a, b)}))" by (metis image_insert)
  moreover have "?f p = p" if "p \<in> R - {(a, b)}" for p using that assms(2) by (cases p) auto
  then have "?f ` (R - {(a, b)}) = R - {(a, b)}" by simp
  ultimately show ?thesis by simp
qed

lemma shrink_block_ok:
  assumes inv: "heap_inv s R" and ab: "(a, b) \<in> R" and n: "4 \<le> n" "n mod 4 = 0" "n + 24 < b - a - 12"
  shows "\<exists>s'. shrink_block a (b - a - 12) n s = Inr s' \<and>
    heap_inv s' (insert (a, a + 12 + n) (R - {(a, b)})) \<and> heap_end s' = heap_end s \<and>
    mem_size_aligned s' = mem_size_aligned s"
proof -
  from inv obtain B where wf: "heap_wf s B {}" and R: "R = regions (hdr s) B"
    and um: "used_mem s = w32 (region_bytes R)"
    by (auto simp: heap_inv_def)
  note ok = heap_wfD(1) [OF wf]
  note bd = regions_bounds [OF ok ab [unfolded R]]
  let ?m = "a + 12 + n" and ?u = "w32 (used_mem s - (b - a - 12 - n))"
  let ?s1 = "s\<lparr>used_mem := ?u\<rparr>"
  have wf1: "heap_wf ?s1 B {}" using heap_wfD [OF wf] by (intro heap_wfI) simp_all
  have lo: "a + 16 \<le> ?m" using n(1) by simp
  have hi: "?m + 16 \<le> next_blk (hdr ?s1 a)" using n(3) bd(6) by simp
  have al: "?m mod 4 = 0" using n(2) bd(5) by presburger
  note c = carve_ok [OF wf1 bd(1) lo hi al]
  have rc: "regions (hdr (carve a ?m ?s1)) (insert ?m B) = insert (a, ?m) (R - {(a, b)})"
  proof -
    have "regions (hdr (carve a ?m ?s1)) (insert ?m B) = (\<lambda>(x, y). (x, if x = a then ?m else y)) ` regions (hdr ?s1) B"
      by (rule regions_carve) (use c(2) c(3) c(5) c(4) in auto)
    also have "\<dots> = insert (a, ?m) (R - {(a, b)})"
    proof -
      have "y = b" if "(a, y) \<in> R" for y using that bd(6) by (auto simp: R regions_def)
      from replace_end [OF ab this] show ?thesis by (simp add: R)
    qed
    finally show ?thesis .
  qed
  have "heap_inv s' (insert (a, ?m) (R - {(a, b)}))"
    if w: "heap_wf s' B' {}" and r: "regions (hdr s') B' = insert (a, ?m) (R - {(a, b)})" and u: "used_mem s' = ?u"
    for s' B'
  proof -
    have fin: "finite R" using finite_regions [OF ok] R by simp
    have nin: "(a, ?m) \<notin> R - {(a, b)}" using bd(6) n R by (auto simp: regions_def)
    have "region_bytes (insert (a, ?m) (R - {(a, b)})) = region_bytes R - (b - a - 12 - n)"
      using region_bytes_insert [OF _ nin] region_bytes_remove [OF fin ab] fin by simp
    with w r u um show ?thesis by (auto simp: heap_inv_def w32_add)
  qed
  moreover obtain s' B' where "plug_holes ?m (carve a ?m ?s1) = Inr s'" "heap_wf s' B' {}"
    "regions (hdr s') B' = regions (hdr (carve a ?m ?s1)) (insert ?m B)"
    "heap_end s' = heap_end s" "used_mem s' = ?u" "mem_size_aligned s' = mem_size_aligned s"
    using plug_holes_ok [OF c(1) _ c(5)] c(7,8,10) by auto
  ultimately show ?thesis
    using rc by (auto simp: shrink_block_def Let_def carve_def SIZEOF_STRUCT_MEM_def)
qed

lemma join_lfree: "lfree s \<noteq> y \<Longrightarrow> lfree (join x y s) = lfree s \<and> heap_end (join x y s) = heap_end s"
  by (simp add: join_def Let_def heap_sel)

lemma plug_holes_lfree:
  assumes "plug_holes m s = Inr s'" and "lfree s = heap_end s"
  shows "lfree s' = heap_end s'"
proof -
  have m: "m \<noteq> heap_end s" and s': "s' = plug_backward m (plug_forward m s)"
    using assms(1) by (auto simp: plug_holes_def split: if_splits)
  have f: "lfree (plug_forward m s) = heap_end s \<and> heap_end (plug_forward m s) = heap_end s"
    using assms(2) join_lfree [of s "next_blk (hdr s m)" m] by (auto simp: plug_forward_join Let_def)
  then show ?thesis
    using m join_lfree [of "plug_forward m s" m] unfolding s' by (auto simp: plug_backward_join Let_def)
qed

lemma shrink_lfree:
  assumes "shrink_block a old n s = Inr s'" and "lfree s = heap_end s"
  shows "lfree s' = heap_end s'"
proof -
  let ?t = "fix_prev (a + 12 + n) (set_next a (a + 12 + n)
    (insert_free a (a + 12 + n) (s\<lparr>used_mem := w32 (used_mem s - (old - n))\<rparr>)))"
  have "plug_holes (a + 12 + n) ?t = Inr s'"
    using assms(1) by (simp add: shrink_block_def Let_def SIZEOF_STRUCT_MEM_def)
  moreover have "lfree ?t = heap_end ?t"
    using assms(2) by (simp add: fix_prev_def Let_def heap_sel insert_free_def)
  ultimately show ?thesis by (rule plug_holes_lfree)
qed

text \<open>What a call of \<open>rt_realloc\<close> on an allocated block may do.\<close>

definition realloc_result :: "heap \<Rightarrow> (int \<times> int) set \<Rightarrow> int \<times> int \<Rightarrow> int \<Rightarrow> int option \<Rightarrow> heap \<Rightarrow> bool" where
  "realloc_result s R ab n r s' = (case ab of (a, b) \<Rightarrow>
     (r = None \<and> heap_inv s' R) \<or>
     (r = None \<and> n = 0 \<and> heap_inv s' (R - {(a, b)})) \<or>
     (r = Some (a + 12) \<and> (\<exists>e. a + 12 + n \<le> e \<and> e \<le> b \<and> heap_inv s' (insert (a, e) (R - {(a, b)})))) \<or>
     (\<exists>p e. r = Some p \<and> fresh_region s R n (p - 12, e) \<and>
        heap_inv s' (insert (p - 12, e) (R - {(a, b)}))))"

lemma grow_block_ok:
  assumes inv: "heap_inv s R" and ab: "(a, b) \<in> R" and n: "0 \<le> n" "n < 2 ^ 32 - 3"
  shows "\<exists>r s'. grow_block (a + 12) old n s = Some (Inr (r, s')) \<and> realloc_result s R (a, b) n r s' \<and>
    heap_end s' = heap_end s \<and> mem_size_aligned s' = mem_size_aligned s"
proof -
  have "n < 2 ^ 32" using n by simp
  from rt_malloc_ok [OF inv n(1) this] obtain r s1 where
    m: "rt_malloc n s = Some (Inr (r, s1))" and he: "heap_end s1 = heap_end s"
      "mem_size_aligned s1 = mem_size_aligned s"
    and c: "case r of None \<Rightarrow> heap_inv s1 R
     | Some p \<Rightarrow> \<exists>e. (n < 2 ^ 32 - 3 \<longrightarrow> fresh_region s R n (p - 12, e)) \<and> fresh_region s R 12 (p - 12, e) \<and>
                   heap_inv s1 (insert (p - 12, e) R)"
    by auto
  show ?thesis
  proof (cases r)
    case None
    with m c he show ?thesis by (auto simp: grow_block_def realloc_result_def)
  next
    case (Some q)
    with c n obtain e where f: "fresh_region s R n (q - 12, e)" "fresh_region s R 12 (q - 12, e)"
      and i: "heap_inv s1 (insert (q - 12, e) R)" by auto
    let ?s2 = "event (Memcpy q (a + 12) (min old n)) s1"
    have i2: "heap_inv ?s2 (insert (q - 12, e) R)" using i by simp
    have "(a, b) \<in> insert (q - 12, e) R" using ab by simp
    from rt_free_ok [OF i2 this] obtain s3 where
      fr: "rt_free (Some (a + 12)) ?s2 = Inr s3" and i3: "heap_inv s3 (insert (q - 12, e) R - {(a, b)})"
      and he3: "heap_end s3 = heap_end s1" "mem_size_aligned s3 = mem_size_aligned s1"
      by (auto simp: heap_sel)
    from inv obtain B where wf: "heap_wf s B {}" and R: "R = regions (hdr s) B"
      by (auto simp: heap_inv_def)
    have "a + 16 \<le> b" using regions_bounds(3) [OF heap_wfD(1) [OF wf] ab [unfolded R]] .
    with f(2) ab have "q - 12 \<noteq> a" by (auto simp: fresh_region_def)
    then have "insert (q - 12, e) R - {(a, b)} = insert (q - 12, e) (R - {(a, b)})" by auto
    with fr i3 he3 he f m Some show ?thesis
      by (auto simp: grow_block_def realloc_result_def)
  qed
qed

lemma rt_realloc_ok:
  assumes inv: "heap_inv s R" and ab: "(a, b) \<in> R" and n: "0 \<le> n" "n < 2 ^ 32 - 3"
  shows "\<exists>r s'. rt_realloc (Some (a + 12)) n s = Some (Inr (r, s')) \<and> realloc_result s R (a, b) n r s' \<and>
    heap_end s' = heap_end s \<and> mem_size_aligned s' = mem_size_aligned s"
proof -
  from inv obtain B where wf: "heap_wf s B {}" and R: "R = regions (hdr s) B"
    by (auto simp: heap_inv_def)
  note bd = regions_bounds [OF heap_wfD(1) [OF wf] ab [unfolded R]]
  let ?n = "RT_ALIGN n"
  note al = RT_ALIGN_props [OF n]
  note sz = heap_inv_size [OF inv]
  have ds: "data_size (event Sem_Take s) a = b - a - 12"
    using data_size_block [OF wf bd(1)] bd(6) by (simp add: data_size_def heap_sel)
  have in_heap: "\<not> (a + 12 < 0 \<or> heap_end s \<le> a + 12)" using bd by simp
  have t: "heap_inv (event Sem_Take s) R" using inv by simp
  have e: "realloc_result (event f t) R (a, b) k r s' = realloc_result t R (a, b) k r s'" for f t k r s'
    by (simp add: realloc_result_def fresh_region_def heap_sel)
  have mono: "realloc_result s R (a, b) n r s'" if "realloc_result s R (a, b) ?n r s'" "?n \<noteq> 0" for r s'
    using that al by (fastforce simp: realloc_result_def fresh_region_def)
  consider (big) "?n > mem_size_aligned s" | (zero) "?n = 0" | (same) "?n \<noteq> 0" "?n \<le> mem_size_aligned s" "b - a - 12 = ?n"
    | (shrink) "?n \<noteq> 0" "?n \<le> mem_size_aligned s" "?n + 24 < b - a - 12"
    | (grow) "?n \<noteq> 0" "?n \<le> mem_size_aligned s" "b - a - 12 \<noteq> ?n" "\<not> ?n + 24 < b - a - 12"
    by linarith
  then show ?thesis
  proof cases
    case big
    then show ?thesis using inv by (auto simp: rt_realloc_def Let_def realloc_result_def)
  next
    case zero
    then have "n = 0" using al(1) n by simp
    with zero rt_free_ok [OF inv ab] sz show ?thesis
      by (auto simp: rt_realloc_def Let_def realloc_result_def)
  next
    case same
    have "insert (a, b) (R - {(a, b)}) = R" using ab by auto
    with inv have "heap_inv (event Sem_Release (event Sem_Take s)) (insert (a, b) (R - {(a, b)}))" by simp
    with same al(1) have "realloc_result s R (a, b) n (Some (a + 12)) (event Sem_Release (event Sem_Take s))"
      by (auto simp: realloc_result_def intro!: exI [of _ b])
    with same in_heap ds show ?thesis
      by (auto simp: rt_realloc_def Let_def SIZEOF_STRUCT_MEM_def heap_sel)
  next
    case shrink
    have "4 \<le> ?n" using shrink(1) al(1,3) n by presburger
    from shrink_block_ok [OF t ab this al(3) shrink(3)] obtain s' where
      sb: "shrink_block a (b - a - 12) ?n (event Sem_Take s) = Inr s'"
      and i: "heap_inv s' (insert (a, a + 12 + ?n) (R - {(a, b)}))"
      and rest: "heap_end s' = heap_end s" "mem_size_aligned s' = mem_size_aligned s"
      by (auto simp: heap_sel)
    have "realloc_result s R (a, b) n (Some (a + 12)) (event Sem_Release s')"
      using i al(1) shrink(3) by (auto simp: realloc_result_def intro!: exI [of _ "a + 12 + ?n"])
    with shrink in_heap ds sb rest show ?thesis
      by (auto simp: rt_realloc_def Let_def heap_consts heap_sel)
  next
    case grow
    have n1: "0 \<le> ?n" using al(1) n(1) by simp
    have n2: "?n < 2 ^ 32 - 3"
    proof -
      obtain k where "mem_size_aligned s = 4 * k" using sz(3) by (metis mod_0_imp_dvd dvdE)
      with grow(2) sz(2) show ?thesis by simp
    qed
    note nn = n1 n2
    have t2: "heap_inv (event Sem_Release (event Sem_Take s)) R" using inv by simp
    from grow_block_ok [OF t2 ab nn, of "b - a - 12"] obtain r s' where
      g: "grow_block (a + 12) (b - a - 12) ?n (event Sem_Release (event Sem_Take s)) = Some (Inr (r, s'))"
      and rr: "realloc_result s R (a, b) ?n r s'"
      and rest: "heap_end s' = heap_end s" "mem_size_aligned s' = mem_size_aligned s"
      by (auto simp: e heap_sel)
    with grow in_heap ds mono [OF rr] show ?thesis
      by (auto simp: rt_realloc_def Let_def heap_consts heap_sel)
  qed
qed

end
