(* ===== verification/HeapProps.thy ===== *)
theory HeapProps
  imports HeapOps
begin

text \<open>Properties of the RT-Thread allocator.\<close>

subsection \<open>Runs of the allocator\<close>

text \<open>
  The states a client reaches that frees and resizes only blocks it holds. The second component
  is the set of regions it holds: from the header of a block to the end the header names.
\<close>

definition region_at :: "heap \<Rightarrow> int \<Rightarrow> int \<times> int" where
  "region_at s p = (p - SIZEOF_STRUCT_MEM, next_blk (hdr s (p - SIZEOF_STRUCT_MEM)))"

inductive heap_reach :: "heap \<Rightarrow> (int \<times> int) set \<Rightarrow> bool" where
  init: "rt_system_heap_init b e g = Some s \<Longrightarrow> 0 \<le> e \<Longrightarrow> e < 2 ^ 32 \<Longrightarrow> 12 \<le> mem_size_aligned s \<Longrightarrow>
    heap_reach s {}"
| malloc: "heap_reach s R \<Longrightarrow> 0 \<le> n \<Longrightarrow> n < 2 ^ 32 \<Longrightarrow> rt_malloc n s = Some (Inr (Some p, s')) \<Longrightarrow>
    heap_reach s' (insert (region_at s' p) R)"
| malloc_null: "heap_reach s R \<Longrightarrow> 0 \<le> n \<Longrightarrow> n < 2 ^ 32 \<Longrightarrow> rt_malloc n s = Some (Inr (None, s')) \<Longrightarrow>
    heap_reach s' R"
| free: "heap_reach s R \<Longrightarrow> (a, b) \<in> R \<Longrightarrow> rt_free (Some (a + 12)) s = Inr s' \<Longrightarrow>
    heap_reach s' (R - {(a, b)})"
| realloc: "heap_reach s R \<Longrightarrow> (a, b) \<in> R \<Longrightarrow> 0 < n \<Longrightarrow> n < 2 ^ 32 - 3 \<Longrightarrow>
    rt_realloc (Some (a + 12)) n s = Some (Inr (Some p, s')) \<Longrightarrow>
    heap_reach s' (insert (region_at s' p) (R - {(a, b)}))"
| realloc_null: "heap_reach s R \<Longrightarrow> (a, b) \<in> R \<Longrightarrow> 0 < n \<Longrightarrow> n < 2 ^ 32 - 3 \<Longrightarrow>
    rt_realloc (Some (a + 12)) n s = Some (Inr (None, s')) \<Longrightarrow> heap_reach s' R"
| realloc_free: "heap_reach s R \<Longrightarrow> (a, b) \<in> R \<Longrightarrow> n = 0 \<or> 2 ^ 32 - 3 \<le> n \<Longrightarrow> n < 2 ^ 32 \<Longrightarrow>
    rt_realloc (Some (a + 12)) n s = Some (Inr (r, s')) \<Longrightarrow> heap_reach s' (R - {(a, b)})"
| calloc: "heap_reach s R \<Longrightarrow> rt_calloc c n s = Some (Inr (Some p, s')) \<Longrightarrow>
    heap_reach s' (insert (region_at s' p) R)"
| calloc_null: "heap_reach s R \<Longrightarrow> rt_calloc c n s = Some (Inr (None, s')) \<Longrightarrow> heap_reach s' R"

lemma heap_inv_region:
  assumes "heap_inv s R" and "(a, b) \<in> R"
  shows "next_blk (hdr s a) = b" "0 \<le> a" "a mod 4 = 0" "a + 16 \<le> b" "b \<le> heap_end s"
proof -
  from assms obtain B where wf: "heap_wf s B {}" and R: "(a, b) \<in> regions (hdr s) B"
    by (auto simp: heap_inv_def)
  from regions_bounds [OF heap_wfD(1) [OF wf] R]
  show "next_blk (hdr s a) = b" "0 \<le> a" "a mod 4 = 0" "a + 16 \<le> b" "b \<le> heap_end s" by simp_all
qed

lemma region_at_in:
  assumes "heap_inv s (insert (p - 12, e) R)"
  shows "region_at s p = (p - 12, e)"
  using heap_inv_region(1) [OF assms, of "p - 12" e] by (simp add: region_at_def SIZEOF_STRUCT_MEM_def)

text \<open>
  The size of the block for a request: rounded up to the alignment, at least 12 bytes. The rounding of a
  request above \<open>2\<^sup>3\<^sup>2 - 4\<close> wraps to zero.
\<close>

definition rounded :: "int \<Rightarrow> int" where
  "rounded n = (if n < 2 ^ 32 - 3 then max 12 (4 * ((n + 3) div 4)) else 12)"

lemma RT_ALIGN_value:
  assumes "0 \<le> n" and "n < 2 ^ 32"
  shows "RT_ALIGN n = (if n < 2 ^ 32 - 3 then 4 * ((n + 3) div 4) else 0)"
proof (cases "n < 2 ^ 32 - 3")
  case True
  then have "w32 (n + 3) = n + 3" using assms by simp
  then show ?thesis using True by (simp add: RT_ALIGN_def minus_mod_eq_mult_div)
next
  case False
  have "w32 (n + 3) = n + 3 - 2 ^ 32"
    using assms False unfolding w32_def by (subst minus_mod_self2 [symmetric]) simp
  then show ?thesis using assms False by (auto simp: RT_ALIGN_def)
qed

lemma request_rounded:
  assumes "0 \<le> n" and "n < 2 ^ 32" and "12 \<le> mem_size_aligned s"
  shows "request n s = (if n = 0 \<or> mem_size_aligned s < rounded n then None else Some (rounded n))"
  using assms by (auto simp: request_def RT_ALIGN_value rounded_def MIN_SIZE_ALIGNED_def)

text \<open>The headers that the chain from the start of the heap reaches.\<close>

inductive header_at :: "heap \<Rightarrow> int \<Rightarrow> bool" for s where
  first_header: "header_at s 0"
| next_header: "header_at s x \<Longrightarrow> x \<noteq> heap_end s \<Longrightarrow> header_at s (next_blk (hdr s x))"

lemma header_at_block:
  assumes "header_at s x" and "heap_wf s B X"
  shows "x \<in> insert (heap_end s) B"
  using assms(1)
proof (induction rule: header_at.induct)
  case first_header
  then show ?case using heap_wfD(1) [OF assms(2)] by (simp add: blocks_ok_def)
next
  case (next_header x)
  then show ?case using blocks_okD(6) [OF heap_wfD(1) [OF assms(2)]] by blast
qed

text \<open>
  When a request is refused: it is empty, larger than the heap, or no free block from the lowest-free
  pointer on, and before the last bytes that could hold the request, has the size.
\<close>

definition refused :: "heap \<Rightarrow> int \<Rightarrow> bool" where
  "refused s n \<longleftrightarrow> n = 0 \<or> mem_size_aligned s < rounded n \<or>
     (\<forall>x. header_at s x \<longrightarrow> lfree s \<le> x \<longrightarrow> x < mem_size_aligned s - rounded n \<longrightarrow>
        used (hdr s x) \<noteq> 0 \<or> next_blk (hdr s x) - x - 12 < rounded n)"

text \<open>A new block, in the state behind the call, or none.\<close>

definition malloc_result :: "heap \<Rightarrow> (int \<times> int) set \<Rightarrow> int \<Rightarrow> int option \<Rightarrow> heap \<Rightarrow> bool" where
  "malloc_result s R n r s' \<longleftrightarrow>
     (case r of
        None \<Rightarrow> refused s n \<and> heap_inv s' R
      | Some p \<Rightarrow> \<exists>e. fresh_region s R (rounded n) (p - 12, e) \<and> region_at s' p = (p - 12, e) \<and>
          heap_inv s' (insert (p - 12, e) R))"

lemma header_at_event [simp]: "header_at (event f s) x = header_at s x"
proof -
  have "header_at u x" if "header_at t x" "hdr t = hdr u" "heap_end t = heap_end u" for t u
    using that by (induction rule: header_at.induct) (auto intro: header_at.intros)
  from this [of "event f s" s] this [of s "event f s"] show ?thesis by (auto simp: heap_sel)
qed

lemma malloc_locked_none:
  assumes "malloc_locked m s = Some (Inr (None, s'))"
  shows "find_fit s m (lfree s) = Some None"
  using assms by (auto simp: malloc_locked_def Let_def split: option.splits if_splits)

lemma rt_malloc_result:
  assumes inv: "heap_inv s R" and n: "0 \<le> n" "n < 2 ^ 32"
  shows "\<exists>r s'. rt_malloc n s = Some (Inr (r, s')) \<and> malloc_result s R n r s'"
proof (cases "n = 0 \<or> mem_size_aligned s < rounded n")
  case True
  then have "rt_malloc n s = Some (Inr (None, s))"
    using request_rounded [OF n heap_inv_size(1) [OF inv]] by (simp add: rt_malloc_def)
  then show ?thesis using True inv by (auto simp: malloc_result_def refused_def)
next
  case False
  let ?m = "rounded n" and ?t = "event Sem_Take s"
  have q: "request n s = Some ?m" using request_rounded [OF n heap_inv_size(1) [OF inv]] False by simp
  note m = request_ok [OF inv n q]
  have it: "heap_inv ?t R" and mt: "?m \<le> mem_size_aligned ?t" using inv m(3) by (simp_all add: heap_sel)
  from malloc_locked_ok [OF it m(1,2) mt] obtain r s' where
    l: "malloc_locked ?m ?t = Some (Inr (r, s'))"
    and c: "case r of None \<Rightarrow> s' = event Sem_Release ?t
      | Some p \<Rightarrow> \<exists>e. fresh_region ?t R ?m (p - 12, e) \<and> heap_inv s' (insert (p - 12, e) R)" by blast
  have rm: "rt_malloc n s = Some (Inr (r, s'))" using q l by (simp add: rt_malloc_def)
  show ?thesis
  proof (cases r)
    case None
    from it obtain B where wf: "heap_wf ?t B {}" by (auto simp: heap_inv_def)
    have "find_fit ?t ?m (lfree ?t) = Some None" using malloc_locked_none l None by simp
    with find_fit_ok [OF wf m(1) mt heap_wfD(6) [OF wf]]
    have no: "\<forall>x \<in> B. lfree ?t \<le> x \<and> x < mem_size_aligned ?t - ?m \<longrightarrow>
        used (hdr ?t x) \<noteq> 0 \<or> next_blk (hdr ?t x) - x - 12 < ?m" by auto
    have "refused s n"
      unfolding refused_def
    proof (rule disjI2, rule disjI2, intro allI impI)
      fix x assume x: "header_at s x" "lfree s \<le> x" "x < mem_size_aligned s - ?m"
      have "x \<in> insert (heap_end ?t) B" using header_at_block [OF _ wf, of x] x(1) by simp
      moreover have "x \<noteq> heap_end ?t" using x(3) m(1) heap_inv_size(4) [OF inv] by (simp add: heap_sel)
      ultimately show "used (hdr s x) \<noteq> 0 \<or> next_blk (hdr s x) - x - 12 < ?m"
        using no x by (auto simp: heap_sel)
    qed
    then show ?thesis using rm c None inv by (auto simp: malloc_result_def)
  next
    case (Some p)
    with c obtain e where e: "fresh_region ?t R ?m (p - 12, e)" "heap_inv s' (insert (p - 12, e) R)" by auto
    then have "malloc_result s R n r s'"
      using Some region_at_in [OF e(2)] by (auto simp: malloc_result_def fresh_region_def heap_sel)
    then show ?thesis using rm by blast
  qed
qed

lemma region_at_event [simp]: "region_at (event f s) p = region_at s p"
  by (simp add: region_at_def heap_sel)

lemma malloc_result_event [simp]: "malloc_result s R n r (event f s') = malloc_result s R n r s'"
  by (simp add: malloc_result_def split: option.split)

lemma w32_range: "0 \<le> w32 x" "w32 x < 2 ^ 32"
  by (simp_all add: w32_def)

text \<open>\<open>rt_calloc\<close> is an allocation of the product of the sizes in 32 bits, then cleared.\<close>

lemma rt_calloc_result:
  assumes "heap_inv s R"
  shows "\<exists>r s'. rt_calloc c n s = Some (Inr (r, s')) \<and> malloc_result s R (w32 (c * n)) r s' \<and>
    (\<forall>p. r = Some p \<longrightarrow> last (heap_events s') = Memset p (w32 (c * n)))"
proof -
  from rt_malloc_result [OF assms w32_range] obtain r s' where
    m: "rt_malloc (w32 (c * n)) s = Some (Inr (r, s'))" "malloc_result s R (w32 (c * n)) r s'" by blast
  then show ?thesis by (cases r) (auto simp: rt_calloc_def, simp add: event_def)
qed

text \<open>A request for no bytes, or for so many that the rounding wraps, releases the block.\<close>

lemma rt_realloc_releases:
  assumes inv: "heap_inv s R" and ab: "(a, b) \<in> R" and n: "n = 0 \<or> 2 ^ 32 - 3 \<le> n" "n < 2 ^ 32"
  obtains s' where "rt_free (Some (a + 12)) s = Inr s'" and "rt_realloc (Some (a + 12)) n s = Some (Inr (None, s'))"
    and "heap_inv s' (R - {(a, b)})"
proof -
  have "RT_ALIGN n = 0" using n RT_ALIGN_value [of n] by auto
  moreover obtain s' where "rt_free (Some (a + 12)) s = Inr s'" "heap_inv s' (R - {(a, b)})"
    using rt_free_ok [OF inv ab] by blast
  ultimately show ?thesis
    using that [of s'] heap_inv_size(1) [OF inv] by (simp add: rt_realloc_def)
qed

lemma heap_reach_inv: "heap_reach s R \<Longrightarrow> heap_inv s R"
proof (induction rule: heap_reach.induct)
  case (init b e g s)
  then show ?case by (intro heap_init_ok)
next
  case (malloc s R n p s')
  from rt_malloc_ok [OF malloc.IH malloc.hyps(2,3)] malloc.hyps(4)
  obtain e where "heap_inv s' (insert (p - 12, e) R)" by auto
  with region_at_in [OF this] show ?case by simp
next
  case (malloc_null s R n s')
  from rt_malloc_ok [OF malloc_null.IH malloc_null.hyps(2,3)] malloc_null.hyps(4)
  show ?case by auto
next
  case (free s R a b s')
  from rt_free_ok [OF free.IH free.hyps(2)] free.hyps(3) show ?case by auto
next
  case (realloc s R a b n p s')
  from rt_realloc_ok [OF realloc.IH realloc.hyps(2) less_imp_le [OF realloc.hyps(3)] realloc.hyps(4)]
    realloc.hyps(5)
  have "realloc_result s R (a, b) n (Some p) s'" by auto
  then obtain e where "heap_inv s' (insert (p - 12, e) (R - {(a, b)}))"
    by (auto simp: realloc_result_def)
  with region_at_in [OF this] show ?case by simp
next
  case (realloc_null s R a b n s')
  from rt_realloc_ok [OF realloc_null.IH realloc_null.hyps(2) less_imp_le [OF realloc_null.hyps(3)] realloc_null.hyps(4)]
    realloc_null.hyps(5)
  have "realloc_result s R (a, b) n None s'" by auto
  with realloc_null.hyps(3) show ?case by (auto simp: realloc_result_def)
next
  case (realloc_free s R a b n r s')
  show ?case
    by (rule rt_realloc_releases [OF realloc_free.IH realloc_free.hyps(2-4)]) (use realloc_free.hyps(5) in simp)
next
  case (calloc s R c n p s')
  from rt_calloc_result [OF calloc.IH, of c n] calloc.hyps(2)
  have "malloc_result s R (w32 (c * n)) (Some p) s'" by auto
  then show ?case by (auto simp: malloc_result_def)
next
  case (calloc_null s R c n s')
  from rt_calloc_result [OF calloc_null.IH, of c n] calloc_null.hyps(2)
  have "malloc_result s R (w32 (c * n)) None s'" by auto
  then show ?case by (simp add: malloc_result_def)
qed

text \<open>
  C14: In every state a correct client reaches, the blocks it holds are aligned, lie inside the heap,
  have room for their header and do not overlap, and the usage statistics are their total size.
\<close>

theorem heap_blocks_disjoint:
  assumes "heap_reach s R"
  shows "(\<forall>(a, b) \<in> R. 0 \<le> a \<and> a mod 4 = 0 \<and> a + 16 \<le> b \<and> b \<le> heap_end s) \<and>
    (\<forall>(a, b) \<in> R. \<forall>(c, d) \<in> R. (a, b) \<noteq> (c, d) \<longrightarrow> b \<le> c \<or> d \<le> a) \<and>
    used_mem s = w32 (\<Sum>(a, b) \<in> R. b - a)"
proof (intro conjI)
  have inv: "heap_inv s R" by (rule heap_reach_inv [OF assms])
  then obtain B where wf: "heap_wf s B {}" and R: "R = regions (hdr s) B"
    and um: "used_mem s = w32 (region_bytes R)"
    by (auto simp: heap_inv_def)
  note b = regions_bounds [OF heap_wfD(1) [OF wf]]
  show "\<forall>(a, b) \<in> R. 0 \<le> a \<and> a mod 4 = 0 \<and> a + 16 \<le> b \<and> b \<le> heap_end s"
    using b by (auto simp: R)
  show "\<forall>(a, b) \<in> R. \<forall>(c, d) \<in> R. (a, b) \<noteq> (c, d) \<longrightarrow> b \<le> c \<or> d \<le> a"
  proof -
    have "b' \<le> c \<or> d \<le> a" if "(a, b') \<in> R" "(c, d) \<in> R" "(a, b') \<noteq> (c, d)" for a b' c d
    proof -
      have ab: "(a, b') \<in> regions (hdr s) B" and cd: "(c, d) \<in> regions (hdr s) B"
        using that R by simp_all
      have "a \<noteq> c" using that(3) b(6) [OF ab] b(6) [OF cd] by auto
      with regions_apart [OF heap_wfD(1) [OF wf] ab cd] show ?thesis by blast
    qed
    then show ?thesis by (intro ballI) (auto split: prod.split)
  qed
  show "used_mem s = w32 (\<Sum>(a, b) \<in> R. b - a)" using um by (simp add: region_bytes_def)
qed

text \<open>A small heap: 100 bytes between two headers.\<close>

definition blank :: "int \<Rightarrow> heap_mem" where
  "blank x = \<lparr>magic = 0, used = 0, next_blk = 0, prev_blk = 0\<rparr>"

definition small_heap :: heap where
  "small_heap =
     \<lparr>hdr = blank(0 := \<lparr>magic = HEAP_MAGIC, used = 0, next_blk = 112, prev_blk = 0\<rparr>,
                 112 := \<lparr>magic = HEAP_MAGIC, used = 1, next_blk = 112, prev_blk = 112\<rparr>),
      heap_end = 112, lfree = 0, mem_size_aligned = 100, used_mem = 0, max_mem = 0, heap_events = []\<rparr>"

lemma small_heap_init:
  "rt_system_heap_init 1000 1124 blank = Some small_heap"
  "mem_size_aligned small_heap = 100" "heap_end small_heap = 112" "lfree small_heap = 0"
  "hdr small_heap 0 = \<lparr>magic = HEAP_MAGIC, used = 0, next_blk = 112, prev_blk = 0\<rparr>"
  by (simp_all add: small_heap_def rt_system_heap_init_def RT_ALIGN_def RT_ALIGN_DOWN_def w32_def
      SIZEOF_STRUCT_MEM_def Let_def)

lemma small_heap_reach: "heap_reach small_heap {}"
  by (rule heap_reach.init [OF small_heap_init(1)]) (simp_all add: small_heap_init)

theorem heap_blocks_disjoint_witness:
  "\<exists>p s R. rt_malloc 20 small_heap = Some (Inr (p, s)) \<and> heap_reach s R \<and>
    (\<forall>(a, b) \<in> R. \<forall>(c, d) \<in> R. (a, b) \<noteq> (c, d) \<longrightarrow> b \<le> c \<or> d \<le> a)"
proof -
  obtain r s where m: "rt_malloc 20 small_heap = Some (Inr (r, s))"
    using rt_malloc_ok [OF heap_reach_inv [OF small_heap_reach], of 20] by auto
  then obtain R where "heap_reach s R"
    using heap_reach.malloc [OF small_heap_reach, of 20] heap_reach.malloc_null [OF small_heap_reach, of 20]
    by (cases r) auto
  with heap_blocks_disjoint [OF this] m show ?thesis by blast
qed

text \<open>Releasing a block records two calls of the semaphore and nothing else.\<close>

lemma field_events [simp]:
  "heap_events (set_magic a s) = heap_events s" "heap_events (set_used a v s) = heap_events s"
  "heap_events (set_next a v s) = heap_events s" "heap_events (set_prev a v s) = heap_events s"
  by (simp_all add: set_magic_def set_used_def set_next_def set_prev_def)









text \<open>
  A request of more than \<open>2\<^sup>3\<^sup>2 - 4\<close> bytes wraps to zero when it is rounded up to the alignment, and
  is served like a request of 12 bytes.
\<close>

theorem rt_malloc_huge_wraps:
  assumes "2 ^ 32 - 3 \<le> n" and "n < 2 ^ 32" and "12 \<le> mem_size_aligned s"
  shows "rt_malloc n s = rt_malloc 12 s"
proof -
  have "w32 (n + 3) = n + 3 - 2 ^ 32"
    using assms(1,2) unfolding w32_def by (subst minus_mod_self2 [symmetric]) simp
  then have "RT_ALIGN n = 0" using assms(1,2) by (auto simp: RT_ALIGN_def)
  moreover have "RT_ALIGN 12 = 12" by (simp add: RT_ALIGN_def w32_def)
  ultimately have "request n s = request 12 s"
    using assms by (simp add: request_def MIN_SIZE_ALIGNED_def)
  then show ?thesis by (simp add: rt_malloc_def)
qed

theorem rt_malloc_huge_wraps_witness:
  "\<exists>p s'. rt_malloc 0xFFFFFFFF small_heap = rt_malloc 12 small_heap \<and>
     rt_malloc 0xFFFFFFFF small_heap = Some (Inr (Some p, s'))"
proof -
  have "find_fit (event Sem_Take small_heap) 12 0 = Some (Some 0)"
    by (subst find_fit.simps)
      (simp add: small_heap_init heap_sel data_size_def SIZEOF_STRUCT_MEM_def)
  moreover have "request 12 small_heap = Some 12"
    by (simp add: small_heap_init request_def MIN_SIZE_ALIGNED_def RT_ALIGN_def)
  moreover obtain r s' where m: "rt_malloc 12 small_heap = Some (Inr (r, s'))"
    using rt_malloc_ok [OF heap_reach_inv [OF small_heap_reach], of 12] by auto
  ultimately obtain p where "r = Some p"
    by (auto simp: rt_malloc_def malloc_locked_def heap_sel Let_def small_heap_init split: if_splits option.splits)
  with m rt_malloc_huge_wraps [of "0xFFFFFFFF" small_heap] show ?thesis
    by (simp add: small_heap_init)
qed

text \<open>
  Shrinking a block does not lower the lowest-free pointer: when no block below the end of the heap
  was free, the bytes given back are free but no later allocation finds them, whatever its size.
\<close>

theorem rt_realloc_hides_tail:
  assumes "heap_inv s R" and "(a, b) \<in> R" and "lfree s = heap_end s"
    and "4 \<le> n" and "n mod 4 = 0" and "n + 24 < b - a - 12"
  shows "\<exists>s'. rt_realloc (Some (a + 12)) n s = Some (Inr (Some (a + 12), s')) \<and>
    heap_inv s' (insert (a, a + 12 + n) (R - {(a, b)})) \<and>
    (\<forall>k. 0 \<le> k \<longrightarrow> k < 2 ^ 32 \<longrightarrow> (\<exists>s''. rt_malloc k s' = Some (Inr (None, s''))))"
proof -
  note sz = heap_inv_size [OF assms(1)] and r = heap_inv_region [OF assms(1,2)]
  have n: "RT_ALIGN n = n"
  proof -
    have "w32 (n + 3) = n + 3" using assms(4,6) r sz by simp
    then have "RT_ALIGN n = n + 3 - (n + 3) mod 4" by (simp add: RT_ALIGN_def)
    moreover have "(n + 3) mod 4 = 3" using assms(5) by presburger
    ultimately show ?thesis by simp
  qed
  have ds: "data_size (event Sem_Take s) a = b - a - 12"
    using r sz by (simp add: data_size_def heap_sel SIZEOF_STRUCT_MEM_def algebra_simps)
  have "heap_inv (event Sem_Take s) R" using assms(1) by simp
  from shrink_block_ok [OF this assms(2,4,5,6)] obtain s' where
    sb: "shrink_block a (b - a - 12) n (event Sem_Take s) = Inr s'"
    and i: "heap_inv s' (insert (a, a + 12 + n) (R - {(a, b)}))"
    and rest: "heap_end s' = heap_end s" "mem_size_aligned s' = mem_size_aligned s"
    by (auto simp: heap_sel)
  have lf: "lfree s' = heap_end s'"
    by (rule shrink_lfree [OF sb]) (simp add: assms(3) heap_sel)
  let ?s' = "event Sem_Release s'"
  have re: "rt_realloc (Some (a + 12)) n s = Some (Inr (Some (a + 12), ?s'))"
    using assms(4,6) r sz ds sb n
    by (simp add: rt_realloc_def Let_def heap_consts heap_sel)
  have none: "\<exists>s''. rt_malloc k ?s' = Some (Inr (None, s''))" if "0 \<le> k" "k < 2 ^ 32" for k
  proof (cases "request k ?s'")
    case None
    then show ?thesis by (simp add: rt_malloc_def)
  next
    case (Some m)
    have inv': "heap_inv ?s' (insert (a, a + 12 + n) (R - {(a, b)}))" using i by simp
    note q = request_ok [OF inv' that Some]
    have "w32 (mem_size_aligned s' - m) < heap_end s'"
      using q(1,3) heap_inv_size [OF i] by (simp add: heap_sel)
    then have "find_fit (event Sem_Take ?s') m (heap_end s') = Some None"
      by (subst find_fit.simps) (simp add: heap_sel)
    with Some lf show ?thesis by (simp add: rt_malloc_def malloc_locked_def heap_sel)
  qed
  show ?thesis
    using re i none by (intro exI [of _ ?s']) simp
qed

text \<open>A heap whose only block is in use.\<close>

definition full_heap :: heap where
  "full_heap =
     \<lparr>hdr = blank(0 := \<lparr>magic = HEAP_MAGIC, used = 1, next_blk = 112, prev_blk = 0\<rparr>,
                 112 := \<lparr>magic = HEAP_MAGIC, used = 1, next_blk = 112, prev_blk = 112\<rparr>),
      heap_end = 112, lfree = 112, mem_size_aligned = 100, used_mem = 112, max_mem = 112, heap_events = []\<rparr>"

lemma full_heap_inv: "heap_inv full_heap {(0, 112)}"
proof -
  have "heap_wf full_heap {0} {}"
    by (rule heap_wfI) (simp_all add: full_heap_def blocks_ok_def block_ok_def joined_def)
  moreover have "{y. y = 0 \<and> used (hdr full_heap y) \<noteq> 0} = {0}" by (auto simp: full_heap_def)
  then have "regions (hdr full_heap) {0} = {(0, 112)}"
    by (auto simp: regions_def full_heap_def)
  ultimately show ?thesis
    unfolding heap_inv_def by (intro exI [of _ "{0}"]) (simp add: region_bytes_def full_heap_def)
qed

theorem rt_realloc_hides_tail_witness:
  "\<exists>s'. rt_realloc (Some 12) 12 full_heap = Some (Inr (Some 12, s')) \<and> heap_inv s' {(0, 24)} \<and>
    (\<exists>s''. rt_malloc 12 s' = Some (Inr (None, s'')))"
  using rt_realloc_hides_tail [OF full_heap_inv, of 0 112 12] by (auto simp: full_heap_def)

end
