(* ===== verification/RtList.thy ===== *)
theory RtList
  imports Prelude
begin

text \<open>
  The circular doubly linked lists of the kernel, \<open>include/rtservice.h\<close>: the two link fields of
  every node are maps from addresses to addresses, the operations are the assignments of the
  source in its order, and \<open>dlist\<close> relates a head and its links to the list of the nodes.
\<close>

subsection \<open>The operations\<close>

record rt_list_node =
  next_link :: "nat \<Rightarrow> nat"
  prev_link :: "nat \<Rightarrow> nat"

definition set_nxt :: "nat \<Rightarrow> nat \<Rightarrow> rt_list_node \<Rightarrow> rt_list_node" where
  "set_nxt a v s = s\<lparr>next_link := (next_link s)(a := v)\<rparr>"

definition set_prv :: "nat \<Rightarrow> nat \<Rightarrow> rt_list_node \<Rightarrow> rt_list_node" where
  "set_prv a v s = s\<lparr>prev_link := (prev_link s)(a := v)\<rparr>"

definition rt_list_init :: "nat \<Rightarrow> rt_list_node \<Rightarrow> rt_list_node" where
  "rt_list_init l s = set_nxt l l (set_prv l l s)"

definition rt_list_insert_after :: "nat \<Rightarrow> nat \<Rightarrow> rt_list_node \<Rightarrow> rt_list_node" where
  "rt_list_insert_after l n s =
     (let s = set_prv (next_link s l) n s;
          s = set_nxt n (next_link s l) s;
          s = set_nxt l n s
      in set_prv n l s)"

definition rt_list_insert_before :: "nat \<Rightarrow> nat \<Rightarrow> rt_list_node \<Rightarrow> rt_list_node" where
  "rt_list_insert_before l n s =
     (let s = set_nxt (prev_link s l) n s;
          s = set_prv n (prev_link s l) s;
          s = set_prv l n s
      in set_nxt n l s)"

definition rt_list_remove :: "nat \<Rightarrow> rt_list_node \<Rightarrow> rt_list_node" where
  "rt_list_remove n s =
     (let s = set_prv (next_link s n) (prev_link s n) s;
          s = set_nxt (prev_link s n) (next_link s n) s;
          s = set_prv n n s
      in set_nxt n (prev_link s n) s)"

definition rt_list_isempty :: "nat \<Rightarrow> rt_list_node \<Rightarrow> bool" where
  "rt_list_isempty l s \<longleftrightarrow> next_link s l = l"

text \<open>The loop of \<open>rt_list_len\<close>; a chain that never comes back to \<open>l\<close> is \<open>None\<close>.\<close>

partial_function (option) list_len_loop :: "rt_list_node \<Rightarrow> nat \<Rightarrow> nat \<Rightarrow> u32 \<Rightarrow> u32 option" where
  "list_len_loop s l p len =
     (if next_link s p \<noteq> l then list_len_loop s l (next_link s p) (len + 1) else Some len)"

definition rt_list_len :: "nat \<Rightarrow> rt_list_node \<Rightarrow> u32 option" where
  "rt_list_len l s = list_len_loop s l l 0"

subsection \<open>Segments and lists\<close>

fun seg :: "rt_list_node \<Rightarrow> nat \<Rightarrow> nat list \<Rightarrow> nat \<Rightarrow> bool" where
  "seg s a [] b \<longleftrightarrow> next_link s a = b \<and> prev_link s b = a"
| "seg s a (x # xs) b \<longleftrightarrow> next_link s a = x \<and> prev_link s x = a \<and> seg s x xs b"

definition dlist :: "rt_list_node \<Rightarrow> nat \<Rightarrow> nat list \<Rightarrow> bool" where
  "dlist s h xs \<longleftrightarrow> seg s h xs h \<and> distinct (h # xs)"

lemma seg_append [simp]: "seg s a (xs @ y # ys) b \<longleftrightarrow> seg s a xs y \<and> seg s y ys b"
  by (induction xs arbitrary: a) auto

lemma seg_cong:
  assumes "seg s a xs b"
    and "\<And>y. y \<in> set (a # xs) \<Longrightarrow> next_link s' y = next_link s y"
    and "\<And>y. y \<in> set (b # xs) \<Longrightarrow> prev_link s' y = prev_link s y"
  shows "seg s' a xs b"
  using assms by (induction xs arbitrary: a) auto

lemma seg_ends:
  assumes "seg s a xs b"
  shows "next_link s a = hd (xs @ [b])" and "prev_link s b = last (a # xs)"
  using assms by (induction xs arbitrary: a) auto

lemma dlist_ends:
  assumes "dlist s h xs"
  shows "next_link s h = hd (xs @ [h])" and "prev_link s h = last (h # xs)"
  using assms seg_ends [of s h xs h] by (auto simp: dlist_def)

lemma dlistD: "dlist s h xs \<Longrightarrow> distinct (h # xs)"
  by (simp add: dlist_def)

lemma dlist_next:
  assumes "dlist s h (xs @ x # ys)"
  shows "next_link s x = hd (ys @ [h])" and "prev_link s x = last (h # xs)"
  using assms by (auto simp: dlist_def dest: seg_ends)

text \<open>A list whose nodes do not change their links stays as it is.\<close>

lemma dlist_cong:
  assumes "dlist s h xs"
    and "\<And>y. y \<in> set (h # xs) \<Longrightarrow> next_link s' y = next_link s y \<and> prev_link s' y = prev_link s y"
  shows "dlist s' h xs"
  using assms seg_cong [of s h xs h s'] by (auto simp: dlist_def)

lemma dlist_unique:
  assumes "dlist s h xs" and "dlist s h ys"
  shows "xs = ys"
proof -
  have "seg s a xs h \<Longrightarrow> seg s a ys h \<Longrightarrow> h \<notin> set xs \<Longrightarrow> h \<notin> set ys \<Longrightarrow> xs = ys" for a
  proof (induction xs arbitrary: a ys)
    case Nil then show ?case by (cases ys) auto
  next
    case (Cons x xs) then show ?case by (cases ys) auto
  qed
  then show ?thesis using assms by (auto simp: dlist_def)
qed

subsection \<open>What the operations do to a list\<close>

lemma dlist_init: "dlist (rt_list_init l s) l []"
  by (simp add: rt_list_init_def dlist_def set_nxt_def set_prv_def)

lemma init_other:
  assumes "dlist s h xs" and "l \<notin> set (h # xs)"
  shows "dlist (rt_list_init l s) h xs"
  using assms by (auto intro!: dlist_cong [of s] simp: rt_list_init_def set_nxt_def set_prv_def)

lemma isempty_iff: "dlist s h xs \<Longrightarrow> rt_list_isempty h s \<longleftrightarrow> xs = []"
  by (cases xs) (auto simp: dlist_def rt_list_isempty_def)

text \<open>A node that is in no list points to itself: removing it changes nothing.\<close>

lemma remove_alone: "dlist s n [] \<Longrightarrow> rt_list_remove n s = s"
  by (simp add: rt_list_remove_def dlist_def set_nxt_def set_prv_def fun_upd_idem)

text \<open>
  A segment whose inner links are kept runs to a new end when the last link and the way back are
  set.
\<close>

lemma seg_retarget:
  assumes "seg s a xs b" and "distinct (a # xs)"
    and "\<And>y. y \<in> set (butlast (a # xs)) \<Longrightarrow> next_link s' y = next_link s y"
    and "\<And>y. y \<in> set xs \<Longrightarrow> prev_link s' y = prev_link s y"
    and "next_link s' (last (a # xs)) = n" and "prev_link s' n = last (a # xs)"
  shows "seg s' a xs n"
  using assms by (induction xs arbitrary: a) auto

lemma in_butlast: "distinct (a # xs) \<Longrightarrow> y \<in> set (butlast (a # xs)) \<Longrightarrow> y \<in> set (a # xs) \<and> y \<noteq> last (a # xs)"
  by (induction xs arbitrary: a) (auto split: if_splits)

text \<open>
  The shape shared by insertion and removal: in the list \<open>h, xs, mid, ys\<close> the nodes \<open>mid\<close> are
  replaced by \<open>mid'\<close>, and only the links at the seam change.
\<close>

lemma seg_join:
  assumes "seg s h xs b" and "b = hd (ys @ [h])"
    and "ys \<noteq> [] \<Longrightarrow> seg s b (tl ys) h"
  shows "seg s h (xs @ ys) h"
  using assms by (cases ys) auto

lemma seg_split:
  assumes "seg s h (xs @ ys) h"
  shows "seg s h xs (hd (ys @ [h]))" and "ys \<noteq> [] \<Longrightarrow> seg s (hd (ys @ [h])) (tl ys) h"
  using assms by (cases ys; simp)+

lemma insert_after_links:
  "n \<noteq> l \<Longrightarrow> n \<noteq> next_link s l \<Longrightarrow>
   rt_list_insert_after l n s =
     \<lparr>next_link = (next_link s)(n := next_link s l, l := n),
      prev_link = (prev_link s)(next_link s l := n, n := l)\<rparr>"
  by (cases s) (simp add: rt_list_insert_after_def set_nxt_def set_prv_def Let_def)

lemma insert_before_after:
  "next_link s (prev_link s l) = l \<Longrightarrow> n \<noteq> l \<Longrightarrow> n \<noteq> prev_link s l \<Longrightarrow>
   rt_list_insert_before l n s = rt_list_insert_after (prev_link s l) n s"
  by (cases s)
     (auto simp: rt_list_insert_after_def rt_list_insert_before_def set_nxt_def set_prv_def Let_def fun_eq_iff)

lemma seam_next:
  assumes "dlist s h (xs @ ys)"
  shows "next_link s (last (h # xs)) = hd (ys @ [h])" "prev_link s (hd (ys @ [h])) = last (h # xs)"
proof -
  have S: "seg s h xs (hd (ys @ [h]))" using assms seg_split(1) by (auto simp: dlist_def)
  show "prev_link s (hd (ys @ [h])) = last (h # xs)" using S by (rule seg_ends)
  show "next_link s (last (h # xs)) = hd (ys @ [h])"
    using S by (cases xs rule: rev_cases) auto
qed

lemma dlist_insert_after:
  assumes D: "dlist s h (xs @ ys)" and n: "n \<notin> set (h # xs @ ys)" and l: "l = last (h # xs)"
  shows "dlist (rt_list_insert_after l n s) h (xs @ n # ys)"
proof -
  have dis: "distinct (h # xs @ ys)" using D by (rule dlistD)
  have b: "next_link s l = hd (ys @ [h])" using seam_next(1) [OF D] l by simp
  have bin: "hd (ys @ [h]) \<in> set (h # ys)" by (cases ys) auto
  have lin: "l \<in> set (h # xs)" using l by simp
  let ?s = "rt_list_insert_after l n s"
  have s': "?s = \<lparr>next_link = (next_link s)(n := hd (ys @ [h]), l := n),
                  prev_link = (prev_link s)(hd (ys @ [h]) := n, n := l)\<rparr>"
    using insert_after_links [of n l s] b bin lin n by auto
  have S: "seg s h (xs @ ys) h" using D by (simp add: dlist_def)
  have F: "\<And>y. y \<in> set (butlast (h # xs)) \<Longrightarrow> y \<noteq> l \<and> y \<noteq> n"
    using in_butlast [of h xs] dis n l by fastforce
  have G: "\<And>y. y \<in> set xs \<Longrightarrow> y \<noteq> hd (ys @ [h]) \<and> y \<noteq> n"
    using bin dis n by auto
  have nb: "n \<noteq> hd (ys @ [h])" using bin n by auto
  have "seg ?s h xs n"
    by (rule seg_retarget [OF seg_split(1) [OF S]])
       (use dis F G nb in \<open>simp_all add: s' l [symmetric] del: last.simps butlast.simps\<close>)
  moreover have "seg ?s n ys h"
  proof (cases ys)
    case Nil
    then show ?thesis using n lin by (auto simp: s')
  next
    case (Cons y zs)
    then have "seg ?s y zs h"
      using seg_split(2) [OF S] dis n lin by (auto intro!: seg_cong [of s y zs h] simp: s')
    with Cons show ?thesis using n lin by (auto simp: s')
  qed
  ultimately show ?thesis using dis n by (auto simp: dlist_def)
qed

lemma insert_after_other:
  assumes "dlist s k zs" and "dlist s h (xs @ ys)" and "l = last (h # xs)"
    and "set (k # zs) \<inter> set (h # xs @ ys) = {}" and "n \<notin> set (k # zs)" and "n \<notin> set (h # xs @ ys)"
  shows "dlist (rt_list_insert_after l n s) k zs"
proof (rule dlist_cong [OF assms(1)])
  fix y assume y: "y \<in> set (k # zs)"
  have "l \<in> set (h # xs)" using assms(3) by simp
  moreover have "hd (ys @ [h]) \<in> set (h # ys)" by (cases ys) auto
  moreover have "next_link s l = hd (ys @ [h])" using seam_next(1) [OF assms(2)] assms(3) by simp
  moreover have "n \<noteq> l" "n \<noteq> next_link s l"
    using assms(6) calculation by auto
  moreover have "y \<notin> set (h # xs @ ys)" "y \<noteq> n" using y assms(4,5) by auto
  ultimately show "next_link (rt_list_insert_after l n s) y = next_link s y \<and>
      prev_link (rt_list_insert_after l n s) y = prev_link s y"
    by (auto simp: insert_after_links)
qed

text \<open>\<open>rt_list_insert_before\<close> of the head appends.\<close>

lemma dlist_insert_before:
  assumes "dlist s h xs" and "n \<notin> set (h # xs)"
  shows "dlist (rt_list_insert_before h n s) h (xs @ [n])"
proof -
  have l: "prev_link s h = last (h # xs)" using assms(1) by (rule dlist_ends)
  have "next_link s (last (h # xs)) = h" using seam_next(1) [of s h xs "[]"] assms(1) by simp
  moreover have "last (h # xs) \<in> set (h # xs)" by simp
  ultimately have "rt_list_insert_before h n s = rt_list_insert_after (last (h # xs)) n s"
    using assms(2) l by (subst insert_before_after) auto
  then show ?thesis using dlist_insert_after [of s h xs "[]" n] assms by simp
qed

lemma remove_links:
  assumes "n \<noteq> prev_link s n" and "n \<noteq> next_link s n"
  shows "rt_list_remove n s =
     \<lparr>next_link = (next_link s)(prev_link s n := next_link s n, n := n),
      prev_link = (prev_link s)(next_link s n := prev_link s n, n := n)\<rparr>"
  using assms by (cases s) (auto simp: rt_list_remove_def set_nxt_def set_prv_def Let_def fun_eq_iff)

lemma dlist_remove_links:
  assumes "dlist s h (xs @ n # ys)"
  shows "rt_list_remove n s =
     \<lparr>next_link = (next_link s)(last (h # xs) := hd (ys @ [h]), n := n),
      prev_link = (prev_link s)(hd (ys @ [h]) := last (h # xs), n := n)\<rparr>"
proof -
  have "hd (ys @ [h]) \<in> set (h # ys)" by (cases ys) auto
  moreover have "last (h # xs) \<in> set (h # xs)" by simp
  ultimately have "n \<noteq> hd (ys @ [h])" "n \<noteq> last (h # xs)" using dlistD [OF assms] by auto
  then show ?thesis using remove_links [of n s] dlist_next [OF assms] by simp
qed

lemma dlist_remove:
  assumes D: "dlist s h (xs @ n # ys)"
  shows "dlist (rt_list_remove n s) h (xs @ ys)" and "dlist (rt_list_remove n s) n []"
proof -
  note s' = dlist_remove_links [OF D]
  have dis: "distinct (h # xs @ n # ys)" using D by (rule dlistD)
  have b: "hd (ys @ [h]) \<in> set (h # ys)" by (cases ys) auto
  have S: "seg s h xs n" "seg s n ys h" using D by (simp_all add: dlist_def)
  have F: "\<And>y. y \<in> set (butlast (h # xs)) \<Longrightarrow> y \<noteq> last (h # xs) \<and> y \<noteq> n"
    using in_butlast [of h xs] dis by fastforce
  have G: "\<And>y. y \<in> set xs \<Longrightarrow> y \<noteq> hd (ys @ [h]) \<and> y \<noteq> n"
    using b dis by auto
  have "last (h # xs) \<in> set (h # xs)" by simp
  then have nl: "n \<noteq> last (h # xs)" "n \<noteq> hd (ys @ [h])" using dis b by auto
  have "seg (rt_list_remove n s) h xs (hd (ys @ [h]))"
    by (rule seg_retarget [OF S(1)])
       (use dis F G nl in \<open>simp_all add: s' del: last.simps butlast.simps\<close>)
  note front = this
  have "seg (rt_list_remove n s) h (xs @ ys) h"
  proof (cases ys)
    case Nil
    then show ?thesis using front by simp
  next
    case (Cons y zs)
    have l: "last (h # xs) \<in> set (h # xs)" by (rule last_in_set) simp
    have "seg s y zs h" using S(2) Cons by simp
    then have "seg (rt_list_remove n s) y zs h"
    proof (rule seg_cong)
      fix z assume "z \<in> set (y # zs)"
      then have "z \<noteq> last (h # xs) \<and> z \<noteq> n" using dis l Cons by auto
      then show "next_link (rt_list_remove n s) z = next_link s z" by (simp add: s' del: last.simps)
    next
      fix z assume "z \<in> set (h # zs)"
      then have "z \<noteq> hd (ys @ [h]) \<and> z \<noteq> n" using dis Cons by auto
      then show "prev_link (rt_list_remove n s) z = prev_link s z" by (simp add: s' del: last.simps)
    qed
    then show ?thesis using front Cons by simp
  qed
  then show "dlist (rt_list_remove n s) h (xs @ ys)" using dis by (simp add: dlist_def)
  show "dlist (rt_list_remove n s) n []"
    using dis b by (auto simp: dlist_def s')
qed

lemma remove_other:
  assumes "dlist s k zs" and "dlist s h (xs @ n # ys)" and "set (k # zs) \<inter> set (h # xs @ n # ys) = {}"
  shows "dlist (rt_list_remove n s) k zs"
proof (rule dlist_cong [OF assms(1)])
  fix y assume "y \<in> set (k # zs)"
  moreover have "hd (ys @ [h]) \<in> set (h # ys)" by (cases ys) auto
  moreover have "last (h # xs) \<in> set (h # xs)" by simp
  ultimately show "next_link (rt_list_remove n s) y = next_link s y \<and>
      prev_link (rt_list_remove n s) y = prev_link s y"
    using assms(3) by (auto simp: dlist_remove_links [OF assms(2)])
qed

lemma list_len_loop_segment:
  assumes "seg s p xs l" and "l \<notin> set xs"
  shows "list_len_loop s l p n = Some (n + of_nat (length xs))"
  using assms
proof (induction xs arbitrary: p n)
  case Nil
  then show ?case by (subst list_len_loop.simps) simp
next
  case (Cons x xs)
  then show ?case by (subst list_len_loop.simps) (auto simp: add.assoc)
qed

lemma rt_list_len_dlist: "dlist s h xs \<Longrightarrow> rt_list_len h s = Some (of_nat (length xs))"
  using list_len_loop_segment [of s h xs h 0] by (simp add: rt_list_len_def dlist_def)

end
