(* ===== verification/Timer.thy ===== *)
theory Timer
  imports RtList
begin

text \<open>
  The kernel timers and the system tick, \<open>src/timer.c\<close> and \<open>src/clock.c\<close>, with
  \<open>RT_TIMER_SKIP_LIST_LEVEL\<close> 1 (the default of \<open>rtdef.h\<close>) and \<open>RT_USING_TIMER_SOFT\<close>, without hooks.
  A timer is named by the address of its row node; 0 and 1 are the heads of the two timer lists.
  The timeout functions are an argument: what the function of timer \<open>t\<close> does to the state, calls
  of the timer interface included. Interrupt masking is not part of the state: the sections it
  protects are atomic in the model. The calls of the scheduler are recorded in order.
\<close>

subsection \<open>State\<close>

record rt_timer =
  tm_flag :: u8
  init_tick :: u32
  timeout_tick :: u32

datatype timer_event =
    Fired nat | Resume_Timer_Thread | Schedule | Suspend_Self | Delay u32
  | Enter_Critical | Exit_Critical

record timers =
  rows :: rt_list_node
  timer_of :: "nat \<Rightarrow> rt_timer"
  rt_tick :: u32
  random_nr :: u32
  timer_thread_ready :: bool
  timer_log :: "timer_event list"

definition rt_timer_list :: nat where "rt_timer_list = 0"
definition rt_soft_timer_list :: nat where "rt_soft_timer_list = 1"

definition RT_TICK_MAX :: u32 where "RT_TICK_MAX = 0xFFFFFFFF"
definition RT_TIMER_FLAG_ACTIVATED :: u8 where "RT_TIMER_FLAG_ACTIVATED = 1"
definition RT_TIMER_FLAG_PERIODIC :: u8 where "RT_TIMER_FLAG_PERIODIC = 2"
definition RT_TIMER_FLAG_SOFT_TIMER :: u8 where "RT_TIMER_FLAG_SOFT_TIMER = 4"

definition has_flag :: "u8 \<Rightarrow> nat \<Rightarrow> 'a timers_scheme \<Rightarrow> bool" where
  "has_flag f t s \<longleftrightarrow> tm_flag (timer_of s t) AND f \<noteq> 0"

definition raise_flag :: "u8 \<Rightarrow> nat \<Rightarrow> 'a timers_scheme \<Rightarrow> 'a timers_scheme" where
  "raise_flag f t s =
     s\<lparr>timer_of := (timer_of s)(t := (timer_of s t)\<lparr>tm_flag := tm_flag (timer_of s t) OR f\<rparr>)\<rparr>"

definition clear_flag :: "u8 \<Rightarrow> nat \<Rightarrow> 'a timers_scheme \<Rightarrow> 'a timers_scheme" where
  "clear_flag f t s =
     s\<lparr>timer_of := (timer_of s)(t := (timer_of s t)\<lparr>tm_flag := tm_flag (timer_of s t) AND NOT f\<rparr>)\<rparr>"

definition log_event :: "timer_event \<Rightarrow> 'a timers_scheme \<Rightarrow> 'a timers_scheme" where
  "log_event e s = s\<lparr>timer_log := timer_log s @ [e]\<rparr>"

subsection \<open>Life cycle\<close>

definition timer_init_fields :: "nat \<Rightarrow> u32 \<Rightarrow> u8 \<Rightarrow> 'a timers_scheme \<Rightarrow> 'a timers_scheme" where
  "timer_init_fields t time flag s =
     s\<lparr>timer_of := (timer_of s)(t := \<lparr>tm_flag = flag AND NOT RT_TIMER_FLAG_ACTIVATED,
                                        init_tick = time, timeout_tick = 0\<rparr>),
       rows := rt_list_init t (rows s)\<rparr>"

definition rt_timer_init :: "nat \<Rightarrow> u32 \<Rightarrow> u8 \<Rightarrow> 'a timers_scheme \<Rightarrow> 'a timers_scheme" where
  "rt_timer_init t time flag s = timer_init_fields t time flag s"

text \<open>\<open>rt_timer_create\<close>: the object the allocator returns is an argument.\<close>

definition rt_timer_create :: "nat option \<Rightarrow> u32 \<Rightarrow> u8 \<Rightarrow> 'a timers_scheme \<Rightarrow> nat option \<times> 'a timers_scheme" where
  "rt_timer_create obj time flag s =
     (case obj of None \<Rightarrow> (None, s) | Some t \<Rightarrow> (Some t, timer_init_fields t time flag s))"

definition timer_remove :: "nat \<Rightarrow> 'a timers_scheme \<Rightarrow> 'a timers_scheme" where
  "timer_remove t s = s\<lparr>rows := rt_list_remove t (rows s)\<rparr>"

definition rt_timer_detach :: "nat \<Rightarrow> 'a timers_scheme \<Rightarrow> 'a timers_scheme" where
  "rt_timer_detach t s = timer_remove t s"

definition rt_timer_delete :: "nat \<Rightarrow> 'a timers_scheme \<Rightarrow> 'a timers_scheme" where
  "rt_timer_delete t s = timer_remove t s"

definition timer_list_next_timeout :: "nat \<Rightarrow> 'a timers_scheme \<Rightarrow> u32" where
  "timer_list_next_timeout h s =
     (if rt_list_isempty h (rows s) then RT_TICK_MAX
      else timeout_tick (timer_of s (next_link (rows s) h)))"

definition rt_timer_next_timeout_tick :: "'a timers_scheme \<Rightarrow> u32" where
  "rt_timer_next_timeout_tick s = timer_list_next_timeout rt_timer_list s"

definition rt_system_timer_init :: "'a timers_scheme \<Rightarrow> 'a timers_scheme" where
  "rt_system_timer_init s = s\<lparr>rows := rt_list_init rt_timer_list (rows s)\<rparr>"

text \<open>The thread that serves the soft timers is created and started by the scheduler.\<close>

definition rt_system_timer_thread_init :: "'a timers_scheme \<Rightarrow> 'a timers_scheme" where
  "rt_system_timer_thread_init s = s\<lparr>rows := rt_list_init rt_soft_timer_list (rows s)\<rparr>"

subsection \<open>Starting and stopping\<close>

text \<open>\<open>p\<close> times out later than the deadline \<open>d\<close>, as the scan of \<open>rt_timer_start\<close> decides it.\<close>

definition later_than :: "'a timers_scheme \<Rightarrow> u32 \<Rightarrow> nat \<Rightarrow> bool" where
  "later_than s d p \<longleftrightarrow>
     timeout_tick (timer_of s p) - d \<noteq> 0 \<and> timeout_tick (timer_of s p) - d < RT_TICK_MAX div 2"

text \<open>The scan: the node after which the timer is linked.\<close>

partial_function (option) find_row :: "'a timers_scheme \<Rightarrow> nat \<Rightarrow> u32 \<Rightarrow> nat \<Rightarrow> nat option" where
  "find_row s h d r =
     (if r = prev_link (rows s) h then Some r
      else if later_than s d (next_link (rows s) r) then Some r
      else find_row s h d (next_link (rows s) r))"

definition set_deadline :: "nat \<Rightarrow> 'a timers_scheme \<Rightarrow> 'a timers_scheme" where
  "set_deadline t s =
     s\<lparr>timer_of := (timer_of s)(t := (timer_of s t)\<lparr>timeout_tick := rt_tick s + init_tick (timer_of s t)\<rparr>)\<rparr>"

definition wake_timer_thread :: "nat \<Rightarrow> 'a timers_scheme \<Rightarrow> 'a timers_scheme" where
  "wake_timer_thread t s =
     (if has_flag RT_TIMER_FLAG_SOFT_TIMER t s \<and> \<not> timer_thread_ready s
      then log_event Schedule (log_event Resume_Timer_Thread s) else s)"

definition link_timer :: "nat \<Rightarrow> nat \<Rightarrow> 'a timers_scheme \<Rightarrow> 'a timers_scheme" where
  "link_timer r t s =
     s\<lparr>random_nr := random_nr s + 1, rows := rt_list_insert_after r t (rows s)\<rparr>"

definition rt_timer_start :: "nat \<Rightarrow> 'a timers_scheme \<Rightarrow> 'a timers_scheme run" where
  "rt_timer_start t s =
     (let s = clear_flag RT_TIMER_FLAG_ACTIVATED t (timer_remove t s) in
      if \<not> init_tick (timer_of s t) < RT_TICK_MAX div 2 then Some (Inl (Assert_Hang ''init_tick''))
      else
        (let s = set_deadline t s;
             h = (if has_flag RT_TIMER_FLAG_SOFT_TIMER t s then rt_soft_timer_list else rt_timer_list) in
         case find_row s h (timeout_tick (timer_of s t)) h of
           None \<Rightarrow> None
         | Some r \<Rightarrow>
             Some (Inr (wake_timer_thread t (raise_flag RT_TIMER_FLAG_ACTIVATED t (link_timer r t s))))))"

text \<open>\<open>RT_EOK\<close> is 0, \<open>-RT_ERROR\<close> is \<open>-1\<close>.\<close>

definition rt_timer_stop :: "nat \<Rightarrow> 'a timers_scheme \<Rightarrow> int \<times> 'a timers_scheme" where
  "rt_timer_stop t s =
     (if \<not> has_flag RT_TIMER_FLAG_ACTIVATED t s then (- 1, s)
      else (0, clear_flag RT_TIMER_FLAG_ACTIVATED t (timer_remove t s)))"

text \<open>The argument is the value behind \<open>arg\<close>, the result the value left there.\<close>

definition rt_timer_control :: "nat \<Rightarrow> int \<Rightarrow> u32 \<Rightarrow> 'a timers_scheme \<Rightarrow> u32 \<times> 'a timers_scheme" where
  "rt_timer_control t cmd arg s =
     (if cmd = 1 then (init_tick (timer_of s t), s)
      else if cmd = 0 then
        (arg, s\<lparr>timer_of := (timer_of s)(t := (timer_of s t)\<lparr>init_tick := arg\<rparr>)\<rparr>)
      else if cmd = 2 then (arg, clear_flag RT_TIMER_FLAG_PERIODIC t s)
      else if cmd = 3 then (arg, raise_flag RT_TIMER_FLAG_PERIODIC t s)
      else (arg, s))"

subsection \<open>Expiry\<close>

definition expired :: "u32 \<Rightarrow> nat \<Rightarrow> 'a timers_scheme \<Rightarrow> bool" where
  "expired current t s \<longleftrightarrow> current - timeout_tick (timer_of s t) < RT_TICK_MAX div 2"

text \<open>What both checks do with a timer after its function has returned.\<close>

definition rearm :: "nat \<Rightarrow> 'a timers_scheme \<Rightarrow> 'a timers_scheme run" where
  "rearm t s =
     (if has_flag RT_TIMER_FLAG_PERIODIC t s \<and> has_flag RT_TIMER_FLAG_ACTIVATED t s
      then rt_timer_start t (clear_flag RT_TIMER_FLAG_ACTIVATED t s)
      else Some (Inr (clear_flag RT_TIMER_FLAG_ACTIVATED t s)))"

text \<open>\<open>cb t\<close> is the call of the timeout function of \<open>t\<close>. A loop that does not end is \<open>None\<close>.\<close>

partial_function (option) check_loop ::
  "(nat \<Rightarrow> 'a timers_scheme \<Rightarrow> 'a timers_scheme run) \<Rightarrow> u32 \<Rightarrow> 'a timers_scheme \<Rightarrow> 'a timers_scheme run" where
  "check_loop cb current s =
     (if rt_list_isempty rt_timer_list (rows s) then returns s
      else if expired current (next_link (rows s) rt_timer_list) s then
        (case cb (next_link (rows s) rt_timer_list)
                (log_event (Fired (next_link (rows s) rt_timer_list))
                  (timer_remove (next_link (rows s) rt_timer_list) s)) of
           None \<Rightarrow> None
         | Some (Inl e) \<Rightarrow> stops e
         | Some (Inr r) \<Rightarrow>
             (case rearm (next_link (rows s) rt_timer_list) r of
                None \<Rightarrow> None
              | Some (Inl e) \<Rightarrow> stops e
              | Some (Inr s') \<Rightarrow> check_loop cb (rt_tick r) s'))
      else returns s)"

definition rt_timer_check :: "(nat \<Rightarrow> 'a timers_scheme \<Rightarrow> 'a timers_scheme run) \<Rightarrow> 'a timers_scheme \<Rightarrow> 'a timers_scheme run" where
  "rt_timer_check cb s = check_loop cb (rt_tick s) s"

text \<open>One expired soft timer: its function runs outside the critical section.\<close>

definition soft_fire ::
  "(nat \<Rightarrow> 'a timers_scheme \<Rightarrow> 'a timers_scheme run) \<Rightarrow> nat \<Rightarrow> 'a timers_scheme \<Rightarrow> 'a timers_scheme run" where
  "soft_fire cb t s =
     andthen (cb t (log_event (Fired t) (log_event Exit_Critical (timer_remove t s))))
       (\<lambda>s. returns (log_event Enter_Critical s))"

text \<open>\<open>n\<close> is the loop variable: the successor is read before the timer is removed.\<close>

partial_function (option) soft_loop ::
  "(nat \<Rightarrow> 'a timers_scheme \<Rightarrow> 'a timers_scheme run) \<Rightarrow> u32 \<Rightarrow> nat \<Rightarrow> 'a timers_scheme \<Rightarrow>
     'a timers_scheme run" where
  "soft_loop cb current n s =
     (if n = rt_soft_timer_list then returns s
      else if expired current n s then
        (case soft_fire cb n s of
           None \<Rightarrow> None
         | Some (Inl e) \<Rightarrow> stops e
         | Some (Inr r) \<Rightarrow>
             (case rearm n r of
                None \<Rightarrow> None
              | Some (Inl e) \<Rightarrow> stops e
              | Some (Inr s') \<Rightarrow> soft_loop cb (rt_tick r) (next_link (rows s) n) s'))
      else returns s)"

definition rt_soft_timer_check :: "(nat \<Rightarrow> 'a timers_scheme \<Rightarrow> 'a timers_scheme run) \<Rightarrow> 'a timers_scheme \<Rightarrow> 'a timers_scheme run" where
  "rt_soft_timer_check cb s =
     andthen (soft_loop cb (rt_tick s) (next_link (rows s) rt_soft_timer_list) (log_event Enter_Critical s))
       (\<lambda>s. returns (log_event Exit_Critical s))"

text \<open>
  One round of the timer thread; \<open>env\<close> is what the other threads and the tick do while it is
  suspended or delayed.
\<close>

definition timer_thread_wait :: "('a timers_scheme \<Rightarrow> 'a timers_scheme) \<Rightarrow> 'a timers_scheme \<Rightarrow> 'a timers_scheme" where
  "timer_thread_wait env s =
     (let next_timeout = timer_list_next_timeout rt_soft_timer_list s in
      if next_timeout = RT_TICK_MAX then env (log_event Schedule (log_event Suspend_Self s))
      else if next_timeout - rt_tick s < RT_TICK_MAX div 2
      then env (log_event (Delay (next_timeout - rt_tick s)) s) else s)"

definition rt_thread_timer_entry ::
  "(nat \<Rightarrow> 'a timers_scheme \<Rightarrow> 'a timers_scheme run) \<Rightarrow> ('a timers_scheme \<Rightarrow> 'a timers_scheme) \<Rightarrow> 'a timers_scheme \<Rightarrow> 'a timers_scheme run" where
  "rt_thread_timer_entry cb env s = rt_soft_timer_check cb (timer_thread_wait env s)"

subsection \<open>The tick\<close>

definition rt_tick_get :: "'a timers_scheme \<Rightarrow> u32" where
  "rt_tick_get s = rt_tick s"

definition rt_tick_set :: "u32 \<Rightarrow> 'a timers_scheme \<Rightarrow> 'a timers_scheme" where
  "rt_tick_set tick s = s\<lparr>rt_tick := tick\<rparr>"

text \<open>\<open>hz\<close> is \<open>RT_TICK_PER_SECOND\<close>; \<open>RT_WAITING_FOREVER\<close> is \<open>-1\<close>.\<close>

definition rt_tick_from_millisecond :: "int \<Rightarrow> int \<Rightarrow> u32" where
  "rt_tick_from_millisecond hz ms =
     (if ms < 0 then of_int (- 1)
      else of_int (hz * (ms div 1000)) + of_int ((hz * (ms mod 1000) + 999) div 1000))"

end
