(* ===== verification/TimerLaws.thy ===== *)
theory TimerLaws
  imports Timer
begin

text \<open>
  The timer lists as lists of timers: the invariant, what starting, stopping and checking do to
  them, and the order of the deadlines across the wrap-around of the tick.
\<close>

lemmas timer_defs = clear_flag_def raise_flag_def log_event_def set_deadline_def timer_remove_def
  link_timer_def wake_timer_thread_def

subsection \<open>The two lists\<close>

text \<open>
  \<open>hs\<close> and \<open>ss\<close> are the hard and the soft timers in list order; every other timer points to
  itself, and a timer stands in the list its flag names.
\<close>

definition timers_ok :: "'a timers_scheme \<Rightarrow> nat list \<Rightarrow> nat list \<Rightarrow> bool" where
  "timers_ok s hs ss \<longleftrightarrow>
     dlist (rows s) rt_timer_list hs \<and> dlist (rows s) rt_soft_timer_list ss \<and>
     set (rt_timer_list # hs) \<inter> set (rt_soft_timer_list # ss) = {} \<and>
     (\<forall>t. t \<notin> set (rt_timer_list # rt_soft_timer_list # hs @ ss) \<longrightarrow> dlist (rows s) t []) \<and>
     (\<forall>t \<in> set hs. \<not> has_flag RT_TIMER_FLAG_SOFT_TIMER t s) \<and>
     (\<forall>t \<in> set ss. has_flag RT_TIMER_FLAG_SOFT_TIMER t s)"

definition is_timer :: "nat \<Rightarrow> bool" where
  "is_timer t \<longleftrightarrow> t \<noteq> rt_timer_list \<and> t \<noteq> rt_soft_timer_list"

lemma heads_differ [simp]: "rt_timer_list \<noteq> rt_soft_timer_list" "rt_soft_timer_list \<noteq> rt_timer_list"
  by (simp_all add: rt_timer_list_def rt_soft_timer_list_def)

lemma timers_okD:
  assumes "timers_ok s hs ss"
  shows "dlist (rows s) rt_timer_list hs" "dlist (rows s) rt_soft_timer_list ss"
    "distinct hs" "distinct ss" "set hs \<inter> set ss = {}"
    "t \<in> set hs \<Longrightarrow> is_timer t" "t \<in> set ss \<Longrightarrow> is_timer t"
    "is_timer t \<Longrightarrow> t \<notin> set hs \<Longrightarrow> t \<notin> set ss \<Longrightarrow> dlist (rows s) t []"
    "t \<in> set hs \<Longrightarrow> \<not> has_flag RT_TIMER_FLAG_SOFT_TIMER t s"
    "t \<in> set ss \<Longrightarrow> has_flag RT_TIMER_FLAG_SOFT_TIMER t s"
  using assms by (auto simp: timers_ok_def is_timer_def dest: dlistD)

lemma heads_notin:
  assumes "timers_ok s hs ss"
  shows "rt_timer_list \<notin> set hs" "rt_timer_list \<notin> set ss"
    "rt_soft_timer_list \<notin> set hs" "rt_soft_timer_list \<notin> set ss"
  using timers_okD(6,7) [OF assms] by (auto simp: is_timer_def)

lemma timers_okI:
  assumes "dlist (rows s) rt_timer_list hs" "dlist (rows s) rt_soft_timer_list ss"
    and "set hs \<inter> set ss = {}" and "\<And>t. t \<in> set hs \<union> set ss \<Longrightarrow> is_timer t"
    and "\<And>t. is_timer t \<Longrightarrow> t \<notin> set hs \<Longrightarrow> t \<notin> set ss \<Longrightarrow> dlist (rows s) t []"
    and "\<And>t. t \<in> set hs \<Longrightarrow> \<not> has_flag RT_TIMER_FLAG_SOFT_TIMER t s"
    and "\<And>t. t \<in> set ss \<Longrightarrow> has_flag RT_TIMER_FLAG_SOFT_TIMER t s"
  shows "timers_ok s hs ss"
  unfolding timers_ok_def using assms by (fastforce simp: is_timer_def)

text \<open>Only the links and the soft flags matter.\<close>

lemma timers_ok_cong:
  assumes "timers_ok s hs ss" and "rows s' = rows s"
    and "\<And>t. has_flag RT_TIMER_FLAG_SOFT_TIMER t s' = has_flag RT_TIMER_FLAG_SOFT_TIMER t s"
  shows "timers_ok s' hs ss"
  using assms by (simp add: timers_ok_def)

lemma flag_simps [simp]:
  "rows (clear_flag f t s) = rows s" "rows (raise_flag f t s) = rows s"
  "rows (set_deadline t s) = rows s" "rows (log_event e s) = rows s"
  "rows (wake_timer_thread t s) = rows s"
  "rows (timer_remove t s) = rt_list_remove t (rows s)"
  "rows (link_timer r t s) = rt_list_insert_after r t (rows s)"
  "rt_tick (clear_flag f t s) = rt_tick s" "rt_tick (raise_flag f t s) = rt_tick s"
  "rt_tick (set_deadline t s) = rt_tick s" "rt_tick (log_event e s) = rt_tick s"
  "rt_tick (wake_timer_thread t s) = rt_tick s" "rt_tick (timer_remove t s) = rt_tick s"
  "rt_tick (link_timer r t s) = rt_tick s"
  "timer_of (log_event e s) = timer_of s" "timer_of (timer_remove t s) = timer_of s"
  "timer_of (link_timer r t s) = timer_of s" "timer_of (wake_timer_thread t s) = timer_of s"
  by (simp_all add: timer_defs)

lemma timer_of_simps [simp]:
  "init_tick (timer_of (clear_flag f t s) x) = init_tick (timer_of s x)"
  "init_tick (timer_of (raise_flag f t s) x) = init_tick (timer_of s x)"
  "init_tick (timer_of (set_deadline t s) x) = init_tick (timer_of s x)"
  "timeout_tick (timer_of (clear_flag f t s) x) = timeout_tick (timer_of s x)"
  "timeout_tick (timer_of (raise_flag f t s) x) = timeout_tick (timer_of s x)"
  "timeout_tick (timer_of (set_deadline t s) x) =
     (if x = t then rt_tick s + init_tick (timer_of s t) else timeout_tick (timer_of s x))"
  "tm_flag (timer_of (set_deadline t s) x) = tm_flag (timer_of s x)"
  by (auto simp: timer_defs)

lemma flag_disjoint [simp]:
  "RT_TIMER_FLAG_ACTIVATED AND RT_TIMER_FLAG_SOFT_TIMER = 0"
  "RT_TIMER_FLAG_ACTIVATED AND RT_TIMER_FLAG_PERIODIC = 0"
  by (simp_all add: RT_TIMER_FLAG_ACTIVATED_def RT_TIMER_FLAG_SOFT_TIMER_def RT_TIMER_FLAG_PERIODIC_def)

lemma and_not_other: "(f :: u8) AND g = 0 \<Longrightarrow> (a AND NOT f) AND g = a AND g"
  by (simp add: bit_eq_iff bit_simps) blast

lemma or_other: "(f :: u8) AND g = 0 \<Longrightarrow> (a OR f) AND g = a AND g"
  by (simp add: bit.conj_disj_distrib2)

lemma has_flag_other [simp]:
  "f AND g = 0 \<Longrightarrow> has_flag g x (clear_flag f t s) = has_flag g x s"
  "f AND g = 0 \<Longrightarrow> has_flag g x (raise_flag f t s) = has_flag g x s"
  by (simp_all add: has_flag_def clear_flag_def raise_flag_def and_not_other or_other)

lemma has_flag_simps [simp]:
  "has_flag f t (clear_flag f t s) = False"
  "x \<noteq> t \<Longrightarrow> has_flag f x (clear_flag g t s) = has_flag f x s"
  "x \<noteq> t \<Longrightarrow> has_flag f x (raise_flag g t s) = has_flag f x s"
  "has_flag RT_TIMER_FLAG_ACTIVATED t (raise_flag RT_TIMER_FLAG_ACTIVATED t s)"
  "has_flag f x (set_deadline t s) = has_flag f x s"
  "has_flag f x (log_event e s) = has_flag f x s"
  "has_flag f x (timer_remove t s) = has_flag f x s"
  "has_flag f x (link_timer r t s) = has_flag f x s"
  "has_flag f x (wake_timer_thread t s) = has_flag f x s"
  by (auto simp: has_flag_def clear_flag_def raise_flag_def set_deadline_def word_bw_assocs
      RT_TIMER_FLAG_ACTIVATED_def bit.conj_disj_distrib2)

subsection \<open>Removing a timer\<close>

lemma remove1_split: "x \<in> set xs \<Longrightarrow> distinct xs \<Longrightarrow> \<exists>ys zs. xs = ys @ x # zs \<and> remove1 x xs = ys @ zs"
  by (metis in_set_conv_decomp_first remove1_append remove1.simps(2))

lemma dlist_remove1:
  assumes D: "dlist l h xs" and n: "n \<in> set xs"
  shows "dlist (rt_list_remove n l) h (remove1 n xs)" and "dlist (rt_list_remove n l) n []"
proof -
  have "distinct xs" using dlistD [OF D] by simp
  from remove1_split [OF n this] obtain ys zs where "xs = ys @ n # zs" "remove1 n xs = ys @ zs" by blast
  then show "dlist (rt_list_remove n l) h (remove1 n xs)" "dlist (rt_list_remove n l) n []"
    using dlist_remove [of l h ys n zs] D by simp_all
qed

lemma dlist_remove1_other:
  assumes K: "dlist l k zs" and D: "dlist l h xs" and n: "n \<in> set xs"
    and dis: "set (k # zs) \<inter> set (h # xs) = {}"
  shows "dlist (rt_list_remove n l) k zs"
proof -
  obtain as bs where "xs = as @ n # bs" using n by (meson split_list)
  then show ?thesis using remove_other [of l k zs h as n bs] K D dis by simp
qed

text \<open>Removal from either list, or of a timer that is in neither.\<close>

lemma remove_links_ok:
  assumes ok: "timers_ok s hs ss" and t: "is_timer t"
  shows "dlist (rt_list_remove t (rows s)) rt_timer_list (remove1 t hs)"
    and "dlist (rt_list_remove t (rows s)) rt_soft_timer_list (remove1 t ss)"
    and "dlist (rt_list_remove t (rows s)) t []"
    and "is_timer x \<Longrightarrow> x \<notin> set hs \<Longrightarrow> x \<notin> set ss \<Longrightarrow> dlist (rt_list_remove t (rows s)) x []"
proof -
  note D = timers_okD [OF ok]
  have heads: "rt_timer_list \<notin> set ss" "rt_soft_timer_list \<notin> set hs"
    using D(6,7) by (auto simp: is_timer_def)
  consider (hard) "t \<in> set hs" "t \<notin> set ss" | (soft) "t \<in> set ss" "t \<notin> set hs"
    | (none) "t \<notin> set hs" "t \<notin> set ss" using D(5) by blast
  then have "dlist (rt_list_remove t (rows s)) rt_timer_list (remove1 t hs) \<and>
      dlist (rt_list_remove t (rows s)) rt_soft_timer_list (remove1 t ss) \<and>
      dlist (rt_list_remove t (rows s)) t [] \<and>
      (is_timer x \<and> x \<notin> set hs \<and> x \<notin> set ss \<longrightarrow> dlist (rt_list_remove t (rows s)) x [])"
  proof cases
    case hard
    have "dlist (rt_list_remove t (rows s)) rt_soft_timer_list ss"
      using dlist_remove1_other [OF D(2) D(1) hard(1)] D(5) heads by auto
    moreover have "is_timer x \<Longrightarrow> x \<notin> set hs \<Longrightarrow> x \<notin> set ss \<Longrightarrow> dlist (rt_list_remove t (rows s)) x []"
      using dlist_remove1_other [OF D(8) D(1) hard(1)] by (auto simp: is_timer_def)
    ultimately show ?thesis
      using dlist_remove1 [OF D(1) hard(1)] hard by (simp add: remove1_idem)
  next
    case soft
    have "dlist (rt_list_remove t (rows s)) rt_timer_list hs"
      using dlist_remove1_other [OF D(1) D(2) soft(1)] D(5) heads by auto
    moreover have "is_timer x \<Longrightarrow> x \<notin> set hs \<Longrightarrow> x \<notin> set ss \<Longrightarrow> dlist (rt_list_remove t (rows s)) x []"
      using dlist_remove1_other [OF D(8) D(2) soft(1)] by (auto simp: is_timer_def)
    ultimately show ?thesis
      using dlist_remove1 [OF D(2) soft(1)] soft by (simp add: remove1_idem)
  next
    case none
    then have "rt_list_remove t (rows s) = rows s" using D(8) [OF t] remove_alone by blast
    then show ?thesis using D(1,2,8) none t by (simp add: remove1_idem)
  qed
  then show "dlist (rt_list_remove t (rows s)) rt_timer_list (remove1 t hs)"
    "dlist (rt_list_remove t (rows s)) rt_soft_timer_list (remove1 t ss)"
    "dlist (rt_list_remove t (rows s)) t []"
    "is_timer x \<Longrightarrow> x \<notin> set hs \<Longrightarrow> x \<notin> set ss \<Longrightarrow> dlist (rt_list_remove t (rows s)) x []"
    by blast+
qed

lemma timer_remove_ok:
  assumes ok: "timers_ok s hs ss" and t: "is_timer t"
  shows "timers_ok (timer_remove t s) (remove1 t hs) (remove1 t ss)"
proof (rule timers_okI)
  note D = timers_okD [OF ok]
  fix x assume x: "is_timer x" "x \<notin> set (remove1 t hs)" "x \<notin> set (remove1 t ss)"
  show "dlist (rows (timer_remove t s)) x []"
  proof (cases "x = t")
    case True then show ?thesis using remove_links_ok(3) [OF ok t] by simp
  next
    case False
    then have "x \<notin> set hs" "x \<notin> set ss" using x(2,3) by (metis in_set_remove1)+
    then show ?thesis using remove_links_ok(4) [OF ok t] x(1) by simp
  qed
qed (use remove_links_ok [OF ok t] timers_okD [OF ok] in \<open>auto dest: notin_set_remove1 dest!: in_set_remove1 [THEN iffD1, rotated]
       set_mp [OF set_remove1_subset]\<close>)

subsection \<open>Starting a timer\<close>

lemma find_row_seg:
  assumes "seg (rows s) a xs h" and "distinct (a # xs)" and "prev_link (rows s) h = last (a # xs)"
  shows "find_row s h d a = Some (last (a # takeWhile (\<lambda>p. \<not> later_than s d p) xs))"
  using assms
proof (induction xs arbitrary: a)
  case Nil
  then show ?case by (subst find_row.simps) simp
next
  case (Cons x xs)
  have "a \<noteq> last (x # xs)" using Cons.prems(2) last_in_set [of "x # xs"] by (auto simp del: last.simps)
  moreover have "find_row s h d x = Some (last (x # takeWhile (\<lambda>p. \<not> later_than s d p) xs))"
    using Cons.prems by (intro Cons.IH) auto
  ultimately show ?case using Cons.prems by (subst find_row.simps) auto
qed

definition place :: "'a timers_scheme \<Rightarrow> u32 \<Rightarrow> nat \<Rightarrow> nat list \<Rightarrow> nat list" where
  "place s d t xs =
     takeWhile (\<lambda>p. \<not> later_than s d p) xs @ t # dropWhile (\<lambda>p. \<not> later_than s d p) xs"

lemma set_place [simp]: "set (place s d t xs) = insert t (set xs)"
  unfolding place_def by (metis insert_is_Un list.simps(15) set_append sup_left_commute takeWhile_dropWhile_id)

lemma place_cong:
  "(\<And>p. p \<in> set xs \<Longrightarrow> timeout_tick (timer_of s' p) = timeout_tick (timer_of s p)) \<Longrightarrow>
   place s' d t xs = place s d t xs"
  unfolding place_def later_than_def by (intro arg_cong2 [where f = append] arg_cong2 [where f = Cons]) 
    (auto intro: takeWhile_cong dropWhile_cong)

text \<open>Linking a timer that is in no list into the list with head \<open>h\<close>.\<close>

lemma link_timer_list:
  assumes D: "dlist (rows s) h xs" and t: "t \<notin> set (h # xs)"
  obtains r where "find_row s h d h = Some r"
    and "dlist (rows (link_timer r t s)) h (place s d t xs)"
    and "\<And>k zs. dlist (rows s) k zs \<Longrightarrow> set (k # zs) \<inter> set (h # xs) = {} \<Longrightarrow> t \<notin> set (k # zs) \<Longrightarrow>
           dlist (rows (link_timer r t s)) k zs"
proof -
  let ?A = "takeWhile (\<lambda>p. \<not> later_than s d p) xs" and ?B = "dropWhile (\<lambda>p. \<not> later_than s d p) xs"
  have F: "find_row s h d h = Some (last (h # ?A))"
    using D find_row_seg [of s h xs h d] dlist_ends(2) [OF D] by (auto simp: dlist_def)
  have D': "dlist (rows s) h (?A @ ?B)" using D by simp
  have "dlist (rows (link_timer (last (h # ?A)) t s)) h (place s d t xs)"
    unfolding flag_simps place_def by (rule dlist_insert_after [OF D' _ refl]) (use t in simp)
  moreover have "dlist (rows (link_timer (last (h # ?A)) t s)) k zs"
    if "dlist (rows s) k zs" "set (k # zs) \<inter> set (h # xs) = {}" "t \<notin> set (k # zs)" for k zs
    unfolding flag_simps by (rule insert_after_other [OF that(1) D' refl]) (use that t in auto)
  ultimately show ?thesis using F that by blast
qed

text \<open>The fields of a timer after it was started.\<close>

definition started :: "'a timers_scheme \<Rightarrow> nat \<Rightarrow> rt_timer" where
  "started s t =
     (timer_of s t)\<lparr>tm_flag := tm_flag (timer_of s t) OR RT_TIMER_FLAG_ACTIVATED,
                     timeout_tick := rt_tick s + init_tick (timer_of s t)\<rparr>"

definition is_soft :: "'a timers_scheme \<Rightarrow> nat \<Rightarrow> bool" where
  "is_soft s t = has_flag RT_TIMER_FLAG_SOFT_TIMER t s"

lemma clear_or [simp]: "((a :: u8) AND NOT f) OR f = a OR f"
  by (simp add: bit_eq_iff bit_simps) blast

lemma rt_timer_start_ok:
  assumes ok: "timers_ok s hs ss" and t: "is_timer t"
    and short: "init_tick (timer_of s t) < RT_TICK_MAX div 2"
  obtains s' where "rt_timer_start t s = Some (Inr s')"
    and "timers_ok s'
       (if is_soft s t then remove1 t hs
        else place s (rt_tick s + init_tick (timer_of s t)) t (remove1 t hs))
       (if is_soft s t then place s (rt_tick s + init_tick (timer_of s t)) t (remove1 t ss)
        else remove1 t ss)"
    and "timer_of s' = (timer_of s)(t := started s t)" and "rt_tick s' = rt_tick s"
    and "timer_log s' = timer_log s @
       (if is_soft s t \<and> \<not> timer_thread_ready s then [Resume_Timer_Thread, Schedule] else [])"
proof -
  let ?d = "rt_tick s + init_tick (timer_of s t)"
  let ?s = "set_deadline t (clear_flag RT_TIMER_FLAG_ACTIVATED t (timer_remove t s))"
  let ?h = "if is_soft s t then rt_soft_timer_list else rt_timer_list"
  let ?xs = "if is_soft s t then remove1 t ss else remove1 t hs"
  note R = timer_remove_ok [OF ok t]
  have nt: "t \<notin> set (remove1 t hs)" "t \<notin> set (remove1 t ss)"
    using timers_okD(3,4) [OF ok] by (auto simp: set_remove1_eq)
  have same: "place ?s ?d t ys = place s ?d t ys" if "t \<notin> set ys" for ys
    by (rule place_cong) (use that in auto)
  have ok2: "timers_ok ?s (remove1 t hs) (remove1 t ss)"
    using R by (rule timers_ok_cong) simp_all
  note D = timers_okD [OF ok2]
  have L: "dlist (rows ?s) ?h ?xs" using D(1,2) by simp
  have th: "t \<notin> set (?h # ?xs)" using nt t by (auto simp: is_timer_def)
  obtain r where r: "find_row ?s ?h ?d ?h = Some r"
    and P: "dlist (rows (link_timer r t ?s)) ?h (place ?s ?d t ?xs)"
    and O: "\<And>k zs. dlist (rows ?s) k zs \<Longrightarrow> set (k # zs) \<inter> set (?h # ?xs) = {} \<Longrightarrow> t \<notin> set (k # zs) \<Longrightarrow>
           dlist (rows (link_timer r t ?s)) k zs"
    using link_timer_list [OF L th, of ?d] by metis
  let ?e = "wake_timer_thread t (raise_flag RT_TIMER_FLAG_ACTIVATED t (link_timer r t ?s))"
  have e: "rt_timer_start t s = Some (Inr ?e)"
    using short r by (simp add: rt_timer_start_def is_soft_def)
  have soft: "has_flag RT_TIMER_FLAG_SOFT_TIMER x ?e = has_flag RT_TIMER_FLAG_SOFT_TIMER x s" for x by simp
  have other: "dlist (rows ?e) (if is_soft s t then rt_timer_list else rt_soft_timer_list)
      (if is_soft s t then remove1 t hs else remove1 t ss)"
    unfolding flag_simps(2,5) using D(1,2,5) heads_notin [OF ok2] nt t
    by (intro O) (auto simp: is_timer_def)
  have alone: "dlist (rows ?e) x []" if "is_timer x" "x \<noteq> t" "x \<notin> set (remove1 t hs)" "x \<notin> set (remove1 t ss)" for x
    unfolding flag_simps(2,5) using D(8) [OF that(1,3,4)] that by (intro O) (auto simp: is_timer_def)
  have "timers_ok ?e (if is_soft s t then remove1 t hs else place ?s ?d t (remove1 t hs))
     (if is_soft s t then place ?s ?d t (remove1 t ss) else remove1 t ss)"
  proof (rule timers_okI)
    show "dlist (rows ?e) rt_timer_list
       (if is_soft s t then remove1 t hs else place ?s ?d t (remove1 t hs))"
      using P other by (cases "is_soft s t") simp_all
    show "dlist (rows ?e) rt_soft_timer_list
       (if is_soft s t then place ?s ?d t (remove1 t ss) else remove1 t ss)"
      using P other by (cases "is_soft s t") simp_all
  qed (use D(5-7,9,10) nt t alone in \<open>auto simp: is_soft_def split: if_splits\<close>)
  then have "timers_ok ?e (if is_soft s t then remove1 t hs else place s ?d t (remove1 t hs))
     (if is_soft s t then place s ?d t (remove1 t ss) else remove1 t ss)"
    unfolding same [OF nt(1)] same [OF nt(2)] .
  moreover have "timer_of ?e = (timer_of s)(t := started s t)"
    by (auto simp: fun_eq_iff started_def raise_flag_def set_deadline_def clear_flag_def)
  moreover have "timer_log ?e = timer_log s @
       (if is_soft s t \<and> \<not> timer_thread_ready s then [Resume_Timer_Thread, Schedule] else [])"
    by (simp add: wake_timer_thread_def is_soft_def)
       (simp add: log_event_def raise_flag_def link_timer_def set_deadline_def clear_flag_def timer_remove_def)
  ultimately show ?thesis using e that by simp
qed

text \<open>Starting and stopping leave the rest of an extended state alone.\<close>

lemma more_simps [simp]:
  "timers.more (clear_flag f t s) = timers.more s" "timers.more (raise_flag f t s) = timers.more s"
  "timers.more (set_deadline t s) = timers.more s" "timers.more (log_event e s) = timers.more s"
  "timers.more (timer_remove t s) = timers.more s" "timers.more (link_timer r t s) = timers.more s"
  "timers.more (wake_timer_thread t s) = timers.more s" "timers.more (snd (rt_timer_stop t s)) = timers.more s"
  "timers.more (snd (rt_timer_control t c a s)) = timers.more s"
  by (simp_all add: timer_defs rt_timer_stop_def rt_timer_control_def)

lemma rt_timer_start_more: "rt_timer_start t s = returns s' \<Longrightarrow> timers.more s' = timers.more s"
  by (auto simp: rt_timer_start_def Let_def split: if_splits option.splits)

lemma rearm_more: "rearm t s = returns s' \<Longrightarrow> timers.more s' = timers.more s"
  by (auto simp: rearm_def dest: rt_timer_start_more split: if_splits)

end
