(* ===== verification/TimerOrder.thy ===== *)
theory TimerOrder
  imports TimerLaws
begin

text \<open>
  Deadlines relative to the tick, as signed integers, so that the wrap-around of the tick
  disappears: the comparisons of the code are comparisons of these integers as long as no timer is
  more than three ticks late.
\<close>

subsection \<open>Ticks until the deadline\<close>

definition due :: "'a timers_scheme \<Rightarrow> nat \<Rightarrow> int" where
  "due s t = sint (timeout_tick (timer_of s t) - rt_tick s)"

definition period :: "'a timers_scheme \<Rightarrow> nat \<Rightarrow> int" where
  "period s t = uint (init_tick (timer_of s t))"

text \<open>At most three ticks late, and not further ahead than the longest delay.\<close>

definition in_window :: "'a timers_scheme \<Rightarrow> nat \<Rightarrow> bool" where
  "in_window s t \<longleftrightarrow> - 3 \<le> due s t \<and> due s t \<le> 2 ^ 31 - 2"

lemma half_tick: "RT_TICK_MAX div 2 = (0x7FFFFFFF :: u32)"
  by (simp add: RT_TICK_MAX_def)

lemma of_int_word_less:
  assumes "- (2 ^ 31 + 1) \<le> d" and "d \<le> 2 ^ 31 - 2"
  shows "(of_int d :: u32) < 0x7FFFFFFF \<longleftrightarrow> 0 \<le> d" and "(of_int d :: u32) = 0 \<longleftrightarrow> d = 0"
proof -
  have u: "uint (of_int d :: u32) = (if 0 \<le> d then d else d + 2 ^ 32)"
  proof (cases "0 \<le> d")
    case True
    then show ?thesis using assms by (simp add: uint_word_of_int)
  next
    case False
    have "d mod 2 ^ 32 = (d + 2 ^ 32) mod 2 ^ 32" by simp
    also have "\<dots> = d + 2 ^ 32" by (rule mod_pos_pos_trivial) (use assms False in auto)
    finally show ?thesis using False by (simp add: uint_word_of_int)
  qed
  show "(of_int d :: u32) < 0x7FFFFFFF \<longleftrightarrow> 0 \<le> d"
    unfolding word_less_def u using assms by auto
  show "(of_int d :: u32) = 0 \<longleftrightarrow> d = 0"
    unfolding word_uint_eq_iff u using assms by auto
qed

lemma timeout_due: "timeout_tick (timer_of s t) - rt_tick s = of_int (due s t)"
  by (simp add: due_def)

lemma expired_iff:
  assumes "in_window s t"
  shows "expired (rt_tick s) t s \<longleftrightarrow> due s t \<le> 0"
proof -
  have "rt_tick s - timeout_tick (timer_of s t) = of_int (- due s t)"
    using timeout_due [of s t] by (metis minus_diff_eq of_int_minus)
  then show ?thesis
    using of_int_word_less(1) [of "- due s t"] assms by (simp add: expired_def half_tick in_window_def)
qed

lemma later_iff:
  assumes "in_window s p" and "j = period s t" and "j < 2 ^ 31 - 1"
  shows "later_than s (rt_tick s + init_tick (timer_of s t)) p \<longleftrightarrow> j < due s p"
proof -
  have "0 \<le> j" by (simp add: assms(2) period_def)
  have "timeout_tick (timer_of s p) - (rt_tick s + init_tick (timer_of s t)) = of_int (due s p) - of_int j"
    using timeout_due [of s p] by (simp add: assms(2) period_def algebra_simps)
  also have "\<dots> = of_int (due s p - j)" by simp
  finally show ?thesis
    using of_int_word_less [of "due s p - j"] assms \<open>0 \<le> j\<close>
    by (auto simp: later_than_def half_tick in_window_def)
qed

lemma short_iff: "init_tick (timer_of s t) < RT_TICK_MAX div 2 \<longleftrightarrow> period s t < 2 ^ 31 - 1"
  by (simp add: half_tick period_def word_less_def)

lemma due_started:
  assumes "period s t < 2 ^ 31 - 1" and "timer_of s' = (timer_of s)(t := started s t)" and "rt_tick s' = rt_tick s"
  shows "due s' x = (if x = t then period s t else due s x)"
proof -
  have "sint (init_tick (timer_of s t)) = period s t"
    using assms(1) signed_take_bit_int_eq_self [of 31 "period s t"]
    by (simp add: period_def sint_uint order_trans [OF _ uint_ge_0])
  then show ?thesis using assms(2,3) by (simp add: due_def started_def)
qed

text \<open>Starting a hard timer, with the result as one conjunction.\<close>

lemma start_hard:
  assumes "timers_ok s hs ss" and "is_timer t" and "\<not> is_soft s t" and "t \<notin> set ss"
    and "period s t < 2 ^ 31 - 1"
  shows "\<exists>s'. rt_timer_start t s = Some (Inr s') \<and>
     timers_ok s' (place s (rt_tick s + init_tick (timer_of s t)) t (remove1 t hs)) ss \<and>
     timer_of s' = (timer_of s)(t := started s t) \<and> rt_tick s' = rt_tick s \<and> timer_log s' = timer_log s"
proof -
  have "init_tick (timer_of s t) < RT_TICK_MAX div 2" using assms(5) by (simp add: short_iff)
  then show ?thesis
    by (rule rt_timer_start_ok [OF assms(1,2)]) (use assms(3,4) in \<open>simp add: remove1_idem\<close>)
qed

subsection \<open>Insertion by deadline\<close>

text \<open>After every timer that is due no later, before those that are due later.\<close>

definition insert_due :: "(nat \<Rightarrow> int) \<Rightarrow> int \<Rightarrow> nat \<Rightarrow> nat list \<Rightarrow> nat list" where
  "insert_due k j t xs = filter (\<lambda>p. k p \<le> j) xs @ t # filter (\<lambda>p. j < k p) xs"

lemma sorted_split:
  assumes "sorted (map k xs)"
  shows "takeWhile (\<lambda>p. k p \<le> (j :: int)) xs = filter (\<lambda>p. k p \<le> j) xs"
    and "dropWhile (\<lambda>p. k p \<le> j) xs = filter (\<lambda>p. j < k p) xs"
proof -
  have "takeWhile (\<lambda>p. k p \<le> j) xs = filter (\<lambda>p. k p \<le> j) xs \<and>
        dropWhile (\<lambda>p. k p \<le> j) xs = filter (\<lambda>p. j < k p) xs"
    using assms
  proof (induction xs)
    case (Cons x xs)
    show ?case
    proof (cases "k x \<le> j")
      case False
      then have "\<forall>p \<in> set xs. j < k p" using Cons.prems by fastforce
      then have "filter (\<lambda>p. k p \<le> j) xs = []" "filter (\<lambda>p. j < k p) xs = xs"
        by (fastforce simp: filter_id_conv filter_empty_conv)+
      then show ?thesis using False by simp
    qed (use Cons in auto)
  qed simp
  then show "takeWhile (\<lambda>p. k p \<le> j) xs = filter (\<lambda>p. k p \<le> j) xs"
    "dropWhile (\<lambda>p. k p \<le> j) xs = filter (\<lambda>p. j < k p) xs" by simp_all
qed

lemma place_insert_due:
  assumes "sorted (map (due s) xs)" and "\<And>p. p \<in> set xs \<Longrightarrow> in_window s p" and "period s t < 2 ^ 31 - 1"
  shows "place s (rt_tick s + init_tick (timer_of s t)) t xs = insert_due (due s) (period s t) t xs"
proof -
  have "takeWhile (\<lambda>p. \<not> later_than s (rt_tick s + init_tick (timer_of s t)) p) xs =
      takeWhile (\<lambda>p. due s p \<le> period s t) xs"
    using later_iff [OF assms(2) refl assms(3)] by (intro takeWhile_cong) auto
  moreover have "dropWhile (\<lambda>p. \<not> later_than s (rt_tick s + init_tick (timer_of s t)) p) xs =
      dropWhile (\<lambda>p. due s p \<le> period s t) xs"
    using later_iff [OF assms(2) refl assms(3)] by (intro dropWhile_cong) auto
  ultimately show ?thesis by (simp add: place_def insert_due_def sorted_split [OF assms(1)])
qed

lemma set_insert_due [simp]: "set (insert_due k j t xs) = insert t (set xs)"
  by (auto simp: insert_due_def)

lemma sorted_insert_due:
  assumes "sorted (map k xs)" and "t \<notin> set xs" and "\<And>p. k' p = (if p = t then j else k p)"
  shows "sorted (map k' (insert_due k j t xs))"
proof -
  have f: "map k' (filter Q xs) = map k (filter Q xs)" for Q
    using assms(2,3) by auto
  have "sorted (map k (filter Q xs))" for Q using assms(1) by (rule sorted_filter)
  then show ?thesis
    using assms(2) by (auto simp: insert_due_def f assms(3) sorted_append)
qed

subsection \<open>The check, with timeout functions that leave the timers alone\<close>

abbreviation quiet :: "nat \<Rightarrow> 'a timers_scheme \<Rightarrow> 'a timers_scheme run" where "quiet \<equiv> \<lambda>t s. returns s"

definition is_periodic :: "'a timers_scheme \<Rightarrow> nat \<Rightarrow> bool" where
  "is_periodic s t = has_flag RT_TIMER_FLAG_PERIODIC t s"

definition is_active :: "'a timers_scheme \<Rightarrow> nat \<Rightarrow> bool" where
  "is_active s t = has_flag RT_TIMER_FLAG_ACTIVATED t s"

text \<open>The hard timers are ordered, in the window, active, and can be started again.\<close>

definition armed :: "'a timers_scheme \<Rightarrow> nat list \<Rightarrow> nat list \<Rightarrow> bool" where
  "armed s hs ss \<longleftrightarrow>
     timers_ok s hs ss \<and> sorted (map (due s) hs) \<and>
     (\<forall>t \<in> set hs. in_window s t \<and> is_active s t \<and>
        (is_periodic s t \<longrightarrow> 0 < period s t \<and> period s t < 2 ^ 31 - 1))"

lemma armedD:
  assumes "armed s hs ss"
  shows "timers_ok s hs ss" "sorted (map (due s) hs)"
    "t \<in> set hs \<Longrightarrow> in_window s t" "t \<in> set hs \<Longrightarrow> is_active s t"
    "t \<in> set hs \<Longrightarrow> is_periodic s t \<Longrightarrow> 0 < period s t"
    "t \<in> set hs \<Longrightarrow> is_periodic s t \<Longrightarrow> period s t < 2 ^ 31 - 1"
  using assms by (auto simp: armed_def)

lemma flags_other [simp]:
  "is_soft (log_event e s) = is_soft s" "is_soft (timer_remove t s) = is_soft s"
  "is_soft (clear_flag RT_TIMER_FLAG_ACTIVATED t s) = is_soft s"
  "is_periodic (log_event e s) = is_periodic s" "is_periodic (timer_remove t s) = is_periodic s"
  "is_periodic (clear_flag RT_TIMER_FLAG_ACTIVATED t s) = is_periodic s"
  "is_active (log_event e s) = is_active s" "is_active (timer_remove t s) = is_active s"
  "period (log_event e s) = period s" "period (timer_remove t s) = period s"
  "period (clear_flag f t s) = period s"
  "due (log_event e s) = due s" "due (timer_remove t s) = due s"
  "due (clear_flag f t s) = due s"
  by (simp_all add: is_soft_def is_periodic_def is_active_def period_def due_def fun_eq_iff)

lemma in_window_cong: "due s' t = due s t \<Longrightarrow> in_window s' t = in_window s t"
  by (simp add: in_window_def)

lemma started_flags:
  assumes "timer_of s' = (timer_of s)(t := started s t)"
  shows "is_periodic s' = is_periodic s" "period s' = period s"
    "is_active s' x = (x = t \<or> is_active s x)"
proof -
  have "(tm_flag (timer_of s t) OR RT_TIMER_FLAG_ACTIVATED) AND RT_TIMER_FLAG_ACTIVATED \<noteq> 0"
    by (simp add: bit.conj_disj_distrib2 RT_TIMER_FLAG_ACTIVATED_def)
  then show "is_active s' x = (x = t \<or> is_active s x)"
    using assms by (auto simp: is_active_def has_flag_def started_def)
qed (use assms in \<open>auto simp: is_periodic_def has_flag_def period_def started_def or_other fun_eq_iff\<close>)

text \<open>Removing the first timer and dropping its flag.\<close>

lemma armed_pop:
  assumes "armed s (x # xs) ss"
  shows "armed (clear_flag RT_TIMER_FLAG_ACTIVATED x (log_event e (timer_remove x s))) xs ss"
    and "x \<notin> set xs" and "x \<notin> set ss" and "is_timer x"
proof -
  note A = armedD [OF assms]
  note D = timers_okD [OF A(1)]
  show x: "x \<notin> set xs" "x \<notin> set ss" "is_timer x" using D by auto
  have ss: "remove1 x ss = ss" using x by (simp add: remove1_idem)
  have "timers_ok (timer_remove x s) xs ss" using timer_remove_ok [OF A(1) x(3)] ss by simp
  then have ok: "timers_ok (clear_flag RT_TIMER_FLAG_ACTIVATED x (log_event e (timer_remove x s))) xs ss"
    by (rule timers_ok_cong) simp_all
  have act: "is_active (clear_flag RT_TIMER_FLAG_ACTIVATED x (log_event e (timer_remove x s))) t" if "t \<in> set xs" for t
  proof -
    have "t \<noteq> x" using that x by auto
    then show ?thesis using A(4) [of t] that by (simp add: is_active_def)
  qed
  show "armed (clear_flag RT_TIMER_FLAG_ACTIVATED x (log_event e (timer_remove x s))) xs ss"
    unfolding armed_def using ok A(2,3,5,6) act by (auto simp: in_window_def)
qed

lemma period_nonneg: "0 \<le> period s t"
  by (simp add: period_def)

lemma armed_start:
  assumes A: "armed s xs ss" and x: "is_timer x" "x \<notin> set xs" "x \<notin> set ss" "\<not> is_soft s x"
    and P: "is_periodic s x \<longrightarrow> 0 < period s x" "period s x < 2 ^ 31 - 1"
  obtains s' where "rt_timer_start x s = Some (Inr s')"
    and "armed s' (insert_due (due s) (period s x) x xs) ss"
    and "timer_of s' = (timer_of s)(x := started s x)" and "rt_tick s' = rt_tick s"
    and "timer_log s' = timer_log s"
proof -
  note D = armedD [OF A]
  obtain s' where s': "rt_timer_start x s = Some (Inr s')"
    and ok: "timers_ok s' (place s (rt_tick s + init_tick (timer_of s x)) x xs) ss"
    and f: "timer_of s' = (timer_of s)(x := started s x)" "rt_tick s' = rt_tick s"
      "timer_log s' = timer_log s"
    using start_hard [OF D(1) x(1,4,3) P(2)] remove1_idem [OF x(2)] by auto
  note due = due_started [OF P(2) f(1,2)]
  have "armed s' (insert_due (due s) (period s x) x xs) ss"
    unfolding armed_def
  proof (intro conjI ballI)
    show "timers_ok s' (insert_due (due s) (period s x) x xs) ss"
      using ok place_insert_due [OF D(2,3) P(2)] by simp
    show "sorted (map (due s') (insert_due (due s) (period s x) x xs))"
      using D(2) x(2) due by (rule sorted_insert_due)
  qed (use D(3-6) P x(2) in \<open>auto simp: started_flags [OF f(1)] in_window_def due order_trans [OF _ period_nonneg]\<close>)
  with s' f that show ?thesis by blast
qed

text \<open>A timer is taken out of its list; the activation flag of a timer that is in none is free.\<close>

lemma armed_detach:
  assumes A: "armed s hs ss" and x: "is_timer x" "x \<notin> set ss"
  shows "armed (timer_remove x s) (remove1 x hs) ss"
proof -
  note D = armedD [OF A]
  let ?s = "timer_remove x s"
  have "timers_ok ?s (remove1 x hs) ss"
    using timer_remove_ok [OF D(1) x(1)] x(2) by (simp add: remove1_idem)
  moreover have "set (remove1 x hs) \<subseteq> set hs" by (rule set_remove1_subset)
  moreover have "sorted (map (due s) (remove1 x hs))"
    unfolding distinct_remove1_removeAll [OF timers_okD(3) [OF D(1)]] removeAll_filter_not_eq
    using D(2) by (rule sorted_filter)
  moreover have "due ?s = due s" "period ?s = period s" "is_periodic ?s = is_periodic s" "is_active ?s = is_active s"
    by simp_all
  ultimately show ?thesis
    unfolding armed_def in_window_def using D(3-6) [unfolded in_window_def] by (metis subsetD)
qed

lemma armed_deactivate:
  assumes A: "armed s hs ss" and x: "x \<notin> set hs"
  shows "armed (clear_flag RT_TIMER_FLAG_ACTIVATED x s) hs ss"
proof -
  note D = armedD [OF A]
  let ?s = "clear_flag RT_TIMER_FLAG_ACTIVATED x s"
  have "timers_ok ?s hs ss" using D(1) by (rule timers_ok_cong) simp_all
  moreover have "is_active ?s t = is_active s t" if "t \<in> set hs" for t
  proof -
    have "t \<noteq> x" using that x by auto
    then show ?thesis by (simp add: is_active_def)
  qed
  moreover have "due ?s = due s" "period ?s = period s" "is_periodic ?s = is_periodic s" by simp_all
  ultimately show ?thesis using A unfolding armed_def in_window_def by metis
qed

lemma armed_remove:
  assumes A: "armed s hs ss" and x: "is_timer x" "x \<notin> set ss"
  shows "armed (clear_flag RT_TIMER_FLAG_ACTIVATED x (timer_remove x s)) (remove1 x hs) ss"
  using armed_detach [OF A x] timers_okD(3) [OF armedD(1) [OF A]] by (intro armed_deactivate) simp_all

text \<open>One expired timer: fired, and started again when it is periodic.\<close>

definition next_due :: "'a timers_scheme \<Rightarrow> nat \<Rightarrow> int" where
  "next_due s t = (if is_periodic s t then period s t else due s t)"

lemma fire_step:
  assumes A: "armed s (x # xs) ss"
  obtains s' hs' where "rearm x (log_event (Fired x) (timer_remove x s)) = Some (Inr s')"
    and "armed s' hs' ss" and "set hs' = set xs \<union> {t. t = x \<and> is_periodic s t}"
    and "filter (\<lambda>t. due s' t \<le> 0) hs' = filter (\<lambda>t. due s t \<le> 0) xs"
    and "rt_tick s' = rt_tick s" and "timer_log s' = timer_log s @ [Fired x]"
    and "\<And>t. due s' t = (if t = x \<and> is_periodic s x then period s x else due s t)"
    and "is_periodic s' = is_periodic s" and "period s' = period s" and "is_soft s' = is_soft s"
    and "\<And>t. is_active s' t = (if t = x then is_periodic s x else is_active s t)"
proof -
  let ?t = "log_event (Fired x) (timer_remove x s)"
  let ?s = "clear_flag RT_TIMER_FLAG_ACTIVATED x ?t"
  note D = armedD [OF A]
  note pop = armed_pop(1) [OF A, of "Fired x"] armed_pop(2-4) [OF A]
  have act: "has_flag RT_TIMER_FLAG_ACTIVATED x s" using D(4) [of x] by (simp add: is_active_def)
  have log: "timer_log ?s = timer_log s @ [Fired x]"
    by (simp add: clear_flag_def log_event_def timer_remove_def)
  show ?thesis
  proof (cases "is_periodic s x")
    case False
    then have "rearm x ?t = Some (Inr ?s)" by (simp add: rearm_def is_periodic_def)
    moreover have "is_active ?s t = (if t = x then is_periodic s x else is_active s t)" for t
      using False by (simp add: is_active_def)
    ultimately show ?thesis
      using False pop log that [of ?s xs] by auto
  next
    case True
    have P: "0 < period s x" "period s x < 2 ^ 31 - 1" using D(5,6) [of x] True by simp_all
    have soft: "\<not> is_soft s x" using timers_okD(9) [OF D(1), of x] by (simp add: is_soft_def)
    obtain s' where s': "rt_timer_start x ?s = Some (Inr s')"
      and A': "armed s' (insert_due (due s) (period s x) x xs) ss"
      and f: "timer_of s' = (timer_of ?s)(x := started ?s x)" "rt_tick s' = rt_tick ?s"
        "timer_log s' = timer_log ?s"
      using armed_start [OF pop(1) pop(4) pop(2,3)] soft P by auto
    have due: "due s' t = (if t = x then period s x else due s t)" for t
      using due_started [OF _ f(1,2)] P by simp
    have "rearm x ?t = Some (Inr s')" using True act s' by (simp add: rearm_def is_periodic_def)
    moreover have "filter (\<lambda>t. due s' t \<le> 0) (insert_due (due s) (period s x) x xs) =
        filter (\<lambda>t. due s t \<le> 0) xs"
      using P pop(2) by (auto simp: insert_due_def due filter_empty_conv intro!: filter_cong)
    moreover have "is_soft s' = is_soft s"
    proof
      fix t show "is_soft s' t = is_soft s t"
        using f(1) by (simp add: is_soft_def has_flag_def started_def or_other)
          (simp add: clear_flag_def log_event_def timer_remove_def and_not_other)
    qed
    moreover have "is_active s' t = (if t = x then is_periodic s x else is_active s t)" for t
      using True started_flags(3) [OF f(1), of t] by (cases "t = x") (simp_all add: is_active_def)
    ultimately show ?thesis
      using that [OF _ A'] True f(2,3) log due started_flags(1,2) [OF f(1)] by auto
  qed
qed

text \<open>
  Timeout functions that leave the timers alone act on the rest of the state only: \<open>f t\<close> is what the
  function of timer \<open>t\<close> does there. The loop fires the expired timers in order, each once, and
  leaves the others and the periodic ones, none of them expired.
\<close>

definition rest_only :: "(nat \<Rightarrow> 'a timers_scheme \<Rightarrow> 'a timers_scheme run) \<Rightarrow> (nat \<Rightarrow> 'a \<Rightarrow> 'a run) \<Rightarrow> bool" where
  "rest_only cb f \<longleftrightarrow>
     (\<forall>t s. cb t s = andthen (f t (timers.more s)) (\<lambda>m. returns (timers.extend (timers.truncate s) m)))"

fun fold_run :: "(nat \<Rightarrow> 'a \<Rightarrow> 'a run) \<Rightarrow> nat list \<Rightarrow> 'a \<Rightarrow> 'a run" where
  "fold_run f [] m = returns m"
| "fold_run f (t # ts) m = andthen (f t m) (fold_run f ts)"

definition with_rest :: "'a \<Rightarrow> 'a timers_scheme \<Rightarrow> 'a timers_scheme" where
  "with_rest m s = timers.extend (timers.truncate s) m"

lemma with_rest_simps [simp]:
  "rows (with_rest m s) = rows s" "timer_of (with_rest m s) = timer_of s"
  "rt_tick (with_rest m s) = rt_tick s" "timer_log (with_rest m s) = timer_log s"
  "timers.more (with_rest m s) = m" "has_flag f t (with_rest m s) = has_flag f t s"
  by (simp_all add: with_rest_def timers.extend_def timers.truncate_def has_flag_def)

lemma with_rest_views [simp]:
  "due (with_rest m s) = due s" "period (with_rest m s) = period s"
  "is_periodic (with_rest m s) = is_periodic s" "is_active (with_rest m s) = is_active s"
  "in_window (with_rest m s) = in_window s" "timers_ok (with_rest m s) = timers_ok s"
  by (simp_all add: fun_eq_iff due_def period_def is_periodic_def is_active_def in_window_def
      timers_ok_def)

lemma with_rest_soft [simp]: "is_soft (with_rest m s) = is_soft s"
  by (simp add: fun_eq_iff is_soft_def)

lemma with_rest_armed [simp]: "armed (with_rest m s) = armed s"
  by (simp add: fun_eq_iff armed_def)

text \<open>
  The loop fires the expired timers in order, each once, and leaves the others and the periodic
  ones, none of them expired.
\<close>

lemma rest_onlyD: "rest_only cb f \<Longrightarrow> cb t s = andthen (f t (timers.more s)) (\<lambda>m. returns (with_rest m s))"
  by (simp add: rest_only_def with_rest_def)

lemma with_rest_fired:
  "with_rest m (log_event e (timer_remove x s)) = log_event e (timer_remove x (with_rest m s))"
  by (simp add: with_rest_def timers.extend_def timers.truncate_def timer_defs)

lemma check_loop_rest:
  assumes cb: "rest_only cb f"
  shows "armed s hs ss \<Longrightarrow>
      fold_run f (filter (\<lambda>t. due s t \<le> 0) hs) (timers.more s) = returns m \<Longrightarrow>
    \<exists>s' hs'. check_loop cb (rt_tick s) s = returns s' \<and> armed s' hs' ss \<and>
      rt_tick s' = rt_tick s \<and>
      timer_log s' = timer_log s @ map Fired (filter (\<lambda>t. due s t \<le> 0) hs) \<and>
      set hs' = {t \<in> set hs. 0 < due s t \<or> is_periodic s t} \<and>
      (\<forall>t \<in> set hs'. due s' t = (if due s t \<le> 0 then period s t else due s t)) \<and>
      timers.more s' = m \<and> is_soft s' = is_soft s \<and> is_periodic s' = is_periodic s \<and>
      (\<forall>t. is_active s' t = (if t \<in> set hs \<and> due s t \<le> 0 then is_periodic s t else is_active s t))"
proof (induction "length (filter (\<lambda>t. due s t \<le> 0) hs)" arbitrary: s hs rule: less_induct)
  case less
  note D = armedD [OF less.prems(1)]
  note L = timers_okD [OF D(1)]
  show ?case
  proof (cases "hs = [] \<or> 0 < due s (hd hs)")
    case True
    then have all: "\<forall>t \<in> set hs. 0 < due s t"
      using D(2) by (cases hs) fastforce+
    have "rt_list_isempty rt_timer_list (rows s) \<or> \<not> expired (rt_tick s) (next_link (rows s) rt_timer_list) s"
      using isempty_iff [OF L(1)] dlist_ends(1) [OF L(1)] expired_iff [OF D(3)] all
      by (cases hs) force+
    then have "check_loop cb (rt_tick s) s = returns s"
      by (subst check_loop.simps) auto
    moreover have "filter (\<lambda>t. due s t \<le> 0) hs = []" using all by (fastforce simp: filter_empty_conv)
    ultimately show ?thesis
      using less.prems all by (intro exI [of _ s] exI [of _ hs]) (fastforce simp: not_le)
  next
    case False
    then obtain x xs where hs: "hs = x # xs" and x: "due s x \<le> 0" by (cases hs) auto
    from less.prems(2) x obtain m1 where m1: "f x (timers.more s) = returns m1"
      and rest: "fold_run f (filter (\<lambda>t. due s t \<le> 0) xs) m1 = returns m"
      by (auto simp: hs elim: andthen_retE)
    let ?s = "with_rest m1 s"
    have "armed ?s (x # xs) ss" using less.prems(1) by (simp add: hs)
    from fire_step [OF this, unfolded with_rest_views with_rest_simps]
    obtain s1 hs1 where s1: "rearm x (log_event (Fired x) (timer_remove x ?s)) = returns s1"
      and A1: "armed s1 hs1 ss" and set1: "set hs1 = set xs \<union> {t. t = x \<and> is_periodic s t}"
      and fil: "filter (\<lambda>t. due s1 t \<le> 0) hs1 = filter (\<lambda>t. due s t \<le> 0) xs"
      and tick: "rt_tick s1 = rt_tick s" and log: "timer_log s1 = timer_log s @ [Fired x]"
      and due1: "\<And>t. due s1 t = (if t = x \<and> is_periodic s x then period s x else due s t)"
      and per: "is_periodic s1 = is_periodic s" "period s1 = period s"
      and soft: "is_soft s1 = is_soft s"
      and act: "\<And>t. is_active s1 t = (if t = x then is_periodic s x else is_active s t)"
      by (auto simp: with_rest_soft)
    have more: "timers.more s1 = m1" using rearm_more [OF s1] by simp
    have nx: "next_link (rows s) rt_timer_list = x" using dlist_ends(1) [OF L(1)] hs by simp
    have ex: "expired (rt_tick s) x s" using expired_iff [OF D(3)] x hs by simp
    have fire: "cb x (log_event (Fired x) (timer_remove x s)) = returns (log_event (Fired x) (timer_remove x ?s))"
      using m1 by (simp add: rest_onlyD [OF cb] with_rest_fired)
    have "\<not> rt_list_isempty rt_timer_list (rows s)" using isempty_iff [OF L(1)] hs by simp
    then have step: "check_loop cb (rt_tick s) s = check_loop cb (rt_tick s1) s1"
      by (subst check_loop.simps) (simp add: nx ex fire s1 tick)
    obtain s' hs' where IH: "check_loop cb (rt_tick s1) s1 = returns s'" "armed s' hs' ss"
      "rt_tick s' = rt_tick s1"
      "timer_log s' = timer_log s1 @ map Fired (filter (\<lambda>t. due s1 t \<le> 0) hs1)"
      "set hs' = {t \<in> set hs1. 0 < due s1 t \<or> is_periodic s1 t}"
      "\<And>t. t \<in> set hs' \<Longrightarrow> due s' t = (if due s1 t \<le> 0 then period s1 t else due s1 t)"
      "timers.more s' = m" "is_soft s' = is_soft s1" "is_periodic s' = is_periodic s1"
      "\<And>t. is_active s' t = (if t \<in> set hs1 \<and> due s1 t \<le> 0 then is_periodic s1 t else is_active s1 t)"
      using less.hyps [OF _ A1] rest more fil hs x by auto
    have xn: "x \<notin> set xs" using L(3) hs by simp
    have P: "is_periodic s x \<Longrightarrow> 0 < period s x" using D(5) [of x] hs by simp
    have "set hs' = {t \<in> set hs. 0 < due s t \<or> is_periodic s t}"
      using IH(5) set1 due1 per x xn P hs by auto
    moreover have "\<forall>t \<in> set hs'. due s' t = (if due s t \<le> 0 then period s t else due s t)"
      using IH(5,6) set1 due1 per x xn P hs by auto
    moreover have "is_active s' t = (if t \<in> set hs \<and> due s t \<le> 0 then is_periodic s t else is_active s t)" for t
      using IH(10) [of t] set1 due1 [of t] per act [of t] x xn P hs by auto
    ultimately show ?thesis
      using IH(1-4,7-9) step tick log fil hs x soft per(1) by (intro exI [of _ s'] exI [of _ hs']) simp
  qed
qed

lemma fold_run_ret: "fold_run (\<lambda>t. returns) ts m = returns m"
  by (induction ts) simp_all

lemma with_rest_id [simp]: "with_rest (timers.more s) s = s"
  by (simp add: with_rest_def timers.extend_def timers.truncate_def)

lemma quiet_rest_only: "rest_only quiet (\<lambda>t. returns)"
  by (simp add: rest_only_def with_rest_def [symmetric])

lemma check_loop_quiet:
  assumes "armed s hs ss"
  shows "\<exists>s' hs'. check_loop quiet (rt_tick s) s = returns s' \<and> armed s' hs' ss \<and>
      rt_tick s' = rt_tick s \<and>
      timer_log s' = timer_log s @ map Fired (filter (\<lambda>t. due s t \<le> 0) hs) \<and>
      set hs' = {t \<in> set hs. 0 < due s t \<or> is_periodic s t} \<and>
      (\<forall>t \<in> set hs'. due s' t = (if due s t \<le> 0 then period s t else due s t))"
  using check_loop_rest [OF quiet_rest_only assms fold_run_ret] by blast

subsection \<open>Loops that do not end\<close>

text \<open>
  A loop is caught in a set of states when every round fires a timer, starts or drops it without a
  failed assertion, and ends in the set again.
\<close>

lemma check_loop_diverges:
  assumes step: "\<And>c s. B c s \<Longrightarrow> \<exists>x r s'. next_link (rows s) rt_timer_list = x \<and> x \<noteq> rt_timer_list \<and> expired c x s \<and>
      cb x (log_event (Fired x) (timer_remove x s)) = returns r \<and> rearm x r = returns s' \<and> B (rt_tick r) s'"
    and "B c s"
  shows "check_loop cb c s = None"
proof (rule ccontr)
  assume "check_loop cb c s \<noteq> None"
  then obtain r where returns: "check_loop cb c s = Some r" by auto
  let ?P = "\<lambda>k c s r. k = cb \<longrightarrow> \<not> B c s"
  have "?P cb c s r"
  proof (rule check_loop.raw_induct [where P = ?P, OF _ returns])
    fix f k c s r
    assume IH: "\<And>k c s r. f k c s = Some r \<Longrightarrow> ?P k c s r"
      and eq: "(if rt_list_isempty rt_timer_list (rows s) then returns s
        else if expired c (next_link (rows s) rt_timer_list) s then
          (case k (next_link (rows s) rt_timer_list)
               (log_event (Fired (next_link (rows s) rt_timer_list))
                 (timer_remove (next_link (rows s) rt_timer_list) s)) of
             None \<Rightarrow> None | Some (Inl e) \<Rightarrow> stops e
           | Some (Inr r) \<Rightarrow>
               (case rearm (next_link (rows s) rt_timer_list) r of
                  None \<Rightarrow> None | Some (Inl e) \<Rightarrow> stops e
                | Some (Inr s') \<Rightarrow> f k (rt_tick r) s'))
        else returns s) = Some r"
    show "?P k c s r"
    proof (intro impI notI)
      assume "k = cb" and B: "B c s"
      with step [OF B] eq IH show False by (auto simp: rt_list_isempty_def)
    qed
  qed
  with assms(2) show False by simp
qed

lemma soft_loop_diverges:
  assumes step: "\<And>c n s. B c n s \<Longrightarrow> n \<noteq> rt_soft_timer_list \<and> expired c n s \<and>
      (\<exists>r s'. soft_fire cb n s = returns r \<and> rearm n r = returns s' \<and>
         B (rt_tick r) (next_link (rows s) n) s')"
    and "B c n s"
  shows "soft_loop cb c n s = None"
proof (rule ccontr)
  assume "soft_loop cb c n s \<noteq> None"
  then obtain r where returns: "soft_loop cb c n s = Some r" by auto
  let ?P = "\<lambda>k c n s r. k = cb \<longrightarrow> \<not> B c n s"
  have "?P cb c n s r"
  proof (rule soft_loop.raw_induct [where P = ?P, OF _ returns])
    fix f k c n s r
    assume IH: "\<And>k c n s r. f k c n s = Some r \<Longrightarrow> ?P k c n s r"
      and eq: "(if n = rt_soft_timer_list then returns s
        else if expired c n s then
          (case soft_fire k n s of
             None \<Rightarrow> None | Some (Inl e) \<Rightarrow> stops e
           | Some (Inr r) \<Rightarrow>
               (case rearm n r of
                  None \<Rightarrow> None | Some (Inl e) \<Rightarrow> stops e
                | Some (Inr s') \<Rightarrow> f k (rt_tick r) (next_link (rows s) n) s'))
        else returns s) = Some r"
    show "?P k c n s r"
    proof (intro impI notI)
      assume "k = cb" and B: "B c n s"
      with step [OF B] eq IH show False by auto
    qed
  qed
  with assms(2) show False by simp
qed

end
