(* ===== verification/TimerProps.thy ===== *)
theory TimerProps
  imports TimerOrder
begin

text \<open>Properties of the kernel timers, each with a concrete instance.\<close>

subsection \<open>A system with three timers\<close>

text \<open>
  Timers 2 and 3 are hard, 4 is soft; the tick is five before its wrap-around and the deadlines
  after it.
\<close>

definition demo_timer :: "u8 \<Rightarrow> u32 \<Rightarrow> u32 \<Rightarrow> rt_timer" where
  "demo_timer f i d = \<lparr>tm_flag = f, init_tick = i, timeout_tick = d\<rparr>"

definition self_links :: rt_list_node where
  "self_links = \<lparr>next_link = (\<lambda>x. x), prev_link = (\<lambda>x. x)\<rparr>"

definition demo_timers :: "(nat \<Rightarrow> rt_timer) \<Rightarrow> rt_list_node \<Rightarrow> timers" where
  "demo_timers f l =
     \<lparr>rows = l, timer_of = f, rt_tick = 0xFFFFFFFB, random_nr = 0, timer_thread_ready = True,
      timer_log = []\<rparr>"

definition hard_two :: timers where
  "hard_two =
     demo_timers ((\<lambda>x. demo_timer 0 10 0)(2 := demo_timer 1 20 0xFFFFFFFB, 3 := demo_timer 3 8 2))
       (rt_list_insert_after 2 3 (rt_list_insert_after 0 2 self_links))"

lemma self_links_alone: "dlist self_links x []"
  by (simp add: self_links_def dlist_def)

lemma hard_two_ok: "timers_ok hard_two [2, 3] []"
proof (rule timers_okI)
  have 1: "dlist (rt_list_insert_after 0 2 self_links) 0 [2]"
    using dlist_insert_after [of self_links 0 "[]" "[]" 2 0] self_links_alone by simp
  have L: "dlist (rows hard_two) 0 [2, 3]"
    using dlist_insert_after [OF _ _ refl, of _ 0 "[2]" "[]" 3] 1 by (simp add: hard_two_def demo_timers_def)
  then show "dlist (rows hard_two) rt_timer_list [2, 3]" by (simp add: rt_timer_list_def)
  have O: "dlist (rows hard_two) k []" if "k \<notin> {0, 2, 3}" for k
    using that
    by (simp add: hard_two_def demo_timers_def rt_list_insert_after_def set_nxt_def set_prv_def self_links_def
        dlist_def)
  then show "dlist (rows hard_two) rt_soft_timer_list []" by (simp add: rt_soft_timer_list_def)
  show "is_timer t \<Longrightarrow> t \<notin> set [2, 3] \<Longrightarrow> t \<notin> set [] \<Longrightarrow> dlist (rows hard_two) t []" for t
    using O by (simp add: is_timer_def rt_timer_list_def)
qed (auto simp: is_timer_def rt_timer_list_def rt_soft_timer_list_def has_flag_def hard_two_def
      demo_timers_def demo_timer_def RT_TIMER_FLAG_SOFT_TIMER_def)

lemma hard_two_fields:
  "due hard_two 2 = 0" "due hard_two 3 = 7" "due hard_two 4 = 5" "period hard_two 2 = 20"
  "period hard_two 3 = 8" "is_periodic hard_two 3" "\<not> is_periodic hard_two 2" "is_active hard_two 2"
  "is_active hard_two 3" "\<not> is_soft hard_two 2" "\<not> is_soft hard_two 4" "period hard_two 4 = 10"
  by (simp_all add: hard_two_def demo_timers_def demo_timer_def due_def period_def is_periodic_def
      is_active_def is_soft_def has_flag_def RT_TIMER_FLAG_PERIODIC_def RT_TIMER_FLAG_ACTIVATED_def
      RT_TIMER_FLAG_SOFT_TIMER_def)

lemma hard_two_armed: "armed hard_two [2, 3] []"
  using hard_two_ok by (simp add: armed_def in_window_def hard_two_fields)

subsection \<open>Starting\<close>

text \<open>
  C17: Starting a timer of fewer than \<open>RT_TICK_MAX / 2\<close> ticks puts it into its list behind every timer
  that is due no later and before every timer that is due later, in the order of the signed
  distance to the tick, so across the wrap-around too; the list stays ordered, every other timer
  keeps its place and its deadline.
\<close>

theorem rt_timer_start_orders:
  assumes "timers_ok s hs ss" and "is_timer t" and "\<not> is_soft s t" and "period s t < 2 ^ 31 - 1"
    and "sorted (map (due s) hs)" and "\<forall>p \<in> set hs. in_window s p"
  shows "\<exists>s'. rt_timer_start t s = Some (Inr s') \<and>
      timers_ok s' (insert_due (due s) (period s t) t (remove1 t hs)) ss \<and>
      sorted (map (due s') (insert_due (due s) (period s t) t (remove1 t hs))) \<and>
      (\<forall>p. due s' p = (if p = t then period s t else due s p)) \<and> is_active s' t"
proof -
  have t: "t \<notin> set ss" using timers_okD(10) [OF assms(1), of t] assms(3) by (auto simp: is_soft_def)
  have dis: "t \<notin> set (remove1 t hs)" using timers_okD(3) [OF assms(1)] by (simp add: set_remove1_eq)
  have sub: "set (remove1 t hs) \<subseteq> set hs" by (rule set_remove1_subset)
  have srt: "sorted (map (due s) (remove1 t hs))"
    using assms(5) by (cases "t \<in> set hs") (auto simp: remove1_idem sorted_append dest!: split_list_first
      simp: remove1_append)
  obtain s' where s': "rt_timer_start t s = Some (Inr s')"
    and ok: "timers_ok s' (place s (rt_tick s + init_tick (timer_of s t)) t (remove1 t hs)) ss"
    and f: "timer_of s' = (timer_of s)(t := started s t)" "rt_tick s' = rt_tick s"
    using start_hard [OF assms(1-3) t assms(4)] by auto
  note due = due_started [OF assms(4) f]
  have "place s (rt_tick s + init_tick (timer_of s t)) t (remove1 t hs) =
      insert_due (due s) (period s t) t (remove1 t hs)"
    using srt assms(4,6) sub by (intro place_insert_due) auto
  moreover have "sorted (map (due s') (insert_due (due s) (period s t) t (remove1 t hs)))"
    using srt dis due by (rule sorted_insert_due)
  ultimately show ?thesis using s' ok due started_flags(3) [OF f(1), of t] by auto
qed

theorem rt_timer_start_orders_witness:
  "\<exists>s'. rt_timer_start 4 hard_two = Some (Inr s') \<and> timers_ok s' [2, 3, 4] [] \<and> due s' 4 = 10"
  using rt_timer_start_orders [of hard_two "[2, 3]" "[]" 4] hard_two_ok hard_two_armed
  by (auto simp: hard_two_fields is_timer_def rt_timer_list_def rt_soft_timer_list_def armed_def
      insert_due_def)

subsection \<open>Checking\<close>

text \<open>
  C19: When the timeout functions leave the timers alone, a check returns, has called the function of
  every expired timer once and in the order of the deadlines and of no other, has started the
  periodic ones again, and leaves only timers that are not yet due, still ordered. No periodic
  timer may have a period of zero.
\<close>

theorem rt_timer_check_fires:
  assumes "armed s hs ss"
  shows "\<exists>s' hs'. rt_timer_check quiet s = Some (Inr s') \<and> armed s' hs' ss \<and>
      timer_log s' = timer_log s @ map Fired (filter (\<lambda>t. due s t \<le> 0) hs) \<and>
      set hs' = {t \<in> set hs. 0 < due s t \<or> is_periodic s t} \<and>
      (\<forall>t \<in> set hs'. due s' t = (if due s t \<le> 0 then period s t else due s t))"
  using check_loop_quiet [OF assms] unfolding rt_timer_check_def by blast

theorem rt_timer_check_fires_witness:
  "\<exists>s' hs'. rt_timer_check quiet hard_two = Some (Inr s') \<and> timer_log s' = [Fired 2] \<and> set hs' = {3} \<and>
     armed s' hs' []"
proof -
  have "{t \<in> set [2, 3]. 0 < due hard_two t \<or> is_periodic hard_two t} = {3}"
    by (auto simp: hard_two_fields)
  moreover have "timer_log hard_two = []" by (simp add: hard_two_def demo_timers_def)
  moreover have "filter (\<lambda>t. due hard_two t \<le> 0) [2, 3] = [2]" by (simp add: hard_two_fields)
  ultimately show ?thesis using rt_timer_check_fires [OF hard_two_armed] by (metis list.simps(8,9) append_Nil)
qed

subsection \<open>Timeout functions that use the timers\<close>

text \<open>A timeout function that starts a timer.\<close>

definition start_in_callback :: "nat \<Rightarrow> 'a timers_scheme \<Rightarrow> 'a timers_scheme run" where
  "start_in_callback x s = rt_timer_start x s"

lemma check_loop_stops:
  assumes "timers_ok s hs ss" and "\<And>t. t \<in> set hs \<Longrightarrow> in_window s t \<and> 0 < due s t"
  shows "check_loop cb (rt_tick s) s = Some (Inr s)"
proof -
  note L = timers_okD(1) [OF assms(1)]
  have "hs = [] \<or> \<not> expired (rt_tick s) (hd hs) s"
    using assms(2) expired_iff [of s "hd hs"] by (cases hs) force+
  then show ?thesis
    using isempty_iff [OF L] dlist_ends(1) [OF L] by (subst check_loop.simps) auto
qed

text \<open>
  A one-shot timer whose timeout function starts it again stays linked and will expire again, but
  the check then clears its activation flag: \<open>rt_timer_stop\<close> reports an error and leaves it in the
  list.
\<close>

theorem one_shot_restart_loses_flag:
  assumes "armed s (x # xs) ss" and "\<not> is_periodic s x" and "due s x \<le> 0"
    and "0 < period s x" and "period s x < 2 ^ 31 - 1" and "\<forall>t \<in> set xs. 0 < due s t"
    and "cb x = start_in_callback x"
  shows "\<exists>s'. rt_timer_check cb s = Some (Inr s') \<and>
      timers_ok s' (insert_due (due s) (period s x) x xs) ss \<and> due s' x = period s x \<and>
      rt_timer_stop x s' = (- 1, s')"
proof -
  let ?t = "log_event (Fired x) (timer_remove x s)"
  note D = armedD [OF assms(1)]
  note L = timers_okD [OF D(1)]
  have x: "is_timer x" "x \<notin> set xs" "x \<notin> set ss" "\<not> is_soft s x"
    using L(3,5,6) L(9) [of x] by (auto simp: is_soft_def)
  have ok: "timers_ok ?t xs ss"
  proof (rule timers_ok_cong)
    show "timers_ok (timer_remove x s) xs ss"
      using timer_remove_ok [OF D(1) x(1)] x(3) by (simp add: remove1_idem)
  qed simp_all
  have srt: "sorted (map (due s) xs)" and win: "\<And>p. p \<in> set xs \<Longrightarrow> in_window s p" using D(2,3) by auto
  have soft: "\<not> is_soft ?t x" and short: "period ?t x < 2 ^ 31 - 1" using x(4) assms(5) by simp_all
  obtain s1 where s1: "rt_timer_start x ?t = Some (Inr s1)"
    and ok1: "timers_ok s1 (place ?t (rt_tick ?t + init_tick (timer_of ?t x)) x xs) ss"
    and f: "timer_of s1 = (timer_of ?t)(x := started ?t x)" "rt_tick s1 = rt_tick ?t"
    using start_hard [OF ok x(1) soft x(3) short] unfolding remove1_idem [OF x(2)] by blast
  note due = due_started [OF _ f]
  have pl: "place ?t (rt_tick ?t + init_tick (timer_of ?t x)) x xs = insert_due (due s) (period s x) x xs"
    using place_insert_due [of ?t xs x] srt win assms(5) by (simp add: in_window_def)
  let ?s = "clear_flag RT_TIMER_FLAG_ACTIVATED x s1"
  have re: "rearm x s1 = Some (Inr ?s)"
    using assms(2) started_flags(1) [OF f(1)] by (simp add: rearm_def is_periodic_def fun_eq_iff)
  have ok2: "timers_ok ?s (insert_due (due s) (period s x) x xs) ss"
    using ok1 unfolding pl by (rule timers_ok_cong) simp_all
  have d2: "due s1 t = (if t = x then period s x else due s t)" for t using due assms(5) by simp
  have "check_loop cb (rt_tick ?s) ?s = Some (Inr ?s)"
    using assms(4-6) win by (intro check_loop_stops [OF ok2]) (auto simp: d2 in_window_def)
  moreover have "check_loop cb (rt_tick s) s = check_loop cb (rt_tick ?s) ?s"
    using isempty_iff [OF L(1)] dlist_ends(1) [OF L(1)] expired_iff [OF D(3)] assms(3,7) s1 re f(2)
    by (subst check_loop.simps) (simp add: start_in_callback_def)
  ultimately have "rt_timer_check cb s = Some (Inr ?s)" by (simp add: rt_timer_check_def)
  then show ?thesis using ok2 d2 by (auto simp: rt_timer_stop_def)
qed

theorem one_shot_restart_loses_flag_witness:
  "\<exists>s'. rt_timer_check start_in_callback hard_two = Some (Inr s') \<and> timers_ok s' [3, 2] [] \<and>
     rt_timer_stop 2 s' = (- 1, s')"
  using one_shot_restart_loses_flag [of hard_two 2 "[3]" "[]" start_in_callback] hard_two_armed
  by (auto simp: hard_two_fields insert_due_def)

text \<open>A due periodic timer with period zero in front of timers that are not due.\<close>

definition spins :: "nat \<Rightarrow> nat list \<Rightarrow> nat list \<Rightarrow> 'a timers_scheme \<Rightarrow> bool" where
  "spins x xs ss s \<longleftrightarrow>
     timers_ok s (x # xs) ss \<and> sorted (map (due s) xs) \<and> (\<forall>t \<in> set (x # xs). in_window s t) \<and>
     (\<forall>t \<in> set xs. 0 < due s t) \<and> due s x \<le> 0 \<and> period s x = 0 \<and> is_periodic s x \<and> is_active s x"

lemma spins_again:
  assumes S: "spins x xs ss s"
  shows "\<exists>s'. rearm x (log_event (Fired x) (timer_remove x s)) = Some (Inr s') \<and> spins x xs ss s' \<and>
     rt_tick s' = rt_tick s"
proof -
  let ?t = "log_event (Fired x) (timer_remove x s)" and ?u = "clear_flag RT_TIMER_FLAG_ACTIVATED x (log_event (Fired x) (timer_remove x s))"
  have ok: "timers_ok s (x # xs) ss" using S by (simp add: spins_def)
  note L = timers_okD [OF ok]
  have x: "is_timer x" "x \<notin> set xs" "x \<notin> set ss" "\<not> is_soft s x"
    using L(3,5,6) L(9) [of x] by (auto simp: is_soft_def)
  have oku: "timers_ok ?u xs ss"
  proof (rule timers_ok_cong)
    show "timers_ok (timer_remove x s) xs ss"
      using timer_remove_ok [OF ok x(1)] x(3) by (simp add: remove1_idem)
  qed simp_all
  have u: "\<not> is_soft ?u x" "period ?u x < 2 ^ 31 - 1" using S x by (simp_all add: spins_def)
  obtain s' where s': "rt_timer_start x ?u = Some (Inr s')"
    and ok': "timers_ok s' (place ?u (rt_tick ?u + init_tick (timer_of ?u x)) x xs) ss"
    and f: "timer_of s' = (timer_of ?u)(x := started ?u x)" "rt_tick s' = rt_tick ?u"
    using start_hard [OF oku x(1) u(1) x(3) u(2)] unfolding remove1_idem [OF x(2)] by blast
  have d: "due s' t = (if t = x then 0 else due s t)" for t
    using due_started [OF u(2) f] S by (simp add: spins_def)
  have "insert_due (due ?u) (period ?u x) x xs = x # xs"
    using S by (auto simp: insert_due_def spins_def filter_empty_conv filter_id_conv)
  then have "place ?u (rt_tick ?u + init_tick (timer_of ?u x)) x xs = x # xs"
    using place_insert_due [of ?u xs x] S by (simp add: spins_def in_window_def)
  moreover have "sorted (map (due s') xs)"
  proof -
    have "map (due s') xs = map (due s) xs" using x(2) d by auto
    then show ?thesis using S by (simp only: spins_def)
  qed
  ultimately have "spins x xs ss s'"
    using S ok' x(2) started_flags [OF f(1)] by (auto simp: spins_def d in_window_def)
  moreover have "rearm x ?t = Some (Inr s')"
    using S s' by (simp add: rearm_def spins_def is_periodic_def is_active_def)
  ultimately show ?thesis using f(2) by auto
qed

text \<open>
  A periodic timer with a period of zero ticks is started again with a deadline that has already
  come: once it is due, the check never returns, in the tick interrupt and with interrupts
  disabled. \<open>rt_timer_start\<close> rejects only periods that are too long.
\<close>

theorem rt_timer_check_zero_period_hangs:
  fixes s :: "'a timers_scheme"
  assumes "timers_ok s (x # xs) ss" and "sorted (map (due s) xs)" and "\<forall>t \<in> set (x # xs). in_window s t"
    and "\<forall>t \<in> set xs. 0 < due s t" and "due s x \<le> 0"
    and "period s x = 0" and "is_periodic s x" and "is_active s x"
  shows "rt_timer_check quiet s = None"
  unfolding rt_timer_check_def
proof (rule check_loop_diverges [where B = "\<lambda>c s. c = rt_tick s \<and> spins x xs ss s"])
  fix c and s :: "'a timers_scheme" assume B: "c = rt_tick s \<and> spins x xs ss s"
  then have ok: "timers_ok s (x # xs) ss" and w: "in_window s x" and d: "due s x \<le> 0"
    by (auto simp: spins_def)
  have "next_link (rows s) rt_timer_list = x" using dlist_ends(1) [OF timers_okD(1) [OF ok]] by simp
  moreover have "x \<noteq> rt_timer_list" using timers_okD(6) [OF ok, of x] by (auto simp: is_timer_def)
  ultimately show "\<exists>x' r s'. next_link (rows s) rt_timer_list = x' \<and> x' \<noteq> rt_timer_list \<and> expired c x' s \<and>
      returns (log_event (Fired x') (timer_remove x' s)) = returns r \<and> rearm x' r = returns s' \<and>
      rt_tick r = rt_tick s' \<and> spins x xs ss s'"
    using spins_again [of x xs ss s] expired_iff [OF w] d B by auto
qed (use assms in \<open>simp add: spins_def\<close>)

definition zero_period :: timers where
  "zero_period =
     demo_timers ((\<lambda>x. demo_timer 0 10 0)(2 := demo_timer 3 0 0xFFFFFFFB)) (rt_list_insert_after 0 2 self_links)"

lemma zero_period_ok: "timers_ok zero_period [2] []"
proof (rule timers_okI)
  show "dlist (rows zero_period) rt_timer_list [2]"
    using dlist_insert_after [of self_links 0 "[]" "[]" 2 0] self_links_alone
    by (simp add: zero_period_def demo_timers_def rt_timer_list_def)
  have O: "dlist (rows zero_period) k []" if "k \<notin> {0, 2}" for k
    using that by (simp add: zero_period_def demo_timers_def rt_list_insert_after_def set_nxt_def
        set_prv_def self_links_def dlist_def)
  then show "dlist (rows zero_period) rt_soft_timer_list []" by (simp add: rt_soft_timer_list_def)
  show "is_timer t \<Longrightarrow> t \<notin> set [2] \<Longrightarrow> t \<notin> set [] \<Longrightarrow> dlist (rows zero_period) t []" for t
    using O by (simp add: is_timer_def rt_timer_list_def)
qed (auto simp: is_timer_def rt_timer_list_def rt_soft_timer_list_def has_flag_def zero_period_def
      demo_timers_def demo_timer_def RT_TIMER_FLAG_SOFT_TIMER_def)

theorem rt_timer_check_zero_period_hangs_witness: "rt_timer_check quiet zero_period = None"
  using zero_period_ok
  by (intro rt_timer_check_zero_period_hangs [of zero_period 2 "[]" "[]"])
     (simp_all add: in_window_def zero_period_def demo_timers_def demo_timer_def due_def period_def
        is_periodic_def is_active_def has_flag_def RT_TIMER_FLAG_PERIODIC_def RT_TIMER_FLAG_ACTIVATED_def)

subsection \<open>The soft timers\<close>

text \<open>A timeout function that stops another timer.\<close>

definition stop_in_callback :: "nat \<Rightarrow> 'a timers_scheme \<Rightarrow> 'a timers_scheme run" where
  "stop_in_callback y s = returns (snd (rt_timer_stop y s))"

text \<open>Caught at a timer that points to itself: it is fired again and again.\<close>

definition caught :: "nat \<Rightarrow> u32 \<Rightarrow> nat \<Rightarrow> 'a timers_scheme \<Rightarrow> bool" where
  "caught y c n s \<longleftrightarrow>
     n = y \<and> c = rt_tick s \<and> dlist (rows s) y [] \<and> expired c y s \<and> \<not> is_active s y"

text \<open>
  The soft check reads the successor before it calls the timeout function of a timer. When that
  function stops the successor, the check goes on with a timer that is in no list any more: the
  stopped timer is fired, and as it is its own successor the check never returns.
\<close>

theorem soft_check_stopped_successor_hangs:
  fixes s :: "'a timers_scheme"
  assumes "timers_ok s hs (x # y # ys)" and "expired (rt_tick s) x s" and "expired (rt_tick s) y s"
    and "\<not> is_periodic s x" and "is_active s y"
    and "cb x = stop_in_callback y" and "cb y = returns"
  shows "rt_soft_timer_check cb s = None"
proof -
  let ?e = "log_event Enter_Critical s"
  let ?r = "log_event (Fired x) (log_event Exit_Critical (timer_remove x ?e))"
  let ?u = "clear_flag RT_TIMER_FLAG_ACTIVATED x (log_event Enter_Critical
     (clear_flag RT_TIMER_FLAG_ACTIVATED y (timer_remove y ?r)))"
  note L = timers_okD [OF assms(1)]
  have xy: "is_timer x" "is_timer y" "x \<noteq> y" using L(4) L(7) by auto
  have nx: "next_link (rows s) x = y" "next_link (rows s) rt_soft_timer_list = x"
    using dlist_next(1) [of "rows s" rt_soft_timer_list "[]" x "y # ys"] dlist_ends(1) [OF L(2)] L(2) by simp_all
  have "timers_ok ?e hs (x # y # ys)" using assms(1) by (rule timers_ok_cong) simp_all
  from timer_remove_ok [OF this xy(1)] have "timers_ok (timer_remove x ?e) (remove1 x hs) (y # ys)" by simp
  then have "timers_ok ?r (remove1 x hs) (y # ys)" by (rule timers_ok_cong) simp_all
  from remove_links_ok(3) [OF this xy(2)] have alone: "dlist (rows ?u) y []" by simp
  let ?f = "log_event Enter_Critical (clear_flag RT_TIMER_FLAG_ACTIVATED y (timer_remove y ?r))"
  have fire: "soft_fire cb x ?e = returns ?f"
    using assms(5,6) by (simp add: soft_fire_def stop_in_callback_def rt_timer_stop_def is_active_def)
  have "rearm x ?f = returns ?u"
    using assms(4) by (simp add: rearm_def is_periodic_def)
  then have step: "soft_loop cb (rt_tick s) x ?e = soft_loop cb (rt_tick s) y ?u"
    using assms(2) nx(1) xy by (subst soft_loop.simps) (simp add: expired_def is_timer_def fire)
  have "caught y (rt_tick s) y ?u"
    using alone assms(3) xy by (simp add: caught_def expired_def is_active_def)
  then have "soft_loop cb (rt_tick s) y ?u = None"
  proof (rule soft_loop_diverges [where B = "caught y", rotated])
    fix c n and s :: "'a timers_scheme" assume B: "caught y c n s"
    let ?f = "log_event Enter_Critical (log_event (Fired y) (log_event Exit_Critical (timer_remove y s)))"
    have n: "n = y" "c = rt_tick s" and D: "dlist (rows s) y []" and E: "expired c y s"
      and A: "\<not> has_flag RT_TIMER_FLAG_ACTIVATED y s"
      using B by (auto simp: caught_def is_active_def)
    have f: "soft_fire cb n s = returns ?f" using assms(7) n by (simp add: soft_fire_def)
    have "rearm n ?f = returns (clear_flag RT_TIMER_FLAG_ACTIVATED y ?f)"
      using A n by (simp add: rearm_def)
    moreover have "next_link (rows s) n = y" using D n by (simp add: dlist_def)
    ultimately show "n \<noteq> rt_soft_timer_list \<and> expired c n s \<and>
        (\<exists>r s'. soft_fire cb n s = returns r \<and> rearm n r = returns s' \<and>
           caught y (rt_tick r) (next_link (rows s) n) s')"
      using xy(2) n D E f by (simp add: is_timer_def caught_def remove_alone expired_def is_active_def)
  qed
  then show ?thesis using step nx by (simp add: rt_soft_timer_check_def)
qed

definition soft_two :: timers where
  "soft_two =
     demo_timers ((\<lambda>x. demo_timer 0 10 0)(2 := demo_timer 5 20 0xFFFFFFF9, 3 := demo_timer 5 8 0xFFFFFFFA))
       (rt_list_insert_after 2 3 (rt_list_insert_after 1 2 self_links))"

lemma soft_two_ok: "timers_ok soft_two [] [2, 3]"
proof (rule timers_okI)
  have 1: "dlist (rt_list_insert_after 1 2 self_links) 1 [2]"
    using dlist_insert_after [of self_links 1 "[]" "[]" 2 1] self_links_alone by simp
  have L: "dlist (rows soft_two) 1 [2, 3]"
    using dlist_insert_after [OF _ _ refl, of _ 1 "[2]" "[]" 3] 1 by (simp add: soft_two_def demo_timers_def)
  then show "dlist (rows soft_two) rt_soft_timer_list [2, 3]" by (simp add: rt_soft_timer_list_def)
  have O: "dlist (rows soft_two) k []" if "k \<notin> {1, 2, 3}" for k
    using that
    by (simp add: soft_two_def demo_timers_def rt_list_insert_after_def set_nxt_def set_prv_def self_links_def
        dlist_def)
  then show "dlist (rows soft_two) rt_timer_list []" by (simp add: rt_timer_list_def)
  show "is_timer t \<Longrightarrow> t \<notin> set [] \<Longrightarrow> t \<notin> set [2, 3] \<Longrightarrow> dlist (rows soft_two) t []" for t
    using O by (simp add: is_timer_def rt_soft_timer_list_def)
qed (auto simp: is_timer_def rt_timer_list_def rt_soft_timer_list_def has_flag_def soft_two_def
      demo_timers_def demo_timer_def RT_TIMER_FLAG_SOFT_TIMER_def)

theorem soft_check_stopped_successor_hangs_witness:
  "rt_soft_timer_check (\<lambda>t. if t = 2 then stop_in_callback 3 else returns) soft_two = None"
  using soft_two_ok
  by (intro soft_check_stopped_successor_hangs [of soft_two "[]" 2 3 "[]"])
     (simp_all add: soft_two_def demo_timers_def demo_timer_def expired_def half_tick
        is_periodic_def is_active_def has_flag_def RT_TIMER_FLAG_PERIODIC_def RT_TIMER_FLAG_ACTIVATED_def)

text \<open>
  The timer thread takes a deadline of \<open>RT_TICK_MAX\<close> for an empty list: it suspends itself although
  a timer is running, and nothing wakes it when the deadline comes.
\<close>

theorem timer_thread_sleeps_on_max_deadline:
  assumes "timers_ok s hs (x # ys)" and "timeout_tick (timer_of s x) = RT_TICK_MAX"
  shows "timer_thread_wait env s = env (log_event Schedule (log_event Suspend_Self s))"
  using dlist_ends(1) [OF timers_okD(2) [OF assms(1)]] isempty_iff [OF timers_okD(2) [OF assms(1)]] assms(2)
  by (simp add: timer_thread_wait_def timer_list_next_timeout_def)

end
