(* ===== verification/RtFamily.thy ===== *)
theory RtFamily
  imports RtList
begin

text \<open>
  Several lists on one set of links. \<open>H\<close> are the heads, \<open>Q h\<close> the nodes of the list with head \<open>h\<close>;
  a node is in at most one of them, and a node that is in none points to itself. This is the shape
  of the thread lists of the kernel: the ready lists, the defunct list and the wait lists share the
  node \<open>tlist\<close> of a thread.
\<close>

definition family :: "rt_list_node \<Rightarrow> nat set \<Rightarrow> (nat \<Rightarrow> nat list) \<Rightarrow> bool" where
  "family l H Q \<longleftrightarrow>
     (\<forall>h \<in> H. dlist l h (Q h)) \<and>
     (\<forall>h \<in> H. set (Q h) \<inter> H = {}) \<and>
     (\<forall>h \<in> H. \<forall>k \<in> H. h \<noteq> k \<longrightarrow> set (Q h) \<inter> set (Q k) = {}) \<and>
     (\<forall>x. x \<notin> H \<longrightarrow> (\<forall>h \<in> H. x \<notin> set (Q h)) \<longrightarrow> dlist l x [])"

definition without :: "nat \<Rightarrow> (nat \<Rightarrow> nat list) \<Rightarrow> nat \<Rightarrow> nat list" where
  "without n Q h = remove1 n (Q h)"

lemma familyD:
  assumes "family l H Q"
  shows "h \<in> H \<Longrightarrow> dlist l h (Q h)" "h \<in> H \<Longrightarrow> x \<in> set (Q h) \<Longrightarrow> x \<notin> H"
    "h \<in> H \<Longrightarrow> k \<in> H \<Longrightarrow> x \<in> set (Q h) \<Longrightarrow> x \<in> set (Q k) \<Longrightarrow> h = k"
    "x \<notin> H \<Longrightarrow> (\<And>h. h \<in> H \<Longrightarrow> x \<notin> set (Q h)) \<Longrightarrow> dlist l x []"
    "h \<in> H \<Longrightarrow> distinct (Q h)"
proof -
  note F = assms [unfolded family_def]
  show "h \<in> H \<Longrightarrow> dlist l h (Q h)" using F by simp
  then show "h \<in> H \<Longrightarrow> distinct (Q h)" by (auto dest: dlistD)
  show "h \<in> H \<Longrightarrow> x \<in> set (Q h) \<Longrightarrow> x \<notin> H" using F by blast
  show "h \<in> H \<Longrightarrow> k \<in> H \<Longrightarrow> x \<in> set (Q h) \<Longrightarrow> x \<in> set (Q k) \<Longrightarrow> h = k" using F by blast
  show "x \<notin> H \<Longrightarrow> (\<And>h. h \<in> H \<Longrightarrow> x \<notin> set (Q h)) \<Longrightarrow> dlist l x []" using F by simp
qed

lemma familyI:
  assumes "\<And>h. h \<in> H \<Longrightarrow> dlist l h (Q h)" and "\<And>h x. h \<in> H \<Longrightarrow> x \<in> set (Q h) \<Longrightarrow> x \<notin> H"
    and "\<And>h k x. h \<in> H \<Longrightarrow> k \<in> H \<Longrightarrow> x \<in> set (Q h) \<Longrightarrow> x \<in> set (Q k) \<Longrightarrow> h = k"
    and "\<And>x. x \<notin> H \<Longrightarrow> \<forall>h \<in> H. x \<notin> set (Q h) \<Longrightarrow> dlist l x []"
  shows "family l H Q"
  using assms unfolding family_def by blast

lemma set_without:
  assumes "family l H Q" and "h \<in> H"
  shows "set (without n Q h) = set (Q h) - {n}"
  using familyD(5) [OF assms] by (simp add: without_def)

lemma without_fresh: "n \<notin> set (Q h) \<Longrightarrow> without n Q h = Q h"
  by (simp add: without_def remove1_idem)

lemma family_cong:
  assumes "family l H Q" and "\<And>h. h \<in> H \<Longrightarrow> Q' h = Q h"
  shows "family l H Q'"
  using assms by (simp add: family_def)

subsection \<open>Insertion\<close>

lemma family_insert_after:
  assumes F: "family l H Q" and h: "h \<in> H" and n: "n \<notin> H" "\<And>k. k \<in> H \<Longrightarrow> n \<notin> set (Q k)"
    and Q: "Q h = xs @ ys" and a: "a = last (h # xs)"
  shows "family (rt_list_insert_after a n l) H (Q(h := xs @ n # ys))"
proof -
  note D = familyD [OF F]
  let ?l = "rt_list_insert_after a n l"
  have L: "dlist l h (xs @ ys)" using D(1) [OF h] Q by simp
  have nh: "n \<notin> set (h # xs @ ys)" using n(1) n(2) [OF h] h Q by auto
  have new: "dlist ?l h (xs @ n # ys)" by (rule dlist_insert_after [OF L nh a])
  have old: "dlist ?l k zs" if "dlist l k zs" "set (k # zs) \<inter> set (h # xs @ ys) = {}" "n \<notin> set (k # zs)" for k zs
    by (rule insert_after_other [OF that(1) L a that(2,3) nh])
  have oldH: "dlist ?l k (Q k)" if k: "k \<in> H" "k \<noteq> h" for k
  proof (rule old)
    show "dlist l k (Q k)" using k by (intro D)
    show "n \<notin> set (k # Q k)" using k n by auto
    show "set (k # Q k) \<inter> set (h # xs @ ys) = {}"
      using D(2) [OF k(1)] D(2) [OF h] D(3) [OF k(1) h] k h by (fastforce simp: Q)
  qed
  have oldx: "dlist ?l x []" if "x \<notin> H" "\<And>k. k \<in> H \<Longrightarrow> x \<notin> set ((Q(h := xs @ n # ys)) k)" for x
  proof (rule old)
    have *: "x \<notin> set (Q k)" "x \<noteq> n" if "k \<in> H" for k
      using \<open>\<And>k. k \<in> H \<Longrightarrow> x \<notin> set ((Q(h := xs @ n # ys)) k)\<close> [OF that]
        \<open>\<And>k. k \<in> H \<Longrightarrow> x \<notin> set ((Q(h := xs @ n # ys)) k)\<close> [OF h]
      by (auto simp: Q split: if_splits)
    show "dlist l x []" using that(1) * by (intro D(4)) auto
    show "set [x] \<inter> set (h # xs @ ys) = {}" using that(1) h *(1) [OF h] by (auto simp: Q)
    show "n \<notin> set [x]" using *(2) [OF h] by auto
  qed
  have mem: "x \<in> set ((Q(h := xs @ n # ys)) k) \<longleftrightarrow> x \<in> set (Q k) \<or> k = h \<and> x = n" for x k
    using Q by auto
  show ?thesis
  proof (rule familyI)
    fix k assume "k \<in> H"
    then show "dlist ?l k ((Q(h := xs @ n # ys)) k)" using new oldH [of k] by auto
  next
    fix k x assume "k \<in> H" "x \<in> set ((Q(h := xs @ n # ys)) k)"
    then show "x \<notin> H" unfolding mem using D(2) n(1) by blast
  next
    fix k k' x assume "k \<in> H" "k' \<in> H" "x \<in> set ((Q(h := xs @ n # ys)) k)" "x \<in> set ((Q(h := xs @ n # ys)) k')"
    then show "k = k'" unfolding mem using D(3) n(2) by blast
  next
    fix x assume "x \<notin> H" "\<forall>k \<in> H. x \<notin> set ((Q(h := xs @ n # ys)) k)"
    then show "dlist ?l x []" by (intro oldx) auto
  qed
qed

lemma family_insert_before:
  assumes F: "family l H Q" and h: "h \<in> H" and n: "n \<notin> H" "\<And>k. k \<in> H \<Longrightarrow> n \<notin> set (Q k)"
    and Q: "Q h = xs @ ys" and b: "b = hd (ys @ [h])"
  shows "family (rt_list_insert_before b n l) H (Q(h := xs @ n # ys))"
proof -
  have L: "dlist l h (xs @ ys)" using familyD(1) [OF F h] Q by simp
  note S = seam_next [OF L]
  have "last (h # xs) \<in> set (h # xs)" "b \<in> set (h # ys)" using b by (auto, cases ys) auto
  then have "n \<noteq> last (h # xs)" "n \<noteq> b" using n(1) n(2) [OF h] h Q by (auto split: if_splits)
  then have "rt_list_insert_before b n l = rt_list_insert_after (last (h # xs)) n l"
    using S b by (subst insert_before_after) auto
  then show ?thesis using family_insert_after [OF F h n Q refl] by simp
qed

lemmas family_append = family_insert_before [where ys = "[]" and xs = "Q h" for Q h, simplified]

lemmas family_prepend = family_insert_after [where xs = "[]" and ys = "Q h" for Q h, simplified]

subsection \<open>Removal\<close>

lemma family_remove:
  assumes F: "family l H Q" and n: "n \<notin> H"
  shows "family (rt_list_remove n l) H (without n Q)"
proof (cases "\<exists>h \<in> H. n \<in> set (Q h)")
  case False
  then have "rt_list_remove n l = l" using familyD(4) [OF F n] remove_alone by blast
  then show ?thesis using F False by (auto intro: family_cong simp: without_fresh)
next
  case True
  then obtain h where h: "h \<in> H" "n \<in> set (Q h)" by blast
  note D = familyD [OF F]
  let ?l = "rt_list_remove n l"
  obtain xs ys where Q: "Q h = xs @ n # ys" "n \<notin> set xs" by (meson h(2) split_list_first)
  have L: "dlist l h (xs @ n # ys)" using D(1) [OF h(1)] Q by simp
  have w: "without n Q h = xs @ ys" using Q by (simp add: without_def remove1_append)
  have wo: "without n Q k = Q k" if "k \<in> H" "k \<noteq> h" for k
    using D(3) [OF that(1) h(1), of n] that h by (auto intro: without_fresh)
  have new: "dlist ?l h (xs @ ys)" "dlist ?l n []" by (rule dlist_remove [OF L])+
  have old: "dlist ?l k zs" if "dlist l k zs" "set (k # zs) \<inter> set (h # xs @ n # ys) = {}" for k zs
    by (rule remove_other [OF that(1) L that(2)])
  have oldH: "dlist ?l k (Q k)" if k: "k \<in> H" "k \<noteq> h" for k
  proof (rule old)
    show "dlist l k (Q k)" using k by (intro D)
    show "set (k # Q k) \<inter> set (h # xs @ n # ys) = {}"
      using D(2) [OF k(1)] D(2) [OF h(1)] D(3) [OF k(1) h(1)] k h by (fastforce simp: Q)
  qed
  have oldx: "dlist ?l x []" if "x \<notin> H" "\<And>k. k \<in> H \<Longrightarrow> x \<notin> set (without n Q k)" for x
  proof (cases "x = n")
    case True then show ?thesis using new(2) by simp
  next
    case False
    have *: "x \<notin> set (Q k)" if "k \<in> H" for k
      using \<open>\<And>k. k \<in> H \<Longrightarrow> x \<notin> set (without n Q k)\<close> [OF that] False set_without [OF F that] by auto
    show ?thesis
    proof (rule old)
      show "dlist l x []" using that(1) * by (intro D(4)) auto
      show "set [x] \<inter> set (h # xs @ n # ys) = {}" using that(1) h(1) * [OF h(1)] by (auto simp: Q)
    qed
  qed
  show ?thesis
  proof (rule familyI)
    fix k assume "k \<in> H"
    then show "dlist ?l k (without n Q k)" using new(1) oldH w wo by (cases "k = h") simp_all
  next
    fix x assume "x \<notin> H" "\<forall>k \<in> H. x \<notin> set (without n Q k)"
    then show "dlist ?l x []" by (intro oldx) auto
  qed (use D(2,3) set_without [OF F] in blast)+
qed

lemma family_removed: "family l H Q \<Longrightarrow> h \<in> H \<Longrightarrow> n \<notin> set (without n Q h)"
  by (simp add: set_without)

text \<open>A new list, or the node of a new thread.\<close>

lemma family_new_head:
  assumes F: "family l H Q" and n: "n \<notin> H" "\<And>k. k \<in> H \<Longrightarrow> n \<notin> set (Q k)"
  shows "family (rt_list_init n l) (insert n H) (Q(n := []))"
proof -
  note D = familyD [OF F]
  have "dlist (rt_list_init n l) k (Q k)" if "k \<in> H" for k
    using that n D(1) by (intro init_other) auto
  moreover have "dlist (rt_list_init n l) x []" if "x \<notin> H" "\<forall>k \<in> H. x \<notin> set (Q k)" "x \<noteq> n" for x
    using that D(4) by (intro init_other) auto
  moreover have "(\<forall>k \<in> insert n H. x \<notin> set ((Q(n := [])) k)) \<longleftrightarrow> (\<forall>k \<in> H. x \<notin> set (Q k))" for x
    using n by auto
  ultimately show ?thesis
    using dlist_init [of n l] n D(2,3) by (intro familyI) (auto split: if_splits)
qed

lemma family_init_node:
  assumes F: "family l H Q" and n: "n \<notin> H" "\<And>k. k \<in> H \<Longrightarrow> n \<notin> set (Q k)"
  shows "family (rt_list_init n l) H Q"
proof (rule familyI)
  note D = familyD [OF F]
  show "dlist (rt_list_init n l) h (Q h)" if "h \<in> H" for h
    using that n D(1) by (intro init_other) auto
  show "dlist (rt_list_init n l) x []" if "x \<notin> H" "\<forall>h \<in> H. x \<notin> set (Q h)" for x
    using that D(4) dlist_init [of n l] init_other [of l x "[]" n] by (cases "x = n") auto
qed (use familyD(2,3) [OF F] in blast)+

lemma family_isempty: "family l H Q \<Longrightarrow> h \<in> H \<Longrightarrow> rt_list_isempty h l \<longleftrightarrow> Q h = []"
  by (rule isempty_iff, rule familyD)

lemma family_first: "family l H Q \<Longrightarrow> h \<in> H \<Longrightarrow> Q h \<noteq> [] \<Longrightarrow> next_link l h = hd (Q h)"
  using dlist_ends(1) [of l h "Q h"] familyD(1) [of l H Q h] by (cases "Q h") auto

end
