(* ===== verification/RtFfs.thy ===== *)
theory RtFfs
  imports Prelude
begin

text \<open>
  \<open>__rt_ffs\<close> of \<open>src/kservice.c\<close>, the search for the lowest set bit the scheduler uses on its
  bitmap of ready priorities: the table of the 256 bytes and the choice of the byte. The argument is
  read as the 32 bits of the \<open>int\<close> it is.
\<close>

definition lowest_bit_bitmap :: "nat list" where
  "lowest_bit_bitmap =
     [0, 0, 1, 0, 2, 0, 1, 0, 3, 0, 1, 0, 2, 0, 1, 0,
      4, 0, 1, 0, 2, 0, 1, 0, 3, 0, 1, 0, 2, 0, 1, 0,
      5, 0, 1, 0, 2, 0, 1, 0, 3, 0, 1, 0, 2, 0, 1, 0,
      4, 0, 1, 0, 2, 0, 1, 0, 3, 0, 1, 0, 2, 0, 1, 0,
      6, 0, 1, 0, 2, 0, 1, 0, 3, 0, 1, 0, 2, 0, 1, 0,
      4, 0, 1, 0, 2, 0, 1, 0, 3, 0, 1, 0, 2, 0, 1, 0,
      5, 0, 1, 0, 2, 0, 1, 0, 3, 0, 1, 0, 2, 0, 1, 0,
      4, 0, 1, 0, 2, 0, 1, 0, 3, 0, 1, 0, 2, 0, 1, 0,
      7, 0, 1, 0, 2, 0, 1, 0, 3, 0, 1, 0, 2, 0, 1, 0,
      4, 0, 1, 0, 2, 0, 1, 0, 3, 0, 1, 0, 2, 0, 1, 0,
      5, 0, 1, 0, 2, 0, 1, 0, 3, 0, 1, 0, 2, 0, 1, 0,
      4, 0, 1, 0, 2, 0, 1, 0, 3, 0, 1, 0, 2, 0, 1, 0,
      6, 0, 1, 0, 2, 0, 1, 0, 3, 0, 1, 0, 2, 0, 1, 0,
      4, 0, 1, 0, 2, 0, 1, 0, 3, 0, 1, 0, 2, 0, 1, 0,
      5, 0, 1, 0, 2, 0, 1, 0, 3, 0, 1, 0, 2, 0, 1, 0,
      4, 0, 1, 0, 2, 0, 1, 0, 3, 0, 1, 0, 2, 0, 1, 0]"

definition rt_ffs :: "u32 \<Rightarrow> nat" where
  "rt_ffs value =
     (if value = 0 then 0
      else if value AND 0xff \<noteq> 0 then lowest_bit_bitmap ! unat (value AND 0xff) + 1
      else if value AND 0xff00 \<noteq> 0 then lowest_bit_bitmap ! unat (drop_bit 8 (value AND 0xff00)) + 9
      else if value AND 0xff0000 \<noteq> 0 then lowest_bit_bitmap ! unat (drop_bit 16 (value AND 0xff0000)) + 17
      else lowest_bit_bitmap ! unat (drop_bit 24 (value AND 0xff000000)) + 25)"

text \<open>The table, entry by entry: \<open>lowest_in_byte b k\<close> says that \<open>k\<close> is the lowest set bit of \<open>b\<close>.\<close>

fun lowest_in_byte :: "int \<Rightarrow> nat \<Rightarrow> bool" where
  "lowest_in_byte b 0 \<longleftrightarrow> odd b"
| "lowest_in_byte b (Suc k) \<longleftrightarrow> even b \<and> lowest_in_byte (b div 2) k"

fun entries_from :: "int \<Rightarrow> nat list \<Rightarrow> bool" where
  "entries_from b [] \<longleftrightarrow> True"
| "entries_from b (k # ks) \<longleftrightarrow> (b = 0 \<or> lowest_in_byte b k) \<and> entries_from (b + 1) ks"

lemma table_entries: "entries_from 0 lowest_bit_bitmap" "length lowest_bit_bitmap = 256"
  by (code_simp, simp add: lowest_bit_bitmap_def)

lemma entries_from_nth:
  "entries_from b ks \<Longrightarrow> i < length ks \<Longrightarrow> b + int i = 0 \<or> lowest_in_byte (b + int i) (ks ! i)"
proof (induction ks arbitrary: b i)
  case (Cons k ks)
  then show ?case using Cons.IH [of "b + 1" "i - 1"] by (cases i) (auto simp: add.assoc)
qed simp

lemma lowest_in_byte_bits:
  "lowest_in_byte b k \<Longrightarrow> bit b k \<and> (\<forall>i < k. \<not> bit b i)"
proof (induction b k rule: lowest_in_byte.induct)
  case (2 b k)
  then show ?case by (auto simp: bit_0 bit_Suc less_Suc_eq_0_disj)
qed (simp add: bit_0)

lemma table_entry:
  assumes "b \<noteq> 0" and "b < 256"
  shows "lowest_bit_bitmap ! b < 8" "bit b (lowest_bit_bitmap ! b)"
    "i < lowest_bit_bitmap ! b \<Longrightarrow> \<not> bit b i"
proof -
  have "lowest_in_byte (int b) (lowest_bit_bitmap ! b)"
    using entries_from_nth [OF table_entries(1), of b] table_entries(2) assms by simp
  note L = lowest_in_byte_bits [OF this, unfolded bit_of_nat_iff_bit]
  show "bit b (lowest_bit_bitmap ! b)" "i < lowest_bit_bitmap ! b \<Longrightarrow> \<not> bit b i" using L by simp_all
  have "b = take_bit 8 b" using assms(2) by (simp add: take_bit_eq_mod)
  then show "lowest_bit_bitmap ! b < 8" using L by (metis bit_take_bit_iff)
qed

lemma byte_of:
  fixes v :: u32
  assumes "b = unat (drop_bit n v AND 0xff)"
  shows "b < 256" and "bit b i \<longleftrightarrow> i < 8 \<and> bit v (n + i)"
proof -
  have m: "drop_bit n v AND 0xff = take_bit 8 (drop_bit n v)"
    by (simp add: take_bit_eq_mask mask_eq_decr_exp)
  have b: "b = take_bit 8 (unat (drop_bit n v))"
    by (simp add: assms m unsigned_take_bit_eq)
  then show "b < 256" using take_bit_nat_less_exp [of 8 "unat (drop_bit n v)"] by simp
  show "bit b i \<longleftrightarrow> i < 8 \<and> bit v (n + i)"
    unfolding b by (auto simp: bit_take_bit_iff bit_unsigned_iff bit_drop_bit_eq dest: bit_imp_le_length)
qed

text \<open>The masks of the source select the four bytes.\<close>

lemma byte_masks:
  fixes v :: u32
  shows "drop_bit 8 (v AND 0xff00) = drop_bit 8 v AND 0xff"
    "drop_bit 16 (v AND 0xff0000) = drop_bit 16 v AND 0xff"
    "drop_bit 24 (v AND 0xff000000) = drop_bit 24 v AND 0xff"
  by (simp_all add: drop_bit_and)

lemma byte_zero:
  fixes v :: u32
  assumes "v AND push_bit n 0xff = 0" and "n \<le> i" and "i < n + 8" and "i < 32"
  shows "\<not> bit v i"
proof
  assume "bit v i"
  moreover have "bit (push_bit n (0xff :: u32)) i"
  proof -
    have m: "(0xff :: u32) = mask 8" by (simp add: mask_eq_decr_exp)
    show ?thesis unfolding m using assms(2-4) by (auto simp: bit_push_bit_iff bit_mask_iff)
  qed
  ultimately have "bit (v AND push_bit n 0xff) i" by (simp add: bit_and_iff)
  with assms(1) show False by simp
qed

lemma byte_nonzero:
  fixes v :: u32
  assumes "v AND push_bit n 0xff \<noteq> 0"
  shows "drop_bit n v AND 0xff \<noteq> 0"
proof
  assume z: "drop_bit n v AND 0xff = 0"
  obtain i where "bit (v AND push_bit n 0xff) i" using assms bit_eqI [of "v AND push_bit n 0xff" 0] by auto
  then have "bit (drop_bit n v AND 0xff) (i - n)"
    by (auto simp: bit_and_iff bit_push_bit_iff bit_drop_bit_eq)
  with z show False by simp
qed

text \<open>
  The result is the number of the lowest set bit, counted from 1, and 0 for the value 0, for every
  32-bit value.
\<close>

lemma table_bit:
  fixes v :: u32
  assumes "drop_bit n v AND 0xff \<noteq> 0" and "k = lowest_bit_bitmap ! unat (drop_bit n v AND 0xff)"
  shows "k < 8" and "bit v (n + k)" and "n \<le> i \<Longrightarrow> i < n + k \<Longrightarrow> \<not> bit v i"
proof -
  let ?b = "unat (drop_bit n v AND 0xff)"
  have b: "?b \<noteq> 0" using assms(1) by (metis unat_eq_zero)
  note T = table_entry [OF b byte_of(1) [OF refl]] and B = byte_of(2) [OF refl, of n v]
  show "k < 8" using T(1) assms(2) by simp
  show "bit v (n + k)" using T(2) B assms(2) by simp
  show "n \<le> i \<Longrightarrow> i < n + k \<Longrightarrow> \<not> bit v i"
    using T(1) T(3) [of "i - n"] B [of "i - n"] assms(2) by auto
qed

lemma rt_ffs_zero [simp]: "rt_ffs 0 = 0"
  by (simp add: rt_ffs_def)

lemma rt_ffs_lowest:
  assumes "v \<noteq> 0"
  shows "1 \<le> rt_ffs v" and "rt_ffs v \<le> 32" and "bit v (rt_ffs v - 1)" and "i < rt_ffs v - 1 \<Longrightarrow> \<not> bit v i"
proof -
  have z: "\<not> bit v i" if "i < n + 8" "n \<le> i" "v AND push_bit n 0xff = 0" "i < 32" for i n
    using byte_zero [OF that(3) that(2) that(1) that(4)] .
  have m: "push_bit 0 0xff = (0xff :: u32)" "push_bit 8 0xff = (0xff00 :: u32)"
    "push_bit 16 0xff = (0xff0000 :: u32)" "push_bit 24 0xff = (0xff000000 :: u32)"
    by (simp_all add: push_bit_eq_mult)
  note Z = z [where n = 0, unfolded m] z [where n = 8, unfolded m] z [where n = 16, unfolded m]
  have low: "1 \<le> rt_ffs v \<and> rt_ffs v \<le> 32 \<and> bit v (rt_ffs v - 1) \<and> (\<forall>i < rt_ffs v - 1. \<not> bit v i)"
    if "rt_ffs v = lowest_bit_bitmap ! unat (drop_bit n v AND 0xff) + (n + 1)"
      "drop_bit n v AND 0xff \<noteq> 0" "n \<le> 24" "\<forall>i < n. \<not> bit v i" for n
    using table_bit [OF that(2) refl] that by (auto simp: not_less [symmetric] add.commute)
  consider (0) "v AND 0xff \<noteq> 0" | (1) "v AND 0xff = 0" "v AND 0xff00 \<noteq> 0"
    | (2) "v AND 0xff = 0" "v AND 0xff00 = 0" "v AND 0xff0000 \<noteq> 0"
    | (3) "v AND 0xff = 0" "v AND 0xff00 = 0" "v AND 0xff0000 = 0" by blast
  then have "1 \<le> rt_ffs v \<and> rt_ffs v \<le> 32 \<and> bit v (rt_ffs v - 1) \<and> (\<forall>i < rt_ffs v - 1. \<not> bit v i)"
  proof cases
    case 0
    then show ?thesis by (intro low [of 0]) (auto simp: rt_ffs_def)
  next
    case 1
    then have "drop_bit 8 v AND 0xff \<noteq> 0" using byte_nonzero [of v 8] m by simp
    then show ?thesis using 1 assms Z(1) by (intro low [of 8]) (auto simp: rt_ffs_def byte_masks)
  next
    case 2
    then have "drop_bit 16 v AND 0xff \<noteq> 0" using byte_nonzero [of v 16] m by simp
    moreover have "\<not> bit v i" if "i < 16" for i using that Z(1,2) [of i] 2 by (cases "i < 8") simp_all
    ultimately show ?thesis using 2 assms by (intro low [of 16]) (auto simp: rt_ffs_def byte_masks)
  next
    case 3
    have none: "\<not> bit v i" if "i < 24" for i
      using that Z [of i] 3 by (cases "i < 8"; cases "i < 16") simp_all
    have m8: "(0xff :: u32) = mask 8" by (simp add: mask_eq_decr_exp)
    obtain i where i: "bit v i" using assms bit_eqI [of v 0] by auto
    then have "24 \<le> i" "i < 32" using none [of i] bit_imp_le_length [OF i] by (auto simp: not_less [symmetric])
    with i have "bit (drop_bit 24 v AND 0xff) (i - 24)"
      unfolding m8 by (simp add: bit_and_iff bit_drop_bit_eq bit_mask_iff less_diff_conv2)
    then have "drop_bit 24 v AND 0xff \<noteq> 0" by auto
    then show ?thesis using 3 assms none by (intro low [of 24]) (auto simp: rt_ffs_def byte_masks)
  qed
  then show "1 \<le> rt_ffs v" and "rt_ffs v \<le> 32" and "bit v (rt_ffs v - 1)" and "i < rt_ffs v - 1 \<Longrightarrow> \<not> bit v i"
    by blast+
qed

end
