(* ===== verification/Sched.thy ===== *)
theory Sched
  imports RtFamily RtFfs Timer
begin

text \<open>
  The scheduler and the threads of the kernel, \<open>src/scheduler.c\<close>, \<open>src/thread.c\<close>, \<open>src/irq.c\<close>,
  \<open>src/idle.c\<close> and the tick of \<open>src/clock.c\<close>, with \<open>RT_THREAD_PRIORITY_MAX\<close> 32, \<open>RT_DEBUG\<close> and
  \<open>RT_USING_HEAP\<close>, without hooks, signals, modules and the stack check.

  A thread is named by the address of its list node \<open>tlist\<close>, and its timer has the same number in
  the timer lists. The addresses 0 to 31 are the heads of \<open>rt_thread_priority_table\<close>, 32 is
  \<open>rt_thread_defunct\<close>; the wait lists of other components have heads above. A context switch is an
  event: the processor then runs \<open>current_thread\<close>, and a blocking function has two parts, the one up
  to \<open>rt_schedule\<close> and the one that runs when the thread is resumed.
\<close>

subsection \<open>State\<close>

record kthread =
  th_stat :: u8
  init_priority :: u8
  current_priority :: u8
  number_mask :: u32
  th_error :: int
  th_init_tick :: u32
  th_remaining_tick :: u32
  th_cleanup :: bool
  th_static :: bool

datatype switch = Switch_To nat | Switch nat nat | Switch_In_Interrupt nat nat

record kernel = timers +
  tlists :: rt_list_node
  thread_of :: "nat \<Rightarrow> kthread"
  ready_group :: u32
  current_thread :: "nat option"
  rt_current_priority :: u8
  lock_nest :: u16
  interrupt_nest :: u8
  switches :: "switch list"

abbreviation PRIORITY_MAX :: nat where "PRIORITY_MAX \<equiv> 32"
definition rt_thread_defunct :: nat where "rt_thread_defunct = 32"

definition RT_THREAD_INIT :: u8 where "RT_THREAD_INIT = 0"
definition RT_THREAD_READY :: u8 where "RT_THREAD_READY = 1"
definition RT_THREAD_SUSPEND :: u8 where "RT_THREAD_SUSPEND = 2"
definition RT_THREAD_CLOSE :: u8 where "RT_THREAD_CLOSE = 4"
definition RT_THREAD_STAT_MASK :: u8 where "RT_THREAD_STAT_MASK = 0x0f"

definition RT_EOK :: int where "RT_EOK = 0"
definition RT_ERROR :: int where "RT_ERROR = 1"
definition RT_ETIMEOUT :: int where "RT_ETIMEOUT = 2"
definition RT_EINTR :: int where "RT_EINTR = 9"

definition thread_stat :: "nat \<Rightarrow> 'a kernel_scheme \<Rightarrow> u8" where
  "thread_stat t s = th_stat (thread_of s t) AND RT_THREAD_STAT_MASK"

definition priority_of :: "nat \<Rightarrow> 'a kernel_scheme \<Rightarrow> nat" where
  "priority_of t s = unat (current_priority (thread_of s t))"

definition upd_thread :: "nat \<Rightarrow> (kthread \<Rightarrow> kthread) \<Rightarrow> 'a kernel_scheme \<Rightarrow> 'a kernel_scheme" where
  "upd_thread t f s = s\<lparr>thread_of := (thread_of s)(t := f (thread_of s t))\<rparr>"

definition upd_lists :: "(rt_list_node \<Rightarrow> rt_list_node) \<Rightarrow> 'a kernel_scheme \<Rightarrow> 'a kernel_scheme" where
  "upd_lists f s = s\<lparr>tlists := f (tlists s)\<rparr>"

definition set_stat :: "u8 \<Rightarrow> nat \<Rightarrow> 'a kernel_scheme \<Rightarrow> 'a kernel_scheme" where
  "set_stat st t = upd_thread t (\<lambda>x. x\<lparr>th_stat := st\<rparr>)"

definition change_stat :: "u8 \<Rightarrow> nat \<Rightarrow> 'a kernel_scheme \<Rightarrow> 'a kernel_scheme" where
  "change_stat st t =
     upd_thread t (\<lambda>x. x\<lparr>th_stat := st OR (th_stat x AND NOT RT_THREAD_STAT_MASK)\<rparr>)"

definition set_error :: "int \<Rightarrow> nat \<Rightarrow> 'a kernel_scheme \<Rightarrow> 'a kernel_scheme" where
  "set_error e t = upd_thread t (\<lambda>x. x\<lparr>th_error := e\<rparr>)"

definition set_priority :: "u8 \<Rightarrow> nat \<Rightarrow> 'a kernel_scheme \<Rightarrow> 'a kernel_scheme" where
  "set_priority p t =
     upd_thread t (\<lambda>x. x\<lparr>current_priority := p, number_mask := push_bit (unat p) 1\<rparr>)"

subsection \<open>The scheduler\<close>

definition rt_system_scheduler_init :: "'a kernel_scheme \<Rightarrow> 'a kernel_scheme" where
  "rt_system_scheduler_init s =
     s\<lparr>lock_nest := 0, tlists := rt_list_init rt_thread_defunct (fold rt_list_init [0..<PRIORITY_MAX] (tlists s)),
       rt_current_priority := 31, current_thread := None, ready_group := 0\<rparr>"

text \<open>The index of the ready list to be served; outside the table when no thread is ready.\<close>

definition highest_ready :: "'a kernel_scheme \<Rightarrow> int" where
  "highest_ready s = int (rt_ffs (ready_group s)) - 1"

definition rt_system_scheduler_start :: "'a kernel_scheme \<Rightarrow> 'a kernel_scheme run" where
  "rt_system_scheduler_start s =
     (if highest_ready s < 0 then stops (Out_Of_Bounds ''rt_thread_priority_table'')
      else
        (let to_thread = next_link (tlists s) (nat (highest_ready s)) in
         returns (s\<lparr>current_thread := Some to_thread, switches := switches s @ [Switch_To to_thread]\<rparr>)))"

definition rt_schedule :: "'a kernel_scheme \<Rightarrow> 'a kernel_scheme run" where
  "rt_schedule s =
     (if lock_nest s = 0 then
        (if highest_ready s < 0 then stops (Out_Of_Bounds ''rt_thread_priority_table'')
         else
           (let to_thread = next_link (tlists s) (nat (highest_ready s)) in
            if Some to_thread \<noteq> current_thread s then
              (case current_thread s of
                 None \<Rightarrow> stops (Null_Deref ''from_thread'')
               | Some from_thread \<Rightarrow>
                   returns (s\<lparr>rt_current_priority := of_int (highest_ready s),
                              current_thread := Some to_thread,
                              switches := switches s @
                                [(if interrupt_nest s = 0 then Switch from_thread to_thread
                                  else Switch_In_Interrupt from_thread to_thread)]\<rparr>))
            else returns s))
      else returns s)"

text \<open>The table is indexed by the current priority: an index of 32 or more is outside.\<close>

definition rt_schedule_insert_thread :: "nat \<Rightarrow> 'a kernel_scheme \<Rightarrow> 'a kernel_scheme run" where
  "rt_schedule_insert_thread t s =
     (let s = change_stat RT_THREAD_READY t s in
      if \<not> priority_of t s < PRIORITY_MAX then stops (Out_Of_Bounds ''rt_thread_priority_table'')
      else
        (let s = upd_lists (rt_list_insert_before (priority_of t s) t) s in
         returns (s\<lparr>ready_group := ready_group s OR number_mask (thread_of s t)\<rparr>)))"

definition rt_schedule_remove_thread :: "nat \<Rightarrow> 'a kernel_scheme \<Rightarrow> 'a kernel_scheme run" where
  "rt_schedule_remove_thread t s =
     (let s = upd_lists (rt_list_remove t) s in
      if \<not> priority_of t s < PRIORITY_MAX then stops (Out_Of_Bounds ''rt_thread_priority_table'')
      else if rt_list_isempty (priority_of t s) (tlists s)
      then returns (s\<lparr>ready_group := ready_group s AND NOT (number_mask (thread_of s t))\<rparr>)
      else returns s)"

definition rt_enter_critical :: "'a kernel_scheme \<Rightarrow> 'a kernel_scheme" where
  "rt_enter_critical s = s\<lparr>lock_nest := lock_nest s + 1\<rparr>"

definition rt_exit_critical :: "'a kernel_scheme \<Rightarrow> 'a kernel_scheme run" where
  "rt_exit_critical s =
     (let s = s\<lparr>lock_nest := lock_nest s - 1\<rparr> in
      if sint (lock_nest s) \<le> 0 then
        (let s = s\<lparr>lock_nest := 0\<rparr> in
         if current_thread s \<noteq> None then rt_schedule s else returns s)
      else returns s)"

definition rt_critical_level :: "'a kernel_scheme \<Rightarrow> u16" where
  "rt_critical_level s = lock_nest s"

subsection \<open>Interrupts\<close>

definition rt_interrupt_enter :: "'a kernel_scheme \<Rightarrow> 'a kernel_scheme" where
  "rt_interrupt_enter s = s\<lparr>interrupt_nest := interrupt_nest s + 1\<rparr>"

definition rt_interrupt_leave :: "'a kernel_scheme \<Rightarrow> 'a kernel_scheme" where
  "rt_interrupt_leave s = s\<lparr>interrupt_nest := interrupt_nest s - 1\<rparr>"

definition rt_interrupt_get_nest :: "'a kernel_scheme \<Rightarrow> u8" where
  "rt_interrupt_get_nest s = interrupt_nest s"

text \<open>The context checks of \<open>rtdebug.h\<close>.\<close>

definition debug_not_in_interrupt :: "'a kernel_scheme \<Rightarrow> 'a kernel_scheme run" where
  "debug_not_in_interrupt s = (if interrupt_nest s \<noteq> 0 then stops (Assert_Hang ''not in ISR'') else returns s)"

definition debug_in_thread_context :: "'a kernel_scheme \<Rightarrow> 'a kernel_scheme run" where
  "debug_in_thread_context s =
     (if current_thread s = None then stops (Assert_Hang ''scheduler not started'')
      else debug_not_in_interrupt s)"

subsection \<open>Suspending and resuming\<close>

definition rt_thread_self :: "'a kernel_scheme \<Rightarrow> nat option" where
  "rt_thread_self s = current_thread s"

definition rt_thread_suspend :: "nat \<Rightarrow> 'a kernel_scheme \<Rightarrow> (int \<times> 'a kernel_scheme) run" where
  "rt_thread_suspend t s =
     (if thread_stat t s \<noteq> RT_THREAD_READY then returns (- RT_ERROR, s)
      else andthen (rt_schedule_remove_thread t (change_stat RT_THREAD_SUSPEND t s))
        (\<lambda>s. returns (RT_EOK, snd (rt_timer_stop t s))))"

definition rt_thread_resume :: "nat \<Rightarrow> 'a kernel_scheme \<Rightarrow> (int \<times> 'a kernel_scheme) run" where
  "rt_thread_resume t s =
     (if thread_stat t s \<noteq> RT_THREAD_SUSPEND then returns (- RT_ERROR, s)
      else andthen (rt_schedule_insert_thread t (snd (rt_timer_stop t (upd_lists (rt_list_remove t) s))))
        (\<lambda>s. returns (RT_EOK, s)))"

text \<open>The timeout function of the timers of the threads.\<close>

definition rt_thread_timeout :: "nat \<Rightarrow> 'a kernel_scheme \<Rightarrow> 'a kernel_scheme run" where
  "rt_thread_timeout t s =
     (if thread_stat t s \<noteq> RT_THREAD_SUSPEND then stops (Assert_Hang ''thread suspended'')
      else andthen (rt_schedule_insert_thread t (upd_lists (rt_list_remove t) (set_error (- RT_ETIMEOUT) t s)))
        rt_schedule)"

subsection \<open>Life cycle\<close>

text \<open>\<open>_rt_thread_init\<close>; the entry, the stack and the name are not part of the state.\<close>

definition thread_init_fields :: "bool \<Rightarrow> nat \<Rightarrow> u8 \<Rightarrow> u32 \<Rightarrow> 'a kernel_scheme \<Rightarrow> 'a kernel_scheme run" where
  "thread_init_fields static t priority tick s =
     (let s = upd_lists (rt_list_init t) s in
      if \<not> unat priority < PRIORITY_MAX then stops (Assert_Hang ''priority'')
      else returns (rt_timer_init t 0 0
        (upd_thread t (\<lambda>_. \<lparr>th_stat = RT_THREAD_INIT, init_priority = priority, current_priority = priority,
           number_mask = 0, th_error = RT_EOK, th_init_tick = tick, th_remaining_tick = tick,
           th_cleanup = False, th_static = static\<rparr>) s)))"

definition rt_thread_init :: "nat \<Rightarrow> u8 \<Rightarrow> u32 \<Rightarrow> 'a kernel_scheme \<Rightarrow> 'a kernel_scheme run" where
  "rt_thread_init t priority tick s = thread_init_fields True t priority tick s"

text \<open>\<open>rt_thread_create\<close>: what the allocators of the object and of the stack return are arguments.\<close>

definition rt_thread_create ::
  "nat option \<Rightarrow> bool \<Rightarrow> u8 \<Rightarrow> u32 \<Rightarrow> 'a kernel_scheme \<Rightarrow> (nat option \<times> 'a kernel_scheme) run" where
  "rt_thread_create obj stack_ok priority tick s =
     (case obj of
        None \<Rightarrow> returns (None, s)
      | Some t \<Rightarrow>
          if \<not> stack_ok then returns (None, s)
          else andthen (thread_init_fields False t priority tick s) (\<lambda>s. returns (Some t, s)))"

definition rt_thread_startup :: "nat \<Rightarrow> 'a kernel_scheme \<Rightarrow> (int \<times> 'a kernel_scheme) run" where
  "rt_thread_startup t s =
     (if thread_stat t s \<noteq> RT_THREAD_INIT then stops (Assert_Hang ''thread init'')
      else andthen (rt_thread_resume t (set_stat RT_THREAD_SUSPEND t
                      (set_priority (init_priority (thread_of s t)) t s)))
        (\<lambda>(_, s). if rt_thread_self s \<noteq> None then andthen (rt_schedule s) (\<lambda>s. returns (RT_EOK, s))
                  else returns (RT_EOK, s)))"

text \<open>The end of the three ways a thread is closed: detached, or queued for the idle thread.\<close>

definition close_thread :: "nat \<Rightarrow> 'a kernel_scheme \<Rightarrow> 'a kernel_scheme" where
  "close_thread t s =
     (if th_static (thread_of s t) \<and> \<not> th_cleanup (thread_of s t) then s
      else upd_lists (rt_list_insert_after rt_thread_defunct t) s)"

definition rt_thread_exit :: "'a kernel_scheme \<Rightarrow> 'a kernel_scheme run" where
  "rt_thread_exit s =
     (case current_thread s of
        None \<Rightarrow> stops (Null_Deref ''thread'')
      | Some t \<Rightarrow>
          andthen (rt_schedule_remove_thread t s)
            (\<lambda>s. rt_schedule (close_thread t (rt_timer_detach t (set_stat RT_THREAD_CLOSE t s)))))"

definition rt_thread_detach :: "nat \<Rightarrow> 'a kernel_scheme \<Rightarrow> (int \<times> 'a kernel_scheme) run" where
  "rt_thread_detach t s =
     (if \<not> th_static (thread_of s t) then stops (Assert_Hang ''rt_object_is_systemobject'')
      else andthen (if thread_stat t s \<noteq> RT_THREAD_INIT then rt_schedule_remove_thread t s else returns s)
        (\<lambda>s. returns (RT_EOK, close_thread t (set_stat RT_THREAD_CLOSE t (rt_timer_detach t s)))))"

definition rt_thread_delete :: "nat \<Rightarrow> 'a kernel_scheme \<Rightarrow> (int \<times> 'a kernel_scheme) run" where
  "rt_thread_delete t s =
     (if th_static (thread_of s t) then stops (Assert_Hang ''rt_object_is_systemobject'')
      else andthen (if thread_stat t s \<noteq> RT_THREAD_INIT then rt_schedule_remove_thread t s else returns s)
        (\<lambda>s. returns (RT_EOK, upd_lists (rt_list_insert_after rt_thread_defunct t)
                                (set_stat RT_THREAD_CLOSE t (rt_timer_detach t s)))))"

subsection \<open>Yielding, sleeping, control\<close>

definition rt_thread_yield :: "'a kernel_scheme \<Rightarrow> 'a kernel_scheme run" where
  "rt_thread_yield s =
     (case current_thread s of
        None \<Rightarrow> stops (Null_Deref ''thread'')
      | Some t \<Rightarrow>
          if thread_stat t s = RT_THREAD_READY \<and> next_link (tlists s) t \<noteq> prev_link (tlists s) t then
            (let s = upd_lists (rt_list_remove t) s in
             if \<not> priority_of t s < PRIORITY_MAX then stops (Out_Of_Bounds ''rt_thread_priority_table'')
             else rt_schedule (upd_lists (rt_list_insert_before (priority_of t s) t) s))
          else returns s)"

text \<open>
  How a blocking call ends: it returns to its caller, or another thread runs and the call goes on
  with its second part when the thread runs again. \<open>wait_here\<close> is the call of \<open>rt_schedule\<close> with the
  second part behind it: when the scheduler is locked the call goes on at once.
\<close>

datatype 'r outcome = Back 'r | Switched_Out

definition wait_here ::
  "nat \<Rightarrow> ('a kernel_scheme \<Rightarrow> 'r \<times> 'a kernel_scheme) \<Rightarrow> 'a kernel_scheme \<Rightarrow>
     ('r outcome \<times> 'a kernel_scheme) run" where
  "wait_here t woken s =
     andthen (rt_schedule s)
       (\<lambda>s. if current_thread s = Some t then returns (map_prod Back id (woken s)) else returns (Switched_Out, s))"

definition clear_timeout :: "nat \<Rightarrow> 'a kernel_scheme \<Rightarrow> 'a kernel_scheme" where
  "clear_timeout t s = (if th_error (thread_of s t) = - RT_ETIMEOUT then set_error RT_EOK t s else s)"

text \<open>Suspending the calling thread and arming its timer: \<open>tick\<close> is the value behind the argument.\<close>

definition suspend_for :: "nat \<Rightarrow> u32 \<Rightarrow> 'a kernel_scheme \<Rightarrow> 'a kernel_scheme run" where
  "suspend_for t tick s =
     andthen (rt_thread_suspend t s) (\<lambda>(_, s). rt_timer_start t (snd (rt_timer_control t 0 tick s)))"

definition sleep_woken :: "nat \<Rightarrow> 'a kernel_scheme \<Rightarrow> int \<times> 'a kernel_scheme" where
  "sleep_woken t s = (RT_EOK, clear_timeout t s)"

definition rt_thread_sleep :: "u32 \<Rightarrow> 'a kernel_scheme \<Rightarrow> (int outcome \<times> 'a kernel_scheme) run" where
  "rt_thread_sleep tick s =
     (case current_thread s of
        None \<Rightarrow> stops (Assert_Hang ''thread != RT_NULL'')
      | Some t \<Rightarrow> andthen (suspend_for t tick s) (wait_here t (sleep_woken t)))"

definition rt_thread_delay :: "u32 \<Rightarrow> 'a kernel_scheme \<Rightarrow> (int outcome \<times> 'a kernel_scheme) run" where
  "rt_thread_delay tick s = rt_thread_sleep tick s"

definition rt_thread_mdelay :: "int \<Rightarrow> int \<Rightarrow> 'a kernel_scheme \<Rightarrow> (int outcome \<times> 'a kernel_scheme) run" where
  "rt_thread_mdelay hz ms s = rt_thread_sleep (rt_tick_from_millisecond hz ms) s"

text \<open>
  \<open>rt_thread_delay_until\<close>: the result carries the value left behind \<open>tick\<close>. The value the timer is
  set to is the one of the source.
\<close>

definition delay_until_woken :: "nat \<Rightarrow> 'a kernel_scheme \<Rightarrow> (int \<times> u32) \<times> 'a kernel_scheme" where
  "delay_until_woken t s = ((RT_EOK, rt_tick s), clear_timeout t s)"

definition rt_thread_delay_until ::
  "u32 \<Rightarrow> u32 \<Rightarrow> 'a kernel_scheme \<Rightarrow> ((int \<times> u32) outcome \<times> 'a kernel_scheme) run" where
  "rt_thread_delay_until tick inc_tick s =
     (case current_thread s of
        None \<Rightarrow> stops (Assert_Hang ''thread != RT_NULL'')
      | Some t \<Rightarrow>
          if rt_tick s - tick < inc_tick
          then andthen (suspend_for t (rt_tick s - tick + inc_tick) s) (wait_here t (delay_until_woken t))
          else returns (Back (RT_EOK, rt_tick s), s))"

text \<open>The commands 0 to 2 are \<open>STARTUP\<close>, \<open>CLOSE\<close> and \<open>CHANGE_PRIORITY\<close>.\<close>

definition change_priority :: "nat \<Rightarrow> u8 \<Rightarrow> 'a kernel_scheme \<Rightarrow> 'a kernel_scheme run" where
  "change_priority t p s =
     (if thread_stat t s = RT_THREAD_READY then
        andthen (rt_schedule_remove_thread t s) (\<lambda>s. rt_schedule_insert_thread t (set_priority p t s))
      else returns (set_priority p t s))"

definition rt_thread_control :: "nat \<Rightarrow> int \<Rightarrow> u8 \<Rightarrow> 'a kernel_scheme \<Rightarrow> (int \<times> 'a kernel_scheme) run" where
  "rt_thread_control t cmd arg s =
     (if cmd = 2 then andthen (change_priority t arg s) (\<lambda>s. returns (RT_EOK, s))
      else if cmd = 0 then rt_thread_startup t s
      else if cmd = 1 then rt_thread_delete t s
      else returns (RT_EOK, s))"

subsection \<open>The tick\<close>

text \<open>\<open>cb t\<close> is the call of the timeout function of timer \<open>t\<close>; for the timer of a thread it is \<open>rt_thread_timeout\<close>.\<close>

definition spend_tick :: "nat \<Rightarrow> 'a kernel_scheme \<Rightarrow> 'a kernel_scheme run" where
  "spend_tick t s =
     (let s = upd_thread t (\<lambda>x. x\<lparr>th_remaining_tick := th_remaining_tick x - 1\<rparr>) s in
      if th_remaining_tick (thread_of s t) = 0
      then rt_thread_yield (upd_thread t (\<lambda>x. x\<lparr>th_remaining_tick := th_init_tick x\<rparr>) s)
      else returns s)"

definition rt_tick_increase ::
  "(nat \<Rightarrow> 'a kernel_scheme \<Rightarrow> 'a kernel_scheme run) \<Rightarrow> 'a kernel_scheme \<Rightarrow> 'a kernel_scheme run" where
  "rt_tick_increase cb s =
     (let s = s\<lparr>rt_tick := rt_tick s + 1\<rparr> in
      case rt_thread_self s of
        None \<Rightarrow> stops (Null_Deref ''thread'')
      | Some t \<Rightarrow> andthen (spend_tick t s) (rt_timer_check cb))"

subsection \<open>The idle thread\<close>

definition has_defunct_thread :: "'a kernel_scheme \<Rightarrow> bool" where
  "has_defunct_thread s \<longleftrightarrow> next_link (tlists s) rt_thread_defunct \<noteq> rt_thread_defunct"

text \<open>
  One defunct thread; \<open>cleanup t\<close> is its clean-up function. The flag says that the loop goes on: it
  ends after a static thread.
\<close>

definition reap ::
  "(nat \<Rightarrow> 'a kernel_scheme \<Rightarrow> 'a kernel_scheme run) \<Rightarrow> nat \<Rightarrow> 'a kernel_scheme \<Rightarrow> (bool \<times> 'a kernel_scheme) run" where
  "reap cleanup t s =
     (let s = rt_enter_critical (upd_lists (rt_list_remove t) s) in
      andthen (if th_cleanup (thread_of s t) then cleanup t s else returns s)
        (\<lambda>s. andthen (rt_exit_critical s) (\<lambda>s'. returns (\<not> th_static (thread_of s t), s'))))"

partial_function (option) rt_thread_idle_excute ::
  "(nat \<Rightarrow> 'a kernel_scheme \<Rightarrow> 'a kernel_scheme run) \<Rightarrow> 'a kernel_scheme \<Rightarrow> 'a kernel_scheme run" where
  "rt_thread_idle_excute cleanup s =
     (if \<not> has_defunct_thread s then returns s
      else if interrupt_nest s \<noteq> 0 then stops (Assert_Hang ''not in ISR'')
      else
        (case reap cleanup (next_link (tlists s) rt_thread_defunct) s of
           None \<Rightarrow> None
         | Some (Inl e) \<Rightarrow> stops e
         | Some (Inr (again, s')) \<Rightarrow>
             if again then rt_thread_idle_excute cleanup s' else returns s'))"

text \<open>\<open>idle\<close> is the address of the idle thread.\<close>

definition rt_thread_idle_init :: "nat \<Rightarrow> 'a kernel_scheme \<Rightarrow> (int \<times> 'a kernel_scheme) run" where
  "rt_thread_idle_init idle s =
     andthen (rt_thread_init idle 31 32 s) (rt_thread_startup idle)"

end
