(* ===== verification/SchedLaws.thy ===== *)
theory SchedLaws
  imports Sched TimerOrder "HOL-Library.Sublist"
begin

text \<open>
  The invariant of the scheduler and what its operations do to the ready lists. \<open>H\<close> are the heads of
  the thread lists, \<open>T\<close> the threads, \<open>Q h\<close> the threads in the list with head \<open>h\<close>.
\<close>

subsection \<open>Frames\<close>

lemmas kernel_defs = upd_lists_def upd_thread_def set_stat_def change_stat_def set_error_def set_priority_def

lemma upd_simps [simp]:
  "tlists (upd_thread t f s) = tlists s" "ready_group (upd_thread t f s) = ready_group s"
  "current_thread (upd_thread t f s) = current_thread s" "lock_nest (upd_thread t f s) = lock_nest s"
  "interrupt_nest (upd_thread t f s) = interrupt_nest s" "switches (upd_thread t f s) = switches s"
  "thread_of (upd_thread t f s) = (thread_of s)(t := f (thread_of s t))"
  "tlists (upd_lists g s) = g (tlists s)" "ready_group (upd_lists g s) = ready_group s"
  "current_thread (upd_lists g s) = current_thread s" "lock_nest (upd_lists g s) = lock_nest s"
  "interrupt_nest (upd_lists g s) = interrupt_nest s" "switches (upd_lists g s) = switches s"
  "thread_of (upd_lists g s) = thread_of s"
  "rows (upd_thread t f s) = rows s" "rows (upd_lists g s) = rows s"
  "timer_of (upd_thread t f s) = timer_of s" "timer_of (upd_lists g s) = timer_of s"
  "rt_tick (upd_thread t f s) = rt_tick s" "rt_tick (upd_lists g s) = rt_tick s"
  "timers.truncate (upd_thread t f s) = timers.truncate s" "timers.truncate (upd_lists g s) = timers.truncate s"
  "kernel.more (upd_thread t f s) = kernel.more s" "kernel.more (upd_lists g s) = kernel.more s"
  by (simp_all add: kernel_defs timers.truncate_def)

lemma stat_op_simps [simp]:
  "tlists (set_stat st t s) = tlists s" "ready_group (set_stat st t s) = ready_group s"
  "current_thread (set_stat st t s) = current_thread s" "lock_nest (set_stat st t s) = lock_nest s"
  "interrupt_nest (set_stat st t s) = interrupt_nest s" "switches (set_stat st t s) = switches s"
  "kernel.more (set_stat st t s) = kernel.more s" "rows (set_stat st t s) = rows s"
  "timer_of (set_stat st t s) = timer_of s" "rt_tick (set_stat st t s) = rt_tick s"
  "timers.truncate (set_stat st t s) = timers.truncate s"
  "tlists (change_stat st t s) = tlists s" "ready_group (change_stat st t s) = ready_group s"
  "current_thread (change_stat st t s) = current_thread s"
  "lock_nest (change_stat st t s) = lock_nest s"
  "interrupt_nest (change_stat st t s) = interrupt_nest s"
  "switches (change_stat st t s) = switches s" "kernel.more (change_stat st t s) = kernel.more s"
  "rows (change_stat st t s) = rows s" "timer_of (change_stat st t s) = timer_of s"
  "rt_tick (change_stat st t s) = rt_tick s"
  "timers.truncate (change_stat st t s) = timers.truncate s"
  "tlists (set_error e t s) = tlists s" "ready_group (set_error e t s) = ready_group s"
  "current_thread (set_error e t s) = current_thread s" "lock_nest (set_error e t s) = lock_nest s"
  "interrupt_nest (set_error e t s) = interrupt_nest s" "switches (set_error e t s) = switches s"
  "kernel.more (set_error e t s) = kernel.more s" "rows (set_error e t s) = rows s"
  "timer_of (set_error e t s) = timer_of s" "rt_tick (set_error e t s) = rt_tick s"
  "timers.truncate (set_error e t s) = timers.truncate s"
  "tlists (set_priority p t s) = tlists s" "ready_group (set_priority p t s) = ready_group s"
  "current_thread (set_priority p t s) = current_thread s"
  "lock_nest (set_priority p t s) = lock_nest s"
  "interrupt_nest (set_priority p t s) = interrupt_nest s"
  "switches (set_priority p t s) = switches s" "kernel.more (set_priority p t s) = kernel.more s"
  "rows (set_priority p t s) = rows s" "timer_of (set_priority p t s) = timer_of s"
  "rt_tick (set_priority p t s) = rt_tick s"
  "timers.truncate (set_priority p t s) = timers.truncate s"
  by (simp_all add: set_stat_def change_stat_def set_error_def set_priority_def)

lemma stat_op_fields [simp]:
  "x \<noteq> t \<Longrightarrow> thread_of (set_stat st t s) x = thread_of s x"
  "x \<noteq> t \<Longrightarrow> thread_of (change_stat st t s) x = thread_of s x"
  "x \<noteq> t \<Longrightarrow> thread_of (set_error e t s) x = thread_of s x"
  "x \<noteq> t \<Longrightarrow> thread_of (set_priority p t s) x = thread_of s x"
  "init_priority (thread_of (set_stat st t s) x) = init_priority (thread_of s x)"
  "init_priority (thread_of (change_stat st t s) x) = init_priority (thread_of s x)"
  "init_priority (thread_of (set_error e t s) x) = init_priority (thread_of s x)"
  "init_priority (thread_of (set_priority p t s) x) = init_priority (thread_of s x)"
  "number_mask (thread_of (set_stat st t s) x) = number_mask (thread_of s x)"
  "number_mask (thread_of (change_stat st t s) x) = number_mask (thread_of s x)"
  "number_mask (thread_of (set_error e t s) x) = number_mask (thread_of s x)"
  "current_priority (thread_of (set_stat st t s) x) = current_priority (thread_of s x)"
  "current_priority (thread_of (change_stat st t s) x) = current_priority (thread_of s x)"
  "current_priority (thread_of (set_error e t s) x) = current_priority (thread_of s x)"
  "th_error (thread_of (set_stat st t s) x) = th_error (thread_of s x)"
  "th_error (thread_of (change_stat st t s) x) = th_error (thread_of s x)"
  "th_error (thread_of (set_priority p t s) x) = th_error (thread_of s x)"
  "th_error (thread_of (set_error e t s) t) = e"
  by (simp_all add: set_stat_def change_stat_def set_error_def set_priority_def)

lemma kernel_of_timer_parts [simp]:
  "tlists (clear_flag f t s) = tlists s" "thread_of (clear_flag f t s) = thread_of s"
  "ready_group (clear_flag f t s) = ready_group s"
  "current_thread (clear_flag f t s) = current_thread s"
  "lock_nest (clear_flag f t s) = lock_nest s"
  "interrupt_nest (clear_flag f t s) = interrupt_nest s" "switches (clear_flag f t s) = switches s"
  "rt_current_priority (clear_flag f t s) = rt_current_priority s"
  "kernel.more (clear_flag f t s) = kernel.more s"
  "tlists (raise_flag f t s) = tlists s" "thread_of (raise_flag f t s) = thread_of s"
  "ready_group (raise_flag f t s) = ready_group s"
  "current_thread (raise_flag f t s) = current_thread s"
  "lock_nest (raise_flag f t s) = lock_nest s"
  "interrupt_nest (raise_flag f t s) = interrupt_nest s" "switches (raise_flag f t s) = switches s"
  "rt_current_priority (raise_flag f t s) = rt_current_priority s"
  "kernel.more (raise_flag f t s) = kernel.more s"
  "tlists (set_deadline t s) = tlists s" "thread_of (set_deadline t s) = thread_of s"
  "ready_group (set_deadline t s) = ready_group s"
  "current_thread (set_deadline t s) = current_thread s"
  "lock_nest (set_deadline t s) = lock_nest s"
  "interrupt_nest (set_deadline t s) = interrupt_nest s" "switches (set_deadline t s) = switches s"
  "rt_current_priority (set_deadline t s) = rt_current_priority s"
  "kernel.more (set_deadline t s) = kernel.more s"
  "tlists (log_event e s) = tlists s" "thread_of (log_event e s) = thread_of s"
  "ready_group (log_event e s) = ready_group s" "current_thread (log_event e s) = current_thread s"
  "lock_nest (log_event e s) = lock_nest s" "interrupt_nest (log_event e s) = interrupt_nest s"
  "switches (log_event e s) = switches s"
  "rt_current_priority (log_event e s) = rt_current_priority s"
  "kernel.more (log_event e s) = kernel.more s"
  "tlists (timer_remove t s) = tlists s" "thread_of (timer_remove t s) = thread_of s"
  "ready_group (timer_remove t s) = ready_group s"
  "current_thread (timer_remove t s) = current_thread s"
  "lock_nest (timer_remove t s) = lock_nest s"
  "interrupt_nest (timer_remove t s) = interrupt_nest s" "switches (timer_remove t s) = switches s"
  "rt_current_priority (timer_remove t s) = rt_current_priority s"
  "kernel.more (timer_remove t s) = kernel.more s"
  "tlists (link_timer r t s) = tlists s" "thread_of (link_timer r t s) = thread_of s"
  "ready_group (link_timer r t s) = ready_group s"
  "current_thread (link_timer r t s) = current_thread s"
  "lock_nest (link_timer r t s) = lock_nest s"
  "interrupt_nest (link_timer r t s) = interrupt_nest s" "switches (link_timer r t s) = switches s"
  "rt_current_priority (link_timer r t s) = rt_current_priority s"
  "kernel.more (link_timer r t s) = kernel.more s"
  "tlists (wake_timer_thread t s) = tlists s" "thread_of (wake_timer_thread t s) = thread_of s"
  "ready_group (wake_timer_thread t s) = ready_group s"
  "current_thread (wake_timer_thread t s) = current_thread s"
  "lock_nest (wake_timer_thread t s) = lock_nest s"
  "interrupt_nest (wake_timer_thread t s) = interrupt_nest s"
  "switches (wake_timer_thread t s) = switches s"
  "rt_current_priority (wake_timer_thread t s) = rt_current_priority s"
  "kernel.more (wake_timer_thread t s) = kernel.more s"
  "tlists (rt_timer_detach t s) = tlists s" "thread_of (rt_timer_detach t s) = thread_of s"
  "ready_group (rt_timer_detach t s) = ready_group s"
  "current_thread (rt_timer_detach t s) = current_thread s"
  "lock_nest (rt_timer_detach t s) = lock_nest s"
  "interrupt_nest (rt_timer_detach t s) = interrupt_nest s"
  "switches (rt_timer_detach t s) = switches s"
  "rt_current_priority (rt_timer_detach t s) = rt_current_priority s"
  "kernel.more (rt_timer_detach t s) = kernel.more s"
  by (simp_all add: timer_defs rt_timer_detach_def)

lemma kernel_of_timer_ops [simp]:
  "tlists (snd (rt_timer_stop t s)) = tlists s" "thread_of (snd (rt_timer_stop t s)) = thread_of s"
  "ready_group (snd (rt_timer_stop t s)) = ready_group s"
  "current_thread (snd (rt_timer_stop t s)) = current_thread s"
  "lock_nest (snd (rt_timer_stop t s)) = lock_nest s"
  "interrupt_nest (snd (rt_timer_stop t s)) = interrupt_nest s"
  "switches (snd (rt_timer_stop t s)) = switches s"
  "rt_current_priority (snd (rt_timer_stop t s)) = rt_current_priority s"
  "kernel.more (snd (rt_timer_stop t s)) = kernel.more s"
  "tlists (snd (rt_timer_control t c a s)) = tlists s"
  "thread_of (snd (rt_timer_control t c a s)) = thread_of s"
  "ready_group (snd (rt_timer_control t c a s)) = ready_group s"
  "current_thread (snd (rt_timer_control t c a s)) = current_thread s"
  "lock_nest (snd (rt_timer_control t c a s)) = lock_nest s"
  "interrupt_nest (snd (rt_timer_control t c a s)) = interrupt_nest s"
  "switches (snd (rt_timer_control t c a s)) = switches s"
  "rt_current_priority (snd (rt_timer_control t c a s)) = rt_current_priority s"
  "kernel.more (snd (rt_timer_control t c a s)) = kernel.more s"
  by (simp_all add: rt_timer_stop_def rt_timer_control_def)

lemma kernel_of_timer_start:
  assumes "rt_timer_start t s = returns s'"
  shows "tlists s' = tlists s" "thread_of s' = thread_of s" "ready_group s' = ready_group s" "current_thread s' = current_thread s" "lock_nest s' = lock_nest s" "interrupt_nest s' = interrupt_nest s" "switches s' = switches s" "rt_current_priority s' = rt_current_priority s" "kernel.more s' = kernel.more s"
  using assms by (auto simp: rt_timer_start_def Let_def split: if_splits option.splits)

subsection \<open>The lists and the bitmap\<close>

definition lists_ok :: "'a kernel_scheme \<Rightarrow> nat set \<Rightarrow> (nat \<Rightarrow> nat list) \<Rightarrow> bool" where
  "lists_ok s H Q \<longleftrightarrow>
     family (tlists s) H Q \<and> {..rt_thread_defunct} \<subseteq> H \<and>
     (\<forall>p < PRIORITY_MAX. bit (ready_group s) p \<longleftrightarrow> Q p \<noteq> [])"

lemma lists_okD:
  assumes "lists_ok s H Q"
  shows "family (tlists s) H Q" "p < PRIORITY_MAX \<Longrightarrow> p \<in> H" "rt_thread_defunct \<in> H" "0 \<in> H" "1 \<in> H"
    "p < PRIORITY_MAX \<Longrightarrow> bit (ready_group s) p \<longleftrightarrow> Q p \<noteq> []"
  using assms by (auto simp: lists_ok_def rt_thread_defunct_def)

lemma lists_ok_cong:
  assumes "lists_ok s H Q" and "tlists s' = tlists s" and "ready_group s' = ready_group s"
  shows "lists_ok s' H Q"
  using assms by (simp add: lists_ok_def)

text \<open>The threads in the order in which they are served.\<close>

definition ready_order :: "(nat \<Rightarrow> nat list) \<Rightarrow> nat list" where
  "ready_order Q = concat (map Q [0..<PRIORITY_MAX])"

text \<open>The bitmap names the first list that is not empty, and the head of that list is served first.\<close>

lemma lowest_bit_first:
  assumes ok: "lists_ok s H Q" and ne: "ready_order Q \<noteq> []"
  shows "0 \<le> highest_ready s" and "nat (highest_ready s) < PRIORITY_MAX"
    and "Q (nat (highest_ready s)) \<noteq> []" and "p < nat (highest_ready s) \<Longrightarrow> Q p = []"
proof -
  from ne obtain q where q: "q < PRIORITY_MAX" "Q q \<noteq> []" by (auto simp: ready_order_def)
  then have "ready_group s \<noteq> 0" using lists_okD(6) [OF ok q(1)] by auto
  note F = rt_ffs_lowest [OF this]
  have h: "nat (highest_ready s) = rt_ffs (ready_group s) - 1" using F(1) by (simp add: highest_ready_def)
  show "0 \<le> highest_ready s" using F(1) by (simp add: highest_ready_def)
  show lt: "nat (highest_ready s) < PRIORITY_MAX" using F(1,2) h by simp
  show "Q (nat (highest_ready s)) \<noteq> []" using lists_okD(6) [OF ok lt] F(3) h by simp
  show "p < nat (highest_ready s) \<Longrightarrow> Q p = []" using lists_okD(6) [OF ok, of p] F(4) [of p] h lt by simp
qed

lemma concat_first:
  assumes "k < n" and "Q k \<noteq> []" and "\<And>p. p < k \<Longrightarrow> Q p = []"
  shows "concat (map Q [0..<n]) = Q k @ concat (map Q [Suc k..<n])"
proof -
  have "[0..<n] = [0..<k] @ k # [Suc k..<n]"
    using assms(1) upt_add_eq_append [of 0 k "n - k"] by (simp add: upt_conv_Cons)
  moreover have "concat (map Q [0..<k]) = []" using assms(3) by auto
  ultimately show ?thesis by simp
qed

lemma next_thread:
  assumes ok: "lists_ok s H Q" and ne: "ready_order Q \<noteq> []"
  shows "next_link (tlists s) (nat (highest_ready s)) = hd (ready_order Q)"
proof -
  note B = lowest_bit_first [OF ok ne]
  have "next_link (tlists s) (nat (highest_ready s)) = hd (Q (nat (highest_ready s)))"
    using B lists_okD(1,2) [OF ok] by (intro family_first) auto
  then show ?thesis
    using B concat_first [of "nat (highest_ready s)" PRIORITY_MAX Q] by (simp add: ready_order_def)
qed

subsection \<open>Dispatching\<close>

definition dispatch :: "nat \<Rightarrow> 'a kernel_scheme \<Rightarrow> 'a kernel_scheme" where
  "dispatch t s =
     (if Some t = current_thread s then s
      else s\<lparr>rt_current_priority := of_int (highest_ready s), current_thread := Some t,
             switches := switches s @
               [(if interrupt_nest s = 0 then Switch (the (current_thread s)) t
                 else Switch_In_Interrupt (the (current_thread s)) t)]\<rparr>)"

lemma dispatch_simps [simp]:
  "current_thread (dispatch t s) = Some t" "tlists (dispatch t s) = tlists s"
  "thread_of (dispatch t s) = thread_of s" "ready_group (dispatch t s) = ready_group s"
  "lock_nest (dispatch t s) = lock_nest s" "interrupt_nest (dispatch t s) = interrupt_nest s"
  "rows (dispatch t s) = rows s" "timer_of (dispatch t s) = timer_of s" "rt_tick (dispatch t s) = rt_tick s"
  "timers.truncate (dispatch t s) = timers.truncate s" "kernel.more (dispatch t s) = kernel.more s"
  by (auto simp: dispatch_def timers.truncate_def)

lemma rt_schedule_dispatch:
  assumes "lists_ok s H Q" and "ready_order Q \<noteq> []" and "lock_nest s = 0" and "current_thread s \<noteq> None"
  shows "rt_schedule s = returns (dispatch (hd (ready_order Q)) s)"
  using assms lowest_bit_first(1) [OF assms(1,2)] next_thread [OF assms(1,2)]
  by (auto simp: rt_schedule_def dispatch_def Let_def)

lemma rt_schedule_locked: "lock_nest s \<noteq> 0 \<Longrightarrow> rt_schedule s = returns s"
  by (simp add: rt_schedule_def)

text \<open>Both cases.\<close>

definition settle :: "(nat \<Rightarrow> nat list) \<Rightarrow> 'a kernel_scheme \<Rightarrow> 'a kernel_scheme" where
  "settle Q s = (if lock_nest s = 0 then dispatch (hd (ready_order Q)) s else s)"

lemma settle_simps [simp]:
  "tlists (settle Q s) = tlists s" "thread_of (settle Q s) = thread_of s"
  "ready_group (settle Q s) = ready_group s" "lock_nest (settle Q s) = lock_nest s"
  "interrupt_nest (settle Q s) = interrupt_nest s" "rows (settle Q s) = rows s"
  "timer_of (settle Q s) = timer_of s" "rt_tick (settle Q s) = rt_tick s"
  "timers.truncate (settle Q s) = timers.truncate s" "kernel.more (settle Q s) = kernel.more s"
  "current_thread (settle Q s) =
     (if lock_nest s = 0 then Some (hd (ready_order Q)) else current_thread s)"
  by (simp_all add: settle_def)

lemma rt_schedule_settle:
  assumes "lists_ok s H Q" and "ready_order Q \<noteq> []" and "current_thread s \<noteq> None"
  shows "rt_schedule s = returns (settle Q s)"
  using assms by (simp add: settle_def rt_schedule_dispatch rt_schedule_locked)

subsection \<open>The threads\<close>

text \<open>
  A thread is in the ready list of its priority exactly when it is ready; in the defunct list it is
  closed, and in any other list it is suspended. Its mask names its priority.
\<close>

definition mask_ok :: "nat \<Rightarrow> 'a kernel_scheme \<Rightarrow> bool" where
  "mask_ok t s \<longleftrightarrow> number_mask (thread_of s t) = push_bit (priority_of t s) 1"

definition thread_ok :: "'a kernel_scheme \<Rightarrow> nat set \<Rightarrow> (nat \<Rightarrow> nat list) \<Rightarrow> nat \<Rightarrow> bool" where
  "thread_ok s H Q t \<longleftrightarrow>
     priority_of t s < PRIORITY_MAX \<and> unat (init_priority (thread_of s t)) < PRIORITY_MAX \<and>
     (\<forall>p < PRIORITY_MAX. t \<in> set (Q p) \<longleftrightarrow> thread_stat t s = RT_THREAD_READY \<and> p = priority_of t s) \<and>
     (\<forall>h \<in> H. PRIORITY_MAX \<le> h \<and> t \<in> set (Q h) \<longrightarrow>
        thread_stat t s = (if h = rt_thread_defunct then RT_THREAD_CLOSE else RT_THREAD_SUSPEND)) \<and>
     (thread_stat t s \<in> {RT_THREAD_READY, RT_THREAD_SUSPEND} \<longrightarrow> mask_ok t s) \<and>
     (mask_ok t s \<or> number_mask (thread_of s t) = 0)"

definition sched_ok :: "'a kernel_scheme \<Rightarrow> nat set \<Rightarrow> nat set \<Rightarrow> (nat \<Rightarrow> nat list) \<Rightarrow> bool" where
  "sched_ok s H T Q \<longleftrightarrow>
     lists_ok s H Q \<and> T \<inter> H = {} \<and> (\<forall>h \<in> H. set (Q h) \<subseteq> T) \<and> (\<forall>t \<in> T. thread_ok s H Q t)"

lemma sched_okD:
  assumes "sched_ok s H T Q"
  shows "lists_ok s H Q" "t \<in> T \<Longrightarrow> t \<notin> H" "h \<in> H \<Longrightarrow> x \<in> set (Q h) \<Longrightarrow> x \<in> T" "t \<in> T \<Longrightarrow> thread_ok s H Q t"
  using assms by (auto simp: sched_ok_def)

lemma thread_okD:
  assumes "thread_ok s H Q t"
  shows "priority_of t s < PRIORITY_MAX" "unat (init_priority (thread_of s t)) < PRIORITY_MAX"
    "p < PRIORITY_MAX \<Longrightarrow> t \<in> set (Q p) \<longleftrightarrow> thread_stat t s = RT_THREAD_READY \<and> p = priority_of t s"
    "h \<in> H \<Longrightarrow> PRIORITY_MAX \<le> h \<Longrightarrow> t \<in> set (Q h) \<Longrightarrow>
       thread_stat t s = (if h = rt_thread_defunct then RT_THREAD_CLOSE else RT_THREAD_SUSPEND)"
    "thread_stat t s \<in> {RT_THREAD_READY, RT_THREAD_SUSPEND} \<Longrightarrow> mask_ok t s"
    "mask_ok t s \<or> number_mask (thread_of s t) = 0"
  using assms unfolding thread_ok_def by blast+

lemma thread_ok_cong:
  assumes "thread_ok s H Q t" and "thread_of s' t = thread_of s t" and "\<And>h. h \<in> H \<Longrightarrow> t \<in> set (Q' h) \<longleftrightarrow> t \<in> set (Q h)"
    and "{..rt_thread_defunct} \<subseteq> H"
  shows "thread_ok s' H Q' t"
proof -
  have "p < PRIORITY_MAX \<Longrightarrow> p \<in> H" for p using assms(4) by (auto simp: rt_thread_defunct_def)
  then show ?thesis
    using assms by (simp add: thread_ok_def thread_stat_def priority_of_def mask_ok_def)
qed

text \<open>Only the status, the priorities and the mask of a thread matter.\<close>

lemma sched_ok_view:
  assumes "sched_ok s H T Q" and "tlists s' = tlists s" and "ready_group s' = ready_group s"
    and "\<And>t. thread_stat t s' = thread_stat t s" and "\<And>t. priority_of t s' = priority_of t s"
    and "\<And>t. init_priority (thread_of s' t) = init_priority (thread_of s t)"
    and "\<And>t. number_mask (thread_of s' t) = number_mask (thread_of s t)"
  shows "sched_ok s' H T Q"
  using assms lists_ok_cong [of s H Q s'] by (simp add: sched_ok_def thread_ok_def mask_ok_def)

lemma sched_ok_cong:
  assumes "sched_ok s H T Q" and "tlists s' = tlists s" and "ready_group s' = ready_group s"
    and "thread_of s' = thread_of s"
  shows "sched_ok s' H T Q"
  using assms by (intro sched_ok_view [of s H T Q s']) (simp_all add: thread_stat_def priority_of_def)

lemma stat_differ [simp]:
  "RT_THREAD_READY \<noteq> RT_THREAD_SUSPEND" "RT_THREAD_SUSPEND \<noteq> RT_THREAD_READY"
  "RT_THREAD_READY \<noteq> RT_THREAD_CLOSE" "RT_THREAD_CLOSE \<noteq> RT_THREAD_READY"
  "RT_THREAD_SUSPEND \<noteq> RT_THREAD_CLOSE" "RT_THREAD_CLOSE \<noteq> RT_THREAD_SUSPEND"
  "RT_THREAD_INIT \<noteq> RT_THREAD_READY" "RT_THREAD_READY \<noteq> RT_THREAD_INIT"
  "RT_THREAD_INIT \<noteq> RT_THREAD_SUSPEND" "RT_THREAD_SUSPEND \<noteq> RT_THREAD_INIT"
  by (simp_all add: RT_THREAD_READY_def RT_THREAD_SUSPEND_def RT_THREAD_CLOSE_def RT_THREAD_INIT_def)

lemma stat_change [simp]:
  "(st OR (x AND NOT RT_THREAD_STAT_MASK)) AND RT_THREAD_STAT_MASK = st AND RT_THREAD_STAT_MASK"
  by (simp add: bit_eq_iff bit_simps) blast

lemma stat_mask [simp]:
  "RT_THREAD_READY AND RT_THREAD_STAT_MASK = RT_THREAD_READY"
  "RT_THREAD_SUSPEND AND RT_THREAD_STAT_MASK = RT_THREAD_SUSPEND"
  "RT_THREAD_CLOSE AND RT_THREAD_STAT_MASK = RT_THREAD_CLOSE"
  "RT_THREAD_INIT AND RT_THREAD_STAT_MASK = RT_THREAD_INIT"
  by (simp_all add: RT_THREAD_READY_def RT_THREAD_SUSPEND_def RT_THREAD_CLOSE_def RT_THREAD_INIT_def
      RT_THREAD_STAT_MASK_def)

lemma view_simps [simp]:
  "thread_stat x (upd_lists g s) = thread_stat x s" "priority_of x (upd_lists g s) = priority_of x s"
  "thread_stat x (change_stat st t s) = (if x = t then st AND RT_THREAD_STAT_MASK else thread_stat x s)"
  "thread_stat x (set_stat st t s) = (if x = t then st AND RT_THREAD_STAT_MASK else thread_stat x s)"
  "thread_stat x (set_error e t s) = thread_stat x s" "thread_stat x (set_priority p t s) = thread_stat x s"
  "priority_of x (change_stat st t s) = priority_of x s" "priority_of x (set_stat st t s) = priority_of x s"
  "priority_of x (set_error e t s) = priority_of x s"
  "priority_of x (set_priority p t s) = (if x = t then unat p else priority_of x s)"
  "thread_stat x (settle Q s) = thread_stat x s" "priority_of x (settle Q s) = priority_of x s"
  by (simp_all add: thread_stat_def priority_of_def change_stat_def set_stat_def set_error_def set_priority_def)

subsection \<open>The ready lists under insertion and removal\<close>

lemma bit_mask_self: "p < PRIORITY_MAX \<Longrightarrow> q < PRIORITY_MAX \<Longrightarrow> bit (push_bit p (1 :: u32)) q \<longleftrightarrow> q = p"
  unfolding bit_push_bit_iff bit_1_iff by auto

text \<open>Removing a thread from whatever list it is in.\<close>

lemma remove_thread_lists:
  assumes ok: "lists_ok s H Q" and t: "t \<notin> H" and p: "priority_of t s < PRIORITY_MAX"
    and m: "mask_ok t s \<or> number_mask (thread_of s t) = 0 \<and> t \<notin> set (Q (priority_of t s))"
    and other: "\<And>p. p < PRIORITY_MAX \<Longrightarrow> p \<noteq> priority_of t s \<Longrightarrow> t \<notin> set (Q p)"
  obtains s' g where "rt_schedule_remove_thread t s = returns s'"
    and "s' = s\<lparr>tlists := rt_list_remove t (tlists s), ready_group := g\<rparr>" and "lists_ok s' H (without t Q)"
proof -
  let ?p = "priority_of t s" and ?l = "rt_list_remove t (tlists s)"
  note L = lists_okD [OF ok]
  have F: "family ?l H (without t Q)" by (rule family_remove [OF L(1) t])
  have e: "rt_list_isempty ?p ?l \<longleftrightarrow> without t Q ?p = []" using family_isempty [OF F] L(2) p by simp
  have sub: "{..rt_thread_defunct} \<subseteq> H" using ok by (simp add: lists_ok_def)
  have w: "without t Q p = Q p" if "p < PRIORITY_MAX" "p \<noteq> ?p" for p
    using other [OF that] by (rule without_fresh)
  let ?g = "if without t Q ?p = [] then ready_group s AND NOT (number_mask (thread_of s t)) else ready_group s"
  have G: "bit ?g q \<longleftrightarrow> without t Q q \<noteq> []" if q: "q < PRIORITY_MAX" for q
  proof (cases "q = ?p")
    case True
    have "bit (ready_group s) q \<longleftrightarrow> Q q \<noteq> []" using L(6) q by simp
    moreover have "without t Q ?p = [] \<Longrightarrow> number_mask (thread_of s t) = 0 \<Longrightarrow> Q ?p = [] \<or> mask_ok t s"
      using m without_fresh [of t Q ?p] by auto
    ultimately show ?thesis
      using m True p bit_mask_self [OF p q] w
      by (auto simp: mask_ok_def bit_simps without_def push_bit_eq_0_iff dest: bit_imp_le_length split: if_splits)
  next
    case False
    then show ?thesis
      using L(6) [OF q] m w [OF q] bit_mask_self [OF p q] q by (auto simp: mask_ok_def bit_simps)
  qed
  let ?s = "s\<lparr>tlists := ?l, ready_group := ?g\<rparr>"
  have "rt_schedule_remove_thread t s = returns ?s"
    using p e by (simp add: rt_schedule_remove_thread_def upd_lists_def priority_of_def)
  moreover have "lists_ok ?s H (without t Q)" using F sub G by (simp add: lists_ok_def)
  ultimately show ?thesis using that by blast
qed

text \<open>Appending a thread that is in no list.\<close>

lemma insert_thread_lists:
  assumes ok: "lists_ok s H Q" and t: "t \<notin> H" "\<And>h. h \<in> H \<Longrightarrow> t \<notin> set (Q h)"
    and p: "priority_of t s < PRIORITY_MAX" and m: "mask_ok t s"
  obtains s' g where "rt_schedule_insert_thread t s = returns s'"
    and "s' = change_stat RT_THREAD_READY t
           (s\<lparr>tlists := rt_list_insert_before (priority_of t s) t (tlists s), ready_group := g\<rparr>)"
    and "lists_ok s' H (Q(priority_of t s := Q (priority_of t s) @ [t]))"
proof -
  let ?p = "priority_of t s" and ?l = "rt_list_insert_before (priority_of t s) t (tlists s)"
  let ?Q = "Q(priority_of t s := Q (priority_of t s) @ [t])"
  note L = lists_okD [OF ok]
  have sub: "{..rt_thread_defunct} \<subseteq> H" using ok by (simp add: lists_ok_def)
  have F: "family ?l H ?Q"
    using family_insert_before [OF L(1) L(2) [OF p] t, of "Q ?p" "[]" ?p] by simp
  let ?g = "ready_group s OR number_mask (thread_of s t)"
  let ?s = "change_stat RT_THREAD_READY t (s\<lparr>tlists := ?l, ready_group := ?g\<rparr>)"
  have "bit ?g q \<longleftrightarrow> ?Q q \<noteq> []" if "q < PRIORITY_MAX" for q
    using L(6) [OF that] m bit_mask_self [OF p that] by (auto simp: mask_ok_def bit_or_iff)
  then have "lists_ok ?s H ?Q" using F sub by (simp add: lists_ok_def change_stat_def)
  moreover have "rt_schedule_insert_thread t s = returns ?s"
    using p by (simp add: rt_schedule_insert_thread_def Let_def)
       (simp add: change_stat_def upd_thread_def upd_lists_def)
  ultimately show ?thesis using that by blast
qed

lemma set_append_queue: "x \<noteq> t \<Longrightarrow> x \<in> set ((Q(p := Q p @ [t])) h) \<longleftrightarrow> x \<in> set (Q h)"
  by simp

lemma view_timer_detach [simp]:
  "thread_stat x (rt_timer_detach t s) = thread_stat x s" "priority_of x (rt_timer_detach t s) = priority_of x s"
  by (simp_all add: thread_stat_def priority_of_def)

subsection \<open>Suspended, resumed, closed\<close>

text \<open>What stays when only thread \<open>t\<close> and its list change.\<close>

definition kernel_frame :: "nat \<Rightarrow> 'a kernel_scheme \<Rightarrow> 'a kernel_scheme \<Rightarrow> bool" where
  "kernel_frame t s s' \<longleftrightarrow>
     current_thread s' = current_thread s \<and> lock_nest s' = lock_nest s \<and> interrupt_nest s' = interrupt_nest s \<and>
     switches s' = switches s \<and> kernel.more s' = kernel.more s \<and> rt_tick s' = rt_tick s \<and>
     (\<forall>x. x \<noteq> t \<longrightarrow> thread_of s' x = thread_of s x) \<and>
     current_priority (thread_of s' t) = current_priority (thread_of s t) \<and>
     init_priority (thread_of s' t) = init_priority (thread_of s t)"

lemma kernel_frameD:
  assumes "kernel_frame t s s'"
  shows "current_thread s' = current_thread s" "lock_nest s' = lock_nest s"
    "interrupt_nest s' = interrupt_nest s" "switches s' = switches s" "kernel.more s' = kernel.more s"
    "rt_tick s' = rt_tick s" "x \<noteq> t \<Longrightarrow> thread_of s' x = thread_of s x"
    "priority_of x s' = priority_of x s" "x \<noteq> t \<Longrightarrow> thread_stat x s' = thread_stat x s"
  using assms by (cases "x = t"; simp add: kernel_frame_def priority_of_def thread_stat_def)+

text \<open>A thread leaves its list: it is ready before, or in the state it is put into.\<close>

lemma dequeue_ok:
  assumes ok: "sched_ok s H T Q" and t: "t \<in> T"
    and st: "st \<in> {RT_THREAD_SUSPEND, RT_THREAD_CLOSE}" "st = RT_THREAD_SUSPEND \<Longrightarrow> mask_ok t s"
  obtains s' where "rt_schedule_remove_thread t s = returns s'"
    and "sched_ok (set_stat st t s') H T (without t Q)" and "kernel_frame t s s'"
    and "thread_of s' = thread_of s" and "timers.truncate s' = timers.truncate s"
proof -
  note D = sched_okD [OF ok]
  note K = thread_okD [OF D(4) [OF t]]
  have other: "\<And>p. p < PRIORITY_MAX \<Longrightarrow> p \<noteq> priority_of t s \<Longrightarrow> t \<notin> set (Q p)" using K(3) by blast
  have m: "mask_ok t s \<or> number_mask (thread_of s t) = 0 \<and> t \<notin> set (Q (priority_of t s))"
    using K(3) [OF K(1)] K(5,6) by blast
  obtain s' g where r: "rt_schedule_remove_thread t s = returns s'"
    and s': "s' = s\<lparr>tlists := rt_list_remove t (tlists s), ready_group := g\<rparr>" and L: "lists_ok s' H (without t Q)"
    using remove_thread_lists [OF D(1) D(2) [OF t] K(1) m other] by metis
  note F = lists_okD(1) [OF D(1)]
  have sub: "{..rt_thread_defunct} \<subseteq> H" using D(1) by (simp add: lists_ok_def)
  have H: "p < PRIORITY_MAX \<Longrightarrow> p \<in> H" for p using lists_okD(2) [OF D(1)] .
  note W = set_without [OF F]
  have "thread_ok (set_stat st t s') H (without t Q) x" if "x \<in> T" for x
  proof (cases "x = t")
    case True
    have "t \<notin> set (without t Q h)" if "h \<in> H" for h using W [OF that] by simp
    then show ?thesis using st K(1,2,6) H
      by (auto simp: True thread_ok_def s' mask_ok_def)
        (simp_all add: set_stat_def priority_of_def mask_ok_def upd_thread_def)
  next
    case False
    show ?thesis
      by (rule thread_ok_cong [OF D(4) [OF that] _ _ sub])
         (use False W in \<open>auto simp: set_stat_def s'\<close>)
  qed
  moreover have "lists_ok (set_stat st t s') H (without t Q)" using L by (simp add: lists_ok_def set_stat_def)
  ultimately have "sched_ok (set_stat st t s') H T (without t Q)"
    using D(2,3) W unfolding sched_ok_def by blast
  moreover have "kernel_frame t s s'" by (simp add: kernel_frame_def s')
  moreover have "timers.truncate s' = timers.truncate s" by (simp add: s' timers.truncate_def)
  moreover have "thread_of s' = thread_of s" by (simp add: s')
  ultimately show ?thesis using that r by blast
qed

text \<open>A suspended thread leaves its list and goes to the end of the ready list of its priority.\<close>

definition made_ready :: "'a kernel_scheme \<Rightarrow> nat \<Rightarrow> (nat \<Rightarrow> nat list) \<Rightarrow> nat \<Rightarrow> nat list" where
  "made_ready s t Q = (without t Q)(priority_of t s := Q (priority_of t s) @ [t])"

lemma enqueue_ok:
  assumes ok: "sched_ok s H T Q" and t: "t \<in> T" and st: "thread_stat t s = RT_THREAD_SUSPEND"
  obtains s' where "rt_schedule_insert_thread t (upd_lists (rt_list_remove t) s) = returns s'"
    and "sched_ok s' H T (made_ready s t Q)" and "kernel_frame t s s'"
    and "thread_stat t s' = RT_THREAD_READY" and "th_error (thread_of s' t) = th_error (thread_of s t)"
    and "timers.truncate s' = timers.truncate s"
proof -
  let ?s = "upd_lists (rt_list_remove t) s" and ?p = "priority_of t s"
  note D = sched_okD [OF ok]
  note K = thread_okD [OF D(4) [OF t]]
  note L = lists_okD [OF D(1)]
  note W = set_without [OF L(1)]
  have sub: "{..rt_thread_defunct} \<subseteq> H" using D(1) by (simp add: lists_ok_def)
  have w: "without t Q p = Q p" if "p < PRIORITY_MAX" for p
    using K(3) [OF that] st by (intro without_fresh) simp
  have F: "family (tlists ?s) H (without t Q)" using family_remove [OF L(1) D(2) [OF t]] by simp
  have ok1: "lists_ok ?s H (without t Q)" using F sub L(6) w by (simp add: lists_ok_def)
  have new: "h \<in> H \<Longrightarrow> t \<notin> set (without t Q h)" for h using W by simp
  have m: "mask_ok t ?s" and p: "priority_of t ?s < PRIORITY_MAX" using K(1,5) st by (simp_all add: mask_ok_def)
  obtain s' g where r: "rt_schedule_insert_thread t ?s = returns s'"
    and s': "s' = change_stat RT_THREAD_READY t
           (?s\<lparr>tlists := rt_list_insert_before (priority_of t ?s) t (tlists ?s), ready_group := g\<rparr>)"
    and L': "lists_ok s' H ((without t Q)(priority_of t ?s := without t Q (priority_of t ?s) @ [t]))"
    using insert_thread_lists [OF ok1 D(2) [OF t] new p m] by metis
  have Q': "(without t Q)(priority_of t ?s := without t Q (priority_of t ?s) @ [t]) = made_ready s t Q"
    using w [OF K(1)] by (simp add: made_ready_def)
  have mem: "x \<in> set (made_ready s t Q h) \<longleftrightarrow> (if x = t then h = ?p else x \<in> set (Q h))" if "h \<in> H" for x h
    using W [OF that] K(1) by (auto simp: made_ready_def)
  have th: "thread_of s' x = (if x = t then (thread_of s t)\<lparr>th_stat := RT_THREAD_READY OR
      (th_stat (thread_of s t) AND NOT RT_THREAD_STAT_MASK)\<rparr> else thread_of s x)" for x
    by (simp add: s' change_stat_def upd_thread_def upd_lists_def)
  have stat: "thread_stat t s' = RT_THREAD_READY" by (simp add: thread_stat_def th)
  have "thread_ok s' H (made_ready s t Q) x" if x: "x \<in> T" for x
  proof (cases "x = t")
    case True
    have "(x \<in> set (made_ready s t Q h)) = (h = ?p)" if "h \<in> H" for h using mem [OF that] True by simp
    moreover have "p < PRIORITY_MAX \<Longrightarrow> p \<in> H" for p using L(2) .
    ultimately show ?thesis using K(1,2,5) st stat
      by (auto simp: True thread_ok_def priority_of_def th mask_ok_def)
  next
    case False
    then show ?thesis by (intro thread_ok_cong [OF D(4) [OF x] _ _ sub]) (simp_all add: th mem)
  qed
  moreover have "\<forall>h \<in> H. set (made_ready s t Q h) \<subseteq> T" using mem D(3) t by (auto split: if_splits)
  ultimately have "sched_ok s' H T (made_ready s t Q)"
    using L' [unfolded Q'] D(2) unfolding sched_ok_def by blast
  moreover have "kernel_frame t s s'"
    using th by (simp add: kernel_frame_def) (simp add: s' change_stat_def upd_thread_def upd_lists_def)
  moreover have "timers.truncate s' = timers.truncate s"
    by (simp add: s' change_stat_def upd_thread_def upd_lists_def timers.truncate_def)
  ultimately show ?thesis using that r stat th by simp
qed

subsection \<open>The wait lists\<close>

text \<open>
  Above the ready lists and the defunct list are the wait lists of other components. Threads leave
  them when they are resumed, time out or end; no operation of the scheduler puts one in.
\<close>

definition waits_in :: "nat set \<Rightarrow> (nat \<Rightarrow> nat list) \<Rightarrow> (nat \<Rightarrow> nat list) \<Rightarrow> bool" where
  "waits_in H Q Q' \<longleftrightarrow> (\<forall>h \<in> H. rt_thread_defunct < h \<longrightarrow> subseq (Q' h) (Q h))"

lemma waits_in_refl [simp]: "waits_in H Q Q"
  by (simp add: waits_in_def)

lemma waits_in_trans [trans]: "waits_in H Q Q' \<Longrightarrow> waits_in H Q' Q'' \<Longrightarrow> waits_in H Q Q''"
  unfolding waits_in_def by (meson subseq_order.order_trans)

lemma waits_in_cong: "waits_in H Q Q' \<Longrightarrow> (\<And>h. h \<in> H \<Longrightarrow> rt_thread_defunct < h \<Longrightarrow> Q'' h = Q' h) \<Longrightarrow> waits_in H Q Q''"
  by (simp add: waits_in_def)

lemma waits_in_upd [simp]: "p \<le> rt_thread_defunct \<Longrightarrow> waits_in H Q (Q'(p := xs)) \<longleftrightarrow> waits_in H Q Q'"
  by (auto simp: waits_in_def)

lemma subseq_remove1: "subseq (remove1 x xs) xs"
  by (induction xs) auto

lemma waits_in_without [simp]: "waits_in H Q (without t Q)"
  by (simp add: waits_in_def without_def subseq_remove1)

lemma waits_in_made_ready:
  assumes "sched_ok s H T Q" and "t \<in> T"
  shows "waits_in H Q (made_ready s t Q)"
proof -
  have "priority_of t s \<le> rt_thread_defunct"
    using thread_okD(1) [OF sched_okD(4) [OF assms]] by (simp add: rt_thread_defunct_def)
  then show ?thesis by (simp add: made_ready_def)
qed

end
