(* ===== verification/ThreadLaws.thy ===== *)
theory ThreadLaws
  imports SchedLaws
begin

text \<open>
  The invariant of the kernel: the thread lists, the hard timers \<open>hs\<close> in the order of their
  deadlines, and between them: the timer of a thread runs only while the thread is suspended. Then
  what the operations on threads do to it.
\<close>

subsection \<open>The timers of the threads\<close>

definition thread_timer_ok :: "'a kernel_scheme \<Rightarrow> nat list \<Rightarrow> nat \<Rightarrow> bool" where
  "thread_timer_ok s hs t \<longleftrightarrow>
     \<not> is_soft s t \<and> \<not> is_periodic s t \<and>
     (thread_stat t s \<noteq> RT_THREAD_CLOSE \<longrightarrow> (t \<in> set hs \<longleftrightarrow> is_active s t)) \<and>
     (t \<in> set hs \<longrightarrow> thread_stat t s = RT_THREAD_SUSPEND)"

definition kernel_ok ::
  "'a kernel_scheme \<Rightarrow> nat set \<Rightarrow> nat set \<Rightarrow> (nat \<Rightarrow> nat list) \<Rightarrow> nat list \<Rightarrow> nat list \<Rightarrow> bool" where
  "kernel_ok s H T Q hs ss \<longleftrightarrow>
     sched_ok s H T Q \<and> armed s hs ss \<and> (\<forall>t \<in> T. thread_timer_ok s hs t)"

lemma kernel_okD:
  assumes "kernel_ok s H T Q hs ss"
  shows "sched_ok s H T Q" "armed s hs ss" "t \<in> T \<Longrightarrow> thread_timer_ok s hs t"
    "t \<in> T \<Longrightarrow> is_timer t" "t \<in> T \<Longrightarrow> t \<notin> set ss" "t \<in> T \<Longrightarrow> t \<notin> H"
  using assms sched_okD(2) [of s H T Q] lists_okD(4,5) [OF sched_okD(1)] timers_okD(10) [OF armedD(1)]
  by (fastforce simp: kernel_ok_def is_timer_def rt_timer_list_def rt_soft_timer_list_def
      thread_timer_ok_def is_soft_def)+

text \<open>The timer part of a state is all that the timer predicates read.\<close>

lemma armed_truncate:
  assumes "timers.truncate s' = timers.truncate s"
  shows "armed s' = armed s" "is_soft s' = is_soft s" "is_periodic s' = is_periodic s"
    "is_active s' = is_active s" "due s' = due s" "period s' = period s" "rows s' = rows s"
    "timer_of s' = timer_of s" "rt_tick s' = rt_tick s" "timer_log s' = timer_log s"
proof -
  have f: "rows s' = rows s" "timer_of s' = timer_of s" "rt_tick s' = rt_tick s" "timer_log s' = timer_log s"
    using assms by (simp_all add: timers.truncate_def)
  show "rows s' = rows s" "timer_of s' = timer_of s" "rt_tick s' = rt_tick s" "timer_log s' = timer_log s" by (rule f)+
  show soft: "is_soft s' = is_soft s" and per: "is_periodic s' = is_periodic s" and act: "is_active s' = is_active s"
    and due: "due s' = due s" and period: "period s' = period s"
    using f by (simp_all add: fun_eq_iff is_soft_def is_periodic_def is_active_def has_flag_def due_def period_def)
  have "timers_ok s' = timers_ok s" using f by (simp add: fun_eq_iff timers_ok_def has_flag_def)
  then show "armed s' = armed s"
    unfolding fun_eq_iff armed_def in_window_def per act due period by simp
qed

lemma kernel_ok_lists:
  assumes "kernel_ok s H T Q hs ss" and "timers.truncate s' = timers.truncate s" and "sched_ok s' H T Q'"
    and "\<And>t. t \<in> T \<Longrightarrow> t \<in> set hs \<Longrightarrow> thread_stat t s' = RT_THREAD_SUSPEND"
    and "\<And>t. t \<in> T \<Longrightarrow> thread_stat t s = RT_THREAD_CLOSE \<Longrightarrow> thread_stat t s' = RT_THREAD_CLOSE"
  shows "kernel_ok s' H T Q' hs ss"
proof -
  note tr = armed_truncate [OF assms(2)]
  have "thread_timer_ok s' hs t" if "t \<in> T" for t
    using assms(1,4,5) that unfolding kernel_ok_def thread_timer_ok_def tr by metis
  then show ?thesis using assms(1,3) unfolding kernel_ok_def tr by blast
qed

text \<open>Stopping the timer of a thread.\<close>

lemma stop_timer_ok:
  assumes ok: "kernel_ok s H T Q hs ss" and t: "t \<in> T"
  shows "kernel_ok (snd (rt_timer_stop t s)) H T Q (remove1 t hs) ss"
    and "rt_tick (snd (rt_timer_stop t s)) = rt_tick s"
proof -
  note K = kernel_okD [OF ok]
  note A = K(3) [OF t, unfolded thread_timer_ok_def]
  show "rt_tick (snd (rt_timer_stop t s)) = rt_tick s" by (simp add: rt_timer_stop_def)
  show "kernel_ok (snd (rt_timer_stop t s)) H T Q (remove1 t hs) ss"
  proof (cases "is_active s t")
    case False
    then have "rt_timer_stop t s = (- 1, s)" by (simp add: rt_timer_stop_def is_active_def)
    moreover have "t \<notin> set hs" using False A by auto
    ultimately show ?thesis using ok by (simp add: remove1_idem)
  next
    case True
    let ?s = "clear_flag RT_TIMER_FLAG_ACTIVATED t (timer_remove t s)"
    have s: "snd (rt_timer_stop t s) = ?s" using True by (simp add: rt_timer_stop_def is_active_def)
    have "armed ?s (remove1 t hs) ss" by (rule armed_remove [OF K(2) K(4) [OF t] K(5) [OF t]])
    moreover have "sched_ok ?s H T Q" by (rule sched_ok_cong [OF K(1)]) simp_all
    moreover have "thread_timer_ok ?s (remove1 t hs) x" if x: "x \<in> T" for x
      using K(3) [OF x] timers_okD(3) [OF armedD(1) [OF K(2)]]
      by (cases "x = t") (auto simp: thread_timer_ok_def is_active_def is_soft_def is_periodic_def thread_stat_def)
    ultimately show ?thesis by (simp add: s kernel_ok_def)
  qed
qed

subsection \<open>Suspending\<close>

lemma change_stat_view:
  assumes "sched_ok (set_stat st t s) H T Q" and "st AND RT_THREAD_STAT_MASK = st"
  shows "sched_ok (change_stat st t s) H T Q"
  using assms(1)
  by (rule sched_ok_view) (simp_all add: assms(2))

lemma remove_thread_stat:
  "rt_schedule_remove_thread t (change_stat st u s) =
     map_option (map_sum id (change_stat st u)) (rt_schedule_remove_thread t s)"
  by (simp add: rt_schedule_remove_thread_def Let_def change_stat_def upd_thread_def upd_lists_def priority_of_def)

lemma rt_thread_suspend_ok:
  assumes ok: "kernel_ok s H T Q hs ss" and t: "t \<in> T" and st: "thread_stat t s = RT_THREAD_READY"
  obtains s' where "rt_thread_suspend t s = returns (RT_EOK, s')"
    and "kernel_ok s' H T (without t Q) hs ss" and "kernel_frame t s s'"
    and "thread_stat t s' = RT_THREAD_SUSPEND" and "th_error (thread_of s' t) = th_error (thread_of s t)"
    and "timers.truncate s' = timers.truncate s"
proof -
  note K = kernel_okD [OF ok]
  have m: "mask_ok t s" using thread_okD(5) [OF sched_okD(4) [OF K(1) t]] st by simp
  have st': "RT_THREAD_SUSPEND \<in> {RT_THREAD_SUSPEND, RT_THREAD_CLOSE}" by simp
  obtain s1 where s1: "rt_schedule_remove_thread t s = returns s1"
    "sched_ok (set_stat RT_THREAD_SUSPEND t s1) H T (without t Q)" "kernel_frame t s s1"
    "thread_of s1 = thread_of s" "timers.truncate s1 = timers.truncate s"
    using dequeue_ok [OF K(1) t st' m] by metis
  let ?s = "change_stat RT_THREAD_SUSPEND t s1"
  have tr: "timers.truncate ?s = timers.truncate s" using s1(5) by (simp add: change_stat_def)
  have sched: "sched_ok ?s H T (without t Q)" by (rule change_stat_view [OF s1(2)]) simp
  have susp: "thread_stat x ?s = RT_THREAD_SUSPEND" if "x \<in> T" "x \<in> set hs" for x
    using K(3) [OF that(1)] that s1(4) by (auto simp: thread_timer_ok_def thread_stat_def change_stat_def)
  have ok': "kernel_ok ?s H T (without t Q) hs ss"
    using st s1(4) by (intro kernel_ok_lists [OF ok tr sched susp]) (auto simp: thread_stat_def change_stat_def)
  have inactive: "\<not> is_active ?s t"
    using K(3) [OF t] st by (auto simp: armed_truncate [OF tr] thread_timer_ok_def)
  have "rt_thread_suspend t s = returns (RT_EOK, ?s)"
    using st s1(1) inactive by (simp add: rt_thread_suspend_def remove_thread_stat rt_timer_stop_def is_active_def)
  moreover have "kernel_frame t s ?s"
    using s1(3,4) by (simp add: kernel_frame_def change_stat_def)
  moreover have "thread_stat t ?s = RT_THREAD_SUSPEND" by simp
  moreover have "th_error (thread_of ?s t) = th_error (thread_of s t)" using s1(4) by (simp add: change_stat_def)
  ultimately show ?thesis using that ok' tr by blast
qed

lemma rt_thread_suspend_not_ready:
  "thread_stat t s \<noteq> RT_THREAD_READY \<Longrightarrow> rt_thread_suspend t s = returns (- RT_ERROR, s)"
  by (simp add: rt_thread_suspend_def)

subsection \<open>Dispatching\<close>

lemma kernel_ok_cong:
  assumes "kernel_ok s H T Q hs ss" and "timers.truncate s' = timers.truncate s" and "tlists s' = tlists s"
    and "ready_group s' = ready_group s" and "thread_of s' = thread_of s"
  shows "kernel_ok s' H T Q hs ss"
  using kernel_okD(3) [OF assms(1)] assms(5)
  by (intro kernel_ok_lists [OF assms(1,2) sched_ok_cong [OF kernel_okD(1) [OF assms(1)] assms(3-5)]])
     (simp_all add: thread_timer_ok_def thread_stat_def)

lemma kernel_ok_settle [simp]: "kernel_ok s H T Q hs ss \<Longrightarrow> kernel_ok (settle P s) H T Q hs ss"
  by (rule kernel_ok_cong) simp_all

text \<open>A thread is running and some thread is ready, such as the idle thread.\<close>

definition live :: "'a kernel_scheme \<Rightarrow> (nat \<Rightarrow> nat list) \<Rightarrow> bool" where
  "live s Q \<longleftrightarrow> current_thread s \<noteq> None \<and> ready_order Q \<noteq> []"

lemma rt_schedule_ok:
  assumes "kernel_ok s H T Q hs ss" and "live s Q"
  shows "rt_schedule s = returns (settle Q s)"
  using assms rt_schedule_settle sched_okD(1) [OF kernel_okD(1)] by (metis live_def)

lemma in_ready_order: "t \<in> set (ready_order Q) \<longleftrightarrow> (\<exists>p < PRIORITY_MAX. t \<in> set (Q p))"
  by (auto simp: ready_order_def)

lemma ready_iff:
  assumes "sched_ok s H T Q" and "t \<in> T"
  shows "t \<in> set (ready_order Q) \<longleftrightarrow> thread_stat t s = RT_THREAD_READY"
  using thread_okD(1,3) [OF sched_okD(4) [OF assms]] by (auto simp: in_ready_order)

text \<open>The thread served first has the highest priority of the ready threads.\<close>

lemma ready_order_sorted:
  assumes "sched_ok s H T Q" and "sorted ps" and "set ps \<subseteq> {..<PRIORITY_MAX}"
  shows "sorted (map (\<lambda>t. priority_of t s) (concat (map Q ps)))"
  using assms(2,3)
proof (induction ps)
  case (Cons p ps)
  note D = sched_okD [OF assms(1)]
  have pr: "priority_of t s = q" if "q \<in> set (p # ps)" "t \<in> set (Q q)" for q t
  proof -
    have q: "q < PRIORITY_MAX" using Cons.prems that(1) by auto
    then have "t \<in> T" using D(3) [OF lists_okD(2) [OF D(1) q]] that(2) by blast
    then show ?thesis using thread_okD(3) [OF D(4) q] that(2) by blast
  qed
  have "map (\<lambda>t. priority_of t s) (Q p) = replicate (length (Q p)) p"
    using pr by (intro replicate_eqI) auto
  moreover have "p \<le> priority_of t s" if "t \<in> set (concat (map Q ps))" for t
    using that pr Cons.prems by auto
  ultimately show ?case using Cons by (auto simp: sorted_append)
qed simp

lemma highest_first:
  assumes ok: "sched_ok s H T Q" and t: "t \<in> T" "thread_stat t s = RT_THREAD_READY"
  shows "priority_of (hd (ready_order Q)) s \<le> priority_of t s"
proof -
  have "sorted (map (\<lambda>t. priority_of t s) (ready_order Q))"
    unfolding ready_order_def by (rule ready_order_sorted [OF ok]) auto
  moreover have "t \<in> set (ready_order Q)" using ready_iff [OF ok] t by simp
  ultimately show ?thesis by (cases "ready_order Q") auto
qed

lemma first_ready:
  assumes ok: "sched_ok s H T Q" and ne: "ready_order Q \<noteq> []"
  shows "hd (ready_order Q) \<in> T" and "thread_stat (hd (ready_order Q)) s = RT_THREAD_READY"
proof -
  have m: "hd (ready_order Q) \<in> set (ready_order Q)" using ne by simp
  then obtain p where "p < PRIORITY_MAX" "hd (ready_order Q) \<in> set (Q p)" by (auto simp: in_ready_order)
  then show "hd (ready_order Q) \<in> T" using sched_okD(3) [OF ok] lists_okD(2) [OF sched_okD(1) [OF ok]] by blast
  then show "thread_stat (hd (ready_order Q)) s = RT_THREAD_READY" using ready_iff [OF ok] m by blast
qed

subsection \<open>Resuming\<close>

lemma stop_timer_frame: "kernel_frame t s (snd (rt_timer_stop t s))"
  by (simp add: kernel_frame_def) (simp add: rt_timer_stop_def)

lemma kernel_frame_trans:
  assumes "kernel_frame t s s1" and "kernel_frame t s1 s2"
  shows "kernel_frame t s s2"
  using assms by (simp add: kernel_frame_def)

lemma stop_timer_lists:
  "snd (rt_timer_stop t (upd_lists f s)) = upd_lists f (snd (rt_timer_stop t s))"
  by (simp add: rt_timer_stop_def has_flag_def upd_lists_def clear_flag_def timer_remove_def)

lemma due_stop: "due (snd (rt_timer_stop t s)) = due s"
  by (simp add: fun_eq_iff due_def rt_timer_stop_def)

lemma rt_thread_resume_ok:
  assumes ok: "kernel_ok s H T Q hs ss" and t: "t \<in> T" and st: "thread_stat t s = RT_THREAD_SUSPEND"
  obtains s' where "rt_thread_resume t s = returns (RT_EOK, s')"
    and "kernel_ok s' H T (made_ready s t Q) (remove1 t hs) ss" and "kernel_frame t s s'"
    and "thread_stat t s' = RT_THREAD_READY" and "th_error (thread_of s' t) = th_error (thread_of s t)"
    and "due s' = due s"
proof -
  let ?s = "snd (rt_timer_stop t s)"
  note S = stop_timer_ok(1) [OF ok t]
  note K = kernel_okD [OF S]
  have st1: "thread_stat t ?s = RT_THREAD_SUSPEND" using st by (simp add: thread_stat_def)
  obtain s' where s': "rt_schedule_insert_thread t (upd_lists (rt_list_remove t) ?s) = returns s'"
    "sched_ok s' H T (made_ready ?s t Q)" "kernel_frame t ?s s'" "thread_stat t s' = RT_THREAD_READY"
    "th_error (thread_of s' t) = th_error (thread_of ?s t)" "timers.truncate s' = timers.truncate ?s"
    using enqueue_ok [OF K(1) t st1] by metis
  have frame: "kernel_frame t s s'" using kernel_frame_trans [OF stop_timer_frame s'(3)] .
  have nt: "t \<notin> set (remove1 t hs)" using timers_okD(3) [OF armedD(1) [OF kernel_okD(2) [OF ok]]] by simp
  have susp: "thread_stat x s' = RT_THREAD_SUSPEND" if "x \<in> T" "x \<in> set (remove1 t hs)" for x
  proof -
    have "x \<noteq> t" using that(2) nt by auto
    then show ?thesis
      using K(3) [OF that(1)] that(2) kernel_frameD(9) [OF s'(3)] by (simp add: thread_timer_ok_def)
  qed
  have mr: "made_ready ?s t Q = made_ready s t Q" by (simp add: made_ready_def priority_of_def)
  have closed: "thread_stat x s' = RT_THREAD_CLOSE" if "x \<in> T" "thread_stat x ?s = RT_THREAD_CLOSE" for x
    using that(2) st1 kernel_frameD(9) [OF s'(3)] by (cases "x = t") auto
  have "kernel_ok s' H T (made_ready s t Q) (remove1 t hs) ss"
    unfolding mr [symmetric] using kernel_ok_lists [OF S s'(6,2)] susp closed by blast
  moreover have "rt_thread_resume t s = returns (RT_EOK, s')"
    using st s'(1) by (simp add: rt_thread_resume_def stop_timer_lists)
  moreover have "due s' = due s" using armed_truncate(5) [OF s'(6)] by (simp add: due_stop)
  ultimately show ?thesis using that frame s'(4,5) by simp
qed

text \<open>Timing out: everything but the timer of the thread, which the check has unlinked.\<close>

lemma rt_thread_timeout_ok:
  assumes ok: "sched_ok s H T Q" and t: "t \<in> T" and st: "thread_stat t s = RT_THREAD_SUSPEND"
    and cur: "current_thread s \<noteq> None"
  obtains s' where "rt_thread_timeout t s = returns (settle (made_ready s t Q) s')"
    and "sched_ok s' H T (made_ready s t Q)" and "kernel_frame t s s'"
    and "thread_stat t s' = RT_THREAD_READY" and "th_error (thread_of s' t) = - RT_ETIMEOUT"
    and "timers.truncate s' = timers.truncate s" and "live s' (made_ready s t Q)"
proof -
  let ?s = "set_error (- RT_ETIMEOUT) t s"
  have ok1: "sched_ok ?s H T Q" by (rule sched_ok_view [OF ok]) simp_all
  have st1: "thread_stat t ?s = RT_THREAD_SUSPEND" using st by simp
  obtain s' where s': "rt_schedule_insert_thread t (upd_lists (rt_list_remove t) ?s) = returns s'"
    "sched_ok s' H T (made_ready ?s t Q)" "kernel_frame t ?s s'" "thread_stat t s' = RT_THREAD_READY"
    "th_error (thread_of s' t) = th_error (thread_of ?s t)" "timers.truncate s' = timers.truncate ?s"
    using enqueue_ok [OF ok1 t st1] by metis
  have mr: "made_ready ?s t Q = made_ready s t Q" by (simp add: made_ready_def)
  have f: "kernel_frame t s ?s" by (simp add: kernel_frame_def)
  have frame: "kernel_frame t s s'" using kernel_frame_trans [OF f s'(3)] .
  have "t \<in> set (ready_order (made_ready s t Q))" using ready_iff [OF s'(2) t] s'(4) mr by simp
  then have live: "live s' (made_ready s t Q)"
    using cur kernel_frameD(1) [OF frame] by (auto simp: live_def)
  then have "rt_schedule s' = returns (settle (made_ready s t Q) s')"
    using rt_schedule_settle [OF sched_okD(1) [OF s'(2)]] mr by (simp add: live_def)
  then have "rt_thread_timeout t s = returns (settle (made_ready s t Q) s')"
    using st s'(1) by (simp add: rt_thread_timeout_def)
  then show ?thesis using that s' mr frame live by simp
qed

subsection \<open>Sleeping\<close>

lemma set_time:
  "snd (rt_timer_control t 0 tick s) =
     s\<lparr>timer_of := (timer_of s)(t := (timer_of s t)\<lparr>init_tick := tick\<rparr>)\<rparr>"
  by (simp add: rt_timer_control_def)

lemma set_time_flag: "has_flag f x (snd (rt_timer_control t 0 tick s)) = has_flag f x s"
  by (auto simp: set_time has_flag_def)

text \<open>Setting the period of a timer that is not running.\<close>

lemma armed_set_time:
  assumes A: "armed s hs ss" and t: "t \<notin> set hs"
  shows "armed (snd (rt_timer_control t 0 tick s)) hs ss"
proof -
  let ?s = "snd (rt_timer_control t 0 tick s)"
  note D = armedD [OF A]
  note flags = set_time_flag [of _ _ t tick s]
  have due: "due ?s x = due s x" for x by (simp add: set_time due_def)
  have per: "period ?s x = period s x" if "x \<noteq> t" for x using that by (simp add: set_time period_def)
  have "timers_ok ?s hs ss" by (rule timers_ok_cong [OF D(1) _ flags]) (simp add: set_time)
  moreover have "map (due ?s) hs = map (due s) hs" using due by simp
  moreover have "x \<in> set hs \<Longrightarrow> period ?s x = period s x" for x using per t by metis
  ultimately show ?thesis
    using A unfolding armed_def in_window_def is_active_def is_periodic_def flags due by metis
qed

lemma kernel_ok_set_time:
  assumes ok: "kernel_ok s H T Q hs ss" and t: "t \<notin> set hs"
  shows "kernel_ok (snd (rt_timer_control t 0 tick s)) H T Q hs ss"
proof -
  let ?s = "snd (rt_timer_control t 0 tick s)"
  note K = kernel_okD [OF ok]
  have "sched_ok ?s H T Q" by (rule sched_ok_cong [OF K(1)]) simp_all
  moreover have "thread_timer_ok ?s hs x" if "x \<in> T" for x
  proof -
    have "thread_stat x ?s = thread_stat x s" by (simp add: thread_stat_def)
    then show ?thesis
      using K(3) [OF that] unfolding thread_timer_ok_def is_soft_def is_periodic_def is_active_def set_time_flag by simp
  qed
  ultimately show ?thesis using armed_set_time [OF K(2) t] by (simp add: kernel_ok_def)
qed

text \<open>Starting the timer of a suspended thread.\<close>

lemma start_timer_ok:
  assumes ok: "kernel_ok s H T Q hs ss" and t: "t \<in> T" "t \<notin> set hs" and st: "thread_stat t s = RT_THREAD_SUSPEND"
    and short: "period s t < 2 ^ 31 - 1"
  obtains s' where "rt_timer_start t s = returns s'"
    and "kernel_ok s' H T Q (insert_due (due s) (period s t) t hs) ss"
    and "kernel_frame t s s'" and "thread_of s' = thread_of s"
    and "\<And>x. due s' x = (if x = t then period s t else due s x)"
proof -
  note K = kernel_okD [OF ok]
  note tt = K(3) [OF t(1), unfolded thread_timer_ok_def]
  have soft: "\<not> is_soft s t" and np: "is_periodic s t \<longrightarrow> 0 < period s t" using tt by blast+
  obtain s' where s': "rt_timer_start t s = returns s'"
    and A: "armed s' (insert_due (due s) (period s t) t hs) ss"
    and f: "timer_of s' = (timer_of s)(t := started s t)" "rt_tick s' = rt_tick s"
    using armed_start [OF K(2) K(4) [OF t(1)] t(2) K(5) [OF t(1)] soft np short] by metis
  note k = kernel_of_timer_start [OF s']
  have "sched_ok s' H T Q" by (rule sched_ok_cong [OF K(1)]) (simp_all add: k)
  moreover have "thread_timer_ok s' (insert_due (due s) (period s t) t hs) x" if x: "x \<in> T" for x
  proof -
    have "is_soft s' x = is_soft s x" by (simp add: is_soft_def has_flag_def f started_def or_other)
    then show ?thesis
      using K(3) [OF x] started_flags [OF f(1)] st
      by (auto simp: thread_timer_ok_def thread_stat_def k)
  qed
  ultimately have "kernel_ok s' H T Q (insert_due (due s) (period s t) t hs) ss" using A by (simp add: kernel_ok_def)
  moreover have "kernel_frame t s s'" by (simp add: kernel_frame_def k f)
  moreover have "due s' x = (if x = t then period s t else due s x)" for x
    using due_started [OF short f] by simp
  ultimately show ?thesis using that s' k(2) by blast
qed

lemma suspend_for_ok:
  assumes ok: "kernel_ok s H T Q hs ss" and t: "t \<in> T" and st: "thread_stat t s = RT_THREAD_READY"
    and short: "uint tick < 2 ^ 31 - 1"
  obtains s' where "suspend_for t tick s = returns s'"
    and "kernel_ok s' H T (without t Q) (insert_due (due s) (uint tick) t hs) ss"
    and "kernel_frame t s s'" and "thread_stat t s' = RT_THREAD_SUSPEND"
    and "th_error (thread_of s' t) = th_error (thread_of s t)"
    and "\<And>x. due s' x = (if x = t then uint tick else due s x)"
proof -
  obtain s1 where s1: "rt_thread_suspend t s = returns (RT_EOK, s1)" "kernel_ok s1 H T (without t Q) hs ss"
    "kernel_frame t s s1" "thread_stat t s1 = RT_THREAD_SUSPEND" "th_error (thread_of s1 t) = th_error (thread_of s t)"
    "timers.truncate s1 = timers.truncate s"
    using rt_thread_suspend_ok [OF ok t st] by metis
  let ?s = "snd (rt_timer_control t 0 tick s1)"
  have nt: "t \<notin> set hs" using kernel_okD(3) [OF ok t] st by (auto simp: thread_timer_ok_def)
  have due: "due ?s = due s" by (simp add: fun_eq_iff due_def set_time armed_truncate [OF s1(6)])
  have per: "period ?s t = uint tick" by (simp add: period_def set_time)
  have st2: "thread_stat t ?s = RT_THREAD_SUSPEND" using s1(4) by (simp add: thread_stat_def)
  have short2: "period ?s t < 2 ^ 31 - 1" using short per by simp
  obtain s' where s': "rt_timer_start t ?s = returns s'"
    "kernel_ok s' H T (without t Q) (insert_due (due ?s) (period ?s t) t hs) ss"
    "kernel_frame t ?s s'" "thread_of s' = thread_of ?s" "\<And>x. due s' x = (if x = t then period ?s t else due ?s x)"
    using start_timer_ok [OF kernel_ok_set_time [OF s1(2) nt] t nt st2 short2] by metis
  have f: "kernel_frame t s1 ?s" by (simp add: kernel_frame_def) (simp add: set_time)
  have "suspend_for t tick s = returns s'" using s1(1) s'(1) by (simp add: suspend_for_def)
  moreover have "kernel_frame t s s'" using kernel_frame_trans [OF kernel_frame_trans [OF s1(3) f] s'(3)] .
  moreover have "thread_stat t s' = RT_THREAD_SUSPEND" "th_error (thread_of s' t) = th_error (thread_of s t)"
    using s1(4,5) s'(4) by (simp_all add: thread_stat_def)
  moreover have "kernel_ok s' H T (without t Q) (insert_due (due s) (uint tick) t hs) ss"
    using s'(2) unfolding due per .
  ultimately show ?thesis using that s'(5) unfolding due per by blast
qed

text \<open>A tick count of half the range or more fails the assertion of \<open>rt_timer_start\<close>.\<close>

lemma suspend_for_long:
  assumes ok: "kernel_ok s H T Q hs ss" and t: "t \<in> T" and st: "thread_stat t s = RT_THREAD_READY"
    and long: "2 ^ 31 - 1 \<le> uint tick"
  shows "suspend_for t tick s = stops (Assert_Hang ''init_tick'')"
proof -
  obtain s1 where s1: "rt_thread_suspend t s = returns (RT_EOK, s1)"
    using rt_thread_suspend_ok [OF ok t st] by metis
  have "\<not> init_tick (timer_of (snd (rt_timer_control t 0 tick s1)) t) < RT_TICK_MAX div 2"
    using long by (simp add: set_time half_tick word_less_def)
  then show ?thesis using s1 by (simp add: suspend_for_def rt_timer_start_def)
qed

subsection \<open>Yielding\<close>

text \<open>The thread goes behind the others of its priority.\<close>

definition yielded :: "'a kernel_scheme \<Rightarrow> nat \<Rightarrow> (nat \<Rightarrow> nat list) \<Rightarrow> nat \<Rightarrow> nat list" where
  "yielded s t Q = Q(priority_of t s := remove1 t (Q (priority_of t s)) @ [t])"

lemma single_iff:
  assumes F: "family l H Q" and h: "h \<in> H" "t \<in> set (Q h)"
  shows "next_link l t = prev_link l t \<longleftrightarrow> Q h = [t]"
proof -
  obtain xs ys where Q: "Q h = xs @ t # ys" by (meson h(2) split_list)
  have L: "dlist l h (xs @ t # ys)" using familyD(1) [OF F h(1)] Q by simp
  have d: "distinct (h # xs @ t # ys)" using dlistD [OF L] .
  have "hd (ys @ [h]) = last (h # xs) \<longleftrightarrow> xs = [] \<and> ys = []"
  proof (cases "xs = []")
    case True then show ?thesis using d by (cases ys) auto
  next
    case False
    then have "last (h # xs) \<in> set xs" by simp
    moreover have "hd (ys @ [h]) \<in> set (h # ys)" by (cases ys) auto
    ultimately show ?thesis using d False by (metis Un_iff disjoint_iff distinct.simps(2) distinct_append
          last_ConsR list.set_intros(2) set_ConsD set_append)
  qed
  moreover have "xs @ t # ys = [t] \<longleftrightarrow> xs = [] \<and> ys = []" by (cases xs) auto
  ultimately show ?thesis unfolding dlist_next [OF L] Q by simp
qed

lemma rt_thread_yield_ok:
  assumes ok: "kernel_ok s H T Q hs ss" and t: "t \<in> T" "current_thread s = Some t"
    and st: "thread_stat t s = RT_THREAD_READY" and more: "Q (priority_of t s) \<noteq> [t]"
  obtains s' where "rt_thread_yield s = returns (settle (yielded s t Q) s')"
    and "kernel_ok s' H T (yielded s t Q) hs ss" and "kernel_frame t s s'" and "thread_of s' = thread_of s"
proof -
  let ?p = "priority_of t s"
  let ?s = "upd_lists (rt_list_insert_before ?p t) (upd_lists (rt_list_remove t) s)"
  note K = kernel_okD [OF ok]
  note D = sched_okD [OF K(1)]
  note TO = thread_okD [OF D(4) [OF t(1)]]
  note L = lists_okD [OF D(1)]
  have p: "?p < PRIORITY_MAX" "?p \<in> H" using TO(1) L(2) by auto
  have mem: "t \<in> set (Q ?p)" using TO(3) [OF p(1)] st by simp
  have F1: "family (rt_list_remove t (tlists s)) H (without t Q)" by (rule family_remove [OF L(1) D(2) [OF t(1)]])
  have W: "\<And>h. h \<in> H \<Longrightarrow> t \<notin> set (without t Q h)" using set_without [OF L(1)] by simp
  have "family (tlists ?s) H ((without t Q)(?p := without t Q ?p @ [t]))"
    using family_insert_before [OF F1 p(2) D(2) [OF t(1)] W, of "without t Q ?p" "[]" ?p] by simp
  moreover have "((without t Q)(?p := without t Q ?p @ [t])) h = yielded s t Q h" if "h \<in> H" for h
  proof (cases "h = ?p")
    case True then show ?thesis by (simp add: yielded_def without_def)
  next
    case False
    then have "t \<notin> set (Q h)" using familyD(3) [OF L(1) that p(2), of t] mem by blast
    then show ?thesis using False by (simp add: yielded_def without_def remove1_idem)
  qed
  ultimately have F: "family (tlists ?s) H (yielded s t Q)"
    by (metis family_cong)
  have same: "x \<in> set (yielded s t Q h) \<longleftrightarrow> x \<in> set (Q h)" if "h \<in> H" for x h
    using familyD(5) [OF L(1) p(2)] mem by (auto simp: yielded_def)
  have "yielded s t Q q \<noteq> [] \<longleftrightarrow> Q q \<noteq> []" if "q < PRIORITY_MAX" for q
    using mem by (auto simp: yielded_def)
  then have "lists_ok ?s H (yielded s t Q)" using F D(1) by (auto simp: lists_ok_def)
  moreover have "thread_ok ?s H (yielded s t Q) x" if "x \<in> T" for x
    using D(1) by (intro thread_ok_cong [OF D(4) [OF that]]) (simp_all add: same lists_ok_def)
  ultimately have sched: "sched_ok ?s H T (yielded s t Q)"
    using D(2,3) same unfolding sched_ok_def by blast
  have susp: "\<And>x. x \<in> T \<Longrightarrow> x \<in> set hs \<Longrightarrow> thread_stat x ?s = RT_THREAD_SUSPEND"
    using K(3) by (simp add: thread_timer_ok_def)
  have ok': "kernel_ok ?s H T (yielded s t Q) hs ss"
    by (rule kernel_ok_lists [OF ok _ sched susp]) simp_all
  have "t \<in> set (ready_order (yielded s t Q))" using ready_iff [OF sched t(1)] st by simp
  then have "live ?s (yielded s t Q)" using t(2) by (auto simp: live_def)
  then have "rt_schedule ?s = returns (settle (yielded s t Q) ?s)" by (rule rt_schedule_ok [OF ok'])
  moreover have "next_link (tlists s) t \<noteq> prev_link (tlists s) t"
    using single_iff [of "tlists s" H Q ?p t] L(1) p(2) mem more by blast
  ultimately have "rt_thread_yield s = returns (settle (yielded s t Q) ?s)"
    using t(2) st p(1) by (simp add: rt_thread_yield_def)
  moreover have "kernel_frame t s ?s" by (simp add: kernel_frame_def)
  ultimately show ?thesis using that ok' by simp
qed

text \<open>Alone in its list, the thread goes on.\<close>

lemma rt_thread_yield_alone:
  assumes ok: "kernel_ok s H T Q hs ss" and t: "t \<in> T" "current_thread s = Some t"
    and st: "thread_stat t s = RT_THREAD_READY" and alone: "Q (priority_of t s) = [t]"
  shows "rt_thread_yield s = returns s"
proof -
  note L = lists_okD [OF sched_okD(1) [OF kernel_okD(1) [OF ok]]]
  have "priority_of t s \<in> H" using L(2) thread_okD(1) [OF sched_okD(4) [OF kernel_okD(1) [OF ok] t(1)]] .
  then have "next_link (tlists s) t = prev_link (tlists s) t"
    using single_iff [OF L(1), of "priority_of t s" t] alone by simp
  then show ?thesis using t(2) by (simp add: rt_thread_yield_def)
qed

end
