(* ===== verification/ThreadOps.thy ===== *)
theory ThreadOps
  imports ThreadLaws
begin

text \<open>
  What starting, closing and re-prioritising a thread do to the invariant of the kernel.
\<close>

subsection \<open>Lists that do not hold a thread\<close>

lemma sched_ok_Q:
  assumes "sched_ok s H T Q" and "\<And>h. h \<in> H \<Longrightarrow> Q' h = Q h"
  shows "sched_ok s H T Q'"
proof -
  note D = sched_okD [OF assms(1)]
  have sub: "{..rt_thread_defunct} \<subseteq> H" using D(1) by (simp add: lists_ok_def)
  then have P: "p < PRIORITY_MAX \<Longrightarrow> p \<in> H" for p by (auto simp: rt_thread_defunct_def)
  have "lists_ok s H Q'" using D(1) assms(2) P by (auto simp: lists_ok_def intro: family_cong)
  moreover have "thread_ok s H Q' t" if "t \<in> T" for t
    by (rule thread_ok_cong [OF D(4) [OF that] refl _ sub]) (simp add: assms(2))
  ultimately show ?thesis using D(2,3) assms(2) unfolding sched_ok_def by auto
qed

lemma kernel_ok_Q:
  assumes "kernel_ok s H T Q hs ss" and "\<And>h. h \<in> H \<Longrightarrow> Q' h = Q h"
  shows "kernel_ok s H T Q' hs ss"
  using assms sched_ok_Q [of s H T Q Q'] by (auto simp: kernel_ok_def)

lemma init_in_no_list:
  assumes ok: "sched_ok s H T Q" and t: "t \<in> T" and st: "thread_stat t s = RT_THREAD_INIT" and h: "h \<in> H"
  shows "t \<notin> set (Q h)"
proof
  note K = thread_okD [OF sched_okD(4) [OF ok t]]
  assume m: "t \<in> set (Q h)"
  have "RT_THREAD_INIT \<noteq> RT_THREAD_CLOSE" by (simp add: RT_THREAD_INIT_def RT_THREAD_CLOSE_def)
  then show False
    using K(3) [of h] K(4) [OF h _ m] m st by (cases "h < PRIORITY_MAX") (auto split: if_splits)
qed

subsection \<open>Changing the priority\<close>

text \<open>A ready thread goes to the end of the list of its new priority; any other keeps its place.\<close>

definition moved :: "nat \<Rightarrow> u8 \<Rightarrow> (nat \<Rightarrow> nat list) \<Rightarrow> nat \<Rightarrow> nat list" where
  "moved t p Q = (without t Q)(unat p := without t Q (unat p) @ [t])"

lemma set_priority_ok:
  assumes ok: "sched_ok s H T Q" and t: "t \<in> T" and st: "thread_stat t s \<noteq> RT_THREAD_READY"
    and p: "unat p < PRIORITY_MAX"
  shows "sched_ok (set_priority p t s) H T Q"
proof -
  note D = sched_okD [OF ok]
  have sub: "{..rt_thread_defunct} \<subseteq> H" using D(1) by (simp add: lists_ok_def)
  have m: "mask_ok t (set_priority p t s)" by (simp add: mask_ok_def) (simp add: set_priority_def)
  have "thread_ok (set_priority p t s) H Q x" if x: "x \<in> T" for x
  proof (cases "x = t")
    case False
    then show ?thesis by (intro thread_ok_cong [OF D(4) [OF x] _ _ sub]) simp_all
  next
    case True
    note K = thread_okD [OF D(4) [OF t]]
    show ?thesis
      unfolding thread_ok_def True using K(2-4) st p m by simp
  qed
  moreover have "lists_ok (set_priority p t s) H Q" using D(1) by (simp add: lists_ok_def)
  ultimately show ?thesis using D(2,3) unfolding sched_ok_def by blast
qed

lemma change_priority_ok:
  assumes ok: "kernel_ok s H T Q hs ss" and t: "t \<in> T" and p: "unat p < PRIORITY_MAX"
  obtains s' where "change_priority t p s = returns s'"
    and "kernel_ok s' H T (if thread_stat t s = RT_THREAD_READY then moved t p Q else Q) hs ss"
    and "current_priority (thread_of s' t) = p" and "thread_stat t s' = thread_stat t s"
    and "\<And>x. x \<noteq> t \<Longrightarrow> thread_of s' x = thread_of s x" and "current_thread s' = current_thread s"
    and "lock_nest s' = lock_nest s" and "kernel.more s' = kernel.more s" and "interrupt_nest s' = interrupt_nest s"
    and "timers.truncate s' = timers.truncate s" and "th_error (thread_of s' t) = th_error (thread_of s t)"
    and "init_priority (thread_of s' t) = init_priority (thread_of s t)" and "switches s' = switches s"
proof (cases "thread_stat t s = RT_THREAD_READY")
  case False
  let ?s = "set_priority p t s"
  have "change_priority t p s = returns ?s" using False by (simp add: change_priority_def)
  moreover have "kernel_ok ?s H T Q hs ss"
    by (rule kernel_ok_lists [OF ok _ set_priority_ok [OF kernel_okD(1) [OF ok] t False p]])
       (use kernel_okD(3) [OF ok] in \<open>simp_all add: thread_timer_ok_def\<close>)
  moreover have "current_priority (thread_of ?s t) = p" by (simp add: set_priority_def)
  ultimately show ?thesis using that [of ?s] False by simp
next
  case True
  note K = kernel_okD [OF ok]
  note D = sched_okD [OF K(1)]
  note TO = thread_okD [OF D(4) [OF t]]
  have m: "mask_ok t s" using TO(5) True by simp
  have other: "\<And>q. q < PRIORITY_MAX \<Longrightarrow> q \<noteq> priority_of t s \<Longrightarrow> t \<notin> set (Q q)" using TO(3) by blast
  obtain s1 g where s1: "rt_schedule_remove_thread t s = returns s1"
    "s1 = s\<lparr>tlists := rt_list_remove t (tlists s), ready_group := g\<rparr>" "lists_ok s1 H (without t Q)"
    using remove_thread_lists [OF D(1) D(2) [OF t] TO(1) disjI1 [OF m] other] by metis
  let ?s = "set_priority p t s1"
  note W = set_without [OF lists_okD(1) [OF D(1)]]
  have L1: "lists_ok ?s H (without t Q)" using s1(3) by (simp add: lists_ok_def)
  have m1: "mask_ok t ?s" by (simp add: mask_ok_def) (simp add: set_priority_def)
  have p1: "priority_of t ?s < PRIORITY_MAX" using p by simp
  have new: "\<And>h. h \<in> H \<Longrightarrow> t \<notin> set (without t Q h)" using W by simp
  obtain s2 g2 where s2: "rt_schedule_insert_thread t ?s = returns s2"
    "s2 = change_stat RT_THREAD_READY t
       (?s\<lparr>tlists := rt_list_insert_before (priority_of t ?s) t (tlists ?s), ready_group := g2\<rparr>)"
    "lists_ok s2 H ((without t Q)(priority_of t ?s := without t Q (priority_of t ?s) @ [t]))"
    using insert_thread_lists [OF L1 D(2) [OF t] new p1 m1] by metis
  have Q': "(without t Q)(priority_of t ?s := without t Q (priority_of t ?s) @ [t]) = moved t p Q"
    by (simp add: moved_def)
  have mem: "x \<in> set (moved t p Q h) \<longleftrightarrow> (if x = t then h = unat p else x \<in> set (Q h))" if "h \<in> H" for x h
    using W [OF that] by (auto simp: moved_def)
  have sub: "{..rt_thread_defunct} \<subseteq> H" using D(1) by (simp add: lists_ok_def)
  have th: "thread_of s2 x = (if x = t then (thread_of s t)\<lparr>th_stat := RT_THREAD_READY OR
      (th_stat (thread_of s t) AND NOT RT_THREAD_STAT_MASK), current_priority := p,
      number_mask := push_bit (unat p) 1\<rparr> else thread_of s x)" for x
    by (simp add: s2(2) s1(2) change_stat_def set_priority_def upd_thread_def)
  have stat: "thread_stat t s2 = RT_THREAD_READY" by (simp add: thread_stat_def th)
  have "thread_ok s2 H (moved t p Q) x" if x: "x \<in> T" for x
  proof (cases "x = t")
    case False
    then show ?thesis by (intro thread_ok_cong [OF D(4) [OF x] _ _ sub]) (simp_all add: th mem)
  next
    case True
    have "q < PRIORITY_MAX \<Longrightarrow> q \<in> H" for q using lists_okD(2) [OF D(1)] .
    then show ?thesis
      unfolding thread_ok_def True using TO(2) stat p
      by (auto simp: mem mask_ok_def priority_of_def th)
  qed
  moreover have "\<forall>h \<in> H. set (moved t p Q h) \<subseteq> T" using mem D(3) t by (auto split: if_splits)
  ultimately have sched: "sched_ok s2 H T (moved t p Q)"
    using s2(3) [unfolded Q'] D(2) unfolding sched_ok_def by blast
  have tr: "timers.truncate s2 = timers.truncate s"
    by (simp add: s2(2) s1(2) timers.truncate_def change_stat_def set_priority_def upd_thread_def)
  have st: "thread_stat x s2 = thread_stat x s" for x using stat True th by (cases "x = t") (simp_all add: thread_stat_def)
  have "kernel_ok s2 H T (moved t p Q) hs ss"
    by (rule kernel_ok_lists [OF ok tr sched]) (use K(3) st in \<open>simp_all add: thread_timer_ok_def\<close>)
  moreover have "change_priority t p s = returns s2" using True s1(1) s2(1) by (simp add: change_priority_def)
  moreover have "current_thread s2 = current_thread s \<and> lock_nest s2 = lock_nest s \<and>
      kernel.more s2 = kernel.more s \<and> interrupt_nest s2 = interrupt_nest s \<and> switches s2 = switches s"
    by (simp add: s2(2) s1(2))
  ultimately show ?thesis using that [of s2] th st tr True by simp
qed

text \<open>A new priority of 32 or more indexes the table of ready lists outside its bounds.\<close>

lemma change_priority_outside:
  assumes ok: "kernel_ok s H T Q hs ss" and t: "t \<in> T" and st: "thread_stat t s = RT_THREAD_READY"
    and p: "PRIORITY_MAX \<le> unat p"
  shows "change_priority t p s = stops (Out_Of_Bounds ''rt_thread_priority_table'')"
proof -
  note D = sched_okD [OF kernel_okD(1) [OF ok]]
  note TO = thread_okD [OF D(4) [OF t]]
  have "mask_ok t s" using TO(5) st by simp
  moreover have "\<And>q. q < PRIORITY_MAX \<Longrightarrow> q \<noteq> priority_of t s \<Longrightarrow> t \<notin> set (Q q)" using TO(3) by blast
  ultimately obtain s1 where "rt_schedule_remove_thread t s = returns s1"
    using remove_thread_lists [OF D(1) D(2) [OF t] TO(1)] by metis
  then show ?thesis using st p by (simp add: change_priority_def rt_schedule_insert_thread_def)
qed

subsection \<open>Starting\<close>

lemma rt_thread_startup_ok:
  assumes ok: "kernel_ok s H T Q hs ss" and t: "t \<in> T" and st: "thread_stat t s = RT_THREAD_INIT"
  defines "p \<equiv> unat (init_priority (thread_of s t))"
  obtains s' where "rt_thread_startup t s =
        returns (RT_EOK, if current_thread s = None then s' else settle (Q(p := Q p @ [t])) s')"
    and "kernel_ok s' H T (Q(p := Q p @ [t])) hs ss" and "thread_stat t s' = RT_THREAD_READY"
    and "priority_of t s' = p" and "\<And>x. x \<noteq> t \<Longrightarrow> thread_of s' x = thread_of s x"
    and "current_thread s' = current_thread s" and "lock_nest s' = lock_nest s" and "due s' = due s"
    and "kernel.more s' = kernel.more s" and "interrupt_nest s' = interrupt_nest s"
proof -
  note K = kernel_okD [OF ok]
  note TO = thread_okD [OF sched_okD(4) [OF K(1) t]]
  note none = init_in_no_list [OF K(1) t st]
  have P: "\<And>p. p < PRIORITY_MAX \<Longrightarrow> p \<in> H" using lists_okD(2) [OF sched_okD(1) [OF K(1)]] .
  let ?s1 = "set_priority (init_priority (thread_of s t)) t s"
  let ?s2 = "set_stat RT_THREAD_SUSPEND t ?s1"
  have pr: "unat (init_priority (thread_of s t)) < PRIORITY_MAX" using TO(2) .
  have ok1: "sched_ok ?s1 H T Q" using set_priority_ok [OF K(1) t _ pr] st by simp
  have m: "mask_ok t ?s2" by (simp add: mask_ok_def) (simp add: set_priority_def)
  have "thread_ok ?s2 H Q x" if x: "x \<in> T" for x
  proof (cases "x = t")
    case True
    have "\<not> (h \<in> H \<and> t \<in> set (Q h))" for h using none by blast
    then show ?thesis unfolding thread_ok_def True using P pr m by auto
  next
    case False
    show ?thesis
      by (rule thread_ok_cong [OF sched_okD(4) [OF K(1) x]])
         (use False sched_okD(1) [OF K(1)] in \<open>simp_all add: lists_ok_def\<close>)
  qed
  moreover have "lists_ok ?s2 H Q" using sched_okD(1) [OF K(1)] by (simp add: lists_ok_def)
  ultimately have ok2: "sched_ok ?s2 H T Q" using sched_okD(2,3) [OF K(1)] unfolding sched_ok_def by blast
  have kok2: "kernel_ok ?s2 H T Q hs ss"
    by (rule kernel_ok_lists [OF ok _ ok2])
       (use K(3) st in \<open>auto simp: thread_timer_ok_def RT_THREAD_INIT_def RT_THREAD_CLOSE_def\<close>)
  have st2: "thread_stat t ?s2 = RT_THREAD_SUSPEND" by simp
  obtain s' where s': "rt_thread_resume t ?s2 = returns (RT_EOK, s')"
    "kernel_ok s' H T (made_ready ?s2 t Q) (remove1 t hs) ss" "kernel_frame t ?s2 s'"
    "thread_stat t s' = RT_THREAD_READY" "due s' = due ?s2"
    using rt_thread_resume_ok [OF kok2 t st2] by metis
  have nh: "t \<notin> set hs" using K(3) [OF t] st by (auto simp: thread_timer_ok_def)
  have pp: "priority_of t ?s2 = p" by (simp add: p_def)
  have "made_ready ?s2 t Q h = (Q(p := Q p @ [t])) h" if "h \<in> H" for h
    using none [OF that] without_fresh [of t Q h] by (simp add: made_ready_def pp p_def)
  then have ok': "kernel_ok s' H T (Q(p := Q p @ [t])) hs ss"
    using kernel_ok_Q [OF s'(2), of "Q(p := Q p @ [t])"] nh by (simp add: remove1_idem)
  have cur: "current_thread s' = current_thread s" using kernel_frameD(1) [OF s'(3)] by simp
  have "t \<in> set (ready_order (Q(p := Q p @ [t])))" using ready_iff [OF kernel_okD(1) [OF ok'] t] s'(4) by simp
  then have "ready_order (Q(p := Q p @ [t])) \<noteq> []" by force
  then have sched: "current_thread s \<noteq> None \<Longrightarrow> rt_schedule s' = returns (settle (Q(p := Q p @ [t])) s')"
    using rt_schedule_ok [OF ok'] cur by (auto simp: live_def)
  have "rt_thread_startup t s =
      returns (RT_EOK, if current_thread s = None then s' else settle (Q(p := Q p @ [t])) s')"
    using st s'(1) cur sched by (simp add: rt_thread_startup_def rt_thread_self_def)
  moreover have "priority_of t s' = p" using kernel_frameD(8) [OF s'(3)] pp by simp
  moreover have "due s' = due s" unfolding s'(5) by (simp add: fun_eq_iff due_def)
  ultimately show ?thesis
    using that ok' s'(4) cur kernel_frameD(2,3,5,7) [OF s'(3)] by simp
qed

subsection \<open>Closing\<close>

text \<open>The timer of a closed thread is unlinked.\<close>

lemma detach_timer_ok:
  assumes ok: "kernel_ok s H T Q hs ss" and t: "t \<in> T"
  shows "sched_ok (rt_timer_detach t s) H T Q" and "armed (rt_timer_detach t s) (remove1 t hs) ss"
    and "x \<in> T \<Longrightarrow> x \<noteq> t \<Longrightarrow> thread_timer_ok (rt_timer_detach t s) (remove1 t hs) x"
    and "\<not> is_soft (rt_timer_detach t s) t" and "\<not> is_periodic (rt_timer_detach t s) t"
proof -
  note K = kernel_okD [OF ok]
  show "sched_ok (rt_timer_detach t s) H T Q" by (rule sched_ok_cong [OF K(1)]) simp_all
  show "armed (rt_timer_detach t s) (remove1 t hs) ss"
    using armed_detach [OF K(2) K(4) [OF t] K(5) [OF t]] by (simp add: rt_timer_detach_def)
  show "x \<in> T \<Longrightarrow> x \<noteq> t \<Longrightarrow> thread_timer_ok (rt_timer_detach t s) (remove1 t hs) x"
    using K(3) [of x] by (simp add: thread_timer_ok_def rt_timer_detach_def thread_stat_def)
  show "\<not> is_soft (rt_timer_detach t s) t" "\<not> is_periodic (rt_timer_detach t s) t"
    using K(3) [OF t] by (simp_all add: thread_timer_ok_def rt_timer_detach_def)
qed

text \<open>Out of its list, closed and without a timer, the thread may be put into the defunct list.\<close>

definition reaped :: "nat \<Rightarrow> (nat \<Rightarrow> nat list) \<Rightarrow> nat \<Rightarrow> nat list" where
  "reaped t Q = (without t Q)(rt_thread_defunct := t # without t Q rt_thread_defunct)"

lemma defunct_ok:
  assumes ok: "sched_ok s H T (without t Q)" and t: "t \<in> T" and st: "thread_stat t s = RT_THREAD_CLOSE"
    and W: "\<And>h. h \<in> H \<Longrightarrow> t \<notin> set (without t Q h)"
  shows "sched_ok (upd_lists (rt_list_insert_after rt_thread_defunct t) s) H T (reaped t Q)"
proof -
  let ?s = "upd_lists (rt_list_insert_after rt_thread_defunct t) s"
  note D = sched_okD [OF ok]
  note L = lists_okD [OF D(1)]
  have sub: "{..rt_thread_defunct} \<subseteq> H" using D(1) by (simp add: lists_ok_def)
  have F: "family (tlists ?s) H (reaped t Q)"
    using family_insert_after [OF L(1,3) D(2) [OF t] W, of "[]" "without t Q rt_thread_defunct" rt_thread_defunct]
    by (simp add: reaped_def)
  have "p < PRIORITY_MAX \<Longrightarrow> reaped t Q p = without t Q p" for p
    by (simp add: reaped_def rt_thread_defunct_def)
  then have "lists_ok ?s H (reaped t Q)" using F sub L(6) by (simp add: lists_ok_def)
  moreover have mem: "x \<in> set (reaped t Q h) \<longleftrightarrow> (if x = t then h = rt_thread_defunct else x \<in> set (without t Q h))"
    if "h \<in> H" for x h using W [OF that] by (auto simp: reaped_def)
  moreover have "thread_ok ?s H (reaped t Q) x" if x: "x \<in> T" for x
  proof (cases "x = t")
    case False
    then show ?thesis by (intro thread_ok_cong [OF D(4) [OF x] _ _ sub]) (simp_all add: mem)
  next
    case True
    have P: "q < PRIORITY_MAX \<Longrightarrow> q \<in> H \<and> q \<noteq> rt_thread_defunct" for q
      using L(2) by (simp add: rt_thread_defunct_def)
    note TO = thread_okD [OF D(4) [OF t]]
    show ?thesis
      unfolding thread_ok_def True using TO(1,2,6) st P by (auto simp: mem mask_ok_def)
  qed
  moreover have "\<forall>h \<in> H. set (reaped t Q h) \<subseteq> T" using mem D(3) t by (auto split: if_splits)
  ultimately show ?thesis using D(2) unfolding sched_ok_def by blast
qed

lemma closed_ok:
  assumes ok: "kernel_ok s H T Q hs ss" and t: "t \<in> T"
    and s1: "sched_ok (set_stat RT_THREAD_CLOSE t s1) H T (without t Q)" "timers.truncate s1 = timers.truncate s"
      "thread_of s1 = thread_of s"
  shows "kernel_ok (set_stat RT_THREAD_CLOSE t (rt_timer_detach t s1)) H T (without t Q) (remove1 t hs) ss"
proof -
  let ?u = "set_stat RT_THREAD_CLOSE t (rt_timer_detach t s1)"
  note D = detach_timer_ok [OF ok t]
  have tr: "timers.truncate ?u = timers.truncate (rt_timer_detach t s)"
    using s1(2) by (simp add: rt_timer_detach_def timer_remove_def timers.truncate_def set_stat_def upd_thread_def)
  note A = armed_truncate [OF tr]
  have sched: "sched_ok ?u H T (without t Q)"
    by (rule sched_ok_view [OF s1(1)]) (simp_all add: thread_stat_def priority_of_def, simp_all add: set_stat_def)
  have "thread_timer_ok ?u (remove1 t hs) x" if x: "x \<in> T" for x
  proof (cases "x = t")
    case True
    have "t \<notin> set (remove1 t hs)" using timers_okD(3) [OF armedD(1) [OF kernel_okD(2) [OF ok]]] by simp
    then show ?thesis using D(4,5) unfolding thread_timer_ok_def A True by simp
  next
    case False
    have "thread_stat x ?u = thread_stat x (rt_timer_detach t s)"
      using False s1(3) by (simp add: thread_stat_def)
    then show ?thesis using D(3) [OF x False] unfolding thread_timer_ok_def A by simp
  qed
  then show ?thesis using sched D(2) unfolding kernel_ok_def A by blast
qed

text \<open>A thread that was never started is in no list.\<close>

lemma never_started:
  assumes ok: "kernel_ok s H T Q hs ss" and t: "t \<in> T" and st: "thread_stat t s = RT_THREAD_INIT"
  shows "sched_ok (set_stat RT_THREAD_CLOSE t s) H T (without t Q)"
proof -
  note D = sched_okD [OF kernel_okD(1) [OF ok]]
  note none = init_in_no_list [OF kernel_okD(1) [OF ok] t st]
  have P: "\<And>p. p < PRIORITY_MAX \<Longrightarrow> p \<in> H" using lists_okD(2) [OF D(1)] .
  have "thread_ok (set_stat RT_THREAD_CLOSE t s) H Q x" if x: "x \<in> T" for x
  proof (cases "x = t")
    case True
    have "\<not> (h \<in> H \<and> t \<in> set (Q h))" for h using none by blast
    then show ?thesis
      using thread_okD(1,2,6) [OF D(4) [OF t]] P unfolding thread_ok_def True mask_ok_def
      by (auto simp: eq_commute [of RT_THREAD_INIT])
  next
    case False
    show ?thesis
      by (rule thread_ok_cong [OF D(4) [OF x]]) (use False D(1) in \<open>simp_all add: lists_ok_def\<close>)
  qed
  moreover have "lists_ok (set_stat RT_THREAD_CLOSE t s) H Q" using D(1) by (simp add: lists_ok_def)
  ultimately have "sched_ok (set_stat RT_THREAD_CLOSE t s) H T Q" using D(2,3) unfolding sched_ok_def by blast
  then show ?thesis by (rule sched_ok_Q) (simp add: without_fresh none)
qed

text \<open>The three ways a thread ends; \<open>leave\<close> is the removal they start with.\<close>

definition ended :: "bool \<Rightarrow> nat \<Rightarrow> (nat \<Rightarrow> nat list) \<Rightarrow> nat \<Rightarrow> nat list" where
  "ended detached t Q = (if detached then without t Q else reaped t Q)"

lemma leave_ok:
  assumes ok: "kernel_ok s H T Q hs ss" and t: "t \<in> T"
  obtains s1 where
    "(if thread_stat t s \<noteq> RT_THREAD_INIT then rt_schedule_remove_thread t s else returns s) = returns s1"
    and "kernel_ok (set_stat RT_THREAD_CLOSE t (rt_timer_detach t s1)) H T (without t Q) (remove1 t hs) ss"
    and "kernel_ok (upd_lists (rt_list_insert_after rt_thread_defunct t)
           (set_stat RT_THREAD_CLOSE t (rt_timer_detach t s1))) H T (reaped t Q) (remove1 t hs) ss"
    and "kernel_frame t s s1" and "thread_of s1 = thread_of s" and "timers.truncate s1 = timers.truncate s"
proof -
  have cl: "RT_THREAD_CLOSE \<in> {RT_THREAD_SUSPEND, RT_THREAD_CLOSE}" by simp
  obtain s1 where s1:
    "(if thread_stat t s \<noteq> RT_THREAD_INIT then rt_schedule_remove_thread t s else returns s) = returns s1"
    "sched_ok (set_stat RT_THREAD_CLOSE t s1) H T (without t Q)" "timers.truncate s1 = timers.truncate s"
    "thread_of s1 = thread_of s" "kernel_frame t s s1"
  proof (cases "thread_stat t s = RT_THREAD_INIT")
    case True
    then show ?thesis using that [of s] never_started [OF ok t True] by (simp add: kernel_frame_def)
  next
    case False
    from dequeue_ok [OF kernel_okD(1) [OF ok] t cl] obtain s1 where "rt_schedule_remove_thread t s = returns s1"
      "sched_ok (set_stat RT_THREAD_CLOSE t s1) H T (without t Q)" "kernel_frame t s s1"
      "thread_of s1 = thread_of s" "timers.truncate s1 = timers.truncate s" by auto
    then show ?thesis using that [of s1] False by simp
  qed
  note C = closed_ok [OF ok t s1(2-4)]
  let ?u = "set_stat RT_THREAD_CLOSE t (rt_timer_detach t s1)"
  have W: "\<And>h. h \<in> H \<Longrightarrow> t \<notin> set (without t Q h)"
    using set_without [OF lists_okD(1) [OF sched_okD(1) [OF kernel_okD(1) [OF ok]]]] by simp
  have sched: "sched_ok (upd_lists (rt_list_insert_after rt_thread_defunct t) ?u) H T (reaped t Q)"
    by (rule defunct_ok [OF kernel_okD(1) [OF C] t _ W]) simp_all
  have "kernel_ok (upd_lists (rt_list_insert_after rt_thread_defunct t) ?u) H T (reaped t Q) (remove1 t hs) ss"
    by (rule kernel_ok_lists [OF C _ sched])
       (use kernel_okD(3) [OF C] in \<open>simp_all add: thread_timer_ok_def del: view_simps(4)\<close>)
  then show ?thesis using that s1 C by blast
qed

lemma due_closed:
  assumes "timers.truncate s1 = timers.truncate s"
  shows "due (set_stat st t (rt_timer_detach t s1)) = due s" and "due (upd_lists f s) = due s"
    and "due (upd_lists f (set_stat st t (rt_timer_detach t s1))) = due s"
  using armed_truncate(8,9) [OF assms] by (simp_all add: fun_eq_iff due_def rt_timer_detach_def)

lemma rt_thread_delete_ok:
  assumes ok: "kernel_ok s H T Q hs ss" and t: "t \<in> T" and d: "\<not> th_static (thread_of s t)"
  obtains s' where "rt_thread_delete t s = returns (RT_EOK, s')" and "kernel_ok s' H T (reaped t Q) (remove1 t hs) ss"
    and "thread_stat t s' = RT_THREAD_CLOSE" and "\<And>x. x \<noteq> t \<Longrightarrow> thread_of s' x = thread_of s x"
    and "current_thread s' = current_thread s" and "lock_nest s' = lock_nest s" and "due s' = due s"
    and "kernel.more s' = kernel.more s" and "priority_of t s' = priority_of t s"
proof -
  obtain s1 where s1:
    "(if thread_stat t s \<noteq> RT_THREAD_INIT then rt_schedule_remove_thread t s else returns s) = returns s1"
    "kernel_ok (upd_lists (rt_list_insert_after rt_thread_defunct t)
       (set_stat RT_THREAD_CLOSE t (rt_timer_detach t s1))) H T (reaped t Q) (remove1 t hs) ss"
    "kernel_frame t s s1" "thread_of s1 = thread_of s" "timers.truncate s1 = timers.truncate s"
    using leave_ok [OF ok t] by metis
  let ?s = "upd_lists (rt_list_insert_after rt_thread_defunct t) (set_stat RT_THREAD_CLOSE t (rt_timer_detach t s1))"
  have "rt_thread_delete t s = returns (RT_EOK, ?s)" using s1(1) d by (simp add: rt_thread_delete_def)
  then show ?thesis
    using that [of ?s] s1(2,4) kernel_frameD(1,2,5,8) [OF s1(3)] due_closed [OF s1(5)] by simp
qed

lemma rt_thread_detach_ok:
  assumes ok: "kernel_ok s H T Q hs ss" and t: "t \<in> T" and d: "th_static (thread_of s t)"
  obtains s' where "rt_thread_detach t s = returns (RT_EOK, s')"
    and "kernel_ok s' H T (ended (\<not> th_cleanup (thread_of s t)) t Q) (remove1 t hs) ss"
    and "thread_stat t s' = RT_THREAD_CLOSE" and "\<And>x. x \<noteq> t \<Longrightarrow> thread_of s' x = thread_of s x"
    and "current_thread s' = current_thread s" and "lock_nest s' = lock_nest s" and "due s' = due s"
    and "kernel.more s' = kernel.more s" and "priority_of t s' = priority_of t s"
proof -
  obtain s1 where s1:
    "(if thread_stat t s \<noteq> RT_THREAD_INIT then rt_schedule_remove_thread t s else returns s) = returns s1"
    "kernel_ok (set_stat RT_THREAD_CLOSE t (rt_timer_detach t s1)) H T (without t Q) (remove1 t hs) ss"
    "kernel_ok (upd_lists (rt_list_insert_after rt_thread_defunct t)
       (set_stat RT_THREAD_CLOSE t (rt_timer_detach t s1))) H T (reaped t Q) (remove1 t hs) ss"
    "kernel_frame t s s1" "thread_of s1 = thread_of s" "timers.truncate s1 = timers.truncate s"
    using leave_ok [OF ok t] by metis
  let ?u = "set_stat RT_THREAD_CLOSE t (rt_timer_detach t s1)"
  have f: "th_static (thread_of ?u t) = th_static (thread_of s t)" "th_cleanup (thread_of ?u t) = th_cleanup (thread_of s t)"
    using s1(5) by (simp_all add: set_stat_def)
  have "rt_thread_detach t s = returns (RT_EOK, close_thread t ?u)" using s1(1) d by (simp add: rt_thread_detach_def)
  moreover have "close_thread t ?u = (if \<not> th_cleanup (thread_of s t) then ?u
      else upd_lists (rt_list_insert_after rt_thread_defunct t) ?u)"
    using d f by (simp add: close_thread_def)
  ultimately show ?thesis
    using that [of "close_thread t ?u"] s1(2,3,5) kernel_frameD(1,2,5,8) [OF s1(4)] due_closed [OF s1(6)]
    by (simp add: ended_def split: if_splits)
qed

lemma rt_thread_exit_ok:
  assumes ok: "kernel_ok s H T Q hs ss" and t: "t \<in> T" "current_thread s = Some t"
    and st: "thread_stat t s = RT_THREAD_READY"
  defines "E \<equiv> ended (th_static (thread_of s t) \<and> \<not> th_cleanup (thread_of s t)) t Q"
  assumes live: "ready_order E \<noteq> []"
  obtains s' where "rt_thread_exit s = returns (settle E s')"
    and "kernel_ok s' H T E (remove1 t hs) ss" and "thread_stat t s' = RT_THREAD_CLOSE"
    and "\<And>x. x \<noteq> t \<Longrightarrow> thread_of s' x = thread_of s x" and "lock_nest s' = lock_nest s" and "due s' = due s"
    and "kernel.more s' = kernel.more s" and "priority_of t s' = priority_of t s"
proof -
  obtain s1 where s1: "rt_schedule_remove_thread t s = returns s1"
    "kernel_ok (set_stat RT_THREAD_CLOSE t (rt_timer_detach t s1)) H T (without t Q) (remove1 t hs) ss"
    "kernel_ok (upd_lists (rt_list_insert_after rt_thread_defunct t)
       (set_stat RT_THREAD_CLOSE t (rt_timer_detach t s1))) H T (reaped t Q) (remove1 t hs) ss"
    "kernel_frame t s s1" "thread_of s1 = thread_of s" "timers.truncate s1 = timers.truncate s"
    using leave_ok [OF ok t(1)] st by (metis stat_differ(7))
  let ?u = "set_stat RT_THREAD_CLOSE t (rt_timer_detach t s1)"
  have comm: "rt_timer_detach t (set_stat RT_THREAD_CLOSE t s1) = ?u"
    by (simp add: rt_timer_detach_def timer_remove_def set_stat_def upd_thread_def)
  have f: "th_static (thread_of ?u t) = th_static (thread_of s t)" "th_cleanup (thread_of ?u t) = th_cleanup (thread_of s t)"
    using s1(5) by (simp_all add: set_stat_def)
  have cl: "close_thread t ?u = (if th_static (thread_of s t) \<and> \<not> th_cleanup (thread_of s t) then ?u
      else upd_lists (rt_list_insert_after rt_thread_defunct t) ?u)"
    using f by (simp add: close_thread_def)
  have ok': "kernel_ok (close_thread t ?u) H T E (remove1 t hs) ss"
    using s1(2,3) unfolding cl E_def ended_def by (simp split: if_splits)
  have "current_thread (close_thread t ?u) = Some t"
    using kernel_frameD(1) [OF s1(4)] t(2) by (simp add: cl)
  then have "rt_schedule (close_thread t ?u) = returns (settle E (close_thread t ?u))"
    using rt_schedule_ok [OF ok'] live by (simp add: live_def)
  then have "rt_thread_exit s = returns (settle E (close_thread t ?u))"
    using t(2) s1(1) by (simp add: rt_thread_exit_def comm)
  moreover have "thread_stat t (close_thread t ?u) = RT_THREAD_CLOSE" by (simp add: cl)
  moreover have "\<And>x. x \<noteq> t \<Longrightarrow> thread_of (close_thread t ?u) x = thread_of s x" using s1(5) by (simp add: cl)
  moreover have "lock_nest (close_thread t ?u) = lock_nest s" using kernel_frameD(2) [OF s1(4)] by (simp add: cl)
  moreover have "due (close_thread t ?u) = due s" using due_closed [OF s1(6)] by (simp add: cl)
  moreover have "kernel.more (close_thread t ?u) = kernel.more s" "priority_of t (close_thread t ?u) = priority_of t s"
    using kernel_frameD(5,8) [OF s1(4)] by (simp_all add: cl)
  ultimately show ?thesis using that ok' by blast
qed

end
