(* ===== verification/TickLaws.thy ===== *)
theory TickLaws
  imports ThreadOps
begin

text \<open>
  The tick interrupt: the time slice of the running thread, then the check of the timers, whose
  timeout functions for the timers of threads are \<open>rt_thread_timeout\<close>. They act on the rest of an
  extended timer state, so that the theorem on the check applies.
\<close>

subsection \<open>Timeouts leave the timers alone\<close>

lemma kernel_with_rest:
  "tlists (with_rest (timers.more s) r) = tlists s" "thread_of (with_rest (timers.more s) r) = thread_of s"
  "ready_group (with_rest (timers.more s) r) = ready_group s"
  "current_thread (with_rest (timers.more s) r) = current_thread s"
  "lock_nest (with_rest (timers.more s) r) = lock_nest s"
  "interrupt_nest (with_rest (timers.more s) r) = interrupt_nest s"
  "switches (with_rest (timers.more s) r) = switches s"
  "rt_current_priority (with_rest (timers.more s) r) = rt_current_priority s"
  "kernel.more (with_rest (timers.more s) r) = kernel.more s"
  by (cases s; simp add: with_rest_def timers.extend_def timers.truncate_def)+

lemma run_cases:
  obtains "m = None" | e where "m = stops e" | a where "m = returns a"
  by (cases m; metis sum.exhaust)

text \<open>The state whose timers are those of \<open>r\<close> and whose rest is that of \<open>s\<close>.\<close>

definition rest_of :: "'a kernel_scheme \<Rightarrow> 'a kernel_scheme \<Rightarrow> 'a kernel_scheme" where
  "rest_of s r = with_rest (timers.more s) r"

lemma rest_of_simps [simp]:
  "tlists (rest_of s r) = tlists s" "thread_of (rest_of s r) = thread_of s" "ready_group (rest_of s r) = ready_group s"
  "current_thread (rest_of s r) = current_thread s" "lock_nest (rest_of s r) = lock_nest s"
  "interrupt_nest (rest_of s r) = interrupt_nest s" "switches (rest_of s r) = switches s"
  "timers.more (rest_of s r) = timers.more s" "thread_stat x (rest_of s r) = thread_stat x s"
  "priority_of x (rest_of s r) = priority_of x s" "highest_ready (rest_of s r) = highest_ready s"
  by (simp_all add: rest_of_def kernel_with_rest thread_stat_def priority_of_def highest_ready_def)

lemma rest_of_ops:
  "upd_thread t f (rest_of s r) = rest_of (upd_thread t f s) r"
  "upd_lists g (rest_of s r) = rest_of (upd_lists g s) r"
  "(rest_of s r)\<lparr>ready_group := v\<rparr> = rest_of (s\<lparr>ready_group := v\<rparr>) r"
  "(rest_of s r)\<lparr>rt_current_priority := p, current_thread := c, switches := w\<rparr> =
     rest_of (s\<lparr>rt_current_priority := p, current_thread := c, switches := w\<rparr>) r"
  by (cases s; cases r; simp add: rest_of_def with_rest_def timers.extend_def timers.truncate_def upd_thread_def upd_lists_def)+

definition map_run :: "('a \<Rightarrow> 'b) \<Rightarrow> 'a run \<Rightarrow> 'b run" where
  "map_run f m = andthen m (\<lambda>a. returns (f a))"

lemma map_run_simps [simp]:
  "map_run f None = None" "map_run f (stops e) = stops e" "map_run f (returns a) = returns (f a)"
  by (simp_all add: map_run_def)

lemma rest_of_schedule: "rt_schedule (rest_of s r) = map_run (\<lambda>s'. rest_of s' r) (rt_schedule s)"
  by (simp add: rt_schedule_def Let_def rest_of_ops split: option.splits)

lemma rest_of_insert:
  "rt_schedule_insert_thread t (rest_of s r) = map_run (\<lambda>s'. rest_of s' r) (rt_schedule_insert_thread t s)"
  by (simp add: rt_schedule_insert_thread_def Let_def change_stat_def rest_of_ops)

lemma andthen_map: "andthen (map_run f m) k = andthen m (\<lambda>a. k (f a))"
  by (simp add: map_run_def andthen_def split: option.splits sum.splits)

lemma rest_of_timeout:
  "rt_thread_timeout t (rest_of s r) = map_run (\<lambda>s'. rest_of s' r) (rt_thread_timeout t s)"
  by (simp add: rt_thread_timeout_def set_error_def rest_of_ops rest_of_insert andthen_map rest_of_schedule)
     (simp add: map_run_def andthen_def split: option.splits sum.splits)

lemma rest_of_self [simp]: "rest_of s s = s"
  by (simp add: rest_of_def)

text \<open>The timeout functions of a system in which the other functions leave the kernel alone.\<close>

definition thread_timeouts :: "nat set \<Rightarrow> (nat \<Rightarrow> 'a kernel_scheme \<Rightarrow> 'a kernel_scheme run) \<Rightarrow> bool" where
  "thread_timeouts T cb \<longleftrightarrow> (\<forall>t \<in> T. cb t = rt_thread_timeout t) \<and> (\<forall>t. t \<notin> T \<longrightarrow> cb t = (\<lambda>s. returns s))"

lemma cb_rest_of:
  assumes "thread_timeouts T cb"
  shows "cb t (rest_of s r) = map_run (\<lambda>s'. rest_of s' r) (cb t s)"
  using assms by (cases "t \<in> T") (auto simp: thread_timeouts_def rest_of_timeout)

definition rest_fun ::
  "'a kernel_scheme \<Rightarrow> (nat \<Rightarrow> 'a kernel_scheme \<Rightarrow> 'a kernel_scheme run) \<Rightarrow> nat \<Rightarrow> 'a kernel_ext \<Rightarrow> 'a kernel_ext run" where
  "rest_fun r cb t m = map_run timers.more (cb t (with_rest m r))"

lemma rest_only_timeouts:
  assumes "thread_timeouts T cb"
  shows "rest_only cb (rest_fun r cb)"
  unfolding rest_only_def
proof (intro allI)
  fix t and s :: "'a kernel_scheme"
  have w: "with_rest (timers.more s) r = rest_of s r" by (simp add: rest_of_def)
  have "cb t s = map_run (\<lambda>s'. rest_of s' s) (cb t s)" using cb_rest_of [OF assms, of t s s] unfolding rest_of_self .
  then show "cb t s = andthen (rest_fun r cb t (timers.more s))
      (\<lambda>m. returns (timers.extend (timers.truncate s) m))"
    unfolding rest_fun_def w cb_rest_of [OF assms] with_rest_def [symmetric]
    by (cases "cb t s" rule: run_cases) (simp_all add: rest_of_def)
qed

lemma fold_rest_fun:
  assumes "thread_timeouts T cb"
  shows "fold_run (rest_fun r cb) ts (timers.more s) = map_run timers.more (fold_run cb ts s)"
proof (induction ts arbitrary: s)
  case (Cons t ts)
  have w: "with_rest (timers.more s) r = rest_of s r" for s :: "'a kernel_scheme" by (simp add: rest_of_def)
  have "rest_fun r cb t (timers.more s) = map_run timers.more (cb t s)"
    unfolding rest_fun_def w cb_rest_of [OF assms]
    by (simp add: map_run_def andthen_def split: option.splits sum.splits)
  then show ?case
    using Cons.IH by (auto simp: map_run_def andthen_def split: option.splits sum.splits)
qed simp

subsection \<open>The expired threads\<close>

lemma in_made_ready:
  assumes "sched_ok s H T Q" and "t \<in> T" and "h \<in> H" and "x \<noteq> t"
  shows "x \<in> set (made_ready s t Q h) \<longleftrightarrow> x \<in> set (Q h)"
  using assms set_without [OF lists_okD(1) [OF sched_okD(1) [OF assms(1)]]] by (auto simp: made_ready_def)

text \<open>
  The timeout functions of the timers \<open>ts\<close>, one after the other, while the running thread may be
  switched: their threads become ready with the error \<open>-RT_ETIMEOUT\<close>, the others keep their state.
\<close>

lemma fold_timeouts_ok:
  assumes cb: "thread_timeouts T cb"
  shows "sched_ok s H T Q \<Longrightarrow> distinct ts \<Longrightarrow> current_thread s \<noteq> None \<Longrightarrow>
    (\<And>t. t \<in> set ts \<Longrightarrow> t \<in> T \<Longrightarrow> thread_stat t s = RT_THREAD_SUSPEND) \<Longrightarrow>
    \<exists>s' Q'. fold_run cb ts s = returns s' \<and> sched_ok s' H T Q' \<and> current_thread s' \<noteq> None \<and>
      lock_nest s' = lock_nest s \<and> interrupt_nest s' = interrupt_nest s \<and> timers.truncate s' = timers.truncate s \<and>
      (\<forall>t \<in> set ts \<inter> T. thread_stat t s' = RT_THREAD_READY \<and> th_error (thread_of s' t) = - RT_ETIMEOUT) \<and>
      (\<forall>t. t \<notin> set ts \<inter> T \<longrightarrow> thread_of s' t = thread_of s t) \<and>
      (\<forall>t. priority_of t s' = priority_of t s) \<and> kernel.more s' = kernel.more s \<and> waits_in H Q Q' \<and>
      (lock_nest s = 0 \<longrightarrow>
        (if set ts \<inter> T = {} then current_thread s' = current_thread s \<and> Q' = Q
         else current_thread s' = Some (hd (ready_order Q')))) \<and>
      (lock_nest s \<noteq> 0 \<longrightarrow> current_thread s' = current_thread s)"
proof (induction ts arbitrary: s Q)
  case Nil
  then show ?case by (intro exI [of _ s] exI [of _ Q]) simp
next
  case (Cons t ts)
  show ?case
  proof (cases "t \<in> T")
    case False
    then have "cb t s = returns s" using cb by (simp add: thread_timeouts_def)
    moreover have "set (t # ts) \<inter> T = set ts \<inter> T" using False by auto
    ultimately show ?thesis using Cons.IH [of s Q] Cons.prems by simp
  next
    case True
    let ?Q = "made_ready s t Q"
    have st: "thread_stat t s = RT_THREAD_SUSPEND" using Cons.prems(4) True by simp
    obtain s1 where s1: "rt_thread_timeout t s = returns (settle ?Q s1)" "sched_ok s1 H T ?Q" "kernel_frame t s s1"
      "thread_stat t s1 = RT_THREAD_READY" "th_error (thread_of s1 t) = - RT_ETIMEOUT"
      "timers.truncate s1 = timers.truncate s" "live s1 ?Q"
      using rt_thread_timeout_ok [OF Cons.prems(1) True st Cons.prems(3)] by metis
    note fr = kernel_frameD [OF s1(3)]
    let ?s = "settle ?Q s1"
    have ok: "sched_ok ?s H T ?Q" by (rule sched_ok_cong [OF s1(2)]) simp_all
    have cur: "current_thread ?s \<noteq> None" using s1(7) by (simp add: live_def)
    have susp: "thread_stat x ?s = RT_THREAD_SUSPEND" if "x \<in> set ts" "x \<in> T" for x
      using Cons.prems(2,4) that fr(9) [of x] by auto
    have dist: "distinct ts" using Cons.prems(2) by simp
    obtain s' Q' where IH: "fold_run cb ts ?s = returns s'" "sched_ok s' H T Q'" "current_thread s' \<noteq> None"
      "lock_nest s' = lock_nest ?s" "interrupt_nest s' = interrupt_nest ?s"
      "timers.truncate s' = timers.truncate ?s"
      "\<forall>t \<in> set ts \<inter> T. thread_stat t s' = RT_THREAD_READY \<and> th_error (thread_of s' t) = - RT_ETIMEOUT"
      "\<forall>t. t \<notin> set ts \<inter> T \<longrightarrow> thread_of s' t = thread_of ?s t"
      "\<forall>t. priority_of t s' = priority_of t ?s" "kernel.more s' = kernel.more ?s" "waits_in H ?Q Q'"
      "lock_nest ?s = 0 \<longrightarrow>
        (if set ts \<inter> T = {} then current_thread s' = current_thread ?s \<and> Q' = ?Q
         else current_thread s' = Some (hd (ready_order Q')))"
      "lock_nest ?s \<noteq> 0 \<longrightarrow> current_thread s' = current_thread ?s"
      using Cons.IH [OF ok dist cur susp] by blast
    have "fold_run cb (t # ts) s = returns s'" using cb True s1(1) IH(1) by (simp add: thread_timeouts_def)
    moreover have "t \<notin> set ts" using Cons.prems(2) by simp
    moreover have "thread_of s' t = thread_of s1 t" using IH(8) calculation(2) by simp
    moreover have "waits_in H Q Q'" using waits_in_trans [OF waits_in_made_ready [OF Cons.prems(1) True] IH(11)] .
    ultimately show ?thesis
      using IH(2-10,12-13) s1(4-6) fr(1,2,3,5,7,8) True
      by (intro exI [of _ s'] exI [of _ Q']) (auto simp: thread_stat_def split: if_splits)
  qed
qed

subsection \<open>The tick\<close>

text \<open>A ready thread is running; and, unless the scheduler is locked, it is the first of them.\<close>

definition running :: "'a kernel_scheme \<Rightarrow> nat set \<Rightarrow> bool" where
  "running s T \<longleftrightarrow> (\<exists>c \<in> T. current_thread s = Some c \<and> thread_stat c s = RT_THREAD_READY)"

definition runs_first :: "'a kernel_scheme \<Rightarrow> (nat \<Rightarrow> nat list) \<Rightarrow> bool" where
  "runs_first s Q \<longleftrightarrow> (lock_nest s = 0 \<longrightarrow> current_thread s = Some (hd (ready_order Q)))"

text \<open>No hard timer is overdue.\<close>

definition on_time :: "'a timers_scheme \<Rightarrow> nat list \<Rightarrow> bool" where
  "on_time s hs \<longleftrightarrow> (\<forall>t \<in> set hs. 0 \<le> due s t)"

lemma upd_ticks:
  assumes ok: "kernel_ok s H T Q hs ss"
    and f: "\<And>x. th_stat (f x) = th_stat x" "\<And>x. init_priority (f x) = init_priority x"
      "\<And>x. current_priority (f x) = current_priority x" "\<And>x. number_mask (f x) = number_mask x"
  shows "kernel_ok (upd_thread t f s) H T Q hs ss"
    and "thread_stat x (upd_thread t f s) = thread_stat x s"
    and "priority_of x (upd_thread t f s) = priority_of x s"
proof -
  show st: "thread_stat x (upd_thread t f s) = thread_stat x s" for x by (simp add: thread_stat_def f)
  show pr: "priority_of x (upd_thread t f s) = priority_of x s" for x by (simp add: priority_of_def f)
  have "sched_ok (upd_thread t f s) H T Q"
    by (rule sched_ok_view [OF kernel_okD(1) [OF ok]]) (simp_all add: st pr f)
  then show "kernel_ok (upd_thread t f s) H T Q hs ss"
    by (rule kernel_ok_lists [OF ok, rotated])
       (use kernel_okD(3) [OF ok] in \<open>simp_all add: st thread_timer_ok_def\<close>)
qed

lemma rt_schedule_timers: "rt_schedule s = returns s' \<Longrightarrow> timers.truncate s' = timers.truncate s"
  by (auto simp: rt_schedule_def Let_def timers.truncate_def split: if_splits option.splits)

lemma rt_thread_yield_timers: "rt_thread_yield s = returns s' \<Longrightarrow> timers.truncate s' = timers.truncate s"
  by (auto simp: rt_thread_yield_def Let_def dest: rt_schedule_timers split: if_splits option.splits)

lemma spend_tick_ok:
  assumes ok: "kernel_ok s H T Q hs ss" and run: "running s T" and cur: "current_thread s = Some t"
  obtains s' Q' where "spend_tick t s = returns s'" and "kernel_ok s' H T Q' hs ss" and "running s' T"
    and "runs_first s Q \<Longrightarrow> runs_first s' Q'"
    and "timers.truncate s' = timers.truncate s" and "lock_nest s' = lock_nest s"
    and "interrupt_nest s' = interrupt_nest s"
    and "\<And>x. thread_stat x s' = thread_stat x s" and "\<And>x. th_error (thread_of s' x) = th_error (thread_of s x)"
    and "\<And>x. priority_of x s' = priority_of x s" and "kernel.more s' = kernel.more s" and "waits_in H Q Q'"
proof -
  have t: "t \<in> T" and st: "thread_stat t s = RT_THREAD_READY"
    using run cur by (auto simp: running_def)
  let ?s1 = "upd_thread t (\<lambda>x. x\<lparr>th_remaining_tick := th_remaining_tick x - 1\<rparr>) s"
  note U = upd_ticks [OF ok, where f = "\<lambda>x. x\<lparr>th_remaining_tick := th_remaining_tick x - 1\<rparr>" and t = t, simplified]
  show ?thesis
  proof (cases "th_remaining_tick (thread_of ?s1 t) = 0")
    case False
    then have "spend_tick t s = returns ?s1" by (simp add: spend_tick_def)
    moreover have "running ?s1 T" using run by (simp add: running_def U)
    moreover have "runs_first ?s1 Q" if "runs_first s Q" using that by (simp add: runs_first_def)
    ultimately show ?thesis using that [of ?s1 Q] U by simp
  next
    case True
    let ?s = "upd_thread t (\<lambda>x. x\<lparr>th_remaining_tick := th_init_tick x\<rparr>) ?s1"
    note V = upd_ticks [OF U(1), where f = "\<lambda>x. x\<lparr>th_remaining_tick := th_init_tick x\<rparr>" and t = t, simplified]
    have st': "thread_stat t ?s = RT_THREAD_READY" using st U(2) V(2) by simp
    have cur': "current_thread ?s = Some t" using cur by simp
    have step: "spend_tick t s = rt_thread_yield ?s" using True by (simp add: spend_tick_def)
    have tr: "timers.truncate ?s = timers.truncate s" by simp
    have views: "thread_stat x ?s = thread_stat x s" "th_error (thread_of ?s x) = th_error (thread_of s x)"
      "priority_of x ?s = priority_of x s" for x
      by (simp_all add: U V)
    show ?thesis
    proof (cases "Q (priority_of t ?s) = [t]")
      case True
      have "spend_tick t s = returns ?s" using rt_thread_yield_alone [OF V(1) t cur' st' True] step by simp
      moreover have "running ?s T" using run unfolding running_def views by simp
      moreover have "runs_first ?s Q" if "runs_first s Q" using that by (simp add: runs_first_def)
      ultimately show ?thesis using V(1) views tr by (intro that [of ?s Q]) simp_all
    next
      case False
      obtain s' where s': "rt_thread_yield ?s = returns (settle (yielded ?s t Q) s')"
        "kernel_ok s' H T (yielded ?s t Q) hs ss" "kernel_frame t ?s s'" "thread_of s' = thread_of ?s"
        by (rule rt_thread_yield_ok [OF V(1) t cur' st' False])
      let ?Q = "yielded ?s t Q" and ?s' = "settle (yielded ?s t Q) s'"
      note fr = kernel_frameD [OF s'(3)]
      have "waits_in H Q ?Q"
        using thread_okD(1) [OF sched_okD(4) [OF kernel_okD(1) [OF V(1)] t]]
        by (simp add: yielded_def rt_thread_defunct_def)
      then have low: "waits_in H Q ?Q" .
      have stat: "thread_stat x s' = thread_stat x s" for x using views(1) s'(4) by (simp add: thread_stat_def)
      have ne: "ready_order ?Q \<noteq> []" using ready_iff [OF kernel_okD(1) [OF s'(2)] t] st stat by force
      note R = first_ready [OF kernel_okD(1) [OF s'(2)] ne]
      have "running ?s' T"
        using R fr(1,2) cur' t st stat by (auto simp: running_def)
      moreover have "runs_first ?s' ?Q" by (simp add: runs_first_def)
      moreover have "timers.truncate ?s' = timers.truncate s"
        using rt_thread_yield_timers [OF s'(1)] tr by simp
      ultimately show ?thesis
        using that [of ?s' ?Q] step s'(1,2,4) stat views(2,3) fr(2,3,5,8) low by simp
    qed
  qed
qed

text \<open>One tick brings every deadline one tick nearer.\<close>

lemma due_tick:
  assumes "- 3 < due s t" and "due s t \<le> 2 ^ 31 - 2"
  shows "due (s\<lparr>rt_tick := rt_tick s + 1\<rparr>) t = due s t - 1"
proof -
  have "timeout_tick (timer_of s t) - (rt_tick s + 1) = of_int (due s t - 1)"
    using timeout_due [of s t] by (simp add: algebra_simps)
  moreover have "sint (of_int (due s t - 1) :: u32) = signed_take_bit 31 (due s t - 1)"
    by (subst sint_sbintrunc') simp
  moreover have "signed_take_bit 31 (due s t - 1) = due s t - 1"
    using assms by (intro signed_take_bit_int_eq_self) simp_all
  moreover have "due (s\<lparr>rt_tick := rt_tick s + 1\<rparr>) t = sint (timeout_tick (timer_of s t) - (rt_tick s + 1))"
    by (simp add: due_def)
  ultimately show ?thesis by metis
qed

lemma tick_ok:
  assumes ok: "kernel_ok s H T Q hs ss" and time: "on_time s hs"
  shows "kernel_ok (s\<lparr>rt_tick := rt_tick s + 1\<rparr>) H T Q hs ss"
    and "t \<in> set hs \<Longrightarrow> due (s\<lparr>rt_tick := rt_tick s + 1\<rparr>) t = due s t - 1"
proof -
  let ?s = "s\<lparr>rt_tick := rt_tick s + 1\<rparr>"
  note K = kernel_okD [OF ok]
  note A = armedD [OF K(2)]
  show due: "t \<in> set hs \<Longrightarrow> due ?s t = due s t - 1" for t
    using A(3) [of t] time by (intro due_tick) (auto simp: in_window_def on_time_def)
  have flags: "has_flag f x ?s = has_flag f x s" for f x by (simp add: has_flag_def)
  have v: "is_active ?s = is_active s" "is_periodic ?s = is_periodic s" "is_soft ?s = is_soft s" "period ?s = period s"
    by (simp_all add: fun_eq_iff is_active_def is_periodic_def is_soft_def flags period_def)
  have "timers_ok ?s hs ss" by (rule timers_ok_cong [OF A(1) _ flags]) simp
  moreover have "sorted (map (due ?s) hs)"
    using A(2) due unfolding sorted_map by (elim sorted_wrt_mono_rel [rotated]) simp
  moreover have "in_window ?s t" if "t \<in> set hs" for t
    using A(3) [OF that] time due [OF that] that by (auto simp: in_window_def on_time_def)
  ultimately have "armed ?s hs ss" unfolding armed_def v using A(4-6) by simp
  moreover have "sched_ok ?s H T Q" by (rule sched_ok_cong [OF K(1)]) simp_all
  moreover have "thread_stat x ?s = thread_stat x s" for x by (simp add: thread_stat_def)
  ultimately show "kernel_ok ?s H T Q hs ss" using K(3) unfolding kernel_ok_def thread_timer_ok_def v by metis
qed

lemma rt_tick_increase_ok:
  assumes ok: "kernel_ok s H T Q hs ss" and time: "on_time s hs" and cb: "thread_timeouts T cb"
    and run: "running s T"
  obtains s' Q' hs' where "rt_tick_increase cb s = returns s'" and "kernel_ok s' H T Q' hs' ss"
    and "on_time s' hs'" and "running s' T" and "rt_tick s' = rt_tick s + 1"
    and "runs_first s Q \<Longrightarrow> runs_first s' Q'"
    and "\<And>t. t \<in> T \<Longrightarrow> t \<in> set hs \<Longrightarrow> due s t \<le> 1 \<Longrightarrow>
           thread_stat t s' = RT_THREAD_READY \<and> th_error (thread_of s' t) = - RT_ETIMEOUT"
    and "\<And>t. t \<in> T \<Longrightarrow> \<not> (t \<in> set hs \<and> due s t \<le> 1) \<Longrightarrow>
           thread_stat t s' = thread_stat t s \<and> th_error (thread_of s' t) = th_error (thread_of s t)"
    and "\<And>t. t \<in> T \<Longrightarrow> t \<in> set hs' \<longleftrightarrow> t \<in> set hs \<and> 1 < due s t"
    and "\<And>t. t \<in> T \<Longrightarrow> t \<in> set hs' \<Longrightarrow> due s' t = due s t - 1"
    and "lock_nest s' = lock_nest s" and "interrupt_nest s' = interrupt_nest s"
    and "\<And>t. priority_of t s' = priority_of t s" and "kernel.more s' = kernel.more s" and "waits_in H Q Q'"
proof -
  let ?s0 = "s\<lparr>rt_tick := rt_tick s + 1\<rparr>"
  obtain c where c: "c \<in> T" "current_thread s = Some c" using run by (auto simp: running_def)
  note tick = tick_ok [OF ok time]
  have run0: "running ?s0 T" using run by (simp add: running_def thread_stat_def)
  have cur0: "current_thread ?s0 = Some c" using c by simp
  obtain s1 Q1 where s1: "spend_tick c ?s0 = returns s1" "kernel_ok s1 H T Q1 hs ss" "running s1 T"
    "timers.truncate s1 = timers.truncate ?s0" "lock_nest s1 = lock_nest ?s0" "interrupt_nest s1 = interrupt_nest ?s0"
    "runs_first ?s0 Q \<Longrightarrow> runs_first s1 Q1"
    "\<And>x. thread_stat x s1 = thread_stat x ?s0" "\<And>x. th_error (thread_of s1 x) = th_error (thread_of ?s0 x)"
    "\<And>x. priority_of x s1 = priority_of x ?s0" "kernel.more s1 = kernel.more ?s0" "waits_in H Q Q1"
    by (rule spend_tick_ok [OF tick(1) run0 cur0]) (rule that)
  note tr = armed_truncate [OF s1(4)]
  note K = kernel_okD [OF s1(2)]
  note A = armedD [OF K(2)]
  have due1: "due s1 t = due s t - 1" if "t \<in> set hs" for t using tick(2) [OF that] tr(5) by simp
  let ?ts = "filter (\<lambda>t. due s1 t \<le> 0) hs"
  have exp: "t \<in> set ?ts \<longleftrightarrow> t \<in> set hs \<and> due s t \<le> 1" for t using due1 by auto
  have dist: "distinct ?ts" using timers_okD(3) [OF A(1)] by simp
  have cur1: "current_thread s1 \<noteq> None" using s1(3) by (auto simp: running_def)
  have susp: "thread_stat t s1 = RT_THREAD_SUSPEND" if "t \<in> set ?ts" "t \<in> T" for t
    using K(3) [OF that(2)] that(1) by (simp add: thread_timer_ok_def)
  obtain s2 Q2 where s2: "fold_run cb ?ts s1 = returns s2" "sched_ok s2 H T Q2" "current_thread s2 \<noteq> None"
    "lock_nest s2 = lock_nest s1" "interrupt_nest s2 = interrupt_nest s1" "timers.truncate s2 = timers.truncate s1"
    "\<forall>t \<in> set ?ts \<inter> T. thread_stat t s2 = RT_THREAD_READY \<and> th_error (thread_of s2 t) = - RT_ETIMEOUT"
    "\<forall>t. t \<notin> set ?ts \<inter> T \<longrightarrow> thread_of s2 t = thread_of s1 t"
    "lock_nest s1 = 0 \<longrightarrow>
        (if set ?ts \<inter> T = {} then current_thread s2 = current_thread s1 \<and> Q2 = Q1
         else current_thread s2 = Some (hd (ready_order Q2)))"
    "lock_nest s1 \<noteq> 0 \<longrightarrow> current_thread s2 = current_thread s1"
    "\<forall>t. priority_of t s2 = priority_of t s1" "kernel.more s2 = kernel.more s1" "waits_in H Q1 Q2"
    using fold_timeouts_ok [OF cb K(1) dist cur1 susp] by blast
  have "fold_run (rest_fun s1 cb) ?ts (timers.more s1) = returns (timers.more s2)"
    using fold_rest_fun [OF cb, of s1 ?ts s1] s2(1) by simp
  from check_loop_rest [OF rest_only_timeouts [OF cb] K(2) this]
  obtain s' hs' where s': "check_loop cb (rt_tick s1) s1 = returns s'" "armed s' hs' ss" "rt_tick s' = rt_tick s1"
    "set hs' = {t \<in> set hs. 0 < due s1 t \<or> is_periodic s1 t}"
    "\<forall>t \<in> set hs'. due s' t = (if due s1 t \<le> 0 then period s1 t else due s1 t)"
    "timers.more s' = timers.more s2" "is_soft s' = is_soft s1" "is_periodic s' = is_periodic s1"
    "\<forall>t. is_active s' t = (if t \<in> set hs \<and> due s1 t \<le> 0 then is_periodic s1 t else is_active s1 t)"
    by blast
  have k: "tlists s' = tlists s2" "thread_of s' = thread_of s2" "ready_group s' = ready_group s2"
    "current_thread s' = current_thread s2" "lock_nest s' = lock_nest s2" "interrupt_nest s' = interrupt_nest s2"
    "kernel.more s' = kernel.more s2"
    using s'(6) kernel_with_rest [of s' s'] kernel_with_rest [of s2 s'] by metis+
  have st: "thread_stat t s' = thread_stat t s2" for t by (simp add: thread_stat_def k)
  have pr: "priority_of t s' = priority_of t s" for t using s2(11) s1(10) [of t] by (simp add: priority_of_def k)
  have sched: "sched_ok s' H T Q2" by (rule sched_ok_cong [OF s2(2)]) (simp_all add: k)
  have np: "\<not> is_periodic s1 t" if "t \<in> T" for t using K(3) [OF that] by (simp add: thread_timer_ok_def)
  have tt: "thread_timer_ok s' hs' t" if t: "t \<in> T" for t
  proof (cases "t \<in> set ?ts")
    case True
    then have "t \<notin> set hs'" "\<not> is_active s' t" using s'(4,9) np [OF t] by auto
    then show ?thesis using K(3) [OF t] unfolding thread_timer_ok_def s'(7,8) by blast
  next
    case False
    then have "t \<in> set hs' \<longleftrightarrow> t \<in> set hs" "is_active s' t = is_active s1 t" "thread_stat t s' = thread_stat t s1"
      using s'(4,9) st s2(8) by (auto simp: thread_stat_def)
    then show ?thesis using K(3) [OF t] unfolding thread_timer_ok_def s'(7,8) by simp
  qed
  have "kernel_ok s' H T Q2 hs' ss" using sched s'(2) tt by (simp add: kernel_ok_def)
  moreover have "on_time s' hs'"
    unfolding on_time_def
  proof
    fix t assume t: "t \<in> set hs'"
    then show "0 \<le> due s' t" using s'(4,5) period_nonneg [of s1 t] by (auto split: if_splits)
  qed
  moreover have first: "runs_first s' Q2 \<or> current_thread s2 = current_thread s1 \<and> (lock_nest s1 = 0 \<longrightarrow> Q2 = Q1)"
    using s2(4,9,10) k(4,5) by (auto simp: runs_first_def split: if_splits)
  moreover have "runs_first s' Q2" if "runs_first s Q"
    using first s1(7) that k(4,5) s2(4) by (auto simp: runs_first_def)
  moreover have "running s' T"
  proof -
    obtain d where d: "d \<in> T" "current_thread s1 = Some d" "thread_stat d s1 = RT_THREAD_READY"
      using s1(3) by (auto simp: running_def)
    have "d \<notin> set ?ts \<inter> T" using susp d(3) by force
    then have d2: "thread_stat d s' = RT_THREAD_READY" using s2(8) d(3) st by (simp add: thread_stat_def)
    show ?thesis
    proof (cases "lock_nest s1 = 0 \<and> set ?ts \<inter> T \<noteq> {}")
      case False
      then have "current_thread s' = Some d" using s2(9,10) d(2) k(4) by auto
      then show ?thesis using d(1) d2 by (auto simp: running_def)
    next
      case True
      then obtain t where "t \<in> set ?ts" "t \<in> T" by blast
      then have "t \<in> set (ready_order Q2)" using ready_iff [OF s2(2)] s2(7) by blast
      then have "ready_order Q2 \<noteq> []" by force
      then show ?thesis using first_ready [OF sched] s2(9) True k(4) by (auto simp: running_def)
    qed
  qed
  moreover have "rt_tick_increase cb s = returns s'"
    using c(2) s1(1) s'(1) by (simp add: rt_tick_increase_def rt_thread_self_def rt_timer_check_def)
  moreover have "t \<in> T \<Longrightarrow> t \<in> set hs \<Longrightarrow> due s t \<le> 1 \<Longrightarrow>
           thread_stat t s' = RT_THREAD_READY \<and> th_error (thread_of s' t) = - RT_ETIMEOUT" for t
    using s2(7) exp st k(2) by simp
  moreover have "t \<in> T \<Longrightarrow> \<not> (t \<in> set hs \<and> due s t \<le> 1) \<Longrightarrow>
           thread_stat t s' = thread_stat t s \<and> th_error (thread_of s' t) = th_error (thread_of s t)" for t
  proof -
    assume "\<not> (t \<in> set hs \<and> due s t \<le> 1)"
    then have "thread_of s2 t = thread_of s1 t" using s2(8) exp by blast
    then show ?thesis using st s1(8,9) k(2) by (simp add: thread_stat_def)
  qed
  moreover have "t \<in> T \<Longrightarrow> t \<in> set hs' \<longleftrightarrow> t \<in> set hs \<and> 1 < due s t" for t
    using s'(4) np due1 by auto
  moreover have "t \<in> T \<Longrightarrow> t \<in> set hs' \<Longrightarrow> due s' t = due s t - 1" for t
    using s'(4,5) np due1 by auto
  moreover have "rt_tick s' = rt_tick s + 1" using s'(3) tr(9) by simp
  moreover have "waits_in H Q Q2" using waits_in_trans [OF s1(12) s2(13)] .
  moreover have "kernel.more s' = kernel.more s" using k(7) s2(12) s1(11) by simp
  ultimately show ?thesis using that [of s' Q2 hs'] k(5,6) s2(4,5) s1(5,6) pr by simp
qed

end
