(* ===== verification/SchedBoot.thy ===== *)
theory SchedBoot
  imports TickLaws
begin

text \<open>
  From the reset state to the first thread: the scheduler is initialised, threads are initialised and
  started, the scheduler starts. What it establishes is the invariant of the kernel.
\<close>

subsection \<open>The start of the scheduler\<close>

lemma start_scheduler_ok:
  assumes ok: "kernel_ok s H T Q hs ss" and ne: "ready_order Q \<noteq> []"
  obtains s' where "rt_system_scheduler_start s = returns s'" and "kernel_ok s' H T Q hs ss"
    and "current_thread s' = Some (hd (ready_order Q))" and "thread_of s' = thread_of s"
    and "lock_nest s' = lock_nest s" and "timers.truncate s' = timers.truncate s"
    and "interrupt_nest s' = interrupt_nest s" and "kernel.more s' = kernel.more s"
proof -
  let ?s = "s\<lparr>current_thread := Some (hd (ready_order Q)),
              switches := switches s @ [Switch_To (hd (ready_order Q))]\<rparr>"
  note L = sched_okD(1) [OF kernel_okD(1) [OF ok]]
  have "rt_system_scheduler_start s = returns ?s"
    using lowest_bit_first(1) [OF L ne] next_thread [OF L ne] by (simp add: rt_system_scheduler_start_def Let_def)
  moreover have "kernel_ok ?s H T Q hs ss" by (rule kernel_ok_cong [OF ok]) (simp_all add: timers.truncate_def)
  ultimately show ?thesis using that by (simp add: timers.truncate_def)
qed

subsection \<open>A new thread\<close>

lemma rt_timer_init_simps [simp]:
  "tlists (rt_timer_init t i f s) = tlists s" "thread_of (rt_timer_init t i f s) = thread_of s"
  "ready_group (rt_timer_init t i f s) = ready_group s" "current_thread (rt_timer_init t i f s) = current_thread s"
  "lock_nest (rt_timer_init t i f s) = lock_nest s" "interrupt_nest (rt_timer_init t i f s) = interrupt_nest s"
  "kernel.more (rt_timer_init t i f s) = kernel.more s"
  by (simp_all add: rt_timer_init_def timer_init_fields_def)

lemma rt_timer_init_timers [simp]:
  "rows (rt_timer_init t i f s) = rt_list_init t (rows s)" "rt_tick (rt_timer_init t i f s) = rt_tick s"
  by (simp_all add: rt_timer_init_def timer_init_fields_def)

lemma new_timer_ok:
  assumes A: "armed s hs ss" and t: "is_timer t" "t \<notin> set hs" "t \<notin> set ss"
  shows "armed (rt_timer_init t i f s) hs ss"
proof -
  let ?s = "rt_timer_init t i f s"
  note D = armedD [OF A]
  note L = timers_okD [OF D(1)]
  have tm: "timer_of ?s x = timer_of s x" if "x \<noteq> t" for x
    using that by (simp add: rt_timer_init_def timer_init_fields_def)
  have fl: "has_flag g x ?s = has_flag g x s" if "x \<noteq> t" for g x using tm [OF that] by (simp add: has_flag_def)
  have due: "due ?s x = due s x" "period ?s x = period s x" if "x \<noteq> t" for x
    using tm [OF that] by (simp_all add: due_def period_def)
  have not: "x \<in> set hs \<Longrightarrow> x \<noteq> t" "x \<in> set ss \<Longrightarrow> x \<noteq> t" for x using t by auto
  have heads: "t \<noteq> rt_timer_list" "t \<noteq> rt_soft_timer_list" using t(1) by (simp_all add: is_timer_def)
  have "timers_ok ?s hs ss"
  proof (rule timers_okI)
    show "dlist (rows ?s) rt_timer_list hs" "dlist (rows ?s) rt_soft_timer_list ss"
      using L(1,2) t heads by (auto intro!: init_other)
    show "dlist (rows ?s) x []" if "is_timer x" "x \<notin> set hs" "x \<notin> set ss" for x
      using L(8) [OF that] init_other [of "rows s" x "[]" t] dlist_init [of t "rows s"] by (cases "x = t") auto
  qed (use L(5-7,9,10) fl not in auto)
  moreover have "map (due ?s) hs = map (due s) hs" using due(1) not(1) by simp
  moreover have "due ?s x = due s x \<and> period ?s x = period s x \<and> is_active ?s x = is_active s x \<and>
      is_periodic ?s x = is_periodic s x" if "x \<in> set hs" for x
    using due [OF not(1) [OF that]] fl [OF not(1) [OF that]] by (simp add: is_active_def is_periodic_def)
  ultimately show ?thesis using A unfolding armed_def in_window_def by metis
qed

lemma rt_thread_init_ok:
  assumes ok: "kernel_ok s H T Q hs ss" and t: "t \<notin> H" "t \<notin> T" "t \<notin> set hs" "t \<notin> set ss"
    and p: "unat p < PRIORITY_MAX"
  obtains s' where "thread_init_fields st t p tick s = returns s'" and "kernel_ok s' H (insert t T) Q hs ss"
    and "thread_of s' = (thread_of s)(t := \<lparr>th_stat = RT_THREAD_INIT, init_priority = p, current_priority = p,
           number_mask = 0, th_error = RT_EOK, th_init_tick = tick, th_remaining_tick = tick,
           th_cleanup = False, th_static = st\<rparr>)"
    and "current_thread s' = current_thread s" and "lock_nest s' = lock_nest s" and "rt_tick s' = rt_tick s"
    and "\<And>x. x \<noteq> t \<Longrightarrow> due s' x = due s x"
    and "interrupt_nest s' = interrupt_nest s" and "kernel.more s' = kernel.more s"
proof -
  let ?th = "\<lparr>th_stat = RT_THREAD_INIT, init_priority = p, current_priority = p,
           number_mask = 0, th_error = RT_EOK, th_init_tick = tick, th_remaining_tick = tick,
           th_cleanup = False, th_static = st\<rparr>"
  let ?s1 = "upd_thread t (\<lambda>_. ?th) (upd_lists (rt_list_init t) s)"
  let ?s = "rt_timer_init t 0 0 ?s1"
  note K = kernel_okD [OF ok]
  note D = sched_okD [OF K(1)]
  have new: "\<And>h. h \<in> H \<Longrightarrow> t \<notin> set (Q h)" using D(3) t(2) by blast
  have F: "family (tlists ?s) H Q" using family_init_node [OF lists_okD(1) [OF D(1)] t(1) new] by simp
  have sub: "{..rt_thread_defunct} \<subseteq> H" using D(1) by (simp add: lists_ok_def)
  have L: "lists_ok ?s H Q" using F D(1) by (simp add: lists_ok_def)
  have th: "thread_of ?s = (thread_of s)(t := ?th)" by simp
  have "thread_ok ?s H Q x" if x: "x \<in> insert t T" for x
  proof (cases "x = t")
    case True
    have "\<not> (h \<in> H \<and> t \<in> set (Q h))" for h using new by blast
    then show ?thesis
      using p lists_okD(2) [OF D(1)]
      by (auto simp: True thread_ok_def thread_stat_def priority_of_def)
  next
    case False
    then show ?thesis using x by (intro thread_ok_cong [OF D(4) _ _ sub]) auto
  qed
  then have sched: "sched_ok ?s H (insert t T) Q"
    using L D(2,3) t(1) unfolding sched_ok_def by blast
  have "t \<noteq> 0" "t \<noteq> 1" using t(1) lists_okD(4,5) [OF D(1)] by metis+
  then have it: "is_timer t" by (simp add: is_timer_def rt_timer_list_def rt_soft_timer_list_def)
  have "timers.truncate ?s1 = timers.truncate s" by simp
  note tr = armed_truncate [OF this]
  have A: "armed ?s hs ss" by (rule new_timer_ok [OF _ it t(3,4)]) (use K(2) tr in simp)
  have "thread_timer_ok ?s hs x" if x: "x \<in> insert t T" for x
  proof (cases "x = t")
    case True
    then show ?thesis using t(3)
      by (simp add: thread_timer_ok_def is_soft_def is_periodic_def is_active_def has_flag_def
          rt_timer_init_def timer_init_fields_def)
  next
    case False
    then have f: "has_flag g x ?s = has_flag g x s" for g
      by (simp add: has_flag_def rt_timer_init_def timer_init_fields_def)
    have "thread_stat x ?s = thread_stat x s" using False by (simp add: thread_stat_def)
    then show ?thesis using K(3) [of x] x False
      unfolding thread_timer_ok_def is_soft_def is_periodic_def is_active_def f by simp
  qed
  then have "kernel_ok ?s H (insert t T) Q hs ss" using sched A by (simp add: kernel_ok_def)
  moreover have "thread_init_fields st t p tick s = returns ?s" using p by (simp add: thread_init_fields_def)
  moreover have "due ?s x = due s x" if "x \<noteq> t" for x
    using that by (simp add: due_def rt_timer_init_def timer_init_fields_def)
  ultimately show ?thesis using that by simp
qed

subsection \<open>Booting\<close>

text \<open>
  The reset state has no timers, and every link points to its own node; \<open>m\<close> is what other components
  keep. \<open>boot\<close> initialises the scheduler and the idle thread, starts the threads \<open>ts\<close>, given with
  their priorities and time slices, and starts the scheduler.
\<close>

definition reset_with :: "'a \<Rightarrow> 'a kernel_scheme" where
  "reset_with m =
     \<lparr>rows = \<lparr>next_link = (\<lambda>x. x), prev_link = (\<lambda>x. x)\<rparr>,
      timer_of = (\<lambda>_. \<lparr>tm_flag = 0, init_tick = 0, timeout_tick = 0\<rparr>), rt_tick = 0, random_nr = 0,
      timer_thread_ready = True, timer_log = [], tlists = \<lparr>next_link = (\<lambda>x. x), prev_link = (\<lambda>x. x)\<rparr>,
      thread_of = (\<lambda>_. \<lparr>th_stat = 0, init_priority = 0, current_priority = 0, number_mask = 0, th_error = 0,
        th_init_tick = 0, th_remaining_tick = 0, th_cleanup = False, th_static = True\<rparr>),
      ready_group = 0, current_thread = None, rt_current_priority = 0, lock_nest = 0, interrupt_nest = 0,
      switches = [], \<dots> = m\<rparr>"

abbreviation reset_state :: kernel where "reset_state \<equiv> reset_with ()"

lemma init_self: "rt_list_init l \<lparr>next_link = (\<lambda>x. x), prev_link = (\<lambda>x. x)\<rparr> = \<lparr>next_link = (\<lambda>x. x), prev_link = (\<lambda>x. x)\<rparr>"
  by (simp add: rt_list_init_def set_nxt_def set_prv_def fun_upd_idem)

lemma fold_init_self:
  "fold rt_list_init hs \<lparr>next_link = (\<lambda>x. x), prev_link = (\<lambda>x. x)\<rparr> = \<lparr>next_link = (\<lambda>x. x), prev_link = (\<lambda>x. x)\<rparr>"
  by (induction hs) (simp_all add: init_self)

lemma self_alone: "dlist \<lparr>next_link = (\<lambda>x. x), prev_link = (\<lambda>x. x)\<rparr> x []"
  by (simp add: dlist_def)

definition heads :: "nat set" where "heads = {..<40}"

lemma defunct_in_heads [simp]: "{..rt_thread_defunct} \<subseteq> heads"
  by (auto simp: heads_def rt_thread_defunct_def)

lemma init_ok:
  assumes "{..rt_thread_defunct} \<subseteq> H"
  shows "kernel_ok (rt_system_scheduler_init (reset_with m)) H {} (\<lambda>_. []) [] []"
proof -
  let ?s = "rt_system_scheduler_init (reset_with m)"
  have l: "tlists ?s = \<lparr>next_link = (\<lambda>x. x), prev_link = (\<lambda>x. x)\<rparr>"
    by (simp add: rt_system_scheduler_init_def reset_with_def fold_init_self init_self)
  have "sched_ok ?s H {} (\<lambda>_. [])"
    unfolding sched_ok_def lists_ok_def l using self_alone assms
    by (auto simp: family_def rt_system_scheduler_init_def)
  moreover have "armed ?s [] []"
    using self_alone
    by (auto simp: armed_def timers_ok_def rt_system_scheduler_init_def reset_with_def)
  ultimately show ?thesis by (simp add: kernel_ok_def)
qed

fun start_threads :: "(nat \<times> u8 \<times> u32) list \<Rightarrow> 'a kernel_scheme \<Rightarrow> 'a kernel_scheme run" where
  "start_threads [] s = returns s"
| "start_threads ((t, p, tick) # ts) s =
     andthen (rt_thread_init t p tick s)
       (\<lambda>s. andthen (rt_thread_startup t s) (\<lambda>(_, s). start_threads ts s))"

definition boot :: "nat \<Rightarrow> (nat \<times> u8 \<times> u32) list \<Rightarrow> 'a kernel_scheme \<Rightarrow> 'a kernel_scheme run" where
  "boot idle ts s =
     andthen (rt_thread_idle_init idle (rt_system_scheduler_init s))
       (\<lambda>(_, s). andthen (start_threads ts s) rt_system_scheduler_start)"

text \<open>Where the started threads stand.\<close>

fun queued :: "(nat \<times> u8 \<times> u32) list \<Rightarrow> (nat \<Rightarrow> nat list) \<Rightarrow> nat \<Rightarrow> nat list" where
  "queued [] Q = Q"
| "queued ((t, p, tick) # ts) Q = queued ts (Q(unat p := Q (unat p) @ [t]))"

lemma start_one_ok:
  assumes ok: "kernel_ok s H T Q [] []" and t: "t \<notin> H" "t \<notin> T" and p: "unat p < PRIORITY_MAX"
    and cur: "current_thread s = None" and rdy: "\<forall>x \<in> T. thread_stat x s = RT_THREAD_READY"
  obtains s1 s' where "rt_thread_init t p tick s = returns s1"
    and "rt_thread_startup t s1 = returns (RT_EOK, s')"
    and "kernel_ok s' H (insert t T) (Q(unat p := Q (unat p) @ [t])) [] []"
    and "current_thread s' = None" and "lock_nest s' = lock_nest s"
    and "\<forall>x \<in> insert t T. thread_stat x s' = RT_THREAD_READY"
    and "interrupt_nest s' = interrupt_nest s" and "kernel.more s' = kernel.more s"
proof -
  obtain s1 where s1: "thread_init_fields True t p tick s = returns s1" "kernel_ok s1 H (insert t T) Q [] []"
    "thread_of s1 = (thread_of s)(t := \<lparr>th_stat = RT_THREAD_INIT, init_priority = p, current_priority = p,
           number_mask = 0, th_error = RT_EOK, th_init_tick = tick, th_remaining_tick = tick,
           th_cleanup = False, th_static = True\<rparr>)"
    "current_thread s1 = current_thread s" "lock_nest s1 = lock_nest s" "interrupt_nest s1 = interrupt_nest s"
    "kernel.more s1 = kernel.more s"
    using rt_thread_init_ok [OF ok t _ _ p, of True tick] by (metis empty_iff list.set(1))
  have st: "thread_stat t s1 = RT_THREAD_INIT" by (simp add: thread_stat_def s1(3))
  have ip: "init_priority (thread_of s1 t) = p" by (simp add: s1(3))
  obtain s' where s': "rt_thread_startup t s1 = returns (RT_EOK, if current_thread s1 = None then s'
       else settle (Q(unat p := Q (unat p) @ [t])) s')"
    "kernel_ok s' H (insert t T) (Q(unat p := Q (unat p) @ [t])) [] []" "thread_stat t s' = RT_THREAD_READY"
    "\<And>x. x \<noteq> t \<Longrightarrow> thread_of s' x = thread_of s1 x" "current_thread s' = current_thread s1" "lock_nest s' = lock_nest s1"
    "kernel.more s' = kernel.more s1" "interrupt_nest s' = interrupt_nest s1"
    by (rule rt_thread_startup_ok [OF s1(2) insertI1 st, unfolded ip]) (rule that)
  have "thread_stat x s' = RT_THREAD_READY" if "x \<in> insert t T" for x
    using that rdy s'(3) s'(4) [of x] s1(3) t(2) by (cases "x = t") (auto simp: thread_stat_def)
  then show ?thesis using that s1(1,4-7) s'(1,2,5-8) cur by (simp add: rt_thread_init_def)
qed

lemma start_threads_ok:
  assumes "kernel_ok s H T Q [] []" and "distinct (map fst ts)" and "fst ` set ts \<inter> (H \<union> T) = {}"
    and "\<forall>(t, p, tick) \<in> set ts. unat p < PRIORITY_MAX" and "current_thread s = None"
    and "\<forall>x \<in> T. thread_stat x s = RT_THREAD_READY"
  shows "\<exists>s'. start_threads ts s = returns s' \<and> kernel_ok s' H (fst ` set ts \<union> T) (queued ts Q) [] [] \<and>
    current_thread s' = None \<and> lock_nest s' = lock_nest s \<and> interrupt_nest s' = interrupt_nest s \<and>
    kernel.more s' = kernel.more s \<and> (\<forall>x \<in> fst ` set ts \<union> T. thread_stat x s' = RT_THREAD_READY)"
  using assms
proof (induction ts arbitrary: s T Q)
  case (Cons a ts)
  obtain t p tick where a: "a = (t, p, tick)" by (cases a)
  have nt: "t \<notin> H" "t \<notin> T" and p: "unat p < PRIORITY_MAX" using Cons.prems(3,4) a by auto
  obtain s1 s2 where s: "rt_thread_init t p tick s = returns s1" "rt_thread_startup t s1 = returns (RT_EOK, s2)"
    "kernel_ok s2 H (insert t T) (Q(unat p := Q (unat p) @ [t])) [] []" "current_thread s2 = None"
    "lock_nest s2 = lock_nest s" "\<forall>x \<in> insert t T. thread_stat x s2 = RT_THREAD_READY"
    "interrupt_nest s2 = interrupt_nest s" "kernel.more s2 = kernel.more s"
    using start_one_ok [OF Cons.prems(1) nt p Cons.prems(5,6)] by metis
  have "fst ` set ts \<inter> (H \<union> insert t T) = {}" using Cons.prems(2,3) a by auto
  then have disj: "fst ` set ts \<inter> (H \<union> insert t T) = {}" .
  have rest: "distinct (map fst ts)" "\<forall>(t, p, tick) \<in> set ts. unat p < PRIORITY_MAX"
    using Cons.prems(2,4) a by auto
  have U: "fst ` set (a # ts) \<union> T = fst ` set ts \<union> insert t T" using a by auto
  have step: "start_threads (a # ts) s = start_threads ts s2" using s(1,2) a by simp
  have Q: "queued (a # ts) Q = queued ts (Q(unat p := Q (unat p) @ [t]))" using a by simp
  show ?case
    using Cons.IH [OF s(3) rest(1) disj rest(2) s(4,6)] unfolding step U Q s(5) s(7) s(8) .
qed simp

text \<open>The boot sequence.\<close>

lemma boot_ok:
  assumes H: "{..rt_thread_defunct} \<subseteq> H"
    and "distinct (map fst ts)" and "idle \<notin> fst ` set ts" and "idle \<notin> H" and "fst ` set ts \<inter> H = {}"
    and "\<forall>(t, p, tick) \<in> set ts. unat p < PRIORITY_MAX"
  shows "\<exists>s. boot idle ts (reset_with m) = returns s \<and>
    kernel_ok s H (insert idle (fst ` set ts)) (queued ((idle, 31, 32) # ts) (\<lambda>_. [])) [] [] \<and>
    lock_nest s = 0 \<and> (\<forall>x \<in> insert idle (fst ` set ts). thread_stat x s = RT_THREAD_READY) \<and>
    current_thread s = Some (hd (ready_order (queued ((idle, 31, 32) # ts) (\<lambda>_. [])))) \<and>
    interrupt_nest s = 0 \<and> kernel.more s = m"
proof -
  let ?ts = "(idle, 31, 32) # ts" and ?Q = "queued ((idle, 31, 32) # ts) (\<lambda>_. [])"
  have pre: "distinct (map fst ?ts)" "fst ` set ?ts \<inter> (H \<union> {}) = {}"
    "\<forall>(t, p, tick) \<in> set ?ts. unat p < PRIORITY_MAX" "current_thread (rt_system_scheduler_init (reset_with m)) = None"
    "\<forall>x \<in> {}. thread_stat x (rt_system_scheduler_init (reset_with m)) = RT_THREAD_READY"
    using assms by (auto simp: rt_system_scheduler_init_def)
  obtain s1 where s1: "start_threads ?ts (rt_system_scheduler_init (reset_with m)) = returns s1"
    "kernel_ok s1 H (fst ` set ?ts \<union> {}) ?Q [] []" "lock_nest s1 = 0"
    "\<forall>x \<in> fst ` set ?ts \<union> {}. thread_stat x s1 = RT_THREAD_READY"
    "interrupt_nest s1 = 0" "kernel.more s1 = m"
    using start_threads_ok [OF init_ok [OF H] pre] by (auto simp: rt_system_scheduler_init_def reset_with_def)
  have "idle \<in> set (ready_order ?Q)" using ready_iff [OF kernel_okD(1) [OF s1(2)]] s1(4) by auto
  then have "ready_order ?Q \<noteq> []" by force
  from start_scheduler_ok [OF s1(2) this] obtain s where s: "rt_system_scheduler_start s1 = returns s"
    "kernel_ok s H (fst ` set ?ts \<union> {}) ?Q [] []" "current_thread s = Some (hd (ready_order ?Q))"
    "thread_of s = thread_of s1" "lock_nest s = lock_nest s1" "interrupt_nest s = interrupt_nest s1"
    "kernel.more s = kernel.more s1" by metis
  have "boot idle ts (reset_with m) = andthen (start_threads ?ts (rt_system_scheduler_init (reset_with m))) rt_system_scheduler_start"
    by (simp add: boot_def rt_thread_idle_init_def andthen_def split: option.splits sum.splits)
  then have "boot idle ts (reset_with m) = returns s" using s1(1) s(1) by simp
  then show ?thesis using s(2-7) s1(3-6) by (simp add: thread_stat_def)
qed

end
