(* ===== verification/SchedCalls.thy ===== *)
theory SchedCalls
  imports SchedBoot
begin

text \<open>
  The calls of the kernel as a transition system, with the conditions under which a program may make
  them, and the invariant all of them keep.
\<close>

subsection \<open>The calls\<close>

datatype call =
    Suspend nat | Resume nat | Startup nat | Change_Priority nat u8 | Yield_Call | Sleep u32 | Exit_Call
  | Detach nat | Delete nat | Schedule_Call | Enter_Critical_Call | Exit_Critical_Call
  | Interrupt_Enter | Interrupt_Leave | Tick

text \<open>\<open>cb\<close> are the timeout functions of the timers. Results and the second halves of waits are dropped.\<close>

definition state_of :: "('r \<times> 's) run \<Rightarrow> 's run" where
  "state_of m = andthen m (\<lambda>(r, s). returns s)"

lemma state_of_simps [simp]: "state_of (returns (r, s)) = returns s" "state_of (stops e) = stops e" "state_of None = None"
  by (simp_all add: state_of_def)

fun perform ::
  "(nat \<Rightarrow> 'a kernel_scheme \<Rightarrow> 'a kernel_scheme run) \<Rightarrow> call \<Rightarrow> 'a kernel_scheme \<Rightarrow> 'a kernel_scheme run" where
  "perform cb (Suspend t) s = state_of (rt_thread_suspend t s)"
| "perform cb (Resume t) s = state_of (rt_thread_resume t s)"
| "perform cb (Startup t) s = state_of (rt_thread_startup t s)"
| "perform cb (Change_Priority t p) s = state_of (rt_thread_control t 2 p s)"
| "perform cb Yield_Call s = rt_thread_yield s"
| "perform cb (Sleep tick) s = state_of (rt_thread_sleep tick s)"
| "perform cb Exit_Call s = rt_thread_exit s"
| "perform cb (Detach t) s = state_of (rt_thread_detach t s)"
| "perform cb (Delete t) s = state_of (rt_thread_delete t s)"
| "perform cb Schedule_Call s = rt_schedule s"
| "perform cb Enter_Critical_Call s = returns (rt_enter_critical s)"
| "perform cb Exit_Critical_Call s = rt_exit_critical s"
| "perform cb Interrupt_Enter s = returns (rt_interrupt_enter s)"
| "perform cb Interrupt_Leave s = returns (rt_interrupt_leave s)"
| "perform cb Tick s = rt_tick_increase cb s"

text \<open>
  When a call may be made, besides the assertions of the code: the idle thread stays ready; a thread
  suspends or ends itself only by the calls that also schedule, and only while the scheduler is not
  locked; priorities are below 32, delays below half the range of the tick, and the nesting of
  critical sections stays in the range of the counter.
\<close>

definition allowed :: "nat set \<Rightarrow> nat \<Rightarrow> 'a kernel_scheme \<Rightarrow> call \<Rightarrow> bool" where
  "allowed T idle s c \<longleftrightarrow>
     (case c of
        Suspend t \<Rightarrow> t \<in> T \<and> t \<noteq> idle \<and> current_thread s \<noteq> Some t
      | Resume t \<Rightarrow> t \<in> T
      | Startup t \<Rightarrow> t \<in> T \<and> thread_stat t s = RT_THREAD_INIT
      | Change_Priority t p \<Rightarrow> t \<in> T \<and> unat p < PRIORITY_MAX
      | Sleep tick \<Rightarrow> current_thread s \<noteq> Some idle \<and> lock_nest s = 0 \<and> uint tick < 2 ^ 31 - 1
      | Exit_Call \<Rightarrow> current_thread s \<noteq> Some idle \<and> lock_nest s = 0
      | Detach t \<Rightarrow> t \<in> T \<and> t \<noteq> idle \<and> current_thread s \<noteq> Some t \<and> th_static (thread_of s t)
      | Delete t \<Rightarrow> t \<in> T \<and> t \<noteq> idle \<and> current_thread s \<noteq> Some t \<and> \<not> th_static (thread_of s t)
      | Enter_Critical_Call \<Rightarrow> sint (lock_nest s) < 2 ^ 15 - 1
      | _ \<Rightarrow> True)"

subsection \<open>The invariant\<close>

definition kernel_state ::
  "nat set \<Rightarrow> nat \<Rightarrow> 'a kernel_scheme \<Rightarrow> nat set \<Rightarrow> (nat \<Rightarrow> nat list) \<Rightarrow> nat list \<Rightarrow> nat list \<Rightarrow> bool" where
  "kernel_state T idle s H Q hs ss \<longleftrightarrow>
     kernel_ok s H T Q hs ss \<and> on_time s hs \<and> running s T \<and> idle \<in> T \<and> thread_stat idle s = RT_THREAD_READY \<and>
     0 \<le> sint (lock_nest s)"

definition kernel_inv :: "nat set \<Rightarrow> nat \<Rightarrow> 'a kernel_scheme \<Rightarrow> bool" where
  "kernel_inv T idle s \<longleftrightarrow> (\<exists>H Q hs ss. kernel_state T idle s H Q hs ss)"

lemma kernel_stateD:
  assumes "kernel_state T idle s H Q hs ss"
  shows "kernel_ok s H T Q hs ss" "on_time s hs" "running s T" "idle \<in> T" "thread_stat idle s = RT_THREAD_READY"
    "0 \<le> sint (lock_nest s)" "current_thread s \<noteq> None"
  using assms by (auto simp: kernel_state_def running_def)

lemma idle_live:
  assumes "kernel_ok s H T Q hs ss" and "idle \<in> T" and "thread_stat idle s = RT_THREAD_READY"
  shows "ready_order Q \<noteq> []"
  using ready_iff [OF kernel_okD(1) [OF assms(1)] assms(2)] assms(3) by force

text \<open>
  One call: the invariant holds again, the wait lists only lose threads, the rest of the state and
  the priorities outside \<open>P\<close> are as before.
\<close>

definition kernel_step ::
  "nat set \<Rightarrow> nat \<Rightarrow> nat set \<Rightarrow> (nat \<Rightarrow> nat list) \<Rightarrow> nat set \<Rightarrow> 'a kernel_scheme \<Rightarrow> 'a kernel_scheme \<Rightarrow> bool" where
  "kernel_step T idle H Q P s s' \<longleftrightarrow>
     (\<exists>Q' hs ss. kernel_state T idle s' H Q' hs ss \<and> waits_in H Q Q') \<and>
     kernel.more s' = kernel.more s \<and> (\<forall>t. t \<notin> P \<longrightarrow> priority_of t s' = priority_of t s)"

lemma kernel_step_inv: "kernel_step T idle H Q P s s' \<Longrightarrow> kernel_inv T idle s'"
  unfolding kernel_step_def kernel_inv_def by blast

lemma kernel_stepI:
  assumes "kernel_state T idle s' H Q' hs ss" and "waits_in H Q Q'" and "kernel.more s' = kernel.more s"
    and "\<And>t. t \<notin> P \<Longrightarrow> priority_of t s' = priority_of t s"
  shows "kernel_step T idle H Q P s s'"
  using assms unfolding kernel_step_def by blast

lemma kernel_step_same:
  assumes "kernel_state T idle s H Q hs ss"
  shows "kernel_step T idle H Q P s s"
  using assms by (rule kernel_stepI) simp_all

text \<open>What a call that does not switch has to show.\<close>

lemma kernel_stateI:
  assumes "kernel_ok s' H T Q' hs' ss" and "on_time s' hs'" and "idle \<in> T" and "thread_stat idle s' = RT_THREAD_READY"
    and "0 \<le> sint (lock_nest s')" and "c \<in> T" and "current_thread s' = Some c" and "thread_stat c s' = RT_THREAD_READY"
    and "waits_in H Q Q'" and "kernel.more s' = kernel.more s" and "\<And>t. t \<notin> P \<Longrightarrow> priority_of t s' = priority_of t s"
  shows "kernel_step T idle H Q P s s'"
proof -
  have "kernel_state T idle s' H Q' hs' ss" using assms(1-8) unfolding kernel_state_def running_def by blast
  then show ?thesis using assms(9-11) by (rule kernel_stepI)
qed

text \<open>And one that does.\<close>

lemma kernel_inv_settle:
  assumes ok: "kernel_ok s' H T Q' hs' ss" and "on_time s' hs'" and i: "idle \<in> T" "thread_stat idle s' = RT_THREAD_READY"
    and "0 \<le> sint (lock_nest s')"
    and c: "lock_nest s' \<noteq> 0 \<Longrightarrow> \<exists>c \<in> T. current_thread s' = Some c \<and> thread_stat c s' = RT_THREAD_READY"
    and w: "waits_in H Q Q'" "kernel.more s' = kernel.more s" "\<And>t. t \<notin> P \<Longrightarrow> priority_of t s' = priority_of t s"
  shows "kernel_step T idle H Q P s (settle Q' s')"
proof -
  have ne: "ready_order Q' \<noteq> []" by (rule idle_live [OF ok i])
  have "running (settle Q' s') T"
    using first_ready [OF kernel_okD(1) [OF ok] ne] c by (auto simp: running_def)
  moreover have "on_time (settle Q' s') hs'" using assms(2) by (simp add: on_time_def due_def)
  ultimately have "kernel_state T idle (settle Q' s') H Q' hs' ss"
    using kernel_ok_settle [OF ok] i assms(5) by (simp add: kernel_state_def)
  then show ?thesis by (rule kernel_stepI) (simp_all add: w)
qed

lemma on_time_sub:
  assumes "on_time s hs" and "due s' = due s" and "set hs' \<subseteq> set hs"
  shows "on_time s' hs'"
  using assms by (auto simp: on_time_def)

subsection \<open>Every allowed call returns and keeps it\<close>

lemma suspend_keeps:
  assumes K: "kernel_state T idle s H Q hs ss" and a: "allowed T idle s (Suspend t)"
  shows "\<exists>s'. perform cb (Suspend t) s = returns s' \<and> kernel_step T idle H Q {} s s'"
proof (cases "thread_stat t s = RT_THREAD_READY")
  case False
  then show ?thesis using K by (simp add: rt_thread_suspend_not_ready kernel_step_same)
next
  case True
  note D = kernel_stateD [OF K]
  have t: "t \<in> T" "t \<noteq> idle" "current_thread s \<noteq> Some t" using a by (simp_all add: allowed_def)
  obtain c where c: "c \<in> T" "current_thread s = Some c" "thread_stat c s = RT_THREAD_READY"
    using D(3) by (auto simp: running_def)
  obtain s' where s': "rt_thread_suspend t s = returns (RT_EOK, s')" "kernel_ok s' H T (without t Q) hs ss"
    "kernel_frame t s s'" "timers.truncate s' = timers.truncate s"
    using rt_thread_suspend_ok [OF D(1) t(1) True] by metis
  note fr = kernel_frameD [OF s'(3)]
  have "on_time s' hs" using D(2) by (simp add: on_time_def armed_truncate [OF s'(4)])
  then have "kernel_step T idle H Q {} s s'"
    using D(4-6) c t fr(1,2,5,8,9) by (intro kernel_stateI [OF s'(2), where c = c]) auto
  then show ?thesis using s'(1) by simp
qed

lemma runner:
  assumes "kernel_state T idle s H Q hs ss"
  obtains c where "c \<in> T" and "current_thread s = Some c" and "thread_stat c s = RT_THREAD_READY"
  using kernel_stateD(3) [OF assms] by (auto simp: running_def)

lemma resume_keeps:
  assumes K: "kernel_state T idle s H Q hs ss" and a: "allowed T idle s (Resume t)"
  shows "\<exists>s'. perform cb (Resume t) s = returns s' \<and> kernel_step T idle H Q {} s s'"
proof (cases "thread_stat t s = RT_THREAD_SUSPEND")
  case False
  then show ?thesis using K by (simp add: rt_thread_resume_def kernel_step_same)
next
  case True
  note D = kernel_stateD [OF K]
  have t: "t \<in> T" using a by (simp add: allowed_def)
  obtain c where c: "c \<in> T" "current_thread s = Some c" "thread_stat c s = RT_THREAD_READY" by (rule runner [OF K])
  obtain s' where s': "rt_thread_resume t s = returns (RT_EOK, s')"
    "kernel_ok s' H T (made_ready s t Q) (remove1 t hs) ss" "kernel_frame t s s'"
    "thread_stat t s' = RT_THREAD_READY" "due s' = due s"
    using rt_thread_resume_ok [OF D(1) t True] by metis
  note fr = kernel_frameD [OF s'(3)]
  have still: "thread_stat x s = RT_THREAD_READY \<Longrightarrow> thread_stat x s' = RT_THREAD_READY" for x
    using fr(9) [of x] s'(4) by (cases "x = t") auto
  have "on_time s' (remove1 t hs)" using on_time_sub [OF D(2) s'(5) set_remove1_subset] .
  then have "kernel_step T idle H Q {} s s'"
    using D(4-6) c still fr(1,2,5,8) waits_in_made_ready [OF kernel_okD(1) [OF D(1)] t] by (intro kernel_stateI [OF s'(2), where c = c]) auto
  then show ?thesis using s'(1) by simp
qed

lemma startup_keeps:
  assumes K: "kernel_state T idle s H Q hs ss" and a: "allowed T idle s (Startup t)"
  shows "\<exists>s'. perform cb (Startup t) s = returns s' \<and> kernel_step T idle H Q {t} s s'"
proof -
  note D = kernel_stateD [OF K]
  have t: "t \<in> T" "thread_stat t s = RT_THREAD_INIT" using a by (simp_all add: allowed_def)
  obtain c where c: "c \<in> T" "current_thread s = Some c" "thread_stat c s = RT_THREAD_READY" by (rule runner [OF K])
  let ?p = "unat (init_priority (thread_of s t))"
  let ?Q = "Q(?p := Q ?p @ [t])"
  obtain s' where s': "rt_thread_startup t s = returns (RT_EOK, if current_thread s = None then s' else settle ?Q s')"
    "kernel_ok s' H T ?Q hs ss" "thread_stat t s' = RT_THREAD_READY" "\<And>x. x \<noteq> t \<Longrightarrow> thread_of s' x = thread_of s x"
    "current_thread s' = current_thread s" "lock_nest s' = lock_nest s" "due s' = due s"
    "kernel.more s' = kernel.more s"
    by (rule rt_thread_startup_ok [OF D(1) t]) (rule that)
  have still: "thread_stat x s = RT_THREAD_READY \<Longrightarrow> thread_stat x s' = RT_THREAD_READY" for x
    using s'(3) s'(4) [of x] by (cases "x = t") (auto simp: thread_stat_def)
  have pr: "priority_of x s' = priority_of x s" if "x \<notin> {t}" for x
    using s'(4) [of x] that by (simp add: priority_of_def)
  have lo: "waits_in H Q ?Q"
    using thread_okD(2) [OF sched_okD(4) [OF kernel_okD(1) [OF D(1)] t(1)]] by (simp add: rt_thread_defunct_def)
  have "on_time s' hs" using on_time_sub [OF D(2) s'(7)] by simp
  then have "kernel_step T idle H Q {t} s (settle ?Q s')"
    using D(4-6) c still s'(5,6,8) pr lo by (intro kernel_inv_settle [OF s'(2)]) auto
  then show ?thesis using s'(1) c(2) by simp
qed

lemma change_priority_keeps:
  assumes K: "kernel_state T idle s H Q hs ss" and a: "allowed T idle s (Change_Priority t p)"
  shows "\<exists>s'. perform cb (Change_Priority t p) s = returns s' \<and> kernel_step T idle H Q {t} s s'"
proof -
  note D = kernel_stateD [OF K]
  have t: "t \<in> T" "unat p < PRIORITY_MAX" using a by (simp_all add: allowed_def)
  obtain c where c: "c \<in> T" "current_thread s = Some c" "thread_stat c s = RT_THREAD_READY" by (rule runner [OF K])
  let ?Q = "if thread_stat t s = RT_THREAD_READY then moved t p Q else Q"
  obtain s' where s': "change_priority t p s = returns s'" "kernel_ok s' H T ?Q hs ss"
    "thread_stat t s' = thread_stat t s" "\<And>x. x \<noteq> t \<Longrightarrow> thread_of s' x = thread_of s x"
    "current_thread s' = current_thread s" "lock_nest s' = lock_nest s" "timers.truncate s' = timers.truncate s"
    "kernel.more s' = kernel.more s"
    by (rule change_priority_ok [OF D(1) t]) (rule that)
  have st: "thread_stat x s' = thread_stat x s" for x
    using s'(3) s'(4) [of x] by (cases "x = t") (simp_all add: thread_stat_def)
  have pr: "priority_of x s' = priority_of x s" if "x \<notin> {t}" for x
    using s'(4) [of x] that by (simp add: priority_of_def)
  have lo: "waits_in H Q ?Q" using t(2) by (simp add: moved_def rt_thread_defunct_def)
  have "on_time s' hs" using D(2) by (simp add: on_time_def armed_truncate [OF s'(7)])
  then have "kernel_step T idle H Q {t} s s'"
    using D(4-6) c st s'(5,6,8) pr lo by (intro kernel_stateI [OF s'(2), where c = c]) simp_all
  then show ?thesis using s'(1) by (simp add: rt_thread_control_def)
qed

lemma yield_keeps:
  assumes K: "kernel_state T idle s H Q hs ss"
  shows "\<exists>s'. perform cb Yield_Call s = returns s' \<and> kernel_step T idle H Q {} s s'"
proof -
  note D = kernel_stateD [OF K]
  obtain c where c: "c \<in> T" "current_thread s = Some c" "thread_stat c s = RT_THREAD_READY" by (rule runner [OF K])
  show ?thesis
  proof (cases "Q (priority_of c s) = [c]")
    case True
    then show ?thesis using rt_thread_yield_alone [OF D(1) c True] K by (simp add: kernel_step_same)
  next
    case False
    obtain s' where s': "rt_thread_yield s = returns (settle (yielded s c Q) s')"
      "kernel_ok s' H T (yielded s c Q) hs ss" "kernel_frame c s s'" "thread_of s' = thread_of s"
      by (rule rt_thread_yield_ok [OF D(1) c False])
    have tr: "timers.truncate s' = timers.truncate s" using rt_thread_yield_timers [OF s'(1)] by simp
    note fr = kernel_frameD [OF s'(3)]
    have lo: "waits_in H Q (yielded s c Q)"
      using thread_okD(1) [OF sched_okD(4) [OF kernel_okD(1) [OF D(1)] c(1)]]
      by (simp add: yielded_def rt_thread_defunct_def)
    have "on_time s' hs" using D(2) by (simp add: on_time_def armed_truncate [OF tr])
    then have "kernel_step T idle H Q {} s (settle (yielded s c Q) s')"
      using D(4-6) c fr(1,2,5,8) s'(4) lo by (intro kernel_inv_settle [OF s'(2)]) (auto simp: thread_stat_def)
    then show ?thesis using s'(1) by simp
  qed
qed

lemma sleep_keeps:
  assumes K: "kernel_state T idle s H Q hs ss" and a: "allowed T idle s (Sleep tick)"
  shows "\<exists>s'. perform cb (Sleep tick) s = returns s' \<and> kernel_step T idle H Q {} s s'"
proof -
  note D = kernel_stateD [OF K]
  obtain c where c: "c \<in> T" "current_thread s = Some c" "thread_stat c s = RT_THREAD_READY" by (rule runner [OF K])
  have lim: "c \<noteq> idle" "lock_nest s = 0" "uint tick < 2 ^ 31 - 1" using a c by (simp_all add: allowed_def)
  let ?Q = "without c Q" and ?hs = "insert_due (due s) (uint tick) c hs"
  obtain s' where s': "suspend_for c tick s = returns s'" "kernel_ok s' H T ?Q ?hs ss" "kernel_frame c s s'"
    "thread_stat c s' = RT_THREAD_SUSPEND" "\<And>x. due s' x = (if x = c then uint tick else due s x)"
    by (rule suspend_for_ok [OF D(1) c(1,3) lim(3)]) (rule that)
  note fr = kernel_frameD [OF s'(3)]
  have i: "thread_stat idle s' = RT_THREAD_READY" using fr(9) [of idle] lim(1) D(5) by simp
  have ne: "ready_order ?Q \<noteq> []" by (rule idle_live [OF s'(2) D(4) i])
  have "rt_schedule s' = returns (settle ?Q s')" using rt_schedule_ok [OF s'(2)] ne fr(1) c(2) by (simp add: live_def)
  moreover have "hd (ready_order ?Q) \<noteq> c"
    using first_ready(2) [OF kernel_okD(1) [OF s'(2)] ne] s'(4) by auto
  ultimately have "perform cb (Sleep tick) s = returns (settle ?Q s')"
    using c(2) s'(1) fr(2) lim(2) by (simp add: rt_thread_sleep_def wait_here_def)
  moreover have "on_time s' ?hs" using D(2) s'(5) by (auto simp: on_time_def)
  then have "kernel_step T idle H Q {} s (settle ?Q s')"
    using D(4,6) i lim(2) fr(2,5,8) by (intro kernel_inv_settle [OF s'(2)]) simp_all
  ultimately show ?thesis by blast
qed

lemma waits_in_ended [simp]: "waits_in H Q (reaped t Q)" "waits_in H Q (ended d t Q)"
  by (simp_all add: ended_def reaped_def)

lemma exit_keeps:
  assumes K: "kernel_state T idle s H Q hs ss" and a: "allowed T idle s Exit_Call"
  shows "\<exists>s'. perform cb Exit_Call s = returns s' \<and> kernel_step T idle H Q {} s s'"
proof -
  note D = kernel_stateD [OF K]
  obtain c where c: "c \<in> T" "current_thread s = Some c" "thread_stat c s = RT_THREAD_READY" by (rule runner [OF K])
  have lim: "c \<noteq> idle" "lock_nest s = 0" using a c by (simp_all add: allowed_def)
  let ?E = "ended (th_static (thread_of s c) \<and> \<not> th_cleanup (thread_of s c)) c Q"
  have ni: "idle \<in> set (?E p) \<longleftrightarrow> idle \<in> set (Q p)" if "p < PRIORITY_MAX" for p
    using set_without [OF lists_okD(1) [OF sched_okD(1) [OF kernel_okD(1) [OF D(1)]]], of p c]
      lists_okD(2) [OF sched_okD(1) [OF kernel_okD(1) [OF D(1)]] that] lim(1) that
    by (auto simp: ended_def reaped_def rt_thread_defunct_def)
  have "idle \<in> set (ready_order Q)" using ready_iff [OF kernel_okD(1) [OF D(1)] D(4)] D(5) by simp
  then have "idle \<in> set (ready_order ?E)" using ni by (auto simp: in_ready_order)
  then have ne: "ready_order ?E \<noteq> []" by force
  obtain s' where s': "rt_thread_exit s = returns (settle ?E s')" "kernel_ok s' H T ?E (remove1 c hs) ss"
    "\<And>x. x \<noteq> c \<Longrightarrow> thread_of s' x = thread_of s x" "lock_nest s' = lock_nest s" "due s' = due s"
    "kernel.more s' = kernel.more s" "priority_of c s' = priority_of c s"
    by (rule rt_thread_exit_ok [OF D(1) c ne]) (rule that)
  have "on_time s' (remove1 c hs)" using on_time_sub [OF D(2) s'(5) set_remove1_subset] .
  moreover have "thread_stat idle s' = RT_THREAD_READY" using s'(3) [of idle] lim(1) D(5) by (simp add: thread_stat_def)
  moreover have "priority_of x s' = priority_of x s" for x
    using s'(3) [of x] s'(7) by (cases "x = c") (simp_all add: priority_of_def)
  ultimately have "kernel_step T idle H Q {} s (settle ?E s')"
    using D(4,6) lim(2) s'(4,6) by (intro kernel_inv_settle [OF s'(2)]) simp_all
  then show ?thesis using s'(1) by simp
qed

text \<open>Another thread ends.\<close>

lemma ended_inv:
  assumes K: "kernel_state T idle s H Q hs ss" and t: "t \<in> T" "t \<noteq> idle" "current_thread s \<noteq> Some t"
    and s': "kernel_ok s' H T Q' (remove1 t hs) ss" "\<And>x. x \<noteq> t \<Longrightarrow> thread_of s' x = thread_of s x"
      "current_thread s' = current_thread s" "lock_nest s' = lock_nest s" "due s' = due s"
      "kernel.more s' = kernel.more s" "priority_of t s' = priority_of t s" and lo: "waits_in H Q Q'"
  shows "kernel_step T idle H Q {} s s'"
proof -
  note D = kernel_stateD [OF K]
  obtain c where c: "c \<in> T" "current_thread s = Some c" "thread_stat c s = RT_THREAD_READY" by (rule runner [OF K])
  have pr: "priority_of x s' = priority_of x s" for x
    using s'(2) [of x] s'(7) by (cases "x = t") (simp_all add: priority_of_def)
  have "on_time s' (remove1 t hs)" using on_time_sub [OF D(2) s'(5) set_remove1_subset] .
  then show ?thesis
    using D(4-6) c t s'(2-4,6) lo pr by (intro kernel_stateI [OF s'(1), where c = c]) (auto simp: thread_stat_def)
qed

lemma detach_keeps:
  assumes K: "kernel_state T idle s H Q hs ss" and a: "allowed T idle s (Detach t)"
  shows "\<exists>s'. perform cb (Detach t) s = returns s' \<and> kernel_step T idle H Q {} s s'"
proof -
  have t: "t \<in> T" "t \<noteq> idle" "current_thread s \<noteq> Some t" "th_static (thread_of s t)" using a by (simp_all add: allowed_def)
  obtain s' where s': "rt_thread_detach t s = returns (RT_EOK, s')"
    "kernel_ok s' H T (ended (\<not> th_cleanup (thread_of s t)) t Q) (remove1 t hs) ss"
    "\<And>x. x \<noteq> t \<Longrightarrow> thread_of s' x = thread_of s x"
    "current_thread s' = current_thread s" "lock_nest s' = lock_nest s" "due s' = due s"
    "kernel.more s' = kernel.more s" "priority_of t s' = priority_of t s"
    by (rule rt_thread_detach_ok [OF kernel_stateD(1) [OF K] t(1,4)]) (rule that)
  then show ?thesis using ended_inv [OF K t(1-3) s'(2-8)] by simp
qed

lemma delete_keeps:
  assumes K: "kernel_state T idle s H Q hs ss" and a: "allowed T idle s (Delete t)"
  shows "\<exists>s'. perform cb (Delete t) s = returns s' \<and> kernel_step T idle H Q {} s s'"
proof -
  have t: "t \<in> T" "t \<noteq> idle" "current_thread s \<noteq> Some t" "\<not> th_static (thread_of s t)"
    using a by (simp_all add: allowed_def)
  obtain s' where s': "rt_thread_delete t s = returns (RT_EOK, s')" "kernel_ok s' H T (reaped t Q) (remove1 t hs) ss"
    "\<And>x. x \<noteq> t \<Longrightarrow> thread_of s' x = thread_of s x"
    "current_thread s' = current_thread s" "lock_nest s' = lock_nest s" "due s' = due s"
    "kernel.more s' = kernel.more s" "priority_of t s' = priority_of t s"
    by (rule rt_thread_delete_ok [OF kernel_stateD(1) [OF K] t(1,4)]) (rule that)
  then show ?thesis using ended_inv [OF K t(1-3) s'(2-8)] by simp
qed

text \<open>Calls that only change the counters.\<close>

lemma counters_ok:
  assumes K: "kernel_state T idle s H Q hs ss" and "timers.truncate s' = timers.truncate s" "tlists s' = tlists s"
    "ready_group s' = ready_group s" "thread_of s' = thread_of s" "current_thread s' = current_thread s"
    and "0 \<le> sint (lock_nest s')"
  shows "kernel_state T idle s' H Q hs ss"
  using assms kernel_ok_cong [OF kernel_stateD(1) [OF K] assms(2-5)]
  by (simp add: kernel_state_def running_def on_time_def armed_truncate [OF assms(2)] thread_stat_def)

lemma schedule_keeps:
  assumes K: "kernel_state T idle s H Q hs ss"
  shows "rt_schedule s = returns (settle Q s)" and "kernel_step T idle H Q {} s (settle Q s)"
proof -
  note D = kernel_stateD [OF K]
  have "live s Q" using idle_live [OF D(1,4,5)] D(7) by (simp add: live_def)
  then show "rt_schedule s = returns (settle Q s)" by (rule rt_schedule_ok [OF D(1)])
  show "kernel_step T idle H Q {} s (settle Q s)"
    using D runner [OF K] by (intro kernel_inv_settle [OF D(1)]) auto
qed

lemma sint_counter:
  assumes "0 \<le> sint (n :: u16)"
  shows "sint n < 2 ^ 15 - 1 \<Longrightarrow> sint (n + 1) = sint n + 1" and "sint (n - 1) = sint n - 1"
proof -
  have "sint n < 2 ^ 15" using sint_lt [of n] by simp
  then show "sint (n - 1) = sint n - 1"
    using assms signed_take_bit_int_eq_self [of 15 "sint n - 1"] by (simp add: sint_word_ariths)
  show "sint n < 2 ^ 15 - 1 \<Longrightarrow> sint (n + 1) = sint n + 1"
    using assms signed_take_bit_int_eq_self [of 15 "sint n + 1"] by (simp add: sint_word_ariths)
qed

lemma critical_keeps:
  assumes K: "kernel_state T idle s H Q hs ss"
  shows "allowed T idle s Enter_Critical_Call \<Longrightarrow> kernel_step T idle H Q {} s (rt_enter_critical s)"
    and "\<exists>s'. rt_exit_critical s = returns s' \<and> kernel_step T idle H Q {} s s'"
proof -
  note D = kernel_stateD [OF K]
  assume "allowed T idle s Enter_Critical_Call"
  then have "sint (lock_nest s) < 2 ^ 15 - 1" by (simp add: allowed_def)
  then have "kernel_state T idle (rt_enter_critical s) H Q hs ss"
    using D(6) by (intro counters_ok [OF K])
      (simp_all add: rt_enter_critical_def timers.truncate_def sint_counter)
  then show "kernel_step T idle H Q {} s (rt_enter_critical s)"
    by (rule kernel_stepI) (simp_all add: rt_enter_critical_def priority_of_def)
next
  note D = kernel_stateD [OF K]
  show "\<exists>s'. rt_exit_critical s = returns s' \<and> kernel_step T idle H Q {} s s'"
  proof (cases "sint (lock_nest s - 1) \<le> 0")
    case True
    let ?s = "s\<lparr>lock_nest := 0\<rparr>"
    have "kernel_state T idle ?s H Q hs ss" by (rule counters_ok [OF K]) (simp_all add: timers.truncate_def)
    from schedule_keeps [OF this] have "rt_exit_critical s = returns (settle Q ?s)"
      "kernel_step T idle H Q {} ?s (settle Q ?s)"
      using True D(7) by (simp_all add: rt_exit_critical_def)
    then show ?thesis by (simp add: kernel_step_def priority_of_def)
  next
    case False
    let ?s = "s\<lparr>lock_nest := lock_nest s - 1\<rparr>"
    have "kernel_state T idle ?s H Q hs ss"
      using False by (intro counters_ok [OF K]) (simp_all add: timers.truncate_def)
    then have "kernel_step T idle H Q {} s ?s" by (rule kernel_stepI) (simp_all add: priority_of_def)
    then show ?thesis using False by (simp add: rt_exit_critical_def)
  qed
qed

lemma tick_keeps:
  assumes K: "kernel_state T idle s H Q hs ss" and cb: "thread_timeouts T cb"
  shows "\<exists>s'. perform cb Tick s = returns s' \<and> kernel_step T idle H Q {} s s'"
proof -
  note D = kernel_stateD [OF K]
  obtain s' Q' hs' where s': "rt_tick_increase cb s = returns s'" "kernel_ok s' H T Q' hs' ss"
    "on_time s' hs'" "running s' T" "lock_nest s' = lock_nest s"
    "\<And>t. t \<in> T \<Longrightarrow> t \<in> set hs \<Longrightarrow> due s t \<le> 1 \<Longrightarrow>
           thread_stat t s' = RT_THREAD_READY \<and> th_error (thread_of s' t) = - RT_ETIMEOUT"
    "\<And>t. t \<in> T \<Longrightarrow> \<not> (t \<in> set hs \<and> due s t \<le> 1) \<Longrightarrow>
           thread_stat t s' = thread_stat t s \<and> th_error (thread_of s' t) = th_error (thread_of s t)"
    "\<And>t. priority_of t s' = priority_of t s" "kernel.more s' = kernel.more s" "waits_in H Q Q'"
    by (rule rt_tick_increase_ok [OF D(1,2) cb D(3)]) (rule that)
  have "thread_stat idle s' = RT_THREAD_READY" using s'(6,7) [OF D(4)] D(5) by metis
  then have "kernel_state T idle s' H Q' hs' ss" using s'(2-5) D(4,6) by (simp add: kernel_state_def)
  then have "kernel_step T idle H Q {} s s'" using s'(10,9) by (rule kernel_stepI) (simp add: s'(8))
  then show ?thesis using s'(1) by simp
qed

definition may_change :: "call \<Rightarrow> nat set" where
  "may_change c = (case c of Startup t \<Rightarrow> {t} | Change_Priority t p \<Rightarrow> {t} | _ \<Rightarrow> {})"

lemma perform_step:
  assumes K: "kernel_state T idle s H Q hs ss" and cb: "thread_timeouts T cb" and a: "allowed T idle s c"
  shows "\<exists>s'. perform cb c s = returns s' \<and> kernel_step T idle H Q (may_change c) s s'"
proof -
  have "kernel_state T idle (rt_interrupt_enter s) H Q hs ss" "kernel_state T idle (rt_interrupt_leave s) H Q hs ss"
    using kernel_stateD(6) [OF K]
    by (auto intro!: counters_ok [OF K] simp: rt_interrupt_enter_def rt_interrupt_leave_def timers.truncate_def)
  then have i: "kernel_step T idle H Q {} s (rt_interrupt_enter s)" "kernel_step T idle H Q {} s (rt_interrupt_leave s)"
    by (auto intro!: kernel_stepI [where hs = hs and ss = ss and Q' = Q]
        simp: rt_interrupt_enter_def rt_interrupt_leave_def priority_of_def)
  show ?thesis
  proof (cases c)
    case (Suspend t) then show ?thesis using suspend_keeps [OF K] a by (simp add: may_change_def)
  next
    case (Resume t) then show ?thesis using resume_keeps [OF K] a by (simp add: may_change_def)
  next
    case (Startup t) then show ?thesis using startup_keeps [OF K] a by (simp add: may_change_def)
  next
    case (Change_Priority t p) then show ?thesis using change_priority_keeps [OF K] a by (simp add: may_change_def)
  next
    case Yield_Call then show ?thesis using yield_keeps [OF K] by (simp add: may_change_def)
  next
    case (Sleep tick) then show ?thesis using sleep_keeps [OF K] a by (simp add: may_change_def)
  next
    case Exit_Call then show ?thesis using exit_keeps [OF K] a by (simp add: may_change_def)
  next
    case (Detach t) then show ?thesis using detach_keeps [OF K] a by (simp add: may_change_def)
  next
    case (Delete t) then show ?thesis using delete_keeps [OF K] a by (simp add: may_change_def)
  next
    case Schedule_Call then show ?thesis using schedule_keeps [OF K] by (simp add: may_change_def)
  next
    case Enter_Critical_Call then show ?thesis using critical_keeps(1) [OF K] a by (simp add: may_change_def)
  next
    case Exit_Critical_Call then show ?thesis using critical_keeps(2) [OF K] by (simp add: may_change_def)
  next
    case Interrupt_Enter then show ?thesis using i by (simp add: may_change_def)
  next
    case Interrupt_Leave then show ?thesis using i by (simp add: may_change_def)
  next
    case Tick then show ?thesis using tick_keeps [OF K cb] by (simp add: may_change_def)
  qed
qed

lemma perform_keeps:
  assumes inv: "kernel_inv T idle s" and "thread_timeouts T cb" and "allowed T idle s c"
  shows "\<exists>s'. perform cb c s = returns s' \<and> kernel_inv T idle s'"
  using inv perform_step [OF _ assms(2,3)] kernel_step_inv unfolding kernel_inv_def by meson

text \<open>The states a system may reach by allowed calls.\<close>

inductive reachable ::
  "nat set \<Rightarrow> nat \<Rightarrow> (nat \<Rightarrow> 'a kernel_scheme \<Rightarrow> 'a kernel_scheme run) \<Rightarrow> 'a kernel_scheme \<Rightarrow> 'a kernel_scheme \<Rightarrow> bool"
  for T idle cb s0 where
  start: "reachable T idle cb s0 s0"
| step: "reachable T idle cb s0 s \<Longrightarrow> allowed T idle s c \<Longrightarrow> perform cb c s = returns s' \<Longrightarrow> reachable T idle cb s0 s'"

lemma reachable_inv:
  assumes "reachable T idle cb s0 s" and "kernel_inv T idle s0" and "thread_timeouts T cb"
  shows "kernel_inv T idle s"
  using assms
proof (induction rule: reachable.induct)
  case (step s c s')
  then show ?case using perform_keeps [of T idle s cb c] by auto
qed simp

end
