(* ===== verification/SchedProps.thy ===== *)
theory SchedProps
  imports SchedCalls
begin

text \<open>Properties of the scheduler, the threads and the tick, each with a concrete instance.\<close>

subsection \<open>The search for the highest priority\<close>

text \<open>The reference: the first of the 32 bits that is set, counted from 1.\<close>

definition first_set_bit :: "u32 \<Rightarrow> nat" where
  "first_set_bit v = (case filter (\<lambda>i. bit v i) [0..<32] of [] \<Rightarrow> 0 | i # _ \<Rightarrow> i + 1)"

text \<open>
  C34: The search by byte masks and table returns the number of the lowest set bit for every 32-bit
  value, and 0 for 0.
\<close>

theorem rt_ffs_finds_lowest_bit: "rt_ffs v = first_set_bit v"
proof (cases "v = 0")
  case True
  then show ?thesis by (simp add: first_set_bit_def)
next
  case False
  let ?k = "rt_ffs v - 1"
  note F = rt_ffs_lowest [OF False]
  have "[0..<32] = [0..<?k] @ ?k # [Suc ?k..<32]"
    using F(1,2) upt_add_eq_append [of 0 ?k "32 - ?k"] by (simp add: upt_conv_Cons)
  moreover have "filter (\<lambda>i. bit v i) [0..<?k] = []" using F(4) by auto
  ultimately have "filter (\<lambda>i. bit v i) [0..<32] = ?k # filter (\<lambda>i. bit v i) [Suc ?k..<32]"
    using F(3) by (metis append_Nil filter.simps(2) filter_append)
  then show ?thesis using F(1) by (simp add: first_set_bit_def)
qed

subsection \<open>A system with an idle thread and two threads\<close>

definition booted :: kernel where
  "booted = (case boot 40 [(41, 10, 5), (42, 10, 5)] reset_state of Some (Inr s) \<Rightarrow> s | _ \<Rightarrow> reset_state)"

definition booted_queues :: "nat \<Rightarrow> nat list" where
  "booted_queues = (\<lambda>_. [])(31 := [40], 10 := [41, 42])"

lemma booted_order: "ready_order booted_queues = [41, 42, 40]"
  by (simp add: ready_order_def booted_queues_def upt_rec)

lemma booted_ok:
  "kernel_ok booted heads {40, 41, 42} booted_queues [] []" "lock_nest booted = 0" "current_thread booted = Some 41"
  "thread_stat 40 booted = RT_THREAD_READY" "thread_stat 41 booted = RT_THREAD_READY"
proof -
  have Q: "queued [(40, 31, 32), (41, 10, 5), (42, 10, 5)] (\<lambda>_. []) = booted_queues"
    by (auto simp: booted_queues_def)
  obtain s where s: "boot 40 [(41, 10, 5), (42, 10, 5)] reset_state = returns s"
    "kernel_ok s heads {40, 41, 42} booted_queues [] []" "lock_nest s = 0"
    "\<forall>x \<in> {40, 41, 42}. thread_stat x s = RT_THREAD_READY" "current_thread s = Some (hd (ready_order booted_queues))"
    using boot_ok [OF defunct_in_heads, of "[(41, 10, 5), (42, 10, 5)]" 40 "()", unfolded Q] by (auto simp: heads_def)
  then have "booted = s" by (simp add: booted_def)
  then show "kernel_ok booted heads {40, 41, 42} booted_queues [] []" "lock_nest booted = 0"
    "current_thread booted = Some 41" "thread_stat 40 booted = RT_THREAD_READY" "thread_stat 41 booted = RT_THREAD_READY"
    using s(2-5) booted_order by simp_all
qed

lemma booted_state: "kernel_state {40, 41, 42} 40 booted heads booted_queues [] []"
  using booted_ok by (simp add: kernel_state_def on_time_def running_def)

subsection \<open>Dispatching\<close>

text \<open>
  C2: While the scheduler is not locked, \<open>rt_schedule\<close> returns with a ready thread running whose
  priority no ready thread exceeds, the one that is first in the ready list of its priority; the
  invariant of the kernel is kept. Some thread has to be ready.
\<close>

theorem rt_schedule_runs_highest:
  assumes "kernel_ok s H T Q hs ss" and "live s Q" and "lock_nest s = 0"
  shows "\<exists>s' c. rt_schedule s = returns s' \<and> kernel_ok s' H T Q hs ss \<and> current_thread s' = Some c \<and>
      c \<in> T \<and> thread_stat c s = RT_THREAD_READY \<and> hd (Q (priority_of c s)) = c \<and>
      (\<forall>t \<in> T. thread_stat t s = RT_THREAD_READY \<longrightarrow> priority_of c s \<le> priority_of t s)"
proof -
  note S = kernel_okD(1) [OF assms(1)]
  have ne: "ready_order Q \<noteq> []" using assms(2) by (simp add: live_def)
  let ?c = "hd (ready_order Q)"
  note R = first_ready [OF S ne]
  note B = lowest_bit_first [OF sched_okD(1) [OF S] ne]
  have h: "?c = hd (Q (nat (highest_ready s)))"
    using B concat_first [of "nat (highest_ready s)" PRIORITY_MAX Q] by (simp add: ready_order_def)
  then have "?c \<in> set (Q (nat (highest_ready s)))" using B(3) by simp
  then have "nat (highest_ready s) = priority_of ?c s"
    using thread_okD(3) [OF sched_okD(4) [OF S R(1)] B(2)] by simp
  then show ?thesis
    using rt_schedule_ok [OF assms(1,2)] kernel_ok_settle [OF assms(1)] assms(3) R h highest_first [OF S]
    by (intro exI [of _ "settle Q s"] exI [of _ ?c]) simp
qed

theorem rt_schedule_runs_highest_witness:
  "\<exists>s' c. rt_schedule booted = returns s' \<and> current_thread s' = Some c \<and> hd (booted_queues (priority_of c booted)) = c"
  using rt_schedule_runs_highest [of booted heads "{40, 41, 42}" booted_queues "[]" "[]"] booted_ok booted_order
  by (auto simp: live_def)

subsection \<open>Every system of threads\<close>

text \<open>
  C5: The kernel boots with any threads, and from there every sequence of the calls of the interface,
  made when they are allowed, with ticks, interrupts and critical sections between them, returns: no
  assertion fails, no list is read outside the table, no list is lost, and the bitmap, the ready
  lists, the status and the timers of the threads stay consistent.
\<close>

theorem kernel_calls_keep_invariant:
  assumes "distinct (map fst ts)" and "idle \<notin> fst ` set ts" and "idle \<notin> heads" and "fst ` set ts \<inter> heads = {}"
    and "\<forall>(t, p, tick) \<in> set ts. unat p < PRIORITY_MAX"
    and "thread_timeouts (insert idle (fst ` set ts)) cb"
  shows "\<exists>s0. boot idle ts reset_state = returns s0 \<and>
      (\<forall>s c. reachable (insert idle (fst ` set ts)) idle cb s0 s \<longrightarrow> allowed (insert idle (fst ` set ts)) idle s c \<longrightarrow>
         (\<exists>s'. perform cb c s = returns s' \<and> kernel_inv (insert idle (fst ` set ts)) idle s'))"
proof -
  let ?T = "insert idle (fst ` set ts)" and ?Q = "queued ((idle, 31, 32) # ts) (\<lambda>_. [])"
  obtain s0 where s0: "boot idle ts reset_state = returns s0" "kernel_ok s0 heads ?T ?Q [] []" "lock_nest s0 = 0"
    "\<forall>x \<in> ?T. thread_stat x s0 = RT_THREAD_READY" "current_thread s0 = Some (hd (ready_order ?Q))"
    using boot_ok [OF defunct_in_heads assms(1-5), of "()"] by blast
  have ne: "ready_order ?Q \<noteq> []" by (rule idle_live [OF s0(2), of idle]) (use s0(4) in simp_all)
  have "kernel_state ?T idle s0 heads ?Q [] []"
    using s0 first_ready [OF kernel_okD(1) [OF s0(2)] ne] by (simp add: kernel_state_def on_time_def running_def)
  then have "kernel_inv ?T idle s0" unfolding kernel_inv_def by blast
  then show ?thesis using s0(1) reachable_inv perform_keeps assms(6) by blast
qed

definition booted_timeouts :: "nat \<Rightarrow> kernel \<Rightarrow> kernel run" where
  "booted_timeouts t = (if t \<in> {40, 41, 42} then rt_thread_timeout t else (\<lambda>s. returns s))"

lemma booted_timeouts_ok: "thread_timeouts {40, 41, 42} booted_timeouts"
  by (simp add: thread_timeouts_def booted_timeouts_def)

theorem kernel_calls_keep_invariant_witness:
  "\<exists>s0. boot 40 [(41, 10, 5), (42, 10, 5)] reset_state = returns s0 \<and>
     (\<forall>s c. reachable {40, 41, 42} 40 booted_timeouts s0 s \<longrightarrow> allowed {40, 41, 42} 40 s c \<longrightarrow>
        (\<exists>s'. perform booted_timeouts c s = returns s' \<and> kernel_inv {40, 41, 42} 40 s'))"
  using kernel_calls_keep_invariant [of "[(41, 10, 5), (42, 10, 5)]" 40 booted_timeouts] booted_timeouts_ok
  by (simp add: heads_def insert_commute)

subsection \<open>Sharing the processor\<close>

lemma front_of_order:
  assumes "p < PRIORITY_MAX" and "Q p \<noteq> []" and "\<And>q. q < p \<Longrightarrow> Q q = []"
  shows "hd (ready_order Q) = hd (Q p)" and "ready_order Q \<noteq> []"
  using concat_first [of p PRIORITY_MAX Q] assms by (simp_all add: ready_order_def)

text \<open>One yield of the thread at the front.\<close>

lemma yield_rotates:
  assumes ok: "kernel_ok s H T Q hs ss" and lock: "lock_nest s = 0"
    and p: "p < PRIORITY_MAX" "Q p \<noteq> []" "\<And>q. q < p \<Longrightarrow> Q q = []" and cur: "current_thread s = Some (hd (Q p))"
  obtains s' where "rt_thread_yield s = returns s'" and "kernel_ok s' H T (Q(p := rotate1 (Q p))) hs ss"
    and "current_thread s' = Some (hd (rotate1 (Q p)))" and "lock_nest s' = 0"
proof -
  let ?t = "hd (Q p)"
  note S = kernel_okD(1) [OF ok]
  have pH: "p \<in> H" using lists_okD(2) [OF sched_okD(1) [OF S] p(1)] .
  have t: "?t \<in> T" using sched_okD(3) [OF S pH, of ?t] p(2) by simp
  have st: "thread_stat ?t s = RT_THREAD_READY" and pr: "priority_of ?t s = p"
    using thread_okD(3) [OF sched_okD(4) [OF S t] p(1)] p(2) by simp_all
  show ?thesis
  proof (cases "Q p = [?t]")
    case True
    then have "Q (priority_of ?t s) = [?t]" by (simp only: pr)
    from rt_thread_yield_alone [OF ok t cur st this] have "rt_thread_yield s = returns s" .
    moreover have r: "rotate1 (Q p) = Q p" using True by (metis rotate1.simps(2) append_Nil)
    moreover have "kernel_ok s H T (Q(p := rotate1 (Q p))) hs ss" using ok unfolding r by simp
    ultimately show ?thesis using that lock cur by simp
  next
    case False
    then have "Q (priority_of ?t s) \<noteq> [?t]" by (simp only: pr not_False_eq_True)
    from rt_thread_yield_ok [OF ok t cur st this] obtain s' where
      s': "rt_thread_yield s = returns (settle (yielded s ?t Q) s')" "kernel_ok s' H T (yielded s ?t Q) hs ss"
      "kernel_frame ?t s s'" by metis
    have "remove1 ?t (Q p) @ [?t] = rotate1 (Q p)" using p(2) by (cases "Q p") simp_all
    then have Y: "yielded s ?t Q = Q(p := rotate1 (Q p))" by (simp add: yielded_def pr)
    have ne: "rotate1 (Q p) \<noteq> []" using p(2) by simp
    have "hd (ready_order (Q(p := rotate1 (Q p)))) = hd (rotate1 (Q p))"
      using front_of_order(1) [of p "Q(p := rotate1 (Q p))"] p(1,3) ne by simp
    then show ?thesis
      using that s'(1,2) lock kernel_frameD(2) [OF s'(3)] unfolding Y by simp
  qed
qed

fun yields :: "nat \<Rightarrow> 'a kernel_scheme \<Rightarrow> 'a kernel_scheme run" where
  "yields 0 s = returns s"
| "yields (Suc n) s = andthen (yields n s) rt_thread_yield"

text \<open>
  C21: When the threads of the highest ready priority yield one after the other, they run in turn in
  the order of their ready list: after \<open>n\<close> yields the thread at position \<open>n\<close> of the list, counted
  around it, is running.
\<close>

theorem yields_round_robin:
  assumes "kernel_ok s H T Q hs ss" and "lock_nest s = 0" and "current_thread s = Some (hd (ready_order Q))"
    and "ready_order Q \<noteq> []" and "p = priority_of (hd (ready_order Q)) s"
  shows "\<exists>s'. yields n s = returns s' \<and> kernel_ok s' H T (Q(p := rotate n (Q p))) hs ss \<and>
      current_thread s' = Some (Q p ! (n mod length (Q p)))"
proof -
  note S = kernel_okD(1) [OF assms(1)]
  note B = lowest_bit_first [OF sched_okD(1) [OF S] assms(4)]
  let ?q = "nat (highest_ready s)"
  have h: "hd (ready_order Q) = hd (Q ?q)" using front_of_order(1) [of ?q Q] B(2-4) by simp
  have "p = ?q"
    using thread_okD(3) [OF sched_okD(4) [OF S first_ready(1) [OF S assms(4)]] B(2)] B(3) assms(5) h by simp
  then have p: "p < PRIORITY_MAX" "Q p \<noteq> []" "\<And>q. q < p \<Longrightarrow> Q q = []" "hd (ready_order Q) = hd (Q p)"
    using B h by simp_all
  have "\<exists>s'. yields n s = returns s' \<and> kernel_ok s' H T (Q(p := rotate n (Q p))) hs ss \<and>
      current_thread s' = Some (hd (rotate n (Q p))) \<and> lock_nest s' = 0"
  proof (induction n)
    case 0
    then show ?case using assms(1-3) p(4) by simp
  next
    case (Suc n)
    then obtain s1 where s1: "yields n s = returns s1" "kernel_ok s1 H T (Q(p := rotate n (Q p))) hs ss"
      "current_thread s1 = Some (hd (rotate n (Q p)))" "lock_nest s1 = 0" by blast
    let ?Q = "Q(p := rotate n (Q p))"
    have "?Q p \<noteq> []" "\<And>q. q < p \<Longrightarrow> ?Q q = []" "current_thread s1 = Some (hd (?Q p))" using p s1(3) by simp_all
    from yield_rotates [OF s1(2,4) p(1) this] obtain s2 where s2: "rt_thread_yield s1 = returns s2"
      "kernel_ok s2 H T (?Q(p := rotate1 (?Q p))) hs ss" "current_thread s2 = Some (hd (rotate1 (?Q p)))"
      "lock_nest s2 = 0" by metis
    have "?Q(p := rotate1 (?Q p)) = Q(p := rotate (Suc n) (Q p))" by simp
    then have "kernel_ok s2 H T (Q(p := rotate (Suc n) (Q p))) hs ss" using s2(2) by metis
    moreover have "yields (Suc n) s = returns s2" using s1(1) s2(1) by simp
    ultimately show ?case using s2(3,4) by (metis fun_upd_same rotate_Suc)
  qed
  moreover have "hd (rotate n (Q p)) = Q p ! (n mod length (Q p))" using p(2) by (rule hd_rotate_conv_nth)
  ultimately show ?thesis by auto
qed

theorem yields_round_robin_witness:
  "\<exists>s'. yields 3 booted = returns s' \<and> current_thread s' = Some 42"
proof -
  have p: "priority_of 41 booted = 10"
    using thread_okD(3) [OF sched_okD(4) [OF kernel_okD(1) [OF booted_ok(1)]], of 41 10]
    by (simp add: booted_queues_def)
  have "\<exists>s'. yields 3 booted = returns s' \<and>
      kernel_ok s' heads {40, 41, 42} (booted_queues(10 := rotate 3 (booted_queues 10))) [] [] \<and>
      current_thread s' = Some (booted_queues 10 ! (3 mod length (booted_queues 10)))"
    using p by (intro yields_round_robin [OF booted_ok(1,2)]) (simp_all add: booted_ok(3) booted_order)
  moreover have "length (booted_queues 10) = 2" "booted_queues 10 ! 1 = 42" "3 mod 2 = (1 :: nat)"
    by (simp_all add: booted_queues_def)
  ultimately show ?thesis by metis
qed

subsection \<open>Sleeping\<close>

fun ticks :: "nat \<Rightarrow> (nat \<Rightarrow> 'a kernel_scheme \<Rightarrow> 'a kernel_scheme run) \<Rightarrow> 'a kernel_scheme \<Rightarrow> 'a kernel_scheme run" where
  "ticks 0 cb s = returns s"
| "ticks (Suc n) cb s = andthen (ticks n cb s) (rt_tick_increase cb)"

lemma ticks_until_due:
  assumes K: "kernel_state T idle s H Q hs ss" and cb: "thread_timeouts T cb" and t: "t \<in> T" "t \<in> set hs"
  shows "int k < max 1 (due s t) \<Longrightarrow> \<exists>s' Q' hs'. ticks k cb s = returns s' \<and> kernel_state T idle s' H Q' hs' ss \<and>
    t \<in> set hs' \<and> due s' t = due s t - int k"
proof (induction k)
  case 0
  then show ?case using K t(2) by auto
next
  case (Suc k)
  then have "int k < max 1 (due s t)" by linarith
  then obtain s1 Q1 hs1 where s1: "ticks k cb s = returns s1" "kernel_state T idle s1 H Q1 hs1 ss"
    "t \<in> set hs1" "due s1 t = due s t - int k" using Suc.IH by blast
  note D = kernel_stateD [OF s1(2)]
  obtain s' Q' hs' where s': "rt_tick_increase cb s1 = returns s'" "kernel_ok s' H T Q' hs' ss"
    "on_time s' hs'" "running s' T" "lock_nest s' = lock_nest s1"
    "\<And>t. t \<in> T \<Longrightarrow> \<not> (t \<in> set hs1 \<and> due s1 t \<le> 1) \<Longrightarrow>
           thread_stat t s' = thread_stat t s1 \<and> th_error (thread_of s' t) = th_error (thread_of s1 t)"
    "\<And>t. t \<in> T \<Longrightarrow> t \<in> set hs1 \<Longrightarrow> due s1 t \<le> 1 \<Longrightarrow>
           thread_stat t s' = RT_THREAD_READY \<and> th_error (thread_of s' t) = - RT_ETIMEOUT"
    "\<And>t. t \<in> T \<Longrightarrow> t \<in> set hs' \<longleftrightarrow> t \<in> set hs1 \<and> 1 < due s1 t"
    "\<And>t. t \<in> T \<Longrightarrow> t \<in> set hs' \<Longrightarrow> due s' t = due s1 t - 1"
    by (rule rt_tick_increase_ok [OF D(1,2) cb D(3)]) (rule that)
  have "thread_stat idle s' = RT_THREAD_READY" using s'(6,7) [OF D(4)] D(5) by metis
  then have "kernel_state T idle s' H Q' hs' ss" using s'(2-5) D(4,6) by (simp add: kernel_state_def)
  moreover have "t \<in> set hs'" using s'(8) [OF t(1)] s1(3,4) Suc.prems by simp
  ultimately show ?case using s1(1,4) s'(1) s'(9) [OF t(1)] by auto
qed

text \<open>
  The blocked caller: suspended at once, through every earlier tick, and ready with the last. \<open>wakes_after\<close>
  is what a caller that blocks for \<open>n\<close> ticks sees.
\<close>

definition wakes_after :: "(nat \<Rightarrow> 'a kernel_scheme \<Rightarrow> 'a kernel_scheme run) \<Rightarrow> nat \<Rightarrow> nat \<Rightarrow> 'a kernel_scheme \<Rightarrow> bool" where
  "wakes_after cb t n s \<longleftrightarrow>
     (\<forall>k < n. \<exists>s'. ticks k cb s = returns s' \<and> thread_stat t s' = RT_THREAD_SUSPEND) \<and>
     (\<exists>s'. ticks n cb s = returns s' \<and> thread_stat t s' = RT_THREAD_READY \<and>
        th_error (thread_of s' t) = - RT_ETIMEOUT)"

lemma blocked_until_due:
  assumes "kernel_state T idle s H Q hs ss" and cb: "thread_timeouts T cb"
    and t: "t \<in> T" "t \<in> set hs" and d: "due s t = int m"
  shows "wakes_after cb t (max 1 m) s"
proof -
  note U = ticks_until_due [OF assms(1) cb t, unfolded d]
  have susp: "\<exists>s2. ticks k cb s = returns s2 \<and> thread_stat t s2 = RT_THREAD_SUSPEND" if k: "k < max 1 m" for k
  proof -
    have "int k < max 1 (int m)" using k by linarith
    then obtain s2 Q2 hs2 where "ticks k cb s = returns s2" "kernel_state T idle s2 H Q2 hs2 ss" "t \<in> set hs2"
      using U by blast
    then show ?thesis using kernel_okD(3) [OF kernel_stateD(1) t(1)] by (metis thread_timer_ok_def)
  qed
  obtain j where j: "max 1 m = Suc j" by (metis Suc_pred max_less_iff_conj zero_less_one less_max_iff_disj)
  then have "int j < max 1 (int m)" by linarith
  then obtain s2 Q2 hs2 where s2: "ticks j cb s = returns s2" "kernel_state T idle s2 H Q2 hs2 ss"
    "t \<in> set hs2" "due s2 t = int m - int j"
    using U by blast
  have "due s2 t \<le> 1" using s2(4) j by linarith
  note D2 = kernel_stateD [OF s2(2)]
  obtain s3 where s3: "rt_tick_increase cb s2 = returns s3"
    "\<And>t. t \<in> T \<Longrightarrow> t \<in> set hs2 \<Longrightarrow> due s2 t \<le> 1 \<Longrightarrow>
           thread_stat t s3 = RT_THREAD_READY \<and> th_error (thread_of s3 t) = - RT_ETIMEOUT"
    by (rule rt_tick_increase_ok [OF D2(1,2) cb D2(3)]) (rule that)
  have "ticks (Suc j) cb s = returns s3" using s2(1) s3(1) by simp
  then show ?thesis using susp s3(2) [OF t(1) s2(3) \<open>due s2 t \<le> 1\<close>] unfolding wakes_after_def j by blast
qed

lemma suspend_for_wakes:
  assumes "kernel_state T idle s H Q hs ss" and "thread_timeouts T cb"
    and "current_thread s = Some t" and "t \<noteq> idle" and "lock_nest s = 0" and "uint n < 2 ^ 31 - 1"
  shows "\<exists>s1. andthen (suspend_for t n s) (wait_here t w) = returns (Switched_Out, s1) \<and>
      wakes_after cb t (max 1 (unat n)) s1"
proof -
  note D = kernel_stateD [OF assms(1)]
  have t: "t \<in> T" "thread_stat t s = RT_THREAD_READY" using D(3) assms(3) by (auto simp: running_def)
  let ?Q = "without t Q" and ?hs = "insert_due (due s) (uint n) t hs"
  obtain s' where s': "suspend_for t n s = returns s'" "kernel_ok s' H T ?Q ?hs ss" "kernel_frame t s s'"
    "thread_stat t s' = RT_THREAD_SUSPEND" "\<And>x. due s' x = (if x = t then uint n else due s x)"
    by (rule suspend_for_ok [OF D(1) t assms(6)]) (rule that)
  note fr = kernel_frameD [OF s'(3)]
  have i: "thread_stat idle s' = RT_THREAD_READY" using fr(9) [of idle] assms(4) D(5) by simp
  have ne: "ready_order ?Q \<noteq> []" by (rule idle_live [OF s'(2) D(4) i])
  note R = first_ready [OF kernel_okD(1) [OF s'(2)] ne]
  let ?s = "settle ?Q s'"
  have "rt_schedule s' = returns ?s" using rt_schedule_ok [OF s'(2)] ne fr(1) assms(3) by (simp add: live_def)
  moreover have "hd (ready_order ?Q) \<noteq> t" using R(2) s'(4) by auto
  ultimately have blocks: "andthen (suspend_for t n s) (wait_here t w) = returns (Switched_Out, ?s)"
    using assms(3,5) s'(1) fr(2) by (simp add: wait_here_def)
  have due: "due ?s = due s'" by (simp add: fun_eq_iff due_def)
  have "on_time ?s ?hs" using D(2) s'(5) by (auto simp: on_time_def due)
  then have "kernel_state T idle ?s H ?Q ?hs ss"
    using kernel_ok_settle [OF s'(2)] D(4) i R fr(2) assms(5) by (simp add: kernel_state_def running_def)
  from blocked_until_due [OF this assms(2) t(1)] have "wakes_after cb t (max 1 (unat n)) ?s"
    using s'(5) [of t] due by (simp add: uint_nat [symmetric])
  with blocks show ?thesis by blast
qed

text \<open>
  C7: A thread that sleeps for \<open>n\<close> ticks is suspended at once, stays suspended through every earlier
  tick, and is made ready by the \<open>n\<close>-th tick, or by the first when \<open>n\<close> is 0, whatever other timers the
  ticks fire and across the wrap-around of the tick. Only ticks run in between, and none fails.
\<close>

theorem sleep_wakes_on_time:
  assumes "kernel_state T idle s H Q hs ss" and "thread_timeouts T cb"
    and "current_thread s = Some t" and "t \<noteq> idle" and "lock_nest s = 0" and "uint n < 2 ^ 31 - 1"
  shows "\<exists>s1. rt_thread_sleep n s = returns (Switched_Out, s1) \<and> wakes_after cb t (max 1 (unat n)) s1"
  using suspend_for_wakes [OF assms, of "sleep_woken t"] assms(3) by (simp add: rt_thread_sleep_def)

theorem sleep_wakes_on_time_witness:
  "\<exists>s1. rt_thread_sleep 3 booted = returns (Switched_Out, s1) \<and> wakes_after booted_timeouts 41 3 s1"
  using sleep_wakes_on_time [OF booted_state booted_timeouts_ok booted_ok(3), of 3] booted_ok(2) by simp

text \<open>
  \<open>rt_thread_delay_until\<close> is to wait until \<open>tick + inc_tick\<close>. When some ticks have passed since \<open>tick\<close> it
  waits for them once more: the thread wakes after \<open>inc_tick\<close> ticks plus the elapsed ones, instead of
  \<open>inc_tick\<close> less the elapsed ones.
\<close>

theorem delay_until_overshoots:
  assumes "kernel_state T idle s H Q hs ss" and "thread_timeouts T cb"
    and "current_thread s = Some t" and "t \<noteq> idle" and "lock_nest s = 0"
    and "rt_tick s - tick < inc_tick" and "uint inc_tick < 2 ^ 30"
  shows "\<exists>s1. rt_thread_delay_until tick inc_tick s = returns (Switched_Out, s1) \<and>
      wakes_after cb t (unat inc_tick + unat (rt_tick s - tick)) s1"
proof -
  let ?e = "rt_tick s - tick" and ?n = "rt_tick s - tick + inc_tick"
  have e: "uint ?e < uint inc_tick" using assms(6) by (simp add: word_less_def)
  have u: "uint ?n = uint ?e + uint inc_tick" using e assms(7) uint_plus_simple_iff [of ?e inc_tick]
    by (simp add: no_olen_add)
  then have n: "unat ?n = unat inc_tick + unat ?e" by (simp add: unat_eq_nat_uint nat_add_distrib del: nat_uint_eq)
  have "uint ?n < 2 ^ 31 - 1" using u e assms(7) by simp
  from suspend_for_wakes [OF assms(1-5) this, of "delay_until_woken t"]
  obtain s1 where s1: "andthen (suspend_for t ?n s) (wait_here t (delay_until_woken t)) = returns (Switched_Out, s1)"
    "wakes_after cb t (max 1 (unat ?n)) s1" by blast
  have "0 < unat inc_tick" using le_less_trans [OF uint_ge_0 e] uint_nat [of inc_tick] by linarith
  then have "max 1 (unat ?n) = unat inc_tick + unat ?e" by (simp add: n)
  then show ?thesis using s1 assms(3,6) by (simp add: rt_thread_delay_until_def)
qed

theorem delay_until_overshoots_witness:
  "\<exists>s1. rt_thread_delay_until (rt_tick booted - 3) 10 booted = returns (Switched_Out, s1) \<and>
     wakes_after booted_timeouts 41 13 s1"
  using delay_until_overshoots [OF booted_state booted_timeouts_ok booted_ok(3), of "rt_tick booted - 3" 10] booted_ok(2)
  by simp

subsection \<open>Critical sections\<close>

lemma enter_critical_times: "(rt_enter_critical ^^ n) s = s\<lparr>lock_nest := lock_nest s + of_nat n\<rparr>"
  by (induction n) (simp_all add: rt_enter_critical_def ac_simps)

lemma sint_u16:
  assumes "k < 65536"
  shows "sint (of_nat k :: u16) = (if k < 32768 then int k else int k - 65536)"
proof -
  have "sint (of_nat k :: u16) = (int k + 32768) mod 65536 - 32768"
    using assms by (simp add: sint_uint signed_take_bit_eq_take_bit_shift take_bit_eq_mod unsigned_of_nat)
  moreover have "(int k + 32768) mod 65536 = int k + 32768" if "k < 32768" using that by simp
  moreover have "(int k + 32768) mod 65536 = int k - 32768" if "\<not> k < 32768"
    using that assms mod_pos_pos_trivial [of "int k - 32768" 65536] mod_add_self2 [of "int k - 32768" 65536]
    by (simp add: add.commute)
  ultimately show ?thesis by auto
qed

text \<open>
  Critical sections nest: leaving one of up to 32768 restores the depth of the one around it and
  leaving the last one schedules. The counter is a signed 16-bit integer, so of more than 32768 nested
  sections the first to be left opens the lock altogether; the source states a maximum of 65535.
\<close>

theorem critical_sections_nest:
  assumes "lock_nest s = 0" and "current_thread s \<noteq> None" and "0 < n" and "n \<le> 65536"
  shows "rt_exit_critical ((rt_enter_critical ^^ n) s) =
    (if n = 1 \<or> 32768 < n then rt_schedule s else returns ((rt_enter_critical ^^ (n - 1)) s))"
proof -
  obtain k where k: "n = Suc k" using assms(3) by (cases n) simp_all
  have e: "rt_exit_critical (s\<lparr>lock_nest := of_nat k + 1\<rparr>) =
      (if sint (of_nat k :: u16) \<le> 0 then rt_schedule (s\<lparr>lock_nest := 0\<rparr>)
       else returns (s\<lparr>lock_nest := of_nat k\<rparr>))"
    using assms(2) by (auto simp: rt_exit_critical_def)
  have n: "(rt_enter_critical ^^ n) s = s\<lparr>lock_nest := of_nat k + 1\<rparr>"
    "(rt_enter_critical ^^ (n - 1)) s = s\<lparr>lock_nest := of_nat k\<rparr>"
    unfolding enter_critical_times using assms(1) by (simp_all add: k)
  have "s\<lparr>lock_nest := 0\<rparr> = s" using assms(1) by simp
  moreover have "sint (of_nat k :: u16) \<le> 0 \<longleftrightarrow> n = 1 \<or> 32768 < n"
    using assms(4) by (simp add: k sint_u16)
  ultimately show ?thesis unfolding n e by simp
qed

theorem critical_sections_nest_witness:
  "rt_exit_critical ((rt_enter_critical ^^ 40000) booted) = rt_schedule booted \<and>
   rt_exit_critical ((rt_enter_critical ^^ 2) booted) = returns (rt_enter_critical booted)"
  using critical_sections_nest [of booted 40000] critical_sections_nest [of booted 2] booted_ok(2,3) by simp

end
