(* ===== verification/Ipc.thy ===== *)
theory Ipc
  imports Sched
begin

text \<open>
  Semaphores and mutexes, \<open>src/ipc.c\<close>. An object is named by the address of its list
  \<open>suspend_thread\<close>, one of the heads above \<open>rt_thread_defunct\<close>. A blocking call has the part up to
  \<open>rt_schedule\<close> and the part that runs when the thread is running again, named \<open>..._woken\<close>. The
  object registry is not part of the state: whether an object is static is a field, and what the
  allocator returns is an argument.
\<close>

subsection \<open>State\<close>

record rt_semaphore =
  sem_flag :: u8
  sem_static :: bool
  sem_value :: u16

record rt_mutex =
  mutex_flag :: u8
  mutex_static :: bool
  mutex_value :: u16
  original_priority :: u8
  mutex_hold :: u8
  mutex_owner :: "nat option"

record ipc = kernel +
  sem_of :: "nat \<Rightarrow> rt_semaphore"
  mutex_of :: "nat \<Rightarrow> rt_mutex"

definition RT_IPC_FLAG_FIFO :: u8 where "RT_IPC_FLAG_FIFO = 0"
definition RT_IPC_FLAG_PRIO :: u8 where "RT_IPC_FLAG_PRIO = 1"
definition RT_IPC_CMD_RESET :: int where "RT_IPC_CMD_RESET = 1"

definition set_sem :: "nat \<Rightarrow> rt_semaphore \<Rightarrow> 'a ipc_scheme \<Rightarrow> 'a ipc_scheme" where
  "set_sem x v s = s\<lparr>sem_of := (sem_of s)(x := v)\<rparr>"

definition set_mutex :: "nat \<Rightarrow> rt_mutex \<Rightarrow> 'a ipc_scheme \<Rightarrow> 'a ipc_scheme" where
  "set_mutex x v s = s\<lparr>mutex_of := (mutex_of s)(x := v)\<rparr>"

subsection \<open>Waiting on a list\<close>

definition rt_ipc_object_init :: "nat \<Rightarrow> 'a kernel_scheme \<Rightarrow> 'a kernel_scheme" where
  "rt_ipc_object_init x s = upd_lists (rt_list_init x) s"

text \<open>
  The node in front of which a thread of priority \<open>p\<close> is inserted: the first waiting thread of lower
  priority, or the head.
\<close>

partial_function (option) prio_position :: "'a kernel_scheme \<Rightarrow> nat \<Rightarrow> u8 \<Rightarrow> nat \<Rightarrow> nat option" where
  "prio_position s list p n =
     (if n = list then Some list
      else if p < current_priority (thread_of s n) then Some n
      else prio_position s list p (next_link (tlists s) n))"

definition rt_ipc_list_suspend :: "nat \<Rightarrow> nat \<Rightarrow> u8 \<Rightarrow> 'a kernel_scheme \<Rightarrow> 'a kernel_scheme run" where
  "rt_ipc_list_suspend list t flag s =
     andthen (rt_thread_suspend t s)
       (\<lambda>(_, s).
         if flag = RT_IPC_FLAG_FIFO then returns (upd_lists (rt_list_insert_before list t) s)
         else if flag = RT_IPC_FLAG_PRIO then
           (case prio_position s list (current_priority (thread_of s t)) (next_link (tlists s) list) of
              None \<Rightarrow> None
            | Some n \<Rightarrow> returns (upd_lists (rt_list_insert_before n t) s))
         else returns s)"

definition rt_ipc_list_resume :: "nat \<Rightarrow> 'a kernel_scheme \<Rightarrow> 'a kernel_scheme run" where
  "rt_ipc_list_resume list s =
     andthen (rt_thread_resume (next_link (tlists s) list) s) (\<lambda>(_, s). returns s)"

partial_function (option) rt_ipc_list_resume_all :: "nat \<Rightarrow> 'a kernel_scheme \<Rightarrow> 'a kernel_scheme run" where
  "rt_ipc_list_resume_all list s =
     (if rt_list_isempty list (tlists s) then returns s
      else
        (let t = next_link (tlists s) list in
         case rt_thread_resume t (set_error (- RT_ERROR) t s) of
           None \<Rightarrow> None
         | Some (Inl e) \<Rightarrow> stops e
         | Some (Inr (_, s')) \<Rightarrow> rt_ipc_list_resume_all list s'))"

text \<open>Arming the timer of the thread that waits; a negative time waits forever.\<close>

definition arm_timer :: "nat \<Rightarrow> int \<Rightarrow> 'a kernel_scheme \<Rightarrow> 'a kernel_scheme run" where
  "arm_timer t time s =
     (if time > 0 then rt_timer_start t (snd (rt_timer_control t 0 (of_int time) s)) else returns s)"

subsection \<open>Semaphores\<close>

definition rt_sem_init :: "nat \<Rightarrow> u32 \<Rightarrow> u8 \<Rightarrow> 'a ipc_scheme \<Rightarrow> (int \<times> 'a ipc_scheme) run" where
  "rt_sem_init x value flag s =
     (if \<not> value < 0x10000 then stops (Assert_Hang ''value'')
      else returns (RT_EOK, set_sem x \<lparr>sem_flag = flag, sem_static = True, sem_value = ucast value\<rparr>
                              (rt_ipc_object_init x s)))"

definition rt_sem_create :: "nat option \<Rightarrow> u32 \<Rightarrow> u8 \<Rightarrow> 'a ipc_scheme \<Rightarrow> (nat option \<times> 'a ipc_scheme) run" where
  "rt_sem_create obj value flag s =
     andthen (debug_not_in_interrupt s)
       (\<lambda>s. if \<not> value < 0x10000 then stops (Assert_Hang ''value'')
            else (case obj of
                    None \<Rightarrow> returns (None, s)
                  | Some x \<Rightarrow> returns (Some x,
                      set_sem x \<lparr>sem_flag = flag, sem_static = False, sem_value = ucast value\<rparr>
                        (rt_ipc_object_init x s))))"

definition rt_sem_detach :: "nat \<Rightarrow> 'a ipc_scheme \<Rightarrow> (int \<times> 'a ipc_scheme) run" where
  "rt_sem_detach x s =
     (if \<not> sem_static (sem_of s x) then stops (Assert_Hang ''rt_object_is_systemobject'')
      else andthen (rt_ipc_list_resume_all x s) (\<lambda>s. returns (RT_EOK, s)))"

definition rt_sem_delete :: "nat \<Rightarrow> 'a ipc_scheme \<Rightarrow> (int \<times> 'a ipc_scheme) run" where
  "rt_sem_delete x s =
     andthen (debug_not_in_interrupt s)
       (\<lambda>s. if sem_static (sem_of s x) then stops (Assert_Hang ''rt_object_is_systemobject'')
            else andthen (rt_ipc_list_resume_all x s) (\<lambda>s. returns (RT_EOK, s)))"

text \<open>The part behind \<open>rt_schedule\<close>: the error of the thread is returned, which is \<open>RT_EOK\<close> when it was resumed.\<close>

definition sem_take_woken :: "nat \<Rightarrow> 'a kernel_scheme \<Rightarrow> int \<times> 'a kernel_scheme" where
  "sem_take_woken t s = (if th_error (thread_of s t) \<noteq> RT_EOK then th_error (thread_of s t) else RT_EOK, s)"

definition rt_sem_take :: "nat \<Rightarrow> int \<Rightarrow> 'a ipc_scheme \<Rightarrow> (int outcome \<times> 'a ipc_scheme) run" where
  "rt_sem_take x time s =
     (if sem_value (sem_of s x) > 0
      then returns (Back RT_EOK, set_sem x ((sem_of s x)\<lparr>sem_value := sem_value (sem_of s x) - 1\<rparr>) s)
      else if time = 0 then returns (Back (- RT_ETIMEOUT), s)
      else andthen (debug_in_thread_context s)
        (\<lambda>s. case rt_thread_self s of
               None \<Rightarrow> stops (Null_Deref ''thread'')
             | Some t \<Rightarrow>
                 andthen (rt_ipc_list_suspend x t (sem_flag (sem_of s x)) (set_error RT_EOK t s))
                   (\<lambda>s. andthen (arm_timer t time s) (wait_here t (sem_take_woken t)))))"

definition rt_sem_trytake :: "nat \<Rightarrow> 'a ipc_scheme \<Rightarrow> (int outcome \<times> 'a ipc_scheme) run" where
  "rt_sem_trytake x s = rt_sem_take x 0 s"

definition rt_sem_release :: "nat \<Rightarrow> 'a ipc_scheme \<Rightarrow> (int \<times> 'a ipc_scheme) run" where
  "rt_sem_release x s =
     (if \<not> rt_list_isempty x (tlists s)
      then andthen (rt_ipc_list_resume x s) (\<lambda>s. andthen (rt_schedule s) (\<lambda>s. returns (RT_EOK, s)))
      else returns (RT_EOK, set_sem x ((sem_of s x)\<lparr>sem_value := sem_value (sem_of s x) + 1\<rparr>) s))"

definition rt_sem_control :: "nat \<Rightarrow> int \<Rightarrow> u32 \<Rightarrow> 'a ipc_scheme \<Rightarrow> (int \<times> 'a ipc_scheme) run" where
  "rt_sem_control x cmd arg s =
     (if cmd = RT_IPC_CMD_RESET
      then andthen (rt_ipc_list_resume_all x s)
        (\<lambda>s. andthen (rt_schedule (set_sem x ((sem_of s x)\<lparr>sem_value := ucast arg\<rparr>) s))
               (\<lambda>s. returns (RT_EOK, s)))
      else returns (- RT_ERROR, s))"

subsection \<open>Mutexes\<close>

definition new_mutex :: "bool \<Rightarrow> u8 \<Rightarrow> rt_mutex" where
  "new_mutex static flag =
     \<lparr>mutex_flag = flag, mutex_static = static, mutex_value = 1, original_priority = 0xFF,
      mutex_hold = 0, mutex_owner = None\<rparr>"

definition rt_mutex_init :: "nat \<Rightarrow> u8 \<Rightarrow> 'a ipc_scheme \<Rightarrow> (int \<times> 'a ipc_scheme) run" where
  "rt_mutex_init x flag s = returns (RT_EOK, set_mutex x (new_mutex True flag) (rt_ipc_object_init x s))"

definition rt_mutex_create :: "nat option \<Rightarrow> u8 \<Rightarrow> 'a ipc_scheme \<Rightarrow> (nat option \<times> 'a ipc_scheme) run" where
  "rt_mutex_create obj flag s =
     andthen (debug_not_in_interrupt s)
       (\<lambda>s. case obj of
              None \<Rightarrow> returns (None, s)
            | Some x \<Rightarrow> returns (Some x, set_mutex x (new_mutex False flag) (rt_ipc_object_init x s)))"

definition rt_mutex_detach :: "nat \<Rightarrow> 'a ipc_scheme \<Rightarrow> (int \<times> 'a ipc_scheme) run" where
  "rt_mutex_detach x s =
     (if \<not> mutex_static (mutex_of s x) then stops (Assert_Hang ''rt_object_is_systemobject'')
      else andthen (rt_ipc_list_resume_all x s) (\<lambda>s. returns (RT_EOK, s)))"

definition rt_mutex_delete :: "nat \<Rightarrow> 'a ipc_scheme \<Rightarrow> (int \<times> 'a ipc_scheme) run" where
  "rt_mutex_delete x s =
     andthen (debug_not_in_interrupt s)
       (\<lambda>s. if mutex_static (mutex_of s x) then stops (Assert_Hang ''rt_object_is_systemobject'')
            else andthen (rt_ipc_list_resume_all x s) (\<lambda>s. returns (RT_EOK, s)))"

text \<open>Waiting for a mutex: the owner is lifted to the priority of the thread, which then waits.\<close>

definition mutex_block :: "nat \<Rightarrow> nat \<Rightarrow> int \<Rightarrow> 'a ipc_scheme \<Rightarrow> 'a ipc_scheme run" where
  "mutex_block x t time s =
     (case mutex_owner (mutex_of s x) of
        None \<Rightarrow> stops (Null_Deref ''mutex->owner'')
      | Some ow \<Rightarrow>
          andthen (if current_priority (thread_of s t) < current_priority (thread_of s ow)
                   then rt_thread_control ow 2 (current_priority (thread_of s t)) s else returns (RT_EOK, s))
            (\<lambda>(_, s). andthen (rt_ipc_list_suspend x t (mutex_flag (mutex_of s x)) s) (arm_timer t time)))"

text \<open>
  From the label \<open>__again\<close> on. The thread comes back to the label when it is woken with the error
  \<open>-RT_EINTR\<close>; if it is not switched out, the part behind \<open>rt_schedule\<close> runs at once.
\<close>

partial_function (option) mutex_again :: "nat \<Rightarrow> nat \<Rightarrow> int \<Rightarrow> 'a ipc_scheme \<Rightarrow> (int outcome \<times> 'a ipc_scheme) run" where
  "mutex_again x t time s =
     (if mutex_value (mutex_of s x) > 0
      then returns (Back RT_EOK, set_mutex x
             ((mutex_of s x)\<lparr>mutex_value := mutex_value (mutex_of s x) - 1, mutex_owner := Some t,
                original_priority := current_priority (thread_of s t),
                mutex_hold := mutex_hold (mutex_of s x) + 1\<rparr>) s)
      else if time = 0 then returns (Back (- RT_ETIMEOUT), set_error (- RT_ETIMEOUT) t s)
      else
        (case andthen (mutex_block x t time s) rt_schedule of
           None \<Rightarrow> None
         | Some (Inl e) \<Rightarrow> stops e
         | Some (Inr s') \<Rightarrow>
             if current_thread s' \<noteq> Some t then returns (Switched_Out, s')
             else if th_error (thread_of s' t) = RT_EOK then returns (Back RT_EOK, s')
             else if th_error (thread_of s' t) = - RT_EINTR then mutex_again x t time s'
             else returns (Back (th_error (thread_of s' t)), s')))"

definition mutex_take_woken :: "nat \<Rightarrow> nat \<Rightarrow> int \<Rightarrow> 'a ipc_scheme \<Rightarrow> (int outcome \<times> 'a ipc_scheme) run" where
  "mutex_take_woken x t time s =
     (if th_error (thread_of s t) = RT_EOK then returns (Back RT_EOK, s)
      else if th_error (thread_of s t) = - RT_EINTR then mutex_again x t time s
      else returns (Back (th_error (thread_of s t)), s))"

definition rt_mutex_take :: "nat \<Rightarrow> int \<Rightarrow> 'a ipc_scheme \<Rightarrow> (int outcome \<times> 'a ipc_scheme) run" where
  "rt_mutex_take x time s =
     andthen (debug_in_thread_context s)
       (\<lambda>s. case rt_thread_self s of
              None \<Rightarrow> stops (Null_Deref ''thread'')
            | Some t \<Rightarrow>
                (let s = set_error RT_EOK t s in
                 if mutex_owner (mutex_of s x) = Some t
                 then returns (Back RT_EOK,
                        set_mutex x ((mutex_of s x)\<lparr>mutex_hold := mutex_hold (mutex_of s x) + 1\<rparr>) s)
                 else mutex_again x t time s))"

text \<open>The end of the last hold: the first waiting thread becomes the owner, or nobody.\<close>

definition hand_over :: "nat \<Rightarrow> 'a ipc_scheme \<Rightarrow> (bool \<times> 'a ipc_scheme) run" where
  "hand_over x s =
     (if \<not> rt_list_isempty x (tlists s) then
        (let w = next_link (tlists s) x;
             s = set_mutex x ((mutex_of s x)\<lparr>mutex_owner := Some w,
                   original_priority := current_priority (thread_of s w),
                   mutex_hold := mutex_hold (mutex_of s x) + 1\<rparr>) s in
         andthen (rt_ipc_list_resume x s) (\<lambda>s. returns (True, s)))
      else returns (False, set_mutex x
             ((mutex_of s x)\<lparr>mutex_value := mutex_value (mutex_of s x) + 1, mutex_owner := None,
                original_priority := 0xff\<rparr>) s))"

definition rt_mutex_release :: "nat \<Rightarrow> 'a ipc_scheme \<Rightarrow> (int \<times> 'a ipc_scheme) run" where
  "rt_mutex_release x s =
     andthen (debug_in_thread_context s)
       (\<lambda>s. case rt_thread_self s of
              None \<Rightarrow> stops (Null_Deref ''thread'')
            | Some t \<Rightarrow>
                if mutex_owner (mutex_of s x) \<noteq> Some t then returns (- RT_ERROR, set_error (- RT_ERROR) t s)
                else
                  (let s = set_mutex x ((mutex_of s x)\<lparr>mutex_hold := mutex_hold (mutex_of s x) - 1\<rparr>) s in
                   if mutex_hold (mutex_of s x) \<noteq> 0 then returns (RT_EOK, s)
                   else
                     andthen (if original_priority (mutex_of s x) \<noteq> current_priority (thread_of s t)
                              then rt_thread_control t 2 (original_priority (mutex_of s x)) s
                              else returns (RT_EOK, s))
                       (\<lambda>(_, s). andthen (hand_over x s)
                         (\<lambda>(need_schedule, s).
                           if need_schedule then andthen (rt_schedule s) (\<lambda>s. returns (RT_EOK, s))
                           else returns (RT_EOK, s)))))"

definition rt_mutex_control :: "nat \<Rightarrow> int \<Rightarrow> 'a ipc_scheme \<Rightarrow> (int \<times> 'a ipc_scheme) run" where
  "rt_mutex_control x cmd s = returns (- RT_ERROR, s)"

end
