(* ===== verification/IpcLaws.thy ===== *)
theory IpcLaws
  imports Ipc SchedCalls
begin

text \<open>
  Waiting lists: where a thread is put, and what suspending on a list and resuming from it do to the
  invariant of the kernel. The place in the list is the contract of a locale, interpreted on the two
  policies of the code.
\<close>

subsection \<open>The place of a waiting thread\<close>

text \<open>
  A policy puts the new thread somewhere and leaves the order of the others alone. The list stays
  sorted by rank, and a thread is put behind the others of its rank.
\<close>

locale wait_policy =
  fixes put :: "nat \<Rightarrow> nat list \<Rightarrow> nat list" and rank :: "nat \<Rightarrow> nat"
  assumes put_split: "\<exists>xs ys. l = xs @ ys \<and> put t l = xs @ t # ys"
    and put_sorted: "sorted (map rank l) \<Longrightarrow> sorted (map rank (put t l))"
    and put_last: "\<forall>x \<in> set l. rank x \<le> rank t \<Longrightarrow> put t l = l @ [t]"
begin

lemma put_set [simp]: "set (put t l) = insert t (set l)"
  using put_split [of l t] by auto

lemma put_subseq: "subseq l (put t l)"
  using put_split [of l t] list_emb_append_mono subseq_Cons' by (metis subseq_order.order_refl subseq_rev_drop_many
      append_Cons append_Nil subseq_drop_many list_emb_Cons)

lemma put_distinct: "distinct l \<Longrightarrow> t \<notin> set l \<Longrightarrow> distinct (put t l)"
  using put_split [of l t] by auto

text \<open>Threads that arrive one after the other.\<close>

definition arrivals :: "nat list \<Rightarrow> nat list" where
  "arrivals ts = fold put ts []"

lemma arrivals_sorted: "sorted (map rank (arrivals ts))"
  unfolding arrivals_def by (induction ts rule: rev_induct) (simp_all add: put_sorted)

lemma arrivals_set: "set (arrivals ts) = set ts"
  unfolding arrivals_def by (induction ts rule: rev_induct) simp_all

lemma arrivals_first_come: "(\<And>x y. x \<in> set ts \<Longrightarrow> y \<in> set ts \<Longrightarrow> rank x = rank y) \<Longrightarrow> arrivals ts = ts"
proof (induction ts rule: rev_induct)
  case (snoc t ts)
  then have "arrivals ts = ts" by simp
  moreover have "rank x = rank t" if "x \<in> set ts" for x using snoc.prems [of x t] that by simp
  then have "put t ts = ts @ [t]" by (intro put_last) simp
  ultimately show ?case by (simp add: arrivals_def)
qed (simp add: arrivals_def)

end

definition put_fifo :: "nat \<Rightarrow> nat list \<Rightarrow> nat list" where
  "put_fifo t l = l @ [t]"

definition put_prio :: "(nat \<Rightarrow> nat) \<Rightarrow> nat \<Rightarrow> nat list \<Rightarrow> nat list" where
  "put_prio r t l = takeWhile (\<lambda>x. r x \<le> r t) l @ t # dropWhile (\<lambda>x. r x \<le> r t) l"

interpretation fifo: wait_policy put_fifo "\<lambda>_. 0"
proof
  show "\<exists>xs ys. l = xs @ ys \<and> put_fifo t l = xs @ t # ys" for l t
    by (intro exI [of _ l] exI [of _ "[]"]) (simp add: put_fifo_def)
qed (auto simp: put_fifo_def sorted_append)

interpretation prio: wait_policy "put_prio r" r for r
proof
  show "\<exists>xs ys. l = xs @ ys \<and> put_prio r t l = xs @ t # ys" for l t
    unfolding put_prio_def by (metis takeWhile_dropWhile_id)
  show "\<forall>x \<in> set l. r x \<le> r t \<Longrightarrow> put_prio r t l = l @ [t]" for l t
    by (simp add: put_prio_def takeWhile_eq_all_conv [THEN iffD2] dropWhile_eq_Nil_conv [THEN iffD2])
  fix l t assume s: "sorted (map r l)"
  let ?a = "takeWhile (\<lambda>x. r x \<le> r t) l" and ?b = "dropWhile (\<lambda>x. r x \<le> r t) l"
  have "sorted (map r (?a @ ?b))" using s by (simp only: takeWhile_dropWhile_id)
  then have ab: "sorted (map r ?a)" "sorted (map r ?b)" unfolding map_append sorted_append by blast+
  have "\<forall>x \<in> set ?a. r x \<le> r t" by (auto dest: set_takeWhileD)
  moreover have "r t < r x" if "x \<in> set ?b" for x
  proof (cases ?b)
    case (Cons y ys)
    then have "\<not> r y \<le> r t" using hd_dropWhile [of "\<lambda>x. r x \<le> r t" l] by simp
    moreover have "r y \<le> r x" using ab(2) that Cons by auto
    ultimately show ?thesis by simp
  next
    case Nil
    with that have "x \<in> set []" by (simp only:)
    then show ?thesis by simp
  qed
  ultimately show "sorted (map r (put_prio r t l))"
    using ab by (fastforce simp: put_prio_def sorted_append)
qed

text \<open>The two policies by the flag of the object.\<close>

definition wait_place :: "u8 \<Rightarrow> (nat \<Rightarrow> nat) \<Rightarrow> nat \<Rightarrow> nat list \<Rightarrow> nat list" where
  "wait_place flag r t l = (if flag = RT_IPC_FLAG_FIFO then put_fifo t l else put_prio r t l)"

definition wait_flag :: "u8 \<Rightarrow> bool" where
  "wait_flag flag \<longleftrightarrow> flag = RT_IPC_FLAG_FIFO \<or> flag = RT_IPC_FLAG_PRIO"

lemma wait_place_simps [simp]:
  "set (wait_place flag r t l) = insert t (set l)" "wait_place flag r t l \<noteq> []"
  by (simp_all add: wait_place_def fifo.put_set) (simp add: put_fifo_def put_prio_def)

subsection \<open>Joining a waiting list\<close>

lemma current_priority_le: "current_priority (thread_of s a) < current_priority (thread_of s b) \<longleftrightarrow> priority_of a s < priority_of b s"
  by (simp add: priority_of_def word_less_nat_alt)

text \<open>The scan finds the first waiting thread of lower priority.\<close>

lemma prio_position_ok:
  assumes "dlist (tlists s) x l" and "l = xs @ ys"
  shows "prio_position s x (current_priority (thread_of s t)) (hd (ys @ [x])) =
    Some (hd (dropWhile (\<lambda>n. priority_of n s \<le> priority_of t s) ys @ [x]))"
  using assms(2)
proof (induction ys arbitrary: xs)
  case Nil
  then show ?case by (subst prio_position.simps) simp
next
  case (Cons y ys)
  have y: "y \<noteq> x" using dlistD [OF assms(1)] Cons.prems by auto
  have n: "next_link (tlists s) y = hd (ys @ [x])" using dlist_next(1) [of "tlists s" x xs y ys] assms(1) Cons.prems by simp
  show ?case
  proof (cases "priority_of y s \<le> priority_of t s")
    case True
    then have "\<not> current_priority (thread_of s t) < current_priority (thread_of s y)" by (simp add: current_priority_le)
    then have "prio_position s x (current_priority (thread_of s t)) y =
        prio_position s x (current_priority (thread_of s t)) (hd (ys @ [x]))"
      using y n by (subst prio_position.simps) simp
    then show ?thesis using Cons.IH [of "xs @ [y]"] Cons.prems True by simp
  next
    case False
    then have "current_priority (thread_of s t) < current_priority (thread_of s y)" by (simp add: current_priority_le)
    then show ?thesis using y False by (subst prio_position.simps) simp
  qed
qed

text \<open>A suspended thread that is in no list joins one.\<close>

lemma join_wait_ok:
  assumes ok: "kernel_ok s H T Q hs ss" and t: "t \<in> T" "thread_stat t s = RT_THREAD_SUSPEND"
    and new: "\<And>h. h \<in> H \<Longrightarrow> t \<notin> set (Q h)" and x: "x \<in> H" "rt_thread_defunct < x"
    and Q: "Q x = xs @ ys" and b: "b = hd (ys @ [x])"
  shows "kernel_ok (upd_lists (rt_list_insert_before b t) s) H T (Q(x := xs @ t # ys)) hs ss"
proof -
  let ?s = "upd_lists (rt_list_insert_before b t) s" and ?Q = "Q(x := xs @ t # ys)"
  note D = sched_okD [OF kernel_okD(1) [OF ok]]
  note L = lists_okD [OF D(1)]
  have big: "\<not> x < PRIORITY_MAX" "x \<noteq> rt_thread_defunct" "PRIORITY_MAX \<le> x" using x(2) by (simp_all add: rt_thread_defunct_def)
  have F: "family (tlists ?s) H ?Q" using family_insert_before [OF L(1) x(1) D(2) [OF t(1)] new Q b] by simp
  have sub: "{..rt_thread_defunct} \<subseteq> H" using D(1) by (simp add: lists_ok_def)
  have low: "?Q p = Q p" if "p < PRIORITY_MAX" for p using that big by auto
  have "lists_ok ?s H ?Q" using F sub L(6) low by (simp add: lists_ok_def)
  moreover have mem: "y \<in> set (?Q h) \<longleftrightarrow> y \<in> set (Q h) \<or> y = t \<and> h = x" for y h by (auto simp: Q)
  moreover have "thread_ok ?s H ?Q y" if y: "y \<in> T" for y
  proof (cases "y = t")
    case True
    note K = thread_okD [OF D(4) [OF t(1)]]
    have "mask_ok t s" using K(5) t(2) by simp
    then have m: "mask_ok t ?s" by (simp add: mask_ok_def)
    have n: "t \<in> set (?Q h) \<longleftrightarrow> h = x" if "h \<in> H" for h using new [OF that] mem by auto
    have np: "t \<notin> set (?Q p)" if "p < PRIORITY_MAX" for p using n [OF L(2) [OF that]] that big(1) by blast
    show ?thesis
      unfolding thread_ok_def True using K(1,2) m n np t(2) big by (auto simp del: fun_upd_apply)
  next
    case False
    then show ?thesis using mem by (intro thread_ok_cong [OF D(4) [OF y] _ _ sub]) simp_all
  qed
  ultimately have "sched_ok ?s H T ?Q" using D(2,3) t(1) unfolding sched_ok_def by blast
  then show ?thesis
    by (rule kernel_ok_lists [OF ok, rotated]) (use kernel_okD(3) [OF ok] in \<open>simp_all add: thread_timer_ok_def\<close>)
qed

definition joined :: "u8 \<Rightarrow> (nat \<Rightarrow> nat) \<Rightarrow> nat \<Rightarrow> nat \<Rightarrow> (nat \<Rightarrow> nat list) \<Rightarrow> nat \<Rightarrow> nat list" where
  "joined flag r x t Q = (without t Q)(x := wait_place flag r t (Q x))"

lemma rt_ipc_list_suspend_ok:
  assumes ok: "kernel_ok s H T Q hs ss" and t: "t \<in> T" and st: "thread_stat t s = RT_THREAD_READY"
    and x: "x \<in> H" "rt_thread_defunct < x" and f: "wait_flag flag"
  obtains s' where "rt_ipc_list_suspend x t flag s = returns s'"
    and "kernel_ok s' H T (joined flag (\<lambda>y. priority_of y s) x t Q) hs ss" and "kernel_frame t s s'"
    and "thread_stat t s' = RT_THREAD_SUSPEND" and "th_error (thread_of s' t) = th_error (thread_of s t)"
    and "timers.truncate s' = timers.truncate s"
proof -
  obtain s1 where s1: "rt_thread_suspend t s = returns (RT_EOK, s1)" "kernel_ok s1 H T (without t Q) hs ss"
    "kernel_frame t s s1" "thread_stat t s1 = RT_THREAD_SUSPEND" "th_error (thread_of s1 t) = th_error (thread_of s t)"
    "timers.truncate s1 = timers.truncate s"
    using rt_thread_suspend_ok [OF ok t st] by metis
  have pr: "(\<lambda>y. priority_of y s1) = (\<lambda>y. priority_of y s)" using kernel_frameD(8) [OF s1(3)] by blast
  note K = sched_okD [OF kernel_okD(1) [OF ok]]
  have "t \<notin> set (Q x)"
    using thread_okD(4) [OF K(4) [OF t] x(1)] st x(2) by (auto simp: rt_thread_defunct_def split: if_splits)
  then have Qx: "without t Q x = Q x" by (rule without_fresh)
  have new: "t \<notin> set (without t Q h)" if "h \<in> H" for h using family_removed [OF lists_okD(1) [OF K(1)] that] .
  note D = familyD(1) [OF lists_okD(1) [OF sched_okD(1) [OF kernel_okD(1) [OF s1(2)]]] x(1), unfolded Qx]
  let ?l = "Q x" and ?w = "\<lambda>n. priority_of n s1 \<le> priority_of t s1"
  obtain xs ys where sp: "?l = xs @ ys" "wait_place flag (\<lambda>y. priority_of y s1) t ?l = xs @ t # ys"
    "rt_ipc_list_suspend x t flag s = returns (upd_lists (rt_list_insert_before (hd (ys @ [x])) t) s1)"
  proof (cases "flag = RT_IPC_FLAG_FIFO")
    case True
    then show ?thesis
      using that [of ?l "[]"] s1(1) by (simp add: rt_ipc_list_suspend_def wait_place_def put_fifo_def)
  next
    case False
    then have fl: "flag = RT_IPC_FLAG_PRIO" "flag \<noteq> RT_IPC_FLAG_FIFO" using f by (simp_all add: wait_flag_def)
    have "next_link (tlists s1) x = hd (?l @ [x])" using dlist_ends(1) [OF D] .
    then have "prio_position s1 x (current_priority (thread_of s1 t)) (next_link (tlists s1) x) =
        Some (hd (dropWhile ?w ?l @ [x]))"
      using prio_position_ok [OF D, of "[]" ?l] by simp
    then show ?thesis
      using that [of "takeWhile ?w ?l" "dropWhile ?w ?l"] s1(1) fl
      by (simp add: rt_ipc_list_suspend_def wait_place_def put_prio_def)
  qed
  let ?s = "upd_lists (rt_list_insert_before (hd (ys @ [x])) t) s1"
  have "kernel_ok ?s H T ((without t Q)(x := xs @ t # ys)) hs ss"
    using join_wait_ok [OF s1(2) t s1(4) new x _ refl, of xs ys] Qx sp(1) by simp
  then have "kernel_ok ?s H T (joined flag (\<lambda>y. priority_of y s) x t Q) hs ss"
    unfolding joined_def using sp(2) pr by simp
  moreover have "kernel_frame t s ?s" using s1(3) by (simp add: kernel_frame_def)
  ultimately show ?thesis using that sp(3) s1(4-6) by simp
qed

subsection \<open>Resuming from a waiting list\<close>

lemma waiting_thread:
  assumes "kernel_ok s H T Q hs ss" and "x \<in> H" "rt_thread_defunct < x" and "t \<in> set (Q x)"
  shows "t \<in> T" and "thread_stat t s = RT_THREAD_SUSPEND"
proof -
  note D = sched_okD [OF kernel_okD(1) [OF assms(1)]]
  show t: "t \<in> T" using D(3) assms(2,4) .
  show "thread_stat t s = RT_THREAD_SUSPEND"
    using thread_okD(4) [OF D(4) [OF t] assms(2) _ assms(4)] assms(3) by (simp add: rt_thread_defunct_def)
qed

lemma made_ready_other:
  assumes "sched_ok s H T Q" and "t \<in> T" and "h \<in> H" "rt_thread_defunct < h"
  shows "made_ready s t Q h = remove1 t (Q h)"
  using thread_okD(1) [OF sched_okD(4) [OF assms(1,2)]] assms(4)
  by (simp add: made_ready_def without_def rt_thread_defunct_def)

lemma rt_ipc_list_resume_ok:
  assumes ok: "kernel_ok s H T Q hs ss" and x: "x \<in> H" "rt_thread_defunct < x" and ne: "Q x = t # ts"
  obtains s' where "rt_ipc_list_resume x s = returns s'" and "kernel_ok s' H T (made_ready s t Q) (remove1 t hs) ss"
    and "kernel_frame t s s'" and "thread_stat t s' = RT_THREAD_READY"
    and "th_error (thread_of s' t) = th_error (thread_of s t)" and "due s' = due s"
proof -
  have t: "t \<in> T" "thread_stat t s = RT_THREAD_SUSPEND" using waiting_thread [OF ok x] ne by simp_all
  have "next_link (tlists s) x = t"
    using family_first [OF lists_okD(1) [OF sched_okD(1) [OF kernel_okD(1) [OF ok]]] x(1)] ne by simp
  moreover obtain s' where "rt_thread_resume t s = returns (RT_EOK, s')"
    "kernel_ok s' H T (made_ready s t Q) (remove1 t hs) ss" "kernel_frame t s s'" "thread_stat t s' = RT_THREAD_READY"
    "th_error (thread_of s' t) = th_error (thread_of s t)" "due s' = due s"
    by (rule rt_thread_resume_ok [OF ok t])
  ultimately show ?thesis using that [of s'] by (simp add: rt_ipc_list_resume_def)
qed

lemma set_error_ok:
  assumes ok: "kernel_ok s H T Q hs ss"
  shows "kernel_ok (set_error e t s) H T Q hs ss"
proof -
  have "sched_ok (set_error e t s) H T Q" by (rule sched_ok_view [OF kernel_okD(1) [OF ok]]) simp_all
  then show ?thesis
    by (rule kernel_ok_lists [OF ok, rotated]) (use kernel_okD(3) [OF ok] in \<open>simp_all add: thread_timer_ok_def\<close>)
qed

lemma due_set_error [simp]: "due (set_error e t s) = due s"
  by (simp add: fun_eq_iff due_def)

text \<open>Everything but the threads in \<open>ts\<close>, their lists and the current thread stays.\<close>

definition others_kept :: "nat set \<Rightarrow> 'a kernel_scheme \<Rightarrow> 'a kernel_scheme \<Rightarrow> bool" where
  "others_kept A s s' \<longleftrightarrow>
     current_thread s' = current_thread s \<and> lock_nest s' = lock_nest s \<and> interrupt_nest s' = interrupt_nest s \<and>
     kernel.more s' = kernel.more s \<and> rt_tick s' = rt_tick s \<and> due s' = due s \<and>
     (\<forall>t. t \<notin> A \<longrightarrow> thread_of s' t = thread_of s t) \<and> (\<forall>t. priority_of t s' = priority_of t s)"

lemma rt_ipc_list_resume_all_ok:
  assumes "kernel_ok s H T Q hs ss" and x: "x \<in> H" "rt_thread_defunct < x"
  shows "\<exists>s' Q' hs'. rt_ipc_list_resume_all x s = returns s' \<and> kernel_ok s' H T Q' hs' ss \<and>
    Q' x = [] \<and> (\<forall>h \<in> H. rt_thread_defunct < h \<longrightarrow> h \<noteq> x \<longrightarrow> Q' h = Q h) \<and> set hs' \<subseteq> set hs \<and>
    others_kept (set (Q x)) s s' \<and>
    (\<forall>t \<in> set (Q x). thread_stat t s' = RT_THREAD_READY \<and> th_error (thread_of s' t) = - RT_ERROR)"
  using assms(1)
proof (induction "Q x" arbitrary: s Q hs)
  case Nil
  then have "rt_list_isempty x (tlists s)"
    using family_isempty [OF lists_okD(1) [OF sched_okD(1) [OF kernel_okD(1) [OF Nil.prems]]] x(1)] by simp
  then have "rt_ipc_list_resume_all x s = returns s" by (subst rt_ipc_list_resume_all.simps) simp
  then show ?case using Nil by (intro exI [of _ s] exI [of _ Q] exI [of _ hs]) (simp add: others_kept_def)
next
  case (Cons t ts)
  note F = lists_okD(1) [OF sched_okD(1) [OF kernel_okD(1) [OF Cons.prems]]]
  have t: "t \<in> T" "thread_stat t s = RT_THREAD_SUSPEND" using waiting_thread [OF Cons.prems x, of t] Cons.hyps(2) by (metis list.set_intros(1))+
  have ne: "Q x \<noteq> []" "hd (Q x) = t" using Cons.hyps(2) by (metis list.distinct(1), metis list.sel(1))
  have nt: "\<not> rt_list_isempty x (tlists s)" "next_link (tlists s) x = t"
    using family_isempty [OF F x(1)] family_first [OF F x(1)] ne by simp_all
  let ?e = "set_error (- RT_ERROR) t s"
  have "thread_stat t ?e = RT_THREAD_SUSPEND" using t(2) by simp
  from rt_thread_resume_ok [OF set_error_ok [OF Cons.prems] t(1) this] obtain s1 where
    s1: "rt_thread_resume t ?e = returns (RT_EOK, s1)" "kernel_ok s1 H T (made_ready ?e t Q) (remove1 t hs) ss"
      "kernel_frame t ?e s1" "thread_stat t s1 = RT_THREAD_READY" "th_error (thread_of s1 t) = th_error (thread_of ?e t)"
      "due s1 = due ?e" by metis
  note fr = kernel_frameD [OF s1(3)]
  let ?Q = "made_ready ?e t Q"
  have oth: "?Q h = remove1 t (Q h)" if "h \<in> H" "rt_thread_defunct < h" for h
    using made_ready_other [OF kernel_okD(1) [OF set_error_ok [OF Cons.prems]] t(1) that] .
  have Qx: "ts = ?Q x" using oth [OF x] Cons.hyps(2) [symmetric] by simp
  have same: "?Q h = Q h" if "h \<in> H" "rt_thread_defunct < h" "h \<noteq> x" for h
  proof -
    have "t \<notin> set (Q h)" using familyD(3) [OF F that(1) x(1)] that(3) Cons.hyps(2) by (metis list.set_intros(1))
    then show ?thesis using oth [OF that(1,2)] by (simp add: remove1_idem)
  qed
  obtain s' Q' hs' where IH: "rt_ipc_list_resume_all x s1 = returns s'" "kernel_ok s' H T Q' hs' ss" "Q' x = []"
    "\<forall>h \<in> H. rt_thread_defunct < h \<longrightarrow> h \<noteq> x \<longrightarrow> Q' h = ?Q h" "set hs' \<subseteq> set (remove1 t hs)"
    "others_kept (set (?Q x)) s1 s'"
    "\<forall>t \<in> set (?Q x). thread_stat t s' = RT_THREAD_READY \<and> th_error (thread_of s' t) = - RT_ERROR"
    using Cons.hyps(1) [OF Qx s1(2)] by blast
  have "rt_ipc_list_resume_all x s = returns s'"
    unfolding rt_ipc_list_resume_all.simps [of x s] Let_def nt(2) using nt(1) s1(1) IH(1) by simp
  moreover have "set hs' \<subseteq> set hs" by (rule subset_trans [OF IH(5) set_remove1_subset])
  moreover have tn: "t \<notin> set (?Q x)"
    using familyD(5) [OF F x(1)] Cons.hyps(2) Qx by (metis distinct.simps(2))
  moreover have sx: "set (Q x) = insert t (set (?Q x))" using Cons.hyps(2) Qx by (metis list.simps(15))
  moreover have "others_kept (set (Q x)) s s'"
    using IH(6) fr(1-3,5-8) s1(6) unfolding others_kept_def sx by simp
  moreover have "thread_of s' t = thread_of s1 t" using IH(6) tn by (simp add: others_kept_def)
  then have "thread_stat t s' = RT_THREAD_READY \<and> th_error (thread_of s' t) = - RT_ERROR"
    using s1(4,5) by (simp add: thread_stat_def)
  moreover have "\<forall>h \<in> H. rt_thread_defunct < h \<longrightarrow> h \<noteq> x \<longrightarrow> Q' h = Q h" using IH(4) same by simp
  moreover have "\<forall>t \<in> set (Q x). thread_stat t s' = RT_THREAD_READY \<and> th_error (thread_of s' t) = - RT_ERROR"
    unfolding sx using IH(7) calculation(6) by blast
  ultimately show ?case using IH(2,3) by blast
qed

subsection \<open>Arming and blocking\<close>

lemma arm_timer_ok:
  assumes ok: "kernel_ok s H T Q hs ss" and t: "t \<in> T" "t \<notin> set hs" and st: "thread_stat t s = RT_THREAD_SUSPEND"
    and short: "time < 2 ^ 31 - 1"
  obtains s' where "arm_timer t time s = returns s'"
    and "kernel_ok s' H T Q (if time > 0 then insert_due (due s) time t hs else hs) ss"
    and "kernel_frame t s s'" and "thread_of s' = thread_of s"
    and "\<And>x. due s' x = (if x = t \<and> time > 0 then time else due s x)"
proof (cases "time > 0")
  case False
  then show ?thesis using that [of s] ok by (simp add: arm_timer_def kernel_frame_def)
next
  case True
  let ?s = "snd (rt_timer_control t 0 (of_int time) s)"
  have p: "period ?s t = time"
    using True short by (simp add: set_time period_def uint_word_of_int)
  have short1: "period ?s t < 2 ^ 31 - 1" using p short by simp
  have ok1: "kernel_ok ?s H T Q hs ss" by (rule kernel_ok_set_time [OF ok t(2)])
  have st1: "thread_stat t ?s = RT_THREAD_SUSPEND" using st by (simp add: thread_stat_def)
  have d: "due ?s = due s" by (simp add: fun_eq_iff due_def set_time)
  obtain s' where s': "rt_timer_start t ?s = returns s'"
    "kernel_ok s' H T Q (insert_due (due ?s) (period ?s t) t hs) ss"
    "kernel_frame t ?s s'" "thread_of s' = thread_of ?s" "\<And>x. due s' x = (if x = t then period ?s t else due ?s x)"
    by (rule start_timer_ok [OF ok1 t st1 short1]) (rule that)
  have "kernel_frame t s s'" using s'(3) by (simp add: kernel_frame_def) (simp add: set_time)
  then show ?thesis using that [of s'] s' True unfolding d p by (simp add: arm_timer_def)
qed

text \<open>The running thread goes to sleep on a list; another thread is dispatched.\<close>

definition wait_on :: "nat \<Rightarrow> nat \<Rightarrow> u8 \<Rightarrow> int \<Rightarrow> 'a kernel_scheme \<Rightarrow> 'a kernel_scheme run" where
  "wait_on x t flag time s = andthen (rt_ipc_list_suspend x t flag s) (arm_timer t time)"

lemma wait_on_ok:
  assumes K: "kernel_state T idle s H Q hs ss" and cur: "current_thread s = Some t" and t: "t \<noteq> idle"
    and lock: "lock_nest s = 0" and x: "x \<in> H" "rt_thread_defunct < x" and f: "wait_flag flag"
    and short: "time < 2 ^ 31 - 1"
  defines "J \<equiv> joined flag (\<lambda>y. priority_of y s) x t Q"
  obtains s' hs' where "wait_on x t flag time s = returns s'" and "rt_schedule s' = returns (settle J s')"
    and "hd (ready_order J) \<noteq> t" and "kernel_state T idle (settle J s') H J hs' ss" and "kernel_frame t s s'"
    and "thread_stat t s' = RT_THREAD_SUSPEND" and "th_error (thread_of s' t) = th_error (thread_of s t)"
    and "0 < time \<Longrightarrow> t \<in> set hs' \<and> due s' t = time"
proof -
  note D = kernel_stateD [OF K]
  have T: "t \<in> T" "thread_stat t s = RT_THREAD_READY" using D(3) cur by (auto simp: running_def)
  obtain s1 where s1: "rt_ipc_list_suspend x t flag s = returns s1" "kernel_ok s1 H T J hs ss" "kernel_frame t s s1"
    "thread_stat t s1 = RT_THREAD_SUSPEND" "th_error (thread_of s1 t) = th_error (thread_of s t)"
    "timers.truncate s1 = timers.truncate s"
    using rt_ipc_list_suspend_ok [OF D(1) T x f] unfolding J_def by metis
  have nt: "t \<notin> set hs" using kernel_okD(3) [OF D(1) T(1)] T(2) by (auto simp: thread_timer_ok_def)
  let ?hs = "if time > 0 then insert_due (due s1) time t hs else hs"
  obtain s' where s': "arm_timer t time s1 = returns s'" "kernel_ok s' H T J ?hs ss" "kernel_frame t s1 s'"
    "thread_of s' = thread_of s1" "\<And>y. due s' y = (if y = t \<and> time > 0 then time else due s1 y)"
    by (rule arm_timer_ok [OF s1(2) T(1) nt s1(4) short]) (rule that)
  have fr: "kernel_frame t s s'" using kernel_frame_trans [OF s1(3) s'(3)] .
  note F = kernel_frameD [OF fr]
  have st: "thread_stat y s' = thread_stat y s1" for y by (simp add: thread_stat_def s'(4))
  have i: "thread_stat idle s' = RT_THREAD_READY" using F(9) [of idle] t D(5) by simp
  have ne: "ready_order J \<noteq> []" by (rule idle_live [OF s'(2) D(4) i])
  note R = first_ready [OF kernel_okD(1) [OF s'(2)] ne]
  have sched: "rt_schedule s' = returns (settle J s')"
    using rt_schedule_ok [OF s'(2)] ne F(1) cur by (simp add: live_def)
  have other: "hd (ready_order J) \<noteq> t" using R(2) st s1(4) by auto
  have "due s1 = due s" using armed_truncate(5) [OF s1(6)] .
  then have "on_time s' ?hs" using D(2) s'(5) by (auto simp: on_time_def)
  then have "on_time (settle J s') ?hs" by (simp add: on_time_def due_def)
  then have "kernel_state T idle (settle J s') H J ?hs ss"
    using kernel_ok_settle [OF s'(2)] D(4) i R F(2) lock by (simp add: kernel_state_def running_def)
  moreover have "wait_on x t flag time s = returns s'" using s1(1) s'(1) by (simp add: wait_on_def)
  ultimately show ?thesis
    using that [of s' ?hs] sched other fr s1(4,5) st s'(4,5) by simp
qed

end
