(* ===== verification/SemLaws.thy ===== *)
theory SemLaws
  imports IpcLaws
begin

text \<open>
  Semaphores: what taking and releasing do, on every branch. The view of a semaphore is its value and
  the threads that wait, in the order in which they will get a unit.
\<close>

subsection \<open>The parts of the state\<close>

lemma ipc_of_more:
  assumes "kernel.more s' = kernel.more s"
  shows "sem_of s' = sem_of s" "mutex_of s' = mutex_of s"
  using assms by (cases s; cases s'; simp)+

lemma set_obj_simps [simp]:
  "tlists (set_sem x v s) = tlists s" "thread_of (set_sem x v s) = thread_of s"
  "ready_group (set_sem x v s) = ready_group s" "current_thread (set_sem x v s) = current_thread s"
  "lock_nest (set_sem x v s) = lock_nest s" "interrupt_nest (set_sem x v s) = interrupt_nest s"
  "timers.truncate (set_sem x v s) = timers.truncate s" "mutex_of (set_sem x v s) = mutex_of s"
  "sem_of (set_sem x v s) = (sem_of s)(x := v)" "due (set_sem x v s) = due s"
  "tlists (set_mutex x m s) = tlists s" "thread_of (set_mutex x m s) = thread_of s"
  "ready_group (set_mutex x m s) = ready_group s" "current_thread (set_mutex x m s) = current_thread s"
  "lock_nest (set_mutex x m s) = lock_nest s" "interrupt_nest (set_mutex x m s) = interrupt_nest s"
  "timers.truncate (set_mutex x m s) = timers.truncate s" "sem_of (set_mutex x m s) = sem_of s"
  "mutex_of (set_mutex x m s) = (mutex_of s)(x := m)" "due (set_mutex x m s) = due s"
  by (simp_all add: set_sem_def set_mutex_def timers.truncate_def fun_eq_iff due_def)

lemma set_obj_views [simp]:
  "thread_stat t (set_sem x v s) = thread_stat t s" "priority_of t (set_sem x v s) = priority_of t s"
  "thread_stat t (set_mutex x m s) = thread_stat t s" "priority_of t (set_mutex x m s) = priority_of t s"
  by (simp_all add: thread_stat_def priority_of_def)

lemma kernel_op_objects [simp]:
  "sem_of (settle Q s) = sem_of s" "mutex_of (settle Q s) = mutex_of s"
  "sem_of (set_error e t s) = sem_of s" "mutex_of (set_error e t s) = mutex_of s"
  by (rule ipc_of_more, simp)+

lemma kernel_state_cong:
  assumes "kernel_state T idle s H Q hs ss" and "timers.truncate s' = timers.truncate s" "tlists s' = tlists s"
    "ready_group s' = ready_group s" "thread_of s' = thread_of s" "current_thread s' = current_thread s"
    "lock_nest s' = lock_nest s"
  shows "kernel_state T idle s' H Q hs ss"
  using assms kernel_stateD(6) [OF assms(1)] by (intro counters_ok [OF assms(1)]) simp_all

lemma set_obj_state [simp]:
  assumes "kernel_state T idle s H Q hs ss"
  shows "kernel_state T idle (set_sem x v s) H Q hs ss" "kernel_state T idle (set_mutex x m s) H Q hs ss"
  by (rule kernel_state_cong [OF assms]; simp)+

lemma set_error_state:
  assumes "kernel_state T idle s H Q hs ss"
  shows "kernel_state T idle (set_error e t s) H Q hs ss"
  using assms set_error_ok [OF kernel_stateD(1) [OF assms]]
  by (simp add: kernel_state_def on_time_def running_def)

lemma in_thread:
  assumes "current_thread s = Some t" and "interrupt_nest s = 0"
  shows "debug_in_thread_context s = returns s" "rt_thread_self s = Some t"
  using assms by (simp_all add: debug_in_thread_context_def debug_not_in_interrupt_def rt_thread_self_def)

subsection \<open>Semaphores\<close>

lemma rt_sem_take_wait_on:
  assumes "sem_value (sem_of s x) = 0" and "time \<noteq> 0" and "current_thread s = Some t" and "interrupt_nest s = 0"
  shows "rt_sem_take x time s =
    andthen (wait_on x t (sem_flag (sem_of s x)) time (set_error RT_EOK t s)) (wait_here t (sem_take_woken t))"
  using assms
  by (simp add: rt_sem_take_def in_thread wait_on_def andthen_def split: option.splits sum.splits)

lemma rt_sem_take_available:
  "0 < sem_value (sem_of s x) \<Longrightarrow> rt_sem_take x time s =
     returns (Back RT_EOK, set_sem x ((sem_of s x)\<lparr>sem_value := sem_value (sem_of s x) - 1\<rparr>) s)"
  by (simp add: rt_sem_take_def)

lemma rt_sem_take_no_wait:
  "sem_value (sem_of s x) = 0 \<Longrightarrow> rt_sem_take x 0 s = returns (Back (- RT_ETIMEOUT), s)"
  by (simp add: rt_sem_take_def)

lemma rt_sem_take_blocks:
  assumes K: "kernel_state T idle s H Q hs ss" and cur: "current_thread s = Some t" and t: "t \<noteq> idle"
    and ctx: "lock_nest s = 0" "interrupt_nest s = 0" and x: "x \<in> H" "rt_thread_defunct < x"
    and f: "wait_flag (sem_flag (sem_of s x))"
    and none: "sem_value (sem_of s x) = 0" and time: "time \<noteq> 0" "time < 2 ^ 31 - 1"
  defines "J \<equiv> joined (sem_flag (sem_of s x)) (\<lambda>y. priority_of y s) x t Q"
  obtains s' hs' where "rt_sem_take x time s = returns (Switched_Out, s')" and "kernel_state T idle s' H J hs' ss"
    and "kernel.more s' = kernel.more s" and "\<And>y. priority_of y s' = priority_of y s"
    and "thread_stat t s' = RT_THREAD_SUSPEND" and "th_error (thread_of s' t) = RT_EOK"
    and "current_thread s' = Some (hd (ready_order J))" and "0 < time \<Longrightarrow> t \<in> set hs' \<and> due s' t = time"
proof -
  let ?e = "set_error RT_EOK t s"
  have J: "J = joined (sem_flag (sem_of s x)) (\<lambda>y. priority_of y ?e) x t Q" by (simp add: J_def)
  have pre: "current_thread ?e = Some t" "lock_nest ?e = 0" using cur ctx by simp_all
  obtain s1 hs' where s1: "wait_on x t (sem_flag (sem_of s x)) time ?e = returns s1"
    "rt_schedule s1 = returns (settle J s1)" "hd (ready_order J) \<noteq> t"
    "kernel_state T idle (settle J s1) H J hs' ss" "kernel_frame t ?e s1" "thread_stat t s1 = RT_THREAD_SUSPEND"
    "th_error (thread_of s1 t) = th_error (thread_of ?e t)" "0 < time \<Longrightarrow> t \<in> set hs' \<and> due s1 t = time"
    by (rule wait_on_ok [OF set_error_state [OF K] pre(1) t pre(2) x f time(2), folded J]) (rule that)
  note F = kernel_frameD [OF s1(5)]
  have "rt_sem_take x time s = returns (Switched_Out, settle J s1)"
    using rt_sem_take_wait_on [OF none time(1) cur ctx(2)] s1(1-3) F(2) ctx(1) by (simp add: wait_here_def)
  moreover have "kernel.more (settle J s1) = kernel.more s" using F(5) by simp
  moreover have "due (settle J s1) t = due s1 t" by (simp add: due_def)
  ultimately show ?thesis using that [of "settle J s1" hs'] s1(4,6-8) F(2,8) ctx(1) by simp
qed

lemma rt_sem_release_hands_over:
  assumes K: "kernel_state T idle s H Q hs ss" and x: "x \<in> H" "rt_thread_defunct < x" and ne: "Q x = t # ts"
  defines "J \<equiv> made_ready s t Q"
  obtains s' where "rt_sem_release x s = returns (RT_EOK, s')" and "kernel_state T idle s' H J (remove1 t hs) ss"
    and "kernel.more s' = kernel.more s" and "\<And>y. priority_of y s' = priority_of y s"
    and "thread_stat t s' = RT_THREAD_READY" and "th_error (thread_of s' t) = th_error (thread_of s t)"
    and "J x = ts" and "\<And>h. h \<in> H \<Longrightarrow> rt_thread_defunct < h \<Longrightarrow> h \<noteq> x \<Longrightarrow> J h = Q h"
    and "current_thread s' = (if lock_nest s = 0 then Some (hd (ready_order J)) else current_thread s)"
proof -
  note D = kernel_stateD [OF K]
  note S = kernel_okD(1) [OF D(1)]
  note F = lists_okD(1) [OF sched_okD(1) [OF S]]
  obtain s1 where s1: "rt_ipc_list_resume x s = returns s1" "kernel_ok s1 H T J (remove1 t hs) ss"
    "kernel_frame t s s1" "thread_stat t s1 = RT_THREAD_READY" "th_error (thread_of s1 t) = th_error (thread_of s t)"
    "due s1 = due s"
    unfolding J_def by (rule rt_ipc_list_resume_ok [of s H T Q hs ss x t ts, OF D(1) x ne])
  note fr = kernel_frameD [OF s1(3)]
  have t: "t \<in> T" using waiting_thread(1) [OF D(1) x, of t] ne by simp
  have Jx: "J h = remove1 t (Q h)" if "h \<in> H" "rt_thread_defunct < h" for h
    unfolding J_def using made_ready_other [OF S t that] .
  have "t \<in> set (Q x)" using ne by simp
  then have same: "J h = Q h" if "h \<in> H" "rt_thread_defunct < h" "h \<noteq> x" for h
    using Jx [OF that(1,2)] familyD(3) [OF F that(1) x(1), of t] that(3) by (metis remove1_idem)
  have ne1: "\<not> rt_list_isempty x (tlists s)" using family_isempty [OF F x(1)] ne by simp
  obtain c where c: "c \<in> T" "current_thread s = Some c" "thread_stat c s = RT_THREAD_READY" by (rule runner [OF K])
  have still: "thread_stat y s = RT_THREAD_READY \<Longrightarrow> thread_stat y s1 = RT_THREAD_READY" for y
    using fr(9) [of y] s1(4) by (cases "y = t") auto
  have "live s1 J" using idle_live [OF s1(2) D(4) still [OF D(5)]] fr(1) c(2) by (simp add: live_def)
  then have "rt_schedule s1 = returns (settle J s1)" by (rule rt_schedule_ok [OF s1(2)])
  then have r: "rt_sem_release x s = returns (RT_EOK, settle J s1)"
    using ne1 s1(1) by (simp add: rt_sem_release_def)
  have "on_time s1 (remove1 t hs)" using on_time_sub [OF D(2) s1(6) set_remove1_subset] .
  then have ot: "on_time (settle J s1) (remove1 t hs)" by (simp add: on_time_def due_def)
  have "ready_order J \<noteq> []" using idle_live [OF s1(2) D(4) still [OF D(5)]] .
  then have "running (settle J s1) T"
    using first_ready [OF kernel_okD(1) [OF s1(2)]] c still fr(1) by (auto simp: running_def)
  then have "kernel_state T idle (settle J s1) H J (remove1 t hs) ss"
    using kernel_ok_settle [OF s1(2)] ot D(4,6) still [OF D(5)] fr(2) by (simp add: kernel_state_def)
  then show ?thesis
    using that [of "settle J s1"] r s1(4,5) fr(1,2,5,8) Jx [OF x] same ne by simp
qed

lemma rt_sem_release_counts:
  assumes K: "kernel_state T idle s H Q hs ss" and x: "x \<in> H" and e: "Q x = []"
  shows "rt_sem_release x s =
    returns (RT_EOK, set_sem x ((sem_of s x)\<lparr>sem_value := sem_value (sem_of s x) + 1\<rparr>) s)"
  using family_isempty [OF lists_okD(1) [OF sched_okD(1) [OF kernel_okD(1) [OF kernel_stateD(1) [OF K]]]] x] e
  by (simp add: rt_sem_release_def)

end
