(* ===== verification/MutexLaws.thy ===== *)
theory MutexLaws
  imports SemLaws
begin

text \<open>
  Mutexes: what taking and releasing do, on every branch, with the change of the owner's priority.
\<close>

subsection \<open>Changing a priority\<close>

text \<open>Where the threads are after thread \<open>t\<close> has got the priority \<open>p\<close>.\<close>

definition lifted :: "'a kernel_scheme \<Rightarrow> nat \<Rightarrow> u8 \<Rightarrow> (nat \<Rightarrow> nat list) \<Rightarrow> nat \<Rightarrow> nat list" where
  "lifted s t p Q = (if thread_stat t s = RT_THREAD_READY then moved t p Q else Q)"

lemma lifted_wait:
  assumes "kernel_ok s H T Q hs ss" and "t \<in> T" and "unat p < PRIORITY_MAX" and "h \<in> H" "rt_thread_defunct < h"
  shows "lifted s t p Q h = Q h"
proof (cases "thread_stat t s = RT_THREAD_READY")
  case True
  have "t \<notin> set (Q h)" using waiting_thread(2) [OF assms(1,4,5), of t] True by auto
  then show ?thesis using assms(3,5) True by (simp add: lifted_def moved_def without_fresh rt_thread_defunct_def)
qed (simp add: lifted_def)

lemma control_priority_state:
  assumes K: "kernel_state T idle s H Q hs ss" and t: "t \<in> T" and p: "unat p < PRIORITY_MAX"
  obtains s' where "rt_thread_control t 2 p s = returns (RT_EOK, s')"
    and "kernel_state T idle s' H (lifted s t p Q) hs ss" and "kernel.more s' = kernel.more s"
    and "priority_of t s' = unat p" and "\<And>x. x \<noteq> t \<Longrightarrow> thread_of s' x = thread_of s x"
    and "\<And>x. thread_stat x s' = thread_stat x s" and "\<And>x. th_error (thread_of s' x) = th_error (thread_of s x)"
    and "current_thread s' = current_thread s" and "lock_nest s' = lock_nest s" and "interrupt_nest s' = interrupt_nest s"
    and "timers.truncate s' = timers.truncate s"
proof -
  note D = kernel_stateD [OF K]
  obtain s' where s': "change_priority t p s = returns s'"
    "kernel_ok s' H T (if thread_stat t s = RT_THREAD_READY then moved t p Q else Q) hs ss"
    "current_priority (thread_of s' t) = p" "thread_stat t s' = thread_stat t s"
    "\<And>x. x \<noteq> t \<Longrightarrow> thread_of s' x = thread_of s x" "current_thread s' = current_thread s"
    "lock_nest s' = lock_nest s" "kernel.more s' = kernel.more s" "interrupt_nest s' = interrupt_nest s"
    "timers.truncate s' = timers.truncate s" "th_error (thread_of s' t) = th_error (thread_of s t)"
    by (rule change_priority_ok [OF D(1) t p]) (rule that)
  have st: "thread_stat x s' = thread_stat x s" "th_error (thread_of s' x) = th_error (thread_of s x)" for x
    using s'(4,11) s'(5) [of x] by (cases "x = t"; simp add: thread_stat_def)+
  have "on_time s' hs" using D(2) by (simp add: on_time_def armed_truncate [OF s'(10)])
  moreover have "running s' T" using D(3) by (simp add: running_def st s'(6))
  ultimately have "kernel_state T idle s' H (lifted s t p Q) hs ss"
    using s'(2,7) D(4-6) by (simp add: kernel_state_def lifted_def st)
  then show ?thesis
    using that s' st by (simp add: rt_thread_control_def priority_of_def)
qed

subsection \<open>Taking\<close>

lemma rt_mutex_take_own:
  assumes "current_thread s = Some t" and "interrupt_nest s = 0" and "mutex_owner (mutex_of s x) = Some t"
  shows "rt_mutex_take x time s = returns (Back RT_EOK,
    set_mutex x ((mutex_of s x)\<lparr>mutex_hold := mutex_hold (mutex_of s x) + 1\<rparr>) (set_error RT_EOK t s))"
  using assms(3) by (simp add: rt_mutex_take_def in_thread [OF assms(1,2)])

lemma rt_mutex_take_other:
  assumes "current_thread s = Some t" and "interrupt_nest s = 0" and "mutex_owner (mutex_of s x) \<noteq> Some t"
  shows "rt_mutex_take x time s = mutex_again x t time (set_error RT_EOK t s)"
  using assms(3) by (simp add: rt_mutex_take_def in_thread [OF assms(1,2)])

lemma rt_mutex_take_free:
  assumes "current_thread s = Some t" and "interrupt_nest s = 0" and "mutex_owner (mutex_of s x) \<noteq> Some t"
    and "0 < mutex_value (mutex_of s x)"
  shows "rt_mutex_take x time s = returns (Back RT_EOK, set_mutex x
     ((mutex_of s x)\<lparr>mutex_value := mutex_value (mutex_of s x) - 1, mutex_owner := Some t,
        original_priority := current_priority (thread_of s t), mutex_hold := mutex_hold (mutex_of s x) + 1\<rparr>)
     (set_error RT_EOK t s))"
proof -
  have "current_priority (thread_of (set_error RT_EOK t s) t) = current_priority (thread_of s t)" by simp
  then show ?thesis
    unfolding rt_mutex_take_other [OF assms(1-3)] by (subst mutex_again.simps) (use assms(4) in simp)
qed

lemma rt_mutex_take_no_wait:
  assumes "current_thread s = Some t" and "interrupt_nest s = 0" and "mutex_owner (mutex_of s x) \<noteq> Some t"
    and "mutex_value (mutex_of s x) = 0"
  shows "rt_mutex_take x 0 s = returns (Back (- RT_ETIMEOUT), set_error (- RT_ETIMEOUT) t (set_error RT_EOK t s))"
  unfolding rt_mutex_take_other [OF assms(1-3)] by (subst mutex_again.simps) (use assms(4) in simp)

text \<open>
  Waiting: when the owner has the lower priority it gets the priority of the thread; then the thread
  joins the list.
\<close>

definition inherit :: "'a kernel_scheme \<Rightarrow> nat \<Rightarrow> nat \<Rightarrow> (nat \<Rightarrow> nat list) \<Rightarrow> nat \<Rightarrow> nat list" where
  "inherit s ow t Q =
     (if priority_of t s < priority_of ow s then lifted s ow (current_priority (thread_of s t)) Q else Q)"

definition inherited :: "'a kernel_scheme \<Rightarrow> nat \<Rightarrow> nat \<Rightarrow> nat \<Rightarrow> nat" where
  "inherited s ow t y = (if y = ow then min (priority_of ow s) (priority_of t s) else priority_of y s)"

lemma mutex_block_ok:
  assumes K: "kernel_state T idle s H Q hs ss" and cur: "current_thread s = Some t" and t: "t \<noteq> idle"
    and lock: "lock_nest s = 0" and x: "x \<in> H" "rt_thread_defunct < x" and f: "wait_flag (mutex_flag (mutex_of s x))"
    and ow: "mutex_owner (mutex_of s x) = Some ow" "ow \<in> T" "ow \<noteq> t" and time: "time < 2 ^ 31 - 1"
  defines "J \<equiv> joined (mutex_flag (mutex_of s x)) (inherited s ow t) x t (inherit s ow t Q)"
  obtains s' hs' where "andthen (mutex_block x t time s) rt_schedule = returns s'"
    and "kernel_state T idle s' H J hs' ss" and "kernel.more s' = kernel.more s"
    and "\<And>y. priority_of y s' = inherited s ow t y" and "current_thread s' \<noteq> Some t"
    and "thread_stat t s' = RT_THREAD_SUSPEND" and "th_error (thread_of s' t) = th_error (thread_of s t)"
    and "current_thread s' = Some (hd (ready_order J))" and "0 < time \<Longrightarrow> t \<in> set hs' \<and> due s' t = time"
proof -
  have tT: "t \<in> T" using kernel_stateD(3) [OF K] cur by (auto simp: running_def)
  let ?p = "current_priority (thread_of s t)"
  have lim: "unat ?p < PRIORITY_MAX"
    using thread_okD(1) [OF sched_okD(4) [OF kernel_okD(1) [OF kernel_stateD(1) [OF K]] tT]] by (simp add: priority_of_def)
  obtain s1 where s1: "(if ?p < current_priority (thread_of s ow) then rt_thread_control ow 2 ?p s
        else returns (RT_EOK, s)) = returns (RT_EOK, s1)"
    "kernel_state T idle s1 H (inherit s ow t Q) hs ss" "kernel.more s1 = kernel.more s"
    "\<And>y. priority_of y s1 = inherited s ow t y" "th_error (thread_of s1 t) = th_error (thread_of s t)"
    "current_thread s1 = Some t" "lock_nest s1 = 0"
  proof (cases "priority_of t s < priority_of ow s")
    case False
    then have "inherit s ow t Q = Q" "inherited s ow t y = priority_of y s" for y
      by (simp_all add: inherit_def inherited_def)
    then show ?thesis using K cur lock False by (intro that [of s]) (simp_all add: current_priority_le)
  next
    case True
    obtain s1 where c: "rt_thread_control ow 2 ?p s = returns (RT_EOK, s1)"
      "kernel_state T idle s1 H (lifted s ow ?p Q) hs ss" "kernel.more s1 = kernel.more s"
      "priority_of ow s1 = unat ?p" "\<And>x. x \<noteq> ow \<Longrightarrow> thread_of s1 x = thread_of s x"
      "\<And>x. th_error (thread_of s1 x) = th_error (thread_of s x)"
      "current_thread s1 = current_thread s" "lock_nest s1 = lock_nest s"
      by (rule control_priority_state [OF K ow(2) lim]) (rule that)
    have "priority_of y s1 = inherited s ow t y" for y
      using c(4) c(5) [of y] True by (cases "y = ow") (simp_all add: inherited_def priority_of_def)
    then show ?thesis using that [of s1] c cur lock True by (simp add: current_priority_le inherit_def)
  qed
  have fl: "mutex_flag (mutex_of s1 x) = mutex_flag (mutex_of s x)" by (simp add: ipc_of_more(2) [OF s1(3)])
  have J: "J = joined (mutex_flag (mutex_of s1 x)) (\<lambda>y. priority_of y s1) x t (inherit s ow t Q)"
    by (simp add: J_def s1(4) fl)
  obtain s2 hs' where s2: "wait_on x t (mutex_flag (mutex_of s1 x)) time s1 = returns s2"
    "rt_schedule s2 = returns (settle J s2)" "hd (ready_order J) \<noteq> t"
    "kernel_state T idle (settle J s2) H J hs' ss" "kernel_frame t s1 s2" "thread_stat t s2 = RT_THREAD_SUSPEND"
    "th_error (thread_of s2 t) = th_error (thread_of s1 t)" "0 < time \<Longrightarrow> t \<in> set hs' \<and> due s2 t = time"
    by (rule wait_on_ok [OF s1(2,6) t s1(7) x f [folded fl] time, folded J]) (rule that)
  note F = kernel_frameD [OF s2(5)]
  have "mutex_block x t time s = returns s2"
    using ow(1) s1(1) s2(1) by (simp add: mutex_block_def wait_on_def)
  then have "andthen (mutex_block x t time s) rt_schedule = returns (settle J s2)" using s2(2) by simp
  moreover have "due (settle J s2) t = due s2 t" by (simp add: due_def)
  ultimately show ?thesis
    using that [of "settle J s2" hs'] s2(3,4,6-8) s1(3-5,7) F(2,5,8) by simp
qed

lemma rt_mutex_take_blocks:
  assumes K: "kernel_state T idle s H Q hs ss" and cur: "current_thread s = Some t" and t: "t \<noteq> idle"
    and ctx: "lock_nest s = 0" "interrupt_nest s = 0" and x: "x \<in> H" "rt_thread_defunct < x"
    and f: "wait_flag (mutex_flag (mutex_of s x))"
    and ow: "mutex_owner (mutex_of s x) = Some ow" "ow \<in> T" "ow \<noteq> t" "mutex_value (mutex_of s x) = 0"
    and time: "time \<noteq> 0" "time < 2 ^ 31 - 1"
  defines "J \<equiv> joined (mutex_flag (mutex_of s x)) (inherited s ow t) x t (inherit s ow t Q)"
  obtains s' hs' where "rt_mutex_take x time s = returns (Switched_Out, s')"
    and "kernel_state T idle s' H J hs' ss" and "kernel.more s' = kernel.more s"
    and "\<And>y. priority_of y s' = inherited s ow t y"
    and "thread_stat t s' = RT_THREAD_SUSPEND" and "th_error (thread_of s' t) = RT_EOK"
    and "current_thread s' = Some (hd (ready_order J))" and "0 < time \<Longrightarrow> t \<in> set hs' \<and> due s' t = time"
proof -
  let ?e = "set_error RT_EOK t s"
  have inh: "inherited ?e ow t = inherited s ow t" "inherit ?e ow t Q = inherit s ow t Q"
    by (simp_all add: fun_eq_iff inherited_def inherit_def lifted_def)
  have J: "J = joined (mutex_flag (mutex_of ?e x)) (inherited ?e ow t) x t (inherit ?e ow t Q)"
    by (simp add: J_def inh)
  have pre: "current_thread ?e = Some t" "lock_nest ?e = 0" "wait_flag (mutex_flag (mutex_of ?e x))"
    "mutex_owner (mutex_of ?e x) = Some ow" using cur ctx f ow(1) by simp_all
  obtain s' hs' where s': "andthen (mutex_block x t time ?e) rt_schedule = returns s'"
    "kernel_state T idle s' H J hs' ss" "kernel.more s' = kernel.more ?e" "\<And>y. priority_of y s' = inherited ?e ow t y"
    "current_thread s' \<noteq> Some t" "thread_stat t s' = RT_THREAD_SUSPEND"
    "th_error (thread_of s' t) = th_error (thread_of ?e t)" "current_thread s' = Some (hd (ready_order J))"
    "0 < time \<Longrightarrow> t \<in> set hs' \<and> due s' t = time"
    by (rule mutex_block_ok [OF set_error_state [OF K] pre(1) t pre(2) x pre(3,4) ow(2,3) time(2), folded J]) (rule that)
  have "mutex_again x t time ?e = returns (Switched_Out, s')"
    by (subst mutex_again.simps) (use ow(4) time(1) s'(1,5) in simp)
  then have "rt_mutex_take x time s = returns (Switched_Out, s')"
    using rt_mutex_take_other [OF cur ctx(2)] ow(1,3) by simp
  then show ?thesis using that [of s' hs'] s'(2-4,6-9) inh(1) by simp
qed

subsection \<open>Releasing\<close>

lemma rt_mutex_release_not_owner:
  assumes "current_thread s = Some t" and "interrupt_nest s = 0" and "mutex_owner (mutex_of s x) \<noteq> Some t"
  shows "rt_mutex_release x s = returns (- RT_ERROR, set_error (- RT_ERROR) t s)"
  using assms(3) by (simp add: rt_mutex_release_def in_thread [OF assms(1,2)])

lemma rt_mutex_release_inner:
  assumes "current_thread s = Some t" and "interrupt_nest s = 0" and "mutex_owner (mutex_of s x) = Some t"
    and "mutex_hold (mutex_of s x) \<noteq> 1"
  shows "rt_mutex_release x s =
    returns (RT_EOK, set_mutex x ((mutex_of s x)\<lparr>mutex_hold := mutex_hold (mutex_of s x) - 1\<rparr>) s)"
proof -
  have "mutex_hold (mutex_of s x) - 1 \<noteq> 0" using assms(4) by (metis eq_iff_diff_eq_0)
  then show ?thesis using assms(3) by (simp add: rt_mutex_release_def in_thread [OF assms(1,2)])
qed

definition restored :: "'a kernel_scheme \<Rightarrow> nat \<Rightarrow> u8 \<Rightarrow> (nat \<Rightarrow> nat list) \<Rightarrow> nat \<Rightarrow> nat list" where
  "restored s t p Q = (if p \<noteq> current_priority (thread_of s t) then lifted s t p Q else Q)"

lemma restored_wait:
  assumes "kernel_ok s H T Q hs ss" and "t \<in> T" and "unat p < PRIORITY_MAX" and "h \<in> H" "rt_thread_defunct < h"
  shows "restored s t p Q h = Q h"
  using lifted_wait [OF assms] by (simp add: restored_def)

lemma restore_state:
  assumes K: "kernel_state T idle s H Q hs ss" and t: "t \<in> T" and p: "unat p < PRIORITY_MAX"
  obtains s' where "(if p \<noteq> current_priority (thread_of s t) then rt_thread_control t 2 p s else returns (RT_EOK, s))
      = returns (RT_EOK, s')"
    and "kernel_state T idle s' H (restored s t p Q) hs ss" and "kernel.more s' = kernel.more s"
    and "\<And>y. priority_of y s' = (if y = t then unat p else priority_of y s)"
    and "\<And>x. x \<noteq> t \<Longrightarrow> thread_of s' x = thread_of s x"
    and "\<And>x. thread_stat x s' = thread_stat x s" and "\<And>x. th_error (thread_of s' x) = th_error (thread_of s x)"
    and "current_thread s' = current_thread s" and "lock_nest s' = lock_nest s"
proof (cases "p = current_priority (thread_of s t)")
  case True
  then show ?thesis using K by (intro that [of s]) (simp_all add: restored_def priority_of_def)
next
  case False
  obtain s' where s': "rt_thread_control t 2 p s = returns (RT_EOK, s')"
    "kernel_state T idle s' H (lifted s t p Q) hs ss" "kernel.more s' = kernel.more s"
    "priority_of t s' = unat p" "\<And>x. x \<noteq> t \<Longrightarrow> thread_of s' x = thread_of s x"
    "\<And>x. thread_stat x s' = thread_stat x s" "\<And>x. th_error (thread_of s' x) = th_error (thread_of s x)"
    "current_thread s' = current_thread s" "lock_nest s' = lock_nest s"
    by (rule control_priority_state [OF K t p]) (rule that)
  have "priority_of y s' = (if y = t then unat p else priority_of y s)" for y
    using s'(4) s'(5) [of y] by (simp add: priority_of_def)
  then show ?thesis using that [of s'] s' False by (simp add: restored_def)
qed

lemma mutex_hand_over:
  assumes K: "kernel_state T idle s H Q hs ss" and x: "x \<in> H" "rt_thread_defunct < x" and ne: "Q x = w # ws"
  defines "m \<equiv> (mutex_of s x)\<lparr>mutex_owner := Some w, original_priority := current_priority (thread_of s w),
                   mutex_hold := mutex_hold (mutex_of s x) + 1\<rparr>"
    and "J \<equiv> made_ready s w Q"
  obtains s1 where "hand_over x s = returns (True, s1)" and "rt_schedule s1 = returns (settle J s1)"
    and "kernel_state T idle (settle J s1) H J (remove1 w hs) ss" and "kernel.more s1 = kernel.more (set_mutex x m s)"
    and "\<And>y. priority_of y s1 = priority_of y s" and "thread_stat w s1 = RT_THREAD_READY"
    and "th_error (thread_of s1 w) = th_error (thread_of s w)" and "lock_nest s1 = lock_nest s"
    and "J x = ws" and "\<And>h. h \<in> H \<Longrightarrow> rt_thread_defunct < h \<Longrightarrow> h \<noteq> x \<Longrightarrow> J h = Q h"
proof -
  let ?s = "set_mutex x m s"
  have K': "kernel_state T idle ?s H Q hs ss" by (rule set_obj_state(2) [OF K])
  note D = kernel_stateD [OF K']
  note S = kernel_okD(1) [OF D(1)]
  note F = lists_okD(1) [OF sched_okD(1) [OF S]]
  have J: "J = made_ready ?s w Q" by (simp add: J_def fun_eq_iff made_ready_def)
  obtain s1 where s1: "rt_ipc_list_resume x ?s = returns s1" "kernel_ok s1 H T J (remove1 w hs) ss"
    "kernel_frame w ?s s1" "thread_stat w s1 = RT_THREAD_READY" "th_error (thread_of s1 w) = th_error (thread_of ?s w)"
    "due s1 = due ?s"
    unfolding J by (rule rt_ipc_list_resume_ok [of ?s H T Q hs ss x w ws, OF D(1) x ne])
  note fr = kernel_frameD [OF s1(3)]
  have w: "w \<in> T" using waiting_thread(1) [OF D(1) x, of w] ne by simp
  have Jx: "J h = remove1 w (Q h)" if "h \<in> H" "rt_thread_defunct < h" for h
    unfolding J using made_ready_other [OF S w that] .
  have "w \<in> set (Q x)" using ne by simp
  then have same: "J h = Q h" if "h \<in> H" "rt_thread_defunct < h" "h \<noteq> x" for h
    using Jx [OF that(1,2)] familyD(3) [OF F that(1) x(1), of w] that(3) by (metis remove1_idem)
  have first: "\<not> rt_list_isempty x (tlists s)" "next_link (tlists s) x = w"
    using family_isempty [OF F x(1)] family_first [OF F x(1)] ne by simp_all
  obtain c where c: "c \<in> T" "current_thread ?s = Some c" "thread_stat c ?s = RT_THREAD_READY" by (rule runner [OF K'])
  have still: "thread_stat y ?s = RT_THREAD_READY \<Longrightarrow> thread_stat y s1 = RT_THREAD_READY" for y
    using fr(9) [of y] s1(4) by (cases "y = w") auto
  have ne': "ready_order J \<noteq> []" using idle_live [OF s1(2) D(4) still [OF D(5)]] .
  have sched: "rt_schedule s1 = returns (settle J s1)"
    by (rule rt_schedule_ok [OF s1(2)]) (use ne' fr(1) c(2) in \<open>simp add: live_def\<close>)
  have "on_time s1 (remove1 w hs)" using on_time_sub [OF D(2) s1(6) set_remove1_subset] .
  then have ot: "on_time (settle J s1) (remove1 w hs)" by (simp add: on_time_def due_def)
  have "running (settle J s1) T"
    using first_ready [OF kernel_okD(1) [OF s1(2)] ne'] c still fr(1) by (auto simp: running_def)
  then have "kernel_state T idle (settle J s1) H J (remove1 w hs) ss"
    using kernel_ok_settle [OF s1(2)] ot D(4,6) still [OF D(5)] fr(2) by (simp add: kernel_state_def)
  moreover have "hand_over x s = returns (True, s1)"
    using first s1(1) by (simp add: hand_over_def m_def Let_def)
  ultimately show ?thesis
    using that [of s1] sched s1(4,5) fr(2,5,8) Jx [OF x] same ne by simp
qed

lemma rt_mutex_release_hands_over:
  assumes K: "kernel_state T idle s H Q hs ss" and cur: "current_thread s = Some t" and ctx: "interrupt_nest s = 0"
    and x: "x \<in> H" "rt_thread_defunct < x" and ow: "mutex_owner (mutex_of s x) = Some t" "mutex_hold (mutex_of s x) = 1"
    and p: "p = original_priority (mutex_of s x)" "unat p < PRIORITY_MAX" and ne: "Q x = w # ws"
  defines "J \<equiv> made_ready s w (restored s t p Q)"
  obtains s' where "rt_mutex_release x s = returns (RT_EOK, s')" and "kernel_state T idle s' H J (remove1 w hs) ss"
    and "sem_of s' = sem_of s"
    and "mutex_of s' = (mutex_of s)(x := (mutex_of s x)\<lparr>mutex_owner := Some w,
           original_priority := current_priority (thread_of s w), mutex_hold := 1\<rparr>)"
    and "\<And>y. priority_of y s' = (if y = t then unat p else priority_of y s)"
    and "thread_stat w s' = RT_THREAD_READY" and "th_error (thread_of s' w) = th_error (thread_of s w)"
    and "J x = ws" and "\<And>h. h \<in> H \<Longrightarrow> rt_thread_defunct < h \<Longrightarrow> h \<noteq> x \<Longrightarrow> J h = Q h" and "w \<noteq> t" and "w \<in> T"
    and "lock_nest s = 0 \<Longrightarrow> current_thread s' = Some (hd (ready_order J))"
proof -
  let ?m = "(mutex_of s x)\<lparr>mutex_hold := 0\<rparr>"
  let ?s = "set_mutex x ?m s"
  have K0: "kernel_state T idle ?s H Q hs ss" by (rule set_obj_state(2) [OF K])
  have t: "t \<in> T" "thread_stat t s = RT_THREAD_READY" using kernel_stateD(3) [OF K] cur by (auto simp: running_def)
  have w: "w \<in> T" "thread_stat w s = RT_THREAD_SUSPEND"
    using waiting_thread [OF kernel_stateD(1) [OF K] x, of w] ne by simp_all
  have wt: "w \<noteq> t" using w(2) t(2) by auto
  have rs: "restored ?s t p Q = restored s t p Q" by (simp add: restored_def lifted_def)
  obtain s1 where s1: "(if p \<noteq> current_priority (thread_of ?s t) then rt_thread_control t 2 p ?s
        else returns (RT_EOK, ?s)) = returns (RT_EOK, s1)"
    "kernel_state T idle s1 H (restored s t p Q) hs ss" "kernel.more s1 = kernel.more ?s"
    "\<And>y. priority_of y s1 = (if y = t then unat p else priority_of y ?s)"
    "\<And>x. x \<noteq> t \<Longrightarrow> thread_of s1 x = thread_of ?s x" "lock_nest s1 = lock_nest ?s"
    by (rule restore_state [OF K0 t(1) p(2), unfolded rs]) (rule that)
  have R: "restored s t p Q h = Q h" if "h \<in> H" "rt_thread_defunct < h" for h
    using restored_wait [OF kernel_stateD(1) [OF K] t(1) p(2) that] .
  have ne1: "restored s t p Q x = w # ws" using R [OF x] ne by simp
  have J: "J = made_ready s1 w (restored s t p Q)"
    using s1(4) [of w] wt by (simp add: J_def fun_eq_iff made_ready_def)
  note mo = ipc_of_more [OF s1(3)]
  let ?n = "(mutex_of s1 x)\<lparr>mutex_owner := Some w, original_priority := current_priority (thread_of s1 w),
      mutex_hold := mutex_hold (mutex_of s1 x) + 1\<rparr>"
  obtain s2 where s2: "hand_over x s1 = returns (True, s2)" "rt_schedule s2 = returns (settle J s2)"
    "kernel_state T idle (settle J s2) H J (remove1 w hs) ss" "kernel.more s2 = kernel.more (set_mutex x ?n s1)"
    "\<And>y. priority_of y s2 = priority_of y s1" "thread_stat w s2 = RT_THREAD_READY"
    "th_error (thread_of s2 w) = th_error (thread_of s1 w)" "lock_nest s2 = lock_nest s1" "J x = ws"
    "\<And>h. h \<in> H \<Longrightarrow> rt_thread_defunct < h \<Longrightarrow> h \<noteq> x \<Longrightarrow> J h = restored s t p Q h"
    by (rule mutex_hand_over [OF s1(2) x ne1, folded J]) (rule that)
  have "rt_mutex_release x s = returns (RT_EOK, settle J s2)"
    using ow s1(1) [unfolded p(1)] s2(1,2) by (simp add: rt_mutex_release_def in_thread [OF cur ctx] Let_def split: if_splits)
  moreover have "mutex_of (settle J s2) = (mutex_of s)(x := (mutex_of s x)\<lparr>mutex_owner := Some w,
           original_priority := current_priority (thread_of s w), mutex_hold := 1\<rparr>)"
    using ipc_of_more(2) [OF s2(4)] mo(2) s1(5) [of w] wt ow(2) by simp
  moreover have "sem_of (settle J s2) = sem_of s" using ipc_of_more(1) [OF s2(4)] mo(1) by simp
  moreover have "th_error (thread_of s2 w) = th_error (thread_of s w)" using s2(7) s1(5) [of w] wt by simp
  ultimately show ?thesis
    using that [of "settle J s2"] s2(3,5,6,8-10) s1(4,6) R wt w(1) by simp
qed

lemma rt_mutex_release_frees:
  assumes K: "kernel_state T idle s H Q hs ss" and cur: "current_thread s = Some t" and ctx: "interrupt_nest s = 0"
    and x: "x \<in> H" "rt_thread_defunct < x" and ow: "mutex_owner (mutex_of s x) = Some t" "mutex_hold (mutex_of s x) = 1"
    and p: "p = original_priority (mutex_of s x)" "unat p < PRIORITY_MAX" and e: "Q x = []"
  obtains s' where "rt_mutex_release x s = returns (RT_EOK, s')" and "kernel_state T idle s' H (restored s t p Q) hs ss"
    and "sem_of s' = sem_of s"
    and "mutex_of s' = (mutex_of s)(x := (mutex_of s x)\<lparr>mutex_hold := 0,
           mutex_value := mutex_value (mutex_of s x) + 1, mutex_owner := None, original_priority := 0xff\<rparr>)"
    and "\<And>y. priority_of y s' = (if y = t then unat p else priority_of y s)"
    and "\<And>h. h \<in> H \<Longrightarrow> rt_thread_defunct < h \<Longrightarrow> restored s t p Q h = Q h" and "current_thread s' = Some t"
    and "\<And>y. thread_stat y s' = thread_stat y s" and "lock_nest s' = lock_nest s"
proof -
  let ?m = "(mutex_of s x)\<lparr>mutex_hold := 0\<rparr>"
  let ?s = "set_mutex x ?m s"
  have K0: "kernel_state T idle ?s H Q hs ss" by (rule set_obj_state(2) [OF K])
  have t: "t \<in> T" using kernel_stateD(3) [OF K] cur by (auto simp: running_def)
  have rs: "restored ?s t p Q = restored s t p Q" by (simp add: restored_def lifted_def)
  obtain s1 where s1: "(if p \<noteq> current_priority (thread_of ?s t) then rt_thread_control t 2 p ?s
        else returns (RT_EOK, ?s)) = returns (RT_EOK, s1)"
    "kernel_state T idle s1 H (restored s t p Q) hs ss" "kernel.more s1 = kernel.more ?s"
    "\<And>y. priority_of y s1 = (if y = t then unat p else priority_of y ?s)" "current_thread s1 = current_thread ?s"
    "\<And>y. thread_stat y s1 = thread_stat y ?s" "lock_nest s1 = lock_nest ?s"
    by (rule restore_state [OF K0 t p(2), unfolded rs]) (rule that)
  have R: "restored s t p Q h = Q h" if "h \<in> H" "rt_thread_defunct < h" for h
    using restored_wait [OF kernel_stateD(1) [OF K] t p(2) that] .
  have emp: "rt_list_isempty x (tlists s1)"
    using family_isempty [OF lists_okD(1) [OF sched_okD(1) [OF kernel_okD(1) [OF kernel_stateD(1) [OF s1(2)]]]] x(1)]
      R [OF x] e by simp
  let ?n = "(mutex_of s1 x)\<lparr>mutex_value := mutex_value (mutex_of s1 x) + 1, mutex_owner := None, original_priority := 0xff\<rparr>"
  have "hand_over x s1 = returns (False, set_mutex x ?n s1)" using emp by (simp add: hand_over_def)
  then have "rt_mutex_release x s = returns (RT_EOK, set_mutex x ?n s1)"
    using ow s1(1) [unfolded p(1)] by (simp add: rt_mutex_release_def in_thread [OF cur ctx] Let_def split: if_splits)
  moreover have "kernel_state T idle (set_mutex x ?n s1) H (restored s t p Q) hs ss" by (rule set_obj_state(2) [OF s1(2)])
  ultimately show ?thesis
    using that [of "set_mutex x ?n s1"] ipc_of_more [OF s1(3)] s1(4-7) R cur by simp
qed

end
