(* ===== verification/MutexSpec.thy ===== *)
theory MutexSpec
  imports MutexLaws
begin

text \<open>
  What the mutexes of a system promise, as a machine of its own: who holds each mutex, how often, at
  which priority it was taken, who waits in which order, and the priorities of the threads. The
  invariant of priority inheritance is proved on this machine.
\<close>

subsection \<open>The machine\<close>

record mutexes =
  by_prio :: "nat \<Rightarrow> bool"
  owner_of :: "nat \<Rightarrow> nat option"
  holds :: "nat \<Rightarrow> nat"
  saved :: "nat \<Rightarrow> nat"
  waiting :: "nat \<Rightarrow> nat list"
  prio :: "nat \<Rightarrow> nat"

text \<open>\<open>Other P\<close> is a step of the system that takes or releases no mutex; it may give new priorities to \<open>P\<close>.\<close>

datatype mutex_event = Other "nat set" | New nat bool | Take nat nat | Release nat nat

definition outside :: "nat \<Rightarrow> mutexes \<Rightarrow> bool" where
  "outside t v \<longleftrightarrow> (\<forall>x. t \<notin> set (waiting v x))"

definition place :: "bool \<Rightarrow> (nat \<Rightarrow> nat) \<Rightarrow> nat \<Rightarrow> nat list \<Rightarrow> nat list" where
  "place sorted_by r t l = (if sorted_by then put_prio r t l else put_fifo t l)"

inductive mutex_step :: "mutex_event \<Rightarrow> mutexes \<Rightarrow> mutexes \<Rightarrow> bool" where
  quiet: "(\<And>x. subseq (q x) (waiting v x)) \<Longrightarrow> (\<And>t. t \<notin> P \<Longrightarrow> p t = prio v t) \<Longrightarrow>
    mutex_step (Other P) v (v\<lparr>waiting := q, prio := p\<rparr>)"
| new: "waiting v x = [] \<Longrightarrow>
    mutex_step (New x f) v (v\<lparr>by_prio := (by_prio v)(x := f), owner_of := (owner_of v)(x := None),
      holds := (holds v)(x := 0), saved := (saved v)(x := 255)\<rparr>)"
| acquire: "owner_of v x = None \<Longrightarrow> waiting v x = [] \<Longrightarrow> outside t v \<Longrightarrow>
    mutex_step (Take x t) v (v\<lparr>owner_of := (owner_of v)(x := Some t), holds := (holds v)(x := 1),
      saved := (saved v)(x := prio v t)\<rparr>)"
| again: "owner_of v x = Some t \<Longrightarrow> mutex_step (Take x t) v (v\<lparr>holds := (holds v)(x := holds v x + 1)\<rparr>)"
| refused: "owner_of v x \<noteq> None \<Longrightarrow> owner_of v x \<noteq> Some t \<Longrightarrow> mutex_step (Take x t) v v"
| wait: "owner_of v x = Some ow \<Longrightarrow> ow \<noteq> t \<Longrightarrow> outside t v \<Longrightarrow>
    p = (prio v)(ow := min (prio v ow) (prio v t)) \<Longrightarrow>
    mutex_step (Take x t) v (v\<lparr>waiting := (waiting v)(x := place (by_prio v x) p t (waiting v x)), prio := p\<rparr>)"
| not_owner: "owner_of v x \<noteq> Some t \<Longrightarrow> mutex_step (Release x t) v v"
| inner: "owner_of v x = Some t \<Longrightarrow> 1 < holds v x \<Longrightarrow>
    mutex_step (Release x t) v (v\<lparr>holds := (holds v)(x := holds v x - 1)\<rparr>)"
| pass: "owner_of v x = Some t \<Longrightarrow> holds v x = 1 \<Longrightarrow> waiting v x = w # ws \<Longrightarrow> outside t v \<Longrightarrow>
    mutex_step (Release x t) v (v\<lparr>owner_of := (owner_of v)(x := Some w), saved := (saved v)(x := prio v w),
      waiting := (waiting v)(x := ws), prio := (prio v)(t := saved v x)\<rparr>)"
| free: "owner_of v x = Some t \<Longrightarrow> holds v x = 1 \<Longrightarrow> waiting v x = [] \<Longrightarrow> outside t v \<Longrightarrow>
    mutex_step (Release x t) v (v\<lparr>owner_of := (owner_of v)(x := None), holds := (holds v)(x := 0),
      saved := (saved v)(x := 255), prio := (prio v)(t := saved v x)\<rparr>)"

inductive_cases mutex_stepE: "mutex_step e v v'"

subsection \<open>Priority inheritance\<close>

text \<open>
  \<open>b\<close> are the threads' own priorities. A thread without a mutex runs at its own priority; the owner of
  a mutex has the priority of every thread that waits for it, or a better one.
\<close>

definition owner_rule :: "(nat \<Rightarrow> nat) \<Rightarrow> mutexes \<Rightarrow> bool" where
  "owner_rule b v \<longleftrightarrow>
     (\<forall>x t. owner_of v x = Some t \<longrightarrow> saved v x = b t \<and> prio v t \<le> b t \<and> outside t v \<and>
        (\<forall>w \<in> set (waiting v x). prio v t \<le> prio v w)) \<and>
     (\<forall>x y t. owner_of v x = Some t \<longrightarrow> owner_of v y = Some t \<longrightarrow> x = y) \<and>
     (\<forall>t. t \<notin> ran (owner_of v) \<longrightarrow> prio v t = b t)"

definition queue_rule :: "mutexes \<Rightarrow> bool" where
  "queue_rule v \<longleftrightarrow>
     (\<forall>x. by_prio v x \<and> sorted (map (prio v) (waiting v x)) \<and> distinct (waiting v x)) \<and>
     (\<forall>x y. x \<noteq> y \<longrightarrow> set (waiting v x) \<inter> set (waiting v y) = {}) \<and>
     (\<forall>x. owner_of v x = None \<longrightarrow> waiting v x = [])"

definition inheritance_ok :: "(nat \<Rightarrow> nat) \<Rightarrow> mutexes \<Rightarrow> bool" where
  "inheritance_ok b v \<longleftrightarrow> owner_rule b v \<and> queue_rule v"

text \<open>
  The discipline: mutexes wake by priority and are initialised while nobody owns them, no thread takes a second mutex,
  and nothing else changes priorities.
\<close>

definition disciplined :: "mutexes \<Rightarrow> mutex_event \<Rightarrow> bool" where
  "disciplined v e \<longleftrightarrow>
     (case e of
        Other P \<Rightarrow> P = {}
      | New x f \<Rightarrow> f \<and> owner_of v x = None
      | Take x t \<Rightarrow> (\<forall>y. owner_of v y = Some t \<longrightarrow> y = x)
      | Release x t \<Rightarrow> True)"

lemma owner_ruleD:
  assumes "owner_rule b v"
  shows "owner_of v x = Some t \<Longrightarrow> saved v x = b t" "owner_of v x = Some t \<Longrightarrow> prio v t \<le> b t"
    "owner_of v x = Some t \<Longrightarrow> outside t v" "owner_of v x = Some t \<Longrightarrow> w \<in> set (waiting v x) \<Longrightarrow> prio v t \<le> prio v w"
    "owner_of v x = Some t \<Longrightarrow> owner_of v y = Some t \<Longrightarrow> x = y"
    "(\<And>x. owner_of v x \<noteq> Some t) \<Longrightarrow> prio v t = b t"
  using assms unfolding owner_rule_def ran_def by blast+

lemma queue_ruleD:
  assumes "queue_rule v"
  shows "by_prio v x" "sorted (map (prio v) (waiting v x))" "distinct (waiting v x)"
    "w \<in> set (waiting v x) \<Longrightarrow> w \<in> set (waiting v y) \<Longrightarrow> x = y" "owner_of v x = None \<Longrightarrow> waiting v x = []"
  using assms unfolding queue_rule_def by blast+

lemma subseq_set: "subseq xs ys \<Longrightarrow> set xs \<subseteq> set ys"
  by (auto dest: list_emb_set)

lemma sublist_kept:
  assumes "subseq xs ys"
  shows "distinct ys \<Longrightarrow> distinct xs" and "sorted (map r ys) \<Longrightarrow> sorted (map r xs)"
  using assms by (induction rule: list_emb.induct) (auto dest: subseq_set)

lemma not_in_ran_upd: "y \<notin> ran (f(x := n)) \<Longrightarrow> f x \<noteq> Some y \<Longrightarrow> f z \<noteq> Some y"
  by (cases "z = x") (auto intro: ranI)

lemma sorted_prio_cong: "(\<And>t. t \<in> set l \<Longrightarrow> p t = q t) \<Longrightarrow> sorted (map p l) = sorted (map q l)"
  by (simp cong: map_cong)

lemma outside_mono: "outside t v \<Longrightarrow> (\<And>x. set (waiting v' x) \<subseteq> set (waiting v x)) \<Longrightarrow> outside t v'"
  unfolding outside_def by blast

lemma quiet_keeps_inheritance:
  assumes "inheritance_ok b v" and q: "\<And>x. subseq (q x) (waiting v x)"
  shows "inheritance_ok b (v\<lparr>waiting := q, prio := prio v\<rparr>)"
proof -
  let ?v = "v\<lparr>waiting := q, prio := prio v\<rparr>"
  have O: "owner_rule b v" and R: "queue_rule v" using assms(1) by (simp_all add: inheritance_ok_def)
  have sub: "set (q x) \<subseteq> set (waiting v x)" for x using subseq_set [OF q] .
  have out: "outside t ?v" if "outside t v" for t by (rule outside_mono [OF that]) (simp add: sub)
  have "owner_rule b ?v"
    using O sub out unfolding owner_rule_def by simp blast
  moreover have "sorted (map (prio v) (q x))" for x
    using sublist_kept(2) [OF q] queue_ruleD(2) [OF R] .
  moreover have "distinct (q x)" for x using sublist_kept(1) [OF q] queue_ruleD(3) [OF R] .
  moreover have "q x = []" if "owner_of v x = None" for x using q [of x] queue_ruleD(5) [OF R that] by simp
  moreover have "set (q x) \<inter> set (q y) = {}" if "x \<noteq> y" for x y
    using sub [of x] sub [of y] queue_ruleD(4) [OF R] that by blast
  ultimately show ?thesis using queue_ruleD(1) [OF R] by (simp add: inheritance_ok_def queue_rule_def)
qed

text \<open>The thread that takes a free mutex.\<close>

lemma acquire_keeps_inheritance:
  assumes "inheritance_ok b v" and x: "owner_of v x = None" and t: "outside t v"
    and single: "\<And>y. owner_of v y = Some t \<Longrightarrow> y = x"
  shows "inheritance_ok b (v\<lparr>owner_of := (owner_of v)(x := Some t), holds := h, saved := (saved v)(x := prio v t)\<rparr>)"
proof -
  let ?v = "v\<lparr>owner_of := (owner_of v)(x := Some t), holds := h, saved := (saved v)(x := prio v t)\<rparr>"
  have O: "owner_rule b v" and R: "queue_rule v" using assms(1) by (simp_all add: inheritance_ok_def)
  have none: "owner_of v y \<noteq> Some t" for y using single [of y] x by auto
  have p: "prio v t = b t" by (rule owner_ruleD(6) [OF O none])
  have e: "waiting v x = []" by (rule queue_ruleD(5) [OF R x])
  have out: "outside y ?v = outside y v" for y by (simp add: outside_def)
  have "owner_rule b ?v"
    unfolding owner_rule_def out
  proof (intro conjI allI impI ballI)
    show "prio ?v y = b y" if "y \<notin> ran (owner_of ?v)" for y
    proof -
      have "owner_of v z \<noteq> Some y" for z by (rule not_in_ran_upd [of _ _ x "Some t"]) (use that x in simp_all)
      then show ?thesis using owner_ruleD(6) [OF O] by simp
    qed
    fix z y assume zy: "owner_of ?v z = Some y"
    then have old: "z \<noteq> x \<Longrightarrow> owner_of v z = Some y" and nw: "z = x \<Longrightarrow> y = t" by simp_all
    show "saved ?v z = b y" using owner_ruleD(1) [OF O old] nw p by (cases "z = x") auto
    show "prio ?v y \<le> b y" using owner_ruleD(2) [OF O old] nw p by (cases "z = x") auto
    show "outside y v" using owner_ruleD(3) [OF O old] nw t by blast
    show "prio ?v y \<le> prio ?v w" if "w \<in> set (waiting ?v z)" for w
      using owner_ruleD(4) [OF O old, of w] that e by (cases "z = x") auto
    show "z = u" if "owner_of ?v u = Some y" for u
      using that zy owner_ruleD(5) [OF O] none by (auto split: if_splits)
  qed
  moreover have "queue_rule ?v" using R by (simp add: queue_rule_def)
  ultimately show ?thesis by (simp add: inheritance_ok_def)
qed

text \<open>A thread that waits, and lends its priority to the owner.\<close>

lemma wait_keeps_inheritance:
  assumes "inheritance_ok b v" and x: "owner_of v x = Some ow" "ow \<noteq> t" and t: "outside t v"
    and single: "\<And>y. owner_of v y = Some t \<Longrightarrow> y = x" and p: "p = (prio v)(ow := min (prio v ow) (prio v t))"
  shows "inheritance_ok b (v\<lparr>waiting := (waiting v)(x := place (by_prio v x) p t (waiting v x)), prio := p\<rparr>)"
proof -
  let ?l = "place (by_prio v x) p t (waiting v x)"
  let ?v = "v\<lparr>waiting := (waiting v)(x := ?l), prio := p\<rparr>"
  have O: "owner_rule b v" and R: "queue_rule v" using assms(1) by (simp_all add: inheritance_ok_def)
  have none: "owner_of v y \<noteq> Some t" for y using single [of y] x by auto
  have l: "?l = put_prio p t (waiting v x)" using queue_ruleD(1) [OF R] by (simp add: place_def)
  have own: "outside ow v" by (rule owner_ruleD(3) [OF O x(1)])
  have same: "p y = prio v y" if "y \<in> set (waiting v z)" for y z using that own by (auto simp: p outside_def)
  have pt: "p t = prio v t" using x(2) by (simp add: p)
  have le: "p y \<le> prio v y" for y by (simp add: p)
  have srt: "sorted (map p (waiting v z))" for z
    using queue_ruleD(2) [OF R, of z] sorted_prio_cong [of "waiting v z" p "prio v"] same [of _ z] by blast
  have "owner_rule b ?v"
    unfolding owner_rule_def
  proof (intro conjI allI impI ballI)
    show "prio ?v y = b y" if "y \<notin> ran (owner_of ?v)" for y
    proof -
      have "owner_of v z \<noteq> Some y" for z using that by (auto simp: ran_def)
      moreover from this have "y \<noteq> ow" using x(1) by blast
      ultimately show ?thesis using owner_ruleD(6) [OF O] by (simp add: p)
    qed
    fix z y w assume zy: "owner_of ?v z = Some y" and w: "w \<in> set (waiting ?v z)"
    show "prio ?v y \<le> prio ?v w"
    proof (cases "z = x")
      case True
      then have "y = ow" using zy x(1) by simp
      moreover have "w = t \<or> w \<in> set (waiting v x)" using w True l by simp
      ultimately show ?thesis
        using owner_ruleD(4) [OF O x(1), of w] same [of w x] pt x(2) by (auto simp: p min.coboundedI1)
    next
      case False
      then have "w \<in> set (waiting v z)" using w by simp
      then show ?thesis
        using owner_ruleD(4) [OF O, of z y w] zy same [of w z] le [of y] by simp
    qed
  next
    fix z y assume "owner_of ?v z = Some y"
    then have zy: "owner_of v z = Some y" by simp
    show "outside y ?v" using owner_ruleD(3) [OF O zy] none [of z] zy by (auto simp: outside_def l)
    show "saved ?v z = b y" using owner_ruleD(1) [OF O zy] by simp
    show "prio ?v y \<le> b y" using owner_ruleD(2) [OF O zy] le [of y] by simp
  qed (use owner_ruleD(5) [OF O] in auto)
  moreover have "queue_rule ?v"
    unfolding queue_rule_def
  proof (intro conjI allI impI)
    fix z
    show "sorted (map (prio ?v) (waiting ?v z))" using srt prio.put_sorted [OF srt] l by simp
    show "distinct (waiting ?v z)" using queue_ruleD(3) [OF R] prio.put_distinct t l by (simp add: outside_def)
    show "set (waiting ?v z) \<inter> set (waiting ?v y) = {}" if "z \<noteq> y" for y
      using queue_ruleD(4) [OF R] t l that by (auto simp: outside_def)
    show "waiting ?v z = []" if "owner_of ?v z = None"
      using queue_ruleD(5) [OF R] that x(1) by auto
  qed (use queue_ruleD(1) [OF R] in simp)
  ultimately show ?thesis by (simp add: inheritance_ok_def)
qed

text \<open>The end of a hold: the owner has its own priority again, and the first waiting thread is the owner.\<close>

lemma end_keeps_inheritance:
  assumes "inheritance_ok b v" and x: "owner_of v x = Some t"
    and l: "waiting v x = (case new of None \<Rightarrow> [] | Some w \<Rightarrow> w # ws)" and nws: "new = None \<Longrightarrow> ws = []"
    and s: "\<And>w. new = Some w \<Longrightarrow> s = prio v w"
  shows "inheritance_ok b (v\<lparr>owner_of := (owner_of v)(x := new), holds := h, saved := (saved v)(x := s),
      waiting := (waiting v)(x := ws), prio := (prio v)(t := saved v x)\<rparr>)"
proof -
  let ?v = "v\<lparr>owner_of := (owner_of v)(x := new), holds := h, saved := (saved v)(x := s),
      waiting := (waiting v)(x := ws), prio := (prio v)(t := saved v x)\<rparr>"
  have O: "owner_rule b v" and R: "queue_rule v" using assms(1) by (simp_all add: inheritance_ok_def)
  have t: "outside t v" "saved v x = b t" using owner_ruleD(1,3) [OF O x] by auto
  have sub: "subseq ws (waiting v x)" using l nws by (cases new) (simp_all add: list_emb_Cons)
  have subs: "subseq (waiting ?v z) (waiting v z)" for z using sub by simp
  have same: "prio ?v y = prio v y" if "y \<in> set (waiting v z)" for y z using that t(1) by (auto simp: outside_def)
  have out: "outside y v \<Longrightarrow> outside y ?v" for y by (erule outside_mono) (rule subseq_set [OF subs])
  have free: "owner_of v z \<noteq> Some w" if "new = Some w" for w z
  proof
    assume "owner_of v z = Some w"
    then have "outside w v" by (rule owner_ruleD(3) [OF O])
    then have "w \<notin> set (waiting v x)" by (simp add: outside_def)
    then show False using l that by simp
  qed
  have own: "prio v w = b w" if "new = Some w" for w by (rule owner_ruleD(6) [OF O free [OF that]])
  have wt: "w \<noteq> t" if "new = Some w" for w using free [OF that, of x] x by auto
  have wout: "outside w ?v" if "new = Some w" for w
    unfolding outside_def
  proof
    fix z
    have wx: "w \<in> set (waiting v x)" "w \<notin> set ws" using l that queue_ruleD(3) [OF R, of x] by simp_all
    show "w \<notin> set (waiting ?v z)" using wx queue_ruleD(4) [OF R wx(1), of z] by auto
  qed
  have first: "prio v w \<le> prio v y" if "new = Some w" "y \<in> set ws" for w y
    using queue_ruleD(2) [OF R, of x] l that by auto
  have "owner_rule b ?v"
    unfolding owner_rule_def
  proof (intro conjI allI impI ballI)
    show "prio ?v y = b y" if y: "y \<notin> ran (owner_of ?v)" for y
    proof (cases "y = t")
      case False
      have "owner_of v z \<noteq> Some y" for z by (rule not_in_ran_upd [of _ _ x new]) (use y x False in simp_all)
      then show ?thesis using owner_ruleD(6) [OF O] False by simp
    qed (simp add: t)
    fix z y assume zy: "owner_of ?v z = Some y"
    then have old: "z \<noteq> x \<Longrightarrow> owner_of v z = Some y" and nw: "z = x \<Longrightarrow> new = Some y" by simp_all
    have yt: "y \<noteq> t" using old nw wt owner_ruleD(5) [OF O x] by blast
    show "saved ?v z = b y" using owner_ruleD(1) [OF O old] nw s own by (cases "z = x") auto
    show "prio ?v y \<le> b y" using owner_ruleD(2) [OF O old] nw own yt by (cases "z = x") auto
    show "outside y ?v" using out [OF owner_ruleD(3) [OF O old]] wout [OF nw] by blast
    show "prio ?v y \<le> prio ?v w" if w: "w \<in> set (waiting ?v z)" for w
      using w yt owner_ruleD(4) [OF O old, of w] nw first same [of w z] same [of w x] subseq_set [OF sub]
      by (cases "z = x") auto
    show "z = u" if "owner_of ?v u = Some y" for u
      using that zy owner_ruleD(5) [OF O] free by (auto split: if_splits)
  qed
  moreover have "queue_rule ?v"
    unfolding queue_rule_def
  proof (intro conjI allI impI)
    fix z
    have "sorted (map (prio v) (waiting ?v z))" "distinct (waiting ?v z)"
      using sublist_kept [OF subs] queue_ruleD(2,3) [OF R] by blast+
    then show "sorted (map (prio ?v) (waiting ?v z))" "distinct (waiting ?v z)"
      using sorted_prio_cong [of "waiting ?v z" "prio ?v" "prio v"] same [of _ z] subseq_set [OF subs, of z] by blast+
    show "set (waiting ?v z) \<inter> set (waiting ?v y) = {}" if "z \<noteq> y" for y
      using subseq_set [OF subs, of z] subseq_set [OF subs, of y] queue_ruleD(4) [OF R] that by blast
    show "waiting ?v z = []" if "owner_of ?v z = None"
      using queue_ruleD(5) [OF R] that nws by (auto split: if_splits)
  qed (use queue_ruleD(1) [OF R] in simp)
  ultimately show ?thesis by (simp add: inheritance_ok_def)
qed

theorem inheritance_preserved:
  assumes "mutex_step e v v'" and "disciplined v e" and "inheritance_ok b v"
  shows "inheritance_ok b v'"
  using assms
proof (induction rule: mutex_step.induct)
  case (quiet q v P p)
  then have "p = prio v" by (auto simp: disciplined_def)
  then show ?case using quiet_keeps_inheritance [OF quiet.prems(2) quiet.hyps(1)] by simp
next
  case (new v x f)
  then have "owner_rule b v" "queue_rule v" "f" "owner_of v x = None" by (simp_all add: disciplined_def inheritance_ok_def)
  then show ?case
    unfolding inheritance_ok_def owner_rule_def queue_rule_def ran_def outside_def by (simp add: fun_upd_idem)
next
  case (acquire v x t)
  then show ?case by (intro acquire_keeps_inheritance) (simp_all add: disciplined_def)
next
  case (wait v x ow t p)
  then show ?case by (intro wait_keeps_inheritance) (simp_all add: disciplined_def)
next
  case (pass v x t w ws)
  then show ?case
    using end_keeps_inheritance [of b v x t ws "Some w" "prio v w" "holds v"] by simp
next
  case (free v x t)
  then show ?case
    using end_keeps_inheritance [of b v x t "[]" None 255 "(holds v)(x := 0)"] by (simp add: fun_upd_idem)
qed (simp_all add: inheritance_ok_def owner_rule_def queue_rule_def outside_def)

end
