(* ===== verification/IpcCalls.thy ===== *)
theory IpcCalls
  imports MutexSpec
begin

text \<open>
  Systems of threads, semaphores and mutexes: the calls, when each may be made, and the invariant
  every call keeps, the calls of the kernel and the tick included.
\<close>

subsection \<open>The calls\<close>

datatype ipc_call =
    Kernel call
  | Sem_Init nat u32 u8 | Sem_Take nat int | Sem_Release nat | Sem_Control nat int u32 | Sem_Detach nat | Sem_Delete nat
  | Mutex_Init nat u8 | Mutex_Take nat int | Mutex_Release nat | Mutex_Control nat int | Mutex_Detach nat | Mutex_Delete nat

fun perform_ipc ::
  "(nat \<Rightarrow> 'a ipc_scheme \<Rightarrow> 'a ipc_scheme run) \<Rightarrow> ipc_call \<Rightarrow> 'a ipc_scheme \<Rightarrow> 'a ipc_scheme run" where
  "perform_ipc cb (Kernel c) s = perform cb c s"
| "perform_ipc cb (Sem_Init x v f) s = state_of (rt_sem_init x v f s)"
| "perform_ipc cb (Sem_Take x time) s = state_of (rt_sem_take x time s)"
| "perform_ipc cb (Sem_Release x) s = state_of (rt_sem_release x s)"
| "perform_ipc cb (Sem_Control x cmd arg) s = state_of (rt_sem_control x cmd arg s)"
| "perform_ipc cb (Sem_Detach x) s = state_of (rt_sem_detach x s)"
| "perform_ipc cb (Sem_Delete x) s = state_of (rt_sem_delete x s)"
| "perform_ipc cb (Mutex_Init x f) s = state_of (rt_mutex_init x f s)"
| "perform_ipc cb (Mutex_Take x time) s = state_of (rt_mutex_take x time s)"
| "perform_ipc cb (Mutex_Release x) s = state_of (rt_mutex_release x s)"
| "perform_ipc cb (Mutex_Control x cmd) s = state_of (rt_mutex_control x cmd s)"
| "perform_ipc cb (Mutex_Detach x) s = state_of (rt_mutex_detach x s)"
| "perform_ipc cb (Mutex_Delete x) s = state_of (rt_mutex_delete x s)"

text \<open>
  A call that may block is made by a thread other than the idle one, outside interrupts and critical
  sections, with a time below half the range of the tick; a mutex is held fewer than 255 times; an
  object is initialised only while no thread waits for it.
\<close>

definition may_block :: "nat \<Rightarrow> int \<Rightarrow> 'a kernel_scheme \<Rightarrow> bool" where
  "may_block idle time s \<longleftrightarrow>
     current_thread s \<noteq> Some idle \<and> interrupt_nest s = 0 \<and> lock_nest s = 0 \<and> time < 2 ^ 31 - 1"

definition allowed_ipc :: "nat set \<Rightarrow> nat \<Rightarrow> nat set \<Rightarrow> nat set \<Rightarrow> 'a ipc_scheme \<Rightarrow> ipc_call \<Rightarrow> bool" where
  "allowed_ipc T idle S M s c \<longleftrightarrow>
     (case c of
        Kernel k \<Rightarrow> allowed T idle s k
      | Sem_Init x v f \<Rightarrow> x \<in> S \<and> v < 0x10000 \<and> wait_flag f \<and> rt_list_isempty x (tlists s)
      | Sem_Take x time \<Rightarrow> x \<in> S \<and> (sem_value (sem_of s x) = 0 \<and> time \<noteq> 0 \<longrightarrow> may_block idle time s)
      | Sem_Release x \<Rightarrow> x \<in> S
      | Sem_Control x cmd arg \<Rightarrow> x \<in> S
      | Sem_Detach x \<Rightarrow> x \<in> S \<and> sem_static (sem_of s x)
      | Sem_Delete x \<Rightarrow> x \<in> S \<and> \<not> sem_static (sem_of s x) \<and> interrupt_nest s = 0
      | Mutex_Init x f \<Rightarrow> x \<in> M \<and> wait_flag f \<and> rt_list_isempty x (tlists s)
      | Mutex_Take x time \<Rightarrow> x \<in> M \<and> may_block idle time s \<and> mutex_hold (mutex_of s x) < 255
      | Mutex_Release x \<Rightarrow> x \<in> M \<and> interrupt_nest s = 0
      | Mutex_Control x cmd \<Rightarrow> x \<in> M
      | Mutex_Detach x \<Rightarrow> x \<in> M \<and> mutex_static (mutex_of s x)
      | Mutex_Delete x \<Rightarrow> x \<in> M \<and> \<not> mutex_static (mutex_of s x) \<and> interrupt_nest s = 0)"

subsection \<open>The invariant\<close>

text \<open>
  A thread waits for a semaphore only while its value is 0. A mutex is free, or it is held by one
  thread; only then threads wait for it.
\<close>

definition sem_ok :: "'a ipc_scheme \<Rightarrow> (nat \<Rightarrow> nat list) \<Rightarrow> nat \<Rightarrow> bool" where
  "sem_ok s Q x \<longleftrightarrow> wait_flag (sem_flag (sem_of s x)) \<and> (0 < sem_value (sem_of s x) \<longrightarrow> Q x = [])"

definition mutex_ok :: "'a ipc_scheme \<Rightarrow> nat set \<Rightarrow> (nat \<Rightarrow> nat list) \<Rightarrow> nat \<Rightarrow> bool" where
  "mutex_ok s T Q x \<longleftrightarrow>
     wait_flag (mutex_flag (mutex_of s x)) \<and>
     (case mutex_owner (mutex_of s x) of
        None \<Rightarrow> mutex_value (mutex_of s x) = 1 \<and> mutex_hold (mutex_of s x) = 0 \<and> Q x = []
      | Some ow \<Rightarrow> mutex_value (mutex_of s x) = 0 \<and> mutex_hold (mutex_of s x) \<noteq> 0 \<and> ow \<in> T \<and> ow \<notin> set (Q x) \<and>
          unat (original_priority (mutex_of s x)) < PRIORITY_MAX)"

definition objects_ok :: "nat set \<Rightarrow> nat set \<Rightarrow> nat set \<Rightarrow> nat set \<Rightarrow> 'a ipc_scheme \<Rightarrow> (nat \<Rightarrow> nat list) \<Rightarrow> bool" where
  "objects_ok T H S M s Q \<longleftrightarrow>
     S \<union> M \<subseteq> H \<and> S \<inter> M = {} \<and> (\<forall>x \<in> S \<union> M. rt_thread_defunct < x) \<and>
     (\<forall>x \<in> S. sem_ok s Q x) \<and> (\<forall>x \<in> M. mutex_ok s T Q x)"

definition ipc_inv :: "nat set \<Rightarrow> nat \<Rightarrow> nat set \<Rightarrow> nat set \<Rightarrow> 'a ipc_scheme \<Rightarrow> bool" where
  "ipc_inv T idle S M s \<longleftrightarrow> (\<exists>H Q hs ss. kernel_state T idle s H Q hs ss \<and> objects_ok T H S M s Q)"

lemma subseq_in: "subseq xs ys \<Longrightarrow> x \<notin> set ys \<Longrightarrow> x \<notin> set xs"
  using list_emb_set [of "(=)" xs ys x] by auto

lemma objects_okD:
  assumes "objects_ok T H S M s Q"
  shows "x \<in> S \<Longrightarrow> x \<in> H" "x \<in> M \<Longrightarrow> x \<in> H" "x \<in> S \<Longrightarrow> rt_thread_defunct < x" "x \<in> M \<Longrightarrow> rt_thread_defunct < x"
    "x \<in> S \<Longrightarrow> sem_ok s Q x" "x \<in> M \<Longrightarrow> mutex_ok s T Q x" "x \<in> S \<Longrightarrow> x \<notin> M"
  using assms by (auto simp: objects_ok_def)

lemma mutex_ok_cases:
  assumes "mutex_ok s T Q x"
  obtains (Free) "mutex_owner (mutex_of s x) = None" "mutex_value (mutex_of s x) = 1" "mutex_hold (mutex_of s x) = 0" "Q x = []"
  | (Held) ow where "mutex_owner (mutex_of s x) = Some ow" "mutex_value (mutex_of s x) = 0" "mutex_hold (mutex_of s x) \<noteq> 0"
      "ow \<in> T" "ow \<notin> set (Q x)" "unat (original_priority (mutex_of s x)) < PRIORITY_MAX"
  using assms by (cases "mutex_owner (mutex_of s x)") (auto simp: mutex_ok_def)

lemma mutex_ok_shrink:
  assumes "mutex_ok s T Q x" and "mutex_of s' x = mutex_of s x" and "subseq (Q' x) (Q x)"
  shows "mutex_ok s' T Q' x"
proof (rule mutex_ok_cases [OF assms(1)])
  fix ow assume "mutex_owner (mutex_of s x) = Some ow" "ow \<notin> set (Q x)"
  then show ?thesis using assms(1,2) subseq_in [OF assms(3), of ow] by (simp add: mutex_ok_def)
qed (use assms in \<open>simp add: mutex_ok_def\<close>)

text \<open>Wait lists that only lose threads keep the objects as they are.\<close>

lemma objects_ok_shrink:
  assumes "objects_ok T H S M s Q" and "sem_of s' = sem_of s" "mutex_of s' = mutex_of s" and "waits_in H Q Q'"
  shows "objects_ok T H S M s' Q'"
proof -
  have sub: "subseq (Q' x) (Q x)" if "x \<in> S \<union> M" for x
    using assms(1,4) that by (auto simp: objects_ok_def waits_in_def)
  have "sem_ok s' Q' x" if "x \<in> S" for x
    using objects_okD(5) [OF assms(1) that] sub [of x] that by (auto simp: sem_ok_def assms(2))
  moreover have "mutex_ok s' T Q' x" if "x \<in> M" for x
    using mutex_ok_shrink [OF objects_okD(6) [OF assms(1) that], of s' Q'] sub [of x] that assms(3) by simp
  ultimately show ?thesis using assms(1) by (simp add: objects_ok_def)
qed

text \<open>Only object \<open>x\<close> and its list change.\<close>

lemma objects_ok_one:
  assumes O: "objects_ok T H S M s Q"
    and "\<And>y. y \<noteq> x \<Longrightarrow> sem_of s' y = sem_of s y" "\<And>y. y \<noteq> x \<Longrightarrow> mutex_of s' y = mutex_of s y"
    and "\<And>h. h \<in> H \<Longrightarrow> rt_thread_defunct < h \<Longrightarrow> h \<noteq> x \<Longrightarrow> subseq (Q' h) (Q h)"
    and "x \<in> S \<Longrightarrow> sem_ok s' Q' x" and "x \<in> M \<Longrightarrow> mutex_ok s' T Q' x"
  shows "objects_ok T H S M s' Q'"
proof -
  have "sem_ok s' Q' y" if "y \<in> S" for y
    using assms(4) [of y] objects_okD(1,3,5) [OF O that] assms(2,5) that by (cases "y = x") (auto simp: sem_ok_def)
  moreover have "mutex_ok s' T Q' y" if "y \<in> M" for y
  proof (cases "y = x")
    case False
    have "subseq (Q' y) (Q y)" using assms(4) objects_okD(2,4) [OF O that] False by blast
    then show ?thesis by (rule mutex_ok_shrink [OF objects_okD(6) [OF O that] assms(3) [OF False]])
  qed (use assms(6) that in simp)
  ultimately show ?thesis using O by (simp add: objects_ok_def)
qed

lemma ipc_invI: "kernel_state T idle s H Q hs ss \<Longrightarrow> objects_ok T H S M s Q \<Longrightarrow> ipc_inv T idle S M s"
  unfolding ipc_inv_def by blast

subsection \<open>Resetting and removing objects\<close>

lemma resume_all_state:
  assumes K: "kernel_state T idle s H Q hs ss" and x: "x \<in> H" "rt_thread_defunct < x"
  obtains s' Q' hs' where "rt_ipc_list_resume_all x s = returns s'" and "kernel_state T idle s' H Q' hs' ss"
    and "Q' x = []" and "\<And>h. h \<in> H \<Longrightarrow> rt_thread_defunct < h \<Longrightarrow> h \<noteq> x \<Longrightarrow> Q' h = Q h"
    and "kernel.more s' = kernel.more s" and "\<And>t. priority_of t s' = priority_of t s"
    and "\<And>t. t \<in> set (Q x) \<Longrightarrow> thread_stat t s' = RT_THREAD_READY \<and> th_error (thread_of s' t) = - RT_ERROR"
proof -
  note D = kernel_stateD [OF K]
  obtain s' Q' hs' where s': "rt_ipc_list_resume_all x s = returns s'" "kernel_ok s' H T Q' hs' ss" "Q' x = []"
    "\<forall>h \<in> H. rt_thread_defunct < h \<longrightarrow> h \<noteq> x \<longrightarrow> Q' h = Q h" "set hs' \<subseteq> set hs" "others_kept (set (Q x)) s s'"
    "\<forall>t \<in> set (Q x). thread_stat t s' = RT_THREAD_READY \<and> th_error (thread_of s' t) = - RT_ERROR"
    using rt_ipc_list_resume_all_ok [OF D(1) x] by blast
  note O = s'(6) [unfolded others_kept_def]
  obtain c where c: "c \<in> T" "current_thread s = Some c" "thread_stat c s = RT_THREAD_READY" by (rule runner [OF K])
  have still: "thread_stat y s' = RT_THREAD_READY" if "thread_stat y s = RT_THREAD_READY" for y
    using that O s'(7) by (cases "y \<in> set (Q x)") (simp_all add: thread_stat_def)
  have "on_time s' hs'" using on_time_sub [OF D(2) _ s'(5)] O by blast
  moreover have "running s' T" using c still O by (auto simp: running_def)
  ultimately have "kernel_state T idle s' H Q' hs' ss"
    using s'(2) D(4,6) still [OF D(5)] O by (simp add: kernel_state_def)
  then show ?thesis using that [of s' Q' hs'] s' O by blast
qed

lemma settle_state:
  assumes K: "kernel_state T idle s H Q hs ss"
  shows "rt_schedule s = returns (settle Q s)" and "kernel_state T idle (settle Q s) H Q hs ss"
proof -
  note D = kernel_stateD [OF K]
  show "rt_schedule s = returns (settle Q s)" by (rule schedule_keeps(1) [OF K])
  have "ready_order Q \<noteq> []" by (rule idle_live [OF D(1,4,5)])
  then have "running (settle Q s) T"
    using first_ready [OF kernel_okD(1) [OF D(1)]] D(3) by (auto simp: running_def)
  moreover have "on_time (settle Q s) hs" using D(2) by (simp add: on_time_def due_def)
  ultimately show "kernel_state T idle (settle Q s) H Q hs ss"
    using kernel_ok_settle [OF D(1)] D(4-6) by (simp add: kernel_state_def)
qed

text \<open>Resuming a suspended thread, without scheduling.\<close>

lemma resume_state:
  assumes K: "kernel_state T idle s H Q hs ss" and t: "t \<in> T" "thread_stat t s = RT_THREAD_SUSPEND"
  obtains s' where "rt_thread_resume t s = returns (RT_EOK, s')"
    and "kernel_state T idle s' H (made_ready s t Q) (remove1 t hs) ss" and "kernel_frame t s s'"
    and "thread_stat t s' = RT_THREAD_READY" and "th_error (thread_of s' t) = th_error (thread_of s t)"
proof -
  note D = kernel_stateD [OF K]
  obtain s' where s': "rt_thread_resume t s = returns (RT_EOK, s')"
    "kernel_ok s' H T (made_ready s t Q) (remove1 t hs) ss" "kernel_frame t s s'" "thread_stat t s' = RT_THREAD_READY"
    "th_error (thread_of s' t) = th_error (thread_of s t)" "due s' = due s"
    by (rule rt_thread_resume_ok [OF D(1) t])
  note fr = kernel_frameD [OF s'(3)]
  have still: "thread_stat y s = RT_THREAD_READY \<Longrightarrow> thread_stat y s' = RT_THREAD_READY" for y
    using fr(9) [of y] s'(4) by (cases "y = t") auto
  have "on_time s' (remove1 t hs)" using on_time_sub [OF D(2) s'(6) set_remove1_subset] .
  moreover have "running s' T" using D(3) fr(1) still by (auto simp: running_def)
  ultimately have "kernel_state T idle s' H (made_ready s t Q) (remove1 t hs) ss"
    using s'(2) D(4,6) still [OF D(5)] fr(2) by (simp add: kernel_state_def)
  then show ?thesis using that [of s'] s' by blast
qed

lemma init_list_same:
  assumes K: "kernel_state T idle s H Q hs ss" and x: "x \<in> H" and e: "rt_list_isempty x (tlists s)"
  shows "Q x = []" and "rt_ipc_object_init x s = s"
proof -
  note F = lists_okD(1) [OF sched_okD(1) [OF kernel_okD(1) [OF kernel_stateD(1) [OF K]]]]
  show Q: "Q x = []" using family_isempty [OF F x] e by simp
  have "next_link (tlists s) x = x" "prev_link (tlists s) x = x"
    using dlist_ends [OF familyD(1) [OF F x]] Q by simp_all
  then have "rt_list_init x (tlists s) = tlists s" by (simp add: rt_list_init_def set_nxt_def set_prv_def fun_upd_idem)
  then show "rt_ipc_object_init x s = s" by (simp add: rt_ipc_object_init_def upd_lists_def)
qed

subsection \<open>Every call\<close>

text \<open>The mutexes of a system, as the machine of \<open>MutexSpec\<close>; the calls are its events.\<close>

definition mutex_view :: "nat set \<Rightarrow> 'a ipc_scheme \<Rightarrow> (nat \<Rightarrow> nat list) \<Rightarrow> mutexes" where
  "mutex_view M s Q =
     \<lparr>by_prio = \<lambda>x. x \<in> M \<longrightarrow> mutex_flag (mutex_of s x) = RT_IPC_FLAG_PRIO,
      owner_of = \<lambda>x. if x \<in> M then mutex_owner (mutex_of s x) else None,
      holds = \<lambda>x. if x \<in> M then unat (mutex_hold (mutex_of s x)) else 0,
      saved = \<lambda>x. if x \<in> M then unat (original_priority (mutex_of s x)) else 255,
      waiting = \<lambda>x. if x \<in> M then Q x else [],
      prio = \<lambda>t. priority_of t s\<rparr>"

definition mutex_event_of :: "'a ipc_scheme \<Rightarrow> ipc_call \<Rightarrow> mutex_event" where
  "mutex_event_of s c =
     (case c of
        Kernel k \<Rightarrow> Other (may_change k)
      | Mutex_Init x f \<Rightarrow> New x (f = RT_IPC_FLAG_PRIO)
      | Mutex_Take x time \<Rightarrow> Take x (the (current_thread s))
      | Mutex_Release x \<Rightarrow> Release x (the (current_thread s))
      | _ \<Rightarrow> Other {})"

definition ipc_step ::
  "nat set \<Rightarrow> nat \<Rightarrow> nat set \<Rightarrow> nat set \<Rightarrow> nat set \<Rightarrow> mutex_event \<Rightarrow> 'a ipc_scheme \<Rightarrow> (nat \<Rightarrow> nat list) \<Rightarrow> 'a ipc_scheme \<Rightarrow> bool"
where
  "ipc_step T idle H S M e s Q s' \<longleftrightarrow>
     (\<exists>Q' hs ss. kernel_state T idle s' H Q' hs ss \<and> objects_ok T H S M s' Q' \<and>
        mutex_step e (mutex_view M s Q) (mutex_view M s' Q'))"

lemma ipc_stepI:
  "kernel_state T idle s' H Q' hs ss \<Longrightarrow> objects_ok T H S M s' Q' \<Longrightarrow>
    mutex_step e (mutex_view M s Q) (mutex_view M s' Q') \<Longrightarrow> ipc_step T idle H S M e s Q s'"
  unfolding ipc_step_def by blast

lemma view_same_mutexes:
  assumes "\<And>x. x \<in> M \<Longrightarrow> mutex_of s' x = mutex_of s x"
  shows "mutex_view M s' Q' =
    (mutex_view M s Q)\<lparr>waiting := waiting (mutex_view M s' Q'), prio := prio (mutex_view M s' Q')\<rparr>"
  using assms by (simp add: mutex_view_def fun_eq_iff)

lemma mutex_step_quiet:
  assumes "\<And>x. x \<in> M \<Longrightarrow> mutex_of s' x = mutex_of s x" and "\<And>x. x \<in> M \<Longrightarrow> subseq (Q' x) (Q x)"
    and "\<And>t. t \<notin> P \<Longrightarrow> priority_of t s' = priority_of t s"
  shows "mutex_step (Other P) (mutex_view M s Q) (mutex_view M s' Q')"
proof -
  have "mutex_step (Other P) (mutex_view M s Q)
      ((mutex_view M s Q)\<lparr>waiting := waiting (mutex_view M s' Q'), prio := prio (mutex_view M s' Q')\<rparr>)"
    by (rule mutex_step.quiet) (use assms(2,3) in \<open>simp_all add: mutex_view_def\<close>)
  then show ?thesis using view_same_mutexes [of M s' s Q' Q] assms(1) by metis
qed

text \<open>Steps that take and release no mutex.\<close>

lemma quiet_stepI:
  assumes "kernel_state T idle s' H Q' hs ss" and "objects_ok T H S M s' Q'" and "waits_in H Q Q'"
    and "\<And>x. x \<in> M \<Longrightarrow> mutex_of s' x = mutex_of s x" and "\<And>t. t \<notin> P \<Longrightarrow> priority_of t s' = priority_of t s"
  shows "ipc_step T idle H S M (Other P) s Q s'"
  using assms(3) objects_okD(2,4) [OF assms(2)]
  by (intro ipc_stepI [OF assms(1,2)] mutex_step_quiet assms(4,5)) (auto simp: waits_in_def)

lemma same_stepI:
  assumes "kernel_state T idle s' H Q hs ss" and "objects_ok T H S M s' Q"
    and "\<And>x. x \<in> M \<Longrightarrow> mutex_of s' x = mutex_of s x" and "\<And>t. priority_of t s' = priority_of t s"
  shows "ipc_step T idle H S M (Other {}) s Q s'"
  by (rule quiet_stepI [OF assms(1,2)]) (simp_all add: assms(3,4))

lemma kernel_call_keeps:
  assumes K: "kernel_state T idle s H Q hs ss" and O: "objects_ok T H S M s Q"
    and cb: "thread_timeouts T cb" and a: "allowed T idle s c"
  shows "\<exists>s'. perform cb c s = returns s' \<and> ipc_step T idle H S M (Other (may_change c)) s Q s'"
proof -
  obtain s' Q' hs' ss' where s': "perform cb c s = returns s'" "kernel_state T idle s' H Q' hs' ss'" "waits_in H Q Q'"
    "kernel.more s' = kernel.more s" "\<forall>t. t \<notin> may_change c \<longrightarrow> priority_of t s' = priority_of t s"
    using perform_step [OF K cb a] unfolding kernel_step_def by blast
  then show ?thesis
    using quiet_stepI [OF s'(2) objects_ok_shrink [OF O ipc_of_more [OF s'(4)] s'(3)] s'(3), of s "may_change c"]
      ipc_of_more [OF s'(4)] by simp
qed

lemma set_sem_step:
  assumes "kernel_state T idle s H Q hs ss" and "objects_ok T H S M s Q" and "x \<in> S"
    and "wait_flag (sem_flag v)" and "0 < sem_value v \<Longrightarrow> Q x = []"
  shows "ipc_step T idle H S M (Other {}) s Q (set_sem x v s)"
  using assms(3-5) objects_okD(7) [OF assms(2)]
  by (intro same_stepI [OF set_obj_state(1) [OF assms(1)] objects_ok_one [OF assms(2), of x]]) (auto simp: sem_ok_def)

lemma resume_all_step:
  assumes K: "kernel_state T idle s H Q hs ss" and O: "objects_ok T H S M s Q" and x: "x \<in> S \<union> M"
  obtains s' Q' hs' where "rt_ipc_list_resume_all x s = returns s'" and "kernel_state T idle s' H Q' hs' ss"
    and "objects_ok T H S M s' Q'" and "Q' x = []" and "waits_in H Q Q'" and "mutex_of s' = mutex_of s"
    and "\<And>t. priority_of t s' = priority_of t s"
proof -
  have xx: "x \<in> H" "rt_thread_defunct < x" using x objects_okD(1-4) [OF O] by blast+
  obtain s' Q' hs' where s': "rt_ipc_list_resume_all x s = returns s'" "kernel_state T idle s' H Q' hs' ss"
    "Q' x = []" "\<And>h. h \<in> H \<Longrightarrow> rt_thread_defunct < h \<Longrightarrow> h \<noteq> x \<Longrightarrow> Q' h = Q h" "kernel.more s' = kernel.more s"
    "\<And>t. priority_of t s' = priority_of t s"
    by (rule resume_all_state [OF K xx]) (rule that)
  have "subseq (Q' h) (Q h)" if "h \<in> H" "rt_thread_defunct < h" for h
    using s'(3) s'(4) [OF that] by (cases "h = x") simp_all
  then have "waits_in H Q Q'" by (simp add: waits_in_def)
  then show ?thesis
    using that [OF s'(1,2) objects_ok_shrink [OF O ipc_of_more [OF s'(5)]]] s'(3,6) ipc_of_more [OF s'(5)] by simp
qed

lemma settle_step:
  assumes "kernel_state T idle s1 H Q1 hs ss" and "objects_ok T H S M s1 Q1" and "waits_in H Q Q1"
    and "mutex_of s1 = mutex_of s" and "\<And>t. priority_of t s1 = priority_of t s"
  shows "\<exists>s'. rt_schedule s1 = returns s' \<and> ipc_step T idle H S M (Other {}) s Q s'"
  using settle_state [OF assms(1)] assms(3-5)
    quiet_stepI [OF settle_state(2) [OF assms(1)] objects_ok_shrink [OF assms(2)], of Q s "{}"] by simp

subsection \<open>Semaphores\<close>

lemma sem_init_keeps:
  assumes K: "kernel_state T idle s H Q hs ss" and O: "objects_ok T H S M s Q" and x: "x \<in> S"
    and v: "v < 0x10000" "wait_flag f" and e: "rt_list_isempty x (tlists s)"
  shows "\<exists>s'. state_of (rt_sem_init x v f s) = returns s' \<and> ipc_step T idle H S M (Other {}) s Q s'"
  using set_sem_step [OF K O x, of "\<lparr>sem_flag = f, sem_static = True, sem_value = ucast v\<rparr>"]
    init_list_same [OF K objects_okD(1) [OF O x] e] v
  by (simp add: rt_sem_init_def)

lemma sem_take_keeps:
  assumes K: "kernel_state T idle s H Q hs ss" and O: "objects_ok T H S M s Q" and x: "x \<in> S"
    and b: "sem_value (sem_of s x) = 0 \<Longrightarrow> time \<noteq> 0 \<Longrightarrow> may_block idle time s"
  shows "\<exists>s'. state_of (rt_sem_take x time s) = returns s' \<and> ipc_step T idle H S M (Other {}) s Q s'"
proof (cases "sem_value (sem_of s x) = 0")
  case False
  then have "0 < sem_value (sem_of s x)" by (simp add: word_neq_0_conv)
  then show ?thesis
    using rt_sem_take_available [of s x time] set_sem_step [OF K O x, of "(sem_of s x)\<lparr>sem_value := sem_value (sem_of s x) - 1\<rparr>"]
      objects_okD(5) [OF O x] by (simp add: sem_ok_def)
next
  case z: True
  show ?thesis
  proof (cases "time = 0")
    case True
    then show ?thesis using rt_sem_take_no_wait [OF z] same_stepI [OF K O] by simp
  next
    case False
    note B = b [OF z False, unfolded may_block_def]
    obtain t where t: "current_thread s = Some t" by (rule runner [OF K])
    have ti: "t \<noteq> idle" using B t by simp
    have xx: "x \<in> H" "rt_thread_defunct < x" "wait_flag (sem_flag (sem_of s x))"
      using objects_okD [OF O] x by (auto simp: sem_ok_def)
    obtain s' hs' where s': "rt_sem_take x time s = returns (Switched_Out, s')"
      "kernel_state T idle s' H (joined (sem_flag (sem_of s x)) (\<lambda>y. priority_of y s) x t Q) hs' ss"
      "kernel.more s' = kernel.more s" "\<And>y. priority_of y s' = priority_of y s"
      by (rule rt_sem_take_blocks [OF K t ti _ _ xx z False]) (use B that in auto)
    have "objects_ok T H S M s' (joined (sem_flag (sem_of s x)) (\<lambda>y. priority_of y s) x t Q)"
      using z ipc_of_more [OF s'(3)] xx(3) objects_okD(7) [OF O x]
      by (intro objects_ok_one [OF O, of x]) (auto simp: joined_def without_def subseq_remove1 sem_ok_def)
    moreover have "mutex_step (Other {}) (mutex_view M s Q)
        (mutex_view M s' (joined (sem_flag (sem_of s x)) (\<lambda>y. priority_of y s) x t Q))"
      using s'(4) ipc_of_more [OF s'(3)] objects_okD(7) [OF O x]
      by (intro mutex_step_quiet) (auto simp: joined_def without_def subseq_remove1)
    ultimately show ?thesis using s'(1) ipc_stepI [OF s'(2)] by simp
  qed
qed

lemma sem_release_keeps:
  assumes K: "kernel_state T idle s H Q hs ss" and O: "objects_ok T H S M s Q" and x: "x \<in> S"
  shows "\<exists>s'. state_of (rt_sem_release x s) = returns s' \<and> ipc_step T idle H S M (Other {}) s Q s'"
proof (cases "Q x")
  case Nil
  then show ?thesis
    using rt_sem_release_counts [OF K objects_okD(1) [OF O x]] objects_okD(5) [OF O x]
      set_sem_step [OF K O x, of "(sem_of s x)\<lparr>sem_value := sem_value (sem_of s x) + 1\<rparr>"] by (simp add: sem_ok_def)
next
  case (Cons t ts)
  have xx: "x \<in> H" "rt_thread_defunct < x" using objects_okD [OF O] x by auto
  obtain s' where s': "rt_sem_release x s = returns (RT_EOK, s')"
    "kernel_state T idle s' H (made_ready s t Q) (remove1 t hs) ss" "kernel.more s' = kernel.more s"
    "\<And>y. priority_of y s' = priority_of y s" "made_ready s t Q x = ts" "\<And>h. h \<in> H \<Longrightarrow> rt_thread_defunct < h \<Longrightarrow> h \<noteq> x \<Longrightarrow> made_ready s t Q h = Q h"
    by (rule rt_sem_release_hands_over [OF K xx Cons]) (rule that)
  have w: "waits_in H Q (made_ready s t Q)"
    unfolding waits_in_def
  proof (intro ballI impI)
    fix h assume "h \<in> H" "rt_thread_defunct < h"
    then show "subseq (made_ready s t Q h) (Q h)"
      using s'(5) s'(6) [of h] Cons by (cases "h = x") (simp_all add: list_emb_Cons)
  qed
  show ?thesis
    using s'(1,4) quiet_stepI [OF s'(2) objects_ok_shrink [OF O ipc_of_more [OF s'(3)] w] w, of s "{}"]
      ipc_of_more [OF s'(3)] by simp
qed

lemma sem_control_keeps:
  assumes K: "kernel_state T idle s H Q hs ss" and O: "objects_ok T H S M s Q" and x: "x \<in> S"
  shows "\<exists>s'. state_of (rt_sem_control x cmd arg s) = returns s' \<and> ipc_step T idle H S M (Other {}) s Q s'"
proof (cases "cmd = RT_IPC_CMD_RESET")
  case True
  obtain s1 Q1 hs1 where s1: "rt_ipc_list_resume_all x s = returns s1" "kernel_state T idle s1 H Q1 hs1 ss"
    "objects_ok T H S M s1 Q1" "Q1 x = []" "waits_in H Q Q1"
    "mutex_of s1 = mutex_of s" "\<And>t. priority_of t s1 = priority_of t s" by (rule resume_all_step [OF K O, of x]) (use x that in auto)
  have "objects_ok T H S M (set_sem x ((sem_of s1 x)\<lparr>sem_value := ucast arg\<rparr>) s1) Q1"
    using s1(4) objects_okD(5,7) [OF s1(3) x]
    by (intro objects_ok_one [OF s1(3), of x]) (auto simp: sem_ok_def)
  from settle_step [OF set_obj_state(1) [OF s1(2)] this s1(5), of s] show ?thesis
    using True s1(1,6,7) by (auto simp: rt_sem_control_def)
qed (use same_stepI [OF K O] in \<open>simp add: rt_sem_control_def\<close>)

lemma sem_detach_keeps:
  assumes K: "kernel_state T idle s H Q hs ss" and O: "objects_ok T H S M s Q" and x: "x \<in> S"
  shows "sem_static (sem_of s x) \<Longrightarrow> \<exists>s'. state_of (rt_sem_detach x s) = returns s' \<and> ipc_step T idle H S M (Other {}) s Q s'"
    and "\<not> sem_static (sem_of s x) \<Longrightarrow> interrupt_nest s = 0 \<Longrightarrow>
      \<exists>s'. state_of (rt_sem_delete x s) = returns s' \<and> ipc_step T idle H S M (Other {}) s Q s'"
proof -
  obtain s1 Q1 hs1 where s1: "rt_ipc_list_resume_all x s = returns s1" "kernel_state T idle s1 H Q1 hs1 ss"
    "objects_ok T H S M s1 Q1" "waits_in H Q Q1" "mutex_of s1 = mutex_of s" "\<And>t. priority_of t s1 = priority_of t s"
    by (rule resume_all_step [OF K O, of x]) (use x that in auto)
  show "sem_static (sem_of s x) \<Longrightarrow> \<exists>s'. state_of (rt_sem_detach x s) = returns s' \<and> ipc_step T idle H S M (Other {}) s Q s'"
    "\<not> sem_static (sem_of s x) \<Longrightarrow> interrupt_nest s = 0 \<Longrightarrow>
      \<exists>s'. state_of (rt_sem_delete x s) = returns s' \<and> ipc_step T idle H S M (Other {}) s Q s'"
    using s1(1,5,6) quiet_stepI [OF s1(2-4), of s "{}"] by (simp_all add: rt_sem_detach_def rt_sem_delete_def debug_not_in_interrupt_def)
qed

subsection \<open>Mutexes\<close>

lemma set_mutex_step:
  assumes "kernel_state T idle s1 H Q hs ss" and "objects_ok T H S M s1 Q" and "x \<in> M"
    and "mutex_ok (set_mutex x v s1) T Q x"
    and "mutex_step e (mutex_view M s Q) (mutex_view M (set_mutex x v s1) Q)"
  shows "ipc_step T idle H S M e s Q (set_mutex x v s1)"
  using assms(3,4) objects_okD(7) [OF assms(2)]
  by (intro ipc_stepI [OF set_obj_state(2) [OF assms(1)] objects_ok_one [OF assms(2), of x] assms(5)]) auto

lemma mutex_init_keeps:
  assumes K: "kernel_state T idle s H Q hs ss" and O: "objects_ok T H S M s Q" and x: "x \<in> M"
    and v: "wait_flag f" and e: "rt_list_isempty x (tlists s)"
  shows "\<exists>s'. state_of (rt_mutex_init x f s) = returns s' \<and> ipc_step T idle H S M (New x (f = RT_IPC_FLAG_PRIO)) s Q s'"
proof -
  note e = init_list_same [OF K objects_okD(2) [OF O x] e]
  let ?s = "set_mutex x (new_mutex True f) s"
  have "mutex_view M ?s Q = (mutex_view M s Q)\<lparr>by_prio := (by_prio (mutex_view M s Q))(x := f = RT_IPC_FLAG_PRIO),
      owner_of := (owner_of (mutex_view M s Q))(x := None), holds := (holds (mutex_view M s Q))(x := 0),
      saved := (saved (mutex_view M s Q))(x := 255)\<rparr>"
    using x by (simp add: mutex_view_def fun_eq_iff new_mutex_def)
  moreover have "waiting (mutex_view M s Q) x = []" using e(1) by (simp add: mutex_view_def)
  ultimately have "mutex_step (New x (f = RT_IPC_FLAG_PRIO)) (mutex_view M s Q) (mutex_view M ?s Q)"
    by (simp add: mutex_step.new)
  then have "ipc_step T idle H S M (New x (f = RT_IPC_FLAG_PRIO)) s Q ?s"
    using e(1) v by (intro set_mutex_step [OF K O x]) (simp_all add: mutex_ok_def new_mutex_def)
  then show ?thesis using e(2) by (simp add: rt_mutex_init_def)
qed

lemma owner_not_waiting:
  assumes K: "kernel_state T idle s H Q hs ss" and "objects_ok T H S M s Q" "x \<in> M" and t: "current_thread s = Some t"
  shows "t \<notin> set (Q x)" and "t \<in> T" and "unat (current_priority (thread_of s t)) < PRIORITY_MAX"
proof -
  have tT: "t \<in> T" "thread_stat t s = RT_THREAD_READY" using kernel_stateD(3) [OF K] t by (auto simp: running_def)
  show "t \<notin> set (Q x)"
    using waiting_thread(2) [OF kernel_stateD(1) [OF K] objects_okD(2,4) [OF assms(2,3)], of t] tT(2) by auto
  show "t \<in> T" by (rule tT)
  show "unat (current_priority (thread_of s t)) < PRIORITY_MAX"
    using thread_okD(1) [OF sched_okD(4) [OF kernel_okD(1) [OF kernel_stateD(1) [OF K]] tT(1)]]
    by (simp add: priority_of_def)
qed

lemma view_outside:
  assumes "kernel_state T idle s H Q hs ss" and "objects_ok T H S M s Q" and "current_thread s = Some t"
  shows "outside t (mutex_view M s Q)"
  using owner_not_waiting(1) [OF assms(1,2) _ assms(3)] by (simp add: outside_def mutex_view_def)

lemma mutex_take_keeps:
  assumes K: "kernel_state T idle s H Q hs ss" and O: "objects_ok T H S M s Q" and x: "x \<in> M"
    and b: "may_block idle time s" and h: "mutex_hold (mutex_of s x) < 255"
  shows "\<exists>s'. state_of (rt_mutex_take x time s) = returns s' \<and>
    ipc_step T idle H S M (Take x (the (current_thread s))) s Q s'"
proof -
  note B = b [unfolded may_block_def]
  obtain t where t: "current_thread s = Some t" by (rule runner [OF K])
  have ti: "t \<noteq> idle" using B t by simp
  note W = owner_not_waiting [OF K O x t]
  let ?e = "set_error RT_EOK t s"
  have Ke: "kernel_state T idle ?e H Q hs ss" by (rule set_error_state [OF K])
  have Oe: "objects_ok T H S M ?e Q" by (rule objects_ok_shrink [OF O]) simp_all
  note X = objects_okD(2,4,6) [OF O x]
  let ?v = "mutex_view M s Q"
  have out: "outside t ?v" by (rule view_outside [OF K O t])
  have hold: "mutex_hold (mutex_of s x) + 1 \<noteq> 0" using h by (auto simp: add_eq_0_iff2)
  show ?thesis
  proof (rule mutex_ok_cases [OF X(3)])
    assume F: "mutex_owner (mutex_of s x) = None" "mutex_value (mutex_of s x) = 1" "mutex_hold (mutex_of s x) = 0" "Q x = []"
    let ?m = "(mutex_of s x)\<lparr>mutex_value := 0,
        mutex_owner := Some t, original_priority := current_priority (thread_of s t), mutex_hold := 1\<rparr>"
    have r: "rt_mutex_take x time s = returns (Back RT_EOK, set_mutex x ?m ?e)"
      using rt_mutex_take_free [OF t, of x time] B F(1-3) by simp
    have "mutex_view M (set_mutex x ?m ?e) Q = ?v\<lparr>owner_of := (owner_of ?v)(x := Some t), holds := (holds ?v)(x := 1),
        saved := (saved ?v)(x := prio ?v t)\<rparr>"
      using x by (simp add: mutex_view_def fun_eq_iff priority_of_def)
    moreover have "owner_of ?v x = None" "waiting ?v x = []" using x F by (simp_all add: mutex_view_def)
    ultimately have "mutex_step (Take x t) ?v (mutex_view M (set_mutex x ?m ?e) Q)"
      using mutex_step.acquire [of ?v x t] out by simp
    then have "ipc_step T idle H S M (Take x t) s Q (set_mutex x ?m ?e)"
      using W F X(3) by (intro set_mutex_step [OF Ke Oe x]) (simp_all add: mutex_ok_def)
    then show ?thesis using r t by simp
  next
    fix ow assume H: "mutex_owner (mutex_of s x) = Some ow" "mutex_value (mutex_of s x) = 0"
      "mutex_hold (mutex_of s x) \<noteq> 0" "ow \<in> T" "ow \<notin> set (Q x)" "unat (original_priority (mutex_of s x)) < PRIORITY_MAX"
    have flag: "wait_flag (mutex_flag (mutex_of s x))" using X(3) by (simp add: mutex_ok_def)
    show ?thesis
    proof (cases "ow = t")
      case True
      let ?m = "(mutex_of s x)\<lparr>mutex_hold := mutex_hold (mutex_of s x) + 1\<rparr>"
      have "unat (mutex_hold (mutex_of s x) + 1) = unat (mutex_hold (mutex_of s x)) + 1"
        using hold by (simp add: unatSuc add.commute)
      then have "mutex_view M (set_mutex x ?m ?e) Q = ?v\<lparr>holds := (holds ?v)(x := holds ?v x + 1)\<rparr>"
        using x by (simp add: mutex_view_def fun_eq_iff)
      moreover have "owner_of ?v x = Some t" using x H True by (simp add: mutex_view_def)
      ultimately have "mutex_step (Take x t) ?v (mutex_view M (set_mutex x ?m ?e) Q)"
        using mutex_step.again [of ?v x t] by simp
      then have "ipc_step T idle H S M (Take x t) s Q (set_mutex x ?m ?e)"
        using H hold flag by (intro set_mutex_step [OF Ke Oe x]) (simp_all add: mutex_ok_def)
      then show ?thesis using rt_mutex_take_own [OF t, of x time] B H(1) True t by simp
    next
      case other: False
      have own: "owner_of ?v x = Some ow" using x H(1) by (simp add: mutex_view_def)
      show ?thesis
      proof (cases "time = 0")
        case True
        let ?e' = "set_error (- RT_ETIMEOUT) t ?e"
        have "mutex_view M ?e' Q = ?v" by (simp add: mutex_view_def fun_eq_iff)
        then have "mutex_step (Take x t) ?v (mutex_view M ?e' Q)" using own other by (simp add: mutex_step.refused)
        then have "ipc_step T idle H S M (Take x t) s Q ?e'"
          by (intro ipc_stepI [OF set_error_state [OF Ke] objects_ok_shrink [OF Oe]]) simp_all
        then show ?thesis using rt_mutex_take_no_wait [OF t, of x] B H other True t by simp
      next
        case False
        let ?J = "joined (mutex_flag (mutex_of s x)) (inherited s ow t) x t (inherit s ow t Q)"
        have inh: "inherit s ow t Q h = Q h" if "h \<in> H" "rt_thread_defunct < h" for h
          using lifted_wait [OF kernel_stateD(1) [OF K] H(4) W(3) that] by (simp add: inherit_def)
        obtain s' hs' where s': "rt_mutex_take x time s = returns (Switched_Out, s')"
          "kernel_state T idle s' H ?J hs' ss" "kernel.more s' = kernel.more s"
          "\<And>y. priority_of y s' = inherited s ow t y"
          by (rule rt_mutex_take_blocks [OF K t ti _ _ X(1,2) flag H(1,4) other H(2) False]) (use B that in auto)
        have mo: "mutex_of s' = mutex_of s" by (rule ipc_of_more(2) [OF s'(3)])
        have pr: "prio (mutex_view M s' ?J) = (prio ?v)(ow := min (prio ?v ow) (prio ?v t))"
          by (simp add: mutex_view_def fun_eq_iff s'(4) inherited_def)
        have "?J y = Q y" if "y \<in> M" "y \<noteq> x" for y
          using that owner_not_waiting(1) [OF K O that(1) t] inh [OF objects_okD(2,4) [OF O that(1)]]
          by (simp add: joined_def without_fresh)
        moreover have "?J x = place (by_prio ?v x) (inherited s ow t) t (Q x)"
          using flag x inh [OF X(1,2)] by (auto simp: joined_def place_def wait_place_def mutex_view_def wait_flag_def
              RT_IPC_FLAG_FIFO_def RT_IPC_FLAG_PRIO_def)
        ultimately have "waiting (mutex_view M s' ?J) =
            (waiting ?v)(x := place (by_prio ?v x) (inherited s ow t) t (waiting ?v x))"
          using x by (simp add: mutex_view_def fun_eq_iff)
        moreover have "inherited s ow t = prio (mutex_view M s' ?J)" by (simp add: mutex_view_def s'(4))
        ultimately have "mutex_view M s' ?J = ?v\<lparr>waiting := (waiting ?v)(x := place (by_prio ?v x)
            (prio (mutex_view M s' ?J)) t (waiting ?v x)), prio := prio (mutex_view M s' ?J)\<rparr>"
          using view_same_mutexes [of M s' s ?J Q] mo by metis
        then have st: "mutex_step (Take x t) ?v (mutex_view M s' ?J)"
          using mutex_step.wait [OF own other out pr] by simp
        have "objects_ok T H S M s' ?J"
          using ipc_of_more [OF s'(3)] objects_okD(7) [OF O, of x] x inh [OF X(1,2)] H flag other
          by (intro objects_ok_one [OF O, of x]) (auto simp: joined_def without_def subseq_remove1 inh mutex_ok_def)
        then show ?thesis using s'(1) ipc_stepI [OF s'(2) _ st] t by simp
      qed
    qed
  qed
qed

lemma mutex_release_keeps:
  assumes K: "kernel_state T idle s H Q hs ss" and O: "objects_ok T H S M s Q" and x: "x \<in> M"
    and i: "interrupt_nest s = 0"
  shows "\<exists>s'. state_of (rt_mutex_release x s) = returns s' \<and>
    ipc_step T idle H S M (Release x (the (current_thread s))) s Q s'"
proof -
  obtain t where t: "current_thread s = Some t" by (rule runner [OF K])
  note X = objects_okD(2,4,6) [OF O x]
  let ?v = "mutex_view M s Q"
  have out: "outside t ?v" by (rule view_outside [OF K O t])
  show ?thesis
  proof (cases "mutex_owner (mutex_of s x) = Some t")
    case False
    let ?e = "set_error (- RT_ERROR) t s"
    have "mutex_view M ?e Q = ?v" by (simp add: mutex_view_def fun_eq_iff)
    moreover have "owner_of ?v x \<noteq> Some t" using x False by (simp add: mutex_view_def)
    ultimately have "mutex_step (Release x t) ?v (mutex_view M ?e Q)" by (simp add: mutex_step.not_owner)
    then have "ipc_step T idle H S M (Release x t) s Q ?e"
      by (intro ipc_stepI [OF set_error_state [OF K] objects_ok_shrink [OF O]]) simp_all
    then show ?thesis using rt_mutex_release_not_owner [OF t i False] t by simp
  next
    case own: True
    then have H: "mutex_value (mutex_of s x) = 0" "mutex_hold (mutex_of s x) \<noteq> 0" "t \<in> T" "t \<notin> set (Q x)"
      "unat (original_priority (mutex_of s x)) < PRIORITY_MAX" "wait_flag (mutex_flag (mutex_of s x))"
      using X(3) by (simp_all add: mutex_ok_def)
    have ow: "owner_of ?v x = Some t" using x own by (simp add: mutex_view_def)
    show ?thesis
    proof (cases "mutex_hold (mutex_of s x) = 1")
      case False
      then have "mutex_hold (mutex_of s x) - 1 \<noteq> 0" by (metis eq_iff_diff_eq_0)
      let ?m = "(mutex_of s x)\<lparr>mutex_hold := mutex_hold (mutex_of s x) - 1\<rparr>"
      have "unat (mutex_hold (mutex_of s x)) \<noteq> unat (0 :: u8)" "unat (mutex_hold (mutex_of s x)) \<noteq> unat (1 :: u8)"
        using H(2) False unfolding word_unat_eq_iff [symmetric] by blast+
      then have "1 < holds ?v x" using x by (simp add: mutex_view_def)
      moreover have "mutex_view M (set_mutex x ?m s) Q = ?v\<lparr>holds := (holds ?v)(x := holds ?v x - 1)\<rparr>"
        using x unat_minus_one [OF H(2)] by (simp add: mutex_view_def fun_eq_iff)
      ultimately have "mutex_step (Release x t) ?v (mutex_view M (set_mutex x ?m s) Q)"
        using mutex_step.inner [OF ow] by simp
      then have "ipc_step T idle H S M (Release x t) s Q (set_mutex x ?m s)"
        using own H \<open>mutex_hold (mutex_of s x) - 1 \<noteq> 0\<close> by (intro set_mutex_step [OF K O x]) (simp_all add: mutex_ok_def)
      then show ?thesis using rt_mutex_release_inner [OF t i own False] t by simp
    next
      case last: True
      have one: "holds ?v x = 1" using x last by (simp add: mutex_view_def)
      let ?R = "restored s t (original_priority (mutex_of s x)) Q"
      show ?thesis
      proof (cases "Q x")
        case Nil
        obtain s' where s': "rt_mutex_release x s = returns (RT_EOK, s')" "kernel_state T idle s' H ?R hs ss"
          "sem_of s' = sem_of s" "mutex_of s' = (mutex_of s)(x := (mutex_of s x)\<lparr>mutex_hold := 0,
           mutex_value := mutex_value (mutex_of s x) + 1, mutex_owner := None, original_priority := 0xff\<rparr>)"
          "\<And>h. h \<in> H \<Longrightarrow> rt_thread_defunct < h \<Longrightarrow> ?R h = Q h"
          "\<And>y. priority_of y s' = (if y = t then unat (original_priority (mutex_of s x)) else priority_of y s)"
          by (rule rt_mutex_release_frees [OF K t i X(1,2) own last refl H(5) Nil]) (rule that)
        have "objects_ok T H S M s' ?R"
          using s'(3-5) X(1,2) H(1,6) Nil objects_okD(7) [OF O, of x] x
          by (intro objects_ok_one [OF O, of x]) (auto simp: mutex_ok_def)
        moreover have "mutex_view M s' ?R = ?v\<lparr>owner_of := (owner_of ?v)(x := None), holds := (holds ?v)(x := 0),
            saved := (saved ?v)(x := 255), prio := (prio ?v)(t := saved ?v x)\<rparr>"
          using x s'(4,6) s'(5) [OF objects_okD(2,4) [OF O]] by (simp add: mutex_view_def fun_eq_iff)
        then have "mutex_step (Release x t) ?v (mutex_view M s' ?R)"
          using mutex_step.free [OF ow one _ out] Nil x by (simp add: mutex_view_def)
        ultimately show ?thesis using s'(1) ipc_stepI [OF s'(2)] t by simp
      next
        case (Cons w ws)
        let ?J = "made_ready s w ?R"
        obtain s' where s': "rt_mutex_release x s = returns (RT_EOK, s')" "kernel_state T idle s' H ?J (remove1 w hs) ss"
          "sem_of s' = sem_of s" "mutex_of s' = (mutex_of s)(x := (mutex_of s x)\<lparr>mutex_owner := Some w,
           original_priority := current_priority (thread_of s w), mutex_hold := 1\<rparr>)"
          "?J x = ws" "\<And>h. h \<in> H \<Longrightarrow> rt_thread_defunct < h \<Longrightarrow> h \<noteq> x \<Longrightarrow> ?J h = Q h" "w \<in> T" "w \<noteq> t"
          "\<And>y. priority_of y s' = (if y = t then unat (original_priority (mutex_of s x)) else priority_of y s)"
          by (rule rt_mutex_release_hands_over [OF K t i X(1,2) own last refl H(5) Cons]) (rule that)
        have "distinct (Q x)" 
          using familyD(5) [OF lists_okD(1) [OF sched_okD(1) [OF kernel_okD(1) [OF kernel_stateD(1) [OF K]]]] X(1)] .
        then have w: "w \<notin> set ws" using Cons by simp
        have "unat (current_priority (thread_of s w)) < PRIORITY_MAX"
          using thread_okD(1) [OF sched_okD(4) [OF kernel_okD(1) [OF kernel_stateD(1) [OF K]] s'(7)]]
          by (simp add: priority_of_def)
        then have "objects_ok T H S M s' ?J"
          using s'(3-7) H(1,6) w objects_okD(7) [OF O, of x] x
          by (intro objects_ok_one [OF O, of x]) (auto simp: mutex_ok_def)
        moreover have "mutex_view M s' ?J = ?v\<lparr>owner_of := (owner_of ?v)(x := Some w),
            saved := (saved ?v)(x := prio ?v w), waiting := (waiting ?v)(x := ws), prio := (prio ?v)(t := saved ?v x)\<rparr>"
          using x s'(4,5,9) s'(6) [OF objects_okD(2,4) [OF O]] last
          by (simp add: mutex_view_def fun_eq_iff priority_of_def)
        then have "mutex_step (Release x t) ?v (mutex_view M s' ?J)"
          using mutex_step.pass [OF ow one _ out, of w ws] Cons x by (simp add: mutex_view_def)
        ultimately show ?thesis using s'(1) ipc_stepI [OF s'(2)] t by simp
      qed
    qed
  qed
qed

lemma mutex_detach_keeps:
  assumes K: "kernel_state T idle s H Q hs ss" and O: "objects_ok T H S M s Q" and x: "x \<in> M"
  shows "mutex_static (mutex_of s x) \<Longrightarrow> \<exists>s'. state_of (rt_mutex_detach x s) = returns s' \<and> ipc_step T idle H S M (Other {}) s Q s'"
    and "\<not> mutex_static (mutex_of s x) \<Longrightarrow> interrupt_nest s = 0 \<Longrightarrow>
      \<exists>s'. state_of (rt_mutex_delete x s) = returns s' \<and> ipc_step T idle H S M (Other {}) s Q s'"
proof -
  obtain s1 Q1 hs1 where s1: "rt_ipc_list_resume_all x s = returns s1" "kernel_state T idle s1 H Q1 hs1 ss"
    "objects_ok T H S M s1 Q1" "waits_in H Q Q1" "mutex_of s1 = mutex_of s" "\<And>t. priority_of t s1 = priority_of t s"
    by (rule resume_all_step [OF K O, of x]) (use x that in auto)
  show "mutex_static (mutex_of s x) \<Longrightarrow> \<exists>s'. state_of (rt_mutex_detach x s) = returns s' \<and> ipc_step T idle H S M (Other {}) s Q s'"
    "\<not> mutex_static (mutex_of s x) \<Longrightarrow> interrupt_nest s = 0 \<Longrightarrow>
      \<exists>s'. state_of (rt_mutex_delete x s) = returns s' \<and> ipc_step T idle H S M (Other {}) s Q s'"
    using s1(1,5,6) quiet_stepI [OF s1(2-4), of s "{}"] by (simp_all add: rt_mutex_detach_def rt_mutex_delete_def debug_not_in_interrupt_def)
qed

subsection \<open>Runs\<close>

text \<open>Every allowed call returns, keeps the system as it should be, and is a step of the machine of mutexes.\<close>

lemma ipc_call_ok:
  assumes K: "kernel_state T idle s H Q hs ss" and O: "objects_ok T H S M s Q"
    and cb: "thread_timeouts T cb" and a: "allowed_ipc T idle S M s c"
  shows "\<exists>s'. perform_ipc cb c s = returns s' \<and> ipc_step T idle H S M (mutex_event_of s c) s Q s'"
proof -
  note laws = kernel_call_keeps [OF K O cb] sem_init_keeps [OF K O] sem_take_keeps [OF K O] sem_release_keeps [OF K O]
    sem_control_keeps [OF K O] sem_detach_keeps [OF K O] mutex_init_keeps [OF K O] mutex_take_keeps [OF K O]
    mutex_release_keeps [OF K O] mutex_detach_keeps [OF K O]
  show ?thesis
    using a same_stepI [OF K O]
    by (cases c) (auto simp: allowed_ipc_def mutex_event_of_def rt_mutex_control_def intro!: laws)
qed

lemma perform_ipc_keeps:
  assumes "ipc_inv T idle S M s" and cb: "thread_timeouts T cb" and a: "allowed_ipc T idle S M s c"
  shows "\<exists>s'. perform_ipc cb c s = returns s' \<and> ipc_inv T idle S M s'"
  using assms(1) ipc_call_ok [OF _ _ cb a] unfolding ipc_inv_def ipc_step_def by metis

inductive ipc_reachable ::
  "(nat \<Rightarrow> 'a ipc_scheme \<Rightarrow> 'a ipc_scheme run) \<Rightarrow> nat set \<Rightarrow> nat \<Rightarrow> nat set \<Rightarrow> nat set \<Rightarrow> 'a ipc_scheme \<Rightarrow> 'a ipc_scheme \<Rightarrow> bool"
  for cb T idle S M s0 where
  start: "ipc_reachable cb T idle S M s0 s0"
| step: "ipc_reachable cb T idle S M s0 s \<Longrightarrow> allowed_ipc T idle S M s c \<Longrightarrow> perform_ipc cb c s = returns s' \<Longrightarrow>
    ipc_reachable cb T idle S M s0 s'"

lemma ipc_reachable_inv:
  assumes "ipc_reachable cb T idle S M s0 s" and "ipc_inv T idle S M s0" and "thread_timeouts T cb"
  shows "ipc_inv T idle S M s"
  using assms(1)
proof (induction rule: ipc_reachable.induct)
  case (step s c s')
  then show ?case using perform_ipc_keeps [OF _ assms(3) step.hyps(2)] by auto
qed (rule assms(2))

end
