(* ===== verification/Event.thy ===== *)
theory Event
  imports Ipc
begin

text \<open>
  Events, \<open>src/ipc.c\<close>: a set of 32 bits for which threads wait, each for all or for any of its own
  bits. The bits and the options of a waiting thread are fields of the thread.
\<close>

record rt_event =
  event_flag :: u8
  event_static :: bool
  event_bits :: u32

record event_sys = ipc +
  event_of :: "nat \<Rightarrow> rt_event"
  event_set :: "nat \<Rightarrow> u32"
  event_info :: "nat \<Rightarrow> u8"

definition RT_EVENT_FLAG_AND :: u8 where "RT_EVENT_FLAG_AND = 1"
definition RT_EVENT_FLAG_OR :: u8 where "RT_EVENT_FLAG_OR = 2"
definition RT_EVENT_FLAG_CLEAR :: u8 where "RT_EVENT_FLAG_CLEAR = 4"

definition set_event :: "nat \<Rightarrow> rt_event \<Rightarrow> 'a event_sys_scheme \<Rightarrow> 'a event_sys_scheme" where
  "set_event x v s = s\<lparr>event_of := (event_of s)(x := v)\<rparr>"

definition set_bits :: "nat \<Rightarrow> u32 \<Rightarrow> 'a event_sys_scheme \<Rightarrow> 'a event_sys_scheme" where
  "set_bits x b s = set_event x ((event_of s x)\<lparr>event_bits := b\<rparr>) s"

definition rt_event_init :: "nat \<Rightarrow> u8 \<Rightarrow> 'a event_sys_scheme \<Rightarrow> (int \<times> 'a event_sys_scheme) run" where
  "rt_event_init x flag s =
     returns (RT_EOK, set_event x \<lparr>event_flag = flag, event_static = True, event_bits = 0\<rparr> (rt_ipc_object_init x s))"

definition rt_event_create :: "nat option \<Rightarrow> u8 \<Rightarrow> 'a event_sys_scheme \<Rightarrow> (nat option \<times> 'a event_sys_scheme) run" where
  "rt_event_create obj flag s =
     andthen (debug_not_in_interrupt s)
       (\<lambda>s. case obj of
              None \<Rightarrow> returns (None, s)
            | Some x \<Rightarrow> returns (Some x,
                set_event x \<lparr>event_flag = flag, event_static = False, event_bits = 0\<rparr> (rt_ipc_object_init x s)))"

definition rt_event_detach :: "nat \<Rightarrow> 'a event_sys_scheme \<Rightarrow> (int \<times> 'a event_sys_scheme) run" where
  "rt_event_detach x s =
     (if \<not> event_static (event_of s x) then stops (Assert_Hang ''rt_object_is_systemobject'')
      else andthen (rt_ipc_list_resume_all x s) (\<lambda>s. returns (RT_EOK, s)))"

definition rt_event_delete :: "nat \<Rightarrow> 'a event_sys_scheme \<Rightarrow> (int \<times> 'a event_sys_scheme) run" where
  "rt_event_delete x s =
     (if event_static (event_of s x) then stops (Assert_Hang ''rt_object_is_systemobject'')
      else andthen (debug_not_in_interrupt s)
        (\<lambda>s. andthen (rt_ipc_list_resume_all x s) (\<lambda>s. returns (RT_EOK, s))))"

text \<open>
  The test of one waiting thread in \<open>rt_event_send\<close>: whether its condition holds, and the bits it then
  has received.
\<close>

definition satisfied :: "u8 \<Rightarrow> u32 \<Rightarrow> u32 \<Rightarrow> u32 option" where
  "satisfied info want bits =
     (if info AND RT_EVENT_FLAG_AND \<noteq> 0 then (if want AND bits = want then Some want else None)
      else if info AND RT_EVENT_FLAG_OR \<noteq> 0 then (if want AND bits \<noteq> 0 then Some (want AND bits) else None)
      else None)"

text \<open>The walk over the waiting threads from node \<open>n\<close>; the link to the next is read before the thread leaves.\<close>

partial_function (option) event_wake :: "nat \<Rightarrow> nat \<Rightarrow> bool \<Rightarrow> 'a event_sys_scheme \<Rightarrow> (bool \<times> 'a event_sys_scheme) run" where
  "event_wake x n need_schedule s =
     (if n = x then returns (need_schedule, s)
      else
        (let m = next_link (tlists s) n in
         case satisfied (event_info s n) (event_set s n) (event_bits (event_of s x)) of
           None \<Rightarrow> event_wake x m need_schedule s
         | Some got \<Rightarrow>
             (let s = s\<lparr>event_set := (event_set s)(n := got)\<rparr>;
                  s = (if event_info s n AND RT_EVENT_FLAG_CLEAR \<noteq> 0
                       then set_bits x (event_bits (event_of s x) AND NOT got) s else s) in
              case rt_thread_resume n s of
                None \<Rightarrow> None
              | Some (Inl e) \<Rightarrow> stops e
              | Some (Inr (_, s')) \<Rightarrow> event_wake x m True s')))"

definition rt_event_send :: "nat \<Rightarrow> u32 \<Rightarrow> 'a event_sys_scheme \<Rightarrow> (int \<times> 'a event_sys_scheme) run" where
  "rt_event_send x new s =
     (if new = 0 then returns (- RT_ERROR, s)
      else
        (let s = set_bits x (event_bits (event_of s x) OR new) s in
         andthen (if \<not> rt_list_isempty x (tlists s) then event_wake x (next_link (tlists s) x) False s
                  else returns (False, s))
           (\<lambda>(need_schedule, s).
             if need_schedule then andthen (rt_schedule s) (\<lambda>s. returns (RT_EOK, s))
             else returns (RT_EOK, s))))"

text \<open>The result is the error code and what is stored through \<open>recved\<close>, if anything.\<close>

definition event_recv_woken :: "nat \<Rightarrow> 'a event_sys_scheme \<Rightarrow> (int \<times> u32 option) \<times> 'a event_sys_scheme" where
  "event_recv_woken t s =
     (if th_error (thread_of s t) \<noteq> RT_EOK then (th_error (thread_of s t), None)
      else (th_error (thread_of s t), Some (event_set s t)), s)"

definition rt_event_recv ::
  "nat \<Rightarrow> u32 \<Rightarrow> u8 \<Rightarrow> int \<Rightarrow> 'a event_sys_scheme \<Rightarrow> ((int \<times> u32 option) outcome \<times> 'a event_sys_scheme) run" where
  "rt_event_recv x want option timeout s =
     andthen (debug_in_thread_context s)
       (\<lambda>s. if want = 0 then returns (Back (- RT_ERROR, None), s)
            else
              (case rt_thread_self s of
                 None \<Rightarrow> stops (Null_Deref ''thread'')
               | Some t \<Rightarrow>
                   (let s = set_error RT_EOK t s;
                        bits = event_bits (event_of s x) in
                    if option AND RT_EVENT_FLAG_AND = 0 \<and> option AND RT_EVENT_FLAG_OR = 0
                    then stops (Assert_Hang ''0'')
                    else if (if option AND RT_EVENT_FLAG_AND \<noteq> 0 then bits AND want = want else bits AND want \<noteq> 0)
                    then returns (Back (RT_EOK, Some (bits AND want)),
                           if option AND RT_EVENT_FLAG_CLEAR \<noteq> 0 then set_bits x (bits AND NOT want) s else s)
                    else if timeout = 0
                    then returns (Back (- RT_ETIMEOUT, None), set_error (- RT_ETIMEOUT) t s)
                    else
                      (let s = s\<lparr>event_set := (event_set s)(t := want), event_info := (event_info s)(t := option)\<rparr> in
                       andthen (rt_ipc_list_suspend x t (event_flag (event_of s x)) s)
                         (\<lambda>s. andthen (arm_timer t timeout s)
                           (\<lambda>s. andthen (rt_schedule s)
                             (\<lambda>s. if current_thread s = Some t
                                  then returns (map_prod Back id (event_recv_woken t s))
                                  else returns (Switched_Out, s))))))))"

definition rt_event_control :: "nat \<Rightarrow> int \<Rightarrow> 'a event_sys_scheme \<Rightarrow> (int \<times> 'a event_sys_scheme) run" where
  "rt_event_control x cmd s =
     (if cmd = RT_IPC_CMD_RESET
      then andthen (rt_ipc_list_resume_all x s)
        (\<lambda>s. andthen (rt_schedule (set_bits x 0 s)) (\<lambda>s. returns (RT_EOK, s)))
      else returns (- RT_ERROR, s))"

end
