(* ===== verification/EventLaws.thy ===== *)
theory EventLaws
  imports IpcCalls Event
begin

text \<open>
  Events: which threads a send wakes, and the invariant that no thread waits for bits that are there.
\<close>

subsection \<open>The parts of the state\<close>

lemma event_of_more:
  assumes "kernel.more s' = kernel.more s"
  shows "event_of s' = event_of s" "event_set s' = event_set s" "event_info s' = event_info s"
  using assms by (cases s; cases s'; simp)+

lemma set_bits_simps [simp]:
  "tlists (set_event x v s) = tlists s" "thread_of (set_event x v s) = thread_of s"
  "ready_group (set_event x v s) = ready_group s" "current_thread (set_event x v s) = current_thread s"
  "lock_nest (set_event x v s) = lock_nest s" "interrupt_nest (set_event x v s) = interrupt_nest s"
  "timers.truncate (set_event x v s) = timers.truncate s" "event_of (set_event x v s) = (event_of s)(x := v)"
  "event_set (set_event x v s) = event_set s" "event_info (set_event x v s) = event_info s"
  "tlists (set_bits x b s) = tlists s" "thread_of (set_bits x b s) = thread_of s"
  "ready_group (set_bits x b s) = ready_group s" "current_thread (set_bits x b s) = current_thread s"
  "lock_nest (set_bits x b s) = lock_nest s" "interrupt_nest (set_bits x b s) = interrupt_nest s"
  "timers.truncate (set_bits x b s) = timers.truncate s"
  "event_of (set_bits x b s) = (event_of s)(x := (event_of s x)\<lparr>event_bits := b\<rparr>)"
  "event_set (set_bits x b s) = event_set s" "event_info (set_bits x b s) = event_info s"
  by (simp_all add: set_event_def set_bits_def timers.truncate_def)

lemma wait_fields_simps [simp]:
  "timers.truncate (s\<lparr>event_set := f\<rparr>) = timers.truncate s" "timers.truncate (s\<lparr>event_info := g\<rparr>) = timers.truncate s"
  by (simp_all add: timers.truncate_def)

lemma set_event_state [simp]:
  assumes "kernel_state T idle s H Q hs ss"
  shows "kernel_state T idle (set_event x v s) H Q hs ss" "kernel_state T idle (set_bits x b s) H Q hs ss"
    "kernel_state T idle (s\<lparr>event_set := f\<rparr>) H Q hs ss" "kernel_state T idle (s\<lparr>event_set := f, event_info := g\<rparr>) H Q hs ss"
  by (rule kernel_state_cong [OF assms]; simp)+

subsection \<open>The walk over the waiting threads\<close>

text \<open>The threads that are woken, in order, with the bits each has received, and the bits that remain.\<close>

fun wake_list :: "(nat \<Rightarrow> u8) \<Rightarrow> (nat \<Rightarrow> u32) \<Rightarrow> u32 \<Rightarrow> nat list \<Rightarrow> u32 \<times> (nat \<times> u32) list" where
  "wake_list info want b [] = (b, [])"
| "wake_list info want b (t # ts) =
     (case satisfied (info t) (want t) b of
        None \<Rightarrow> wake_list info want b ts
      | Some got \<Rightarrow>
          (case wake_list info want (if info t AND RT_EVENT_FLAG_CLEAR \<noteq> 0 then b AND NOT got else b) ts of
             (c, ws) \<Rightarrow> (c, (t, got) # ws)))"

definition woken_as :: "nat \<Rightarrow> u32 \<Rightarrow> (nat \<times> u32) list \<Rightarrow> 'a event_sys_scheme \<Rightarrow> 'a event_sys_scheme \<Rightarrow> bool" where
  "woken_as x b ws s s' \<longleftrightarrow>
     event_of s' = (event_of s)(x := (event_of s x)\<lparr>event_bits := b\<rparr>) \<and> event_info s' = event_info s \<and>
     (\<forall>t. event_set s' t = (case map_of ws t of Some g \<Rightarrow> g | None \<Rightarrow> event_set s t)) \<and>
     current_thread s' = current_thread s \<and> lock_nest s' = lock_nest s \<and> interrupt_nest s' = interrupt_nest s \<and>
     (\<forall>t. priority_of t s' = priority_of t s) \<and>
     (\<forall>t \<in> fst ` set ws. thread_stat t s' = RT_THREAD_READY) \<and> (\<forall>t. th_error (thread_of s' t) = th_error (thread_of s t)) \<and>
     (\<forall>t. t \<notin> fst ` set ws \<longrightarrow> thread_of s' t = thread_of s t)"

lemma wake_list_sub: "wake_list info want b ts = (c, ws) \<Longrightarrow> fst ` set ws \<subseteq> set ts"
proof (induction ts arbitrary: b c ws)
  case (Cons t ts)
  then show ?case
    by (cases "satisfied (info t) (want t) b") (fastforce split: prod.splits)+
qed simp

lemma wake_list_cong:
  "(\<And>t. t \<in> set ts \<Longrightarrow> info t = info' t \<and> want t = want' t) \<Longrightarrow> wake_list info want b ts = wake_list info' want' b ts"
  by (induction ts arbitrary: b) (simp_all cong: option.case_cong)

lemma distinct_moved: "distinct (xs @ t # ys) \<Longrightarrow> remove1 t (xs @ t # ys) = xs @ ys"
  by (simp add: remove1_append)

lemma event_wake_ok:
  assumes "kernel_state T idle s H Q hs ss" and x: "x \<in> H" "rt_thread_defunct < x" and "Q x = xs @ ys"
    and "wake_list (event_info s) (event_set s) (event_bits (event_of s x)) ys = (b, ws)"
  shows "\<exists>s' Q' hs'. event_wake x (hd (ys @ [x])) need s = returns (need \<or> ws \<noteq> [], s') \<and>
    kernel_state T idle s' H Q' hs' ss \<and> (\<forall>h \<in> H. rt_thread_defunct < h \<longrightarrow> h \<noteq> x \<longrightarrow> Q' h = Q h) \<and>
    Q' x = xs @ filter (\<lambda>t. t \<notin> fst ` set ws) ys \<and> woken_as x b ws s s'"
  using assms(1,4,5)
proof (induction ys arbitrary: s Q hs xs need b ws)
  case Nil
  then show ?case
    by (subst event_wake.simps) (auto simp: woken_as_def intro!: exI [of _ s] exI [of _ Q] exI [of _ hs])
next
  case (Cons t ys)
  note K = Cons.prems(1)
  have F: "family (tlists s) H Q" by (rule lists_okD(1) [OF sched_okD(1) [OF kernel_okD(1) [OF kernel_stateD(1) [OF K]]]])
  have d: "dlist (tlists s) x (xs @ t # ys)" "distinct (xs @ t # ys)"
    using familyD(1,5) [OF F x(1)] Cons.prems(2) by simp_all
  have tx: "t \<noteq> x" using dlistD [OF d(1)] by auto
  have nxt: "next_link (tlists s) t = hd (ys @ [x])" by (rule dlist_next(1) [OF d(1)])
  let ?b = "event_bits (event_of s x)"
  show ?case
  proof (cases "satisfied (event_info s t) (event_set s t) ?b")
    case None
    have w: "wake_list (event_info s) (event_set s) ?b ys = (b, ws)" using Cons.prems(3) None by simp
    have "t \<notin> fst ` set ws"
      using wake_list_sub [OF w] d(2) by auto
    moreover have "event_wake x t need s = event_wake x (hd (ys @ [x])) need s"
      using None tx by (subst event_wake.simps) (simp add: nxt)
    moreover have "Q x = (xs @ [t]) @ ys" using Cons.prems(2) by simp
    ultimately show ?thesis using Cons.IH [OF K _ w, of "xs @ [t]" need] by simp
  next
    case (Some got)
    let ?clear = "event_info s t AND RT_EVENT_FLAG_CLEAR \<noteq> 0"
    let ?c = "if ?clear then ?b AND NOT got else ?b"
    obtain ws' where w: "wake_list (event_info s) (event_set s) ?c ys = (b, ws')" "ws = (t, got) # ws'"
      using Cons.prems(3) Some by (auto split: prod.splits)
    let ?s0 = "s\<lparr>event_set := (event_set s)(t := got)\<rparr>"
    let ?s1 = "if ?clear then set_bits x (?b AND NOT got) ?s0 else ?s0"
    have K1: "kernel_state T idle ?s1 H Q hs ss" using K by simp
    have t: "t \<in> T" "thread_stat t ?s1 = RT_THREAD_SUSPEND"
      using waiting_thread [OF kernel_stateD(1) [OF K] x, of t] Cons.prems(2) by (simp_all add: thread_stat_def)
    obtain s2 where s2: "rt_thread_resume t ?s1 = returns (RT_EOK, s2)"
      "kernel_state T idle s2 H (made_ready ?s1 t Q) (remove1 t hs) ss" "kernel_frame t ?s1 s2"
      "thread_stat t s2 = RT_THREAD_READY" "th_error (thread_of s2 t) = th_error (thread_of ?s1 t)"
      by (rule resume_state [OF K1 t])
    note fr = kernel_frameD [OF s2(3)]
    note ev = event_of_more [OF fr(5)]
    let ?Q = "made_ready ?s1 t Q"
    have oth: "?Q h = remove1 t (Q h)" if "h \<in> H" "rt_thread_defunct < h" for h
      by (rule made_ready_other [OF kernel_okD(1) [OF kernel_stateD(1) [OF K1]] t(1) that])
    have Qx: "?Q x = xs @ ys" using oth [OF x] distinct_moved [OF d(2)] Cons.prems(2) by simp
    have same: "?Q h = Q h" if "h \<in> H" "rt_thread_defunct < h" "h \<noteq> x" for h
      using oth [OF that(1,2)] familyD(3) [OF F that(1) x(1), of t] Cons.prems(2) that(3) by (auto intro: remove1_idem)
    have tys: "t \<notin> set ys" using d(2) by simp
    have "wake_list (event_info s2) (event_set s2) (event_bits (event_of s2 x)) ys =
        wake_list (event_info s) (event_set s) ?c ys"
      using ev tys by (auto intro!: wake_list_cong)
    then obtain s' Q' hs' where IH: "event_wake x (hd (ys @ [x])) True s2 = returns (True, s')"
      "kernel_state T idle s' H Q' hs' ss" "\<forall>h \<in> H. rt_thread_defunct < h \<longrightarrow> h \<noteq> x \<longrightarrow> Q' h = ?Q h"
      "Q' x = xs @ filter (\<lambda>t. t \<notin> fst ` set ws') ys" "woken_as x b ws' s2 s'"
      using Cons.IH [OF s2(2) Qx, of b ws' True] w(1) by auto
    have "event_wake x t need s = returns (True, s')"
      using Some tx s2(1) IH(1) by (subst event_wake.simps) (simp add: nxt Let_def split: if_splits)
    moreover have "filter (\<lambda>y. y \<notin> fst ` set ws) (t # ys) = filter (\<lambda>y. y \<notin> fst ` set ws') ys"
      using tys w(2) by (auto intro: filter_cong)
    moreover have "woken_as x b ws s s'"
      unfolding woken_as_def
    proof (intro conjI allI ballI impI)
      note W = IH(5) [unfolded woken_as_def]
      have mt: "t \<notin> fst ` set ws'" "map_of ws' t = None" using wake_list_sub [OF w(1)] tys by (auto simp: map_of_eq_None_iff)
      show "event_of s' = (event_of s)(x := (event_of s x)\<lparr>event_bits := b\<rparr>)" using W ev by (simp add: fun_eq_iff)
      show "event_set s' y = (case map_of ws y of Some g \<Rightarrow> g | None \<Rightarrow> event_set s y)" for y
        using W ev(2) w(2) mt(2) by (simp split: if_splits option.split)
      show "event_info s' = event_info s" "current_thread s' = current_thread s" "lock_nest s' = lock_nest s"
        "interrupt_nest s' = interrupt_nest s" "priority_of y s' = priority_of y s" for y
        using W ev fr by (simp_all add: priority_of_def)
      show "th_error (thread_of s' y) = th_error (thread_of s y)" for y
        using W s2(5) fr(7) [of y] by (cases "y = t") simp_all
      show "thread_stat y s' = RT_THREAD_READY" if "y \<in> fst ` set ws" for y
        using W w(2) that mt(1) s2(4) by (cases "y = t") (auto simp: thread_stat_def)
      show "thread_of s' y = thread_of s y" if "y \<notin> fst ` set ws" for y
        using W w(2) that fr(7) [of y] by (auto split: if_splits)
    qed
    ultimately show ?thesis using IH(2-4) same w(2) by (intro exI [of _ s'] exI [of _ Q'] exI [of _ hs']) simp
  qed
qed

subsection \<open>No thread waits for bits that are there\<close>

text \<open>The threads that wait for event \<open>x\<close> have asked for all or for any of their bits, and the bits are not there.\<close>

definition event_ok :: "'a event_sys_scheme \<Rightarrow> (nat \<Rightarrow> nat list) \<Rightarrow> nat \<Rightarrow> bool" where
  "event_ok s Q x \<longleftrightarrow>
     wait_flag (event_flag (event_of s x)) \<and>
     (\<forall>t \<in> set (Q x). (event_info s t AND RT_EVENT_FLAG_AND \<noteq> 0 \<or> event_info s t AND RT_EVENT_FLAG_OR \<noteq> 0) \<and>
        satisfied (event_info s t) (event_set s t) (event_bits (event_of s x)) = None)"

definition events_ok :: "nat set \<Rightarrow> nat set \<Rightarrow> 'a event_sys_scheme \<Rightarrow> (nat \<Rightarrow> nat list) \<Rightarrow> bool" where
  "events_ok H E s Q \<longleftrightarrow> E \<subseteq> H \<and> (\<forall>x \<in> E. rt_thread_defunct < x \<and> event_ok s Q x)"

definition event_inv :: "nat set \<Rightarrow> nat \<Rightarrow> nat set \<Rightarrow> 'a event_sys_scheme \<Rightarrow> bool" where
  "event_inv T idle E s \<longleftrightarrow> (\<exists>H Q hs ss. kernel_state T idle s H Q hs ss \<and> events_ok H E s Q)"

lemma event_invI: "kernel_state T idle s H Q hs ss \<Longrightarrow> events_ok H E s Q \<Longrightarrow> event_inv T idle E s"
  unfolding event_inv_def by blast

lemma events_okD:
  assumes "events_ok H E s Q" and "x \<in> E"
  shows "x \<in> H" "rt_thread_defunct < x" "event_ok s Q x"
  using assms by (auto simp: events_ok_def)

lemma satisfied_mono:
  assumes "c AND b = c" and "satisfied i w b = None"
  shows "satisfied i w c = None"
proof -
  have "w AND c = (w AND b) AND c" using assms(1) by (metis and.assoc and.commute)
  moreover have "w AND b = w" if "w AND c = w" using that assms(1) by (metis and.assoc)
  ultimately show ?thesis using assms(2) by (auto simp: satisfied_def split: if_splits)
qed

lemma wake_list_bits: "wake_list info want b ts = (c, ws) \<Longrightarrow> c AND b = c"
proof (induction ts arbitrary: b ws)
  case (Cons t ts)
  show ?case
  proof (cases "satisfied (info t) (want t) b")
    case (Some got)
    let ?d = "if info t AND RT_EVENT_FLAG_CLEAR \<noteq> 0 then b AND NOT got else b"
    obtain ws' where "wake_list info want ?d ts = (c, ws')" using Some Cons.prems by (auto split: prod.splits)
    then have c: "c AND ?d = c" by (rule Cons.IH)
    have "b AND NOT got AND b = b AND NOT got" by (simp add: and.left_commute and.commute)
    then have "?d AND b = ?d" by (simp add: and.assoc)
    then have "(c AND ?d) AND b = c AND ?d" by (simp only: and.assoc)
    then show ?thesis by (simp only: c)
  qed (use Cons in simp)
qed simp

lemma wake_list_unsatisfied:
  "wake_list info want b ts = (c, ws) \<Longrightarrow> t \<in> set ts \<Longrightarrow> t \<notin> fst ` set ws \<Longrightarrow> satisfied (info t) (want t) c = None"
proof (induction ts arbitrary: b ws)
  case (Cons u ts)
  show ?case
  proof (cases "satisfied (info u) (want u) b")
    case None
    then have w: "wake_list info want b ts = (c, ws)" using Cons.prems(1) by simp
    show ?thesis
      using satisfied_mono [OF wake_list_bits [OF w] None] Cons.IH [OF w _ Cons.prems(3)] Cons.prems(2)
      by (cases "t = u") auto
  next
    case (Some got)
    then obtain ws' where "wake_list info want (if info u AND RT_EVENT_FLAG_CLEAR \<noteq> 0 then b AND NOT got else b) ts = (c, ws')"
      "ws = (u, got) # ws'" using Cons.prems(1) by (auto split: prod.splits)
    then show ?thesis using Cons.IH Cons.prems(2,3) by auto
  qed
qed simp

text \<open>Steps that keep the fields of the waiting threads and lose threads or bits only.\<close>

lemma event_ok_shrink:
  assumes "event_ok s Q x" and "subseq (Q' x) (Q x)" and "event_flag (event_of s' x) = event_flag (event_of s x)"
    and "event_bits (event_of s' x) AND event_bits (event_of s x) = event_bits (event_of s' x)"
    and "\<And>t. t \<in> set (Q' x) \<Longrightarrow> event_info s' t = event_info s t \<and> event_set s' t = event_set s t"
  shows "event_ok s' Q' x"
  unfolding event_ok_def
proof (intro conjI ballI)
  note W = assms(1) [unfolded event_ok_def]
  show "wait_flag (event_flag (event_of s' x))" using W assms(3) by simp
  fix t assume t: "t \<in> set (Q' x)"
  then have q: "t \<in> set (Q x)" using subseq_set [OF assms(2)] by blast
  note same = assms(5) [OF t]
  show "event_info s' t AND RT_EVENT_FLAG_AND \<noteq> 0 \<or> event_info s' t AND RT_EVENT_FLAG_OR \<noteq> 0"
    using W q same by simp
  have "satisfied (event_info s t) (event_set s t) (event_bits (event_of s x)) = None" using W q by blast
  then show "satisfied (event_info s' t) (event_set s' t) (event_bits (event_of s' x)) = None"
    unfolding same [THEN conjunct1] same [THEN conjunct2] by (rule satisfied_mono [OF assms(4)])
qed

lemma events_ok_shrink:
  assumes "events_ok H E s Q" and "waits_in H Q Q'" and "event_of s' = event_of s" "event_set s' = event_set s"
    "event_info s' = event_info s"
  shows "events_ok H E s' Q'"
proof -
  have "event_ok s' Q' x" if "x \<in> E" for x
    by (rule event_ok_shrink [OF events_okD(3) [OF assms(1) that]])
      (use assms(2-5) events_okD(1,2) [OF assms(1) that] in \<open>simp_all add: waits_in_def\<close>)
  then show ?thesis using assms(1) by (simp add: events_ok_def)
qed

subsection \<open>Sending\<close>

lemma rt_event_send_ok:
  assumes K: "kernel_state T idle s H Q hs ss" and x: "x \<in> H" "rt_thread_defunct < x" and new: "new \<noteq> 0"
    and w: "wake_list (event_info s) (event_set s) (event_bits (event_of s x) OR new) (Q x) = (b, ws)"
  obtains s' Q' hs' where "rt_event_send x new s = returns (RT_EOK, s')" and "kernel_state T idle s' H Q' hs' ss"
    and "\<And>h. h \<in> H \<Longrightarrow> rt_thread_defunct < h \<Longrightarrow> h \<noteq> x \<Longrightarrow> Q' h = Q h"
    and "Q' x = filter (\<lambda>t. t \<notin> fst ` set ws) (Q x)"
    and "event_of s' = (event_of s)(x := (event_of s x)\<lparr>event_bits := b\<rparr>)" and "event_info s' = event_info s"
    and "\<And>t. event_set s' t = (case map_of ws t of Some g \<Rightarrow> g | None \<Rightarrow> event_set s t)"
    and "\<And>t. t \<in> fst ` set ws \<Longrightarrow> thread_stat t s' = RT_THREAD_READY"
    and "\<And>t. th_error (thread_of s' t) = th_error (thread_of s t)"
proof -
  note F = lists_okD(1) [OF sched_okD(1) [OF kernel_okD(1) [OF kernel_stateD(1) [OF K]]]]
  let ?s = "set_bits x (event_bits (event_of s x) OR new) s"
  have K1: "kernel_state T idle ?s H Q hs ss" by (rule set_event_state(2) [OF K])
  have e: "rt_list_isempty x (tlists ?s) \<longleftrightarrow> Q x = []" using family_isempty [OF F x(1)] by simp
  have n: "next_link (tlists ?s) x = hd (Q x @ [x])" using dlist_ends(1) [OF familyD(1) [OF F x(1)]] by simp
  have "wake_list (event_info ?s) (event_set ?s) (event_bits (event_of ?s x)) (Q x) = (b, ws)" using w by simp
  from event_wake_ok [OF K1 x _ this, of "[]" False] obtain s1 Q1 hs1 where
    s1: "event_wake x (hd (Q x @ [x])) False ?s = returns (ws \<noteq> [], s1)" "kernel_state T idle s1 H Q1 hs1 ss"
    "\<And>h. h \<in> H \<Longrightarrow> rt_thread_defunct < h \<Longrightarrow> h \<noteq> x \<Longrightarrow> Q1 h = Q h"
    "Q1 x = filter (\<lambda>t. t \<notin> fst ` set ws) (Q x)" "woken_as x b ws ?s s1" by auto
  have scan: "(if \<not> rt_list_isempty x (tlists ?s) then event_wake x (next_link (tlists ?s) x) False ?s
      else returns (False, ?s)) = returns (ws \<noteq> [], s1)"
  proof (cases "Q x = []")
    case True
    then have "event_wake x (hd (Q x @ [x])) False ?s = returns (False, ?s)" by (subst event_wake.simps) simp
    then have "ws = []" "s1 = ?s" using s1(1) by simp_all
    moreover have "rt_list_isempty x (tlists ?s)" using e True by blast
    ultimately show ?thesis by simp
  qed (use e n s1(1) in simp)
  let ?s' = "if ws = [] then s1 else settle Q1 s1"
  have send: "rt_event_send x new s = returns (RT_EOK, ?s')"
    unfolding rt_event_send_def Let_def using new scan settle_state(1) [OF s1(2)] by simp
  have K2: "kernel_state T idle ?s' H Q1 hs1 ss" using s1(2) settle_state(2) [OF s1(2)] by simp
  have m: "event_of ?s' = event_of s1" "event_info ?s' = event_info s1" "event_set ?s' = event_set s1"
    "thread_of ?s' = thread_of s1" "\<And>t. thread_stat t ?s' = thread_stat t s1"
    using event_of_more [of "settle Q1 s1" s1] by simp_all
  show ?thesis
    by (rule that [OF send K2 s1(3,4)]) (use s1(5) in \<open>simp_all only: m, auto simp: woken_as_def split: option.split\<close>)
qed

lemma event_send_keeps:
  assumes K: "kernel_state T idle s H Q hs ss" and O: "events_ok H E s Q" and x: "x \<in> E"
  shows "\<exists>s'. state_of (rt_event_send x new s) = returns s' \<and> event_inv T idle E s'"
proof (cases "new = 0")
  case True
  then show ?thesis using event_invI [OF K O] by (simp add: rt_event_send_def)
next
  case False
  note X = events_okD [OF O x]
  note F = lists_okD(1) [OF sched_okD(1) [OF kernel_okD(1) [OF kernel_stateD(1) [OF K]]]]
  obtain b ws where w: "wake_list (event_info s) (event_set s) (event_bits (event_of s x) OR new) (Q x) = (b, ws)" by fastforce
  obtain s' Q' hs' where s': "rt_event_send x new s = returns (RT_EOK, s')" "kernel_state T idle s' H Q' hs' ss"
    "\<And>h. h \<in> H \<Longrightarrow> rt_thread_defunct < h \<Longrightarrow> h \<noteq> x \<Longrightarrow> Q' h = Q h"
    "Q' x = filter (\<lambda>t. t \<notin> fst ` set ws) (Q x)"
    "event_of s' = (event_of s)(x := (event_of s x)\<lparr>event_bits := b\<rparr>)" "event_info s' = event_info s"
    "\<And>t. event_set s' t = (case map_of ws t of Some g \<Rightarrow> g | None \<Rightarrow> event_set s t)"
    by (rule rt_event_send_ok [OF K X(1,2) False w]) (rule that)
  have keep: "event_set s' t = event_set s t" if "t \<notin> fst ` set ws" for t
    using that s'(7) [of t] by (simp add: map_of_eq_None_iff [THEN iffD2])
  have "event_ok s' Q' y" if y: "y \<in> E" for y
  proof (cases "y = x")
    case True
    have "satisfied (event_info s' t) (event_set s' t) b = None" if "t \<in> set (Q' x)" for t
      using wake_list_unsatisfied [OF w, of t] that s'(4,6) keep [of t] by auto
    then show ?thesis using True X(3) s'(4-6) by (auto simp: event_ok_def)
  next
    case False
    note Y = events_okD [OF O y]
    have "t \<notin> fst ` set ws" if "t \<in> set (Q y)" for t
      using wake_list_sub [OF w] familyD(3) [OF F Y(1) X(1) that] False by blast
    then show ?thesis
      using s'(3) [OF Y(1,2) False] s'(5,6) keep False by (intro event_ok_shrink [OF Y(3)]) simp_all
  qed
  then show ?thesis using s'(1) event_invI [OF s'(2)] O by (auto simp: events_ok_def)
qed

subsection \<open>Receiving\<close>

definition receivable :: "u8 \<Rightarrow> u32 \<Rightarrow> u32 \<Rightarrow> bool" where
  "receivable option want bits \<longleftrightarrow>
     (if option AND RT_EVENT_FLAG_AND \<noteq> 0 then bits AND want = want else bits AND want \<noteq> 0)"

definition asks :: "u8 \<Rightarrow> bool" where
  "asks option \<longleftrightarrow> option AND RT_EVENT_FLAG_AND \<noteq> 0 \<or> option AND RT_EVENT_FLAG_OR \<noteq> 0"

lemma receivable_satisfied: "asks option \<Longrightarrow> receivable option want bits \<longleftrightarrow> satisfied option want bits \<noteq> None"
  by (auto simp: receivable_def satisfied_def asks_def and.commute)

lemma rt_event_recv_there:
  assumes "current_thread s = Some t" and "interrupt_nest s = 0" and "want \<noteq> 0" and "asks option"
    and "receivable option want (event_bits (event_of s x))"
  shows "rt_event_recv x want option timeout s =
    (let bits = event_bits (event_of s x) in
     returns (Back (RT_EOK, Some (bits AND want)),
       if option AND RT_EVENT_FLAG_CLEAR \<noteq> 0 then set_bits x (bits AND NOT want) (set_error RT_EOK t s)
       else set_error RT_EOK t s))"
proof -
  have "event_of (set_error RT_EOK t s) = event_of s" by (rule event_of_more) simp
  then show ?thesis
    using assms(3-5) by (auto simp: rt_event_recv_def in_thread [OF assms(1,2)] Let_def receivable_def asks_def)
qed

lemma rt_event_recv_no_wait:
  assumes "current_thread s = Some t" and "interrupt_nest s = 0" and "want \<noteq> 0" and "asks option"
    and "\<not> receivable option want (event_bits (event_of s x))"
  shows "rt_event_recv x want option 0 s =
    returns (Back (- RT_ETIMEOUT, None), set_error (- RT_ETIMEOUT) t (set_error RT_EOK t s))"
proof -
  have "event_of (set_error RT_EOK t s) = event_of s" by (rule event_of_more) simp
  then show ?thesis
    using assms(3-5) by (auto simp: rt_event_recv_def in_thread [OF assms(1,2)] Let_def receivable_def asks_def)
qed

lemma rt_event_recv_waits:
  assumes K: "kernel_state T idle s H Q hs ss" and cur: "current_thread s = Some t" and b: "may_block idle time s"
    and x: "x \<in> H" "rt_thread_defunct < x" and f: "wait_flag (event_flag (event_of s x))"
    and w: "want \<noteq> 0" "asks option" "\<not> receivable option want (event_bits (event_of s x))" and time: "time \<noteq> 0"
  defines "J \<equiv> joined (event_flag (event_of s x)) (\<lambda>y. priority_of y s) x t Q"
  obtains s' hs' where "rt_event_recv x want option time s = returns (Switched_Out, s')"
    and "kernel_state T idle s' H J hs' ss" and "event_of s' = event_of s"
    and "event_set s' = (event_set s)(t := want)" and "event_info s' = (event_info s)(t := option)"
    and "thread_stat t s' = RT_THREAD_SUSPEND" and "0 < time \<Longrightarrow> t \<in> set hs' \<and> due s' t = time"
proof -
  note B = b [unfolded may_block_def]
  have B': "t \<noteq> idle" "lock_nest s = 0" "interrupt_nest s = 0" "time < 2 ^ 31 - 1" using B cur by auto
  let ?e = "set_error RT_EOK t s"
  let ?s = "?e\<lparr>event_set := (event_set ?e)(t := want), event_info := (event_info ?e)(t := option)\<rparr>"
  have ev: "event_of ?e = event_of s" "event_set ?e = event_set s" "event_info ?e = event_info s"
    by (rule event_of_more; simp)+
  have K1: "kernel_state T idle ?s H Q hs ss" by (rule set_event_state(4) [OF set_error_state [OF K]])
  have pre: "current_thread ?s = Some t" "lock_nest ?s = 0" "wait_flag (event_flag (event_of ?s x))"
    using cur B'(2) f ev by simp_all
  have pr: "priority_of y ?s = priority_of y s" for y by (simp add: priority_of_def)
  have J: "J = joined (event_flag (event_of ?s x)) (\<lambda>y. priority_of y ?s) x t Q" unfolding J_def pr by (simp add: ev)
  obtain s1 hs' where s1: "wait_on x t (event_flag (event_of ?s x)) time ?s = returns s1"
    "rt_schedule s1 = returns (settle J s1)" "hd (ready_order J) \<noteq> t" "kernel_state T idle (settle J s1) H J hs' ss"
    "kernel_frame t ?s s1" "thread_stat t s1 = RT_THREAD_SUSPEND" "0 < time \<Longrightarrow> t \<in> set hs' \<and> due s1 t = time"
    by (rule wait_on_ok [OF K1 pre(1) B'(1) pre(2) x pre(3) B'(4), folded J]) (rule that)
  note fr = kernel_frameD [OF s1(5)]
  note m = event_of_more [OF fr(5)]
  have "rt_event_recv x want option time s =
      andthen (wait_on x t (event_flag (event_of ?s x)) time ?s)
        (\<lambda>s. andthen (rt_schedule s) (\<lambda>s. if current_thread s = Some t
            then returns (map_prod Back id (event_recv_woken t s)) else returns (Switched_Out, s)))"
    using w time ev
    by (auto simp: rt_event_recv_def in_thread [OF cur B'(3)] Let_def receivable_def asks_def wait_on_def andthen_def
        split: option.splits sum.splits)
  then have "rt_event_recv x want option time s = returns (Switched_Out, settle J s1)"
    using s1(1-3) fr(2) pre(2) by simp
  moreover have "event_of (settle J s1) = event_of s1" "event_set (settle J s1) = event_set s1"
    "event_info (settle J s1) = event_info s1" by (rule event_of_more; simp)+
  moreover have "due (settle J s1) t = due s1 t" by (simp add: due_def)
  ultimately show ?thesis using that [of "settle J s1" hs'] s1(4,6,7) m ev by simp
qed

lemma event_recv_keeps:
  assumes K: "kernel_state T idle s H Q hs ss" and O: "events_ok H E s Q" and x: "x \<in> E"
    and i: "interrupt_nest s = 0" and a: "asks option" and b: "time \<noteq> 0 \<Longrightarrow> may_block idle time s"
  shows "\<exists>s'. state_of (rt_event_recv x want option time s) = returns s' \<and> event_inv T idle E s'"
proof -
  obtain t where t: "current_thread s = Some t" by (rule runner [OF K])
  note X = events_okD [OF O x]
  have err: "kernel_state T idle (set_error e t s') H Q hs ss \<and> events_ok H E (set_error e t s') Q"
    if "kernel_state T idle s' H Q hs ss" "events_ok H E s' Q" for e and s' :: "'a event_sys_scheme"
    using set_error_state [OF that(1)] events_ok_shrink [OF that(2), of Q "set_error e t s'"]
      event_of_more [of "set_error e t s'" s'] by simp
  note S = err [OF K O, of RT_EOK]
  consider (zero) "want = 0" | (there) "want \<noteq> 0" "receivable option want (event_bits (event_of s x))"
    | (no_wait) "want \<noteq> 0" "\<not> receivable option want (event_bits (event_of s x))" "time = 0"
    | (waits) "want \<noteq> 0" "\<not> receivable option want (event_bits (event_of s x))" "time \<noteq> 0" by blast
  then show ?thesis
  proof cases
    case zero
    then show ?thesis using event_invI [OF K O] by (simp add: rt_event_recv_def in_thread [OF t i])
  next
    case there
    let ?b = "event_bits (event_of s x) AND NOT want"
    let ?s = "set_bits x ?b (set_error RT_EOK t s)"
    have e: "event_of (set_error RT_EOK t s) = event_of s" "event_set (set_error RT_EOK t s) = event_set s"
      "event_info (set_error RT_EOK t s) = event_info s" by (rule event_of_more; simp)+
    have sub: "?b AND event_bits (event_of s x) = ?b" by (simp add: and.left_commute and.commute)
    have "event_ok ?s Q y" if "y \<in> E" for y
      by (rule event_ok_shrink [OF events_okD(3) [OF O that]]) (use sub e in simp_all)
    then have "events_ok H E ?s Q" using O by (simp add: events_ok_def)
    then have "event_inv T idle E ?s" using event_invI [OF set_event_state(2) [OF S [THEN conjunct1]]] by blast
    then show ?thesis
      using rt_event_recv_there [OF t i there(1) a there(2), of time] S event_invI by (auto simp: Let_def)
  next
    case no_wait
    then show ?thesis
      using rt_event_recv_no_wait [OF t i no_wait(1) a no_wait(2)] err [of "set_error RT_EOK t s" "- RT_ETIMEOUT"] S event_invI
      by auto
  next
    case waits
    have f: "wait_flag (event_flag (event_of s x))" using X(3) by (simp add: event_ok_def)
    let ?J = "joined (event_flag (event_of s x)) (\<lambda>y. priority_of y s) x t Q"
    obtain s' hs' where s': "rt_event_recv x want option time s = returns (Switched_Out, s')"
      "kernel_state T idle s' H ?J hs' ss" "event_of s' = event_of s"
      "event_set s' = (event_set s)(t := want)" "event_info s' = (event_info s)(t := option)"
      by (rule rt_event_recv_waits [OF K t b [OF waits(3)] X(1,2) f waits(1) a waits(2,3)]) (rule that)
    have out: "t \<notin> set (Q y)" if "y \<in> E" for y
      using waiting_thread(2) [OF kernel_stateD(1) [OF K] events_okD(1,2) [OF O that], of t] kernel_stateD(3) [OF K] t
      by (auto simp: running_def)
    have "event_ok s' ?J y" if y: "y \<in> E" for y
    proof (cases "y = x")
      case True
      have "satisfied option want (event_bits (event_of s x)) = None"
        using receivable_satisfied [OF a] waits(2) by blast
      then show ?thesis
        using True X(3) s'(3-5) a out [OF x] by (auto simp: event_ok_def joined_def asks_def)
    next
      case False
      then have "?J y = Q y" using out [OF y] by (simp add: joined_def without_fresh)
      then show ?thesis
        using s'(3-5) out [OF y] by (intro event_ok_shrink [OF events_okD(3) [OF O y]]) auto
    qed
    then show ?thesis using s'(1) event_invI [OF s'(2)] O by (auto simp: events_ok_def)
  qed
qed

subsection \<open>Every call\<close>

datatype event_call =
    Thread_Call call | Event_Init nat u8 | Event_Send nat u32 | Event_Recv nat u32 u8 int
  | Event_Control nat int | Event_Detach nat | Event_Delete nat

fun perform_event ::
  "(nat \<Rightarrow> 'a event_sys_scheme \<Rightarrow> 'a event_sys_scheme run) \<Rightarrow> event_call \<Rightarrow> 'a event_sys_scheme \<Rightarrow> 'a event_sys_scheme run"
where
  "perform_event cb (Thread_Call c) s = perform cb c s"
| "perform_event cb (Event_Init x f) s = state_of (rt_event_init x f s)"
| "perform_event cb (Event_Send x new) s = state_of (rt_event_send x new s)"
| "perform_event cb (Event_Recv x want option time) s = state_of (rt_event_recv x want option time s)"
| "perform_event cb (Event_Control x cmd) s = state_of (rt_event_control x cmd s)"
| "perform_event cb (Event_Detach x) s = state_of (rt_event_detach x s)"
| "perform_event cb (Event_Delete x) s = state_of (rt_event_delete x s)"

definition allowed_event :: "nat set \<Rightarrow> nat \<Rightarrow> nat set \<Rightarrow> 'a event_sys_scheme \<Rightarrow> event_call \<Rightarrow> bool" where
  "allowed_event T idle E s c \<longleftrightarrow>
     (case c of
        Thread_Call k \<Rightarrow> allowed T idle s k
      | Event_Init x f \<Rightarrow> x \<in> E \<and> wait_flag f \<and> rt_list_isempty x (tlists s)
      | Event_Send x new \<Rightarrow> x \<in> E
      | Event_Recv x want option time \<Rightarrow>
          x \<in> E \<and> asks option \<and> interrupt_nest s = 0 \<and> (time \<noteq> 0 \<longrightarrow> may_block idle time s)
      | Event_Control x cmd \<Rightarrow> x \<in> E
      | Event_Detach x \<Rightarrow> x \<in> E \<and> event_static (event_of s x)
      | Event_Delete x \<Rightarrow> x \<in> E \<and> \<not> event_static (event_of s x) \<and> interrupt_nest s = 0)"

lemma event_clear_keeps:
  assumes K: "kernel_state T idle s H Q hs ss" and O: "events_ok H E s Q" and x: "x \<in> E"
  obtains s1 Q1 hs1 where "rt_ipc_list_resume_all x s = returns s1" and "kernel_state T idle s1 H Q1 hs1 ss"
    and "events_ok H E s1 Q1" and "Q1 x = []" and "interrupt_nest s1 = interrupt_nest s"
proof -
  note X = events_okD [OF O x]
  obtain s' Q' hs' where s': "rt_ipc_list_resume_all x s = returns s'" "kernel_state T idle s' H Q' hs' ss" "Q' x = []"
    "\<And>h. h \<in> H \<Longrightarrow> rt_thread_defunct < h \<Longrightarrow> h \<noteq> x \<Longrightarrow> Q' h = Q h" "kernel.more s' = kernel.more s"
    by (rule resume_all_state [OF K X(1,2)]) (rule that)
  have i: "interrupt_nest s' = interrupt_nest s"
    using rt_ipc_list_resume_all_ok [OF kernel_stateD(1) [OF K] X(1,2)] s'(1) by (auto simp: others_kept_def)
  have "subseq (Q' h) (Q h)" if "h \<in> H" "rt_thread_defunct < h" for h
    using s'(3) s'(4) [OF that] by (cases "h = x") simp_all
  then have "waits_in H Q Q'" by (simp add: waits_in_def)
  then show ?thesis using that [OF s'(1,2) _ s'(3) i] events_ok_shrink [OF O] event_of_more [OF s'(5)] by blast
qed

lemma event_init_keeps:
  assumes K: "kernel_state T idle s H Q hs ss" and O: "events_ok H E s Q" and x: "x \<in> E"
    and f: "wait_flag f" and e: "rt_list_isempty x (tlists s)"
  shows "\<exists>s'. state_of (rt_event_init x f s) = returns s' \<and> event_inv T idle E s'"
proof -
  note I = init_list_same [OF K events_okD(1) [OF O x] e]
  let ?s = "set_event x \<lparr>event_flag = f, event_static = True, event_bits = 0\<rparr> s"
  have "event_ok ?s Q y" if "y \<in> E" for y
    using events_okD(3) [OF O that] I(1) f by (auto simp: event_ok_def)
  then have "events_ok H E ?s Q" using O by (simp add: events_ok_def)
  then show ?thesis using event_invI [OF set_event_state(1) [OF K]] by (simp add: rt_event_init_def I(2))
qed

lemma event_control_keeps:
  assumes K: "kernel_state T idle s H Q hs ss" and O: "events_ok H E s Q" and x: "x \<in> E"
  shows "\<exists>s'. state_of (rt_event_control x cmd s) = returns s' \<and> event_inv T idle E s'"
proof (cases "cmd = RT_IPC_CMD_RESET")
  case True
  obtain s1 Q1 hs1 where s1: "rt_ipc_list_resume_all x s = returns s1" "kernel_state T idle s1 H Q1 hs1 ss"
    "events_ok H E s1 Q1" "Q1 x = []" by (rule event_clear_keeps [OF K O x]) (rule that)
  let ?s = "set_bits x 0 s1"
  have "event_ok ?s Q1 y" if "y \<in> E" for y
    by (rule event_ok_shrink [OF events_okD(3) [OF s1(3) that]]) simp_all
  then have O1: "events_ok H E ?s Q1" using s1(3) by (simp add: events_ok_def)
  note S = settle_state [OF set_event_state(2) [OF s1(2)], of x 0]
  have "events_ok H E (settle Q1 ?s) Q1"
    using events_ok_shrink [OF O1, of Q1 "settle Q1 ?s"] event_of_more [of "settle Q1 ?s" ?s] by simp
  then show ?thesis using True s1(1) S(1) event_invI [OF S(2)] by (simp add: rt_event_control_def)
qed (use event_invI [OF K O] in \<open>simp add: rt_event_control_def\<close>)

lemma event_thread_call_keeps:
  assumes K: "kernel_state T idle s H Q hs ss" and O: "events_ok H E s Q"
    and cb: "thread_timeouts T cb" and a: "allowed T idle s c"
  shows "\<exists>s'. perform cb c s = returns s' \<and> event_inv T idle E s'"
proof -
  obtain s' Q' hs' ss' where s': "perform cb c s = returns s'" "kernel_state T idle s' H Q' hs' ss'" "waits_in H Q Q'"
    "kernel.more s' = kernel.more s" using perform_step [OF K cb a] unfolding kernel_step_def by blast
  then show ?thesis
    using event_invI [OF s'(2) events_ok_shrink [OF O s'(3) event_of_more [OF s'(4)]]] by blast
qed

lemma perform_event_keeps:
  assumes "event_inv T idle E s" and cb: "thread_timeouts T cb" and a: "allowed_event T idle E s c"
  shows "\<exists>s'. perform_event cb c s = returns s' \<and> event_inv T idle E s'"
proof -
  obtain H Q hs ss where K: "kernel_state T idle s H Q hs ss" and O: "events_ok H E s Q"
    using assms(1) unfolding event_inv_def by blast
  note laws = event_thread_call_keeps [OF K O cb] event_init_keeps [OF K O] event_send_keeps [OF K O]
    event_recv_keeps [OF K O] event_control_keeps [OF K O]
  have del: "\<exists>s'. state_of (rt_event_detach x s) = returns s' \<and> event_inv T idle E s'" if m: "x \<in> E" "event_static (event_of s x)" for x
  proof -
    obtain s1 Q1 hs1 where "rt_ipc_list_resume_all x s = returns s1" "kernel_state T idle s1 H Q1 hs1 ss" "events_ok H E s1 Q1"
      by (rule event_clear_keeps [OF K O m(1)]) (rule that)
    then show ?thesis using event_invI m(2) by (auto simp: rt_event_detach_def)
  qed
  have del': "\<exists>s'. state_of (rt_event_delete x s) = returns s' \<and> event_inv T idle E s'"
    if m: "x \<in> E" "\<not> event_static (event_of s x)" "interrupt_nest s = 0" for x
  proof -
    obtain s1 Q1 hs1 where "rt_ipc_list_resume_all x s = returns s1" "kernel_state T idle s1 H Q1 hs1 ss" "events_ok H E s1 Q1"
      by (rule event_clear_keeps [OF K O m(1)]) (rule that)
    then show ?thesis using event_invI m(2,3) by (auto simp: rt_event_delete_def debug_not_in_interrupt_def)
  qed
  show ?thesis
    using a by (cases c) (auto simp: allowed_event_def intro!: laws del del')
qed

inductive event_reachable ::
  "(nat \<Rightarrow> 'a event_sys_scheme \<Rightarrow> 'a event_sys_scheme run) \<Rightarrow> nat set \<Rightarrow> nat \<Rightarrow> nat set \<Rightarrow> 'a event_sys_scheme \<Rightarrow> 'a event_sys_scheme \<Rightarrow> bool"
  for cb T idle E s0 where
  start: "event_reachable cb T idle E s0 s0"
| step: "event_reachable cb T idle E s0 s \<Longrightarrow> allowed_event T idle E s c \<Longrightarrow> perform_event cb c s = returns s' \<Longrightarrow>
    event_reachable cb T idle E s0 s'"

lemma event_reachable_inv:
  assumes "event_reachable cb T idle E s0 s" and "event_inv T idle E s0" and "thread_timeouts T cb"
  shows "event_inv T idle E s"
  using assms(1)
proof (induction rule: event_reachable.induct)
  case (step s c s')
  then show ?case using perform_event_keeps [OF _ assms(3) step.hyps(2)] by auto
qed (rule assms(2))

end
