(* ===== verification/IpcRuns.thy ===== *)
theory IpcRuns
  imports IpcCalls SchedBoot
begin

text \<open>
  Systems from their start: the boot sequence followed by the initialisation of the objects, the states
  the calls reach from there, and the rule of priority inheritance on them.
\<close>

subsection \<open>Start\<close>

fun init_objects :: "(nat \<times> u32 \<times> u8) list \<Rightarrow> (nat \<times> u8) list \<Rightarrow> 'a ipc_scheme \<Rightarrow> 'a ipc_scheme run" where
  "init_objects [] [] s = returns s"
| "init_objects [] ((x, f) # xs) s = andthen (rt_mutex_init x f s) (\<lambda>(_, s). init_objects [] xs s)"
| "init_objects ((x, v, f) # xs) ys s = andthen (rt_sem_init x v f s) (\<lambda>(_, s). init_objects xs ys s)"

definition start_system ::
  "nat \<Rightarrow> (nat \<times> u8 \<times> u32) list \<Rightarrow> (nat \<times> u32 \<times> u8) list \<Rightarrow> (nat \<times> u8) list \<Rightarrow> 'a ipc_scheme \<Rightarrow> 'a ipc_scheme run"
where
  "start_system idle ts sems mutexes s = andthen (boot idle ts s) (init_objects sems mutexes)"

text \<open>The objects of a system: disjoint, with values in range and one of the two flags.\<close>

definition objects_given :: "nat set \<Rightarrow> (nat \<times> u32 \<times> u8) list \<Rightarrow> (nat \<times> u8) list \<Rightarrow> bool" where
  "objects_given H sems mutexes \<longleftrightarrow>
     (\<forall>(x, v, f) \<in> set sems. x \<in> H \<and> rt_thread_defunct < x \<and> v < 0x10000 \<and> wait_flag f) \<and>
     (\<forall>(x, f) \<in> set mutexes. x \<in> H \<and> rt_thread_defunct < x \<and> wait_flag f) \<and>
     distinct (map fst sems @ map fst mutexes)"

lemma family_alone: "kernel_state T idle s H Q hs ss \<Longrightarrow> x \<in> H \<Longrightarrow> Q x = [] \<Longrightarrow> rt_list_isempty x (tlists s)"
  using family_isempty [OF lists_okD(1) [OF sched_okD(1) [OF kernel_okD(1) [OF kernel_stateD(1)]]]] by blast

lemma other_object_ok [simp]:
  "y \<noteq> x \<Longrightarrow> sem_ok (set_sem x v s) Q y = sem_ok s Q y" "mutex_ok (set_sem x v s) T Q y = mutex_ok s T Q y"
  "sem_ok (set_mutex x m s) Q y = sem_ok s Q y" "y \<noteq> x \<Longrightarrow> mutex_ok (set_mutex x m s) T Q y = mutex_ok s T Q y"
  by (cases "mutex_owner (mutex_of s y)"; simp add: sem_ok_def mutex_ok_def)+

lemma objects_ok_more:
  assumes "objects_ok T H S M s Q" and "x \<in> H" "rt_thread_defunct < x" "x \<notin> S \<union> M"
  shows "sem_ok (set_sem x v s) Q x \<Longrightarrow> objects_ok T H (insert x S) M (set_sem x v s) Q"
    and "mutex_ok (set_mutex x m s) T Q x \<Longrightarrow> objects_ok T H S (insert x M) (set_mutex x m s) Q"
proof -
  have "y \<noteq> x" if "y \<in> S \<or> y \<in> M" for y using assms(4) that by blast
  then show "sem_ok (set_sem x v s) Q x \<Longrightarrow> objects_ok T H (insert x S) M (set_sem x v s) Q"
    "mutex_ok (set_mutex x m s) T Q x \<Longrightarrow> objects_ok T H S (insert x M) (set_mutex x m s) Q"
    using assms by (auto simp: objects_ok_def)
qed

lemma init_objects_ok:
  assumes "kernel_state T idle s H Q [] []" and "objects_ok T H S M s Q" and "objects_given H sems ms"
    and "(fst ` set sems \<union> fst ` set ms) \<inter> (S \<union> M) = {}" and "\<forall>h \<in> H. rt_thread_defunct < h \<longrightarrow> Q h = []"
  shows "\<exists>s'. init_objects sems ms s = returns s' \<and> kernel_state T idle s' H Q [] [] \<and>
    objects_ok T H (S \<union> fst ` set sems) (M \<union> fst ` set ms) s' Q \<and>
    (\<forall>(x, f) \<in> set ms. mutex_of s' x = new_mutex True f) \<and> (\<forall>x \<in> M. mutex_of s' x = mutex_of s x) \<and>
    current_thread s' = current_thread s \<and> lock_nest s' = lock_nest s \<and> interrupt_nest s' = interrupt_nest s"
  using assms
proof (induction sems ms s arbitrary: S M rule: init_objects.induct)
  case (2 x f xs s)
  let ?s = "set_mutex x (new_mutex True f) s"
  have x: "x \<in> H" "rt_thread_defunct < x" "x \<notin> S \<union> M" "wait_flag f" using "2.prems"(3,4) by (auto simp: objects_given_def)
  have Qx: "Q x = []" using "2.prems"(5) x(1,2) by blast
  have s1: "rt_mutex_init x f s = returns (RT_EOK, ?s)"
    using init_list_same(2) [OF "2.prems"(1) x(1) family_alone [OF "2.prems"(1) x(1) Qx]] by (simp add: rt_mutex_init_def)
  have O: "objects_ok T H S (insert x M) ?s Q"
    using Qx x(4) by (intro objects_ok_more(2) [OF "2.prems"(2) x(1-3)]) (simp add: mutex_ok_def new_mutex_def)
  have g: "objects_given H [] xs" "(fst ` set [] \<union> fst ` set xs) \<inter> (S \<union> insert x M) = {}"
    using "2.prems"(3,4) by (auto simp: objects_given_def)
  show ?case
    using "2.IH" [OF set_obj_state(2) [OF "2.prems"(1)] O g "2.prems"(5)] s1 x(3)
    by (auto simp: insert_commute)
next
  case (3 x v f xs ys s)
  let ?v = "\<lparr>sem_flag = f, sem_static = True, sem_value = ucast v\<rparr>"
  let ?s = "set_sem x ?v s"
  have x: "x \<in> H" "rt_thread_defunct < x" "x \<notin> S \<union> M" "wait_flag f" "v < 0x10000"
    using "3.prems"(3,4) by (auto simp: objects_given_def)
  have Qx: "Q x = []" using "3.prems"(5) x(1,2) by blast
  have s1: "rt_sem_init x v f s = returns (RT_EOK, ?s)"
    using init_list_same(2) [OF "3.prems"(1) x(1) family_alone [OF "3.prems"(1) x(1) Qx]] x(5) by (simp add: rt_sem_init_def)
  have O: "objects_ok T H (insert x S) M ?s Q"
    using Qx x(4) by (intro objects_ok_more(1) [OF "3.prems"(2) x(1-3)]) (simp add: sem_ok_def)
  have g: "objects_given H xs ys" "(fst ` set xs \<union> fst ` set ys) \<inter> (insert x S \<union> M) = {}"
    using "3.prems"(3,4) by (auto simp: objects_given_def)
  show ?case
    using "3.IH" [OF set_obj_state(1) [OF "3.prems"(1)] O g "3.prems"(5)] s1 by (auto simp: insert_commute)
qed auto

lemma start_system_ok:
  assumes "{..rt_thread_defunct} \<subseteq> H" and "distinct (map fst ts)" and "idle \<notin> fst ` set ts" and "idle \<notin> H"
    and "fst ` set ts \<inter> H = {}" and "\<forall>(t, p, tick) \<in> set ts. unat p < PRIORITY_MAX"
    and "objects_given H sems ms"
  obtains s0 Q where "start_system idle ts sems ms (reset_with m) = returns s0"
    and "kernel_state (insert idle (fst ` set ts)) idle s0 H Q [] []"
    and "objects_ok (insert idle (fst ` set ts)) H (fst ` set sems) (fst ` set ms) s0 Q"
    and "\<And>h. h \<in> H \<Longrightarrow> rt_thread_defunct < h \<Longrightarrow> Q h = []" and "Q = queued ((idle, 31, 32) # ts) (\<lambda>_. [])"
    and "\<And>x f. (x, f) \<in> set ms \<Longrightarrow> mutex_of s0 x = new_mutex True f"
    and "current_thread s0 = Some (hd (ready_order Q))" and "lock_nest s0 = 0" and "interrupt_nest s0 = 0"
proof -
  let ?T = "insert idle (fst ` set ts)" and ?Q = "queued ((idle, 31, 32) # ts) (\<lambda>_. [])"
  obtain s1 where s1: "boot idle ts (reset_with m) = returns s1" "kernel_ok s1 H ?T ?Q [] []" "lock_nest s1 = 0"
    "\<forall>x \<in> ?T. thread_stat x s1 = RT_THREAD_READY" "current_thread s1 = Some (hd (ready_order ?Q))" "interrupt_nest s1 = 0"
    using boot_ok [OF assms(1-6), of m] by blast
  have ne: "ready_order ?Q \<noteq> []" by (rule idle_live [OF s1(2), of idle]) (use s1(4) in simp_all)
  have K: "kernel_state ?T idle s1 H ?Q [] []"
    using s1 first_ready [OF kernel_okD(1) [OF s1(2)] ne] by (simp add: kernel_state_def on_time_def running_def)
  have "?Q h = []" if "h \<in> H" "rt_thread_defunct < h" for h
  proof -
    have False if "y \<in> set (?Q h)" for y
      using waiting_thread [OF s1(2) \<open>h \<in> H\<close> \<open>rt_thread_defunct < h\<close> that] s1(4) by simp
    then show ?thesis by (metis list.set_intros(1) neq_Nil_conv)
  qed
  moreover have "objects_ok ?T H {} {} s1 ?Q" by (simp add: objects_ok_def)
  ultimately obtain s0 where "init_objects sems ms s1 = returns s0" "kernel_state ?T idle s0 H ?Q [] []"
    "objects_ok ?T H (fst ` set sems) (fst ` set ms) s0 ?Q" "\<forall>(x, f) \<in> set ms. mutex_of s0 x = new_mutex True f"
    "current_thread s0 = current_thread s1" "lock_nest s0 = lock_nest s1" "interrupt_nest s0 = interrupt_nest s1"
    using init_objects_ok [OF K, of "{}" "{}" sems ms] assms(7) by auto
  then show ?thesis
    using that [of s0 ?Q] s1(1,3,5,6) \<open>\<And>h. h \<in> H \<Longrightarrow> rt_thread_defunct < h \<Longrightarrow> ?Q h = []\<close>
    by (auto simp: start_system_def)
qed

subsection \<open>Priority inheritance on the runs\<close>

text \<open>
  The discipline of \<open>MutexSpec\<close> on the calls: mutexes wake by priority, no thread takes a second mutex,
  a mutex is not initialised again while it is held, and priorities change by mutexes alone.
\<close>

definition no_nesting :: "nat set \<Rightarrow> 'a ipc_scheme \<Rightarrow> ipc_call \<Rightarrow> bool" where
  "no_nesting M s c \<longleftrightarrow>
     (case c of
        Kernel k \<Rightarrow> may_change k = {}
      | Mutex_Init x f \<Rightarrow> f = RT_IPC_FLAG_PRIO \<and> mutex_owner (mutex_of s x) = None
      | Mutex_Take x time \<Rightarrow> (\<forall>y \<in> M. mutex_owner (mutex_of s y) = current_thread s \<longrightarrow> y = x)
      | _ \<Rightarrow> True)"

lemma no_nesting_disciplined:
  assumes "no_nesting M s c" and "current_thread s = Some t"
  shows "disciplined (mutex_view M s Q) (mutex_event_of s c)"
  using assms by (cases c) (auto simp: no_nesting_def disciplined_def mutex_event_of_def mutex_view_def split: if_splits)

inductive disciplined_run ::
  "(nat \<Rightarrow> 'a ipc_scheme \<Rightarrow> 'a ipc_scheme run) \<Rightarrow> nat set \<Rightarrow> nat \<Rightarrow> nat set \<Rightarrow> nat set \<Rightarrow> 'a ipc_scheme \<Rightarrow> 'a ipc_scheme \<Rightarrow> bool"
  for cb T idle S M s0 where
  start: "disciplined_run cb T idle S M s0 s0"
| step: "disciplined_run cb T idle S M s0 s \<Longrightarrow> allowed_ipc T idle S M s c \<Longrightarrow> no_nesting M s c \<Longrightarrow>
    perform_ipc cb c s = returns s' \<Longrightarrow> disciplined_run cb T idle S M s0 s'"

lemma disciplined_run_inheritance:
  assumes "disciplined_run cb T idle S M s0 s" and cb: "thread_timeouts T cb"
    and "kernel_state T idle s0 H Q0 hs0 ss0" and "objects_ok T H S M s0 Q0"
    and "inheritance_ok b (mutex_view M s0 Q0)"
  shows "\<exists>Q hs ss. kernel_state T idle s H Q hs ss \<and> objects_ok T H S M s Q \<and> inheritance_ok b (mutex_view M s Q)"
  using assms(1)
proof (induction rule: disciplined_run.induct)
  case start
  then show ?case using assms(3-5) by blast
next
  case (step s c s')
  then obtain Q hs ss where K: "kernel_state T idle s H Q hs ss" and O: "objects_ok T H S M s Q"
    and I: "inheritance_ok b (mutex_view M s Q)" by blast
  obtain t where t: "current_thread s = Some t" by (rule runner [OF K])
  have "ipc_step T idle H S M (mutex_event_of s c) s Q s'"
    using ipc_call_ok [OF K O cb step.hyps(2)] step.hyps(4) by auto
  then show ?case
    using inheritance_preserved [OF _ no_nesting_disciplined [OF step.hyps(3) t] I] unfolding ipc_step_def by metis
qed

lemma fresh_inheritance:
  assumes "\<And>x. x \<in> M \<Longrightarrow> mutex_of s x = new_mutex True RT_IPC_FLAG_PRIO" and "\<And>x. x \<in> M \<Longrightarrow> Q x = []"
  shows "inheritance_ok (\<lambda>t. priority_of t s) (mutex_view M s Q)"
  using assms
  by (auto simp: inheritance_ok_def owner_rule_def queue_rule_def mutex_view_def new_mutex_def ran_def
      split: if_splits)

end
