(* ===== verification/IpcProps.thy ===== *)
theory IpcProps
  imports IpcRuns SchedProps
begin

text \<open>Properties of semaphores and mutexes, each with a concrete instance.\<close>

subsection \<open>Systems\<close>

abbreviation threads :: "nat \<Rightarrow> (nat \<times> u8 \<times> u32) list \<Rightarrow> nat set" where
  "threads idle ts \<equiv> insert idle (fst ` set ts)"

definition system_given ::
  "nat set \<Rightarrow> nat \<Rightarrow> (nat \<times> u8 \<times> u32) list \<Rightarrow> (nat \<times> u32 \<times> u8) list \<Rightarrow> (nat \<times> u8) list \<Rightarrow> bool"
where
  "system_given H idle ts sems ms \<longleftrightarrow>
     {..rt_thread_defunct} \<subseteq> H \<and> distinct (map fst ts) \<and> idle \<notin> fst ` set ts \<and> idle \<notin> H \<and> fst ` set ts \<inter> H = {} \<and>
     (\<forall>(t, p, tick) \<in> set ts. unat p < PRIORITY_MAX) \<and> objects_given H sems ms"

lemma system_started:
  assumes "system_given H idle ts sems ms"
  obtains s0 Q where "start_system idle ts sems ms (reset_with m) = returns s0"
    and "kernel_state (threads idle ts) idle s0 H Q [] []"
    and "objects_ok (threads idle ts) H (fst ` set sems) (fst ` set ms) s0 Q"
    and "\<And>h. h \<in> H \<Longrightarrow> rt_thread_defunct < h \<Longrightarrow> Q h = []" and "Q = queued ((idle, 31, 32) # ts) (\<lambda>_. [])"
    and "\<And>x f. (x, f) \<in> set ms \<Longrightarrow> mutex_of s0 x = new_mutex True f"
    and "current_thread s0 = Some (hd (ready_order Q))" and "lock_nest s0 = 0" and "interrupt_nest s0 = 0"
proof -
  note G = assms [unfolded system_given_def]
  have g: "{..rt_thread_defunct} \<subseteq> H" "distinct (map fst ts)" "idle \<notin> fst ` set ts" "idle \<notin> H" "fst ` set ts \<inter> H = {}"
    "\<forall>(t, p, tick) \<in> set ts. unat p < PRIORITY_MAX" "objects_given H sems ms" using G by blast+
  show ?thesis by (rule start_system_ok [OF g, of m]) (rule that)
qed

lemma priority_queued:
  assumes "kernel_state T idle s H Q hs ss" and "p < PRIORITY_MAX" and "t \<in> set (Q p)"
  shows "priority_of t s = p"
proof -
  note S = kernel_okD(1) [OF kernel_stateD(1) [OF assms(1)]]
  have p: "p \<in> H" using lists_okD(2) [OF sched_okD(1) [OF S]] assms(2) by blast
  have "t \<in> T" using sched_okD(3) [OF S p assms(3)] .
  then show ?thesis using thread_okD(3) [OF sched_okD(4) [OF S] assms(2)] assms(3) by blast
qed

lemma list_is_queue:
  assumes "kernel_state T idle s H Q hs ss" and "x \<in> H" and "dlist (tlists s) x l"
  shows "l = Q x"
  by (rule dlist_unique [OF assms(3) familyD(1) [OF lists_okD(1) [OF sched_okD(1)
        [OF kernel_okD(1) [OF kernel_stateD(1) [OF assms(1)]]]] assms(2)]])

lemma queue_is_list:
  "kernel_state T idle s H Q hs ss \<Longrightarrow> x \<in> H \<Longrightarrow> dlist (tlists s) x (Q x)"
  using familyD(1) [OF lists_okD(1) [OF sched_okD(1) [OF kernel_okD(1) [OF kernel_stateD(1)]]]] by blast

text \<open>
  The system of the instances: threads 41, 42 and 43 of the priorities 10, 15 and 20, of which 41
  runs, a semaphore 34 without units, and mutexes 33 and 35 by priority and 36 first come, first served.
\<close>

definition sys :: ipc where
  "sys = (case start_system 40 [(41, 10, 5), (42, 15, 5), (43, 20, 5)] [(34, 0, 1)] [(33, 1), (35, 1), (36, 0)]
              (reset_with (ipc.fields (\<lambda>_. \<lparr>sem_flag = 0, sem_static = True, sem_value = 0\<rparr>) (\<lambda>_. new_mutex True 0)))
          of Some (Inr s) \<Rightarrow> s | _ \<Rightarrow> kernel.extend reset_state
              (ipc.fields (\<lambda>_. \<lparr>sem_flag = 0, sem_static = True, sem_value = 0\<rparr>) (\<lambda>_. new_mutex True 0)))"

definition sys_queues :: "nat \<Rightarrow> nat list" where
  "sys_queues = (\<lambda>_. [])(31 := [40], 10 := [41], 15 := [42], 20 := [43])"

lemma sys_given: "system_given heads 40 [(41, 10, 5), (42, 15, 5), (43, 20, 5)] [(34, 0, 1)] [(33, 1), (35, 1), (36, 0)]"
  by (auto simp: system_given_def objects_given_def heads_def rt_thread_defunct_def wait_flag_def
      RT_IPC_FLAG_FIFO_def RT_IPC_FLAG_PRIO_def)

lemma sys_order: "ready_order sys_queues = [41, 42, 43, 40]"
  by (simp add: ready_order_def sys_queues_def upt_rec)

lemma sys_ok:
  "kernel_state {40, 41, 42, 43} 40 sys heads sys_queues [] []" "objects_ok {40, 41, 42, 43} heads {34} {33, 35, 36} sys sys_queues"
  "mutex_of sys 33 = new_mutex True 1" "mutex_of sys 36 = new_mutex True 0" "mutex_of sys 35 = new_mutex True 1"
  "current_thread sys = Some 41" "lock_nest sys = 0" "interrupt_nest sys = 0"
proof -
  let ?ts = "[(41, 10, 5), (42, 15, 5), (43, 20, 5)] :: (nat \<times> u8 \<times> u32) list"
    and ?ms = "[(33, 1), (35, 1), (36, 0)] :: (nat \<times> u8) list"
  obtain s Q where s: "start_system 40 ?ts [(34, 0, 1)] ?ms
      (reset_with (ipc.fields (\<lambda>_. \<lparr>sem_flag = 0, sem_static = True, sem_value = 0\<rparr>) (\<lambda>_. new_mutex True 0))) = returns s"
    "kernel_state (threads 40 ?ts) 40 s heads Q [] []"
    "objects_ok (threads 40 ?ts) heads (fst ` set [(34, 0 :: u32, 1 :: u8)]) (fst ` set ?ms) s Q"
    "Q = queued ((40, 31, 32) # ?ts) (\<lambda>_. [])" "\<And>x f. (x, f) \<in> set ?ms \<Longrightarrow> mutex_of s x = new_mutex True f"
    "current_thread s = Some (hd (ready_order Q))" "lock_nest s = 0" "interrupt_nest s = 0"
    by (rule system_started [OF sys_given,
          of "ipc.fields (\<lambda>_. \<lparr>sem_flag = 0, sem_static = True, sem_value = 0\<rparr>) (\<lambda>_. new_mutex True 0)"]) (rule that)
  have Q: "Q = sys_queues" unfolding s(4) by (auto simp: sys_queues_def)
  have e: "sys = s" using s(1) by (simp add: sys_def)
  show "kernel_state {40, 41, 42, 43} 40 sys heads sys_queues [] []"
    "objects_ok {40, 41, 42, 43} heads {34} {33, 35, 36} sys sys_queues"
    "mutex_of sys 33 = new_mutex True 1" "mutex_of sys 36 = new_mutex True 0" "mutex_of sys 35 = new_mutex True 1"
    "current_thread sys = Some 41" "lock_nest sys = 0" "interrupt_nest sys = 0"
    using s(2,3) s(5) [of 33 1] s(5) [of 36 0] s(5) [of 35 1] s(6-8) unfolding Q sys_order e by simp_all
qed

lemma sys_priorities: "priority_of 41 sys = 10" "priority_of 42 sys = 15" "priority_of 43 sys = 20"
  using priority_queued [OF sys_ok(1), of 10 41] priority_queued [OF sys_ok(1), of 15 42]
    priority_queued [OF sys_ok(1), of 20 43] by (simp_all add: sys_queues_def)

subsection \<open>Every system of threads, semaphores and mutexes\<close>

text \<open>
  C4: A system boots with any threads and initialises any semaphores and mutexes, and from there every
  sequence of the calls on them and on the threads, each made when it is allowed, with ticks,
  interrupts and critical sections between them, returns: no assertion fails, no loop over a wait
  list runs on, no null owner is followed. A thread waits for a semaphore only while it has no unit,
  for a mutex only while another thread of the system holds it, and the kernel stays consistent.
\<close>

theorem ipc_calls_keep_invariant:
  assumes "system_given H idle ts sems ms" and "thread_timeouts (threads idle ts) cb"
  shows "\<exists>s0. start_system idle ts sems ms (reset_with m) = returns s0 \<and>
      (\<forall>s c. ipc_reachable cb (threads idle ts) idle (fst ` set sems) (fst ` set ms) s0 s \<longrightarrow>
         allowed_ipc (threads idle ts) idle (fst ` set sems) (fst ` set ms) s c \<longrightarrow>
         (\<exists>s'. perform_ipc cb c s = returns s' \<and> ipc_inv (threads idle ts) idle (fst ` set sems) (fst ` set ms) s'))"
proof -
  let ?T = "threads idle ts" and ?S = "fst ` set sems" and ?M = "fst ` set ms"
  obtain s0 Q where s0: "start_system idle ts sems ms (reset_with m) = returns s0"
    "kernel_state ?T idle s0 H Q [] []" "objects_ok ?T H ?S ?M s0 Q" by (rule system_started [OF assms(1), of m])
  have I: "ipc_inv ?T idle ?S ?M s0" using ipc_invI [OF s0(2,3)] .
  have "\<exists>s'. perform_ipc cb c s = returns s' \<and> ipc_inv ?T idle ?S ?M s'"
    if "ipc_reachable cb ?T idle ?S ?M s0 s" "allowed_ipc ?T idle ?S ?M s c" for s c
    by (rule perform_ipc_keeps [OF ipc_reachable_inv [OF that(1) I assms(2)] assms(2) that(2)])
  then show ?thesis using s0(1) by blast
qed

definition sys_timeouts :: "nat \<Rightarrow> ipc \<Rightarrow> ipc run" where
  "sys_timeouts t = (if t \<in> {40, 41, 42, 43} then rt_thread_timeout t else (\<lambda>s. returns s))"

lemma sys_timeouts_ok: "thread_timeouts {40, 41, 42, 43} sys_timeouts"
  by (simp add: thread_timeouts_def sys_timeouts_def)

theorem ipc_calls_keep_invariant_witness:
  "\<exists>s0. start_system 40 [(41, 10, 5), (42, 15, 5), (43, 20, 5)] [(34, 0, 1)] [(33, 1), (35, 1), (36, 0)]
        (reset_with (ipc.fields (\<lambda>_. \<lparr>sem_flag = 0, sem_static = True, sem_value = 0\<rparr>) (\<lambda>_. new_mutex True 0))) = returns s0 \<and>
      (\<forall>s c. ipc_reachable sys_timeouts {40, 41, 42, 43} 40 {34} {33, 35, 36} s0 s \<longrightarrow>
         allowed_ipc {40, 41, 42, 43} 40 {34} {33, 35, 36} s c \<longrightarrow>
         (\<exists>s'. perform_ipc sys_timeouts c s = returns s' \<and> ipc_inv {40, 41, 42, 43} 40 {34} {33, 35, 36} s'))"
  using ipc_calls_keep_invariant [OF sys_given, of sys_timeouts
      "ipc.fields (\<lambda>_. \<lparr>sem_flag = 0, sem_static = True, sem_value = 0\<rparr>) (\<lambda>_. new_mutex True 0)"] sys_timeouts_ok
  by simp

text \<open>
  C8: The mutexes of every reachable system are a refinement of the machine \<open>mutex_step\<close>: a call is the
  step of its event on the owners, the counts of holds, the saved priorities, the wait lists, which are
  the lists in memory, and the priorities of the threads.
\<close>

theorem mutex_calls_refine_machine:
  assumes "ipc_reachable cb T idle S M s0 s" and "ipc_inv T idle S M s0" and "thread_timeouts T cb"
    and "allowed_ipc T idle S M s c"
  shows "\<exists>s' Q Q'. perform_ipc cb c s = returns s' \<and>
      (\<forall>x \<in> M. dlist (tlists s) x (Q x) \<and> dlist (tlists s') x (Q' x)) \<and>
      mutex_step (mutex_event_of s c) (mutex_view M s Q) (mutex_view M s' Q')"
proof -
  obtain H Q hs ss where K: "kernel_state T idle s H Q hs ss" and O: "objects_ok T H S M s Q"
    using ipc_reachable_inv [OF assms(1-3)] unfolding ipc_inv_def by blast
  obtain s' Q' hs' ss' where s': "perform_ipc cb c s = returns s'" "kernel_state T idle s' H Q' hs' ss'"
    "mutex_step (mutex_event_of s c) (mutex_view M s Q) (mutex_view M s' Q')"
    using ipc_call_ok [OF K O assms(3,4)] unfolding ipc_step_def by blast
  then show ?thesis using queue_is_list [OF K] queue_is_list [OF s'(2)] objects_okD(2) [OF O] by blast
qed

theorem mutex_calls_refine_machine_witness:
  "\<exists>s' Q Q'. perform_ipc sys_timeouts (Mutex_Take 33 7) sys = returns s' \<and>
      (\<forall>x \<in> {33, 35, 36}. dlist (tlists sys) x (Q x) \<and> dlist (tlists s') x (Q' x)) \<and>
      mutex_step (Take 33 41) (mutex_view {33, 35, 36} sys Q) (mutex_view {33, 35, 36} s' Q')"
proof -
  have "allowed_ipc {40, 41, 42, 43} 40 {34} {33, 35, 36} sys (Mutex_Take 33 7)"
    using sys_ok by (simp add: allowed_ipc_def may_block_def new_mutex_def)
  from mutex_calls_refine_machine [OF ipc_reachable.start ipc_invI [OF sys_ok(1,2)] sys_timeouts_ok this]
  show ?thesis using sys_ok(6) by (simp add: mutex_event_of_def)
qed

subsection \<open>Priority inheritance\<close>

text \<open>What the rule of the machine says of the lists in memory.\<close>

lemma inheritance_seen:
  assumes K: "kernel_state T idle s H Q hs ss" and O: "objects_ok T H S M s Q" and I: "inheritance_ok b (mutex_view M s Q)"
    and x: "x \<in> M"
  shows "dlist (tlists s) x (Q x)" and "sorted (map (\<lambda>t. priority_of t s) (Q x))"
    and "case mutex_owner (mutex_of s x) of
        None \<Rightarrow> Q x = []
      | Some ow \<Rightarrow> ow \<notin> set (Q x) \<and> priority_of ow s \<le> b ow \<and> (\<forall>t \<in> set (Q x). priority_of ow s \<le> priority_of t s)"
proof -
  let ?v = "mutex_view M s Q"
  have OR: "owner_rule b ?v" and QR: "queue_rule ?v" using I by (simp_all add: inheritance_ok_def)
  show "dlist (tlists s) x (Q x)" by (rule queue_is_list [OF K objects_okD(2) [OF O x]])
  show "sorted (map (\<lambda>t. priority_of t s) (Q x))" using queue_ruleD(2) [OF QR, of x] x by (simp add: mutex_view_def)
  show "case mutex_owner (mutex_of s x) of
        None \<Rightarrow> Q x = []
      | Some ow \<Rightarrow> ow \<notin> set (Q x) \<and> priority_of ow s \<le> b ow \<and> (\<forall>t \<in> set (Q x). priority_of ow s \<le> priority_of t s)"
  proof (cases "mutex_owner (mutex_of s x)")
    case None
    then show ?thesis using queue_ruleD(5) [OF QR, of x] x by (simp add: mutex_view_def)
  next
    case (Some ow)
    then have ow: "owner_of ?v x = Some ow" using x by (simp add: mutex_view_def)
    have "ow \<notin> set (waiting ?v x)" using owner_ruleD(3) [OF OR ow] by (simp add: outside_def)
    then show ?thesis
      using Some x owner_ruleD(2) [OF OR ow] owner_ruleD(4) [OF OR ow] by (simp add: mutex_view_def)
  qed
qed

text \<open>
  C3: From a start with mutexes that wake by priority, on every run in which no thread takes a second
  mutex, no priority inversion lasts: the threads that wait for a mutex stand in the order of their
  priorities, its owner is not among them and has the priority of the first of them or a better one,
  never a worse one than its own, and a thread that holds no mutex has its own priority back.
\<close>

theorem priority_inheritance:
  assumes "system_given H idle ts sems ms" and "\<forall>(x, f) \<in> set ms. f = RT_IPC_FLAG_PRIO"
    and "thread_timeouts (threads idle ts) cb"
  shows "\<exists>s0. start_system idle ts sems ms (reset_with m) = returns s0 \<and>
      (\<forall>s. disciplined_run cb (threads idle ts) idle (fst ` set sems) (fst ` set ms) s0 s \<longrightarrow>
         (\<forall>x \<in> fst ` set ms. \<exists>l. dlist (tlists s) x l \<and> sorted (map (\<lambda>t. priority_of t s) l) \<and>
            (case mutex_owner (mutex_of s x) of
               None \<Rightarrow> l = []
             | Some ow \<Rightarrow> ow \<notin> set l \<and> priority_of ow s \<le> priority_of ow s0 \<and>
                 (\<forall>t \<in> set l. priority_of ow s \<le> priority_of t s))) \<and>
         (\<forall>t. (\<forall>x \<in> fst ` set ms. mutex_owner (mutex_of s x) \<noteq> Some t) \<longrightarrow> priority_of t s = priority_of t s0))"
proof -
  let ?T = "threads idle ts" and ?S = "fst ` set sems" and ?M = "fst ` set ms"
  obtain s0 Q0 where s0: "start_system idle ts sems ms (reset_with m) = returns s0"
    "kernel_state ?T idle s0 H Q0 [] []" "objects_ok ?T H ?S ?M s0 Q0"
    "\<And>h. h \<in> H \<Longrightarrow> rt_thread_defunct < h \<Longrightarrow> Q0 h = []" "\<And>x f. (x, f) \<in> set ms \<Longrightarrow> mutex_of s0 x = new_mutex True f"
    by (rule system_started [OF assms(1), of m]) (rule that)
  have "mutex_of s0 x = new_mutex True RT_IPC_FLAG_PRIO" "Q0 x = []" if "x \<in> ?M" for x
    using s0(4) [OF objects_okD(2,4) [OF s0(3) that]] s0(5) assms(2) that by auto
  then have I0: "inheritance_ok (\<lambda>t. priority_of t s0) (mutex_view ?M s0 Q0)" by (rule fresh_inheritance)
  show ?thesis
  proof (intro exI [of _ s0] conjI allI impI s0(1) ballI)
    fix s assume run: "disciplined_run cb ?T idle ?S ?M s0 s"
    obtain Q hs ss where K: "kernel_state ?T idle s H Q hs ss" and O: "objects_ok ?T H ?S ?M s Q"
      and I: "inheritance_ok (\<lambda>t. priority_of t s0) (mutex_view ?M s Q)"
      using disciplined_run_inheritance [OF run assms(3) s0(2,3) I0] by blast
    show "\<exists>l. dlist (tlists s) x l \<and> sorted (map (\<lambda>t. priority_of t s) l) \<and>
            (case mutex_owner (mutex_of s x) of
               None \<Rightarrow> l = []
             | Some ow \<Rightarrow> ow \<notin> set l \<and> priority_of ow s \<le> priority_of ow s0 \<and>
                 (\<forall>t \<in> set l. priority_of ow s \<le> priority_of t s))" if "x \<in> ?M" for x
      using inheritance_seen [OF K O I that] by blast
    fix t assume "\<forall>x \<in> ?M. mutex_owner (mutex_of s x) \<noteq> Some t"
    then have "owner_of (mutex_view ?M s Q) x \<noteq> Some t" for x by (auto simp: mutex_view_def)
    then have "prio (mutex_view ?M s Q) t = priority_of t s0"
      by (rule owner_ruleD(6) [OF I [unfolded inheritance_ok_def, THEN conjunct1]])
    then show "priority_of t s = priority_of t s0" by (simp add: mutex_view_def)
  qed
qed

lemma prio_sys_given: "system_given heads 40 [(41, 10, 5), (42, 15, 5), (43, 20, 5)] [(34, 0, 1)] [(33, 1), (35, 1)]"
  using sys_given by (auto simp: system_given_def objects_given_def)

theorem priority_inheritance_witness:
  "\<exists>s0. start_system 40 [(41, 10, 5), (42, 15, 5), (43, 20, 5)] [(34, 0, 1)] [(33, 1), (35, 1)]
        (reset_with (ipc.fields (\<lambda>_. \<lparr>sem_flag = 0, sem_static = True, sem_value = 0\<rparr>) (\<lambda>_. new_mutex True 0))) = returns s0 \<and>
      (\<forall>s. disciplined_run sys_timeouts {40, 41, 42, 43} 40 {34} {33, 35} s0 s \<longrightarrow>
         (\<forall>x \<in> {33, 35}. \<exists>l. dlist (tlists s) x l \<and> sorted (map (\<lambda>t. priority_of t s) l) \<and>
            (case mutex_owner (mutex_of s x) of
               None \<Rightarrow> l = []
             | Some ow \<Rightarrow> ow \<notin> set l \<and> priority_of ow s \<le> priority_of ow s0 \<and>
                 (\<forall>t \<in> set l. priority_of ow s \<le> priority_of t s))) \<and>
         (\<forall>t. (\<forall>x \<in> {33, 35}. mutex_owner (mutex_of s x) \<noteq> Some t) \<longrightarrow> priority_of t s = priority_of t s0))"
  using priority_inheritance [OF prio_sys_given, of sys_timeouts
      "ipc.fields (\<lambda>_. \<lparr>sem_flag = 0, sem_static = True, sem_value = 0\<rparr>) (\<lambda>_. new_mutex True 0)"] sys_timeouts_ok
  by (simp add: RT_IPC_FLAG_PRIO_def)

subsection \<open>Semaphores\<close>

text \<open>
  The abstract semaphore: the units, below 65536, and the threads in the order in which they will get
  one. A release gives a unit to the first of them or counts it.
\<close>

definition sem_view :: "'a ipc_scheme \<Rightarrow> (nat \<Rightarrow> nat list) \<Rightarrow> nat \<Rightarrow> nat \<times> nat list" where
  "sem_view s Q x = (unat (sem_value (sem_of s x)), Q x)"

definition put_unit :: "nat \<times> nat list \<Rightarrow> nat \<times> nat list" where
  "put_unit v = (case v of (n, []) \<Rightarrow> ((n + 1) mod 65536, []) | (n, t # ts) \<Rightarrow> (n, ts))"

definition get_unit :: "u8 \<Rightarrow> (nat \<Rightarrow> nat) \<Rightarrow> nat \<Rightarrow> nat \<times> nat list \<Rightarrow> nat \<times> nat list" where
  "get_unit flag r t v = (case v of (n, q) \<Rightarrow> if 0 < n then (n - 1, q) else (0, wait_place flag r t q))"

lemma unat_succ: "unat (n + 1 :: u16) = (unat n + 1) mod 65536"
  by (simp add: unat_word_ariths)

lemma sem_release_view:
  assumes K: "kernel_state T idle s H Q hs ss" and x: "x \<in> H" "rt_thread_defunct < x"
  shows "\<exists>s' Q' hs'. rt_sem_release x s = returns (RT_EOK, s') \<and> kernel_state T idle s' H Q' hs' ss \<and>
      sem_view s' Q' x = put_unit (sem_view s Q x) \<and>
      (\<forall>t ts. Q x = t # ts \<longrightarrow> thread_stat t s' = RT_THREAD_READY \<and> th_error (thread_of s' t) = th_error (thread_of s t))"
proof (cases "Q x")
  case Nil
  let ?s = "set_sem x ((sem_of s x)\<lparr>sem_value := sem_value (sem_of s x) + 1\<rparr>) s"
  have "rt_sem_release x s = returns (RT_EOK, ?s)" by (rule rt_sem_release_counts [OF K x(1) Nil])
  moreover have "kernel_state T idle ?s H Q hs ss" by (rule set_obj_state(1) [OF K])
  moreover have "sem_view ?s Q x = put_unit (sem_view s Q x)" by (simp add: sem_view_def put_unit_def Nil unat_succ)
  ultimately show ?thesis using Nil by fastforce
next
  case (Cons t ts)
  obtain s' where s': "rt_sem_release x s = returns (RT_EOK, s')"
    "kernel_state T idle s' H (made_ready s t Q) (remove1 t hs) ss" "kernel.more s' = kernel.more s"
    "thread_stat t s' = RT_THREAD_READY" "th_error (thread_of s' t) = th_error (thread_of s t)"
    "made_ready s t Q x = ts"
    by (rule rt_sem_release_hands_over [OF K x Cons]) (rule that)
  moreover have "sem_view s' (made_ready s t Q) x = put_unit (sem_view s Q x)"
    using s'(6) ipc_of_more [OF s'(3)] Cons by (simp add: sem_view_def put_unit_def)
  ultimately show ?thesis using Cons by fastforce
qed

lemma sem_take_view:
  assumes K: "kernel_state T idle s H Q hs ss" and O: "objects_ok T H S M s Q" and x: "x \<in> S"
    and t: "current_thread s = Some t" and b: "may_block idle time s" and time: "time \<noteq> 0"
  shows "\<exists>r s' Q' hs'. rt_sem_take x time s = returns (r, s') \<and> kernel_state T idle s' H Q' hs' ss \<and>
      sem_view s' Q' x = get_unit (sem_flag (sem_of s x)) (\<lambda>t. priority_of t s) t (sem_view s Q x) \<and>
      r = (if 0 < sem_value (sem_of s x) then Back RT_EOK else Switched_Out)"
proof (cases "sem_value (sem_of s x) = 0")
  case False
  let ?s = "set_sem x ((sem_of s x)\<lparr>sem_value := sem_value (sem_of s x) - 1\<rparr>) s"
  have p: "0 < sem_value (sem_of s x)" using False by (simp add: word_neq_0_conv)
  then have "sem_view ?s Q x = get_unit (sem_flag (sem_of s x)) (\<lambda>t. priority_of t s) t (sem_view s Q x)"
    using unat_minus_one [OF False] by (simp add: sem_view_def get_unit_def word_less_nat_alt)
  then show ?thesis using rt_sem_take_available [OF p, of time] p set_obj_state(1) [OF K] by fastforce
next
  case True
  have xx: "x \<in> H" "rt_thread_defunct < x" "wait_flag (sem_flag (sem_of s x))"
    using objects_okD [OF O] x by (auto simp: sem_ok_def)
  note B = b [unfolded may_block_def]
  have B': "t \<noteq> idle" "lock_nest s = 0" "interrupt_nest s = 0" "time < 2 ^ 31 - 1" using B t by auto
  let ?J = "joined (sem_flag (sem_of s x)) (\<lambda>y. priority_of y s) x t Q"
  obtain s' hs' where s': "rt_sem_take x time s = returns (Switched_Out, s')" "kernel_state T idle s' H ?J hs' ss"
    "kernel.more s' = kernel.more s"
    by (rule rt_sem_take_blocks [OF K t B'(1-3) xx True time B'(4)]) (rule that)
  moreover have "sem_view s' ?J x = get_unit (sem_flag (sem_of s x)) (\<lambda>t. priority_of t s) t (sem_view s Q x)"
    using ipc_of_more [OF s'(3)] True by (simp add: sem_view_def get_unit_def joined_def)
  ultimately show ?thesis using True by fastforce
qed

text \<open>
  C9: Taking and releasing refine the abstract semaphore. A release wakes the first waiting thread
  without an error, or counts the unit; a take gets a unit at once when there is one, and otherwise
  puts the thread among the waiting ones, at the end or by priority as the semaphore was initialised.
\<close>

theorem semaphore_refines_counter:
  assumes "kernel_state T idle s H Q hs ss" and "objects_ok T H S M s Q" and "x \<in> S"
    and "current_thread s = Some t" and "may_block idle time s" and "time \<noteq> 0"
  shows "(\<exists>s' Q' hs'. rt_sem_release x s = returns (RT_EOK, s') \<and> kernel_state T idle s' H Q' hs' ss \<and>
        sem_view s' Q' x = put_unit (sem_view s Q x) \<and>
        (\<forall>t ts. Q x = t # ts \<longrightarrow> thread_stat t s' = RT_THREAD_READY \<and> th_error (thread_of s' t) = th_error (thread_of s t))) \<and>
      (\<exists>r s' Q' hs'. rt_sem_take x time s = returns (r, s') \<and> kernel_state T idle s' H Q' hs' ss \<and>
        sem_view s' Q' x = get_unit (sem_flag (sem_of s x)) (\<lambda>t. priority_of t s) t (sem_view s Q x) \<and>
        r = (if 0 < sem_value (sem_of s x) then Back RT_EOK else Switched_Out))"
  using sem_release_view [OF assms(1)] objects_okD(1,3) [OF assms(2,3)] sem_take_view [OF assms] by blast

lemma sys_may_block: "time < 2 ^ 31 - 1 \<Longrightarrow> may_block 40 time sys"
  using sys_ok by (simp add: may_block_def)

theorem semaphore_refines_counter_witness:
  "\<exists>s' Q' hs'. rt_sem_release 34 sys = returns (RT_EOK, s') \<and> kernel_state {40, 41, 42, 43} 40 s' heads Q' hs' [] \<and>
     sem_view s' Q' 34 = put_unit (sem_view sys sys_queues 34)"
  using semaphore_refines_counter [OF sys_ok(1,2) _ sys_ok(6) sys_may_block, of 34 1] by auto

text \<open>
  C16: A thread that waits at most \<open>time\<close> ticks for a semaphore without units is suspended until the last of
  them, is then ready, and its call returns the time-out error.
\<close>

theorem sem_take_times_out:
  assumes "kernel_state T idle s H Q hs ss" and "objects_ok T H S M s Q" and "x \<in> S" and "thread_timeouts T cb"
    and "current_thread s = Some t" and "may_block idle time s" and "0 < time" and "sem_value (sem_of s x) = 0"
  shows "\<exists>s1. rt_sem_take x time s = returns (Switched_Out, s1) \<and> wakes_after cb t (nat time) s1 \<and>
      (\<forall>s2. ticks (nat time) cb s1 = returns s2 \<longrightarrow> fst (sem_take_woken t s2) = - RT_ETIMEOUT)"
proof -
  have xx: "x \<in> H" "rt_thread_defunct < x" "wait_flag (sem_flag (sem_of s x))"
    using objects_okD [OF assms(2)] assms(3) by (auto simp: sem_ok_def)
  have B: "t \<noteq> idle" "lock_nest s = 0" "interrupt_nest s = 0" "time < 2 ^ 31 - 1" "time \<noteq> 0"
    using assms(5-7) by (auto simp: may_block_def)
  let ?J = "joined (sem_flag (sem_of s x)) (\<lambda>y. priority_of y s) x t Q"
  obtain s' hs' where s': "rt_sem_take x time s = returns (Switched_Out, s')" "kernel_state T idle s' H ?J hs' ss"
    "0 < time \<Longrightarrow> t \<in> set hs' \<and> due s' t = time"
    by (rule rt_sem_take_blocks [OF assms(1,5) B(1-3) xx assms(8) B(5,4)]) (rule that)
  have "t \<in> T" using kernel_stateD(3) [OF assms(1)] assms(5) by (auto simp: running_def)
  then have w: "wakes_after cb t (max 1 (nat time)) s'"
    using s'(3) assms(7) by (intro blocked_until_due [OF s'(2) assms(4)]) simp_all
  have "max 1 (nat time) = nat time" using assms(7) by simp
  with w have w': "wakes_after cb t (nat time) s'" by (simp only:)
  then have "fst (sem_take_woken t s2) = - RT_ETIMEOUT" if "ticks (nat time) cb s' = returns s2" for s2
    using that by (auto simp: wakes_after_def sem_take_woken_def RT_ETIMEOUT_def RT_EOK_def)
  then show ?thesis using s'(1) w' by blast
qed


lemma sys_with_sem:
  assumes "wait_flag (sem_flag v)"
  shows "kernel_state {40, 41, 42, 43} 40 (set_sem 34 v sys) heads sys_queues [] []"
    and "objects_ok {40, 41, 42, 43} heads {34} {33, 35, 36} (set_sem 34 v sys) sys_queues"
proof -
  show "kernel_state {40, 41, 42, 43} 40 (set_sem 34 v sys) heads sys_queues [] []"
    by (rule set_obj_state(1) [OF sys_ok(1)])
  have "sys_queues 34 = []" by (simp add: sys_queues_def)
  then show "objects_ok {40, 41, 42, 43} heads {34} {33, 35, 36} (set_sem 34 v sys) sys_queues"
    using assms by (intro objects_ok_one [OF sys_ok(2), of 34]) (auto simp: sem_ok_def)
qed

theorem sem_take_times_out_witness:
  "\<exists>s1. rt_sem_take 34 5 (set_sem 34 \<lparr>sem_flag = 1, sem_static = True, sem_value = 0\<rparr> sys) = returns (Switched_Out, s1) \<and>
     wakes_after sys_timeouts 41 5 s1"
proof -
  let ?v = "\<lparr>sem_flag = 1, sem_static = True, sem_value = 0\<rparr>"
  have f: "wait_flag (sem_flag ?v)" by (simp add: wait_flag_def RT_IPC_FLAG_PRIO_def)
  have "may_block 40 5 (set_sem 34 ?v sys)" using sys_ok by (simp add: may_block_def)
  then show ?thesis
    using sem_take_times_out [OF sys_with_sem [OF f] _ sys_timeouts_ok, of 34 41 5] sys_ok(6) by auto
qed

text \<open>
  A release by a thread on a semaphore that already counts 65535 units makes the counter wrap to 0: all units
  are lost, the release reports success, and the next take without waiting fails.
\<close>

theorem sem_release_wraps:
  assumes "kernel_state T idle s H Q hs ss" and "x \<in> H" and "Q x = []" and "sem_value (sem_of s x) = 0xFFFF"
  shows "\<exists>s'. rt_sem_release x s = returns (RT_EOK, s') \<and> sem_value (sem_of s' x) = 0 \<and>
      rt_sem_trytake x s' = returns (Back (- RT_ETIMEOUT), s')"
  using rt_sem_release_counts [OF assms(1-3)] assms(4) by (simp add: rt_sem_trytake_def rt_sem_take_no_wait)

theorem sem_release_wraps_witness:
  "\<exists>s'. rt_sem_release 34 (set_sem 34 \<lparr>sem_flag = 0, sem_static = True, sem_value = 0xFFFF\<rparr> sys) = returns (RT_EOK, s') \<and>
     sem_value (sem_of s' 34) = 0"
proof -
  let ?v = "\<lparr>sem_flag = 0, sem_static = True, sem_value = 0xFFFF\<rparr>"
  have "wait_flag (sem_flag ?v)" by (simp add: wait_flag_def RT_IPC_FLAG_FIFO_def)
  from sem_release_wraps [OF sys_with_sem(1) [OF this], of 34] show ?thesis
    by (auto simp: sys_queues_def heads_def)
qed

subsection \<open>Where priority inheritance ends\<close>

lemma ticks_keep:
  assumes K: "kernel_state T idle s H Q hs ss" and cb: "thread_timeouts T cb"
  shows "\<exists>s'. ticks n cb s = returns s' \<and> kernel_step T idle H Q {} s s'"
proof (induction n)
  case 0
  then show ?case using kernel_stepI [OF K, of Q s "{}"] by auto
next
  case (Suc n)
  then obtain s1 Q1 hs1 ss1 where s1: "ticks n cb s = returns s1" "kernel_state T idle s1 H Q1 hs1 ss1" "waits_in H Q Q1"
    "kernel.more s1 = kernel.more s" "\<And>t. priority_of t s1 = priority_of t s"
    unfolding kernel_step_def by blast
  then obtain s2 Q2 hs2 ss2 where s2: "rt_tick_increase cb s1 = returns s2" "kernel_state T idle s2 H Q2 hs2 ss2"
    "waits_in H Q1 Q2" "kernel.more s2 = kernel.more s1" "\<And>t. priority_of t s2 = priority_of t s1"
    using tick_keeps [OF s1(2) cb] unfolding kernel_step_def by auto
  then show ?case
    using s1 kernel_stepI [OF s2(2) waits_in_trans [OF s1(3) s2(3)], of s "{}"] by simp
qed

text \<open>
  C38: A thread that gives up waiting for a mutex after \<open>time\<close> ticks leaves its priority behind: the owner
  was lifted to it when the wait began and keeps it although nobody waits any more.
\<close>

theorem mutex_timeout_leaves_priority:
  assumes "kernel_state T idle s H Q hs ss" and "objects_ok T H S M s Q" and "x \<in> M" and "thread_timeouts T cb"
    and "current_thread s = Some t" and "may_block idle time s" and "0 < time"
    and "mutex_owner (mutex_of s x) = Some ow" and "ow \<noteq> t" and "priority_of t s < priority_of ow s"
  shows "\<exists>s1 s2. rt_mutex_take x time s = returns (Switched_Out, s1) \<and> wakes_after cb t (nat time) s1 \<and>
      ticks (nat time) cb s1 = returns s2 \<and> mutex_take_woken x t time s2 = returns (Back (- RT_ETIMEOUT), s2) \<and>
      mutex_owner (mutex_of s2 x) = Some ow \<and> priority_of ow s2 = priority_of t s \<and> priority_of ow s2 < priority_of ow s"
proof -
  note X = objects_okD(2,4,6) [OF assms(2,3)]
  have H: "wait_flag (mutex_flag (mutex_of s x))" "ow \<in> T" "mutex_value (mutex_of s x) = 0"
    using X(3) assms(8) by (simp_all add: mutex_ok_def)
  have B: "t \<noteq> idle" "lock_nest s = 0" "interrupt_nest s = 0" "time < 2 ^ 31 - 1" "time \<noteq> 0"
    using assms(5-7) by (auto simp: may_block_def)
  obtain s1 hs1 where s1: "rt_mutex_take x time s = returns (Switched_Out, s1)"
    "kernel_state T idle s1 H (joined (mutex_flag (mutex_of s x)) (inherited s ow t) x t (inherit s ow t Q)) hs1 ss"
    "kernel.more s1 = kernel.more s" "\<And>y. priority_of y s1 = inherited s ow t y" "0 < time \<Longrightarrow> t \<in> set hs1 \<and> due s1 t = time"
    by (rule rt_mutex_take_blocks [OF assms(1,5) B(1-3) X(1,2) H(1) assms(8) H(2) assms(9) H(3) B(5,4)]) (rule that)
  have "t \<in> T" using kernel_stateD(3) [OF assms(1)] assms(5) by (auto simp: running_def)
  then have "wakes_after cb t (max 1 (nat time)) s1"
    using s1(5) assms(7) by (intro blocked_until_due [OF s1(2) assms(4)]) simp_all
  moreover have "max 1 (nat time) = nat time" using assms(7) by simp
  ultimately have w: "wakes_after cb t (nat time) s1" by (simp only:)
  obtain s2 where s2: "ticks (nat time) cb s1 = returns s2" "kernel.more s2 = kernel.more s1"
    "\<And>y. priority_of y s2 = priority_of y s1"
    using ticks_keep [OF s1(2) assms(4), of "nat time"] unfolding kernel_step_def by blast
  have "mutex_take_woken x t time s2 = returns (Back (- RT_ETIMEOUT), s2)"
    using w s2(1) by (auto simp: wakes_after_def mutex_take_woken_def RT_ETIMEOUT_def RT_EOK_def RT_EINTR_def)
  moreover have "priority_of ow s2 = priority_of t s" using s2(3) s1(4) assms(10) by (simp add: inherited_def)
  ultimately show ?thesis
    using s1(1) w s2(1) ipc_of_more(2) [OF s2(2)] ipc_of_more(2) [OF s1(3)] assms(8,10) by simp
qed

text \<open>The system with mutex \<open>x\<close> held by thread \<open>ow\<close>, and with the wait list of an object not empty.\<close>

definition held_by :: "nat \<Rightarrow> u8 \<Rightarrow> u8 \<Rightarrow> rt_mutex" where
  "held_by ow f p = \<lparr>mutex_flag = f, mutex_static = True, mutex_value = 0, original_priority = p, mutex_hold = 1,
     mutex_owner = Some ow\<rparr>"

lemma sys_with_mutex:
  assumes "wait_flag f" and "ow \<in> {40, 41, 42, 43}" and "unat p < PRIORITY_MAX" and "x \<in> {33, 35, 36}"
  shows "kernel_state {40, 41, 42, 43} 40 (set_mutex x (held_by ow f p) sys) heads sys_queues [] []"
    and "objects_ok {40, 41, 42, 43} heads {34} {33, 35, 36} (set_mutex x (held_by ow f p) sys) sys_queues"
proof -
  show "kernel_state {40, 41, 42, 43} 40 (set_mutex x (held_by ow f p) sys) heads sys_queues [] []"
    by (rule set_obj_state(2) [OF sys_ok(1)])
  have "sys_queues x = []" using assms(4) by (auto simp: sys_queues_def)
  then show "objects_ok {40, 41, 42, 43} heads {34} {33, 35, 36} (set_mutex x (held_by ow f p) sys) sys_queues"
    using assms by (intro objects_ok_one [OF sys_ok(2), of x]) (auto simp: mutex_ok_def held_by_def)
qed

theorem mutex_timeout_leaves_priority_witness:
  "\<exists>s1 s2. rt_mutex_take 33 4 (set_mutex 33 (held_by 43 1 20) sys) = returns (Switched_Out, s1) \<and>
     ticks 4 sys_timeouts s1 = returns s2 \<and> priority_of 43 s2 = 10"
proof -
  let ?s = "set_mutex 33 (held_by 43 1 20) sys"
  have f: "wait_flag 1" "unat (20 :: u8) < PRIORITY_MAX" by (simp_all add: wait_flag_def RT_IPC_FLAG_PRIO_def)
  have s: "kernel_state {40, 41, 42, 43} 40 ?s heads sys_queues [] []"
    "objects_ok {40, 41, 42, 43} heads {34} {33, 35, 36} ?s sys_queues"
    by (rule sys_with_mutex [OF f(1) _ f(2)]; simp)+
  have pre: "current_thread ?s = Some 41" "may_block 40 4 ?s" "mutex_owner (mutex_of ?s 33) = Some 43"
    "priority_of 41 ?s < priority_of 43 ?s" "priority_of 41 ?s = 10"
    using sys_ok sys_priorities by (simp_all add: may_block_def held_by_def)
  obtain s1 s2 where "rt_mutex_take 33 4 ?s = returns (Switched_Out, s1)" "ticks (nat 4) sys_timeouts s1 = returns s2"
    "priority_of 43 s2 = priority_of 41 ?s"
    using mutex_timeout_leaves_priority [OF s _ sys_timeouts_ok pre(1,2) _ pre(3) _ pre(4)] by auto
  then show ?thesis using pre(5) by auto
qed

text \<open>
  C40: The last release of a mutex for which nobody waits takes the lent priority back but does not
  schedule: the thread runs on although a ready thread now has a better priority.
\<close>

theorem mutex_release_runs_on:
  assumes "kernel_state T idle s H Q hs ss" and "x \<in> H" and "rt_thread_defunct < x"
    and "current_thread s = Some t" and "interrupt_nest s = 0" and "lock_nest s = 0"
    and "mutex_owner (mutex_of s x) = Some t" and "mutex_hold (mutex_of s x) = 1" and "Q x = []"
    and "unat (original_priority (mutex_of s x)) < PRIORITY_MAX"
    and "z \<noteq> t" and "thread_stat z s = RT_THREAD_READY" and "priority_of z s < unat (original_priority (mutex_of s x))"
  shows "\<exists>s' Q'. rt_mutex_release x s = returns (RT_EOK, s') \<and> kernel_state T idle s' H Q' hs ss \<and>
      current_thread s' = Some t \<and> lock_nest s' = 0 \<and> thread_stat z s' = RT_THREAD_READY \<and>
      priority_of z s' < priority_of t s'"
proof -
  let ?R = "restored s t (original_priority (mutex_of s x)) Q"
  obtain s' where "rt_mutex_release x s = returns (RT_EOK, s')" "kernel_state T idle s' H ?R hs ss"
    "\<And>y. priority_of y s' = (if y = t then unat (original_priority (mutex_of s x)) else priority_of y s)"
    "current_thread s' = Some t" "\<And>y. thread_stat y s' = thread_stat y s" "lock_nest s' = lock_nest s"
    by (rule rt_mutex_release_frees [OF assms(1,4,5,2,3,7,8) refl assms(10,9)]) (rule that)
  then show ?thesis using assms(6,11-13) by auto
qed

lemma sys_ready: "y \<in> {40, 41, 42, 43} \<Longrightarrow> thread_stat y sys = RT_THREAD_READY"
  using ready_iff [OF kernel_okD(1) [OF kernel_stateD(1) [OF sys_ok(1)]]] sys_order by auto

lemma sys_heads: "x \<in> {33, 34, 35, 36} \<Longrightarrow> x \<in> heads \<and> rt_thread_defunct < x \<and> sys_queues x = []"
  by (auto simp: heads_def rt_thread_defunct_def sys_queues_def)

theorem mutex_release_runs_on_witness:
  "\<exists>s'. rt_mutex_release 33 (set_mutex 33 (held_by 41 1 20) sys) = returns (RT_EOK, s') \<and>
     current_thread s' = Some 41 \<and> priority_of 42 s' < priority_of 41 s'"
proof -
  let ?s = "set_mutex 33 (held_by 41 1 20) sys"
  have K: "kernel_state {40, 41, 42, 43} 40 ?s heads sys_queues [] []" by (rule set_obj_state(2) [OF sys_ok(1)])
  have "current_thread ?s = Some 41" "interrupt_nest ?s = 0" "lock_nest ?s = 0" "mutex_owner (mutex_of ?s 33) = Some 41"
    "mutex_hold (mutex_of ?s 33) = 1" "unat (original_priority (mutex_of ?s 33)) < PRIORITY_MAX"
    "thread_stat 42 ?s = RT_THREAD_READY" "priority_of 42 ?s < unat (original_priority (mutex_of ?s 33))"
    using sys_ok sys_ready sys_priorities by (simp_all add: held_by_def)
  then show ?thesis
    using mutex_release_runs_on [OF K, of 33 41 42] sys_heads [of 33] by auto
qed

text \<open>A ready thread other than the running one is parked on a list.\<close>

lemma parked:
  assumes K: "kernel_state T idle s H Q hs ss" and t: "t \<in> T" "t \<noteq> idle" "current_thread s \<noteq> Some t"
    and st: "thread_stat t s = RT_THREAD_READY" and x: "x \<in> H" "rt_thread_defunct < x" and f: "wait_flag flag"
  obtains s' where "rt_ipc_list_suspend x t flag s = returns s'"
    and "kernel_state T idle s' H (joined flag (\<lambda>y. priority_of y s) x t Q) hs ss"
    and "kernel.more s' = kernel.more s" and "current_thread s' = current_thread s" and "interrupt_nest s' = interrupt_nest s"
    and "\<And>y. priority_of y s' = priority_of y s" and "\<And>y. y \<noteq> t \<Longrightarrow> thread_stat y s' = thread_stat y s"
proof -
  note D = kernel_stateD [OF K]
  obtain s' where s': "rt_ipc_list_suspend x t flag s = returns s'"
    "kernel_ok s' H T (joined flag (\<lambda>y. priority_of y s) x t Q) hs ss" "kernel_frame t s s'"
    "timers.truncate s' = timers.truncate s"
    by (rule rt_ipc_list_suspend_ok [OF D(1) t(1) st x f]) (rule that)
  note fr = kernel_frameD [OF s'(3)]
  have "on_time s' hs" using D(2) by (simp add: on_time_def armed_truncate [OF s'(4)])
  moreover have "running s' T"
    using D(3) t(3) fr(1,9) by (auto simp: running_def)
  ultimately have "kernel_state T idle s' H (joined flag (\<lambda>y. priority_of y s) x t Q) hs ss"
    using s'(2) D(4-6) fr(2) fr(9) [of idle] t(2) by (simp add: kernel_state_def)
  then show ?thesis using that [of s'] s'(1) fr by simp
qed

text \<open>The system with thread \<open>z\<close> parked on the list \<open>x\<close>.\<close>

lemma sys_parked:
  assumes "z \<in> {42, 43}" and "x \<in> {33, 34, 35, 36}" and "wait_flag f"
  obtains s where "kernel_state {40, 41, 42, 43} 40 s heads (joined f (\<lambda>y. priority_of y sys) x z sys_queues) [] []"
    and "kernel.more s = kernel.more sys" and "current_thread s = Some 41" and "interrupt_nest s = 0"
    and "\<And>y. priority_of y s = priority_of y sys"
    and "\<And>y. y \<in> {40, 41, 42, 43} \<Longrightarrow> y \<noteq> z \<Longrightarrow> thread_stat y s = RT_THREAD_READY"
proof -
  have z: "z \<in> {40, 41, 42, 43}" "z \<noteq> 40" "current_thread sys \<noteq> Some z" "thread_stat z sys = RT_THREAD_READY"
    using assms(1) sys_ok(6) sys_ready [of z] by auto
  have x: "x \<in> heads" "rt_thread_defunct < x" using sys_heads [OF assms(2)] by auto
  obtain s where "rt_ipc_list_suspend x z f sys = returns s"
    "kernel_state {40, 41, 42, 43} 40 s heads (joined f (\<lambda>y. priority_of y sys) x z sys_queues) [] []"
    "kernel.more s = kernel.more sys" "current_thread s = current_thread sys" "interrupt_nest s = interrupt_nest sys"
    "\<And>y. priority_of y s = priority_of y sys" "\<And>y. y \<noteq> z \<Longrightarrow> thread_stat y s = thread_stat y sys"
    by (rule parked [OF sys_ok(1) z x assms(3)]) (rule that)
  then show ?thesis using that [of s] sys_ok(6,8) sys_ready by simp
qed

text \<open>
  A mutex that is handed to the first come may be handed to a thread of a worse priority than a
  thread that still waits, and the new owner is not lifted: the waiting thread is kept from running
  by its priority inverse.
\<close>

theorem fifo_hand_over_inverts:
  assumes "kernel_state T idle s H Q hs ss" and "x \<in> H" and "rt_thread_defunct < x"
    and "current_thread s = Some t" and "interrupt_nest s = 0"
    and "mutex_owner (mutex_of s x) = Some t" and "mutex_hold (mutex_of s x) = 1"
    and "unat (original_priority (mutex_of s x)) < PRIORITY_MAX"
    and "Q x = w # ws" and "v \<in> set ws" and "priority_of v s < priority_of w s"
  shows "\<exists>s' Q' hs'. rt_mutex_release x s = returns (RT_EOK, s') \<and> kernel_state T idle s' H Q' hs' ss \<and>
      mutex_owner (mutex_of s' x) = Some w \<and> v \<in> set (Q' x) \<and> priority_of v s' < priority_of w s'"
proof -
  let ?J = "made_ready s w (restored s t (original_priority (mutex_of s x)) Q)"
  obtain s' where s': "rt_mutex_release x s = returns (RT_EOK, s')" "kernel_state T idle s' H ?J (remove1 w hs) ss"
    "mutex_of s' = (mutex_of s)(x := (mutex_of s x)\<lparr>mutex_owner := Some w,
           original_priority := current_priority (thread_of s w), mutex_hold := 1\<rparr>)"
    "\<And>y. priority_of y s' = (if y = t then unat (original_priority (mutex_of s x)) else priority_of y s)"
    "?J x = ws" "w \<noteq> t"
    by (rule rt_mutex_release_hands_over [OF assms(1,4,5,2,3,6,7) refl assms(8,9)]) (rule that)
  have "v \<noteq> t"
    using waiting_thread(2) [OF kernel_stateD(1) [OF assms(1)] assms(2,3), of v] assms(4,9,10) kernel_stateD(3) [OF assms(1)]
    by (auto simp: running_def)
  then show ?thesis using s' assms(10,11) by fastforce
qed

theorem fifo_hand_over_inverts_witness:
  "\<exists>(s :: ipc) s'. rt_mutex_release 36 s = returns (RT_EOK, s') \<and> mutex_owner (mutex_of s' 36) = Some 43 \<and>
     priority_of 42 s' < priority_of 43 s'"
proof -
  have f: "wait_flag 0" by (simp add: wait_flag_def RT_IPC_FLAG_FIFO_def)
  have z: "43 \<in> {42, 43 :: nat}" "36 \<in> {33, 34, 35, 36 :: nat}" by simp_all
  let ?r = "\<lambda>y. priority_of y sys"
  obtain s1 :: ipc where s1: "kernel_state {40, 41, 42, 43} 40 s1 heads (joined 0 ?r 36 43 sys_queues) [] []"
    "current_thread s1 = Some 41" "interrupt_nest s1 = 0" "\<And>y. priority_of y s1 = priority_of y sys"
    "\<And>y. y \<in> {40, 41, 42, 43} \<Longrightarrow> y \<noteq> 43 \<Longrightarrow> thread_stat y s1 = RT_THREAD_READY"
    by (rule sys_parked [OF z f]) (rule that)
  have x: "36 \<in> heads" "rt_thread_defunct < 36" "sys_queues 36 = []" using sys_heads [of 36] by auto
  have t: "42 \<in> {40, 41, 42, 43 :: nat}" "42 \<noteq> (40 :: nat)" "current_thread s1 \<noteq> Some 42"
    "thread_stat 42 s1 = RT_THREAD_READY" using s1(2) s1(5) [of 42] by simp_all
  let ?Q = "joined 0 (\<lambda>y. priority_of y s1) 36 42 (joined 0 ?r 36 43 sys_queues)"
  obtain s2 :: ipc where s2: "kernel_state {40, 41, 42, 43} 40 s2 heads ?Q [] []" "current_thread s2 = current_thread s1"
    "interrupt_nest s2 = interrupt_nest s1" "\<And>y. priority_of y s2 = priority_of y s1"
    by (rule parked [OF s1(1) t x(1,2) f]) (rule that)
  let ?s = "set_mutex 36 (held_by 41 0 10) s2"
  have K: "kernel_state {40, 41, 42, 43} 40 ?s heads ?Q [] []" by (rule set_obj_state(2) [OF s2(1)])
  have Q: "?Q 36 = 43 # [42]" using x(3) by (simp add: joined_def wait_place_def put_fifo_def RT_IPC_FLAG_FIFO_def)
  have "current_thread ?s = Some 41" "interrupt_nest ?s = 0" "mutex_owner (mutex_of ?s 36) = Some 41"
    "mutex_hold (mutex_of ?s 36) = 1" "unat (original_priority (mutex_of ?s 36)) < PRIORITY_MAX"
    "priority_of 42 ?s < priority_of 43 ?s"
    using s1(2-4) s2(2-4) sys_priorities by (simp_all add: held_by_def)
  then show ?thesis using fifo_hand_over_inverts [OF K x(1,2) _ _ _ _ _ Q, of 41 42] by auto
qed

text \<open>
  C39: A thread that holds two mutexes and releases one of them falls back to the priority it had when
  it took that one, although a thread of a better priority still waits for the other.
\<close>

theorem nested_release_inverts:
  assumes "kernel_state T idle s H Q hs ss" and "x \<in> H" and "rt_thread_defunct < x" and "y \<in> H" and "rt_thread_defunct < y"
    and "x \<noteq> y" and "current_thread s = Some t" and "interrupt_nest s = 0"
    and "mutex_owner (mutex_of s x) = Some t" and "mutex_owner (mutex_of s y) = Some t" and "mutex_hold (mutex_of s y) = 1"
    and "unat (original_priority (mutex_of s y)) < PRIORITY_MAX" and "Q y = []"
    and "w \<in> set (Q x)" and "priority_of w s < unat (original_priority (mutex_of s y))"
  shows "\<exists>s' Q'. rt_mutex_release y s = returns (RT_EOK, s') \<and> kernel_state T idle s' H Q' hs ss \<and>
      mutex_owner (mutex_of s' x) = Some t \<and> w \<in> set (Q' x) \<and> priority_of w s' < priority_of t s'"
proof -
  let ?R = "restored s t (original_priority (mutex_of s y)) Q"
  obtain s' where s': "rt_mutex_release y s = returns (RT_EOK, s')" "kernel_state T idle s' H ?R hs ss"
    "mutex_of s' = (mutex_of s)(y := (mutex_of s y)\<lparr>mutex_hold := 0,
           mutex_value := mutex_value (mutex_of s y) + 1, mutex_owner := None, original_priority := 0xff\<rparr>)"
    "\<And>z. priority_of z s' = (if z = t then unat (original_priority (mutex_of s y)) else priority_of z s)"
    "\<And>h. h \<in> H \<Longrightarrow> rt_thread_defunct < h \<Longrightarrow> ?R h = Q h"
    by (rule rt_mutex_release_frees [OF assms(1,7,8,4,5,10,11) refl assms(12,13)]) (rule that)
  have "w \<noteq> t"
    using waiting_thread(2) [OF kernel_stateD(1) [OF assms(1)] assms(2,3,14)] assms(7) kernel_stateD(3) [OF assms(1)]
    by (auto simp: running_def)
  then show ?thesis using s'(1-4) s'(5) [OF assms(2,3)] assms(6,9,14,15) by fastforce
qed

theorem nested_release_inverts_witness:
  "\<exists>(s :: ipc) s'. rt_mutex_release 35 s = returns (RT_EOK, s') \<and> mutex_owner (mutex_of s' 33) = Some 41 \<and>
     priority_of 42 s' < priority_of 41 s'"
proof -
  have f: "wait_flag 1" by (simp add: wait_flag_def RT_IPC_FLAG_PRIO_def)
  have z: "42 \<in> {42, 43 :: nat}" "33 \<in> {33, 34, 35, 36 :: nat}" by simp_all
  let ?Q = "joined 1 (\<lambda>y. priority_of y sys) 33 42 sys_queues"
  obtain s1 :: ipc where s1: "kernel_state {40, 41, 42, 43} 40 s1 heads ?Q [] []"
    "current_thread s1 = Some 41" "interrupt_nest s1 = 0" "\<And>y. priority_of y s1 = priority_of y sys"
    by (rule sys_parked [OF z f]) (rule that)
  let ?s = "set_mutex 35 (held_by 41 1 20) (set_mutex 33 (held_by 41 1 20) s1)"
  have K: "kernel_state {40, 41, 42, 43} 40 ?s heads ?Q [] []" by (intro set_obj_state(2) s1(1))
  have h: "33 \<in> heads" "rt_thread_defunct < 33" "35 \<in> heads" "rt_thread_defunct < 35" "sys_queues 35 = []"
    using sys_heads [of 33] sys_heads [of 35] by auto
  have "current_thread ?s = Some 41" "interrupt_nest ?s = 0" "mutex_owner (mutex_of ?s 33) = Some 41"
    "mutex_owner (mutex_of ?s 35) = Some 41" "mutex_hold (mutex_of ?s 35) = 1"
    "unat (original_priority (mutex_of ?s 35)) < PRIORITY_MAX" "?Q 35 = []" "42 \<in> set (?Q 33)"
    "priority_of 42 ?s < unat (original_priority (mutex_of ?s 35))"
    using s1(2-4) sys_priorities h(5) by (simp_all add: held_by_def joined_def without_def)
  then show ?thesis using nested_release_inverts [OF K h(1-4), of 41 42] by auto
qed

end
