(* ===== verification/EventProps.thy ===== *)
theory EventProps
  imports EventLaws IpcProps
begin

text \<open>Properties of events, each with a concrete instance.\<close>

subsection \<open>Systems of threads and events\<close>

fun init_events :: "(nat \<times> u8) list \<Rightarrow> 'a event_sys_scheme \<Rightarrow> 'a event_sys_scheme run" where
  "init_events [] s = returns s"
| "init_events ((x, f) # xs) s = andthen (rt_event_init x f s) (\<lambda>(_, s). init_events xs s)"

lemma init_events_ok:
  assumes "kernel_state T idle s H Q [] []" and "events_ok H E s Q"
    and "\<forall>(x, f) \<in> set es. x \<in> H \<and> rt_thread_defunct < x \<and> wait_flag f" and "\<forall>h \<in> H. rt_thread_defunct < h \<longrightarrow> Q h = []"
  shows "\<exists>s'. init_events es s = returns s' \<and> kernel_state T idle s' H Q [] [] \<and> events_ok H (E \<union> fst ` set es) s' Q"
  using assms(1-3)
proof (induction es s arbitrary: E rule: init_events.induct)
  case (2 x f xs s)
  have x: "x \<in> H" "rt_thread_defunct < x" "wait_flag f" using "2.prems"(3) by auto
  have Qx: "Q x = []" using assms(4) x(1,2) by blast
  let ?s = "set_event x \<lparr>event_flag = f, event_static = True, event_bits = 0\<rparr> s"
  have s1: "rt_event_init x f s = returns (RT_EOK, ?s)"
    using init_list_same(2) [OF "2.prems"(1) x(1) family_alone [OF "2.prems"(1) x(1) Qx]] by (simp add: rt_event_init_def)
  have "event_ok ?s Q y" if "y \<in> insert x E" for y
    using events_okD(3) [OF "2.prems"(2), of y] that Qx x(3) by (cases "y = x") (auto simp: event_ok_def)
  then have O: "events_ok H (insert x E) ?s Q" using "2.prems"(2) x(1,2) by (simp add: events_ok_def)
  have r: "\<forall>(x, f) \<in> set xs. x \<in> H \<and> rt_thread_defunct < x \<and> wait_flag f" using "2.prems"(3) by simp
  show ?case
    using "2.IH" [OF set_event_state(1) [OF "2.prems"(1)] O r] s1 by (simp add: insert_commute)
qed auto

definition start_events ::
  "nat \<Rightarrow> (nat \<times> u8 \<times> u32) list \<Rightarrow> (nat \<times> u8) list \<Rightarrow> 'a event_sys_scheme \<Rightarrow> 'a event_sys_scheme run"
where
  "start_events idle ts es s = andthen (boot idle ts s) (init_events es)"

definition events_given :: "nat set \<Rightarrow> nat \<Rightarrow> (nat \<times> u8 \<times> u32) list \<Rightarrow> (nat \<times> u8) list \<Rightarrow> bool" where
  "events_given H idle ts es \<longleftrightarrow>
     system_given H idle ts [] [] \<and> (\<forall>(x, f) \<in> set es. x \<in> H \<and> rt_thread_defunct < x \<and> wait_flag f)"

lemma events_started:
  assumes "events_given H idle ts es"
  obtains s0 Q where "start_events idle ts es (reset_with m) = returns s0"
    and "kernel_state (threads idle ts) idle s0 H Q [] []" and "events_ok H (fst ` set es) s0 Q"
proof -
  have g: "system_given H idle ts [] []" "\<forall>(x, f) \<in> set es. x \<in> H \<and> rt_thread_defunct < x \<and> wait_flag f"
    using assms by (simp_all add: events_given_def)
  obtain s1 Q where s1: "start_system idle ts [] [] (reset_with m) = returns s1"
    "kernel_state (threads idle ts) idle s1 H Q [] []" "\<And>h. h \<in> H \<Longrightarrow> rt_thread_defunct < h \<Longrightarrow> Q h = []"
    by (rule system_started [OF g(1), of m]) (rule that)
  have b: "boot idle ts (reset_with m) = returns s1"
    using s1(1) by (simp add: start_system_def andthen_def split: option.splits sum.splits)
  have "events_ok H {} s1 Q" by (simp add: events_ok_def)
  from init_events_ok [OF s1(2) this g(2)] s1(3) obtain s0 where "init_events es s1 = returns s0"
    "kernel_state (threads idle ts) idle s0 H Q [] []" "events_ok H (fst ` set es) s0 Q" by auto
  then show ?thesis using that [of s0 Q] b by (simp add: start_events_def)
qed

text \<open>
  C12: From boot, every sequence of the calls on events and on the threads, with ticks between them, returns, and no thread
  waits for bits that are there: in every reachable state the threads in the list of an event have
  asked for all or for any of their bits, and that is not fulfilled by the bits of the event.
\<close>

theorem events_miss_no_wakeup:
  assumes "events_given H idle ts es" and "thread_timeouts (threads idle ts) cb"
  shows "\<exists>s0. start_events idle ts es (reset_with m) = returns s0 \<and>
      (\<forall>s. event_reachable cb (threads idle ts) idle (fst ` set es) s0 s \<longrightarrow>
         (\<forall>x \<in> fst ` set es. \<exists>l. dlist (tlists s) x l \<and>
            (\<forall>t \<in> set l. asks (event_info s t) \<and>
               \<not> receivable (event_info s t) (event_set s t) (event_bits (event_of s x)))) \<and>
         (\<forall>c. allowed_event (threads idle ts) idle (fst ` set es) s c \<longrightarrow> (\<exists>s'. perform_event cb c s = returns s')))"
proof -
  let ?T = "threads idle ts" and ?E = "fst ` set es"
  obtain s0 Q0 where s0: "start_events idle ts es (reset_with m) = returns s0" "kernel_state ?T idle s0 H Q0 [] []"
    "events_ok H ?E s0 Q0" by (rule events_started [OF assms(1)])
  have "(\<forall>x \<in> ?E. \<exists>l. dlist (tlists s) x l \<and> (\<forall>t \<in> set l. asks (event_info s t) \<and>
        \<not> receivable (event_info s t) (event_set s t) (event_bits (event_of s x)))) \<and>
      (\<forall>c. allowed_event ?T idle ?E s c \<longrightarrow> (\<exists>s'. perform_event cb c s = returns s'))"
    if r: "event_reachable cb ?T idle ?E s0 s" for s
  proof -
    have I: "event_inv ?T idle ?E s" by (rule event_reachable_inv [OF r event_invI [OF s0(2,3)] assms(2)])
    then obtain H' Q hs ss where K: "kernel_state ?T idle s H' Q hs ss" and O: "events_ok H' ?E s Q"
      unfolding event_inv_def by blast
    have "\<exists>l. dlist (tlists s) x l \<and> (\<forall>t \<in> set l. asks (event_info s t) \<and>
        \<not> receivable (event_info s t) (event_set s t) (event_bits (event_of s x)))" if "x \<in> ?E" for x
      using queue_is_list [OF K events_okD(1) [OF O that]] events_okD(3) [OF O that] receivable_satisfied
      by (intro exI [of _ "Q x"]) (auto simp: event_ok_def asks_def)
    then show ?thesis using perform_event_keeps [OF I assms(2)] by blast
  qed
  then show ?thesis using s0(1) by blast
qed

subsection \<open>Sending as an operation on sets\<close>

definition bits_of :: "u32 \<Rightarrow> nat set" where "bits_of b = {i. bit b i}"

lemma bits_of_simps:
  "bits_of (a AND b) = bits_of a \<inter> bits_of b" "bits_of (a OR b) = bits_of a \<union> bits_of b"
  "bits_of (a AND NOT b) = bits_of a - bits_of b" "bits_of a = bits_of b \<longleftrightarrow> a = b" "bits_of 0 = {}"
proof -
  show "bits_of (a AND b) = bits_of a \<inter> bits_of b" "bits_of (a OR b) = bits_of a \<union> bits_of b" "bits_of 0 = {}"
    "bits_of (a AND NOT b) = bits_of a - bits_of b"
    by (auto simp: bits_of_def bit_simps dest: bit_imp_le_length)
  show "bits_of a = bits_of b \<longleftrightarrow> a = b" unfolding bits_of_def by (auto intro: bit_eqI)
qed

lemma bits_of_tests:
  "a AND b = a \<longleftrightarrow> bits_of a \<subseteq> bits_of b" "a AND b = 0 \<longleftrightarrow> bits_of a \<inter> bits_of b = {}"
  using bits_of_simps(1,4,5) by (metis inf.absorb_iff1, metis)

text \<open>
  The waiting threads in turn: one that wants all of its bits, or any of them, and can have them is
  woken with them; if it clears, they are gone for the threads behind it.
\<close>

fun deliver ::
  "(nat \<Rightarrow> bool) \<Rightarrow> (nat \<Rightarrow> bool) \<Rightarrow> (nat \<Rightarrow> nat set) \<Rightarrow> nat set \<Rightarrow> nat list \<Rightarrow> nat set \<times> (nat \<times> nat set) list"
where
  "deliver wants_all clears wants B [] = (B, [])"
| "deliver wants_all clears wants B (t # ts) =
     (if (if wants_all t then wants t \<subseteq> B else wants t \<inter> B \<noteq> {})
      then (case deliver wants_all clears wants (if clears t then B - wants t \<inter> B else B) ts of
              (C, ws) \<Rightarrow> (C, (t, wants t \<inter> B) # ws))
      else deliver wants_all clears wants B ts)"

lemma wake_list_delivers:
  assumes "\<forall>t \<in> set ts. asks (info t)" and "wake_list info want b ts = (c, ws)"
  shows "deliver (\<lambda>t. info t AND RT_EVENT_FLAG_AND \<noteq> 0) (\<lambda>t. info t AND RT_EVENT_FLAG_CLEAR \<noteq> 0) (\<lambda>t. bits_of (want t))
      (bits_of b) ts = (bits_of c, map (\<lambda>(t, g). (t, bits_of g)) ws)"
  using assms
proof (induction ts arbitrary: b ws)
  case (Cons t ts)
  show ?case
  proof (cases "satisfied (info t) (want t) b")
    case None
    then show ?thesis
      using Cons by (auto simp: satisfied_def asks_def bits_of_tests split: if_splits)
  next
    case (Some got)
    then obtain ws' where w: "wake_list info want (if info t AND RT_EVENT_FLAG_CLEAR \<noteq> 0 then b AND NOT got else b) ts = (c, ws')"
      "ws = (t, got) # ws'" using Cons.prems(2) by (auto split: prod.splits)
    have g: "bits_of got = bits_of (want t) \<inter> bits_of b"
      using Some by (auto simp: satisfied_def bits_of_simps bits_of_tests split: if_splits)
    have ok: "if info t AND RT_EVENT_FLAG_AND \<noteq> 0 then bits_of (want t) \<subseteq> bits_of b else bits_of (want t) \<inter> bits_of b \<noteq> {}"
      using Some by (auto simp: satisfied_def bits_of_tests split: if_splits)
    have "\<forall>t \<in> set ts. asks (info t)" using Cons.prems(1) by simp
    from Cons.IH [OF this w(1)] ok g w(2) show ?thesis by (simp add: bits_of_simps(3) split: if_splits)
  qed
qed simp

lemma wake_list_distinct: "distinct ts \<Longrightarrow> wake_list info want b ts = (c, ws) \<Longrightarrow> distinct (map fst ws)"
proof (induction ts arbitrary: b ws)
  case (Cons t ts)
  show ?case
  proof (cases "satisfied (info t) (want t) b")
    case (Some got)
    then obtain d ws' where w: "wake_list info want d ts = (c, ws')" "ws = (t, got) # ws'"
      using Cons.prems(2) by (auto split: prod.splits)
    then show ?thesis using Cons.IH [OF _ w(1)] wake_list_sub [OF w(1)] Cons.prems(1) by auto
  qed (use Cons in simp)
qed simp

text \<open>
  C15: A send adds the bits and then serves the waiting threads in their order, as \<open>deliver\<close> says: the woken threads
  are ready without an error and with the bits they get stored, the others stay in the list in their
  order, and the bits that the clearing threads took are gone.
\<close>

theorem event_send_delivers:
  assumes "kernel_state T idle s H Q hs ss" and "events_ok H E s Q" and "x \<in> E" and "new \<noteq> 0"
  shows "\<exists>s' Q' hs' B ws. rt_event_send x new s = returns (RT_EOK, s') \<and> kernel_state T idle s' H Q' hs' ss \<and>
      deliver (\<lambda>t. event_info s t AND RT_EVENT_FLAG_AND \<noteq> 0) (\<lambda>t. event_info s t AND RT_EVENT_FLAG_CLEAR \<noteq> 0)
        (\<lambda>t. bits_of (event_set s t)) (bits_of (event_bits (event_of s x)) \<union> bits_of new) (Q x) = (B, ws) \<and>
      bits_of (event_bits (event_of s' x)) = B \<and> Q' x = filter (\<lambda>t. t \<notin> fst ` set ws) (Q x) \<and>
      (\<forall>(t, got) \<in> set ws. thread_stat t s' = RT_THREAD_READY \<and> bits_of (event_set s' t) = got \<and>
         th_error (thread_of s' t) = th_error (thread_of s t))"
proof -
  note X = events_okD [OF assms(2,3)]
  have dq: "distinct (Q x)"
    using familyD(5) [OF lists_okD(1) [OF sched_okD(1) [OF kernel_okD(1) [OF kernel_stateD(1) [OF assms(1)]]]] X(1)] .
  obtain b ws where w: "wake_list (event_info s) (event_set s) (event_bits (event_of s x) OR new) (Q x) = (b, ws)" by fastforce
  obtain s' Q' hs' where s': "rt_event_send x new s = returns (RT_EOK, s')" "kernel_state T idle s' H Q' hs' ss"
    "Q' x = filter (\<lambda>t. t \<notin> fst ` set ws) (Q x)" "event_of s' = (event_of s)(x := (event_of s x)\<lparr>event_bits := b\<rparr>)"
    "\<And>t. event_set s' t = (case map_of ws t of Some g \<Rightarrow> g | None \<Rightarrow> event_set s t)"
    "\<And>t. t \<in> fst ` set ws \<Longrightarrow> thread_stat t s' = RT_THREAD_READY" "\<And>t. th_error (thread_of s' t) = th_error (thread_of s t)"
    by (rule rt_event_send_ok [OF assms(1) X(1,2) assms(4) w]) (rule that)
  have "\<forall>t \<in> set (Q x). asks (event_info s t)" using X(3) by (simp add: event_ok_def asks_def)
  note d = wake_list_delivers [OF this w]
  have "map_of ws t = Some g" if "(t, g) \<in> set ws" for t g
    using wake_list_distinct [OF dq w] that by simp
  then have "bits_of (event_set s' t) = bits_of g" if "(t, g) \<in> set ws" for t g using that s'(5) [of t] by simp
  then have "\<forall>(t, got) \<in> set (map (\<lambda>(t, g). (t, bits_of g)) ws). thread_stat t s' = RT_THREAD_READY \<and>
      bits_of (event_set s' t) = got \<and> th_error (thread_of s' t) = th_error (thread_of s t)"
    using s'(6,7) by (auto simp: rev_image_eqI)
  moreover have "fst ` set (map (\<lambda>(t, g). (t, bits_of g)) ws) = fst ` set ws" by force
  ultimately show ?thesis
    using s'(1-4) d bits_of_simps(2) [of "event_bits (event_of s x)" new]
    by (intro exI [of _ s'] exI [of _ Q'] exI [of _ hs'] exI [of _ "bits_of b"] exI [of _ "map (\<lambda>(t, g). (t, bits_of g)) ws"])
      simp
qed

subsection \<open>Instances\<close>

text \<open>The events 33 and 34 with the threads 41 and 42.\<close>

definition esys_more :: "unit event_sys_ext ipc_ext" where
  "esys_more = kernel.more (ipc.extend sys (event_sys.fields
      (\<lambda>_. \<lparr>event_flag = 0, event_static = True, event_bits = 0\<rparr>) (\<lambda>_. 0) (\<lambda>_. 0)))"

lemma esys_given: "events_given heads 40 [(41, 10, 5), (42, 10, 5)] [(33, 0), (34, 1)]"
  by (auto simp: events_given_def system_given_def objects_given_def heads_def rt_thread_defunct_def wait_flag_def
      RT_IPC_FLAG_FIFO_def RT_IPC_FLAG_PRIO_def)

definition esys_timeouts :: "nat \<Rightarrow> event_sys \<Rightarrow> event_sys run" where
  "esys_timeouts t = (if t \<in> {40, 41, 42} then rt_thread_timeout t else (\<lambda>s. returns s))"

theorem events_miss_no_wakeup_witness:
  "\<exists>s0. start_events 40 [(41, 10, 5), (42, 10, 5)] [(33, 0), (34, 1)] (reset_with esys_more) = returns s0 \<and>
      (\<forall>s. event_reachable esys_timeouts {40, 41, 42} 40 {33, 34} s0 s \<longrightarrow>
         (\<forall>x \<in> {33, 34}. \<exists>l. dlist (tlists s) x l \<and>
            (\<forall>t \<in> set l. asks (event_info s t) \<and>
               \<not> receivable (event_info s t) (event_set s t) (event_bits (event_of s x)))))"
proof -
  have "thread_timeouts {40, 41, 42} esys_timeouts" by (simp add: thread_timeouts_def esys_timeouts_def)
  then show ?thesis using events_miss_no_wakeup [OF esys_given, of esys_timeouts esys_more] by auto
qed

theorem event_send_delivers_witness:
  "\<exists>s0 s'. start_events 40 [(41, 10, 5), (42, 10, 5)] [(33, 0), (34, 1)] (reset_with esys_more) = returns s0 \<and>
     rt_event_send 33 5 s0 = returns (RT_EOK, s')"
proof -
  obtain s0 Q where s0: "start_events 40 [(41, 10, 5), (42, 10, 5)] [(33, 0), (34, 1)] (reset_with esys_more) = returns s0"
    "kernel_state (threads 40 [(41, 10, 5), (42, 10, 5)]) 40 s0 heads Q [] []"
    "events_ok heads (fst ` set [(33 :: nat, 0 :: u8), (34, 1)]) s0 Q"
    by (rule events_started [OF esys_given, of esys_more])
  then show ?thesis using event_send_delivers [OF s0(2,3), of 33 5] by auto
qed

end
