(* ===== verification/Mailbox.thy ===== *)
theory Mailbox
  imports Ipc Fifo
begin

text \<open>
  Mailboxes, \<open>src/ipc.c\<close>: a ring of 32-bit mails, a list of threads that wait for a mail and a list of
  threads that wait for a free place. A blocking call has the part up to \<open>rt_schedule\<close> and the part
  that runs when the thread is running again, named \<open>..._woken\<close>, which goes back to the loop.
\<close>

subsection \<open>State\<close>

record rt_mailbox =
  mb_flag :: u8
  mb_static :: bool
  msg_pool :: "u32 list"
  mb_size :: u16
  mb_entry :: u16
  in_offset :: u16
  out_offset :: u16
  suspend_sender_thread :: nat

record mail_sys = ipc +
  mailbox_of :: "nat \<Rightarrow> rt_mailbox"

definition RT_EFULL :: int where "RT_EFULL = 3"

definition set_mailbox :: "nat \<Rightarrow> rt_mailbox \<Rightarrow> 'a mail_sys_scheme \<Rightarrow> 'a mail_sys_scheme" where
  "set_mailbox x m s = s\<lparr>mailbox_of := (mailbox_of s)(x := m)\<rparr>"

subsection \<open>The ring\<close>

text \<open>The offset behind \<open>i\<close>: both are 16 bits wide.\<close>

definition advance :: "u16 \<Rightarrow> u16 \<Rightarrow> u16" where
  "advance i n = (if i + 1 \<ge> n then 0 else i + 1)"

definition mb_put :: "u32 \<Rightarrow> rt_mailbox \<Rightarrow> rt_mailbox run" where
  "mb_put value m =
     (if unat (in_offset m) < length (msg_pool m)
      then returns (m\<lparr>msg_pool := (msg_pool m)[unat (in_offset m) := value],
                      in_offset := advance (in_offset m) (mb_size m), mb_entry := mb_entry m + 1\<rparr>)
      else stops (Out_Of_Bounds ''msg_pool''))"

definition mb_get :: "rt_mailbox \<Rightarrow> (u32 \<times> rt_mailbox) run" where
  "mb_get m =
     (if unat (out_offset m) < length (msg_pool m)
      then returns (msg_pool m ! unat (out_offset m),
                    m\<lparr>out_offset := advance (out_offset m) (mb_size m), mb_entry := mb_entry m - 1\<rparr>)
      else stops (Out_Of_Bounds ''msg_pool''))"

subsection \<open>Creating and removing\<close>

text \<open>\<open>pool\<close> is the memory for the mails and \<open>senders\<close> the address of the list of the senders; the size is stored in 16 bits.\<close>

definition new_mailbox :: "bool \<Rightarrow> u32 list \<Rightarrow> u16 \<Rightarrow> u8 \<Rightarrow> nat \<Rightarrow> rt_mailbox" where
  "new_mailbox static pool n flag senders =
     \<lparr>mb_flag = flag, mb_static = static, msg_pool = pool, mb_size = n, mb_entry = 0, in_offset = 0, out_offset = 0,
      suspend_sender_thread = senders\<rparr>"

definition rt_mb_init :: "nat \<Rightarrow> nat \<Rightarrow> u32 list \<Rightarrow> u32 \<Rightarrow> u8 \<Rightarrow> 'a mail_sys_scheme \<Rightarrow> (int \<times> 'a mail_sys_scheme) run" where
  "rt_mb_init x senders pool n flag s =
     returns (RT_EOK, upd_lists (rt_list_init senders)
       (set_mailbox x (new_mailbox True pool (ucast n) flag senders) (rt_ipc_object_init x s)))"

text \<open>\<open>mem\<close> is what the allocator returns for the mails, if anything.\<close>

definition rt_mb_create ::
  "(nat \<times> nat) option \<Rightarrow> u32 list option \<Rightarrow> u32 \<Rightarrow> u8 \<Rightarrow> 'a mail_sys_scheme \<Rightarrow> (nat option \<times> 'a mail_sys_scheme) run" where
  "rt_mb_create obj mem n flag s =
     andthen (debug_not_in_interrupt s)
       (\<lambda>s. case obj of
              None \<Rightarrow> returns (None, s)
            | Some (x, senders) \<Rightarrow>
                (case mem of
                   None \<Rightarrow> returns (None, rt_ipc_object_init x s)
                 | Some pool \<Rightarrow> returns (Some x, upd_lists (rt_list_init senders)
                     (set_mailbox x (new_mailbox False pool (ucast n) flag senders) (rt_ipc_object_init x s)))))"

definition mb_resume_all :: "nat \<Rightarrow> 'a mail_sys_scheme \<Rightarrow> 'a mail_sys_scheme run" where
  "mb_resume_all x s =
     andthen (rt_ipc_list_resume_all x s)
       (\<lambda>s. rt_ipc_list_resume_all (suspend_sender_thread (mailbox_of s x)) s)"

definition rt_mb_detach :: "nat \<Rightarrow> 'a mail_sys_scheme \<Rightarrow> (int \<times> 'a mail_sys_scheme) run" where
  "rt_mb_detach x s =
     (if \<not> mb_static (mailbox_of s x) then stops (Assert_Hang ''rt_object_is_systemobject'')
      else andthen (mb_resume_all x s) (\<lambda>s. returns (RT_EOK, s)))"

definition rt_mb_delete :: "nat \<Rightarrow> 'a mail_sys_scheme \<Rightarrow> (int \<times> 'a mail_sys_scheme) run" where
  "rt_mb_delete x s =
     andthen (debug_not_in_interrupt s)
       (\<lambda>s. if mb_static (mailbox_of s x) then stops (Assert_Hang ''rt_object_is_systemobject'')
            else andthen (mb_resume_all x s) (\<lambda>s. returns (RT_EOK, s)))"

definition rt_mb_control :: "nat \<Rightarrow> int \<Rightarrow> 'a mail_sys_scheme \<Rightarrow> (int \<times> 'a mail_sys_scheme) run" where
  "rt_mb_control x cmd s =
     (if cmd = RT_IPC_CMD_RESET
      then andthen (mb_resume_all x s)
        (\<lambda>s. andthen (rt_schedule (set_mailbox x ((mailbox_of s x)\<lparr>mb_entry := 0, in_offset := 0, out_offset := 0\<rparr>) s))
               (\<lambda>s. returns (RT_EOK, s)))
      else returns (- RT_ERROR, s))"

subsection \<open>Waiting\<close>

text \<open>
  The rest of a time-out after a wait that began at \<open>start\<close>: the difference is taken in 32 bits and
  read as a signed number.
\<close>

definition time_left :: "int \<Rightarrow> u32 \<Rightarrow> 'a kernel_scheme \<Rightarrow> int" where
  "time_left timeout start s =
     (if timeout > 0 then max 0 (sint (of_int timeout - (rt_tick s - start) :: u32)) else timeout)"

text \<open>One round of waiting on \<open>list\<close>, up to the return of \<open>rt_schedule\<close>.\<close>

definition wait_round :: "nat \<Rightarrow> nat \<Rightarrow> u8 \<Rightarrow> int \<Rightarrow> 'a kernel_scheme \<Rightarrow> 'a kernel_scheme run" where
  "wait_round list t flag timeout s =
     andthen (rt_ipc_list_suspend list t flag s) (\<lambda>s. andthen (arm_timer t timeout s) rt_schedule)"

definition mb_wait :: "nat \<Rightarrow> nat \<Rightarrow> u8 \<Rightarrow> int \<Rightarrow> 'a kernel_scheme \<Rightarrow> 'a kernel_scheme run" where
  "mb_wait list t flag timeout s = andthen (debug_in_thread_context s) (wait_round list t flag timeout)"

subsection \<open>Sending\<close>

text \<open>Behind the loop: the mail is stored and the first thread that waits for one is resumed.\<close>

definition mb_store :: "nat \<Rightarrow> u32 \<Rightarrow> 'a mail_sys_scheme \<Rightarrow> (int outcome \<times> 'a mail_sys_scheme) run" where
  "mb_store x value s =
     andthen (mb_put value (mailbox_of s x))
       (\<lambda>m. let s = set_mailbox x m s in
            if \<not> rt_list_isempty x (tlists s)
            then andthen (rt_ipc_list_resume x s) (\<lambda>s. andthen (rt_schedule s) (\<lambda>s. returns (Back RT_EOK, s)))
            else returns (Back RT_EOK, s))"

partial_function (option) mb_send_loop ::
  "nat \<Rightarrow> u32 \<Rightarrow> nat \<Rightarrow> int \<Rightarrow> 'a mail_sys_scheme \<Rightarrow> (int outcome \<times> 'a mail_sys_scheme) run" where
  "mb_send_loop x value t timeout s =
     (if mb_entry (mailbox_of s x) = mb_size (mailbox_of s x) then
        (let s0 = set_error RT_EOK t s in
         if timeout = 0 then returns (Back (- RT_EFULL), s0)
         else
           (case mb_wait (suspend_sender_thread (mailbox_of s0 x)) t (mb_flag (mailbox_of s0 x)) timeout s0 of
              None \<Rightarrow> None
            | Some (Inl e) \<Rightarrow> stops e
            | Some (Inr s') \<Rightarrow>
                if current_thread s' \<noteq> Some t then returns (Switched_Out, s')
                else if th_error (thread_of s' t) \<noteq> RT_EOK then returns (Back (th_error (thread_of s' t)), s')
                else mb_send_loop x value t (time_left timeout (rt_tick s0) s') s'))
      else mb_store x value s)"

definition rt_mb_send_wait :: "nat \<Rightarrow> u32 \<Rightarrow> int \<Rightarrow> 'a mail_sys_scheme \<Rightarrow> (int outcome \<times> 'a mail_sys_scheme) run" where
  "rt_mb_send_wait x value timeout s =
     (if mb_entry (mailbox_of s x) = mb_size (mailbox_of s x) \<and> timeout = 0 then returns (Back (- RT_EFULL), s)
      else if mb_entry (mailbox_of s x) \<noteq> mb_size (mailbox_of s x) then mb_store x value s
      else (case rt_thread_self s of
              None \<Rightarrow> stops (Null_Deref ''thread'')
            | Some t \<Rightarrow> mb_send_loop x value t timeout s))"

definition mb_send_woken :: "nat \<Rightarrow> u32 \<Rightarrow> nat \<Rightarrow> int \<Rightarrow> u32 \<Rightarrow> 'a mail_sys_scheme \<Rightarrow> (int outcome \<times> 'a mail_sys_scheme) run" where
  "mb_send_woken x value t timeout start s =
     (if th_error (thread_of s t) \<noteq> RT_EOK then returns (Back (th_error (thread_of s t)), s)
      else mb_send_loop x value t (time_left timeout start s) s)"

definition rt_mb_send :: "nat \<Rightarrow> u32 \<Rightarrow> 'a mail_sys_scheme \<Rightarrow> (int outcome \<times> 'a mail_sys_scheme) run" where
  "rt_mb_send x value s = rt_mb_send_wait x value 0 s"

subsection \<open>Receiving\<close>

text \<open>The result is the error code and the mail, if one was stored through \<open>value\<close>.\<close>

definition mb_fetch :: "nat \<Rightarrow> 'a mail_sys_scheme \<Rightarrow> ((int \<times> u32 option) outcome \<times> 'a mail_sys_scheme) run" where
  "mb_fetch x s =
     andthen (mb_get (mailbox_of s x))
       (\<lambda>(v, m).
          let s = set_mailbox x m s in
          if \<not> rt_list_isempty (suspend_sender_thread m) (tlists s)
          then andthen (rt_ipc_list_resume (suspend_sender_thread m) s)
                 (\<lambda>s. andthen (rt_schedule s) (\<lambda>s. returns (Back (RT_EOK, Some v), s)))
          else returns (Back (RT_EOK, Some v), s))"

partial_function (option) mb_recv_loop ::
  "nat \<Rightarrow> nat \<Rightarrow> int \<Rightarrow> 'a mail_sys_scheme \<Rightarrow> ((int \<times> u32 option) outcome \<times> 'a mail_sys_scheme) run" where
  "mb_recv_loop x t timeout s =
     (if mb_entry (mailbox_of s x) = 0 then
        (let s0 = set_error RT_EOK t s in
         if timeout = 0 then returns (Back (- RT_ETIMEOUT, None), set_error (- RT_ETIMEOUT) t s0)
         else
           (case mb_wait x t (mb_flag (mailbox_of s0 x)) timeout s0 of
              None \<Rightarrow> None
            | Some (Inl e) \<Rightarrow> stops e
            | Some (Inr s') \<Rightarrow>
                if current_thread s' \<noteq> Some t then returns (Switched_Out, s')
                else if th_error (thread_of s' t) \<noteq> RT_EOK then returns (Back (th_error (thread_of s' t), None), s')
                else mb_recv_loop x t (time_left timeout (rt_tick s0) s') s'))
      else mb_fetch x s)"

definition rt_mb_recv :: "nat \<Rightarrow> int \<Rightarrow> 'a mail_sys_scheme \<Rightarrow> ((int \<times> u32 option) outcome \<times> 'a mail_sys_scheme) run" where
  "rt_mb_recv x timeout s =
     (if mb_entry (mailbox_of s x) = 0 \<and> timeout = 0 then returns (Back (- RT_ETIMEOUT, None), s)
      else if mb_entry (mailbox_of s x) \<noteq> 0 then mb_fetch x s
      else (case rt_thread_self s of
              None \<Rightarrow> stops (Null_Deref ''thread'')
            | Some t \<Rightarrow> mb_recv_loop x t timeout s))"

definition mb_recv_woken :: "nat \<Rightarrow> nat \<Rightarrow> int \<Rightarrow> u32 \<Rightarrow> 'a mail_sys_scheme \<Rightarrow> ((int \<times> u32 option) outcome \<times> 'a mail_sys_scheme) run" where
  "mb_recv_woken x t timeout start s =
     (if th_error (thread_of s t) \<noteq> RT_EOK then returns (Back (th_error (thread_of s t), None), s)
      else mb_recv_loop x t (time_left timeout start s) s)"

end
