(* ===== verification/MsgQueue.thy ===== *)
theory MsgQueue
  imports Mailbox
begin

text \<open>
  Message queues, \<open>src/ipc.c\<close>: messages of a bounded size in the nodes of a pool, which are linked into a
  list of free nodes and the list of the messages. A node has left both lists while a call copies a
  message with interrupts enabled: each call is a sequence of sections, which are definitions of
  their own. Blocking calls are cut as for mailboxes. \<open>RT_ALIGN_SIZE\<close> is 4, and a pointer has 4 bytes.
\<close>

subsection \<open>State\<close>

text \<open>\<open>mq_next\<close> and \<open>mq_data\<close> are the memory of the pool by the address of a node; address 0 is \<open>RT_NULL\<close>.\<close>

record rt_messagequeue =
  mq_flag :: u8
  mq_static :: bool
  mq_pool :: nat
  mq_next :: "nat \<Rightarrow> nat"
  mq_data :: "nat \<Rightarrow> u8 list"
  mq_msg_size :: u16
  mq_max_msgs :: u16
  mq_entry :: u16
  mq_head :: nat
  mq_tail :: nat
  mq_free :: nat
  mq_senders :: nat

record mq_sys = ipc +
  mq_of :: "nat \<Rightarrow> rt_messagequeue"

definition set_mq :: "nat \<Rightarrow> rt_messagequeue \<Rightarrow> 'a mq_sys_scheme \<Rightarrow> 'a mq_sys_scheme" where
  "set_mq x m s = s\<lparr>mq_of := (mq_of s)(x := m)\<rparr>"

subsection \<open>The nodes\<close>

definition align_message :: "u32 \<Rightarrow> u32" where "align_message n = (n + 3) AND NOT 3"

text \<open>A node is a pointer, 4 bytes, and the message behind it.\<close>

definition message_at :: "rt_messagequeue \<Rightarrow> nat \<Rightarrow> nat" where
  "message_at m k = mq_pool m + k * (unat (mq_msg_size m) + 4)"

definition free_message :: "nat \<Rightarrow> rt_messagequeue \<Rightarrow> rt_messagequeue" where
  "free_message n m = m\<lparr>mq_next := (mq_next m)(n := mq_free m), mq_free := n\<rparr>"

definition free_all :: "rt_messagequeue \<Rightarrow> rt_messagequeue" where
  "free_all m = fold (\<lambda>k m. free_message (message_at m k) m) [0..<unat (mq_max_msgs m)] m"

definition new_mq ::
  "bool \<Rightarrow> nat \<Rightarrow> (nat \<Rightarrow> nat) \<Rightarrow> (nat \<Rightarrow> u8 list) \<Rightarrow> u16 \<Rightarrow> u16 \<Rightarrow> u8 \<Rightarrow> nat \<Rightarrow> rt_messagequeue"
where
  "new_mq static pool links blocks n count flag senders =
     free_all \<lparr>mq_flag = flag, mq_static = static, mq_pool = pool, mq_next = links, mq_data = blocks, mq_msg_size = n,
       mq_max_msgs = count, mq_entry = 0, mq_head = 0, mq_tail = 0, mq_free = 0, mq_senders = senders\<rparr>"

definition take_free :: "rt_messagequeue \<Rightarrow> nat \<times> rt_messagequeue" where
  "take_free m = (mq_free m, m\<lparr>mq_free := mq_next m (mq_free m)\<rparr>)"

definition write_message :: "nat \<Rightarrow> u8 list \<Rightarrow> rt_messagequeue \<Rightarrow> rt_messagequeue" where
  "write_message n buffer m = m\<lparr>mq_data := (mq_data m)(n := write_at 0 buffer (mq_data m n))\<rparr>"

definition write_last :: "nat \<Rightarrow> u8 list \<Rightarrow> rt_messagequeue \<Rightarrow> rt_messagequeue" where
  "write_last n buffer m = write_message n buffer (m\<lparr>mq_next := (mq_next m)(n := 0)\<rparr>)"

definition link_last :: "nat \<Rightarrow> rt_messagequeue \<Rightarrow> rt_messagequeue" where
  "link_last n m =
     (let m = (if mq_tail m \<noteq> 0 then m\<lparr>mq_next := (mq_next m)(mq_tail m := n)\<rparr> else m);
          m = m\<lparr>mq_tail := n\<rparr>;
          m = (if mq_head m = 0 then m\<lparr>mq_head := n\<rparr> else m) in
      m\<lparr>mq_entry := mq_entry m + 1\<rparr>)"

definition link_first :: "nat \<Rightarrow> rt_messagequeue \<Rightarrow> rt_messagequeue" where
  "link_first n m =
     (let m = m\<lparr>mq_next := (mq_next m)(n := mq_head m), mq_head := n\<rparr>;
          m = (if mq_tail m = 0 then m\<lparr>mq_tail := n\<rparr> else m) in
      m\<lparr>mq_entry := mq_entry m + 1\<rparr>)"

definition unlink_first :: "rt_messagequeue \<Rightarrow> rt_messagequeue" where
  "unlink_first m =
     m\<lparr>mq_head := mq_next m (mq_head m), mq_tail := (if mq_tail m = mq_head m then 0 else mq_tail m)\<rparr>"

partial_function (option) drain :: "rt_messagequeue \<Rightarrow> rt_messagequeue run" where
  "drain m = (if mq_head m = 0 then returns m else drain (free_message (mq_head m) (unlink_first m)))"

subsection \<open>Creating and removing\<close>

definition rt_mq_init ::
  "nat \<Rightarrow> nat \<Rightarrow> nat \<Rightarrow> (nat \<Rightarrow> nat) \<Rightarrow> (nat \<Rightarrow> u8 list) \<Rightarrow> u32 \<Rightarrow> u32 \<Rightarrow> u8 \<Rightarrow> 'a mq_sys_scheme \<Rightarrow>
   (int \<times> 'a mq_sys_scheme) run"
where
  "rt_mq_init x senders pool links blocks msg_size pool_size flag s =
     (let n = ucast (align_message msg_size) :: u16;
          count = ucast (pool_size div (ucast n + 4)) :: u16 in
      returns (RT_EOK, upd_lists (rt_list_init senders)
        (set_mq x (new_mq True pool links blocks n count flag senders) (rt_ipc_object_init x s))))"

text \<open>\<open>mem\<close> is the memory the allocator returns for the pool, if any.\<close>

definition rt_mq_create ::
  "(nat \<times> nat) option \<Rightarrow> (nat \<times> (nat \<Rightarrow> nat) \<times> (nat \<Rightarrow> u8 list)) option \<Rightarrow> u32 \<Rightarrow> u32 \<Rightarrow> u8 \<Rightarrow> 'a mq_sys_scheme \<Rightarrow>
   (nat option \<times> 'a mq_sys_scheme) run"
where
  "rt_mq_create obj mem msg_size count flag s =
     andthen (debug_not_in_interrupt s)
       (\<lambda>s. case obj of
              None \<Rightarrow> returns (None, s)
            | Some (x, senders) \<Rightarrow>
                (case mem of
                   None \<Rightarrow> returns (None, rt_ipc_object_init x s)
                 | Some (pool, links, blocks) \<Rightarrow> returns (Some x, upd_lists (rt_list_init senders)
                     (set_mq x (new_mq False pool links blocks (ucast (align_message msg_size)) (ucast count) flag senders)
                        (rt_ipc_object_init x s)))))"

definition mq_resume_all :: "nat \<Rightarrow> 'a mq_sys_scheme \<Rightarrow> 'a mq_sys_scheme run" where
  "mq_resume_all x s =
     andthen (rt_ipc_list_resume_all x s) (\<lambda>s. rt_ipc_list_resume_all (mq_senders (mq_of s x)) s)"

definition rt_mq_detach :: "nat \<Rightarrow> 'a mq_sys_scheme \<Rightarrow> (int \<times> 'a mq_sys_scheme) run" where
  "rt_mq_detach x s =
     (if \<not> mq_static (mq_of s x) then stops (Assert_Hang ''rt_object_is_systemobject'')
      else andthen (mq_resume_all x s) (\<lambda>s. returns (RT_EOK, s)))"

definition rt_mq_delete :: "nat \<Rightarrow> 'a mq_sys_scheme \<Rightarrow> (int \<times> 'a mq_sys_scheme) run" where
  "rt_mq_delete x s =
     andthen (debug_not_in_interrupt s)
       (\<lambda>s. if mq_static (mq_of s x) then stops (Assert_Hang ''rt_object_is_systemobject'')
            else andthen (mq_resume_all x s) (\<lambda>s. returns (RT_EOK, s)))"

definition rt_mq_control :: "nat \<Rightarrow> int \<Rightarrow> 'a mq_sys_scheme \<Rightarrow> (int \<times> 'a mq_sys_scheme) run" where
  "rt_mq_control x cmd s =
     (if cmd = RT_IPC_CMD_RESET
      then andthen (mq_resume_all x s)
        (\<lambda>s. andthen (drain (mq_of s x))
          (\<lambda>m. andthen (rt_schedule (set_mq x (m\<lparr>mq_entry := 0\<rparr>) s)) (\<lambda>s. returns (RT_EOK, s))))
      else returns (- RT_ERROR, s))"

subsection \<open>Sending\<close>

text \<open>
  A call that gets a node goes on with it: \<open>Back (Inr n)\<close>; \<open>Back (Inl e)\<close> is a return with the code \<open>e\<close>.
\<close>

definition with_node ::
  "(nat \<Rightarrow> 's \<Rightarrow> ('r outcome \<times> 's) run) \<Rightarrow> (int \<Rightarrow> 'r) \<Rightarrow> (int + nat) outcome \<times> 's \<Rightarrow> ('r outcome \<times> 's) run"
where
  "with_node f err r =
     (case r of
        (Switched_Out, s) \<Rightarrow> returns (Switched_Out, s)
      | (Back (Inl e), s) \<Rightarrow> returns (Back (err e), s)
      | (Back (Inr n), s) \<Rightarrow> f n s)"

text \<open>The first section: a free node.\<close>

definition mq_take :: "nat \<Rightarrow> 'a mq_sys_scheme \<Rightarrow> ((int + nat) outcome \<times> 'a mq_sys_scheme) run" where
  "mq_take x s = (case take_free (mq_of s x) of (n, m) \<Rightarrow> returns (Back (Inr n), set_mq x m s))"

partial_function (option) mq_send_loop ::
  "nat \<Rightarrow> nat \<Rightarrow> int \<Rightarrow> 'a mq_sys_scheme \<Rightarrow> ((int + nat) outcome \<times> 'a mq_sys_scheme) run" where
  "mq_send_loop x t timeout s =
     (if mq_free (mq_of s x) = 0 then
        (let s0 = set_error RT_EOK t s in
         if timeout = 0 then returns (Back (Inl (- RT_EFULL)), s0)
         else
           (case mb_wait (mq_senders (mq_of s0 x)) t (mq_flag (mq_of s0 x)) timeout s0 of
              None \<Rightarrow> None
            | Some (Inl e) \<Rightarrow> stops e
            | Some (Inr s') \<Rightarrow>
                if current_thread s' \<noteq> Some t then returns (Switched_Out, s')
                else if th_error (thread_of s' t) \<noteq> RT_EOK then returns (Back (Inl (th_error (thread_of s' t))), s')
                else mq_send_loop x t (time_left timeout (rt_tick s0) s') s'))
      else mq_take x s)"

definition mq_send_begin :: "nat \<Rightarrow> int \<Rightarrow> 'a mq_sys_scheme \<Rightarrow> ((int + nat) outcome \<times> 'a mq_sys_scheme) run" where
  "mq_send_begin x timeout s =
     (if mq_free (mq_of s x) = 0 \<and> timeout = 0 then returns (Back (Inl (- RT_EFULL)), s)
      else if mq_free (mq_of s x) \<noteq> 0 then mq_take x s
      else (case rt_thread_self s of
              None \<Rightarrow> stops (Null_Deref ''thread'')
            | Some t \<Rightarrow> mq_send_loop x t timeout s))"

definition mq_send_again :: "nat \<Rightarrow> nat \<Rightarrow> int \<Rightarrow> u32 \<Rightarrow> 'a mq_sys_scheme \<Rightarrow> ((int + nat) outcome \<times> 'a mq_sys_scheme) run" where
  "mq_send_again x t timeout start s =
     (if th_error (thread_of s t) \<noteq> RT_EOK then returns (Back (Inl (th_error (thread_of s t))), s)
      else mq_send_loop x t (time_left timeout start s) s)"

text \<open>The last section: the node is linked and the first waiting thread resumed.\<close>

definition resume_first :: "nat \<Rightarrow> 'r \<Rightarrow> 'a kernel_scheme \<Rightarrow> ('r \<times> 'a kernel_scheme) run" where
  "resume_first list r s =
     (if \<not> rt_list_isempty list (tlists s)
      then andthen (rt_ipc_list_resume list s) (\<lambda>s. andthen (rt_schedule s) (\<lambda>s. returns (r, s)))
      else returns (r, s))"

definition mq_post :: "nat \<Rightarrow> nat \<Rightarrow> 'a mq_sys_scheme \<Rightarrow> (int outcome \<times> 'a mq_sys_scheme) run" where
  "mq_post x n s = resume_first x (Back RT_EOK) (set_mq x (link_last n (mq_of s x)) s)"

definition mq_post_first :: "nat \<Rightarrow> nat \<Rightarrow> 'a mq_sys_scheme \<Rightarrow> (int outcome \<times> 'a mq_sys_scheme) run" where
  "mq_post_first x n s = resume_first x (Back RT_EOK) (set_mq x (link_first n (mq_of s x)) s)"

definition mq_send_end :: "nat \<Rightarrow> u8 list \<Rightarrow> nat \<Rightarrow> 'a mq_sys_scheme \<Rightarrow> (int outcome \<times> 'a mq_sys_scheme) run" where
  "mq_send_end x buffer n s = mq_post x n (set_mq x (write_last n buffer (mq_of s x)) s)"

text \<open>\<open>buffer\<close> is the message: its length is the argument \<open>size\<close>.\<close>

definition rt_mq_send_wait :: "nat \<Rightarrow> u8 list \<Rightarrow> int \<Rightarrow> 'a mq_sys_scheme \<Rightarrow> (int outcome \<times> 'a mq_sys_scheme) run" where
  "rt_mq_send_wait x buffer timeout s =
     (if buffer = [] then stops (Assert_Hang ''size != 0'')
      else if length buffer > unat (mq_msg_size (mq_of s x)) then returns (Back (- RT_ERROR), s)
      else andthen (mq_send_begin x timeout s) (with_node (mq_send_end x buffer) id))"

definition mq_send_woken ::
  "nat \<Rightarrow> u8 list \<Rightarrow> nat \<Rightarrow> int \<Rightarrow> u32 \<Rightarrow> 'a mq_sys_scheme \<Rightarrow> (int outcome \<times> 'a mq_sys_scheme) run" where
  "mq_send_woken x buffer t timeout start s =
     andthen (mq_send_again x t timeout start s) (with_node (mq_send_end x buffer) id)"

definition rt_mq_send :: "nat \<Rightarrow> u8 list \<Rightarrow> 'a mq_sys_scheme \<Rightarrow> (int outcome \<times> 'a mq_sys_scheme) run" where
  "rt_mq_send x buffer s = rt_mq_send_wait x buffer 0 s"

definition rt_mq_urgent :: "nat \<Rightarrow> u8 list \<Rightarrow> 'a mq_sys_scheme \<Rightarrow> (int outcome \<times> 'a mq_sys_scheme) run" where
  "rt_mq_urgent x buffer s =
     (if buffer = [] then stops (Assert_Hang ''size != 0'')
      else if length buffer > unat (mq_msg_size (mq_of s x)) then returns (Back (- RT_ERROR), s)
      else if mq_free (mq_of s x) = 0 then returns (Back (- RT_EFULL), s)
      else andthen (mq_take x s)
        (with_node (\<lambda>n s. mq_post_first x n (set_mq x (write_message n buffer (mq_of s x)) s)) id))"

subsection \<open>Receiving\<close>

text \<open>The first section: the first message leaves the list.\<close>

definition mq_unlink :: "nat \<Rightarrow> 'a mq_sys_scheme \<Rightarrow> ((int + nat) outcome \<times> 'a mq_sys_scheme) run" where
  "mq_unlink x s =
     (let m = mq_of s x in
      if mq_head m = 0 then stops (Null_Deref ''msg'')
      else returns (Back (Inr (mq_head m)), set_mq x ((unlink_first m)\<lparr>mq_entry := mq_entry m - 1\<rparr>) s))"

partial_function (option) mq_recv_loop ::
  "nat \<Rightarrow> nat \<Rightarrow> int \<Rightarrow> 'a mq_sys_scheme \<Rightarrow> ((int + nat) outcome \<times> 'a mq_sys_scheme) run" where
  "mq_recv_loop x t timeout s =
     (if mq_entry (mq_of s x) = 0 then
        (case debug_in_thread_context s of
           None \<Rightarrow> None
         | Some (Inl e) \<Rightarrow> stops e
         | Some (Inr s) \<Rightarrow>
            (let s0 = set_error RT_EOK t s in
             if timeout = 0 then returns (Back (Inl (- RT_ETIMEOUT)), set_error (- RT_ETIMEOUT) t s0)
             else
               (case wait_round x t (mq_flag (mq_of s0 x)) timeout s0 of
                  None \<Rightarrow> None
                | Some (Inl e) \<Rightarrow> stops e
                | Some (Inr s') \<Rightarrow>
                    if current_thread s' \<noteq> Some t then returns (Switched_Out, s')
                    else if th_error (thread_of s' t) \<noteq> RT_EOK then returns (Back (Inl (th_error (thread_of s' t))), s')
                    else mq_recv_loop x t (time_left timeout (rt_tick s0) s') s')))
      else mq_unlink x s)"

definition mq_recv_begin :: "nat \<Rightarrow> int \<Rightarrow> 'a mq_sys_scheme \<Rightarrow> ((int + nat) outcome \<times> 'a mq_sys_scheme) run" where
  "mq_recv_begin x timeout s =
     (if mq_entry (mq_of s x) = 0 \<and> timeout = 0 then returns (Back (Inl (- RT_ETIMEOUT)), s)
      else if mq_entry (mq_of s x) \<noteq> 0 then mq_unlink x s
      else (case rt_thread_self s of
              None \<Rightarrow> stops (Null_Deref ''thread'')
            | Some t \<Rightarrow> mq_recv_loop x t timeout s))"

definition mq_recv_again :: "nat \<Rightarrow> nat \<Rightarrow> int \<Rightarrow> u32 \<Rightarrow> 'a mq_sys_scheme \<Rightarrow> ((int + nat) outcome \<times> 'a mq_sys_scheme) run" where
  "mq_recv_again x t timeout start s =
     (if th_error (thread_of s t) \<noteq> RT_EOK then returns (Back (Inl (th_error (thread_of s t))), s)
      else mq_recv_loop x t (time_left timeout start s) s)"

text \<open>The copy to the buffer of the caller, which has \<open>len\<close> bytes, and the last section: the node becomes free.\<close>

definition message_bytes :: "rt_messagequeue \<Rightarrow> nat \<Rightarrow> nat \<Rightarrow> u8 list" where
  "message_bytes m n len = take (if len > unat (mq_msg_size m) then unat (mq_msg_size m) else len) (mq_data m n)"

definition mq_recv_end ::
  "nat \<Rightarrow> nat \<Rightarrow> nat \<Rightarrow> 'a mq_sys_scheme \<Rightarrow> ((int \<times> u8 list option) outcome \<times> 'a mq_sys_scheme) run" where
  "mq_recv_end x len n s =
     resume_first (mq_senders (mq_of s x)) (Back (RT_EOK, Some (message_bytes (mq_of s x) n len)))
       (set_mq x (free_message n (mq_of s x)) s)"

definition rt_mq_recv ::
  "nat \<Rightarrow> nat \<Rightarrow> int \<Rightarrow> 'a mq_sys_scheme \<Rightarrow> ((int \<times> u8 list option) outcome \<times> 'a mq_sys_scheme) run" where
  "rt_mq_recv x len timeout s =
     (if len = 0 then stops (Assert_Hang ''size != 0'')
      else andthen (mq_recv_begin x timeout s) (with_node (mq_recv_end x len) (\<lambda>e. (e, None))))"

definition mq_recv_woken ::
  "nat \<Rightarrow> nat \<Rightarrow> nat \<Rightarrow> int \<Rightarrow> u32 \<Rightarrow> 'a mq_sys_scheme \<Rightarrow> ((int \<times> u8 list option) outcome \<times> 'a mq_sys_scheme) run" where
  "mq_recv_woken x len t timeout start s =
     andthen (mq_recv_again x t timeout start s) (with_node (mq_recv_end x len) (\<lambda>e. (e, None)))"

end
