(* ===== verification/MailboxLaws.thy ===== *)
theory MailboxLaws
  imports IpcCalls Mailbox
begin

text \<open>
  Mailboxes: the ring is a bounded queue, and no call loses, doubles or reorders a mail.
\<close>

subsection \<open>The ring\<close>

definition mb_ok :: "rt_mailbox \<Rightarrow> bool" where
  "mb_ok m \<longleftrightarrow>
     0 < mb_size m \<and> unat (mb_size m) \<le> length (msg_pool m) \<and> mb_entry m \<le> mb_size m \<and> out_offset m < mb_size m \<and>
     unat (in_offset m) = (unat (out_offset m) + unat (mb_entry m)) mod unat (mb_size m)"

definition mb_contents :: "rt_mailbox \<Rightarrow> u32 list" where
  "mb_contents m =
     map (\<lambda>k. msg_pool m ! ((unat (out_offset m) + k) mod unat (mb_size m))) [0..<unat (mb_entry m)]"

lemma mb_okD:
  assumes "mb_ok m"
  shows "0 < unat (mb_size m)" "unat (mb_size m) \<le> length (msg_pool m)" "unat (mb_entry m) \<le> unat (mb_size m)"
    "unat (out_offset m) < unat (mb_size m)"
    "unat (in_offset m) = (unat (out_offset m) + unat (mb_entry m)) mod unat (mb_size m)"
    "unat (in_offset m) < unat (mb_size m)"
proof -
  show s: "0 < unat (mb_size m)" using assms by (simp add: mb_ok_def word_less_nat_alt)
  show "unat (mb_size m) \<le> length (msg_pool m)" "unat (mb_entry m) \<le> unat (mb_size m)"
    "unat (out_offset m) < unat (mb_size m)"
    and i: "unat (in_offset m) = (unat (out_offset m) + unat (mb_entry m)) mod unat (mb_size m)"
    using assms by (simp_all add: mb_ok_def word_less_nat_alt word_le_nat_alt)
  show "unat (in_offset m) < unat (mb_size m)" using i s by simp
qed

lemma unat_step:
  assumes "unat (i :: u16) < unat (n :: u16)"
  shows "unat (i + 1) = unat i + 1"
proof -
  have "i < n" using assms by (simp add: word_less_nat_alt)
  then have "i \<noteq> - 1" using word_order.extremum_strict [of n] by auto
  then have "1 + i \<noteq> 0" by (metis add.commute eq_neg_iff_add_eq_0)
  then show ?thesis using unatSuc [of i] by (simp add: add.commute)
qed

lemma unat_advance: "unat i < unat n \<Longrightarrow> unat (advance i n) = (unat i + 1) mod unat n"
proof -
  assume i: "unat i < unat n"
  show ?thesis
  proof (cases "unat i + 1 = unat n")
    case True
    then show ?thesis using unat_step [OF i] by (simp add: advance_def word_le_nat_alt)
  next
    case False
    then show ?thesis using unat_step [OF i] i by (simp add: advance_def word_le_nat_alt)
  qed
qed

lemma mod_offset_inj:
  assumes "(a + j) mod n = (a + k) mod n" and "j < n" "k < (n :: nat)"
  shows "j = k"
proof -
  have "int n dvd (int a + int j) - (int a + int k)"
    using assms(1) by (metis mod_eq_dvd_iff of_nat_add of_nat_mod)
  then have d: "int n dvd int j - int k" by simp
  show ?thesis
  proof (rule ccontr)
    assume "j \<noteq> k"
    then have "int n \<le> \<bar>int j - int k\<bar>" using dvd_imp_le_int [OF _ d] by simp
    then show False using assms(2,3) by linarith
  qed
qed

lemma contents_length [simp]: "length (mb_contents m) = unat (mb_entry m)"
  by (simp add: mb_contents_def)

lemma mb_put_ok:
  assumes "mb_ok m" and "mb_entry m \<noteq> mb_size m"
  obtains m' where "mb_put v m = returns m'" and "mb_ok m'" and "mb_contents m' = mb_contents m @ [v]"
    and "mb_size m' = mb_size m" and "suspend_sender_thread m' = suspend_sender_thread m" and "mb_flag m' = mb_flag m"
    and "mb_static m' = mb_static m"
proof -
  note M = mb_okD [OF assms(1)]
  let ?n = "unat (mb_size m)" and ?i = "unat (in_offset m)" and ?o = "unat (out_offset m)" and ?e = "unat (mb_entry m)"
  let ?m = "m\<lparr>msg_pool := (msg_pool m)[?i := v], in_offset := advance (in_offset m) (mb_size m), mb_entry := mb_entry m + 1\<rparr>"
  have e: "?e < ?n" using M(3) assms(2) by (metis le_neq_implies_less word_unat_eq_iff)
  have e1: "unat (mb_entry m + 1) = ?e + 1" by (rule unat_step [OF e])
  have i1: "unat (advance (in_offset m) (mb_size m)) = (?i + 1) mod ?n" by (rule unat_advance [OF M(6)])
  have "mb_put v m = returns ?m" using M(2,6) by (simp add: mb_put_def)
  moreover have "mb_ok ?m"
    using assms(1) e M(5) i1 e1 by (simp add: mb_ok_def word_le_nat_alt mod_Suc_eq)
  moreover have "mb_contents ?m = mb_contents m @ [v]"
  proof -
    have "(msg_pool m)[?i := v] ! ((?o + k) mod ?n) = msg_pool m ! ((?o + k) mod ?n)" if "k < ?e" for k
    proof -
      have "(?o + k) mod ?n \<noteq> ?i" using mod_offset_inj [of ?o k ?n ?e] that e M(5) by auto
      then show ?thesis by simp
    qed
    moreover have "(msg_pool m)[?i := v] ! ((?o + ?e) mod ?n) = v"
      using M(2,5,6) by simp
    ultimately show ?thesis by (simp add: mb_contents_def e1)
  qed
  ultimately show ?thesis using that [of ?m] by simp
qed

lemma mb_get_ok:
  assumes "mb_ok m" and "mb_entry m \<noteq> 0"
  obtains m' where "mb_get m = returns (hd (mb_contents m), m')" and "mb_ok m'" and "mb_contents m' = tl (mb_contents m)"
    and "mb_contents m \<noteq> []" and "mb_size m' = mb_size m" and "suspend_sender_thread m' = suspend_sender_thread m"
    and "mb_flag m' = mb_flag m" and "mb_static m' = mb_static m"
proof -
  note M = mb_okD [OF assms(1)]
  let ?n = "unat (mb_size m)" and ?o = "unat (out_offset m)" and ?e = "unat (mb_entry m)"
  let ?m = "m\<lparr>out_offset := advance (out_offset m) (mb_size m), mb_entry := mb_entry m - 1\<rparr>"
  have "0 < ?e" using assms(2) by (simp add: unat_gt_0)
  then obtain k where k: "?e = Suc k" using gr0_implies_Suc by blast
  have "unat (mb_entry m - 1) = ?e - 1" using assms(2) by (rule unat_minus_one)
  then have e1: "unat (mb_entry m - 1) = k" using k by simp
  have o1: "unat (advance (out_offset m) (mb_size m)) = (?o + 1) mod ?n" by (rule unat_advance [OF M(4)])
  have c: "mb_contents m = msg_pool m ! ?o # map (\<lambda>k. msg_pool m ! ((?o + Suc k) mod ?n)) [0..<k]"
    using M(4) by (simp add: mb_contents_def k upt_conv_Cons map_Suc_upt [symmetric] comp_def del: upt_Suc map_Suc_upt)
  have "mb_get m = returns (hd (mb_contents m), ?m)" using M(2,4) c by (simp add: mb_get_def)
  moreover have "mb_ok ?m"
    using M(1-5) k by (simp add: mb_ok_def word_le_nat_alt word_less_nat_alt o1 e1 mod_simps)
  moreover have "mb_contents ?m = tl (mb_contents m)"
    unfolding c by (simp add: mb_contents_def e1 o1 mod_simps)
  moreover have "mb_contents m \<noteq> []" using c by simp
  ultimately show ?thesis using that [of ?m] by simp
qed

text \<open>The two operations as those of a bounded queue.\<close>

definition mb_enq :: "u32 \<Rightarrow> rt_mailbox \<Rightarrow> bool \<times> rt_mailbox" where
  "mb_enq v m = (if mb_entry m = mb_size m then (False, m)
                 else case mb_put v m of Some (Inr m') \<Rightarrow> (True, m') | _ \<Rightarrow> (False, m))"

definition mb_deq :: "rt_mailbox \<Rightarrow> u32 option \<times> rt_mailbox" where
  "mb_deq m = (if mb_entry m = 0 then (None, m)
               else case mb_get m of Some (Inr (v, m')) \<Rightarrow> (Some v, m') | _ \<Rightarrow> (None, m))"

interpretation mailbox: bounded_fifo mb_ok mb_contents "\<lambda>m. unat (mb_size m)" mb_enq mb_deq
proof
  fix m m' :: rt_mailbox and v ok
  assume m: "mb_ok m" "mb_enq v m = (ok, m')"
  show "mb_ok m' \<and> unat (mb_size m') = unat (mb_size m) \<and> ok = (length (mb_contents m) < unat (mb_size m)) \<and>
      mb_contents m' = (if ok then mb_contents m @ [v] else mb_contents m)"
  proof (cases "mb_entry m = mb_size m")
    case True
    then show ?thesis using m by (auto simp: mb_enq_def)
  next
    case False
    then have "unat (mb_entry m) < unat (mb_size m)"
      using mb_okD(3) [OF m(1)] by (metis le_neq_implies_less word_unat_eq_iff)
    moreover obtain m1 where "mb_put v m = returns m1" "mb_ok m1" "mb_contents m1 = mb_contents m @ [v]"
      "mb_size m1 = mb_size m" by (rule mb_put_ok [OF m(1) False]) (rule that)
    ultimately show ?thesis using m(2) False by (auto simp: mb_enq_def)
  qed
next
  fix m m' :: rt_mailbox and v
  assume m: "mb_ok m" "mb_deq m = (v, m')"
  show "mb_ok m' \<and> unat (mb_size m') = unat (mb_size m) \<and>
      v = (case mb_contents m of [] \<Rightarrow> None | x # q \<Rightarrow> Some x) \<and> mb_contents m' = tl (mb_contents m)"
  proof (cases "mb_entry m = 0")
    case True
    then have "mb_contents m = []" by (simp add: mb_contents_def)
    then show ?thesis using True m by (auto simp: mb_deq_def)
  next
    case False
    obtain m1 where "mb_get m = returns (hd (mb_contents m), m1)" "mb_ok m1" "mb_contents m1 = tl (mb_contents m)"
      "mb_contents m \<noteq> []" "mb_size m1 = mb_size m" by (rule mb_get_ok [OF m(1) False]) (rule that)
    then show ?thesis using m(2) False by (auto simp: mb_deq_def split: list.split)
  qed
qed

subsection \<open>The parts of the state\<close>

lemma mailbox_of_more: "kernel.more s' = kernel.more s \<Longrightarrow> mailbox_of s' = mailbox_of s"
  by (cases s; cases s'; simp)

lemma set_mailbox_simps [simp]:
  "tlists (set_mailbox x m s) = tlists s" "thread_of (set_mailbox x m s) = thread_of s"
  "ready_group (set_mailbox x m s) = ready_group s" "current_thread (set_mailbox x m s) = current_thread s"
  "lock_nest (set_mailbox x m s) = lock_nest s" "interrupt_nest (set_mailbox x m s) = interrupt_nest s"
  "timers.truncate (set_mailbox x m s) = timers.truncate s" "mailbox_of (set_mailbox x m s) = (mailbox_of s)(x := m)"
  by (simp_all add: set_mailbox_def timers.truncate_def)

lemma set_mailbox_state [simp]: "kernel_state T idle s H Q hs ss \<Longrightarrow> kernel_state T idle (set_mailbox x m s) H Q hs ss"
  by (erule kernel_state_cong; simp)

definition box_ok :: "nat set \<Rightarrow> nat \<Rightarrow> rt_mailbox \<Rightarrow> bool" where
  "box_ok H x m \<longleftrightarrow>
     x \<in> H \<and> rt_thread_defunct < x \<and> suspend_sender_thread m \<in> H \<and> rt_thread_defunct < suspend_sender_thread m \<and>
     mb_ok m \<and> wait_flag (mb_flag m)"

definition boxes_ok :: "nat set \<Rightarrow> nat set \<Rightarrow> 'a mail_sys_scheme \<Rightarrow> bool" where
  "boxes_ok H B s \<longleftrightarrow> (\<forall>x \<in> B. box_ok H x (mailbox_of s x))"

definition mail_inv :: "nat set \<Rightarrow> nat \<Rightarrow> nat set \<Rightarrow> 'a mail_sys_scheme \<Rightarrow> bool" where
  "mail_inv T idle B s \<longleftrightarrow> (\<exists>H Q hs ss. kernel_state T idle s H Q hs ss \<and> boxes_ok H B s)"

lemma mail_invI: "kernel_state T idle s H Q hs ss \<Longrightarrow> boxes_ok H B s \<Longrightarrow> mail_inv T idle B s"
  by (auto simp: mail_inv_def)

lemma box_okD:
  assumes "boxes_ok H B s" and "x \<in> B"
  shows "x \<in> H" "rt_thread_defunct < x" "suspend_sender_thread (mailbox_of s x) \<in> H"
    "rt_thread_defunct < suspend_sender_thread (mailbox_of s x)" "mb_ok (mailbox_of s x)" "wait_flag (mb_flag (mailbox_of s x))"
  using assms by (auto simp: boxes_ok_def box_ok_def)

lemma boxes_okI:
  assumes "boxes_ok H B s" and "mailbox_of s' = (mailbox_of s)(x := m)" and "x \<in> B \<Longrightarrow> box_ok H x m"
  shows "boxes_ok H B s'"
  using assms by (auto simp: boxes_ok_def)

lemma boxes_ok_same: "boxes_ok H B s \<Longrightarrow> mailbox_of s' = mailbox_of s \<Longrightarrow> boxes_ok H B s'"
  by (simp add: boxes_ok_def)

subsection \<open>Waking and waiting\<close>

lemma wake_first_ok:
  assumes K: "kernel_state T idle s H Q hs ss" and x: "x \<in> H" "rt_thread_defunct < x"
  obtains s' Q' hs' where
    "(if \<not> rt_list_isempty x (tlists s)
      then andthen (rt_ipc_list_resume x s) (\<lambda>s. andthen (rt_schedule s) (\<lambda>s. returns (r, s)))
      else returns (r, s)) = returns (r, s')"
    and "kernel_state T idle s' H Q' hs' ss" and "kernel.more s' = kernel.more s" and "Q' x = tl (Q x)"
    and "\<And>h. h \<in> H \<Longrightarrow> rt_thread_defunct < h \<Longrightarrow> h \<noteq> x \<Longrightarrow> Q' h = Q h"
    and "Q x \<noteq> [] \<Longrightarrow> thread_stat (hd (Q x)) s' = RT_THREAD_READY \<and>
      th_error (thread_of s' (hd (Q x))) = th_error (thread_of s (hd (Q x)))"
proof -
  note D = kernel_stateD [OF K]
  note F = lists_okD(1) [OF sched_okD(1) [OF kernel_okD(1) [OF D(1)]]]
  have e: "rt_list_isempty x (tlists s) \<longleftrightarrow> Q x = []" using family_isempty [OF F x(1)] by simp
  show ?thesis
  proof (cases "Q x")
    case Nil
    then show ?thesis using that [of s Q hs] e K by simp
  next
    case (Cons t ts)
    have n: "next_link (tlists s) x = t" using dlist_ends(1) [OF familyD(1) [OF F x(1)]] Cons by simp
    have t: "t \<in> T" "thread_stat t s = RT_THREAD_SUSPEND" using waiting_thread [OF D(1) x, of t] Cons by simp_all
    obtain s1 where s1: "rt_thread_resume t s = returns (RT_EOK, s1)"
      "kernel_state T idle s1 H (made_ready s t Q) (remove1 t hs) ss" "kernel_frame t s s1"
      "thread_stat t s1 = RT_THREAD_READY" "th_error (thread_of s1 t) = th_error (thread_of s t)"
      by (rule resume_state [OF K t]) (rule that)
    let ?Q = "made_ready s t Q"
    note S = settle_state [OF s1(2)]
    have oth: "?Q h = remove1 t (Q h)" if "h \<in> H" "rt_thread_defunct < h" for h
      by (rule made_ready_other [OF kernel_okD(1) [OF D(1)] t(1) that])
    have "?Q h = Q h" if "h \<in> H" "rt_thread_defunct < h" "h \<noteq> x" for h
      using oth [OF that(1,2)] familyD(3) [OF F that(1) x(1), of t] Cons that(3) by (auto intro: remove1_idem)
    moreover have "?Q x = tl (Q x)" using oth [OF x] Cons by simp
    moreover have "kernel.more (settle ?Q s1) = kernel.more s" using kernel_frameD(5) [OF s1(3)] by simp
    moreover have "thread_stat t (settle ?Q s1) = RT_THREAD_READY" "thread_of (settle ?Q s1) t = thread_of s1 t"
      using s1(4) by simp_all
    ultimately show ?thesis
      using that [of "settle ?Q s1" ?Q "remove1 t hs"] e Cons S s1(1,5) n by (simp add: rt_ipc_list_resume_def)
  qed
qed

lemma wait_round_ok:
  assumes K: "kernel_state T idle s H Q hs ss" and cur: "current_thread s = Some t" and b: "may_block idle time s"
    and x: "x \<in> H" "rt_thread_defunct < x" and f: "wait_flag flag"
  obtains s' hs' where "wait_round x t flag time s = returns s'" and "current_thread s' \<noteq> Some t"
    and "kernel_state T idle s' H (joined flag (\<lambda>y. priority_of y s) x t Q) hs' ss" and "kernel.more s' = kernel.more s"
    and "thread_stat t s' = RT_THREAD_SUSPEND" and "0 < time \<Longrightarrow> t \<in> set hs' \<and> due s' t = time"
proof -
  have B: "t \<noteq> idle" "lock_nest s = 0" "interrupt_nest s = 0" "time < 2 ^ 31 - 1" using b cur by (auto simp: may_block_def)
  let ?J = "joined flag (\<lambda>y. priority_of y s) x t Q"
  obtain s1 hs' where s1: "wait_on x t flag time s = returns s1"
    "rt_schedule s1 = returns (settle ?J s1)" "hd (ready_order ?J) \<noteq> t" "kernel_state T idle (settle ?J s1) H ?J hs' ss"
    "kernel_frame t s s1" "thread_stat t s1 = RT_THREAD_SUSPEND" "0 < time \<Longrightarrow> t \<in> set hs' \<and> due s1 t = time"
    by (rule wait_on_ok [OF K cur B(1,2) x f B(4)]) (rule that)
  note fr = kernel_frameD [OF s1(5)]
  have "wait_round x t flag time s = andthen (wait_on x t flag time s) rt_schedule"
    by (auto simp: wait_round_def wait_on_def andthen_def split: option.splits sum.splits)
  moreover have "current_thread (settle ?J s1) \<noteq> Some t" using s1(3) fr(2) B(2) by simp
  moreover have "due (settle ?J s1) t = due s1 t" by (simp add: due_def)
  ultimately show ?thesis using that [of "settle ?J s1" hs'] s1(1,2,4,6,7) fr(5) by simp
qed

lemma mb_wait_thread:
  "current_thread s = Some t \<Longrightarrow> may_block idle time s \<Longrightarrow> mb_wait x t' flag time' s = wait_round x t' flag time' s"
  by (simp add: mb_wait_def in_thread may_block_def)

subsection \<open>Sending and receiving\<close>

lemma mb_store_ok:
  assumes K: "kernel_state T idle s H Q hs ss" and O: "boxes_ok H B s" and x: "x \<in> B"
    and room: "mb_entry (mailbox_of s x) \<noteq> mb_size (mailbox_of s x)"
  obtains s' Q' hs' m' where "mb_store x v s = returns (Back RT_EOK, s')" and "kernel_state T idle s' H Q' hs' ss"
    and "mb_put v (mailbox_of s x) = returns m'" and "mailbox_of s' = (mailbox_of s)(x := m')"
    and "boxes_ok H B s'" and "Q' x = tl (Q x)" and "\<And>h. h \<in> H \<Longrightarrow> rt_thread_defunct < h \<Longrightarrow> h \<noteq> x \<Longrightarrow> Q' h = Q h"
    and "Q x \<noteq> [] \<Longrightarrow> thread_stat (hd (Q x)) s' = RT_THREAD_READY \<and>
      th_error (thread_of s' (hd (Q x))) = th_error (thread_of s (hd (Q x)))"
proof -
  note X = box_okD [OF O x]
  obtain m' where m': "mb_put v (mailbox_of s x) = returns m'" "mb_ok m'"
    "suspend_sender_thread m' = suspend_sender_thread (mailbox_of s x)" "mb_flag m' = mb_flag (mailbox_of s x)"
    by (rule mb_put_ok [OF X(5) room]) (rule that)
  let ?s = "set_mailbox x m' s"
  obtain s' :: "'a mail_sys_scheme" and Q' hs' where s':
    "(if \<not> rt_list_isempty x (tlists ?s)
      then andthen (rt_ipc_list_resume x ?s) (\<lambda>s. andthen (rt_schedule s) (\<lambda>s. returns (Back RT_EOK, s)))
      else returns (Back RT_EOK, ?s)) = returns (Back RT_EOK, s')"
    "kernel_state T idle s' H Q' hs' ss" "kernel.more s' = kernel.more ?s" "Q' x = tl (Q x)"
    "\<And>h. h \<in> H \<Longrightarrow> rt_thread_defunct < h \<Longrightarrow> h \<noteq> x \<Longrightarrow> Q' h = Q h"
    "Q x \<noteq> [] \<Longrightarrow> thread_stat (hd (Q x)) s' = RT_THREAD_READY \<and>
      th_error (thread_of s' (hd (Q x))) = th_error (thread_of ?s (hd (Q x)))"
    by (rule wake_first_ok [OF set_mailbox_state [OF K] X(1,2)]) (rule that)
  have m: "mailbox_of s' = (mailbox_of s)(x := m')" using mailbox_of_more [OF s'(3)] by simp
  have "mb_store x v s = returns (Back RT_EOK, s')" using s'(1) m'(1) unfolding mb_store_def Let_def by simp
  moreover have "boxes_ok H B s'" by (rule boxes_okI [OF O m]) (use X m' in \<open>simp add: box_ok_def\<close>)
  ultimately show ?thesis using that [of s' Q' hs' m'] s'(2,4-6) m'(1) m by simp
qed

lemma mb_fetch_ok:
  assumes K: "kernel_state T idle s H Q hs ss" and O: "boxes_ok H B s" and x: "x \<in> B"
    and some: "mb_entry (mailbox_of s x) \<noteq> 0"
  defines "y \<equiv> suspend_sender_thread (mailbox_of s x)"
  obtains s' Q' hs' v m' where "mb_fetch x s = returns (Back (RT_EOK, Some v), s')" and "kernel_state T idle s' H Q' hs' ss"
    and "mb_get (mailbox_of s x) = returns (v, m')" and "mailbox_of s' = (mailbox_of s)(x := m')"
    and "boxes_ok H B s'" and "Q' y = tl (Q y)" and "\<And>h. h \<in> H \<Longrightarrow> rt_thread_defunct < h \<Longrightarrow> h \<noteq> y \<Longrightarrow> Q' h = Q h"
    and "Q y \<noteq> [] \<Longrightarrow> thread_stat (hd (Q y)) s' = RT_THREAD_READY \<and>
      th_error (thread_of s' (hd (Q y))) = th_error (thread_of s (hd (Q y)))"
proof -
  note X = box_okD [OF O x]
  obtain v m' where m': "mb_get (mailbox_of s x) = returns (v, m')" "mb_ok m'"
    "suspend_sender_thread m' = suspend_sender_thread (mailbox_of s x)" "mb_flag m' = mb_flag (mailbox_of s x)"
    by (rule mb_get_ok [OF X(5) some]) (rule that)
  let ?s = "set_mailbox x m' s"
  obtain s' :: "'a mail_sys_scheme" and Q' hs' where s':
    "(if \<not> rt_list_isempty y (tlists ?s)
      then andthen (rt_ipc_list_resume y ?s) (\<lambda>s. andthen (rt_schedule s) (\<lambda>s. returns (Back (RT_EOK, Some v), s)))
      else returns (Back (RT_EOK, Some v), ?s)) = returns (Back (RT_EOK, Some v), s')"
    "kernel_state T idle s' H Q' hs' ss" "kernel.more s' = kernel.more ?s" "Q' y = tl (Q y)"
    "\<And>h. h \<in> H \<Longrightarrow> rt_thread_defunct < h \<Longrightarrow> h \<noteq> y \<Longrightarrow> Q' h = Q h"
    "Q y \<noteq> [] \<Longrightarrow> thread_stat (hd (Q y)) s' = RT_THREAD_READY \<and>
      th_error (thread_of s' (hd (Q y))) = th_error (thread_of ?s (hd (Q y)))"
    by (rule wake_first_ok [OF set_mailbox_state [OF K] X(3,4) [folded y_def]]) (rule that)
  have m: "mailbox_of s' = (mailbox_of s)(x := m')" using mailbox_of_more [OF s'(3)] by simp
  have "mb_fetch x s = returns (Back (RT_EOK, Some v), s')" using s'(1) m'(1,3) unfolding mb_fetch_def Let_def y_def by (simp split: if_splits)
  moreover have "boxes_ok H B s'" by (rule boxes_okI [OF O m]) (use X m' in \<open>simp add: box_ok_def y_def\<close>)
  ultimately show ?thesis using that [of v s' Q' hs' m'] s'(2,4-6) m'(1) m by simp
qed

text \<open>What a sending or receiving call can have done to the mailboxes, by its result.\<close>

definition sent_as :: "nat \<Rightarrow> u32 \<Rightarrow> int outcome \<Rightarrow> 'a mail_sys_scheme \<Rightarrow> 'a mail_sys_scheme \<Rightarrow> bool" where
  "sent_as x v r s s' \<longleftrightarrow>
     (if r = Back RT_EOK
      then mb_entry (mailbox_of s x) \<noteq> mb_size (mailbox_of s x) \<and>
        (\<exists>m'. mb_put v (mailbox_of s x) = returns m' \<and> mailbox_of s' = (mailbox_of s)(x := m'))
      else mb_entry (mailbox_of s x) = mb_size (mailbox_of s x) \<and> mailbox_of s' = mailbox_of s)"

definition received_as :: "nat \<Rightarrow> (int \<times> u32 option) outcome \<Rightarrow> 'a mail_sys_scheme \<Rightarrow> 'a mail_sys_scheme \<Rightarrow> bool" where
  "received_as x r s s' \<longleftrightarrow>
     (case r of
        Back (e, Some v) \<Rightarrow> e = RT_EOK \<and> mb_entry (mailbox_of s x) \<noteq> 0 \<and>
          (\<exists>m'. mb_get (mailbox_of s x) = returns (v, m') \<and> mailbox_of s' = (mailbox_of s)(x := m'))
      | _ \<Rightarrow> mb_entry (mailbox_of s x) = 0 \<and> mailbox_of s' = mailbox_of s)"

definition mail_done :: "nat set \<Rightarrow> nat \<Rightarrow> nat set \<Rightarrow> ('r \<times> 'a mail_sys_scheme) run \<Rightarrow> ('r \<Rightarrow> 'a mail_sys_scheme \<Rightarrow> bool) \<Rightarrow> bool" where
  "mail_done T idle B m P \<longleftrightarrow> (\<exists>r s'. m = returns (r, s') \<and> mail_inv T idle B s' \<and> P r s')"

lemma mail_doneI: "m = returns (r, s') \<Longrightarrow> kernel_state T idle s' H Q hs ss \<Longrightarrow> boxes_ok H B s' \<Longrightarrow> P r s' \<Longrightarrow> mail_done T idle B m P"
  unfolding mail_done_def mail_inv_def by blast

lemma set_error_mail:
  "mailbox_of (set_error e t s) = mailbox_of s" "may_block idle time (set_error e t s) = may_block idle time s"
  by (rule mailbox_of_more; simp) (simp add: may_block_def)

lemma mb_send_loop_ok:
  assumes K: "kernel_state T idle s H Q hs ss" and O: "boxes_ok H B s" and x: "x \<in> B"
    and cur: "current_thread s = Some t" and b: "time \<noteq> 0 \<Longrightarrow> may_block idle time s"
  shows "mail_done T idle B (mb_send_loop x v t time s) (\<lambda>r s'. sent_as x v r s s')"
proof (cases "mb_entry (mailbox_of s x) = mb_size (mailbox_of s x)")
  case False
  obtain s' Q' hs' m' where "mb_store x v s = returns (Back RT_EOK, s')" "kernel_state T idle s' H Q' hs' ss"
    "mb_put v (mailbox_of s x) = returns m'" "mailbox_of s' = (mailbox_of s)(x := m')" "boxes_ok H B s'"
    by (rule mb_store_ok [OF K O x False]) (rule that)
  then show ?thesis using False by (subst mb_send_loop.simps) (auto simp: sent_as_def intro!: mail_doneI)
next
  case True
  let ?s = "set_error RT_EOK t s"
  have K0: "kernel_state T idle ?s H Q hs ss" by (rule set_error_state [OF K])
  have O0: "boxes_ok H B ?s" by (rule boxes_ok_same [OF O set_error_mail(1)])
  note X = box_okD [OF O0 x]
  show ?thesis
  proof (cases "time = 0")
    case t0: True
    have "mb_send_loop x v t time s = returns (Back (- RT_EFULL), ?s)" using True t0 by (subst mb_send_loop.simps) simp
    then show ?thesis using True K0 O0
      by (auto simp: sent_as_def set_error_mail RT_EFULL_def RT_EOK_def intro!: mail_doneI)
  next
    case wait: False
    have w: "current_thread ?s = Some t" "may_block idle time ?s" using cur b [OF wait] by (simp_all add: set_error_mail)
    obtain s' hs' Q' where s': "wait_round (suspend_sender_thread (mailbox_of ?s x)) t (mb_flag (mailbox_of ?s x)) time ?s = returns s'"
      "current_thread s' \<noteq> Some t" "kernel_state T idle s' H Q' hs' ss" "kernel.more s' = kernel.more ?s"
      by (rule wait_round_ok [OF K0 w X(3,4,6)]) (rule that)
    have m: "mailbox_of s' = mailbox_of s" using mailbox_of_more [OF s'(4)] by (simp add: set_error_mail)
    have "mb_send_loop x v t time s = returns (Switched_Out, s')"
      using True wait s'(1,2) by (subst mb_send_loop.simps) (simp add: Let_def mb_wait_thread [OF w])
    then show ?thesis using True s'(3) boxes_ok_same [OF O m] m by (auto simp: sent_as_def intro!: mail_doneI)
  qed
qed

lemma mb_recv_loop_ok:
  assumes K: "kernel_state T idle s H Q hs ss" and O: "boxes_ok H B s" and x: "x \<in> B"
    and cur: "current_thread s = Some t" and b: "time \<noteq> 0 \<Longrightarrow> may_block idle time s"
  shows "mail_done T idle B (mb_recv_loop x t time s) (\<lambda>r s'. received_as x r s s')"
proof (cases "mb_entry (mailbox_of s x) = 0")
  case False
  obtain s' Q' hs' v m' where "mb_fetch x s = returns (Back (RT_EOK, Some v), s')" "kernel_state T idle s' H Q' hs' ss"
    "mb_get (mailbox_of s x) = returns (v, m')" "mailbox_of s' = (mailbox_of s)(x := m')" "boxes_ok H B s'"
    by (rule mb_fetch_ok [OF K O x False]) (rule that)
  then show ?thesis using False by (subst mb_recv_loop.simps) (auto simp: received_as_def intro!: mail_doneI)
next
  case True
  let ?s = "set_error RT_EOK t s"
  have K0: "kernel_state T idle ?s H Q hs ss" by (rule set_error_state [OF K])
  have O0: "boxes_ok H B ?s" by (rule boxes_ok_same [OF O set_error_mail(1)])
  note X = box_okD [OF O0 x]
  show ?thesis
  proof (cases "time = 0")
    case t0: True
    let ?s' = "set_error (- RT_ETIMEOUT) t ?s"
    have "mb_recv_loop x t time s = returns (Back (- RT_ETIMEOUT, None), ?s')"
      using True t0 by (subst mb_recv_loop.simps) (simp add: Let_def)
    then show ?thesis using True set_error_state [OF K0] boxes_ok_same [OF O0 set_error_mail(1)]
      by (auto simp: received_as_def set_error_mail intro!: mail_doneI)
  next
    case wait: False
    have w: "current_thread ?s = Some t" "may_block idle time ?s" using cur b [OF wait] by (simp_all add: set_error_mail)
    obtain s' hs' Q' where s': "wait_round x t (mb_flag (mailbox_of ?s x)) time ?s = returns s'"
      "current_thread s' \<noteq> Some t" "kernel_state T idle s' H Q' hs' ss" "kernel.more s' = kernel.more ?s"
      by (rule wait_round_ok [OF K0 w X(1,2,6)]) (rule that)
    have m: "mailbox_of s' = mailbox_of s" using mailbox_of_more [OF s'(4)] by (simp add: set_error_mail)
    have "mb_recv_loop x t time s = returns (Switched_Out, s')"
      using True wait s'(1,2) by (subst mb_recv_loop.simps) (simp add: Let_def mb_wait_thread [OF w])
    then show ?thesis using True s'(3) boxes_ok_same [OF O m] m by (auto simp: received_as_def intro!: mail_doneI)
  qed
qed

lemma rt_mb_send_wait_ok:
  assumes K: "kernel_state T idle s H Q hs ss" and O: "boxes_ok H B s" and x: "x \<in> B"
    and b: "time \<noteq> 0 \<Longrightarrow> may_block idle time s"
  shows "mail_done T idle B (rt_mb_send_wait x v time s) (\<lambda>r s'. sent_as x v r s s')"
proof -
  obtain t where t: "current_thread s = Some t" by (rule runner [OF K])
  let ?full = "mb_entry (mailbox_of s x) = mb_size (mailbox_of s x)"
  consider (full) ?full "time = 0" | (room) "\<not> ?full" | (waits) ?full "time \<noteq> 0" by blast
  then show ?thesis
  proof cases
    case full
    then show ?thesis using K O by (auto simp: rt_mb_send_wait_def sent_as_def RT_EFULL_def RT_EOK_def intro!: mail_doneI)
  next
    case room
    then have "rt_mb_send_wait x v time s = mb_send_loop x v t time s"
      by (subst mb_send_loop.simps) (simp add: rt_mb_send_wait_def)
    then show ?thesis using mb_send_loop_ok [OF K O x t b] by simp
  next
    case waits
    then have "rt_mb_send_wait x v time s = mb_send_loop x v t time s" by (simp add: rt_mb_send_wait_def rt_thread_self_def t)
    then show ?thesis using mb_send_loop_ok [OF K O x t b] by simp
  qed
qed

lemma rt_mb_recv_ok:
  assumes K: "kernel_state T idle s H Q hs ss" and O: "boxes_ok H B s" and x: "x \<in> B"
    and b: "time \<noteq> 0 \<Longrightarrow> may_block idle time s"
  shows "mail_done T idle B (rt_mb_recv x time s) (\<lambda>r s'. received_as x r s s')"
proof -
  obtain t where t: "current_thread s = Some t" by (rule runner [OF K])
  let ?empty = "mb_entry (mailbox_of s x) = 0"
  consider (empty) ?empty "time = 0" | (some) "\<not> ?empty" | (waits) ?empty "time \<noteq> 0" by blast
  then show ?thesis
  proof cases
    case empty
    then show ?thesis using K O by (auto simp: rt_mb_recv_def received_as_def intro!: mail_doneI)
  next
    case some
    then have "rt_mb_recv x time s = mb_recv_loop x t time s"
      by (subst mb_recv_loop.simps) (simp add: rt_mb_recv_def)
    then show ?thesis using mb_recv_loop_ok [OF K O x t b] by simp
  next
    case waits
    then have "rt_mb_recv x time s = mb_recv_loop x t time s" by (simp add: rt_mb_recv_def rt_thread_self_def t)
    then show ?thesis using mb_recv_loop_ok [OF K O x t b] by simp
  qed
qed

subsection \<open>The queues behind the mailboxes\<close>

text \<open>What a call does to a mailbox as seen from outside: a size and a list of mails for each.\<close>

datatype mail_event = Opened nat nat | Sent nat u32 | Full nat | Got nat u32 | No_Mail nat | Cleared nat

type_synonym mail_queues = "nat \<Rightarrow> nat \<times> u32 list"

fun queue_step :: "mail_event \<Rightarrow> mail_queues \<Rightarrow> mail_queues option" where
  "queue_step (Opened x n) q = Some (q(x := (n, [])))"
| "queue_step (Sent x v) q = (case q x of (n, l) \<Rightarrow> if length l < n then Some (q(x := (n, l @ [v]))) else None)"
| "queue_step (Full x) q = (case q x of (n, l) \<Rightarrow> if length l = n then Some q else None)"
| "queue_step (Got x v) q = (case q x of (n, w # l) \<Rightarrow> if w = v then Some (q(x := (n, l))) else None | (n, []) \<Rightarrow> None)"
| "queue_step (No_Mail x) q = (case q x of (n, l) \<Rightarrow> if l = [] then Some q else None)"
| "queue_step (Cleared x) q = (case q x of (n, l) \<Rightarrow> Some (q(x := (n, []))))"

fun queue_steps :: "mail_event list \<Rightarrow> mail_queues \<Rightarrow> mail_queues option" where
  "queue_steps [] q = Some q"
| "queue_steps (e # es) q = (case queue_step e q of None \<Rightarrow> None | Some q' \<Rightarrow> queue_steps es q')"

lemma queue_steps_append:
  "queue_steps (es @ fs) q = (case queue_steps es q of None \<Rightarrow> None | Some q' \<Rightarrow> queue_steps fs q')"
  by (induction es arbitrary: q) (simp_all split: option.split)

definition box_view :: "'a mail_sys_scheme \<Rightarrow> mail_queues" where
  "box_view s x = (unat (mb_size (mailbox_of s x)), mb_contents (mailbox_of s x))"

lemma box_view_same: "mailbox_of s' = mailbox_of s \<Longrightarrow> box_view s' = box_view s"
  by (simp add: box_view_def fun_eq_iff)

lemma box_view_upd:
  "mailbox_of s' = (mailbox_of s)(x := m) \<Longrightarrow> box_view s' = (box_view s)(x := (unat (mb_size m), mb_contents m))"
  by (simp add: box_view_def fun_eq_iff)

lemma sent_as_step:
  assumes "mb_ok (mailbox_of s x)" and "sent_as x v r s s'"
  shows "queue_step (if r = Back RT_EOK then Sent x v else Full x) (box_view s) = Some (box_view s')"
proof (cases "r = Back RT_EOK")
  case True
  then obtain m where m: "mb_put v (mailbox_of s x) = returns m" "mailbox_of s' = (mailbox_of s)(x := m)"
    and room: "mb_entry (mailbox_of s x) \<noteq> mb_size (mailbox_of s x)"
    using assms(2) by (auto simp: sent_as_def)
  obtain m' where m': "mb_put v (mailbox_of s x) = returns m'" "mb_contents m' = mb_contents (mailbox_of s x) @ [v]"
    "mb_size m' = mb_size (mailbox_of s x)" by (rule mb_put_ok [OF assms(1) room]) (rule that)
  have "unat (mb_entry (mailbox_of s x)) < unat (mb_size (mailbox_of s x))"
    using mb_okD(3) [OF assms(1)] room by (metis le_neq_implies_less word_unat_eq_iff)
  moreover have "m' = m" using m(1) m'(1) by simp
  ultimately show ?thesis using True box_view_upd [OF m(2)] m' by (simp add: box_view_def)
next
  case False
  then show ?thesis using assms(2) box_view_same [of s' s] by (simp add: sent_as_def box_view_def [of s])
qed

lemma received_as_step:
  assumes "mb_ok (mailbox_of s x)" and "received_as x r s s'"
  shows "queue_step (case r of Back (e, Some v) \<Rightarrow> Got x v | _ \<Rightarrow> No_Mail x) (box_view s) = Some (box_view s')"
proof -
  have empty: ?thesis if "mb_entry (mailbox_of s x) = 0" "mailbox_of s' = mailbox_of s"
      "(case r of Back (e, Some v) \<Rightarrow> Got x v | _ \<Rightarrow> No_Mail x) = No_Mail x"
    using that box_view_same [OF that(2)] by (simp add: box_view_def [of s] mb_contents_def)
  show ?thesis
  proof (cases "\<exists>e v. r = Back (e, Some v)")
    case True
    then obtain e v where r: "r = Back (e, Some v)" by blast
    then obtain m where m: "mb_get (mailbox_of s x) = returns (v, m)" "mailbox_of s' = (mailbox_of s)(x := m)"
      and some: "mb_entry (mailbox_of s x) \<noteq> 0" using assms(2) by (auto simp: received_as_def)
    obtain m' where m': "mb_get (mailbox_of s x) = returns (hd (mb_contents (mailbox_of s x)), m')"
      "mb_contents m' = tl (mb_contents (mailbox_of s x))" "mb_contents (mailbox_of s x) \<noteq> []"
      "mb_size m' = mb_size (mailbox_of s x)" by (rule mb_get_ok [OF assms(1) some]) (rule that)
    have "m' = m" "v = hd (mb_contents (mailbox_of s x))" using m(1) m'(1) by simp_all
    then show ?thesis using r box_view_upd [OF m(2)] m'(2-4) by (cases "mb_contents (mailbox_of s x)") (simp_all add: box_view_def)
  next
    case False
    then show ?thesis using assms(2) empty by (cases r) (auto simp: received_as_def split: option.splits prod.splits)
  qed
qed

subsection \<open>Every call\<close>

text \<open>A \<open>..._Woken\<close> call is what a thread runs when it is chosen again after it has waited.\<close>

datatype mail_call =
    On_Thread call | Mb_Init nat "u32 list" u32 u8 | Mb_Create nat "u32 list" u32 u8
  | Mb_Send nat u32 int | Mb_Send_Woken nat u32 int u32 | Mb_Recv nat int | Mb_Recv_Woken nat int u32
  | Mb_Control nat int | Mb_Detach nat | Mb_Delete nat

definition got_mail :: "nat \<Rightarrow> (int \<times> u32 option) outcome \<Rightarrow> mail_event" where
  "got_mail x r = (case r of Back (e, Some v) \<Rightarrow> Got x v | _ \<Rightarrow> No_Mail x)"

fun perform_mail ::
  "(nat \<Rightarrow> 'a mail_sys_scheme \<Rightarrow> 'a mail_sys_scheme run) \<Rightarrow> mail_call \<Rightarrow> 'a mail_sys_scheme \<Rightarrow>
   (mail_event list \<times> 'a mail_sys_scheme) run"
where
  "perform_mail cb (On_Thread c) s = andthen (perform cb c s) (\<lambda>s. returns ([], s))"
| "perform_mail cb (Mb_Init x pool n f) s =
     andthen (rt_mb_init x (suspend_sender_thread (mailbox_of s x)) pool n f s)
       (\<lambda>(_, s). returns ([Opened x (unat (ucast n :: u16))], s))"
| "perform_mail cb (Mb_Create x pool n f) s =
     andthen (rt_mb_create (Some (x, suspend_sender_thread (mailbox_of s x))) (Some pool) n f s)
       (\<lambda>(_, s). returns ([Opened x (unat (ucast n :: u16))], s))"
| "perform_mail cb (Mb_Send x v time) s =
     andthen (rt_mb_send_wait x v time s) (\<lambda>(r, s). returns ([if r = Back RT_EOK then Sent x v else Full x], s))"
| "perform_mail cb (Mb_Send_Woken x v time begun) s =
     (case current_thread s of
        None \<Rightarrow> stops (Null_Deref ''thread'')
      | Some t \<Rightarrow> andthen (mb_send_woken x v t time begun s)
          (\<lambda>(r, s). returns (if r = Back RT_EOK then [Sent x v] else [], s)))"
| "perform_mail cb (Mb_Recv x time) s =
     andthen (rt_mb_recv x time s) (\<lambda>(r, s). returns ([got_mail x r], s))"
| "perform_mail cb (Mb_Recv_Woken x time begun) s =
     (case current_thread s of
        None \<Rightarrow> stops (Null_Deref ''thread'')
      | Some t \<Rightarrow> andthen (mb_recv_woken x t time begun s)
          (\<lambda>(r, s). returns (case r of Back (e, Some v) \<Rightarrow> [Got x v] | _ \<Rightarrow> [], s)))"
| "perform_mail cb (Mb_Control x cmd) s =
     andthen (rt_mb_control x cmd s) (\<lambda>(_, s). returns (if cmd = RT_IPC_CMD_RESET then [Cleared x] else [], s))"
| "perform_mail cb (Mb_Detach x) s = andthen (rt_mb_detach x s) (\<lambda>(_, s). returns ([], s))"
| "perform_mail cb (Mb_Delete x) s = andthen (rt_mb_delete x s) (\<lambda>(_, s). returns ([], s))"

definition new_box :: "nat \<Rightarrow> u32 list \<Rightarrow> u32 \<Rightarrow> u8 \<Rightarrow> 'a mail_sys_scheme \<Rightarrow> bool" where
  "new_box x pool n f s \<longleftrightarrow>
     0 < unat (ucast n :: u16) \<and> unat (ucast n :: u16) \<le> length pool \<and> wait_flag f \<and>
     rt_list_isempty x (tlists s) \<and> rt_list_isempty (suspend_sender_thread (mailbox_of s x)) (tlists s)"

definition allowed_mail :: "nat set \<Rightarrow> nat \<Rightarrow> nat set \<Rightarrow> 'a mail_sys_scheme \<Rightarrow> mail_call \<Rightarrow> bool" where
  "allowed_mail T idle B s c \<longleftrightarrow>
     (case c of
        On_Thread k \<Rightarrow> allowed T idle s k
      | Mb_Init x pool n f \<Rightarrow> x \<in> B \<and> new_box x pool n f s
      | Mb_Create x pool n f \<Rightarrow> x \<in> B \<and> new_box x pool n f s \<and> interrupt_nest s = 0
      | Mb_Send x v time \<Rightarrow> x \<in> B \<and> (time \<noteq> 0 \<longrightarrow> may_block idle time s)
      | Mb_Send_Woken x v time begun \<Rightarrow> x \<in> B \<and> (time_left time begun s \<noteq> 0 \<longrightarrow> may_block idle (time_left time begun s) s)
      | Mb_Recv x time \<Rightarrow> x \<in> B \<and> (time \<noteq> 0 \<longrightarrow> may_block idle time s)
      | Mb_Recv_Woken x time begun \<Rightarrow> x \<in> B \<and> (time_left time begun s \<noteq> 0 \<longrightarrow> may_block idle (time_left time begun s) s)
      | Mb_Control x cmd \<Rightarrow> x \<in> B
      | Mb_Detach x \<Rightarrow> x \<in> B \<and> mb_static (mailbox_of s x)
      | Mb_Delete x \<Rightarrow> x \<in> B \<and> \<not> mb_static (mailbox_of s x) \<and> interrupt_nest s = 0)"

text \<open>A call returns, keeps the invariant, and its events are steps of the queues.\<close>

definition mail_kept ::
  "nat set \<Rightarrow> nat \<Rightarrow> nat set \<Rightarrow> 'a mail_sys_scheme \<Rightarrow> (mail_event list \<times> 'a mail_sys_scheme) run \<Rightarrow> bool" where
  "mail_kept T idle B s m \<longleftrightarrow>
     (\<exists>l s'. m = returns (l, s') \<and> mail_inv T idle B s' \<and> queue_steps l (box_view s) = Some (box_view s'))"

lemma mail_keptI:
  "m = returns (l, s') \<Longrightarrow> kernel_state T idle s' H Q hs ss \<Longrightarrow> boxes_ok H B s' \<Longrightarrow>
   queue_steps l (box_view s) = Some (box_view s') \<Longrightarrow> mail_kept T idle B s m"
  unfolding mail_kept_def mail_inv_def by blast

lemma open_box:
  fixes st :: bool
  assumes K: "kernel_state T idle s H Q hs ss" and O: "boxes_ok H B s" and x: "x \<in> B" and n: "new_box x pool n f s"
  defines "y \<equiv> suspend_sender_thread (mailbox_of s x)"
  defines "s' \<equiv> set_mailbox x (new_mailbox st pool (ucast n) f y) s"
  shows "upd_lists (rt_list_init y) (set_mailbox x (new_mailbox st pool (ucast n) f y) (rt_ipc_object_init x s)) = s'"
    and "kernel_state T idle s' H Q hs ss" and "boxes_ok H B s'"
    and "queue_steps [Opened x (unat (ucast n :: u16))] (box_view s) = Some (box_view s')"
proof -
  note X = box_okD [OF O x]
  let ?m = "new_mailbox st pool (ucast n) f y"
  have N: "0 < unat (ucast n :: u16)" "unat (ucast n :: u16) \<le> length pool" "wait_flag f"
    "rt_list_isempty x (tlists s)" "rt_list_isempty y (tlists s)" using n by (simp_all add: new_box_def y_def)
  show K': "kernel_state T idle s' H Q hs ss" unfolding s'_def by (rule set_mailbox_state [OF K])
  have i: "rt_ipc_object_init x s = s" by (rule init_list_same(2) [OF K X(1) N(4)])
  have "rt_ipc_object_init y s' = s'"
    by (rule init_list_same(2) [OF K' X(3) [folded y_def]]) (use N(5) in \<open>simp add: s'_def\<close>)
  then show "upd_lists (rt_list_init y) (set_mailbox x ?m (rt_ipc_object_init x s)) = s'"
    unfolding i by (simp add: rt_ipc_object_init_def s'_def)
  have m: "mailbox_of s' = (mailbox_of s)(x := ?m)" by (simp add: s'_def)
  have "mb_ok ?m" using N(1,2) by (simp add: mb_ok_def new_mailbox_def word_less_nat_alt)
  then show "boxes_ok H B s'"
    using boxes_okI [OF O m] X(1-4) N(3) by (simp add: box_ok_def new_mailbox_def y_def)
  show "queue_steps [Opened x (unat (ucast n :: u16))] (box_view s) = Some (box_view s')"
    by (simp add: box_view_upd [OF m]) (simp add: mb_contents_def new_mailbox_def)
qed

lemma mail_init_keeps:
  assumes K: "kernel_state T idle s H Q hs ss" and O: "boxes_ok H B s" and x: "x \<in> B" and n: "new_box x pool n f s"
  shows "mail_kept T idle B s (perform_mail cb (Mb_Init x pool n f) s)"
    and "interrupt_nest s = 0 \<Longrightarrow> mail_kept T idle B s (perform_mail cb (Mb_Create x pool n f) s)"
proof -
  note o = open_box [OF K O x n]
  show "mail_kept T idle B s (perform_mail cb (Mb_Init x pool n f) s)"
    by (rule mail_keptI [OF _ o(2-4)]) (simp add: rt_mb_init_def o(1))
  show "mail_kept T idle B s (perform_mail cb (Mb_Create x pool n f) s)" if "interrupt_nest s = 0"
    by (rule mail_keptI [OF _ o(2-4)]) (use that in \<open>simp add: rt_mb_create_def debug_not_in_interrupt_def o(1)\<close>)
qed

lemma mail_send_keeps:
  assumes K: "kernel_state T idle s H Q hs ss" and O: "boxes_ok H B s" and x: "x \<in> B"
    and b: "time \<noteq> 0 \<longrightarrow> may_block idle time s"
  shows "mail_kept T idle B s (perform_mail cb (Mb_Send x v time) s)"
proof -
  obtain r s' where r: "rt_mb_send_wait x v time s = returns (r, s')" "mail_inv T idle B s'" "sent_as x v r s s'"
    using rt_mb_send_wait_ok [OF K O x, of time v] b unfolding mail_done_def by blast
  then show ?thesis using sent_as_step [OF box_okD(5) [OF O x] r(3)] by (simp add: mail_kept_def)
qed

lemma mail_recv_keeps:
  assumes K: "kernel_state T idle s H Q hs ss" and O: "boxes_ok H B s" and x: "x \<in> B"
    and b: "time \<noteq> 0 \<longrightarrow> may_block idle time s"
  shows "mail_kept T idle B s (perform_mail cb (Mb_Recv x time) s)"
proof -
  obtain r s' where r: "rt_mb_recv x time s = returns (r, s')" "mail_inv T idle B s'" "received_as x r s s'"
    using rt_mb_recv_ok [OF K O x, of time] b unfolding mail_done_def by blast
  then show ?thesis using received_as_step [OF box_okD(5) [OF O x] r(3)] by (simp add: mail_kept_def got_mail_def)
qed

lemma mail_send_woken_keeps:
  assumes K: "kernel_state T idle s H Q hs ss" and O: "boxes_ok H B s" and x: "x \<in> B"
    and b: "time_left time begun s \<noteq> 0 \<longrightarrow> may_block idle (time_left time begun s) s"
  shows "mail_kept T idle B s (perform_mail cb (Mb_Send_Woken x v time begun) s)"
proof -
  obtain t where t: "current_thread s = Some t" by (rule runner [OF K])
  show ?thesis
  proof (cases "th_error (thread_of s t) = RT_EOK")
    case False
    then show ?thesis using t K O by (auto simp: mb_send_woken_def intro!: mail_keptI)
  next
    case True
    let ?time = "time_left time begun s"
    obtain r s' where r: "mb_send_loop x v t ?time s = returns (r, s')" "mail_inv T idle B s'" "sent_as x v r s s'"
      using mb_send_loop_ok [OF K O x t, of ?time v] b unfolding mail_done_def by blast
    moreover have "queue_steps (if r = Back RT_EOK then [Sent x v] else []) (box_view s) = Some (box_view s')"
      using sent_as_step [OF box_okD(5) [OF O x] r(3)] box_view_same [of s' s] r(3)
      by (cases "r = Back RT_EOK") (simp_all add: sent_as_def)
    ultimately show ?thesis using t True by (simp add: mail_kept_def mb_send_woken_def)
  qed
qed

lemma mail_recv_woken_keeps:
  assumes K: "kernel_state T idle s H Q hs ss" and O: "boxes_ok H B s" and x: "x \<in> B"
    and b: "time_left time begun s \<noteq> 0 \<longrightarrow> may_block idle (time_left time begun s) s"
  shows "mail_kept T idle B s (perform_mail cb (Mb_Recv_Woken x time begun) s)"
proof -
  obtain t where t: "current_thread s = Some t" by (rule runner [OF K])
  show ?thesis
  proof (cases "th_error (thread_of s t) = RT_EOK")
    case False
    then show ?thesis using t K O by (auto simp: mb_recv_woken_def intro!: mail_keptI)
  next
    case True
    let ?time = "time_left time begun s"
    obtain r s' where r: "mb_recv_loop x t ?time s = returns (r, s')" "mail_inv T idle B s'" "received_as x r s s'"
      using mb_recv_loop_ok [OF K O x t, of ?time] b unfolding mail_done_def by blast
    moreover have "queue_steps (case r of Back (e, Some v) \<Rightarrow> [Got x v] | _ \<Rightarrow> []) (box_view s) = Some (box_view s')"
      using received_as_step [OF box_okD(5) [OF O x] r(3)] box_view_same [of s' s] r(3)
      by (cases r) (auto simp: received_as_def split: option.splits prod.splits)
    ultimately show ?thesis using t True by (simp add: mail_kept_def mb_recv_woken_def)
  qed
qed

lemma mb_resume_all_ok:
  assumes K: "kernel_state T idle s H Q hs ss" and O: "boxes_ok H B s" and x: "x \<in> B"
  obtains s' Q' hs' where "mb_resume_all x s = returns s'" and "kernel_state T idle s' H Q' hs' ss"
    and "boxes_ok H B s'" and "mailbox_of s' = mailbox_of s"
    and "\<And>h. h = x \<or> h = suspend_sender_thread (mailbox_of s x) \<Longrightarrow> Q' h = []"
proof -
  note X = box_okD [OF O x]
  let ?y = "suspend_sender_thread (mailbox_of s x)"
  obtain s1 Q1 hs1 where s1: "rt_ipc_list_resume_all x s = returns s1" "kernel_state T idle s1 H Q1 hs1 ss" "Q1 x = []"
    "kernel.more s1 = kernel.more s" by (rule resume_all_state [OF K X(1,2)]) (rule that)
  obtain s' Q' hs' where s': "rt_ipc_list_resume_all ?y s1 = returns s'" "kernel_state T idle s' H Q' hs' ss" "Q' ?y = []"
    "\<And>h. h \<in> H \<Longrightarrow> rt_thread_defunct < h \<Longrightarrow> h \<noteq> ?y \<Longrightarrow> Q' h = Q1 h" "kernel.more s' = kernel.more s1"
    by (rule resume_all_state [OF s1(2) X(3,4)]) (rule that)
  have m: "mailbox_of s1 = mailbox_of s" "mailbox_of s' = mailbox_of s"
    using mailbox_of_more [OF s1(4)] mailbox_of_more [OF s'(5)] by simp_all
  have "Q' x = []" using s'(3) s'(4) [OF X(1,2)] s1(3) by (cases "x = ?y") simp_all
  then show ?thesis
    using that [of s' Q' hs'] s1(1) s'(1-3) m boxes_ok_same [OF O m(2)] by (auto simp: mb_resume_all_def)
qed

lemma mail_detach_keeps:
  assumes K: "kernel_state T idle s H Q hs ss" and O: "boxes_ok H B s" and x: "x \<in> B"
  shows "mb_static (mailbox_of s x) \<Longrightarrow> mail_kept T idle B s (perform_mail cb (Mb_Detach x) s)"
    and "\<not> mb_static (mailbox_of s x) \<Longrightarrow> interrupt_nest s = 0 \<Longrightarrow> mail_kept T idle B s (perform_mail cb (Mb_Delete x) s)"
proof -
  obtain s' Q' hs' where s': "mb_resume_all x s = returns s'" "kernel_state T idle s' H Q' hs' ss"
    "boxes_ok H B s'" "mailbox_of s' = mailbox_of s" by (rule mb_resume_all_ok [OF K O x]) (rule that)
  have q: "queue_steps [] (box_view s) = Some (box_view s')" using box_view_same [OF s'(4)] by simp
  show "mail_kept T idle B s (perform_mail cb (Mb_Detach x) s)" if "mb_static (mailbox_of s x)"
    by (rule mail_keptI [OF _ s'(2,3) q]) (use that s'(1) in \<open>simp add: rt_mb_detach_def\<close>)
  show "mail_kept T idle B s (perform_mail cb (Mb_Delete x) s)"
    if "\<not> mb_static (mailbox_of s x)" "interrupt_nest s = 0"
    by (rule mail_keptI [OF _ s'(2,3) q]) (use that s'(1) in \<open>simp add: rt_mb_delete_def debug_not_in_interrupt_def\<close>)
qed

lemma mail_control_keeps:
  assumes K: "kernel_state T idle s H Q hs ss" and O: "boxes_ok H B s" and x: "x \<in> B"
  shows "mail_kept T idle B s (perform_mail cb (Mb_Control x cmd) s)"
proof (cases "cmd = RT_IPC_CMD_RESET")
  case True
  obtain s1 Q1 hs1 where s1: "mb_resume_all x s = returns s1" "kernel_state T idle s1 H Q1 hs1 ss"
    "boxes_ok H B s1" "mailbox_of s1 = mailbox_of s" by (rule mb_resume_all_ok [OF K O x]) (rule that)
  note X = box_okD [OF s1(3) x]
  let ?m = "(mailbox_of s x)\<lparr>mb_entry := 0, in_offset := 0, out_offset := 0\<rparr>"
  let ?s = "set_mailbox x ?m s1"
  note S = settle_state [OF set_mailbox_state [OF s1(2)], of x ?m]
  have m: "mailbox_of (settle Q1 ?s) = (mailbox_of s)(x := ?m)"
    using mailbox_of_more [of "settle Q1 ?s" ?s] s1(4) by simp
  have "boxes_ok H B (settle Q1 ?s)"
    by (rule boxes_okI [OF O m]) (use X s1(4) in \<open>simp add: box_ok_def mb_ok_def\<close>)
  moreover have "queue_steps [Cleared x] (box_view s) = Some (box_view (settle Q1 ?s))"
    by (simp add: box_view_upd [OF m]) (simp add: box_view_def mb_contents_def)
  ultimately show ?thesis
    using True s1(1,4) S by (intro mail_keptI [where s' = "settle Q1 ?s" and l = "[Cleared x]"]) (auto simp: rt_mb_control_def)
qed (use K O in \<open>auto simp: rt_mb_control_def intro!: mail_keptI\<close>)

lemma mail_thread_keeps:
  assumes K: "kernel_state T idle s H Q hs ss" and O: "boxes_ok H B s"
    and cb: "thread_timeouts T cb" and a: "allowed T idle s c"
  shows "mail_kept T idle B s (perform_mail cb (On_Thread c) s)"
proof -
  obtain s' Q' hs' ss' where s': "perform cb c s = returns s'" "kernel_state T idle s' H Q' hs' ss'"
    "kernel.more s' = kernel.more s" using perform_step [OF K cb a] unfolding kernel_step_def by blast
  note m = mailbox_of_more [OF s'(3)]
  show ?thesis
    by (rule mail_keptI [OF _ s'(2) boxes_ok_same [OF O m]]) (simp add: s'(1), simp add: box_view_same [OF m])
qed

lemma perform_mail_keeps:
  assumes "mail_inv T idle B s" and cb: "thread_timeouts T cb" and a: "allowed_mail T idle B s c"
  shows "mail_kept T idle B s (perform_mail cb c s)"
proof -
  obtain H Q hs ss where K: "kernel_state T idle s H Q hs ss" and O: "boxes_ok H B s"
    using assms(1) unfolding mail_inv_def by blast
  note laws = mail_thread_keeps [OF K O cb] mail_init_keeps [OF K O] mail_send_keeps [OF K O] mail_send_woken_keeps [OF K O]
    mail_recv_keeps [OF K O] mail_recv_woken_keeps [OF K O] mail_control_keeps [OF K O] mail_detach_keeps [OF K O]
  show ?thesis
    using a by (cases c) (auto simp only: allowed_mail_def mail_call.case intro!: laws)
qed

text \<open>The runs, with the log of what happened to the mailboxes.\<close>

inductive mail_run ::
  "(nat \<Rightarrow> 'a mail_sys_scheme \<Rightarrow> 'a mail_sys_scheme run) \<Rightarrow> nat set \<Rightarrow> nat \<Rightarrow> nat set \<Rightarrow> 'a mail_sys_scheme \<Rightarrow>
   mail_event list \<Rightarrow> 'a mail_sys_scheme \<Rightarrow> bool"
  for cb T idle B s0 where
  start: "mail_run cb T idle B s0 [] s0"
| step: "mail_run cb T idle B s0 l s \<Longrightarrow> allowed_mail T idle B s c \<Longrightarrow> perform_mail cb c s = returns (e, s') \<Longrightarrow>
    mail_run cb T idle B s0 (l @ e) s'"

lemma mail_run_ok:
  assumes "mail_run cb T idle B s0 l s" and "mail_inv T idle B s0" and "thread_timeouts T cb"
  shows "mail_inv T idle B s \<and> queue_steps l (box_view s0) = Some (box_view s)"
  using assms(1)
proof (induction rule: mail_run.induct)
  case (step l s c e s')
  have "mail_kept T idle B s (perform_mail cb c s)"
    by (rule perform_mail_keeps [OF conjunct1 [OF step.IH] assms(3) step.hyps(2)])
  then show ?case using step.IH step.hyps(3) by (auto simp: mail_kept_def queue_steps_append)
qed (use assms(2) in simp)

subsection \<open>What the queues say\<close>

text \<open>The mails that went into mailbox \<open>x\<close> and those that came out of it.\<close>

fun mails_sent :: "nat \<Rightarrow> mail_event list \<Rightarrow> u32 list" where
  "mails_sent x [] = []"
| "mails_sent x (Sent y v # l) = (if y = x then [v] else []) @ mails_sent x l"
| "mails_sent x (e # l) = mails_sent x l"

fun mails_got :: "nat \<Rightarrow> mail_event list \<Rightarrow> u32 list" where
  "mails_got x [] = []"
| "mails_got x (Got y v # l) = (if y = x then [v] else []) @ mails_got x l"
| "mails_got x (e # l) = mails_got x l"

text \<open>Neither opened nor reset.\<close>

definition undisturbed :: "nat \<Rightarrow> mail_event list \<Rightarrow> bool" where
  "undisturbed x l \<longleftrightarrow> (\<forall>e \<in> set l. (\<forall>n. e \<noteq> Opened x n) \<and> e \<noteq> Cleared x)"

lemma queue_steps_conserve:
  "queue_steps l q = Some q' \<Longrightarrow> undisturbed x l \<Longrightarrow> snd (q x) @ mails_sent x l = mails_got x l @ snd (q' x)"
proof (induction l arbitrary: q)
  case (Cons e l)
  obtain q1 where q1: "queue_step e q = Some q1" "queue_steps l q1 = Some q'"
    using Cons.prems(1) by (auto split: option.splits)
  have u: "undisturbed x l" "\<forall>n. e \<noteq> Opened x n" "e \<noteq> Cleared x" using Cons.prems(2) by (auto simp: undisturbed_def)
  note IH = Cons.IH [OF q1(2) u(1)]
  show ?case
    using q1(1) u(2,3) IH
    by (cases e) (auto split: if_splits prod.splits list.splits)
qed simp

lemma queue_steps_size: "queue_steps l q = Some q' \<Longrightarrow> undisturbed x l \<Longrightarrow> fst (q' x) = fst (q x)"
proof (induction l arbitrary: q)
  case (Cons e l)
  obtain q1 where q1: "queue_step e q = Some q1" "queue_steps l q1 = Some q'"
    using Cons.prems(1) by (auto split: option.splits)
  have u: "undisturbed x l" "\<forall>n. e \<noteq> Opened x n" using Cons.prems(2) by (auto simp: undisturbed_def)
  have "fst (q1 x) = fst (q x)"
    using q1(1) u(2) by (cases e) (auto split: if_splits prod.splits list.splits)
  then show ?case using Cons.IH [OF q1(2) u(1)] by simp
qed simp

end
