(* ===== verification/MsgLaws.thy ===== *)
theory MsgLaws
  imports MsgQueue MailboxLaws
begin

text \<open>
  Message queues: the nodes of the pool are at every moment free, queued, or in the hands of one call, and
  what a call takes out is what a call has put in, however the sections of the calls interleave.
\<close>

subsection \<open>Chains of nodes\<close>

fun chain :: "(nat \<Rightarrow> nat) \<Rightarrow> nat \<Rightarrow> nat list \<Rightarrow> bool" where
  "chain nx a [] \<longleftrightarrow> a = 0"
| "chain nx a (n # ns) \<longleftrightarrow> a = n \<and> n \<noteq> 0 \<and> chain nx (nx n) ns"

lemma chain_upd [simp]: "n \<notin> set ns \<Longrightarrow> chain (nx(n := k)) a ns = chain nx a ns"
  by (induction ns arbitrary: a) auto

lemma chain_first: "chain nx a ns \<Longrightarrow> a \<noteq> 0 \<Longrightarrow> \<exists>ms. ns = a # ms \<and> chain nx (nx a) ms"
  by (cases ns) auto

lemma chain_end: "chain nx a ns \<Longrightarrow> a = 0 \<longleftrightarrow> ns = []"
  by (cases ns) auto

lemma chain_snoc:
  assumes "chain nx a ns" and "distinct (ns @ [n])" and "n \<noteq> 0" and "nx n = 0"
  shows "chain (if ns = [] then nx else nx(last ns := n)) (if ns = [] then n else a) (ns @ [n])"
  using assms
proof (induction ns arbitrary: a)
  case (Cons k ns)
  show ?case
  proof (cases "ns = []")
    case False
    have "last ns \<in> set ns" using False by simp
    then have "last ns \<noteq> k" using Cons.prems(2) by auto
    then show ?thesis using Cons.IH [of "nx k"] Cons.prems False by simp
  qed (use Cons.prems in auto)
qed simp

subsection \<open>What a queue stands for\<close>

text \<open>
  The messages with their nodes, in order; the nodes that senders hold, with what they have written, if they
  have, and whether it is to be the last message; the nodes that receivers hold.
\<close>

record msg_view =
  mv_count :: nat
  mv_queue :: "(nat \<times> u8 list) list"
  mv_writing :: "(nat \<times> (bool \<times> u8 list) option) list"
  mv_reading :: "(nat \<times> u8 list) list"

definition in_use :: "msg_view \<Rightarrow> nat list" where
  "in_use v = map fst (mv_queue v) @ map fst (mv_writing v) @ map fst (mv_reading v)"

datatype msg_event =
    Pool_Of nat | Took nat | Wrote nat bool "u8 list" | Posted nat | Posted_First nat | Unlinked nat | Read nat "u8 list"
  | Reset

text \<open>The bytes that were received agree with those that were sent as far as there are both.\<close>

definition agree :: "u8 list \<Rightarrow> u8 list \<Rightarrow> bool" where
  "agree b r \<longleftrightarrow> take (length r) b = take (length b) r"

definition drop_node :: "nat \<Rightarrow> (nat \<times> 'b) list \<Rightarrow> (nat \<times> 'b) list" where
  "drop_node n l = filter (\<lambda>p. fst p \<noteq> n) l"

fun msg_step :: "msg_event \<Rightarrow> msg_view \<Rightarrow> msg_view option" where
  "msg_step (Pool_Of c) v = Some \<lparr>mv_count = c, mv_queue = [], mv_writing = [], mv_reading = []\<rparr>"
| "msg_step (Took n) v =
     (if n \<notin> set (in_use v) \<and> length (in_use v) < mv_count v then Some (v\<lparr>mv_writing := (n, None) # mv_writing v\<rparr>) else None)"
| "msg_step (Wrote n z b) v =
     (if n \<in> fst ` set (mv_writing v) then Some (v\<lparr>mv_writing := (n, Some (z, b)) # drop_node n (mv_writing v)\<rparr>) else None)"
| "msg_step (Posted n) v =
     (case map_of (mv_writing v) n of
        Some (Some (True, b)) \<Rightarrow> Some (v\<lparr>mv_queue := mv_queue v @ [(n, b)], mv_writing := drop_node n (mv_writing v)\<rparr>)
      | _ \<Rightarrow> None)"
| "msg_step (Posted_First n) v =
     (case map_of (mv_writing v) n of
        Some (Some (z, b)) \<Rightarrow> Some (v\<lparr>mv_queue := (n, b) # mv_queue v, mv_writing := drop_node n (mv_writing v)\<rparr>)
      | _ \<Rightarrow> None)"
| "msg_step (Unlinked n) v =
     (case mv_queue v of
        [] \<Rightarrow> None
      | (k, b) # q \<Rightarrow> if k = n then Some (v\<lparr>mv_queue := q, mv_reading := (n, b) # mv_reading v\<rparr>) else None)"
| "msg_step (Read n r) v =
     (case map_of (mv_reading v) n of
        None \<Rightarrow> None
      | Some b \<Rightarrow> if agree b r then Some (v\<lparr>mv_reading := drop_node n (mv_reading v)\<rparr>) else None)"
| "msg_step Reset v = Some (v\<lparr>mv_queue := []\<rparr>)"

subsection \<open>The representation\<close>

definition nodes :: "rt_messagequeue \<Rightarrow> nat set" where
  "nodes m = message_at m ` {..<unat (mq_max_msgs m)}"

definition holds :: "rt_messagequeue \<Rightarrow> nat \<Rightarrow> u8 list \<Rightarrow> bool" where
  "holds m n b \<longleftrightarrow> length b \<le> unat (mq_msg_size m) \<and> take (length b) (mq_data m n) = b"

definition mq_rep :: "rt_messagequeue \<Rightarrow> msg_view \<Rightarrow> nat list \<Rightarrow> bool" where
  "mq_rep m v fs \<longleftrightarrow>
     0 < mq_pool m \<and> chain (mq_next m) (mq_free m) fs \<and> chain (mq_next m) (mq_head m) (map fst (mv_queue v)) \<and>
     mq_tail m = (if mv_queue v = [] then 0 else fst (last (mv_queue v))) \<and>
     unat (mq_entry m) = length (mv_queue v) \<and> distinct (fs @ in_use v) \<and> set (fs @ in_use v) = nodes m \<and>
     mv_count v = unat (mq_max_msgs m) \<and> (\<forall>n \<in> nodes m. length (mq_data m n) = unat (mq_msg_size m)) \<and>
     (\<forall>(n, b) \<in> set (mv_queue v) \<union> set (mv_reading v). holds m n b) \<and>
     (\<forall>(n, w) \<in> set (mv_writing v). case w of None \<Rightarrow> True | Some (z, b) \<Rightarrow> holds m n b \<and> (z \<longrightarrow> mq_next m n = 0))"

lemma mq_repD:
  assumes "mq_rep m v fs"
  shows "0 < mq_pool m" "chain (mq_next m) (mq_free m) fs" "chain (mq_next m) (mq_head m) (map fst (mv_queue v))"
    "mq_tail m = (if mv_queue v = [] then 0 else fst (last (mv_queue v)))"
    "unat (mq_entry m) = length (mv_queue v)" "distinct (fs @ in_use v)" "set (fs @ in_use v) = nodes m"
    "mv_count v = unat (mq_max_msgs m)" "\<And>n. n \<in> nodes m \<Longrightarrow> length (mq_data m n) = unat (mq_msg_size m)"
    "\<And>n b. (n, b) \<in> set (mv_queue v) \<or> (n, b) \<in> set (mv_reading v) \<Longrightarrow> holds m n b"
    "\<And>n z b. (n, Some (z, b)) \<in> set (mv_writing v) \<Longrightarrow> holds m n b \<and> (z \<longrightarrow> mq_next m n = 0)"
  using assms unfolding mq_rep_def by fastforce+

lemma mq_repI:
  assumes "0 < mq_pool m" "chain (mq_next m) (mq_free m) fs" "chain (mq_next m) (mq_head m) (map fst (mv_queue v))"
    "mq_tail m = (if mv_queue v = [] then 0 else fst (last (mv_queue v)))" "unat (mq_entry m) = length (mv_queue v)"
    "distinct (fs @ in_use v)" "set (fs @ in_use v) = nodes m" "mv_count v = unat (mq_max_msgs m)"
    "\<And>n. n \<in> nodes m \<Longrightarrow> length (mq_data m n) = unat (mq_msg_size m)"
    "\<And>n b. (n, b) \<in> set (mv_queue v) \<or> (n, b) \<in> set (mv_reading v) \<Longrightarrow> holds m n b"
    "\<And>n z b. (n, Some (z, b)) \<in> set (mv_writing v) \<Longrightarrow> holds m n b \<and> (z \<longrightarrow> mq_next m n = 0)"
  shows "mq_rep m v fs"
  unfolding mq_rep_def using assms(1-8) by (auto intro: assms(9,10) dest: assms(11) split: option.split)

lemma message_at_inj: "inj_on (message_at m) A"
  by (auto simp: inj_on_def message_at_def)

lemma card_nodes: "card (nodes m) = unat (mq_max_msgs m)"
  by (simp add: nodes_def card_image message_at_inj)

lemma node_pos: "0 < mq_pool m \<Longrightarrow> n \<in> nodes m \<Longrightarrow> 0 < n"
  by (auto simp: nodes_def message_at_def)

lemma rep_length:
  assumes "mq_rep m v fs"
  shows "length fs + length (in_use v) = mv_count v"
  using distinct_card [OF mq_repD(6) [OF assms]] mq_repD(7,8) [OF assms] card_nodes [of m] by simp

text \<open>The nodes of a pool stay inside it and do not overlap.\<close>

lemma nodes_apart:
  assumes "j < k"
  shows "message_at m j + 4 + unat (mq_msg_size m) \<le> message_at m k"
proof -
  have "Suc j \<le> k" using assms by simp
  then have "Suc j * (unat (mq_msg_size m) + 4) \<le> k * (unat (mq_msg_size m) + 4)" by (rule mult_le_mono1)
  then show ?thesis by (simp add: message_at_def)
qed

subsection \<open>The operations on the lists\<close>

lemma drop_node_simps:
  "map fst (drop_node n l) = filter (\<lambda>k. k \<noteq> n) (map fst l)" "set (drop_node n l) = {p \<in> set l. fst p \<noteq> n}"
  by (simp_all add: drop_node_def filter_map comp_def)

lemma in_use_fields:
  "set (in_use v) = fst ` set (mv_queue v) \<union> fst ` set (mv_writing v) \<union> fst ` set (mv_reading v)"
  by (auto simp: in_use_def)

lemma take_free_ok:
  assumes R: "mq_rep m v fs" and ne: "mq_free m \<noteq> 0"
  obtains v' fs' where "msg_step (Took (mq_free m)) v = Some v'" and "mq_rep (snd (take_free m)) v' fs'"
proof -
  note D = mq_repD [OF R]
  obtain gs where gs: "fs = mq_free m # gs" "chain (mq_next m) (mq_next m (mq_free m)) gs"
    using chain_first [OF D(2) ne] by blast
  let ?v = "v\<lparr>mv_writing := (mq_free m, None) # mv_writing v\<rparr>"
  have "length (in_use v) < mv_count v" using rep_length [OF R] gs(1) by simp
  moreover have "mq_free m \<notin> set (in_use v)" using D(6) gs(1) by simp
  ultimately have s: "msg_step (Took (mq_free m)) v = Some ?v" by simp
  have "distinct (gs @ in_use ?v)" "set (gs @ in_use ?v) = set (fs @ in_use v)"
    using D(6) gs(1) by (auto simp: in_use_def)
  then have "mq_rep (snd (take_free m)) ?v gs"
    using R gs(2) by (auto simp: mq_rep_def take_free_def nodes_def message_at_def holds_def)
  then show ?thesis using that s by blast
qed

lemma rep_apart:
  assumes "mq_rep m v fs"
  shows "n \<in> fst ` set (mv_writing v) \<Longrightarrow>
      n \<in> nodes m \<and> 0 < n \<and> n \<notin> set fs \<and> n \<notin> fst ` set (mv_queue v) \<and> n \<notin> fst ` set (mv_reading v)"
    and "n \<in> fst ` set (mv_queue v) \<Longrightarrow>
      n \<in> nodes m \<and> 0 < n \<and> n \<notin> set fs \<and> n \<notin> fst ` set (mv_writing v) \<and> n \<notin> fst ` set (mv_reading v)"
    and "n \<in> fst ` set (mv_reading v) \<Longrightarrow>
      n \<in> nodes m \<and> 0 < n \<and> n \<notin> set fs \<and> n \<notin> fst ` set (mv_queue v) \<and> n \<notin> fst ` set (mv_writing v)"
    and "distinct (map fst (mv_queue v))" "distinct (map fst (mv_writing v))" "distinct (map fst (mv_reading v))"
proof -
  note D = mq_repD [OF assms]
  let ?q = "fst ` set (mv_queue v)" and ?w = "fst ` set (mv_writing v)" and ?r = "fst ` set (mv_reading v)"
  show "distinct (map fst (mv_queue v))" "distinct (map fst (mv_writing v))" "distinct (map fst (mv_reading v))"
    using D(6) by (simp_all add: in_use_def)
  have d: "set fs \<inter> (?q \<union> ?w \<union> ?r) = {}" "?q \<inter> ?w = {}" "?q \<inter> ?r = {}" "?w \<inter> ?r = {}"
    using D(6) by (simp_all add: in_use_def Int_Un_distrib)
  have "?q \<union> ?w \<union> ?r \<subseteq> nodes m" using D(7) by (simp add: in_use_fields) blast
  then have sub: "k \<in> nodes m \<and> 0 < k" if "k \<in> ?q \<union> ?w \<union> ?r" for k using that node_pos [OF D(1)] by blast
  show "n \<in> nodes m \<and> 0 < n \<and> n \<notin> set fs \<and> n \<notin> ?q \<and> n \<notin> ?r" if "n \<in> ?w" using sub [of n] that d by blast
  show "n \<in> nodes m \<and> 0 < n \<and> n \<notin> set fs \<and> n \<notin> ?w \<and> n \<notin> ?r" if "n \<in> ?q" using sub [of n] that d by blast
  show "n \<in> nodes m \<and> 0 < n \<and> n \<notin> set fs \<and> n \<notin> ?q \<and> n \<notin> ?w" if "n \<in> ?r" using sub [of n] that d by blast
qed

lemma write_ok:
  assumes R: "mq_rep m v fs" and n: "n \<in> fst ` set (mv_writing v)" and b: "length b \<le> unat (mq_msg_size m)"
  obtains v' where "msg_step (Wrote n z b) v = Some v'"
    and "mq_rep (if z then write_last n b m else write_message n b m) v' fs"
proof -
  note D = mq_repD [OF R] and A = rep_apart [OF R]
  note N = A(1) [OF n]
  let ?m = "if z then write_last n b m else write_message n b m"
  let ?v = "v\<lparr>mv_writing := (n, Some (z, b)) # drop_node n (mv_writing v)\<rparr>"
  have same: "mq_pool ?m = mq_pool m" "mq_free ?m = mq_free m" "mq_head ?m = mq_head m" "mq_tail ?m = mq_tail m"
    "mq_entry ?m = mq_entry m" "mq_msg_size ?m = mq_msg_size m" "mq_max_msgs ?m = mq_max_msgs m" "nodes ?m = nodes m"
    by (auto simp: write_last_def write_message_def nodes_def message_at_def)
  have data: "mq_data ?m k = (if k = n then write_at 0 b (mq_data m n) else mq_data m k)"
    "k \<noteq> n \<Longrightarrow> mq_next ?m k = mq_next m k" "z \<Longrightarrow> mq_next ?m n = 0" for k
    by (simp_all add: write_last_def write_message_def)
  have h: "holds ?m k c = holds m k c" if "k \<noteq> n" for k c using that by (simp add: holds_def same data(1))
  have hn: "holds ?m n b" using b D(9) [of n] N by (simp add: holds_def same data(1) write_at_def)
  have ch: "chain (mq_next ?m) a ns = chain (mq_next m) a ns" if "n \<notin> set ns" for a ns
    using that by (auto simp: write_last_def write_message_def)
  have "mq_rep ?m ?v fs"
  proof (rule mq_repI)
    show "chain (mq_next ?m) (mq_free ?m) fs" "chain (mq_next ?m) (mq_head ?m) (map fst (mv_queue ?v))"
      using D(2,3) N by (simp_all add: same ch)
    show "distinct (fs @ in_use ?v)" using D(6) N by (auto simp: in_use_def drop_node_simps)
    show "set (fs @ in_use ?v) = nodes ?m" unfolding same using D(7) n by (auto simp: in_use_fields drop_node_simps)
    show "length (mq_data ?m k) = unat (mq_msg_size ?m)" if "k \<in> nodes ?m" for k
      using D(9) [of k] D(9) [of n] N that b by (simp add: same data(1) write_at_def)
    show "holds ?m k c" if "(k, c) \<in> set (mv_queue ?v) \<or> (k, c) \<in> set (mv_reading ?v)" for k c
    proof -
      have "k \<noteq> n" using that N by (auto simp: rev_image_eqI)
      then show ?thesis using D(10) [of k c] that h by simp
    qed
    show "holds ?m k c \<and> (y \<longrightarrow> mq_next ?m k = 0)" if "(k, Some (y, c)) \<in> set (mv_writing ?v)" for k y c
    proof (cases "k = n")
      case True
      then show ?thesis using that hn data(3) by (auto simp: drop_node_simps)
    next
      case False
      then show ?thesis using that D(11) [of k y c] h data(2) by (simp add: drop_node_simps)
    qed
  qed (use D(1,4,5,8) in \<open>simp_all add: same\<close>)
  then show ?thesis using that n by simp
qed

lemma in_use_count:
  assumes "mq_rep m v fs" and "n \<in> fst ` set (mv_writing v)"
  shows "unat (mq_entry m) < unat (mq_max_msgs m)"
proof -
  have "0 < length (mv_writing v)" using assms(2) by auto
  then show ?thesis using rep_length [OF assms(1)] mq_repD(5,8) [OF assms(1)] by (simp add: in_use_def del: length_greater_0_conv)
qed

lemma link_last_ok:
  assumes R: "mq_rep m v fs" and w: "(n, Some (True, b)) \<in> set (mv_writing v)"
  obtains v' where "msg_step (Posted n) v = Some v'" and "mq_rep (link_last n m) v' fs"
proof -
  note D = mq_repD [OF R] and A = rep_apart [OF R]
  have n: "n \<in> fst ` set (mv_writing v)" using w by force
  note N = A(1) [OF n]
  let ?q = "mv_queue v"
  let ?v = "v\<lparr>mv_queue := ?q @ [(n, b)], mv_writing := drop_node n (mv_writing v)\<rparr>"
  let ?nx = "if ?q = [] then mq_next m else (mq_next m)(fst (last ?q) := n)"
  have tail: "mq_tail m \<noteq> 0 \<longleftrightarrow> ?q \<noteq> []" using D(4) A(2) by (auto split: if_splits)
  have head: "mq_head m = 0 \<longleftrightarrow> ?q = []" using chain_end [OF D(3)] by simp
  have m: "link_last n m = m\<lparr>mq_next := ?nx, mq_tail := n, mq_head := (if ?q = [] then n else mq_head m), mq_entry := mq_entry m + 1\<rparr>"
    using tail head D(4) by (simp add: link_last_def Let_def)
  have e: "unat (mq_entry m + 1) = length ?q + 1"
    using unat_step [OF in_use_count [OF R n]] D(5) by simp
  have last: "fst (last ?q) \<in> fst ` set ?q" if "?q \<noteq> []" using that by simp
  have nn: "mq_next m n = 0" using D(11) [OF w] by simp
  have nodes: "nodes (link_last n m) = nodes m" by (simp add: m nodes_def message_at_def)
  have "mq_rep (link_last n m) ?v fs"
  proof (rule mq_repI)
    have "(if map fst ?q = [] then mq_next m else (mq_next m)(last (map fst ?q) := n)) = ?nx" by (simp add: last_map)
    then show "chain (mq_next (link_last n m)) (mq_head (link_last n m)) (map fst (mv_queue ?v))"
      using chain_snoc [OF D(3), of n] A(4) N nn by (simp add: m)
    show "chain (mq_next (link_last n m)) (mq_free (link_last n m)) fs" using last A(2) D(2) by (simp add: m)
    show "distinct (fs @ in_use ?v)" using D(6) N by (auto simp: in_use_def drop_node_simps)
    show "set (fs @ in_use ?v) = nodes (link_last n m)"
      unfolding nodes using D(7) n by (auto simp: in_use_fields drop_node_simps)
    show "holds (link_last n m) k c" if "(k, c) \<in> set (mv_queue ?v) \<or> (k, c) \<in> set (mv_reading ?v)" for k c
      using that D(10) [of k c] D(11) [OF w] by (auto simp: m holds_def)
    show "holds (link_last n m) k c \<and> (z \<longrightarrow> mq_next (link_last n m) k = 0)"
      if k: "(k, Some (z, c)) \<in> set (mv_writing ?v)" for k z c
    proof -
      have "k \<in> fst ` set (mv_writing v)" using k by (auto simp: drop_node_simps rev_image_eqI)
      then have "k \<noteq> fst (last ?q)" if "?q \<noteq> []" using last [OF that] A(2) by metis
      then show ?thesis using k D(11) [of k z c] by (simp add: m holds_def drop_node_simps)
    qed
  qed (use D(1,8,9) e nodes in \<open>simp_all add: m nodes_def\<close>)
  moreover have "map_of (mv_writing v) n = Some (Some (True, b))" using w A(5) by simp
  ultimately show ?thesis using that by simp
qed

lemma link_first_ok:
  assumes R: "mq_rep m v fs" and w: "(n, Some (z, b)) \<in> set (mv_writing v)"
  obtains v' where "msg_step (Posted_First n) v = Some v'" and "mq_rep (link_first n m) v' fs"
proof -
  note D = mq_repD [OF R] and A = rep_apart [OF R]
  have n: "n \<in> fst ` set (mv_writing v)" using w by force
  note N = A(1) [OF n]
  let ?q = "mv_queue v"
  let ?v = "v\<lparr>mv_queue := (n, b) # ?q, mv_writing := drop_node n (mv_writing v)\<rparr>"
  have tail: "mq_tail m = 0 \<longleftrightarrow> ?q = []" using D(4) A(2) by (auto split: if_splits)
  have m: "link_first n m = m\<lparr>mq_next := (mq_next m)(n := mq_head m), mq_head := n,
      mq_tail := (if ?q = [] then n else mq_tail m), mq_entry := mq_entry m + 1\<rparr>"
    using tail by (simp add: link_first_def Let_def)
  have e: "unat (mq_entry m + 1) = length ?q + 1"
    using unat_step [OF in_use_count [OF R n]] D(5) by simp
  have nodes: "nodes (link_first n m) = nodes m" by (simp add: m nodes_def message_at_def)
  have "mq_rep (link_first n m) ?v fs"
  proof (rule mq_repI)
    show "chain (mq_next (link_first n m)) (mq_head (link_first n m)) (map fst (mv_queue ?v))"
      "chain (mq_next (link_first n m)) (mq_free (link_first n m)) fs" using D(2,3) N by (simp_all add: m)
    show "distinct (fs @ in_use ?v)" using D(6) N by (auto simp: in_use_def drop_node_simps)
    show "set (fs @ in_use ?v) = nodes (link_first n m)"
      unfolding nodes using D(7) n by (auto simp: in_use_fields drop_node_simps)
    show "holds (link_first n m) k c" if "(k, c) \<in> set (mv_queue ?v) \<or> (k, c) \<in> set (mv_reading ?v)" for k c
      using that D(10) [of k c] D(11) [OF w] by (auto simp: m holds_def)
    show "holds (link_first n m) k c \<and> (y \<longrightarrow> mq_next (link_first n m) k = 0)"
      if "(k, Some (y, c)) \<in> set (mv_writing ?v)" for k y c
      using that D(11) [of k y c] by (simp add: m holds_def drop_node_simps)
  qed (use D(1,4,8,9) e nodes in \<open>simp_all add: m nodes_def\<close>)
  moreover have "map_of (mv_writing v) n = Some (Some (z, b))" using w A(5) by simp
  ultimately show ?thesis using that by simp
qed

lemma unlink_first_ok:
  assumes R: "mq_rep m v fs" and e: "mq_entry m \<noteq> 0"
  obtains v' where "mq_head m \<noteq> 0" and "msg_step (Unlinked (mq_head m)) v = Some v'"
    and "mq_rep ((unlink_first m)\<lparr>mq_entry := mq_entry m - 1\<rparr>) v' fs"
proof -
  note D = mq_repD [OF R] and A = rep_apart [OF R]
  have "mv_queue v \<noteq> []" using D(5) e by (auto simp: unat_eq_0)
  then obtain n b q where q: "mv_queue v = (n, b) # q" by (metis list.exhaust surj_pair)
  have h: "mq_head m = n" "n \<noteq> 0" "chain (mq_next m) (mq_next m n) (map fst q)" using D(3) q by simp_all
  let ?v = "v\<lparr>mv_queue := q, mv_reading := (n, b) # mv_reading v\<rparr>"
  let ?m = "(unlink_first m)\<lparr>mq_entry := mq_entry m - 1\<rparr>"
  have "unat (mq_entry m - 1) = unat (mq_entry m) - 1" using e by (rule unat_minus_one)
  then have e1: "unat (mq_entry m - 1) = length q" using D(5) q by simp
  have t: "mq_tail m = n \<longleftrightarrow> q = []"
  proof -
    have "fst (last q) \<noteq> n" if "q \<noteq> []" using A(4) q that by (auto simp: rev_image_eqI)
    then show ?thesis using D(4) q by auto
  qed
  have nodes: "nodes ?m = nodes m" by (simp add: unlink_first_def nodes_def message_at_def)
  have "mq_rep ?m ?v fs"
  proof (rule mq_repI)
    show "distinct (fs @ in_use ?v)" "set (fs @ in_use ?v) = nodes ?m"
      unfolding nodes using D(6,7) q by (auto simp: in_use_def)
    show "mq_tail ?m = (if mv_queue ?v = [] then 0 else fst (last (mv_queue ?v)))"
      using t D(4) q h(1) by (simp add: unlink_first_def)
    show "holds ?m k c" if "(k, c) \<in> set (mv_queue ?v) \<or> (k, c) \<in> set (mv_reading ?v)" for k c
      using that D(10) [of k c] q by (auto simp: unlink_first_def holds_def)
    show "holds ?m k c \<and> (y \<longrightarrow> mq_next ?m k = 0)" if "(k, Some (y, c)) \<in> set (mv_writing ?v)" for k y c
      using that D(11) [of k y c] by (simp add: unlink_first_def holds_def)
  qed (use D(1,2,8,9) h e1 nodes in \<open>simp_all add: unlink_first_def nodes_def\<close>)
  then show ?thesis using that h q by simp
qed

lemma message_agrees:
  assumes "holds m n b" and "length (mq_data m n) = unat (mq_msg_size m)"
  shows "agree b (message_bytes m n len)"
proof -
  have b: "length b \<le> length (mq_data m n)" "take (length b) (mq_data m n) = b" using assms by (simp_all add: holds_def)
  have "take (length (take k (mq_data m n))) b = take (length b) (take k (mq_data m n))" for k
  proof -
    have "take (length b) (take k (mq_data m n)) = take k b" using b(2) by (metis take_take min.commute)
    then show ?thesis using b(1) by (simp add: min_def)
  qed
  then show ?thesis by (simp add: agree_def message_bytes_def)
qed

lemma free_message_ok:
  assumes R: "mq_rep m v fs" and n: "n \<in> fst ` set (mv_reading v)"
  obtains v' where "msg_step (Read n (message_bytes m n len)) v = Some v'" and "mq_rep (free_message n m) v' (n # fs)"
proof -
  note D = mq_repD [OF R] and A = rep_apart [OF R]
  note N = A(3) [OF n]
  obtain b where b: "(n, b) \<in> set (mv_reading v)" using n by force
  let ?v = "v\<lparr>mv_reading := drop_node n (mv_reading v)\<rparr>"
  have nodes: "nodes (free_message n m) = nodes m" by (simp add: free_message_def nodes_def message_at_def)
  have "mq_rep (free_message n m) ?v (n # fs)"
  proof (rule mq_repI)
    show "chain (mq_next (free_message n m)) (mq_free (free_message n m)) (n # fs)"
      "chain (mq_next (free_message n m)) (mq_head (free_message n m)) (map fst (mv_queue ?v))"
      using D(2,3) N by (simp_all add: free_message_def)
    show "distinct ((n # fs) @ in_use ?v)" using D(6) N by (auto simp: in_use_def drop_node_simps)
    show "set ((n # fs) @ in_use ?v) = nodes (free_message n m)"
      unfolding nodes using D(7) N by (auto simp: in_use_fields drop_node_simps)
    show "holds (free_message n m) k c" if "(k, c) \<in> set (mv_queue ?v) \<or> (k, c) \<in> set (mv_reading ?v)" for k c
      using that D(10) [of k c] by (auto simp: free_message_def holds_def drop_node_simps)
    show "holds (free_message n m) k c \<and> (y \<longrightarrow> mq_next (free_message n m) k = 0)"
      if k: "(k, Some (y, c)) \<in> set (mv_writing ?v)" for k y c
    proof -
      have "k \<noteq> n" using k N by (auto simp: rev_image_eqI)
      then show ?thesis using k D(11) [of k y c] by (simp add: free_message_def holds_def)
    qed
  qed (use D(1,4,5,8,9) nodes in \<open>simp_all add: free_message_def nodes_def\<close>)
  moreover have "map_of (mv_reading v) n = Some b" using b A(6) by simp
  moreover have "agree b (message_bytes m n len)"
    by (rule message_agrees) (use D(9,10) b N in auto)
  ultimately show ?thesis using that by simp
qed

lemma drain_chain:
  assumes "chain (mq_next m) (mq_head m) ns" and "chain (mq_next m) (mq_free m) fs" and "distinct (fs @ ns)"
    and "mq_tail m = (if ns = [] then 0 else last ns)"
  shows "\<exists>m'. drain m = returns m' \<and> chain (mq_next m') (mq_free m') (rev ns @ fs) \<and>
    m' = m\<lparr>mq_head := 0, mq_tail := 0, mq_free := mq_free m', mq_next := mq_next m'\<rparr> \<and>
    (\<forall>k. k \<notin> set ns \<longrightarrow> mq_next m' k = mq_next m k)"
  using assms
proof (induction ns arbitrary: m fs)
  case Nil
  then show ?case by (subst drain.simps) simp
next
  case (Cons n ns)
  let ?m = "free_message n (unlink_first m)"
  have h: "mq_head m = n" "n \<noteq> 0" using Cons.prems(1) by simp_all
  have "last ns \<noteq> n" if "ns \<noteq> []" using Cons.prems(3) that by auto
  then have t: "mq_tail ?m = (if ns = [] then 0 else last ns)"
    using Cons.prems(4) h by (auto simp: free_message_def unlink_first_def)
  have c: "chain (mq_next ?m) (mq_head ?m) ns" "chain (mq_next ?m) (mq_free ?m) (n # fs)" "distinct ((n # fs) @ ns)"
    using Cons.prems(1-3) by (auto simp: free_message_def unlink_first_def)
  obtain m' where m': "drain ?m = returns m'" "chain (mq_next m') (mq_free m') (rev ns @ n # fs)"
    "m' = ?m\<lparr>mq_head := 0, mq_tail := 0, mq_free := mq_free m', mq_next := mq_next m'\<rparr>"
    "\<And>k. k \<notin> set ns \<Longrightarrow> mq_next m' k = mq_next ?m k"
    using Cons.IH [OF c t] by blast
  have "drain m = returns m'" using m'(1) h by (subst drain.simps) simp
  moreover have "m' = m\<lparr>mq_head := 0, mq_tail := 0, mq_free := mq_free m', mq_next := mq_next m'\<rparr>"
    using m'(3) by (simp add: free_message_def unlink_first_def)
  moreover have "mq_next m' k = mq_next m k" if "k \<notin> set (n # ns)" for k
    using m'(4) [of k] that by (simp add: free_message_def unlink_first_def)
  ultimately show ?case using m'(2) by auto
qed

lemma drain_ok:
  assumes R: "mq_rep m v fs"
  obtains m' v' fs' where "drain m = returns m'" and "msg_step Reset v = Some v'" and "mq_rep (m'\<lparr>mq_entry := 0\<rparr>) v' fs'"
    and "mq_senders m' = mq_senders m" and "mq_flag m' = mq_flag m" and "mq_static m' = mq_static m"
proof -
  note D = mq_repD [OF R] and A = rep_apart [OF R]
  let ?ns = "map fst (mv_queue v)" and ?v = "v\<lparr>mv_queue := []\<rparr>"
  have "distinct (fs @ ?ns)" using D(6) by (auto simp: in_use_def)
  moreover have "mq_tail m = (if ?ns = [] then 0 else last ?ns)" using D(4) by (simp add: last_map)
  ultimately obtain m' where m': "drain m = returns m'" "chain (mq_next m') (mq_free m') (rev ?ns @ fs)"
    "m' = m\<lparr>mq_head := 0, mq_tail := 0, mq_free := mq_free m', mq_next := mq_next m'\<rparr>"
    "\<forall>k. k \<notin> set ?ns \<longrightarrow> mq_next m' k = mq_next m k"
    using drain_chain [OF D(3,2)] by blast
  have f: "mq_pool m' = mq_pool m" "mq_msg_size m' = mq_msg_size m" "mq_max_msgs m' = mq_max_msgs m" "mq_data m' = mq_data m"
    "mq_head m' = 0" "mq_tail m' = 0" "mq_senders m' = mq_senders m" "mq_flag m' = mq_flag m" "mq_static m' = mq_static m"
    by (subst m'(3), simp)+
  have nodes: "nodes (m'\<lparr>mq_entry := 0\<rparr>) = nodes m" by (simp add: nodes_def message_at_def f)
  have "mq_rep (m'\<lparr>mq_entry := 0\<rparr>) ?v (rev ?ns @ fs)"
  proof (rule mq_repI)
    show "distinct ((rev ?ns @ fs) @ in_use ?v)" "set ((rev ?ns @ fs) @ in_use ?v) = nodes (m'\<lparr>mq_entry := 0\<rparr>)"
      unfolding nodes using D(6,7) by (auto simp: in_use_def)
    show "holds (m'\<lparr>mq_entry := 0\<rparr>) k c" if "(k, c) \<in> set (mv_queue ?v) \<or> (k, c) \<in> set (mv_reading ?v)" for k c
      using that D(10) [of k c] by (simp add: holds_def f)
    show "holds (m'\<lparr>mq_entry := 0\<rparr>) k c \<and> (y \<longrightarrow> mq_next (m'\<lparr>mq_entry := 0\<rparr>) k = 0)"
      if k: "(k, Some (y, c)) \<in> set (mv_writing ?v)" for k y c
    proof -
      have "k \<in> fst ` set (mv_writing v)" using k by (simp add: rev_image_eqI)
      then have "k \<notin> set ?ns" using A(1) by simp
      then show ?thesis using k D(11) [of k y c] m'(4) by (simp add: holds_def f)
    qed
    show "length (mq_data (m'\<lparr>mq_entry := 0\<rparr>) k) = unat (mq_msg_size (m'\<lparr>mq_entry := 0\<rparr>))"
      if "k \<in> nodes (m'\<lparr>mq_entry := 0\<rparr>)" for k using that D(9) nodes by (simp add: f)
  qed (use D(1,8) m'(2) in \<open>simp_all add: f\<close>)
  then show ?thesis using that m'(1) f(7-9) by simp
qed

lemma free_fold:
  assumes "distinct ks" and "0 < mq_pool m" and "chain (mq_next m) (mq_free m) fs" and "set fs \<inter> message_at m ` set ks = {}"
  shows "\<exists>nx a. fold (\<lambda>k m. free_message (message_at m k) m) ks m = m\<lparr>mq_next := nx, mq_free := a\<rparr> \<and>
    chain nx a (rev (map (message_at m) ks) @ fs)"
  using assms
proof (induction ks arbitrary: m fs)
  case Nil
  then show ?case by (intro exI [of _ "mq_next m"] exI [of _ "mq_free m"]) simp
next
  case (Cons k ks)
  let ?n = "message_at m k"
  let ?m = "free_message ?n m"
  have at: "message_at ?m = message_at m" by (simp add: free_message_def message_at_def fun_eq_iff)
  have "?n \<notin> message_at m ` set ks" using Cons.prems(1) message_at_inj [of m UNIV] by (auto dest: injD)
  then have "set (?n # fs) \<inter> message_at ?m ` set ks = {}" using Cons.prems(4) at by auto
  moreover have "chain (mq_next ?m) (mq_free ?m) (?n # fs)"
    using Cons.prems(2-4) by (auto simp: free_message_def message_at_def)
  moreover have "0 < mq_pool ?m" using Cons.prems(2) by (simp add: free_message_def)
  ultimately obtain nx a where
    "fold (\<lambda>k m. free_message (message_at m k) m) ks ?m = ?m\<lparr>mq_next := nx, mq_free := a\<rparr>"
    "chain nx a (rev (map (message_at m) ks) @ ?n # fs)"
    using Cons.IH [of ?m "?n # fs"] Cons.prems(1) at by auto
  then show ?case by (intro exI [of _ nx] exI [of _ a]) (simp add: free_message_def)
qed

lemma free_all_fields:
  "mq_pool (free_all m) = mq_pool m \<and> mq_msg_size (free_all m) = mq_msg_size m \<and> mq_max_msgs (free_all m) = mq_max_msgs m"
proof -
  have "mq_pool (fold (\<lambda>k m. free_message (message_at m k) m) ks m) = mq_pool m \<and>
      mq_msg_size (fold (\<lambda>k m. free_message (message_at m k) m) ks m) = mq_msg_size m \<and>
      mq_max_msgs (fold (\<lambda>k m. free_message (message_at m k) m) ks m) = mq_max_msgs m" for ks
    by (induction ks arbitrary: m) (simp_all add: free_message_def)
  then show ?thesis by (simp add: free_all_def)
qed

lemma new_mq_fields:
  "mq_pool (new_mq st pool links blocks n count f y) = pool" "mq_msg_size (new_mq st pool links blocks n count f y) = n"
  "mq_max_msgs (new_mq st pool links blocks n count f y) = count"
  by (simp_all add: new_mq_def free_all_fields)

lemma new_mq_ok:
  assumes "0 < pool" and "\<forall>k. length (blocks (pool + k * (unat n + 4))) = unat n"
  obtains fs v where "msg_step (Pool_Of (unat count)) w = Some v" and "mq_rep (new_mq st pool links blocks n count f y) v fs"
    and "mq_flag (new_mq st pool links blocks n count f y) = f" and "mq_senders (new_mq st pool links blocks n count f y) = y"
    and "mq_static (new_mq st pool links blocks n count f y) = st"
proof -
  let ?m0 = "\<lparr>mq_flag = f, mq_static = st, mq_pool = pool, mq_next = links, mq_data = blocks, mq_msg_size = n,
       mq_max_msgs = count, mq_entry = 0, mq_head = 0, mq_tail = 0, mq_free = 0, mq_senders = y\<rparr>"
  let ?ks = "[0..<unat count]"
  obtain nx a where m: "new_mq st pool links blocks n count f y = ?m0\<lparr>mq_next := nx, mq_free := a\<rparr>"
    "chain nx a (rev (map (message_at ?m0) ?ks))"
    using free_fold [of ?ks ?m0 "[]"] assms(1) by (auto simp: new_mq_def free_all_def)
  let ?v = "\<lparr>mv_count = unat count, mv_queue = [], mv_writing = [], mv_reading = []\<rparr>"
  have "mq_rep (?m0\<lparr>mq_next := nx, mq_free := a\<rparr>) ?v (rev (map (message_at ?m0) ?ks))"
  proof (rule mq_repI)
    show "distinct (rev (map (message_at ?m0) ?ks) @ in_use ?v)"
      by (simp add: in_use_def distinct_map message_at_inj)
    show "set (rev (map (message_at ?m0) ?ks) @ in_use ?v) = nodes (?m0\<lparr>mq_next := nx, mq_free := a\<rparr>)"
      by (simp add: in_use_def nodes_def message_at_def atLeast0LessThan)
    show "length (mq_data (?m0\<lparr>mq_next := nx, mq_free := a\<rparr>) k) = unat (mq_msg_size (?m0\<lparr>mq_next := nx, mq_free := a\<rparr>))"
      if "k \<in> nodes (?m0\<lparr>mq_next := nx, mq_free := a\<rparr>)" for k
      using that assms(2) by (auto simp: nodes_def message_at_def)
  qed (use assms(1) m(2) in simp_all)
  then show ?thesis using that m(1) by simp
qed

end
