(* ===== verification/MsgCalls.thy ===== *)
theory MsgCalls
  imports MsgLaws
begin

text \<open>
  The sections of the calls on message queues in the kernel: each returns, keeps the invariant and is the
  step that its event names. Between two sections of a call any other call may run.
\<close>

subsection \<open>The parts of the state\<close>

lemma mq_of_more: "kernel.more s' = kernel.more s \<Longrightarrow> mq_of s' = mq_of s"
  by (cases s; cases s'; simp)

lemma set_mq_simps [simp]:
  "tlists (set_mq x m s) = tlists s" "thread_of (set_mq x m s) = thread_of s"
  "ready_group (set_mq x m s) = ready_group s" "current_thread (set_mq x m s) = current_thread s"
  "lock_nest (set_mq x m s) = lock_nest s" "interrupt_nest (set_mq x m s) = interrupt_nest s"
  "timers.truncate (set_mq x m s) = timers.truncate s" "mq_of (set_mq x m s) = (mq_of s)(x := m)"
  by (simp_all add: set_mq_def timers.truncate_def)

lemma set_mq_state [simp]: "kernel_state T idle s H Q hs ss \<Longrightarrow> kernel_state T idle (set_mq x m s) H Q hs ss"
  by (erule kernel_state_cong; simp)

definition msg_ok :: "nat set \<Rightarrow> nat \<Rightarrow> rt_messagequeue \<Rightarrow> msg_view \<Rightarrow> bool" where
  "msg_ok H x m v \<longleftrightarrow>
     x \<in> H \<and> rt_thread_defunct < x \<and> mq_senders m \<in> H \<and> rt_thread_defunct < mq_senders m \<and>
     wait_flag (mq_flag m) \<and> (\<exists>fs. mq_rep m v fs)"

definition msgs_ok :: "nat set \<Rightarrow> nat set \<Rightarrow> (nat \<Rightarrow> msg_view) \<Rightarrow> 'a mq_sys_scheme \<Rightarrow> bool" where
  "msgs_ok H B g s \<longleftrightarrow> (\<forall>x \<in> B. msg_ok H x (mq_of s x) (g x))"

definition msg_inv :: "nat set \<Rightarrow> nat \<Rightarrow> nat set \<Rightarrow> (nat \<Rightarrow> msg_view) \<Rightarrow> 'a mq_sys_scheme \<Rightarrow> bool" where
  "msg_inv T idle B g s \<longleftrightarrow> (\<exists>H Q hs ss. kernel_state T idle s H Q hs ss \<and> msgs_ok H B g s)"

lemma msg_okD:
  assumes "msgs_ok H B g s" and "x \<in> B"
  shows "x \<in> H" "rt_thread_defunct < x" "mq_senders (mq_of s x) \<in> H" "rt_thread_defunct < mq_senders (mq_of s x)"
    "wait_flag (mq_flag (mq_of s x))" "\<exists>fs. mq_rep (mq_of s x) (g x) fs"
  using assms by (auto simp: msgs_ok_def msg_ok_def)

lemma msgs_okI:
  assumes "msgs_ok H B g s" and "mq_of s' = (mq_of s)(x := m)" and "x \<in> B \<Longrightarrow> msg_ok H x m v"
  shows "msgs_ok H B (g(x := v)) s'"
  using assms by (auto simp: msgs_ok_def)

lemma msgs_ok_same: "msgs_ok H B g s \<Longrightarrow> mq_of s' = mq_of s \<Longrightarrow> msgs_ok H B g s'"
  by (simp add: msgs_ok_def)

lemma set_error_mq:
  "mq_of (set_error e t s) = mq_of s" "may_block idle time (set_error e t s) = may_block idle time s"
  by (rule mq_of_more; simp) (simp add: may_block_def)

subsection \<open>Events\<close>

fun msg_steps :: "(nat \<times> msg_event) list \<Rightarrow> (nat \<Rightarrow> msg_view) \<Rightarrow> (nat \<Rightarrow> msg_view) option" where
  "msg_steps [] g = Some g"
| "msg_steps ((x, e) # l) g = (case msg_step e (g x) of None \<Rightarrow> None | Some v \<Rightarrow> msg_steps l (g(x := v)))"

lemma msg_steps_append:
  "msg_steps (k @ l) g = (case msg_steps k g of None \<Rightarrow> None | Some g' \<Rightarrow> msg_steps l g')"
  by (induction k g rule: msg_steps.induct) (simp_all add: fun_upd_def split: option.split)

definition msg_kept ::
  "nat set \<Rightarrow> nat \<Rightarrow> nat set \<Rightarrow> (nat \<Rightarrow> msg_view) \<Rightarrow> ((nat \<times> msg_event) list \<times> 'a mq_sys_scheme) run \<Rightarrow> bool"
where
  "msg_kept T idle B g m \<longleftrightarrow> (\<exists>l s' g'. m = returns (l, s') \<and> msg_steps l g = Some g' \<and> msg_inv T idle B g' s')"

lemma msg_kept_one:
  assumes "m = returns ([(x, e)], s')" and "msg_step e (g x) = Some v" and "kernel_state T idle s' H Q hs ss"
    and "msgs_ok H B (g(x := v)) s'"
  shows "msg_kept T idle B g m"
  using assms by (auto simp: msg_kept_def msg_inv_def)

lemma msg_kept_none:
  "m = returns ([], s') \<Longrightarrow> kernel_state T idle s' H Q hs ss \<Longrightarrow> msgs_ok H B g s' \<Longrightarrow> msg_kept T idle B g m"
  by (auto simp: msg_kept_def msg_inv_def)

text \<open>The event of a call that looks for a node.\<close>

definition node_event :: "nat \<Rightarrow> (nat \<Rightarrow> msg_event) \<Rightarrow> (int + nat) outcome \<times> 's \<Rightarrow> ((nat \<times> msg_event) list \<times> 's) run" where
  "node_event x ev r = (case r of (Back (Inr n), s) \<Rightarrow> returns ([(x, ev n)], s) | (_, s) \<Rightarrow> returns ([], s))"

lemma node_event_simps [simp]:
  "node_event x ev (Back (Inr n), s) = returns ([(x, ev n)], s)" "node_event x ev (Back (Inl e), s) = returns ([], s)"
  "node_event x ev (Switched_Out, s) = returns ([], s)"
  by (simp_all add: node_event_def)

subsection \<open>The first sections\<close>

lemma mq_take_kept:
  assumes K: "kernel_state T idle s H Q hs ss" and O: "msgs_ok H B g s" and x: "x \<in> B" and ne: "mq_free (mq_of s x) \<noteq> 0"
  shows "msg_kept T idle B g (andthen (mq_take x s) (node_event x Took))"
proof -
  note X = msg_okD [OF O x]
  obtain fs where R: "mq_rep (mq_of s x) (g x) fs" using X(6) by blast
  obtain v fs' where v: "msg_step (Took (mq_free (mq_of s x))) (g x) = Some v" "mq_rep (snd (take_free (mq_of s x))) v fs'"
    by (rule take_free_ok [OF R ne])
  let ?s = "set_mq x (snd (take_free (mq_of s x))) s"
  show ?thesis
  proof (rule msg_kept_one [where x = x and v = v])
    show "andthen (mq_take x s) (node_event x Took) = returns ([(x, Took (mq_free (mq_of s x)))], ?s)"
      by (simp add: mq_take_def take_free_def)
    show "msgs_ok H B (g(x := v)) ?s"
      by (rule msgs_okI [OF O set_mq_simps(8)]) (use X v(2) in \<open>auto simp: msg_ok_def take_free_def\<close>)
  qed (use v(1) set_mq_state [OF K] in simp_all)
qed

lemma mq_unlink_kept:
  assumes K: "kernel_state T idle s H Q hs ss" and O: "msgs_ok H B g s" and x: "x \<in> B" and ne: "mq_entry (mq_of s x) \<noteq> 0"
  shows "msg_kept T idle B g (andthen (mq_unlink x s) (node_event x Unlinked))"
proof -
  note X = msg_okD [OF O x]
  obtain fs where R: "mq_rep (mq_of s x) (g x) fs" using X(6) by blast
  let ?m = "(unlink_first (mq_of s x))\<lparr>mq_entry := mq_entry (mq_of s x) - 1\<rparr>"
  obtain v where v: "mq_head (mq_of s x) \<noteq> 0" "msg_step (Unlinked (mq_head (mq_of s x))) (g x) = Some v" "mq_rep ?m v fs"
    by (rule unlink_first_ok [OF R ne])
  show ?thesis
  proof (rule msg_kept_one [where x = x and v = v])
    show "andthen (mq_unlink x s) (node_event x Unlinked) = returns ([(x, Unlinked (mq_head (mq_of s x)))], set_mq x ?m s)"
      using v(1) by (simp add: mq_unlink_def Let_def)
    show "msgs_ok H B (g(x := v)) (set_mq x ?m s)"
      by (rule msgs_okI [OF O set_mq_simps(8)]) (use X v(3) in \<open>auto simp: msg_ok_def unlink_first_def\<close>)
  qed (use v(2) set_mq_state [OF K] in simp_all)
qed

lemma mq_send_loop_kept:
  assumes K: "kernel_state T idle s H Q hs ss" and O: "msgs_ok H B g s" and x: "x \<in> B"
    and cur: "current_thread s = Some t" and b: "time \<noteq> 0 \<Longrightarrow> may_block idle time s"
  shows "msg_kept T idle B g (andthen (mq_send_loop x t time s) (node_event x Took))"
proof (cases "mq_free (mq_of s x) = 0")
  case False
  then have "mq_send_loop x t time s = mq_take x s" by (subst mq_send_loop.simps) simp
  then show ?thesis using mq_take_kept [OF K O x False] by simp
next
  case True
  let ?s = "set_error RT_EOK t s"
  have K0: "kernel_state T idle ?s H Q hs ss" by (rule set_error_state [OF K])
  have O0: "msgs_ok H B g ?s" by (rule msgs_ok_same [OF O set_error_mq(1)])
  note X = msg_okD [OF O0 x]
  show ?thesis
  proof (cases "time = 0")
    case t0: True
    have "mq_send_loop x t time s = returns (Back (Inl (- RT_EFULL)), ?s)" using True t0 by (subst mq_send_loop.simps) simp
    then show ?thesis using msg_kept_none [OF _ K0 O0] by simp
  next
    case wait: False
    have w: "current_thread ?s = Some t" "may_block idle time ?s" using cur b [OF wait] by (simp_all add: set_error_mq)
    obtain s' hs' Q' where s': "wait_round (mq_senders (mq_of ?s x)) t (mq_flag (mq_of ?s x)) time ?s = returns s'"
      "current_thread s' \<noteq> Some t" "kernel_state T idle s' H Q' hs' ss" "kernel.more s' = kernel.more ?s"
      by (rule wait_round_ok [OF K0 w X(3,4,5)]) (rule that)
    have "mq_send_loop x t time s = returns (Switched_Out, s')"
      using True wait s'(1,2) by (subst mq_send_loop.simps) (simp add: Let_def mb_wait_thread [OF w])
    then show ?thesis using msg_kept_none [OF _ s'(3) msgs_ok_same [OF O0 mq_of_more [OF s'(4)]]] by simp
  qed
qed

lemma mq_recv_loop_kept:
  assumes K: "kernel_state T idle s H Q hs ss" and O: "msgs_ok H B g s" and x: "x \<in> B"
    and cur: "current_thread s = Some t" and i: "interrupt_nest s = 0" and b: "time \<noteq> 0 \<Longrightarrow> may_block idle time s"
  shows "msg_kept T idle B g (andthen (mq_recv_loop x t time s) (node_event x Unlinked))"
proof (cases "mq_entry (mq_of s x) = 0")
  case False
  then have "mq_recv_loop x t time s = mq_unlink x s" by (subst mq_recv_loop.simps) simp
  then show ?thesis using mq_unlink_kept [OF K O x False] by simp
next
  case True
  let ?s = "set_error RT_EOK t s"
  have K0: "kernel_state T idle ?s H Q hs ss" by (rule set_error_state [OF K])
  have O0: "msgs_ok H B g ?s" by (rule msgs_ok_same [OF O set_error_mq(1)])
  note X = msg_okD [OF O0 x]
  show ?thesis
  proof (cases "time = 0")
    case t0: True
    have "mq_recv_loop x t time s = returns (Back (Inl (- RT_ETIMEOUT)), set_error (- RT_ETIMEOUT) t ?s)"
      using True t0 in_thread(1) [OF cur i] by (subst mq_recv_loop.simps) (simp add: Let_def)
    then show ?thesis using msg_kept_none [OF _ set_error_state [OF K0] msgs_ok_same [OF O0 set_error_mq(1)]] by simp
  next
    case wait: False
    have w: "current_thread ?s = Some t" "may_block idle time ?s" using cur b [OF wait] by (simp_all add: set_error_mq)
    obtain s' hs' Q' where s': "wait_round x t (mq_flag (mq_of ?s x)) time ?s = returns s'"
      "current_thread s' \<noteq> Some t" "kernel_state T idle s' H Q' hs' ss" "kernel.more s' = kernel.more ?s"
      by (rule wait_round_ok [OF K0 w X(1,2,5)]) (rule that)
    have "mq_recv_loop x t time s = returns (Switched_Out, s')"
      using True wait s'(1,2) in_thread(1) [OF cur i] by (subst mq_recv_loop.simps) (simp add: Let_def)
    then show ?thesis using msg_kept_none [OF _ s'(3) msgs_ok_same [OF O0 mq_of_more [OF s'(4)]]] by simp
  qed
qed

lemma mq_send_begin_kept:
  assumes K: "kernel_state T idle s H Q hs ss" and O: "msgs_ok H B g s" and x: "x \<in> B"
    and b: "time \<noteq> 0 \<Longrightarrow> may_block idle time s"
  shows "msg_kept T idle B g (andthen (mq_send_begin x time s) (node_event x Took))"
proof -
  obtain t where t: "current_thread s = Some t" by (rule runner [OF K])
  consider (full) "mq_free (mq_of s x) = 0" "time = 0" | (room) "mq_free (mq_of s x) \<noteq> 0"
    | (waits) "mq_free (mq_of s x) = 0" "time \<noteq> 0" by blast
  then show ?thesis
  proof cases
    case full
    then show ?thesis using msg_kept_none [OF _ K O] by (simp add: mq_send_begin_def)
  next
    case room
    then show ?thesis using mq_take_kept [OF K O x room] by (simp add: mq_send_begin_def)
  next
    case waits
    then show ?thesis using mq_send_loop_kept [OF K O x t b] by (simp add: mq_send_begin_def rt_thread_self_def t)
  qed
qed

lemma mq_recv_begin_kept:
  assumes K: "kernel_state T idle s H Q hs ss" and O: "msgs_ok H B g s" and x: "x \<in> B"
    and b: "time \<noteq> 0 \<Longrightarrow> may_block idle time s"
  shows "msg_kept T idle B g (andthen (mq_recv_begin x time s) (node_event x Unlinked))"
proof -
  obtain t where t: "current_thread s = Some t" by (rule runner [OF K])
  consider (empty) "mq_entry (mq_of s x) = 0" "time = 0" | (some) "mq_entry (mq_of s x) \<noteq> 0"
    | (waits) "mq_entry (mq_of s x) = 0" "time \<noteq> 0" by blast
  then show ?thesis
  proof cases
    case empty
    then show ?thesis using msg_kept_none [OF _ K O] by (simp add: mq_recv_begin_def)
  next
    case some
    then show ?thesis using mq_unlink_kept [OF K O x some] by (simp add: mq_recv_begin_def)
  next
    case waits
    have "interrupt_nest s = 0" using b [OF waits(2)] by (simp add: may_block_def)
    then show ?thesis using mq_recv_loop_kept [OF K O x t _ b] waits by (simp add: mq_recv_begin_def rt_thread_self_def t)
  qed
qed

subsection \<open>The sections behind them\<close>

lemma resume_first_ok:
  assumes "kernel_state T idle s H Q hs ss" and "x \<in> H" "rt_thread_defunct < x"
  obtains s' Q' hs' where "resume_first x r s = returns (r, s')" and "kernel_state T idle s' H Q' hs' ss"
    and "kernel.more s' = kernel.more s" and "Q' x = tl (Q x)"
    and "\<And>h. h \<in> H \<Longrightarrow> rt_thread_defunct < h \<Longrightarrow> h \<noteq> x \<Longrightarrow> Q' h = Q h"
    and "Q x \<noteq> [] \<Longrightarrow> thread_stat (hd (Q x)) s' = RT_THREAD_READY \<and>
      th_error (thread_of s' (hd (Q x))) = th_error (thread_of s (hd (Q x)))"
  by (rule wake_first_ok [OF assms, where r = r, folded resume_first_def]) (rule that)

lemma write_kept:
  assumes K: "kernel_state T idle s H Q hs ss" and O: "msgs_ok H B g s" and x: "x \<in> B"
    and n: "n \<in> fst ` set (mv_writing (g x))" and b: "length b \<le> unat (mq_msg_size (mq_of s x))"
  defines "w \<equiv> (\<lambda>z. if z then write_last n b (mq_of s x) else write_message n b (mq_of s x))"
  shows "msg_kept T idle B g (returns ([(x, Wrote n z b)], set_mq x (w z) s))"
proof -
  note X = msg_okD [OF O x]
  obtain fs where R: "mq_rep (mq_of s x) (g x) fs" using X(6) by blast
  obtain v where v: "msg_step (Wrote n z b) (g x) = Some v" "mq_rep (w z) v fs"
    unfolding w_def by (rule write_ok [OF R n b])
  have f: "mq_senders (w z) = mq_senders (mq_of s x)" "mq_flag (w z) = mq_flag (mq_of s x)"
    by (simp_all add: w_def write_last_def write_message_def)
  show ?thesis
  proof (rule msg_kept_one [where x = x and v = v and e = "Wrote n z b"])
    show "msgs_ok H B (g(x := v)) (set_mq x (w z) s)"
      by (rule msgs_okI [OF O set_mq_simps(8)]) (use X v(2) f in \<open>auto simp: msg_ok_def\<close>)
  qed (use v(1) set_mq_state [OF K] in simp_all)
qed

text \<open>A section that changes the queue by \<open>f\<close> and resumes the first thread of the list \<open>y\<close>.\<close>

lemma post_section:
  assumes K: "kernel_state T idle s H Q hs ss" and O: "msgs_ok H B g s" and x: "x \<in> B"
    and v: "msg_step e (g x) = Some v" "mq_rep m v fs" and m: "mq_senders m = mq_senders (mq_of s x)" "mq_flag m = mq_flag (mq_of s x)"
    and y: "y \<in> {x, mq_senders (mq_of s x)}"
  obtains s' Q' hs' where "resume_first y r (set_mq x m s) = returns (r, s')" and "kernel_state T idle s' H Q' hs' ss"
    and "msgs_ok H B (g(x := v)) s'" and "Q' y = tl (Q y)" and "mq_of s' = (mq_of s)(x := m)"
    and "Q y \<noteq> [] \<Longrightarrow> thread_stat (hd (Q y)) s' = RT_THREAD_READY \<and>
      th_error (thread_of s' (hd (Q y))) = th_error (thread_of s (hd (Q y)))"
proof -
  note X = msg_okD [OF O x]
  have yy: "y \<in> H" "rt_thread_defunct < y" using y X by auto
  obtain s' :: "'a mq_sys_scheme" and Q' hs' where s': "resume_first y r (set_mq x m s) = returns (r, s')"
    "kernel_state T idle s' H Q' hs' ss" "kernel.more s' = kernel.more (set_mq x m s)" "Q' y = tl (Q y)"
    "Q y \<noteq> [] \<Longrightarrow> thread_stat (hd (Q y)) s' = RT_THREAD_READY \<and>
      th_error (thread_of s' (hd (Q y))) = th_error (thread_of (set_mq x m s) (hd (Q y)))"
    by (rule resume_first_ok [OF set_mq_state [OF K] yy]) (rule that)
  have q: "mq_of s' = (mq_of s)(x := m)" using mq_of_more [OF s'(3)] by simp
  have "msgs_ok H B (g(x := v)) s'" by (rule msgs_okI [OF O q]) (use X v(2) m in \<open>auto simp: msg_ok_def\<close>)
  then show ?thesis using that [of s' Q' hs'] s'(1,2,4,5) q by simp
qed

lemma link_fields [simp]:
  "mq_senders (link_last n m) = mq_senders m" "mq_flag (link_last n m) = mq_flag m" "mq_static (link_last n m) = mq_static m"
  "mq_senders (link_first n m) = mq_senders m" "mq_flag (link_first n m) = mq_flag m" "mq_static (link_first n m) = mq_static m"
  "mq_senders (free_message n m) = mq_senders m" "mq_flag (free_message n m) = mq_flag m"
  "mq_static (free_message n m) = mq_static m" "mq_msg_size (link_last n m) = mq_msg_size m" "mq_msg_size (link_first n m) = mq_msg_size m"
  "mq_msg_size (free_message n m) = mq_msg_size m"
  by (simp_all add: link_last_def link_first_def free_message_def Let_def)

lemma mq_post_ok:
  assumes K: "kernel_state T idle s H Q hs ss" and O: "msgs_ok H B g s" and x: "x \<in> B"
    and w: "(n, Some (True, b)) \<in> set (mv_writing (g x))"
  obtains v s' Q' hs' where "msg_step (Posted n) (g x) = Some v" and "mq_post x n s = returns (Back RT_EOK, s')"
    and "kernel_state T idle s' H Q' hs' ss" and "msgs_ok H B (g(x := v)) s'" and "Q' x = tl (Q x)"
    and "mq_of s' = (mq_of s)(x := link_last n (mq_of s x))"
    and "Q x \<noteq> [] \<Longrightarrow> thread_stat (hd (Q x)) s' = RT_THREAD_READY \<and>
      th_error (thread_of s' (hd (Q x))) = th_error (thread_of s (hd (Q x)))"
proof -
  obtain fs where R: "mq_rep (mq_of s x) (g x) fs" using msg_okD(6) [OF O x] by blast
  obtain v where v: "msg_step (Posted n) (g x) = Some v" "mq_rep (link_last n (mq_of s x)) v fs"
    by (rule link_last_ok [OF R w])
  have y: "x \<in> {x, mq_senders (mq_of s x)}" by simp
  show ?thesis
    by (rule post_section [OF K O x v link_fields(1,2) y, of "Back RT_EOK"]) (rule that [OF v(1)], unfold mq_post_def, assumption+)
qed

lemma mq_post_first_ok:
  assumes K: "kernel_state T idle s H Q hs ss" and O: "msgs_ok H B g s" and x: "x \<in> B"
    and w: "(n, Some (z, b)) \<in> set (mv_writing (g x))"
  obtains v s' Q' hs' where "msg_step (Posted_First n) (g x) = Some v" and "mq_post_first x n s = returns (Back RT_EOK, s')"
    and "kernel_state T idle s' H Q' hs' ss" and "msgs_ok H B (g(x := v)) s'" and "Q' x = tl (Q x)"
    and "mq_of s' = (mq_of s)(x := link_first n (mq_of s x))"
proof -
  obtain fs where R: "mq_rep (mq_of s x) (g x) fs" using msg_okD(6) [OF O x] by blast
  obtain v where v: "msg_step (Posted_First n) (g x) = Some v" "mq_rep (link_first n (mq_of s x)) v fs"
    by (rule link_first_ok [OF R w])
  have y: "x \<in> {x, mq_senders (mq_of s x)}" by simp
  show ?thesis
    by (rule post_section [OF K O x v link_fields(4,5) y, of "Back RT_EOK"]) (rule that [OF v(1)], unfold mq_post_first_def, assumption+)
qed

lemma mq_recv_end_ok:
  fixes len :: nat
  assumes K: "kernel_state T idle s H Q hs ss" and O: "msgs_ok H B g s" and x: "x \<in> B"
    and n: "n \<in> fst ` set (mv_reading (g x))"
  defines "r \<equiv> message_bytes (mq_of s x) n len"
  obtains v s' Q' hs' where "msg_step (Read n r) (g x) = Some v"
    and "mq_recv_end x len n s = returns (Back (RT_EOK, Some r), s')"
    and "kernel_state T idle s' H Q' hs' ss" and "msgs_ok H B (g(x := v)) s'"
    and "Q' (mq_senders (mq_of s x)) = tl (Q (mq_senders (mq_of s x)))"
    and "Q (mq_senders (mq_of s x)) \<noteq> [] \<Longrightarrow> thread_stat (hd (Q (mq_senders (mq_of s x)))) s' = RT_THREAD_READY \<and>
      th_error (thread_of s' (hd (Q (mq_senders (mq_of s x))))) = th_error (thread_of s (hd (Q (mq_senders (mq_of s x)))))"
proof -
  obtain fs where R: "mq_rep (mq_of s x) (g x) fs" using msg_okD(6) [OF O x] by blast
  obtain v where v: "msg_step (Read n r) (g x) = Some v" "mq_rep (free_message n (mq_of s x)) v (n # fs)"
    unfolding r_def by (rule free_message_ok [OF R n])
  have y: "mq_senders (mq_of s x) \<in> {x, mq_senders (mq_of s x)}" by simp
  show ?thesis
    by (rule post_section [OF K O x v link_fields(7,8) y, of "Back (RT_EOK, Some r)"])
      (rule that [OF v(1)], unfold mq_recv_end_def r_def, assumption+)
qed

subsection \<open>Reset, creation and removal\<close>

lemma mq_resume_all_ok:
  assumes K: "kernel_state T idle s H Q hs ss" and O: "msgs_ok H B g s" and x: "x \<in> B"
  obtains s' Q' hs' where "mq_resume_all x s = returns s'" and "kernel_state T idle s' H Q' hs' ss"
    and "msgs_ok H B g s'" and "mq_of s' = mq_of s"
proof -
  note X = msg_okD [OF O x]
  let ?y = "mq_senders (mq_of s x)"
  obtain s1 Q1 hs1 where s1: "rt_ipc_list_resume_all x s = returns s1" "kernel_state T idle s1 H Q1 hs1 ss"
    "kernel.more s1 = kernel.more s" by (rule resume_all_state [OF K X(1,2)]) (rule that)
  obtain s' Q' hs' where s': "rt_ipc_list_resume_all ?y s1 = returns s'" "kernel_state T idle s' H Q' hs' ss"
    "kernel.more s' = kernel.more s1" by (rule resume_all_state [OF s1(2) X(3,4)]) (rule that)
  have m: "mq_of s1 = mq_of s" "mq_of s' = mq_of s"
    using mq_of_more [OF s1(3)] mq_of_more [OF s'(3)] by simp_all
  then show ?thesis
    using that [of s' Q' hs'] s1(1) s'(1,2) m msgs_ok_same [OF O m(2)] by (auto simp: mq_resume_all_def)
qed

lemma mq_control_kept:
  assumes K: "kernel_state T idle s H Q hs ss" and O: "msgs_ok H B g s" and x: "x \<in> B"
  shows "msg_kept T idle B g (andthen (rt_mq_control x cmd s)
    (\<lambda>(_, s). returns (if cmd = RT_IPC_CMD_RESET then [(x, Reset)] else [], s)))"
proof (cases "cmd = RT_IPC_CMD_RESET")
  case True
  obtain s1 Q1 hs1 where s1: "mq_resume_all x s = returns s1" "kernel_state T idle s1 H Q1 hs1 ss"
    "msgs_ok H B g s1" "mq_of s1 = mq_of s" by (rule mq_resume_all_ok [OF K O x]) (rule that)
  note X = msg_okD [OF s1(3) x]
  obtain fs where R: "mq_rep (mq_of s1 x) (g x) fs" using X(6) by blast
  obtain m' v fs' where d: "drain (mq_of s1 x) = returns m'" "msg_step Reset (g x) = Some v" "mq_rep (m'\<lparr>mq_entry := 0\<rparr>) v fs'"
    "mq_senders m' = mq_senders (mq_of s1 x)" "mq_flag m' = mq_flag (mq_of s1 x)" by (rule drain_ok [OF R])
  let ?s = "set_mq x (m'\<lparr>mq_entry := 0\<rparr>) s1"
  note S = settle_state [OF set_mq_state [OF s1(2)], of x "m'\<lparr>mq_entry := 0\<rparr>"]
  have m: "mq_of (settle Q1 ?s) = (mq_of s1)(x := m'\<lparr>mq_entry := 0\<rparr>)" using mq_of_more [of "settle Q1 ?s" ?s] by simp
  show ?thesis
  proof (rule msg_kept_one [where x = x and v = v])
    show "msg_step Reset (g x) = Some v" "kernel_state T idle (settle Q1 ?s) H Q1 hs1 ss" by (rule d(2), rule S(2))
    show "msgs_ok H B (g(x := v)) (settle Q1 ?s)"
      by (rule msgs_okI [OF s1(3) m]) (use X d(3-5) in \<open>auto simp: msg_ok_def\<close>)
  qed (use True s1(1) d(1) S(1) in \<open>simp add: rt_mq_control_def\<close>)
next
  case False
  then show ?thesis using msg_kept_none [OF _ K O] by (simp add: rt_mq_control_def)
qed

lemma mq_detach_kept:
  assumes K: "kernel_state T idle s H Q hs ss" and O: "msgs_ok H B g s" and x: "x \<in> B"
  shows "mq_static (mq_of s x) \<Longrightarrow> msg_kept T idle B g (andthen (rt_mq_detach x s) (\<lambda>(_, s). returns ([], s)))"
    and "\<not> mq_static (mq_of s x) \<Longrightarrow> interrupt_nest s = 0 \<Longrightarrow>
      msg_kept T idle B g (andthen (rt_mq_delete x s) (\<lambda>(_, s). returns ([], s)))"
proof -
  obtain s' Q' hs' where s': "mq_resume_all x s = returns s'" "kernel_state T idle s' H Q' hs' ss"
    "msgs_ok H B g s'" "mq_of s' = mq_of s" by (rule mq_resume_all_ok [OF K O x]) (rule that)
  show "msg_kept T idle B g (andthen (rt_mq_detach x s) (\<lambda>(_, s). returns ([], s)))" if "mq_static (mq_of s x)"
    by (rule msg_kept_none [OF _ s'(2,3)]) (use that s'(1) in \<open>simp add: rt_mq_detach_def\<close>)
  show "msg_kept T idle B g (andthen (rt_mq_delete x s) (\<lambda>(_, s). returns ([], s)))"
    if "\<not> mq_static (mq_of s x)" "interrupt_nest s = 0"
    by (rule msg_kept_none [OF _ s'(2,3)]) (use that s'(1) in \<open>simp add: rt_mq_delete_def debug_not_in_interrupt_def\<close>)
qed

text \<open>A queue opened on its own lists, which are empty, with memory for every message.\<close>

definition new_queue :: "nat \<Rightarrow> nat \<Rightarrow> (nat \<Rightarrow> u8 list) \<Rightarrow> u16 \<Rightarrow> u8 \<Rightarrow> 'a mq_sys_scheme \<Rightarrow> bool" where
  "new_queue x pool blocks n f s \<longleftrightarrow>
     0 < pool \<and> (\<forall>k. length (blocks (pool + k * (unat n + 4))) = unat n) \<and> wait_flag f \<and>
     rt_list_isempty x (tlists s) \<and> rt_list_isempty (mq_senders (mq_of s x)) (tlists s)"

lemma open_queue:
  fixes st :: bool and count :: u16 and links :: "nat \<Rightarrow> nat"
  assumes K: "kernel_state T idle s H Q hs ss" and O: "msgs_ok H B g s" and x: "x \<in> B"
    and n: "new_queue x pool blocks n f s"
  defines "y \<equiv> mq_senders (mq_of s x)"
  defines "s' \<equiv> set_mq x (new_mq st pool links blocks n count f y) s"
  shows "upd_lists (rt_list_init y) (set_mq x (new_mq st pool links blocks n count f y) (rt_ipc_object_init x s)) = s'"
    and "msg_kept T idle B g (returns ([(x, Pool_Of (unat count))], s'))"
proof -
  note X = msg_okD [OF O x]
  let ?m = "new_mq st pool links blocks n count f y"
  have N: "0 < pool" "\<forall>k. length (blocks (pool + k * (unat n + 4))) = unat n" "wait_flag f"
    "rt_list_isempty x (tlists s)" "rt_list_isempty y (tlists s)" using n by (simp_all add: new_queue_def y_def)
  have K': "kernel_state T idle s' H Q hs ss" unfolding s'_def by (rule set_mq_state [OF K])
  have i: "rt_ipc_object_init x s = s" by (rule init_list_same(2) [OF K X(1) N(4)])
  have "rt_ipc_object_init y s' = s'"
    by (rule init_list_same(2) [OF K' X(3) [folded y_def]]) (use N(5) in \<open>simp add: s'_def\<close>)
  then show "upd_lists (rt_list_init y) (set_mq x ?m (rt_ipc_object_init x s)) = s'"
    unfolding i by (simp add: rt_ipc_object_init_def s'_def)
  obtain fs v where v: "msg_step (Pool_Of (unat count)) (g x) = Some v" "mq_rep ?m v fs" "mq_flag ?m = f" "mq_senders ?m = y"
    by (rule new_mq_ok [OF N(1,2)])
  have m: "mq_of s' = (mq_of s)(x := ?m)" by (simp add: s'_def)
  have "msgs_ok H B (g(x := v)) s'"
    by (rule msgs_okI [OF O m]) (use X(1-4) N(3) v(2-4) in \<open>auto simp: msg_ok_def y_def\<close>)
  then show "msg_kept T idle B g (returns ([(x, Pool_Of (unat count))], s'))"
    using v(1) K'
    by (intro msg_kept_one [where g = g and x = x and v = v and s' = s' and e = "Pool_Of (unat count)"]) simp_all
qed

subsection \<open>Every section as a call\<close>

datatype mq_call =
    In_Kernel call
  | Q_Init nat nat "nat \<Rightarrow> nat" "nat \<Rightarrow> u8 list" u32 u32 u8 | Q_Create nat nat "nat \<Rightarrow> nat" "nat \<Rightarrow> u8 list" u32 u32 u8
  | Send_Begin nat int | Send_Again nat int u32 | Write nat nat bool "u8 list" | Post nat nat | Post_First nat nat
  | Recv_Begin nat int | Recv_Again nat int u32 | Recv_End nat nat nat
  | Q_Control nat int | Q_Detach nat | Q_Delete nat

definition on_current :: "(nat \<Rightarrow> 'a kernel_scheme \<Rightarrow> 'r run) \<Rightarrow> 'a kernel_scheme \<Rightarrow> 'r run" where
  "on_current f s = (case current_thread s of None \<Rightarrow> stops (Null_Deref ''thread'') | Some t \<Rightarrow> f t s)"

definition pool_count :: "u32 \<Rightarrow> u32 \<Rightarrow> u16" where
  "pool_count msg_size pool_size = ucast (pool_size div (ucast (ucast (align_message msg_size) :: u16) + 4))"

fun perform_mq ::
  "(nat \<Rightarrow> 'a mq_sys_scheme \<Rightarrow> 'a mq_sys_scheme run) \<Rightarrow> mq_call \<Rightarrow> 'a mq_sys_scheme \<Rightarrow>
   ((nat \<times> msg_event) list \<times> 'a mq_sys_scheme) run"
where
  "perform_mq cb (In_Kernel c) s = andthen (perform cb c s) (\<lambda>s. returns ([], s))"
| "perform_mq cb (Q_Init x pool links blocks n p f) s =
     andthen (rt_mq_init x (mq_senders (mq_of s x)) pool links blocks n p f s)
       (\<lambda>(_, s). returns ([(x, Pool_Of (unat (pool_count n p)))], s))"
| "perform_mq cb (Q_Create x pool links blocks n c f) s =
     andthen (rt_mq_create (Some (x, mq_senders (mq_of s x))) (Some (pool, links, blocks)) n c f s)
       (\<lambda>(_, s). returns ([(x, Pool_Of (unat (ucast c :: u16)))], s))"
| "perform_mq cb (Send_Begin x time) s = andthen (mq_send_begin x time s) (node_event x Took)"
| "perform_mq cb (Send_Again x time begun) s =
     on_current (\<lambda>t s. andthen (mq_send_again x t time begun s) (node_event x Took)) s"
| "perform_mq cb (Write x n z b) s =
     returns ([(x, Wrote n z b)],
       set_mq x (if z then write_last n b (mq_of s x) else write_message n b (mq_of s x)) s)"
| "perform_mq cb (Post x n) s = andthen (mq_post x n s) (\<lambda>(_, s). returns ([(x, Posted n)], s))"
| "perform_mq cb (Post_First x n) s = andthen (mq_post_first x n s) (\<lambda>(_, s). returns ([(x, Posted_First n)], s))"
| "perform_mq cb (Recv_Begin x time) s = andthen (mq_recv_begin x time s) (node_event x Unlinked)"
| "perform_mq cb (Recv_Again x time begun) s =
     on_current (\<lambda>t s. andthen (mq_recv_again x t time begun s) (node_event x Unlinked)) s"
| "perform_mq cb (Recv_End x len n) s =
     andthen (mq_recv_end x len n s)
       (\<lambda>(r, s). returns (case r of Back (_, Some b) \<Rightarrow> [(x, Read n b)] | _ \<Rightarrow> [], s))"
| "perform_mq cb (Q_Control x cmd) s =
     andthen (rt_mq_control x cmd s) (\<lambda>(_, s). returns (if cmd = RT_IPC_CMD_RESET then [(x, Reset)] else [], s))"
| "perform_mq cb (Q_Detach x) s = andthen (rt_mq_detach x s) (\<lambda>(_, s). returns ([], s))"
| "perform_mq cb (Q_Delete x) s = andthen (rt_mq_delete x s) (\<lambda>(_, s). returns ([], s))"

text \<open>
  When a section may run: a node is written and posted by the call that took it, and read by the call that
  unlinked it; nothing else restricts how the sections of different calls interleave.
\<close>

definition allowed_mq :: "nat set \<Rightarrow> nat \<Rightarrow> nat set \<Rightarrow> (nat \<Rightarrow> msg_view) \<Rightarrow> 'a mq_sys_scheme \<Rightarrow> mq_call \<Rightarrow> bool" where
  "allowed_mq T idle B g s c \<longleftrightarrow>
     (case c of
        In_Kernel k \<Rightarrow> allowed T idle s k
      | Q_Init x pool links blocks n p f \<Rightarrow> x \<in> B \<and> new_queue x pool blocks (ucast (align_message n)) f s
      | Q_Create x pool links blocks n c f \<Rightarrow>
          x \<in> B \<and> new_queue x pool blocks (ucast (align_message n)) f s \<and> interrupt_nest s = 0
      | Send_Begin x time \<Rightarrow> x \<in> B \<and> (time \<noteq> 0 \<longrightarrow> may_block idle time s)
      | Send_Again x time begun \<Rightarrow> x \<in> B \<and> (time_left time begun s \<noteq> 0 \<longrightarrow> may_block idle (time_left time begun s) s)
      | Write x n z b \<Rightarrow> x \<in> B \<and> n \<in> fst ` set (mv_writing (g x)) \<and> length b \<le> unat (mq_msg_size (mq_of s x))
      | Post x n \<Rightarrow> x \<in> B \<and> (\<exists>b. (n, Some (True, b)) \<in> set (mv_writing (g x)))
      | Post_First x n \<Rightarrow> x \<in> B \<and> (\<exists>z b. (n, Some (z, b)) \<in> set (mv_writing (g x)))
      | Recv_Begin x time \<Rightarrow> x \<in> B \<and> (time \<noteq> 0 \<longrightarrow> may_block idle time s)
      | Recv_Again x time begun \<Rightarrow>
          x \<in> B \<and> interrupt_nest s = 0 \<and> (time_left time begun s \<noteq> 0 \<longrightarrow> may_block idle (time_left time begun s) s)
      | Recv_End x len n \<Rightarrow> x \<in> B \<and> n \<in> fst ` set (mv_reading (g x))
      | Q_Control x cmd \<Rightarrow> x \<in> B
      | Q_Detach x \<Rightarrow> x \<in> B \<and> mq_static (mq_of s x)
      | Q_Delete x \<Rightarrow> x \<in> B \<and> \<not> mq_static (mq_of s x) \<and> interrupt_nest s = 0)"

lemma mq_init_kept:
  assumes K: "kernel_state T idle s H Q hs ss" and O: "msgs_ok H B g s" and x: "x \<in> B"
    and n: "new_queue x pool blocks (ucast (align_message n)) f s"
  shows "msg_kept T idle B g (perform_mq cb (Q_Init x pool links blocks n p f) s)"
    and "interrupt_nest s = 0 \<Longrightarrow> msg_kept T idle B g (perform_mq cb (Q_Create x pool links blocks n c f) s)"
proof -
  note o = open_queue [OF K O x n]
  show "msg_kept T idle B g (perform_mq cb (Q_Init x pool links blocks n p f) s)"
    using o(2) by (simp add: rt_mq_init_def Let_def o(1) pool_count_def)
  show "msg_kept T idle B g (perform_mq cb (Q_Create x pool links blocks n c f) s)" if "interrupt_nest s = 0"
    using that o(2) by (simp add: rt_mq_create_def debug_not_in_interrupt_def o(1))
qed

lemma mq_again_kept:
  assumes K: "kernel_state T idle s H Q hs ss" and O: "msgs_ok H B g s" and x: "x \<in> B"
    and b: "time_left time begun s \<noteq> 0 \<longrightarrow> may_block idle (time_left time begun s) s"
  shows "msg_kept T idle B g (perform_mq cb (Send_Again x time begun) s)"
    and "interrupt_nest s = 0 \<Longrightarrow> msg_kept T idle B g (perform_mq cb (Recv_Again x time begun) s)"
proof -
  obtain t where t: "current_thread s = Some t" by (rule runner [OF K])
  note none = msg_kept_none [OF _ K O]
  show "msg_kept T idle B g (perform_mq cb (Send_Again x time begun) s)"
    using mq_send_loop_kept [OF K O x t] b none by (auto simp: on_current_def t mq_send_again_def)
  show "msg_kept T idle B g (perform_mq cb (Recv_Again x time begun) s)" if "interrupt_nest s = 0"
    using mq_recv_loop_kept [OF K O x t that] b none by (auto simp: on_current_def t mq_recv_again_def)
qed

lemma mq_post_kept:
  assumes K: "kernel_state T idle s H Q hs ss" and O: "msgs_ok H B g s" and x: "x \<in> B"
  shows "(n, Some (True, b)) \<in> set (mv_writing (g x)) \<Longrightarrow> msg_kept T idle B g (perform_mq cb (Post x n) s)"
    and "(n, Some (z, b)) \<in> set (mv_writing (g x)) \<Longrightarrow> msg_kept T idle B g (perform_mq cb (Post_First x n) s)"
    and "n \<in> fst ` set (mv_reading (g x)) \<Longrightarrow> msg_kept T idle B g (perform_mq cb (Recv_End x len n) s)"
proof -
  show "msg_kept T idle B g (perform_mq cb (Post x n) s)" if w: "(n, Some (True, b)) \<in> set (mv_writing (g x))"
    by (rule mq_post_ok [OF K O x w], rule msg_kept_one [where x = x and e = "Posted n"]) simp_all
  show "msg_kept T idle B g (perform_mq cb (Post_First x n) s)" if w: "(n, Some (z, b)) \<in> set (mv_writing (g x))"
    by (rule mq_post_first_ok [OF K O x w], rule msg_kept_one [where x = x and e = "Posted_First n"]) simp_all
  show "msg_kept T idle B g (perform_mq cb (Recv_End x len n) s)" if n: "n \<in> fst ` set (mv_reading (g x))"
    by (rule mq_recv_end_ok [OF K O x n, where len = len],
      rule msg_kept_one [where x = x and e = "Read n (message_bytes (mq_of s x) n len)"]) simp_all
qed

lemma mq_kernel_kept:
  assumes K: "kernel_state T idle s H Q hs ss" and O: "msgs_ok H B g s"
    and cb: "thread_timeouts T cb" and a: "allowed T idle s c"
  shows "msg_kept T idle B g (perform_mq cb (In_Kernel c) s)"
proof -
  obtain s' Q' hs' ss' where s': "perform cb c s = returns s'" "kernel_state T idle s' H Q' hs' ss'"
    "kernel.more s' = kernel.more s" using perform_step [OF K cb a] unfolding kernel_step_def by blast
  show ?thesis
    by (rule msg_kept_none [OF _ s'(2) msgs_ok_same [OF O mq_of_more [OF s'(3)]]]) (simp add: s'(1))
qed

lemma perform_mq_kept:
  assumes "msg_inv T idle B g s" and cb: "thread_timeouts T cb" and a: "allowed_mq T idle B g s c"
  shows "msg_kept T idle B g (perform_mq cb c s)"
proof -
  obtain H Q hs ss where K: "kernel_state T idle s H Q hs ss" and O: "msgs_ok H B g s"
    using assms(1) unfolding msg_inv_def by blast
  note steps = perform_mq.simps [of cb]
  note laws = mq_kernel_kept [OF K O cb] mq_init_kept [OF K O] mq_again_kept [OF K O] mq_post_kept [OF K O]
    mq_send_begin_kept [OF K O, folded steps(4)] mq_recv_begin_kept [OF K O, folded steps(9)]
    write_kept [OF K O, folded steps(6)] mq_control_kept [OF K O, folded steps(12)] mq_detach_kept [OF K O, folded steps(13,14)]
  show ?thesis
    using a by (cases c) (auto simp only: allowed_mq_def mq_call.case intro!: laws)
qed

end
