(* ===== verification/MailboxProps.thy ===== *)
theory MailboxProps
  imports MailboxLaws IpcProps
begin

text \<open>Properties of mailboxes, each with a concrete instance.\<close>

subsection \<open>Systems of threads and mailboxes\<close>

text \<open>A mailbox is given by its address, that of the list of its senders, its memory, its size and its flag.\<close>

fun init_boxes :: "(nat \<times> nat \<times> u32 list \<times> u32 \<times> u8) list \<Rightarrow> 'a mail_sys_scheme \<Rightarrow> 'a mail_sys_scheme run" where
  "init_boxes [] s = returns s"
| "init_boxes ((x, y, pool, n, f) # bs) s = andthen (rt_mb_init x y pool n f s) (\<lambda>(_, s). init_boxes bs s)"

definition boxes_given :: "nat set \<Rightarrow> (nat \<times> nat \<times> u32 list \<times> u32 \<times> u8) list \<Rightarrow> bool" where
  "boxes_given H bs \<longleftrightarrow>
     (\<forall>(x, y, pool, n, f) \<in> set bs. x \<in> H \<and> rt_thread_defunct < x \<and> y \<in> H \<and> rt_thread_defunct < y \<and>
        0 < n \<and> n < 0x10000 \<and> unat n \<le> length pool \<and> wait_flag f) \<and>
     distinct (map fst bs)"

text \<open>Every mailbox is open and without a mail.\<close>

definition boxes_fresh :: "(nat \<times> nat \<times> u32 list \<times> u32 \<times> u8) list \<Rightarrow> 'a mail_sys_scheme \<Rightarrow> bool" where
  "boxes_fresh bs s \<longleftrightarrow> (\<forall>(x, y, pool, n, f) \<in> set bs. mailbox_of s x = new_mailbox True pool (ucast n) f y)"

lemma unat_small: "n < 0x10000 \<Longrightarrow> unat (ucast (n :: u32) :: u16) = unat n"
  by (simp add: unsigned_ucast_eq word_less_nat_alt take_bit_nat_eq_self)

lemma rt_mb_init_empty:
  assumes K: "kernel_state T idle s H Q hs ss" and x: "x \<in> H" "Q x = []" and y: "y \<in> H" "Q y = []"
  shows "rt_mb_init x y pool n f s = returns (RT_EOK, set_mailbox x (new_mailbox True pool (ucast n) f y) s)"
proof -
  let ?s = "set_mailbox x (new_mailbox True pool (ucast n) f y) s"
  have i: "rt_ipc_object_init x s = s" by (rule init_list_same(2) [OF K x(1) family_alone [OF K x]])
  have K': "kernel_state T idle ?s H Q hs ss" by (rule set_mailbox_state [OF K])
  have "rt_ipc_object_init y ?s = ?s" by (rule init_list_same(2) [OF K' y(1) family_alone [OF K' y]])
  then show ?thesis by (simp add: rt_mb_init_def i) (simp add: rt_ipc_object_init_def)
qed

lemma init_boxes_ok:
  assumes "kernel_state T idle s H Q [] []" and "boxes_ok H B s" and "boxes_given H bs"
    and "\<forall>h \<in> H. rt_thread_defunct < h \<longrightarrow> Q h = []"
  shows "\<exists>s'. init_boxes bs s = returns s' \<and> kernel_state T idle s' H Q [] [] \<and> boxes_ok H (B \<union> fst ` set bs) s' \<and>
    boxes_fresh bs s' \<and> (\<forall>x. x \<notin> fst ` set bs \<longrightarrow> mailbox_of s' x = mailbox_of s x)"
  using assms(1-3)
proof (induction bs s arbitrary: B rule: init_boxes.induct)
  case (2 x y pool n f bs s)
  have x: "x \<in> H" "rt_thread_defunct < x" "y \<in> H" "rt_thread_defunct < y" "0 < n" "n < 0x10000" "unat n \<le> length pool"
    "wait_flag f" "x \<notin> fst ` set bs" and g: "boxes_given H bs"
    using "2.prems"(3) by (auto simp: boxes_given_def)
  let ?m = "new_mailbox True pool (ucast n) f y" and ?s = "set_mailbox x (new_mailbox True pool (ucast n) f y) s"
  have i: "rt_mb_init x y pool n f s = returns (RT_EOK, ?s)"
    by (rule rt_mb_init_empty [OF "2.prems"(1) x(1) _ x(3)]) (use x assms(4) in auto)
  have "mb_ok ?m" using x(5-7) by (simp add: mb_ok_def new_mailbox_def unat_small word_less_nat_alt)
  then have "box_ok H x ?m" using x by (simp add: box_ok_def new_mailbox_def)
  then have "boxes_ok H (insert x B) ?s" using "2.prems"(2) by (auto simp: boxes_ok_def)
  from "2.IH" [OF set_mailbox_state [OF "2.prems"(1)] this g] obtain s' where
    s': "init_boxes bs ?s = returns s'" "kernel_state T idle s' H Q [] []" "boxes_ok H (insert x B \<union> fst ` set bs) s'"
    "boxes_fresh bs s'" "\<And>z. z \<notin> fst ` set bs \<Longrightarrow> mailbox_of s' z = mailbox_of ?s z" by blast
  have "mailbox_of s' x = ?m" using s'(5) [OF x(9)] by simp
  then show ?case using i s' by (auto simp: boxes_fresh_def)
qed (auto simp: boxes_fresh_def)

definition start_mails ::
  "nat \<Rightarrow> (nat \<times> u8 \<times> u32) list \<Rightarrow> (nat \<times> nat \<times> u32 list \<times> u32 \<times> u8) list \<Rightarrow> 'a mail_sys_scheme \<Rightarrow> 'a mail_sys_scheme run"
where
  "start_mails idle ts bs s = andthen (boot idle ts s) (init_boxes bs)"

lemma mails_started:
  assumes "system_given H idle ts [] []" and "boxes_given H bs"
  obtains s0 Q where "start_mails idle ts bs (reset_with m) = returns s0"
    and "kernel_state (threads idle ts) idle s0 H Q [] []" and "boxes_ok H (fst ` set bs) s0" and "boxes_fresh bs s0"
proof -
  obtain s1 Q where s1: "start_system idle ts [] [] (reset_with m) = returns s1"
    "kernel_state (threads idle ts) idle s1 H Q [] []" "\<And>h. h \<in> H \<Longrightarrow> rt_thread_defunct < h \<Longrightarrow> Q h = []"
    by (rule system_started [OF assms(1), of m]) (rule that)
  have b: "boot idle ts (reset_with m) = returns s1"
    using s1(1) by (simp add: start_system_def andthen_def split: option.splits sum.splits)
  have "boxes_ok H {} s1" by (simp add: boxes_ok_def)
  from init_boxes_ok [OF s1(2) this assms(2)] s1(3) obtain s0 where "init_boxes bs s1 = returns s0"
    "kernel_state (threads idle ts) idle s0 H Q [] []" "boxes_ok H (fst ` set bs) s0" "boxes_fresh bs s0" by auto
  then show ?thesis using that [of s0 Q] b by (simp add: start_mails_def)
qed

lemma box_view_fresh:
  "boxes_fresh bs s \<Longrightarrow> boxes_given H bs \<Longrightarrow> (x, y, pool, n, f) \<in> set bs \<Longrightarrow> box_view s x = (unat n, [])"
  by (fastforce simp: boxes_fresh_def boxes_given_def box_view_def new_mailbox_def mb_contents_def unat_small)

subsection \<open>Properties\<close>

text \<open>
  C10: From boot, every sequence of the calls on mailboxes and on the threads returns, whatever blocks, times out, is
  reset or removed in between. What the calls report is a history of bounded queues, one for each
  mailbox, and as long as a mailbox is not opened again or reset, the mails that were sent to it are
  those that were received from it followed by those in it: none is lost, doubled or overtaken.
\<close>

theorem mailboxes_lose_no_mail:
  assumes "system_given H idle ts [] []" and "boxes_given H bs" and "thread_timeouts (threads idle ts) cb"
  shows "\<exists>s0. start_mails idle ts bs (reset_with m) = returns s0 \<and>
      (\<forall>l s. mail_run cb (threads idle ts) idle (fst ` set bs) s0 l s \<longrightarrow>
         queue_steps l (box_view s0) = Some (box_view s) \<and>
         (\<forall>(x, y, pool, n, f) \<in> set bs. undisturbed x l \<longrightarrow>
            mails_sent x l = mails_got x l @ mb_contents (mailbox_of s x) \<and> length (mb_contents (mailbox_of s x)) \<le> unat n) \<and>
         (\<forall>c. allowed_mail (threads idle ts) idle (fst ` set bs) s c \<longrightarrow> (\<exists>r. perform_mail cb c s = returns r)))"
proof -
  let ?T = "threads idle ts" and ?B = "fst ` set bs"
  obtain s0 Q where s0: "start_mails idle ts bs (reset_with m) = returns s0" "kernel_state ?T idle s0 H Q [] []"
    "boxes_ok H ?B s0" "boxes_fresh bs s0" by (rule mails_started [OF assms(1,2), of m])
  have "queue_steps l (box_view s0) = Some (box_view s) \<and>
      (\<forall>(x, y, pool, n, f) \<in> set bs. undisturbed x l \<longrightarrow>
         mails_sent x l = mails_got x l @ mb_contents (mailbox_of s x) \<and> length (mb_contents (mailbox_of s x)) \<le> unat n) \<and>
      (\<forall>c. allowed_mail ?T idle ?B s c \<longrightarrow> (\<exists>r. perform_mail cb c s = returns r))"
    if run: "mail_run cb ?T idle ?B s0 l s" for l s
  proof -
    have I: "mail_inv ?T idle ?B s" and q: "queue_steps l (box_view s0) = Some (box_view s)"
      using mail_run_ok [OF run mail_invI [OF s0(2,3)] assms(3)] by simp_all
    have "mails_sent x l = mails_got x l @ mb_contents (mailbox_of s x) \<and> length (mb_contents (mailbox_of s x)) \<le> unat n"
      if b: "(x, y, pool, n, f) \<in> set bs" "undisturbed x l" for x y pool n f
    proof -
      note v = box_view_fresh [OF s0(4) assms(2) b(1)]
      have "x \<in> ?B" using b(1) by (metis fst_conv image_eqI)
      then have "mb_ok (mailbox_of s x)" using I by (auto simp: mail_inv_def dest: box_okD(5))
      then have "length (mb_contents (mailbox_of s x)) \<le> unat (mb_size (mailbox_of s x))" using mb_okD(3) by simp
      moreover have "fst (box_view s x) = fst (box_view s0 x)" by (rule queue_steps_size [OF q b(2)])
      ultimately show ?thesis using queue_steps_conserve [OF q b(2)] v by (simp add: box_view_def)
    qed
    moreover have "\<exists>r. perform_mail cb c s = returns r" if "allowed_mail ?T idle ?B s c" for c
      using perform_mail_keeps [OF I assms(3) that] unfolding mail_kept_def by blast
    ultimately show ?thesis using q by blast
  qed
  then show ?thesis using s0(1) by blast
qed

text \<open>
  A send to a mailbox with a free place puts the mail behind the others and makes the first thread that
  waits for a mail ready, without an error; the threads behind it stay in their order. A receive takes
  the first mail and does the same for the threads that wait for a place.
\<close>

theorem mailbox_wakes_first:
  assumes "kernel_state T idle s H Q hs ss" and "boxes_ok H B s" and "x \<in> B"
  defines "m \<equiv> mailbox_of s x"
  shows "(mb_entry m = mb_size m \<or>
        (\<exists>s' Q' hs'. rt_mb_send x v s = returns (Back RT_EOK, s') \<and> kernel_state T idle s' H Q' hs' ss \<and>
           mb_contents (mailbox_of s' x) = mb_contents m @ [v] \<and> Q' x = tl (Q x) \<and>
           (Q x = [] \<or> thread_stat (hd (Q x)) s' = RT_THREAD_READY \<and>
              th_error (thread_of s' (hd (Q x))) = th_error (thread_of s (hd (Q x)))))) \<and>
      (mb_entry m = 0 \<or>
        (\<exists>s' Q' hs'. rt_mb_recv x 0 s = returns (Back (RT_EOK, Some (hd (mb_contents m))), s') \<and>
           kernel_state T idle s' H Q' hs' ss \<and>
           mb_contents (mailbox_of s' x) = tl (mb_contents m) \<and>
           Q' (suspend_sender_thread m) = tl (Q (suspend_sender_thread m)) \<and>
           (Q (suspend_sender_thread m) = [] \<or>
              thread_stat (hd (Q (suspend_sender_thread m))) s' = RT_THREAD_READY \<and>
              th_error (thread_of s' (hd (Q (suspend_sender_thread m)))) =
                th_error (thread_of s (hd (Q (suspend_sender_thread m)))))))"
proof -
  note ok = box_okD(5) [OF assms(2,3), folded m_def]
  have send: "\<exists>s' Q' hs'. rt_mb_send x v s = returns (Back RT_EOK, s') \<and> kernel_state T idle s' H Q' hs' ss \<and>
      mb_contents (mailbox_of s' x) = mb_contents m @ [v] \<and> Q' x = tl (Q x) \<and>
      (Q x = [] \<or> thread_stat (hd (Q x)) s' = RT_THREAD_READY \<and>
         th_error (thread_of s' (hd (Q x))) = th_error (thread_of s (hd (Q x))))" if room: "mb_entry m \<noteq> mb_size m"
  proof -
    obtain s' Q' hs' m' where s': "mb_store x v s = returns (Back RT_EOK, s')" "kernel_state T idle s' H Q' hs' ss"
      "mb_put v m = returns m'" "mailbox_of s' = (mailbox_of s)(x := m')" "Q' x = tl (Q x)"
      "Q x \<noteq> [] \<Longrightarrow> thread_stat (hd (Q x)) s' = RT_THREAD_READY \<and>
        th_error (thread_of s' (hd (Q x))) = th_error (thread_of s (hd (Q x)))"
      by (rule mb_store_ok [OF assms(1-3), folded m_def, OF room]) (rule that)
    obtain m1 where "mb_put v m = returns m1" "mb_contents m1 = mb_contents m @ [v]"
      by (rule mb_put_ok [OF ok room]) (rule that)
    then show ?thesis using s' room by (auto simp: rt_mb_send_def rt_mb_send_wait_def m_def)
  qed
  have recv: "\<exists>s' Q' hs'. rt_mb_recv x 0 s = returns (Back (RT_EOK, Some (hd (mb_contents m))), s') \<and>
      kernel_state T idle s' H Q' hs' ss \<and> mb_contents (mailbox_of s' x) = tl (mb_contents m) \<and>
      Q' (suspend_sender_thread m) = tl (Q (suspend_sender_thread m)) \<and>
      (Q (suspend_sender_thread m) = [] \<or> thread_stat (hd (Q (suspend_sender_thread m))) s' = RT_THREAD_READY \<and>
         th_error (thread_of s' (hd (Q (suspend_sender_thread m)))) =
           th_error (thread_of s (hd (Q (suspend_sender_thread m)))))" if some: "mb_entry m \<noteq> 0"
  proof -
    let ?y = "suspend_sender_thread m"
    obtain s' Q' hs' w m' where s': "mb_fetch x s = returns (Back (RT_EOK, Some w), s')" "kernel_state T idle s' H Q' hs' ss"
      "mb_get m = returns (w, m')" "mailbox_of s' = (mailbox_of s)(x := m')" "Q' ?y = tl (Q ?y)"
      "Q ?y \<noteq> [] \<Longrightarrow> thread_stat (hd (Q ?y)) s' = RT_THREAD_READY \<and>
        th_error (thread_of s' (hd (Q ?y))) = th_error (thread_of s (hd (Q ?y)))"
      by (rule mb_fetch_ok [OF assms(1-3), folded m_def, OF some]) (rule that)
    obtain m1 where "mb_get m = returns (hd (mb_contents m), m1)" "mb_contents m1 = tl (mb_contents m)"
      by (rule mb_get_ok [OF ok some]) (rule that)
    then show ?thesis using s' some by (auto simp: rt_mb_recv_def m_def)
  qed
  show ?thesis using send recv by blast
qed

subsection \<open>Instances\<close>

text \<open>The mailboxes 33 and 35, their senders at 34 and 36, with the threads 41 and 42.\<close>

definition msys_more :: "unit mail_sys_ext ipc_ext" where
  "msys_more = kernel.more (ipc.extend sys (mail_sys.fields (\<lambda>_. new_mailbox True [] 0 0 0)))"

definition msys_boxes :: "(nat \<times> nat \<times> u32 list \<times> u32 \<times> u8) list" where
  "msys_boxes = [(33, 34, [0, 0], 2, 0), (35, 36, [0], 1, 1)]"

lemma msys_given: "system_given heads 40 [(41, 10, 5), (42, 10, 5)] [] []" "boxes_given heads msys_boxes"
  by (auto simp: boxes_given_def msys_boxes_def system_given_def objects_given_def heads_def rt_thread_defunct_def wait_flag_def
      RT_IPC_FLAG_FIFO_def RT_IPC_FLAG_PRIO_def)

definition msys_timeouts :: "nat \<Rightarrow> mail_sys \<Rightarrow> mail_sys run" where
  "msys_timeouts t = (if t \<in> {40, 41, 42} then rt_thread_timeout t else (\<lambda>s. returns s))"

theorem mailboxes_lose_no_mail_witness:
  "\<exists>s0. start_mails 40 [(41, 10, 5), (42, 10, 5)] msys_boxes (reset_with msys_more) = returns s0 \<and>
      (\<forall>l s. mail_run msys_timeouts {40, 41, 42} 40 {33, 35} s0 l s \<longrightarrow> undisturbed 33 l \<longrightarrow>
         mails_sent 33 l = mails_got 33 l @ mb_contents (mailbox_of s 33) \<and> length (mb_contents (mailbox_of s 33)) \<le> 2)"
proof -
  have "thread_timeouts {40, 41, 42} msys_timeouts" by (simp add: thread_timeouts_def msys_timeouts_def)
  moreover have "fst ` set msys_boxes = {33, 35}" "(33, 34, [0, 0], 2, 0) \<in> set msys_boxes" by (simp_all add: msys_boxes_def)
  ultimately show ?thesis
    using mailboxes_lose_no_mail [OF msys_given, of msys_timeouts msys_more] by (force simp: msys_boxes_def)
qed

theorem mailbox_wakes_first_witness:
  "\<exists>s0 s'. start_mails 40 [(41, 10, 5), (42, 10, 5)] msys_boxes (reset_with msys_more) = returns s0 \<and>
     rt_mb_send 33 7 s0 = returns (Back RT_EOK, s') \<and> mb_contents (mailbox_of s' 33) = [7]"
proof -
  obtain s0 Q where s0: "start_mails 40 [(41, 10, 5), (42, 10, 5)] msys_boxes (reset_with msys_more) = returns s0"
    "kernel_state (threads 40 [(41, 10, 5), (42, 10, 5)]) 40 s0 heads Q [] []"
    "boxes_ok heads (fst ` set msys_boxes) s0" "boxes_fresh msys_boxes s0"
    by (rule mails_started [OF msys_given, of msys_more])
  have m: "mailbox_of s0 33 = new_mailbox True [0, 0] 2 0 34" using s0(4) by (simp add: boxes_fresh_def msys_boxes_def)
  have "mb_entry (mailbox_of s0 33) \<noteq> mb_size (mailbox_of s0 33)" "mb_contents (mailbox_of s0 33) = []"
    by (simp_all add: m new_mailbox_def mb_contents_def)
  moreover have "33 \<in> fst ` set msys_boxes" by (simp add: msys_boxes_def)
  ultimately show ?thesis using mailbox_wakes_first [OF s0(2,3), of 33 7] s0(1) by auto
qed

end
