(* ===== verification/MsgProps.thy ===== *)
theory MsgProps
  imports MsgCalls MailboxProps
begin

text \<open>Properties of message queues, each with a concrete instance.\<close>

subsection \<open>Runs\<close>

text \<open>
  The log \<open>l\<close> of a run decides what each queue stands for, \<open>msg_steps l g0\<close>, and with it which call holds
  which node.
\<close>

inductive mq_run ::
  "(nat \<Rightarrow> 'a mq_sys_scheme \<Rightarrow> 'a mq_sys_scheme run) \<Rightarrow> nat set \<Rightarrow> nat \<Rightarrow> nat set \<Rightarrow> (nat \<Rightarrow> msg_view) \<Rightarrow> 'a mq_sys_scheme \<Rightarrow>
   (nat \<times> msg_event) list \<Rightarrow> 'a mq_sys_scheme \<Rightarrow> bool"
  for cb T idle B g0 s0 where
  start: "mq_run cb T idle B g0 s0 [] s0"
| step: "mq_run cb T idle B g0 s0 l s \<Longrightarrow> msg_steps l g0 = Some g \<Longrightarrow> allowed_mq T idle B g s c \<Longrightarrow>
    perform_mq cb c s = returns (e, s') \<Longrightarrow> mq_run cb T idle B g0 s0 (l @ e) s'"

lemma mq_run_ok:
  assumes "mq_run cb T idle B g0 s0 l s" and "msg_inv T idle B g0 s0" and "thread_timeouts T cb"
  shows "\<exists>g. msg_steps l g0 = Some g \<and> msg_inv T idle B g s"
  using assms(1)
proof (induction rule: mq_run.induct)
  case (step l s g c e s')
  then have "msg_kept T idle B g (perform_mq cb c s)" using perform_mq_kept [OF _ assms(3) step.hyps(3)] by auto
  then show ?case using step.hyps(2,4) by (auto simp: msg_kept_def msg_steps_append)
qed (use assms(2) in simp)

text \<open>The messages that went to the end of queue \<open>x\<close> and those that left it at the front, in order.\<close>

fun put_message :: "msg_event \<Rightarrow> msg_view \<Rightarrow> u8 list list" where
  "put_message (Posted n) v = (case map_of (mv_writing v) n of Some (Some (_, b)) \<Rightarrow> [b] | _ \<Rightarrow> [])"
| "put_message _ v = []"

fun taken_message :: "msg_event \<Rightarrow> msg_view \<Rightarrow> u8 list list" where
  "taken_message (Unlinked n) v = map snd (take 1 (mv_queue v))"
| "taken_message _ v = []"

fun messages_in :: "nat \<Rightarrow> (nat \<times> msg_event) list \<Rightarrow> (nat \<Rightarrow> msg_view) \<Rightarrow> u8 list list" where
  "messages_in x [] g = []"
| "messages_in x ((y, e) # l) g =
     (if y = x then put_message e (g x) else []) @
     (case msg_step e (g y) of None \<Rightarrow> [] | Some v \<Rightarrow> messages_in x l (g(y := v)))"

fun messages_out :: "nat \<Rightarrow> (nat \<times> msg_event) list \<Rightarrow> (nat \<Rightarrow> msg_view) \<Rightarrow> u8 list list" where
  "messages_out x [] g = []"
| "messages_out x ((y, e) # l) g =
     (if y = x then taken_message e (g x) else []) @
     (case msg_step e (g y) of None \<Rightarrow> [] | Some v \<Rightarrow> messages_out x l (g(y := v)))"

text \<open>Neither opened again, nor reset, nor an urgent message.\<close>

definition in_order :: "nat \<Rightarrow> (nat \<times> msg_event) list \<Rightarrow> bool" where
  "in_order x l \<longleftrightarrow> (\<forall>(y, e) \<in> set l. y = x \<longrightarrow> (\<forall>c. e \<noteq> Pool_Of c) \<and> e \<noteq> Reset \<and> (\<forall>n. e \<noteq> Posted_First n))"

lemma message_step:
  assumes "msg_step e v = Some v'" and "\<forall>c. e \<noteq> Pool_Of c" "e \<noteq> Reset" "\<forall>n. e \<noteq> Posted_First n"
  shows "map snd (mv_queue v) @ put_message e v = taken_message e v @ map snd (mv_queue v')"
  using assms by (cases e) (auto split: if_splits option.splits list.splits bool.splits)

lemma messages_conserved:
  "msg_steps l g = Some g' \<Longrightarrow> in_order x l \<Longrightarrow>
   map snd (mv_queue (g x)) @ messages_in x l g = messages_out x l g @ map snd (mv_queue (g' x))"
proof (induction l arbitrary: g)
  case (Cons p l)
  obtain y e where p: "p = (y, e)" by fastforce
  obtain v where v: "msg_step e (g y) = Some v" "msg_steps l (g(y := v)) = Some g'"
    using Cons.prems(1) p by (auto split: option.splits)
  have o: "in_order x l" "y = x \<Longrightarrow> (\<forall>c. e \<noteq> Pool_Of c) \<and> e \<noteq> Reset \<and> (\<forall>n. e \<noteq> Posted_First n)"
    using Cons.prems(2) p by (auto simp: in_order_def)
  obtain h where h_def: "h = g(y := v)" by blast
  have hx: "h x = (if y = x then v else g x)" by (simp add: h_def)
  have IH: "map snd (mv_queue (h x)) @ messages_in x l h = messages_out x l h @ map snd (mv_queue (g' x))"
    unfolding h_def by (rule Cons.IH [OF v(2) o(1)])
  have "map snd (mv_queue (g x)) @ (if y = x then put_message e (g x) else []) =
      (if y = x then taken_message e (g x) else []) @ map snd (mv_queue (h x))"
    using message_step [of e "g x" v] v(1) o(2) hx by auto
  moreover have "messages_in x (p # l) g = (if y = x then put_message e (g x) else []) @ messages_in x l h"
    "messages_out x (p # l) g = (if y = x then taken_message e (g x) else []) @ messages_out x l h"
    using v(1) by (simp_all only: p messages_in.simps messages_out.simps h_def option.case)
  ultimately show ?case using IH by (metis append.assoc)
qed simp

subsection \<open>Systems of threads and message queues\<close>

record mq_args =
  a_mq :: nat
  a_senders :: nat
  a_pool :: nat
  a_links :: "nat \<Rightarrow> nat"
  a_blocks :: "nat \<Rightarrow> u8 list"
  a_msg_size :: u32
  a_pool_size :: u32
  a_flag :: u8

definition block_size :: "mq_args \<Rightarrow> u16" where "block_size a = ucast (align_message (a_msg_size a))"

definition args_ok :: "nat set \<Rightarrow> mq_args \<Rightarrow> bool" where
  "args_ok H a \<longleftrightarrow>
     a_mq a \<in> H \<and> rt_thread_defunct < a_mq a \<and> a_senders a \<in> H \<and> rt_thread_defunct < a_senders a \<and> 0 < a_pool a \<and>
     wait_flag (a_flag a) \<and>
     (\<forall>k. length (a_blocks a (a_pool a + k * (unat (block_size a) + 4))) = unat (block_size a))"

definition queues_given :: "nat set \<Rightarrow> mq_args list \<Rightarrow> bool" where
  "queues_given H qs \<longleftrightarrow> (\<forall>a \<in> set qs. args_ok H a) \<and> distinct (map a_mq qs)"

fun init_queues :: "mq_args list \<Rightarrow> 'a mq_sys_scheme \<Rightarrow> 'a mq_sys_scheme run" where
  "init_queues [] s = returns s"
| "init_queues (a # qs) s =
     andthen (rt_mq_init (a_mq a) (a_senders a) (a_pool a) (a_links a) (a_blocks a) (a_msg_size a) (a_pool_size a) (a_flag a) s)
       (\<lambda>(_, s). init_queues qs s)"

definition fresh_view :: "mq_args \<Rightarrow> msg_view" where
  "fresh_view a = \<lparr>mv_count = unat (pool_count (a_msg_size a) (a_pool_size a)), mv_queue = [], mv_writing = [], mv_reading = []\<rparr>"

fun fresh_views :: "mq_args list \<Rightarrow> (nat \<Rightarrow> msg_view) \<Rightarrow> nat \<Rightarrow> msg_view" where
  "fresh_views [] g = g"
| "fresh_views (a # qs) g = fresh_views qs (g(a_mq a := fresh_view a))"

lemma fresh_views_at: "distinct (map a_mq qs) \<Longrightarrow> a \<in> set qs \<Longrightarrow> fresh_views qs g (a_mq a) = fresh_view a"
proof -
  have other: "x \<notin> a_mq ` set qs \<Longrightarrow> fresh_views qs g x = g x" for x qs g
    by (induction qs arbitrary: g) auto
  show "distinct (map a_mq qs) \<Longrightarrow> a \<in> set qs \<Longrightarrow> fresh_views qs g (a_mq a) = fresh_view a"
    by (induction qs arbitrary: g) (auto simp: other)
qed

lemma rt_mq_init_fresh:
  assumes K: "kernel_state T idle s H Q hs ss" and O: "msgs_ok H B g s" and a: "args_ok H a"
    and e: "\<forall>h \<in> H. rt_thread_defunct < h \<longrightarrow> Q h = []"
  obtains s' where
    "rt_mq_init (a_mq a) (a_senders a) (a_pool a) (a_links a) (a_blocks a) (a_msg_size a) (a_pool_size a) (a_flag a) s =
      returns (RT_EOK, s')"
    and "kernel_state T idle s' H Q hs ss" and "msgs_ok H (insert (a_mq a) B) (g(a_mq a := fresh_view a)) s'"
    and "mq_pool (mq_of s' (a_mq a)) = a_pool a" and "mq_msg_size (mq_of s' (a_mq a)) = block_size a"
    and "\<And>y. y \<noteq> a_mq a \<Longrightarrow> mq_of s' y = mq_of s y"
proof -
  let ?x = "a_mq a" and ?y = "a_senders a"
  let ?m = "new_mq True (a_pool a) (a_links a) (a_blocks a) (block_size a) (pool_count (a_msg_size a) (a_pool_size a)) (a_flag a) ?y"
  let ?s = "set_mq ?x ?m s"
  note A = a [unfolded args_ok_def]
  have x: "?x \<in> H" "Q ?x = []" "?y \<in> H" "Q ?y = []" using A e by auto
  have i: "rt_ipc_object_init ?x s = s" by (rule init_list_same(2) [OF K x(1) family_alone [OF K x(1,2)]])
  have K': "kernel_state T idle ?s H Q hs ss" by (rule set_mq_state [OF K])
  have "rt_ipc_object_init ?y ?s = ?s" by (rule init_list_same(2) [OF K' x(3) family_alone [OF K' x(3,4)]])
  then have init: "rt_mq_init ?x ?y (a_pool a) (a_links a) (a_blocks a) (a_msg_size a) (a_pool_size a) (a_flag a) s =
      returns (RT_EOK, ?s)"
    by (simp add: rt_mq_init_def Let_def i pool_count_def block_size_def) (simp add: rt_ipc_object_init_def)
  have p: "0 < a_pool a" "\<forall>k. length (a_blocks a (a_pool a + k * (unat (block_size a) + 4))) = unat (block_size a)"
    using A by simp_all
  obtain fs v where v: "msg_step (Pool_Of (unat (pool_count (a_msg_size a) (a_pool_size a)))) (g ?x) = Some v" "mq_rep ?m v fs"
    "mq_flag ?m = a_flag a" "mq_senders ?m = ?y" by (rule new_mq_ok [OF p])
  then have "msg_ok H ?x ?m (fresh_view a)" using A by (auto simp: msg_ok_def fresh_view_def)
  then have "msgs_ok H (insert ?x B) (g(?x := fresh_view a)) ?s" using O by (auto simp: msgs_ok_def)
  moreover have "mq_pool ?m = a_pool a" "mq_msg_size ?m = block_size a" by (simp_all add: new_mq_fields)
  ultimately show ?thesis using that [OF init K'] by simp
qed

lemma init_queues_ok:
  assumes "kernel_state T idle s H Q [] []" and "msgs_ok H B g s" and "queues_given H qs"
    and "\<forall>h \<in> H. rt_thread_defunct < h \<longrightarrow> Q h = []"
  shows "\<exists>s'. init_queues qs s = returns s' \<and> kernel_state T idle s' H Q [] [] \<and>
    msgs_ok H (B \<union> a_mq ` set qs) (fresh_views qs g) s' \<and>
    (\<forall>a \<in> set qs. mq_pool (mq_of s' (a_mq a)) = a_pool a \<and> mq_msg_size (mq_of s' (a_mq a)) = block_size a) \<and>
    (\<forall>x. x \<notin> a_mq ` set qs \<longrightarrow> mq_of s' x = mq_of s x)"
  using assms(1-3)
proof (induction qs s arbitrary: B g rule: init_queues.induct)
  case (2 a qs s)
  have a: "args_ok H a" "queues_given H qs" "a_mq a \<notin> a_mq ` set qs" using "2.prems"(3) by (auto simp: queues_given_def)
  obtain s1 where s1:
    "rt_mq_init (a_mq a) (a_senders a) (a_pool a) (a_links a) (a_blocks a) (a_msg_size a) (a_pool_size a) (a_flag a) s =
      returns (RT_EOK, s1)"
    "kernel_state T idle s1 H Q [] []" "msgs_ok H (insert (a_mq a) B) (g(a_mq a := fresh_view a)) s1"
    "mq_pool (mq_of s1 (a_mq a)) = a_pool a" "mq_msg_size (mq_of s1 (a_mq a)) = block_size a"
    "\<And>y. y \<noteq> a_mq a \<Longrightarrow> mq_of s1 y = mq_of s y"
    by (rule rt_mq_init_fresh [OF "2.prems"(1,2) a(1) assms(4)]) (rule that)
  from "2.IH" [OF s1(2,3) a(2)] obtain s' where s': "init_queues qs s1 = returns s'" "kernel_state T idle s' H Q [] []"
    "msgs_ok H (insert (a_mq a) B \<union> a_mq ` set qs) (fresh_views qs (g(a_mq a := fresh_view a))) s'"
    "\<forall>a \<in> set qs. mq_pool (mq_of s' (a_mq a)) = a_pool a \<and> mq_msg_size (mq_of s' (a_mq a)) = block_size a"
    "\<forall>x. x \<notin> a_mq ` set qs \<longrightarrow> mq_of s' x = mq_of s1 x" by blast
  then show ?case using s1(1,4-6) a(3) by auto
qed auto

definition start_queues ::
  "nat \<Rightarrow> (nat \<times> u8 \<times> u32) list \<Rightarrow> mq_args list \<Rightarrow> 'a mq_sys_scheme \<Rightarrow> 'a mq_sys_scheme run"
where
  "start_queues idle ts qs s = andthen (boot idle ts s) (init_queues qs)"

lemma queues_started:
  assumes "system_given H idle ts [] []" and "queues_given H qs"
  obtains s0 Q where "start_queues idle ts qs (reset_with m) = returns s0"
    and "kernel_state (threads idle ts) idle s0 H Q [] []" and "msgs_ok H (a_mq ` set qs) (fresh_views qs g) s0"
    and "\<And>a. a \<in> set qs \<Longrightarrow> mq_pool (mq_of s0 (a_mq a)) = a_pool a \<and> mq_msg_size (mq_of s0 (a_mq a)) = block_size a"
    and "\<And>h. h \<in> H \<Longrightarrow> rt_thread_defunct < h \<Longrightarrow> Q h = []"
proof -
  obtain s1 Q where s1: "start_system idle ts [] [] (reset_with m) = returns s1"
    "kernel_state (threads idle ts) idle s1 H Q [] []" "\<And>h. h \<in> H \<Longrightarrow> rt_thread_defunct < h \<Longrightarrow> Q h = []"
    by (rule system_started [OF assms(1), of m]) (rule that)
  have b: "boot idle ts (reset_with m) = returns s1"
    using s1(1) by (simp add: start_system_def andthen_def split: option.splits sum.splits)
  have "msgs_ok H {} g s1" by (simp add: msgs_ok_def)
  from init_queues_ok [OF s1(2) this assms(2)] s1(3) obtain s0 where "init_queues qs s1 = returns s0"
    "kernel_state (threads idle ts) idle s0 H Q [] []" "msgs_ok H (a_mq ` set qs) (fresh_views qs g) s0"
    "\<forall>a \<in> set qs. mq_pool (mq_of s0 (a_mq a)) = a_pool a \<and> mq_msg_size (mq_of s0 (a_mq a)) = block_size a" by auto
  then show ?thesis using that [of s0 Q] b s1(3) by (simp add: start_queues_def)
qed

subsection \<open>Whole calls\<close>

lemma set_mq_ok:
  assumes "msgs_ok H B g s" and "x \<in> B" and "mq_rep m v fs"
    and "mq_senders m = mq_senders (mq_of s x)" "mq_flag m = mq_flag (mq_of s x)"
  shows "msgs_ok H B (g(x := v)) (set_mq x m s)"
  by (rule msgs_okI [OF assms(1) set_mq_simps(8)]) (use msg_okD [OF assms(1,2)] assms(3-5) in \<open>auto simp: msg_ok_def\<close>)

text \<open>A node is taken and the message written.\<close>

lemma taken_and_written:
  assumes K: "kernel_state T idle s H Q hs ss" and O: "msgs_ok H B g s" and x: "x \<in> B"
    and free: "mq_free (mq_of s x) \<noteq> 0" and b: "length b \<le> unat (mq_msg_size (mq_of s x))"
  obtains n s1 g1 m where "mq_take x s = returns (Back (Inr n), s1)"
    and "m = (if z then write_last n b (mq_of s1 x) else write_message n b (mq_of s1 x))"
    and "kernel_state T idle (set_mq x m s1) H Q hs ss" and "msgs_ok H B g1 (set_mq x m s1)"
    and "(n, Some (z, b)) \<in> set (mv_writing (g1 x))" and "mv_queue (g1 x) = mv_queue (g x)"
    and "mq_msg_size m = mq_msg_size (mq_of s x)" and "mq_senders m = mq_senders (mq_of s x)"
    and "thread_of (set_mq x m s1) = thread_of s"
proof -
  obtain fs where R: "mq_rep (mq_of s x) (g x) fs" using msg_okD(6) [OF O x] by blast
  let ?n = "mq_free (mq_of s x)" and ?m = "snd (take_free (mq_of s x))"
  obtain v fs' where v: "msg_step (Took ?n) (g x) = Some v" "mq_rep ?m v fs'" by (rule take_free_ok [OF R free])
  have f: "mq_senders ?m = mq_senders (mq_of s x)" "mq_flag ?m = mq_flag (mq_of s x)" "mq_msg_size ?m = mq_msg_size (mq_of s x)"
    by (simp_all add: take_free_def)
  let ?s = "set_mq x ?m s"
  have O1: "msgs_ok H B (g(x := v)) ?s" by (rule set_mq_ok [OF O x v(2) f(1,2)])
  have w: "?n \<in> fst ` set (mv_writing v)" "mv_queue v = mv_queue (g x)" using v(1) by (auto split: if_splits)
  have b1: "length b \<le> unat (mq_msg_size ?m)" using b f(3) by simp
  let ?m2 = "if z then write_last ?n b ?m else write_message ?n b ?m"
  obtain v2 where v2: "msg_step (Wrote ?n z b) v = Some v2" "mq_rep ?m2 v2 fs'" by (rule write_ok [OF v(2) w(1) b1])
  have f2: "mq_senders ?m2 = mq_senders (mq_of ?s x)" "mq_flag ?m2 = mq_flag (mq_of ?s x)" "mq_msg_size ?m2 = mq_msg_size (mq_of ?s x)"
    by (simp_all add: write_last_def write_message_def)
  have O2: "msgs_ok H B ((g(x := v))(x := v2)) (set_mq x ?m2 ?s)" by (rule set_mq_ok [OF O1 x v2(2) f2(1,2)])
  have t: "mq_take x s = returns (Back (Inr ?n), ?s)" by (simp add: mq_take_def take_free_def)
  have q: "(?n, Some (z, b)) \<in> set (mv_writing (((g(x := v))(x := v2)) x))"
    "mv_queue (((g(x := v))(x := v2)) x) = mv_queue (g x)"
    using v2(1) w by auto
  show ?thesis
    by (rule that [OF t _ set_mq_state [OF set_mq_state [OF K]] O2 q]) (use f f2 in simp_all)
qed

lemma rt_mq_send_ok:
  assumes K: "kernel_state T idle s H Q hs ss" and O: "msgs_ok H B g s" and x: "x \<in> B"
    and free: "mq_free (mq_of s x) \<noteq> 0" and b: "b \<noteq> []" "length b \<le> unat (mq_msg_size (mq_of s x))"
  obtains n s' g' Q' hs' where "rt_mq_send x b s = returns (Back RT_EOK, s')" and "kernel_state T idle s' H Q' hs' ss"
    and "msgs_ok H B g' s'" and "mv_queue (g' x) = mv_queue (g x) @ [(n, b)]" and "Q' x = tl (Q x)"
    and "mq_msg_size (mq_of s' x) = mq_msg_size (mq_of s x)"
    and "Q x \<noteq> [] \<Longrightarrow> thread_stat (hd (Q x)) s' = RT_THREAD_READY \<and>
      th_error (thread_of s' (hd (Q x))) = th_error (thread_of s (hd (Q x)))"
proof -
  obtain n g1 m and s1 :: "'a mq_sys_scheme" where w: "mq_take x s = returns (Back (Inr n), s1)" "m = write_last n b (mq_of s1 x)"
    "kernel_state T idle (set_mq x m s1) H Q hs ss" "msgs_ok H B g1 (set_mq x m s1)"
    "(n, Some (True, b)) \<in> set (mv_writing (g1 x))" "mv_queue (g1 x) = mv_queue (g x)"
    "mq_msg_size m = mq_msg_size (mq_of s x)" "thread_of (set_mq x m s1) = thread_of s"
    by (rule taken_and_written [OF K O x free b(2), where z = True, unfolded if_True]) (rule that)
  obtain v Q' hs' and s' :: "'a mq_sys_scheme" where p: "msg_step (Posted n) (g1 x) = Some v"
    "mq_post x n (set_mq x m s1) = returns (Back RT_EOK, s')" "kernel_state T idle s' H Q' hs' ss"
    "msgs_ok H B (g1(x := v)) s'" "Q' x = tl (Q x)" "mq_of s' = (mq_of (set_mq x m s1))(x := link_last n (mq_of (set_mq x m s1) x))"
    "Q x \<noteq> [] \<Longrightarrow> thread_stat (hd (Q x)) s' = RT_THREAD_READY \<and>
      th_error (thread_of s' (hd (Q x))) = th_error (thread_of (set_mq x m s1) (hd (Q x)))"
    by (rule mq_post_ok [OF w(3,4) x w(5)]) (rule that)
  have "distinct (map fst (mv_writing (g1 x)))" using msg_okD(6) [OF w(4) x] rep_apart(5) by blast
  then have "map_of (mv_writing (g1 x)) n = Some (Some (True, b))" using w(5) by simp
  then have "mv_queue ((g1(x := v)) x) = mv_queue (g x) @ [(n, b)]" using p(1) w(6) by auto
  moreover have "rt_mq_send x b s = returns (Back RT_EOK, s')"
    using free b w(1,2) p(2)
    by (simp add: rt_mq_send_def rt_mq_send_wait_def mq_send_begin_def with_node_def mq_send_end_def)
  moreover have "mq_msg_size (mq_of s' x) = mq_msg_size (mq_of s x)" using p(6) w(7) by simp
  ultimately show ?thesis using that [of s' Q' hs' "g1(x := v)" n] p(3-5,7) w(8) by simp
qed

lemma rt_mq_urgent_ok:
  assumes K: "kernel_state T idle s H Q hs ss" and O: "msgs_ok H B g s" and x: "x \<in> B"
    and free: "mq_free (mq_of s x) \<noteq> 0" and b: "b \<noteq> []" "length b \<le> unat (mq_msg_size (mq_of s x))"
  obtains n s' g' Q' hs' where "rt_mq_urgent x b s = returns (Back RT_EOK, s')" and "kernel_state T idle s' H Q' hs' ss"
    and "msgs_ok H B g' s'" and "mv_queue (g' x) = (n, b) # mv_queue (g x)"
    and "mq_msg_size (mq_of s' x) = mq_msg_size (mq_of s x)"
proof -
  obtain n g1 m and s1 :: "'a mq_sys_scheme" where w: "mq_take x s = returns (Back (Inr n), s1)" "m = write_message n b (mq_of s1 x)"
    "kernel_state T idle (set_mq x m s1) H Q hs ss" "msgs_ok H B g1 (set_mq x m s1)"
    "(n, Some (False, b)) \<in> set (mv_writing (g1 x))" "mv_queue (g1 x) = mv_queue (g x)"
    "mq_msg_size m = mq_msg_size (mq_of s x)"
    by (rule taken_and_written [OF K O x free b(2), where z = False, unfolded if_False]) (rule that)
  obtain v Q' hs' and s' :: "'a mq_sys_scheme" where p: "msg_step (Posted_First n) (g1 x) = Some v"
    "mq_post_first x n (set_mq x m s1) = returns (Back RT_EOK, s')" "kernel_state T idle s' H Q' hs' ss"
    "msgs_ok H B (g1(x := v)) s'" "mq_of s' = (mq_of (set_mq x m s1))(x := link_first n (mq_of (set_mq x m s1) x))"
    by (rule mq_post_first_ok [OF w(3,4) x w(5)]) (rule that)
  have "distinct (map fst (mv_writing (g1 x)))" using msg_okD(6) [OF w(4) x] rep_apart(5) by blast
  then have "map_of (mv_writing (g1 x)) n = Some (Some (False, b))" using w(5) by simp
  then have "mv_queue ((g1(x := v)) x) = (n, b) # mv_queue (g x)" using p(1) w(6) by auto
  moreover have "rt_mq_urgent x b s = returns (Back RT_EOK, s')"
    using free b w(1,2) p(2) by (simp add: rt_mq_urgent_def with_node_def)
  moreover have "mq_msg_size (mq_of s' x) = mq_msg_size (mq_of s x)" using p(5) w(7) by simp
  ultimately show ?thesis using that [of s' Q' hs' "g1(x := v)" n] p(3,4) by simp
qed

lemma rt_mq_recv_ok:
  assumes K: "kernel_state T idle s H Q hs ss" and O: "msgs_ok H B g s" and x: "x \<in> B"
    and q: "mv_queue (g x) = (n, b) # q" and len: "len \<noteq> 0"
  obtains r s' g' Q' hs' where "rt_mq_recv x len 0 s = returns (Back (RT_EOK, Some r), s')"
    and "kernel_state T idle s' H Q' hs' ss" and "msgs_ok H B g' s'" and "mv_queue (g' x) = q"
    and "agree b r" and "length r = min len (unat (mq_msg_size (mq_of s x)))"
proof -
  obtain fs where R: "mq_rep (mq_of s x) (g x) fs" using msg_okD(6) [OF O x] by blast
  have e: "mq_entry (mq_of s x) \<noteq> 0" using mq_repD(5) [OF R] q by auto
  let ?m = "(unlink_first (mq_of s x))\<lparr>mq_entry := mq_entry (mq_of s x) - 1\<rparr>" and ?n = "mq_head (mq_of s x)"
  obtain v where v: "?n \<noteq> 0" "msg_step (Unlinked ?n) (g x) = Some v" "mq_rep ?m v fs" by (rule unlink_first_ok [OF R e])
  let ?s = "set_mq x ?m s"
  have O1: "msgs_ok H B (g(x := v)) ?s" by (rule set_mq_ok [OF O x v(3)]) (simp_all add: unlink_first_def)
  have vq: "?n = n" "mv_queue v = q" "mv_reading v = (n, b) # mv_reading (g x)" using v(2) q by (auto split: if_splits)
  have rd: "?n \<in> fst ` set (mv_reading ((g(x := v)) x))" using vq by simp
  let ?r = "message_bytes ?m n len"
  obtain v' Q' hs' and s' :: "'a mq_sys_scheme" where r: "msg_step (Read n ?r) ((g(x := v)) x) = Some v'"
    "mq_recv_end x len n ?s = returns (Back (RT_EOK, Some ?r), s')" "kernel_state T idle s' H Q' hs' ss"
    "msgs_ok H B (g(x := v, x := v')) s'"
    using mq_recv_end_ok [OF set_mq_state [OF K] O1 x rd, where len = len] unfolding vq(1) set_mq_simps fun_upd_same by metis
  have "agree b ?r" "mv_queue v' = q" using r(1) vq by (auto split: if_splits)
  moreover have "n \<in> nodes (mq_of s x)" using rep_apart(2) [OF R, of n] q by simp
  then have "length ?r = min len (unat (mq_msg_size (mq_of s x)))"
    using mq_repD(9) [OF R] by (simp add: message_bytes_def unlink_first_def min_def)
  moreover have "mq_unlink x s = returns (Back (Inr n), ?s)" using v(1) vq(1) by (simp add: mq_unlink_def Let_def)
  then have "rt_mq_recv x len 0 s = returns (Back (RT_EOK, Some ?r), s')"
    using e len r(2) by (simp add: rt_mq_recv_def mq_recv_begin_def with_node_def)
  ultimately show ?thesis using that [of ?r s' Q' hs' "g(x := v, x := v')"] r(3,4) by simp
qed

subsection \<open>Properties\<close>

text \<open>
  C11: From boot, the sections of any number of sends, urgent sends and receives interleave in any order, with blocking,
  time-outs, resets and removals in between, and every one that may run returns. At every moment each
  node of a pool is in exactly one of the list of free nodes, the list of messages and the hands of one
  call; every received buffer agrees with the message that was sent; and while a queue has neither
  urgent messages nor a reset, its messages leave it in the order in which they were linked.
\<close>

theorem messages_intact:
  assumes "system_given H idle ts [] []" and "queues_given H qs" and "thread_timeouts (threads idle ts) cb"
  shows "\<exists>s0. start_queues idle ts qs (reset_with m) = returns s0 \<and>
      (\<forall>l s. mq_run cb (threads idle ts) idle (a_mq ` set qs) (fresh_views qs g) s0 l s \<longrightarrow>
         (\<exists>g'. msg_steps l (fresh_views qs g) = Some g' \<and>
           (\<forall>a \<in> set qs. (\<exists>fs. mq_rep (mq_of s (a_mq a)) (g' (a_mq a)) fs) \<and>
              (in_order (a_mq a) l \<longrightarrow>
                 messages_in (a_mq a) l (fresh_views qs g) =
                   messages_out (a_mq a) l (fresh_views qs g) @ map snd (mv_queue (g' (a_mq a))))) \<and>
           (\<forall>c. allowed_mq (threads idle ts) idle (a_mq ` set qs) g' s c \<longrightarrow> (\<exists>r. perform_mq cb c s = returns r))))"
proof -
  let ?T = "threads idle ts" and ?B = "a_mq ` set qs" and ?g = "fresh_views qs g"
  obtain s0 Q where s0: "start_queues idle ts qs (reset_with m) = returns s0" "kernel_state ?T idle s0 H Q [] []"
    "msgs_ok H ?B ?g s0" by (rule queues_started [OF assms(1,2), of m g]) (rule that)
  have I0: "msg_inv ?T idle ?B ?g s0" using s0(2,3) by (auto simp: msg_inv_def)
  have d: "distinct (map a_mq qs)" using assms(2) by (simp add: queues_given_def)
  have "\<exists>g'. msg_steps l ?g = Some g' \<and>
      (\<forall>a \<in> set qs. (\<exists>fs. mq_rep (mq_of s (a_mq a)) (g' (a_mq a)) fs) \<and>
         (in_order (a_mq a) l \<longrightarrow>
            messages_in (a_mq a) l ?g = messages_out (a_mq a) l ?g @ map snd (mv_queue (g' (a_mq a))))) \<and>
      (\<forall>c. allowed_mq ?T idle ?B g' s c \<longrightarrow> (\<exists>r. perform_mq cb c s = returns r))"
    if run: "mq_run cb ?T idle ?B ?g s0 l s" for l s
  proof -
    obtain g' where g': "msg_steps l ?g = Some g'" "msg_inv ?T idle ?B g' s" using mq_run_ok [OF run I0 assms(3)] by blast
    have "(\<exists>fs. mq_rep (mq_of s (a_mq a)) (g' (a_mq a)) fs) \<and>
        (in_order (a_mq a) l \<longrightarrow> messages_in (a_mq a) l ?g = messages_out (a_mq a) l ?g @ map snd (mv_queue (g' (a_mq a))))"
      if a: "a \<in> set qs" for a
    proof -
      have "mv_queue (?g (a_mq a)) = []" using fresh_views_at [OF d a] by (simp add: fresh_view_def)
      moreover have "\<exists>fs. mq_rep (mq_of s (a_mq a)) (g' (a_mq a)) fs"
        using g'(2) a msg_okD(6) [of _ ?B g' s "a_mq a"] by (auto simp: msg_inv_def)
      ultimately show ?thesis using messages_conserved [OF g'(1), of "a_mq a"] by auto
    qed
    moreover have "\<exists>r. perform_mq cb c s = returns r" if "allowed_mq ?T idle ?B g' s c" for c
      using perform_mq_kept [OF g'(2) assms(3) that] unfolding msg_kept_def by blast
    ultimately show ?thesis using g'(1) by blast
  qed
  then show ?thesis using s0(1) by blast
qed

text \<open>
  C20: A message that is sent with nobody in between is received: from a queue without messages, the receive after
  a send gives the bytes of the message as far as the buffer of the receiver has room, and leaves the
  queue without messages. An urgent message is received before all messages that are in the queue.
\<close>

theorem message_roundtrip:
  assumes "kernel_state T idle s H Q hs ss" and "msgs_ok H B g s" and "x \<in> B" and "mq_free (mq_of s x) \<noteq> 0"
    and "b \<noteq> []" and "length b \<le> unat (mq_msg_size (mq_of s x))" and "0 < len"
  shows "(mv_queue (g x) = [] \<longrightarrow>
        (\<exists>s1 s2 r g2 Q2 hs2. rt_mq_send x b s = returns (Back RT_EOK, s1) \<and>
           rt_mq_recv x len 0 s1 = returns (Back (RT_EOK, Some r), s2) \<and> take (length b) r = take (length r) b \<and>
           length r = min len (unat (mq_msg_size (mq_of s x))) \<and> kernel_state T idle s2 H Q2 hs2 ss \<and> msgs_ok H B g2 s2 \<and>
           mv_queue (g2 x) = [])) \<and>
      (\<exists>s1 s2 r g2 Q2 hs2. rt_mq_urgent x b s = returns (Back RT_EOK, s1) \<and>
         rt_mq_recv x len 0 s1 = returns (Back (RT_EOK, Some r), s2) \<and> take (length b) r = take (length r) b \<and>
         length r = min len (unat (mq_msg_size (mq_of s x))) \<and> kernel_state T idle s2 H Q2 hs2 ss \<and> msgs_ok H B g2 s2 \<and>
         mv_queue (g2 x) = mv_queue (g x))"
proof -
  have len: "len \<noteq> 0" using assms(7) by simp
  have recv: "\<exists>s2 r g2 Q2 hs2. rt_mq_recv x len 0 s1 = returns (Back (RT_EOK, Some r), s2) \<and>
      take (length b) r = take (length r) b \<and> length r = min len (unat (mq_msg_size (mq_of s x))) \<and>
      kernel_state T idle s2 H Q2 hs2 ss \<and> msgs_ok H B g2 s2 \<and> mv_queue (g2 x) = q"
    if "kernel_state T idle s1 H Q1 hs1 ss" "msgs_ok H B g1 s1" "mv_queue (g1 x) = (n, b) # q"
      "mq_msg_size (mq_of s1 x) = mq_msg_size (mq_of s x)" for g1 n q Q1 hs1 and s1 :: "'a mq_sys_scheme"
    using rt_mq_recv_ok [OF that(1,2) assms(3) that(3) len] that(4) unfolding agree_def by metis
  show ?thesis
  proof (intro conjI impI)
    assume e: "mv_queue (g x) = []"
    obtain n g1 Q1 hs1 and s1 :: "'a mq_sys_scheme" where s1: "rt_mq_send x b s = returns (Back RT_EOK, s1)"
      "kernel_state T idle s1 H Q1 hs1 ss" "msgs_ok H B g1 s1" "mv_queue (g1 x) = mv_queue (g x) @ [(n, b)]"
      "mq_msg_size (mq_of s1 x) = mq_msg_size (mq_of s x)" by (rule rt_mq_send_ok [OF assms(1-6)]) (rule that)
    have "mv_queue (g1 x) = (n, b) # []" using s1(4) e by simp
    then show "\<exists>s1 s2 r g2 Q2 hs2. rt_mq_send x b s = returns (Back RT_EOK, s1) \<and>
        rt_mq_recv x len 0 s1 = returns (Back (RT_EOK, Some r), s2) \<and> take (length b) r = take (length r) b \<and>
        length r = min len (unat (mq_msg_size (mq_of s x))) \<and> kernel_state T idle s2 H Q2 hs2 ss \<and> msgs_ok H B g2 s2 \<and>
        mv_queue (g2 x) = []"
      using recv [OF s1(2,3) _ s1(5)] s1(1) by blast
  next
    obtain n g1 Q1 hs1 and s1 :: "'a mq_sys_scheme" where s1: "rt_mq_urgent x b s = returns (Back RT_EOK, s1)"
      "kernel_state T idle s1 H Q1 hs1 ss" "msgs_ok H B g1 s1" "mv_queue (g1 x) = (n, b) # mv_queue (g x)"
      "mq_msg_size (mq_of s1 x) = mq_msg_size (mq_of s x)" by (rule rt_mq_urgent_ok [OF assms(1-6)]) (rule that)
    show "\<exists>s1 s2 r g2 Q2 hs2. rt_mq_urgent x b s = returns (Back RT_EOK, s1) \<and>
        rt_mq_recv x len 0 s1 = returns (Back (RT_EOK, Some r), s2) \<and> take (length b) r = take (length r) b \<and>
        length r = min len (unat (mq_msg_size (mq_of s x))) \<and> kernel_state T idle s2 H Q2 hs2 ss \<and> msgs_ok H B g2 s2 \<and>
        mv_queue (g2 x) = mv_queue (g x)"
      using recv [OF s1(2-5)] s1(1) by blast
  qed
qed

lemma block_stride: "unat (ucast (n :: u16) + 4 :: u32) = unat n + 4"
proof -
  have "unat n < 2 ^ 16" using unsigned_less [of n] by simp
  then show ?thesis by (simp add: unat_word_ariths unsigned_ucast_eq take_bit_nat_eq_self)
qed

lemma mq_of_lists: "mq_of (upd_lists f s) = mq_of s"
  by (rule mq_of_more) (simp add: upd_lists_def)

text \<open>
  C37: The nodes that \<open>rt_mq_init\<close> makes lie inside the memory it is given, whatever the sizes, also when they are cut
  to 16 bits, and do not overlap.
\<close>

theorem mq_pool_fits:
  "\<exists>s'. rt_mq_init x y pool links blocks n p f s = returns (RT_EOK, s') \<and>
     (\<forall>k < unat (mq_max_msgs (mq_of s' x)).
        pool \<le> message_at (mq_of s' x) k \<and>
        message_at (mq_of s' x) k + 4 + unat (mq_msg_size (mq_of s' x)) \<le> pool + unat p \<and>
        (\<forall>j < k. message_at (mq_of s' x) j + 4 + unat (mq_msg_size (mq_of s' x)) \<le> message_at (mq_of s' x) k))"
proof -
  let ?n = "ucast (align_message n) :: u16"
  let ?m = "new_mq True pool links blocks ?n (pool_count n p) f y"
  have c: "unat (mq_max_msgs ?m) * (unat ?n + 4) \<le> unat p"
  proof -
    have "unat (mq_max_msgs ?m) \<le> unat (p div (ucast ?n + 4))"
      by (simp add: new_mq_fields pool_count_def unsigned_ucast_eq)
    also have "\<dots> = unat p div (unat ?n + 4)"
      by (simp add: unat_div block_stride)
    finally have "unat (mq_max_msgs ?m) * (unat ?n + 4) \<le> (unat p div (unat ?n + 4)) * (unat ?n + 4)" by (rule mult_le_mono1)
    also have "\<dots> \<le> unat p" by simp
    finally show ?thesis .
  qed
  have "message_at ?m k + 4 + unat ?n \<le> pool + unat p" if "k < unat (mq_max_msgs ?m)" for k
  proof -
    have "Suc k * (unat ?n + 4) \<le> unat (mq_max_msgs ?m) * (unat ?n + 4)" by (rule mult_le_mono1) (use that in simp)
    then show ?thesis using c by (simp add: message_at_def new_mq_fields)
  qed
  moreover have "pool \<le> message_at ?m k" for k by (simp add: message_at_def new_mq_fields)
  moreover have "message_at ?m j + 4 + unat ?n \<le> message_at ?m k" if "j < k" for j k
    using nodes_apart [OF that, of ?m] by (simp add: new_mq_fields)
  ultimately show ?thesis
    by (simp add: rt_mq_init_def Let_def pool_count_def new_mq_fields mq_of_lists)
qed

subsection \<open>Instances\<close>

text \<open>The queue 33 with its senders at 34 and three nodes for 8 bytes at address 1000, with the threads 41 and 42.\<close>

definition qsys_more :: "unit mq_sys_ext ipc_ext" where
  "qsys_more = kernel.more (ipc.extend sys (mq_sys.fields (\<lambda>_. new_mq True 1 (\<lambda>_. 0) (\<lambda>_. []) 0 0 0 0)))"

definition qsys_args :: mq_args where
  "qsys_args = \<lparr>a_mq = 33, a_senders = 34, a_pool = 1000, a_links = (\<lambda>_. 0), a_blocks = (\<lambda>_. replicate 8 0),
     a_msg_size = 7, a_pool_size = 36, a_flag = 0\<rparr>"

lemma qsys_size: "block_size qsys_args = 8" "pool_count 7 36 = 3"
  by (simp_all add: qsys_args_def block_size_def align_message_def pool_count_def)

lemma qsys_given: "queues_given heads [qsys_args]"
proof -
  have "args_ok heads qsys_args"
    unfolding args_ok_def qsys_size
    by (simp add: qsys_args_def heads_def rt_thread_defunct_def wait_flag_def RT_IPC_FLAG_FIFO_def)
  then show ?thesis by (simp add: queues_given_def)
qed

definition qsys_timeouts :: "nat \<Rightarrow> mq_sys \<Rightarrow> mq_sys run" where
  "qsys_timeouts t = (if t \<in> {40, 41, 42} then rt_thread_timeout t else (\<lambda>s. returns s))"

theorem messages_intact_witness:
  "\<exists>s0. start_queues 40 [(41, 10, 5), (42, 10, 5)] [qsys_args] (reset_with qsys_more) = returns s0 \<and>
      (\<forall>l s. mq_run qsys_timeouts {40, 41, 42} 40 {33} (fresh_views [qsys_args] (\<lambda>_. fresh_view qsys_args)) s0 l s \<longrightarrow>
         (\<exists>g'. msg_steps l (fresh_views [qsys_args] (\<lambda>_. fresh_view qsys_args)) = Some g' \<and> (\<exists>fs. mq_rep (mq_of s 33) (g' 33) fs)))"
proof -
  have "thread_timeouts {40, 41, 42} qsys_timeouts" by (simp add: thread_timeouts_def qsys_timeouts_def)
  moreover have "a_mq ` set [qsys_args] = {33}" "a_mq qsys_args = 33" by (simp_all add: qsys_args_def)
  ultimately show ?thesis using messages_intact [OF msys_given(1) qsys_given, of qsys_timeouts qsys_more "\<lambda>_. fresh_view qsys_args"] by fastforce
qed

theorem mq_pool_fits_witness:
  "\<exists>s'. rt_mq_init 33 34 1000 (\<lambda>_. 0) (\<lambda>_. []) 7 36 0 (reset_with qsys_more) = returns (RT_EOK, s') \<and>
     (\<forall>k < unat (mq_max_msgs (mq_of s' 33)). 1000 \<le> message_at (mq_of s' 33) k)"
  using mq_pool_fits [of 33 34 1000 "\<lambda>_. 0" "\<lambda>_. []" 7 36 0 "reset_with qsys_more"] by auto

theorem message_roundtrip_witness:
  "\<exists>s0 s1 s2 r. start_queues 40 [(41, 10, 5), (42, 10, 5)] [qsys_args] (reset_with qsys_more) = returns s0 \<and>
     rt_mq_send 33 [1, 2, 3] s0 = returns (Back RT_EOK, s1) \<and>
     rt_mq_recv 33 3 0 s1 = returns (Back (RT_EOK, Some r), s2) \<and> r = [1, 2, 3]"
proof -
  obtain g :: "nat \<Rightarrow> msg_view" where True by blast
  obtain s0 Q where s0: "start_queues 40 [(41, 10, 5), (42, 10, 5)] [qsys_args] (reset_with qsys_more) = returns s0"
    "kernel_state (threads 40 [(41, 10, 5), (42, 10, 5)]) 40 s0 heads Q [] []"
    "msgs_ok heads (a_mq ` set [qsys_args]) (fresh_views [qsys_args] g) s0"
    "\<And>a. a \<in> set [qsys_args] \<Longrightarrow> mq_pool (mq_of s0 (a_mq a)) = a_pool a \<and> mq_msg_size (mq_of s0 (a_mq a)) = block_size a"
    by (rule queues_started [OF msys_given(1) qsys_given, of qsys_more g]) (rule that)
  have x: "33 \<in> a_mq ` set [qsys_args]" "a_mq qsys_args = 33" by (simp_all add: qsys_args_def)
  have v: "fresh_views [qsys_args] g 33 = \<lparr>mv_count = 3, mv_queue = [], mv_writing = [], mv_reading = []\<rparr>"
    by (simp add: x(2) fresh_view_def) (simp add: qsys_args_def qsys_size)
  have size: "mq_msg_size (mq_of s0 33) = 8" using s0(4) [of qsys_args] x(2) qsys_size(1) by simp
  obtain fs where R: "mq_rep (mq_of s0 33) (fresh_views [qsys_args] g 33) fs" using msg_okD(6) [OF s0(3) x(1)] by blast
  have "fs \<noteq> []" using rep_length [OF R] v by (auto simp: in_use_def)
  then have "mq_free (mq_of s0 33) \<noteq> 0" using chain_end [OF mq_repD(2) [OF R]] by simp
  then show ?thesis
    using message_roundtrip [OF s0(2,3) x(1), of "[1, 2, 3]" 3] s0(1) size v by auto
qed

end
