(* ===== verification/ZcHashtable.thy ===== *)
theory ZcHashtable
  imports Prelude "HOL-Library.Multiset"
begin

text \<open>
  The hash table of zlog, \<open>com/zlog/src/zc_hashtable.c\<close>. The chain of a bucket, linked through
  \<open>next\<close> and \<open>prev\<close>, is the list of its entries; an entry is named by its bucket and its place in the
  chain. The hash and equality functions are fields as in the code, the keys and values given to
  the two \<open>del\<close> functions are recorded in order, and whether an allocation succeeds is an argument.
\<close>

subsection \<open>State\<close>

record ('k, 'v) hash_entry =
  hash_key :: u32
  he_key :: 'k
  he_value :: 'v

datatype ('k, 'v) del_event = Key_Del 'k | Value_Del 'v

record ('k, 'v) hashtable =
  nelem :: nat
  tab :: "('k, 'v) hash_entry list list"
  ht_hash :: "'k \<Rightarrow> u32"
  ht_equal :: "'k \<Rightarrow> 'k \<Rightarrow> bool"
  has_key_del :: bool
  has_value_del :: bool
  del_log :: "('k, 'v) del_event list"

definition tab_size :: "('k, 'v) hashtable \<Rightarrow> nat" where
  "tab_size a = length (tab a)"

subsection \<open>Operations\<close>

definition zc_hashtable_new ::
  "bool \<Rightarrow> bool \<Rightarrow> nat \<Rightarrow> ('k \<Rightarrow> u32) \<Rightarrow> ('k \<Rightarrow> 'k \<Rightarrow> bool) \<Rightarrow> bool \<Rightarrow> bool \<Rightarrow> ('k, 'v) hashtable option" where
  "zc_hashtable_new ok1 ok2 a_size hash equal key_del value_del =
     (if \<not> ok1 \<or> \<not> ok2 then None
      else Some \<lparr>nelem = 0, tab = replicate a_size [], ht_hash = hash, ht_equal = equal,
                 has_key_del = key_del, has_value_del = value_del, del_log = []\<rparr>)"

text \<open>The calls of the two \<open>del\<close> functions for one entry.\<close>

definition del_entry :: "('k, 'v) hash_entry \<Rightarrow> ('k, 'v) hashtable \<Rightarrow> ('k, 'v) hashtable" where
  "del_entry p a =
     (let a = (if has_key_del a then a\<lparr>del_log := del_log a @ [Key_Del (he_key p)]\<rparr> else a) in
      if has_value_del a then a\<lparr>del_log := del_log a @ [Value_Del (he_value p)]\<rparr> else a)"

text \<open>\<open>zc_hashtable_del\<close>: what is left is the log, the table itself is freed.\<close>

definition zc_hashtable_del :: "('k, 'v) hashtable \<Rightarrow> ('k, 'v) del_event list" where
  "zc_hashtable_del a = del_log (fold del_entry (concat (tab a)) a)"

definition zc_hashtable_clean :: "('k, 'v) hashtable \<Rightarrow> ('k, 'v) hashtable" where
  "zc_hashtable_clean a =
     (fold del_entry (concat (tab a)) a)\<lparr>tab := replicate (tab_size a) [], nelem := 0\<rparr>"

text \<open>An entry becomes the first of the chain of its hash value.\<close>

definition push_front ::
  "('k, 'v) hash_entry \<Rightarrow> ('k, 'v) hash_entry list list \<Rightarrow> ('k, 'v) hash_entry list list" where
  "push_front p t =
     (let j = unat (hash_key p) mod length t in t[j := p # (t ! j)])"

definition zc_hashtable_rehash :: "bool \<Rightarrow> ('k, 'v) hashtable \<Rightarrow> int \<times> ('k, 'v) hashtable" where
  "zc_hashtable_rehash ok a =
     (if \<not> ok then (- 1, a)
      else (0, a\<lparr>tab := fold push_front (concat (tab a)) (replicate (2 * tab_size a) [])\<rparr>))"

definition bucket :: "('k, 'v) hashtable \<Rightarrow> 'k \<Rightarrow> nat" where
  "bucket a k = unat (ht_hash a k) mod tab_size a"

text \<open>The chain a key is looked up in; an empty table divides by zero.\<close>

definition chain :: "('k, 'v) hashtable \<Rightarrow> 'k \<Rightarrow> stop + ('k, 'v) hash_entry list" where
  "chain a k = (if tab_size a = 0 then Inl (Div_By_Zero ''tab_size'') else Inr (tab a ! bucket a k))"

definition zc_hashtable_get_entry :: "('k, 'v) hashtable \<Rightarrow> 'k \<Rightarrow> stop + ('k, 'v) hash_entry option" where
  "zc_hashtable_get_entry a k =
     bindE (chain a k) (\<lambda>c. Inr (List.find (\<lambda>p. ht_equal a k (he_key p)) c))"

definition zc_hashtable_get :: "('k, 'v) hashtable \<Rightarrow> 'k \<Rightarrow> stop + 'v option" where
  "zc_hashtable_get a k =
     bindE (chain a k) (\<lambda>c. Inr (map_option he_value (List.find (\<lambda>p. ht_equal a k (he_key p)) c)))"

text \<open>The place of the first entry with an equal key, the length of the chain when there is none.\<close>

definition position :: "('k, 'v) hashtable \<Rightarrow> 'k \<Rightarrow> ('k, 'v) hash_entry list \<Rightarrow> nat" where
  "position a k c = length (takeWhile (\<lambda>p. \<not> ht_equal a k (he_key p)) c)"

definition replace_at :: "nat \<Rightarrow> nat \<Rightarrow> 'k \<Rightarrow> 'v \<Rightarrow> ('k, 'v) hashtable \<Rightarrow> ('k, 'v) hashtable" where
  "replace_at i j k v a =
     a\<lparr>tab := (tab a)[i := (tab a ! i)[j := (tab a ! i ! j)\<lparr>he_key := k, he_value := v\<rparr>]]\<rparr>"

text \<open>
  \<open>nelem > tab_size * 1.3\<close> is a comparison of \<open>double\<close> values; for sizes below \<open>2\<^sup>3\<^sup>2\<close> it decides
  \<open>10 * nelem > 13 * tab_size\<close>.
\<close>

definition crowded :: "('k, 'v) hashtable \<Rightarrow> bool" where
  "crowded a \<longleftrightarrow> 10 * nelem a > 13 * tab_size a"

definition insert_entry :: "'k \<Rightarrow> 'v \<Rightarrow> ('k, 'v) hashtable \<Rightarrow> ('k, 'v) hashtable" where
  "insert_entry k v a =
     a\<lparr>tab := push_front \<lparr>hash_key = ht_hash a k, he_key = k, he_value = v\<rparr> (tab a),
       nelem := nelem a + 1\<rparr>"

definition zc_hashtable_put ::
  "bool \<Rightarrow> bool \<Rightarrow> 'k \<Rightarrow> 'v \<Rightarrow> ('k, 'v) hashtable \<Rightarrow> stop + int \<times> ('k, 'v) hashtable" where
  "zc_hashtable_put ok1 ok2 k v a =
     bindE (chain a k) (\<lambda>c.
       let i = bucket a k; j = position a k c in
       if j < length c then Inr (0, replace_at i j k v (del_entry (c ! j) a))
       else
         (let (rc, a) = (if crowded a then zc_hashtable_rehash ok1 a else (0, a)) in
          if rc \<noteq> 0 then Inr (- 1, a)
          else if \<not> ok2 then Inr (- 1, a)
          else Inr (0, insert_entry k v a)))"

definition unlink :: "nat \<Rightarrow> nat \<Rightarrow> ('k, 'v) hashtable \<Rightarrow> ('k, 'v) hashtable" where
  "unlink i j a =
     a\<lparr>tab := (tab a)[i := take j (tab a ! i) @ drop (Suc j) (tab a ! i)], nelem := nelem a - 1\<rparr>"

text \<open>\<open>None\<close> is a \<open>NULL\<close> key.\<close>

definition zc_hashtable_remove :: "'k option \<Rightarrow> ('k, 'v) hashtable \<Rightarrow> stop + ('k, 'v) hashtable" where
  "zc_hashtable_remove key a =
     (case key of
        None \<Rightarrow> Inr a
      | Some k \<Rightarrow>
          bindE (chain a k) (\<lambda>c.
            let i = bucket a k; j = position a k c in
            if j < length c then Inr (unlink i j (del_entry (c ! j) a)) else Inr a))"

subsection \<open>Iteration\<close>

text \<open>The first bucket from \<open>i\<close> on that is not empty.\<close>

definition first_bucket :: "nat \<Rightarrow> ('k, 'v) hashtable \<Rightarrow> nat" where
  "first_bucket i a = i + length (takeWhile (\<lambda>c. c = []) (drop i (tab a)))"

definition entry_at_bucket :: "nat \<Rightarrow> ('k, 'v) hashtable \<Rightarrow> (nat \<times> nat) option" where
  "entry_at_bucket i a = (if first_bucket i a < tab_size a then Some (first_bucket i a, 0) else None)"

definition zc_hashtable_begin :: "('k, 'v) hashtable \<Rightarrow> (nat \<times> nat) option" where
  "zc_hashtable_begin a = entry_at_bucket 0 a"

definition entry_of :: "('k, 'v) hashtable \<Rightarrow> nat \<times> nat \<Rightarrow> ('k, 'v) hash_entry" where
  "entry_of a p = tab a ! fst p ! snd p"

definition zc_hashtable_next :: "('k, 'v) hashtable \<Rightarrow> nat \<times> nat \<Rightarrow> (nat \<times> nat) option" where
  "zc_hashtable_next a p =
     (if Suc (snd p) < length (tab a ! fst p) then Some (fst p, Suc (snd p))
      else entry_at_bucket (Suc (unat (hash_key (entry_of a p)) mod tab_size a)) a)"

text \<open>\<open>zc_hashtable_foreach\<close>: the entries the loop visits from \<open>pos\<close> on, after those in \<open>seen\<close>.\<close>

partial_function (option) foreach_from ::
  "('k, 'v) hashtable \<Rightarrow> (nat \<times> nat) option \<Rightarrow> ('k, 'v) hash_entry list \<Rightarrow> ('k, 'v) hash_entry list option" where
  "foreach_from a pos seen =
     (if pos = None then Some seen
      else foreach_from a (zc_hashtable_next a (the pos)) (seen @ [entry_of a (the pos)]))"

definition zc_hashtable_foreach :: "('k, 'v) hashtable \<Rightarrow> ('k, 'v) hash_entry list option" where
  "zc_hashtable_foreach a = foreach_from a (zc_hashtable_begin a) []"

subsection \<open>String keys\<close>

text \<open>\<open>char\<close> is unsigned, as on the target.\<close>

definition zc_hashtable_str_hash :: "string \<Rightarrow> u32" where
  "zc_hashtable_str_hash str = foldl (\<lambda>h c. (push_bit 5 h + h) + of_nat (of_char c)) 5381 (cstr str)"

definition zc_hashtable_str_equal :: "string \<Rightarrow> string \<Rightarrow> bool" where
  "zc_hashtable_str_equal key1 key2 \<longleftrightarrow> cstr key1 = cstr key2"

end
