(* ===== verification/ZcHashLaws.thy ===== *)
theory ZcHashLaws
  imports ZcHashtable
begin

text \<open>
  The hash table as a map: the invariant, what every operation does to the map, and the order of
  the iteration. The keys are compared up to a class function, for strings the text before the
  terminator.
\<close>

subsection \<open>Chains\<close>

lemma concat_at:
  assumes "j < length t"
  shows "concat t = concat (take j t) @ (t ! j) @ concat (drop (Suc j) t)"
    and "concat (t[j := c]) = concat (take j t) @ c @ concat (drop (Suc j) t)"
  using id_take_nth_drop [OF assms] assms
  by (metis concat.simps(2) concat_append) (simp add: upd_conv_take_nth_drop assms)

text \<open>Every entry stands in the chain of its hash value.\<close>

definition filed :: "('k, 'v) hash_entry list list \<Rightarrow> bool" where
  "filed t \<longleftrightarrow> (\<forall>i < length t. \<forall>p \<in> set (t ! i). unat (hash_key p) mod length t = i)"

lemma push_front_simps:
  assumes "t \<noteq> []"
  shows "length (push_front p t) = length t" and "mset (concat (push_front p t)) = add_mset p (mset (concat t))"
proof -
  let ?j = "unat (hash_key p) mod length t"
  have j: "?j < length t" using assms by simp
  show "length (push_front p t) = length t" by (simp add: push_front_def Let_def)
  show "mset (concat (push_front p t)) = add_mset p (mset (concat t))"
    using arg_cong [OF concat_at(1) [OF j], of mset]
    by (simp add: push_front_def Let_def concat_at(2) [OF j] del: mset_concat)
qed

lemma filed_update:
  assumes "filed t" and "\<And>p. p \<in> set c \<Longrightarrow> unat (hash_key p) mod length t = j"
  shows "filed (t[j := c])"
  using assms by (cases "j < length t") (auto simp: filed_def nth_list_update)

lemma filedD: "filed t \<Longrightarrow> j < length t \<Longrightarrow> p \<in> set (t ! j) \<Longrightarrow> unat (hash_key p) mod length t = j"
  by (simp add: filed_def)

lemma push_front_filed: "t \<noteq> [] \<Longrightarrow> filed t \<Longrightarrow> filed (push_front p t)"
  by (auto simp: filed_def push_front_def Let_def nth_list_update)

lemma push_all:
  assumes "t \<noteq> []" and "filed t"
  shows "filed (fold push_front ps t)" and "length (fold push_front ps t) = length t"
    and "mset (concat (fold push_front ps t)) = mset ps + mset (concat t)"
proof -
  have "fold push_front ps t \<noteq> [] \<and> filed (fold push_front ps t) \<and> length (fold push_front ps t) = length t \<and>
      mset (concat (fold push_front ps t)) = mset ps + mset (concat t)"
    using assms
  proof (induction ps arbitrary: t)
    case (Cons p ps)
    have "push_front p t \<noteq> []" using push_front_simps(1) [OF Cons.prems(1), of p] Cons.prems(1) by auto
    from Cons.IH [OF this push_front_filed [OF Cons.prems]] push_front_simps [OF Cons.prems(1), of p]
    show ?case by simp
  qed simp
  then show "filed (fold push_front ps t)" "length (fold push_front ps t) = length t"
    "mset (concat (fold push_front ps t)) = mset ps + mset (concat t)" by blast+
qed

lemma del_entry_simps [simp]:
  "tab (del_entry p a) = tab a" "nelem (del_entry p a) = nelem a" "tab_size (del_entry p a) = tab_size a"
  "ht_hash (del_entry p a) = ht_hash a" "ht_equal (del_entry p a) = ht_equal a"
  by (simp_all add: del_entry_def Let_def tab_size_def)

lemma position_find:
  "List.find (\<lambda>p. ht_equal a k (he_key p)) c =
   (if position a k c < length c then Some (c ! position a k c) else None)"
  by (induction c) (auto simp: position_def)

subsection \<open>The map\<close>

text \<open>
  What a hash table promises a client: the equality is equality of classes, and equal keys have
  equal hash values.
\<close>

locale keyed =
  fixes cls :: "'k \<Rightarrow> 'c" and eq :: "'k \<Rightarrow> 'k \<Rightarrow> bool" and hash :: "'k \<Rightarrow> u32"
  assumes eq_cls: "eq k k' \<longleftrightarrow> cls k = cls k'"
    and hash_cls: "cls k = cls k' \<Longrightarrow> hash k = hash k'"
begin

definition items :: "('k, 'v) hash_entry list \<Rightarrow> ('c \<times> 'v) list" where
  "items es = map (\<lambda>p. (cls (he_key p), he_value p)) es"

definition table_map :: "('k, 'v) hashtable \<Rightarrow> 'c \<Rightarrow> 'v option" where
  "table_map a = map_of (items (concat (tab a)))"

definition table_ok :: "('k, 'v) hashtable \<Rightarrow> bool" where
  "table_ok a \<longleftrightarrow>
     0 < tab_size a \<and> ht_hash a = hash \<and> ht_equal a = eq \<and> filed (tab a) \<and>
     (\<forall>p \<in> set (concat (tab a)). hash_key p = hash (he_key p)) \<and>
     distinct (map fst (items (concat (tab a)))) \<and> nelem a = length (concat (tab a))"

lemma table_okD:
  assumes "table_ok a"
  shows "0 < tab_size a" "ht_hash a = hash" "ht_equal a = eq" "filed (tab a)"
    "p \<in> set (concat (tab a)) \<Longrightarrow> hash_key p = hash (he_key p)"
    "distinct (map fst (items (concat (tab a))))" "nelem a = length (concat (tab a))"
  using assms by (auto simp: table_ok_def)

lemma items_simps [simp]:
  "items [] = []" "items (p # ps) = (cls (he_key p), he_value p) # items ps"
  "items (ps @ qs) = items ps @ items qs" "length (items ps) = length ps"
  by (simp_all add: items_def)

lemma mset_items: "mset ps = mset qs \<Longrightarrow> mset (items ps) = mset (items qs)"
  by (simp add: items_def)

text \<open>The map depends only on the multiset of the entries.\<close>

lemma items_perm:
  assumes "mset ps = mset qs" and "distinct (map fst (items qs))"
  shows "distinct (map fst (items ps))" and "map_of (items ps) = map_of (items qs)"
proof -
  note M = mset_items [OF assms(1)]
  then have "mset (map fst (items ps)) = mset (map fst (items qs))" by (metis mset_map)
  then show d: "distinct (map fst (items ps))" using assms(2) mset_eq_imp_distinct_iff by blast
  have "set (items ps) = set (items qs)" using M by (rule mset_eq_setD)
  then show "map_of (items ps) = map_of (items qs)" using d assms(2) by (metis map_of_eqI map_of_inject_set set_map)
qed

text \<open>An equal key can only be in the chain of the key.\<close>

lemma key_in_chain:
  assumes ok: "table_ok a" and p: "p \<in> set (concat (tab a))" and c: "cls (he_key p) = cls k"
  shows "p \<in> set (tab a ! bucket a k)"
proof -
  note D = table_okD [OF ok]
  obtain i where i: "i < length (tab a)" "p \<in> set (tab a ! i)"
    using p by (metis (no_types, lifting) UN_E in_set_conv_nth set_concat)
  have "hash_key p = hash k" using D(5) [OF p] hash_cls [OF c] by simp
  moreover have "unat (hash_key p) mod length (tab a) = i" using D(4) i by (auto simp: filed_def)
  ultimately have "bucket a k = i" using D(2) by (simp add: bucket_def tab_size_def)
  then show ?thesis using i by simp
qed

lemma bucket_less: "table_ok a \<Longrightarrow> bucket a k < length (tab a)"
  using table_okD(1) [of a] by (simp add: bucket_def tab_size_def)

lemma chain_eq: "table_ok a \<Longrightarrow> chain a k = Inr (tab a ! bucket a k)"
  using table_okD(1) by (auto simp: chain_def)

lemma find_eq:
  assumes ok: "table_ok a"
  shows "map_option he_value (List.find (\<lambda>p. ht_equal a k (he_key p)) (tab a ! bucket a k)) =
     table_map a (cls k)"
proof (cases "List.find (\<lambda>p. ht_equal a k (he_key p)) (tab a ! bucket a k)")
  case None
  have "(cls k) \<notin> fst ` set (items (concat (tab a)))"
  proof
    assume "cls k \<in> fst ` set (items (concat (tab a)))"
    then obtain p where p: "p \<in> set (concat (tab a))" "cls (he_key p) = cls k" by (force simp: items_def)
    from key_in_chain [OF ok this] show False
      using None p(2) table_okD(3) [OF ok] eq_cls by (auto simp: find_None_iff)
  qed
  then have "map_of (items (concat (tab a))) (cls k) = None" by (simp add: map_of_eq_None_iff)
  then show ?thesis using None by (simp add: table_map_def)
next
  case (Some p)
  then have p: "p \<in> set (tab a ! bucket a k)" "eq k (he_key p)"
    using table_okD(3) [OF ok] by (auto simp: find_Some_iff)
  then have "p \<in> set (concat (tab a))" using bucket_less [OF ok, of k] nth_mem by fastforce
  then have "(cls k, he_value p) \<in> set (items (concat (tab a)))" using p(2) by (auto simp: items_def eq_cls)
  then show ?thesis using Some table_okD(6) [OF ok] by (simp add: table_map_def)
qed

lemma get_map: "table_ok a \<Longrightarrow> zc_hashtable_get a k = Inr (table_map a (cls k))"
  using find_eq [of a k] by (simp add: zc_hashtable_get_def chain_eq)

text \<open>The entries around a place of a chain, before and after a change there.\<close>

definition before :: "('k, 'v) hashtable \<Rightarrow> nat \<Rightarrow> nat \<Rightarrow> ('k, 'v) hash_entry list" where
  "before a i j = concat (take i (tab a)) @ take j (tab a ! i)"

definition behind :: "('k, 'v) hashtable \<Rightarrow> nat \<Rightarrow> nat \<Rightarrow> ('k, 'v) hash_entry list" where
  "behind a i j = drop (Suc j) (tab a ! i) @ concat (drop (Suc i) (tab a))"

lemma around:
  assumes "i < length (tab a)" and "j < length (tab a ! i)"
  shows "concat (tab a) = before a i j @ (tab a ! i ! j) # behind a i j"
    and "concat (tab (replace_at i j k v a)) =
      before a i j @ (tab a ! i ! j)\<lparr>he_key := k, he_value := v\<rparr> # behind a i j"
    and "concat (tab (unlink i j a)) = before a i j @ behind a i j"
  using id_take_nth_drop [OF assms(2)] assms(2)
  by (simp_all add: replace_at_def unlink_def before_def behind_def concat_at(2) [OF assms(1)]
      concat_at(1) [OF assms(1)] upd_conv_take_nth_drop)

lemma map_of_middle:
  assumes "distinct (map fst (xs @ (x, v) # ys))"
  shows "map_of (xs @ (x, w) # ys) = (map_of (xs @ (x, v) # ys))(x \<mapsto> w)"
    and "map_of (xs @ ys) = (map_of (xs @ (x, v) # ys))(x := None)"
proof -
  have n: "map_of xs x = None" "map_of ys x = None"
    using assms by (auto simp: map_of_eq_None_iff)
  show "map_of (xs @ (x, w) # ys) = (map_of (xs @ (x, v) # ys))(x \<mapsto> w)"
    "map_of (xs @ ys) = (map_of (xs @ (x, v) # ys))(x := None)"
    using n by (auto simp: fun_eq_iff map_add_def split: option.splits)
qed

lemma table_size_simps [simp]:
  "tab_size (replace_at i j k v a) = tab_size a" "tab_size (unlink i j a) = tab_size a"
  "length (tab (replace_at i j k v a)) = length (tab a)" "length (tab (unlink i j a)) = length (tab a)"
  by (simp_all add: tab_size_def replace_at_def unlink_def)

lemma found:
  assumes ok: "table_ok a" and j: "position a k (tab a ! bucket a k) < length (tab a ! bucket a k)"
  defines "q \<equiv> tab a ! bucket a k ! position a k (tab a ! bucket a k)"
  shows "cls (he_key q) = cls k" and "hash_key q = hash k"
proof -
  note D = table_okD [OF ok]
  have "ht_equal a k (he_key q)"
    using position_find [of a k "tab a ! bucket a k"] j by (auto simp: q_def find_Some_iff split: if_splits)
  then show c: "cls (he_key q) = cls k" using D(3) eq_cls by simp
  have "q \<in> set (concat (tab a))" using around(1) [OF bucket_less [OF ok] j] by (simp add: q_def)
  then show "hash_key q = hash k" using D(5) hash_cls [OF c] by simp
qed

lemma not_found:
  assumes ok: "table_ok a" and j: "\<not> position a k (tab a ! bucket a k) < length (tab a ! bucket a k)"
  shows "cls k \<notin> set (map fst (items (concat (tab a))))" and "table_map a (cls k) = None"
proof -
  show n: "table_map a (cls k) = None"
    using find_eq [OF ok, of k] j by (simp add: position_find)
  then show "cls k \<notin> set (map fst (items (concat (tab a))))"
    by (simp add: table_map_def map_of_eq_None_iff)
qed

lemma replace_ok:
  assumes ok: "table_ok a" and j: "position a k (tab a ! bucket a k) < length (tab a ! bucket a k)"
    and a'_def: "a' = replace_at (bucket a k) (position a k (tab a ! bucket a k)) k v (del_entry e a)"
  shows "table_ok a'" and "table_map a' = (table_map a)(cls k \<mapsto> v)" and "nelem a' = nelem a"
proof -
  note D = table_okD [OF ok] and F = found [OF ok j]
  let ?i = "bucket a k" and ?j = "position a k (tab a ! bucket a k)"
  let ?q = "tab a ! ?i ! ?j"
  note A = around [OF bucket_less [OF ok] j]
  have c': "concat (tab a') = before a ?i ?j @ ?q\<lparr>he_key := k, he_value := v\<rparr> # behind a ?i ?j"
    using around(2) [of ?i "del_entry e a" ?j k v] bucket_less [OF ok] j
    by (simp add: a'_def before_def behind_def)
  have fsts: "map fst (items (concat (tab a'))) = map fst (items (concat (tab a)))"
    by (simp add: c' A(1) F)
  have "filed (tab a')"
  proof -
    have "unat (hash_key p) mod length (tab a) = ?i"
      if "p \<in> set ((tab a ! ?i)[?j := ?q\<lparr>he_key := k, he_value := v\<rparr>])" for p
    proof -
      have "p = ?q\<lparr>he_key := k, he_value := v\<rparr> \<or> p \<in> set (tab a ! ?i)"
        using that set_update_subset_insert [of "tab a ! ?i"] by fastforce
      then show ?thesis
        using filedD [OF D(4) bucket_less [OF ok]] F(2) D(2) by (auto simp: bucket_def tab_size_def)
    qed
    then show ?thesis using D(4) by (simp add: a'_def replace_at_def filed_update)
  qed
  moreover have "\<forall>p \<in> set (concat (tab a')). hash_key p = hash (he_key p)"
    using D(5) F(2) unfolding c' A(1) by auto
  ultimately show "table_ok a'"
    unfolding table_ok_def using D fsts arg_cong [OF c', of length] arg_cong [OF A(1), of length]
    by (simp add: a'_def replace_at_def tab_size_def)
  show "table_map a' = (table_map a)(cls k \<mapsto> v)"
    using map_of_middle(1) [of "items (before a ?i ?j)" "cls k" "he_value ?q" "items (behind a ?i ?j)" v] D(6)
    by (simp add: table_map_def c' A(1) F(1))
  show "nelem a' = nelem a" by (simp add: a'_def replace_at_def)
qed

lemma unlink_ok:
  assumes ok: "table_ok a" and j: "position a k (tab a ! bucket a k) < length (tab a ! bucket a k)"
    and a'_def: "a' = unlink (bucket a k) (position a k (tab a ! bucket a k)) (del_entry e a)"
  shows "table_ok a'" and "table_map a' = (table_map a)(cls k := None)" and "nelem a' = nelem a - 1"
proof -
  note D = table_okD [OF ok] and F = found [OF ok j]
  let ?i = "bucket a k" and ?j = "position a k (tab a ! bucket a k)"
  let ?q = "tab a ! ?i ! ?j"
  note A = around [OF bucket_less [OF ok] j]
  have c': "concat (tab a') = before a ?i ?j @ behind a ?i ?j"
    using around(3) [of ?i "del_entry e a" ?j] bucket_less [OF ok] j
    by (simp add: a'_def before_def behind_def)
  have "filed (tab a')"
  proof -
    have "unat (hash_key p) mod length (tab a) = ?i"
      if "p \<in> set (take ?j (tab a ! ?i) @ drop (Suc ?j) (tab a ! ?i))" for p
    proof -
      have "p \<in> set (tab a ! ?i)" using that by (auto dest: in_set_takeD in_set_dropD)
      then show ?thesis by (rule filedD [OF D(4) bucket_less [OF ok]])
    qed
    then have "filed ((tab a)[?i := take ?j (tab a ! ?i) @ drop (Suc ?j) (tab a ! ?i)])"
      by (rule filed_update [OF D(4)])
    then show ?thesis by (simp add: a'_def unlink_def)
  qed
  moreover have "\<forall>p \<in> set (concat (tab a')). hash_key p = hash (he_key p)"
    using D(5) unfolding c' A(1) by auto
  moreover have "distinct (map fst (items (concat (tab a'))))" using D(6) unfolding c' A(1) by auto
  ultimately show "table_ok a'"
    unfolding table_ok_def using D arg_cong [OF c', of length] arg_cong [OF A(1), of length]
    by (simp add: a'_def unlink_def tab_size_def)
  show "table_map a' = (table_map a)(cls k := None)"
    using map_of_middle(2) [of "items (before a ?i ?j)" "cls k" "he_value ?q" "items (behind a ?i ?j)"] D(6)
    by (simp add: table_map_def c' A(1) F(1))
  show "nelem a' = nelem a - 1" by (simp add: a'_def unlink_def)
qed

text \<open>Rehashing changes the order of the entries only.\<close>

lemma rehash_ok:
  assumes ok: "table_ok a" and r: "zc_hashtable_rehash True a = (rc, a')"
  shows "rc = 0" and "table_ok a'" and "table_map a' = table_map a" and "nelem a' = nelem a"
    and "del_log a' = del_log a"
proof -
  note D = table_okD [OF ok]
  let ?t = "replicate (2 * tab_size a) ([] :: ('k, 'v) hash_entry list)"
  have a': "a' = a\<lparr>tab := fold push_front (concat (tab a)) ?t\<rparr>" and rc: "rc = 0"
    using r by (auto simp: zc_hashtable_rehash_def)
  have "?t \<noteq> []" "filed ?t" using D(1) by (auto simp: filed_def)
  note P = push_all [OF this, of "concat (tab a)"]
  have m: "mset (concat (tab a')) = mset (concat (tab a))" using P(3) by (simp add: a' concat_replicate_trivial)
  note I = items_perm [OF m D(6)]
  have "set (concat (tab a')) = set (concat (tab a))" using m by (rule mset_eq_setD)
  moreover have "length (concat (tab a')) = length (concat (tab a))" using m by (rule mset_eq_length)
  ultimately show "table_ok a'"
    unfolding table_ok_def using D I(1) P(1,2) by (auto simp: a' tab_size_def)
  show "table_map a' = table_map a" using I(2) by (simp add: table_map_def)
  show "rc = 0" "nelem a' = nelem a" "del_log a' = del_log a" by (simp_all add: a' rc)
qed

lemma insert_ok:
  assumes ok: "table_ok a" and n: "table_map a (cls k) = None"
  shows "table_ok (insert_entry k v a)" and "table_map (insert_entry k v a) = (table_map a)(cls k \<mapsto> v)"
    and "nelem (insert_entry k v a) = nelem a + 1"
proof -
  note D = table_okD [OF ok]
  let ?e = "\<lparr>hash_key = ht_hash a k, he_key = k, he_value = v\<rparr>"
  have ne: "tab a \<noteq> []" using D(1) by (auto simp: tab_size_def)
  note P = push_front_simps [OF ne, of ?e] push_front_filed [OF ne D(4), of ?e]
  have m: "mset (concat (tab (insert_entry k v a))) = mset (?e # concat (tab a))"
    using P(2) by (simp add: insert_entry_def)
  have d: "distinct (map fst (items (?e # concat (tab a))))"
    using D(6) n by (simp add: table_map_def map_of_eq_None_iff)
  note I = items_perm [OF m d]
  have "set (concat (tab (insert_entry k v a))) = insert ?e (set (concat (tab a)))"
    using mset_eq_setD [OF m] by simp
  then have "\<forall>p \<in> set (concat (tab (insert_entry k v a))). hash_key p = hash (he_key p)"
    using D(2,5) by auto
  moreover have "length (concat (tab (insert_entry k v a))) = Suc (length (concat (tab a)))"
    using mset_eq_length [OF m] by simp
  ultimately show "table_ok (insert_entry k v a)"
    unfolding table_ok_def using D I(1) P by (simp add: insert_entry_def tab_size_def)
  show "table_map (insert_entry k v a) = (table_map a)(cls k \<mapsto> v)"
    using I(2) by (simp add: table_map_def)
  show "nelem (insert_entry k v a) = nelem a + 1" by (simp add: insert_entry_def)
qed

theorem put_map:
  assumes ok: "table_ok a"
  shows "\<exists>a'. zc_hashtable_put True True k v a = Inr (0, a') \<and> table_ok a' \<and>
     table_map a' = (table_map a)(cls k \<mapsto> v) \<and>
     nelem a' = (if table_map a (cls k) = None then nelem a + 1 else nelem a)"
proof (cases "position a k (tab a ! bucket a k) < length (tab a ! bucket a k)")
  case True
  have "table_map a (cls k) \<noteq> None"
    using find_eq [OF ok, of k] True by (simp add: position_find) (metis option.simps(3))
  then show ?thesis
    using replace_ok [OF ok True refl] True by (simp add: zc_hashtable_put_def chain_eq [OF ok] Let_def)
next
  case False
  note n = not_found(2) [OF ok False]
  obtain b where b: "(if crowded a then zc_hashtable_rehash True a else (0, a)) = (0, b)"
    and B: "table_ok b" "table_map b = table_map a" "nelem b = nelem a"
  proof (cases "crowded a")
    case True
    obtain rc b where r: "zc_hashtable_rehash True a = (rc, b)" by (cases "zc_hashtable_rehash True a")
    from rehash_ok [OF ok r] show ?thesis using True r that by simp
  next
    case nc: False
    then show ?thesis using ok that [of a] by simp
  qed
  have "zc_hashtable_put True True k v a = Inr (0, insert_entry k v b)"
    using False b by (simp add: zc_hashtable_put_def chain_eq [OF ok] Let_def)
  then show ?thesis using insert_ok [OF B(1), of k v] B(2,3) n by simp
qed

theorem remove_map:
  assumes ok: "table_ok a"
  shows "\<exists>a'. zc_hashtable_remove (Some k) a = Inr a' \<and> table_ok a' \<and>
     table_map a' = (table_map a)(cls k := None) \<and>
     nelem a' = (if table_map a (cls k) = None then nelem a else nelem a - 1)"
proof (cases "position a k (tab a ! bucket a k) < length (tab a ! bucket a k)")
  case True
  have "table_map a (cls k) \<noteq> None"
    using find_eq [OF ok, of k] True by (simp add: position_find) (metis option.simps(3))
  then show ?thesis
    using unlink_ok [OF ok True refl] True by (auto simp: zc_hashtable_remove_def chain_eq [OF ok] Let_def)
next
  case False
  note n = not_found(2) [OF ok False]
  then have "(table_map a)(cls k := None) = table_map a" by auto
  then show ?thesis
    using False n ok by (simp add: zc_hashtable_remove_def chain_eq [OF ok] Let_def)
qed

lemma new_ok:
  assumes "zc_hashtable_new ok1 ok2 n hash eq kd vd = Some a" and "0 < n"
  shows "table_ok a" and "table_map a = Map.empty"
  using assms
  by (auto simp: zc_hashtable_new_def table_ok_def table_map_def tab_size_def filed_def
      concat_replicate_trivial split: if_splits)

end

text \<open>String tables: equal strings hash alike.\<close>

interpretation str_table: keyed cstr zc_hashtable_str_equal zc_hashtable_str_hash
  by unfold_locales (simp_all add: zc_hashtable_str_equal_def zc_hashtable_str_hash_def)

subsection \<open>Iteration\<close>

text \<open>The entries from a place on, in the order of the buckets and chains.\<close>

definition rest_from :: "('k, 'v) hashtable \<Rightarrow> (nat \<times> nat) option \<Rightarrow> ('k, 'v) hash_entry list" where
  "rest_from a pos =
     (case pos of None \<Rightarrow> [] | Some (i, j) \<Rightarrow> drop j (tab a ! i) @ concat (drop (Suc i) (tab a)))"

lemma concat_skip: "concat cs = concat (dropWhile (\<lambda>c. c = []) cs)"
  by (induction cs) auto

lemma entry_at_bucket_rest:
  shows "rest_from a (entry_at_bucket i a) = concat (drop i (tab a))"
  and "entry_at_bucket i a = Some p \<Longrightarrow> i \<le> fst p \<and> fst p < tab_size a \<and> snd p < length (tab a ! fst p)"
proof -
  let ?n = "length (takeWhile (\<lambda>c. c = []) (drop i (tab a)))"
  have d: "drop (i + ?n) (tab a) = dropWhile (\<lambda>c. c = []) (drop i (tab a))"
    by (simp add: dropWhile_eq_drop add.commute)
  have c: "concat (drop i (tab a)) = concat (drop (i + ?n) (tab a))"
    unfolding d by (rule concat_skip)
  show "rest_from a (entry_at_bucket i a) = concat (drop i (tab a))"
  proof (cases "i + ?n < length (tab a)")
    case True
    then show ?thesis
      using c arg_cong [OF Cons_nth_drop_Suc [OF True], of concat] by (simp add: rest_from_def entry_at_bucket_def first_bucket_def tab_size_def)
  next
    case False
    then show ?thesis using c by (simp add: rest_from_def entry_at_bucket_def first_bucket_def tab_size_def)
  qed
  show "entry_at_bucket i a = Some p \<Longrightarrow> i \<le> fst p \<and> fst p < tab_size a \<and> snd p < length (tab a ! fst p)"
  proof -
    assume e: "entry_at_bucket i a = Some p"
    then have lt: "i + ?n < length (tab a)" and p: "p = (i + ?n, 0)"
      by (auto simp: entry_at_bucket_def first_bucket_def tab_size_def split: if_splits)
    have "dropWhile (\<lambda>c. c = []) (drop i (tab a)) \<noteq> []" using lt by (simp flip: d)
    from hd_dropWhile [OF this] have "tab a ! (i + ?n) \<noteq> []" using lt by (simp add: hd_drop_conv_nth flip: d)
    then show ?thesis using lt p by (simp add: tab_size_def)
  qed
qed

lemma next_rest:
  assumes "filed (tab a)" and "fst p < tab_size a" and "snd p < length (tab a ! fst p)"
  shows "rest_from a (Some p) = entry_of a p # rest_from a (zc_hashtable_next a p)"
    and "zc_hashtable_next a p = Some q \<Longrightarrow> fst q < tab_size a \<and> snd q < length (tab a ! fst q)"
proof -
  obtain i j where p: "p = (i, j)" by (cases p)
  have i: "i < length (tab a)" "j < length (tab a ! i)" using assms p by (simp_all add: tab_size_def)
  then have h: "unat (hash_key (entry_of a p)) mod tab_size a = i"
    using filedD [OF assms(1) i(1), of "tab a ! i ! j"] by (simp add: p entry_of_def tab_size_def)
  have "rest_from a (zc_hashtable_next a p) = drop (Suc j) (tab a ! i) @ concat (drop (Suc i) (tab a))"
    using entry_at_bucket_rest(1) [of a "Suc i"] h
    by (auto simp: zc_hashtable_next_def p rest_from_def)
  then show "rest_from a (Some p) = entry_of a p # rest_from a (zc_hashtable_next a p)"
    using Cons_nth_drop_Suc [OF i(2)] by (simp add: rest_from_def p entry_of_def)
  show "zc_hashtable_next a p = Some q \<Longrightarrow> fst q < tab_size a \<and> snd q < length (tab a ! fst q)"
    using entry_at_bucket_rest(2) [of "Suc i" a q] h i
    by (auto simp: zc_hashtable_next_def p tab_size_def split: if_splits)
qed

lemma foreach_from_rest:
  assumes "filed (tab a)" and "\<And>p. pos = Some p \<Longrightarrow> fst p < tab_size a \<and> snd p < length (tab a ! fst p)"
  shows "foreach_from a pos seen = Some (seen @ rest_from a pos)"
  using assms(2)
proof (induction "rest_from a pos" arbitrary: pos seen)
  case Nil
  have "pos = None"
  proof (rule ccontr)
    assume "pos \<noteq> None"
    then obtain p where "pos = Some p" by auto
    with next_rest(1) [OF assms(1), of p] Nil show False by auto
  qed
  then show ?case by (subst foreach_from.simps) (simp add: rest_from_def)
next
  case (Cons e es)
  then obtain p where p: "pos = Some p" by (cases pos) (auto simp: rest_from_def)
  note P = Cons.prems [OF p]
  note N = next_rest [OF assms(1) P [THEN conjunct1] P [THEN conjunct2]]
  have "es = rest_from a (zc_hashtable_next a p)" using N(1) Cons.hyps(2) p by simp
  from Cons.hyps(1) [OF this N(2)]
  have "foreach_from a (zc_hashtable_next a p) (seen @ [entry_of a p]) =
      Some ((seen @ [entry_of a p]) @ rest_from a (zc_hashtable_next a p))" by blast
  then show ?case using p N(1) by (subst foreach_from.simps) simp
qed

lemma foreach_concat:
  assumes "filed (tab a)"
  shows "zc_hashtable_foreach a = Some (concat (tab a))"
  using foreach_from_rest [OF assms, of "zc_hashtable_begin a" "[]"] entry_at_bucket_rest(1) [of a 0]
    entry_at_bucket_rest(2) [of 0 a]
  by (simp add: zc_hashtable_foreach_def zc_hashtable_begin_def)

end
