(* ===== verification/ZcArrayList.thy ===== *)
theory ZcArrayList
  imports Prelude "HOL-Library.Multiset"
begin

text \<open>
  The growing array of zlog, \<open>com/zlog/src/zc_arraylist.c\<close>. A slot holds a pointer: \<open>None\<close> is
  \<open>NULL\<close>. Whether an allocation succeeds is an argument, the elements given to the \<open>del\<close> function
  are recorded in order, and every access of the array is checked.
\<close>

subsection \<open>Operations\<close>

definition ARRAY_LIST_DEFAULT_SIZE :: int where "ARRAY_LIST_DEFAULT_SIZE = 32"

record 'a arraylist =
  al_array :: "'a option list"
  al_len :: int
  al_size :: int
  al_del :: bool
  al_deleted :: "'a list"

definition zc_arraylist_new :: "bool \<Rightarrow> bool \<Rightarrow> bool \<Rightarrow> 'a arraylist option" where
  "zc_arraylist_new del ok1 ok2 =
     (if ok1 \<and> ok2 then
        Some \<lparr>al_array = replicate (nat ARRAY_LIST_DEFAULT_SIZE) None, al_len = 0,
              al_size = ARRAY_LIST_DEFAULT_SIZE, al_del = del, al_deleted = []\<rparr>
      else None)"

text \<open>The elements \<open>zc_arraylist_del\<close> gives to the \<open>del\<close> function before it frees the list.\<close>

definition zc_arraylist_del :: "'a arraylist \<Rightarrow> 'a list" where
  "zc_arraylist_del a =
     (if al_del a then al_deleted a @ List.map_filter (\<lambda>x. x) (take (nat (al_len a)) (al_array a))
      else al_deleted a)"

definition slot :: "'a arraylist \<Rightarrow> int \<Rightarrow> stop + 'a option" where
  "slot a i =
     (if 0 \<le> i \<and> nat i < length (al_array a) then Inr (al_array a ! nat i)
      else Inl (Out_Of_Bounds ''array''))"

definition zc_arraylist_expand_inner :: "bool \<Rightarrow> int \<Rightarrow> 'a arraylist \<Rightarrow> int \<times> 'a arraylist" where
  "zc_arraylist_expand_inner ok mx a =
     (if \<not> ok then (- 1, a)
      else
        (let new_size = max (al_size a * 2) mx; diff_size = new_size - al_size a in
         (0, a\<lparr>al_array := al_array a @ replicate (nat diff_size) None, al_size := new_size\<rparr>)))"

definition delete_old :: "'a option \<Rightarrow> 'a arraylist \<Rightarrow> 'a arraylist" where
  "delete_old x a =
     (case x of Some y \<Rightarrow> if al_del a then a\<lparr>al_deleted := al_deleted a @ [y]\<rparr> else a | None \<Rightarrow> a)"

definition zc_arraylist_set :: "bool \<Rightarrow> int \<Rightarrow> 'a option \<Rightarrow> 'a arraylist \<Rightarrow> stop + int \<times> 'a arraylist" where
  "zc_arraylist_set ok idx data a =
     (let (rc, a) = (if idx > al_size a - 1 then zc_arraylist_expand_inner ok idx a else (0, a)) in
      if rc \<noteq> 0 then Inr (- 1, a)
      else bindE (slot a idx) (\<lambda>old.
        (let a = (delete_old old a)\<lparr>al_array := (al_array a)[nat idx := data]\<rparr> in
         Inr (0, if al_len a \<le> idx then a\<lparr>al_len := idx + 1\<rparr> else a))))"

definition zc_arraylist_add :: "bool \<Rightarrow> 'a option \<Rightarrow> 'a arraylist \<Rightarrow> stop + int \<times> 'a arraylist" where
  "zc_arraylist_add ok data a = zc_arraylist_set ok (al_len a) data a"

text \<open>\<open>memmove (array + idx + 1, array + idx, len - idx)\<close>.\<close>

definition shift_up :: "int \<Rightarrow> 'a arraylist \<Rightarrow> stop + 'a arraylist" where
  "shift_up idx a =
     (if nat (al_len a) < length (al_array a) then
        Inr (a\<lparr>al_array := write_at (nat idx + 1)
                 (take (nat (al_len a - idx)) (drop (nat idx) (al_array a))) (al_array a)\<rparr>)
      else Inl (Out_Of_Bounds ''array''))"

definition zc_arraylist_insert_inner ::
  "bool \<Rightarrow> int \<Rightarrow> 'a option \<Rightarrow> 'a arraylist \<Rightarrow> stop + int \<times> 'a arraylist" where
  "zc_arraylist_insert_inner ok idx data a =
     bindE (slot a idx) (\<lambda>x.
       if x = None then Inr (0, a\<lparr>al_array := (al_array a)[nat idx := data]\<rparr>)
       else
         (let (rc, a) = (if al_len a > al_size a - 1 then zc_arraylist_expand_inner ok 0 a else (0, a)) in
          if rc \<noteq> 0 then Inr (- 1, a)
          else bindE (shift_up idx a) (\<lambda>a.
            Inr (0, a\<lparr>al_array := (al_array a)[nat idx := data], al_len := al_len a + 1\<rparr>))))"

text \<open>The loop of \<open>zc_arraylist_sortadd\<close> over the elements below \<open>len\<close>.\<close>

fun sort_pos :: "('a option \<Rightarrow> 'a option \<Rightarrow> int) \<Rightarrow> 'a option \<Rightarrow> 'a option list \<Rightarrow> int \<Rightarrow> int" where
  "sort_pos cmp data [] i = i"
| "sort_pos cmp data (x # xs) i = (if cmp x data > 0 then i else sort_pos cmp data xs (i + 1))"

definition zc_arraylist_sortadd ::
  "bool \<Rightarrow> ('a option \<Rightarrow> 'a option \<Rightarrow> int) \<Rightarrow> 'a option \<Rightarrow> 'a arraylist \<Rightarrow> stop + int \<times> 'a arraylist" where
  "zc_arraylist_sortadd ok cmp data a =
     (let i = sort_pos cmp data (take (nat (al_len a)) (al_array a)) 0 in
      if i = al_len a then zc_arraylist_add ok data a else zc_arraylist_insert_inner ok i data a)"

definition zc_arraylist_get :: "'a arraylist \<Rightarrow> int \<Rightarrow> stop + 'a option" where
  "zc_arraylist_get a i = (if i \<ge> al_len a then Inr None else slot a i)"

subsection \<open>The invariant\<close>

text \<open>\<open>size\<close> is the size of the array, and the slots from \<open>len\<close> on are empty.\<close>

definition al_ok :: "'a arraylist \<Rightarrow> bool" where
  "al_ok a \<longleftrightarrow>
     int (length (al_array a)) = al_size a \<and> 0 < al_size a \<and> 0 \<le> al_len a \<and> al_len a \<le> al_size a \<and>
     (\<forall>x \<in> set (drop (nat (al_len a)) (al_array a)). x = None)"

definition contents :: "'a arraylist \<Rightarrow> 'a option list" where
  "contents a = take (nat (al_len a)) (al_array a)"

lemma al_okD:
  assumes "al_ok a"
  shows "length (al_array a) = nat (al_size a)" "0 < al_size a" "0 \<le> al_len a" "al_len a \<le> al_size a"
    "nat (al_len a) \<le> length (al_array a)" "length (contents a) = nat (al_len a)"
    "al_array a = contents a @ replicate (nat (al_size a - al_len a)) None"
proof -
  show L: "length (al_array a) = nat (al_size a)" "0 < al_size a" "0 \<le> al_len a" "al_len a \<le> al_size a"
    "nat (al_len a) \<le> length (al_array a)" "length (contents a) = nat (al_len a)"
    using assms by (auto simp: al_ok_def contents_def)
  have "drop (nat (al_len a)) (al_array a) = replicate (nat (al_size a - al_len a)) None"
    using assms L by (intro replicate_eqI) (auto simp: al_ok_def)
  then show "al_array a = contents a @ replicate (nat (al_size a - al_len a)) None"
    by (metis append_take_drop_id contents_def)
qed

text \<open>A list is well formed when its array is its contents and empty slots.\<close>

lemma al_okI:
  assumes "al_array a = cs @ replicate k None" and "al_len a = int (length cs)"
    and "al_size a = int (length cs + k)" and "0 < al_size a"
  shows "al_ok a" and "contents a = cs"
  using assms by (auto simp: al_ok_def contents_def)

lemma zc_arraylist_new_ok:
  assumes "zc_arraylist_new d ok1 ok2 = Some a"
  shows "al_ok a" and "contents a = []"
  using assms al_okI [of a "[]" 32] by (auto simp: zc_arraylist_new_def ARRAY_LIST_DEFAULT_SIZE_def split: if_splits)

subsection \<open>Growing and setting\<close>

lemma expand_ok:
  assumes "al_ok a" and "zc_arraylist_expand_inner True mx a = (rc, a')"
  shows "rc = 0" and "al_ok a'" and "contents a' = contents a" and "al_len a' = al_len a"
    and "al_size a' = max (2 * al_size a) mx" and "al_del a' = al_del a" and "al_deleted a' = al_deleted a"
proof -
  note A = al_okD [OF assms(1)]
  have e: "a' = a\<lparr>al_array := al_array a @ replicate (nat (max (al_size a * 2) mx - al_size a)) None,
                  al_size := max (al_size a * 2) mx\<rparr>" and "rc = 0"
    using assms(2) by (auto simp: zc_arraylist_expand_inner_def Let_def)
  let ?k = "nat (al_size a - al_len a) + nat (max (al_size a * 2) mx - al_size a)"
  have arr: "al_array a' = contents a @ replicate ?k None"
    by (subst e) (simp add: A(7) [symmetric] replicate_add flip: append_assoc)
  have sz: "al_size a' = int (length (contents a) + ?k)" "0 < al_size a'" "al_len a' = int (length (contents a))"
    using A(2-4,6) e by auto
  show "al_ok a'" "contents a' = contents a" using al_okI [OF arr sz(3,1,2)] by blast+
  show "rc = 0" "al_len a' = al_len a" "al_size a' = max (2 * al_size a) mx" "al_del a' = al_del a"
    "al_deleted a' = al_deleted a"
    using e \<open>rc = 0\<close> by (simp_all add: mult.commute)
qed

text \<open>The contents after a store at \<open>idx\<close>: an update, or an extension with empty slots.\<close>

definition put_slot :: "nat \<Rightarrow> 'a option \<Rightarrow> 'a option list \<Rightarrow> 'a option list" where
  "put_slot i d cs = (if i < length cs then cs[i := d] else cs @ replicate (i - length cs) None @ [d])"

lemma update_replicate:
  "(replicate j x @ replicate (Suc k) x)[j := d] = replicate j x @ d # replicate k x"
  using list_update_length [of "replicate j x" x "replicate k x" d] by simp

lemma store_ok:
  assumes A: "al_ok a" and i: "0 \<le> idx" "idx < al_size a"
    and b: "al_array b = (al_array a)[nat idx := d]" "al_size b = al_size a"
      "al_len b = (if al_len a \<le> idx then idx + 1 else al_len a)"
  shows "al_ok b" and "contents b = put_slot (nat idx) d (contents a)"
proof -
  note A = al_okD [OF A]
  let ?cs = "put_slot (nat idx) d (contents a)"
  let ?k = "nat (al_size a - al_len b)"
  have len: "al_len b = int (length ?cs)" "al_size b = int (length ?cs + ?k)" "0 < al_size b"
    using i b A(2-4,6) by (auto simp: put_slot_def)
  have arr: "al_array b = ?cs @ replicate ?k None"
  proof (cases "idx < al_len a")
    case True
    then show ?thesis using i b A(3,6) by (simp add: put_slot_def A(7) list_update_append)
  next
    case False
    obtain j where j: "nat idx = nat (al_len a) + j" using False A(3) i
      by (metis le_add_diff_inverse nat_le_eq_zle linorder_not_less)
    have k: "nat (al_size a - al_len a) = j + Suc ?k" using False b(3) j i A(3,4) by auto
    have "(replicate (j + Suc ?k) None)[j := d] = replicate j None @ d # replicate ?k (None :: 'a option)"
      by (simp only: replicate_add update_replicate)
    then show ?thesis
      using False A(3,6) j k b by (simp add: put_slot_def A(7) list_update_append del: replicate_Suc)
  qed
  show "al_ok b" "contents b = ?cs" using al_okI [OF arr len] by blast+
qed

text \<open>
  A set below twice the size succeeds; at twice the size or beyond, the grown array has exactly
  \<open>idx\<close> slots and the store misses it by one.
\<close>

lemma delete_old_simps [simp]:
  "al_array (delete_old x a) = al_array a" "al_size (delete_old x a) = al_size a"
  "al_len (delete_old x a) = al_len a"
  by (simp_all add: delete_old_def split: option.splits)

lemma set_in_place:
  assumes A: "al_ok a" and i: "0 \<le> idx" "idx < al_size a"
  obtains a' where "zc_arraylist_set ok idx d a = Inr (0, a')" and "al_ok a'"
    and "contents a' = put_slot (nat idx) d (contents a)" and "al_size a' = al_size a"
proof -
  let ?b = "(delete_old (al_array a ! nat idx) a)\<lparr>al_array := (al_array a)[nat idx := d]\<rparr>"
  let ?c = "if al_len a \<le> idx then ?b\<lparr>al_len := idx + 1\<rparr> else ?b"
  have "slot a idx = Inr (al_array a ! nat idx)"
    using i al_okD(1) [OF A] by (simp add: slot_def)
  then have "zc_arraylist_set ok idx d a = Inr (0, ?c)"
    using i by (simp add: zc_arraylist_set_def Let_def)
  moreover have "al_ok ?c" "contents ?c = put_slot (nat idx) d (contents a)"
    by (rule store_ok [OF A i]; simp)+
  ultimately show ?thesis by (rule that) simp
qed

lemma set_ok:
  assumes A: "al_ok a" and i: "0 \<le> idx" "idx < 2 * al_size a"
  shows "\<exists>a'. zc_arraylist_set True idx d a = Inr (0, a') \<and> al_ok a' \<and>
     contents a' = put_slot (nat idx) d (contents a) \<and>
     al_size a' = (if idx < al_size a then al_size a else 2 * al_size a)"
proof (cases "idx < al_size a")
  case True
  from set_in_place [OF A i(1) this] True show ?thesis by metis
next
  case False
  obtain b where b: "zc_arraylist_expand_inner True idx a = (0, b)"
    by (simp add: zc_arraylist_expand_inner_def Let_def)
  note B = expand_ok [OF A b]
  have sz: "al_size b = 2 * al_size a" using B(5) i False by simp
  then have "idx < al_size b" using i by simp
  from set_in_place [OF B(2) i(1) this, of True d]
  obtain a' where a': "zc_arraylist_set True idx d b = Inr (0, a')" "al_ok a'"
    "contents a' = put_slot (nat idx) d (contents b)" "al_size a' = al_size b" by blast
  moreover have "zc_arraylist_set True idx d a = zc_arraylist_set True idx d b"
    using b False \<open>idx < al_size b\<close> by (simp add: zc_arraylist_set_def)
  ultimately show ?thesis using B(3) sz False by auto
qed

lemma set_beyond:
  assumes A: "al_ok a" and i: "2 * al_size a \<le> idx"
  shows "zc_arraylist_set True idx d a = Inl (Out_Of_Bounds ''array'')"
proof -
  obtain b where b: "zc_arraylist_expand_inner True idx a = (0, b)"
    by (simp add: zc_arraylist_expand_inner_def Let_def)
  note B = expand_ok [OF A b]
  have "nat idx = length (al_array b)" using B(5) i al_okD(1) [OF B(2)] by simp
  then have "slot b idx = Inl (Out_Of_Bounds ''array'')" by (simp add: slot_def)
  then show ?thesis
    using b i al_okD(2) [OF A] by (simp add: zc_arraylist_set_def)
qed

lemma add_ok:
  assumes "al_ok a"
  shows "\<exists>a'. zc_arraylist_add True d a = Inr (0, a') \<and> al_ok a' \<and> contents a' = contents a @ [d]"
proof -
  note A = al_okD [OF assms]
  have "put_slot (nat (al_len a)) d (contents a) = contents a @ [d]" using A(6) by (simp add: put_slot_def)
  then show ?thesis
    using set_ok [OF assms A(3), of d] A by (auto simp: zc_arraylist_add_def)
qed

subsection \<open>Sorted insertion\<close>

lemma sort_pos_eq:
  "sort_pos cmp d xs i = i + int (length (takeWhile (\<lambda>x. \<not> cmp x d > 0) xs))"
  by (induction xs arbitrary: i) auto

lemma shift_up_ok:
  assumes A: "al_ok a" and i: "idx \<le> al_len a" "0 \<le> idx" and room: "al_len a < al_size a"
  obtains b where "shift_up idx a = Inr b" and "al_size b = al_size a" and "al_len b = al_len a"
    and "\<And>d. al_ok (b\<lparr>al_array := (al_array b)[nat idx := d], al_len := al_len b + 1\<rparr>)"
    and "\<And>d. contents (b\<lparr>al_array := (al_array b)[nat idx := d], al_len := al_len b + 1\<rparr>) =
          take (nat idx) (contents a) @ d # drop (nat idx) (contents a)"
proof -
  note A = al_okD [OF A]
  let ?c = "contents a" and ?i = "nat idx" and ?k = "nat (al_size a - al_len a) - 1"
  have arr: "al_array a = ?c @ None # replicate ?k None"
    using A(7) room by (metis diff_Suc_1 gr0_implies_Suc replicate_Suc zero_less_diff zless_nat_conj zless_nat_eq_int_zless nat_0_iff not_le Suc_pred zero_less_nat_eq diff_gt_0_iff_gt)
  have i': "?i \<le> length ?c" using i A(6) by simp
  let ?b = "a\<lparr>al_array := write_at (?i + 1) (take (nat (al_len a - idx)) (drop ?i (al_array a))) (al_array a)\<rparr>"
  have cut: "take (nat (al_len a - idx)) (drop ?i (al_array a)) = drop ?i ?c"
    using arr i A(3,6) by (simp add: nat_diff_distrib)
  have "length ?c < length (al_array a)" by (simp add: arr)
  then have s: "shift_up idx a = Inr ?b" using A(6) by (simp add: shift_up_def)
  have B: "(al_array ?b)[?i := d] = (take ?i ?c @ d # drop ?i ?c) @ replicate ?k None" for d
  proof -
    have len: "length (drop ?i ?c) = length ?c - ?i" by simp
    have "al_array ?b = take (?i + 1) (al_array a) @ drop ?i ?c @ drop (length ?c + 1) (al_array a)"
      using i' by (simp add: cut write_at_def)
    also have "drop (length ?c + 1) (al_array a) = replicate ?k None" by (simp add: arr)
    also have "take (?i + 1) (al_array a) = take ?i ?c @ [al_array a ! ?i]"
      using i' take_Suc_conv_app_nth [of ?i "al_array a"] by (simp add: arr)
    finally show ?thesis using i' by (simp add: list_update_append)
  qed
  let ?d = "\<lambda>d. ?b\<lparr>al_array := (al_array ?b)[?i := d], al_len := al_len ?b + 1\<rparr>"
  have "al_ok (?d d) \<and> contents (?d d) = take ?i ?c @ d # drop ?i ?c" for d
    using al_okI [of "?d d" "take ?i ?c @ d # drop ?i ?c" ?k] B [of d] i' A(2-4,6) room by simp
  then show ?thesis using s that [of ?b] by simp
qed

lemma insert_inner_ok:
  assumes A: "al_ok a" and i: "0 \<le> idx" "idx < al_len a" and x: "contents a ! nat idx \<noteq> None"
  shows "\<exists>a'. zc_arraylist_insert_inner True idx d a = Inr (0, a') \<and> al_ok a' \<and>
     contents a' = take (nat idx) (contents a) @ d # drop (nat idx) (contents a)"
proof -
  note D = al_okD [OF A]
  have s: "slot a idx = Inr (contents a ! nat idx)"
    using i D(1,4,6) by (simp add: slot_def D(7) nth_append)
  obtain b where e: "(if al_len a > al_size a - 1 then zc_arraylist_expand_inner True 0 a else (0, a)) = (0, b)"
    and B: "al_ok b" "contents b = contents a" "al_len b = al_len a" "al_len b < al_size b"
  proof (cases "al_len a > al_size a - 1")
    case True
    obtain b where b: "zc_arraylist_expand_inner True 0 a = (0, b)"
      by (simp add: zc_arraylist_expand_inner_def Let_def)
    from expand_ok [OF A b] D(2,4) show ?thesis using True b that [of b] by simp
  next
    case False
    then show ?thesis using that [of a] A by simp
  qed
  obtain c where c: "shift_up idx b = Inr c" "al_len c = al_len b"
    and C: "\<And>d. al_ok (c\<lparr>al_array := (al_array c)[nat idx := d], al_len := al_len c + 1\<rparr>)"
      "\<And>d. contents (c\<lparr>al_array := (al_array c)[nat idx := d], al_len := al_len c + 1\<rparr>) =
         take (nat idx) (contents b) @ d # drop (nat idx) (contents b)"
    by (rule shift_up_ok [OF B(1), of idx]) (use i B(3,4) in simp_all)
  have "zc_arraylist_insert_inner True idx d a =
      Inr (0, c\<lparr>al_array := (al_array c)[nat idx := d], al_len := al_len c + 1\<rparr>)"
    using s x e c(1) by (auto simp: zc_arraylist_insert_inner_def)
  then show ?thesis using C B(2) by simp
qed

text \<open>The comparison agrees with a key.\<close>

definition compares :: "('a option \<Rightarrow> 'a option \<Rightarrow> int) \<Rightarrow> ('a \<Rightarrow> 'k :: linorder) \<Rightarrow> bool" where
  "compares cmp key \<longleftrightarrow> (\<forall>x y. cmp (Some x) (Some y) > 0 \<longleftrightarrow> key y < key x)"

definition insert_after :: "('a \<Rightarrow> 'k :: linorder) \<Rightarrow> 'a \<Rightarrow> 'a list \<Rightarrow> 'a list" where
  "insert_after key d xs =
     takeWhile (\<lambda>x. key x \<le> key d) xs @ d # dropWhile (\<lambda>x. key x \<le> key d) xs"

lemma takeWhile_Some:
  assumes "compares cmp key"
  shows "takeWhile (\<lambda>x. \<not> cmp x (Some d) > 0) (map Some xs) = map Some (takeWhile (\<lambda>x. key x \<le> key d) xs)"
proof -
  have "\<And>x. (\<not> cmp (Some x) (Some d) > 0) = (key x \<le> key d)"
    using assms by (simp add: compares_def not_less)
  then show ?thesis by (simp add: takeWhile_map comp_def)
qed

lemma sortadd_ok:
  assumes A: "al_ok a" and xs: "contents a = map Some xs" and c: "compares cmp key"
  shows "\<exists>a'. zc_arraylist_sortadd True cmp (Some d) a = Inr (0, a') \<and> al_ok a' \<and>
     contents a' = map Some (insert_after key d xs)"
proof -
  note D = al_okD [OF A]
  let ?t = "takeWhile (\<lambda>x. key x \<le> key d) xs"
  have pos: "sort_pos cmp (Some d) (take (nat (al_len a)) (al_array a)) 0 = int (length ?t)"
    using takeWhile_Some [OF c, of d xs] xs by (simp add: sort_pos_eq flip: contents_def)
  have len: "al_len a = int (length xs)" using D(3,6) xs by simp
  show ?thesis
  proof (cases "length ?t = length xs")
    case True
    then have "?t = xs" by (metis take_all_iff takeWhile_eq_take order_refl)
    then have "insert_after key d xs = xs @ [d]" by (simp add: insert_after_def takeWhile_eq_all_conv)
    then show ?thesis
      using add_ok [OF A, of "Some d"] True pos len xs by (simp add: zc_arraylist_sortadd_def)
  next
    case False
    have lt: "length ?t < length xs" using False length_takeWhile_le [of _ xs] le_neq_implies_less by blast
    have "take (length ?t) xs = ?t" by (simp flip: takeWhile_eq_take)
    moreover have "drop (length ?t) xs = dropWhile (\<lambda>x. key x \<le> key d) xs" by (simp flip: dropWhile_eq_drop)
    ultimately have "take (length ?t) (map Some xs) @ Some d # drop (length ?t) (map Some xs) =
        map Some (insert_after key d xs)"
      by (simp add: insert_after_def take_map drop_map)
    then show ?thesis
      using insert_inner_ok [OF A, of "int (length ?t)" "Some d"] lt pos len xs
      by (simp add: zc_arraylist_sortadd_def)
  qed
qed

text \<open>Insertion after the equal elements, one by one, is the stable sort of the library.\<close>

lemma insert_after_sort: "insert_after key d (sort_key key zs) = sort_key key (zs @ [d])"
proof -
  let ?ys = "sort_key key zs" and ?P = "\<lambda>x. key x \<le> key d"
  have s: "sorted (map key ?ys)" by simp
  have big: "\<forall>x \<in> set (dropWhile ?P ?ys). key d < key x"
  proof
    fix x assume x: "x \<in> set (dropWhile ?P ?ys)"
    then have ne: "dropWhile ?P ?ys \<noteq> []" by (metis empty_iff empty_set)
    have "sorted (map key (dropWhile ?P ?ys))"
      using s by (metis dropWhile_eq_drop drop_map sorted_wrt_drop)
    then have "key (hd (dropWhile ?P ?ys)) \<le> key x"
      using x ne by (cases "dropWhile ?P ?ys") auto
    moreover have "\<not> ?P (hd (dropWhile ?P ?ys))" using ne by (rule hd_dropWhile)
    ultimately show "key d < key x" by simp
  qed
  have split: "?ys = takeWhile ?P ?ys @ dropWhile ?P ?ys" by simp
  have f: "filter (\<lambda>x. k = key x) (insert_after key d ?ys) = filter (\<lambda>x. k = key x) (zs @ [d])" for k
  proof -
    have F: "filter (\<lambda>x. k = key x) ?ys = filter (\<lambda>x. k = key x) zs" using sort_key_stable [of key k zs] by (simp add: eq_commute)
    have e: "key d = k \<Longrightarrow> filter (\<lambda>x. k = key x) (dropWhile ?P ?ys) = []"
      using big by (auto simp: filter_empty_conv)
    have "filter (\<lambda>x. k = key x) ?ys = filter (\<lambda>x. k = key x) (takeWhile ?P ?ys) @
        filter (\<lambda>x. k = key x) (dropWhile ?P ?ys)"
      by (subst split) (rule filter_append)
    then show ?thesis using F e by (auto simp: insert_after_def)
  qed
  have "sorted (map key (insert_after key d ?ys))"
  proof -
    have "sorted (map key (takeWhile ?P ?ys))" "sorted (map key (dropWhile ?P ?ys))"
      using s by (metis takeWhile_eq_take take_map sorted_wrt_take, metis dropWhile_eq_drop drop_map sorted_wrt_drop)
    then show ?thesis
      using big by (fastforce simp: insert_after_def sorted_append dest!: set_takeWhileD)
  qed
  moreover have "mset (insert_after key d ?ys) = mset (zs @ [d])"
    using arg_cong [OF split, of mset] by (simp add: insert_after_def del: takeWhile_dropWhile_id)
  ultimately show ?thesis by (intro properties_for_sort_key [symmetric] f) simp_all
qed

end
