(* ===== verification/ZlogLevel.thy ===== *)
theory ZlogLevel
  imports ZcArrayList
begin

text \<open>
  The levels of zlog, \<open>com/zlog/src/level.c\<close> and \<open>level_list.c\<close>: a level is parsed from a line of
  the configuration and stored in the growing array at its number. The \<open>sscanf\<close> format, \<open>toupper\<close>
  and \<open>strcasecmp\<close> of the C library are written out for ASCII. The priorities are those of
  \<open>syslog.h\<close>.
\<close>

subsection \<open>Characters and scanning\<close>

definition is_space :: "char \<Rightarrow> bool" where
  "is_space c \<longleftrightarrow> c \<in> {CHR '' '', CHR 0x09, CHR 0x0A, CHR 0x0B, CHR 0x0C, CHR 0x0D}"

definition is_digit :: "char \<Rightarrow> bool" where
  "is_digit c \<longleftrightarrow> 48 \<le> (of_char c :: nat) \<and> (of_char c :: nat) \<le> 57"

definition to_upper :: "char \<Rightarrow> char" where
  "to_upper c = (if 97 \<le> (of_char c :: nat) \<and> (of_char c :: nat) \<le> 122 then char_of ((of_char c :: nat) - 32) else c)"

definition to_lower :: "char \<Rightarrow> char" where
  "to_lower c = (if 65 \<le> (of_char c :: nat) \<and> (of_char c :: nat) \<le> 90 then char_of ((of_char c :: nat) + 32) else c)"

definition STRICMP_eq :: "string \<Rightarrow> string \<Rightarrow> bool" where
  "STRICMP_eq s t \<longleftrightarrow> map to_lower (cstr s) = map to_lower (cstr t)"

definition skip_ws :: "string \<Rightarrow> string" where
  "skip_ws s = dropWhile is_space s"

definition digits_value :: "string \<Rightarrow> int" where
  "digits_value s = foldl (\<lambda>n c. 10 * n + (of_char c - 48)) 0 s"

text \<open>\<open>%d\<close>: the value and the rest.\<close>

definition scan_int :: "string \<Rightarrow> (int \<times> string) option" where
  "scan_int s =
     (let s = skip_ws s;
          neg = (s \<noteq> [] \<and> hd s = CHR ''-'');
          s = (if s \<noteq> [] \<and> hd s \<in> {CHR ''-'', CHR ''+''} then tl s else s);
          ds = takeWhile is_digit s in
      if ds = [] then None
      else Some (if neg then - digits_value ds else digits_value ds, dropWhile is_digit s))"

definition name_char :: "char \<Rightarrow> bool" where
  "name_char c \<longleftrightarrow> c \<notin> {CHR ''='', CHR '' '', CHR 0x09}"

text \<open>\<open>sscanf (line, " %[^= \\t] = %d ,%s", str, &l, sl)\<close>: the count and what was stored.\<close>

definition scan_level :: "string \<Rightarrow> int \<times> string \<times> int \<times> string" where
  "scan_level line =
     (let r = skip_ws (cstr line); str = takeWhile name_char r; r1 = skip_ws (dropWhile name_char r) in
      if r = [] then (- 1, [], 0, [])
      else if str = [] then (0, [], 0, [])
      else if r1 = [] \<or> hd r1 \<noteq> CHR ''='' then (1, str, 0, [])
      else
        (case scan_int (tl r1) of
           None \<Rightarrow> (1, str, 0, [])
         | Some (l, r2) \<Rightarrow>
             (let r3 = skip_ws r2; sl = takeWhile (\<lambda>c. \<not> is_space c) (skip_ws (tl r3)) in
              if r3 = [] \<or> hd r3 \<noteq> CHR '','' \<or> sl = [] then (2, str, l, [])
              else (3, str, l, sl))))"

subsection \<open>Levels\<close>

record zlog_level =
  int_level :: int
  str_uppercase :: string
  str_lowercase :: string
  str_len :: nat
  syslog_level :: int

definition MAXLEN_PATH :: nat where "MAXLEN_PATH = 1024"

definition LOG_DEBUG :: int where "LOG_DEBUG = 7"

definition syslog_level_atoi :: "string \<Rightarrow> int" where
  "syslog_level_atoi str =
     (if STRICMP_eq str ''LOG_EMERG'' then 0
      else if STRICMP_eq str ''LOG_ALERT'' then 1
      else if STRICMP_eq str ''LOG_CRIT'' then 2
      else if STRICMP_eq str ''LOG_ERR'' then 3
      else if STRICMP_eq str ''LOG_WARNING'' then 4
      else if STRICMP_eq str ''LOG_NOTICE'' then 5
      else if STRICMP_eq str ''LOG_INFO'' then 6
      else if STRICMP_eq str ''LOG_DEBUG'' then 7
      else - 187)"

text \<open>\<open>ok\<close>: the allocation succeeds. The case copies hold the text up to its terminator.\<close>

definition zlog_level_new :: "bool \<Rightarrow> string \<Rightarrow> zlog_level option" where
  "zlog_level_new ok line =
     (let (nscan, str, l, sl) = scan_level line in
      if nscan < 2 then None
      else if l < 0 \<or> l > 255 then None
      else if str = [] then None
      else if \<not> ok then None
      else
        (let sys = (if sl = [] then LOG_DEBUG else syslog_level_atoi sl) in
         if sys = - 187 then None
         else if length str > MAXLEN_PATH then None
         else Some \<lparr>int_level = l, str_uppercase = map to_upper str, str_lowercase = map to_lower str,
                    str_len = length str, syslog_level = sys\<rparr>))"

subsection \<open>The list of levels\<close>

text \<open>\<open>ok1\<close>: the level is allocated; \<open>ok2\<close>: the array grows. A level that cannot be stored is freed.\<close>

definition zlog_level_list_set ::
  "bool \<Rightarrow> bool \<Rightarrow> string \<Rightarrow> zlog_level arraylist \<Rightarrow> stop + int \<times> zlog_level arraylist" where
  "zlog_level_list_set ok1 ok2 line levels =
     (case zlog_level_new ok1 line of
        None \<Rightarrow> Inr (- 1, levels)
      | Some a_level \<Rightarrow>
          bindE (zc_arraylist_set ok2 (int_level a_level) (Some a_level) levels)
            (\<lambda>(rc, levels). Inr (if rc \<noteq> 0 then - 1 else 0, levels)))"

definition default_lines :: "string list" where
  "default_lines =
     [''* = 0, LOG_INFO'', ''DEBUG = 20, LOG_DEBUG'', ''INFO = 40, LOG_INFO'', ''NOTICE = 60, LOG_NOTICE'',
      ''WARN = 80, LOG_WARNING'', ''ERROR = 100, LOG_ERR'', ''FATAL = 120, LOG_ALERT'',
      ''UNKNOWN = 254, LOG_ERR'', ''! = 255, LOG_INFO'']"

text \<open>The chain of \<open>||\<close>: it stops at the first line that cannot be set.\<close>

fun set_lines :: "string list \<Rightarrow> zlog_level arraylist \<Rightarrow> stop + int \<times> zlog_level arraylist" where
  "set_lines [] levels = Inr (0, levels)"
| "set_lines (line # rest) levels =
     bindE (zlog_level_list_set True True line levels)
       (\<lambda>(rc, levels). if rc \<noteq> 0 then Inr (1, levels) else set_lines rest levels)"

definition zlog_level_list_set_default :: "zlog_level arraylist \<Rightarrow> stop + int \<times> zlog_level arraylist" where
  "zlog_level_list_set_default levels = set_lines default_lines levels"

definition zlog_level_list_new :: "stop + zlog_level arraylist option" where
  "zlog_level_list_new =
     (case zc_arraylist_new True True True of
        None \<Rightarrow> Inr None
      | Some levels \<Rightarrow>
          bindE (zlog_level_list_set_default levels)
            (\<lambda>(rc, levels). Inr (if rc \<noteq> 0 then None else Some levels)))"

definition zlog_level_list_get :: "zlog_level arraylist \<Rightarrow> int \<Rightarrow> stop + zlog_level option" where
  "zlog_level_list_get levels l =
     bindE (zc_arraylist_get levels l)
       (\<lambda>a_level. case a_level of Some x \<Rightarrow> Inr (Some x) | None \<Rightarrow> zc_arraylist_get levels 254)"

text \<open>The loop of \<open>zlog_level_list_atoi\<close> over the slots below \<open>len\<close>.\<close>

fun find_level :: "string \<Rightarrow> zlog_level option list \<Rightarrow> int \<Rightarrow> int" where
  "find_level str [] i = - 1"
| "find_level str (x # xs) i =
     (case x of
        Some a_level \<Rightarrow>
          if STRICMP_eq str (str_uppercase a_level) then i else find_level str xs (i + 1)
      | None \<Rightarrow> find_level str xs (i + 1))"

definition zlog_level_list_atoi :: "zlog_level arraylist \<Rightarrow> string option \<Rightarrow> int" where
  "zlog_level_list_atoi levels str =
     (case str of
        None \<Rightarrow> - 1
      | Some s \<Rightarrow>
          if cstr s = [] then - 1
          else find_level s (take (nat (al_len levels)) (al_array levels)) 0)"

subsection \<open>Lookup by number\<close>

definition level_at :: "zlog_level arraylist \<Rightarrow> nat \<Rightarrow> zlog_level option" where
  "level_at a i = (if i < length (contents a) then contents a ! i else None)"

lemma get_level_at:
  assumes "al_ok a" and "0 \<le> l"
  shows "zc_arraylist_get a l = Inr (level_at a (nat l))"
proof (cases "l < al_len a")
  case True
  then show ?thesis
    using assms al_okD [OF assms(1)]
    by (simp add: zc_arraylist_get_def slot_def level_at_def nth_append)
next
  case False
  then show ?thesis using al_okD(3,6) [OF assms(1)] by (simp add: zc_arraylist_get_def level_at_def)
qed

lemma nth_put_slot:
  "(if j < length (put_slot i d cs) then put_slot i d cs ! j else None) =
   (if j = i then d else if j < length cs then cs ! j else None)"
  by (auto simp: put_slot_def nth_append nth_Cons')

text \<open>Once the array has all 256 slots, every level of a line can be stored.\<close>

lemma level_range: "zlog_level_new ok line = Some x \<Longrightarrow> 0 \<le> int_level x \<and> int_level x \<le> 255"
  by (auto simp: zlog_level_new_def Let_def split: prod.splits if_splits)

lemma level_set_ok:
  assumes "al_ok a" and "zlog_level_new True line = Some x" and "int_level x < 2 * al_size a"
  shows "\<exists>a'. zlog_level_list_set True True line a = Inr (0, a') \<and> al_ok a' \<and>
     al_size a' = (if int_level x < al_size a then al_size a else 2 * al_size a) \<and>
     (\<forall>j. level_at a' j = (if j = nat (int_level x) then Some x else level_at a j))"
proof -
  have r: "0 \<le> int_level x" using level_range [OF assms(2)] by simp
  obtain a' where a': "zc_arraylist_set True (int_level x) (Some x) a = Inr (0, a')" "al_ok a'"
    "contents a' = put_slot (nat (int_level x)) (Some x) (contents a)"
    "al_size a' = (if int_level x < al_size a then al_size a else 2 * al_size a)"
    using set_ok [OF assms(1) r assms(3), of "Some x"] by blast
  have "level_at a' j = (if j = nat (int_level x) then Some x else level_at a j)" for j
    unfolding level_at_def a'(3) by (rule nth_put_slot)
  then show ?thesis using a' assms(2) by (simp add: zlog_level_list_set_def)
qed

text \<open>
  The sizes the array goes through and the levels it holds, for lines that all parse to levels it
  can store.
\<close>

fun sizes_fit :: "int \<Rightarrow> zlog_level list \<Rightarrow> bool" where
  "sizes_fit n [] \<longleftrightarrow> True"
| "sizes_fit n (x # xs) \<longleftrightarrow>
     int_level x < 2 * n \<and> sizes_fit (if int_level x < n then n else 2 * n) xs"

definition add_level :: "zlog_level \<Rightarrow> (nat \<Rightarrow> zlog_level option) \<Rightarrow> nat \<Rightarrow> zlog_level option" where
  "add_level x m = (\<lambda>j. if j = nat (int_level x) then Some x else m j)"

lemma set_lines_ok:
  assumes "al_ok a" and "map (zlog_level_new True) lines = map Some xs" and "sizes_fit (al_size a) xs"
  shows "\<exists>a'. set_lines lines a = Inr (0, a') \<and> al_ok a' \<and> level_at a' = fold add_level xs (level_at a)"
  using assms
proof (induction lines arbitrary: a xs)
  case (Cons line lines)
  obtain x ys where xs: "xs = x # ys" and x: "zlog_level_new True line = Some x"
    and ys: "map (zlog_level_new True) lines = map Some ys"
    using Cons.prems(2) by (cases xs) auto
  have fit: "int_level x < 2 * al_size a" using Cons.prems(3) xs by simp
  obtain b where b: "zlog_level_list_set True True line a = Inr (0, b)" "al_ok b"
    "al_size b = (if int_level x < al_size a then al_size a else 2 * al_size a)"
    and l: "\<And>j. level_at b j = (if j = nat (int_level x) then Some x else level_at a j)"
    using level_set_ok [OF Cons.prems(1) x fit] by blast
  have "level_at b = add_level x (level_at a)" using l by (auto simp: add_level_def)
  moreover have "sizes_fit (al_size b) ys" using Cons.prems(3) xs b(3) by simp
  ultimately show ?case using Cons.IH [OF b(2) ys] b(1) xs by auto
qed simp

lemma get_negative: "l < 0 \<Longrightarrow> al_ok a \<Longrightarrow> zlog_level_list_get a l = Inl (Out_Of_Bounds ''array'')"
  using al_okD(3) [of a] by (simp add: zlog_level_list_get_def zc_arraylist_get_def slot_def)

end
