(* ===== verification/ZlogProps.thy ===== *)
theory ZlogProps
  imports ZcHashLaws ZlogLevel
begin

text \<open>Properties of the zlog containers and levels, each with a concrete instance.\<close>

subsection \<open>The hash table\<close>

text \<open>A client of a string table, and the map it would use instead.\<close>

datatype 'v table_op = Put string 'v | Remove string

fun run_table :: "'v table_op list \<Rightarrow> (string, 'v) hashtable \<Rightarrow> stop + (string, 'v) hashtable" where
  "run_table [] a = Inr a"
| "run_table (Put k v # ops) a =
     bindE (zc_hashtable_put True True k v a) (\<lambda>(rc, a'). run_table ops a')"
| "run_table (Remove k # ops) a = bindE (zc_hashtable_remove (Some k) a) (run_table ops)"

fun run_map :: "'v table_op list \<Rightarrow> (string \<Rightarrow> 'v option) \<Rightarrow> string \<Rightarrow> 'v option" where
  "run_map [] m = m"
| "run_map (Put k v # ops) m = run_map ops (m(cstr k \<mapsto> v))"
| "run_map (Remove k # ops) m = run_map ops (m(cstr k := None))"

lemma run_table_map:
  assumes "str_table.table_ok a"
  shows "\<exists>a'. run_table ops a = Inr a' \<and> str_table.table_ok a' \<and>
     str_table.table_map a' = run_map ops (str_table.table_map a)"
  using assms
proof (induction ops arbitrary: a)
  case (Cons operation ops)
  show ?case
  proof (cases operation)
    case (Put k v)
    obtain a' where "zc_hashtable_put True True k v a = Inr (0, a')" "str_table.table_ok a'"
      "str_table.table_map a' = (str_table.table_map a)(cstr k \<mapsto> v)"
      using str_table.put_map [OF Cons.prems] by blast
    note P = this
    show ?thesis using Cons.IH [OF P(2)] unfolding P(3) by (simp add: Put P(1) fun_upd_def)
  next
    case (Remove k)
    obtain a' where "zc_hashtable_remove (Some k) a = Inr a'" "str_table.table_ok a'"
      "str_table.table_map a' = (str_table.table_map a)(cstr k := None)"
      using str_table.remove_map [OF Cons.prems] by blast
    note P = this
    show ?thesis using Cons.IH [OF P(2)] unfolding P(3) by (simp add: Remove P(1) fun_upd_def)
  qed
qed simp

text \<open>
  C26: A string table with at least one bucket implements a map, through any sequence of insertions and
  removals and however often it is rehashed on the way: a lookup returns the value of the map, the
  loop over the entries visits every entry once, and the element count is their number.
\<close>

theorem zc_hashtable_refines_map:
  assumes "zc_hashtable_new True True n zc_hashtable_str_hash zc_hashtable_str_equal kd vd = Some a"
    and "0 < n"
  shows "\<exists>a' es. run_table ops a = Inr a' \<and>
     (\<forall>k. zc_hashtable_get a' k = Inr (run_map ops Map.empty (cstr k))) \<and>
     zc_hashtable_foreach a' = Some es \<and> distinct (map (cstr \<circ> he_key) es) \<and>
     map_of (map (\<lambda>p. (cstr (he_key p), he_value p)) es) = run_map ops Map.empty \<and>
     nelem a' = length es"
proof -
  note N = str_table.new_ok [OF assms]
  obtain a' where r: "run_table ops a = Inr a'" and ok: "str_table.table_ok a'"
    and m: "str_table.table_map a' = run_map ops Map.empty"
    using run_table_map [OF N(1), of ops] N(2) by metis
  note D = str_table.table_okD [OF ok]
  have "zc_hashtable_foreach a' = Some (concat (tab a'))" by (rule foreach_concat [OF D(4)])
  moreover have "distinct (map (cstr \<circ> he_key) (concat (tab a')))"
    using D(6) by (simp add: str_table.items_def comp_def)
  moreover have "map_of (map (\<lambda>p. (cstr (he_key p), he_value p)) (concat (tab a'))) = run_map ops Map.empty"
    using m by (simp add: str_table.table_map_def str_table.items_def)
  ultimately show ?thesis using r D(7) str_table.get_map [OF ok] m by auto
qed

text \<open>One bucket, so that the third insertion rehashes.\<close>

definition demo_table :: "(string, nat) hashtable" where
  "demo_table =
     \<lparr>nelem = 0, tab = [[]], ht_hash = zc_hashtable_str_hash, ht_equal = zc_hashtable_str_equal,
      has_key_del = True, has_value_del = False, del_log = []\<rparr>"

theorem zc_hashtable_refines_map_witness:
  "\<exists>a'. run_table [Put ''a'' 1, Put ''b'' 2, Put ''c'' 3, Put ''a'' 4, Remove ''b''] demo_table = Inr a' \<and>
     zc_hashtable_get a' ''a'' = Inr (Some (4 :: nat)) \<and> zc_hashtable_get a' ''b'' = Inr None"
  using zc_hashtable_refines_map [of 1 True False demo_table
      "[Put ''a'' 1, Put ''b'' 2, Put ''c'' 3, Put ''a'' 4, Remove ''b'']"]
  by (auto simp: demo_table_def zc_hashtable_new_def cstr_def)

subsection \<open>The growing array\<close>

fun sortadd_all ::
  "('a option \<Rightarrow> 'a option \<Rightarrow> int) \<Rightarrow> 'a list \<Rightarrow> 'a arraylist \<Rightarrow> stop + 'a arraylist" where
  "sortadd_all cmp [] a = Inr a"
| "sortadd_all cmp (x # xs) a =
     bindE (zc_arraylist_sortadd True cmp (Some x) a) (\<lambda>(rc, a'). sortadd_all cmp xs a')"

text \<open>
  C35: Adding elements one by one with \<open>zc_arraylist_sortadd\<close> to a new list gives their stable sort: in
  order, and equal elements in the order in which they were added.
\<close>

theorem zc_arraylist_sortadd_is_stable_sort:
  assumes "zc_arraylist_new d True True = Some a" and "compares cmp key"
  shows "\<exists>a'. sortadd_all cmp xs a = Inr a' \<and> contents a' = map Some (sort_key key xs)"
proof -
  have "\<exists>a'. sortadd_all cmp xs a = Inr a' \<and> contents a' = map Some (sort_key key (zs @ xs))"
    if "al_ok a" "contents a = map Some (sort_key key zs)" for a zs
    using that
  proof (induction xs arbitrary: a zs)
    case (Cons x xs)
    obtain b where "zc_arraylist_sortadd True cmp (Some x) a = Inr (0, b)" "al_ok b"
      "contents b = map Some (sort_key key (zs @ [x]))"
      using sortadd_ok [OF Cons.prems assms(2), of x] insert_after_sort [of key x zs] by metis
    then show ?case using Cons.IH [of b "zs @ [x]"] by simp
  qed simp
  from this [of a "[]"] zc_arraylist_new_ok [OF assms(1)] show ?thesis by simp
qed

definition int_cmp :: "int option \<Rightarrow> int option \<Rightarrow> int" where
  "int_cmp x y = (case (x, y) of (Some a, Some b) \<Rightarrow> a - b | _ \<Rightarrow> 0)"

theorem zc_arraylist_sortadd_is_stable_sort_witness:
  "\<exists>a a'. zc_arraylist_new False True True = Some a \<and> sortadd_all int_cmp [3, 1, 2] a = Inr a' \<and>
     contents a' = [Some 1, Some 2, Some (3 :: int)]"
proof -
  obtain a :: "int arraylist" where a: "zc_arraylist_new False True True = Some a"
    by (simp add: zc_arraylist_new_def)
  have "compares int_cmp (\<lambda>x. x)" by (simp add: compares_def int_cmp_def)
  from zc_arraylist_sortadd_is_stable_sort [OF a this, of "[3, 1, 2]"] a show ?thesis by auto
qed

text \<open>
  A store at an index below twice the size grows the array and fills the gap with empty slots; a
  store further up grows it to exactly \<open>idx\<close> slots and then writes slot \<open>idx\<close>, one past the end.
\<close>

theorem zc_arraylist_set_bounds:
  assumes "al_ok a" and "0 \<le> idx"
  shows "(idx < 2 * al_size a \<longrightarrow>
       (\<exists>a'. zc_arraylist_set True idx d a = Inr (0, a') \<and> al_ok a' \<and>
          contents a' = put_slot (nat idx) d (contents a))) \<and>
     (2 * al_size a \<le> idx \<longrightarrow> zc_arraylist_set True idx d a = Inl (Out_Of_Bounds ''array''))"
  using set_ok [OF assms] set_beyond [OF assms(1)] by blast

theorem zc_arraylist_set_bounds_witness:
  "\<exists>a :: nat arraylist. zc_arraylist_new False True True = Some a \<and>
     zc_arraylist_set True 64 (Some 7) a = Inl (Out_Of_Bounds ''array'')"
proof -
  obtain a :: "nat arraylist" where a: "zc_arraylist_new False True True = Some a" "al_size a = 32"
    by (simp add: zc_arraylist_new_def ARRAY_LIST_DEFAULT_SIZE_def)
  then show ?thesis using zc_arraylist_set_bounds [OF zc_arraylist_new_ok(1) [OF a(1)], of 64 "Some 7"] by simp
qed

subsection \<open>Levels\<close>

definition mk_level :: "int \<Rightarrow> string \<Rightarrow> string \<Rightarrow> int \<Rightarrow> zlog_level" where
  "mk_level n up low sys =
     \<lparr>int_level = n, str_uppercase = up, str_lowercase = low, str_len = length up, syslog_level = sys\<rparr>"

definition default_levels :: "zlog_level list" where
  "default_levels =
     [mk_level 0 ''*'' ''*'' 6, mk_level 20 ''DEBUG'' ''debug'' 7, mk_level 40 ''INFO'' ''info'' 6,
      mk_level 60 ''NOTICE'' ''notice'' 5, mk_level 80 ''WARN'' ''warn'' 4,
      mk_level 100 ''ERROR'' ''error'' 3, mk_level 120 ''FATAL'' ''fatal'' 1,
      mk_level 254 ''UNKNOWN'' ''unknown'' 3, mk_level 255 ''!'' ''!'' 6]"

lemmas level_parse = zlog_level_new_def scan_level_def skip_ws_def scan_int_def is_space_def
  name_char_def is_digit_def digits_value_def cstr_def Let_def syslog_level_atoi_def STRICMP_eq_def
  to_lower_def to_upper_def char_of_def bit_iff_odd MAXLEN_PATH_def LOG_DEBUG_def mk_level_def

lemma default_line_levels:
  "zlog_level_new True ''* = 0, LOG_INFO'' = Some (mk_level 0 ''*'' ''*'' 6)"
  "zlog_level_new True ''DEBUG = 20, LOG_DEBUG'' = Some (mk_level 20 ''DEBUG'' ''debug'' 7)"
  "zlog_level_new True ''INFO = 40, LOG_INFO'' = Some (mk_level 40 ''INFO'' ''info'' 6)"
  "zlog_level_new True ''NOTICE = 60, LOG_NOTICE'' = Some (mk_level 60 ''NOTICE'' ''notice'' 5)"
  "zlog_level_new True ''WARN = 80, LOG_WARNING'' = Some (mk_level 80 ''WARN'' ''warn'' 4)"
  "zlog_level_new True ''ERROR = 100, LOG_ERR'' = Some (mk_level 100 ''ERROR'' ''error'' 3)"
  "zlog_level_new True ''FATAL = 120, LOG_ALERT'' = Some (mk_level 120 ''FATAL'' ''fatal'' 1)"
  "zlog_level_new True ''UNKNOWN = 254, LOG_ERR'' = Some (mk_level 254 ''UNKNOWN'' ''unknown'' 3)"
  "zlog_level_new True ''! = 255, LOG_INFO'' = Some (mk_level 255 ''!'' ''!'' 6)"
  by (simp_all add: level_parse)

lemma default_lines_parse: "map (zlog_level_new True) default_lines = map Some default_levels"
  by (simp add: default_lines_def default_levels_def default_line_levels)

definition level_named :: "zlog_level list \<Rightarrow> int \<Rightarrow> zlog_level option" where
  "level_named xs l = List.find (\<lambda>x. int_level x = l) xs"

lemma default_level_at:
  assumes "0 \<le> l"
  shows "fold add_level default_levels (\<lambda>_. None) (nat l) = level_named default_levels l"
  using assms by (simp add: default_levels_def add_level_def level_named_def mk_level_def nat_eq_iff)

text \<open>
  The list of levels that zlog starts with holds its nine levels: a lookup of a number that is not
  negative gives the level of that number, and \<open>UNKNOWN\<close>, number 254, when there is none. The test
  for illegal numbers is disabled in the code: a negative number reads in front of the array.
\<close>

theorem zlog_level_list_lookup:
  "\<exists>levels. zlog_level_list_new = Inr (Some levels) \<and>
     (\<forall>l. zlog_level_list_get levels l =
        (if l < 0 then Inl (Out_Of_Bounds ''array'')
         else Inr (level_named default_levels (if level_named default_levels l = None then 254 else l))))"
proof -
  obtain a :: "zlog_level arraylist" where a: "zc_arraylist_new True True True = Some a" "al_size a = 32"
    by (simp add: zc_arraylist_new_def ARRAY_LIST_DEFAULT_SIZE_def)
  note A = zc_arraylist_new_ok [OF a(1)]
  have fit: "sizes_fit (al_size a) default_levels" by (simp add: a(2) default_levels_def mk_level_def)
  obtain b where b: "set_lines default_lines a = Inr (0, b)" "al_ok b"
    "level_at b = fold add_level default_levels (level_at a)"
    using set_lines_ok [OF A(1) default_lines_parse fit] by blast
  have "level_at a = (\<lambda>_. None)" by (simp add: level_at_def A(2) fun_eq_iff)
  then have at: "level_at b (nat l) = level_named default_levels l" if "0 \<le> l" for l
    using default_level_at [OF that] b(3) by simp
  have get: "zlog_level_list_get b l =
      Inr (level_named default_levels (if level_named default_levels l = None then 254 else l))"
    if "0 \<le> l" for l
    using get_level_at [OF b(2) that] get_level_at [OF b(2), of 254] at [OF that] at [of 254]
    by (simp add: zlog_level_list_get_def split: option.splits)
  have new: "zlog_level_list_new = Inr (Some b)"
    using a(1) b(1) by (simp add: zlog_level_list_new_def zlog_level_list_set_default_def)
  show ?thesis
  proof (intro exI conjI allI)
    show "zlog_level_list_new = Inr (Some b)" by (rule new)
    fix l
    show "zlog_level_list_get b l =
        (if l < 0 then Inl (Out_Of_Bounds ''array'')
         else Inr (level_named default_levels (if level_named default_levels l = None then 254 else l)))"
      using get [of l] get_negative [OF _ b(2), of l] by simp
  qed
qed

end
