(* ===== verification/Spec2Isabelle.thy ===== *)
theory Spec2Isabelle
  imports ElogProps ElogFile ClockProps DriProps RingProps HeapProps TimerProps SchedProps EventProps MsgProps ZlogProps
begin

text \<open>
  A verification of the firmware of the N32L40X well-lid board: the application under
  \<open>projects/well_lid/src\<close>, the peripheral drivers it calls under
  \<open>firmware/n32l40x_std_periph_driver\<close>, and the data structures of the middleware it is shipped
  with, RT-Thread under \<open>middlewares/rt-thread\<close> and zlog under \<open>projects/well_lid/src/com/zlog\<close>.

  \<^bold>\<open>The parts and how they interact.\<close> \<open>main.c\<close> sets up the clock tree, the tick, the LED and the console
  and then prints and waits in a loop. The clock configuration drives the RCC and the flash
  registers; the console drives the LPUART, whose baud rate depends on the clock; the delay waits
  on the counter that the tick interrupt advances. EasyLogger is the logging library of the
  application. RT-Thread and zlog are parts of the tree that the application does not call yet;
  their containers, allocator and timers are modelled on their own.

  \<^bold>\<open>Shared theories.\<close> \<open>Prelude\<close>: the error sum \<open>stop + 'a\<close>, in which every failed assertion,
  out-of-bounds access, null pointer, uninitialised read and division by zero is a value; byte
  arrays and C strings. \<open>CStdio\<close>: the conversions of \<open>snprintf\<close> the sources use. \<open>Mcu\<close>: the registers
  of the device header and the access monad: an access is an event of a history, and what a read
  returns is decided by a hardware function of the history, so that every theorem over all
  hardware functions covers every behaviour of the status bits. \<open>Fifo\<close>: the bounded queue as a
  locale and a reference queue. \<open>RtList\<close>: the circular doubly linked lists of \<open>rtservice.h\<close>, as
  assignments to link fields, and the relation \<open>dlist\<close> between the links and a list.

  \<^bold>\<open>EasyLogger\<close> (\<open>com/easylogger\<close>). \<open>ElogUtils\<close>: \<open>elog_utils.c\<close>. \<open>ElogBuf\<close>: the state of \<open>elog.h\<close> as
  a record, the port with its events, the lock, and \<open>elog_buf.c\<close>; the locale \<open>log_sink\<close> is what line
  output needs of a sink, interpreted on the buffered output. \<open>ElogFilter\<close>: settings, filters and
  the table of tag levels; the locale \<open>bounded_table\<close> is interpreted on it. \<open>ElogOutput\<close>, \<open>ElogLine\<close>:
  \<open>elog_output\<close> and the reference line it is compared with. \<open>ElogEffect\<close>: the effect of whole
  calls on a well-formed logger and the lock. \<open>ElogHexdump\<close>, \<open>ElogLife\<close>, \<open>ElogFile\<close>: the hex dump
  with its 16-bit counter, initialisation and shut-down, and the file plugin with its rotation.
  \<open>ElogProps\<close> states the properties.

  \<^bold>\<open>Clock tree\<close> (\<open>n32l40x_rcc.c\<close>, \<open>n32l40x_flash.c\<close>, \<open>dri/dri_ClockConfig.c\<close>). \<open>Rcc\<close> and \<open>RccPeriph\<close>
  are the driver, \<open>ClockConfig\<close> the configuration functions. \<open>ClockLaws\<close> runs them, \<open>ClockSafety\<close> is
  the order of ready tests and switches, \<open>ClockBound\<close> the bound on the register accesses.
  \<open>ClockProps\<close> states the properties.

  \<^bold>\<open>Pins, console, tick and main program.\<close> \<open>Gpio\<close>, \<open>GpioLaws\<close>: \<open>n32l40x_gpio.c\<close>,
  with a pin seen through the fields of its port, its output and its EXTI line. \<open>Lpuart\<close>,
  \<open>LpuartLaws\<close>: \<open>n32l40x_lpuart.c\<close> and the fractional divider. \<open>Board\<close>, \<open>BoardLaws\<close>: \<open>dri_usart.c\<close> and
  \<open>int_LED.c\<close>. \<open>Systick\<close>, \<open>MainLaws\<close>: \<open>dri_Systick.c\<close>, \<open>n32l40x_it.c\<close> and \<open>main.c\<close>, with the tick
  interrupt running any number of times between two reads. \<open>DriProps\<close> states the properties.

  \<^bold>\<open>RT-Thread.\<close> \<open>RingBuffer\<close>, \<open>RingLaws\<close>, \<open>RingProps\<close>: \<open>ringbuffer.c\<close> against a list of bytes; the
  locale \<open>bounded_fifo\<close> is interpreted on its character operations. \<open>Heap\<close>, \<open>HeapLaws\<close>, \<open>HeapOps\<close>,
  \<open>HeapProps\<close>: the allocator of \<open>mem.c\<close>, its invariant, the states a correct client reaches, which requests
  are refused and what the others get, for every size of 32 bits.
  \<open>Timer\<close>, \<open>TimerLaws\<close>, \<open>TimerOrder\<close>, \<open>TimerProps\<close>: \<open>timer.c\<close> and the counter of \<open>clock.c\<close> over \<open>RtList\<close>,
  with the timeout functions as an argument; deadlines are compared as signed distances to the tick.
  The timer state is extensible: the kernel state extends it.

  \<^bold>\<open>The kernel of RT-Thread\<close> (\<open>scheduler.c\<close>, \<open>thread.c\<close>, \<open>irq.c\<close>, \<open>idle.c\<close>, \<open>clock.c\<close>, \<open>__rt_ffs\<close> of
  \<open>kservice.c\<close>). \<open>RtFamily\<close>: several disjoint lists in one set of links, between which a node moves.
  \<open>RtFfs\<close>: the bit search and its table. \<open>Sched\<close>: the state and every operation. \<open>SchedLaws\<close>: the
  invariant of the ready lists, the bitmap and the threads, with \<open>ready_order\<close>, the ready threads in
  the order in which they are served. \<open>ThreadLaws\<close>: the kernel invariant \<open>kernel_ok\<close>, which ties the
  status of a thread to its lists and its timer, kept by suspending, resuming, timing out and
  yielding. \<open>ThreadOps\<close>: priorities, start and end of threads. \<open>TickLaws\<close>: the tick, which wakes every
  thread whose time has come. \<open>SchedBoot\<close>: the first state. \<open>SchedCalls\<close>: the calls as a datatype,
  when each is allowed, and the reachable states. \<open>SchedProps\<close> states the properties.

  \<^bold>\<open>Inter-thread communication\<close> (\<open>ipc.c\<close>). \<open>Ipc\<close>: the list of waiting threads, semaphores and mutexes;
  the state extends that of the kernel by the objects, and the list of an object is a further list
  of its family. A blocking call is cut at \<open>rt_schedule\<close>: the part behind it is the definition \<open>..._woken\<close>,
  which the thread runs when it is chosen again. \<open>IpcLaws\<close>: waiting, waking and reset; the locale
  \<open>wait_policy\<close> is what the order of the waiting threads promises, interpreted on both flags.
  \<open>SemLaws\<close>, \<open>MutexLaws\<close>: the effect of each call. \<open>MutexSpec\<close>: an abstract machine of mutexes with
  priority inheritance and the discipline under which it is correct. \<open>IpcCalls\<close>, \<open>IpcRuns\<close>: every call keeps
  the invariant and is a step of that machine; whole runs from boot. \<open>IpcProps\<close> states the properties.
  \<open>Event\<close>, \<open>EventLaws\<close>, \<open>EventProps\<close>: events, against an operation on sets of bits, and the invariant
  that no thread waits for bits that are there. \<open>Mailbox\<close>, \<open>MailboxLaws\<close>, \<open>MailboxProps\<close>: the ring of mails as a
  \<open>bounded_fifo\<close>, and runs whose log is a history of bounded queues. \<open>MsgQueue\<close>, \<open>MsgLaws\<close>, \<open>MsgCalls\<close>,
  \<open>MsgProps\<close>: message queues, whose calls copy with interrupts enabled and are therefore sequences of sections;
  the lists of nodes against a view with the messages and the nodes that calls hold, and runs in which the sections
  interleave in any order.

  \<^bold>\<open>zlog.\<close> \<open>ZcArrayList\<close>: the growing array against lists and the stable sort. \<open>ZcHashtable\<close>,
  \<open>ZcHashLaws\<close>: the hash table against a map; the locale \<open>keyed\<close> is the contract between equality
  and hash function, interpreted on the string functions. \<open>ZlogLevel\<close>: levels and their list.
  \<open>ZlogProps\<close> states the properties.

  \<^bold>\<open>Loops.\<close> A bounded loop is a structural or measured recursion. A loop that may not end (waiting for
  a flag, walking links, firing timers, a wrapping counter) is a partial function whose value is
  \<open>None\<close> when it does not return, so that returning is part of every statement. The timed waits of
  the clock code keep the bounds of the source: the count-down of \<open>SetSysClockToPLL\<close> from \<open>0xFFFFFF\<close>
  and the start-up time-outs of \<open>n32l40x.h\<close>. No fuel is used.

  \<^bold>\<open>Integers.\<close> Registers and \<open>uint32_t\<close> values are words. Lengths and indices are natural numbers or
  integers with every reduction of a store written out where the code can leave the range.

  \<^bold>\<open>Assumptions about code outside the repository.\<close> The text \<open>vsnprintf\<close> produces is an argument of
  \<open>elog_output\<close>; files are an abstract map; whether an allocation succeeds is an argument; the C
  library sends a text character by character through \<open>fputc\<close>. The delay and the main loop are
  stated for a hardware on which the transmitter completes and a tick that advances; the
  configuration of a pin for configuration registers that keep what is written and registers to set and reset outputs
  that read as zero.

  \<^bold>\<open>Not modelled.\<close> The asynchronous output of EasyLogger, which is commented out as a whole; the
  peripheral drivers the application does not call; vendored headers and binary libraries; start-up
  and context-switch assembly; the object registry, the memory
  pool and the rest of the kernel service library of RT-Thread and its components; the
  buffers, formats, rules and rotation of zlog. The debug dump of the timers, the hooks, memory
  tracing and the shell commands are not compiled in the modelled configuration.
\<close>

end
